(* ===== verification/Prelude.thy ===== *)
theory Prelude
  imports Main "HOL-Library.Word" "HOL-Library.Monad_Syntax"
begin

text \<open>
  Shared vocabulary of the development: the machine integer types of the source (an LP64
  kernel: \<open>unsigned long\<close> and \<open>uint64_t\<close> are 64-bit words), the two wrap-around comparisons
  the code makes by casting a difference to \<open>int64_t\<close>, and the generic facts about words,
  lists and options that the component theories share.

  A computation that can panic, fail a KASSERT or MPASS, or follow a null pointer has a
  result of type \<open>option\<close>: None is that crash. The do-notation of Monad_Syntax sequences
  such computations.
\<close>

type_synonym u64 = "64 word"
type_synonym u32 = "32 word"
type_synonym u8 = "8 word"

named_theorems frame_simps \<open>what an operation leaves unchanged\<close>

section \<open>Signed reading of 64-bit differences\<close>

lemma sint_64_eq: "sint (w::u64) = signed_take_bit 63 (uint w)"
  unfolding sint_uint by simp

lemma uint_64_lt: "uint (w::u64) < 18446744073709551616"
  using uint_lt2p [of w] by simp

lemma sint_64_pos: "uint (w::u64) < 9223372036854775808 \<Longrightarrow> sint w = uint w"
  unfolding sint_64_eq
  by (rule signed_take_bit_int_eq_self) (use uint_ge_0 [of w] in \<open>simp_all, linarith\<close>)

lemma sint_64_neg:
  assumes "9223372036854775808 \<le> uint (w::u64)"
  shows "sint w = uint w - 18446744073709551616"
proof -
  have "signed_take_bit 63 (uint w) = signed_take_bit 63 (uint w - 2 ^ Suc 63)"
    unfolding signed_take_bit_eq_iff_take_bit_eq
    by (simp only: take_bit_eq_mod minus_mod_self2)
  also have "\<dots> = uint w - 2 ^ Suc 63"
    by (rule signed_take_bit_int_eq_self) (use assms uint_64_lt [of w] in simp_all)
  finally show ?thesis by (simp add: sint_64_eq)
qed

lemma uint_sub_64:
  "uint (x - y :: u64) =
     (if uint y \<le> uint x then uint x - uint y else uint x - uint y + 18446744073709551616)"
  using uint_64_lt [of x] uint_64_lt [of y] by (simp add: uint_sub_if')

lemma sint_64_neg_iff: "sint (w::u64) < 0 \<longleftrightarrow> 9223372036854775808 \<le> uint w"
  using sint_64_pos [of w] sint_64_neg [of w] uint_64_lt [of w] uint_ge_0 [of w] by linarith

lemma sint_64_gt_iff: "0 < sint (w::u64) \<longleftrightarrow> w \<noteq> 0 \<and> uint w < 9223372036854775808"
proof -
  have "w = 0 \<longleftrightarrow> uint w = 0" by (simp add: word_uint_eq_iff)
  then show ?thesis
    using sint_64_pos [of w] sint_64_neg [of w] uint_64_lt [of w] uint_ge_0 [of w] by linarith
qed

section \<open>Windows: where the wrap-around order is a linear order\<close>

text \<open>
  The code orders 64-bit times by the sign of their difference. That relation is cyclic on
  the whole type; on a half-open window of length \<open>2 ^ 63\<close> that starts at \<open>b\<close> it is the order
  of the distances from \<open>b\<close>.
\<close>

definition win_dist :: "u64 \<Rightarrow> u64 \<Rightarrow> int" where
  "win_dist b x = uint (x - b)"

definition in_window :: "u64 \<Rightarrow> u64 \<Rightarrow> bool" where
  "in_window b x \<longleftrightarrow> win_dist b x < 9223372036854775808"

lemma in_window_self [simp]: "in_window b b"
  by (simp add: in_window_def win_dist_def)

lemma diff_via_base: "x - y = (x - b) - (y - b :: u64)"
  by simp

lemma sint_diff_window:
  assumes "in_window b x" "in_window b y"
  shows "sint (x - y) = win_dist b x - win_dist b y"
proof -
  define p q where "p = x - b" and "q = y - b"
  have bounds: "uint p < 9223372036854775808" "uint q < 9223372036854775808"
    using assms by (simp_all add: in_window_def win_dist_def p_def q_def)
  have "sint (p - q) = uint p - uint q"
  proof (cases "uint q \<le> uint p")
    case True
    then have "uint (p - q) = uint p - uint q" by (simp add: uint_sub_64)
    then show ?thesis using sint_64_pos [of "p - q"] bounds uint_ge_0 [of q] by linarith
  next
    case False
    then have "uint (p - q) = uint p - uint q + 18446744073709551616" by (simp add: uint_sub_64)
    then show ?thesis using sint_64_neg [of "p - q"] bounds uint_ge_0 [of p] by linarith
  qed
  then show ?thesis
    by (simp add: p_def q_def win_dist_def)
qed

lemma wrap_less_window:
  "in_window b x \<Longrightarrow> in_window b y \<Longrightarrow> sint (x - y) < 0 \<longleftrightarrow> win_dist b x < win_dist b y"
  by (simp add: sint_diff_window)

lemma wrap_greater_window:
  "in_window b x \<Longrightarrow> in_window b y \<Longrightarrow> 0 < sint (x - y) \<longleftrightarrow> win_dist b y < win_dist b x"
  by (simp add: sint_diff_window)

lemma win_dist_inj: "win_dist b x = win_dist b y \<longleftrightarrow> x = y"
  by (simp add: win_dist_def flip: word_uint_eq_iff)

section \<open>Linked lists\<close>

text \<open>\<open>TAILQ_INSERT_BEFORE\<close>.\<close>

fun insert_before :: "'a \<Rightarrow> 'a \<Rightarrow> 'a list \<Rightarrow> 'a list" where
  "insert_before p x [] = []"
| "insert_before p x (y # ys) = (if y = p then x # y # ys else y # insert_before p x ys)"

lemma insert_before_split: "p \<notin> set ys \<Longrightarrow> insert_before p x (ys @ p # zs) = ys @ x # p # zs"
  by (induction ys) auto

section \<open>Lookup in a list\<close>

lemma option_eqI: "(\<And>x. a = Some x \<longleftrightarrow> b = Some x) \<Longrightarrow> a = b"
  by (cases a; cases b) auto

lemma find_distinct:
  assumes "distinct (map f xs)"
  shows "find (\<lambda>x. f x = n) xs = Some x \<longleftrightarrow> x \<in> set xs \<and> f x = n"
  using assms by (induction xs) auto

section \<open>Errors and assertions\<close>

text \<open>The error numbers the code returns; one that a parameter returns is \<open>EOTHER\<close>.\<close>

datatype errno = EINVAL | ESRCH | EEXIST | EBUSY | ENOMEM | ENOTDIR | ENOENT | EIO | EJUSTRETURN | ENOTEMPTY | ENOSPC
  | EOPNOTSUPP | EOTHER int

text \<open>\<open>KASSERT\<close> and \<open>MPASS\<close>.\<close>

definition kassert :: "bool \<Rightarrow> unit option" where
  "kassert b = (if b then Some () else None)"

lemma kassert_simps [simp]: "kassert True = Some ()" "kassert False = None"
  by (simp_all add: kassert_def)

end
