(* ===== verification/Rbtree.thy ===== *)
theory Rbtree
  imports Prelude
begin

text \<open>
  The red-black tree macros of \<open>tree.h\<close> as they run: a store of \<open>RB_ENTRY\<close> records (left,
  right and parent pointer, colour) indexed by the address of the element, the \<open>RB_HEAD\<close>
  record with the root pointer, and one definition per macro, with the assignments in the
  source's order. A pointer is an option, None is NULL; following NULL is None. The loops are
  \<open>partial_function (option)\<close>, so a loop that does not end is None too. The proofs that they
  end and what they compute are in \<open>Rbtree_Insert\<close> and \<open>Rbtree_Remove\<close>.
\<close>

section \<open>Entries, heads and field access\<close>

datatype rb_color = RB_BLACK | RB_RED

record 'a rb_entry =
  rbe_left :: "'a option"
  rbe_right :: "'a option"
  rbe_parent :: "'a option"
  rbe_color :: rb_color

record 'a rb_state =
  rb_links :: "'a \<Rightarrow> 'a rb_entry"
  rbh_root :: "'a option"

definition RB_LEFT :: "'a \<Rightarrow> 'a rb_state \<Rightarrow> 'a option" where
  "RB_LEFT elm s = rbe_left (rb_links s elm)"

definition RB_RIGHT :: "'a \<Rightarrow> 'a rb_state \<Rightarrow> 'a option" where
  "RB_RIGHT elm s = rbe_right (rb_links s elm)"

definition RB_PARENT :: "'a \<Rightarrow> 'a rb_state \<Rightarrow> 'a option" where
  "RB_PARENT elm s = rbe_parent (rb_links s elm)"

definition RB_COLOR :: "'a \<Rightarrow> 'a rb_state \<Rightarrow> rb_color" where
  "RB_COLOR elm s = rbe_color (rb_links s elm)"

definition set_left :: "'a \<Rightarrow> 'a option \<Rightarrow> 'a rb_state \<Rightarrow> 'a rb_state" where
  "set_left elm v s = s\<lparr>rb_links := (rb_links s)(elm := (rb_links s elm)\<lparr>rbe_left := v\<rparr>)\<rparr>"

definition set_right :: "'a \<Rightarrow> 'a option \<Rightarrow> 'a rb_state \<Rightarrow> 'a rb_state" where
  "set_right elm v s = s\<lparr>rb_links := (rb_links s)(elm := (rb_links s elm)\<lparr>rbe_right := v\<rparr>)\<rparr>"

definition set_parent :: "'a \<Rightarrow> 'a option \<Rightarrow> 'a rb_state \<Rightarrow> 'a rb_state" where
  "set_parent elm v s = s\<lparr>rb_links := (rb_links s)(elm := (rb_links s elm)\<lparr>rbe_parent := v\<rparr>)\<rparr>"

definition set_color :: "'a \<Rightarrow> rb_color \<Rightarrow> 'a rb_state \<Rightarrow> 'a rb_state" where
  "set_color elm v s = s\<lparr>rb_links := (rb_links s)(elm := (rb_links s elm)\<lparr>rbe_color := v\<rparr>)\<rparr>"

definition set_root :: "'a option \<Rightarrow> 'a rb_state \<Rightarrow> 'a rb_state" where
  "set_root v s = s\<lparr>rbh_root := v\<rparr>"

definition RB_SET :: "'a \<Rightarrow> 'a option \<Rightarrow> 'a rb_state \<Rightarrow> 'a rb_state" where
  "RB_SET elm parent s =
     set_color elm RB_RED (set_left elm None (set_right elm None (set_parent elm parent s)))"

definition RB_SET_BLACKRED :: "'a \<Rightarrow> 'a \<Rightarrow> 'a rb_state \<Rightarrow> 'a rb_state" where
  "RB_SET_BLACKRED black red s = set_color red RB_RED (set_color black RB_BLACK s)"

text \<open>\<open>tmp && RB_COLOR(tmp) == RB_RED\<close> and \<open>tmp == NULL || RB_COLOR(tmp) == RB_BLACK\<close>\<close>

definition is_red :: "'a option \<Rightarrow> 'a rb_state \<Rightarrow> bool" where
  "is_red p s = (case p of None \<Rightarrow> False | Some a \<Rightarrow> RB_COLOR a s = RB_RED)"

definition null_or_black :: "'a option \<Rightarrow> 'a rb_state \<Rightarrow> bool" where
  "null_or_black p s = (case p of None \<Rightarrow> True | Some a \<Rightarrow> RB_COLOR a s = RB_BLACK)"

text \<open>Assignments through a pointer that the code has tested: \<open>if (p) RB_X(p) = v\<close>\<close>

definition if_parent :: "'a option \<Rightarrow> 'a option \<Rightarrow> 'a rb_state \<Rightarrow> 'a rb_state" where
  "if_parent p v s = (case p of None \<Rightarrow> s | Some a \<Rightarrow> set_parent a v s)"

definition if_color :: "'a option \<Rightarrow> rb_color \<Rightarrow> 'a rb_state \<Rightarrow> 'a rb_state" where
  "if_color p v s = (case p of None \<Rightarrow> s | Some a \<Rightarrow> set_color a v s)"

section \<open>Rotations\<close>

text \<open>
  Both return the value the macro leaves in its argument \<open>tmp\<close> with the new state.
\<close>

definition RB_ROTATE_LEFT :: "'a \<Rightarrow> 'a rb_state \<Rightarrow> ('a \<times> 'a rb_state) option" where
  "RB_ROTATE_LEFT elm s = do {
     tmp \<leftarrow> RB_RIGHT elm s;
     let s = set_right elm (RB_LEFT tmp s) s;
     let s = if_parent (RB_LEFT tmp s) (Some elm) s;
     let s = set_parent tmp (RB_PARENT elm s) s;
     let s = (case RB_PARENT elm s of
                Some p \<Rightarrow> if Some elm = RB_LEFT p s then set_left p (Some tmp) s
                         else set_right p (Some tmp) s
              | None \<Rightarrow> set_root (Some tmp) s);
     let s = set_left tmp (Some elm) s;
     let s = set_parent elm (Some tmp) s;
     Some (tmp, s) }"

definition RB_ROTATE_RIGHT :: "'a \<Rightarrow> 'a rb_state \<Rightarrow> ('a \<times> 'a rb_state) option" where
  "RB_ROTATE_RIGHT elm s = do {
     tmp \<leftarrow> RB_LEFT elm s;
     let s = set_left elm (RB_RIGHT tmp s) s;
     let s = if_parent (RB_RIGHT tmp s) (Some elm) s;
     let s = set_parent tmp (RB_PARENT elm s) s;
     let s = (case RB_PARENT elm s of
                Some p \<Rightarrow> if Some elm = RB_LEFT p s then set_left p (Some tmp) s
                         else set_right p (Some tmp) s
              | None \<Rightarrow> set_root (Some tmp) s);
     let s = set_right tmp (Some elm) s;
     let s = set_parent elm (Some tmp) s;
     Some (tmp, s) }"

section \<open>Insertion: recolouring and rotations up the tree\<close>

partial_function (option) rb_insert_color_loop :: "'a \<Rightarrow> 'a rb_state \<Rightarrow> 'a rb_state option" where
  "rb_insert_color_loop elm s =
    (case RB_PARENT elm s of
       None \<Rightarrow> Some s
     | Some parent \<Rightarrow>
         if RB_COLOR parent s \<noteq> RB_RED then Some s
         else do {
           gparent \<leftarrow> RB_PARENT parent s;
           if Some parent = RB_LEFT gparent s then
             if is_red (RB_RIGHT gparent s) s then
               rb_insert_color_loop gparent
                 (RB_SET_BLACKRED parent gparent (if_color (RB_RIGHT gparent s) RB_BLACK s))
             else do {
               (parent, elm, s) \<leftarrow>
                 (if RB_RIGHT parent s = Some elm
                  then do { (tmp, s) \<leftarrow> RB_ROTATE_LEFT parent s; Some (elm, parent, s) }
                  else Some (parent, elm, s));
               (tmp, s) \<leftarrow> RB_ROTATE_RIGHT gparent (RB_SET_BLACKRED parent gparent s);
               rb_insert_color_loop elm s }
           else
             if is_red (RB_LEFT gparent s) s then
               rb_insert_color_loop gparent
                 (RB_SET_BLACKRED parent gparent (if_color (RB_LEFT gparent s) RB_BLACK s))
             else do {
               (parent, elm, s) \<leftarrow>
                 (if RB_LEFT parent s = Some elm
                  then do { (tmp, s) \<leftarrow> RB_ROTATE_RIGHT parent s; Some (elm, parent, s) }
                  else Some (parent, elm, s));
               (tmp, s) \<leftarrow> RB_ROTATE_LEFT gparent (RB_SET_BLACKRED parent gparent s);
               rb_insert_color_loop elm s } })"

declare rb_insert_color_loop.simps [code]

definition RB_INSERT_COLOR :: "'a \<Rightarrow> 'a rb_state \<Rightarrow> 'a rb_state option" where
  "RB_INSERT_COLOR elm s = do {
     s \<leftarrow> rb_insert_color_loop elm s;
     root \<leftarrow> rbh_root s;
     Some (set_color root RB_BLACK s) }"

section \<open>Removal\<close>

text \<open>
  The loop of \<open>RB_REMOVE_COLOR\<close>: its variables are \<open>parent\<close> and \<open>elm\<close>, both possibly NULL; it
  returns \<open>elm\<close> with the state, for the last assignment of the function.
\<close>

partial_function (option) rb_remove_color_loop ::
    "'a option \<Rightarrow> 'a option \<Rightarrow> 'a rb_state \<Rightarrow> ('a option \<times> 'a rb_state) option" where
  "rb_remove_color_loop parent elm s =
    (if \<not> (null_or_black elm s \<and> elm \<noteq> rbh_root s) then Some (elm, s)
     else do {
       parent \<leftarrow> parent;
       if RB_LEFT parent s = elm then do {
         tmp \<leftarrow> RB_RIGHT parent s;
         (tmp, s) \<leftarrow>
           (if RB_COLOR tmp s = RB_RED
            then do { (tmp, s) \<leftarrow> RB_ROTATE_LEFT parent (RB_SET_BLACKRED tmp parent s);
                      tmp \<leftarrow> RB_RIGHT parent s;
                      Some (tmp, s) }
            else Some (tmp, s));
         if null_or_black (RB_LEFT tmp s) s \<and> null_or_black (RB_RIGHT tmp s) s then
           (let s = set_color tmp RB_RED s
            in rb_remove_color_loop (RB_PARENT parent s) (Some parent) s)
         else do {
           (tmp, s) \<leftarrow>
             (if null_or_black (RB_RIGHT tmp s) s
              then do { (oleft, s) \<leftarrow> RB_ROTATE_RIGHT tmp
                          (set_color tmp RB_RED (if_color (RB_LEFT tmp s) RB_BLACK s));
                        tmp \<leftarrow> RB_RIGHT parent s;
                        Some (tmp, s) }
              else Some (tmp, s));
           let s = set_color tmp (RB_COLOR parent s) s;
           let s = set_color parent RB_BLACK s;
           let s = if_color (RB_RIGHT tmp s) RB_BLACK s;
           (tmp, s) \<leftarrow> RB_ROTATE_LEFT parent s;
           Some (rbh_root s, s) } }
       else do {
         tmp \<leftarrow> RB_LEFT parent s;
         (tmp, s) \<leftarrow>
           (if RB_COLOR tmp s = RB_RED
            then do { (tmp, s) \<leftarrow> RB_ROTATE_RIGHT parent (RB_SET_BLACKRED tmp parent s);
                      tmp \<leftarrow> RB_LEFT parent s;
                      Some (tmp, s) }
            else Some (tmp, s));
         if null_or_black (RB_LEFT tmp s) s \<and> null_or_black (RB_RIGHT tmp s) s then
           (let s = set_color tmp RB_RED s
            in rb_remove_color_loop (RB_PARENT parent s) (Some parent) s)
         else do {
           (tmp, s) \<leftarrow>
             (if null_or_black (RB_LEFT tmp s) s
              then do { (oright, s) \<leftarrow> RB_ROTATE_LEFT tmp
                          (set_color tmp RB_RED (if_color (RB_RIGHT tmp s) RB_BLACK s));
                        tmp \<leftarrow> RB_LEFT parent s;
                        Some (tmp, s) }
              else Some (tmp, s));
           let s = set_color tmp (RB_COLOR parent s) s;
           let s = set_color parent RB_BLACK s;
           let s = if_color (RB_LEFT tmp s) RB_BLACK s;
           (tmp, s) \<leftarrow> RB_ROTATE_RIGHT parent s;
           Some (rbh_root s, s) } } })"

declare rb_remove_color_loop.simps [code]

definition RB_REMOVE_COLOR ::
    "'a option \<Rightarrow> 'a option \<Rightarrow> 'a rb_state \<Rightarrow> 'a rb_state option" where
  "RB_REMOVE_COLOR parent elm s = do {
     (elm, s) \<leftarrow> rb_remove_color_loop parent elm s;
     Some (if_color elm RB_BLACK s) }"

text \<open>\<open>while ((left = RB_LEFT(elm, field)) != NULL) elm = left;\<close>\<close>

partial_function (option) rb_leftmost :: "'a \<Rightarrow> 'a rb_state \<Rightarrow> 'a option" where
  "rb_leftmost elm s =
     (case RB_LEFT elm s of None \<Rightarrow> Some elm | Some l \<Rightarrow> rb_leftmost l s)"

declare rb_leftmost.simps [code]

text \<open>
  Replace the child \<open>elm\<close> of \<open>parent\<close> (or the root) by \<open>child\<close>, as \<open>RB_REMOVE\<close> writes it out
  in both of its arms.
\<close>

definition rb_unlink :: "'a option \<Rightarrow> 'a \<Rightarrow> 'a option \<Rightarrow> 'a rb_state \<Rightarrow> 'a rb_state" where
  "rb_unlink parent elm child s =
     (case parent of
        Some p \<Rightarrow> if RB_LEFT p s = Some elm then set_left p child s else set_right p child s
      | None \<Rightarrow> set_root child s)"

definition RB_REMOVE :: "'a \<Rightarrow> 'a rb_state \<Rightarrow> 'a rb_state option" where
  "RB_REMOVE elm s =
    (let old = elm in
     if RB_LEFT elm s = None \<or> RB_RIGHT elm s = None then
       (let child = (if RB_LEFT elm s = None then RB_RIGHT elm s else RB_LEFT elm s);
            parent = RB_PARENT elm s;
            color = RB_COLOR elm s;
            s = if_parent child parent s;
            s = rb_unlink parent elm child s
        in if color = RB_BLACK then RB_REMOVE_COLOR parent child s else Some s)
     else do {
       right \<leftarrow> RB_RIGHT elm s;
       elm \<leftarrow> rb_leftmost right s;
       let child = RB_RIGHT elm s;
       let parent = RB_PARENT elm s;
       let color = RB_COLOR elm s;
       let s = if_parent child parent s;
       let s = rb_unlink parent elm child s;
       let parent = (if RB_PARENT elm s = Some old then Some elm else parent);
       let s = s\<lparr>rb_links := (rb_links s)(elm := rb_links s old)\<rparr>;
       let s = rb_unlink (RB_PARENT old s) old (Some elm) s;
       left \<leftarrow> RB_LEFT old s;
       let s = set_parent left (Some elm) s;
       let s = if_parent (RB_RIGHT old s) (Some elm) s;
       if color = RB_BLACK then RB_REMOVE_COLOR parent child s else Some s })"

section \<open>In-order successor\<close>

text \<open>\<open>while (RB_PARENT(elm) && elm == RB_RIGHT(RB_PARENT(elm))) elm = RB_PARENT(elm);\<close>\<close>

partial_function (option) rb_climb_right :: "'a \<Rightarrow> 'a rb_state \<Rightarrow> 'a option" where
  "rb_climb_right elm s =
     (case RB_PARENT elm s of
        None \<Rightarrow> Some elm
      | Some p \<Rightarrow> if Some elm = RB_RIGHT p s then rb_climb_right p s else Some elm)"

declare rb_climb_right.simps [code]

text \<open>The outer option is a crash or a loop without end, the inner one the pointer returned.\<close>

definition RB_NEXT :: "'a \<Rightarrow> 'a rb_state \<Rightarrow> 'a option option" where
  "RB_NEXT elm s =
     (case RB_RIGHT elm s of
        Some r \<Rightarrow> map_option Some (rb_leftmost r s)
      | None \<Rightarrow>
          (case RB_PARENT elm s of
             Some p \<Rightarrow>
               if Some elm = RB_LEFT p s then Some (Some p)
               else do { e \<leftarrow> rb_climb_right elm s; Some (RB_PARENT e s) }
           | None \<Rightarrow> do { e \<leftarrow> rb_climb_right elm s; Some (RB_PARENT e s) }))"

end
