(* ===== verification/Rbtree_Rep.thy ===== *)
theory Rbtree_Rep
  imports Rbtree "HOL-Library.Tree"
begin

text \<open>
  What a store of \<open>RB_ENTRY\<close> records represents. A focus tree and a path of frames above it
  (innermost first) describe the whole structure as the loops of \<open>tree.h\<close> see it: the focus is
  the subtree at \<open>elm\<close>, the first frame is its parent. \<open>rb_rep s t path\<close> says that the links and
  the root pointer of \<open>s\<close> are exactly those of \<open>t\<close> plugged into \<open>path\<close>. The two mirror-image
  arms of the source's code are read as one, with the side as a parameter.
\<close>

section \<open>Sides\<close>

datatype side = SL | SR

fun opp :: "side \<Rightarrow> side" where
  "opp SL = SR"
| "opp SR = SL"

lemma opp_opp [simp]: "opp (opp sd) = sd"
  by (cases sd) auto

lemma opp_neq [simp]: "opp sd \<noteq> sd" "sd \<noteq> opp sd"
  by (cases sd; simp)+

fun rb_child :: "side \<Rightarrow> 'a \<Rightarrow> 'a rb_state \<Rightarrow> 'a option" where
  "rb_child SL elm s = RB_LEFT elm s"
| "rb_child SR elm s = RB_RIGHT elm s"

fun rb_rotate :: "side \<Rightarrow> 'a \<Rightarrow> 'a rb_state \<Rightarrow> ('a \<times> 'a rb_state) option" where
  "rb_rotate SL elm s = RB_ROTATE_LEFT elm s"
| "rb_rotate SR elm s = RB_ROTATE_RIGHT elm s"

section \<open>Trees and paths of addresses\<close>

type_synonym 'a rbt = "('a \<times> rb_color) tree"

fun ptr :: "'a rbt \<Rightarrow> 'a option" where
  "ptr Leaf = None"
| "ptr (Node l (a, c) r) = Some a"

fun root_color :: "'a rbt \<Rightarrow> rb_color" where
  "root_color Leaf = RB_BLACK"
| "root_color (Node l (a, c) r) = c"

fun addrs :: "'a rbt \<Rightarrow> 'a list" where
  "addrs Leaf = []"
| "addrs (Node l (a, c) r) = addrs l @ a # addrs r"

fun node :: "side \<Rightarrow> 'a rbt \<Rightarrow> 'a \<Rightarrow> rb_color \<Rightarrow> 'a rbt \<Rightarrow> 'a rbt" where
  "node SL t a c u = Node t (a, c) u"
| "node SR t a c u = Node u (a, c) t"

datatype 'a frame = Frame side 'a rb_color "'a rbt"

fun zip_tree :: "'a rbt \<Rightarrow> 'a frame list \<Rightarrow> 'a rbt" where
  "zip_tree t [] = t"
| "zip_tree t (Frame sd a c u # path) = zip_tree (node sd t a c u) path"

fun path_ptr :: "'a frame list \<Rightarrow> 'a option" where
  "path_ptr [] = None"
| "path_ptr (Frame sd a c u # path) = Some a"

fun path_color :: "'a frame list \<Rightarrow> rb_color" where
  "path_color [] = RB_BLACK"
| "path_color (Frame sd a c u # path) = c"

fun path_addrs :: "'a frame list \<Rightarrow> 'a list" where
  "path_addrs [] = []"
| "path_addrs (Frame sd a c u # path) = a # addrs u @ path_addrs path"

text \<open>The in-order list of the path, left and right of its hole.\<close>

fun path_before :: "'a frame list \<Rightarrow> 'a list" where
  "path_before [] = []"
| "path_before (Frame SL a c u # path) = path_before path"
| "path_before (Frame SR a c u # path) = path_before path @ addrs u @ [a]"

fun path_after :: "'a frame list \<Rightarrow> 'a list" where
  "path_after [] = []"
| "path_after (Frame SL a c u # path) = a # addrs u @ path_after path"
| "path_after (Frame SR a c u # path) = path_after path"

lemma addrs_node: "set (addrs (node sd t a c u)) = insert a (set (addrs t) \<union> set (addrs u))"
  by (cases sd) auto

lemma distinct_node:
  "distinct (addrs (node sd t a c u)) \<longleftrightarrow> distinct (a # addrs t @ addrs u)"
  by (cases sd) auto

lemma addrs_zip: "addrs (zip_tree t path) = path_before path @ addrs t @ path_after path"
proof (induction path arbitrary: t)
  case (Cons f path)
  then show ?case by (cases f; cases "case f of Frame sd a c u \<Rightarrow> sd") auto
qed simp

lemma set_path_addrs: "set (path_addrs path) = set (path_before path) \<union> set (path_after path)"
proof (induction path)
  case (Cons f path)
  then show ?case by (cases f; cases "case f of Frame sd a c u \<Rightarrow> sd") auto
qed simp

lemma ptr_None_iff [simp]: "ptr t = None \<longleftrightarrow> t = Leaf"
  by (cases t rule: ptr.cases) auto

lemma ptr_node [simp]: "ptr (node sd t a c u) = Some a"
  by (cases sd) auto

lemma root_color_node [simp]: "root_color (node sd t a c u) = c"
  by (cases sd) auto

lemma ptr_Some_node: "ptr t = Some a \<Longrightarrow> \<exists>x c y. t = node sd x a c y"
  by (cases t rule: ptr.cases; cases sd) auto

lemma ptr_in_addrs: "ptr t = Some a \<Longrightarrow> a \<in> set (addrs t)"
  by (cases t rule: ptr.cases) auto

lemma node_flip: "node sd t a c u = node (opp sd) u a c t"
  by (cases sd) auto

lemma node_neq_Leaf [simp]: "node sd t a c u \<noteq> Leaf" "Leaf \<noteq> node sd t a c u"
  by (cases sd; simp)+

section \<open>The representation\<close>

definition mk_entry :: "side \<Rightarrow> 'a option \<Rightarrow> 'a option \<Rightarrow> 'a option \<Rightarrow> rb_color \<Rightarrow> 'a rb_entry" where
  "mk_entry sd near far p c =
     (case sd of SL \<Rightarrow> \<lparr>rbe_left = near, rbe_right = far, rbe_parent = p, rbe_color = c\<rparr>
               | SR \<Rightarrow> \<lparr>rbe_left = far, rbe_right = near, rbe_parent = p, rbe_color = c\<rparr>)"

fun rtree :: "('a \<Rightarrow> 'a rb_entry) \<Rightarrow> 'a option \<Rightarrow> 'a rbt \<Rightarrow> bool" where
  "rtree h p Leaf = True"
| "rtree h p (Node l (a, c) r) =
     (h a = mk_entry SL (ptr l) (ptr r) p c \<and> rtree h (Some a) l \<and> rtree h (Some a) r)"

fun rpath :: "('a \<Rightarrow> 'a rb_entry) \<Rightarrow> 'a option \<Rightarrow> 'a frame list \<Rightarrow> bool" where
  "rpath h f [] = True"
| "rpath h f (Frame sd a c u # path) =
     (h a = mk_entry sd f (ptr u) (path_ptr path) c \<and> rtree h (Some a) u \<and> rpath h (Some a) path)"

fun path_root :: "'a option \<Rightarrow> 'a frame list \<Rightarrow> 'a option" where
  "path_root f [] = f"
| "path_root f (Frame sd a c u # path) = path_root (Some a) path"

definition rb_rep :: "'a rb_state \<Rightarrow> 'a rbt \<Rightarrow> 'a frame list \<Rightarrow> bool" where
  "rb_rep s t path \<longleftrightarrow>
     rtree (rb_links s) (path_ptr path) t \<and> rpath (rb_links s) (ptr t) path \<and>
     rbh_root s = path_root (ptr t) path \<and> distinct (addrs t @ path_addrs path)"

definition rb_addrs :: "'a rbt \<Rightarrow> 'a frame list \<Rightarrow> 'a set" where
  "rb_addrs t path = set (addrs t) \<union> set (path_addrs path)"

text \<open>Only entries in \<open>A\<close> differ.\<close>

definition links_frame :: "'a set \<Rightarrow> 'a rb_state \<Rightarrow> 'a rb_state \<Rightarrow> bool" where
  "links_frame A s s' \<longleftrightarrow> (\<forall>x. x \<notin> A \<longrightarrow> rb_links s' x = rb_links s x)"

lemma links_frame_refl [simp, intro]: "links_frame A s s"
  by (simp add: links_frame_def)

lemma links_frame_trans: "links_frame A s s' \<Longrightarrow> links_frame A s' s'' \<Longrightarrow> links_frame A s s''"
  by (simp add: links_frame_def)

lemma rtree_node:
  "rtree h p (node sd t a c u) \<longleftrightarrow>
     h a = mk_entry sd (ptr t) (ptr u) p c \<and> rtree h (Some a) t \<and> rtree h (Some a) u"
  by (cases sd) (auto simp: mk_entry_def)

lemma rtree_cong: "(\<And>x. x \<in> set (addrs t) \<Longrightarrow> h' x = h x) \<Longrightarrow> rtree h' p t = rtree h p t"
  by (induction h' p t rule: rtree.induct) auto

lemma rpath_cong: "(\<And>x. x \<in> set (path_addrs path) \<Longrightarrow> h' x = h x) \<Longrightarrow> rpath h' f path = rpath h f path"
  by (induction h' f path rule: rpath.induct) (auto cong: rtree_cong)

lemma rtree_upd [simp]: "a \<notin> set (addrs t) \<Longrightarrow> rtree (h(a := e)) p t = rtree h p t"
  by (rule rtree_cong) auto

lemma rpath_upd [simp]: "a \<notin> set (path_addrs path) \<Longrightarrow> rpath (h(a := e)) f path = rpath h f path"
  by (rule rpath_cong) auto

lemma rb_rep_zip: "rb_rep s t (Frame sd a c u # path) \<longleftrightarrow> rb_rep s (node sd t a c u) path"
  by (cases sd) (auto simp: rb_rep_def mk_entry_def)

lemma rb_rep_zip_all: "rb_rep s t path \<longleftrightarrow> rb_rep s (zip_tree t path) []"
  by (induction t path rule: zip_tree.induct) (simp_all add: rb_rep_zip)

lemma rb_addrs_zip [simp]: "rb_addrs t (Frame sd a c u # path) = rb_addrs (node sd t a c u) path"
  by (auto simp: rb_addrs_def addrs_node)

lemma rb_rep_links_frame:
  "rb_rep s t path \<Longrightarrow> links_frame A s s' \<Longrightarrow> rb_addrs t path \<inter> A = {} \<Longrightarrow> rbh_root s' = rbh_root s
    \<Longrightarrow> rb_rep s' t path"
  unfolding rb_rep_def links_frame_def rb_addrs_def
  by (metis (no_types, lifting) Un_iff disjoint_iff rpath_cong rtree_cong)

section \<open>Reading a represented structure\<close>

lemma mk_entry_sel [simp]:
  "rbe_color (mk_entry sd n f p c) = c" "rbe_parent (mk_entry sd n f p c) = p"
  "rbe_left (mk_entry SL n f p c) = n" "rbe_right (mk_entry SL n f p c) = f"
  "rbe_left (mk_entry SR n f p c) = f" "rbe_right (mk_entry SR n f p c) = n"
  by (cases sd; simp add: mk_entry_def)+

lemma mk_entry_upd [simp]:
  "(mk_entry sd n f p c)\<lparr>rbe_color := c'\<rparr> = mk_entry sd n f p c'"
  "(mk_entry sd n f p c)\<lparr>rbe_parent := p'\<rparr> = mk_entry sd n f p' c"
  "(mk_entry SL n f p c)\<lparr>rbe_left := x\<rparr> = mk_entry SL x f p c"
  "(mk_entry SL n f p c)\<lparr>rbe_right := x\<rparr> = mk_entry SL n x p c"
  "(mk_entry SR n f p c)\<lparr>rbe_left := x\<rparr> = mk_entry SR n x p c"
  "(mk_entry SR n f p c)\<lparr>rbe_right := x\<rparr> = mk_entry SR x f p c"
  by (cases sd; simp add: mk_entry_def)+

lemma mk_entry_flip: "mk_entry (opp sd) n f p c = mk_entry sd f n p c"
  by (cases sd) (simp_all add: mk_entry_def)

lemma rep_node_reads:
  assumes "rb_rep s (node sd t a c u) path"
  shows "RB_COLOR a s = c" "RB_PARENT a s = path_ptr path" "rb_child sd a s = ptr t"
    "rb_child (opp sd) a s = ptr u"
  using assms
  by (cases sd; simp add: rb_rep_def RB_COLOR_def RB_PARENT_def RB_LEFT_def RB_RIGHT_def)+

lemma is_red_ptr:
  assumes "rtree (rb_links s) p t"
  shows "is_red (ptr t) s \<longleftrightarrow> root_color t = RB_RED"
    "null_or_black (ptr t) s \<longleftrightarrow> root_color t = RB_BLACK"
  using assms
  by (cases t rule: ptr.cases; simp add: is_red_def null_or_black_def RB_COLOR_def)+

lemma rep_child_colors:
  assumes "rb_rep s (node sd t a c u) path"
  shows "is_red (ptr t) s \<longleftrightarrow> root_color t = RB_RED" "is_red (ptr u) s \<longleftrightarrow> root_color u = RB_RED"
    "null_or_black (ptr t) s \<longleftrightarrow> root_color t = RB_BLACK"
    "null_or_black (ptr u) s \<longleftrightarrow> root_color u = RB_BLACK"
  using assms by (auto simp: rb_rep_def rtree_node is_red_ptr)

section \<open>Writing: colours and rotations\<close>

fun paint :: "rb_color \<Rightarrow> 'a rbt \<Rightarrow> 'a rbt" where
  "paint c Leaf = Leaf"
| "paint c (Node l (a, c') r) = Node l (a, c) r"

lemma paint_node [simp]: "paint c (node sd t a c' u) = node sd t a c u"
  by (cases sd) auto

lemma ptr_paint [simp]: "ptr (paint c t) = ptr t"
  by (cases t rule: ptr.cases) auto

lemma addrs_paint [simp]: "addrs (paint c t) = addrs t"
  by (cases t rule: ptr.cases) auto

lemma paint_root_color [simp]: "root_color (paint RB_BLACK t) = RB_BLACK"
  by (cases t rule: ptr.cases) auto

lemma links_frame_set_color: "a \<in> A \<Longrightarrow> links_frame A s (set_color a c s)"
  by (auto simp: links_frame_def set_color_def)

lemma rep_set_color:
  assumes "rb_rep s (node sd t a c u) path"
  shows "rb_rep (set_color a c' s) (node sd t a c' u) path"
  using assms by (cases sd) (auto simp: rb_rep_def set_color_def)

lemma rep_if_color:
  assumes "rb_rep s t path"
  shows "rb_rep (if_color (ptr t) c s) (paint c t) path"
proof (cases "ptr t")
  case None
  with assms show ?thesis by (simp add: if_color_def)
next
  case (Some a)
  then obtain x c' y where "t = node SL x a c' y" using ptr_Some_node [of t a SL] by blast
  with assms show ?thesis by (simp add: if_color_def rep_set_color del: node.simps)
qed

lemma links_frame_if_color: "ptr t = p \<Longrightarrow> set (addrs t) \<subseteq> A \<Longrightarrow> links_frame A s (if_color p c s)"
  by (cases p) (auto simp: if_color_def intro!: links_frame_set_color dest: ptr_in_addrs)


text \<open>
  Replacing the child pointer above the focus: \<open>rb_unlink\<close> is also what the rotations do to
  the parent of the rotated element.
\<close>

lemma rb_unlink_path:
  assumes "rpath (rb_links s) (Some a) path" "a \<notin> set (path_addrs path)"
    "distinct (path_addrs path)" "rbh_root s = path_root (Some a) path"
  shows "rpath (rb_links (rb_unlink (path_ptr path) a v s)) v path"
    "rbh_root (rb_unlink (path_ptr path) a v s) = path_root v path"
    "x \<notin> set (path_addrs path) \<Longrightarrow>
       rb_links (rb_unlink (path_ptr path) a v s) x = rb_links s x"
proof -
  have "rpath (rb_links (rb_unlink (path_ptr path) a v s)) v path \<and>
    rbh_root (rb_unlink (path_ptr path) a v s) = path_root v path \<and>
    (\<forall>x. x \<notin> set (path_addrs path) \<longrightarrow>
       rb_links (rb_unlink (path_ptr path) a v s) x = rb_links s x)"
  proof (cases path)
    case Nil
    then show ?thesis by (simp add: rb_unlink_def set_root_def)
  next
    case (Cons f rest)
    obtain sd p c u where f: "f = Frame sd p c u" by (cases f)
    show ?thesis
    proof (cases sd)
      case SL
      then show ?thesis using assms unfolding Cons f
        by (auto simp: rb_unlink_def RB_LEFT_def set_left_def)
    next
      case SR
      have "ptr u \<noteq> Some a" using assms ptr_in_addrs unfolding Cons f by fastforce
      then show ?thesis using assms SR unfolding Cons f
        by (auto simp: rb_unlink_def RB_LEFT_def set_right_def)
    qed
  qed
  then show "rpath (rb_links (rb_unlink (path_ptr path) a v s)) v path"
    "rbh_root (rb_unlink (path_ptr path) a v s) = path_root v path"
    "x \<notin> set (path_addrs path) \<Longrightarrow>
       rb_links (rb_unlink (path_ptr path) a v s) x = rb_links s x"
    by blast+
qed

lemma rb_unlink_alt:
  "(case p of Some q \<Rightarrow> if Some a = RB_LEFT q s then set_left q v s else set_right q v s
    | None \<Rightarrow> set_root v s) = rb_unlink p a v s"
  by (cases p) (auto simp: rb_unlink_def)

lemma if_parent_links:
  "rb_links (if_parent (ptr t) v s) =
     (\<lambda>x. if ptr t = Some x then (rb_links s x)\<lparr>rbe_parent := v\<rparr> else rb_links s x)"
  "rbh_root (if_parent (ptr t) v s) = rbh_root s"
  by (cases "ptr t"; auto simp: if_parent_def set_parent_def fun_eq_iff)+

lemma rtree_reparent:
  assumes "rtree h p t" "distinct (addrs t)"
    "\<And>x. x \<in> set (addrs t) \<Longrightarrow>
       h' x = (if ptr t = Some x then (h x)\<lparr>rbe_parent := q\<rparr> else h x)"
  shows "rtree h' q t"
proof (cases t rule: ptr.cases)
  case 1
  then show ?thesis by simp
next
  case (2 l a c r)
  have "rtree h' (Some a) l = rtree h (Some a) l" "rtree h' (Some a) r = rtree h (Some a) r"
    using assms(2,3) by (auto simp: 2 intro!: rtree_cong)
  then show ?thesis using assms by (simp add: 2)
qed

text \<open>
  The state in the middle of a rotation, just before the parent of the rotated element is
  redirected: \<open>a\<close> and the middle subtree \<open>u\<close> are relinked, \<open>b\<close> already names its new parent.
\<close>

definition rot_mid :: "side \<Rightarrow> 'a \<Rightarrow> 'a \<Rightarrow> 'a option \<Rightarrow> 'a option \<Rightarrow> 'a rb_state \<Rightarrow> 'a rb_state" where
  "rot_mid sd a b u p s =
     set_parent b p (if_parent u (Some a)
       (case sd of SL \<Rightarrow> set_right a u s | SR \<Rightarrow> set_left a u s))"

definition rot_fin :: "side \<Rightarrow> 'a \<Rightarrow> 'a \<Rightarrow> 'a rb_state \<Rightarrow> 'a rb_state" where
  "rot_fin sd a b s =
     set_parent a (Some b) (case sd of SL \<Rightarrow> set_left b (Some a) s | SR \<Rightarrow> set_right b (Some a) s)"

lemmas rb_access = RB_LEFT_def RB_RIGHT_def RB_PARENT_def RB_COLOR_def
  set_left_def set_right_def set_parent_def set_color_def set_root_def

lemma rb_rotate_phases:
  assumes "rb_rep s (node sd t a c1 (node sd u b c2 v)) path"
  shows "rb_rotate sd a s =
    Some (b, rot_fin sd a b (rb_unlink (path_ptr path) a (Some b)
      (rot_mid sd a b (ptr u) (path_ptr path) s)))"
proof -
  have ab: "a \<noteq> b" using assms by (cases sd) (auto simp: rb_rep_def)
  have au: "ptr u \<noteq> Some a" "ptr u \<noteq> Some b"
    using assms ptr_in_addrs [of u] by (cases sd; fastforce simp: rb_rep_def)+
  show ?thesis
  proof (cases sd)
    case SL
    show ?thesis using assms ab au unfolding SL
      by (cases "ptr u")
        (auto simp: RB_ROTATE_LEFT_def rb_unlink_alt rot_mid_def rot_fin_def rb_rep_def if_parent_def
          rb_access Let_def)
  next
    case SR
    show ?thesis using assms ab au unfolding SR
      by (cases "ptr u")
        (auto simp: RB_ROTATE_RIGHT_def rb_unlink_alt rot_mid_def rot_fin_def rb_rep_def if_parent_def
          rb_access Let_def)
  qed
qed

lemma rot_mid_links:
  assumes "a \<noteq> b" "ptr u \<noteq> Some a" "ptr u \<noteq> Some b"
  shows "rb_links (rot_mid sd a b (ptr u) p s) x =
    (if x = b then (rb_links s b)\<lparr>rbe_parent := p\<rparr>
     else if x = a then (case sd of SL \<Rightarrow> (rb_links s a)\<lparr>rbe_right := ptr u\<rparr>
                                  | SR \<Rightarrow> (rb_links s a)\<lparr>rbe_left := ptr u\<rparr>)
     else if ptr u = Some x then (rb_links s x)\<lparr>rbe_parent := Some a\<rparr>
     else rb_links s x)"
    "rbh_root (rot_mid sd a b (ptr u) p s) = rbh_root s"
  using assms
  by (cases sd; auto simp: rot_mid_def if_parent_links rb_access)+

lemma rot_fin_links:
  assumes "a \<noteq> b"
  shows "rb_links (rot_fin sd a b s) x =
    (if x = a then (rb_links s a)\<lparr>rbe_parent := Some b\<rparr>
     else if x = b then (case sd of SL \<Rightarrow> (rb_links s b)\<lparr>rbe_left := Some a\<rparr>
                                  | SR \<Rightarrow> (rb_links s b)\<lparr>rbe_right := Some a\<rparr>)
     else rb_links s x)"
    "rbh_root (rot_fin sd a b s) = rbh_root s"
  using assms by (cases sd; auto simp: rot_fin_def rb_access)+

lemma rb_rep_node:
  "rb_rep s (node sd t a c u) path \<longleftrightarrow>
     rb_links s a = mk_entry sd (ptr t) (ptr u) (path_ptr path) c \<and>
     rtree (rb_links s) (Some a) t \<and> rtree (rb_links s) (Some a) u \<and>
     rpath (rb_links s) (Some a) path \<and> rbh_root s = path_root (Some a) path \<and>
     distinct (a # addrs t @ addrs u @ path_addrs path)"
  by (cases sd) (auto simp: rb_rep_def mk_entry_def)

lemma rep_rotate:
  assumes rep: "rb_rep s (node sd t a c1 (node sd u b c2 v)) path"
  shows "\<exists>s'. rb_rotate sd a s = Some (b, s') \<and>
           rb_rep s' (node sd (node sd t a c1 u) b c2 v) path \<and>
           links_frame (rb_addrs (node sd t a c1 (node sd u b c2 v)) path) s s'"
proof -
  let ?h = "rb_links s"
  have h: "?h a = mk_entry sd (ptr t) (Some b) (path_ptr path) c1"
      "?h b = mk_entry sd (ptr u) (ptr v) (Some a) c2"
      "rtree ?h (Some a) t" "rtree ?h (Some b) u" "rtree ?h (Some b) v"
      "rpath ?h (Some a) path" "rbh_root s = path_root (Some a) path"
    and d: "distinct ([a, b] @ addrs t @ addrs u @ addrs v @ path_addrs path)"
    using rep by (auto simp: rb_rep_node rtree_node addrs_node distinct_node)
  have ab: "a \<noteq> b" and ua: "ptr u \<noteq> Some a" "ptr u \<noteq> Some b"
    using d ptr_in_addrs [of u] by auto
  define s2 where "s2 = rot_mid sd a b (ptr u) (path_ptr path) s"
  define s3 where "s3 = rb_unlink (path_ptr path) a (Some b) s2"
  define s4 where "s4 = rot_fin sd a b s3"
  note l2 = rot_mid_links [OF ab ua, of sd "path_ptr path" s, folded s2_def]
  note l4 = rot_fin_links [OF ab, of sd s3, folded s4_def]
  have uin: "ptr u = Some x \<Longrightarrow> x \<in> set (addrs u)" for x by (rule ptr_in_addrs)
  have p2: "rpath (rb_links s2) (Some a) path = rpath ?h (Some a) path"
    using d uin by (intro rpath_cong) (auto simp: l2)
  note un = rb_unlink_path [where s = s2 and a = a and path = path and v = "Some b", folded s3_def]
  have p3: "rpath (rb_links s3) (Some b) path" "rbh_root s3 = path_root (Some b) path"
    "x \<notin> set (path_addrs path) \<Longrightarrow> rb_links s3 x = rb_links s2 x" for x
    using un d p2 h l2 by auto
  have p4: "rpath (rb_links s4) (Some b) path = rpath (rb_links s3) (Some b) path"
    using d by (intro rpath_cong) (auto simp: l4)
  have out: "x \<notin> set (path_addrs path) \<Longrightarrow> x \<noteq> a \<Longrightarrow> x \<noteq> b \<Longrightarrow>
      rb_links s4 x = (if ptr u = Some x then (?h x)\<lparr>rbe_parent := Some a\<rparr> else ?h x)" for x
    using p3 by (simp add: l4 l2)
  have out': "x \<notin> set (path_addrs path) \<Longrightarrow> x \<noteq> a \<Longrightarrow> x \<noteq> b \<Longrightarrow> x \<notin> set (addrs u) \<Longrightarrow>
      rb_links s4 x = ?h x" for x
    using out [of x] uin [of x] by auto
  have t4: "rtree (rb_links s4) (Some a) t = rtree ?h (Some a) t"
    by (rule rtree_cong, rule out') (use d in auto)
  have v4: "rtree (rb_links s4) (Some b) v = rtree ?h (Some b) v"
    by (rule rtree_cong, rule out') (use d in auto)
  have u4: "rtree (rb_links s4) (Some a) u"
    by (rule rtree_reparent [OF h(4)], use d in simp, rule out) (use d in auto)
  have e4: "rb_links s4 a = mk_entry sd (ptr t) (ptr u) (Some b) c1"
      "rb_links s4 b = mk_entry sd (Some a) (ptr v) (path_ptr path) c2"
    using d ab h p3 l2 l4 by (cases sd; simp)+
  have "rb_rep s4 (node sd (node sd t a c1 u) b c2 v) path"
    using d h p3 p4 t4 v4 u4 e4
    by (auto simp: rb_rep_node rtree_node addrs_node distinct_node l4)
  moreover have "links_frame (rb_addrs (node sd t a c1 (node sd u b c2 v)) path) s s4"
    unfolding links_frame_def rb_addrs_def addrs_node using out' by auto
  moreover have "rb_rotate sd a s = Some (b, s4)"
    using rb_rotate_phases [OF rep] by (simp add: s4_def s3_def s2_def)
  ultimately show ?thesis by blast
qed

end
