(* ===== verification/Rbtree_Insert.thy ===== *)
theory Rbtree_Insert
  imports Rbtree_Rep
begin

text \<open>
  The colour invariant of the tree (no red node has a red child, every path holds the same
  number of black nodes, the root is black) and the proof that \<open>RB_INSERT_COLOR\<close>, started at a
  freshly linked red leaf, ends, restores the invariant and keeps the in-order list.
\<close>

section \<open>The colour invariant\<close>

text \<open>\<open>rb_ok n t\<close>: every path to a leaf has \<open>n\<close> black nodes and no two reds are adjacent.\<close>

fun rb_ok :: "nat \<Rightarrow> 'a rbt \<Rightarrow> bool" where
  "rb_ok n Leaf = (n = 0)"
| "rb_ok n (Node l (a, RB_RED) r) =
     (root_color l = RB_BLACK \<and> root_color r = RB_BLACK \<and> rb_ok n l \<and> rb_ok n r)"
| "rb_ok n (Node l (a, RB_BLACK) r) = (n > 0 \<and> rb_ok (n - 1) l \<and> rb_ok (n - 1) r)"

definition rbt_ok :: "'a rbt \<Rightarrow> bool" where
  "rbt_ok t \<longleftrightarrow> root_color t = RB_BLACK \<and> (\<exists>n. rb_ok n t)"

text \<open>\<open>path_ok n path\<close>: a tree of black height \<open>n\<close> fits the hole, its root colour apart.\<close>

fun path_ok :: "nat \<Rightarrow> 'a frame list \<Rightarrow> bool" where
  "path_ok n [] = True"
| "path_ok n (Frame sd a RB_RED u # path) =
     (rb_ok n u \<and> root_color u = RB_BLACK \<and> path_color path = RB_BLACK \<and> path \<noteq> [] \<and> path_ok n path)"
| "path_ok n (Frame sd a RB_BLACK u # path) = (rb_ok n u \<and> path_ok (Suc n) path)"

lemma rb_ok_red [simp]:
  "rb_ok n (node sd t a RB_RED u) \<longleftrightarrow>
     root_color t = RB_BLACK \<and> root_color u = RB_BLACK \<and> rb_ok n t \<and> rb_ok n u"
  by (cases sd) auto

lemma rb_ok_black [simp]:
  "rb_ok n (node sd t a RB_BLACK u) \<longleftrightarrow> n > 0 \<and> rb_ok (n - 1) t \<and> rb_ok (n - 1) u"
  by (cases sd) auto

lemma color_cases [case_names black red]:
  obtains "c = RB_BLACK" | "c = RB_RED"
  by (cases c) auto

lemma not_black [simp]: "c \<noteq> RB_BLACK \<longleftrightarrow> c = RB_RED" "c \<noteq> RB_RED \<longleftrightarrow> c = RB_BLACK"
  by (cases c; simp)+

lemma rb_ok_zip:
  assumes "rb_ok n t" "path_ok n path" "root_color t = RB_RED \<Longrightarrow> path_color path = RB_BLACK"
  shows "\<exists>m. rb_ok m (zip_tree t path)"
  using assms
proof (induction t path arbitrary: n rule: zip_tree.induct)
  case (2 t sd a c u path)
  show ?case
  proof (cases c)
    case RB_BLACK
    then show ?thesis using "2.prems" "2.IH" [of "Suc n"] by auto
  next
    case RB_RED
    then show ?thesis using "2.prems" "2.IH" [of n] by (cases "root_color t") auto
  qed
qed auto

lemma root_color_zip: "path \<noteq> [] \<Longrightarrow> path_ok n path \<Longrightarrow> root_color (zip_tree t path) = RB_BLACK"
proof (induction t path arbitrary: n rule: zip_tree.induct)
  case (2 t sd a c u path)
  then show ?case by (cases c; cases path) auto
qed simp

lemma rbt_ok_zip:
  assumes "rb_ok n t" "path_ok n path" "root_color t = RB_RED \<Longrightarrow> path_color path = RB_BLACK \<and> path \<noteq> []"
  shows "rbt_ok (zip_tree t path)"
  using assms rb_ok_zip root_color_zip unfolding rbt_ok_def by (cases path) fastforce+

text \<open>Every node of a well-coloured tree is a focus whose path is well-coloured.\<close>

lemma rb_ok_unzip:
  assumes "rb_ok m (zip_tree t path)" "root_color (zip_tree t path) = RB_BLACK"
  shows "\<exists>n. rb_ok n t \<and> path_ok n path \<and>
           (root_color t = RB_RED \<longrightarrow> path_color path = RB_BLACK \<and> path \<noteq> [])"
  using assms
proof (induction t path rule: zip_tree.induct)
  case (2 t sd a c u path)
  then obtain n where n: "rb_ok n (node sd t a c u)" "path_ok n path"
    "c = RB_RED \<longrightarrow> path_color path = RB_BLACK \<and> path \<noteq> []" by auto
  show ?case
  proof (cases c)
    case RB_BLACK
    with n show ?thesis by (intro exI [of _ "n - 1"]) auto
  next
    case RB_RED
    with n show ?thesis by (intro exI [of _ n]) auto
  qed
qed auto

lemma rb_ok_paint_black:
  "rb_ok n t \<Longrightarrow> root_color t = RB_RED \<Longrightarrow> rb_ok (Suc n) (paint RB_BLACK t)"
  "rb_ok n t \<Longrightarrow> \<exists>m. rb_ok m (paint RB_BLACK t)"
  by (cases "(n, t)" rule: rb_ok.cases; fastforce)+

section \<open>The loop, with the side as a parameter\<close>

definition side_of :: "'a \<Rightarrow> 'a \<Rightarrow> 'a rb_state \<Rightarrow> side" where
  "side_of p g s = (if Some p = RB_LEFT g s then SL else SR)"

lemma side_of_rep:
  assumes "rb_rep s (node sd t g c u) path" "ptr t = Some p"
  shows "side_of p g s = sd"
proof -
  have "ptr u \<noteq> Some p"
    using assms ptr_in_addrs [of t p] ptr_in_addrs [of u p] by (auto simp: rb_rep_node)
  then show ?thesis
    using rep_node_reads(3,4) [OF assms(1)] assms(2) by (cases sd) (auto simp: side_of_def)
qed

text \<open>The optional inner rotation and the exchange of \<open>parent\<close> and \<open>elm\<close> after it.\<close>

definition inner_step :: "side \<Rightarrow> 'a \<Rightarrow> 'a \<Rightarrow> 'a rb_state \<Rightarrow> ('a \<times> 'a \<times> 'a rb_state) option" where
  "inner_step sd p x s =
     (if rb_child (opp sd) p s = Some x
      then do { (tmp, s) \<leftarrow> rb_rotate sd p s; Some (x, p, s) } else Some (p, x, s))"

lemma rb_insert_color_loop_side:
  "rb_insert_color_loop elm s =
    (case RB_PARENT elm s of
       None \<Rightarrow> Some s
     | Some p \<Rightarrow>
         if RB_COLOR p s \<noteq> RB_RED then Some s
         else do {
           g \<leftarrow> RB_PARENT p s;
           let sd = side_of p g s;
           if is_red (rb_child (opp sd) g s) s then
             rb_insert_color_loop g
               (RB_SET_BLACKRED p g (if_color (rb_child (opp sd) g s) RB_BLACK s))
           else do {
             (p, elm, s) \<leftarrow> inner_step sd p elm s;
             (tmp, s) \<leftarrow> rb_rotate (opp sd) g (RB_SET_BLACKRED p g s);
             rb_insert_color_loop elm s } })"
proof (cases "RB_PARENT elm s")
  case None
  then show ?thesis by (subst rb_insert_color_loop.simps) simp
next
  case (Some p)
  show ?thesis
  proof (cases "RB_PARENT p s")
    case None
    with Some show ?thesis by (subst rb_insert_color_loop.simps) simp
  next
    case g: (Some g)
    show ?thesis
    proof (cases "RB_LEFT g s = Some p")
      case True
      with Some g show ?thesis
        by (subst rb_insert_color_loop.simps) (simp add: side_of_def inner_step_def)
    next
      case False
      then have "Some p \<noteq> RB_LEFT g s" by auto
      with Some g show ?thesis
        by (subst rb_insert_color_loop.simps) (simp add: side_of_def inner_step_def)
    qed
  qed
qed

text \<open>Where the loop stops at once: no parent, or a black one.\<close>

lemma insert_loop_stop:
  assumes "rb_rep s (node sd l x c r) path" "path_color path = RB_BLACK"
  shows "rb_insert_color_loop x s = Some s"
proof (cases path)
  case Nil
  with assms show ?thesis
    by (subst rb_insert_color_loop_side) (simp add: rep_node_reads)
next
  case (Cons f rest)
  obtain sd' p c' u where f: "f = Frame sd' p c' u" by (cases f)
  with assms Cons have "RB_COLOR p s = RB_BLACK"
    using rep_node_reads(1) [of s sd' "node sd l x c r" p c' u rest] by (simp add: rb_rep_zip)
  with assms Cons f show ?thesis
    by (subst rb_insert_color_loop_side) (simp add: rep_node_reads)
qed

section \<open>The loop restores the invariant\<close>

lemma rb_addrs_eq: "rb_addrs t path = set (addrs (zip_tree t path))"
  by (simp add: rb_addrs_def addrs_zip set_path_addrs) blast

lemma links_frame_color: "a \<in> A \<Longrightarrow> links_frame A s s' \<Longrightarrow> links_frame A s (set_color a c s')"
  using links_frame_set_color links_frame_trans by metis

lemma rep_blackred:
  assumes "rb_rep s (node sdg (node sd t p cp u) g cg v) path"
  shows "rb_rep (RB_SET_BLACKRED p g s) (node sdg (node sd t p RB_BLACK u) g RB_RED v) path"
    "links_frame (rb_addrs (node sdg (node sd t p cp u) g cg v) path) s (RB_SET_BLACKRED p g s)"
proof -
  have "rb_rep (set_color p RB_BLACK s) (node sd t p RB_BLACK u) (Frame sdg g cg v # path)"
    using assms by (intro rep_set_color [where c = cp]) (simp add: rb_rep_zip)
  then show "rb_rep (RB_SET_BLACKRED p g s) (node sdg (node sd t p RB_BLACK u) g RB_RED v) path"
    unfolding RB_SET_BLACKRED_def rb_rep_zip by (rule rep_set_color)
  show "links_frame (rb_addrs (node sdg (node sd t p cp u) g cg v) path) s (RB_SET_BLACKRED p g s)"
    unfolding RB_SET_BLACKRED_def
    by (intro links_frame_color links_frame_refl) (auto simp: rb_addrs_def addrs_node)
qed

lemma rep_recolor:
  assumes "rb_rep s (node sdg (node sd t p cp u) g cg v) path"
  shows "rb_rep (RB_SET_BLACKRED p g (if_color (ptr v) RB_BLACK s))
           (node sdg (node sd t p RB_BLACK u) g RB_RED (paint RB_BLACK v)) path"
    "links_frame (rb_addrs (node sdg (node sd t p cp u) g cg v) path) s
       (RB_SET_BLACKRED p g (if_color (ptr v) RB_BLACK s))"
proof -
  let ?s = "if_color (ptr v) RB_BLACK s"
  have "rb_rep s v (Frame (opp sdg) g cg (node sd t p cp u) # path)"
    using assms by (simp add: rb_rep_zip node_flip [of sdg])
  then have "rb_rep ?s (paint RB_BLACK v) (Frame (opp sdg) g cg (node sd t p cp u) # path)"
    by (rule rep_if_color)
  then have r: "rb_rep ?s (node sdg (node sd t p cp u) g cg (paint RB_BLACK v)) path"
    by (simp add: rb_rep_zip node_flip [of sdg])
  show "rb_rep (RB_SET_BLACKRED p g ?s) (node sdg (node sd t p RB_BLACK u) g RB_RED (paint RB_BLACK v)) path"
    by (rule rep_blackred(1) [OF r])
  have "links_frame (rb_addrs (node sdg (node sd t p cp u) g cg v) path) s ?s"
    by (rule links_frame_if_color [of v]) (auto simp: rb_addrs_def addrs_node)
  moreover have "links_frame (rb_addrs (node sdg (node sd t p cp u) g cg v) path) ?s (RB_SET_BLACKRED p g ?s)"
    using rep_blackred(2) [OF r] by (simp add: rb_addrs_def addrs_node)
  ultimately show "links_frame (rb_addrs (node sdg (node sd t p cp u) g cg v) path) s (RB_SET_BLACKRED p g ?s)"
    by (rule links_frame_trans)
qed

text \<open>The outer rotation, after \<open>RB_SET_BLACKRED\<close>: \<open>q\<close> takes the place of \<open>g\<close>.\<close>

lemma rotate_outer:
  assumes r: "rb_rep s (node sdg (node sdg t q RB_RED u) g RB_BLACK v) path"
    and A: "rb_addrs (node sdg (node sdg t q RB_RED u) g RB_BLACK v) path = A"
  shows "\<exists>s'. rb_rotate (opp sdg) g (RB_SET_BLACKRED q g s) = Some (q, s') \<and>
           rb_rep s' (node sdg t q RB_BLACK (node sdg u g RB_RED v)) path \<and> links_frame A s s'"
proof -
  let ?X = "node (opp sdg) v g RB_RED (node (opp sdg) u q RB_BLACK t)"
  let ?s = "RB_SET_BLACKRED q g s"
  have "node sdg (node sdg t q RB_BLACK u) g RB_RED v = ?X"
    by (metis node_flip)
  then have "rb_rep ?s ?X path" using rep_blackred(1) [OF r] by simp
  from rep_rotate [OF this] obtain s' where s': "rb_rotate (opp sdg) g ?s = Some (q, s')"
    "rb_rep s' (node (opp sdg) (node (opp sdg) v g RB_RED u) q RB_BLACK t) path"
    "links_frame (rb_addrs ?X path) ?s s'"
    by blast
  have "node (opp sdg) (node (opp sdg) v g RB_RED u) q RB_BLACK t
      = node sdg t q RB_BLACK (node sdg u g RB_RED v)"
    by (metis node_flip opp_opp)
  moreover have "rb_addrs ?X path = A"
    unfolding A [symmetric] by (auto simp: rb_addrs_def addrs_node)
  ultimately show ?thesis
    using s' rep_blackred(2) [OF r] A links_frame_trans by metis
qed

text \<open>
  Under a black uncle: if the red node is on the inner side it is first rotated to the outer
  one (then \<open>x\<close> and \<open>p\<close> change roles), and one rotation at the grandparent ends the work.
\<close>

definition after_rotation ::
    "side \<Rightarrow> nat \<Rightarrow> 'a list \<Rightarrow> 'a \<Rightarrow> 'a \<Rightarrow> 'a rb_state \<Rightarrow> 'a frame list \<Rightarrow> bool" where
  "after_rotation sdg n xs p e s path \<longleftrightarrow>
     (\<exists>sa a1 a2 b. rb_rep s (node sdg (node sa a1 e RB_RED a2) p RB_BLACK b) path \<and>
        rb_ok (Suc n) (node sdg (node sa a1 e RB_RED a2) p RB_BLACK b) \<and>
        addrs (node sdg (node sa a1 e RB_RED a2) p RB_BLACK b) = xs)"

lemma rotate_black_uncle_outer:
  assumes rep: "rb_rep s (node sdg (node sdg (node se e1 x RB_RED e2) p RB_RED u) g RB_BLACK v) path"
    (is "rb_rep s ?T path")
    and ok: "rb_ok n e1" "rb_ok n e2" "rb_ok n u" "rb_ok n v"
      "root_color e1 = RB_BLACK" "root_color e2 = RB_BLACK" "root_color u = RB_BLACK" "root_color v = RB_BLACK"
  shows "\<exists>s'. inner_step sdg p x s = Some (p, x, s) \<and>
      rb_rotate (opp sdg) g (RB_SET_BLACKRED p g s) = Some (p, s') \<and>
      after_rotation sdg n (addrs ?T) p x s' path \<and> links_frame (rb_addrs ?T path) s s'"
proof -
  have "ptr u \<noteq> Some x"
    using rep ptr_in_addrs [of u x] by (auto simp: rb_rep_node distinct_node addrs_node)
  moreover have "rb_child (opp sdg) p s = ptr u"
    using rep_node_reads(4) [of s sdg "node se e1 x RB_RED e2" p RB_RED u "Frame sdg g RB_BLACK v # path"] rep
    by (simp add: rb_rep_zip)
  ultimately have "inner_step sdg p x s = Some (p, x, s)" by (simp add: inner_step_def)
  moreover have "addrs (node sdg (node se e1 x RB_RED e2) p RB_BLACK (node sdg u g RB_RED v)) = addrs ?T"
    by (cases sdg) simp_all
  ultimately show ?thesis
    using rotate_outer [OF rep refl] ok unfolding after_rotation_def by fastforce
qed

lemma rotate_black_uncle_inner:
  assumes rep: "rb_rep s (node sdg (node (opp sdg) (node se e1 x RB_RED e2) p RB_RED u) g RB_BLACK v) path"
    (is "rb_rep s ?T path")
    and ok: "rb_ok n e1" "rb_ok n e2" "rb_ok n u" "rb_ok n v"
      "root_color e1 = RB_BLACK" "root_color e2 = RB_BLACK" "root_color u = RB_BLACK" "root_color v = RB_BLACK"
  shows "\<exists>s1 s'. inner_step sdg p x s = Some (x, p, s1) \<and>
      rb_rotate (opp sdg) g (RB_SET_BLACKRED x g s1) = Some (x, s') \<and>
      after_rotation sdg n (addrs ?T) x p s' path \<and> links_frame (rb_addrs ?T path) s s'"
proof -
  define f1 f2 where "f1 = (if se = sdg then e1 else e2)" and "f2 = (if se = sdg then e2 else e1)"
  have "node se e1 x RB_RED e2 = node sdg f1 x RB_RED f2"
    unfolding f1_def f2_def by (cases se; cases sdg) auto
  then have T: "?T = node sdg (node sdg u p RB_RED (node sdg f1 x RB_RED f2)) g RB_BLACK v"
    by (metis node_flip)
  have f: "rb_ok n f1" "rb_ok n f2" "root_color f1 = RB_BLACK" "root_color f2 = RB_BLACK"
    using ok by (simp_all add: f1_def f2_def)
  have "rb_rep s (node sdg u p RB_RED (node sdg f1 x RB_RED f2)) (Frame sdg g RB_BLACK v # path)"
    using rep unfolding T by (simp add: rb_rep_zip)
  from rep_rotate [OF this] obtain s1 where s1: "rb_rotate sdg p s = Some (x, s1)"
    "rb_rep s1 (node sdg (node sdg (node sdg u p RB_RED f1) x RB_RED f2) g RB_BLACK v) path"
    "links_frame (rb_addrs ?T path) s s1"
    unfolding T by (auto simp: rb_rep_zip)
  have "rb_addrs (node sdg (node sdg (node sdg u p RB_RED f1) x RB_RED f2) g RB_BLACK v) path = rb_addrs ?T path"
    unfolding T by (auto simp: rb_addrs_def addrs_node)
  from rotate_outer [OF s1(2) this] obtain s' where s': "rb_rotate (opp sdg) g (RB_SET_BLACKRED x g s1) = Some (x, s')"
    "rb_rep s' (node sdg (node sdg u p RB_RED f1) x RB_BLACK (node sdg f2 g RB_RED v)) path"
    "links_frame (rb_addrs ?T path) s1 s'"
    by blast
  have "rb_child (opp sdg) p s = Some x"
    using rep_node_reads(3) [of s "opp sdg" "node se e1 x RB_RED e2" p RB_RED u "Frame sdg g RB_BLACK v # path"] rep
    by (simp add: rb_rep_zip)
  then have "inner_step sdg p x s = Some (x, p, s1)" using s1(1) by (simp add: inner_step_def)
  moreover have "after_rotation sdg n (addrs ?T) x p s' path"
    unfolding after_rotation_def T using s'(2) f ok by (intro exI conjI) (assumption, simp, cases sdg, simp_all)
  ultimately show ?thesis using s' links_frame_trans [OF s1(3) s'(3)] by blast
qed

lemma after_rotation_stop:
  assumes "after_rotation sdg n xs p e s path" "path_ok (Suc n) path"
  shows "rb_insert_color_loop e s = Some s"
    "\<exists>t m. rb_rep s t [] \<and> addrs t = path_before path @ xs @ path_after path \<and> rb_ok m t"
proof -
  obtain sa a1 a2 b where r: "rb_rep s (node sdg (node sa a1 e RB_RED a2) p RB_BLACK b) path"
    and ok: "rb_ok (Suc n) (node sdg (node sa a1 e RB_RED a2) p RB_BLACK b)"
    and xs: "addrs (node sdg (node sa a1 e RB_RED a2) p RB_BLACK b) = xs"
    using assms(1) by (auto simp: after_rotation_def)
  show "rb_insert_color_loop e s = Some s"
    using r by (intro insert_loop_stop [where path = "Frame sdg p RB_BLACK b # path"])
      (simp_all add: rb_rep_zip)
  obtain m where "rb_ok m (zip_tree (node sdg (node sa a1 e RB_RED a2) p RB_BLACK b) path)"
    using rb_ok_zip [OF ok assms(2)] by auto
  then show "\<exists>t m. rb_rep s t [] \<and> addrs t = path_before path @ xs @ path_after path \<and> rb_ok m t"
    using r xs by (auto simp: rb_rep_zip_all [of s _ path] addrs_zip intro!: exI)
qed

lemma insert_color_loop_ok:
  assumes "rb_rep s (node se e1 x RB_RED e2) path" "rb_ok n (node se e1 x RB_RED e2)" "path_ok n path"
  shows "\<exists>s' t m. rb_insert_color_loop x s = Some s' \<and> rb_rep s' t [] \<and>
           addrs t = addrs (zip_tree (node se e1 x RB_RED e2) path) \<and> rb_ok m t \<and>
           links_frame (rb_addrs (node se e1 x RB_RED e2) path) s s'"
  using assms
proof (induction "length path" arbitrary: s se e1 x e2 path n rule: less_induct)
  case less
  note rep = less.prems(1) and ok = less.prems(2) and pok = less.prems(3)
  show ?case
  proof (cases "path_color path = RB_BLACK")
    case True
    then show ?thesis
      using insert_loop_stop [OF rep True] rb_ok_zip [OF ok pok] rep rb_rep_zip_all by fastforce
  next
    case False
    then obtain sd p u sdg g cg v rest where path: "path = Frame sd p RB_RED u # Frame sdg g cg v # rest"
      using pok by (cases path rule: path_color.cases; cases "tl path" rule: path_color.cases) auto
    with pok have cg: "cg = RB_BLACK" and oku: "rb_ok n u" "root_color u = RB_BLACK"
      and okv: "rb_ok n v" "path_ok (Suc n) rest" by auto
    let ?E = "node se e1 x RB_RED e2"
    let ?T = "node sdg (node sd ?E p RB_RED u) g RB_BLACK v"
    have r: "rb_rep s ?T rest" using rep by (simp add: path cg rb_rep_zip)
    have frame: "rb_addrs ?E path = rb_addrs ?T rest" by (simp add: path cg)
    have par: "RB_PARENT x s = Some p" using rep_node_reads(2) [OF rep] by (simp add: path)
    have parg: "RB_COLOR p s = RB_RED" "RB_PARENT p s = Some g"
      using rep_node_reads [of s sd ?E p RB_RED u "Frame sdg g cg v # rest"] rep by (simp_all add: path rb_rep_zip)
    have side: "side_of p g s = sdg" using side_of_rep [OF r] by simp
    have unc: "rb_child (opp sdg) g s = ptr v" "is_red (ptr v) s \<longleftrightarrow> root_color v = RB_RED"
      using rep_node_reads [OF r] rep_child_colors [OF r] by simp_all
    note eq = rb_insert_color_loop_side [of x s]
    have xs: "addrs (zip_tree ?E path) = path_before rest @ addrs ?T @ path_after rest"
      by (simp add: path cg addrs_zip)
    show ?thesis
    proof (cases "root_color v")
      case RB_RED
      let ?s = "RB_SET_BLACKRED p g (if_color (ptr v) RB_BLACK s)"
      let ?T' = "node sdg (node sd ?E p RB_BLACK u) g RB_RED (paint RB_BLACK v)"
      have ok': "rb_ok (Suc n) ?T'"
        using ok oku okv RB_RED rb_ok_paint_black(1) [of n v] by simp
      obtain s' t m where "rb_insert_color_loop g ?s = Some s'" "rb_rep s' t []"
        "addrs t = path_before rest @ addrs ?T' @ path_after rest" "rb_ok m t"
        "links_frame (rb_addrs ?T' rest) ?s s'"
        using less.hyps [OF _ rep_recolor(1) [OF r] ok' okv(2)] by (auto simp: path addrs_zip)
      moreover have "rb_insert_color_loop x s = rb_insert_color_loop g ?s"
        using eq par parg side unc RB_RED by simp
      moreover have "addrs ?T' = addrs ?T" "rb_addrs ?T' rest = rb_addrs ?T rest"
        by (cases sdg; cases sd; simp add: rb_addrs_def)+
      ultimately have "rb_insert_color_loop x s = Some s' \<and> rb_rep s' t [] \<and>
          addrs t = addrs (zip_tree ?E path) \<and> rb_ok m t \<and> links_frame (rb_addrs ?E path) s s'"
        using rep_recolor(2) [OF r] links_frame_trans [of "rb_addrs ?T rest" s ?s s']
        by (simp only: frame xs simp_thms)
      then show ?thesis by blast
    next
      case RB_BLACK
      have okE: "rb_ok n e1" "rb_ok n e2" "root_color e1 = RB_BLACK" "root_color e2 = RB_BLACK"
        using ok by simp_all
      have "\<exists>p' e' s1 s'. inner_step sdg p x s = Some (p', e', s1) \<and>
          rb_rotate (opp sdg) g (RB_SET_BLACKRED p' g s1) = Some (p', s') \<and>
          after_rotation sdg n (addrs ?T) p' e' s' rest \<and> links_frame (rb_addrs ?T rest) s s'"
      proof (cases "sd = sdg")
        case True
        then show ?thesis
          using rotate_black_uncle_outer [of s sdg se e1 x e2 p u g v rest n] r okE oku okv RB_BLACK
          by blast
      next
        case False
        then have "sd = opp sdg" by (cases sd; cases sdg) auto
        then show ?thesis
          using rotate_black_uncle_inner [of s sdg se e1 x e2 p u g v rest n] r okE oku okv RB_BLACK
          by blast
      qed
      then obtain p' e' s1 s' where st: "inner_step sdg p x s = Some (p', e', s1)"
        "rb_rotate (opp sdg) g (RB_SET_BLACKRED p' g s1) = Some (p', s')"
        "after_rotation sdg n (addrs ?T) p' e' s' rest" "links_frame (rb_addrs ?T rest) s s'"
        by blast
      have "rb_insert_color_loop x s = Some s'"
        using eq par parg side unc RB_BLACK st after_rotation_stop(1) [OF st(3) okv(2)] by simp
      then show ?thesis
        using after_rotation_stop(2) [OF st(3) okv(2)] st(4) unfolding frame xs by blast
    qed
  qed
qed

text \<open>
  The whole of \<open>RB_INSERT_COLOR\<close>: from a red node whose subtree and path are well-coloured but
  for a possible red parent, it ends, does not follow a null pointer, and leaves a red-black
  tree with the same in-order list; entries outside the tree are untouched.
\<close>

lemma RB_INSERT_COLOR_ok:
  assumes "rb_rep s (node se e1 x RB_RED e2) path" "rb_ok n (node se e1 x RB_RED e2)" "path_ok n path"
  shows "\<exists>s' t. RB_INSERT_COLOR x s = Some s' \<and> rb_rep s' t [] \<and> rbt_ok t \<and>
           addrs t = path_before path @ addrs (node se e1 x RB_RED e2) @ path_after path \<and>
           links_frame (rb_addrs (node se e1 x RB_RED e2) path) s s'"
proof -
  obtain s' t m where l: "rb_insert_color_loop x s = Some s'" "rb_rep s' t []"
    "addrs t = path_before path @ addrs (node se e1 x RB_RED e2) @ path_after path" "rb_ok m t"
    "links_frame (rb_addrs (node se e1 x RB_RED e2) path) s s'"
    using insert_color_loop_ok [OF assms] by (auto simp: addrs_zip)
  have "x \<in> set (addrs t)" using l(3) by (simp add: addrs_node)
  then obtain a t1 c t2 where t: "t = node SL t1 a c t2" by (cases t rule: ptr.cases) auto
  have root: "rbh_root s' = Some a" using l(2) by (simp add: rb_rep_def t)
  have rep: "rb_rep (set_color a RB_BLACK s') (node SL t1 a RB_BLACK t2) []"
    using l(2) unfolding t by (rule rep_set_color)
  have ok: "rbt_ok (node SL t1 a RB_BLACK t2)"
    using rb_ok_paint_black(2) [OF l(4)] by (simp add: t rbt_ok_def del: node.simps)
  have "a \<in> set (addrs t)" by (simp add: t)
  then have "a \<in> rb_addrs (node se e1 x RB_RED e2) path"
    unfolding l(3) rb_addrs_eq addrs_zip .
  then have fr: "links_frame (rb_addrs (node se e1 x RB_RED e2) path) s (set_color a RB_BLACK s')"
    using l(5) links_frame_color by metis
  show ?thesis
    using l(1,3) root rep ok fr t
    by (intro exI [of _ "set_color a RB_BLACK s'"] exI [of _ "node SL t1 a RB_BLACK t2"])
      (simp add: RB_INSERT_COLOR_def)
qed

end
