(* ===== verification/Rbtree_Remove.thy ===== *)
theory Rbtree_Remove
  imports Rbtree_Insert
begin

text \<open>
  \<open>RB_REMOVE\<close>: the colour repair loop of \<open>RB_REMOVE_COLOR\<close> ends without a null dereference and
  makes up for the missing black node; unlinking an element (with or without a successor to
  move into its place) takes exactly that element out of the in-order list.
\<close>

section \<open>The loop body, with the side as a parameter\<close>

text \<open>A red sibling is rotated away, so that the sibling \<open>tmp\<close> is black.\<close>

definition sib_step :: "side \<Rightarrow> 'a \<Rightarrow> 'a \<Rightarrow> 'a rb_state \<Rightarrow> ('a \<times> 'a rb_state) option" where
  "sib_step sd p tmp s =
     (if RB_COLOR tmp s = RB_RED
      then do { (tmp, s) \<leftarrow> rb_rotate sd p (RB_SET_BLACKRED tmp p s);
                tmp \<leftarrow> rb_child (opp sd) p s;
                Some (tmp, s) }
      else Some (tmp, s))"

text \<open>A black far nephew: the red near nephew is rotated to the far side.\<close>

definition near_step :: "side \<Rightarrow> 'a \<Rightarrow> 'a \<Rightarrow> 'a rb_state \<Rightarrow> ('a \<times> 'a rb_state) option" where
  "near_step sd p tmp s =
     (if null_or_black (rb_child (opp sd) tmp s) s
      then do { (x, s) \<leftarrow> rb_rotate (opp sd) tmp
                  (set_color tmp RB_RED (if_color (rb_child sd tmp s) RB_BLACK s));
                tmp \<leftarrow> rb_child (opp sd) p s;
                Some (tmp, s) }
      else Some (tmp, s))"

text \<open>The last rotation, with the colours it moves.\<close>

definition far_step :: "side \<Rightarrow> 'a \<Rightarrow> 'a \<Rightarrow> 'a rb_state \<Rightarrow> ('a \<times> 'a rb_state) option" where
  "far_step sd p tmp s =
     (let s = set_color tmp (RB_COLOR p s) s;
          s = set_color p RB_BLACK s;
          s = if_color (rb_child (opp sd) tmp s) RB_BLACK s
      in rb_rotate sd p s)"

lemma rb_remove_color_loop_side:
  "rb_remove_color_loop parent elm s =
    (if \<not> (null_or_black elm s \<and> elm \<noteq> rbh_root s) then Some (elm, s)
     else do {
       p \<leftarrow> parent;
       let sd = (if RB_LEFT p s = elm then SL else SR);
       tmp \<leftarrow> rb_child (opp sd) p s;
       (tmp, s) \<leftarrow> sib_step sd p tmp s;
       if null_or_black (rb_child sd tmp s) s \<and> null_or_black (rb_child (opp sd) tmp s) s then
         (let s = set_color tmp RB_RED s in rb_remove_color_loop (RB_PARENT p s) (Some p) s)
       else do {
         (tmp, s) \<leftarrow> near_step sd p tmp s;
         (tmp, s) \<leftarrow> far_step sd p tmp s;
         Some (rbh_root s, s) } })"
proof (cases "null_or_black elm s \<and> elm \<noteq> rbh_root s \<and> parent \<noteq> None")
  case False
  then show ?thesis by (subst rb_remove_color_loop.simps) auto
next
  case True
  then obtain p where p: "parent = Some p" by blast
  show ?thesis
  proof (cases "RB_LEFT p s = elm")
    case l: True
    show ?thesis
      using True l p
      by (subst rb_remove_color_loop.simps) (simp add: sib_step_def near_step_def far_step_def Let_def cong: if_cong)
  next
    case r: False
    show ?thesis
      using True r p
      by (subst rb_remove_color_loop.simps)
        (simp add: sib_step_def near_step_def far_step_def Let_def conj_commute cong: if_cong)
  qed
qed

lemma RB_REMOVE_COLOR_side:
  "RB_REMOVE_COLOR parent elm s =
    (if \<not> (null_or_black elm s \<and> elm \<noteq> rbh_root s) then Some (if_color elm RB_BLACK s)
     else do {
       p \<leftarrow> parent;
       let sd = (if RB_LEFT p s = elm then SL else SR);
       tmp \<leftarrow> rb_child (opp sd) p s;
       (tmp, s) \<leftarrow> sib_step sd p tmp s;
       if null_or_black (rb_child sd tmp s) s \<and> null_or_black (rb_child (opp sd) tmp s) s then
         (let s = set_color tmp RB_RED s in RB_REMOVE_COLOR (RB_PARENT p s) (Some p) s)
       else do {
         (tmp, s) \<leftarrow> near_step sd p tmp s;
         (tmp, s) \<leftarrow> far_step sd p tmp s;
         Some (if_color (rbh_root s) RB_BLACK s) } })"
  unfolding RB_REMOVE_COLOR_def
  by (subst rb_remove_color_loop_side) (auto simp: Let_def split: Option.bind_splits prod.splits)

section \<open>The steps on the represented tree\<close>

lemma sib_step_black:
  assumes "rb_rep s t (Frame sd p c (node sd v1 b RB_BLACK v2) # rest)"
  shows "sib_step sd p b s = Some (b, s)"
proof -
  have "rb_rep s (node sd v1 b RB_BLACK v2) (Frame (opp sd) p c t # rest)"
    using assms by (simp add: rb_rep_zip node_flip [of sd t])
  from rep_node_reads(1) [OF this] show ?thesis by (simp add: sib_step_def)
qed

lemma sib_step_red:
  assumes rep: "rb_rep s t (Frame sd p RB_BLACK (node sd (node sd w1 d cd w2) b RB_RED u2) # rest)"
    (is "rb_rep s t ?P")
  shows "\<exists>s'. sib_step sd p b s = Some (d, s') \<and>
           rb_rep s' t (Frame sd p RB_RED (node sd w1 d cd w2) # Frame sd b RB_BLACK u2 # rest) \<and>
           links_frame (rb_addrs t ?P) s s'"
proof -
  let ?U = "node sd w1 d cd w2" and ?s = "RB_SET_BLACKRED b p s"
  have T: "node sd t p x (node sd ?U b y u2) = node (opp sd) (node sd ?U b y u2) p x t" for x y
    by (rule node_flip)
  have r0: "rb_rep s (node (opp sd) (node sd ?U b RB_RED u2) p RB_BLACK t) rest"
    using rep by (simp add: rb_rep_zip T)
  have red: "RB_COLOR b s = RB_RED"
    using rep_node_reads(1) [of s sd ?U b RB_RED u2 "Frame (opp sd) p RB_BLACK t # rest"] r0
    by (simp add: rb_rep_zip)
  have "rb_rep ?s (node sd t p RB_RED (node sd ?U b RB_BLACK u2)) rest"
    unfolding T by (rule rep_blackred(1) [OF r0])
  from rep_rotate [OF this] obtain s' where s': "rb_rotate sd p ?s = Some (b, s')"
    "rb_rep s' (node sd (node sd t p RB_RED ?U) b RB_BLACK u2) rest"
    "links_frame (rb_addrs (node sd t p RB_RED (node sd ?U b RB_BLACK u2)) rest) ?s s'" by blast
  have rep': "rb_rep s' (node sd t p RB_RED ?U) (Frame sd b RB_BLACK u2 # rest)"
    using s'(2) by (simp add: rb_rep_zip)
  have "rb_child (opp sd) p s' = Some d" using rep_node_reads(4) [OF rep'] by simp
  then have "sib_step sd p b s = Some (d, s')" using s'(1) red by (simp add: sib_step_def)
  moreover have "rb_addrs (node (opp sd) (node sd ?U b RB_RED u2) p RB_BLACK t) rest = rb_addrs t ?P"
    "rb_addrs (node sd t p RB_RED (node sd ?U b RB_BLACK u2)) rest = rb_addrs t ?P"
    by (auto simp: rb_addrs_def addrs_node)
  then have "links_frame (rb_addrs t ?P) s s'"
    using rep_blackred(2) [OF r0] s'(3) links_frame_trans by metis
  ultimately show ?thesis using rep' by (simp add: rb_rep_zip)
qed

text \<open>From here on the sibling \<open>b\<close> of the focus \<open>t\<close> is black; \<open>v1\<close> is the near nephew, \<open>v2\<close> the far one.\<close>

lemma sibling_reads:
  assumes "rb_rep s t (Frame sd p c (node sd v1 b cb v2) # rest)"
  shows "rb_child sd b s = ptr v1" "rb_child (opp sd) b s = ptr v2" "RB_COLOR p s = c"
    "RB_PARENT p s = path_ptr rest" "rb_child (opp sd) p s = Some b"
    "null_or_black (ptr v1) s \<longleftrightarrow> root_color v1 = RB_BLACK"
    "null_or_black (ptr v2) s \<longleftrightarrow> root_color v2 = RB_BLACK"
proof -
  have r: "rb_rep s (node sd t p c (node sd v1 b cb v2)) rest"
    using assms by (simp add: rb_rep_zip)
  have b: "rb_rep s (node sd v1 b cb v2) (Frame (opp sd) p c t # rest)"
    using assms by (simp add: rb_rep_zip node_flip [of sd t])
  show "rb_child sd b s = ptr v1" "rb_child (opp sd) b s = ptr v2" "RB_COLOR p s = c"
    "RB_PARENT p s = path_ptr rest" "rb_child (opp sd) p s = Some b"
    using rep_node_reads [OF r] rep_node_reads [OF b] by simp_all
  show "null_or_black (ptr v1) s \<longleftrightarrow> root_color v1 = RB_BLACK"
    "null_or_black (ptr v2) s \<longleftrightarrow> root_color v2 = RB_BLACK"
    using rep_child_colors(3,4) [OF b] .
qed

lemma near_step_skip:
  assumes "rb_rep s t (Frame sd p c (node sd v1 b RB_BLACK v2) # rest)" "root_color v2 = RB_RED"
  shows "near_step sd p b s = Some (b, s)"
  using sibling_reads [OF assms(1)] assms(2) by (simp add: near_step_def)

lemma near_step_rotate:
  assumes rep: "rb_rep s t (Frame sd p c (node sd (node sd w1 d RB_RED w2) b RB_BLACK v2) # rest)"
    (is "rb_rep s t ?P")
    and v2: "root_color v2 = RB_BLACK"
  shows "\<exists>s'. near_step sd p b s = Some (d, s') \<and>
           rb_rep s' t (Frame sd p c (node sd w1 d RB_BLACK (node sd w2 b RB_RED v2)) # rest) \<and>
           links_frame (rb_addrs t ?P) s s'"
proof -
  let ?V = "node sd w1 d RB_RED w2" and ?F = "Frame (opp sd) p c t # rest"
  let ?s1 = "if_color (ptr ?V) RB_BLACK s" let ?s2 = "set_color b RB_RED ?s1"
  have "rb_rep s ?V (Frame sd b RB_BLACK v2 # ?F)"
    using rep by (simp add: rb_rep_zip node_flip [of sd t])
  from rep_if_color [OF this, of RB_BLACK]
  have "rb_rep ?s1 (node sd (node sd w1 d RB_BLACK w2) b RB_BLACK v2) ?F"
    by (simp add: rb_rep_zip)
  from rep_set_color [OF this, of RB_RED]
  have "rb_rep ?s2 (node (opp sd) v2 b RB_RED (node (opp sd) w2 d RB_BLACK w1)) ?F"
    by (simp add: node_flip [of sd w1] node_flip [of sd "node (opp sd) w2 d RB_BLACK w1"])
  from rep_rotate [OF this] obtain s' where s': "rb_rotate (opp sd) b ?s2 = Some (d, s')"
    "rb_rep s' (node (opp sd) (node (opp sd) v2 b RB_RED w2) d RB_BLACK w1) ?F"
    "links_frame (rb_addrs (node (opp sd) v2 b RB_RED (node (opp sd) w2 d RB_BLACK w1)) ?F) ?s2 s'"
    by blast
  have rep': "rb_rep s' t (Frame sd p c (node sd w1 d RB_BLACK (node sd w2 b RB_RED v2)) # rest)"
    using s'(2) by (simp add: rb_rep_zip node_flip [of sd])
  note r = sibling_reads [OF rep]
  have "rb_child (opp sd) p s' = Some d" by (rule sibling_reads(5) [OF rep'])
  then have step: "near_step sd p b s = Some (d, s')" using r v2 s'(1) by (simp add: near_step_def)
  have A: "rb_addrs (node (opp sd) v2 b RB_RED (node (opp sd) w2 d RB_BLACK w1)) ?F = rb_addrs t ?P"
    by (auto simp: rb_addrs_def addrs_node)
  have "links_frame (rb_addrs t ?P) s ?s1"
    by (rule links_frame_if_color [of ?V]) (auto simp: rb_addrs_def addrs_node)
  then have "links_frame (rb_addrs t ?P) s ?s2"
    by (rule links_frame_color [rotated]) (auto simp: rb_addrs_def addrs_node)
  then show ?thesis using step rep' s'(3) links_frame_trans unfolding A by blast
qed

lemma far_step_ok:
  assumes rep: "rb_rep s t (Frame sd p c (node sd v1 b RB_BLACK v2) # rest)" (is "rb_rep s t ?P")
  shows "\<exists>s'. far_step sd p b s = Some (b, s') \<and>
           rb_rep s' (node sd (node sd t p RB_BLACK v1) b c (paint RB_BLACK v2)) rest \<and>
           links_frame (rb_addrs t ?P) s s'"
proof -
  let ?s1 = "set_color b c s" let ?s2 = "set_color p RB_BLACK ?s1"
  let ?s3 = "if_color (ptr v2) RB_BLACK ?s2"
  note r = sibling_reads [OF rep]
  have "rb_rep s (node sd v1 b RB_BLACK v2) (Frame (opp sd) p c t # rest)"
    using rep by (simp add: rb_rep_zip node_flip [of sd t])
  from rep_set_color [OF this, of c]
  have "rb_rep ?s1 (node sd t p c (node sd v1 b c v2)) rest"
    by (simp add: rb_rep_zip node_flip [of sd t])
  from rep_set_color [OF this, of RB_BLACK]
  have r2: "rb_rep ?s2 v2 (Frame (opp sd) b c v1 # Frame (opp sd) p RB_BLACK t # rest)"
    by (simp add: rb_rep_zip node_flip [of sd])
  have far: "rb_child (opp sd) b ?s2 = ptr v2"
    using rep_node_reads(3) [of ?s2 "opp sd" v2 b c v1 "Frame (opp sd) p RB_BLACK t # rest"] r2
    by (simp add: rb_rep_zip)
  from rep_if_color [OF r2, of RB_BLACK]
  have "rb_rep ?s3 (node sd t p RB_BLACK (node sd v1 b c (paint RB_BLACK v2))) rest"
    by (simp add: rb_rep_zip node_flip [of sd])
  from rep_rotate [OF this] obtain s' where s': "rb_rotate sd p ?s3 = Some (b, s')"
    "rb_rep s' (node sd (node sd t p RB_BLACK v1) b c (paint RB_BLACK v2)) rest"
    "links_frame (rb_addrs (node sd t p RB_BLACK (node sd v1 b c (paint RB_BLACK v2))) rest) ?s3 s'"
    by blast
  have "far_step sd p b s = Some (b, s')"
    using s'(1) r far by (simp add: far_step_def Let_def)
  moreover have A: "rb_addrs (node sd t p RB_BLACK (node sd v1 b c (paint RB_BLACK v2))) rest = rb_addrs t ?P"
    by (auto simp: rb_addrs_def addrs_node)
  have "links_frame (rb_addrs t ?P) s ?s2"
    by (intro links_frame_color links_frame_refl) (auto simp: rb_addrs_def addrs_node)
  moreover have "links_frame (rb_addrs t ?P) ?s2 ?s3"
    by (rule links_frame_if_color [of v2]) (auto simp: rb_addrs_def addrs_node)
  ultimately show ?thesis using s'(2,3) links_frame_trans unfolding A by blast
qed

section \<open>The loop repairs the missing black node\<close>

text \<open>What the repair promises of a run from state \<open>s\<close> with result \<open>r\<close>.\<close>

definition color_fixed :: "'a rbt \<Rightarrow> 'a frame list \<Rightarrow> 'a rb_state \<Rightarrow> 'a rb_state option \<Rightarrow> bool" where
  "color_fixed t path s r \<longleftrightarrow>
     (\<exists>s' t'. r = Some s' \<and> rb_rep s' t' [] \<and> rbt_ok t' \<and> addrs t' = addrs (zip_tree t path) \<and>
        links_frame (rb_addrs t path) s s')"

lemma color_fixed_mono:
  assumes "color_fixed t' path' s' r" "links_frame (rb_addrs t path) s s'"
    "addrs (zip_tree t' path') = addrs (zip_tree t path)"
  shows "color_fixed t path s r"
  using assms unfolding color_fixed_def rb_addrs_eq by (metis links_frame_trans)

text \<open>A black focus that lacks one black node, or a red one whose colour will be changed.\<close>

definition short_focus :: "nat \<Rightarrow> 'a rbt \<Rightarrow> 'a frame list \<Rightarrow> bool" where
  "short_focus n t path \<longleftrightarrow> path_ok (Suc n) path \<and>
     (if root_color t = RB_RED then rb_ok (Suc n) (paint RB_BLACK t) else rb_ok n t)"

lemma paint_black_id: "root_color t = RB_BLACK \<Longrightarrow> paint RB_BLACK t = t"
  by (cases t rule: ptr.cases) auto

lemma addrs_zip_paint [simp]: "addrs (zip_tree (paint c t) path) = addrs (zip_tree t path)"
  by (simp add: addrs_zip)

lemma paint_focus_fixed:
  assumes "rb_rep s t path" "rbt_ok (zip_tree (paint RB_BLACK t) path)"
  shows "color_fixed t path s (Some (if_color (ptr t) RB_BLACK s))"
  unfolding color_fixed_def
  using assms rep_if_color [OF assms(1), of RB_BLACK] rb_rep_zip_all
  by (intro exI [of _ "if_color (ptr t) RB_BLACK s"] exI [of _ "zip_tree (paint RB_BLACK t) path"])
    (auto simp: rb_addrs_def intro: links_frame_if_color)

lemma paint_root_fixed:
  assumes "rb_rep s t path" "rbt_ok (zip_tree t path)"
  shows "color_fixed t path s (Some (if_color (rbh_root s) RB_BLACK s))"
proof -
  let ?z = "zip_tree t path"
  have z: "rb_rep s ?z []" using assms(1) rb_rep_zip_all by metis
  moreover have "rbt_ok (zip_tree (paint RB_BLACK ?z) [])"
    using assms(2) by (simp add: rbt_ok_def paint_black_id)
  ultimately have "color_fixed ?z [] s (Some (if_color (ptr ?z) RB_BLACK s))"
    by (rule paint_focus_fixed)
  moreover have "rbh_root s = ptr ?z" using z by (simp add: rb_rep_def)
  ultimately show ?thesis by (simp add: color_fixed_def rb_addrs_eq)
qed

lemma ptr_neq_path_root:
  assumes "distinct (addrs t @ path_addrs path)" "path \<noteq> []"
  shows "ptr t \<noteq> path_root p path"
proof -
  have "path \<noteq> [] \<Longrightarrow> \<exists>a\<in>set (path_addrs path). path_root q path = Some a" for q :: "'a option"
    by (induction q path rule: path_root.induct) (case_tac path; force)+
  then show ?thesis using assms ptr_in_addrs [of t] by fastforce
qed

lemma remove_color_guard:
  assumes "rb_rep s t path"
  shows "null_or_black (ptr t) s \<and> ptr t \<noteq> rbh_root s \<longleftrightarrow> root_color t = RB_BLACK \<and> path \<noteq> []"
  using assms is_red_ptr(2) [of s "path_ptr path" t] ptr_neq_path_root [of t path]
  by (cases "path = []") (auto simp: rb_rep_def)

lemma remove_color_stop:
  assumes "rb_rep s t path" "short_focus n t path" "root_color t = RB_RED \<or> path = []"
  shows "color_fixed t path s (RB_REMOVE_COLOR (path_ptr path) (ptr t) s)"
proof -
  have "rbt_ok (zip_tree (paint RB_BLACK t) path)"
    using assms(2,3) rbt_ok_zip [of "Suc n" "paint RB_BLACK t" path]
    by (cases "root_color t") (auto simp: short_focus_def paint_black_id rbt_ok_def)
  from paint_focus_fixed [OF assms(1) this] show ?thesis
    using remove_color_guard [OF assms(1)] assms(3) by (subst RB_REMOVE_COLOR_side) auto
qed

text \<open>The part of the body after the sibling is black.\<close>

definition black_sibling_part :: "side \<Rightarrow> 'a \<Rightarrow> 'a \<Rightarrow> 'a rb_state \<Rightarrow> 'a rb_state option" where
  "black_sibling_part sd p tmp s =
     (if null_or_black (rb_child sd tmp s) s \<and> null_or_black (rb_child (opp sd) tmp s) s then
        (let s = set_color tmp RB_RED s in RB_REMOVE_COLOR (RB_PARENT p s) (Some p) s)
      else do {
        (tmp, s) \<leftarrow> near_step sd p tmp s;
        (tmp, s) \<leftarrow> far_step sd p tmp s;
        Some (if_color (rbh_root s) RB_BLACK s) })"

lemma far_nephew_fixed:
  assumes rep: "rb_rep s t (Frame sd p c (node sd v1 b RB_BLACK v2) # rest)" (is "rb_rep s t ?P")
    and ok: "root_color t = RB_BLACK" "rb_ok n t" "rb_ok n v1" "rb_ok (Suc n) (paint RB_BLACK v2)"
    and pok: "path_ok (Suc n) (Frame sd p c (node sd v1 b RB_BLACK v2) # rest)"
  shows "\<exists>s'. far_step sd p b s = Some (b, s') \<and>
           color_fixed t ?P s (Some (if_color (rbh_root s') RB_BLACK s'))"
proof -
  let ?T = "node sd (node sd t p RB_BLACK v1) b c (paint RB_BLACK v2)"
  from far_step_ok [OF rep] obtain s' where s': "far_step sd p b s = Some (b, s')"
    "rb_rep s' ?T rest" "links_frame (rb_addrs t ?P) s s'" by blast
  have "rbt_ok (zip_tree ?T rest)"
  proof (cases c)
    case RB_BLACK
    then show ?thesis using ok pok by (intro rbt_ok_zip [of "Suc (Suc n)"]) auto
  next
    case RB_RED
    then show ?thesis using ok pok by (intro rbt_ok_zip [of "Suc n"]) auto
  qed
  note paint_root_fixed [OF s'(2) this]
  moreover have "addrs (zip_tree ?T rest) = addrs (zip_tree t ?P)"
    by (cases sd) (simp_all add: addrs_zip)
  ultimately show ?thesis using s'(1,3) color_fixed_mono by blast
qed

lemma red_node_cases:
  assumes "rb_ok n v" "root_color v = RB_RED"
  obtains w1 d w2 where "v = node sd w1 d RB_RED w2" "rb_ok n w1" "rb_ok n w2"
    "root_color w1 = RB_BLACK" "root_color w2 = RB_BLACK"
proof -
  obtain a where "ptr v = Some a" using assms(2) by (cases v rule: ptr.cases) auto
  from ptr_Some_node [OF this, of sd] obtain w1 c w2 where v: "v = node sd w1 a c w2" by blast
  then show ?thesis using assms that by simp
qed

lemma black_sibling_fixed:
  assumes rep: "rb_rep s t (Frame sd p c (node sd v1 b RB_BLACK v2) # rest)" (is "rb_rep s t ?P")
    and ok: "root_color t = RB_BLACK" "rb_ok n t" and pok: "path_ok (Suc n) (Frame sd p c (node sd v1 b RB_BLACK v2) # rest)"
    and up: "\<And>s'. root_color v1 = RB_BLACK \<Longrightarrow> root_color v2 = RB_BLACK \<Longrightarrow>
       rb_rep s' (node sd t p c (node sd v1 b RB_RED v2)) rest \<Longrightarrow>
       color_fixed (node sd t p c (node sd v1 b RB_RED v2)) rest s' (RB_REMOVE_COLOR (path_ptr rest) (Some p) s')"
  shows "color_fixed t ?P s (black_sibling_part sd p b s)"
proof -
  note r = sibling_reads [OF rep]
  have v: "rb_ok n v1" "rb_ok n v2" using pok by (cases c; simp)+
  consider "root_color v2 = RB_RED" | "root_color v2 = RB_BLACK" "root_color v1 = RB_RED"
    | "root_color v2 = RB_BLACK" "root_color v1 = RB_BLACK"
    by (cases "root_color v1"; cases "root_color v2") auto
  then show ?thesis
  proof cases
    case 1
    have "rb_ok (Suc n) (paint RB_BLACK v2)" by (rule rb_ok_paint_black(1) [OF v(2) 1])
    from far_nephew_fixed [OF rep ok v(1) this pok]
    show ?thesis using r 1 near_step_skip [OF rep 1] by (auto simp: black_sibling_part_def)
  next
    case 2
    from red_node_cases [OF v(1) 2(2), of sd] obtain w1 d w2 where w: "v1 = node sd w1 d RB_RED w2"
      "rb_ok n w1" "rb_ok n w2" "root_color w1 = RB_BLACK" "root_color w2 = RB_BLACK" by metis
    let ?P' = "Frame sd p c (node sd w1 d RB_BLACK (node sd w2 b RB_RED v2)) # rest"
    from near_step_rotate [OF rep [unfolded w] 2(1)] obtain s1 where s1:
      "near_step sd p b s = Some (d, s1)" "rb_rep s1 t ?P'" "links_frame (rb_addrs t ?P) s s1"
      unfolding w by blast
    have pok': "path_ok (Suc n) ?P'" using pok w v 2 by (cases c) simp_all
    have "rb_ok (Suc n) (paint RB_BLACK (node sd w2 b RB_RED v2))" using w v 2 by simp
    from far_nephew_fixed [OF s1(2) ok w(2) this pok'] obtain s2 where
      "far_step sd p d s1 = Some (d, s2)" and f: "color_fixed t ?P' s1 (Some (if_color (rbh_root s2) RB_BLACK s2))"
      by blast
    then have "black_sibling_part sd p b s = Some (if_color (rbh_root s2) RB_BLACK s2)"
      using r 2 s1(1) by (simp add: black_sibling_part_def)
    moreover have "addrs (zip_tree t ?P') = addrs (zip_tree t ?P)"
      unfolding w by (cases sd) (simp_all add: addrs_zip)
    ultimately show ?thesis using color_fixed_mono [OF f s1(3)] by simp
  next
    case 3
    let ?s = "set_color b RB_RED s" and ?T = "node sd t p c (node sd v1 b RB_RED v2)"
    have "rb_rep s (node sd v1 b RB_BLACK v2) (Frame (opp sd) p c t # rest)"
      using rep by (simp add: rb_rep_zip node_flip [of sd t])
    from rep_set_color [OF this, of RB_RED] have rep': "rb_rep ?s ?T rest"
      by (simp add: rb_rep_zip node_flip [of sd t])
    have "RB_PARENT p ?s = path_ptr rest" by (rule rep_node_reads(2) [OF rep'])
    then have "black_sibling_part sd p b s = RB_REMOVE_COLOR (path_ptr rest) (Some p) ?s"
      using r 3 by (simp add: black_sibling_part_def)
    moreover have "links_frame (rb_addrs t ?P) s ?s"
      by (rule links_frame_set_color) (simp add: rb_addrs_def addrs_node)
    moreover have "addrs (zip_tree ?T rest) = addrs (zip_tree t ?P)"
      by (cases sd) (simp_all add: addrs_zip)
    ultimately show ?thesis using color_fixed_mono [OF up [OF 3(2,1) rep']] by simp
  qed
qed

lemma remove_color_side_reads:
  assumes "rb_rep s t (Frame sd p c (node sd u b cb v) # rest)"
  shows "(if RB_LEFT p s = ptr t then SL else SR) = sd"
proof -
  have r: "rb_rep s (node sd t p c (node sd u b cb v)) rest"
    using assms by (simp add: rb_rep_zip)
  have "ptr t \<noteq> Some b" using r ptr_in_addrs [of t b] by (auto simp: rb_rep_node addrs_node)
  then show ?thesis using rep_node_reads(3,4) [OF r] by (cases sd) auto
qed

lemma RB_REMOVE_COLOR_split:
  assumes "rb_rep s t (Frame sd p c (node sd u b cb v) # rest)" "root_color t = RB_BLACK"
  shows "RB_REMOVE_COLOR (Some p) (ptr t) s =
     do { (tmp, s) \<leftarrow> sib_step sd p b s; black_sibling_part sd p tmp s }"
  using remove_color_guard [OF assms(1)] assms(2) remove_color_side_reads [OF assms(1)]
    sibling_reads(5) [OF assms(1)]
  by (subst RB_REMOVE_COLOR_side) (simp add: black_sibling_part_def [abs_def] Let_def cong: if_cong)

theorem RB_REMOVE_COLOR_ok:
  assumes "rb_rep s t path" "short_focus n t path"
  shows "color_fixed t path s (RB_REMOVE_COLOR (path_ptr path) (ptr t) s)"
  using assms
proof (induction path arbitrary: s t n)
  case Nil
  then show ?case by (intro remove_color_stop) auto
next
  case (Cons f rest)
  obtain sd p c u where f: "f = Frame sd p c u" by (cases f)
  show ?case
  proof (cases "root_color t")
    case RB_RED
    then show ?thesis by (intro remove_color_stop [OF Cons.prems]) auto
  next
    case black: RB_BLACK
    have ok: "rb_ok n t" "path_ok (Suc n) (Frame sd p c u # rest)"
      using Cons.prems(2) black by (simp_all add: short_focus_def f)
    then obtain b where "ptr u = Some b" by (cases "ptr u"; cases c) auto
    from ptr_Some_node [OF this, of sd] obtain u1 cb u2 where u: "u = node sd u1 b cb u2" by blast
    note rep = Cons.prems(1) [unfolded f u] and pok = ok(2) [unfolded u]
    note split = RB_REMOVE_COLOR_split [OF rep black]
    show ?thesis
    proof (cases cb)
      case cb: RB_BLACK
      have "color_fixed t (f # rest) s (black_sibling_part sd p b s)"
        unfolding f u cb
      proof (rule black_sibling_fixed [OF rep [unfolded cb] black ok(1) pok [unfolded cb]])
        fix s' let ?T = "node sd t p c (node sd u1 b RB_RED u2)"
        assume b: "root_color u1 = RB_BLACK" "root_color u2 = RB_BLACK" and r: "rb_rep s' ?T rest"
        have "short_focus (if c = RB_BLACK then Suc n else n) ?T rest"
          using ok black b pok cb by (cases c) (auto simp: short_focus_def)
        from Cons.IH [OF r this]
        show "color_fixed ?T rest s' (RB_REMOVE_COLOR (path_ptr rest) (Some p) s')" by simp
      qed
      then show ?thesis
        using split sib_step_black [OF rep [unfolded cb]] by (simp add: f)
    next
      case cb: RB_RED
      with pok have c: "c = RB_BLACK" by (cases c) auto
      have u1: "rb_ok (Suc n) u1" "root_color u1 = RB_BLACK" using pok cb c by simp_all
      then obtain d where "ptr u1 = Some d" by (cases "ptr u1") auto
      from ptr_Some_node [OF this, of sd] obtain w1 w2 where w: "u1 = node sd w1 d RB_BLACK w2"
        using u1 by auto
      let ?P = "Frame sd p RB_RED (node sd w1 d RB_BLACK w2) # Frame sd b RB_BLACK u2 # rest"
      obtain s' where s': "sib_step sd p b s = Some (d, s')" "rb_rep s' t ?P"
        "links_frame (rb_addrs t (f # rest)) s s'"
        using sib_step_red [OF rep [unfolded c cb w]] unfolding f u c cb w by blast
      have pok': "path_ok (Suc n) ?P" using pok cb c w by simp
      have "color_fixed t ?P s' (black_sibling_part sd p d s')"
      proof (rule black_sibling_fixed [OF s'(2) black ok(1) pok'])
        fix s'' let ?T = "node sd t p RB_RED (node sd w1 d RB_RED w2)"
          and ?R = "Frame sd b RB_BLACK u2 # rest"
        assume b: "root_color w1 = RB_BLACK" "root_color w2 = RB_BLACK" and r: "rb_rep s'' ?T ?R"
        have "short_focus n ?T ?R" using ok black b pok' by (auto simp: short_focus_def)
        from remove_color_stop [OF r this]
        show "color_fixed ?T ?R s'' (RB_REMOVE_COLOR (path_ptr ?R) (Some p) s'')" by simp
      qed
      moreover have "addrs (zip_tree t ?P) = addrs (zip_tree t (f # rest))"
        unfolding f u w by (cases sd) (simp_all add: addrs_zip)
      ultimately have "color_fixed t (f # rest) s (black_sibling_part sd p d s')"
        using color_fixed_mono s'(3) by blast
      then show ?thesis using split s'(1) by (simp add: f)
    qed
  qed
qed

section \<open>Unlinking an element\<close>

lemma zip_tree_append [simp]: "zip_tree t (p1 @ p2) = zip_tree (zip_tree t p1) p2"
  by (induction t p1 rule: zip_tree.induct) simp_all

lemma rb_rep_append: "rb_rep s t (p1 @ p2) \<longleftrightarrow> rb_rep s (zip_tree t p1) p2"
  by (subst (1 2) rb_rep_zip_all) simp

lemma focus_at:
  assumes "a \<in> set (addrs t)"
  shows "\<exists>l c r path. t = zip_tree (node SL l a c r) path"
  using assms
proof (induction t rule: addrs.induct)
  case (2 l b c r)
  consider "a \<in> set (addrs l)" | "a = b" | "a \<in> set (addrs r)" using "2.prems" by auto
  then show ?case
  proof cases
    case 1
    with "2.IH"(1) obtain l' c' r' path where "l = zip_tree (node SL l' a c' r') path" by blast
    then have "Node l (b, c) r = zip_tree (node SL l' a c' r') (path @ [Frame SL b c r])" by simp
    then show ?thesis by blast
  next
    case 2
    then have "Node l (b, c) r = zip_tree (node SL l a c r) []" by simp
    then show ?thesis by blast
  next
    case 3
    with "2.IH"(2) obtain l' c' r' path where "r = zip_tree (node SL l' a c' r') path" by blast
    then have "Node l (b, c) r = zip_tree (node SL l' a c' r') (path @ [Frame SR b c l])" by simp
    then show ?thesis by blast
  qed
qed simp

text \<open>The child \<open>ct\<close> of an element without the other child takes its place.\<close>

lemma splice_out:
  fixes s :: "'a rb_state"
  assumes rep: "rb_rep s (node sd Leaf a c ct) path"
  defines "s' \<equiv> rb_unlink (path_ptr path) a (ptr ct) (if_parent (ptr ct) (path_ptr path) s)"
  shows "rb_rep s' ct path" "links_frame (rb_addrs (node sd Leaf a c ct) path) s s'"
    "rb_links s' a = rb_links s a"
proof -
  let ?h = "rb_links s" and ?s1 = "if_parent (ptr ct) (path_ptr path) s"
  have h: "rtree ?h (Some a) ct" "rpath ?h (Some a) path" "rbh_root s = path_root (Some a) path"
    and d: "distinct (a # addrs ct @ path_addrs path)"
    using rep by (simp_all add: rb_rep_node)
  have p: "ptr ct = Some x \<Longrightarrow> x \<in> set (addrs ct)" for x by (rule ptr_in_addrs)
  have r1: "rpath (rb_links ?s1) (Some a) path"
    using h(2) d p by (subst rpath_cong [of path _ ?h]) (auto simp: if_parent_links)
  have un: "rpath (rb_links s') (ptr ct) path" "rbh_root s' = path_root (ptr ct) path"
    and out: "x \<notin> set (path_addrs path) \<Longrightarrow> rb_links s' x = rb_links ?s1 x" for x
    unfolding s'_def using rb_unlink_path [OF r1] d h(3) by (auto simp: if_parent_links)
  have "rtree (rb_links s') (path_ptr path) ct"
    by (rule rtree_reparent [OF h(1)], use d in simp, subst out) (use d in \<open>auto simp: if_parent_links\<close>)
  then show "rb_rep s' ct path" using un d by (simp add: rb_rep_def)
  show "links_frame (rb_addrs (node sd Leaf a c ct) path) s s'"
    using out p by (auto simp: links_frame_def rb_addrs_def addrs_node if_parent_links)
  show "rb_links s' a = rb_links s a"
    using out [of a] d p by (auto simp: if_parent_links)
qed

text \<open>
  The last part of \<open>RB_REMOVE\<close>, after its label \<open>color\<close>: \<open>ct\<close> stands where a node of colour
  \<open>c\<close> with only that child was.
\<close>

lemma remove_finish:
  assumes rep: "rb_rep s ct path" and ok: "rb_ok n (node sd Leaf m c ct)" "path_ok n path"
    and red: "c = RB_RED \<Longrightarrow> path_color path = RB_BLACK \<and> path \<noteq> []"
  shows "color_fixed ct path s
    (if c = RB_BLACK then RB_REMOVE_COLOR (path_ptr path) (ptr ct) s else Some s)"
proof (cases c)
  case RB_BLACK
  then obtain k where "n = Suc k" "k = 0" using ok by (cases n) auto
  then have "short_focus k ct path"
    using ok RB_BLACK rb_ok_paint_black(1) [of 0 ct] by (auto simp: short_focus_def)
  from RB_REMOVE_COLOR_ok [OF rep this] show ?thesis using RB_BLACK by simp
next
  case RB_RED
  then have "rbt_ok (zip_tree ct path)" using ok red by (intro rbt_ok_zip [of n]) auto
  moreover have "rb_rep s (zip_tree ct path) []" using rep rb_rep_zip_all by metis
  ultimately show ?thesis using RB_RED by (auto simp: color_fixed_def)
qed

lemma leftmost_ok:
  assumes "rb_rep s r path" "ptr r = Some x"
  shows "\<exists>m c rr path'. rb_leftmost x s = Some m \<and> r = zip_tree (node SL Leaf m c rr) path' \<and>
           path_before path' = []"
  using assms
proof (induction r arbitrary: path x rule: addrs.induct)
  case (2 l a c r)
  have r: "rb_rep s (node SL l a c r) path" "x = a" using "2.prems" by simp_all
  have left: "RB_LEFT a s = ptr l" using rep_node_reads(3) [OF r(1)] by simp
  show ?case
  proof (cases "ptr l")
    case None
    then have "rb_leftmost x s = Some a \<and> Node l (a, c) r = zip_tree (node SL Leaf a c r) [] \<and> path_before [] = []"
      using left r(2) by (subst rb_leftmost.simps) simp
    then show ?thesis by blast
  next
    case (Some y)
    have "rb_rep s l (Frame SL a c r # path)" using r(1) by (simp add: rb_rep_zip)
    from "2.IH"(1) [OF this Some] obtain m c' rr path' where m: "rb_leftmost y s = Some m"
      "l = zip_tree (node SL Leaf m c' rr) path'" "path_before path' = []" by blast
    have "path_before (p @ [Frame SL a c r]) = []" if "path_before p = []" for p :: "'a frame list"
      using that by (induction p rule: path_before.induct) auto
    then have "rb_leftmost x s = Some m \<and>
        Node l (a, c) r = zip_tree (node SL Leaf m c' rr) (path' @ [Frame SL a c r]) \<and>
        path_before (path' @ [Frame SL a c r]) = []"
      using m left Some r(2) by (subst rb_leftmost.simps) simp
    then show ?thesis by blast
  qed
qed simp

text \<open>The successor \<open>m\<close>, already unlinked, takes over the place and the entry of \<open>a\<close>.\<close>

definition take_place :: "'a \<Rightarrow> 'a \<Rightarrow> 'a rb_state \<Rightarrow> 'a rb_state option" where
  "take_place m a s = do {
     let s = s\<lparr>rb_links := (rb_links s)(m := rb_links s a)\<rparr>;
     let s = rb_unlink (RB_PARENT a s) a (Some m) s;
     left \<leftarrow> RB_LEFT a s;
     let s = set_parent left (Some m) s;
     Some (if_parent (RB_RIGHT a s) (Some m) s) }"

lemma take_place_ok:
  assumes rep: "rb_rep s (node SL l a c r) path" and l: "ptr l \<noteq> None"
    and m: "m \<notin> rb_addrs (node SL l a c r) path"
  shows "\<exists>s'. take_place m a s = Some s' \<and> rb_rep s' (node SL l m c r) path \<and>
           links_frame (insert m (rb_addrs (node SL l a c r) path)) s s'"
proof -
  define s1 where "s1 = s\<lparr>rb_links := (rb_links s)(m := rb_links s a)\<rparr>"
  define s2 where "s2 = rb_unlink (path_ptr path) a (Some m) s1"
  define s3 where "s3 = if_parent (ptr l) (Some m) s2"
  define s4 where "s4 = if_parent (ptr r) (Some m) s3"
  let ?h = "rb_links s"
  have h: "?h a = mk_entry SL (ptr l) (ptr r) (path_ptr path) c"
    "rtree ?h (Some a) l" "rtree ?h (Some a) r" "rpath ?h (Some a) path" "rbh_root s = path_root (Some a) path"
    and d: "distinct ([m, a] @ addrs l @ addrs r @ path_addrs path)"
    using rep m by (auto simp: rb_rep_node rb_addrs_def addrs_node simp del: node.simps)
  have pl: "ptr l = Some x \<Longrightarrow> x \<in> set (addrs l)" and pr: "ptr r = Some x \<Longrightarrow> x \<in> set (addrs r)" for x
    by (rule ptr_in_addrs, assumption)+
  have un: "rpath (rb_links s2) (Some m) path" "rbh_root s2 = path_root (Some m) path"
    "x \<notin> set (path_addrs path) \<Longrightarrow> rb_links s2 x = rb_links s1 x" for x
    unfolding s2_def using rb_unlink_path [where s = s1 and a = a and path = path and v = "Some m"] h d by (simp_all add: s1_def)
  have links: "x \<notin> set (path_addrs path) \<Longrightarrow> rb_links s4 x =
      (if ptr r = Some x then (if x = m then ?h a else ?h x)\<lparr>rbe_parent := Some m\<rparr>
       else if ptr l = Some x then (if x = m then ?h a else ?h x)\<lparr>rbe_parent := Some m\<rparr>
       else if x = m then ?h a else ?h x)" for x
    unfolding s4_def s3_def if_parent_links by (simp add: un s1_def)
  have "rpath (rb_links s4) (Some m) path"
    by (subst rpath_cong [of path _ "rb_links s2"])
      (use un d pl pr in \<open>auto simp: s4_def s3_def if_parent_links\<close>)
  moreover have "rtree (rb_links s4) (Some m) l" "rtree (rb_links s4) (Some m) r"
    by (rule rtree_reparent [OF h(2)], use d in simp, subst links, use d pr in auto)
      (rule rtree_reparent [OF h(3)], use d in simp, subst links, use d pl in auto)
  moreover have "rb_links s4 m = mk_entry SL (ptr l) (ptr r) (path_ptr path) c"
    using links [of m] d h(1) pl pr by auto
  ultimately have "rb_rep s4 (node SL l m c r) path"
    unfolding rb_rep_node using un(2) d by (auto simp: s4_def s3_def if_parent_links)
  moreover have "links_frame (insert m (rb_addrs (node SL l a c r) path)) s s4"
    using links pl pr by (auto simp: links_frame_def rb_addrs_def)
  moreover have "take_place m a s = Some s4"
  proof -
    have "RB_PARENT a s1 = path_ptr path" "RB_LEFT a s2 = ptr l"
      using h(1) d un(3) [of a] by (simp_all add: RB_PARENT_def RB_LEFT_def s1_def)
    moreover have "ptr l \<noteq> Some a" using d pl by auto
    then have "RB_RIGHT a s3 = ptr r"
      using h(1) d un(3) [of a] by (simp add: RB_RIGHT_def s1_def s3_def if_parent_links)
    moreover obtain y where y: "ptr l = Some y" using l by blast
    then have "s3 = set_parent y (Some m) s2" by (simp add: s3_def if_parent_def)
    ultimately show ?thesis
      using y by (simp add: take_place_def Let_def s4_def flip: s1_def s2_def)
  qed
  ultimately show ?thesis by blast
qed

text \<open>\<open>RB_REMOVE\<close> with the successor's copy named: the same assignments.\<close>

lemma RB_REMOVE_two_children:
  assumes "RB_LEFT a s \<noteq> None" "RB_RIGHT a s = Some x" "rb_leftmost x s = Some m"
    "s1 = rb_unlink (RB_PARENT m s) m (RB_RIGHT m s) (if_parent (RB_RIGHT m s) (RB_PARENT m s) s)"
    "rb_links s1 m = rb_links s m" "take_place m a s1 = Some s2"
  shows "RB_REMOVE a s =
    (if RB_COLOR m s = RB_BLACK
     then RB_REMOVE_COLOR (if RB_PARENT m s = Some a then Some m else RB_PARENT m s) (RB_RIGHT m s) s2
     else Some s2)"
proof -
  have "RB_PARENT m s1 = RB_PARENT m s" using assms(5) by (simp add: RB_PARENT_def)
  then show ?thesis
    using assms unfolding RB_REMOVE_def take_place_def
    by (auto simp: Let_def split: Option.bind_splits cong: if_cong)
qed

text \<open>What both arms leave for the repair of the colours.\<close>

definition removed :: "'a rbt \<Rightarrow> 'a \<Rightarrow> rb_color \<Rightarrow> 'a rbt \<Rightarrow> 'a frame list \<Rightarrow> 'a rb_state \<Rightarrow> 'a rb_state option \<Rightarrow> bool" where
  "removed l a c r path s res \<longleftrightarrow>
     (\<exists>s' ct path'. color_fixed ct path' s' res \<and>
        links_frame (rb_addrs (node SL l a c r) path) s s' \<and>
        rb_addrs ct path' \<subseteq> rb_addrs (node SL l a c r) path \<and>
        addrs (zip_tree ct path') = path_before path @ addrs l @ addrs r @ path_after path)"

lemma remove_one_child:
  assumes rep: "rb_rep s (node sd Leaf a c ct) path"
    and ok: "rb_ok n (node sd Leaf a c ct)" "path_ok n path"
    and red: "c = RB_RED \<Longrightarrow> path_color path = RB_BLACK \<and> path \<noteq> []"
  shows "\<exists>s'. color_fixed ct path s' (RB_REMOVE a s) \<and> links_frame (rb_addrs (node sd Leaf a c ct) path) s s'"
proof -
  let ?s = "rb_unlink (path_ptr path) a (ptr ct) (if_parent (ptr ct) (path_ptr path) s)"
  note sp = splice_out [OF rep]
  note r = rep_node_reads [OF rep]
  have "RB_REMOVE a s = (if c = RB_BLACK then RB_REMOVE_COLOR (path_ptr path) (ptr ct) ?s else Some ?s)"
    using r by (cases sd) (auto simp: RB_REMOVE_def Let_def)
  then show ?thesis using remove_finish [OF sp(1) ok red] sp(2) by auto
qed

lemma path_ok_replace:
  "path_ok n (p1 @ Frame sd a c u # p2) = path_ok n (p1 @ Frame sd m c u # p2)"
proof (induction p1 arbitrary: n)
  case Nil
  then show ?case by (cases c) auto
next
  case (Cons f p1)
  obtain sd' b c' v where f: "f = Frame sd' b c' v" by (cases f)
  have "path_color (p1 @ Frame sd a c u # p2) = path_color (p1 @ Frame sd m c u # p2)"
    by (cases p1 rule: path_color.cases) auto
  then show ?case using Cons.IH by (cases c') (auto simp: f)
qed

lemma path_color_replace:
  "path_color (p1 @ Frame sd a c u # p2) = path_color (p1 @ Frame sd m c u # p2)"
  by (cases p1 rule: path_color.cases) auto

lemma path_ptr_replace:
  assumes "a \<notin> set (path_addrs p1)"
  shows "(if path_ptr (p1 @ Frame sd a c u # p2) = Some a then Some m else path_ptr (p1 @ Frame sd a c u # p2))
       = path_ptr (p1 @ Frame sd m c u # p2)"
  using assms by (cases p1 rule: path_color.cases) auto

lemma path_addrs_append [simp]: "path_addrs (p1 @ p2) = path_addrs p1 @ path_addrs p2"
  by (induction p1 rule: path_addrs.induct) auto

lemma remove_two_children:
  assumes rep: "rb_rep s (node SL l a c r) path" and lr: "l \<noteq> Leaf" "r \<noteq> Leaf"
    and ok: "rb_ok h (zip_tree (node SL l a c r) path)" "root_color (zip_tree (node SL l a c r) path) = RB_BLACK"
  shows "removed l a c r path s (RB_REMOVE a s)"
proof -
  let ?A = "rb_addrs (node SL l a c r) path"
  note rd = rep_node_reads [OF rep, simplified]
  obtain x where x: "ptr r = Some x" using lr(2) by (cases "ptr r") auto
  have "rb_rep s r (Frame SR a c l # path)" using rep by (simp add: rb_rep_zip)
  from leftmost_ok [OF this x] obtain m cm rr pr where m: "rb_leftmost x s = Some m"
    and r: "r = zip_tree (node SL Leaf m cm rr) pr" and pr: "path_before pr = []" by blast
  let ?P = "\<lambda>b. pr @ Frame SR b c l # path"
  have z: "zip_tree t (?P b) = zip_tree (node SL l b c (zip_tree t pr)) path" for t b by simp
  have repm: "rb_rep s (node SL Leaf m cm rr) (?P a)"
    using rep r rb_rep_zip_all z by metis
  obtain n where n: "rb_ok n (node SL Leaf m cm rr)" "path_ok n (?P a)"
    "cm = RB_RED \<longrightarrow> path_color (?P a) = RB_BLACK \<and> ?P a \<noteq> []"
    using rb_ok_unzip [of h "node SL Leaf m cm rr" "?P a"] ok unfolding z r by auto
  define s1 where "s1 = rb_unlink (path_ptr (?P a)) m (ptr rr) (if_parent (ptr rr) (path_ptr (?P a)) s)"
  note sp = splice_out [OF repm, folded s1_def]
  have A: "rb_addrs (node SL Leaf m cm rr) (?P a) = ?A"
    unfolding rb_addrs_eq z r by simp
  have rep1: "rb_rep s1 (node SL l a c (zip_tree rr pr)) path"
    using sp(1) rb_rep_zip_all z by metis
  have m1: "m \<notin> rb_addrs (node SL l a c (zip_tree rr pr)) path"
    using repm
    by (auto simp: rb_rep_node rb_addrs_def addrs_node addrs_zip set_path_addrs simp del: node.simps)
  have A1: "insert m (rb_addrs (node SL l a c (zip_tree rr pr)) path) = ?A"
    unfolding r by (auto simp: rb_addrs_def addrs_zip)
  from take_place_ok [OF rep1 _ m1] lr(1) obtain s2 where s2: "take_place m a s1 = Some s2"
    "rb_rep s2 (node SL l m c (zip_tree rr pr)) path" "links_frame ?A s1 s2" unfolding A1 by auto
  have rep2: "rb_rep s2 rr (?P m)" using s2(2) rb_rep_zip_all z by metis
  have rdm: "RB_COLOR m s = cm" "RB_PARENT m s = path_ptr (?P a)" "RB_RIGHT m s = ptr rr"
    using rep_node_reads [OF repm] by simp_all
  have "a \<notin> set (path_addrs pr)" using repm by (auto simp: rb_rep_node simp del: node.simps)
  note pp = path_ptr_replace [OF this, of SR c l path m]
  have s1: "s1 = rb_unlink (RB_PARENT m s) m (RB_RIGHT m s) (if_parent (RB_RIGHT m s) (RB_PARENT m s) s)"
    by (simp only: s1_def rdm)
  have ch: "RB_LEFT a s \<noteq> None" "RB_RIGHT a s = Some x" using rd x lr by simp_all
  note rem = RB_REMOVE_two_children [OF ch m s1 sp(3) s2(1), unfolded rdm pp]
  have "color_fixed rr (?P m) s2 (RB_REMOVE a s)"
    unfolding rem using n path_ok_replace [of n pr SR a c l path m] path_color_replace [of pr SR a c l path m]
    by (intro remove_finish [OF rep2 n(1)]) auto
  moreover have "links_frame ?A s s2" using sp(2) s2(3) links_frame_trans unfolding A by blast
  moreover have "rb_addrs rr (?P m) \<subseteq> ?A" unfolding A1 [symmetric]
    by (auto simp: rb_addrs_def addrs_zip set_path_addrs)
  moreover have "addrs (zip_tree rr (?P m)) = path_before path @ addrs l @ addrs r @ path_after path"
    unfolding z r by (simp add: addrs_zip pr)
  ultimately show ?thesis unfolding removed_def by blast
qed

theorem RB_REMOVE_ok:
  assumes rep: "rb_rep s t []" and ok: "rbt_ok t" and xs: "addrs t = ys @ a # zs"
  shows "\<exists>s' t'. RB_REMOVE a s = Some s' \<and> rb_rep s' t' [] \<and> rbt_ok t' \<and> addrs t' = ys @ zs \<and>
           links_frame (set (addrs t)) s s'"
proof -
  have "a \<in> set (addrs t)" by (simp add: xs)
  from focus_at [OF this] obtain l c r path where t: "t = zip_tree (node SL l a c r) path"
    by (elim exE)
  have rep': "rb_rep s (node SL l a c r) path" using rep rb_rep_zip_all unfolding t by metis
  obtain h where h: "rb_ok h t" "root_color t = RB_BLACK" using ok by (auto simp: rbt_ok_def)
  obtain n where n: "rb_ok n (node SL l a c r)" "path_ok n path"
    "c = RB_RED \<longrightarrow> path_color path = RB_BLACK \<and> path \<noteq> []"
    using rb_ok_unzip [OF h [unfolded t]] by auto
  have one: "removed l a c r path s (RB_REMOVE a s)"
    if "node SL l a c r = node sd Leaf a c ct" "addrs ct = addrs l @ addrs r" for sd ct
  proof -
    note eq = that
    have "rb_rep s (node sd Leaf a c ct) path" "rb_ok n (node sd Leaf a c ct)"
      using rep' n(1) eq(1) by metis+
    from remove_one_child [OF this n(2)] n(3) obtain s' where "color_fixed ct path s' (RB_REMOVE a s)"
      "links_frame (rb_addrs (node SL l a c r) path) s s'"
      using eq(1) by metis
    moreover have "rb_addrs ct path \<subseteq> rb_addrs (node sd Leaf a c ct) path"
      by (auto simp: rb_addrs_def addrs_node)
    then have "rb_addrs ct path \<subseteq> rb_addrs (node SL l a c r) path" using eq(1) by metis
    moreover have "addrs (zip_tree ct path) = path_before path @ addrs l @ addrs r @ path_after path"
      by (simp add: addrs_zip eq(2))
    ultimately show ?thesis unfolding removed_def by blast
  qed
  have "removed l a c r path s (RB_REMOVE a s)"
  proof (cases "l = Leaf \<or> r = Leaf")
    case True
    then show ?thesis using one [of SL r] one [of SR l] by auto
  next
    case False
    then show ?thesis using remove_two_children [OF rep'] h unfolding t by blast
  qed
  then obtain s1 ct path' s2 t' where fin: "RB_REMOVE a s = Some s2" "rb_rep s2 t' []" "rbt_ok t'"
      "addrs t' = path_before path @ addrs l @ addrs r @ path_after path"
      "links_frame (rb_addrs (node SL l a c r) path) s s1"
      "rb_addrs ct path' \<subseteq> rb_addrs (node SL l a c r) path" "links_frame (rb_addrs ct path') s1 s2"
    unfolding removed_def color_fixed_def by auto
  have "links_frame (set (addrs t)) s s2"
    using fin(5-7) unfolding t rb_addrs_eq links_frame_def by (metis subset_iff)
  moreover have "path_before path @ addrs l = ys \<and> addrs r @ path_after path = zs"
  proof -
    have d: "distinct (ys @ a # zs)" using rep xs by (simp add: rb_rep_def)
    have "ys @ a # zs = (path_before path @ addrs l) @ a # (addrs r @ path_after path)"
      using xs by (simp add: t addrs_zip)
    then show ?thesis using d by (metis append_Cons_eq_iff distinct_append distinct.simps(2) disjoint_iff
          Un_iff list.set_intros(1) set_append)
  qed
  then have "path_before path @ addrs l @ addrs r @ path_after path = ys @ zs" by auto
  ultimately show ?thesis using fin by auto
qed

section \<open>The successor\<close>

definition head_opt :: "'a list \<Rightarrow> 'a option" where
  "head_opt xs = (case xs of [] \<Rightarrow> None | x # _ \<Rightarrow> Some x)"

lemma head_opt_simps [simp]: "head_opt [] = None" "head_opt (x # xs) = Some x"
  by (simp_all add: head_opt_def)

lemma climb_right_ok:
  assumes "rb_rep s t path" "ptr t = Some x"
  shows "\<exists>e. rb_climb_right x s = Some e \<and> RB_PARENT e s = head_opt (path_after path)"
  using assms
proof (induction path arbitrary: t x)
  case Nil
  then obtain c l r where "t = node SL l x c r" using ptr_Some_node by metis
  with Nil have "RB_PARENT x s = None" using rep_node_reads(2) [of s SL l x c r "[]"] by simp
  then show ?case by (subst rb_climb_right.simps) simp
next
  case (Cons f path)
  obtain sd p c u where f: "f = Frame sd p c u" by (cases f)
  obtain c' l r where t: "t = node SL l x c' r" using Cons.prems ptr_Some_node by metis
  have par: "RB_PARENT x s = Some p" using rep_node_reads(2) Cons.prems(1) unfolding t f by fastforce
  have rep: "rb_rep s (node sd t p c u) path" using Cons.prems(1) by (simp add: f rb_rep_zip)
  show ?case
  proof (cases sd)
    case SL
    have "ptr u \<noteq> Some x"
      using rep ptr_in_addrs [of u x] ptr_in_addrs [OF Cons.prems(2)] by (auto simp: rb_rep_node)
    then have "RB_RIGHT p s \<noteq> Some x" using rep_node_reads(4) [OF rep] SL by simp
    then show ?thesis using par SL f by (subst rb_climb_right.simps) auto
  next
    case SR
    have "RB_RIGHT p s = Some x" using rep_node_reads(3) [OF rep] SR Cons.prems(2) by simp
    moreover obtain e where "rb_climb_right p s = Some e" "RB_PARENT e s = head_opt (path_after path)"
      using Cons.IH [OF rep] by auto
    ultimately show ?thesis using par SR f by (subst rb_climb_right.simps) auto
  qed
qed

theorem RB_NEXT_ok:
  assumes rep: "rb_rep s t []" and xs: "addrs t = ys @ a # zs"
  shows "RB_NEXT a s = Some (head_opt zs)"
proof -
  have "a \<in> set (addrs t)" by (simp add: xs)
  from focus_at [OF this] obtain l c r path where t: "t = zip_tree (node SL l a c r) path"
    by (elim exE)
  have rep': "rb_rep s (node SL l a c r) path" using rep rb_rep_zip_all unfolding t by metis
  have d: "distinct (ys @ a # zs)" using rep xs by (simp add: rb_rep_def)
  have "ys @ a # zs = (path_before path @ addrs l) @ a # (addrs r @ path_after path)"
    using xs by (simp add: t addrs_zip)
  then have zs: "zs = addrs r @ path_after path"
    using d by (metis append_Cons_eq_iff distinct_append distinct.simps(2) disjoint_iff
          Un_iff list.set_intros(1) set_append)
  have rd: "RB_RIGHT a s = ptr r" "RB_LEFT a s = ptr l" "RB_PARENT a s = path_ptr path"
    using rep_node_reads [OF rep'] by simp_all
  show ?thesis
  proof (cases "ptr r")
    case (Some x)
    have "rb_rep s r (Frame SR a c l # path)" using rep' by (simp add: rb_rep_zip)
    from leftmost_ok [OF this Some] obtain m cm rr pr where "rb_leftmost x s = Some m"
      "r = zip_tree (node SL Leaf m cm rr) pr" "path_before pr = []" by blast
    then show ?thesis using rd Some by (simp add: RB_NEXT_def zs addrs_zip)
  next
    case None
    obtain e where e: "rb_climb_right a s = Some e" "RB_PARENT e s = head_opt (path_after path)"
      using climb_right_ok [OF rep'] by auto
    have up: "RB_LEFT p s = Some a \<Longrightarrow> path_ptr path = Some p \<Longrightarrow> head_opt (path_after path) = Some p" for p
    proof (cases path rule: path_ptr.cases)
      case (2 sd q c' u rest)
      assume p: "RB_LEFT p s = Some a" "path_ptr path = Some p"
      have r: "rb_rep s (node sd (node SL l a c r) p c' u) rest" using rep' 2 p by (simp add: rb_rep_zip)
      have "ptr u \<noteq> Some a"
        using r ptr_in_addrs [of u a] by (auto simp: rb_rep_node addrs_node simp del: node.simps)
      then show ?thesis using rep_node_reads(4) [OF r] p 2 by (cases sd) auto
    qed simp
    show ?thesis
    proof (cases "path_ptr path")
      case None
      then show ?thesis using e rd \<open>ptr r = None\<close> by (simp add: RB_NEXT_def zs)
    next
      case (Some p)
      then show ?thesis using e rd \<open>ptr r = None\<close> up [of p] by (auto simp: RB_NEXT_def zs)
    qed
  qed
qed

end
