(* ===== verification/Timeline.thy ===== *)
theory Timeline
  imports Rbtree_Insert Rbtree_Remove
begin

text \<open>
  The timeline of a queue: the red-black tree of \<open>tree.h\<close> ordered by virtual time. This theory
  has the descent of \<open>__enqueue_entity\<close> that finds the place of a new element, the contract of
  an ordered timeline as a locale (insertion, removal and successor over an abstract in-order
  list), the facts clients derive from the contract alone, and its interpretation on the tree.
\<close>

section \<open>The contract of a timeline\<close>

text \<open>
  \<open>rep h r xs\<close>: under the link store \<open>h\<close> the root pointer \<open>r\<close> holds the elements \<open>xs\<close> in order.
  \<open>frame A h h'\<close>: the stores agree outside \<open>A\<close>. \<open>ins before x\<close> also tells whether \<open>x\<close> went
  to the far left; \<open>before\<close> is the comparison of the new element with an old one.
\<close>

locale timeline =
  fixes rep :: "'h \<Rightarrow> 'r \<Rightarrow> 'a list \<Rightarrow> bool"
    and frame :: "'a set \<Rightarrow> 'h \<Rightarrow> 'h \<Rightarrow> bool"
    and emp :: 'r
    and ins :: "('a \<Rightarrow> 'a \<Rightarrow> bool) \<Rightarrow> 'a \<Rightarrow> 'h \<Rightarrow> 'r \<Rightarrow> (bool \<times> 'h \<times> 'r) option"
    and rem :: "'a \<Rightarrow> 'h \<Rightarrow> 'r \<Rightarrow> ('h \<times> 'r) option"
    and nxt :: "'a \<Rightarrow> 'h \<Rightarrow> 'r \<Rightarrow> 'a option option"
  assumes rep_emp: "rep h emp []"
    and rep_distinct: "rep h r xs \<Longrightarrow> distinct xs"
    and rep_frame: "rep h r xs \<Longrightarrow> frame A h h' \<Longrightarrow> A \<inter> set xs = {} \<Longrightarrow> rep h' r xs"
    and frame_mono: "frame A h h' \<Longrightarrow> A \<subseteq> B \<Longrightarrow> frame B h h'"
    and ins_ok: "rep h r xs \<Longrightarrow> x \<notin> set xs \<Longrightarrow>
      \<exists>h' r' ys zs. ins before x h r = Some (ys = [], h', r') \<and> xs = ys @ zs \<and> rep h' r' (ys @ x # zs) \<and>
        frame (insert x (set xs)) h h' \<and>
        (ys \<noteq> [] \<longrightarrow> \<not> before x (last ys)) \<and> (zs \<noteq> [] \<longrightarrow> before x (hd zs))"
    and rem_ok: "rep h r (ys @ x # zs) \<Longrightarrow>
      \<exists>h' r'. rem x h r = Some (h', r') \<and> rep h' r' (ys @ zs) \<and> frame (insert x (set (ys @ zs))) h h'"
    and nxt_ok: "rep h r (ys @ x # zs) \<Longrightarrow> nxt x h r = Some (head_opt zs)"

section \<open>What a client derives\<close>

text \<open>The order of the keys, for a comparison that reads them through \<open>key\<close>.\<close>

definition key_sorted :: "('a \<Rightarrow> 'k::linorder) \<Rightarrow> 'a list \<Rightarrow> bool" where
  "key_sorted key xs \<longleftrightarrow> sorted (map key xs)"

lemma key_sorted_insert:
  assumes "key_sorted key (ys @ zs)" "ys \<noteq> [] \<longrightarrow> key (last ys) \<le> key x" "zs \<noteq> [] \<longrightarrow> key x < key (hd zs)"
  shows "key_sorted key (ys @ x # zs)"
proof -
  have "k \<le> key x" if "k \<in> key ` set ys" for k
    using assms(1,2) that
    by (cases ys rule: rev_cases) (auto simp: key_sorted_def sorted_append)
  moreover have "key x \<le> k" if "k \<in> key ` set zs" for k
    using assms(1,3) that by (cases zs) (auto simp: key_sorted_def sorted_append)
  ultimately show ?thesis using assms(1) by (fastforce simp: key_sorted_def sorted_append)
qed

lemma key_sorted_delete: "key_sorted key (ys @ x # zs) \<Longrightarrow> key_sorted key (ys @ zs)"
  by (auto simp: key_sorted_def sorted_append)

lemma key_sorted_head: "key_sorted key (x # xs) \<Longrightarrow> y \<in> set (x # xs) \<Longrightarrow> key x \<le> key y"
  by (auto simp: key_sorted_def)

context timeline
begin

text \<open>The cached first element stays the head of the list.\<close>

definition cached :: "'h \<Rightarrow> 'r \<Rightarrow> 'a option \<Rightarrow> 'a list \<Rightarrow> bool" where
  "cached h r lm xs \<longleftrightarrow> rep h r xs \<and> lm = head_opt xs"

lemma cached_ins:
  assumes "cached h r lm xs" "x \<notin> set xs"
  shows "\<exists>left h' r' ys zs. ins before x h r = Some (left, h', r') \<and> xs = ys @ zs \<and>
      cached h' r' (if left then Some x else lm) (ys @ x # zs) \<and> frame (insert x (set xs)) h h' \<and>
      (ys \<noteq> [] \<longrightarrow> \<not> before x (last ys)) \<and> (zs \<noteq> [] \<longrightarrow> before x (hd zs))"
proof -
  obtain h' r' ys zs where i: "ins before x h r = Some (ys = [], h', r')" "xs = ys @ zs"
    "rep h' r' (ys @ x # zs)" "frame (insert x (set xs)) h h'"
    "ys \<noteq> [] \<longrightarrow> \<not> before x (last ys)" "zs \<noteq> [] \<longrightarrow> before x (hd zs)"
    using ins_ok assms unfolding cached_def by metis
  have "cached h' r' (if ys = [] then Some x else lm) (ys @ x # zs)"
    using assms(1) i(2,3) by (cases ys) (auto simp: cached_def)
  then show ?thesis using i by blast
qed

lemma cached_rem:
  assumes "cached h r lm (ys @ x # zs)"
  shows "\<exists>lm' h' r'. (if lm = Some x then nxt x h r else Some lm) = Some lm' \<and>
      rem x h r = Some (h', r') \<and> cached h' r' lm' (ys @ zs) \<and> frame (insert x (set (ys @ zs))) h h'"
proof -
  have rep: "rep h r (ys @ x # zs)" and lm: "lm = head_opt (ys @ x # zs)"
    using assms by (simp_all add: cached_def)
  have d: "distinct (ys @ x # zs)" using rep by (rule rep_distinct)
  have "(if lm = Some x then nxt x h r else Some lm) = Some (head_opt (ys @ zs))"
    using nxt_ok [OF rep] lm d by (cases ys) auto
  then show ?thesis using rem_ok [OF rep] by (auto simp: cached_def)
qed

lemma cached_ins_sorted:
  assumes "cached h r lm xs" "x \<notin> set xs" "key_sorted key xs"
    and "\<And>y. y \<in> set xs \<Longrightarrow> before x y \<longleftrightarrow> key x < key y"
  shows "\<exists>left h' r' ys zs. ins before x h r = Some (left, h', r') \<and> xs = ys @ zs \<and>
      cached h' r' (if left then Some x else lm) (ys @ x # zs) \<and> key_sorted key (ys @ x # zs) \<and>
      (\<forall>y\<in>set ys. key y \<le> key x) \<and> (\<forall>z\<in>set zs. key x < key z)"
proof -
  obtain left h' r' ys zs where i: "ins before x h r = Some (left, h', r')" "xs = ys @ zs"
    "cached h' r' (if left then Some x else lm) (ys @ x # zs)"
    and nb: "ys \<noteq> [] \<longrightarrow> \<not> before x (last ys)" "zs \<noteq> [] \<longrightarrow> before x (hd zs)"
    using cached_ins [OF assms(1,2)] by metis
  have l: "ys \<noteq> [] \<longrightarrow> key (last ys) \<le> key x" and z: "zs \<noteq> [] \<longrightarrow> key x < key (hd zs)"
    using nb assms(4) i(2) by (auto simp: not_less)
  have s: "key_sorted key (ys @ x # zs)"
    using assms(3) l z by (intro key_sorted_insert) (simp_all add: i(2))
  moreover have "\<forall>z\<in>set zs. key x < key z"
    using z s by (cases zs) (auto simp: key_sorted_def sorted_append)
  moreover have "\<forall>y\<in>set ys. key y \<le> key x" using s by (auto simp: key_sorted_def sorted_append)
  ultimately show ?thesis using i by blast
qed

end

section \<open>The descent of an insertion\<close>

text \<open>
  The loop of \<open>__enqueue_entity\<close>: \<open>before x tmp\<close> is \<open>vtime_cmp(se, tmp) < 0\<close>. The result is the
  last node visited with the outcome of its comparison, and the \<open>leftmost\<close> flag.
\<close>

partial_function (option) tl_descend ::
    "('a \<Rightarrow> bool) \<Rightarrow> 'a option \<Rightarrow> ('a \<times> bool) option \<Rightarrow> bool \<Rightarrow> 'a rb_state \<Rightarrow> (('a \<times> bool) option \<times> bool) option" where
  "tl_descend before tmp parent leftmost s =
     (case tmp of
        None \<Rightarrow> Some (parent, leftmost)
      | Some a \<Rightarrow>
          if before a then tl_descend before (RB_LEFT a s) (Some (a, True)) leftmost s
          else tl_descend before (RB_RIGHT a s) (Some (a, False)) False s)"

declare tl_descend.simps [code]

definition tl_insert :: "('a \<Rightarrow> 'a \<Rightarrow> bool) \<Rightarrow> 'a \<Rightarrow> 'a rb_state \<Rightarrow> (bool \<times> 'a rb_state) option" where
  "tl_insert before x s = do {
     (parent, leftmost) \<leftarrow> tl_descend (before x) (rbh_root s) None True s;
     let s = RB_SET x (map_option fst parent) s;
     let s = (case parent of
                Some (p, lt) \<Rightarrow> if lt then set_left p (Some x) s else set_right p (Some x) s
              | None \<Rightarrow> set_root (Some x) s);
     s \<leftarrow> RB_INSERT_COLOR x s;
     Some (leftmost, s) }"

text \<open>The place found: a hole whose neighbours in the in-order list compare as the code asked.\<close>

fun path_comp :: "'a frame list \<Rightarrow> ('a \<times> bool) option" where
  "path_comp [] = None"
| "path_comp (Frame sd a c u # path) = Some (a, sd = SL)"

lemma descend_ok:
  assumes "rb_rep s t path"
    and "path_before path \<noteq> [] \<longrightarrow> \<not> before (last (path_before path))"
    and "path_after path \<noteq> [] \<longrightarrow> before (hd (path_after path))"
  shows "\<exists>p. tl_descend before (ptr t) (path_comp path) (path_before path = []) s
          = Some (path_comp p, path_before p = []) \<and>
      zip_tree Leaf p = zip_tree t path \<and>
      (path_before p \<noteq> [] \<longrightarrow> \<not> before (last (path_before p))) \<and>
      (path_after p \<noteq> [] \<longrightarrow> before (hd (path_after p)))"
  using assms
proof (induction t arbitrary: path rule: addrs.induct)
  case 1
  then show ?case by (subst tl_descend.simps) auto
next
  case (2 l a c r)
  have rep: "rb_rep s (node SL l a c r) path" using "2.prems" by simp
  note rd = rep_node_reads [OF rep, simplified]
  show ?case
  proof (cases "before a")
    case True
    have "rb_rep s l (Frame SL a c r # path)" using rep by (simp add: rb_rep_zip)
    from "2.IH"(1) [OF this] "2.prems" True show ?thesis
      using rd by (subst tl_descend.simps) simp
  next
    case False
    have "rb_rep s r (Frame SR a c l # path)" using rep by (simp add: rb_rep_zip)
    from "2.IH"(2) [OF this] "2.prems" False show ?thesis
      using rd by (subst tl_descend.simps) simp
  qed
qed

text \<open>Hanging the red leaf \<open>x\<close> into the hole.\<close>

definition tl_link :: "'a \<Rightarrow> ('a \<times> bool) option \<Rightarrow> 'a rb_state \<Rightarrow> 'a rb_state" where
  "tl_link x parent s =
     (let s = RB_SET x (map_option fst parent) s
      in case parent of
           Some (p, lt) \<Rightarrow> if lt then set_left p (Some x) s else set_right p (Some x) s
         | None \<Rightarrow> set_root (Some x) s)"

lemma RB_SET_links [simp]:
  "rb_links (RB_SET x p s) = (rb_links s)(x := mk_entry SL None None p RB_RED)"
  "rbh_root (RB_SET x p s) = rbh_root s"
  by (auto simp: RB_SET_def rb_access mk_entry_def)

lemma tl_link_ok:
  assumes "rb_rep s Leaf path" "x \<notin> set (path_addrs path)"
  shows "rb_rep (tl_link x (path_comp path) s) (node SL Leaf x RB_RED Leaf) path"
    "links_frame (insert x (set (path_addrs path))) s (tl_link x (path_comp path) s)"
proof -
  have "rb_rep (tl_link x (path_comp path) s) (node SL Leaf x RB_RED Leaf) path \<and>
    links_frame (insert x (set (path_addrs path))) s (tl_link x (path_comp path) s)"
  proof (cases path rule: path_comp.cases)
    case 1
    then show ?thesis
      by (simp add: rb_rep_def tl_link_def set_root_def links_frame_def)
  next
    case (2 sd a c u rest)
    have "a \<noteq> x" using assms(2) 2 by auto
    then show ?thesis
      using assms unfolding 2
      by (cases sd) (auto simp: rb_rep_def tl_link_def Let_def set_left_def set_right_def links_frame_def)
  qed
  then show "rb_rep (tl_link x (path_comp path) s) (node SL Leaf x RB_RED Leaf) path"
    "links_frame (insert x (set (path_addrs path))) s (tl_link x (path_comp path) s)" by blast+
qed

section \<open>The red-black tree keeps the contract\<close>

definition tl_rep :: "('a \<Rightarrow> 'a rb_entry) \<Rightarrow> 'a option \<Rightarrow> 'a list \<Rightarrow> bool" where
  "tl_rep h r xs \<longleftrightarrow> (\<exists>t. rb_rep \<lparr>rb_links = h, rbh_root = r\<rparr> t [] \<and> rbt_ok t \<and> addrs t = xs)"

definition tl_frame :: "'a set \<Rightarrow> ('a \<Rightarrow> 'a rb_entry) \<Rightarrow> ('a \<Rightarrow> 'a rb_entry) \<Rightarrow> bool" where
  "tl_frame A h h' \<longleftrightarrow> (\<forall>x. x \<notin> A \<longrightarrow> h' x = h x)"

definition tl_ins :: "('a \<Rightarrow> 'a \<Rightarrow> bool) \<Rightarrow> 'a \<Rightarrow> ('a \<Rightarrow> 'a rb_entry) \<Rightarrow> 'a option \<Rightarrow>
    (bool \<times> ('a \<Rightarrow> 'a rb_entry) \<times> 'a option) option" where
  "tl_ins before x h r = do {
     (left, s) \<leftarrow> tl_insert before x \<lparr>rb_links = h, rbh_root = r\<rparr>;
     Some (left, rb_links s, rbh_root s) }"

definition tl_rem :: "'a \<Rightarrow> ('a \<Rightarrow> 'a rb_entry) \<Rightarrow> 'a option \<Rightarrow> (('a \<Rightarrow> 'a rb_entry) \<times> 'a option) option" where
  "tl_rem x h r = do {
     s \<leftarrow> RB_REMOVE x \<lparr>rb_links = h, rbh_root = r\<rparr>;
     Some (rb_links s, rbh_root s) }"

definition tl_next :: "'a \<Rightarrow> ('a \<Rightarrow> 'a rb_entry) \<Rightarrow> 'a option \<Rightarrow> 'a option option" where
  "tl_next x h r = RB_NEXT x \<lparr>rb_links = h, rbh_root = r\<rparr>"

lemma tl_rep_state: "rb_rep s t [] \<Longrightarrow> rbt_ok t \<Longrightarrow> tl_rep (rb_links s) (rbh_root s) (addrs t)"
  unfolding tl_rep_def by (cases s) auto

lemma tl_frame_links: "tl_frame A (rb_links s) (rb_links s') \<longleftrightarrow> links_frame A s s'"
  by (simp add: tl_frame_def links_frame_def)

lemma tl_insert_ok:
  assumes rep: "rb_rep s t []" and ok: "rbt_ok t" and x: "x \<notin> set (addrs t)"
  shows "\<exists>s' t' ys zs. tl_insert before x s = Some (ys = [], s') \<and> addrs t = ys @ zs \<and>
      rb_rep s' t' [] \<and> rbt_ok t' \<and> addrs t' = ys @ x # zs \<and>
      links_frame (insert x (set (addrs t))) s s' \<and>
      (ys \<noteq> [] \<longrightarrow> \<not> before x (last ys)) \<and> (zs \<noteq> [] \<longrightarrow> before x (hd zs))"
proof -
  have root: "rbh_root s = ptr t" using rep by (simp add: rb_rep_def)
  obtain p where p: "tl_descend (before x) (ptr t) None True s = Some (path_comp p, path_before p = [])"
    and z: "zip_tree Leaf p = t"
    and nb: "path_before p \<noteq> [] \<longrightarrow> \<not> before x (last (path_before p))"
      "path_after p \<noteq> [] \<longrightarrow> before x (hd (path_after p))"
    using descend_ok [OF rep, of "before x"] by auto
  have xs: "addrs t = path_before p @ path_after p" using addrs_zip [of Leaf p] by (simp add: z)
  have repL: "rb_rep s Leaf p" using rep z rb_rep_zip_all by metis
  have xp: "x \<notin> set (path_addrs p)" using x by (simp add: xs set_path_addrs)
  obtain m where "rb_ok m t" "root_color t = RB_BLACK" using ok by (auto simp: rbt_ok_def)
  with z have "path_ok 0 p" using rb_ok_unzip [of m Leaf p] by auto
  then obtain s' t' where s': "RB_INSERT_COLOR x (tl_link x (path_comp p) s) = Some s'" "rb_rep s' t' []"
    "rbt_ok t'" "addrs t' = path_before p @ x # path_after p"
    "links_frame (rb_addrs (node SL Leaf x RB_RED Leaf) p) (tl_link x (path_comp p) s) s'"
    using RB_INSERT_COLOR_ok [OF tl_link_ok(1) [OF repL xp], of 0] by auto
  have "rb_addrs (node SL Leaf x RB_RED Leaf) p = insert x (set (addrs t))"
    by (auto simp: rb_addrs_def xs set_path_addrs)
  then have "links_frame (insert x (set (addrs t))) s s'"
    using links_frame_trans [of _ s "tl_link x (path_comp p) s" s'] s'(5) tl_link_ok(2) [OF repL xp]
    by (simp add: xs set_path_addrs)
  moreover have "tl_insert before x s = Some (path_before p = [], s')"
    using s'(1) p by (simp add: tl_insert_def root tl_link_def Let_def)
  ultimately show ?thesis using s' nb xs by blast
qed

interpretation tl: timeline tl_rep tl_frame None tl_ins tl_rem tl_next
proof (unfold_locales, goal_cases)
  case (1 h)
  have "rb_rep \<lparr>rb_links = h, rbh_root = None\<rparr> Leaf []" "rbt_ok Leaf" "addrs Leaf = []"
    by (simp_all add: rb_rep_def rbt_ok_def)
  then show ?case unfolding tl_rep_def by blast
next
  case (2 h r xs)
  then show ?case by (auto simp: tl_rep_def rb_rep_def)
next
  case (3 h r xs A h')
  then obtain t where t: "rb_rep \<lparr>rb_links = h, rbh_root = r\<rparr> t []" "rbt_ok t" "addrs t = xs"
    by (auto simp: tl_rep_def)
  have "rb_rep \<lparr>rb_links = h', rbh_root = r\<rparr> t []"
    by (rule rb_rep_links_frame [OF t(1), where A = A])
      (use 3 t(3) in \<open>auto simp: links_frame_def tl_frame_def rb_addrs_def\<close>)
  then show ?case using t unfolding tl_rep_def by blast
next
  case (4 A h h' B)
  then show ?case by (auto simp: tl_frame_def)
next
  case (5 h r xs x before)
  let ?s = "\<lparr>rb_links = h, rbh_root = r\<rparr>"
  obtain t where t: "rb_rep ?s t []" "rbt_ok t" "addrs t = xs" using 5(1) by (auto simp: tl_rep_def)
  from tl_insert_ok [OF t(1,2), of x before] 5(2)
  obtain s' t' ys zs where i: "tl_insert before x ?s = Some (ys = [], s')" "xs = ys @ zs"
      "rb_rep s' t' []" "rbt_ok t'" "addrs t' = ys @ x # zs" "links_frame (insert x (set xs)) ?s s'"
      "ys \<noteq> [] \<longrightarrow> \<not> before x (last ys)" "zs \<noteq> [] \<longrightarrow> before x (hd zs)"
    unfolding t(3) by blast
  have "tl_frame (insert x (set xs)) h (rb_links s')"
    using i(6) tl_frame_links [of _ ?s s'] by simp
  moreover have "tl_ins before x h r = Some (ys = [], rb_links s', rbh_root s')"
    using i(1) by (simp add: tl_ins_def)
  ultimately show ?case using i tl_rep_state [OF i(3,4)] by auto
next
  case (6 h r ys x zs)
  let ?s = "\<lparr>rb_links = h, rbh_root = r\<rparr>"
  obtain t where t: "rb_rep ?s t []" "rbt_ok t" "addrs t = ys @ x # zs" using 6 by (auto simp: tl_rep_def)
  from RB_REMOVE_ok [OF this] obtain s' t' where s': "RB_REMOVE x ?s = Some s'" "rb_rep s' t' []"
    "rbt_ok t'" "addrs t' = ys @ zs" "links_frame (set (addrs t)) ?s s'" by blast
  have "tl_frame (insert x (set (ys @ zs))) h (rb_links s')"
    using s'(5) tl_frame_links [of _ ?s s'] t(3) by simp
  then show ?case using s' tl_rep_state [OF s'(2,3)] by (auto simp: tl_rem_def)
next
  case (7 h r ys x zs)
  then show ?case using RB_NEXT_ok by (auto simp: tl_rep_def tl_next_def)
qed

text \<open>The list a timeline holds is determined by the links and the root.\<close>

lemma rtree_unique:
  assumes "rtree h p t" "rtree h q u" "ptr t = ptr u"
  shows "addrs t = addrs u"
  using assms
proof (induction t arbitrary: p q u rule: addrs.induct)
  case 1
  then show ?case by (cases u rule: ptr.cases) auto
next
  case (2 l a c r)
  then obtain l' c' r' where u: "u = Node l' (a, c') r'" by (cases u rule: ptr.cases) auto
  have "ptr l = ptr l'" "ptr r = ptr r'" using "2.prems" unfolding u by (auto simp: mk_entry_def)
  then have "addrs l = addrs l'" "addrs r = addrs r'"
    using "2.prems" "2.IH" unfolding u by (simp_all, blast+)
  then show ?case by (simp add: u)
qed

lemma tl_rep_unique:
  assumes "tl_rep h r xs" "tl_rep h r ys"
  shows "xs = ys"
proof -
  obtain t u where "rtree h None t" "rtree h None u" "ptr t = r" "ptr u = r" "addrs t = xs" "addrs u = ys"
    using assms by (auto simp: tl_rep_def rb_rep_def)
  then show ?thesis using rtree_unique by metis
qed

end
