(* ===== verification/Rbtree_Search.thy ===== *)
theory Rbtree_Search
  imports Timeline
begin

text \<open>
  The operations of \<open>tree.h\<close> that search by a comparison function: \<open>RB_INSERT\<close>, \<open>RB_FIND\<close>, \<open>RB_NFIND\<close>,
  \<open>RB_MINMAX\<close>, and \<open>RB_PREV\<close>. They do on the tree what the list of its elements says. The comparison of
  the key with an element is an integer, of which the sign counts.
\<close>

section \<open>The operations\<close>

text \<open>The loop of \<open>RB_INSERT\<close> ends at an equal element, or below a parent with the last comparison.\<close>

partial_function (option) rb_insert_descend ::
    "('a \<Rightarrow> int) \<Rightarrow> 'a option \<Rightarrow> ('a \<times> int) option \<Rightarrow> 'a rb_state \<Rightarrow> ('a + ('a \<times> int) option) option" where
  "rb_insert_descend cmp tmp parent s =
     (case tmp of
        None \<Rightarrow> Some (Inr parent)
      | Some a \<Rightarrow>
          let cv = cmp a
          in if cv < 0 then rb_insert_descend cmp (RB_LEFT a s) (Some (a, cv)) s
             else if cv > 0 then rb_insert_descend cmp (RB_RIGHT a s) (Some (a, cv)) s
             else Some (Inl a))"

definition RB_INSERT :: "('a \<Rightarrow> 'a \<Rightarrow> int) \<Rightarrow> 'a \<Rightarrow> 'a rb_state \<Rightarrow> ('a option \<times> 'a rb_state) option" where
  "RB_INSERT cmp elm s = do {
     r \<leftarrow> rb_insert_descend (cmp elm) (rbh_root s) None s;
     (case r of
        Inl tmp \<Rightarrow> Some (Some tmp, s)
      | Inr parent \<Rightarrow> do {
          let s = RB_SET elm (map_option fst parent) s;
          let s = (case parent of
                     Some (p, cv) \<Rightarrow> if cv < 0 then set_left p (Some elm) s else set_right p (Some elm) s
                   | None \<Rightarrow> set_root (Some elm) s);
          s \<leftarrow> RB_INSERT_COLOR elm s;
          Some (None, s) }) }"

partial_function (option) rb_find_loop :: "('a \<Rightarrow> int) \<Rightarrow> 'a option \<Rightarrow> 'a rb_state \<Rightarrow> 'a option option" where
  "rb_find_loop cmp tmp s =
     (case tmp of
        None \<Rightarrow> Some None
      | Some a \<Rightarrow>
          let cv = cmp a
          in if cv < 0 then rb_find_loop cmp (RB_LEFT a s) s
             else if cv > 0 then rb_find_loop cmp (RB_RIGHT a s) s
             else Some (Some a))"

definition RB_FIND :: "('a \<Rightarrow> 'a \<Rightarrow> int) \<Rightarrow> 'a \<Rightarrow> 'a rb_state \<Rightarrow> 'a option option" where
  "RB_FIND cmp elm s = rb_find_loop (cmp elm) (rbh_root s) s"

partial_function (option) rb_nfind_loop :: "('a \<Rightarrow> int) \<Rightarrow> 'a option \<Rightarrow> 'a option \<Rightarrow> 'a rb_state \<Rightarrow> 'a option option" where
  "rb_nfind_loop cmp tmp res s =
     (case tmp of
        None \<Rightarrow> Some res
      | Some a \<Rightarrow>
          let cv = cmp a
          in if cv < 0 then rb_nfind_loop cmp (RB_LEFT a s) (Some a) s
             else if cv > 0 then rb_nfind_loop cmp (RB_RIGHT a s) res s
             else Some (Some a))"

definition RB_NFIND :: "('a \<Rightarrow> 'a \<Rightarrow> int) \<Rightarrow> 'a \<Rightarrow> 'a rb_state \<Rightarrow> 'a option option" where
  "RB_NFIND cmp elm s = rb_nfind_loop (cmp elm) (rbh_root s) None s"

partial_function (option) rb_minmax_loop :: "int \<Rightarrow> 'a option \<Rightarrow> 'a option \<Rightarrow> 'a rb_state \<Rightarrow> 'a option option" where
  "rb_minmax_loop val tmp parent s =
     (case tmp of
        None \<Rightarrow> Some parent
      | Some a \<Rightarrow> rb_minmax_loop val (if val < 0 then RB_LEFT a s else RB_RIGHT a s) (Some a) s)"

definition RB_MINMAX :: "int \<Rightarrow> 'a rb_state \<Rightarrow> 'a option option" where
  "RB_MINMAX val s = rb_minmax_loop val (rbh_root s) None s"

partial_function (option) rb_rightmost :: "'a \<Rightarrow> 'a rb_state \<Rightarrow> 'a option" where
  "rb_rightmost elm s =
     (case RB_RIGHT elm s of None \<Rightarrow> Some elm | Some r \<Rightarrow> rb_rightmost r s)"

partial_function (option) rb_climb_left :: "'a \<Rightarrow> 'a rb_state \<Rightarrow> 'a option" where
  "rb_climb_left elm s =
     (case RB_PARENT elm s of
        None \<Rightarrow> Some elm
      | Some p \<Rightarrow> if Some elm = RB_LEFT p s then rb_climb_left p s else Some elm)"

definition RB_PREV :: "'a \<Rightarrow> 'a rb_state \<Rightarrow> 'a option option" where
  "RB_PREV elm s =
     (case RB_LEFT elm s of
        Some l \<Rightarrow> map_option Some (rb_rightmost l s)
      | None \<Rightarrow>
          (case RB_PARENT elm s of
             Some p \<Rightarrow>
               if Some elm = RB_RIGHT p s then Some (Some p)
               else do { e \<leftarrow> rb_climb_left elm s; Some (RB_PARENT e s) }
           | None \<Rightarrow> do { e \<leftarrow> rb_climb_left elm s; Some (RB_PARENT e s) }))"

declare rb_insert_descend.simps [code] rb_find_loop.simps [code] rb_nfind_loop.simps [code]
  rb_minmax_loop.simps [code] rb_rightmost.simps [code] rb_climb_left.simps [code]

section \<open>Searches\<close>

text \<open>The elements lie in the order of the comparison: from the first that is not smaller on, all are larger.\<close>

definition cmp_mono :: "('a \<Rightarrow> int) \<Rightarrow> 'a list \<Rightarrow> bool" where
  "cmp_mono c xs \<longleftrightarrow> sorted_wrt (\<lambda>x y. c x \<le> 0 \<longrightarrow> c y < 0) xs"

lemma cmp_mono_append:
  "cmp_mono c (xs @ a # ys) \<longleftrightarrow> cmp_mono c xs \<and> cmp_mono c ys \<and> (\<forall>x\<in>set xs. c x \<le> 0 \<longrightarrow> c a < 0) \<and>
     (\<forall>y\<in>set ys. c a \<le> 0 \<longrightarrow> c y < 0) \<and> (\<forall>x\<in>set xs. \<forall>y\<in>set ys. c x \<le> 0 \<longrightarrow> c y < 0)"
  by (auto simp: cmp_mono_def sorted_wrt_append)

lemma find_append: "find P (xs @ ys) = (case find P xs of None \<Rightarrow> find P ys | Some x \<Rightarrow> Some x)"
  by (induction xs) auto

lemma find_none: "(\<And>x. x \<in> set xs \<Longrightarrow> \<not> P x) \<Longrightarrow> find P xs = None"
  by (auto simp: find_None_iff)

lemma find_loop_ok:
  assumes "rtree (rb_links s) p t" "cmp_mono c (addrs t)"
  shows "rb_find_loop c (ptr t) s = Some (find (\<lambda>x. c x = 0) (addrs t))"
  using assms
proof (induction t arbitrary: p rule: addrs.induct)
  case 1
  then show ?case by (subst rb_find_loop.simps) simp
next
  case (2 l a co r)
  have rd: "RB_LEFT a s = ptr l" "RB_RIGHT a s = ptr r" using "2.prems" by (simp_all add: RB_LEFT_def RB_RIGHT_def)
  have m: "cmp_mono c (addrs l)" "cmp_mono c (addrs r)" "\<forall>x\<in>set (addrs l). c x \<le> 0 \<longrightarrow> c a < 0"
    "\<forall>y\<in>set (addrs r). c a \<le> 0 \<longrightarrow> c y < 0" using "2.prems" by (simp_all add: cmp_mono_append)
  have ih: "rb_find_loop c (ptr l) s = Some (find (\<lambda>x. c x = 0) (addrs l))" "rb_find_loop c (ptr r) s = Some (find (\<lambda>x. c x = 0) (addrs r))"
    using "2.IH" "2.prems" m by auto
  have n: "c a < 0 \<Longrightarrow> find (\<lambda>x. c x = 0) (addrs r) = None" "\<not> c a < 0 \<Longrightarrow> find (\<lambda>x. c x = 0) (addrs l) = None"
    using m(3,4) by (auto intro!: find_none)
  show ?case using ih n rd by (subst rb_find_loop.simps) (auto simp: find_append Let_def split: option.splits)
qed

lemma nfind_loop_ok:
  assumes "rtree (rb_links s) p t" "cmp_mono c (addrs t)"
  shows "rb_nfind_loop c (ptr t) res s = Some (case find (\<lambda>x. c x \<le> 0) (addrs t) of None \<Rightarrow> res | Some x \<Rightarrow> Some x)"
  using assms
proof (induction t arbitrary: p res rule: addrs.induct)
  case 1
  then show ?case by (subst rb_nfind_loop.simps) simp
next
  case (2 l a co r)
  have rd: "RB_LEFT a s = ptr l" "RB_RIGHT a s = ptr r" using "2.prems" by (simp_all add: RB_LEFT_def RB_RIGHT_def)
  have m: "cmp_mono c (addrs l)" "cmp_mono c (addrs r)" "\<forall>x\<in>set (addrs l). c x \<le> 0 \<longrightarrow> c a < 0"
    using "2.prems" by (simp_all add: cmp_mono_append)
  have ih: "\<And>res. rb_nfind_loop c (ptr l) res s = Some (case find (\<lambda>x. c x \<le> 0) (addrs l) of None \<Rightarrow> res | Some x \<Rightarrow> Some x)"
    "\<And>res. rb_nfind_loop c (ptr r) res s = Some (case find (\<lambda>x. c x \<le> 0) (addrs r) of None \<Rightarrow> res | Some x \<Rightarrow> Some x)"
    using "2.IH" "2.prems" m by auto
  have n: "\<not> c a < 0 \<Longrightarrow> find (\<lambda>x. c x \<le> 0) (addrs l) = None" using m(3) by (auto intro!: find_none)
  show ?case using ih n rd by (subst rb_nfind_loop.simps) (auto simp: find_append Let_def split: option.splits)
qed

lemma minmax_loop_ok:
  assumes "rtree (rb_links s) p t"
  shows "rb_minmax_loop v (ptr t) par s = Some (if t = Leaf then par else Some (if v < 0 then hd (addrs t) else last (addrs t)))"
  using assms
proof (induction t arbitrary: p par rule: addrs.induct)
  case 1
  then show ?case by (subst rb_minmax_loop.simps) simp
next
  case (2 l a co r)
  have rd: "RB_LEFT a s = ptr l" "RB_RIGHT a s = ptr r" using "2.prems" by (simp_all add: RB_LEFT_def RB_RIGHT_def)
  have "addrs t \<noteq> []" if "t \<noteq> Leaf" for t :: "'a rbt" using that by (cases t rule: ptr.cases) auto
  then show ?case using "2.IH" "2.prems" rd by (subst rb_minmax_loop.simps) (auto simp: hd_append)
qed

section \<open>The other direction\<close>

text \<open>\<open>RB_PREV\<close> is \<open>RB_NEXT\<close> on the mirror image.\<close>

definition flip_links :: "'a rb_state \<Rightarrow> 'a rb_state" where
  "flip_links s = s\<lparr>rb_links := (\<lambda>a. (rb_links s a)\<lparr>rbe_left := rbe_right (rb_links s a), rbe_right := rbe_left (rb_links s a)\<rparr>)\<rparr>"

lemma flip_reads [simp]:
  "RB_LEFT a (flip_links s) = RB_RIGHT a s" "RB_RIGHT a (flip_links s) = RB_LEFT a s" "RB_PARENT a (flip_links s) = RB_PARENT a s"
  by (simp_all add: flip_links_def RB_LEFT_def RB_RIGHT_def RB_PARENT_def)

lemma addrs_mirror: "addrs (mirror t) = rev (addrs t)"
  by (induction t rule: addrs.induct) auto

lemma ptr_mirror: "ptr (mirror t) = ptr t"
  by (cases t rule: ptr.cases) auto

lemma rtree_mirror: "rtree (rb_links s) p t \<Longrightarrow> rtree (rb_links (flip_links s)) p (mirror t)"
  by (induction t arbitrary: p rule: addrs.induct) (auto simp: ptr_mirror flip_links_def mk_entry_def)

lemma rep_mirror: "rb_rep s t [] \<Longrightarrow> rb_rep (flip_links s) (mirror t) []"
  using rtree_mirror [of s None t] by (simp add: rb_rep_def ptr_mirror addrs_mirror) (simp add: flip_links_def)

lemma leftmost_flip:
  assumes "rb_leftmost a u = Some e" shows "u = flip_links s \<longrightarrow> rb_rightmost a s = Some e"
proof (rule rb_leftmost.raw_induct [where P = "\<lambda>a u e. u = flip_links s \<longrightarrow> rb_rightmost a s = Some e", OF _ assms])
  fix f :: "'a \<Rightarrow> 'a rb_state \<Rightarrow> 'a option" and a u e
  assume "\<And>a u e. f a u = Some e \<Longrightarrow> u = flip_links s \<longrightarrow> rb_rightmost a s = Some e"
    and "(case RB_LEFT a u of None \<Rightarrow> Some a | Some l \<Rightarrow> f l u) = Some e"
  then show "u = flip_links s \<longrightarrow> rb_rightmost a s = Some e"
    by (subst rb_rightmost.simps) (auto split: option.splits)
qed

lemma climb_flip:
  assumes "rb_climb_right a u = Some e" shows "u = flip_links s \<longrightarrow> rb_climb_left a s = Some e"
proof (rule rb_climb_right.raw_induct [where P = "\<lambda>a u e. u = flip_links s \<longrightarrow> rb_climb_left a s = Some e", OF _ assms])
  fix f :: "'a \<Rightarrow> 'a rb_state \<Rightarrow> 'a option" and a u e
  assume "\<And>a u e. f a u = Some e \<Longrightarrow> u = flip_links s \<longrightarrow> rb_climb_left a s = Some e"
    and "(case RB_PARENT a u of None \<Rightarrow> Some a | Some p \<Rightarrow> if Some a = RB_RIGHT p u then f p u else Some a) = Some e"
  then show "u = flip_links s \<longrightarrow> rb_climb_left a s = Some e"
    by (subst rb_climb_left.simps) (auto split: option.splits if_splits)
qed

lemma next_flip: "RB_NEXT a (flip_links s) = Some r \<Longrightarrow> RB_PREV a s = Some r"
  using leftmost_flip [of _ "flip_links s" _ s] climb_flip [of a "flip_links s" _ s]
  unfolding RB_NEXT_def RB_PREV_def flip_reads
  by (auto split: option.splits if_splits Option.bind_splits)

lemma RB_PREV_ok:
  assumes "rb_rep s t []" "addrs t = ys @ a # zs"
  shows "RB_PREV a s = Some (head_opt (rev ys))"
  by (rule next_flip, rule RB_NEXT_ok [OF rep_mirror [OF assms(1)]]) (simp add: addrs_mirror assms(2))

section \<open>Insertion\<close>

text \<open>An equal element stops the descent; else it is that of an insertion by \<open>c < 0\<close>.\<close>

lemma insert_descend_found:
  assumes "rtree (rb_links s) p t" "cmp_mono c (addrs t)" "e \<in> set (addrs t)" "c e = 0"
  shows "rb_insert_descend c (ptr t) par s = Some (Inl e)"
  using assms
proof (induction t arbitrary: p par rule: addrs.induct)
  case (2 l a co r)
  have rd: "RB_LEFT a s = ptr l" "RB_RIGHT a s = ptr r" using "2.prems" by (simp_all add: RB_LEFT_def RB_RIGHT_def)
  have m: "cmp_mono c (addrs l)" "cmp_mono c (addrs r)" "\<forall>x\<in>set (addrs l). c x \<le> 0 \<longrightarrow> c a < 0"
    "\<forall>y\<in>set (addrs r). c a \<le> 0 \<longrightarrow> c y < 0" using "2.prems" by (simp_all add: cmp_mono_append)
  note at = rb_insert_descend.simps [of c "Some a"]
  have ih: "\<And>par. e \<in> set (addrs l) \<Longrightarrow> rb_insert_descend c (ptr l) par s = Some (Inl e)"
    "\<And>par. e \<in> set (addrs r) \<Longrightarrow> rb_insert_descend c (ptr r) par s = Some (Inl e)"
    using "2.IH" "2.prems"(1,4) m(1,2) by auto
  consider "e \<in> set (addrs l)" "c a < 0" | "e = a" | "e \<in> set (addrs r)" "0 < c a"
    using "2.prems"(3,4) m(3,4) by fastforce
  then show ?case using ih rd "2.prems"(4) by cases (simp_all add: at Let_def)
qed simp

lemma insert_descend_missing:
  assumes "rtree (rb_links s) p t" "\<And>e. e \<in> set (addrs t) \<Longrightarrow> c e \<noteq> 0"
    and "tl_descend (\<lambda>x. c x < 0) (ptr t) (map_option (\<lambda>(a, i). (a, i < 0)) par) lm s = Some (q, lm')"
  shows "\<exists>pc. rb_insert_descend c (ptr t) par s = Some (Inr pc) \<and> map_option (\<lambda>(a, i). (a, i < 0)) pc = q"
  using assms
proof (induction t arbitrary: p par lm rule: addrs.induct)
  case 1
  then show ?case by (subst rb_insert_descend.simps) (auto simp: tl_descend.simps)
next
  case (2 l a co r)
  have rd: "RB_LEFT a s = ptr l" "RB_RIGHT a s = ptr r" using "2.prems"(1) by (simp_all add: RB_LEFT_def RB_RIGHT_def)
  have ne: "c a \<noteq> 0" using "2.prems"(2) by simp
  show ?case
  proof (cases "c a < 0")
    case True
    then have "tl_descend (\<lambda>x. c x < 0) (ptr l) (map_option (\<lambda>(a, i). (a, i < 0)) (Some (a, c a))) lm s = Some (q, lm')"
      using "2.prems"(3) rd by (subst (asm) tl_descend.simps) simp
    then have "\<exists>pc. rb_insert_descend c (ptr l) (Some (a, c a)) s = Some (Inr pc) \<and> map_option (\<lambda>(a, i). (a, i < 0)) pc = q"
      using "2.IH"(1) [of "Some a" "Some (a, c a)" lm] "2.prems"(1,2) by simp
    then show ?thesis using True rd by (subst rb_insert_descend.simps) (simp add: Let_def)
  next
    case False
    then have "tl_descend (\<lambda>x. c x < 0) (ptr r) (map_option (\<lambda>(a, i). (a, i < 0)) (Some (a, c a))) False s = Some (q, lm')"
      using "2.prems"(3) rd by (subst (asm) tl_descend.simps) simp
    then have "\<exists>pc. rb_insert_descend c (ptr r) (Some (a, c a)) s = Some (Inr pc) \<and> map_option (\<lambda>(a, i). (a, i < 0)) pc = q"
      using "2.IH"(2) [of "Some a" "Some (a, c a)" False] "2.prems"(1,2) by simp
    then show ?thesis using False ne rd by (subst rb_insert_descend.simps) (simp add: Let_def)
  qed
qed

lemma RB_INSERT_missing:
  assumes rep: "rb_rep s t []" and ne: "\<And>e. e \<in> set (addrs t) \<Longrightarrow> cmp x e \<noteq> 0"
    and ins: "tl_insert (\<lambda>x y. cmp x y < 0) x s = Some (lf, s')"
  shows "RB_INSERT cmp x s = Some (None, s')"
proof -
  have root: "rbh_root s = ptr t" "rtree (rb_links s) None t" using rep by (simp_all add: rb_rep_def)
  obtain q lm where d: "tl_descend (\<lambda>y. cmp x y < 0) (ptr t) None True s = Some (q, lm)"
    using ins root(1) by (cases "tl_descend (\<lambda>y. cmp x y < 0) (ptr t) None True s") (auto simp: tl_insert_def)
  obtain pc where pc: "rb_insert_descend (cmp x) (ptr t) None s = Some (Inr pc)" "map_option (\<lambda>(a, i). (a, i < 0)) pc = q"
    using insert_descend_missing [OF root(2), of "cmp x" None True q lm] ne d by auto
  have "map_option fst pc = map_option fst q" using pc(2) by (cases pc) auto
  then show ?thesis
    using ins root(1) d pc by (cases pc) (auto simp: RB_INSERT_def tl_insert_def Let_def split: Option.bind_splits)
qed

lemma RB_INSERT_ok:
  assumes rep: "tl_rep (rb_links s) (rbh_root s) xs" and m: "cmp_mono (cmp x) xs"
  shows "case find (\<lambda>y. cmp x y = 0) xs of
      Some y \<Rightarrow> RB_INSERT cmp x s = Some (Some y, s)
    | None \<Rightarrow> x \<notin> set xs \<longrightarrow> (\<exists>s'. RB_INSERT cmp x s = Some (None, s') \<and>
        tl_rep (rb_links s') (rbh_root s') (takeWhile (\<lambda>y. 0 < cmp x y) xs @ x # dropWhile (\<lambda>y. 0 < cmp x y) xs))"
proof -
  obtain t where t: "rb_rep s t []" "rbt_ok t" "addrs t = xs" using rep by (cases s) (auto simp: tl_rep_def)
  have root: "rbh_root s = ptr t" "rtree (rb_links s) None t" using t(1) by (simp_all add: rb_rep_def)
  show ?thesis
  proof (cases "find (\<lambda>y. cmp x y = 0) xs")
    case (Some y)
    then have y: "y \<in> set xs" "cmp x y = 0" by (auto simp: find_Some_iff)
    have "rb_insert_descend (cmp x) (rbh_root s) None s = Some (Inl y)"
      using insert_descend_found [OF root(2), of "cmp x" y None] m y t(3) root(1) by simp
    then show ?thesis using Some by (simp add: RB_INSERT_def)
  next
    case None
    then have ne: "cmp x e \<noteq> 0" if "e \<in> set xs" for e using that by (auto simp: find_None_iff)
    have "\<exists>s'. RB_INSERT cmp x s = Some (None, s') \<and>
        tl_rep (rb_links s') (rbh_root s') (takeWhile (\<lambda>y. 0 < cmp x y) xs @ x # dropWhile (\<lambda>y. 0 < cmp x y) xs)"
      if x: "x \<notin> set xs"
    proof -
      obtain s' t' ys zs where i: "tl_insert (\<lambda>x y. cmp x y < 0) x s = Some (ys = [], s')" "xs = ys @ zs" "rb_rep s' t' []"
        "rbt_ok t'" "addrs t' = ys @ x # zs" "ys \<noteq> [] \<longrightarrow> \<not> cmp x (last ys) < 0" "zs \<noteq> [] \<longrightarrow> cmp x (hd zs) < 0"
        using tl_insert_ok [OF t(1,2), of x "\<lambda>x y. cmp x y < 0"] x t(3) by auto
      have pos: "0 < cmp x y" if "y \<in> set ys" for y :: "'a"
      proof -
        obtain us where us: "ys = us @ [last ys]" using \<open>y \<in> set ys\<close> by (metis append_butlast_last_id empty_iff list.set(1))
        then have l: "0 < cmp x (last ys)" using i(2,6) ne [of "last ys"] by (metis UnCI append_is_Nil_conv last_in_set linorder_neqE not_Cons_self2 set_append)
        have "cmp x y \<le> 0 \<longrightarrow> cmp x (last ys) < 0" if "y \<in> set us"
          using m that unfolding i(2) by (subst (asm) us) (auto simp: cmp_mono_def sorted_wrt_append)
        moreover have "y \<in> set us \<or> y = last ys" using that us by (metis UnE list.set(1) list.set(2) set_append singletonD)
        ultimately show ?thesis using l by fastforce
      qed
      have neg: "\<not> 0 < cmp x y" if "zs = y # us" for y us using i(7) that by simp
      have "takeWhile (\<lambda>y. 0 < cmp x y) xs = ys" "dropWhile (\<lambda>y. 0 < cmp x y) xs = zs"
        using pos neg unfolding i(2) by (cases zs; simp add: takeWhile_append2 dropWhile_append2)+
      then show ?thesis using RB_INSERT_missing [where cmp = cmp, OF t(1) _ i(1)] ne t(3) tl_rep_state [OF i(3,4)] i(5) by auto
    qed
    then show ?thesis using None by simp
  qed
qed

section \<open>All searches on a tree\<close>

lemma searches_ok:
  assumes "tl_rep (rb_links s) (rbh_root s) xs" "cmp_mono (cmp x) xs"
  shows "RB_FIND cmp x s = Some (find (\<lambda>y. cmp x y = 0) xs)" "RB_NFIND cmp x s = Some (find (\<lambda>y. cmp x y \<le> 0) xs)"
    "RB_MINMAX v s = Some (if xs = [] then None else Some (if v < 0 then hd xs else last xs))"
    "xs = ys @ a # zs \<Longrightarrow> RB_NEXT a s = Some (head_opt zs)" "xs = ys @ a # zs \<Longrightarrow> RB_PREV a s = Some (head_opt (rev ys))"
proof -
  obtain t where t: "rb_rep s t []" "rbt_ok t" "addrs t = xs" using assms(1) by (cases s) (auto simp: tl_rep_def)
  have root: "rbh_root s = ptr t" "rtree (rb_links s) None t" using t(1) by (simp_all add: rb_rep_def)
  have leaf: "t = Leaf \<longleftrightarrow> xs = []" using t(3) by (cases t rule: ptr.cases) auto
  show "RB_FIND cmp x s = Some (find (\<lambda>y. cmp x y = 0) xs)" "RB_NFIND cmp x s = Some (find (\<lambda>y. cmp x y \<le> 0) xs)"
    "RB_MINMAX v s = Some (if xs = [] then None else Some (if v < 0 then hd xs else last xs))"
    using find_loop_ok [OF root(2)] nfind_loop_ok [OF root(2)] minmax_loop_ok [OF root(2)] root(1) assms(2) t(3) leaf
    by (auto simp: RB_FIND_def RB_NFIND_def RB_MINMAX_def split: option.splits)
  show "RB_NEXT a s = Some (head_opt zs)" "RB_PREV a s = Some (head_opt (rev ys))" if "xs = ys @ a # zs"
    using RB_NEXT_ok [OF t(1)] RB_PREV_ok [OF t(1)] t(3) that by simp_all
qed

end
