(* ===== verification/Rbtree_Each.thy ===== *)
theory Rbtree_Each
  imports Rbtree_Search
begin

text \<open>
  The loops \<open>RB_FOREACH\<close>, \<open>RB_FOREACH_FROM\<close>, \<open>RB_FOREACH_SAFE\<close> and their reverses in \<open>tree.h\<close>, and the macros around the
  search for the ends of the tree. The body of a loop is an argument that changes a state of its own and the tree. The plain
  loops read the next element after the body, the safe ones before it, so a body may take the element out of the tree.
\<close>

section \<open>The macros\<close>

definition RB_INIT :: "'a rb_state \<Rightarrow> 'a rb_state" where
  "RB_INIT s = s\<lparr>rbh_root := None\<rparr>"

definition RB_EMPTY :: "'a rb_state \<Rightarrow> bool" where
  "RB_EMPTY s \<longleftrightarrow> rbh_root s = None"

definition RB_MIN :: "'a rb_state \<Rightarrow> 'a option option" where
  "RB_MIN s = RB_MINMAX (- 1) s"

definition RB_MAX :: "'a rb_state \<Rightarrow> 'a option option" where
  "RB_MAX s = RB_MINMAX 1 s"

partial_function (option) rb_foreach ::
    "('a \<Rightarrow> 'a rb_state \<Rightarrow> 'a option option) \<Rightarrow> ('a \<Rightarrow> 'b \<times> 'a rb_state \<Rightarrow> ('b \<times> 'a rb_state) option) \<Rightarrow> 'a option \<Rightarrow>
     'b \<times> 'a rb_state \<Rightarrow> ('b \<times> 'a rb_state) option" where
  "rb_foreach step body x bs =
     (case x of
        None \<Rightarrow> Some bs
      | Some a \<Rightarrow> Option.bind (body a bs) (\<lambda>bs. Option.bind (step a (snd bs)) (\<lambda>x. rb_foreach step body x bs)))"

partial_function (option) rb_foreach_safe ::
    "('a \<Rightarrow> 'a rb_state \<Rightarrow> 'a option option) \<Rightarrow> ('a \<Rightarrow> 'b \<times> 'a rb_state \<Rightarrow> ('b \<times> 'a rb_state) option) \<Rightarrow> 'a option \<Rightarrow>
     'b \<times> 'a rb_state \<Rightarrow> ('b \<times> 'a rb_state) option" where
  "rb_foreach_safe step body x bs =
     (case x of
        None \<Rightarrow> Some bs
      | Some a \<Rightarrow> Option.bind (step a (snd bs)) (\<lambda>y. Option.bind (body a bs) (\<lambda>bs. rb_foreach_safe step body y bs)))"

definition RB_FOREACH where
  "RB_FOREACH body bs = Option.bind (RB_MIN (snd bs)) (\<lambda>x. rb_foreach RB_NEXT body x bs)"

definition RB_FOREACH_FROM where
  "RB_FOREACH_FROM body y bs = rb_foreach_safe RB_NEXT body y bs"

definition RB_FOREACH_SAFE where
  "RB_FOREACH_SAFE body bs = Option.bind (RB_MIN (snd bs)) (\<lambda>x. rb_foreach_safe RB_NEXT body x bs)"

definition RB_FOREACH_REVERSE where
  "RB_FOREACH_REVERSE body bs = Option.bind (RB_MAX (snd bs)) (\<lambda>x. rb_foreach RB_PREV body x bs)"

definition RB_FOREACH_REVERSE_FROM where
  "RB_FOREACH_REVERSE_FROM body y bs = rb_foreach_safe RB_PREV body y bs"

definition RB_FOREACH_REVERSE_SAFE where
  "RB_FOREACH_REVERSE_SAFE body bs = Option.bind (RB_MAX (snd bs)) (\<lambda>x. rb_foreach_safe RB_PREV body x bs)"

section \<open>What they visit\<close>

abbreviation holds_list :: "'a rb_state \<Rightarrow> 'a list \<Rightarrow> bool" where
  "holds_list s xs \<equiv> tl_rep (rb_links s) (rbh_root s) xs"

lemma ends_ok:
  assumes "holds_list s xs"
  shows "RB_MIN s = Some (head_opt xs)" "RB_MAX s = Some (head_opt (rev xs))" "RB_EMPTY s \<longleftrightarrow> xs = []"
proof -
  have m: "RB_MINMAX v s = Some (if xs = [] then None else Some (if v < 0 then hd xs else last xs))" for v
    by (rule searches_ok(3) [OF assms, of "\<lambda>_ _. 1"]) (simp add: cmp_mono_def)
  show "RB_MIN s = Some (head_opt xs)" using m by (cases xs) (simp_all add: RB_MIN_def)
  show "RB_MAX s = Some (head_opt (rev xs))" using m by (cases xs rule: rev_cases) (simp_all add: RB_MAX_def)
  obtain t where t: "rb_rep s t []" "addrs t = xs" using assms by (cases s) (auto simp: tl_rep_def)
  then show "RB_EMPTY s \<longleftrightarrow> xs = []" by (cases t rule: ptr.cases) (auto simp: RB_EMPTY_def rb_rep_def)
qed

lemma neighbours_ok:
  assumes "holds_list s (ys @ a # zs)"
  shows "RB_NEXT a s = Some (head_opt zs)" "RB_PREV a s = Some (head_opt (rev ys))"
  by (rule searches_ok(4,5) [OF assms, of "\<lambda>_ _. 1"]; simp add: cmp_mono_def)+

text \<open>A body that leaves the tree alone folds over the elements, up or down.\<close>

lemma foreach_fold:
  assumes body: "\<And>a b. body a (b, s) = Some (f a b, s)"
    and step: "\<And>ys a zs. xs = ys @ a # zs \<Longrightarrow> step a s = Some (head_opt zs)" and xs: "xs = ys @ zs"
  shows "rb_foreach step body (head_opt zs) (b, s) = Some (fold f zs b, s) \<and>
    rb_foreach_safe step body (head_opt zs) (b, s) = Some (fold f zs b, s)"
  using xs
proof (induction zs arbitrary: ys b)
  case Nil
  then show ?case by (simp add: rb_foreach.simps [of _ _ None] rb_foreach_safe.simps [of _ _ None])
next
  case (Cons a zs)
  have n: "step a s = Some (head_opt zs)" by (rule step [OF Cons.prems])
  have "xs = (ys @ [a]) @ zs" using Cons.prems by simp
  from Cons.IH [OF this] show ?case
    by (simp add: rb_foreach.simps [of _ _ "Some a"] rb_foreach_safe.simps [of _ _ "Some a"] body n)
qed

lemma RB_FOREACH_ok:
  assumes rep: "holds_list s xs" and body: "\<And>a b. body a (b, s) = Some (f a b, s)"
  shows "RB_FOREACH body (b, s) = Some (fold f xs b, s)" "RB_FOREACH_REVERSE body (b, s) = Some (fold f (rev xs) b, s)"
    "RB_FOREACH_SAFE body (b, s) = Some (fold f xs b, s)" "RB_FOREACH_REVERSE_SAFE body (b, s) = Some (fold f (rev xs) b, s)"
    "xs = ys @ y # zs \<Longrightarrow> RB_FOREACH_FROM body (Some y) (b, s) = Some (fold f (y # zs) b, s)"
    "xs = ys @ y # zs \<Longrightarrow> RB_FOREACH_REVERSE_FROM body (Some y) (b, s) = Some (fold f (y # rev ys) b, s)"
proof -
  have up: "RB_NEXT a s = Some (head_opt vs)" if "xs = us @ a # vs" for us a vs using neighbours_ok(1) [of s us a vs] rep that by simp
  have down: "RB_PREV a s = Some (head_opt vs)" if "rev xs = us @ a # vs" for us a vs
    using neighbours_ok(2) [of s "rev vs" a "rev us"] rep that by (simp add: rev_eq_append_conv)
  note u = foreach_fold [where body = body and step = RB_NEXT and s = s and f = f, OF body up]
  note d = foreach_fold [where body = body and step = RB_PREV and s = s and f = f, OF body down]
  show "RB_FOREACH body (b, s) = Some (fold f xs b, s)" "RB_FOREACH_SAFE body (b, s) = Some (fold f xs b, s)"
    using u [where ys = "[]" and zs = xs and b = b and xs = xs] ends_ok(1) [OF rep] by (simp_all add: RB_FOREACH_def RB_FOREACH_SAFE_def)
  show "RB_FOREACH_REVERSE body (b, s) = Some (fold f (rev xs) b, s)" "RB_FOREACH_REVERSE_SAFE body (b, s) = Some (fold f (rev xs) b, s)"
    using d [where ys = "[]" and zs = "rev xs" and b = b and xs = "rev xs"] ends_ok(2) [OF rep] by (simp_all add: RB_FOREACH_REVERSE_def RB_FOREACH_REVERSE_SAFE_def)
  show "RB_FOREACH_FROM body (Some y) (b, s) = Some (fold f (y # zs) b, s)" if "xs = ys @ y # zs"
    using u [where ys = ys and zs = "y # zs" and b = b and xs = xs] that by (simp add: RB_FOREACH_FROM_def)
  show "RB_FOREACH_REVERSE_FROM body (Some y) (b, s) = Some (fold f (y # rev ys) b, s)" if "xs = ys @ y # zs"
    using d [where ys = "rev zs" and zs = "y # rev ys" and b = b and xs = "rev xs"] that by (simp add: RB_FOREACH_REVERSE_FROM_def)
qed

lemma foreach_folds:
  assumes "holds_list s xs"
  shows "\<forall>body f b. (\<forall>a b. body a (b, s) = Some (f a b, s)) \<longrightarrow>
    RB_FOREACH body (b, s) = Some (fold f xs b, s) \<and> RB_FOREACH_REVERSE body (b, s) = Some (fold f (rev xs) b, s)"
  by (intro allI impI conjI; rule RB_FOREACH_ok(1,2) [OF assms]; blast)

text \<open>The safe loop can take every element out.\<close>

definition take_out :: "'a \<Rightarrow> 'a list \<times> 'a rb_state \<Rightarrow> ('a list \<times> 'a rb_state) option" where
  "take_out a = (\<lambda>(seen, s). Option.bind (RB_REMOVE a s) (\<lambda>s. Some (seen @ [a], s)))"

lemma RB_REMOVE_rep:
  assumes "holds_list s (ys @ a # zs)"
  shows "\<exists>s'. RB_REMOVE a s = Some s' \<and> holds_list s' (ys @ zs)"
  using tl.rem_ok [OF assms] by (cases s) (auto simp: tl_rem_def split: Option.bind_splits)

lemma take_out_all:
  "holds_list s xs \<Longrightarrow> \<exists>s'. rb_foreach_safe RB_NEXT take_out (head_opt xs) (us, s) = Some (us @ xs, s') \<and> holds_list s' []"
proof (induction xs arbitrary: s us)
  case Nil
  then show ?case by (simp add: rb_foreach_safe.simps [of _ _ None])
next
  case (Cons a xs)
  obtain s1 where s1: "RB_REMOVE a s = Some s1" "holds_list s1 xs" using RB_REMOVE_rep [of s "[]" a xs] Cons.prems by auto
  have "RB_NEXT a s = Some (head_opt xs)" using neighbours_ok(1) [of s "[]" a xs] Cons.prems by simp
  then show ?case using Cons.IH [OF s1(2), of "us @ [a]"] s1(1)
    by (simp add: rb_foreach_safe.simps [of _ _ "Some a"] take_out_def)
qed

lemma RB_FOREACH_SAFE_empties:
  assumes "holds_list s xs"
  shows "\<exists>s'. RB_FOREACH_SAFE take_out ([], s) = Some (xs, s') \<and> holds_list s' []"
  using take_out_all [OF assms, of "[]"] ends_ok(1) [OF assms] by (simp add: RB_FOREACH_SAFE_def)

lemma RB_INIT_ok: "holds_list (RB_INIT s) []"
  using tl.rep_emp [of "rb_links s"] by (simp add: RB_INIT_def)

end
