(* ===== verification/Splay.thy ===== *)
theory Splay
  imports Prelude
begin

text \<open>
  The splay tree macros of \<open>tree.h\<close> as they run: a store of \<open>SPLAY_ENTRY\<close> records (left and right pointer), the
  \<open>SPLAY_HEAD\<close> record with the root pointer, and one definition per macro, with the assignments in the source's order.
  \<open>Aux\<close> is the local variable \<open>__node\<close>, of which the two links collect the trees on both sides of the path;
  \<open>__left\<close> and \<open>__right\<close> point to it or to an element, and no link points to it. Following NULL is None, and so is a loop that does
  not end. The comparison of two elements is an integer, of which the sign counts. What the macros do to the
  tree is shown in \<open>Splay_Run\<close>.
\<close>

section \<open>Entries, heads and field access\<close>

datatype 'a spot = Aux | Elm 'a

record 'a splay_entry =
  spe_left :: "'a option"
  spe_right :: "'a option"

record 'a splay_state =
  spe :: "'a spot \<Rightarrow> 'a splay_entry"
  sph_root :: "'a option"

definition SPLAY_LEFT :: "'a spot \<Rightarrow> 'a splay_state \<Rightarrow> 'a option" where
  "SPLAY_LEFT p s = spe_left (spe s p)"

definition SPLAY_RIGHT :: "'a spot \<Rightarrow> 'a splay_state \<Rightarrow> 'a option" where
  "SPLAY_RIGHT p s = spe_right (spe s p)"

definition set_splay_left :: "'a spot \<Rightarrow> 'a option \<Rightarrow> 'a splay_state \<Rightarrow> 'a splay_state" where
  "set_splay_left p v s = s\<lparr>spe := (spe s)(p := (spe s p)\<lparr>spe_left := v\<rparr>)\<rparr>"

definition set_splay_right :: "'a spot \<Rightarrow> 'a option \<Rightarrow> 'a splay_state \<Rightarrow> 'a splay_state" where
  "set_splay_right p v s = s\<lparr>spe := (spe s)(p := (spe s p)\<lparr>spe_right := v\<rparr>)\<rparr>"

definition SPLAY_INIT :: "'a splay_state \<Rightarrow> 'a splay_state" where
  "SPLAY_INIT s = s\<lparr>sph_root := None\<rparr>"

definition SPLAY_EMPTY :: "'a splay_state \<Rightarrow> bool" where
  "SPLAY_EMPTY s \<longleftrightarrow> sph_root s = None"

section \<open>Rotation, linking and assembling\<close>

definition SPLAY_ROTATE_RIGHT :: "'a \<Rightarrow> 'a splay_state \<Rightarrow> 'a splay_state option" where
  "SPLAY_ROTATE_RIGHT tmp s = do {
     root \<leftarrow> sph_root s;
     let s = set_splay_left (Elm root) (SPLAY_RIGHT (Elm tmp) s) s;
     let s = set_splay_right (Elm tmp) (Some root) s;
     Some (s\<lparr>sph_root := Some tmp\<rparr>) }"

definition SPLAY_ROTATE_LEFT :: "'a \<Rightarrow> 'a splay_state \<Rightarrow> 'a splay_state option" where
  "SPLAY_ROTATE_LEFT tmp s = do {
     root \<leftarrow> sph_root s;
     let s = set_splay_right (Elm root) (SPLAY_LEFT (Elm tmp) s) s;
     let s = set_splay_left (Elm tmp) (Some root) s;
     Some (s\<lparr>sph_root := Some tmp\<rparr>) }"

definition SPLAY_LINKLEFT :: "'a spot \<Rightarrow> 'a splay_state \<Rightarrow> ('a spot \<times> 'a splay_state) option" where
  "SPLAY_LINKLEFT tmp s = do {
     let s = set_splay_left tmp (sph_root s) s;
     root \<leftarrow> sph_root s;
     Some (Elm root, s\<lparr>sph_root := SPLAY_LEFT (Elm root) s\<rparr>) }"

definition SPLAY_LINKRIGHT :: "'a spot \<Rightarrow> 'a splay_state \<Rightarrow> ('a spot \<times> 'a splay_state) option" where
  "SPLAY_LINKRIGHT tmp s = do {
     let s = set_splay_right tmp (sph_root s) s;
     root \<leftarrow> sph_root s;
     Some (Elm root, s\<lparr>sph_root := SPLAY_RIGHT (Elm root) s\<rparr>) }"

definition SPLAY_ASSEMBLE :: "'a spot \<Rightarrow> 'a spot \<Rightarrow> 'a spot \<Rightarrow> 'a splay_state \<Rightarrow> 'a splay_state option" where
  "SPLAY_ASSEMBLE node l r s = do {
     root \<leftarrow> sph_root s;
     let s = set_splay_right l (SPLAY_LEFT (Elm root) s) s;
     let s = set_splay_left r (SPLAY_RIGHT (Elm root) s) s;
     let s = set_splay_left (Elm root) (SPLAY_RIGHT node s) s;
     let s = set_splay_right (Elm root) (SPLAY_LEFT node s) s;
     Some s }"

section \<open>Splaying\<close>

text \<open>The rotation at the head of a round, and whether the loop breaks after it.\<close>

definition zig_right :: "bool \<Rightarrow> 'a \<Rightarrow> 'a splay_state \<Rightarrow> (bool \<times> 'a splay_state) option" where
  "zig_right beyond tmp s =
     (if beyond then do {
        s \<leftarrow> SPLAY_ROTATE_RIGHT tmp s;
        root \<leftarrow> sph_root s;
        Some (SPLAY_LEFT (Elm root) s = None, s) }
      else Some (False, s))"

definition zig_left :: "bool \<Rightarrow> 'a \<Rightarrow> 'a splay_state \<Rightarrow> (bool \<times> 'a splay_state) option" where
  "zig_left beyond tmp s =
     (if beyond then do {
        s \<leftarrow> SPLAY_ROTATE_LEFT tmp s;
        root \<leftarrow> sph_root s;
        Some (SPLAY_RIGHT (Elm root) s = None, s) }
      else Some (False, s))"

partial_function (option) splay_loop ::
    "('a \<Rightarrow> int) \<Rightarrow> 'a spot \<Rightarrow> 'a spot \<Rightarrow> 'a splay_state \<Rightarrow> ('a spot \<times> 'a spot \<times> 'a splay_state) option" where
  "splay_loop cmp l r s =
     (case sph_root s of
        None \<Rightarrow> None
      | Some root \<Rightarrow>
          let comp = cmp root
          in if comp < 0 then
               (case SPLAY_LEFT (Elm root) s of
                  None \<Rightarrow> Some (l, r, s)
                | Some tmp \<Rightarrow> Option.bind (zig_right (cmp tmp < 0) tmp s) (\<lambda>(stop, s).
                    if stop then Some (l, r, s)
                    else Option.bind (SPLAY_LINKLEFT r s) (\<lambda>(r, s). splay_loop cmp l r s)))
             else if comp > 0 then
               (case SPLAY_RIGHT (Elm root) s of
                  None \<Rightarrow> Some (l, r, s)
                | Some tmp \<Rightarrow> Option.bind (zig_left (cmp tmp > 0) tmp s) (\<lambda>(stop, s).
                    if stop then Some (l, r, s)
                    else Option.bind (SPLAY_LINKRIGHT l s) (\<lambda>(l, s). splay_loop cmp l r s)))
             else Some (l, r, s))"

definition SPLAY :: "('a \<Rightarrow> 'a \<Rightarrow> int) \<Rightarrow> 'a \<Rightarrow> 'a splay_state \<Rightarrow> 'a splay_state option" where
  "SPLAY cmp elm s = do {
     let s = set_splay_left Aux None (set_splay_right Aux None s);
     (l, r, s) \<leftarrow> splay_loop (cmp elm) Aux Aux s;
     SPLAY_ASSEMBLE Aux l r s }"

text \<open>The loop of \<open>SPLAY_MINMAX\<close> has no other end than the two breaks.\<close>

partial_function (option) minmax_loop ::
    "int \<Rightarrow> 'a spot \<Rightarrow> 'a spot \<Rightarrow> 'a splay_state \<Rightarrow> ('a spot \<times> 'a spot \<times> 'a splay_state) option" where
  "minmax_loop c l r s =
     (if c < 0 then
        (case sph_root s of
           None \<Rightarrow> None
         | Some root \<Rightarrow>
             (case SPLAY_LEFT (Elm root) s of
                None \<Rightarrow> Some (l, r, s)
              | Some tmp \<Rightarrow> Option.bind (zig_right (c < 0) tmp s) (\<lambda>(stop, s).
                  if stop then Some (l, r, s)
                  else Option.bind (SPLAY_LINKLEFT r s) (\<lambda>(r, s). minmax_loop c l r s))))
      else if c > 0 then
        (case sph_root s of
           None \<Rightarrow> None
         | Some root \<Rightarrow>
             (case SPLAY_RIGHT (Elm root) s of
                None \<Rightarrow> Some (l, r, s)
              | Some tmp \<Rightarrow> Option.bind (zig_left (c > 0) tmp s) (\<lambda>(stop, s).
                  if stop then Some (l, r, s)
                  else Option.bind (SPLAY_LINKRIGHT l s) (\<lambda>(l, s). minmax_loop c l r s))))
      else minmax_loop c l r s)"

definition SPLAY_MINMAX :: "int \<Rightarrow> 'a splay_state \<Rightarrow> 'a splay_state option" where
  "SPLAY_MINMAX c s = do {
     let s = set_splay_left Aux None (set_splay_right Aux None s);
     (l, r, s) \<leftarrow> minmax_loop c Aux Aux s;
     SPLAY_ASSEMBLE Aux l r s }"

section \<open>The operations\<close>

definition SPLAY_FIND :: "('a \<Rightarrow> 'a \<Rightarrow> int) \<Rightarrow> 'a \<Rightarrow> 'a splay_state \<Rightarrow> ('a option \<times> 'a splay_state) option" where
  "SPLAY_FIND cmp elm s =
     (if SPLAY_EMPTY s then Some (None, s)
      else do {
        s \<leftarrow> SPLAY cmp elm s;
        root \<leftarrow> sph_root s;
        if cmp elm root = 0 then Some (sph_root s, s) else Some (None, s) })"

partial_function (option) splay_leftmost :: "'a \<Rightarrow> 'a splay_state \<Rightarrow> 'a option" where
  "splay_leftmost elm s =
     (case SPLAY_LEFT (Elm elm) s of
        Some a \<Rightarrow> splay_leftmost a s
      | None \<Rightarrow> Some elm)"

definition SPLAY_NEXT :: "('a \<Rightarrow> 'a \<Rightarrow> int) \<Rightarrow> 'a \<Rightarrow> 'a splay_state \<Rightarrow> ('a option \<times> 'a splay_state) option" where
  "SPLAY_NEXT cmp elm s = do {
     s \<leftarrow> SPLAY cmp elm s;
     (case SPLAY_RIGHT (Elm elm) s of
        Some a \<Rightarrow> do { elm \<leftarrow> splay_leftmost a s; Some (Some elm, s) }
      | None \<Rightarrow> Some (None, s)) }"

definition SPLAY_MIN_MAX :: "int \<Rightarrow> 'a splay_state \<Rightarrow> ('a option \<times> 'a splay_state) option" where
  "SPLAY_MIN_MAX val s = do {
     s \<leftarrow> SPLAY_MINMAX val s;
     Some (sph_root s, s) }"

definition SPLAY_MIN :: "'a splay_state \<Rightarrow> ('a option \<times> 'a splay_state) option" where
  "SPLAY_MIN s = (if SPLAY_EMPTY s then Some (None, s) else SPLAY_MIN_MAX (- 1) s)"

definition SPLAY_MAX :: "'a splay_state \<Rightarrow> ('a option \<times> 'a splay_state) option" where
  "SPLAY_MAX s = (if SPLAY_EMPTY s then Some (None, s) else SPLAY_MIN_MAX 1 s)"

definition SPLAY_INSERT :: "('a \<Rightarrow> 'a \<Rightarrow> int) \<Rightarrow> 'a \<Rightarrow> 'a splay_state \<Rightarrow> ('a option \<times> 'a splay_state) option" where
  "SPLAY_INSERT cmp elm s =
     (if SPLAY_EMPTY s
      then let s = set_splay_left (Elm elm) None (set_splay_right (Elm elm) None s)
           in Some (None, s\<lparr>sph_root := Some elm\<rparr>)
      else do {
        s \<leftarrow> SPLAY cmp elm s;
        root \<leftarrow> sph_root s;
        let comp = cmp elm root;
        if comp < 0 then
          let s = set_splay_left (Elm elm) (SPLAY_LEFT (Elm root) s) s;
              s = set_splay_right (Elm elm) (Some root) s;
              s = set_splay_left (Elm root) None s
          in Some (None, s\<lparr>sph_root := Some elm\<rparr>)
        else if comp > 0 then
          let s = set_splay_right (Elm elm) (SPLAY_RIGHT (Elm root) s) s;
              s = set_splay_left (Elm elm) (Some root) s;
              s = set_splay_right (Elm root) None s
          in Some (None, s\<lparr>sph_root := Some elm\<rparr>)
        else Some (Some root, s) })"

definition SPLAY_REMOVE :: "('a \<Rightarrow> 'a \<Rightarrow> int) \<Rightarrow> 'a \<Rightarrow> 'a splay_state \<Rightarrow> ('a option \<times> 'a splay_state) option" where
  "SPLAY_REMOVE cmp elm s =
     (if SPLAY_EMPTY s then Some (None, s)
      else do {
        s \<leftarrow> SPLAY cmp elm s;
        root \<leftarrow> sph_root s;
        if cmp elm root = 0 then
          (if SPLAY_LEFT (Elm root) s = None then Some (Some elm, s\<lparr>sph_root := SPLAY_RIGHT (Elm root) s\<rparr>)
           else do {
             let tmp = SPLAY_RIGHT (Elm root) s;
             let s = s\<lparr>sph_root := SPLAY_LEFT (Elm root) s\<rparr>;
             s \<leftarrow> SPLAY cmp elm s;
             root \<leftarrow> sph_root s;
             Some (Some elm, set_splay_right (Elm root) tmp s) })
        else Some (None, s) })"

text \<open>The elements \<open>SPLAY_FOREACH\<close> visits, with a body that leaves the tree alone.\<close>

partial_function (option) splay_foreach_from ::
    "('a \<Rightarrow> 'a \<Rightarrow> int) \<Rightarrow> 'a option \<Rightarrow> 'a splay_state \<Rightarrow> ('a list \<times> 'a splay_state) option" where
  "splay_foreach_from cmp x s =
     (case x of
        None \<Rightarrow> Some ([], s)
      | Some a \<Rightarrow> Option.bind (SPLAY_NEXT cmp a s) (\<lambda>(y, s).
          Option.bind (splay_foreach_from cmp y s) (\<lambda>(xs, s). Some (a # xs, s))))"

definition SPLAY_FOREACH :: "('a \<Rightarrow> 'a \<Rightarrow> int) \<Rightarrow> 'a splay_state \<Rightarrow> ('a list \<times> 'a splay_state) option" where
  "SPLAY_FOREACH cmp s = do {
     (x, s) \<leftarrow> SPLAY_MIN s;
     splay_foreach_from cmp x s }"

end
