(* ===== verification/Splay_Run.thy ===== *)
theory Splay_Run
  imports Splay Rbtree_Search "HOL-Library.Tree"
begin

text \<open>
  What the splay macros do to the tree. While the loop runs, the elements are in three parts: the tree at the
  root, a list of the elements that were passed on the left, each with the tree to its left, and one of those
  passed on the right. Each round moves elements from the tree to one of the lists, in order, and
  \<open>SPLAY_ASSEMBLE\<close> hangs the lists below the new root. The two loops share one contract, the locale
  \<open>splay_loop\<close>. An operation is a function of the list of the elements of the tree.
\<close>

section \<open>Fields\<close>

lemma splay_fields [simp]:
  "SPLAY_LEFT p (set_splay_left q v s) = (if p = q then v else SPLAY_LEFT p s)"
  "SPLAY_RIGHT p (set_splay_right q v s) = (if p = q then v else SPLAY_RIGHT p s)"
  "SPLAY_LEFT p (set_splay_right q v s) = SPLAY_LEFT p s" "SPLAY_RIGHT p (set_splay_left q v s) = SPLAY_RIGHT p s"
  "SPLAY_LEFT p (s\<lparr>sph_root := r\<rparr>) = SPLAY_LEFT p s" "SPLAY_RIGHT p (s\<lparr>sph_root := r\<rparr>) = SPLAY_RIGHT p s"
  "sph_root (set_splay_left q v s) = sph_root s" "sph_root (set_splay_right q v s) = sph_root s"
  by (simp_all add: SPLAY_LEFT_def SPLAY_RIGHT_def set_splay_left_def set_splay_right_def)

definition same_links :: "'a set \<Rightarrow> 'a splay_state \<Rightarrow> 'a splay_state \<Rightarrow> bool" where
  "same_links A s s' \<longleftrightarrow> (\<forall>x\<in>A. SPLAY_LEFT (Elm x) s' = SPLAY_LEFT (Elm x) s \<and> SPLAY_RIGHT (Elm x) s' = SPLAY_RIGHT (Elm x) s)"

lemma same_links_trans: "same_links A s s' \<Longrightarrow> same_links A s' s'' \<Longrightarrow> same_links A s s''"
  by (simp add: same_links_def)

section \<open>Trees and the paths beside them\<close>

primrec splay_rep :: "'a splay_state \<Rightarrow> 'a option \<Rightarrow> 'a tree \<Rightarrow> bool" where
  "splay_rep s p Leaf \<longleftrightarrow> p = None"
| "splay_rep s p (Node l x r) \<longleftrightarrow> p = Some x \<and> splay_rep s (SPLAY_LEFT (Elm x) s) l \<and> splay_rep s (SPLAY_RIGHT (Elm x) s) r"

lemma splay_rep_cong: "same_links (set_tree t) s s' \<Longrightarrow> splay_rep s' p t = splay_rep s p t"
  by (induction t arbitrary: p) (auto simp: same_links_def)

lemma splay_rep_upd [simp]:
  "x \<notin> set_tree t \<Longrightarrow> splay_rep (set_splay_left (Elm x) v s) p t = splay_rep s p t"
  "x \<notin> set_tree t \<Longrightarrow> splay_rep (set_splay_right (Elm x) v s) p t = splay_rep s p t"
  "splay_rep (set_splay_left Aux v s) p t = splay_rep s p t" "splay_rep (set_splay_right Aux v s) p t = splay_rep s p t"
  "splay_rep (s\<lparr>sph_root := r\<rparr>) p t = splay_rep s p t"
  by (rule splay_rep_cong; auto simp: same_links_def)+

lemma splay_rep_None [simp]: "splay_rep s None t \<longleftrightarrow> t = Leaf"
  by (cases t) auto

lemma splay_rep_Some: "splay_rep s (Some x) t \<longleftrightarrow>
    (\<exists>l r. t = Node l x r \<and> splay_rep s (SPLAY_LEFT (Elm x) s) l \<and> splay_rep s (SPLAY_RIGHT (Elm x) s) r)"
  by (cases t) auto

type_synonym 'a flank = "('a tree \<times> 'a) list"

fun tip :: "'a flank \<Rightarrow> 'a spot" where
  "tip [] = Aux"
| "tip ((t, x) # ps) = Elm x"

fun lcont :: "'a flank \<Rightarrow> 'a list" where
  "lcont [] = []"
| "lcont ((t, x) # ps) = lcont ps @ inorder t @ [x]"

fun rcont :: "'a flank \<Rightarrow> 'a list" where
  "rcont [] = []"
| "rcont ((t, x) # ps) = x # inorder t @ rcont ps"

fun lspine :: "'a splay_state \<Rightarrow> 'a flank \<Rightarrow> bool" where
  "lspine s [] \<longleftrightarrow> True"
| "lspine s ((t, x) # ps) \<longleftrightarrow> splay_rep s (SPLAY_LEFT (Elm x) s) t \<and> SPLAY_RIGHT (tip ps) s = Some x \<and> lspine s ps"

fun rspine :: "'a splay_state \<Rightarrow> 'a flank \<Rightarrow> bool" where
  "rspine s [] \<longleftrightarrow> True"
| "rspine s ((t, x) # ps) \<longleftrightarrow> splay_rep s (SPLAY_RIGHT (Elm x) s) t \<and> SPLAY_LEFT (tip ps) s = Some x \<and> rspine s ps"

fun lplug :: "'a flank \<Rightarrow> 'a tree \<Rightarrow> 'a tree" where
  "lplug [] t = t"
| "lplug ((l, x) # ps) t = lplug ps (Node l x t)"

fun rplug :: "'a flank \<Rightarrow> 'a tree \<Rightarrow> 'a tree" where
  "rplug [] t = t"
| "rplug ((r, x) # ps) t = rplug ps (Node t x r)"

lemma lplug_rep: "lspine s ls \<Longrightarrow> splay_rep s (SPLAY_RIGHT (tip ls) s) t \<Longrightarrow> splay_rep s (SPLAY_RIGHT Aux s) (lplug ls t)"
  by (induction s ls arbitrary: t rule: lspine.induct) auto

lemma rplug_rep: "rspine s rs \<Longrightarrow> splay_rep s (SPLAY_LEFT (tip rs) s) t \<Longrightarrow> splay_rep s (SPLAY_LEFT Aux s) (rplug rs t)"
  by (induction s rs arbitrary: t rule: rspine.induct) auto

lemma inorder_plug [simp]: "inorder (lplug ls t) = lcont ls @ inorder t" "inorder (rplug rs t) = inorder t @ rcont rs"
proof -
  show "inorder (lplug ls t) = lcont ls @ inorder t" by (induction ls arbitrary: t rule: lcont.induct) auto
  show "inorder (rplug rs t) = inorder t @ rcont rs" by (induction rs arbitrary: t rule: rcont.induct) auto
qed

lemma tip_cases: "(tip ps = Aux \<and> ps = []) \<or> (\<exists>x. tip ps = Elm x \<and> x \<in> set (lcont ps) \<and> x \<in> set (rcont ps))"
  by (cases ps rule: tip.cases) auto

lemma lspine_cong:
  "same_links (set (lcont ls)) s s' \<Longrightarrow> SPLAY_RIGHT Aux s' = SPLAY_RIGHT Aux s \<Longrightarrow> lspine s' ls = lspine s ls"
proof (induction ls rule: lcont.induct)
  case (2 t x ps)
  have "same_links (set_tree t) s s'" "same_links (set (lcont ps)) s s'" using 2(2) by (auto simp: same_links_def)
  moreover have "SPLAY_RIGHT (tip ps) s' = SPLAY_RIGHT (tip ps) s" "SPLAY_LEFT (Elm x) s' = SPLAY_LEFT (Elm x) s"
    using tip_cases [of ps] 2(2,3) by (auto simp: same_links_def)
  ultimately show ?case using 2(1,3) by (simp add: splay_rep_cong)
qed simp

lemma rspine_cong:
  "same_links (set (rcont rs)) s s' \<Longrightarrow> SPLAY_LEFT Aux s' = SPLAY_LEFT Aux s \<Longrightarrow> rspine s' rs = rspine s rs"
proof (induction rs rule: rcont.induct)
  case (2 t x ps)
  have "same_links (set_tree t) s s'" "same_links (set (rcont ps)) s s'" using 2(2) by (auto simp: same_links_def)
  moreover have "SPLAY_LEFT (tip ps) s' = SPLAY_LEFT (tip ps) s" "SPLAY_RIGHT (Elm x) s' = SPLAY_RIGHT (Elm x) s"
    using tip_cases [of ps] 2(2,3) by (auto simp: same_links_def)
  ultimately show ?case using 2(1,3) by (simp add: splay_rep_cong)
qed simp

lemma lspine_upd [simp]:
  "x \<notin> set (lcont ls) \<Longrightarrow> lspine (set_splay_left (Elm x) v s) ls = lspine s ls"
  "x \<notin> set (lcont ls) \<Longrightarrow> lspine (set_splay_right (Elm x) v s) ls = lspine s ls"
  "lspine (set_splay_left Aux v s) ls = lspine s ls" "lspine (s\<lparr>sph_root := r\<rparr>) ls = lspine s ls"
  by (rule lspine_cong; auto simp: same_links_def)+

lemma rspine_upd [simp]:
  "x \<notin> set (rcont rs) \<Longrightarrow> rspine (set_splay_left (Elm x) v s) rs = rspine s rs"
  "x \<notin> set (rcont rs) \<Longrightarrow> rspine (set_splay_right (Elm x) v s) rs = rspine s rs"
  "rspine (set_splay_right Aux v s) rs = rspine s rs" "rspine (s\<lparr>sph_root := r\<rparr>) rs = rspine s rs"
  by (rule rspine_cong; auto simp: same_links_def)+

text \<open>The free link at the end of a path can be set.\<close>

lemma lspine_tip [simp]: "distinct (lcont ls) \<Longrightarrow> lspine (set_splay_right (tip ls) v s) ls = lspine s ls"
proof (cases ls rule: tip.cases)
  case (2 t x ps)
  assume "distinct (lcont ls)"
  then show ?thesis using 2 tip_cases [of ps] by auto
qed simp

lemma rspine_tip [simp]: "distinct (rcont rs) \<Longrightarrow> rspine (set_splay_left (tip rs) v s) rs = rspine s rs"
proof (cases rs rule: tip.cases)
  case (2 t x ps)
  assume "distinct (rcont rs)"
  then show ?thesis using 2 tip_cases [of ps] by auto
qed simp

lemma tip_neq [simp]:
  "x \<notin> set (lcont ps) \<Longrightarrow> tip ps \<noteq> Elm x" "x \<notin> set (lcont ps) \<Longrightarrow> Elm x \<noteq> tip ps"
  "x \<notin> set (rcont ps) \<Longrightarrow> tip ps \<noteq> Elm x" "x \<notin> set (rcont ps) \<Longrightarrow> Elm x \<noteq> tip ps"
  using tip_cases [of ps] by auto

lemma upd_tip [simp]:
  "set_tree t \<inter> set (rcont ps) = {} \<Longrightarrow> splay_rep (set_splay_left (tip ps) v s) p t = splay_rep s p t"
  "set_tree t \<inter> set (lcont ps) = {} \<Longrightarrow> splay_rep (set_splay_right (tip ps) v s) p t = splay_rep s p t"
  "set (lcont qs) \<inter> set (rcont ps) = {} \<Longrightarrow> lspine (set_splay_left (tip ps) v s) qs = lspine s qs"
  "set (rcont qs) \<inter> set (lcont ps) = {} \<Longrightarrow> rspine (set_splay_right (tip ps) v s) qs = rspine s qs"
  by (rule splay_rep_cong lspine_cong rspine_cong; use tip_cases [of ps] in \<open>auto simp: same_links_def\<close>)+

lemma set_plug [simp]: "set_tree (lplug ls t) = set (lcont ls) \<union> set_tree t" "set_tree (rplug rs t) = set_tree t \<union> set (rcont rs)"
  by (simp_all del: set_inorder add: set_inorder [symmetric])

section \<open>The state of the loop\<close>

definition whole :: "'a flank \<Rightarrow> 'a tree \<Rightarrow> 'a flank \<Rightarrow> 'a list" where
  "whole ls t rs = lcont ls @ inorder t @ rcont rs"

definition conf :: "'a splay_state \<Rightarrow> 'a spot \<Rightarrow> 'a spot \<Rightarrow> 'a flank \<Rightarrow> 'a tree \<Rightarrow> 'a flank \<Rightarrow> bool" where
  "conf s l r ls t rs \<longleftrightarrow> l = tip ls \<and> r = tip rs \<and> lspine s ls \<and> rspine s rs \<and> splay_rep s (sph_root s) t \<and>
     distinct (whole ls t rs)"

lemma rotate_right_ok:
  assumes "conf s l r ls (Node (Node a y b) x d) rs"
  shows "\<exists>s'. SPLAY_ROTATE_RIGHT y s = Some s' \<and> conf s' l r ls (Node a y (Node b x d)) rs \<and>
    same_links (- set (whole ls (Node (Node a y b) x d) rs)) s s'"
  using assms by (auto simp: conf_def whole_def SPLAY_ROTATE_RIGHT_def same_links_def)

lemma rotate_left_ok:
  assumes "conf s l r ls (Node a x (Node b y d)) rs"
  shows "\<exists>s'. SPLAY_ROTATE_LEFT y s = Some s' \<and> conf s' l r ls (Node (Node a x b) y d) rs \<and>
    same_links (- set (whole ls (Node a x (Node b y d)) rs)) s s'"
  using assms by (auto simp: conf_def whole_def SPLAY_ROTATE_LEFT_def same_links_def)

lemma link_left_ok:
  assumes "conf s l r ls (Node a x b) rs"
  shows "\<exists>s'. SPLAY_LINKLEFT r s = Some (Elm x, s') \<and> conf s' l (Elm x) ls a ((b, x) # rs) \<and>
    same_links (- set (whole ls (Node a x b) rs)) s s'"
  using assms by (auto simp: conf_def whole_def Int_Un_distrib Int_commute SPLAY_LINKLEFT_def same_links_def)

lemma link_right_ok:
  assumes "conf s l r ls (Node a x b) rs"
  shows "\<exists>s'. SPLAY_LINKRIGHT l s = Some (Elm x, s') \<and> conf s' (Elm x) r ((a, x) # ls) b rs \<and>
    same_links (- set (whole ls (Node a x b) rs)) s s'"
  using assms by (auto simp: conf_def whole_def Int_Un_distrib Int_commute SPLAY_LINKRIGHT_def same_links_def)

lemma assemble_ok:
  assumes "conf s l r ls (Node a x b) rs"
  shows "\<exists>s'. SPLAY_ASSEMBLE Aux l r s = Some s' \<and> splay_rep s' (sph_root s') (Node (lplug ls a) x (rplug rs b)) \<and>
    same_links (- set (whole ls (Node a x b) rs)) s s'"
proof -
  have C: "l = tip ls" "r = tip rs" "lspine s ls" "rspine s rs" "sph_root s = Some x" "splay_rep s (SPLAY_LEFT (Elm x) s) a"
    "splay_rep s (SPLAY_RIGHT (Elm x) s) b" and d: "distinct (lcont ls)" "distinct (rcont rs)"
    "set_tree a \<inter> set (lcont ls) = {}" "set_tree a \<inter> set (rcont rs) = {}" "set_tree b \<inter> set (lcont ls) = {}"
    "set_tree b \<inter> set (rcont rs) = {}" "set (lcont ls) \<inter> set (rcont rs) = {}" "set (rcont rs) \<inter> set (lcont ls) = {}"
    and x: "x \<notin> set (lcont ls)" "x \<notin> set (rcont rs)" "x \<notin> set_tree a" "x \<notin> set_tree b"
    using assms by (auto simp: conf_def whole_def)
  let ?s = "set_splay_left r (SPLAY_RIGHT (Elm x) s) (set_splay_right l (SPLAY_LEFT (Elm x) s) s)"
  let ?s' = "set_splay_right (Elm x) (SPLAY_LEFT Aux ?s) (set_splay_left (Elm x) (SPLAY_RIGHT Aux ?s) ?s)"
  have e: "SPLAY_ASSEMBLE Aux l r s = Some ?s'" using C x by (simp add: SPLAY_ASSEMBLE_def)
  have "splay_rep ?s (SPLAY_RIGHT Aux ?s) (lplug ls a)" by (rule lplug_rep) (use C d in simp_all)
  moreover have "splay_rep ?s (SPLAY_LEFT Aux ?s) (rplug rs b)" by (rule rplug_rep) (use C d in simp_all)
  ultimately have "splay_rep ?s' (sph_root ?s') (Node (lplug ls a) x (rplug rs b))" using C x by simp
  moreover have "same_links (- set (whole ls (Node a x b) rs)) s ?s'" using C by (auto simp: same_links_def whole_def)
  ultimately show ?thesis using e by blast
qed

section \<open>The loop\<close>

definition sides :: "('a \<Rightarrow> int) \<Rightarrow> 'a flank \<Rightarrow> 'a flank \<Rightarrow> bool" where
  "sides c ls rs \<longleftrightarrow> (\<forall>x\<in>set (lcont ls). 0 < c x) \<and> (\<forall>x\<in>set (rcont rs). c x < 0)"

definition splayed :: "('a \<Rightarrow> int) \<Rightarrow> 'a splay_state \<Rightarrow> 'a flank \<Rightarrow> 'a tree \<Rightarrow> 'a flank \<Rightarrow> ('a spot \<times> 'a spot \<times> 'a splay_state) option \<Rightarrow> bool" where
  "splayed c s ls t rs res \<longleftrightarrow> (\<exists>l r s' ls' a x b rs'. res = Some (l, r, s') \<and> conf s' l r ls' (Node a x b) rs' \<and>
     whole ls' (Node a x b) rs' = whole ls t rs \<and> same_links (- set (whole ls t rs)) s s' \<and>
     (c x < 0 \<and> a = Leaf \<or> c x > 0 \<and> b = Leaf \<or> c x = 0) \<and>
     (cmp_mono c (whole ls t rs) \<and> sides c ls rs \<longrightarrow> sides c ls' rs'))"

lemma splayed_done:
  assumes "conf s l r ls (Node a x b) rs" "c x < 0 \<and> a = Leaf \<or> c x > 0 \<and> b = Leaf \<or> c x = 0"
  shows "splayed c s ls (Node a x b) rs (Some (l, r, s))"
  using assms unfolding splayed_def same_links_def by blast

lemma splayed_later:
  assumes "splayed c s' ls' t' rs' res" "whole ls' t' rs' = whole ls t rs" "same_links (- set (whole ls t rs)) s s'"
    and "cmp_mono c (whole ls t rs) \<Longrightarrow> sides c ls rs \<Longrightarrow> sides c ls' rs'"
  shows "splayed c s ls t rs res"
  using assms(1,4) same_links_trans [OF assms(3)] unfolding splayed_def assms(2) by blast

locale splaying =
  fixes c :: "'a \<Rightarrow> int"
    and L :: "'a spot \<Rightarrow> 'a spot \<Rightarrow> 'a splay_state \<Rightarrow> ('a spot \<times> 'a spot \<times> 'a splay_state) option"
  assumes turn_left: "sph_root s = Some x \<Longrightarrow> c x < 0 \<Longrightarrow> L l r s = (case SPLAY_LEFT (Elm x) s of
        None \<Rightarrow> Some (l, r, s)
      | Some y \<Rightarrow> Option.bind (zig_right (c y < 0) y s) (\<lambda>(stop, s).
          if stop then Some (l, r, s) else Option.bind (SPLAY_LINKLEFT r s) (\<lambda>(r, s). L l r s)))"
    and turn_right: "sph_root s = Some x \<Longrightarrow> c x > 0 \<Longrightarrow> L l r s = (case SPLAY_RIGHT (Elm x) s of
        None \<Rightarrow> Some (l, r, s)
      | Some y \<Rightarrow> Option.bind (zig_left (c y > 0) y s) (\<lambda>(stop, s).
          if stop then Some (l, r, s) else Option.bind (SPLAY_LINKRIGHT l s) (\<lambda>(l, s). L l r s)))"
    and found: "sph_root s = Some x \<Longrightarrow> c x = 0 \<Longrightarrow> L l r s = Some (l, r, s)"
begin

lemma go_left:
  assumes cf: "conf s l r ls (Node a x b) rs" and x: "c x < 0" and IH: "\<And>s l r ls rs. conf s l r ls a rs \<Longrightarrow> splayed c s ls a rs (L l r s)"
  shows "splayed c s ls (Node a x b) rs (Option.bind (SPLAY_LINKLEFT r s) (\<lambda>(r, s). L l r s))"
proof -
  obtain s' where s: "SPLAY_LINKLEFT r s = Some (Elm x, s')" "conf s' l (Elm x) ls a ((b, x) # rs)"
    "same_links (- set (whole ls (Node a x b) rs)) s s'" using link_left_ok [OF cf] by blast
  have "splayed c s ls (Node a x b) rs (L l (Elm x) s')"
    by (rule splayed_later [OF IH [OF s(2)] _ s(3)]) (use x in \<open>auto simp: whole_def sides_def cmp_mono_def sorted_wrt_append\<close>)
  then show ?thesis by (simp add: s(1))
qed

lemma go_right:
  assumes cf: "conf s l r ls (Node a x b) rs" and x: "c x > 0" and IH: "\<And>s l r ls rs. conf s l r ls b rs \<Longrightarrow> splayed c s ls b rs (L l r s)"
  shows "splayed c s ls (Node a x b) rs (Option.bind (SPLAY_LINKRIGHT l s) (\<lambda>(l, s). L l r s))"
proof -
  obtain s' where s: "SPLAY_LINKRIGHT l s = Some (Elm x, s')" "conf s' (Elm x) r ((a, x) # ls) b rs"
    "same_links (- set (whole ls (Node a x b) rs)) s s'" using link_right_ok [OF cf] by blast
  have "splayed c s ls (Node a x b) rs (L (Elm x) r s')"
    by (rule splayed_later [OF IH [OF s(2)] _ s(3)]) (use x in \<open>force simp: whole_def sides_def cmp_mono_def sorted_wrt_append\<close>)+
  then show ?thesis by (simp add: s(1))
qed

lemma turn_left_ok:
  assumes cf: "conf s l r ls (Node a x b) rs" and x: "c x < 0"
    and IH: "\<And>t s l r ls rs. size t < size (Node a x b) \<Longrightarrow> t \<noteq> Leaf \<Longrightarrow> conf s l r ls t rs \<Longrightarrow> splayed c s ls t rs (L l r s)"
  shows "splayed c s ls (Node a x b) rs (L l r s)"
proof -
  have root: "sph_root s = Some x" "splay_rep s (SPLAY_LEFT (Elm x) s) a" using cf by (simp_all add: conf_def)
  show ?thesis
  proof (cases a)
    case Leaf
    then show ?thesis using root splayed_done [OF cf, of c] x by (simp add: turn_left)
  next
    case a: (Node a1 y a2)
    then have y: "SPLAY_LEFT (Elm x) s = Some y" using root(2) by simp
    show ?thesis
    proof (cases "c y < 0")
      case True
      obtain s' where s: "SPLAY_ROTATE_RIGHT y s = Some s'" "conf s' l r ls (Node a1 y (Node a2 x b)) rs"
        "same_links (- set (whole ls (Node a x b) rs)) s s'" using rotate_right_ok [OF cf [unfolded a]] unfolding a by blast
      have r': "sph_root s' = Some y" "splay_rep s' (SPLAY_LEFT (Elm y) s') a1" using s(2) by (simp_all add: conf_def)
      have "splayed c s' ls (Node a1 y (Node a2 x b)) rs (L l r s)"
      proof (cases "a1 = Leaf")
        case Leaf: True
        then have "L l r s = Some (l, r, s')" using r' s(1) True root(1) x y by (simp add: turn_left zig_right_def)
        then show ?thesis using splayed_done [OF s(2), of c] Leaf True by simp
      next
        case False
        then obtain z where "SPLAY_LEFT (Elm y) s' = Some z" using r'(2) by (cases a1) auto
        then have "L l r s = Option.bind (SPLAY_LINKLEFT r s') (\<lambda>(r, s). L l r s)"
          using r' s(1) True root(1) x y by (simp add: turn_left zig_right_def)
        then show ?thesis using go_left [OF s(2) True] IH [OF _ False] a by simp
      qed
      then show ?thesis by (rule splayed_later) (use s(3) a in \<open>simp_all add: whole_def\<close>)
    next
      case False
      have "L l r s = Option.bind (SPLAY_LINKLEFT r s) (\<lambda>(r, s). L l r s)"
        using False root(1) x y by (simp add: turn_left zig_right_def)
      then show ?thesis using go_left [OF cf x] IH [of a] a by simp
    qed
  qed
qed

lemma turn_right_ok:
  assumes cf: "conf s l r ls (Node a x b) rs" and x: "c x > 0"
    and IH: "\<And>t s l r ls rs. size t < size (Node a x b) \<Longrightarrow> t \<noteq> Leaf \<Longrightarrow> conf s l r ls t rs \<Longrightarrow> splayed c s ls t rs (L l r s)"
  shows "splayed c s ls (Node a x b) rs (L l r s)"
proof -
  have root: "sph_root s = Some x" "splay_rep s (SPLAY_RIGHT (Elm x) s) b" using cf by (simp_all add: conf_def)
  show ?thesis
  proof (cases b)
    case Leaf
    then show ?thesis using root splayed_done [OF cf, of c] x by (simp add: turn_right)
  next
    case b: (Node b1 y b2)
    then have y: "SPLAY_RIGHT (Elm x) s = Some y" using root(2) by simp
    show ?thesis
    proof (cases "c y > 0")
      case True
      obtain s' where s: "SPLAY_ROTATE_LEFT y s = Some s'" "conf s' l r ls (Node (Node a x b1) y b2) rs"
        "same_links (- set (whole ls (Node a x b) rs)) s s'" using rotate_left_ok [OF cf [unfolded b]] unfolding b by blast
      have r': "sph_root s' = Some y" "splay_rep s' (SPLAY_RIGHT (Elm y) s') b2" using s(2) by (simp_all add: conf_def)
      have "splayed c s' ls (Node (Node a x b1) y b2) rs (L l r s)"
      proof (cases "b2 = Leaf")
        case Leaf: True
        then have "L l r s = Some (l, r, s')" using r' s(1) True root(1) x y by (simp add: turn_right zig_left_def)
        then show ?thesis using splayed_done [OF s(2), of c] Leaf True by simp
      next
        case False
        then obtain z where "SPLAY_RIGHT (Elm y) s' = Some z" using r'(2) by (cases b2) auto
        then have "L l r s = Option.bind (SPLAY_LINKRIGHT l s') (\<lambda>(l, s). L l r s)"
          using r' s(1) True root(1) x y by (simp add: turn_right zig_left_def)
        then show ?thesis using go_right [OF s(2) True] IH [OF _ False] b by simp
      qed
      then show ?thesis by (rule splayed_later) (use s(3) b in \<open>simp_all add: whole_def\<close>)
    next
      case False
      have "L l r s = Option.bind (SPLAY_LINKRIGHT l s) (\<lambda>(l, s). L l r s)"
        using False root(1) x y by (simp add: turn_right zig_left_def)
      then show ?thesis using go_right [OF cf x] IH [of b] b by simp
    qed
  qed
qed

lemma loop_ok:
  assumes "conf s l r ls t rs" "t \<noteq> Leaf"
  shows "splayed c s ls t rs (L l r s)"
  using assms
proof (induction "size t" arbitrary: s l r ls t rs rule: less_induct)
  case less
  obtain a x b where t: "t = Node a x b" using less.prems(2) by (cases t) auto
  note cf = less.prems(1) [unfolded t]
  have root: "sph_root s = Some x" using cf by (simp add: conf_def)
  consider "c x < 0" | "c x > 0" | "c x = 0" by linarith
  then show ?case
  proof cases
    case 1
    show ?thesis unfolding t by (rule turn_left_ok [OF cf 1 less.hyps]) (simp_all add: t)
  next
    case 2
    show ?thesis unfolding t by (rule turn_right_ok [OF cf 2 less.hyps]) (simp_all add: t)
  next
    case 3
    then show ?thesis unfolding t found [OF root 3] using splayed_done [OF cf, of c] by simp
  qed
qed

lemma run_ok:
  assumes "splay_rep s (sph_root s) t" "distinct (inorder t)" "t \<noteq> Leaf"
  shows "\<exists>s' l x r. Option.bind (L Aux Aux (set_splay_left Aux None (set_splay_right Aux None s))) (\<lambda>(l, r, s). SPLAY_ASSEMBLE Aux l r s) = Some s' \<and>
    splay_rep s' (sph_root s') (Node l x r) \<and> inorder (Node l x r) = inorder t \<and> same_links (- set_tree t) s s' \<and>
    (cmp_mono c (inorder t) \<longrightarrow> (\<forall>y\<in>set_tree l. 0 < c y) \<and> (\<forall>y\<in>set_tree r. c y < 0))"
proof -
  let ?s = "set_splay_left Aux None (set_splay_right Aux None s)"
  have "conf ?s Aux Aux [] t []" using assms(1,2) by (simp add: conf_def whole_def)
  from loop_ok [OF this assms(3)] obtain l r s1 ls a x b rs where s1: "L Aux Aux ?s = Some (l, r, s1)"
    "conf s1 l r ls (Node a x b) rs" and w: "whole ls (Node a x b) rs = whole [] t []" "same_links (- set (whole [] t [])) ?s s1"
    "c x < 0 \<and> a = Leaf \<or> c x > 0 \<and> b = Leaf \<or> c x = 0" and out: "cmp_mono c (whole [] t []) \<longrightarrow> sides c ls rs"
    unfolding splayed_def by (auto simp: sides_def)
  obtain s' where s': "SPLAY_ASSEMBLE Aux l r s1 = Some s'" "splay_rep s' (sph_root s') (Node (lplug ls a) x (rplug rs b))"
    "same_links (- set (whole [] t [])) s1 s'" using assemble_ok [OF s1(2)] w(1) by auto
  have i: "whole [] t [] = inorder t" "lcont ls @ inorder a @ x # inorder b @ rcont rs = inorder t" using w(1) by (simp_all add: whole_def)
  have "(\<forall>y\<in>set (lcont ls) \<union> set_tree a. 0 < c y) \<and> (\<forall>y\<in>set_tree b \<union> set (rcont rs). c y < 0)" if m: "cmp_mono c (inorder t)"
  proof -
    have "sides c ls rs" using out m i(1) by simp
    then show ?thesis using w(3) m [folded i(2)] by (force simp: sides_def cmp_mono_def sorted_wrt_append)
  qed
  moreover have "same_links (- set_tree t) s s'" using w(2) s'(3) by (simp add: i(1) same_links_def)
  ultimately show ?thesis using s1(1) s'(1,2) i(2) by (intro exI [of _ s'] exI [of _ "lplug ls a"] exI [of _ x] exI [of _ "rplug rs b"]) simp
qed

end

interpretation key: splaying c "splay_loop c" for c
  by unfold_locales (subst splay_loop.simps, simp)+

interpretation least: splaying "\<lambda>_. - 1" "minmax_loop (- 1)"
  by unfold_locales (subst minmax_loop.simps, simp)+

interpretation greatest: splaying "\<lambda>_. 1" "minmax_loop 1"
  by unfold_locales (subst minmax_loop.simps, simp)+

section \<open>The operations\<close>

definition splay_holds :: "'a splay_state \<Rightarrow> 'a list \<Rightarrow> bool" where
  "splay_holds s xs \<longleftrightarrow> distinct xs \<and> (\<exists>t. splay_rep s (sph_root s) t \<and> inorder t = xs)"

lemma splay_rep_empty: "splay_rep s p t \<Longrightarrow> p = None \<longleftrightarrow> t = Leaf"
  by (cases t) auto

lemma splay_holds_empty:
  assumes "splay_holds s xs"
  shows "SPLAY_EMPTY s \<longleftrightarrow> xs = []"
proof -
  obtain t where t: "splay_rep s (sph_root s) t" "inorder t = xs" using assms by (auto simp: splay_holds_def)
  show ?thesis using splay_rep_empty [OF t(1)] t(2) by (cases t) (auto simp: SPLAY_EMPTY_def)
qed

text \<open>What splaying leaves: a root that the key equals if it equals any, with smaller elements on the left and
  larger ones on the right.\<close>

definition parted :: "('a \<Rightarrow> int) \<Rightarrow> 'a tree \<Rightarrow> 'a \<Rightarrow> 'a tree \<Rightarrow> 'a list \<Rightarrow> 'a splay_state \<Rightarrow> bool" where
  "parted c l x r xs s \<longleftrightarrow> sph_root s = Some x \<and> splay_rep s (SPLAY_LEFT (Elm x) s) l \<and> splay_rep s (SPLAY_RIGHT (Elm x) s) r \<and>
     xs = inorder l @ x # inorder r \<and> distinct xs \<and> (\<forall>y\<in>set_tree l. 0 < c y) \<and> (\<forall>y\<in>set_tree r. c y < 0)"

lemma run_parted:
  assumes "splaying c L" "splay_holds s xs" "xs \<noteq> []" "cmp_mono c xs"
  shows "\<exists>s' l x r. Option.bind (L Aux Aux (set_splay_left Aux None (set_splay_right Aux None s))) (\<lambda>(l, r, s). SPLAY_ASSEMBLE Aux l r s) = Some s' \<and>
    parted c l x r xs s' \<and> same_links (- set xs) s s'"
proof -
  obtain t where t: "splay_rep s (sph_root s) t" "distinct (inorder t)" "t \<noteq> Leaf" "inorder t = xs" "set_tree t = set xs"
    using assms(2,3) by (auto simp: splay_holds_def)
  then show ?thesis using splaying.run_ok [OF assms(1) t(1-3)] assms(4) unfolding parted_def by (auto 4 4)
qed

lemma SPLAY_ok:
  assumes "splay_holds s xs" "xs \<noteq> []" "cmp_mono (cmp e) xs"
  shows "\<exists>s' l x r. SPLAY cmp e s = Some s' \<and> parted (cmp e) l x r xs s' \<and> same_links (- set xs) s s'"
  using run_parted [OF key.splaying_axioms assms] by (simp add: SPLAY_def Let_def)

lemma SPLAY_MINMAX_ok:
  assumes "splay_holds s xs" "xs \<noteq> []" "v = - 1 \<or> v = 1"
  shows "\<exists>s' l x r. SPLAY_MINMAX v s = Some s' \<and> parted (\<lambda>_. v) l x r xs s'"
proof -
  have "splaying (\<lambda>_. v) (minmax_loop v)" using assms(3) least.splaying_axioms greatest.splaying_axioms by auto
  moreover have "cmp_mono (\<lambda>_. v) xs" using assms(3) by (auto simp: cmp_mono_def)
  ultimately show ?thesis using run_parted [OF _ assms(1,2), of "\<lambda>_. v" "minmax_loop v"] by (auto simp: SPLAY_MINMAX_def Let_def)
qed

lemma parted_holds: "parted c l x r xs s \<Longrightarrow> splay_holds s xs"
  unfolding parted_def splay_holds_def by (auto intro!: exI [of _ "Node l x r"])

lemma parted_find:
  assumes "parted c l x r xs s"
  shows "find (\<lambda>y. c y = 0) xs = (if c x = 0 then Some x else None)"
proof -
  have "find (\<lambda>y. c y = 0) (inorder l) = None" "find (\<lambda>y. c y = 0) (inorder r) = None"
    using assms by (force simp: parted_def find_None_iff)+
  moreover have "find P (ys @ zs) = (case find P ys of None \<Rightarrow> find P zs | Some y \<Rightarrow> Some y)" for P and ys zs :: "'a list"
    by (induction ys) auto
  ultimately show ?thesis using assms by (simp add: parted_def)
qed

lemma parted_cut:
  assumes "parted c l x r xs s"
  shows "takeWhile (\<lambda>y. 0 < c y) xs = inorder l @ (if 0 < c x then [x] else [])"
    "dropWhile (\<lambda>y. 0 < c y) xs = (if 0 < c x then inorder r else x # inorder r)"
proof -
  have l: "\<forall>y\<in>set (inorder l). 0 < c y" and r: "\<forall>y\<in>set (inorder r). \<not> 0 < c y" using assms by (force simp: parted_def)+
  have "takeWhile (\<lambda>y. 0 < c y) (inorder r) = []" "dropWhile (\<lambda>y. 0 < c y) (inorder r) = inorder r"
    using r by (cases "inorder r"; simp)+
  then show "takeWhile (\<lambda>y. 0 < c y) xs = inorder l @ (if 0 < c x then [x] else [])"
    "dropWhile (\<lambda>y. 0 < c y) xs = (if 0 < c x then inorder r else x # inorder r)"
    using l assms by (simp_all add: parted_def takeWhile_append dropWhile_append)
qed

lemma SPLAY_FIND_ok:
  assumes "splay_holds s xs" "cmp_mono (cmp e) xs"
  shows "\<exists>s'. SPLAY_FIND cmp e s = Some (find (\<lambda>y. cmp e y = 0) xs, s') \<and> splay_holds s' xs"
proof (cases "xs = []")
  case True
  then show ?thesis using assms(1) by (simp add: SPLAY_FIND_def splay_holds_empty)
next
  case False
  then obtain s' l x r where s: "SPLAY cmp e s = Some s'" "parted (cmp e) l x r xs s'" using SPLAY_ok [where cmp = cmp and e = e, OF assms(1) _ assms(2)] by blast
  then have "sph_root s' = Some x" by (simp add: parted_def)
  then show ?thesis using False assms(1) s parted_holds [OF s(2)] parted_find [OF s(2)] by (simp add: SPLAY_FIND_def splay_holds_empty)
qed

lemma splay_leftmost_ok:
  "splay_rep s (Some a) t \<Longrightarrow> splay_leftmost a s = Some (hd (inorder t))"
proof (induction t arbitrary: a)
  case (Node l x r)
  then show ?case by (cases l) (simp_all add: splay_leftmost.simps [of x s] hd_append)
qed simp

lemma SPLAY_NEXT_ok:
  assumes "splay_holds s (ys @ e # zs)" "cmp_mono (cmp e) (ys @ e # zs)" "cmp e e = 0"
  shows "\<exists>s'. SPLAY_NEXT cmp e s = Some (head_opt zs, s') \<and> splay_holds s' (ys @ e # zs)"
proof -
  obtain s' l x r where s: "SPLAY cmp e s = Some s'" "parted (cmp e) l x r (ys @ e # zs) s'"
    using SPLAY_ok [where cmp = cmp and e = e, OF assms(1) _ assms(2)] by blast
  have d: "distinct (ys @ e # zs)" using assms(1) by (simp add: splay_holds_def)
  have xs: "ys @ e # zs = inorder l @ x # inorder r" using s(2) by (simp add: parted_def)
  have "e \<notin> set_tree l" "e \<notin> set_tree r" using s(2) assms(3) by (auto simp: parted_def)
  moreover have "e \<in> set (inorder l @ x # inorder r)" unfolding xs [symmetric] by simp
  ultimately have "x = e" by auto
  then have "inorder r = zs" using xs d by (auto simp: append_eq_append_conv2 append_eq_Cons_conv Cons_eq_append_conv)
  then have r: "splay_rep s' (SPLAY_RIGHT (Elm e) s') r" "inorder r = zs" using s(2) \<open>x = e\<close> by (auto simp: parted_def)
  show ?thesis
  proof (cases r)
    case Leaf
    then show ?thesis using r s(1) parted_holds [OF s(2)] by (auto simp: SPLAY_NEXT_def)
  next
    case (Node r1 y r2)
    then have "SPLAY_RIGHT (Elm e) s' = Some y" "splay_leftmost y s' = Some (hd zs)" "zs \<noteq> []"
      using r splay_leftmost_ok [of s' y r] by auto
    then show ?thesis using s(1) parted_holds [OF s(2)] by (cases zs) (auto simp: SPLAY_NEXT_def)
  qed
qed

lemma SPLAY_MIN_MAX_ok:
  assumes "splay_holds s xs"
  shows "\<exists>s'. SPLAY_MIN s = Some (head_opt xs, s') \<and> splay_holds s' xs"
    "\<exists>s'. SPLAY_MAX s = Some (head_opt (rev xs), s') \<and> splay_holds s' xs"
proof -
  have m: "\<exists>s' l x r. SPLAY_MIN_MAX v s = Some (Some x, s') \<and> splay_holds s' xs \<and> parted (\<lambda>_. v) l x r xs s'"
    if "xs \<noteq> []" "v = - 1 \<or> v = 1" for v
    using SPLAY_MINMAX_ok [OF assms that] parted_holds by (fastforce simp: SPLAY_MIN_MAX_def parted_def)
  have "l = Leaf" if "parted (\<lambda>_. - 1) l x r xs s'" for l x r s' using that by (cases l) (auto simp: parted_def)
  then show "\<exists>s'. SPLAY_MIN s = Some (head_opt xs, s') \<and> splay_holds s' xs"
    using m [of "- 1"] assms by (cases "xs = []") (fastforce simp: SPLAY_MIN_def splay_holds_empty parted_def)+
  have "r = Leaf" if "parted (\<lambda>_. 1) l x r xs s'" for l x r s' using that by (cases r) (auto simp: parted_def)
  then show "\<exists>s'. SPLAY_MAX s = Some (head_opt (rev xs), s') \<and> splay_holds s' xs"
    using m [of 1] assms by (cases "xs = []") (fastforce simp: SPLAY_MAX_def splay_holds_empty parted_def)+
qed

text \<open>A new element becomes the root, between the parts.\<close>

lemma SPLAY_INSERT_ok:
  assumes "splay_holds s xs" "cmp_mono (cmp e) xs"
  shows "case find (\<lambda>y. cmp e y = 0) xs of
      Some y \<Rightarrow> \<exists>s'. SPLAY_INSERT cmp e s = Some (Some y, s') \<and> splay_holds s' xs
    | None \<Rightarrow> e \<notin> set xs \<longrightarrow> (\<exists>s'. SPLAY_INSERT cmp e s = Some (None, s') \<and>
        splay_holds s' (takeWhile (\<lambda>y. 0 < cmp e y) xs @ e # dropWhile (\<lambda>y. 0 < cmp e y) xs))"
proof (cases "xs = []")
  case True
  then show ?thesis using assms(1)
    by (auto simp: SPLAY_INSERT_def splay_holds_empty) (auto simp: splay_holds_def intro!: exI [of _ "Node Leaf e Leaf"])
next
  case False
  obtain s' l x r where s: "SPLAY cmp e s = Some s'" "parted (cmp e) l x r xs s'"
    using SPLAY_ok [where cmp = cmp and e = e, OF assms(1) False assms(2)] by blast
  have P: "sph_root s' = Some x" "splay_rep s' (SPLAY_LEFT (Elm x) s') l" "splay_rep s' (SPLAY_RIGHT (Elm x) s') r"
    "set xs = set_tree l \<union> {x} \<union> set_tree r" "xs = inorder l @ x # inorder r" "distinct xs" using s(2) by (auto simp: parted_def)
  have E: "\<not> SPLAY_EMPTY s" using False assms(1) by (simp add: splay_holds_empty)
  have below: "\<exists>s''. SPLAY_INSERT cmp e s = Some (None, s'') \<and> splay_holds s'' (inorder l @ e # x # inorder r)"
    if "e \<notin> set xs" "cmp e x < 0"
  proof -
    let ?s = "set_splay_left (Elm x) None (set_splay_right (Elm e) (Some x) (set_splay_left (Elm e) (SPLAY_LEFT (Elm x) s') s'))"
    have "SPLAY_INSERT cmp e s = Some (None, ?s\<lparr>sph_root := Some e\<rparr>)" using s(1) P(1) E that by (simp add: SPLAY_INSERT_def)
    moreover have "splay_rep (?s\<lparr>sph_root := Some e\<rparr>) (Some e) (Node l e (Node Leaf x r))" using P that by auto
    moreover have "distinct (inorder l @ e # x # inorder r)" using P(5,6) that by auto
    ultimately show ?thesis unfolding splay_holds_def by (intro exI [of _ "?s\<lparr>sph_root := Some e\<rparr>"]) (auto intro!: exI [of _ "Node l e (Node Leaf x r)"])
  qed
  have above: "\<exists>s''. SPLAY_INSERT cmp e s = Some (None, s'') \<and> splay_holds s'' (inorder l @ x # e # inorder r)"
    if "e \<notin> set xs" "cmp e x > 0"
  proof -
    let ?s = "set_splay_right (Elm x) None (set_splay_left (Elm e) (Some x) (set_splay_right (Elm e) (SPLAY_RIGHT (Elm x) s') s'))"
    have "SPLAY_INSERT cmp e s = Some (None, ?s\<lparr>sph_root := Some e\<rparr>)" using s(1) P(1) E that by (simp add: SPLAY_INSERT_def)
    moreover have "splay_rep (?s\<lparr>sph_root := Some e\<rparr>) (Some e) (Node (Node l x Leaf) e r)" using P that by auto
    moreover have "distinct (inorder l @ x # e # inorder r)" using P(5,6) that by auto
    ultimately show ?thesis unfolding splay_holds_def by (intro exI [of _ "?s\<lparr>sph_root := Some e\<rparr>"]) (auto intro!: exI [of _ "Node (Node l x Leaf) e r"])
  qed
  consider "cmp e x = 0" | "cmp e x < 0" | "cmp e x > 0" by linarith
  then show ?thesis
  proof cases
    case 1
    then show ?thesis using s(1) P(1) E parted_find [OF s(2)] parted_holds [OF s(2)] by (simp add: SPLAY_INSERT_def)
  next
    case 2
    then show ?thesis using below parted_find [OF s(2)] parted_cut [OF s(2)] by simp
  next
    case 3
    then show ?thesis using above parted_find [OF s(2)] parted_cut [OF s(2)] by simp
  qed
qed

text \<open>The tree on the right is hung below the largest element of the tree on the left, which a second splay brings up.\<close>

lemma SPLAY_REMOVE_ok:
  assumes "splay_holds s xs" "cmp_mono (cmp e) xs"
  shows "case find (\<lambda>y. cmp e y = 0) xs of
      Some y \<Rightarrow> \<exists>s'. SPLAY_REMOVE cmp e s = Some (Some e, s') \<and> splay_holds s' (remove1 y xs)
    | None \<Rightarrow> \<exists>s'. SPLAY_REMOVE cmp e s = Some (None, s') \<and> splay_holds s' xs"
proof (cases "xs = []")
  case True
  then show ?thesis using assms(1) by (simp add: SPLAY_REMOVE_def splay_holds_empty)
next
  case False
  obtain s' l x r where s: "SPLAY cmp e s = Some s'" "parted (cmp e) l x r xs s'"
    using SPLAY_ok [where cmp = cmp and e = e, OF assms(1) False assms(2)] by blast
  have P: "sph_root s' = Some x" "splay_rep s' (SPLAY_LEFT (Elm x) s') l" "splay_rep s' (SPLAY_RIGHT (Elm x) s') r"
    "xs = inorder l @ x # inorder r" "distinct xs" "\<forall>y\<in>set_tree l. 0 < cmp e y" using s(2) by (auto simp: parted_def)
  have E: "\<not> SPLAY_EMPTY s" using False assms(1) by (simp add: splay_holds_empty)
  have rem: "remove1 x xs = inorder l @ inorder r" using P(4,5) by (auto simp: remove1_append)
  have "\<exists>s''. SPLAY_REMOVE cmp e s = Some (Some e, s'') \<and> splay_holds s'' (inorder l @ inorder r)" if x: "cmp e x = 0"
  proof (cases l)
    case Leaf
    let ?s = "s'\<lparr>sph_root := SPLAY_RIGHT (Elm x) s'\<rparr>"
    have "SPLAY_REMOVE cmp e s = Some (Some e, ?s)" using s(1) P(1,2) E x Leaf by (simp add: SPLAY_REMOVE_def)
    moreover have "splay_holds ?s (inorder r)" using P(3-5) by (auto simp: splay_holds_def)
    ultimately show ?thesis using Leaf by auto
  next
    case (Node l1 z l2)
    let ?s = "s'\<lparr>sph_root := SPLAY_LEFT (Elm x) s'\<rparr>"
    have "splay_holds ?s (inorder l)" using P(2,4,5) by (auto simp: splay_holds_def)
    moreover have "inorder l \<noteq> []" using Node by simp
    moreover have "cmp_mono (cmp e) (inorder l)" using assms(2) unfolding P(4) by (simp add: cmp_mono_def sorted_wrt_append)
    ultimately obtain s2 a y b where s2: "SPLAY cmp e ?s = Some s2" "parted (cmp e) a y b (inorder l) s2" "same_links (- set (inorder l)) ?s s2"
      using SPLAY_ok [where cmp = cmp and e = e, of ?s "inorder l"] by blast
    have l: "inorder l = inorder a @ y # inorder b" using s2(2) by (simp add: parted_def)
    have "set_tree b \<subseteq> set (inorder l)" unfolding l by auto
    then have b: "b = Leaf" using s2(2) P(6) by (cases b) (force simp: parted_def)+
    have "same_links (set_tree r) ?s s2" using s2(3) P(4,5) by (auto simp: same_links_def)
    moreover have "SPLAY_RIGHT (Elm x) s2 = SPLAY_RIGHT (Elm x) s'" using s2(3) P(4,5) by (auto simp: same_links_def)
    ultimately have r: "splay_rep s2 (SPLAY_RIGHT (Elm x) s') r" using P(3) splay_rep_cong [of r ?s s2] by simp
    let ?s2 = "set_splay_right (Elm y) (SPLAY_RIGHT (Elm x) s') s2"
    have "SPLAY_REMOVE cmp e s = Some (Some e, ?s2)"
      using s(1) P(1,2) E x Node s2(1,2) by (auto simp: SPLAY_REMOVE_def parted_def)
    moreover have "splay_rep ?s2 (sph_root ?s2) (Node a y r)"
    proof -
      have "y \<notin> set_tree r" "y \<notin> set_tree a" using P(4,5) l by auto
      then show ?thesis using s2(2) r by (simp add: parted_def)
    qed
    moreover have "inorder (Node a y r) = inorder l @ inorder r" using l b by simp
    moreover have "distinct (inorder l @ inorder r)" using P(4,5) by auto
    ultimately show ?thesis unfolding splay_holds_def by metis
  qed
  then show ?thesis using s(1) P(1) E rem parted_find [OF s(2)] parted_holds [OF s(2)] by (simp add: SPLAY_REMOVE_def)
qed

text \<open>Visiting all elements ends, in order.\<close>

lemma splay_foreach_from_ok:
  assumes "splay_holds s (ys @ zs)" "\<forall>e\<in>set zs. cmp_mono (cmp e) (ys @ zs) \<and> cmp e e = 0"
  shows "\<exists>s'. splay_foreach_from cmp (head_opt zs) s = Some (zs, s') \<and> splay_holds s' (ys @ zs)"
  using assms
proof (induction zs arbitrary: ys s)
  case Nil
  then show ?case by (simp add: splay_foreach_from.simps [of cmp None])
next
  case (Cons e zs)
  obtain s1 where s1: "SPLAY_NEXT cmp e s = Some (head_opt zs, s1)" "splay_holds s1 (ys @ e # zs)"
    using SPLAY_NEXT_ok [where cmp = cmp and e = e, OF Cons.prems(1)] Cons.prems(2) by auto
  obtain s2 where "splay_foreach_from cmp (head_opt zs) s1 = Some (zs, s2)" "splay_holds s2 (ys @ e # zs)"
    using Cons.IH [of s1 "ys @ [e]"] s1(2) Cons.prems(2) by auto
  then show ?case using s1(1) by (simp add: splay_foreach_from.simps [of cmp "Some e"])
qed

lemma SPLAY_FOREACH_ok:
  assumes "splay_holds s xs" "\<forall>e\<in>set xs. cmp_mono (cmp e) xs \<and> cmp e e = 0"
  shows "\<exists>s'. SPLAY_FOREACH cmp s = Some (xs, s') \<and> splay_holds s' xs"
proof -
  obtain s1 where "SPLAY_MIN s = Some (head_opt xs, s1)" "splay_holds s1 xs" using SPLAY_MIN_MAX_ok(1) [OF assms(1)] by blast
  then show ?thesis using splay_foreach_from_ok [where cmp = cmp, of s1 "[]" xs] assms(2) by (auto simp: SPLAY_FOREACH_def)
qed

lemma SPLAY_INIT_ok: "splay_holds (SPLAY_INIT s) []"
  by (simp add: splay_holds_def SPLAY_INIT_def)

text \<open>A tree of two elements.\<close>

definition splay46 :: "nat splay_state" where
  "splay46 = \<lparr>spe = (\<lambda>p. if p = Elm 6 then \<lparr>spe_left = Some 4, spe_right = None\<rparr> else \<lparr>spe_left = None, spe_right = None\<rparr>),
     sph_root = Some 6\<rparr>"

lemma splay46: "splay_holds splay46 [4, 6]"
  by (auto simp: splay_holds_def splay46_def SPLAY_LEFT_def SPLAY_RIGHT_def intro!: exI [of _ "Node (Node Leaf 4 Leaf) 6 Leaf"])

end
