(* ===== verification/Weight.thy ===== *)
theory Weight
  imports Prelude
begin

text \<open>
  The arithmetic of \<open>pss.c\<close>: nice weights, load counters with their cached inverse, the scaling
  of a time by a ratio of weights, the scheduling period and the tunables that bound it.
\<close>

section \<open>Loads\<close>

record load_weight =
  weight :: u64
  inv_weight :: u64

definition load_add :: "u64 \<Rightarrow> load_weight \<Rightarrow> load_weight" where
  "load_add inc lw = lw\<lparr>weight := weight lw + inc, inv_weight := 0\<rparr>"

definition load_sub :: "u64 \<Rightarrow> load_weight \<Rightarrow> load_weight" where
  "load_sub dec lw = lw\<lparr>weight := weight lw - dec, inv_weight := 0\<rparr>"

definition load_set :: "u64 \<Rightarrow> load_weight \<Rightarrow> load_weight" where
  "load_set w lw = lw\<lparr>weight := w, inv_weight := 0\<rparr>"

lemma load_weight_simps [simp]:
  "weight (load_add i lw) = weight lw + i" "weight (load_sub i lw) = weight lw - i"
  "weight (load_set i lw) = i"
  "inv_weight (load_add i lw) = 0" "inv_weight (load_sub i lw) = 0" "inv_weight (load_set i lw) = 0"
  by (simp_all add: load_add_def load_sub_def load_set_def)

section \<open>Weights of nice values\<close>

abbreviation NICE_0_WEIGHT :: u64 where "NICE_0_WEIGHT \<equiv> 1024"
abbreviation IDLEPRIO_WEIGHT :: u64 where "IDLEPRIO_WEIGHT \<equiv> 3"
abbreviation IDLEPRIO_WMULT :: u64 where "IDLEPRIO_WMULT \<equiv> 1431655765"

definition prio_to_weight :: "u64 list" where
  "prio_to_weight = [
     88818, 71054, 56843, 45475, 36380,
     29104, 23283, 18626, 14901, 11921,
     9537, 7629, 6104, 4883, 3906,
     3125, 2500, 2000, 1600, 1280,
     1024,
     819, 655, 524, 419, 336,
     268, 215, 172, 137, 110,
     88, 70, 56, 45, 36,
     29, 23, 18, 15, 12]"

definition prio_to_wmult :: "u64 list" where
  "prio_to_wmult = [
     48356, 60446, 75558, 94446, 118058,
     147573, 184467, 230589, 288233, 360285,
     450347, 562979, 703631, 879575, 1099582,
     1374389, 1717986, 2147483, 2684354, 3355443,
     4194304,
     5244160, 6557201, 8196502, 10250518, 12782640,
     16025997, 19976592, 24970740, 31350126, 39045157,
     48806446, 61356675, 76695844, 95443717, 119304647,
     148102320, 186737708, 238609294, 286331153, 357913941]"

text \<open>Indexing a table of 41 entries; outside it the access is out of bounds.\<close>

definition table_at :: "u64 list \<Rightarrow> int \<Rightarrow> u64 option" where
  "table_at t i = (if 0 \<le> i \<and> i < int (length t) then Some (t ! nat i) else None)"

section \<open>Scaling by a ratio of weights\<close>

abbreviation WMULT_CONST :: u64 where "WMULT_CONST \<equiv> 4294967296"

definition RSR :: "u64 \<Rightarrow> nat \<Rightarrow> u64" where
  "RSR x y = drop_bit y (x + push_bit (y - 1) 1)"

text \<open>The cached inverse, computed on first use.\<close>

definition fill_inv :: "load_weight \<Rightarrow> load_weight" where
  "fill_inv lw =
     (if inv_weight lw = 0
      then lw\<lparr>inv_weight := (if weight lw \<ge> WMULT_CONST then 1
                            else if weight lw = 0 then WMULT_CONST
                            else WMULT_CONST div weight lw)\<rparr>
      else lw)"

text \<open>\<open>scale_by_weight\<close> also returns the load it was given, since it fills its inverse.\<close>

definition scale_by_weight :: "u64 \<Rightarrow> u64 \<Rightarrow> load_weight \<Rightarrow> u64 \<times> load_weight" where
  "scale_by_weight delta_exec w lw =
     (let tmp = delta_exec * w;
          lw = fill_inv lw;
          tmp = (if tmp > WMULT_CONST
                 then RSR (RSR tmp 16 * inv_weight lw) 16
                 else RSR (tmp * inv_weight lw) 32)
      in (min tmp 9223372036854775807, lw))"

lemma fill_inv_weight [simp]: "weight (fill_inv lw) = weight lw"
  by (simp add: fill_inv_def)

lemma fill_inv_inv: "0 < weight lw \<Longrightarrow> weight lw < WMULT_CONST \<Longrightarrow> inv_weight lw = 0 \<Longrightarrow>
    inv_weight (fill_inv lw) = WMULT_CONST div weight lw"
  by (auto simp: fill_inv_def not_le)

lemma scale_by_weight_load [simp]: "snd (scale_by_weight d w lw) = fill_inv lw"
  by (simp add: scale_by_weight_def Let_def)

section \<open>The scheduling period and its tunables\<close>

record tunables =
  sched_latency :: u64
  sched_min_granularity :: u64
  sched_nr_latency :: u32
  wakeup_granularity :: u64
  gentle_sleeper :: bool
  start_debit :: bool
  child_runs_first :: bool
  sched_scaling :: int
  sched_last :: bool
  sched_loadavg_period :: u64

definition default_tunables :: tunables where
  "default_tunables = \<lparr>sched_latency = 6000000, sched_min_granularity = 750000, sched_nr_latency = 8,
     wakeup_granularity = 650000, gentle_sleeper = False, start_debit = True, child_runs_first = False,
     sched_scaling = 2, sched_last = True, sched_loadavg_period = 10000000\<rparr>"

definition sched_period :: "tunables \<Rightarrow> u64 \<Rightarrow> u64" where
  "sched_period T nr_running =
     (if nr_running > ucast (sched_nr_latency T) then sched_min_granularity T * nr_running
      else sched_latency T)"

text \<open>
  The two handlers. \<open>val\<close> is the value \<open>sysctl_handle_long\<close> leaves in the \<open>int\<close> variable, None a
  read-only request; an \<open>int\<close> compared with or assigned to an \<open>unsigned long\<close> is sign-extended.
  The result None of \<open>set_nr_latency\<close> is the division by zero.
\<close>

definition set_nr_latency :: "tunables \<Rightarrow> tunables option" where
  "set_nr_latency T =
     (if sched_min_granularity T = 0 then None
      else Some (T\<lparr>sched_nr_latency :=
        ucast ((sched_latency T + sched_min_granularity T - 1) div sched_min_granularity T)\<rparr>))"

definition sysctl_sched_latency :: "u32 option \<Rightarrow> tunables \<Rightarrow> (errno + tunables) option" where
  "sysctl_sched_latency newval T =
     (case newval of None \<Rightarrow> Some (Inr T)
      | Some val \<Rightarrow>
          if (scast val :: u64) < sched_min_granularity T then Some (Inl EINVAL)
          else map_option Inr (set_nr_latency (T\<lparr>sched_latency := scast val\<rparr>)))"

definition sysctl_sched_min_granularity :: "u32 option \<Rightarrow> tunables \<Rightarrow> (errno + tunables) option" where
  "sysctl_sched_min_granularity newval T =
     (case newval of None \<Rightarrow> Some (Inr T)
      | Some val \<Rightarrow>
          if (scast val :: u64) > sched_latency T then Some (Inl EINVAL)
          else map_option Inr (set_nr_latency (T\<lparr>sched_min_granularity := scast val\<rparr>)))"

text \<open>\<open>fls\<close> is the position of the highest set bit, from 1; 0 for 0.\<close>

fun fls :: "nat \<Rightarrow> nat" where
  "fls n = (if n = 0 then 0 else Suc (fls (n div 2)))"

declare fls.simps [simp del]

definition pss_sched_init :: "int \<Rightarrow> nat \<Rightarrow> tunables \<Rightarrow> tunables" where
  "pss_sched_init scaling mp_ncpus T =
     (let T = T\<lparr>sched_scaling := scaling\<rparr>;
          factor = (if sched_scaling T = 0 then 1
                    else if sched_scaling T = 1 then int mp_ncpus
                    else 1 + (int (fls mp_ncpus) - 1))
      in T\<lparr>sched_latency := sched_latency T * word_of_int factor,
           sched_min_granularity := sched_min_granularity T * word_of_int factor\<rparr>)"

section \<open>What the scaling computes\<close>

lemma uint_64_mult: "uint x * uint y < 18446744073709551616 \<Longrightarrow> uint (x * y :: u64) = uint x * uint y"
  by (simp add: uint_word_ariths mod_pos_pos_trivial)

lemma uint_64_add: "uint x + uint y < 18446744073709551616 \<Longrightarrow> uint (x + y :: u64) = uint x + uint y"
  by (simp add: uint_word_ariths mod_pos_pos_trivial)

text \<open>In the lower branch nothing wraps, so the result is the rounded product with the inverse.\<close>

lemma scale_low_exact:
  assumes "uint d * uint w \<le> 4294967296" "0 < uint (inv_weight (fill_inv lw))" "uint (inv_weight (fill_inv lw)) < 4294967295"
  shows "uint (fst (scale_by_weight d w lw)) =
    (uint d * uint w * uint (inv_weight (fill_inv lw)) + 2147483648) div 4294967296"
proof -
  let ?i = "inv_weight (fill_inv lw)"
  have t: "uint (d * w) = uint d * uint w" using assms(1) by (intro uint_64_mult) simp
  have le: "uint d * uint w * uint ?i \<le> 4294967296 * 4294967294"
    using assms by (intro mult_mono) simp_all
  have p: "uint (d * w * ?i) = uint d * uint w * uint ?i"
    using le by (subst uint_64_mult) (simp_all add: t)
  have "uint (d * w * ?i + 2147483648) = uint d * uint w * uint ?i + 2147483648"
    using le by (subst uint_64_add) (simp_all add: p)
  then have r: "uint (RSR (d * w * ?i) 32) = (uint d * uint w * uint ?i + 2147483648) div 4294967296"
    by (simp add: RSR_def drop_bit_eq_div uint_div_distrib)
  have "\<not> d * w > WMULT_CONST" using t assms(1) by (simp add: word_less_def)
  moreover have "uint (RSR (d * w * ?i) 32) \<le> 9223372036854775807" using le unfolding r by linarith
  then have "min (RSR (d * w * ?i) 32) 9223372036854775807 = RSR (d * w * ?i) 32"
    by (simp add: min_def word_le_def)
  ultimately show ?thesis by (simp add: scale_by_weight_def Let_def r)
qed

text \<open>An inverse that is not yet computed, or the truncated quotient.\<close>

definition inv_ok :: "load_weight \<Rightarrow> bool" where
  "inv_ok lw \<longleftrightarrow> inv_weight lw = 0 \<or> inv_weight lw = WMULT_CONST div weight lw"

lemma inv_ok_fill:
  assumes "inv_ok lw" "0 < weight lw" "weight lw < WMULT_CONST"
  shows "inv_weight (fill_inv lw) = WMULT_CONST div weight lw"
proof (cases "inv_weight lw = 0")
  case True
  then show ?thesis using fill_inv_inv assms by blast
next
  case False
  then show ?thesis using assms(1) by (simp add: inv_ok_def fill_inv_def)
qed

lemma quotient_bounds:
  fixes n w r i :: int
  assumes w: "0 < w" and n: "0 \<le> n" "n \<le> 4294967296" and i: "i = 4294967296 div w"
    and r: "r = (n * i + 2147483648) div 4294967296"
  shows "r \<le> n div w + 1" "n div w \<le> r + 1"
proof -
  have iw: "i * w \<le> 4294967296" "4294967296 < i * w + w"
    unfolding i using w div_mult_mod_eq [of 4294967296 w] pos_mod_bound [OF w, of 4294967296] pos_mod_sign [OF w, of 4294967296]
    by linarith+
  have rb: "r * 4294967296 \<le> n * i + 2147483648" "n * i + 2147483648 < (r + 1) * 4294967296"
  proof -
    have "(n * i + 2147483648) mod 4294967296 < 4294967296" "0 \<le> (n * i + 2147483648) mod 4294967296"
      by simp_all
    then show "r * 4294967296 \<le> n * i + 2147483648" "n * i + 2147483648 < (r + 1) * 4294967296"
      using r div_mult_mod_eq [of "n * i + 2147483648" 4294967296] by (simp_all add: algebra_simps)
  qed
  have "(r - 1) * w * 4294967296 \<le> (n * i - 2147483648) * w"
    using rb(1) w mult_right_mono [of "(r - 1) * 4294967296" "n * i - 2147483648" w] by (simp add: algebra_simps)
  also have "\<dots> \<le> n * (i * w)" using w by (simp add: algebra_simps)
  also have "\<dots> \<le> n * 4294967296" using iw(1) n(1) by (rule mult_left_mono)
  finally have "(r - 1) * w \<le> n" by linarith
  then have "(r - 1) * w div w \<le> n div w" using w by (rule zdiv_mono1)
  then show "r \<le> n div w + 1" using w by simp
  show "n div w \<le> r + 1"
  proof (rule ccontr)
    assume "\<not> n div w \<le> r + 1"
    then have q: "r + 2 \<le> n div w" by simp
    have qw: "(n div w) * w \<le> n" using w div_mult_mod_eq [of n w] pos_mod_sign [OF w, of n] by linarith
    have ge: "(r + 2) * w \<le> n"
      using mult_right_mono [OF q, of w] w qw by linarith
    have "0 \<le> i" using i w by (simp add: pos_imp_zdiv_nonneg_iff)
    with ge have "(r + 2) * w * i \<le> n * i" by (rule mult_right_mono)
    moreover
    have rr: "0 \<le> r" using r n \<open>0 \<le> i\<close> by (simp add: pos_imp_zdiv_nonneg_iff)
    have "(r + 2) * (4294967296 - w) \<le> (r + 2) * (i * w)"
      using iw(2) rr by (intro mult_left_mono) simp_all
    ultimately have "(r + 2) * 4294967296 - (r + 2) * w \<le> n * i" by (simp add: algebra_simps)
    then have "(r + 2) * 4294967296 - n \<le> n * i" using ge by simp
    then show False using n(2) rb(2) by (simp add: algebra_simps)
  qed
qed

lemma scale_by_weight_accurate:
  assumes "uint d * uint w \<le> 4294967296" "inv_ok lw" "1 < weight lw" "weight lw < WMULT_CONST"
  defines "r \<equiv> uint (fst (scale_by_weight d w lw))" and "q \<equiv> uint d * uint w div uint (weight lw)"
  shows "r \<le> q + 1" "q \<le> r + 1"
proof -
  let ?i = "inv_weight (fill_inv lw)"
  have w: "1 < uint (weight lw)" "uint (weight lw) < 4294967296"
    using assms(3,4) by (simp_all add: word_less_def)
  then have "?i = WMULT_CONST div weight lw"
    using assms(2-4) by (intro inv_ok_fill) (simp_all add: word_less_def)
  then have i: "uint ?i = 4294967296 div uint (weight lw)" by (simp add: uint_div_distrib)
  have "4294967296 div uint (weight lw) \<le> 4294967296 div 2"
    using w(1) by (intro zdiv_mono2) simp_all
  then have ib: "0 < uint ?i" "uint ?i < 4294967295"
    unfolding i using w by (simp_all add: pos_imp_zdiv_pos_iff)
  have r: "r = (uint d * uint w * uint ?i + 2147483648) div 4294967296"
    unfolding r_def using scale_low_exact [OF assms(1) ib] .
  show "r \<le> q + 1" "q \<le> r + 1"
    unfolding q_def using quotient_bounds [OF _ _ assms(1) i r] w(1) by simp_all
qed

text \<open>The two tables agree, and a nicer process weighs less.\<close>

lemma prio_tables:
  "length prio_to_weight = 41" "length prio_to_wmult = 41"
  "prio_to_wmult = map (\<lambda>w. WMULT_CONST div w) prio_to_weight"
  "sorted_wrt (>) prio_to_weight" "IDLEPRIO_WMULT = WMULT_CONST div IDLEPRIO_WEIGHT"
  by code_simp+

section \<open>The tunables\<close>

definition tunables_ok :: "tunables \<Rightarrow> bool" where
  "tunables_ok T \<longleftrightarrow> 0 < sched_min_granularity T \<and> sched_min_granularity T \<le> sched_latency T \<and>
     sched_nr_latency T = ucast ((sched_latency T + sched_min_granularity T - 1) div sched_min_granularity T)"

lemma default_tunables_ok: "tunables_ok default_tunables"
  by code_simp

lemma sysctl_sched_latency_cases:
  assumes "tunables_ok T"
  shows "sysctl_sched_latency None T = Some (Inr T)"
    "(scast v :: u64) < sched_min_granularity T \<Longrightarrow> sysctl_sched_latency (Some v) T = Some (Inl EINVAL)"
    "sched_min_granularity T \<le> (scast v :: u64) \<Longrightarrow>
       \<exists>T'. sysctl_sched_latency (Some v) T = Some (Inr T') \<and> sched_latency T' = scast v \<and> tunables_ok T'"
  using assms by (auto simp: sysctl_sched_latency_def set_nr_latency_def tunables_ok_def)

lemma sysctl_sched_min_granularity_cases:
  assumes "tunables_ok T"
  shows "sysctl_sched_min_granularity None T = Some (Inr T)"
    "sched_latency T < (scast v :: u64) \<Longrightarrow> sysctl_sched_min_granularity (Some v) T = Some (Inl EINVAL)"
    "0 < (scast v :: u64) \<Longrightarrow> (scast v :: u64) \<le> sched_latency T \<Longrightarrow>
       \<exists>T'. sysctl_sched_min_granularity (Some v) T = Some (Inr T') \<and> sched_min_granularity T' = scast v \<and>
            tunables_ok T'"
    "sysctl_sched_min_granularity (Some 0) T = None"
  using assms
  by (auto simp: sysctl_sched_min_granularity_def set_nr_latency_def tunables_ok_def not_less word_le_def)

end
