(* ===== verification/Sched_Time.thy ===== *)
theory Sched_Time
  imports Prelude
begin

text \<open>
  \<open>sched_time.c\<close>: the scheduler's clock. Between two ticks it follows the cpu's tick counter,
  clamped to the interval of one tick after the last reading of the system uptime; it must not
  run backwards when the counter does. The readings of \<open>cpu_ticks()\<close> and \<open>nanouptime()\<close> are
  parameters: functions of the number of readings taken so far. On this 64-bit build the updates
  of \<open>time\<close> are one atomic compare-and-set; a run without a concurrent writer takes it at once.
\<close>

section \<open>Wrap-around minimum and maximum (\<open>sched.h\<close>)\<close>

definition wrap_min_64 :: "u64 \<Rightarrow> u64 \<Rightarrow> u64" where
  "wrap_min_64 x y = (if sint (x - y) < 0 then x else y)"

definition wrap_max_64 :: "u64 \<Rightarrow> u64 \<Rightarrow> u64" where
  "wrap_max_64 x y = (if 0 < sint (x - y) then x else y)"

lemma wrap_max_64_window:
  assumes "in_window b x" "in_window b y"
  shows "in_window b (wrap_max_64 x y)" "win_dist b (wrap_max_64 x y) = max (win_dist b x) (win_dist b y)"
  using assms by (auto simp: wrap_max_64_def wrap_greater_window)

lemma wrap_min_64_window:
  assumes "in_window b x" "in_window b y"
  shows "in_window b (wrap_min_64 x y)" "win_dist b (wrap_min_64 x y) = min (win_dist b x) (win_dist b y)"
  using assms by (auto simp: wrap_min_64_def wrap_less_window)

section \<open>Time specifications (\<open>sched.h\<close>)\<close>

text \<open>\<open>struct timespec\<close> on LP64: both fields are signed 64-bit.\<close>

record timespec =
  tv_sec :: int
  tv_nsec :: int

definition timespec_to_ns :: "timespec \<Rightarrow> u64" where
  "timespec_to_ns ts = word_of_int (tv_sec ts) * 1000000000 + word_of_int (tv_nsec ts)"

definition ns_to_timespec :: "u64 \<Rightarrow> timespec" where
  "ns_to_timespec ns = \<lparr>tv_sec = uint (ns div 1000000000), tv_nsec = uint (ns mod 1000000000)\<rparr>"

lemma timespec_roundtrip: "timespec_to_ns (ns_to_timespec ns) = ns"
proof -
  have "word_of_int (uint (ns div 1000000000) * 1000000000 + uint (ns mod 1000000000)) = ns"
    by (simp add: uint_div_distrib uint_mod_distrib)
  then show ?thesis by (simp add: timespec_to_ns_def ns_to_timespec_def)
qed

lemma ns_to_timespec_range: "0 \<le> tv_nsec (ns_to_timespec ns)" "tv_nsec (ns_to_timespec ns) < 1000000000"
  "0 \<le> tv_sec (ns_to_timespec ns)"
  by (simp_all add: ns_to_timespec_def uint_mod_distrib uint_div_distrib pos_imp_zdiv_nonneg_iff)

section \<open>State\<close>

record sched_time_data =
  tick_cpu_time :: u64
  tick_sys_time :: u64
  st_time :: u64

record time_state =
  cpu_time_stable :: bool
  st_tick_ns :: u64
  sched_time_running :: bool
  cputick2nsec_scale :: u64
  timedata :: "nat \<Rightarrow> sched_time_data"
  st_cpuid :: nat
  st_reads :: nat

text \<open>The clocks outside: the tick counter and the uptime at the n-th reading.\<close>

record clocks =
  cpu_ticks :: "nat \<Rightarrow> u64"
  nanouptime :: "nat \<Rightarrow> timespec"
  cpu_tickrate :: u64
  hz :: int

section \<open>Operations\<close>

text \<open>The division is by zero, and the kernel traps, below one megahertz.\<close>

definition set_cputick2nsec_scale :: "u64 \<Rightarrow> time_state \<Rightarrow> time_state option" where
  "set_cputick2nsec_scale cpu_mhz s =
     (if cpu_mhz = 0 then None
      else Some (let scale = push_bit 10 1000 div cpu_mhz
                 in if scale \<noteq> cputick2nsec_scale s then s\<lparr>cputick2nsec_scale := scale\<rparr> else s))"

definition cputick2nsec :: "u64 \<Rightarrow> time_state \<Rightarrow> u64" where
  "cputick2nsec cputicks s = drop_bit 10 (cputicks * cputick2nsec_scale s)"

definition freq_changed :: "clocks \<Rightarrow> time_state \<Rightarrow> time_state option" where
  "freq_changed C s = set_cputick2nsec_scale (cpu_tickrate C div 1000000) s"

definition cputime_ns :: "clocks \<Rightarrow> time_state \<Rightarrow> u64 \<times> time_state" where
  "cputime_ns C s = (cputick2nsec (cpu_ticks C (st_reads s)) s, s\<lparr>st_reads := Suc (st_reads s)\<rparr>)"

definition systime_ns :: "clocks \<Rightarrow> time_state \<Rightarrow> u64 \<times> time_state" where
  "systime_ns C s = (timespec_to_ns (nanouptime C (st_reads s)), s\<lparr>st_reads := Suc (st_reads s)\<rparr>)"

definition set_timedata :: "nat \<Rightarrow> sched_time_data \<Rightarrow> time_state \<Rightarrow> time_state" where
  "set_timedata cpu d s = s\<lparr>timedata := (timedata s)(cpu := d)\<rparr>"

text \<open>\<open>cpus\<close> lists the processors of \<open>CPU_FOREACH\<close>.\<close>

definition sched_time_init :: "clocks \<Rightarrow> nat list \<Rightarrow> time_state \<Rightarrow> time_state option" where
  "sched_time_init C cpus s =
     (let s = s\<lparr>sched_time_running := True, st_tick_ns := word_of_int (1000000000 div hz C)\<rparr>
      in case set_cputick2nsec_scale (cpu_tickrate C div 1000000) s of
           None \<Rightarrow> None
         | Some s \<Rightarrow>
             (let (sys_now, s) = systime_ns C s
              in Some (fold (\<lambda>cpu s. set_timedata cpu
                   \<lparr>tick_cpu_time = 0, tick_sys_time = sys_now, st_time = sys_now\<rparr> s) cpus s)))"

text \<open>The value \<open>sched_time_local\<close> computes from the counter reading \<open>now\<close>.\<close>

definition local_value :: "u64 \<Rightarrow> u64 \<Rightarrow> sched_time_data \<Rightarrow> u64" where
  "local_value tickns now data =
     (let delta = now - tick_cpu_time data;
          delta = (if sint delta < 0 then 0 else delta);
          old_time = st_time data;
          time = tick_sys_time data + delta;
          min_time = wrap_max_64 (tick_sys_time data) old_time;
          max_time = wrap_max_64 old_time (tick_sys_time data + tickns);
          time = wrap_max_64 time min_time
      in wrap_min_64 time max_time)"

definition sched_time_local :: "clocks \<Rightarrow> nat \<Rightarrow> time_state \<Rightarrow> u64 \<times> time_state" where
  "sched_time_local C cpu s =
     (let (now, s) = cputime_ns C s;
          data = timedata s cpu;
          time = local_value (st_tick_ns s) now data
      in (time, set_timedata cpu (data\<lparr>st_time := time\<rparr>) s))"

definition sched_time_remote :: "clocks \<Rightarrow> nat \<Rightarrow> time_state \<Rightarrow> u64 \<times> time_state" where
  "sched_time_remote C remote s =
     (let local = st_cpuid s;
          (t, s) = sched_time_local C local s;
          local_time = st_time (timedata s local);
          remote_time = st_time (timedata s remote)
      in if sint (remote_time - local_time) < 0
         then (local_time, set_timedata remote ((timedata s remote)\<lparr>st_time := local_time\<rparr>) s)
         else (remote_time, set_timedata local ((timedata s local)\<lparr>st_time := remote_time\<rparr>) s))"

definition sched_time_cpu :: "clocks \<Rightarrow> nat \<Rightarrow> time_state \<Rightarrow> u64 \<times> time_state" where
  "sched_time_cpu C cpu s =
     (if cpu_time_stable s then cputime_ns C s
      else if \<not> sched_time_running s then (0, s)
      else if cpu \<noteq> st_cpuid s then sched_time_remote C cpu s
      else sched_time_local C cpu s)"

definition sched_time_tick :: "clocks \<Rightarrow> time_state \<Rightarrow> time_state" where
  "sched_time_tick C s =
     (if cpu_time_stable s then s
      else if \<not> sched_time_running s then s
      else let local = st_cpuid s;
               (sys_now, s) = systime_ns C s;
               (cpu_now, s) = cputime_ns C s;
               s = set_timedata local ((timedata s local)\<lparr>tick_cpu_time := cpu_now, tick_sys_time := sys_now\<rparr>) s;
               (t, s) = sched_time_local C local s
           in s)"

section \<open>The clock does not run backwards\<close>

text \<open>
  On a window that holds the old time, the system time of the last tick, the end of that tick
  and the counter's extrapolation, the new value is not before the old one, and it is not after
  the end of the tick unless the old one already was.
\<close>

definition clock_window :: "u64 \<Rightarrow> u64 \<Rightarrow> u64 \<Rightarrow> sched_time_data \<Rightarrow> bool" where
  "clock_window b tickns now d \<longleftrightarrow>
     in_window b (st_time d) \<and> in_window b (tick_sys_time d) \<and> in_window b (tick_sys_time d + tickns) \<and>
     in_window b (tick_sys_time d + (if sint (now - tick_cpu_time d) < 0 then 0 else now - tick_cpu_time d))"

lemma local_value_window:
  assumes "clock_window b tickns now d"
  shows "win_dist b (local_value tickns now d) =
    min (max (win_dist b (tick_sys_time d +
               (if sint (now - tick_cpu_time d) < 0 then 0 else now - tick_cpu_time d)))
             (max (win_dist b (tick_sys_time d)) (win_dist b (st_time d))))
        (max (win_dist b (st_time d)) (win_dist b (tick_sys_time d + tickns)))"
  and "in_window b (local_value tickns now d)"
  using assms unfolding clock_window_def local_value_def Let_def
  by (simp_all add: wrap_max_64_window wrap_min_64_window)

lemma local_value_mono:
  assumes "clock_window b tickns now d"
  shows "win_dist b (st_time d) \<le> win_dist b (local_value tickns now d)"
    "win_dist b (local_value tickns now d) \<le> max (win_dist b (st_time d)) (win_dist b (tick_sys_time d + tickns))"
  by (simp_all add: local_value_window [OF assms])

lemma sched_time_local_eq:
  "sched_time_local C cpu s =
     (let time = local_value (st_tick_ns s) (cputick2nsec (cpu_ticks C (st_reads s)) s) (timedata s cpu)
      in (time, set_timedata cpu ((timedata s cpu)\<lparr>st_time := time\<rparr>) (s\<lparr>st_reads := Suc (st_reads s)\<rparr>)))"
  by (simp add: sched_time_local_def cputime_ns_def Let_def)

lemma set_timedata_simps [simp]:
  "timedata (set_timedata cpu d s) = (timedata s)(cpu := d)"
  "st_cpuid (set_timedata cpu d s) = st_cpuid s" "st_tick_ns (set_timedata cpu d s) = st_tick_ns s"
  "st_reads (set_timedata cpu d s) = st_reads s"
  "sched_time_running (set_timedata cpu d s) = sched_time_running s"
  "cpu_time_stable (set_timedata cpu d s) = cpu_time_stable s"
  by (simp_all add: set_timedata_def)

end
