(* ===== verification/Cpupri.thy ===== *)
theory Cpupri
  imports Prelude
begin

text \<open>
  \<open>cpupri.c\<close>: the priority at which each processor runs, with the set of processors for each
  level. \<open>mx\<close> is \<open>MAX_RT_PRI\<close> and \<open>idle\<close> is \<open>IDLE_PRI\<close>; the array of levels has
  \<open>CPUPRI_NR = mx + 3\<close> entries, and an access outside it is None. The atomic operations are plain
  ones on the one processor of this build; a set of processors is a set of numbers.
\<close>

record cpupri_vec =
  vec_count :: int
  vec_mask :: "nat set"

record cpupri =
  pri_to_cpu :: "int \<Rightarrow> cpupri_vec"
  cpu_to_pri :: "nat \<Rightarrow> int"

abbreviation CPUPRI_INVALID :: int where "CPUPRI_INVALID \<equiv> - 1"
abbreviation INVALID_PRI :: int where "INVALID_PRI \<equiv> - 1"

definition CPUPRI_NR :: "int \<Rightarrow> int" where
  "CPUPRI_NR mx = mx + 1 + 1 + 1"

definition convert_pri :: "int \<Rightarrow> int \<Rightarrow> int \<Rightarrow> int" where
  "convert_pri mx idle pri =
     (if pri = idle then 0
      else if pri = INVALID_PRI then CPUPRI_INVALID
      else if pri > mx then 1
      else (pri - mx) + 2)"

definition level_ok :: "int \<Rightarrow> int \<Rightarrow> bool" where
  "level_ok mx l \<longleftrightarrow> 0 \<le> l \<and> l < CPUPRI_NR mx"

text \<open>\<open>result\<close> is copied only when the caller passes a set; the outcome and that set are returned.\<close>

fun cpupri_search :: "nat \<Rightarrow> int \<Rightarrow> cpupri \<Rightarrow> nat set \<Rightarrow> nat set option \<Rightarrow> bool \<times> nat set option" where
  "cpupri_search 0 i cp allowed result = (False, result)"
| "cpupri_search (Suc n) i cp allowed result =
     (let vec = pri_to_cpu cp i in
      if vec_count vec = 0 \<or> allowed \<inter> vec_mask vec = {} then cpupri_search n (i + 1) cp allowed result
      else case result of
             None \<Rightarrow> (True, None)
           | Some r \<Rightarrow>
               (let r = vec_mask vec \<inter> allowed in
                if r = {} then cpupri_search n (i + 1) cp allowed (Some r) else (True, Some r)))"

definition cpupri_find :: "int \<Rightarrow> int \<Rightarrow> cpupri \<Rightarrow> int \<Rightarrow> nat set \<Rightarrow> nat set option \<Rightarrow> (bool \<times> nat set option) option" where
  "cpupri_find mx idle cp prio allowed result =
     (let pri = convert_pri mx idle prio in
      if pri < CPUPRI_NR mx then Some (cpupri_search (nat pri) 0 cp allowed result) else None)"

definition vec_enter :: "nat \<Rightarrow> cpupri_vec \<Rightarrow> cpupri_vec" where
  "vec_enter cpu v = \<lparr>vec_count = vec_count v + 1, vec_mask = insert cpu (vec_mask v)\<rparr>"

definition vec_leave :: "nat \<Rightarrow> cpupri_vec \<Rightarrow> cpupri_vec" where
  "vec_leave cpu v = \<lparr>vec_count = vec_count v - 1, vec_mask = vec_mask v - {cpu}\<rparr>"

definition upd_level :: "int \<Rightarrow> (cpupri_vec \<Rightarrow> cpupri_vec) \<Rightarrow> int \<Rightarrow> cpupri \<Rightarrow> cpupri option" where
  "upd_level mx f l cp =
     (if level_ok mx l then Some (cp\<lparr>pri_to_cpu := (pri_to_cpu cp)(l := f (pri_to_cpu cp l))\<rparr>) else None)"

definition cpupri_set :: "int \<Rightarrow> int \<Rightarrow> nat \<Rightarrow> int \<Rightarrow> cpupri \<Rightarrow> cpupri option" where
  "cpupri_set mx idle cpu prio cp = do {
     let oldpri = cpu_to_pri cp cpu;
     let newpri = convert_pri mx idle prio;
     (if newpri < CPUPRI_NR mx then Some () else None);
     cp \<leftarrow> (if newpri \<noteq> CPUPRI_INVALID then upd_level mx (vec_enter cpu) newpri cp else Some cp);
     cp \<leftarrow> (if oldpri \<noteq> CPUPRI_INVALID then upd_level mx (vec_leave cpu) oldpri cp else Some cp);
     Some (cp\<lparr>cpu_to_pri := (cpu_to_pri cp)(cpu := newpri)\<rparr>) }"

definition cpupri_init :: "nat list \<Rightarrow> cpupri" where
  "cpupri_init cpus =
     \<lparr>pri_to_cpu = (\<lambda>l. \<lparr>vec_count = 0, vec_mask = {}\<rparr>),
      cpu_to_pri = (\<lambda>c. if c \<in> set cpus then CPUPRI_INVALID else 0)\<rparr>"

section \<open>Consistency of the two views\<close>

text \<open>Each processor is counted and masked at exactly its level.\<close>

definition cpupri_inv :: "int \<Rightarrow> nat list \<Rightarrow> cpupri \<Rightarrow> bool" where
  "cpupri_inv mx cpus cp \<longleftrightarrow> distinct cpus \<and>
     (\<forall>c\<in>set cpus. cpu_to_pri cp c = CPUPRI_INVALID \<or> level_ok mx (cpu_to_pri cp c)) \<and>
     (\<forall>l. vec_mask (pri_to_cpu cp l) = {c \<in> set cpus. cpu_to_pri cp c = l \<and> l \<noteq> CPUPRI_INVALID} \<and>
          vec_count (pri_to_cpu cp l) = int (card (vec_mask (pri_to_cpu cp l))))"

lemma cpupri_init_inv: "distinct cpus \<Longrightarrow> cpupri_inv mx cpus (cpupri_init cpus)"
  by (auto simp: cpupri_inv_def cpupri_init_def)

lemma cpupri_maskD: "cpupri_inv mx cpus cp \<Longrightarrow>
    vec_mask (pri_to_cpu cp l) = {c \<in> set cpus. cpu_to_pri cp c = l \<and> l \<noteq> CPUPRI_INVALID}"
  by (simp add: cpupri_inv_def)

lemma cpupri_finite: "cpupri_inv mx cpus cp \<Longrightarrow> finite (vec_mask (pri_to_cpu cp l))"
  by (simp add: cpupri_maskD)

text \<open>A change to a level other than the present one keeps the views consistent.\<close>

lemma cpupri_set_ok:
  assumes inv: "cpupri_inv mx cpus cp" and c: "cpu \<in> set cpus"
    and lev: "level_ok mx (convert_pri mx idle prio)" and diff: "convert_pri mx idle prio \<noteq> cpu_to_pri cp cpu"
  shows "\<exists>cp'. cpupri_set mx idle cpu prio cp = Some cp' \<and> cpupri_inv mx cpus cp' \<and>
    cpu_to_pri cp' = (cpu_to_pri cp)(cpu := convert_pri mx idle prio)"
proof -
  let ?new = "convert_pri mx idle prio" and ?old = "cpu_to_pri cp cpu"
  note m = cpupri_maskD [OF inv] and fin = cpupri_finite [OF inv]
  have new: "?new \<noteq> CPUPRI_INVALID" "?new < CPUPRI_NR mx" using lev by (auto simp: level_ok_def)
  have old: "?old \<noteq> CPUPRI_INVALID \<Longrightarrow> level_ok mx ?old" using inv c by (auto simp: cpupri_inv_def)
  define v where "v = (\<lambda>l. if l = ?new then vec_enter cpu (pri_to_cpu cp l)
      else if l = ?old \<and> ?old \<noteq> CPUPRI_INVALID then vec_leave cpu (pri_to_cpu cp l) else pri_to_cpu cp l)"
  define cp' where "cp' = cp\<lparr>pri_to_cpu := v, cpu_to_pri := (cpu_to_pri cp)(cpu := ?new)\<rparr>"
  have "cpupri_set mx idle cpu prio cp = Some cp'"
    using new old lev diff
    by (auto simp: cpupri_set_def upd_level_def cp'_def v_def fun_eq_iff Let_def intro!: cpupri.equality)
  moreover have "vec_mask (v l) = {c \<in> set cpus. cpu_to_pri cp' c = l \<and> l \<noteq> CPUPRI_INVALID}" for l
    using c new diff by (auto simp: v_def cp'_def vec_enter_def vec_leave_def m)
  moreover have "vec_count (v l) = int (card (vec_mask (v l)))" for l
  proof -
    have n: "vec_count (pri_to_cpu cp l) = int (card (vec_mask (pri_to_cpu cp l)))"
      using inv by (simp add: cpupri_inv_def)
    have "cpu \<notin> vec_mask (pri_to_cpu cp ?new)" using diff by (auto simp: m)
    moreover have "l = ?old \<Longrightarrow> ?old \<noteq> CPUPRI_INVALID \<Longrightarrow> cpu \<in> vec_mask (pri_to_cpu cp l)" using c by (auto simp: m)
    moreover have "cpu \<in> vec_mask (pri_to_cpu cp l) \<Longrightarrow> 0 < card (vec_mask (pri_to_cpu cp l))"
      using fin by (auto simp: card_gt_0_iff)
    ultimately show ?thesis
      using n fin [of l] by (auto simp: v_def vec_enter_def vec_leave_def)
  qed
  ultimately show ?thesis
    using inv lev by (intro exI [of _ cp']) (auto simp: cpupri_inv_def cp'_def)
qed

text \<open>Setting the level a processor already has drops it from the mask while the count keeps it.\<close>

lemma cpupri_set_again:
  assumes inv: "cpupri_inv mx cpus cp" and c: "cpu \<in> set cpus"
    and lev: "level_ok mx (convert_pri mx idle prio)" and same: "convert_pri mx idle prio = cpu_to_pri cp cpu"
  shows "\<exists>cp'. cpupri_set mx idle cpu prio cp = Some cp' \<and> cpu_to_pri cp' = cpu_to_pri cp \<and>
    vec_count (pri_to_cpu cp' (cpu_to_pri cp cpu)) = vec_count (pri_to_cpu cp (cpu_to_pri cp cpu)) \<and>
    cpu \<in> vec_mask (pri_to_cpu cp (cpu_to_pri cp cpu)) \<and> cpu \<notin> vec_mask (pri_to_cpu cp' (cpu_to_pri cp cpu))"
proof -
  let ?new = "convert_pri mx idle prio"
  have new: "?new \<noteq> CPUPRI_INVALID" "?new < CPUPRI_NR mx" using lev by (auto simp: level_ok_def)
  then show ?thesis
    using lev same c cpupri_maskD [OF inv, of ?new]
    by (auto simp: cpupri_set_def upd_level_def Let_def vec_enter_def vec_leave_def)
qed

text \<open>Real-time priorities below \<open>MAX_RT_PRI - 2\<close> index before the array.\<close>

lemma convert_pri_range:
  assumes "mx < idle"
  shows "mx - 2 \<le> prio \<Longrightarrow> prio \<noteq> INVALID_PRI \<Longrightarrow> 0 \<le> mx \<Longrightarrow> level_ok mx (convert_pri mx idle prio)"
    "0 \<le> prio \<Longrightarrow> prio < mx - 3 \<Longrightarrow> cpupri_set mx idle cpu prio cp = None"
  using assms by (auto simp: convert_pri_def level_ok_def CPUPRI_NR_def cpupri_set_def upd_level_def Let_def)

text \<open>A search finds a level below the one asked for, with an allowed processor.\<close>

lemma cpupri_search_found:
  "fst (cpupri_search n i cp allowed result) \<longleftrightarrow>
    (\<exists>k<n. vec_count (pri_to_cpu cp (i + int k)) \<noteq> 0 \<and> allowed \<inter> vec_mask (pri_to_cpu cp (i + int k)) \<noteq> {})"
proof (induction n arbitrary: i result)
  case 0
  then show ?case by simp
next
  case (Suc n)
  have ex: "(\<exists>k<Suc n. P k) \<longleftrightarrow> P 0 \<or> (\<exists>k<n. P (Suc k))" for P by (auto simp: less_Suc_eq_0_disj)
  have sh: "i + 1 + int k = i + int (Suc k)" for k by simp
  show ?case
    unfolding ex using Suc.IH [of "i + 1"] unfolding sh
    by (auto simp: Let_def Int_commute split: option.splits)
qed

text \<open>So it finds one exactly when an allowed processor runs at a lower level.\<close>

lemma cpupri_find_ok:
  assumes inv: "cpupri_inv mx cpus cp" and p: "convert_pri mx idle prio < CPUPRI_NR mx"
  shows "\<exists>b r. cpupri_find mx idle cp prio allowed result = Some (b, r) \<and>
    (b \<longleftrightarrow> (\<exists>c\<in>set cpus. c \<in> allowed \<and> cpu_to_pri cp c \<noteq> CPUPRI_INVALID \<and> cpu_to_pri cp c < convert_pri mx idle prio))"
proof -
  let ?n = "nat (convert_pri mx idle prio)"
  obtain b r where br: "cpupri_search ?n 0 cp allowed result = (b, r)" by fastforce
  have count: "vec_count (pri_to_cpu cp l) \<noteq> 0 \<longleftrightarrow> vec_mask (pri_to_cpu cp l) \<noteq> {}" for l
    using inv cpupri_finite [OF inv, of l] by (simp add: cpupri_inv_def)
  have "b \<longleftrightarrow> (\<exists>k<?n. allowed \<inter> vec_mask (pri_to_cpu cp (int k)) \<noteq> {})"
    using cpupri_search_found [of ?n 0 cp allowed result] br count by auto
  also have "\<dots> \<longleftrightarrow> (\<exists>c\<in>set cpus. c \<in> allowed \<and> cpu_to_pri cp c \<noteq> CPUPRI_INVALID \<and> cpu_to_pri cp c < convert_pri mx idle prio)"
    (is "?L \<longleftrightarrow> ?R")
  proof
    assume ?L
    then show ?R by (fastforce simp: cpupri_maskD [OF inv])
  next
    assume ?R
    then obtain c where c: "c \<in> set cpus" "c \<in> allowed" "cpu_to_pri cp c \<noteq> CPUPRI_INVALID"
      "cpu_to_pri cp c < convert_pri mx idle prio" by blast
    have l: "0 \<le> cpu_to_pri cp c" using inv c(1,3) by (auto simp: cpupri_inv_def level_ok_def)
    then have "c \<in> allowed \<inter> vec_mask (pri_to_cpu cp (int (nat (cpu_to_pri cp c))))"
      using c by (simp add: cpupri_maskD [OF inv])
    moreover have "nat (cpu_to_pri cp c) < ?n" using c(4) l by simp
    ultimately show ?L by blast
  qed
  finally show ?thesis using br p by (simp add: cpupri_find_def Let_def)
qed

end
