(* ===== verification/Sched_State.thy ===== *)
theory Sched_State
  imports Timeline Weight Sched_Time Cpupri
begin

text \<open>
  The data of \<open>sched.h\<close>: scheduling entities, queues, groups, threads and the run queue of the one
  processor of this build, and the store that holds them. Pointers are addresses: an entity is
  embedded in a thread (\<open>TD_SE\<close>) or comes from the entity zone, a queue is the root queue inside
  the \<open>rq\<close> or comes from the queue zone. The \<open>RB_ENTRY\<close> fields of all entities form one link
  store, and each queue holds the root of its timeline in it.
\<close>

section \<open>Addresses and enumerations\<close>

type_synonym tid = nat

datatype eid = TD_SE tid | ZONE_SE nat
datatype qid = RQ_SFQ | ZONE_SFQ nat
datatype gid = ROOT_GROUP | ZONE_GROUP nat

text \<open>The class objects, in the order of their \<open>next\<close> pointers.\<close>

datatype sched_class = realtime_class | pss_class | idle_class

fun class_next :: "sched_class \<Rightarrow> sched_class option" where
  "class_next realtime_class = Some pss_class"
| "class_next pss_class = Some idle_class"
| "class_next idle_class = None"

datatype td_state = TDS_INACTIVE | TDS_INHIBITED | TDS_CAN_RUN | TDS_RUNQ | TDS_RUNNING

section \<open>Records\<close>

record sched_entity =
  onsfq :: bool
  onrunq :: bool
  vruntime :: u64
  timing_start :: u64
  sum_exec_time :: u64
  prev_sum_exec_time :: u64
  se_initial :: bool
  joined :: bool
  se_load :: load_weight
  se_parent :: "eid option"
  se_sfq :: "qid option"
  my_q :: "qid option"

record sfq =
  tl_root :: "eid option"
  leftmost :: "eid option"
  curr :: "eid option"
  skip :: "eid option"
  sfq_next :: "eid option"
  sfq_last :: "eid option"
  vtime :: u64
  nr_running :: int
  sfq_load :: load_weight
  sfq_group :: "gid option"
  on_leaf_list :: bool

record sched_group =
  sg_id :: int
  sg_name :: string
  sg_se :: "eid option"
  sg_sfq :: "qid option"
  sg_shares :: u64
  sg_parent :: "gid option"
  sg_children :: "gid list"
  sg_threads :: "tid list"

record thread =
  td_priority :: int
  td_base_pri :: int
  td_user_pri :: int
  td_base_user_pri :: int
  td_lend_user_pri :: int
  td_pri_class :: u8
  td_state :: td_state
  td_needresched :: bool
  td_sliceend :: bool
  td_borrowing :: bool
  td_noload :: bool
  td_idletd :: bool
  td_canswap :: bool
  td_suspended :: bool
  td_on_lock :: bool
  td_owepreempt :: bool
  td_oncpu :: bool
  td_slptick :: u32
  p_nice :: int
  td_class :: sched_class
  td_group :: "gid option"
  ts_bound :: bool
  td_pinned :: int
  ts_ticks :: u32
  ts_ltick :: u32
  ts_ftick :: u32
  ts_cpu :: nat

record 'q rq =
  rq_nr_running :: int
  rq_nr_sysrunning :: int
  realtime :: 'q
  rt_curr :: "eid option"
  rq_load :: load_weight
  rq_clock :: u64
  clock_thread :: u64
  switchcnt :: int
  leaf_sfq_list :: "qid list"
  cpu_load :: "u64 list"
  last_cpu_load_tick :: u64

record 'q sched =
  threads :: "tid \<Rightarrow> thread"
  ents :: "eid \<Rightarrow> sched_entity"
  tlinks :: "eid \<Rightarrow> eid rb_entry"
  sfqs :: "qid \<Rightarrow> sfq"
  groups :: "gid \<Rightarrow> sched_group"
  rq :: "'q rq"
  curthread :: tid
  tun :: tunables
  times :: time_state
  ticks :: u32
  all_sched_groups :: "gid list"
  root_cpupri :: cpupri

text \<open>
  The kernel around the scheduler: priority bands and class numbers of \<open>sys/priority.h\<close>, switch
  flags of \<open>sys/proc.h\<close>, the run queue of \<open>sys/runq.h\<close> (whose insertion reads the priority of the
  thread), the idle thread, and the clocks.
\<close>

record 'q kern =
  PUSER :: int
  PRI_MAX :: int
  PRI_MIN_KERN :: int
  PRI_MIN_TIMESHARE :: int
  PRI_MAX_TIMESHARE :: int
  PZERO :: int
  PSOCK :: int
  prio_boost :: int
  FSHIFT :: nat
  PRI_ITHD :: u8
  PRI_REALTIME :: u8
  PRI_TIMESHARE :: u8
  PRI_IDLE :: u8
  PRI_FIFO_BIT :: u8
  PRIO_MIN :: int
  SW_TYPE_MASK :: u32
  SWT_RELINQUISH :: u32
  SWT_PREEMPT :: u32
  runq_add :: "'q \<Rightarrow> tid \<Rightarrow> int \<Rightarrow> bool \<Rightarrow> 'q"
  runq_remove :: "'q \<Rightarrow> tid \<Rightarrow> 'q"
  runq_choose :: "'q \<Rightarrow> tid option"
  runq_init :: 'q
  idlethread :: tid
  cold_boot :: bool
  clks :: clocks

definition NORMAL_PRI :: "'q kern \<Rightarrow> int" where
  "NORMAL_PRI K = PUSER K + 1"

definition MAX_RT_PRI :: "'q kern \<Rightarrow> int" where
  "MAX_RT_PRI K = PUSER K"

definition IDLE_PRI :: "'q kern \<Rightarrow> int" where
  "IDLE_PRI K = PRI_MAX K + 1"

abbreviation DEQUEUE_SLEEP :: u32 where "DEQUEUE_SLEEP \<equiv> 1"
abbreviation ENQUEUE_HEAD :: u32 where "ENQUEUE_HEAD \<equiv> 1"
abbreviation ENQUEUE_WAKEUP :: u32 where "ENQUEUE_WAKEUP \<equiv> 2"
abbreviation MIN_SHARES :: u64 where "MIN_SHARES \<equiv> 2"
abbreviation MAX_SHARES :: u64 where "MAX_SHARES \<equiv> 262144"

section \<open>Access and update\<close>

definition upd_td :: "tid \<Rightarrow> (thread \<Rightarrow> thread) \<Rightarrow> 'q sched \<Rightarrow> 'q sched" where
  "upd_td t f s = s\<lparr>threads := (threads s)(t := f (threads s t))\<rparr>"

definition upd_se :: "eid \<Rightarrow> (sched_entity \<Rightarrow> sched_entity) \<Rightarrow> 'q sched \<Rightarrow> 'q sched" where
  "upd_se e f s = s\<lparr>ents := (ents s)(e := f (ents s e))\<rparr>"

definition upd_q :: "qid \<Rightarrow> (sfq \<Rightarrow> sfq) \<Rightarrow> 'q sched \<Rightarrow> 'q sched" where
  "upd_q q f s = s\<lparr>sfqs := (sfqs s)(q := f (sfqs s q))\<rparr>"

definition upd_g :: "gid \<Rightarrow> (sched_group \<Rightarrow> sched_group) \<Rightarrow> 'q sched \<Rightarrow> 'q sched" where
  "upd_g g f s = s\<lparr>groups := (groups s)(g := f (groups s g))\<rparr>"

definition upd_rq :: "('q rq \<Rightarrow> 'q rq) \<Rightarrow> 'q sched \<Rightarrow> 'q sched" where
  "upd_rq f s = s\<lparr>rq := f (rq s)\<rparr>"

lemma upd_simps [simp]:
  "threads (upd_td t f s) = (threads s)(t := f (threads s t))" "ents (upd_td t f s) = ents s"
  "tlinks (upd_td t f s) = tlinks s" "sfqs (upd_td t f s) = sfqs s" "groups (upd_td t f s) = groups s"
  "rq (upd_td t f s) = rq s" "curthread (upd_td t f s) = curthread s" "tun (upd_td t f s) = tun s"
  "threads (upd_se e h s) = threads s" "ents (upd_se e h s) = (ents s)(e := h (ents s e))"
  "tlinks (upd_se e h s) = tlinks s" "sfqs (upd_se e h s) = sfqs s" "groups (upd_se e h s) = groups s"
  "rq (upd_se e h s) = rq s" "curthread (upd_se e h s) = curthread s" "tun (upd_se e h s) = tun s"
  "threads (upd_q q k s) = threads s" "ents (upd_q q k s) = ents s"
  "tlinks (upd_q q k s) = tlinks s" "sfqs (upd_q q k s) = (sfqs s)(q := k (sfqs s q))"
  "groups (upd_q q k s) = groups s" "rq (upd_q q k s) = rq s" "curthread (upd_q q k s) = curthread s"
  "tun (upd_q q k s) = tun s"
  "threads (upd_g g m s) = threads s" "ents (upd_g g m s) = ents s"
  "tlinks (upd_g g m s) = tlinks s" "sfqs (upd_g g m s) = sfqs s"
  "groups (upd_g g m s) = (groups s)(g := m (groups s g))" "rq (upd_g g m s) = rq s"
  "curthread (upd_g g m s) = curthread s" "tun (upd_g g m s) = tun s"
  "threads (upd_rq r s) = threads s" "ents (upd_rq r s) = ents s"
  "tlinks (upd_rq r s) = tlinks s" "sfqs (upd_rq r s) = sfqs s" "groups (upd_rq r s) = groups s"
  "rq (upd_rq r s) = r (rq s)" "curthread (upd_rq r s) = curthread s" "tun (upd_rq r s) = tun s"
  by (simp_all add: upd_td_def upd_se_def upd_q_def upd_g_def upd_rq_def)

section \<open>Small accessors\<close>

definition entity_is_thread :: "'q sched \<Rightarrow> eid \<Rightarrow> bool" where
  "entity_is_thread s e \<longleftrightarrow> my_q (ents s e) = None"

definition td_to_se :: "tid \<Rightarrow> eid" where
  "td_to_se t = TD_SE t"

text \<open>The container of an entity: only one embedded in a thread has one.\<close>

definition se_to_td :: "'q sched \<Rightarrow> eid \<Rightarrow> tid option" where
  "se_to_td s e =
     (if entity_is_thread s e then (case e of TD_SE t \<Rightarrow> Some t | ZONE_SE _ \<Rightarrow> None) else None)"

definition thread_need_resched :: "'q sched \<Rightarrow> tid \<Rightarrow> bool" where
  "thread_need_resched s t = td_needresched (threads s t)"

definition resched_thread :: "tid \<Rightarrow> 'q sched \<Rightarrow> 'q sched" where
  "resched_thread t s = upd_td t (\<lambda>td. td\<lparr>td_needresched := True\<rparr>) s"

definition preempt_thread :: "tid \<Rightarrow> 'q sched \<Rightarrow> 'q sched" where
  "preempt_thread t s =
     (let s = (if \<not> td_needresched (threads s t) then upd_td t (\<lambda>td. td\<lparr>td_needresched := True\<rparr>) s else s)
      in upd_td t (\<lambda>td. td\<lparr>td_owepreempt := True\<rparr>) s)"

definition set_td_state :: "td_state \<Rightarrow> tid \<Rightarrow> 'q sched \<Rightarrow> 'q sched" where
  "set_td_state st t s = upd_td t (\<lambda>td. td\<lparr>td_state := st\<rparr>) s"

definition TD_ON_RUNQ :: "'q sched \<Rightarrow> tid \<Rightarrow> bool" where
  "TD_ON_RUNQ s t \<longleftrightarrow> td_state (threads s t) = TDS_RUNQ"

definition TD_IS_RUNNING :: "'q sched \<Rightarrow> tid \<Rightarrow> bool" where
  "TD_IS_RUNNING s t \<longleftrightarrow> td_state (threads s t) = TDS_RUNNING"

text \<open>\<open>set_thread_rq\<close>: the thread goes to the queue of its group.\<close>

definition set_thread_rq :: "tid \<Rightarrow> 'q sched \<Rightarrow> 'q sched option" where
  "set_thread_rq t s = do {
     tg \<leftarrow> td_group (threads s t);
     Some (upd_se (TD_SE t) (\<lambda>se. se\<lparr>se_sfq := sg_sfq (groups s tg), se_parent := sg_se (groups s tg)\<rparr>) s) }"

lemma td_upd_simps [simp]:
  "ents (resched_thread t s) = ents s" "sfqs (resched_thread t s) = sfqs s"
  "tlinks (resched_thread t s) = tlinks s" "groups (resched_thread t s) = groups s"
  "rq (resched_thread t s) = rq s" "tun (resched_thread t s) = tun s"
  "ents (preempt_thread t s) = ents s" "sfqs (preempt_thread t s) = sfqs s"
  "tlinks (preempt_thread t s) = tlinks s" "groups (preempt_thread t s) = groups s"
  "rq (preempt_thread t s) = rq s" "tun (preempt_thread t s) = tun s"
  "ents (set_td_state st t s) = ents s" "sfqs (set_td_state st t s) = sfqs s"
  "tlinks (set_td_state st t s) = tlinks s" "groups (set_td_state st t s) = groups s"
  "rq (set_td_state st t s) = rq s" "tun (set_td_state st t s) = tun s"
  by (simp_all add: resched_thread_def preempt_thread_def set_td_state_def Let_def)

section \<open>Walking up the hierarchy\<close>

text \<open>
  \<open>WALKUP_SCHED_ENTITY(se) body\<close>: the body sees the entity and a state, and tells whether it
  breaks out of the loop; the result is the pointer left in \<open>se\<close> and the state. \<open>par\<close> reads the
  parent pointer after the body has run.
\<close>

partial_function (option) walkup ::
    "('s \<Rightarrow> eid \<Rightarrow> eid option) \<Rightarrow> (eid \<Rightarrow> 's \<Rightarrow> (bool \<times> 's) option) \<Rightarrow> eid option \<Rightarrow> 's \<Rightarrow> (eid option \<times> 's) option" where
  "walkup par body se s =
     (case se of
        None \<Rightarrow> Some (None, s)
      | Some e \<Rightarrow> do {
          (brk, s) \<leftarrow> body e s;
          if brk then Some (Some e, s) else walkup par body (par s e) s })"

declare walkup.simps [code]

text \<open>A body without a break.\<close>

definition each :: "(eid \<Rightarrow> 's \<Rightarrow> 's option) \<Rightarrow> eid \<Rightarrow> 's \<Rightarrow> (bool \<times> 's) option" where
  "each f e s = map_option (Pair False) (f e s)"

abbreviation par_of :: "'q sched \<Rightarrow> eid \<Rightarrow> eid option" where
  "par_of s e \<equiv> se_parent (ents s e)"

text \<open>
  The rule for walks: \<open>I es s\<close> holds before the body runs on the entities \<open>es\<close> still ahead, and
  each run reaches \<open>I\<close> for the rest or breaks with \<open>Q\<close>.
\<close>

lemma walkup_rule:
  assumes "I es s"
    and "\<And>e es s. I (e # es) s \<Longrightarrow> \<exists>brk s'. body e s = Some (brk, s') \<and>
           (if brk then Q (Some e) s' else par s' e = head_opt es \<and> I es s')"
    and "\<And>s. I [] s \<Longrightarrow> Q None s"
  shows "\<exists>r s'. walkup par body (head_opt es) s = Some (r, s') \<and> Q r s'"
  using assms(1)
proof (induction es arbitrary: s)
  case Nil
  then show ?case using assms(3) by (subst walkup.simps) simp
next
  case (Cons e es)
  obtain brk s' where b: "body e s = Some (brk, s')"
    "if brk then Q (Some e) s' else par s' e = head_opt es \<and> I es s'"
    using assms(2) [OF Cons.prems] by blast
  show ?case
  proof (cases brk)
    case True
    with b show ?thesis by (subst walkup.simps) simp
  next
    case False
    with b Cons.IH [of s'] show ?thesis by (subst walkup.simps) simp
  qed
qed

end
