(* ===== verification/Rt_Queue.thy ===== *)
theory Rt_Queue
  imports Sched_State
begin

text \<open>
  The priority array of the real-time class (\<open>init_rt_rq\<close>): a queue for each priority and a bitmap of
  the queues with threads, with a guard bit above them. \<open>PRI_MAX\<close> of the kernel is an argument;
  \<open>n = NUM_RT_PRIO\<close> is one more. The locks are left out, as in the other records.
\<close>

record rt_prio_array =
  bitmap :: "nat set"
  rt_queue :: "nat \<Rightarrow> eid list"

record rt_rq =
  rt_active :: rt_prio_array
  rt_nr_running :: u32
  rt_throttled :: int
  rt_time :: u64
  rt_runtime :: u64

definition NUM_RT_PRIO :: "'q kern \<Rightarrow> nat" where
  "NUM_RT_PRIO K = nat (PRI_MAX K + 1)"

text \<open>The loop empties queue \<open>i\<close> and those above it; what lies beyond the array stays.\<close>

function rt_init_queues :: "nat \<Rightarrow> nat \<Rightarrow> (nat \<Rightarrow> eid list) \<Rightarrow> nat \<Rightarrow> eid list" where
  "rt_init_queues n i Q = (if i < n then rt_init_queues n (i + 1) (Q(i := [])) else Q)"
  by auto

termination by (relation "measure (\<lambda>(n, i, Q). n - i)") auto

declare rt_init_queues.simps [simp del]

definition init_rt_rq :: "'q kern \<Rightarrow> rt_rq \<Rightarrow> rt_rq" where
  "init_rt_rq K r =
     (let n = NUM_RT_PRIO K;
          a = rt_active r;
          a = a\<lparr>bitmap := {}\<rparr>;
          a = a\<lparr>rt_queue := rt_init_queues n 0 (rt_queue a)\<rparr>;
          a = a\<lparr>bitmap := insert n (bitmap a)\<rparr>
      in r\<lparr>rt_active := a, rt_nr_running := 0, rt_time := 0, rt_throttled := 0, rt_runtime := 0\<rparr>)"

lemma rt_init_queues_eq: "rt_init_queues n i Q = (\<lambda>j. if i \<le> j \<and> j < n then [] else Q j)"
proof (induction n i Q rule: rt_init_queues.induct)
  case (1 n i Q)
  show ?case
  proof (cases "i < n")
    case True
    have "rt_init_queues n i Q = rt_init_queues n (i + 1) (Q(i := []))" using True by (simp add: rt_init_queues.simps [of n i])
    also have "\<dots> = (\<lambda>j. if i + 1 \<le> j \<and> j < n then [] else (Q(i := [])) j)" by (rule 1 [OF True])
    finally show ?thesis using True by (auto simp: fun_eq_iff)
  next
    case False
    then show ?thesis by (auto simp: rt_init_queues.simps [of n i] fun_eq_iff)
  qed
qed

text \<open>A bit is set for exactly the queues with threads, and the guard is the first bit found in an empty array.\<close>

definition rt_array_ok :: "nat \<Rightarrow> rt_prio_array \<Rightarrow> bool" where
  "rt_array_ok n a \<longleftrightarrow> n \<in> bitmap a \<and> (\<forall>i<n. i \<in> bitmap a \<longleftrightarrow> rt_queue a i \<noteq> []) \<and> bitmap a \<subseteq> {..n}"

lemma init_rt_rq_ok:
  "rt_array_ok (NUM_RT_PRIO K) (rt_active (init_rt_rq K r))" "(LEAST i. i \<in> bitmap (rt_active (init_rt_rq K r))) = NUM_RT_PRIO K"
  by (auto simp: init_rt_rq_def rt_array_ok_def rt_init_queues_eq Let_def intro: Least_equality)

end
