(* ===== verification/Sched_Base.thy ===== *)
theory Sched_Base
  imports Sched_State
begin

text \<open>
  The services of \<open>sched.c\<close> that the scheduling classes call: the counts of runnable threads, the
  clock of the run queue, the round-robin slice, and the request for a preemption.
\<close>

definition rq_run_add :: "tid \<Rightarrow> 'q sched \<Rightarrow> 'q sched" where
  "rq_run_add t s =
     (let s = upd_rq (\<lambda>r. r\<lparr>rq_nr_running := rq_nr_running r + 1\<rparr>) s
      in if \<not> td_noload (threads s t)
         then upd_rq (\<lambda>r. r\<lparr>rq_nr_sysrunning := rq_nr_sysrunning r + 1\<rparr>) s else s)"

definition rq_run_rem :: "tid \<Rightarrow> 'q sched \<Rightarrow> 'q sched option" where
  "rq_run_rem t s = do {
     kassert (rq_nr_running (rq s) \<noteq> 0);
     let s = upd_rq (\<lambda>r. r\<lparr>rq_nr_running := rq_nr_running r - 1\<rparr>) s;
     Some (if \<not> td_noload (threads s t)
           then upd_rq (\<lambda>r. r\<lparr>rq_nr_sysrunning := rq_nr_sysrunning r - 1\<rparr>) s else s) }"

text \<open>\<open>sched_time_cpu\<close> for the one processor, number 0, on the scheduler's state.\<close>

definition cpu_clock :: "'q kern \<Rightarrow> 'q sched \<Rightarrow> u64 \<times> 'q sched" where
  "cpu_clock K s = (let (t, ts) = sched_time_cpu (clks K) 0 (times s) in (t, s\<lparr>times := ts\<rparr>))"

definition update_rq_clock :: "'q kern \<Rightarrow> 'q sched \<Rightarrow> 'q sched" where
  "update_rq_clock K s =
     (let (t, s) = cpu_clock K s;
          delta = t - rq_clock (rq s)
      in upd_rq (\<lambda>r. r\<lparr>rq_clock := rq_clock r + delta, clock_thread := clock_thread r + delta\<rparr>) s)"

text \<open>The values \<open>sched_initticks\<close> sets: the round-robin slice, its minimum, and the length of a tick.\<close>

record slices =
  rr_sched_slice :: int
  rr_sched_slice_min :: int
  rr_tick_ns :: int

definition sched_initticks :: "clocks \<Rightarrow> slices" where
  "sched_initticks C =
     (let sl = hz C div 10 in
      \<lparr>rr_sched_slice = sl, rr_sched_slice_min = sl div 5, rr_tick_ns = 1000000000 div hz C\<rparr>)"

definition rq_slice :: "slices \<Rightarrow> 'q rq \<Rightarrow> int" where
  "rq_slice S r =
     (let load = rq_nr_sysrunning r - 1 in
      if load \<ge> 5 then rr_sched_slice_min S
      else if load \<le> 1 then rr_sched_slice S
      else rr_sched_slice S div load)"

definition rq_slice_ns :: "slices \<Rightarrow> 'q rq \<Rightarrow> u64" where
  "rq_slice_ns S r = word_of_int (rq_slice S r) * word_of_int (rr_tick_ns S)"

definition check_priority_preempt :: "'q kern \<Rightarrow> tid \<Rightarrow> 'q sched \<Rightarrow> 'q sched" where
  "check_priority_preempt K t s =
     (let ctd = curthread s;
          pri = td_priority (threads s t);
          cpri = td_priority (threads s ctd)
      in if pri \<ge> cpri then s
         else let s = resched_thread ctd s in
           if cold_boot K \<or> td_state (threads s ctd) = TDS_INHIBITED \<or> td_idletd (threads s ctd) then s
           else if pri \<le> PRI_MIN_KERN K then preempt_thread ctd s
           else s)"

section \<open>Frames\<close>

text \<open>What the timelines and the hierarchy of entities depend on.\<close>

definition same_ents :: "'q sched \<Rightarrow> 'q sched \<Rightarrow> bool" where
  "same_ents s s' \<longleftrightarrow> ents s' = ents s \<and> sfqs s' = sfqs s \<and> tlinks s' = tlinks s \<and> groups s' = groups s"

lemma rq_run_add_frame [frame_simps]:
  "ents (rq_run_add t s) = ents s" "sfqs (rq_run_add t s) = sfqs s" "tlinks (rq_run_add t s) = tlinks s"
  "groups (rq_run_add t s) = groups s" "threads (rq_run_add t s) = threads s"
  "curthread (rq_run_add t s) = curthread s" "tun (rq_run_add t s) = tun s"
  by (simp_all add: rq_run_add_def Let_def)

lemma update_rq_clock_frame [frame_simps]:
  "ents (update_rq_clock K s) = ents s" "sfqs (update_rq_clock K s) = sfqs s"
  "tlinks (update_rq_clock K s) = tlinks s" "groups (update_rq_clock K s) = groups s"
  "threads (update_rq_clock K s) = threads s" "curthread (update_rq_clock K s) = curthread s"
  "tun (update_rq_clock K s) = tun s" "rq_load (rq (update_rq_clock K s)) = rq_load (rq s)"
  by (simp_all add: update_rq_clock_def cpu_clock_def Let_def split_beta)

lemma check_priority_preempt_frame [frame_simps]:
  "ents (check_priority_preempt K t s) = ents s" "sfqs (check_priority_preempt K t s) = sfqs s"
  "tlinks (check_priority_preempt K t s) = tlinks s" "groups (check_priority_preempt K t s) = groups s"
  "rq (check_priority_preempt K t s) = rq s" "tun (check_priority_preempt K t s) = tun s"
  by (simp_all add: check_priority_preempt_def Let_def)

end
