(* ===== verification/Rt.thy ===== *)
theory Rt
  imports Sched_Base
begin

text \<open>
  The real-time class (\<open>rt.c\<close>) and the idle class (\<open>idle.c\<close>). Real-time threads wait on the run
  queue \<open>realtime\<close> of the kernel, which is a parameter; the flag SEF_ONRUNQ and \<open>joined\<close> of the
  entity record where the thread is. The bandwidth timer of the class does nothing in this build.
\<close>

section \<open>The real-time class\<close>

definition rt_put_prev_thread :: "'q kern \<Rightarrow> tid \<Rightarrow> u32 \<Rightarrow> 'q sched \<Rightarrow> 'q sched option" where
  "rt_put_prev_thread K t flags s = do {
     s \<leftarrow> (if joined (ents s (td_to_se t)) then do {
             kassert (\<not> onrunq (ents s (td_to_se t)));
             let s = set_td_state TDS_RUNQ t s;
             let s = upd_rq (\<lambda>r. r\<lparr>realtime := runq_add K (realtime r) t (td_priority (threads s t))
                       (and flags (SW_TYPE_MASK K) = SWT_PREEMPT K)\<rparr>) s;
             Some (upd_se (td_to_se t) (\<lambda>se. se\<lparr>onrunq := True\<rparr>) s) }
           else Some s);
     Some (upd_rq (\<lambda>r. r\<lparr>rt_curr := None\<rparr>) s) }"

definition rt_pick_next_thread :: "'q kern \<Rightarrow> 'q sched \<Rightarrow> tid option" where
  "rt_pick_next_thread K s = runq_choose K (realtime (rq s))"

definition rt_activate_thread :: "'q kern \<Rightarrow> tid \<Rightarrow> 'q sched \<Rightarrow> 'q sched option" where
  "rt_activate_thread K t s = do {
     let e = td_to_se t;
     kassert (joined (ents s e));
     kassert (onrunq (ents s e));
     let s = upd_rq (\<lambda>r. r\<lparr>realtime := runq_remove K (realtime r) t\<rparr>) s;
     let s = upd_se e (\<lambda>se. se\<lparr>onrunq := False\<rparr>) s;
     kassert (\<not> onsfq (ents s e));
     let (now, s) = cpu_clock K s;
     let s = upd_se e (\<lambda>se. se\<lparr>timing_start := now, prev_sum_exec_time := sum_exec_time se\<rparr>) s;
     let s = upd_rq (\<lambda>r. r\<lparr>rt_curr := Some e\<rparr>) s;
     Some (set_td_state TDS_RUNNING t s) }"

definition rt_enqueue_thread :: "'q kern \<Rightarrow> tid \<Rightarrow> u32 \<Rightarrow> 'q sched \<Rightarrow> 'q sched option" where
  "rt_enqueue_thread K t flags s = do {
     let e = td_to_se t;
     kassert (\<not> joined (ents s e));
     kassert (\<not> onrunq (ents s e));
     let s = upd_rq (\<lambda>r. r\<lparr>realtime := runq_add K (realtime r) t (td_priority (threads s t))
               (and flags ENQUEUE_HEAD \<noteq> 0)\<rparr>) s;
     let s = upd_se e (\<lambda>se. se\<lparr>onrunq := True\<rparr>) s;
     let s = set_td_state TDS_RUNQ t s;
     let s = rq_run_add t s;
     let s = upd_se e (\<lambda>se. se\<lparr>joined := True\<rparr>) s;
     kassert (\<not> onsfq (ents s e));
     Some s }"

definition rt_dequeue_thread :: "'q kern \<Rightarrow> tid \<Rightarrow> u32 \<Rightarrow> 'q sched \<Rightarrow> 'q sched option" where
  "rt_dequeue_thread K t flags s =
     (let e = td_to_se t in
      if \<not> joined (ents s e) then Some s
      else do {
        let s = (if onrunq (ents s e)
                 then upd_se e (\<lambda>se. se\<lparr>onrunq := False\<rparr>)
                        (upd_rq (\<lambda>r. r\<lparr>realtime := runq_remove K (realtime r) t\<rparr>) s)
                 else s);
        s \<leftarrow> rq_run_rem t s;
        let s = upd_se e (\<lambda>se. se\<lparr>joined := False\<rparr>) s;
        kassert (\<not> onsfq (ents s e));
        Some s })"

definition rt_check_preempt_curr :: "tid \<Rightarrow> 'q sched \<Rightarrow> 'q sched" where
  "rt_check_preempt_curr t s = s"

definition rt_change_priority :: "'q kern \<Rightarrow> tid \<Rightarrow> int \<Rightarrow> 'q sched \<Rightarrow> 'q sched option" where
  "rt_change_priority K t prio s =
     (if TD_ON_RUNQ s t \<and> prio < td_priority (threads s t) then do {
        kassert (onrunq (ents s (td_to_se t)));
        let s = upd_rq (\<lambda>r. r\<lparr>realtime := runq_remove K (realtime r) t\<rparr>) s;
        let s = upd_td t (\<lambda>td. td\<lparr>td_priority := prio\<rparr>) s;
        let s = upd_rq (\<lambda>r. r\<lparr>realtime := runq_add K (realtime r) t prio False\<rparr>) s;
        Some (check_priority_preempt K t s) }
      else Some (upd_td t (\<lambda>td. td\<lparr>td_priority := prio\<rparr>) s))"

text \<open>The clock is read only for a thread of a round-robin class.\<close>

definition rt_tick :: "'q kern \<Rightarrow> slices \<Rightarrow> tid \<Rightarrow> 'q sched \<Rightarrow> 'q sched" where
  "rt_tick K S t s =
     (let slice = rq_slice_ns S (rq s) in
      if td_pri_class (threads s t) = PRI_ITHD K then s
      else if and (td_pri_class (threads s t)) (PRI_FIFO_BIT K) \<noteq> 0 then s
      else let (now, s) = cpu_clock K s;
               delta_exec = now - timing_start (ents s (td_to_se t))
           in if delta_exec \<ge> slice then resched_thread t s else s)"

definition rt_fork_thread :: "tid \<Rightarrow> tid \<Rightarrow> 'q sched \<Rightarrow> 'q sched" where
  "rt_fork_thread cur child s = s"

definition rt_switched_to :: "tid \<Rightarrow> 'q sched \<Rightarrow> 'q sched" where
  "rt_switched_to t s = s"

definition rt_init_rq :: "'q kern \<Rightarrow> 'q sched \<Rightarrow> 'q sched" where
  "rt_init_rq K s = upd_rq (\<lambda>r. r\<lparr>realtime := runq_init K\<rparr>) s"

section \<open>The idle class\<close>

definition idle_put_prev_thread :: "tid \<Rightarrow> u32 \<Rightarrow> 'q sched \<Rightarrow> 'q sched" where
  "idle_put_prev_thread t flags s = set_td_state TDS_CAN_RUN t s"

definition idle_pick_next_thread :: "'q kern \<Rightarrow> 'q sched \<Rightarrow> tid option" where
  "idle_pick_next_thread K s = Some (idlethread K)"

definition idle_activate_thread :: "tid \<Rightarrow> 'q sched \<Rightarrow> 'q sched" where
  "idle_activate_thread t s = set_td_state TDS_RUNNING t s"

definition idle_enqueue_thread :: "tid \<Rightarrow> u32 \<Rightarrow> 'q sched \<Rightarrow> 'q sched" where
  "idle_enqueue_thread t flags s = s"

definition idle_dequeue_thread :: "tid \<Rightarrow> u32 \<Rightarrow> 'q sched \<Rightarrow> 'q sched" where
  "idle_dequeue_thread t flags s = s"

definition idle_check_preempt_curr :: "tid \<Rightarrow> 'q sched \<Rightarrow> 'q sched" where
  "idle_check_preempt_curr t s = s"

definition idle_change_priority :: "tid \<Rightarrow> int \<Rightarrow> 'q sched \<Rightarrow> 'q sched" where
  "idle_change_priority t prio s = s"

definition idle_tick :: "tid \<Rightarrow> 'q sched \<Rightarrow> 'q sched" where
  "idle_tick t s = s"

definition idle_fork_thread :: "tid \<Rightarrow> tid \<Rightarrow> 'q sched \<Rightarrow> 'q sched" where
  "idle_fork_thread cur child s = s"

definition idle_switched_to :: "tid \<Rightarrow> 'q sched \<Rightarrow> 'q sched" where
  "idle_switched_to t s = s"

end
