(* ===== verification/Pss.thy ===== *)
theory Pss
  imports Sched_Base
begin

text \<open>
  The operations of \<open>pss.c\<close>, the proportional share class, in the source's order: the timeline of
  a queue, virtual time and slices, the accounting of the running entity, the skip, next and last
  candidates, the entity operations on one queue, and the thread operations that walk up the
  hierarchy of groups. The functions the source compiles to nothing on one processor
  (\<open>update_sfq_load_avg\<close>, \<open>update_entity_shares_tick\<close>) are left out, the rest of each body is as
  written.
\<close>

section \<open>Hierarchy\<close>

definition is_same_group :: "'q sched \<Rightarrow> eid option \<Rightarrow> eid option \<Rightarrow> bool option" where
  "is_same_group s a b = do { a \<leftarrow> a; b \<leftarrow> b; Some (se_sfq (ents s a) = se_sfq (ents s b)) }"

definition parent_entity :: "'q sched \<Rightarrow> eid option \<Rightarrow> eid option option" where
  "parent_entity s e = do { e \<leftarrow> e; Some (se_parent (ents s e)) }"

definition entity_depth :: "'q sched \<Rightarrow> eid option \<Rightarrow> nat option" where
  "entity_depth s e = do {
     (r, d) \<leftarrow> walkup (\<lambda>d e. par_of s e) (each (\<lambda>e d. Some (Suc d))) e 0;
     Some d }"

fun go_up :: "nat \<Rightarrow> 'q sched \<Rightarrow> eid option \<Rightarrow> eid option option" where
  "go_up 0 s e = Some e"
| "go_up (Suc n) s e = do { e \<leftarrow> parent_entity s e; go_up n s e }"

partial_function (option) to_same_group :: "'q sched \<Rightarrow> eid option \<Rightarrow> eid option \<Rightarrow> (eid option \<times> eid option) option" where
  "to_same_group s a b = do {
     same \<leftarrow> is_same_group s a b;
     if same then Some (a, b)
     else do { a \<leftarrow> parent_entity s a; b \<leftarrow> parent_entity s b; to_same_group s a b } }"

declare to_same_group.simps [code]

definition find_common_ancestor :: "'q sched \<Rightarrow> eid option \<Rightarrow> eid option \<Rightarrow> (eid option \<times> eid option) option" where
  "find_common_ancestor s a b = do {
     depth_a \<leftarrow> entity_depth s a;
     depth_b \<leftarrow> entity_depth s b;
     a \<leftarrow> go_up (depth_a - depth_b) s a;
     b \<leftarrow> go_up (depth_b - depth_a) s b;
     to_same_group s a b }"

text \<open>The leaf list keeps a child queue before its parent.\<close>

definition add_leaf_sfq :: "qid \<Rightarrow> 'q sched \<Rightarrow> 'q sched option" where
  "add_leaf_sfq q s =
     (if on_leaf_list (sfqs s q) then Some s
      else do {
        g \<leftarrow> sfq_group (sfqs s q);
        s \<leftarrow> (case sg_parent (groups s g) of
                None \<Rightarrow> Some (upd_rq (\<lambda>r. r\<lparr>leaf_sfq_list := leaf_sfq_list r @ [q]\<rparr>) s)
              | Some pg \<Rightarrow> do {
                  pq \<leftarrow> sg_sfq (groups s pg);
                  Some (if on_leaf_list (sfqs s pq)
                        then upd_rq (\<lambda>r. r\<lparr>leaf_sfq_list := insert_before pq q (leaf_sfq_list r)\<rparr>) s
                        else upd_rq (\<lambda>r. r\<lparr>leaf_sfq_list := leaf_sfq_list r @ [q]\<rparr>) s) });
        Some (upd_q q (\<lambda>c. c\<lparr>on_leaf_list := True\<rparr>) s) })"

definition del_leaf_sfq :: "qid \<Rightarrow> 'q sched \<Rightarrow> 'q sched" where
  "del_leaf_sfq q s =
     (if on_leaf_list (sfqs s q)
      then upd_q q (\<lambda>c. c\<lparr>on_leaf_list := False\<rparr>)
             (upd_rq (\<lambda>r. r\<lparr>leaf_sfq_list := remove1 q (leaf_sfq_list r)\<rparr>) s)
      else s)"

section \<open>Weights and loads\<close>

definition set_thread_weight :: "'q kern \<Rightarrow> tid \<Rightarrow> 'q sched \<Rightarrow> 'q sched option" where
  "set_thread_weight K t s =
     (let idx = p_nice (threads s t) - PRIO_MIN K in
      if td_pri_class (threads s t) \<noteq> PRI_IDLE K then do {
        w \<leftarrow> table_at prio_to_weight idx;
        m \<leftarrow> table_at prio_to_wmult idx;
        Some (upd_se (td_to_se t) (\<lambda>se. se\<lparr>se_load := \<lparr>weight = w, inv_weight = m\<rparr>\<rparr>) s) }
      else Some (upd_se (td_to_se t)
             (\<lambda>se. se\<lparr>se_load := \<lparr>weight = IDLEPRIO_WEIGHT, inv_weight = IDLEPRIO_WMULT\<rparr>\<rparr>) s))"

definition vtime_cmp :: "'q sched \<Rightarrow> eid \<Rightarrow> eid \<Rightarrow> int" where
  "vtime_cmp s a b = (if sint (vruntime (ents s a) - vruntime (ents s b)) < 0 then - 1 else 1)"

definition entity_before :: "'q sched \<Rightarrow> eid \<Rightarrow> eid \<Rightarrow> bool" where
  "entity_before s a b \<longleftrightarrow> vtime_cmp s a b < 0"

definition account_entity_enqueue :: "qid \<Rightarrow> eid \<Rightarrow> 'q sched \<Rightarrow> 'q sched" where
  "account_entity_enqueue q e s =
     (let w = weight (se_load (ents s e));
          s = upd_q q (\<lambda>c. c\<lparr>sfq_load := load_add w (sfq_load c)\<rparr>) s;
          s = (if se_parent (ents s e) = None
               then upd_rq (\<lambda>r. r\<lparr>rq_load := load_add w (rq_load r)\<rparr>) s else s)
      in upd_q q (\<lambda>c. c\<lparr>nr_running := nr_running c + 1\<rparr>) s)"

definition account_entity_dequeue :: "qid \<Rightarrow> eid \<Rightarrow> 'q sched \<Rightarrow> 'q sched" where
  "account_entity_dequeue q e s =
     (let w = weight (se_load (ents s e));
          s = upd_q q (\<lambda>c. c\<lparr>sfq_load := load_sub w (sfq_load c)\<rparr>) s;
          s = (if se_parent (ents s e) = None
               then upd_rq (\<lambda>r. r\<lparr>rq_load := load_sub w (rq_load r)\<rparr>) s else s)
      in upd_q q (\<lambda>c. c\<lparr>nr_running := nr_running c - 1\<rparr>) s)"

section \<open>The timeline of a queue\<close>

definition enqueue_timeline :: "qid \<Rightarrow> eid \<Rightarrow> 'q sched \<Rightarrow> 'q sched option" where
  "enqueue_timeline q e s = do {
     kassert (\<not> onsfq (ents s e));
     (left, h, r) \<leftarrow> tl_ins (\<lambda>a b. vtime_cmp s a b < 0) e (tlinks s) (tl_root (sfqs s q));
     let s = upd_q q (\<lambda>c. c\<lparr>tl_root := r\<rparr>) (s\<lparr>tlinks := h\<rparr>);
     let s = (if left then upd_q q (\<lambda>c. c\<lparr>leftmost := Some e\<rparr>) s else s);
     Some (upd_se e (\<lambda>se. se\<lparr>onsfq := True\<rparr>) s) }"

definition dequeue_timeline :: "qid \<Rightarrow> eid \<Rightarrow> 'q sched \<Rightarrow> 'q sched option" where
  "dequeue_timeline q e s = do {
     kassert (onsfq (ents s e));
     s \<leftarrow> (if leftmost (sfqs s q) = Some e
          then do { n \<leftarrow> tl_next e (tlinks s) (tl_root (sfqs s q));
                    Some (upd_q q (\<lambda>c. c\<lparr>leftmost := n\<rparr>) s) }
          else Some s);
     (h, r) \<leftarrow> tl_rem e (tlinks s) (tl_root (sfqs s q));
     let s = upd_q q (\<lambda>c. c\<lparr>tl_root := r\<rparr>) (s\<lparr>tlinks := h\<rparr>);
     Some (upd_se e (\<lambda>se. se\<lparr>onsfq := False\<rparr>) s) }"

definition pick_first_entity :: "qid \<Rightarrow> 'q sched \<Rightarrow> eid option" where
  "pick_first_entity q s = leftmost (sfqs s q)"

text \<open>The successor of NULL is a null dereference.\<close>

definition entity_after :: "qid \<Rightarrow> eid option \<Rightarrow> 'q sched \<Rightarrow> eid option option" where
  "entity_after q e s = do { e \<leftarrow> e; tl_next e (tlinks s) (tl_root (sfqs s q)) }"

section \<open>Virtual time and slices\<close>

definition max_vruntime :: "u64 \<Rightarrow> u64 \<Rightarrow> u64" where
  "max_vruntime v x = (if 0 < sint (x - v) then x else v)"

definition min_vruntime :: "u64 \<Rightarrow> u64 \<Rightarrow> u64" where
  "min_vruntime v x = (if sint (x - v) < 0 then x else v)"

definition update_sfq_vtime :: "qid \<Rightarrow> 'q sched \<Rightarrow> 'q sched" where
  "update_sfq_vtime q s =
     (let lm = leftmost (sfqs s q);
          cur = (case curr (sfqs s q) of
                   Some c \<Rightarrow> if \<not> joined (ents s c) then None else Some c
                 | None \<Rightarrow> None);
          v = (case (cur, lm) of
                 (Some c, Some l) \<Rightarrow> Some (min_vruntime (vruntime (ents s c)) (vruntime (ents s l)))
               | (Some c, None) \<Rightarrow> Some (vruntime (ents s c))
               | (None, Some l) \<Rightarrow> Some (vruntime (ents s l))
               | (None, None) \<Rightarrow> None)
      in case v of
           None \<Rightarrow> s
         | Some v \<Rightarrow> upd_q q (\<lambda>c. c\<lparr>vtime := max_vruntime (vtime c) v\<rparr>) s)"

text \<open>Scaled by the weight of the entity, whose cached inverse the call may fill.\<close>

definition scale_delta :: "u64 \<Rightarrow> eid \<Rightarrow> 'q sched \<Rightarrow> u64 \<times> 'q sched" where
  "scale_delta delta e s =
     (if weight (se_load (ents s e)) = NICE_0_WEIGHT then (delta, s)
      else let (d, lw) = scale_by_weight delta NICE_0_WEIGHT (se_load (ents s e))
           in (d, upd_se e (\<lambda>se. se\<lparr>se_load := lw\<rparr>) s))"

definition slice_step :: "eid \<Rightarrow> u64 \<times> 'q sched \<Rightarrow> (u64 \<times> 'q sched) option" where
  "slice_step e = (\<lambda>(slice, s). do {
     q \<leftarrow> se_sfq (ents s e);
     let w = weight (se_load (ents s e));
     Some (if \<not> joined (ents s e)
           then (fst (scale_by_weight slice w (load_add w (sfq_load (sfqs s q)))), s)
           else let (slice, lw) = scale_by_weight slice w (sfq_load (sfqs s q))
                in (slice, upd_q q (\<lambda>c. c\<lparr>sfq_load := lw\<rparr>) s)) })"

definition sched_slice :: "qid \<Rightarrow> eid \<Rightarrow> 'q sched \<Rightarrow> (u64 \<times> 'q sched) option" where
  "sched_slice q e s = do {
     (r, slice, s) \<leftarrow> walkup (\<lambda>(slice, s) e. par_of s e) (each slice_step) (Some e)
       (sched_period (tun s) (word_of_int (nr_running (sfqs s q))), s);
     Some (slice, s) }"

definition sched_vslice :: "qid \<Rightarrow> eid \<Rightarrow> 'q sched \<Rightarrow> (u64 \<times> 'q sched) option" where
  "sched_vslice q e s = do {
     (slice, s) \<leftarrow> sched_slice q e s;
     Some (scale_delta slice e s) }"

definition place_entity :: "qid \<Rightarrow> eid \<Rightarrow> bool \<Rightarrow> 'q sched \<Rightarrow> 'q sched option" where
  "place_entity q e initial s = do {
     let v = vtime (sfqs s q);
     (v, s) \<leftarrow> (if initial
               then (if start_debit (tun s)
                     then do { (d, s) \<leftarrow> sched_vslice q e s; Some (v + d, s) }
                     else Some (v, s))
               else (let thresh = sched_min_granularity (tun s);
                         thresh = (if gentle_sleeper (tun s) then drop_bit 1 thresh else thresh)
                     in Some (v - thresh, s)));
     Some (upd_se e (\<lambda>se. se\<lparr>vruntime := max_vruntime (vruntime se) v\<rparr>) s) }"

section \<open>The running entity\<close>

definition fix_user_pri :: "'q kern \<Rightarrow> tid \<Rightarrow> 'q sched \<Rightarrow> 'q sched" where
  "fix_user_pri K t s =
     (if td_pri_class (threads s t) = PRI_TIMESHARE K \<and> td_user_pri (threads s t) \<noteq> NORMAL_PRI K
      then upd_td t (\<lambda>td. td\<lparr>td_user_pri := NORMAL_PRI K\<rparr>) s else s)"

definition charge_curr :: "qid \<Rightarrow> eid \<Rightarrow> 'q sched \<Rightarrow> 'q sched" where
  "charge_curr q c s =
     (let now = clock_thread (rq s);
          delta_exec = now - timing_start (ents s c)
      in if delta_exec = 0 then s
         else let s = upd_se c (\<lambda>se. se\<lparr>sum_exec_time := sum_exec_time se + delta_exec\<rparr>) s;
                  (weighted, s) = scale_delta delta_exec c s;
                  s = upd_se c (\<lambda>se. se\<lparr>vruntime := vruntime se + weighted, timing_start := now\<rparr>) s
              in update_sfq_vtime q s)"

definition update_curr :: "'q kern \<Rightarrow> qid \<Rightarrow> 'q sched \<Rightarrow> 'q sched option" where
  "update_curr K q s =
     (case curr (sfqs s q) of
        None \<Rightarrow> Some s
      | Some c \<Rightarrow> do {
          s \<leftarrow> (if entity_is_thread s c
               then do { t \<leftarrow> se_to_td s c; Some (fix_user_pri K t s) }
               else Some s);
          Some (charge_curr q c s) })"

section \<open>Group shares\<close>

definition update_entity_weight :: "'q kern \<Rightarrow> qid \<Rightarrow> eid \<Rightarrow> u64 \<Rightarrow> 'q sched \<Rightarrow> 'q sched option" where
  "update_entity_weight K q e w s =
     (if joined (ents s e) then do {
        s \<leftarrow> (if curr (sfqs s q) = Some e then update_curr K q s else Some s);
        let s = account_entity_dequeue q e s;
        let s = upd_se e (\<lambda>se. se\<lparr>se_load := load_set w (se_load se)\<rparr>) s;
        Some (account_entity_enqueue q e s) }
      else Some (upd_se e (\<lambda>se. se\<lparr>se_load := load_set w (se_load se)\<rparr>) s))"

definition calc_sfq_shares :: "'q sched \<Rightarrow> gid \<Rightarrow> u64" where
  "calc_sfq_shares s sg = sg_shares (groups s sg)"

definition update_sfq_shares :: "'q kern \<Rightarrow> qid \<Rightarrow> 'q sched \<Rightarrow> 'q sched option" where
  "update_sfq_shares K q s = do {
     sg \<leftarrow> sfq_group (sfqs s q);
     case sg_se (groups s sg) of
       None \<Rightarrow> Some s
     | Some e \<Rightarrow>
         if weight (se_load (ents s e)) = sg_shares (groups s sg) then Some s
         else do {
           q' \<leftarrow> se_sfq (ents s e);
           update_entity_weight K q' e (calc_sfq_shares s sg) s } }"

section \<open>Candidates\<close>

definition set_skip_candidate :: "eid \<Rightarrow> 'q sched \<Rightarrow> 'q sched option" where
  "set_skip_candidate e s = do {
     (r, s) \<leftarrow> walkup par_of (\<lambda>e s. do {
         q \<leftarrow> se_sfq (ents s e);
         let s = upd_q q (\<lambda>c. c\<lparr>skip := Some e\<rparr>) s;
         Some (nr_running (sfqs s q) > 1, s) }) (Some e) s;
     Some s }"

definition clear_skip_candidate :: "eid \<Rightarrow> 'q sched \<Rightarrow> 'q sched option" where
  "clear_skip_candidate e s = do {
     (r, s) \<leftarrow> walkup par_of (\<lambda>e s. do {
         q \<leftarrow> se_sfq (ents s e);
         Some (if skip (sfqs s q) = Some e then (False, upd_q q (\<lambda>c. c\<lparr>skip := None\<rparr>) s) else (True, s)) })
       (Some e) s;
     Some s }"

definition is_idle_thread_entity :: "'q kern \<Rightarrow> eid \<Rightarrow> 'q sched \<Rightarrow> bool option" where
  "is_idle_thread_entity K e s =
     (if entity_is_thread s e
      then do { t \<leftarrow> se_to_td s e; Some (td_pri_class (threads s t) = PRI_IDLE K) }
      else Some False)"

definition set_next_candidate :: "'q kern \<Rightarrow> eid \<Rightarrow> 'q sched \<Rightarrow> 'q sched option" where
  "set_next_candidate K e s = do {
     idle \<leftarrow> is_idle_thread_entity K e s;
     if idle then Some s
     else do {
       (r, s) \<leftarrow> walkup par_of (each (\<lambda>e s. do {
           q \<leftarrow> se_sfq (ents s e);
           Some (upd_q q (\<lambda>c. c\<lparr>sfq_next := Some e\<rparr>) s) })) (Some e) s;
       Some s } }"

definition clear_next_candidate :: "eid \<Rightarrow> 'q sched \<Rightarrow> 'q sched option" where
  "clear_next_candidate e s = do {
     (r, s) \<leftarrow> walkup par_of (\<lambda>e s. do {
         q \<leftarrow> se_sfq (ents s e);
         Some (if sfq_next (sfqs s q) = Some e then (False, upd_q q (\<lambda>c. c\<lparr>sfq_next := None\<rparr>) s) else (True, s)) })
       (Some e) s;
     Some s }"

definition set_last_candidate :: "'q kern \<Rightarrow> eid \<Rightarrow> 'q sched \<Rightarrow> 'q sched option" where
  "set_last_candidate K e s = do {
     idle \<leftarrow> is_idle_thread_entity K e s;
     if idle then Some s
     else do {
       (r, s) \<leftarrow> walkup par_of (each (\<lambda>e s. do {
           q \<leftarrow> se_sfq (ents s e);
           Some (upd_q q (\<lambda>c. c\<lparr>sfq_last := Some e\<rparr>) s) })) (Some e) s;
       Some s } }"

definition clear_last_candidate :: "eid \<Rightarrow> 'q sched \<Rightarrow> 'q sched option" where
  "clear_last_candidate e s = do {
     (r, s) \<leftarrow> walkup par_of (\<lambda>e s. do {
         q \<leftarrow> se_sfq (ents s e);
         Some (if sfq_last (sfqs s q) = Some e then (False, upd_q q (\<lambda>c. c\<lparr>sfq_last := None\<rparr>) s) else (True, s)) })
       (Some e) s;
     Some s }"

text \<open>The comparisons of \<open>clear_candidates\<close> are with a possibly NULL entity.\<close>

definition clear_candidates :: "qid \<Rightarrow> eid \<Rightarrow> 'q sched \<Rightarrow> 'q sched option" where
  "clear_candidates q e s = do {
     s \<leftarrow> (if skip (sfqs s q) = Some e then clear_skip_candidate e s else Some s);
     s \<leftarrow> (if sfq_next (sfqs s q) = Some e then clear_next_candidate e s else Some s);
     (if sfq_last (sfqs s q) = Some e then clear_last_candidate e s else Some s) }"

section \<open>One entity on one queue\<close>

definition runq_enqueue :: "'q kern \<Rightarrow> tid \<Rightarrow> eid \<Rightarrow> u32 \<Rightarrow> 'q sched \<Rightarrow> 'q sched option" where
  "runq_enqueue K t e flags s = do {
     kassert (\<not> onrunq (ents s e));
     let s = upd_rq (\<lambda>r. r\<lparr>realtime := runq_add K (realtime r) t (td_priority (threads s t))
               (and flags (SWT_PREEMPT K) \<noteq> 0)\<rparr>) s;
     Some (upd_se e (\<lambda>se. se\<lparr>onrunq := True\<rparr>) s) }"

definition runq_dequeue :: "'q kern \<Rightarrow> tid \<Rightarrow> eid \<Rightarrow> 'q sched \<Rightarrow> 'q sched" where
  "runq_dequeue K t e s =
     (if onrunq (ents s e)
      then upd_se e (\<lambda>se. se\<lparr>onrunq := False\<rparr>)
             (upd_rq (\<lambda>r. r\<lparr>realtime := runq_remove K (realtime r) t\<rparr>) s)
      else s)"

text \<open>The state change and the boost to the real-time run queue of a thread put on its queue.\<close>

definition set_runq_boost :: "'q kern \<Rightarrow> eid \<Rightarrow> u32 \<Rightarrow> 'q sched \<Rightarrow> 'q sched option" where
  "set_runq_boost K e flags s =
     (if entity_is_thread s e then do {
        t \<leftarrow> se_to_td s e;
        let s = set_td_state TDS_RUNQ t s;
        if td_priority (threads s t) < NORMAL_PRI K then runq_enqueue K t e flags s else Some s }
      else Some s)"

definition put_prev_entity :: "'q kern \<Rightarrow> qid \<Rightarrow> eid \<Rightarrow> u32 \<Rightarrow> 'q sched \<Rightarrow> 'q sched option" where
  "put_prev_entity K q e flags s = do {
     s \<leftarrow> (if joined (ents s e) then do {
             s \<leftarrow> (if entity_is_thread s e \<and> and flags (SW_TYPE_MASK K) = SWT_RELINQUISH K
                  then set_skip_candidate e s else Some s);
             s \<leftarrow> update_curr K q s;
             s \<leftarrow> set_runq_boost K e flags s;
             enqueue_timeline q e s }
           else Some s);
     Some (upd_q q (\<lambda>c. c\<lparr>curr := None\<rparr>) s) }"

text \<open>\<open>gran\<close> is an \<open>unsigned long\<close> read as an \<open>int64_t\<close>.\<close>

definition wakeup_gran :: "eid \<Rightarrow> 'q sched \<Rightarrow> u64 \<times> 'q sched" where
  "wakeup_gran new_se s = scale_delta (wakeup_granularity (tun s)) new_se s"

definition wakeup_preempt_entity :: "eid \<Rightarrow> eid \<Rightarrow> 'q sched \<Rightarrow> int \<times> 'q sched" where
  "wakeup_preempt_entity c e s =
     (let diff = sint (vruntime (ents s c) - vruntime (ents s e)) in
      if diff > 0 then let (g, s) = wakeup_gran e s in (if diff > sint g then 1 else 0, s)
      else (- 1, s))"

text \<open>One test of \<open>pick_next_entity\<close>: a candidate replaces the choice when it is not too far behind.\<close>

definition try_candidate :: "eid option \<Rightarrow> eid option \<Rightarrow> eid option \<Rightarrow> 'q sched \<Rightarrow> (eid option \<times> 'q sched) option" where
  "try_candidate cand first se s =
     (case cand of
        None \<Rightarrow> Some (se, s)
      | Some c \<Rightarrow> do {
          f \<leftarrow> first;
          let (r, s) = wakeup_preempt_entity c f s;
          Some (if r < 1 then Some c else se, s) })"

definition pick_next_entity :: "qid \<Rightarrow> 'q sched \<Rightarrow> (eid \<times> 'q sched) option" where
  "pick_next_entity q s = do {
     let first = pick_first_entity q s;
     let se = first;
     (se, s) \<leftarrow> (if skip (sfqs s q) = se
                then do { second \<leftarrow> entity_after q se s; try_candidate second first se s }
                else Some (se, s));
     (se, s) \<leftarrow> try_candidate (sfq_last (sfqs s q)) first se s;
     (se, s) \<leftarrow> try_candidate (sfq_next (sfqs s q)) first se s;
     e \<leftarrow> se;
     s \<leftarrow> clear_candidates q e s;
     Some (e, s) }"

definition activate_entity :: "'q kern \<Rightarrow> qid \<Rightarrow> eid \<Rightarrow> 'q sched \<Rightarrow> 'q sched option" where
  "activate_entity K q e s = do {
     kassert (joined (ents s e));
     s \<leftarrow> (if entity_is_thread s e
          then do { t \<leftarrow> se_to_td s e; Some (runq_dequeue K t e s) } else Some s);
     s \<leftarrow> dequeue_timeline q e s;
     kassert (curr (sfqs s q) = None);
     let s = upd_q q (\<lambda>c. c\<lparr>curr := Some e\<rparr>) s;
     Some (upd_se e (\<lambda>se. se\<lparr>timing_start := clock_thread (rq s),
                            prev_sum_exec_time := sum_exec_time se\<rparr>) s) }"

definition enqueue_entity :: "'q kern \<Rightarrow> qid \<Rightarrow> eid \<Rightarrow> u32 \<Rightarrow> 'q sched \<Rightarrow> 'q sched option" where
  "enqueue_entity K q e flags s = do {
     kassert (\<not> joined (ents s e));
     let s = (if and flags ENQUEUE_WAKEUP = 0
              then upd_se e (\<lambda>se. se\<lparr>vruntime := vruntime se + vtime (sfqs s q)\<rparr>) s else s);
     s \<leftarrow> update_curr K q s;
     s \<leftarrow> (if and flags ENQUEUE_WAKEUP \<noteq> 0 then place_entity q e False s else Some s);
     s \<leftarrow> set_runq_boost K e flags s;
     s \<leftarrow> enqueue_timeline q e s;
     let s = account_entity_enqueue q e s;
     s \<leftarrow> update_sfq_shares K q s;
     s \<leftarrow> (if nr_running (sfqs s q) = 1 then add_leaf_sfq q s else Some s);
     Some (upd_se e (\<lambda>se. se\<lparr>joined := True\<rparr>) s) }"

definition dequeue_entity :: "'q kern \<Rightarrow> qid \<Rightarrow> eid \<Rightarrow> u32 \<Rightarrow> 'q sched \<Rightarrow> 'q sched option" where
  "dequeue_entity K q e flags s =
     (if \<not> joined (ents s e) then do {
        kassert (\<not> onrunq (ents s e) \<and> \<not> onsfq (ents s e));
        Some s }
      else do {
        s \<leftarrow> update_curr K q s;
        s \<leftarrow> (if entity_is_thread s e
             then do { t \<leftarrow> se_to_td s e; Some (runq_dequeue K t e s) } else Some s);
        s \<leftarrow> clear_candidates q e s;
        s \<leftarrow> (if onsfq (ents s e) then dequeue_timeline q e s else Some s);
        let s = account_entity_dequeue q e s;
        let s = upd_se e (\<lambda>se. se\<lparr>joined := False\<rparr>) s;
        let s = (if and flags DEQUEUE_SLEEP = 0
                 then upd_se e (\<lambda>se. se\<lparr>vruntime := vruntime se - vtime (sfqs s q)\<rparr>) s else s);
        let s = update_sfq_vtime q s;
        update_sfq_shares K q s })"

section \<open>The class operations on a thread\<close>

definition pss_put_prev_thread :: "'q kern \<Rightarrow> tid \<Rightarrow> u32 \<Rightarrow> 'q sched \<Rightarrow> 'q sched option" where
  "pss_put_prev_thread K t flags s = do {
     (r, s) \<leftarrow> walkup par_of (each (\<lambda>e s. do {
         q \<leftarrow> se_sfq (ents s e);
         put_prev_entity K q e flags s })) (Some (td_to_se t)) s;
     Some s }"

partial_function (option) pick_down :: "qid \<Rightarrow> 'q sched \<Rightarrow> (eid \<times> 'q sched) option" where
  "pick_down q s = do {
     (e, s) \<leftarrow> pick_next_entity q s;
     case my_q (ents s e) of None \<Rightarrow> Some (e, s) | Some q' \<Rightarrow> pick_down q' s }"

declare pick_down.simps [code]

definition pss_pick_next_thread :: "'q sched \<Rightarrow> (tid option \<times> 'q sched) option" where
  "pss_pick_next_thread s =
     (if nr_running (sfqs s RQ_SFQ) = 0 then Some (None, s)
      else do {
        (e, s) \<leftarrow> pick_down RQ_SFQ s;
        t \<leftarrow> se_to_td s e;
        Some (Some t, s) })"

definition pss_activate_thread :: "'q kern \<Rightarrow> tid \<Rightarrow> 'q sched \<Rightarrow> 'q sched option" where
  "pss_activate_thread K t s = do {
     (r, s) \<leftarrow> walkup par_of (each (\<lambda>e s. do {
         q \<leftarrow> se_sfq (ents s e);
         activate_entity K q e s })) (Some (td_to_se t)) s;
     Some (set_td_state TDS_RUNNING t s) }"

text \<open>The second loop of both enqueue and dequeue.\<close>

definition update_shares_up :: "'q kern \<Rightarrow> eid option \<Rightarrow> 'q sched \<Rightarrow> 'q sched option" where
  "update_shares_up K e s = do {
     (r, s) \<leftarrow> walkup par_of (each (\<lambda>e s. do {
         q \<leftarrow> se_sfq (ents s e);
         update_sfq_shares K q s })) e s;
     Some s }"

definition pss_enqueue_thread :: "'q kern \<Rightarrow> tid \<Rightarrow> u32 \<Rightarrow> 'q sched \<Rightarrow> 'q sched option" where
  "pss_enqueue_thread K t flags s = do {
     (e, flags, s) \<leftarrow> walkup (\<lambda>(flags, s). par_of s) (\<lambda>e (flags, s).
         if joined (ents s e) then Some (True, flags, s)
         else do {
           q \<leftarrow> se_sfq (ents s e);
           s \<leftarrow> enqueue_entity K q e flags s;
           Some (False, ENQUEUE_WAKEUP, s) }) (Some (td_to_se t)) (flags, s);
     s \<leftarrow> update_shares_up K e s;
     Some (rq_run_add t s) }"

definition pss_dequeue_thread :: "'q kern \<Rightarrow> tid \<Rightarrow> u32 \<Rightarrow> 'q sched \<Rightarrow> 'q sched option" where
  "pss_dequeue_thread K t flags s = do {
     let is_sleep = (and flags DEQUEUE_SLEEP \<noteq> 0);
     (e, flags, s) \<leftarrow> walkup (\<lambda>(flags, s). par_of s) (\<lambda>e (flags, s). do {
         q \<leftarrow> se_sfq (ents s e);
         s \<leftarrow> dequeue_entity K q e flags s;
         if weight (sfq_load (sfqs s q)) \<noteq> 0 then do {
           s \<leftarrow> (case se_parent (ents s e) of
                   Some p \<Rightarrow> if is_sleep then set_next_candidate K p s else Some s
                 | None \<Rightarrow> Some s);
           Some (True, flags, s) }
         else Some (False, or flags DEQUEUE_SLEEP, s) }) (Some (td_to_se t)) (flags, s);
     let e = (case e of None \<Rightarrow> None | Some e \<Rightarrow> se_parent (ents s e));
     s \<leftarrow> update_shares_up K e s;
     rq_run_rem t s }"

definition pss_change_priority :: "'q kern \<Rightarrow> tid \<Rightarrow> int \<Rightarrow> 'q sched \<Rightarrow> 'q sched option" where
  "pss_change_priority K t prio s =
     (let e = td_to_se t in
      if TD_ON_RUNQ s t \<and> prio < td_priority (threads s t) then do {
        let s = runq_dequeue K t e s;
        let s = upd_td t (\<lambda>td. td\<lparr>td_priority := prio\<rparr>) s;
        s \<leftarrow> (if prio < NORMAL_PRI K then runq_enqueue K t e 0 s else Some s);
        Some (check_priority_preempt K t s) }
      else Some (upd_td t (\<lambda>td. td\<lparr>td_priority := prio\<rparr>) s))"

definition pss_preempt :: "'q kern \<Rightarrow> tid \<Rightarrow> bool \<Rightarrow> eid \<Rightarrow> 'q sched \<Rightarrow> 'q sched option" where
  "pss_preempt K ctd scale e s =
     (let s = resched_thread ctd s in
      if sched_last (tun s) \<and> scale \<and> entity_is_thread s e then set_last_candidate K e s else Some s)"

definition pss_check_preempt_curr :: "'q kern \<Rightarrow> tid \<Rightarrow> 'q sched \<Rightarrow> 'q sched option" where
  "pss_check_preempt_curr K t s =
     (let ctd = curthread s in
      if thread_need_resched s ctd then Some s
      else do {
        q \<leftarrow> se_sfq (ents s (td_to_se ctd));
        let scale = (nr_running (sfqs s q) \<ge> uint (sched_nr_latency (tun s)));
        if td_pri_class (threads s ctd) = PRI_IDLE K \<and> td_pri_class (threads s t) \<noteq> PRI_IDLE K
        then pss_preempt K ctd scale (td_to_se t) s
        else do {
          (c, e) \<leftarrow> find_common_ancestor s (Some (td_to_se ctd)) (Some (td_to_se t));
          c \<leftarrow> c;
          e \<leftarrow> e;
          q \<leftarrow> se_sfq (ents s c);
          s \<leftarrow> update_curr K q s;
          let (r, s) = wakeup_preempt_entity c e s;
          if r > 0 then do {
            s \<leftarrow> set_next_candidate K e s;
            pss_preempt K ctd scale e s }
          else Some s } })"

definition check_preempt_tick :: "qid \<Rightarrow> eid \<Rightarrow> 'q sched \<Rightarrow> 'q sched option" where
  "check_preempt_tick q e s = do {
     let ctd = curthread s;
     (ideal_slice, s) \<leftarrow> sched_slice q e s;
     let delta_exec = sum_exec_time (ents s e) - prev_sum_exec_time (ents s e);
     if delta_exec > ideal_slice then do {
       s \<leftarrow> clear_candidates q e s;
       Some (resched_thread ctd s) }
     else if delta_exec < sched_min_granularity (tun s) then Some s
     else case pick_first_entity q s of
            None \<Rightarrow> Some s
          | Some lm \<Rightarrow>
              (let delta = sint (vruntime (ents s e) - vruntime (ents s lm)) in
               if delta \<le> 0 then Some s
               else if delta > sint ideal_slice then Some (resched_thread ctd s) else Some s) }"

definition entity_tick :: "'q kern \<Rightarrow> qid \<Rightarrow> eid \<Rightarrow> 'q sched \<Rightarrow> 'q sched option" where
  "entity_tick K q e s = do {
     s \<leftarrow> update_curr K q s;
     if nr_running (sfqs s q) > 1 then check_preempt_tick q e s else Some s }"

definition pss_tick_thread :: "'q kern \<Rightarrow> tid \<Rightarrow> 'q sched \<Rightarrow> 'q sched option" where
  "pss_tick_thread K t s = do {
     (r, s) \<leftarrow> walkup par_of (each (\<lambda>e s. do {
         q \<leftarrow> se_sfq (ents s e);
         entity_tick K q e s })) (Some (td_to_se t)) s;
     Some s }"

definition pss_fork_thread :: "'q kern \<Rightarrow> tid \<Rightarrow> tid \<Rightarrow> 'q sched \<Rightarrow> 'q sched option" where
  "pss_fork_thread K cur child s = do {
     let e = td_to_se cur;
     let e2 = td_to_se child;
     q \<leftarrow> se_sfq (ents s e);
     let s = update_rq_clock K s;
     s \<leftarrow> update_curr K q s;
     let s = upd_se e2 (\<lambda>se. se\<lparr>vruntime := vruntime (ents s e)\<rparr>) s;
     s \<leftarrow> place_entity q e2 True s;
     let s = (if child_runs_first (tun s) \<and> entity_before s e e2
              then let tmp = vruntime (ents s e);
                       s = upd_se e (\<lambda>se. se\<lparr>vruntime := vruntime (ents s e2)\<rparr>) s;
                       s = upd_se e2 (\<lambda>se. se\<lparr>vruntime := tmp\<rparr>) s
                   in resched_thread cur s
              else s);
     Some (upd_se e2 (\<lambda>se. se\<lparr>vruntime := vruntime se - vtime (sfqs s q)\<rparr>) s) }"

definition sleeping_in_class :: "'q sched \<Rightarrow> tid \<Rightarrow> bool" where
  "sleeping_in_class s t \<longleftrightarrow>
     \<not> se_initial (ents s (td_to_se t)) \<and> \<not> TD_ON_RUNQ s t \<and> \<not> TD_IS_RUNNING s t"

definition pss_switched_from :: "tid \<Rightarrow> 'q sched \<Rightarrow> 'q sched option" where
  "pss_switched_from t s = do {
     let e = td_to_se t;
     if sleeping_in_class s t then do {
       q \<leftarrow> se_sfq (ents s e);
       s \<leftarrow> place_entity q e False s;
       Some (upd_se e (\<lambda>se. se\<lparr>vruntime := vruntime se - vtime (sfqs s q)\<rparr>) s) }
     else Some s }"

end
