(* ===== verification/Pss_Group.thy ===== *)
theory Pss_Group
  imports Pss
begin

text \<open>
  The group operations of \<open>pss.c\<close>. Memory from the zones and its failure are arguments: an
  address, or None when the allocator returns NULL; a fresh object is zeroed. Freeing leaves the
  store as it is, since nothing points to the object any more.
\<close>

definition zero_load :: load_weight where
  "zero_load = \<lparr>weight = 0, inv_weight = 0\<rparr>"

definition zero_entity :: sched_entity where
  "zero_entity = \<lparr>onsfq = False, onrunq = False, vruntime = 0, timing_start = 0, sum_exec_time = 0,
     prev_sum_exec_time = 0, se_initial = False, joined = False, se_load = zero_load,
     se_parent = None, se_sfq = None, my_q = None\<rparr>"

definition zero_sfq :: sfq where
  "zero_sfq = \<lparr>tl_root = None, leftmost = None, curr = None, skip = None, sfq_next = None, sfq_last = None,
     vtime = 0, nr_running = 0, sfq_load = zero_load, sfq_group = None, on_leaf_list = False\<rparr>"

definition zero_group :: sched_group where
  "zero_group = \<lparr>sg_id = 0, sg_name = [], sg_se = None, sg_sfq = None, sg_shares = 0, sg_parent = None,
     sg_children = [], sg_threads = []\<rparr>"

definition sfq_init :: "qid \<Rightarrow> 'q sched \<Rightarrow> 'q sched" where
  "sfq_init q s = upd_q q (\<lambda>c. c\<lparr>tl_root := None\<rparr>) s"

definition pss_init_rq :: "'q sched \<Rightarrow> 'q sched" where
  "pss_init_rq s = sfq_init RQ_SFQ s"

definition pss_init_group :: "gid \<Rightarrow> qid \<Rightarrow> eid option \<Rightarrow> eid option \<Rightarrow> 'q sched \<Rightarrow> 'q sched" where
  "pss_init_group g q se parent s =
     (let s = upd_q q (\<lambda>c. c\<lparr>sfq_group := Some g\<rparr>) s;
          s = upd_g g (\<lambda>r. r\<lparr>sg_sfq := Some q, sg_se := se\<rparr>) s
      in case se of
           None \<Rightarrow> s
         | Some e \<Rightarrow>
             let s = upd_se e (\<lambda>x. x\<lparr>se_sfq := (case parent of None \<Rightarrow> Some RQ_SFQ | Some p \<Rightarrow> my_q (ents s p))\<rparr>) s
             in upd_se e (\<lambda>x. x\<lparr>my_q := Some q, se_parent := parent, se_load := load_set 0 (se_load x)\<rparr>) s)"

definition clamp_shares :: "u64 \<Rightarrow> u64" where
  "clamp_shares n = (if n < MIN_SHARES then MIN_SHARES else if n > MAX_SHARES then MAX_SHARES else n)"

text \<open>The result tells success; the arrays of pointers are the fields \<open>sg_sfq\<close> and \<open>sg_se\<close>.\<close>

definition pss_alloc_sched_group ::
    "nat option \<Rightarrow> nat option \<Rightarrow> gid \<Rightarrow> gid \<Rightarrow> u32 \<Rightarrow> 'q sched \<Rightarrow> bool \<times> 'q sched" where
  "pss_alloc_sched_group new_sfq new_se g parent shares s =
     (let s = upd_g g (\<lambda>r. r\<lparr>sg_sfq := None, sg_se := None,
                sg_shares := (if shares = 0 then NICE_0_WEIGHT else clamp_shares (ucast shares))\<rparr>) s
      in case new_sfq of
           None \<Rightarrow> (False, s)
         | Some qn \<Rightarrow>
             (let s = upd_q (ZONE_SFQ qn) (\<lambda>_. zero_sfq) s
              in case new_se of
                   None \<Rightarrow> (False, s)
                 | Some en \<Rightarrow>
                     (let s = upd_se (ZONE_SE en) (\<lambda>_. zero_entity) s;
                          s = sfq_init (ZONE_SFQ qn) s
                      in (True, pss_init_group g (ZONE_SFQ qn) (Some (ZONE_SE en)) (sg_se (groups s parent)) s))))"

definition pss_free_sched_group :: "gid \<Rightarrow> 'q sched \<Rightarrow> 'q sched" where
  "pss_free_sched_group g s = s"

definition pss_sched_group_move :: "tid \<Rightarrow> bool \<Rightarrow> 'q sched \<Rightarrow> 'q sched option" where
  "pss_sched_group_move t on_rq s = do {
     let e = td_to_se t;
     s \<leftarrow> (if \<not> se_initial (ents s e) \<and> \<not> on_rq
          then do { q \<leftarrow> se_sfq (ents s e);
                    Some (upd_se e (\<lambda>x. x\<lparr>vruntime := vruntime x - vtime (sfqs s q)\<rparr>) s) }
          else Some s);
     s \<leftarrow> set_thread_rq t s;
     (if \<not> se_initial (ents s e) \<and> \<not> on_rq
      then do { q \<leftarrow> se_sfq (ents s e);
                Some (upd_se e (\<lambda>x. x\<lparr>vruntime := vruntime x + vtime (sfqs s q)\<rparr>) s) }
      else Some s) }"

text \<open>As written: a request of 0 ends up as 0, and the walk updates the queues above the group.\<close>

definition pss_sched_group_set_shares :: "'q kern \<Rightarrow> gid \<Rightarrow> u64 \<Rightarrow> 'q sched \<Rightarrow> (errno option \<times> 'q sched) option" where
  "pss_sched_group_set_shares K g shares s =
     (case sg_se (groups s g) of
        None \<Rightarrow> Some (Some EINVAL, s)
      | Some e \<Rightarrow>
          (let s = (if shares = 0 then upd_g g (\<lambda>r. r\<lparr>sg_shares := NICE_0_WEIGHT\<rparr>) s else s);
               shares = (if shares = 0 then 0 else clamp_shares shares)
           in if shares = sg_shares (groups s g) then Some (None, s)
              else do {
                let s = upd_g g (\<lambda>r. r\<lparr>sg_shares := shares\<rparr>) s;
                s \<leftarrow> update_shares_up K (Some e) s;
                Some (None, s) }))"

definition pss_unregister_sched_group :: "gid \<Rightarrow> 'q sched \<Rightarrow> 'q sched option" where
  "pss_unregister_sched_group g s = do {
     q \<leftarrow> sg_sfq (groups s g);
     Some (del_leaf_sfq q s) }"

end
