(* ===== verification/Sched_Pct.thy ===== *)
theory Sched_Pct
  imports Sched_Base "HOL-Library.Signed_Division"
begin

text \<open>
  The accounting of \<open>sched.c\<close> that no scheduling class takes part in: the decaying loads of a
  processor and the percentage of the processor a thread has used. The tick counters are 32-bit
  \<open>int\<close>s that wrap; their differences are read as signed numbers.
\<close>

section \<open>The decaying load\<close>

definition decay_to_zero_ticks :: "nat list" where
  "decay_to_zero_ticks = [0, 8, 32, 64, 128]"

definition power_of_2_decay_factors :: "u64 list list" where
  "power_of_2_decay_factors = [
     [0, 0, 0, 0, 0, 0, 0, 0],
     [64, 32, 8, 0, 0, 0, 0, 0],
     [96, 72, 40, 12, 1, 0, 0, 0],
     [112, 98, 75, 43, 15, 1, 0, 0],
     [120, 112, 98, 76, 45, 16, 2, 0]]"

text \<open>The loop over the bits of the number of missed updates: \<open>fs\<close> are the factors from bit j on.\<close>

function decay_loop :: "u64 list \<Rightarrow> u64 \<Rightarrow> u64 \<Rightarrow> u64 option" where
  "decay_loop fs load missed =
     (if missed = 0 then Some load
      else case fs of
             [] \<Rightarrow> None
           | f # fs \<Rightarrow>
               decay_loop fs (if bit missed 0 then drop_bit 7 (load * f) else load) (drop_bit 1 missed))"
  by pat_completeness auto
termination by (relation "measure (\<lambda>(fs, l, m). length fs)") auto

declare decay_loop.simps [simp del]

definition decay_cpu_load_missed :: "u64 \<Rightarrow> u64 \<Rightarrow> nat \<Rightarrow> u64 option" where
  "decay_cpu_load_missed load missed idx =
     (if missed = 0 then Some load
      else if missed \<ge> of_nat (decay_to_zero_ticks ! idx) then Some 0
      else if idx = 1 then Some (drop_bit (unat missed) load)
      else decay_loop (power_of_2_decay_factors ! idx) load missed)"

text \<open>\<open>cpu_load[i]\<close> for i from 1, with its scale.\<close>

definition load_step :: "u64 \<Rightarrow> u64 \<Rightarrow> nat \<Rightarrow> u64 \<Rightarrow> u64 option" where
  "load_step cur pending i old = do {
     let scale = push_bit i 1;
     old \<leftarrow> decay_cpu_load_missed old (pending - 1) i;
     let new = (if cur > old then cur + (scale - 1) else cur);
     Some (drop_bit i (old * (scale - 1) + new)) }"

fun load_steps :: "u64 \<Rightarrow> u64 \<Rightarrow> nat \<Rightarrow> u64 list \<Rightarrow> u64 list option" where
  "load_steps cur pending i [] = Some []"
| "load_steps cur pending i (old # loads) = do {
     l \<leftarrow> load_step cur pending i old;
     ls \<leftarrow> load_steps cur pending (Suc i) loads;
     Some (l # ls) }"

definition update_loads :: "u64 list \<Rightarrow> u64 \<Rightarrow> u64 \<Rightarrow> u64 list option" where
  "update_loads loads cur pending = do {
     ls \<leftarrow> load_steps cur pending 1 (tl loads);
     Some (cur # ls) }"

text \<open>\<open>cnt\<close> is an \<open>int\<close> converted to \<open>unsigned long\<close>, as \<open>ticks\<close> is.\<close>

definition update_cpu_load :: "u32 \<Rightarrow> 'q sched \<Rightarrow> 'q sched option" where
  "update_cpu_load cnt s = do {
     loads \<leftarrow> update_loads (cpu_load (rq s)) (weight (rq_load (rq s))) (scast cnt);
     Some (upd_rq (\<lambda>r. r\<lparr>last_cpu_load_tick := scast (ticks s), cpu_load := loads\<rparr>) s) }"

section \<open>The percentage of the processor\<close>

abbreviation SCHED_TICK_TARG :: "int \<Rightarrow> int" where "SCHED_TICK_TARG h \<equiv> h * 10"
abbreviation SCHED_TICK_MAX :: "int \<Rightarrow> int" where "SCHED_TICK_MAX h \<equiv> h * 10 + h"

text \<open>The quotient of two \<open>int\<close>s, which a zero divisor traps.\<close>

definition int_div :: "u32 \<Rightarrow> u32 \<Rightarrow> u32 option" where
  "int_div a b = (if b = 0 then None else Some (word_of_int (signed_divide (sint a) (sint b))))"

definition pctcpu_window :: "int \<Rightarrow> u32 \<Rightarrow> thread \<Rightarrow> thread option" where
  "pctcpu_window h t td =
     (if sint (t - ts_ltick td) \<ge> SCHED_TICK_TARG h
      then Some (td\<lparr>ts_ticks := 0, ts_ftick := t - word_of_int (SCHED_TICK_TARG h)\<rparr>)
      else if sint (t - ts_ftick td) \<ge> SCHED_TICK_MAX h then do {
        q \<leftarrow> int_div (ts_ticks td) (ts_ltick td - ts_ftick td);
        Some (td\<lparr>ts_ticks := q * (ts_ltick td - (t - word_of_int (SCHED_TICK_TARG h))),
                 ts_ftick := t - word_of_int (SCHED_TICK_TARG h)\<rparr>) }
      else Some td)"

definition sched_pctcpu_update :: "'q kern \<Rightarrow> tid \<Rightarrow> bool \<Rightarrow> 'q sched \<Rightarrow> 'q sched option" where
  "sched_pctcpu_update K th run s = do {
     let t = ticks s;
     td \<leftarrow> pctcpu_window (hz (clks K)) t (threads s th);
     let td = (if run then td\<lparr>ts_ticks := ts_ticks td + push_bit 10 (t - ts_ltick td)\<rparr> else td);
     Some (upd_td th (\<lambda>_. td\<lparr>ts_ltick := t\<rparr>) s) }"

text \<open>\<open>min\<close> is the kernel's minimum of two unsigned numbers; \<open>>>\<close> and the divisions are on \<open>int\<close>.\<close>

definition pctcpu_of :: "'q kern \<Rightarrow> u32 \<Rightarrow> int" where
  "pctcpu_of K tk =
     (if tk = 0 then 0
      else let rtick = uint (min (word_of_int (signed_divide (sint tk div 1024) 10)) (word_of_int (hz (clks K)) :: u32));
               FSCALE = 2 ^ FSHIFT K
           in (FSCALE * ((FSCALE * rtick) div hz (clks K))) div 2 ^ FSHIFT K)"

definition sched_pctcpu :: "'q kern \<Rightarrow> tid \<Rightarrow> 'q sched \<Rightarrow> (int \<times> 'q sched) option" where
  "sched_pctcpu K t s = do {
     s \<leftarrow> sched_pctcpu_update K t (TD_IS_RUNNING s t) s;
     Some (pctcpu_of K (ts_ticks (threads s t)), s) }"

end
