(* ===== verification/Sched_Class.thy ===== *)
theory Sched_Class
  imports Rt Pss_Group Sched_Pct
begin

text \<open>
  The dispatch through \<open>struct sched_class\<close>: each function pointer of the three class objects, and
  the services of \<open>sched.c\<close> that only forward to it. A NULL pointer (\<open>switched_from\<close> of the
  real-time and idle classes, \<open>sched_group_move\<close> of all but the proportional share class) is None
  in the second option.
\<close>

section \<open>The function pointers\<close>

fun class_put_prev_thread :: "'q kern \<Rightarrow> sched_class \<Rightarrow> tid \<Rightarrow> u32 \<Rightarrow> 'q sched \<Rightarrow> 'q sched option" where
  "class_put_prev_thread K realtime_class t flags s = rt_put_prev_thread K t flags s"
| "class_put_prev_thread K pss_class t flags s = pss_put_prev_thread K t flags s"
| "class_put_prev_thread K idle_class t flags s = Some (idle_put_prev_thread t flags s)"

fun class_pick_next_thread :: "'q kern \<Rightarrow> sched_class \<Rightarrow> 'q sched \<Rightarrow> (tid option \<times> 'q sched) option" where
  "class_pick_next_thread K realtime_class s = Some (rt_pick_next_thread K s, s)"
| "class_pick_next_thread K pss_class s = pss_pick_next_thread s"
| "class_pick_next_thread K idle_class s = Some (idle_pick_next_thread K s, s)"

fun class_activate_thread :: "'q kern \<Rightarrow> sched_class \<Rightarrow> tid \<Rightarrow> 'q sched \<Rightarrow> 'q sched option" where
  "class_activate_thread K realtime_class t s = rt_activate_thread K t s"
| "class_activate_thread K pss_class t s = pss_activate_thread K t s"
| "class_activate_thread K idle_class t s = Some (idle_activate_thread t s)"

fun class_sched_tick :: "'q kern \<Rightarrow> slices \<Rightarrow> sched_class \<Rightarrow> tid \<Rightarrow> 'q sched \<Rightarrow> 'q sched option" where
  "class_sched_tick K S realtime_class t s = Some (rt_tick K S t s)"
| "class_sched_tick K S pss_class t s = pss_tick_thread K t s"
| "class_sched_tick K S idle_class t s = Some (idle_tick t s)"

fun class_change_priority :: "'q kern \<Rightarrow> sched_class \<Rightarrow> tid \<Rightarrow> int \<Rightarrow> 'q sched \<Rightarrow> 'q sched option" where
  "class_change_priority K realtime_class t prio s = rt_change_priority K t prio s"
| "class_change_priority K pss_class t prio s = pss_change_priority K t prio s"
| "class_change_priority K idle_class t prio s = Some (idle_change_priority t prio s)"

fun class_check_preempt_curr :: "'q kern \<Rightarrow> sched_class \<Rightarrow> tid \<Rightarrow> 'q sched \<Rightarrow> 'q sched option" where
  "class_check_preempt_curr K realtime_class t s = Some (rt_check_preempt_curr t s)"
| "class_check_preempt_curr K pss_class t s = pss_check_preempt_curr K t s"
| "class_check_preempt_curr K idle_class t s = Some (idle_check_preempt_curr t s)"

fun class_enqueue_thread :: "'q kern \<Rightarrow> sched_class \<Rightarrow> tid \<Rightarrow> u32 \<Rightarrow> 'q sched \<Rightarrow> 'q sched option" where
  "class_enqueue_thread K realtime_class t flags s = rt_enqueue_thread K t flags s"
| "class_enqueue_thread K pss_class t flags s = pss_enqueue_thread K t flags s"
| "class_enqueue_thread K idle_class t flags s = Some (idle_enqueue_thread t flags s)"

fun class_dequeue_thread :: "'q kern \<Rightarrow> sched_class \<Rightarrow> tid \<Rightarrow> u32 \<Rightarrow> 'q sched \<Rightarrow> 'q sched option" where
  "class_dequeue_thread K realtime_class t flags s = rt_dequeue_thread K t flags s"
| "class_dequeue_thread K pss_class t flags s = pss_dequeue_thread K t flags s"
| "class_dequeue_thread K idle_class t flags s = Some (idle_dequeue_thread t flags s)"

fun class_fork_thread :: "'q kern \<Rightarrow> sched_class \<Rightarrow> tid \<Rightarrow> tid \<Rightarrow> 'q sched \<Rightarrow> 'q sched option" where
  "class_fork_thread K realtime_class t child s = Some (rt_fork_thread t child s)"
| "class_fork_thread K pss_class t child s = pss_fork_thread K t child s"
| "class_fork_thread K idle_class t child s = Some (idle_fork_thread t child s)"

section \<open>Preemption by a thread that becomes runnable\<close>

definition check_preempt_curr :: "'q kern \<Rightarrow> tid \<Rightarrow> 'q sched \<Rightarrow> 'q sched option" where
  "check_preempt_curr K t s =
     (let s = check_priority_preempt K t s;
          ctd = curthread s
      in if td_class (threads s ctd) = td_class (threads s t)
         then class_check_preempt_curr K (td_class (threads s ctd)) t s
         else Some s)"

definition pss_switched_to :: "'q kern \<Rightarrow> tid \<Rightarrow> 'q sched \<Rightarrow> 'q sched option" where
  "pss_switched_to K t s = do {
     let e = td_to_se t;
     if sleeping_in_class s t then do {
       q \<leftarrow> se_sfq (ents s e);
       Some (upd_se e (\<lambda>x. x\<lparr>vruntime := vruntime x + vtime (sfqs s q)\<rparr>) s) }
     else if curthread s = t then Some (resched_thread t s)
     else check_preempt_curr K t s }"

fun class_switched_from :: "'q kern \<Rightarrow> sched_class \<Rightarrow> tid \<Rightarrow> 'q sched \<Rightarrow> 'q sched option" where
  "class_switched_from K realtime_class t s = Some s"
| "class_switched_from K pss_class t s = pss_switched_from t s"
| "class_switched_from K idle_class t s = Some s"

fun class_switched_to :: "'q kern \<Rightarrow> sched_class \<Rightarrow> tid \<Rightarrow> 'q sched \<Rightarrow> 'q sched option" where
  "class_switched_to K realtime_class t s = Some (rt_switched_to t s)"
| "class_switched_to K pss_class t s = pss_switched_to K t s"
| "class_switched_to K idle_class t s = Some (idle_switched_to t s)"

fun class_sched_group_move :: "sched_class \<Rightarrow> tid \<Rightarrow> bool \<Rightarrow> 'q sched \<Rightarrow> 'q sched option" where
  "class_sched_group_move pss_class t on_rq s = pss_sched_group_move t on_rq s"
| "class_sched_group_move realtime_class t on_rq s = set_thread_rq t s"
| "class_sched_group_move idle_class t on_rq s = set_thread_rq t s"

section \<open>The forwarding services\<close>

definition thread_class :: "'q sched \<Rightarrow> tid \<Rightarrow> sched_class" where
  "thread_class s t = td_class (threads s t)"

definition enqueue_thread :: "'q kern \<Rightarrow> tid \<Rightarrow> u32 \<Rightarrow> 'q sched \<Rightarrow> 'q sched option" where
  "enqueue_thread K t flags s =
     (let s = update_rq_clock K s in class_enqueue_thread K (thread_class s t) t flags s)"

definition dequeue_thread :: "'q kern \<Rightarrow> tid \<Rightarrow> u32 \<Rightarrow> 'q sched \<Rightarrow> 'q sched option" where
  "dequeue_thread K t flags s =
     (let s = update_rq_clock K s in class_dequeue_thread K (thread_class s t) t flags s)"

definition put_prev_thread :: "'q kern \<Rightarrow> tid \<Rightarrow> u32 \<Rightarrow> 'q sched \<Rightarrow> 'q sched option" where
  "put_prev_thread K t flags s =
     (let s = (if joined (ents s (td_to_se t)) then update_rq_clock K s else s)
      in class_put_prev_thread K (thread_class s t) t flags s)"

definition activate_thread :: "'q kern \<Rightarrow> tid \<Rightarrow> 'q sched \<Rightarrow> 'q sched option" where
  "activate_thread K t s = do {
     s \<leftarrow> class_activate_thread K (thread_class s t) t s;
     cp \<leftarrow> cpupri_set (MAX_RT_PRI K) (IDLE_PRI K) 0 (td_priority (threads s t)) (root_cpupri s);
     Some (s\<lparr>root_cpupri := cp\<rparr>) }"

text \<open>
  The frame \<open>sched_nice\<close>, \<open>sched_class\<close> and \<open>sched_group_move\<close> have in common: a queued or
  running thread is taken off, changed, and put back where it was.
\<close>

definition on_rq_or_running :: "'q sched \<Rightarrow> tid \<Rightarrow> bool" where
  "on_rq_or_running s t \<longleftrightarrow> TD_ON_RUNQ s t \<or> TD_IS_RUNNING s t"

end
