(* ===== verification/Sched.thy ===== *)
theory Sched
  imports Sched_Class
begin

text \<open>
  The operations of \<open>sched.c\<close>: priorities and lending, the switch, nice values, sleeping and waking,
  forking, the change of class, the tick, and the choice of the next thread. Locks are left out: one
  processor, with the run queue lock held throughout each operation. \<open>S\<close> are the slices set at
  boot; \<open>adjust\<close> is \<open>turnstile_adjust\<close>, \<open>pick\<close> is \<open>choosethread\<close> and \<open>mi_switch\<close> the kernel's
  function of that name, which call back into the scheduler.
\<close>

section \<open>Priorities\<close>

definition sched_thread_priority :: "'q kern \<Rightarrow> tid \<Rightarrow> int \<Rightarrow> 'q sched \<Rightarrow> 'q sched option" where
  "sched_thread_priority K t prio s =
     (if td_priority (threads s t) = prio then Some s
      else class_change_priority K (thread_class s t) t prio s)"

definition sched_lend_prio :: "'q kern \<Rightarrow> tid \<Rightarrow> int \<Rightarrow> 'q sched \<Rightarrow> 'q sched option" where
  "sched_lend_prio K t prio s =
     sched_thread_priority K t prio (upd_td t (\<lambda>td. td\<lparr>td_borrowing := True\<rparr>) s)"

definition sched_unlend_prio :: "'q kern \<Rightarrow> tid \<Rightarrow> int \<Rightarrow> 'q sched \<Rightarrow> 'q sched option" where
  "sched_unlend_prio K t prio s =
     (let td = threads s t;
          base_pri = (if td_base_pri td \<ge> PRI_MIN_TIMESHARE K \<and> td_base_pri td \<le> PRI_MAX_TIMESHARE K
                      then td_user_pri td else td_base_pri td)
      in if prio \<ge> base_pri
         then sched_thread_priority K t base_pri (upd_td t (\<lambda>td. td\<lparr>td_borrowing := False\<rparr>) s)
         else sched_lend_prio K t prio s)"

definition sched_prio :: "'q kern \<Rightarrow> (tid \<Rightarrow> int \<Rightarrow> 'q sched \<Rightarrow> 'q sched) \<Rightarrow> tid \<Rightarrow> int \<Rightarrow> 'q sched \<Rightarrow> 'q sched option" where
  "sched_prio K adjust t prio s =
     (let s = upd_td t (\<lambda>td. td\<lparr>td_base_pri := prio\<rparr>) s in
      if td_borrowing (threads s t) \<and> td_priority (threads s t) < prio then Some s
      else do {
        let oldprio = td_priority (threads s t);
        s \<leftarrow> sched_thread_priority K t prio s;
        Some (if td_on_lock (threads s t) \<and> oldprio \<noteq> prio then adjust t oldprio s else s) })"

definition sched_user_prio :: "tid \<Rightarrow> int \<Rightarrow> 'q sched \<Rightarrow> 'q sched" where
  "sched_user_prio t prio s =
     (let s = upd_td t (\<lambda>td. td\<lparr>td_base_user_pri := prio\<rparr>) s in
      if td_lend_user_pri (threads s t) \<le> prio then s
      else upd_td t (\<lambda>td. td\<lparr>td_user_pri := prio\<rparr>) s)"

definition sched_lend_user_prio ::
    "'q kern \<Rightarrow> (tid \<Rightarrow> int \<Rightarrow> 'q sched \<Rightarrow> 'q sched) \<Rightarrow> tid \<Rightarrow> int \<Rightarrow> 'q sched \<Rightarrow> 'q sched option" where
  "sched_lend_user_prio K adjust t prio s =
     (let s = upd_td t (\<lambda>td. td\<lparr>td_lend_user_pri := prio\<rparr>) s;
          s = upd_td t (\<lambda>td. td\<lparr>td_user_pri := min prio (td_base_user_pri td)\<rparr>) s
      in if td_priority (threads s t) > td_user_pri (threads s t)
         then sched_prio K adjust t (td_user_pri (threads s t)) s
         else Some (if td_priority (threads s t) \<noteq> td_user_pri (threads s t) then resched_thread t s else s))"

definition sched_userret :: "tid \<Rightarrow> 'q sched \<Rightarrow> 'q sched option" where
  "sched_userret t s = do {
     kassert (\<not> td_borrowing (threads s t));
     Some (if td_priority (threads s t) \<noteq> td_user_pri (threads s t)
           then upd_td t (\<lambda>td. td\<lparr>td_priority := td_user_pri td, td_base_pri := td_user_pri td\<rparr>) s
           else s) }"

section \<open>Choosing and switching\<close>

partial_function (option) choose_from :: "'q kern \<Rightarrow> sched_class option \<Rightarrow> 'q sched \<Rightarrow> (tid \<times> 'q sched) option" where
  "choose_from K cls s =
     (case cls of
        None \<Rightarrow> None
      | Some c \<Rightarrow> do {
          (t, s) \<leftarrow> class_pick_next_thread K c s;
          case t of
            Some t \<Rightarrow> do {
              s \<leftarrow> class_activate_thread K (thread_class s t) t s;
              Some (t, s) }
          | None \<Rightarrow> choose_from K (class_next c) s })"

declare choose_from.simps [code]

definition sched_choose :: "'q kern \<Rightarrow> 'q sched \<Rightarrow> (tid \<times> 'q sched) option" where
  "sched_choose K s = choose_from K (Some realtime_class) s"

definition sched_runnable :: "'q sched \<Rightarrow> bool" where
  "sched_runnable s \<longleftrightarrow>
     (if td_idletd (threads s (curthread s)) then rq_nr_running (rq s) > 0
      else rq_nr_running (rq s) - 1 > 0)"

text \<open>
  The switch away from \<open>t\<close>, up to the context switch, which makes the chosen thread the current
  one; the last assignments are made when \<open>t\<close> runs again.
\<close>

definition switch_prepare :: "'q kern \<Rightarrow> tid \<Rightarrow> 'q sched \<Rightarrow> 'q sched option" where
  "switch_prepare K t s = do {
     s \<leftarrow> sched_pctcpu_update K t True s;
     let s = upd_td t (\<lambda>td. td\<lparr>td_oncpu := False, td_owepreempt := False, td_needresched := False, td_sliceend := False\<rparr>) s;
     Some (if \<not> td_idletd (threads s t) then upd_rq (\<lambda>r. r\<lparr>switchcnt := switchcnt r + 1\<rparr>) s else s) }"

definition sched_switch ::
    "'q kern \<Rightarrow> ('q sched \<Rightarrow> (tid \<times> 'q sched) option) \<Rightarrow> tid \<Rightarrow> u32 \<Rightarrow> 'q sched \<Rightarrow> (tid \<times> 'q sched) option" where
  "sched_switch K pick t flags s = do {
     s \<leftarrow> switch_prepare K t s;
     s \<leftarrow> (if TD_IS_RUNNING s t then put_prev_thread K t flags s
          else do {
            s \<leftarrow> dequeue_thread K t DEQUEUE_SLEEP s;
            put_prev_thread K t flags s });
     (new, s) \<leftarrow> pick s;
     if new \<noteq> t then do {
       s \<leftarrow> sched_pctcpu_update K new False s;
       Some (new, s\<lparr>curthread := new\<rparr>) }
     else Some (new, upd_td t (\<lambda>td. td\<lparr>td_oncpu := True\<rparr>) s) }"

definition sched_switch_resume :: "tid \<Rightarrow> 'q sched \<Rightarrow> 'q sched" where
  "sched_switch_resume t s = upd_td t (\<lambda>td. td\<lparr>td_oncpu := True\<rparr>) s"

definition sched_throw :: "'q kern \<Rightarrow> ('q sched \<Rightarrow> (tid \<times> 'q sched) option) \<Rightarrow> tid option \<Rightarrow> 'q sched \<Rightarrow> (tid \<times> 'q sched) option" where
  "sched_throw K pick td s = do {
     s \<leftarrow> (case td of
            None \<Rightarrow> Some s
          | Some t \<Rightarrow> do { s \<leftarrow> dequeue_thread K t 0 s; put_prev_thread K t 0 s });
     (new, s) \<leftarrow> pick s;
     Some (new, s\<lparr>curthread := new\<rparr>) }"

definition sched_fork_exit :: "tid \<Rightarrow> 'q sched \<Rightarrow> 'q sched" where
  "sched_fork_exit t s = upd_td t (\<lambda>td. td\<lparr>td_oncpu := True\<rparr>) s"

section \<open>Nice values\<close>

fun fold_opt :: "('a \<Rightarrow> 's \<Rightarrow> 's option) \<Rightarrow> 'a list \<Rightarrow> 's \<Rightarrow> 's option" where
  "fold_opt f [] s = Some s"
| "fold_opt f (x # xs) s = do { s \<leftarrow> f x s; fold_opt f xs s }"

definition sched_nice_thread :: "'q kern \<Rightarrow> int \<Rightarrow> tid \<Rightarrow> 'q sched \<Rightarrow> 'q sched option" where
  "sched_nice_thread K delta t s =
     (if thread_class s t \<noteq> pss_class then set_thread_weight K t s
      else do {
        let on_rq = TD_ON_RUNQ s t;
        let running = TD_IS_RUNNING s t;
        s \<leftarrow> (if on_rq \<or> running then dequeue_thread K t 0 s else Some s);
        s \<leftarrow> (if running then put_prev_thread K t 0 s else Some s);
        s \<leftarrow> set_thread_weight K t s;
        s \<leftarrow> (if on_rq \<or> running then enqueue_thread K t 0 s else Some s);
        s \<leftarrow> (if running then do { s \<leftarrow> activate_thread K t s; Some (set_td_state TDS_RUNNING t s) } else Some s);
        Some (if delta < 0 \<or> (delta > 0 \<and> running) then resched_thread (curthread s) s else s) })"

text \<open>\<open>old\<close> is the nice value of the process, \<open>ts\<close> are its threads, which all see the new one.\<close>

definition sched_nice :: "'q kern \<Rightarrow> int \<Rightarrow> tid list \<Rightarrow> int \<Rightarrow> 'q sched \<Rightarrow> 'q sched option" where
  "sched_nice K old ts nice s =
     (let delta = old - nice;
          s = s\<lparr>threads := (\<lambda>t. if t \<in> set ts then (threads s t)\<lparr>p_nice := nice\<rparr> else threads s t)\<rparr>
      in fold_opt (sched_nice_thread K delta) ts s)"

section \<open>Sleeping, waking and forking\<close>

definition sched_sleep :: "'q kern \<Rightarrow> (tid \<Rightarrow> int \<Rightarrow> 'q sched \<Rightarrow> 'q sched) \<Rightarrow> tid \<Rightarrow> int \<Rightarrow> 'q sched \<Rightarrow> 'q sched option" where
  "sched_sleep K adjust t prio s =
     (let s = upd_td t (\<lambda>td. td\<lparr>td_slptick := ticks s\<rparr>) s;
          s = (if td_suspended (threads s t) \<or> prio \<ge> PSOCK K then upd_td t (\<lambda>td. td\<lparr>td_canswap := True\<rparr>) s else s)
      in if and (td_pri_class (threads s t)) (not (PRI_FIFO_BIT K)) \<noteq> PRI_TIMESHARE K then Some s
         else if prio \<noteq> 0
         then (if prio_boost K = 1 then sched_prio K adjust t (prio mod 256) s
               else if prio < prio_boost K then sched_prio K adjust t (prio mod 256) s
               else Some s)
         else Some s)"

definition sched_add :: "'q kern \<Rightarrow> tid \<Rightarrow> 'q sched \<Rightarrow> 'q sched option" where
  "sched_add K t s = do {
     let e = td_to_se t;
     let initial = se_initial (ents s e);
     let s = upd_se e (\<lambda>x. x\<lparr>se_initial := False\<rparr>) s;
     s \<leftarrow> enqueue_thread K t (if initial then 0 else ENQUEUE_WAKEUP) s;
     check_preempt_curr K t s }"

definition sched_wakeup :: "'q kern \<Rightarrow> tid \<Rightarrow> 'q sched \<Rightarrow> 'q sched option" where
  "sched_wakeup K t s = sched_add K t (upd_td t (\<lambda>td. td\<lparr>td_canswap := False\<rparr>) s)"

definition sched_rem :: "'q kern \<Rightarrow> tid \<Rightarrow> 'q sched \<Rightarrow> 'q sched option" where
  "sched_rem K t s = do {
     kassert (t \<noteq> curthread s);
     kassert (TD_ON_RUNQ s t);
     s \<leftarrow> class_dequeue_thread K (thread_class s t) t 0 s;
     Some (set_td_state TDS_CAN_RUN t s) }"

definition sched_group_register_thread :: "tid \<Rightarrow> 'q sched \<Rightarrow> 'q sched option" where
  "sched_group_register_thread t s = do {
     g \<leftarrow> td_group (threads s t);
     Some (upd_g g (\<lambda>r. r\<lparr>sg_threads := sg_threads r @ [t]\<rparr>) s) }"

definition sched_group_unregister_thread :: "tid \<Rightarrow> 'q sched \<Rightarrow> 'q sched option" where
  "sched_group_unregister_thread t s = do {
     g \<leftarrow> td_group (threads s t);
     Some (upd_g g (\<lambda>r. r\<lparr>sg_threads := remove1 t (sg_threads r)\<rparr>) s) }"

definition sched_fork_thread :: "'q kern \<Rightarrow> tid \<Rightarrow> tid \<Rightarrow> 'q sched \<Rightarrow> 'q sched option" where
  "sched_fork_thread K t child s = do {
     let e = td_to_se t;
     let e2 = td_to_se child;
     let s = upd_td child (\<lambda>td. td\<lparr>ts_bound := False, td_class := thread_class s t, ts_cpu := ts_cpu (threads s t)\<rparr>) s;
     let s = upd_se e2 (\<lambda>x. x\<lparr>onsfq := False, onrunq := False, joined := False, se_initial := True,
                             se_load := se_load (ents s e)\<rparr>) s;
     let s = upd_td child (\<lambda>td. td\<lparr>td_group := td_group (threads s t)\<rparr>) s;
     s \<leftarrow> sched_group_register_thread child s;
     s \<leftarrow> set_thread_rq child s;
     let s = upd_td child (\<lambda>td. td\<lparr>td_priority := td_base_pri td, ts_ticks := 0, ts_ltick := ticks s, ts_ftick := ticks s\<rparr>) s;
     class_fork_thread K (thread_class s child) t child s }"

definition sched_fork :: "'q kern \<Rightarrow> tid \<Rightarrow> tid \<Rightarrow> 'q sched \<Rightarrow> 'q sched option" where
  "sched_fork K t child s = do {
     kassert (t = curthread s);
     s \<leftarrow> sched_pctcpu_update K t True s;
     sched_fork_thread K t child s }"

text \<open>The first thread of the process, NULL if it has none, is passed on and not read.\<close>

definition sched_exit_thread :: "tid option \<Rightarrow> tid \<Rightarrow> 'q sched \<Rightarrow> 'q sched option" where
  "sched_exit_thread t child s = sched_group_unregister_thread child s"

definition sched_exit :: "tid list \<Rightarrow> tid \<Rightarrow> 'q sched \<Rightarrow> 'q sched option" where
  "sched_exit ts child s = sched_exit_thread (case ts of [] \<Rightarrow> None | t # _ \<Rightarrow> Some t) child s"

section \<open>The scheduling class of a thread\<close>

text \<open>\<open>PRI_BASE\<close> clears the first-in-first-out bit; an unknown class panics.\<close>

definition get_sched_class :: "'q kern \<Rightarrow> tid \<Rightarrow> u8 \<Rightarrow> 'q sched \<Rightarrow> sched_class option" where
  "get_sched_class K t pri_class s =
     (if pri_class = PRI_ITHD K \<or> and pri_class (not (PRI_FIFO_BIT K)) = PRI_REALTIME K then Some realtime_class
      else if pri_class = PRI_TIMESHARE K then Some pss_class
      else if pri_class = PRI_IDLE K then Some (if td_idletd (threads s t) then idle_class else pss_class)
      else None)"

definition check_class_changed :: "'q kern \<Rightarrow> tid \<Rightarrow> sched_class \<Rightarrow> 'q sched \<Rightarrow> 'q sched option" where
  "check_class_changed K t prev_class s =
     (if prev_class \<noteq> thread_class s t then do {
        s \<leftarrow> class_switched_from K prev_class t s;
        class_switched_to K (thread_class s t) t s }
      else Some s)"

definition sched_class_change :: "'q kern \<Rightarrow> tid \<Rightarrow> u8 \<Rightarrow> 'q sched \<Rightarrow> 'q sched option" where
  "sched_class_change K t pri_class s =
     (if td_pri_class (threads s t) = pri_class then Some s
      else do {
        let prev_class = thread_class s t;
        new_class \<leftarrow> get_sched_class K t pri_class s;
        let running = TD_IS_RUNNING s t;
        let on_rq = TD_ON_RUNQ s t;
        s \<leftarrow> (if on_rq \<or> running then class_dequeue_thread K prev_class t 0 s else Some s);
        s \<leftarrow> (if running then class_put_prev_thread K prev_class t 0 s else Some s);
        let s = upd_td t (\<lambda>td. td\<lparr>td_pri_class := pri_class, td_class := new_class\<rparr>) s;
        s \<leftarrow> (if on_rq \<or> running then class_enqueue_thread K (thread_class s t) t 0 s else Some s);
        s \<leftarrow> (if running then do {
               s \<leftarrow> class_activate_thread K (thread_class s t) t s;
               Some (set_td_state TDS_RUNNING t s) }
             else Some s);
        check_class_changed K t prev_class s })"

section \<open>Ticks\<close>

definition sched_tick :: "'q kern \<Rightarrow> slices \<Rightarrow> u32 \<Rightarrow> 'q sched \<Rightarrow> 'q sched option" where
  "sched_tick K S cnt s = do {
     let t = curthread s;
     let s = s\<lparr>times := sched_time_tick (clks K) (times s)\<rparr>;
     s \<leftarrow> update_cpu_load cnt s;
     let s = update_rq_clock K s;
     class_sched_tick K S (thread_class s t) t s }"

text \<open>The idle statistics \<open>(idlecalls, oldidlecalls)\<close> of the processor are aged with the tick.\<close>

definition sched_clock :: "'q kern \<Rightarrow> tid \<Rightarrow> u32 \<times> u32 \<Rightarrow> 'q sched \<Rightarrow> ((u32 \<times> u32) \<times> 'q sched) option" where
  "sched_clock K t stat s = do {
     s \<leftarrow> sched_pctcpu_update K t True s;
     Some ((0, fst stat), s) }"

section \<open>Binding and yielding\<close>

definition sched_unbind :: "tid \<Rightarrow> 'q sched \<Rightarrow> 'q sched option" where
  "sched_unbind t s = do {
     kassert (t = curthread s);
     Some (if \<not> ts_bound (threads s t) then s
           else upd_td t (\<lambda>td. td\<lparr>ts_bound := False, td_pinned := td_pinned td - 1\<rparr>) s) }"

definition sched_bind :: "('q sched \<Rightarrow> 'q sched option) \<Rightarrow> tid \<Rightarrow> nat \<Rightarrow> 'q sched \<Rightarrow> 'q sched option" where
  "sched_bind mi_switch t cpu s = do {
     kassert (t = curthread s);
     s \<leftarrow> (if ts_bound (threads s t) then sched_unbind t s else Some s);
     kassert (td_pinned (threads s t) = 0);
     let s = upd_td t (\<lambda>td. td\<lparr>ts_bound := True, td_pinned := td_pinned td + 1\<rparr>) s;
     if cpu = 0 then Some s
     else mi_switch (upd_td t (\<lambda>td. td\<lparr>ts_cpu := cpu\<rparr>) s) }"

definition sched_is_bound :: "tid \<Rightarrow> 'q sched \<Rightarrow> bool" where
  "sched_is_bound t s = ts_bound (threads s t)"

definition sched_load :: "'q sched \<Rightarrow> int" where
  "sched_load s = rq_nr_sysrunning (rq s)"

definition sched_rr_interval :: "slices \<Rightarrow> int" where
  "sched_rr_interval S = rr_sched_slice S"

section \<open>Start\<close>

definition schedinit :: "tid \<Rightarrow> 'q sched \<Rightarrow> 'q sched" where
  "schedinit t s = upd_td t (\<lambda>td. td\<lparr>ts_ltick := ticks s, ts_ftick := ticks s, td_class := pss_class\<rparr>) s"

definition rq_setup :: "'q kern \<Rightarrow> 'q sched \<Rightarrow> 'q sched" where
  "rq_setup K s =
     (let (now, s) = cpu_clock K s;
          s = upd_rq (\<lambda>r. r\<lparr>rq_clock := now, leaf_sfq_list := []\<rparr>) s
      in pss_init_rq (rt_init_rq K s))"

text \<open>\<open>t\<close> is thread0; \<open>sc\<close> and \<open>ncpu\<close> are the scaling tunable and the number of processors.\<close>

definition sched_setup :: "'q kern \<Rightarrow> int \<Rightarrow> nat \<Rightarrow> tid \<Rightarrow> 'q sched \<Rightarrow> 'q sched option" where
  "sched_setup K sc ncpu t s = do {
     let s = s\<lparr>root_cpupri := cpupri_init [0]\<rparr>;
     let s = s\<lparr>tun := pss_sched_init sc ncpu (tun s)\<rparr>;
     let s = rq_setup K s;
     let s = upd_g ROOT_GROUP (\<lambda>r. r\<lparr>sg_children := [], sg_threads := [t]\<rparr>) s;
     let s = s\<lparr>all_sched_groups := [ROOT_GROUP]\<rparr>;
     let s = pss_init_group ROOT_GROUP RQ_SFQ None None s;
     let s = upd_td t (\<lambda>td. td\<lparr>td_base_user_pri := NORMAL_PRI K, td_user_pri := NORMAL_PRI K\<rparr>) s;
     s \<leftarrow> set_thread_weight K t s;
     let s = upd_td t (\<lambda>td. td\<lparr>td_group := Some ROOT_GROUP\<rparr>) s;
     s \<leftarrow> set_thread_rq t s;
     s \<leftarrow> enqueue_thread K t 0 s;
     activate_thread K t s }"

end
