(* ===== verification/Sched_Idle.thy ===== *)
theory Sched_Idle
  imports Sched
begin

text \<open>
  The two functions that hand over to the kernel, \<open>sched_relinquish\<close> and \<open>sched_idletd\<close>. \<open>mi_switch\<close>, given its
  flags, and \<open>cpu_idle\<close>, given whether the processor is busy, are arguments; during \<open>cpu_idle\<close> interrupts may
  make threads runnable.
\<close>

definition sched_relinquish ::
    "'q kern \<Rightarrow> (u32 \<Rightarrow> 'q sched \<Rightarrow> 'q sched option) \<Rightarrow> u32 \<Rightarrow> tid \<Rightarrow> 'q sched \<Rightarrow> 'q sched option" where
  "sched_relinquish K mi_switch SW_VOL t s = mi_switch (or SW_VOL (SWT_RELINQUISH K)) s"

section \<open>The idle thread\<close>

record pcpuidlestat =
  idlecalls :: u32
  oldidlecalls :: u32

text \<open>The wait for a runnable thread, and one round of the endless loop.\<close>

partial_function (option) idle_wait ::
    "(bool \<Rightarrow> 'q sched \<Rightarrow> 'q sched) \<Rightarrow> pcpuidlestat \<Rightarrow> 'q sched \<Rightarrow> (pcpuidlestat \<times> 'q sched) option" where
  "idle_wait cpu_idle stat s =
     (if \<not> sched_runnable s
      then let s = cpu_idle (idlecalls stat + oldidlecalls stat > 64) s;
               stat = stat\<lparr>idlecalls := idlecalls stat + 1\<rparr>
           in idle_wait cpu_idle stat s
      else Some (stat, s))"

definition idletd_round ::
    "(u32 \<Rightarrow> 'q sched \<Rightarrow> 'q sched option) \<Rightarrow> u32 \<Rightarrow> (bool \<Rightarrow> 'q sched \<Rightarrow> 'q sched) \<Rightarrow> pcpuidlestat \<times> 'q sched \<Rightarrow>
     (pcpuidlestat \<times> 'q sched) option" where
  "idletd_round mi_switch flags cpu_idle = (\<lambda>(stat, s). do {
     (stat, s) \<leftarrow> idle_wait cpu_idle stat s;
     s \<leftarrow> mi_switch flags s;
     Some (stat, s) })"

text \<open>The processor idles until an interrupt makes a thread runnable; each time is counted.\<close>

primrec idle_steps :: "(bool \<Rightarrow> 'q sched \<Rightarrow> 'q sched) \<Rightarrow> nat \<Rightarrow> pcpuidlestat \<Rightarrow> 'q sched \<Rightarrow> 'q sched" where
  "idle_steps f 0 stat s = s"
| "idle_steps f (Suc n) stat s =
     idle_steps f n (stat\<lparr>idlecalls := idlecalls stat + 1\<rparr>) (f (idlecalls stat + oldidlecalls stat > 64) s)"

lemma idle_wait_ends:
  assumes "\<And>k. k < n \<Longrightarrow> \<not> sched_runnable (idle_steps f k stat s)" "sched_runnable (idle_steps f n stat s)"
  shows "idle_wait f stat s = Some (stat\<lparr>idlecalls := idlecalls stat + of_nat n\<rparr>, idle_steps f n stat s)"
  using assms
proof (induction n arbitrary: stat s)
  case 0
  then show ?case by (simp add: idle_wait.simps [of f stat s])
next
  case (Suc n)
  let ?stat = "stat\<lparr>idlecalls := idlecalls stat + 1\<rparr>" and ?s = "f (idlecalls stat + oldidlecalls stat > 64) s"
  have "\<not> sched_runnable s" using Suc.prems(1) [of 0] by simp
  then have "idle_wait f stat s = idle_wait f ?stat ?s" by (simp add: idle_wait.simps [of f stat s] Let_def)
  also have "\<dots> = Some (?stat\<lparr>idlecalls := idlecalls ?stat + of_nat n\<rparr>, idle_steps f n ?stat ?s)"
    by (rule Suc.IH) (use Suc.prems(1) [of "Suc k" for k] Suc.prems(2) in auto)
  finally show ?case by (simp add: add.commute add.left_commute)
qed

lemma idletd_round_ok:
  assumes "\<And>k. k < n \<Longrightarrow> \<not> sched_runnable (idle_steps f k stat s)" "sched_runnable (idle_steps f n stat s)"
    and "mi_switch flags (idle_steps f n stat s) = Some s'"
  shows "idletd_round mi_switch flags f (stat, s) = Some (stat\<lparr>idlecalls := idlecalls stat + of_nat n\<rparr>, s')"
  using idle_wait_ends [OF assms(1,2)] assms(3) by (simp add: idletd_round_def)

end
