(* ===== verification/Pss_Core.thy ===== *)
theory Pss_Core
  imports Pss
begin

text \<open>
  The part of the state the queue invariants speak of, and the operations of \<open>pss.c\<close> that leave it
  alone: charging the running entity, placing an entity, computing slices, the run-queue boost.
  What each of them promises beside is that the keys of queued entities do not move.
\<close>

section \<open>The core of queues and entities\<close>

definition qcore :: "sfq \<Rightarrow> eid option \<times> eid option \<times> eid option \<times> eid option \<times> eid option \<times> eid option \<times> int \<times> u64 \<times> gid option" where
  "qcore c = (tl_root c, leftmost c, curr c, skip c, sfq_next c, sfq_last c, nr_running c,
     weight (sfq_load c), sfq_group c)"

definition ecore :: "sched_entity \<Rightarrow> bool \<times> bool \<times> u64 \<times> eid option \<times> qid option \<times> qid option" where
  "ecore e = (onsfq e, joined e, weight (se_load e), se_parent e, se_sfq e, my_q e)"

definition same_core :: "'q sched \<Rightarrow> 'q sched \<Rightarrow> bool" where
  "same_core s s' \<longleftrightarrow> tlinks s' = tlinks s \<and> groups s' = groups s \<and> tun s' = tun s \<and> curthread s' = curthread s \<and>
     weight (rq_load (rq s')) = weight (rq_load (rq s)) \<and>
     (\<forall>q. qcore (sfqs s' q) = qcore (sfqs s q)) \<and> (\<forall>e. ecore (ents s' e) = ecore (ents s e))"

text \<open>The run-queue flags, and the keys of queued entities.\<close>

definition same_runq :: "'q sched \<Rightarrow> 'q sched \<Rightarrow> bool" where
  "same_runq s s' \<longleftrightarrow> (\<forall>e. onrunq (ents s' e) = onrunq (ents s e))"

definition same_keys :: "'q sched \<Rightarrow> 'q sched \<Rightarrow> bool" where
  "same_keys s s' \<longleftrightarrow> (\<forall>e. onsfq (ents s e) \<longrightarrow> vruntime (ents s' e) = vruntime (ents s e))"

lemma same_refl [simp, intro]: "same_core s s" "same_runq s s" "same_keys s s"
  by (simp_all add: same_core_def same_runq_def same_keys_def)

lemma same_core_trans: "same_core s s' \<Longrightarrow> same_core s' s'' \<Longrightarrow> same_core s s''"
  by (simp add: same_core_def)

lemma same_runq_trans: "same_runq s s' \<Longrightarrow> same_runq s' s'' \<Longrightarrow> same_runq s s''"
  by (simp add: same_runq_def)

lemma same_coreD:
  assumes "same_core s s'"
  shows "tlinks s' = tlinks s" "groups s' = groups s" "tun s' = tun s" "curthread s' = curthread s"
    "weight (rq_load (rq s')) = weight (rq_load (rq s))"
    "tl_root (sfqs s' q) = tl_root (sfqs s q)" "leftmost (sfqs s' q) = leftmost (sfqs s q)"
    "curr (sfqs s' q) = curr (sfqs s q)" "skip (sfqs s' q) = skip (sfqs s q)"
    "sfq_next (sfqs s' q) = sfq_next (sfqs s q)" "sfq_last (sfqs s' q) = sfq_last (sfqs s q)"
    "nr_running (sfqs s' q) = nr_running (sfqs s q)"
    "weight (sfq_load (sfqs s' q)) = weight (sfq_load (sfqs s q))"
    "sfq_group (sfqs s' q) = sfq_group (sfqs s q)"
    "onsfq (ents s' e) = onsfq (ents s e)" "joined (ents s' e) = joined (ents s e)"
    "weight (se_load (ents s' e)) = weight (se_load (ents s e))"
    "se_parent (ents s' e) = se_parent (ents s e)" "se_sfq (ents s' e) = se_sfq (ents s e)"
    "my_q (ents s' e) = my_q (ents s e)"
  using assms by (auto simp: same_core_def qcore_def ecore_def)

lemma same_keys_trans: "same_keys s s' \<Longrightarrow> same_core s s' \<Longrightarrow> same_keys s' s'' \<Longrightarrow> same_keys s s''"
  by (simp add: same_keys_def same_coreD)

lemma core_simps [simp]:
  "qcore (c\<lparr>vtime := v\<rparr>) = qcore c" "qcore (c\<lparr>on_leaf_list := b\<rparr>) = qcore c"
  "ecore (x\<lparr>vruntime := v\<rparr>) = ecore x" "ecore (x\<lparr>timing_start := v\<rparr>) = ecore x"
  "ecore (x\<lparr>sum_exec_time := v\<rparr>) = ecore x" "ecore (x\<lparr>prev_sum_exec_time := v\<rparr>) = ecore x"
  "ecore (x\<lparr>onrunq := b\<rparr>) = ecore x" "ecore (x\<lparr>se_initial := b\<rparr>) = ecore x"
  by (simp_all add: qcore_def ecore_def)

lemma core_load:
  "weight lw = weight (sfq_load c) \<Longrightarrow> qcore (c\<lparr>sfq_load := lw\<rparr>) = qcore c"
  "weight lw = weight (se_load x) \<Longrightarrow> ecore (x\<lparr>se_load := lw\<rparr>) = ecore x"
  by (simp_all add: qcore_def ecore_def)

lemma same_core_upd:
  "same_core s (upd_td t f s)"
  "(\<And>c. c = sfqs s q \<Longrightarrow> qcore (g c) = qcore c) \<Longrightarrow> same_core s (upd_q q g s)"
  "(\<And>x. x = ents s e \<Longrightarrow> ecore (h x) = ecore x) \<Longrightarrow> same_core s (upd_se e h s)"
  "(\<And>r. weight (rq_load (k r)) = weight (rq_load r)) \<Longrightarrow> same_core s (upd_rq k s)"
  by (auto simp: same_core_def)

section \<open>Operations outside the core\<close>

lemma resched_frame [simp]:
  "same_core s (resched_thread t s)" "same_runq s (resched_thread t s)" "same_keys s (resched_thread t s)"
  by (simp_all add: same_core_def same_runq_def same_keys_def resched_thread_def)

lemma set_td_state_frame [simp]:
  "same_core s (set_td_state st t s)" "same_runq s (set_td_state st t s)" "same_keys s (set_td_state st t s)"
  by (simp_all add: same_core_def same_runq_def same_keys_def set_td_state_def)

lemma fix_user_pri_frame [simp]:
  "same_core s (fix_user_pri K t s)" "ents (fix_user_pri K t s) = ents s" "sfqs (fix_user_pri K t s) = sfqs s"
  "rq (fix_user_pri K t s) = rq s"
  by (simp_all add: same_core_def fix_user_pri_def)

lemma update_sfq_vtime_frame [simp]:
  "same_core s (update_sfq_vtime q s)" "ents (update_sfq_vtime q s) = ents s"
  by (auto simp: update_sfq_vtime_def Let_def intro!: same_core_upd split: option.splits)

lemma update_sfq_vtime_tr [simp]:
  "threads (update_sfq_vtime q s) = threads s" "rq (update_sfq_vtime q s) = rq s"
  "curthread (update_sfq_vtime q s) = curthread s" "tun (update_sfq_vtime q s) = tun s"
  by (auto simp: update_sfq_vtime_def Let_def split: option.splits)

lemma scale_delta_state:
  "\<exists>d lw. scale_delta delta e s = (d, upd_se e (\<lambda>se. se\<lparr>se_load := lw\<rparr>) s) \<and> weight lw = weight (se_load (ents s e))"
proof (cases "weight (se_load (ents s e)) = NICE_0_WEIGHT")
  case True
  have "upd_se e (\<lambda>se. se\<lparr>se_load := se_load (ents s e)\<rparr>) s = s"
    by (simp add: upd_se_def fun_upd_idem)
  then show ?thesis using True unfolding scale_delta_def by metis
next
  case False
  obtain d lw where d: "scale_by_weight delta NICE_0_WEIGHT (se_load (ents s e)) = (d, lw)" by fastforce
  then have "weight lw = weight (se_load (ents s e))"
    using scale_by_weight_load [of delta NICE_0_WEIGHT "se_load (ents s e)"] by simp
  then show ?thesis using False d by (auto simp: scale_delta_def)
qed

lemma scale_delta_frame:
  assumes "scale_delta delta e s = (d, s')"
  shows "same_core s s'" "same_runq s s'" "same_keys s s'" "threads s' = threads s" "sfqs s' = sfqs s"
    "rq s' = rq s" "vruntime (ents s' x) = vruntime (ents s x)"
    "sum_exec_time (ents s' x) = sum_exec_time (ents s x)"
    "timing_start (ents s' x) = timing_start (ents s x)"
  using scale_delta_state [of delta e s] assms
  by (auto simp: same_runq_def same_keys_def core_load intro!: same_core_upd split: if_splits)

lemma charge_curr_frame:
  assumes "\<not> onsfq (ents s c)"
  shows "same_core s (charge_curr q c s)" "same_runq s (charge_curr q c s)" "same_keys s (charge_curr q c s)"
    "threads (charge_curr q c s) = threads s"
    "e \<noteq> c \<Longrightarrow> vruntime (ents (charge_curr q c s) e) = vruntime (ents s e)"
proof -
  define d where "d = clock_thread (rq s) - timing_start (ents s c)"
  define s1 where "s1 = upd_se c (\<lambda>se. se\<lparr>sum_exec_time := sum_exec_time se + d\<rparr>) s"
  obtain w s2 where s2: "scale_delta d c s1 = (w, s2)" by fastforce
  define s3 where "s3 = upd_se c (\<lambda>se. se\<lparr>vruntime := vruntime se + w, timing_start := clock_thread (rq s)\<rparr>) s2"
  have eq: "charge_curr q c s = (if d = 0 then s else update_sfq_vtime q s3)"
    using s2 by (simp add: charge_curr_def Let_def s3_def s1_def d_def)
  have 1: "same_core s s1" "same_runq s s1" "same_keys s s1" "threads s1 = threads s"
    by (auto simp: s1_def same_runq_def same_keys_def intro!: same_core_upd)
  note 2 = scale_delta_frame [OF s2]
  have 3: "same_core s2 s3" "same_runq s2 s3" "threads s3 = threads s2"
    by (auto simp: s3_def same_runq_def intro!: same_core_upd)
  have v: "e \<noteq> c \<Longrightarrow> vruntime (ents s3 e) = vruntime (ents s e)" for e
    by (simp add: s3_def 2 s1_def)
  have k: "same_keys s s3" using v assms unfolding same_keys_def by metis
  show "same_core s (charge_curr q c s)"
    using 1 2 3 same_core_trans update_sfq_vtime_frame(1) unfolding eq by (smt (verit) same_refl(1))
  show "same_runq s (charge_curr q c s)" using 1 2 3 by (auto simp: eq same_runq_def)
  show "same_keys s (charge_curr q c s)" using k by (auto simp: eq same_keys_def)
  show "threads (charge_curr q c s) = threads s" using 1 2 3 by (simp add: eq)
  show "e \<noteq> c \<Longrightarrow> vruntime (ents (charge_curr q c s) e) = vruntime (ents s e)" using v by (simp add: eq)
qed

text \<open>The running entity of a queue, when it stands for a thread, is embedded in one.\<close>

definition thread_ok :: "'q sched \<Rightarrow> eid \<Rightarrow> bool" where
  "thread_ok s e \<longleftrightarrow> (entity_is_thread s e \<longrightarrow> (\<exists>t. e = TD_SE t))"

lemma thread_okD: "thread_ok s e \<Longrightarrow> entity_is_thread s e \<Longrightarrow> \<exists>t. e = TD_SE t \<and> se_to_td s e = Some t"
  by (auto simp: thread_ok_def se_to_td_def)

lemma update_curr_ok:
  assumes "\<And>c. curr (sfqs s q) = Some c \<Longrightarrow> \<not> onsfq (ents s c) \<and> thread_ok s c"
  shows "\<exists>s'. update_curr K q s = Some s' \<and> same_core s s' \<and> same_runq s s' \<and> same_keys s s' \<and>
    (\<forall>e. curr (sfqs s q) \<noteq> Some e \<longrightarrow> vruntime (ents s' e) = vruntime (ents s e)) \<and>
    (\<forall>t. td_priority (threads s' t) = td_priority (threads s t) \<and> td_state (threads s' t) = td_state (threads s t) \<and>
         td_class (threads s' t) = td_class (threads s t))"
proof (cases "curr (sfqs s q)")
  case None
  then show ?thesis by (simp add: update_curr_def)
next
  case (Some c)
  define s1 where "s1 = (case se_to_td s c of Some t \<Rightarrow> fix_user_pri K t s | None \<Rightarrow> s)"
  have s1: "same_core s s1" "same_runq s s1" "same_keys s s1" "ents s1 = ents s" "sfqs s1 = sfqs s"
    by (auto simp: s1_def same_runq_def same_keys_def split: option.splits)
  have th: "td_priority (threads s1 t) = td_priority (threads s t)" "td_state (threads s1 t) = td_state (threads s t)"
    "td_class (threads s1 t) = td_class (threads s t)" for t
    by (auto simp: s1_def fix_user_pri_def split: option.splits)
  have "update_curr K q s = Some (charge_curr q c s1)"
    using Some assms [OF Some] thread_okD [of s c]
    by (cases "entity_is_thread s c") (auto simp: update_curr_def s1_def se_to_td_def)
  moreover have "\<not> onsfq (ents s1 c)" using assms [OF Some] s1 by simp
  note f = charge_curr_frame [OF this, where q = q]
  have "same_core s (charge_curr q c s1)" using s1(1) f(1) same_core_trans by blast
  moreover have "same_runq s (charge_curr q c s1)" "same_keys s (charge_curr q c s1)"
    using f(2,3) s1(4) by (auto simp: same_runq_def same_keys_def)
  ultimately show ?thesis using f(4,5) s1 th Some by auto
qed

lemma place_entity_wakeup:
  "place_entity q e False s =
     Some (upd_se e (\<lambda>se. se\<lparr>vruntime := max_vruntime (vruntime se)
       (vtime (sfqs s q) - (if gentle_sleeper (tun s) then drop_bit 1 (sched_min_granularity (tun s))
                            else sched_min_granularity (tun s)))\<rparr>) s)"
  by (simp add: place_entity_def Let_def)

lemma upd_vruntime_frame:
  assumes "\<not> onsfq (ents s e)"
  shows "same_core s (upd_se e (\<lambda>se. se\<lparr>vruntime := f se\<rparr>) s)"
    "same_runq s (upd_se e (\<lambda>se. se\<lparr>vruntime := f se\<rparr>) s)"
    "same_keys s (upd_se e (\<lambda>se. se\<lparr>vruntime := f se\<rparr>) s)"
  using assms by (auto simp: same_runq_def same_keys_def intro!: same_core_upd)

lemma set_runq_boost_ok:
  assumes "thread_ok s e" "entity_is_thread s e \<Longrightarrow> \<not> onrunq (ents s e)"
  shows "\<exists>s'. set_runq_boost K e flags s = Some s' \<and> same_core s s' \<and> same_keys s s' \<and>
    (\<forall>x. x \<noteq> e \<longrightarrow> onrunq (ents s' x) = onrunq (ents s x)) \<and> (\<forall>x. vruntime (ents s' x) = vruntime (ents s x)) \<and>
    (\<not> entity_is_thread s e \<longrightarrow> s' = s)"
proof (cases "entity_is_thread s e")
  case False
  then show ?thesis by (simp add: set_runq_boost_def)
next
  case True
  then obtain t where t: "e = TD_SE t" "se_to_td s e = Some t" using thread_okD assms by blast
  let ?s1 = "set_td_state TDS_RUNQ t s"
  have 1: "same_core s ?s1" "same_keys s ?s1" "ents ?s1 = ents s" by simp_all
  show ?thesis
  proof (cases "td_priority (threads ?s1 t) < NORMAL_PRI K")
    case False
    then show ?thesis using True t 1 by (simp add: set_runq_boost_def)
  next
    case lt: True
    define s2 where "s2 = upd_rq (\<lambda>r. r\<lparr>realtime := runq_add K (realtime r) t (td_priority (threads ?s1 t))
               (and flags (SWT_PREEMPT K) \<noteq> 0)\<rparr>) ?s1"
    have 2: "same_core ?s1 s2" unfolding s2_def by (intro same_core_upd) simp
    have 3: "same_core s2 (upd_se e (\<lambda>se. se\<lparr>onrunq := True\<rparr>) s2)" by (intro same_core_upd) simp
    have "set_runq_boost K e flags s = Some (upd_se e (\<lambda>se. se\<lparr>onrunq := True\<rparr>) s2)"
      using True t lt assms(2) by (simp add: set_runq_boost_def runq_enqueue_def s2_def Let_def)
    moreover have "same_core s (upd_se e (\<lambda>se. se\<lparr>onrunq := True\<rparr>) s2)"
      using same_core_trans [OF same_core_trans [OF 1(1) 2] 3] .
    moreover have "ents s2 = ents s" by (simp add: s2_def)
    ultimately show ?thesis using True by (simp add: same_keys_def)
  qed
qed

lemma runq_dequeue_frame:
  "same_core s (runq_dequeue K t e s)" "same_keys s (runq_dequeue K t e s)"
  "\<not> onrunq (ents (runq_dequeue K t e s) e)"
  "x \<noteq> e \<Longrightarrow> onrunq (ents (runq_dequeue K t e s) x) = onrunq (ents s x)"
  "vruntime (ents (runq_dequeue K t e s) x) = vruntime (ents s x)"
  by (auto simp: runq_dequeue_def same_core_def same_keys_def)

lemma wakeup_preempt_frame:
  assumes "wakeup_preempt_entity c e s = (r, s')"
  shows "same_core s s'" "same_runq s s'" "same_keys s s'" "\<And>x. vruntime (ents s' x) = vruntime (ents s x)"
    "threads s' = threads s"
proof -
  obtain g s1 where g: "scale_delta (wakeup_granularity (tun s)) e s = (g, s1)" by fastforce
  have "s' = s \<or> s' = s1"
    using assms g by (auto simp: wakeup_preempt_entity_def wakeup_gran_def Let_def split: if_splits)
  then show "same_core s s'" "same_runq s s'" "same_keys s s'" "\<And>x. vruntime (ents s' x) = vruntime (ents s x)"
    "threads s' = threads s"
    using scale_delta_frame [OF g] by auto
qed

end
