(* ===== verification/Pss_Queue.thy ===== *)
theory Pss_Queue
  imports Pss_Core
begin

text \<open>
  The invariant of the queues of the proportional share class, and that each operation on one
  entity keeps it: the timeline holds exactly the entities flagged \<open>onsfq\<close>, in a red-black tree
  with the first one cached; the running entity is off the timeline; \<open>nr_running\<close> and the load
  count the members; the candidates are members. \<open>X q\<close> is the in-order list of the timeline of
  \<open>q\<close>, \<open>mem X s q\<close> its members with the running one.
\<close>

section \<open>Frames by layer\<close>

definition qstruct :: "sfq \<Rightarrow> eid option \<times> eid option \<times> eid option \<times> int \<times> gid option" where
  "qstruct c = (tl_root c, leftmost c, curr c, nr_running c, sfq_group c)"

definition estruct :: "sched_entity \<Rightarrow> bool \<times> bool \<times> eid option \<times> qid option \<times> qid option" where
  "estruct e = (onsfq e, joined e, se_parent e, se_sfq e, my_q e)"

definition qcands :: "sfq \<Rightarrow> eid option \<times> eid option \<times> eid option" where
  "qcands c = (skip c, sfq_next c, sfq_last c)"

definition same_struct :: "'q sched \<Rightarrow> 'q sched \<Rightarrow> bool" where
  "same_struct s s' \<longleftrightarrow> tlinks s' = tlinks s \<and> groups s' = groups s \<and> tun s' = tun s \<and> curthread s' = curthread s \<and>
     (\<forall>q. qstruct (sfqs s' q) = qstruct (sfqs s q)) \<and> (\<forall>e. estruct (ents s' e) = estruct (ents s e))"

definition same_cands :: "'q sched \<Rightarrow> 'q sched \<Rightarrow> bool" where
  "same_cands s s' \<longleftrightarrow> (\<forall>q. qcands (sfqs s' q) = qcands (sfqs s q))"

definition same_weights :: "'q sched \<Rightarrow> 'q sched \<Rightarrow> bool" where
  "same_weights s s' \<longleftrightarrow> weight (rq_load (rq s')) = weight (rq_load (rq s)) \<and>
     (\<forall>q. weight (sfq_load (sfqs s' q)) = weight (sfq_load (sfqs s q))) \<and>
     (\<forall>e. weight (se_load (ents s' e)) = weight (se_load (ents s e)))"

text \<open>Candidates only go away.\<close>

definition less_cands :: "'q sched \<Rightarrow> 'q sched \<Rightarrow> bool" where
  "less_cands s s' \<longleftrightarrow> (\<forall>q. skip (sfqs s' q) \<in> {None, skip (sfqs s q)} \<and>
     sfq_next (sfqs s' q) \<in> {None, sfq_next (sfqs s q)} \<and> sfq_last (sfqs s' q) \<in> {None, sfq_last (sfqs s q)})"

lemma same_core_split: "same_core s s' \<longleftrightarrow> same_struct s s' \<and> same_cands s s' \<and> same_weights s s'"
  by (auto simp: same_core_def same_struct_def same_cands_def same_weights_def qcore_def qstruct_def
      qcands_def ecore_def estruct_def)

lemma same_struct_refl [simp, intro]: "same_struct s s" "same_cands s s" "same_weights s s" "less_cands s s"
  by (simp_all add: same_struct_def same_cands_def same_weights_def less_cands_def)

lemma same_struct_trans: "same_struct s s' \<Longrightarrow> same_struct s' s'' \<Longrightarrow> same_struct s s''"
  by (simp add: same_struct_def)

lemma same_cands_trans: "same_cands s s' \<Longrightarrow> same_cands s' s'' \<Longrightarrow> same_cands s s''"
  by (simp add: same_cands_def)

lemma less_cands_trans: "less_cands s s' \<Longrightarrow> less_cands s' s'' \<Longrightarrow> less_cands s s''"
  unfolding less_cands_def by (metis insert_iff singletonD)

lemma same_structD:
  assumes "same_struct s s'"
  shows "tlinks s' = tlinks s" "groups s' = groups s" "tun s' = tun s" "curthread s' = curthread s"
    "tl_root (sfqs s' q) = tl_root (sfqs s q)" "leftmost (sfqs s' q) = leftmost (sfqs s q)"
    "curr (sfqs s' q) = curr (sfqs s q)" "nr_running (sfqs s' q) = nr_running (sfqs s q)"
    "sfq_group (sfqs s' q) = sfq_group (sfqs s q)"
    "onsfq (ents s' e) = onsfq (ents s e)" "joined (ents s' e) = joined (ents s e)"
    "se_parent (ents s' e) = se_parent (ents s e)" "se_sfq (ents s' e) = se_sfq (ents s e)"
    "my_q (ents s' e) = my_q (ents s e)"
  using assms by (auto simp: same_struct_def qstruct_def estruct_def)

lemma same_candsD:
  assumes "same_cands s s'"
  shows "skip (sfqs s' q) = skip (sfqs s q)" "sfq_next (sfqs s' q) = sfq_next (sfqs s q)"
    "sfq_last (sfqs s' q) = sfq_last (sfqs s q)"
  using assms by (auto simp: same_cands_def qcands_def)

lemma same_cands_less: "same_cands s s' \<Longrightarrow> less_cands s s'"
  by (simp add: less_cands_def same_candsD)

section \<open>The invariant\<close>

text \<open>The timeline part.\<close>

definition tlq :: "qid \<Rightarrow> 'q sched \<Rightarrow> eid list \<Rightarrow> bool" where
  "tlq q s xs \<longleftrightarrow> tl.cached (tlinks s) (tl_root (sfqs s q)) (leftmost (sfqs s q)) xs \<and>
     (\<forall>e. e \<in> set xs \<longleftrightarrow> onsfq (ents s e) \<and> se_sfq (ents s e) = Some q)"

definition tl_inv :: "(qid \<Rightarrow> eid list) \<Rightarrow> 'q sched \<Rightarrow> bool" where
  "tl_inv X s \<longleftrightarrow> (\<forall>q. tlq q s (X q))"

definition cur_list :: "'q sched \<Rightarrow> qid \<Rightarrow> eid list" where
  "cur_list s q = (case curr (sfqs s q) of Some c \<Rightarrow> if joined (ents s c) then [c] else [] | None \<Rightarrow> [])"

definition mem :: "(qid \<Rightarrow> eid list) \<Rightarrow> 'q sched \<Rightarrow> qid \<Rightarrow> eid list" where
  "mem X s q = X q @ cur_list s q"

definition cur_inv :: "'q sched \<Rightarrow> bool" where
  "cur_inv s \<longleftrightarrow> (\<forall>q c. curr (sfqs s q) = Some c \<longrightarrow> \<not> onsfq (ents s c) \<and> se_sfq (ents s c) = Some q)"

definition join_inv :: "(qid \<Rightarrow> eid list) \<Rightarrow> 'q sched \<Rightarrow> bool" where
  "join_inv X s \<longleftrightarrow> (\<forall>q. \<forall>e\<in>set (X q). joined (ents s e))"

definition wsum :: "'q sched \<Rightarrow> eid list \<Rightarrow> u64" where
  "wsum s es = sum_list (map (\<lambda>e. weight (se_load (ents s e))) es)"

definition acct :: "(qid \<Rightarrow> eid list) \<Rightarrow> 'q sched \<Rightarrow> bool" where
  "acct M s \<longleftrightarrow> (\<forall>q. nr_running (sfqs s q) = int (length (M q)) \<and> weight (sfq_load (sfqs s q)) = wsum s (M q))"

definition load_inv :: "'q sched \<Rightarrow> bool" where
  "load_inv s \<longleftrightarrow> weight (rq_load (rq s)) = weight (sfq_load (sfqs s RQ_SFQ))"

definition cand_inv :: "(qid \<Rightarrow> eid list) \<Rightarrow> 'q sched \<Rightarrow> bool" where
  "cand_inv M s \<longleftrightarrow> (\<forall>q e. skip (sfqs s q) = Some e \<or> sfq_next (sfqs s q) = Some e \<or> sfq_last (sfqs s q) = Some e
     \<longrightarrow> e \<in> set (M q))"

definition group_inv :: "(qid \<Rightarrow> eid list) \<Rightarrow> 'q sched \<Rightarrow> bool" where
  "group_inv M s \<longleftrightarrow> (\<forall>n. joined (ents s (ZONE_SE n)) \<longrightarrow>
     (\<exists>q. se_sfq (ents s (ZONE_SE n)) = Some q \<and> ZONE_SE n \<in> set (M q)))"

text \<open>The static hierarchy: chains of parents end, and pointers of entities, queues and groups agree.\<close>

fun chain :: "(eid \<Rightarrow> eid option) \<Rightarrow> eid option \<Rightarrow> eid list \<Rightarrow> bool" where
  "chain par p [] \<longleftrightarrow> p = None"
| "chain par p (e # es) \<longleftrightarrow> p = Some e \<and> chain par (par e) es"

definition hier_wf :: "'q sched \<Rightarrow> bool" where
  "hier_wf s \<longleftrightarrow>
     (\<forall>e. \<exists>es. chain (par_of s) (Some e) es) \<and>
     (\<forall>t. my_q (ents s (TD_SE t)) = None) \<and>
     (\<forall>e q. se_sfq (ents s e) = Some q \<longrightarrow>
        thread_ok s e \<and>
        (case se_parent (ents s e) of
           None \<Rightarrow> q = RQ_SFQ
         | Some p \<Rightarrow> q \<noteq> RQ_SFQ \<and> my_q (ents s p) = Some q \<and> se_sfq (ents s p) \<noteq> None) \<and>
        (\<exists>g. sfq_group (sfqs s q) = Some g \<and> sg_se (groups s g) = se_parent (ents s e) \<and>
           (\<forall>pg. sg_parent (groups s g) = Some pg \<longrightarrow> sg_sfq (groups s pg) \<noteq> None)))"

definition queue_inv :: "(qid \<Rightarrow> eid list) \<Rightarrow> 'q sched \<Rightarrow> bool" where
  "queue_inv X s \<longleftrightarrow> tl_inv X s \<and> cur_inv s \<and> join_inv X s \<and> acct (mem X s) s \<and> load_inv s \<and>
     cand_inv (mem X s) s \<and> group_inv (mem X s) s \<and> hier_wf s"

lemma queue_invD:
  assumes "queue_inv X s"
  shows "tl_inv X s" "cur_inv s" "join_inv X s" "acct (mem X s) s" "load_inv s" "cand_inv (mem X s) s"
    "group_inv (mem X s) s" "hier_wf s"
  using assms by (simp_all add: queue_inv_def)

section \<open>Which frame each part needs\<close>

lemma chain_head: "chain par p es \<Longrightarrow> p = head_opt es"
  by (cases es) auto

lemma chain_cong: "(\<And>e. e \<in> set es \<Longrightarrow> par' e = par e) \<Longrightarrow> chain par' p es = chain par p es"
  by (induction par p es rule: chain.induct) auto

lemma tl_inv_cong:
  assumes "tlinks s' = tlinks s" "\<And>q. tl_root (sfqs s' q) = tl_root (sfqs s q)"
    "\<And>q. leftmost (sfqs s' q) = leftmost (sfqs s q)" "\<And>e. onsfq (ents s' e) = onsfq (ents s e)"
    "\<And>e. se_sfq (ents s' e) = se_sfq (ents s e)"
  shows "tl_inv X s' = tl_inv X s"
  by (simp add: tl_inv_def tlq_def assms)

lemma inv_same_struct:
  assumes "same_struct s s'"
  shows "tl_inv X s' = tl_inv X s" "cur_inv s' = cur_inv s" "join_inv X s' = join_inv X s"
    "mem X s' = mem X s" "group_inv M s' = group_inv M s" "hier_wf s' = hier_wf s"
    "thread_ok s' e = thread_ok s e" "entity_is_thread s' e = entity_is_thread s e"
proof -
  note D = same_structD [OF assms]
  have par: "par_of s' = par_of s" by (simp add: D fun_eq_iff)
  show "tl_inv X s' = tl_inv X s" "cur_inv s' = cur_inv s" "join_inv X s' = join_inv X s"
    "group_inv M s' = group_inv M s" "entity_is_thread s' e = entity_is_thread s e"
    by (simp_all add: tl_inv_def tlq_def cur_inv_def join_inv_def group_inv_def entity_is_thread_def D)
  show "mem X s' = mem X s"
    by (rule ext) (simp add: mem_def cur_list_def D split: option.splits)
  have th: "thread_ok s' e = thread_ok s e" for e by (simp add: thread_ok_def entity_is_thread_def D)
  then show "thread_ok s' e = thread_ok s e" .
  show "hier_wf s' = hier_wf s"
    unfolding hier_wf_def par th by (simp add: D cong: option.case_cong)
qed

lemma acct_same:
  assumes "same_struct s s'" "same_weights s s'"
  shows "acct M s' = acct M s" "load_inv s' = load_inv s"
  using assms by (simp_all add: acct_def wsum_def load_inv_def same_structD same_weights_def)

lemma cand_inv_less: "cand_inv M s \<Longrightarrow> less_cands s s' \<Longrightarrow> cand_inv M s'"
  unfolding cand_inv_def less_cands_def by (metis insert_iff option.distinct(1) singletonD)

lemma queue_inv_same_core: "queue_inv X s \<Longrightarrow> same_core s s' \<Longrightarrow> queue_inv X s'"
  unfolding queue_inv_def same_core_split
  using inv_same_struct acct_same cand_inv_less same_cands_less by metis

lemma queue_inv_less:
  assumes "queue_inv X s" "same_struct s s'" "same_weights s s'" "less_cands s s'"
  shows "queue_inv X s'"
  using assms unfolding queue_inv_def using inv_same_struct acct_same cand_inv_less by metis

text \<open>The hierarchy alone.\<close>

definition same_static :: "'q sched \<Rightarrow> 'q sched \<Rightarrow> bool" where
  "same_static s s' \<longleftrightarrow> groups s' = groups s \<and> (\<forall>q. sfq_group (sfqs s' q) = sfq_group (sfqs s q)) \<and>
     (\<forall>e. se_parent (ents s' e) = se_parent (ents s e) \<and> se_sfq (ents s' e) = se_sfq (ents s e) \<and>
          my_q (ents s' e) = my_q (ents s e))"

lemma same_static_refl [simp, intro]: "same_static s s"
  by (simp add: same_static_def)

lemma same_static_trans: "same_static s s' \<Longrightarrow> same_static s' s'' \<Longrightarrow> same_static s s''"
  by (simp add: same_static_def)

lemma same_struct_static: "same_struct s s' \<Longrightarrow> same_static s s'"
  by (simp add: same_static_def same_structD)

lemma hier_wf_static:
  assumes "same_static s s'"
  shows "hier_wf s' = hier_wf s" "thread_ok s' e = thread_ok s e"
proof -
  have D: "groups s' = groups s" "sfq_group (sfqs s' q) = sfq_group (sfqs s q)"
    "se_parent (ents s' e) = se_parent (ents s e)" "se_sfq (ents s' e) = se_sfq (ents s e)"
    "my_q (ents s' e) = my_q (ents s e)" for q e
    using assms by (simp_all add: same_static_def)
  have par: "par_of s' = par_of s" by (simp add: D fun_eq_iff)
  have th: "thread_ok s' e = thread_ok s e" for e by (simp add: thread_ok_def entity_is_thread_def D)
  then show "thread_ok s' e = thread_ok s e" .
  show "hier_wf s' = hier_wf s" unfolding hier_wf_def par th by (simp add: D cong: option.case_cong)
qed

section \<open>Members\<close>

lemma tl_inv_mem: "tl_inv X s \<Longrightarrow> e \<in> set (X q) \<longleftrightarrow> onsfq (ents s e) \<and> se_sfq (ents s e) = Some q"
  by (simp add: tl_inv_def tlq_def)

lemma mem_iff:
  assumes "tl_inv X s" "cur_inv s" "join_inv X s"
  shows "e \<in> set (mem X s q) \<longleftrightarrow>
    joined (ents s e) \<and> se_sfq (ents s e) = Some q \<and> (onsfq (ents s e) \<or> curr (sfqs s q) = Some e)"
  using assms tl_inv_mem [OF assms(1), of e q]
  by (auto simp: mem_def cur_list_def cur_inv_def join_inv_def split: option.splits)

lemma mem_distinct:
  assumes "tl_inv X s" "cur_inv s"
  shows "distinct (mem X s q)"
proof -
  have "tl_rep (tlinks s) (tl_root (sfqs s q)) (X q)"
    using assms(1) by (simp add: tl_inv_def tlq_def tl.cached_def)
  then have "distinct (X q)" by (rule tl.rep_distinct)
  then show ?thesis
    using assms tl_inv_mem [OF assms(1)] by (auto simp: mem_def cur_list_def cur_inv_def split: option.splits)
qed

lemma queue_mem:
  assumes "queue_inv X s"
  shows "e \<in> set (mem X s q) \<longleftrightarrow>
      joined (ents s e) \<and> se_sfq (ents s e) = Some q \<and> (onsfq (ents s e) \<or> curr (sfqs s q) = Some e)"
    "distinct (mem X s q)"
  using mem_iff [OF queue_invD(1-3) [OF assms]] mem_distinct [OF queue_invD(1,2) [OF assms]] by auto

lemma cur_thread_ok:
  "hier_wf s \<Longrightarrow> cur_inv s \<Longrightarrow> curr (sfqs s q) = Some c \<Longrightarrow> \<not> onsfq (ents s c) \<and> thread_ok s c"
  by (auto simp: hier_wf_def cur_inv_def)

lemma hier_thread_ok: "hier_wf s \<Longrightarrow> se_sfq (ents s e) = Some q \<Longrightarrow> thread_ok s e"
  by (auto simp: hier_wf_def)

lemma not_joined_off: "queue_inv X s \<Longrightarrow> se_sfq (ents s e) = Some q \<Longrightarrow> \<not> joined (ents s e) \<Longrightarrow> \<not> onsfq (ents s e)"
  using tl_inv_mem [OF queue_invD(1)] queue_invD(3) unfolding join_inv_def by metis

section \<open>Into and out of the timeline\<close>

text \<open>The state after the tree operation: only these fields have changed.\<close>

definition set_timeline :: "qid \<Rightarrow> eid \<Rightarrow> bool \<Rightarrow> (eid \<Rightarrow> eid rb_entry) \<Rightarrow> eid option \<Rightarrow> eid option \<Rightarrow> 'q sched \<Rightarrow> 'q sched" where
  "set_timeline q e b h r lm s =
     upd_se e (\<lambda>se. se\<lparr>onsfq := b\<rparr>) (upd_q q (\<lambda>c. c\<lparr>tl_root := r, leftmost := lm\<rparr>) (s\<lparr>tlinks := h\<rparr>))"

lemma set_timeline_simps [simp]:
  "tlinks (set_timeline q e b h r lm s) = h" "groups (set_timeline q e b h r lm s) = groups s"
  "threads (set_timeline q e b h r lm s) = threads s" "rq (set_timeline q e b h r lm s) = rq s"
  "tun (set_timeline q e b h r lm s) = tun s" "curthread (set_timeline q e b h r lm s) = curthread s"
  "sfqs (set_timeline q e b h r lm s) = (sfqs s)(q := (sfqs s q)\<lparr>tl_root := r, leftmost := lm\<rparr>)"
  "ents (set_timeline q e b h r lm s) = (ents s)(e := (ents s e)\<lparr>onsfq := b\<rparr>)"
  by (simp_all add: set_timeline_def)

lemma other_queue_rep:
  assumes "tl_inv X s" "se_sfq (ents s e) = Some q" "tl_frame (insert e (set (X q))) (tlinks s) h" "q' \<noteq> q"
  shows "tl_rep h (tl_root (sfqs s q')) (X q')"
proof (rule tl.rep_frame [OF _ assms(3)])
  show "tl_rep (tlinks s) (tl_root (sfqs s q')) (X q')"
    using assms(1) by (simp add: tl_inv_def tlq_def tl.cached_def)
  show "insert e (set (X q)) \<inter> set (X q') = {}"
    using assms tl_inv_mem [OF assms(1)] by auto
qed

lemma enqueue_timeline_ok:
  assumes inv: "tl_inv X s" and e: "\<not> onsfq (ents s e)" "se_sfq (ents s e) = Some q"
  shows "\<exists>h r lm ys zs. enqueue_timeline q e s = Some (set_timeline q e True h r lm s) \<and> X q = ys @ zs \<and>
    tl_inv (X(q := ys @ e # zs)) (set_timeline q e True h r lm s) \<and>
    (ys \<noteq> [] \<longrightarrow> \<not> vtime_cmp s e (last ys) < 0) \<and> (zs \<noteq> [] \<longrightarrow> vtime_cmp s e (hd zs) < 0)"
proof -
  have c: "tl.cached (tlinks s) (tl_root (sfqs s q)) (leftmost (sfqs s q)) (X q)"
    using inv by (simp add: tl_inv_def tlq_def)
  have "e \<notin> set (X q)" using tl_inv_mem [OF inv] e by simp
  from tl.cached_ins [OF c this, of "\<lambda>a b. vtime_cmp s a b < 0"]
  obtain left h r ys zs where i: "tl_ins (\<lambda>a b. vtime_cmp s a b < 0) e (tlinks s) (tl_root (sfqs s q)) = Some (left, h, r)"
    "X q = ys @ zs" "tl.cached h r (if left then Some e else leftmost (sfqs s q)) (ys @ e # zs)"
    "tl_frame (insert e (set (X q))) (tlinks s) h"
    "ys \<noteq> [] \<longrightarrow> \<not> vtime_cmp s e (last ys) < 0" "zs \<noteq> [] \<longrightarrow> vtime_cmp s e (hd zs) < 0"
    by blast
  define lm where "lm = (if left then Some e else leftmost (sfqs s q))"
  have "enqueue_timeline q e s = Some (set_timeline q e True h r lm s)"
    using e i(1) by (simp add: enqueue_timeline_def set_timeline_def lm_def upd_q_def upd_se_def)
  moreover have "tlq p (set_timeline q e True h r lm s) ((X(q := ys @ e # zs)) p)" for p
    using i(2,3) other_queue_rep [OF inv e(2) i(4), of p] inv e tl_inv_mem [OF inv, of _ p]
    by (cases "p = q") (auto simp: tlq_def lm_def tl_inv_def tl.cached_def)
  then have "tl_inv (X(q := ys @ e # zs)) (set_timeline q e True h r lm s)"
    unfolding tl_inv_def by blast
  ultimately show ?thesis using i by blast
qed

lemma dequeue_timeline_ok:
  assumes inv: "tl_inv X s" and xs: "X q = ys @ e # zs"
  shows "\<exists>h r lm. dequeue_timeline q e s = Some (set_timeline q e False h r lm s) \<and>
    tl_inv (X(q := ys @ zs)) (set_timeline q e False h r lm s)"
proof -
  have e: "onsfq (ents s e)" "se_sfq (ents s e) = Some q" using tl_inv_mem [OF inv, of e q] xs by simp_all
  have c: "tl.cached (tlinks s) (tl_root (sfqs s q)) (leftmost (sfqs s q)) (ys @ e # zs)"
    using inv xs unfolding tl_inv_def tlq_def by metis
  from tl.cached_rem [OF c] obtain lm h r where d:
    "(if leftmost (sfqs s q) = Some e then tl_next e (tlinks s) (tl_root (sfqs s q)) else Some (leftmost (sfqs s q))) = Some lm"
    "tl_rem e (tlinks s) (tl_root (sfqs s q)) = Some (h, r)" "tl.cached h r lm (ys @ zs)"
    "tl_frame (insert e (set (ys @ zs))) (tlinks s) h" by blast
  have comm: "c\<lparr>leftmost := lm, tl_root := r\<rparr> = c\<lparr>tl_root := r, leftmost := lm\<rparr>" for c :: sfq by simp
  have "dequeue_timeline q e s = Some (set_timeline q e False h r lm s)"
    using e d(1,2) by (auto simp: comm dequeue_timeline_def set_timeline_def upd_q_def upd_se_def split: if_splits)
  moreover have dist: "distinct (ys @ e # zs)" using mem_distinct tl.rep_distinct c unfolding tl.cached_def by blast
  have fr: "tl_frame (insert e (set (X q))) (tlinks s) h" using d(4) by (simp add: xs)
  have "tlq p (set_timeline q e False h r lm s) ((X(q := ys @ zs)) p)" for p
    using d(3) other_queue_rep [OF inv e(2) fr, of p] inv e dist xs tl_inv_mem [OF inv, of _ p]
    by (cases "p = q") (auto simp: tlq_def tl_inv_def tl.cached_def)
  then have "tl_inv (X(q := ys @ zs)) (set_timeline q e False h r lm s)"
    unfolding tl_inv_def by blast
  ultimately show ?thesis by blast
qed

section \<open>Walks that only touch candidates\<close>

lemma hier_parent_sfq:
  assumes "hier_wf s" "se_sfq (ents s e) \<noteq> None" "par_of s e = Some p"
  shows "se_sfq (ents s p) \<noteq> None"
  using assms unfolding hier_wf_def by fastforce

lemma hier_chain: "hier_wf s \<Longrightarrow> \<exists>es. chain (par_of s) p es"
  unfolding hier_wf_def by (cases p) (auto intro: exI [of _ "[]"])

text \<open>A walk whose body keeps a relation \<open>R\<close> to the start, on a part \<open>P\<close> of the hierarchy.\<close>

lemma walk_rel:
  assumes wf: "hier_wf s" and p: "\<And>e. p = Some e \<Longrightarrow> P e" and s0: "R s0"
    and up: "\<And>x y. P x \<Longrightarrow> par_of s x = Some y \<Longrightarrow> P y"
    and step: "\<And>x st. R st \<Longrightarrow> P x \<Longrightarrow> \<exists>b st'. body x st = Some (b, st') \<and> R st'"
    and par: "\<And>st x. R st \<Longrightarrow> par st x = par_of s x"
  shows "\<exists>r s'. walkup par body p s0 = Some (r, s') \<and> R s' \<and> (\<forall>e. r = Some e \<longrightarrow> P e)"
proof -
  obtain es where es: "chain (par_of s) p es" using hier_chain [OF wf] by blast
  then have ph: "p = head_opt es" by (rule chain_head)
  define I where "I = (\<lambda>es st. R st \<and> chain (par_of s) (head_opt es) es \<and> (\<forall>e. head_opt es = Some e \<longrightarrow> P e))"
  have "\<exists>r s'. walkup par body (head_opt es) s0 = Some (r, s') \<and> (R s' \<and> (\<forall>e. r = Some e \<longrightarrow> P e))"
  proof (rule walkup_rule [where I = I])
    show "I es s0" using s0 es p by (simp add: I_def ph)
  next
    fix e es st
    assume i: "I (e # es) st"
    then obtain b st' where b: "body e st = Some (b, st')" "R st'" using step [of st e] by (auto simp: I_def)
    have "chain (par_of s) (par_of s e) es" using i by (simp add: I_def)
    moreover note chain_head [OF this]
    moreover have "P e" using i by (simp add: I_def)
    moreover have "par st' e = par_of s e" using par [OF b(2)] .
    ultimately show "\<exists>brk s'. body e st = Some (brk, s') \<and>
        (if brk then R s' \<and> (\<forall>x. Some e = Some x \<longrightarrow> P x) else par s' e = head_opt es \<and> I es s')"
      using b up by (auto simp: I_def)
  qed (simp add: I_def)
  then show ?thesis by (simp add: ph)
qed

lemma walk_frame:
  assumes wf: "hier_wf s" and p: "\<And>e. p = Some e \<Longrightarrow> se_sfq (ents s e) \<noteq> None" and s0: "R s0"
    and step: "\<And>x st. R st \<Longrightarrow> se_sfq (ents s x) \<noteq> None \<Longrightarrow> \<exists>b st'. body x st = Some (b, st') \<and> R st'"
    and par: "\<And>st x. R st \<Longrightarrow> par st x = par_of s x"
  shows "\<exists>r s'. walkup par body p s0 = Some (r, s') \<and> R s' \<and> (\<forall>e. r = Some e \<longrightarrow> se_sfq (ents s e) \<noteq> None)"
  by (rule walk_rel [where P = "\<lambda>e. se_sfq (ents s e) \<noteq> None", OF wf p s0 hier_parent_sfq [OF wf] step par])

definition only_cands :: "'q sched \<Rightarrow> 'q sched \<Rightarrow> bool" where
  "only_cands s s' \<longleftrightarrow> (\<exists>f. s' = s\<lparr>sfqs := f\<rparr> \<and>
     (\<forall>q. f q = (sfqs s q)\<lparr>skip := skip (f q), sfq_next := sfq_next (f q), sfq_last := sfq_last (f q)\<rparr>))"

lemma only_candsD:
  assumes "only_cands s s'"
  shows "ents s' = ents s" "threads s' = threads s" "rq s' = rq s" "same_struct s s'" "same_weights s s'"
    "vtime (sfqs s' q) = vtime (sfqs s q)"
proof -
  obtain f where f: "s' = s\<lparr>sfqs := f\<rparr>"
    "\<And>q. f q = (sfqs s q)\<lparr>skip := skip (f q), sfq_next := sfq_next (f q), sfq_last := sfq_last (f q)\<rparr>"
    using assms by (auto simp: only_cands_def)
  show "ents s' = ents s" "threads s' = threads s" "rq s' = rq s" by (simp_all add: f(1))
  have "qstruct (f q) = qstruct (sfqs s q)" "vtime (f q) = vtime (sfqs s q)"
    "weight (sfq_load (f q)) = weight (sfq_load (sfqs s q))" for q
    by (subst f(2), simp add: qstruct_def)+
  then show "same_struct s s'" "same_weights s s'" "vtime (sfqs s' q) = vtime (sfqs s q)"
    by (simp_all add: f(1) same_struct_def same_weights_def)
qed

lemma only_cands_refl [simp, intro]: "only_cands s s"
  unfolding only_cands_def by (intro exI [of _ "sfqs s"]) simp

lemma only_cands_upd:
  assumes "only_cands s st"
  shows "only_cands s (upd_q q (\<lambda>c. c\<lparr>skip := v\<rparr>) st)" "only_cands s (upd_q q (\<lambda>c. c\<lparr>sfq_next := v\<rparr>) st)"
    "only_cands s (upd_q q (\<lambda>c. c\<lparr>sfq_last := v\<rparr>) st)"
proof -
  obtain f where f: "st = s\<lparr>sfqs := f\<rparr>"
    "\<And>q. f q = (sfqs s q)\<lparr>skip := skip (f q), sfq_next := sfq_next (f q), sfq_last := sfq_last (f q)\<rparr>"
    using assms by (auto simp: only_cands_def)
  have "only_cands s (upd_q q g st)"
    if g: "\<And>c. \<exists>x y z. g c = c\<lparr>skip := x, sfq_next := y, sfq_last := z\<rparr>" for g
  proof -
    obtain x y z where "g (f q) = (f q)\<lparr>skip := x, sfq_next := y, sfq_last := z\<rparr>" using g by blast
    also have "\<dots> = (sfqs s q)\<lparr>skip := x, sfq_next := y, sfq_last := z\<rparr>"
      by (subst f(2)) simp
    finally have "g (f q) = (sfqs s q)\<lparr>skip := skip (g (f q)), sfq_next := sfq_next (g (f q)), sfq_last := sfq_last (g (f q))\<rparr>"
      by simp
    then show ?thesis
      unfolding only_cands_def
      by (intro exI [of _ "f(q := g (f q))"]) (use f(2) in \<open>simp add: f(1) upd_q_def\<close>)
  qed
  note u = this
  show "only_cands s (upd_q q (\<lambda>c. c\<lparr>skip := v\<rparr>) st)"
    by (rule u, rule_tac x = v in exI, rule_tac x = "sfq_next c" in exI, rule_tac x = "sfq_last c" in exI) simp
  show "only_cands s (upd_q q (\<lambda>c. c\<lparr>sfq_next := v\<rparr>) st)"
    by (rule u, rule_tac x = "skip c" in exI, rule_tac x = v in exI, rule_tac x = "sfq_last c" in exI) simp
  show "only_cands s (upd_q q (\<lambda>c. c\<lparr>sfq_last := v\<rparr>) st)"
    by (rule u, rule_tac x = "skip c" in exI, rule_tac x = "sfq_next c" in exI, rule_tac x = v in exI) simp
qed

text \<open>What clearing does from a state \<open>s\<close>: candidates go away, nothing else moves.\<close>

definition cleared :: "'q sched \<Rightarrow> 'q sched \<Rightarrow> bool" where
  "cleared s s' \<longleftrightarrow> only_cands s s' \<and> less_cands s s'"

lemma cleared_refl [simp, intro]: "cleared s s"
  by (simp add: cleared_def)

lemma less_cands_upd:
  "less_cands s (upd_q q (\<lambda>c. c\<lparr>skip := None\<rparr>) s)" "less_cands s (upd_q q (\<lambda>c. c\<lparr>sfq_next := None\<rparr>) s)"
  "less_cands s (upd_q q (\<lambda>c. c\<lparr>sfq_last := None\<rparr>) s)"
  by (simp_all add: less_cands_def)

lemma cleared_upd:
  assumes "cleared s st"
  shows "cleared s (upd_q q (\<lambda>c. c\<lparr>skip := None\<rparr>) st)" "cleared s (upd_q q (\<lambda>c. c\<lparr>sfq_next := None\<rparr>) st)"
    "cleared s (upd_q q (\<lambda>c. c\<lparr>sfq_last := None\<rparr>) st)"
  using assms
  by (auto simp: cleared_def intro: only_cands_upd less_cands_trans [OF _ less_cands_upd(1)]
      less_cands_trans [OF _ less_cands_upd(2)] less_cands_trans [OF _ less_cands_upd(3)])

lemma clear_candidate_ok:
  assumes wf: "hier_wf s" and e: "se_sfq (ents s e) = Some q"
  shows "skip (sfqs s q) = Some e \<Longrightarrow> \<exists>s'. clear_skip_candidate e s = Some s' \<and> cleared s s' \<and> skip (sfqs s' q) = None"
    "sfq_next (sfqs s q) = Some e \<Longrightarrow> \<exists>s'. clear_next_candidate e s = Some s' \<and> cleared s s' \<and> sfq_next (sfqs s' q) = None"
    "sfq_last (sfqs s q) = Some e \<Longrightarrow> \<exists>s'. clear_last_candidate e s = Some s' \<and> cleared s s' \<and> sfq_last (sfqs s' q) = None"
proof -
  have walk: "\<exists>s'. (do { (r, s) \<leftarrow> walkup par_of body (Some e) s; Some s }) = Some s' \<and> cleared s s' \<and> P s'"
    if first: "body e s = Some (False, sa)" "cleared s sa" "P sa"
      and step: "\<And>x q st. cleared s st \<Longrightarrow> P st \<Longrightarrow> se_sfq (ents st x) = Some q \<Longrightarrow>
        \<exists>b st'. body x st = Some (b, st') \<and> cleared s st' \<and> P st'" for body P sa
  proof -
    have D: "cleared s st \<Longrightarrow> ents st = ents s" for st using only_candsD(1) by (auto simp: cleared_def)
    have "\<exists>r s'. walkup par_of body (par_of sa e) sa = Some (r, s') \<and> (cleared s s' \<and> P s') \<and>
        (\<forall>x. r = Some x \<longrightarrow> se_sfq (ents s x) \<noteq> None)"
    proof (rule walk_frame [OF wf])
      show "\<And>x. par_of sa e = Some x \<Longrightarrow> se_sfq (ents s x) \<noteq> None"
        using hier_parent_sfq [OF wf, of e] e D [OF first(2)] by simp
      show "cleared s sa \<and> P sa" using first by blast
      show "\<And>x st. cleared s st \<and> P st \<Longrightarrow> se_sfq (ents s x) \<noteq> None \<Longrightarrow>
          \<exists>b st'. body x st = Some (b, st') \<and> cleared s st' \<and> P st'"
      proof (elim conjE)
        fix x st assume st: "cleared s st" "P st" "se_sfq (ents s x) \<noteq> None"
        then obtain q where "se_sfq (ents st x) = Some q" using D [OF st(1)] by auto
        from step [OF st(1,2) this] show "\<exists>b st'. body x st = Some (b, st') \<and> cleared s st' \<and> P st'" .
      qed
      show "\<And>st x. cleared s st \<and> P st \<Longrightarrow> par_of st x = par_of s x"
        by (elim conjE, drule D) simp
    qed
    then show ?thesis using first(1) by (subst walkup.simps) auto
  qed
  show "\<exists>s'. clear_skip_candidate e s = Some s' \<and> cleared s s' \<and> skip (sfqs s' q) = None"
    if "skip (sfqs s q) = Some e"
    unfolding clear_skip_candidate_def
    by (rule walk [where sa = "upd_q q (\<lambda>c. c\<lparr>skip := None\<rparr>) s"]) (use that e in \<open>auto intro: cleared_upd\<close>)
  show "\<exists>s'. clear_next_candidate e s = Some s' \<and> cleared s s' \<and> sfq_next (sfqs s' q) = None"
    if "sfq_next (sfqs s q) = Some e"
    unfolding clear_next_candidate_def
    by (rule walk [where sa = "upd_q q (\<lambda>c. c\<lparr>sfq_next := None\<rparr>) s"]) (use that e in \<open>auto intro: cleared_upd\<close>)
  show "\<exists>s'. clear_last_candidate e s = Some s' \<and> cleared s s' \<and> sfq_last (sfqs s' q) = None"
    if "sfq_last (sfqs s q) = Some e"
    unfolding clear_last_candidate_def
    by (rule walk [where sa = "upd_q q (\<lambda>c. c\<lparr>sfq_last := None\<rparr>) s"]) (use that e in \<open>auto intro: cleared_upd\<close>)
qed

end
