(* ===== verification/Pss_Entity.thy ===== *)
theory Pss_Entity
  imports Pss_Queue
begin

text \<open>
  Each operation of the class on one entity of one queue ends without a failed assertion and
  keeps the queue invariant: changing a group's weight, enqueueing, dequeueing, putting the
  running entity back, making an entity the running one, and picking the next one.
\<close>

section \<open>Clearing candidates\<close>

lemma cleared_trans: "cleared s s' \<Longrightarrow> cleared s' s'' \<Longrightarrow> cleared s s''"
  unfolding cleared_def
proof (elim conjE, intro conjI)
  assume "only_cands s s'" "only_cands s' s''"
  then obtain f g where f: "s' = s\<lparr>sfqs := f\<rparr>"
      "\<And>q. f q = (sfqs s q)\<lparr>skip := skip (f q), sfq_next := sfq_next (f q), sfq_last := sfq_last (f q)\<rparr>"
    and g: "s'' = s'\<lparr>sfqs := g\<rparr>"
      "\<And>q. g q = (f q)\<lparr>skip := skip (g q), sfq_next := sfq_next (g q), sfq_last := sfq_last (g q)\<rparr>"
    by (auto simp: only_cands_def)
  have "g q = (sfqs s q)\<lparr>skip := skip (g q), sfq_next := sfq_next (g q), sfq_last := sfq_last (g q)\<rparr>" for q
    by (subst g(2), subst f(2)) simp
  then show "only_cands s s''" unfolding only_cands_def by (intro exI [of _ g]) (simp add: f(1) g(1))
qed (rule less_cands_trans)

lemma clearedD:
  assumes "cleared s s'"
  shows "ents s' = ents s" "threads s' = threads s" "rq s' = rq s" "same_struct s s'" "same_weights s s'"
    "vtime (sfqs s' q) = vtime (sfqs s q)" "less_cands s s'" "hier_wf s' = hier_wf s"
  using assms only_candsD [of s s'] inv_same_struct(6) [of s s'] by (simp_all add: cleared_def)

definition no_cand :: "qid \<Rightarrow> eid \<Rightarrow> 'q sched \<Rightarrow> bool" where
  "no_cand q e s \<longleftrightarrow> skip (sfqs s q) \<noteq> Some e \<and> sfq_next (sfqs s q) \<noteq> Some e \<and> sfq_last (sfqs s q) \<noteq> Some e"

lemma clear_candidates_ok:
  assumes wf: "hier_wf s" and e: "se_sfq (ents s e) = Some q"
  shows "\<exists>s'. clear_candidates q e s = Some s' \<and> cleared s s' \<and> no_cand q e s'"
proof -
  have "\<exists>sa. (if skip (sfqs s q) = Some e then clear_skip_candidate e s else Some s) = Some sa \<and>
      cleared s sa \<and> skip (sfqs sa q) \<noteq> Some e"
    using clear_candidate_ok(1) [OF wf e] by (auto; fastforce)
  then obtain sa where a: "(if skip (sfqs s q) = Some e then clear_skip_candidate e s else Some s) = Some sa"
    "cleared s sa" "skip (sfqs sa q) \<noteq> Some e" by blast
  have wfa: "hier_wf sa" "se_sfq (ents sa e) = Some q" using clearedD [OF a(2)] wf e by simp_all
  have "\<exists>sb. (if sfq_next (sfqs sa q) = Some e then clear_next_candidate e sa else Some sa) = Some sb \<and>
      cleared sa sb \<and> sfq_next (sfqs sb q) \<noteq> Some e"
    using clear_candidate_ok(2) [OF wfa] by (auto; fastforce)
  then obtain sb where b: "(if sfq_next (sfqs sa q) = Some e then clear_next_candidate e sa else Some sa) = Some sb"
    "cleared sa sb" "sfq_next (sfqs sb q) \<noteq> Some e" by blast
  have wfb: "hier_wf sb" "se_sfq (ents sb e) = Some q" using clearedD [OF b(2)] wfa by simp_all
  have "\<exists>sc. (if sfq_last (sfqs sb q) = Some e then clear_last_candidate e sb else Some sb) = Some sc \<and>
      cleared sb sc \<and> sfq_last (sfqs sc q) \<noteq> Some e"
    using clear_candidate_ok(3) [OF wfb] by (auto; fastforce)
  then obtain sc where c: "(if sfq_last (sfqs sb q) = Some e then clear_last_candidate e sb else Some sb) = Some sc"
    "cleared sb sc" "sfq_last (sfqs sc q) \<noteq> Some e" by blast
  have "skip (sfqs sc q) \<noteq> Some e" "sfq_next (sfqs sc q) \<noteq> Some e"
    using a(3) b(3) clearedD(7) [OF b(2)] clearedD(7) [OF c(2)] unfolding less_cands_def by (metis insert_iff option.distinct(1) singletonD)+
  then have "no_cand q e sc" using c(3) by (simp add: no_cand_def)
  moreover have "clear_candidates q e s = Some sc"
    unfolding clear_candidates_def using a(1) b(1) c(1) by simp
  ultimately show ?thesis using cleared_trans a(2) b(2) c(2) by blast
qed

lemma update_curr_inv:
  assumes "hier_wf s" "cur_inv s"
  shows "\<exists>s'. update_curr K q s = Some s' \<and> same_core s s' \<and> same_runq s s' \<and> same_keys s s' \<and>
    (\<forall>e. curr (sfqs s q) \<noteq> Some e \<longrightarrow> vruntime (ents s' e) = vruntime (ents s e))"
proof -
  have "\<And>c. curr (sfqs s q) = Some c \<Longrightarrow> \<not> onsfq (ents s c) \<and> thread_ok s c"
    using cur_thread_ok [OF assms] .
  from update_curr_ok [OF this, where K = K] show ?thesis by blast
qed

section \<open>The weight of a group's entity\<close>

text \<open>What moves when only weights and running totals do.\<close>

definition only_weights :: "'q sched \<Rightarrow> 'q sched \<Rightarrow> bool" where
  "only_weights s s' \<longleftrightarrow> same_struct s s' \<and> same_cands s s' \<and> same_runq s s' \<and> same_keys s s' \<and>
     (\<forall>e. joined (ents s e) = False \<longrightarrow> (\<forall>q. curr (sfqs s q) \<noteq> Some e) \<longrightarrow> vruntime (ents s' e) = vruntime (ents s e))"

lemma wsum_simps [simp]: "wsum s [] = 0" "wsum s (e # es) = weight (se_load (ents s e)) + wsum s es"
  "wsum s (es @ fs) = wsum s es + wsum s fs"
  by (simp_all add: wsum_def)

lemma wsum_cong: "(\<And>e. e \<in> set es \<Longrightarrow> weight (se_load (ents s' e)) = weight (se_load (ents s e))) \<Longrightarrow> wsum s' es = wsum s es"
  by (simp add: wsum_def cong: map_cong)

lemma wsum_change:
  assumes "distinct es" "p \<in> set es" "\<And>e. e \<noteq> p \<Longrightarrow> weight (se_load (ents s' e)) = weight (se_load (ents s e))"
  shows "wsum s' es = wsum s es - weight (se_load (ents s p)) + weight (se_load (ents s' p))"
  using assms
proof (induction es)
  case (Cons a es)
  show ?case
  proof (cases "a = p")
    case True
    have "wsum s' es = wsum s es" by (rule wsum_cong, rule Cons.prems(3)) (use Cons.prems(1) True in auto)
    with True show ?thesis by simp
  next
    case False
    with Cons show ?thesis by simp
  qed
qed simp

definition reweigh :: "qid \<Rightarrow> eid \<Rightarrow> u64 \<Rightarrow> 'q sched \<Rightarrow> 'q sched" where
  "reweigh q p w s = account_entity_enqueue q p
     (upd_se p (\<lambda>se. se\<lparr>se_load := load_set w (se_load se)\<rparr>) (account_entity_dequeue q p s))"

lemma reweigh_simps:
  fixes s :: "'q sched" and p :: eid
  defines "old \<equiv> weight (se_load (ents s p))"
  shows "ents (reweigh q p w s) = (ents s)(p := (ents s p)\<lparr>se_load := load_set w (se_load (ents s p))\<rparr>)"
    "tlinks (reweigh q p w s) = tlinks s" "groups (reweigh q p w s) = groups s"
    "tun (reweigh q p w s) = tun s" "curthread (reweigh q p w s) = curthread s"
    "threads (reweigh q p w s) = threads s"
    "qstruct (sfqs (reweigh q p w s) r) = qstruct (sfqs s r)" "qcands (sfqs (reweigh q p w s) r) = qcands (sfqs s r)"
    "weight (sfq_load (sfqs (reweigh q p w s) r)) =
       weight (sfq_load (sfqs s r)) + (if r = q then w - old else 0)"
    "weight (rq_load (rq (reweigh q p w s))) =
       weight (rq_load (rq s)) + (if se_parent (ents s p) = None then w - old else 0)"
  by (auto simp: reweigh_def account_entity_enqueue_def account_entity_dequeue_def Let_def old_def
      qstruct_def qcands_def)

lemma update_entity_weight_ok:
  assumes acct: "acct M s" and load: "load_inv s" and M: "\<And>r. p \<in> set (M r) \<longleftrightarrow> r = q \<and> joined (ents s p)" "distinct (M q)"
    and cur: "\<And>c. curr (sfqs s q) = Some c \<Longrightarrow> \<not> onsfq (ents s c) \<and> thread_ok s c"
    and par: "se_parent (ents s p) = None \<longleftrightarrow> q = RQ_SFQ"
  shows "\<exists>s'. update_entity_weight K q p w s = Some s' \<and> only_weights s s' \<and> acct M s' \<and> load_inv s' \<and>
    weight (se_load (ents s' p)) = w \<and> (\<forall>e. e \<noteq> p \<longrightarrow> weight (se_load (ents s' e)) = weight (se_load (ents s e)))"
proof (cases "joined (ents s p)")
  case False
  let ?s = "upd_se p (\<lambda>se. se\<lparr>se_load := load_set w (se_load se)\<rparr>) s"
  have "same_struct s ?s" "same_cands s ?s" "same_runq s ?s" "same_keys s ?s"
    by (auto simp: same_struct_def estruct_def same_cands_def same_runq_def same_keys_def)
  then have "only_weights s ?s" by (simp add: only_weights_def)
  moreover have "wsum ?s (M r) = wsum s (M r)" for r
    using M(1) False by (intro wsum_cong) auto
  then have "acct M ?s" using acct by (simp add: acct_def)
  ultimately show ?thesis using False load by (simp add: update_entity_weight_def load_inv_def)
next
  case True
  obtain s1 where s1: "(if curr (sfqs s q) = Some p then update_curr K q s else Some s) = Some s1"
    "same_core s s1" "same_runq s s1" "same_keys s s1"
    "\<forall>e. curr (sfqs s q) \<noteq> Some e \<longrightarrow> vruntime (ents s1 e) = vruntime (ents s e)"
  proof (cases "curr (sfqs s q) = Some p")
    case True
    then show ?thesis using update_curr_ok [OF cur, of q K] that by auto
  qed (use that in auto)
  let ?s = "reweigh q p w s1"
  note D = same_coreD [OF s1(2)] and R = reweigh_simps [where s = s1 and q = q and p = p and w = w]
  have eq: "update_entity_weight K q p w s = Some ?s"
    using True s1(1) by (auto simp: update_entity_weight_def reweigh_def split: if_splits)
  have "same_struct s1 ?s" by (simp add: same_struct_def R estruct_def)
  moreover have "same_cands s1 ?s" by (simp add: same_cands_def R)
  moreover note s1(2) [unfolded same_core_split]
  ultimately have st: "same_struct s ?s" "same_cands s ?s" using same_struct_trans same_cands_trans by blast+
  have "only_weights s ?s"
    unfolding only_weights_def using st s1(3-5) by (auto simp: same_runq_def same_keys_def R)
  moreover have W: "weight (se_load (ents ?s e)) = (if e = p then w else weight (se_load (ents s e)))" for e
    by (simp add: R D)
  moreover have "wsum ?s (M r) = wsum s (M r) + (if r = q then w - weight (se_load (ents s p)) else 0)" for r
  proof (cases "r = q")
    case True
    then show ?thesis using wsum_change [of "M q" p ?s s] M \<open>joined (ents s p)\<close> W by simp
  next
    case False
    then show ?thesis using M(1) W by (simp, intro wsum_cong) auto
  qed
  then have "acct M ?s"
    using acct same_structD(8) [OF st(1)] by (simp add: acct_def R D)
  moreover have "load_inv ?s" using load par by (auto simp: load_inv_def R D)
  ultimately show ?thesis using eq by auto
qed

lemma no_self_parent:
  assumes "hier_wf s"
  shows "par_of s e \<noteq> Some e"
proof
  assume e: "par_of s e = Some e"
  have "\<not> chain (par_of s) (Some e) es" for es
  proof (induction es)
    case (Cons a es)
    then show ?case using e by (cases "a = e") auto
  qed simp
  then show False using assms unfolding hier_wf_def by blast
qed

text \<open>
  The shares of the group that owns the queue of \<open>e\<close>. While \<open>e\<close> is being enqueued it already
  counts as a member but is not yet flagged.
\<close>

lemma update_sfq_shares_ok:
  assumes wf: "hier_wf s" and cur: "cur_inv s" and acct: "acct M s" and load: "load_inv s" and grp: "group_inv M s"
    and e: "se_sfq (ents s e) = Some q"
    and M: "\<And>r x. x \<in> set (M r) \<Longrightarrow> se_sfq (ents s x) = Some r \<and> (joined (ents s x) \<or> x = e)" "\<And>r. distinct (M r)"
  shows "\<exists>s'. update_sfq_shares K q s = Some s' \<and> only_weights s s' \<and> acct M s' \<and> load_inv s' \<and>
    (\<forall>x. se_parent (ents s e) \<noteq> Some x \<longrightarrow> weight (se_load (ents s' x)) = weight (se_load (ents s x))) \<and>
    (\<forall>p. se_parent (ents s e) = Some p \<longrightarrow>
       (\<exists>g. sfq_group (sfqs s q) = Some g \<and> weight (se_load (ents s' p)) = sg_shares (groups s g)))"
proof -
  obtain g where g: "sfq_group (sfqs s q) = Some g" "sg_se (groups s g) = se_parent (ents s e)"
    using wf e unfolding hier_wf_def by blast
  show ?thesis
  proof (cases "se_parent (ents s e)")
    case None
    then show ?thesis using g acct load
      by (intro exI [of _ s]) (simp add: update_sfq_shares_def only_weights_def)
  next
    case (Some p)
    have "case Some p of None \<Rightarrow> q = RQ_SFQ
       | Some p \<Rightarrow> q \<noteq> RQ_SFQ \<and> my_q (ents s p) = Some q \<and> se_sfq (ents s p) \<noteq> None"
      using wf e unfolding hier_wf_def Some [symmetric] by blast
    then obtain q' where q': "my_q (ents s p) = Some q" "se_sfq (ents s p) = Some q'" by auto
    then obtain n where n: "p = ZONE_SE n" using wf unfolding hier_wf_def by (cases p) auto
    have pe: "p \<noteq> e" using no_self_parent [OF wf, of e] Some by auto
    have mp: "p \<in> set (M r) \<longleftrightarrow> r = q' \<and> joined (ents s p)" for r
      using grp q'(2) M(1) [of p r] pe unfolding n group_inv_def by auto
    have par: "se_parent (ents s p) = None \<longleftrightarrow> q' = RQ_SFQ"
      using wf q'(2) unfolding hier_wf_def by (force split: option.splits)
    show ?thesis
    proof (cases "weight (se_load (ents s p)) = sg_shares (groups s g)")
      case True
      then show ?thesis using g Some acct load
        by (intro exI [of _ s]) (simp add: update_sfq_shares_def only_weights_def)
    next
      case False
      have "update_sfq_shares K q s = update_entity_weight K q' p (sg_shares (groups s g)) s"
        using False g Some q' by (simp add: update_sfq_shares_def calc_sfq_shares_def)
      then show ?thesis
        using update_entity_weight_ok [OF acct load mp M(2) cur_thread_ok [OF wf cur] par,
            where K = K and w = "sg_shares (groups s g)"] g(1) Some by force
    qed
  qed
qed

section \<open>Enqueueing\<close>

lemma add_leaf_sfq_ok:
  assumes wf: "hier_wf s" and e: "se_sfq (ents s e) = Some q"
  shows "\<exists>s'. add_leaf_sfq q s = Some s' \<and> same_core s s' \<and> ents s' = ents s"
proof -
  obtain g where g: "sfq_group (sfqs s q) = Some g"
    "\<And>pg. sg_parent (groups s g) = Some pg \<Longrightarrow> sg_sfq (groups s pg) \<noteq> None"
    using wf e unfolding hier_wf_def by blast
  then show ?thesis
    by (cases "sg_parent (groups s g)")
      (fastforce simp: add_leaf_sfq_def same_core_def)+
qed

definition enq_frame :: "eid \<Rightarrow> 'q sched \<Rightarrow> 'q sched \<Rightarrow> bool" where
  "enq_frame e s s' \<longleftrightarrow> same_static s s' \<and> same_cands s s' \<and> same_keys s s' \<and>
     (\<forall>q. curr (sfqs s' q) = curr (sfqs s q)) \<and>
     (\<forall>x. x \<noteq> e \<longrightarrow> joined (ents s' x) = joined (ents s x) \<and> onsfq (ents s' x) = onsfq (ents s x) \<and>
            onrunq (ents s' x) = onrunq (ents s x)) \<and>
     onsfq (ents s' e) \<and> tun s' = tun s \<and> curthread s' = curthread s"

text \<open>The first half of both enqueueing and putting back leaves the core as it is.\<close>

lemma account_enqueue_simps:
  "ents (account_entity_enqueue q e s) = ents s" "tlinks (account_entity_enqueue q e s) = tlinks s"
  "groups (account_entity_enqueue q e s) = groups s" "threads (account_entity_enqueue q e s) = threads s"
  "tun (account_entity_enqueue q e s) = tun s" "curthread (account_entity_enqueue q e s) = curthread s"
  "tl_root (sfqs (account_entity_enqueue q e s) r) = tl_root (sfqs s r)"
  "leftmost (sfqs (account_entity_enqueue q e s) r) = leftmost (sfqs s r)"
  "curr (sfqs (account_entity_enqueue q e s) r) = curr (sfqs s r)"
  "sfq_group (sfqs (account_entity_enqueue q e s) r) = sfq_group (sfqs s r)"
  "qcands (sfqs (account_entity_enqueue q e s) r) = qcands (sfqs s r)"
  "nr_running (sfqs (account_entity_enqueue q e s) r) = nr_running (sfqs s r) + (if r = q then 1 else 0)"
  "weight (sfq_load (sfqs (account_entity_enqueue q e s) r)) =
     weight (sfq_load (sfqs s r)) + (if r = q then weight (se_load (ents s e)) else 0)"
  "weight (rq_load (rq (account_entity_enqueue q e s))) =
     weight (rq_load (rq s)) + (if se_parent (ents s e) = None then weight (se_load (ents s e)) else 0)"
  by (auto simp: account_entity_enqueue_def Let_def qcands_def)

lemma account_dequeue_simps:
  "ents (account_entity_dequeue q e s) = ents s" "tlinks (account_entity_dequeue q e s) = tlinks s"
  "groups (account_entity_dequeue q e s) = groups s" "threads (account_entity_dequeue q e s) = threads s"
  "tun (account_entity_dequeue q e s) = tun s" "curthread (account_entity_dequeue q e s) = curthread s"
  "tl_root (sfqs (account_entity_dequeue q e s) r) = tl_root (sfqs s r)"
  "leftmost (sfqs (account_entity_dequeue q e s) r) = leftmost (sfqs s r)"
  "curr (sfqs (account_entity_dequeue q e s) r) = curr (sfqs s r)"
  "sfq_group (sfqs (account_entity_dequeue q e s) r) = sfq_group (sfqs s r)"
  "qcands (sfqs (account_entity_dequeue q e s) r) = qcands (sfqs s r)"
  "nr_running (sfqs (account_entity_dequeue q e s) r) = nr_running (sfqs s r) - (if r = q then 1 else 0)"
  "weight (sfq_load (sfqs (account_entity_dequeue q e s) r)) =
     weight (sfq_load (sfqs s r)) - (if r = q then weight (se_load (ents s e)) else 0)"
  "weight (rq_load (rq (account_entity_dequeue q e s))) =
     weight (rq_load (rq s)) - (if se_parent (ents s e) = None then weight (se_load (ents s e)) else 0)"
  by (auto simp: account_entity_dequeue_def Let_def qcands_def)

lemma hier_root: "hier_wf s \<Longrightarrow> se_sfq (ents s e) = Some q \<Longrightarrow> se_parent (ents s e) = None \<longleftrightarrow> q = RQ_SFQ"
  unfolding hier_wf_def by (fastforce split: option.splits)

lemma enqueue_prepare_ok:
  assumes inv: "queue_inv X s" and e: "\<not> joined (ents s e)" "se_sfq (ents s e) = Some q"
    and rq: "entity_is_thread s e \<Longrightarrow> \<not> onrunq (ents s e)"
  shows "\<exists>s2 s3 s4. update_curr K q (if and flags ENQUEUE_WAKEUP = 0
              then upd_se e (\<lambda>se. se\<lparr>vruntime := vruntime se + vtime (sfqs s q)\<rparr>) s else s) = Some s2 \<and>
      (if and flags ENQUEUE_WAKEUP \<noteq> 0 then place_entity q e False s2 else Some s2) = Some s3 \<and>
      set_runq_boost K e flags s3 = Some s4 \<and> same_core s s4 \<and> same_keys s s4 \<and>
      (\<forall>x. x \<noteq> e \<longrightarrow> onrunq (ents s4 x) = onrunq (ents s x))"
proof -
  have off: "\<not> onsfq (ents s e)" by (rule not_joined_off [OF inv e(2,1)])
  define s1 where "s1 = (if and flags ENQUEUE_WAKEUP = 0
    then upd_se e (\<lambda>se. se\<lparr>vruntime := vruntime se + vtime (sfqs s q)\<rparr>) s else s)"
  have 1: "same_core s s1" "same_runq s s1" "same_keys s s1"
    using upd_vruntime_frame [of s e "\<lambda>se. vruntime se + vtime (sfqs s q)"] off by (simp_all add: s1_def)
  have inv1: "queue_inv X s1" by (rule queue_inv_same_core [OF inv 1(1)])
  obtain s2 where 2: "update_curr K q s1 = Some s2" "same_core s1 s2" "same_runq s1 s2" "same_keys s1 s2"
    using update_curr_inv [OF queue_invD(8,2) [OF inv1]] by blast
  have off2: "\<not> onsfq (ents s2 e)" using off 1(1) 2(2) by (simp add: same_coreD)
  define s3 where "s3 = (if and flags ENQUEUE_WAKEUP \<noteq> 0 then the (place_entity q e False s2) else s2)"
  have 3: "(if and flags ENQUEUE_WAKEUP \<noteq> 0 then place_entity q e False s2 else Some s2) = Some s3"
    "same_core s2 s3" "same_runq s2 s3" "same_keys s2 s3"
    using upd_vruntime_frame [OF off2] by (simp_all add: s3_def place_entity_wakeup)
  have c3: "same_core s s3" using 1(1) 2(2) 3(2) same_core_trans by blast
  have th: "thread_ok s3 e" "entity_is_thread s3 e = entity_is_thread s e"
    using hier_thread_ok [OF queue_invD(8) [OF inv] e(2)] inv_same_struct [of s s3] c3
    by (simp_all add: same_core_split)
  have r3: "onrunq (ents s3 x) = onrunq (ents s x)" for x
    using 1(2) 2(3) 3(3) by (simp add: same_runq_def)
  have k2: "same_keys s s2" by (rule same_keys_trans [OF 1(3,1) 2(4)])
  have c2: "same_core s s2" by (rule same_core_trans [OF 1(1) 2(2)])
  have k3: "same_keys s s3" by (rule same_keys_trans [OF k2 c2 3(4)])
  obtain s4 where 4: "set_runq_boost K e flags s3 = Some s4" "same_core s3 s4" "same_keys s3 s4"
    "\<forall>x. x \<noteq> e \<longrightarrow> onrunq (ents s4 x) = onrunq (ents s3 x)"
    using set_runq_boost_ok [OF th(1), where K = K and flags = flags] rq th(2) r3 by auto
  have "same_core s s4" "same_keys s s4"
    by (rule same_core_trans [OF c3 4(2)], rule same_keys_trans [OF k3 c3 4(3)])
  then show ?thesis
    using 2(1) 3(1) 4(1,4) r3 unfolding s1_def by auto
qed

lemma only_weightsD:
  assumes "only_weights s s'"
  shows "same_struct s s'" "same_cands s s'" "same_runq s s'" "same_keys s s'"
  using assms by (simp_all add: only_weights_def)

lemma set_timeline_static:
  "same_static s (set_timeline q e b h r lm s)" "same_static s (account_entity_enqueue q e s)"
  "same_static s (account_entity_dequeue q e s)"
  by (simp_all add: same_static_def account_enqueue_simps account_dequeue_simps)

text \<open>The invariant with one more element, not yet flagged as joined.\<close>

lemma enqueue_account_ok:
  assumes inv: "queue_inv X s" and e: "\<not> joined (ents s e)" "se_sfq (ents s e) = Some q"
    and cur: "curr (sfqs s q) \<noteq> Some e" and X: "X q = ys @ zs"
    and t: "tl_inv (X(q := ys @ e # zs)) (set_timeline q e True h r lm s)"
    and s'_def: "s' = account_entity_enqueue q e (set_timeline q e True h r lm s)"
    and M_def: "M = (\<lambda>r. (X(q := ys @ e # zs)) r @ cur_list s r)"
  shows "tl_inv (X(q := ys @ e # zs)) s'" "cur_inv s'" "acct M s'" "load_inv s'" "group_inv M s'" "hier_wf s'"
    "cand_inv M s'" "\<And>r x. x \<in> set (M r) \<Longrightarrow> se_sfq (ents s' x) = Some r \<and> (joined (ents s' x) \<or> x = e)"
    "\<And>r. distinct (M r)" "\<And>r. set (M r) = set (mem X s r) \<union> (if r = q then {e} else {})"
proof -
  note I = queue_invD [OF inv]
  have off: "\<not> onsfq (ents s e)" by (rule not_joined_off [OF inv e(2,1)])
  note S = account_enqueue_simps [where s = "set_timeline q e True h r lm s" and q = q and e = e, folded s'_def]
  have ent: "ents s' x = (if x = e then (ents s e)\<lparr>onsfq := True\<rparr> else ents s x)" for x by (simp add: S)
  have cands: "skip (sfqs s' p) = skip (sfqs s p)" "sfq_next (sfqs s' p) = sfq_next (sfqs s p)"
    "sfq_last (sfqs s' p) = sfq_last (sfqs s p)" for p
    using S(11) [of p] by (cases "p = q"; simp add: qcands_def)+
  show t': "tl_inv (X(q := ys @ e # zs)) s'"
    using t by (simp add: tl_inv_def tlq_def S)
  have curr: "curr (sfqs s' p) = curr (sfqs s p)" for p by (simp add: S)
  have ce: "curr (sfqs s p) \<noteq> Some e" for p
    using I(2) cur e(2) unfolding cur_inv_def by (cases "p = q") auto
  show "cur_inv s'" using I(2) ce by (auto simp: cur_inv_def curr ent)
  show set: "set (M r) = set (mem X s r) \<union> (if r = q then {e} else {})" for r
    by (auto simp: M_def mem_def X)
  have len: "length (M r) = length (mem X s r) + (if r = q then 1 else 0)"
    and ws: "wsum s (M r) = wsum s (mem X s r) + (if r = q then weight (se_load (ents s e)) else 0)" for r
    by (simp_all add: M_def mem_def X)
  have "wsum s' (M r) = wsum s (M r)" for r by (rule wsum_cong) (simp add: ent)
  then show "acct M s'" using I(4) by (simp add: acct_def len ws S)
  show "load_inv s'" using I(5) hier_root [OF I(8) e(2)] by (simp add: load_inv_def S)
  show "group_inv M s'" using I(7) set e(1) by (fastforce simp: group_inv_def ent)
  show "hier_wf s'"
    using I(8) hier_wf_static(1) same_static_trans set_timeline_static unfolding s'_def by metis
  show "cand_inv M s'" using I(6) set unfolding cand_inv_def cands by blast
  have off_mem: "e \<notin> set (mem X s r)" for r using queue_mem(1) [OF inv, where e = e and q = r] e by simp
  show "distinct (M r)" for r
    using queue_mem(2) [OF inv, where q = r] off_mem [of r] by (auto simp: M_def mem_def X)
  show "se_sfq (ents s' x) = Some r \<and> (joined (ents s' x) \<or> x = e)" if "x \<in> set (M r)" for r x
    using that queue_mem(1) [OF inv, where e = x and q = r] e(2) unfolding set by (auto simp: ent split: if_splits)
qed

lemma enqueue_entity_ok:
  assumes inv: "queue_inv X s" and e: "\<not> joined (ents s e)" "se_sfq (ents s e) = Some q"
    and cur: "curr (sfqs s q) \<noteq> Some e" and rq: "entity_is_thread s e \<Longrightarrow> \<not> onrunq (ents s e)"
  shows "\<exists>s' ys zs. enqueue_entity K q e flags s = Some s' \<and> X q = ys @ zs \<and>
    queue_inv (X(q := ys @ e # zs)) s' \<and> enq_frame e s s' \<and> joined (ents s' e) \<and>
    (ys \<noteq> [] \<longrightarrow> \<not> vtime_cmp s' e (last ys) < 0) \<and> (zs \<noteq> [] \<longrightarrow> vtime_cmp s' e (hd zs) < 0) \<and>
    (\<forall>p. se_parent (ents s e) \<noteq> Some p \<longrightarrow> weight (se_load (ents s' p)) = weight (se_load (ents s p))) \<and>
    (\<forall>p. se_parent (ents s e) = Some p \<longrightarrow>
       (\<exists>g. sfq_group (sfqs s q) = Some g \<and> weight (se_load (ents s' p)) = sg_shares (groups s g)))"
proof -
  obtain s2 s3 s4 where p: "update_curr K q (if and flags ENQUEUE_WAKEUP = 0
              then upd_se e (\<lambda>se. se\<lparr>vruntime := vruntime se + vtime (sfqs s q)\<rparr>) s else s) = Some s2"
      "(if and flags ENQUEUE_WAKEUP \<noteq> 0 then place_entity q e False s2 else Some s2) = Some s3"
      "set_runq_boost K e flags s3 = Some s4" "same_core s s4" "same_keys s s4"
      "\<forall>x. x \<noteq> e \<longrightarrow> onrunq (ents s4 x) = onrunq (ents s x)"
    using enqueue_prepare_ok [OF inv e rq] by blast
  note D4 = same_coreD [OF p(4)]
  have inv4: "queue_inv X s4" by (rule queue_inv_same_core [OF inv p(4)])
  have e4: "\<not> joined (ents s4 e)" "se_sfq (ents s4 e) = Some q" "curr (sfqs s4 q) \<noteq> Some e"
    using e cur by (simp_all add: D4)
  have off: "\<not> onsfq (ents s4 e)" by (rule not_joined_off [OF inv4 e4(2,1)])
  from enqueue_timeline_ok [OF queue_invD(1) [OF inv4] off e4(2)] obtain h r lm ys zs where t:
    "enqueue_timeline q e s4 = Some (set_timeline q e True h r lm s4)" "X q = ys @ zs"
    "tl_inv (X(q := ys @ e # zs)) (set_timeline q e True h r lm s4)"
    "ys \<noteq> [] \<longrightarrow> \<not> vtime_cmp s4 e (last ys) < 0" "zs \<noteq> [] \<longrightarrow> vtime_cmp s4 e (hd zs) < 0" by blast
  define s6 where "s6 = account_entity_enqueue q e (set_timeline q e True h r lm s4)"
  define M where "M = (\<lambda>r. (X(q := ys @ e # zs)) r @ cur_list s4 r)"
  note A = enqueue_account_ok [OF inv4 e4 t(2,3) s6_def M_def]
  note S = account_enqueue_simps [where s = "set_timeline q e True h r lm s4" and q = q and e = e, folded s6_def]
  have e6: "se_sfq (ents s6 e) = Some q" "se_parent (ents s6 e) = se_parent (ents s e)"
    using e4 by (simp_all add: S D4)
  from update_sfq_shares_ok [OF A(6,2,3,4,5) e6(1) A(8,9), where K = K] obtain s7 where u:
    "update_sfq_shares K q s6 = Some s7" "only_weights s6 s7" "acct M s7" "load_inv s7"
    "\<forall>x. se_parent (ents s e) \<noteq> Some x \<longrightarrow> weight (se_load (ents s7 x)) = weight (se_load (ents s6 x))"
    "\<forall>p. se_parent (ents s e) = Some p \<longrightarrow>
       (\<exists>g. sfq_group (sfqs s6 q) = Some g \<and> weight (se_load (ents s7 p)) = sg_shares (groups s6 g))"
    unfolding e6(2) by blast
  note W = only_weightsD [OF u(2)]
  note D7 = same_structD [OF W(1)]
  have e7: "se_sfq (ents s7 e) = Some q" "hier_wf s7"
    using e6 A(6) inv_same_struct(6) [OF W(1)] by (simp_all add: D7)
  obtain s8 where l: "(if nr_running (sfqs s7 q) = 1 then add_leaf_sfq q s7 else Some s7) = Some s8"
    "same_core s7 s8" "ents s8 = ents s7"
    using add_leaf_sfq_ok [OF e7(2,1)] same_refl(1) by (cases "nr_running (sfqs s7 q) = 1") auto
  note D8 = same_coreD [OF l(2)]
  define s9 where "s9 = upd_se e (\<lambda>se. se\<lparr>joined := True\<rparr>) s8"
  have run: "enqueue_entity K q e flags s = Some s9"
    using e(1) p(1-3) t(1) u(1) l(1) by (simp add: enqueue_entity_def s6_def s9_def Let_def cong: if_cong)
  have ent: "onsfq (ents s9 x) = (x = e \<or> onsfq (ents s x))" "joined (ents s9 x) = (x = e \<or> joined (ents s x))"
    "se_parent (ents s9 x) = se_parent (ents s x)" "se_sfq (ents s9 x) = se_sfq (ents s x)"
    "my_q (ents s9 x) = my_q (ents s x)" for x
    by (simp_all add: s9_def l(3) D7 S D4)
  have q9: "sfqs s9 = sfqs s8" "tlinks s9 = tlinks s8" "groups s9 = groups s8" "tun s9 = tun s8"
    "rq s9 = rq s8" "curthread s9 = curthread s8" by (simp_all add: s9_def)
  have w9: "weight (se_load (ents s9 x)) = weight (se_load (ents s7 x))" for x by (simp add: s9_def l(3))
  have curr: "curr (sfqs s9 x) = curr (sfqs s x)" for x by (simp add: q9 D8 D7 S D4)
  have ce: "curr (sfqs s x) \<noteq> Some e" for x
    using queue_invD(2) [OF inv] cur e(2) unfolding cur_inv_def by (cases "x = q") auto
  have memM: "mem (X(q := ys @ e # zs)) s9 = M"
  proof
    fix x
    show "mem (X(q := ys @ e # zs)) s9 x = M x"
      using ce [of x] by (simp add: mem_def M_def cur_list_def curr ent D4 split: option.splits)
  qed
  have c9: "same_cands s s9"
    using W(2) l(2) p(4) by (simp add: same_core_split same_cands_def q9 S) (simp add: qcands_def)
  have "queue_inv (X(q := ys @ e # zs)) s9"
    unfolding queue_inv_def memM
  proof (intro conjI)
    have "tl_inv (X(q := ys @ e # zs)) s7" using A(1) inv_same_struct(1) [OF W(1)] by simp
    then show "tl_inv (X(q := ys @ e # zs)) s9"
      by (simp add: tl_inv_def tlq_def q9 D8 s9_def l(3))
    show "cur_inv s9" using queue_invD(2) [OF inv] ce by (auto simp: cur_inv_def curr ent)
    show "join_inv (X(q := ys @ e # zs)) s9"
    proof -
      have "x \<in> set (X p) \<Longrightarrow> joined (ents s x)" for p x
        using queue_invD(3) [OF inv] by (simp add: join_inv_def)
      from this [of _ q] this show ?thesis unfolding t(2) by (auto simp: join_inv_def ent)
    qed
    have "wsum s9 (M x) = wsum s7 (M x)" for x by (rule wsum_cong) (simp add: w9)
    then show "acct M s9" "load_inv s9" using u(3,4) by (simp_all add: acct_def load_inv_def q9 D8)
    show "cand_inv M s9" using A(7) by (simp add: cand_inv_def q9 D8 same_candsD [OF W(2)])
    have "e \<in> set (M q)" by (simp add: M_def)
    then show "group_inv M s9"
      using queue_invD(7) [OF inv4] e(2) A(10) unfolding group_inv_def ent D4 by blast
    have "same_static s7 s9" by (simp add: same_static_def q9 D8 s9_def l(3))
    then show "hier_wf s9" using hier_wf_static(1) e7(2) by blast
  qed
  moreover have keys: "vruntime (ents s9 x) = vruntime (ents s4 x)" if "x = e \<or> onsfq (ents s4 x)" for x
  proof -
    have "vruntime (ents s6 x) = vruntime (ents s4 x)" "onsfq (ents s6 x)" using that by (auto simp: S)
    then have "vruntime (ents s7 x) = vruntime (ents s4 x)" using W(4) by (simp add: same_keys_def)
    then show ?thesis by (cases "x = e") (simp_all add: s9_def l(3))
  qed
  have "enq_frame e s s9"
    unfolding enq_frame_def
  proof (intro conjI)
    show "same_static s s9" by (simp add: same_static_def ent q9 D8 D7 S D4)
    show "same_keys s s9" using keys p(5) by (simp add: same_keys_def D4)
    show "\<forall>x. x \<noteq> e \<longrightarrow> joined (ents s9 x) = joined (ents s x) \<and> onsfq (ents s9 x) = onsfq (ents s x) \<and>
        onrunq (ents s9 x) = onrunq (ents s x)"
      using W(3) p(6) by (simp add: ent) (simp add: s9_def l(3) same_runq_def S)
    show "tun s9 = tun s" "curthread s9 = curthread s" by (simp_all add: q9 D8 D7 S D4)
  qed (simp_all add: c9 curr ent)
  moreover have on: "y \<in> set ys \<union> set zs \<Longrightarrow> onsfq (ents s4 y)" for y
    using tl_inv_mem [OF queue_invD(1) [OF inv4], of y q] t(2) by auto
  have "(ys \<noteq> [] \<longrightarrow> \<not> vtime_cmp s9 e (last ys) < 0) \<and> (zs \<noteq> [] \<longrightarrow> vtime_cmp s9 e (hd zs) < 0)"
    using t(4,5) on keys by (simp add: vtime_cmp_def)
  moreover have "(\<forall>p. se_parent (ents s e) \<noteq> Some p \<longrightarrow> weight (se_load (ents s9 p)) = weight (se_load (ents s p))) \<and>
    (\<forall>p. se_parent (ents s e) = Some p \<longrightarrow>
       (\<exists>g. sfq_group (sfqs s q) = Some g \<and> weight (se_load (ents s9 p)) = sg_shares (groups s g)))"
    using u(5,6) by (simp add: w9 S D4)
  ultimately show ?thesis using run t(2) ent(2) by blast
qed

end
