(* ===== verification/Pss_Dequeue.thy ===== *)
theory Pss_Dequeue
  imports Pss_Entity
begin

text \<open>
  Taking an entity off its queue: \<open>dequeue_entity\<close>, with the members, the counters and the
  candidates that remain; and the pair that moves the running entity between the timeline and
  \<open>curr\<close>: \<open>activate_entity\<close> and \<open>put_prev_entity\<close>.
\<close>

section \<open>Leaving the timeline\<close>

lemma set_timeline_id:
  assumes "\<not> onsfq (ents s e)"
  shows "set_timeline q e False (tlinks s) (tl_root (sfqs s q)) (leftmost (sfqs s q)) s = s"
proof -
  have "(ents s)(e := (ents s e)\<lparr>onsfq := False\<rparr>) = ents s"
    using assms by (auto simp: fun_eq_iff intro: sched_entity.equality)
  moreover have "(sfqs s)(q := (sfqs s q)\<lparr>tl_root := tl_root (sfqs s q), leftmost := leftmost (sfqs s q)\<rparr>) = sfqs s"
    by (simp add: fun_eq_iff)
  ultimately show ?thesis by (simp add: set_timeline_def upd_se_def upd_q_def)
qed

text \<open>The optional removal, for an entity on the timeline or running.\<close>

lemma leave_timeline_ok:
  assumes inv: "queue_inv X s" and e: "e \<in> set (mem X s q)"
  shows "\<exists>h r lm. (if onsfq (ents s e) then dequeue_timeline q e s else Some s) =
      Some (set_timeline q e False h r lm s) \<and>
    tl_inv (X(q := remove1 e (X q))) (set_timeline q e False h r lm s)"
proof (cases "onsfq (ents s e)")
  case True
  then have "e \<in> set (X q)"
    using tl_inv_mem [OF queue_invD(1) [OF inv], of e q] queue_mem(1) [OF inv, of e q] e by simp
  then obtain ys zs where x: "X q = ys @ e # zs" "e \<notin> set ys" by (meson split_list_first)
  then have "remove1 e (X q) = ys @ zs" by (simp add: remove1_append)
  then show ?thesis using dequeue_timeline_ok [OF queue_invD(1) [OF inv] x(1)] True by auto
next
  case False
  then have "X(q := remove1 e (X q)) = X"
    using tl_inv_mem [OF queue_invD(1) [OF inv], of e q] by (simp add: remove1_idem)
  moreover note set_timeline_id [OF False, of q]
  ultimately show ?thesis using queue_invD(1) [OF inv] False by (metis (no_types, lifting))
qed

section \<open>Dequeueing\<close>

lemma wsum_remove1: "e \<in> set es \<Longrightarrow> wsum s (remove1 e es) = wsum s es - weight (se_load (ents s e))"
  by (induction es) auto

lemma mem_remove:
  assumes inv: "queue_inv X s" and e: "e \<in> set (mem X s q)"
    and cur: "\<And>r. curr (sfqs s' r) = curr (sfqs s r)"
    and j: "\<And>x. joined (ents s' x) \<longleftrightarrow> x \<noteq> e \<and> joined (ents s x)"
  shows "mem (X(q := remove1 e (X q))) s' r = (if r = q then remove1 e (mem X s q) else mem X s r)"
proof -
  have m: "joined (ents s e)" "se_sfq (ents s e) = Some q" "onsfq (ents s e) \<or> curr (sfqs s q) = Some e"
    using queue_mem(1) [OF inv, of e q] e by auto
  have c: "curr (sfqs s p) = Some e \<longleftrightarrow> p = q \<and> \<not> onsfq (ents s e)" for p
    using queue_invD(2) [OF inv] m unfolding cur_inv_def by (cases "p = q") auto
  have x: "e \<in> set (X q) \<longleftrightarrow> onsfq (ents s e)"
    using tl_inv_mem [OF queue_invD(1) [OF inv], of e q] m by simp
  show ?thesis
    using c [of r] x m(1) by (auto simp: mem_def cur_list_def cur j remove1_append remove1_idem split: option.splits)
qed

lemma dequeue_account_ok:
  assumes inv: "queue_inv X s" and e: "e \<in> set (mem X s q)" and nc: "no_cand q e s"
    and t: "tl_inv (X(q := remove1 e (X q))) (set_timeline q e False h r lm s)"
    and s': "s' = upd_se e (\<lambda>se. se\<lparr>joined := False\<rparr>) (account_entity_dequeue q e (set_timeline q e False h r lm s))"
  shows "queue_inv (X(q := remove1 e (X q))) s'"
proof -
  note I = queue_invD [OF inv]
  have m: "joined (ents s e)" "se_sfq (ents s e) = Some q" using queue_mem(1) [OF inv, of e q] e by auto
  note S = account_dequeue_simps [where s = "set_timeline q e False h r lm s" and q = q and e = e]
  have ent: "ents s' x = (if x = e then (ents s e)\<lparr>onsfq := False, joined := False\<rparr> else ents s x)" for x
    by (simp add: s' S)
  have q: "curr (sfqs s' p) = curr (sfqs s p)" "sfq_group (sfqs s' p) = sfq_group (sfqs s p)"
    "groups s' = groups s" "nr_running (sfqs s' p) = nr_running (sfqs s p) - (if p = q then 1 else 0)"
    "weight (sfq_load (sfqs s' p)) = weight (sfq_load (sfqs s p)) - (if p = q then weight (se_load (ents s e)) else 0)"
    "weight (rq_load (rq s')) = weight (rq_load (rq s)) - (if se_parent (ents s e) = None then weight (se_load (ents s e)) else 0)"
    for p
    by (simp_all add: s' S)
  have qc: "qcands (sfqs s' p) = qcands (sfqs s p)" for p by (simp add: s' S) (simp add: qcands_def)
  note mm = mem_remove [OF inv e, where s' = s', OF q(1)]
  have mem': "mem (X(q := remove1 e (X q))) s' p = (if p = q then remove1 e (mem X s q) else mem X s p)" for p
    by (rule mm) (simp add: ent)
  have w: "wsum s' es = wsum s es" for es by (rule wsum_cong) (simp add: ent)
  have d: "distinct (mem X s q)" by (rule queue_mem(2) [OF inv])
  have stat: "same_static s s'" by (simp add: same_static_def q ent)
  have eo: "e \<notin> set (mem X s p)" if "p \<noteq> q" for p using queue_mem(1) [OF inv, of e p] m that by auto
  show ?thesis
    unfolding queue_inv_def
  proof (intro conjI)
    show "tl_inv (X(q := remove1 e (X q))) s'"
      using t by (simp add: tl_inv_def tlq_def s' S)
    show "cur_inv s'" using I(2) by (simp add: cur_inv_def q ent)
    show "join_inv (X(q := remove1 e (X q))) s'"
    proof -
      have "x \<noteq> e \<and> joined (ents s x)" if "x \<in> set ((X(q := remove1 e (X q))) p)" for p x
        using that tl_inv_mem [OF t, of x p] I(3) set_remove1_subset [of e "X q"]
        by (auto simp: join_inv_def split: if_splits)
      then show ?thesis by (simp add: join_inv_def ent)
    qed
    show "acct (mem (X(q := remove1 e (X q))) s') s'"
      using I(4) e length_pos_if_in_set [OF e]
      by (auto simp: acct_def mem' w q length_remove1 wsum_remove1 of_nat_diff Suc_le_eq simp flip: length_greater_0_conv)
    show "load_inv s'" using I(5) hier_root [OF I(8) m(2)] by (simp add: load_inv_def q)
    show "cand_inv (mem (X(q := remove1 e (X q))) s') s'"
      using I(6) nc d qc by (simp add: cand_inv_def no_cand_def mem' qcands_def) metis
    show "group_inv (mem (X(q := remove1 e (X q))) s') s'"
      using I(7) d by (force simp: group_inv_def mem' ent split: if_splits)
    show "hier_wf s'" using hier_wf_static(1) [OF stat] I(8) by simp
  qed
qed

definition deq_frame :: "eid \<Rightarrow> 'q sched \<Rightarrow> 'q sched \<Rightarrow> bool" where
  "deq_frame e s s' \<longleftrightarrow> same_static s s' \<and> less_cands s s' \<and>
     (\<forall>q. curr (sfqs s' q) = curr (sfqs s q)) \<and>
     (\<forall>x. x \<noteq> e \<longrightarrow> joined (ents s' x) = joined (ents s x) \<and> onsfq (ents s' x) = onsfq (ents s x) \<and>
            onrunq (ents s' x) = onrunq (ents s x) \<and> (onsfq (ents s x) \<longrightarrow> vruntime (ents s' x) = vruntime (ents s x))) \<and>
     \<not> onsfq (ents s' e) \<and> \<not> joined (ents s' e) \<and> (entity_is_thread s e \<longrightarrow> \<not> onrunq (ents s' e)) \<and>
     tun s' = tun s \<and> curthread s' = curthread s"

lemma dequeue_prepare_ok:
  assumes inv: "queue_inv X s" and e: "e \<in> set (mem X s q)"
  shows "\<exists>s1 s2 s3. update_curr K q s = Some s1 \<and>
      (if entity_is_thread s1 e then do { t \<leftarrow> se_to_td s1 e; Some (runq_dequeue K t e s1) } else Some s1) = Some s2 \<and>
      clear_candidates q e s2 = Some s3 \<and> same_struct s s3 \<and> same_weights s s3 \<and> less_cands s s3 \<and> no_cand q e s3 \<and>
      same_keys s s3 \<and> (\<forall>x. x \<noteq> e \<longrightarrow> onrunq (ents s3 x) = onrunq (ents s x)) \<and>
      (entity_is_thread s e \<longrightarrow> \<not> onrunq (ents s3 e))"
proof -
  have m: "se_sfq (ents s e) = Some q" using queue_mem(1) [OF inv, of e q] e by auto
  obtain s1 where 1: "update_curr K q s = Some s1" "same_core s s1" "same_runq s s1" "same_keys s s1"
    using update_curr_inv [OF queue_invD(8,2) [OF inv]] by blast
  have st1: "same_struct s s1" using 1(2) by (simp add: same_core_split)
  have th: "thread_ok s1 e" "entity_is_thread s1 e = entity_is_thread s e"
    using hier_thread_ok [OF queue_invD(8) [OF inv] m] inv_same_struct(7,8) [OF st1] by simp_all
  obtain s2 where 2: "(if entity_is_thread s1 e then do { t \<leftarrow> se_to_td s1 e; Some (runq_dequeue K t e s1) }
      else Some s1) = Some s2" "same_core s1 s2" "same_keys s1 s2"
    "\<forall>x. x \<noteq> e \<longrightarrow> onrunq (ents s2 x) = onrunq (ents s1 x)" "entity_is_thread s1 e \<longrightarrow> \<not> onrunq (ents s2 e)"
  proof (cases "entity_is_thread s1 e")
    case True
    then obtain t where "se_to_td s1 e = Some t" using thread_okD [OF th(1)] by blast
    then show ?thesis using that [of "runq_dequeue K t e s1"] True runq_dequeue_frame [where s = s1 and t = t and e = e and K = K]
      by simp
  qed (use that in simp)
  have c2: "same_core s s2" using 1(2) 2(2) same_core_trans by blast
  have st2: "same_struct s s2" "same_cands s s2" "same_weights s s2" using c2 by (simp_all add: same_core_split)
  have "hier_wf s2" "se_sfq (ents s2 e) = Some q"
    using queue_invD(8) [OF inv] inv_same_struct(6) [OF st2(1)] m by (simp_all add: same_coreD [OF c2])
  from clear_candidates_ok [OF this] obtain s3 where 3: "clear_candidates q e s2 = Some s3" "cleared s2 s3" "no_cand q e s3"
    by blast
  note C = clearedD [OF 3(2)]
  have "same_struct s s3" using same_struct_trans st2(1) C(4) by blast
  moreover have "same_weights s s3" using st2(3) C(5) by (simp add: same_weights_def)
  moreover have "less_cands s s3" using less_cands_trans same_cands_less st2(2) C(7) by blast
  moreover have "same_keys s s2" by (rule same_keys_trans [OF 1(4,2) 2(3)])
  then have "same_keys s s3" by (simp add: same_keys_def C)
  ultimately show ?thesis
    using 1(1,3) 2(1,4,5) 3(1,3) th(2) by (auto simp: C same_runq_def)
qed

lemma dequeue_entity_ok:
  assumes inv: "queue_inv X s" and e: "e \<in> set (mem X s q)"
  shows "\<exists>s'. dequeue_entity K q e flags s = Some s' \<and> queue_inv (X(q := remove1 e (X q))) s' \<and> deq_frame e s s' \<and>
    mem (X(q := remove1 e (X q))) s' = (mem X s)(q := remove1 e (mem X s q)) \<and>
    (\<forall>p. se_parent (ents s e) \<noteq> Some p \<longrightarrow> weight (se_load (ents s' p)) = weight (se_load (ents s p))) \<and>
    (\<forall>p. se_parent (ents s e) = Some p \<longrightarrow>
       (\<exists>g. sfq_group (sfqs s q) = Some g \<and> weight (se_load (ents s' p)) = sg_shares (groups s g)))"
proof -
  let ?X = "X(q := remove1 e (X q))"
  have m: "joined (ents s e)" "se_sfq (ents s e) = Some q" using queue_mem(1) [OF inv, of e q] e by auto
  obtain s1 s2 s3 where p: "update_curr K q s = Some s1"
      "(if entity_is_thread s1 e then do { t \<leftarrow> se_to_td s1 e; Some (runq_dequeue K t e s1) } else Some s1) = Some s2"
      "clear_candidates q e s2 = Some s3" "same_struct s s3" "same_weights s s3" "less_cands s s3" "no_cand q e s3"
      "same_keys s s3" "\<forall>x. x \<noteq> e \<longrightarrow> onrunq (ents s3 x) = onrunq (ents s x)"
      "entity_is_thread s e \<longrightarrow> \<not> onrunq (ents s3 e)"
    using dequeue_prepare_ok [OF inv e] by blast
  note D3 = same_structD [OF p(4)]
  have inv3: "queue_inv X s3" by (rule queue_inv_less [OF inv p(4-6)])
  have e3: "e \<in> set (mem X s3 q)" using e inv_same_struct(4) [OF p(4)] by simp
  from leave_timeline_ok [OF inv3 e3] obtain h r lm where t:
    "(if onsfq (ents s3 e) then dequeue_timeline q e s3 else Some s3) = Some (set_timeline q e False h r lm s3)"
    "tl_inv ?X (set_timeline q e False h r lm s3)" by blast
  define s6 where "s6 = upd_se e (\<lambda>se. se\<lparr>joined := False\<rparr>) (account_entity_dequeue q e (set_timeline q e False h r lm s3))"
  have inv6: "queue_inv ?X s6" by (rule dequeue_account_ok [OF inv3 e3 p(7) t(2) s6_def])
  define s7 where "s7 = (if and flags DEQUEUE_SLEEP = 0
    then upd_se e (\<lambda>se. se\<lparr>vruntime := vruntime se - vtime (sfqs s6 q)\<rparr>) s6 else s6)"
  have c7: "same_core s6 s7" "same_runq s6 s7" by (auto simp: s7_def same_runq_def intro!: same_core_upd)
  define s8 where "s8 = update_sfq_vtime q s7"
  have c8: "same_core s6 s8" unfolding s8_def by (rule same_core_trans [OF c7(1)]) simp
  note D8 = same_coreD [OF c8]
  have inv8: "queue_inv ?X s8" by (rule queue_inv_same_core [OF inv6 c8])
  note S = account_dequeue_simps [where s = "set_timeline q e False h r lm s3" and q = q and e = e]
  have ent6: "ents s6 x = (if x = e then (ents s3 e)\<lparr>onsfq := False, joined := False\<rparr> else ents s3 x)" for x
    by (simp add: s6_def S)
  have e8: "se_sfq (ents s8 e) = Some q" "se_parent (ents s8 e) = se_parent (ents s e)"
    using m by (simp_all add: D8 ent6 D3)
  have M8: "x \<in> set (mem ?X s8 r) \<Longrightarrow> se_sfq (ents s8 x) = Some r \<and> (joined (ents s8 x) \<or> x = e)" for x r
    using queue_mem(1) [OF inv8, of x r] by simp
  from update_sfq_shares_ok [OF queue_invD(8,2,4,5,7) [OF inv8] e8(1) M8 queue_mem(2) [OF inv8], where K = K]
  obtain s9 where u: "update_sfq_shares K q s8 = Some s9" "only_weights s8 s9" "acct (mem ?X s8) s9" "load_inv s9"
    "\<forall>x. se_parent (ents s e) \<noteq> Some x \<longrightarrow> weight (se_load (ents s9 x)) = weight (se_load (ents s8 x))"
    "\<forall>p. se_parent (ents s e) = Some p \<longrightarrow>
       (\<exists>g. sfq_group (sfqs s8 q) = Some g \<and> weight (se_load (ents s9 p)) = sg_shares (groups s8 g))"
    unfolding e8(2) by blast
  note W = only_weightsD [OF u(2)] and D9 = same_structD [OF only_weightsD(1) [OF u(2)]]
  have "sfqs s6 = sfqs (account_entity_dequeue q e (set_timeline q e False h r lm s3))" by (simp add: s6_def)
  then have run: "dequeue_entity K q e flags s = Some s9"
    using m(1) p(1-3) t(1) u(1) unfolding s8_def s7_def
    by (simp add: dequeue_entity_def Let_def flip: s6_def cong: if_cong)
  have inv9: "queue_inv ?X s9"
    using inv8 u(3,4) cand_inv_less [OF queue_invD(6) [OF inv8] same_cands_less [OF W(2)]] inv_same_struct [OF W(1)]
    by (simp add: queue_inv_def)
  have ent9: "onsfq (ents s9 x) = (x \<noteq> e \<and> onsfq (ents s x))" "joined (ents s9 x) = (x \<noteq> e \<and> joined (ents s x))" for x
    by (simp_all add: D9 D8 ent6 D3)
  have q9: "curr (sfqs s9 x) = curr (sfqs s x)" "sfq_group (sfqs s9 x) = sfq_group (sfqs s x)" "groups s9 = groups s"
    "tun s9 = tun s" "curthread s9 = curthread s" for x
    by (simp_all add: D9 D8 s6_def S D3)
  have stat: "same_static s s9" by (simp add: same_static_def q9) (simp add: D9 D8 ent6 D3)
  have run6: "onrunq (ents s9 x) = onrunq (ents s3 x)" for x
    using W(3) c7(2) by (simp add: same_runq_def s8_def ent6)
  have keys: "vruntime (ents s9 x) = vruntime (ents s x)" if "x \<noteq> e" "onsfq (ents s x)" for x
  proof -
    have "vruntime (ents s8 x) = vruntime (ents s x)"
      using that p(8) by (simp add: s8_def s7_def ent6 same_keys_def)
    moreover have "onsfq (ents s8 x)" using that by (simp add: D8 ent6 D3)
    ultimately show ?thesis using W(4) by (simp add: same_keys_def)
  qed
  have cands: "less_cands s s9"
  proof -
    have "same_cands s3 s6" by (simp add: same_cands_def s6_def S) (simp add: qcands_def)
    moreover have "same_cands s6 s8" using c8 by (simp add: same_core_split)
    ultimately show ?thesis using W(2) p(6) same_cands_less less_cands_trans by blast
  qed
  have "deq_frame e s s9"
    unfolding deq_frame_def using stat cands q9 ent9 run6 p(9,10) keys by simp
  moreover have "mem ?X s9 = (mem X s)(q := remove1 e (mem X s q))"
    by (rule ext, subst mem_remove [OF inv e q9(1)]) (auto simp: ent9)
  moreover have "weight (se_load (ents s8 x)) = weight (se_load (ents s x))" for x
    using p(5) by (simp add: D8 ent6 same_weights_def)
  moreover have "sfq_group (sfqs s8 q) = sfq_group (sfqs s q)" "groups s8 = groups s"
    using q9(2,3) by (simp_all add: D9)
  ultimately show ?thesis using run inv9 u(5,6) by simp
qed

end
