(* ===== verification/Pss_Run.thy ===== *)
theory Pss_Run
  imports Pss_Dequeue
begin

text \<open>
  The running entity: \<open>activate_entity\<close> takes it from the timeline, \<open>put_prev_entity\<close> puts it back,
  \<open>pick_next_entity\<close> chooses the next one among the members of a queue.
\<close>

section \<open>Setting candidates\<close>

text \<open>Members have their parents as members.\<close>

definition up_inv :: "(qid \<Rightarrow> eid list) \<Rightarrow> 'q sched \<Rightarrow> bool" where
  "up_inv M s \<longleftrightarrow> (\<forall>q x p. x \<in> set (M q) \<longrightarrow> se_parent (ents s x) = Some p \<longrightarrow> (\<exists>q'. p \<in> set (M q')))"

lemma cand_inv_upd:
  assumes "cand_inv M s" "e \<in> set (M q)"
  shows "cand_inv M (upd_q q (\<lambda>c. c\<lparr>skip := Some e\<rparr>) s)" "cand_inv M (upd_q q (\<lambda>c. c\<lparr>sfq_next := Some e\<rparr>) s)"
    "cand_inv M (upd_q q (\<lambda>c. c\<lparr>sfq_last := Some e\<rparr>) s)"
  using assms by (auto simp: cand_inv_def)

lemma set_walk_ok:
  assumes wf: "hier_wf s" and up: "up_inv M s" and cand: "cand_inv M s" and e: "e \<in> set (M q)"
    and sfq: "\<And>x r. x \<in> set (M r) \<Longrightarrow> se_sfq (ents s x) = Some r"
    and body: "\<And>x r st. only_cands s st \<Longrightarrow> cand_inv M st \<Longrightarrow> x \<in> set (M r) \<Longrightarrow> se_sfq (ents st x) = Some r \<Longrightarrow>
      \<exists>b st'. body x st = Some (b, st') \<and> only_cands s st' \<and> cand_inv M st'"
  shows "\<exists>r s'. walkup par_of body (Some e) s = Some (r, s') \<and> only_cands s s' \<and> cand_inv M s'"
proof -
  have "\<exists>r s'. walkup par_of body (Some e) s = Some (r, s') \<and> (only_cands s s' \<and> cand_inv M s') \<and>
      (\<forall>x. r = Some x \<longrightarrow> (\<exists>r. x \<in> set (M r)))"
  proof (rule walk_rel [OF wf])
    show "\<And>x. Some e = Some x \<Longrightarrow> \<exists>r. x \<in> set (M r)" using e by blast
    show "only_cands s s \<and> cand_inv M s" using cand by simp
    show "\<And>x y. \<exists>r. x \<in> set (M r) \<Longrightarrow> par_of s x = Some y \<Longrightarrow> \<exists>r. y \<in> set (M r)"
      using up unfolding up_inv_def by blast
    show "\<And>x st. only_cands s st \<and> cand_inv M st \<Longrightarrow> \<exists>r. x \<in> set (M r) \<Longrightarrow>
        \<exists>b st'. body x st = Some (b, st') \<and> only_cands s st' \<and> cand_inv M st'"
    proof (elim conjE exE)
      fix x st r assume st: "only_cands s st" "cand_inv M st" "x \<in> set (M r)"
      then have "se_sfq (ents st x) = Some r" using sfq only_candsD(1) [OF st(1)] by simp
      from body [OF st this] show "\<exists>b st'. body x st = Some (b, st') \<and> only_cands s st' \<and> cand_inv M st'" .
    qed
    show "\<And>st x. only_cands s st \<and> cand_inv M st \<Longrightarrow> par_of st x = par_of s x"
      by (elim conjE, drule only_candsD(1)) simp
  qed
  then show ?thesis by blast
qed

lemma set_candidate_ok:
  assumes wf: "hier_wf s" and up: "up_inv M s" and cand: "cand_inv M s" and e: "e \<in> set (M q)"
    and sfq: "\<And>x r. x \<in> set (M r) \<Longrightarrow> se_sfq (ents s x) = Some r"
  shows "\<exists>s'. set_skip_candidate e s = Some s' \<and> only_cands s s' \<and> cand_inv M s'"
    "\<exists>s'. set_next_candidate K e s = Some s' \<and> only_cands s s' \<and> cand_inv M s'"
    "\<exists>s'. set_last_candidate K e s = Some s' \<and> only_cands s s' \<and> cand_inv M s'"
proof -
  note w = set_walk_ok [OF wf up cand e sfq]
  have "thread_ok s e" using hier_thread_ok [OF wf] sfq [OF e] by blast
  then have idle: "\<exists>b. is_idle_thread_entity K e s = Some b"
    using thread_okD by (fastforce simp: is_idle_thread_entity_def)
  note upd = only_cands_upd cand_inv_upd
  have "\<exists>r s'. walkup par_of (\<lambda>e s. do {
         q \<leftarrow> se_sfq (ents s e);
         let s = upd_q q (\<lambda>c. c\<lparr>skip := Some e\<rparr>) s;
         Some (nr_running (sfqs s q) > 1, s) }) (Some e) s = Some (r, s') \<and> only_cands s s' \<and> cand_inv M s'"
    by (rule w) (auto intro: upd)
  then show "\<exists>s'. set_skip_candidate e s = Some s' \<and> only_cands s s' \<and> cand_inv M s'"
    unfolding set_skip_candidate_def by fastforce
  have "\<exists>r s'. walkup par_of (each (\<lambda>e s. do {
           q \<leftarrow> se_sfq (ents s e);
           Some (upd_q q (\<lambda>c. c\<lparr>sfq_next := Some e\<rparr>) s) })) (Some e) s = Some (r, s') \<and> only_cands s s' \<and> cand_inv M s'"
    by (rule w) (auto simp: each_def intro: upd)
  then show "\<exists>s'. set_next_candidate K e s = Some s' \<and> only_cands s s' \<and> cand_inv M s'"
    unfolding set_next_candidate_def using idle cand by fastforce
  have "\<exists>r s'. walkup par_of (each (\<lambda>e s. do {
           q \<leftarrow> se_sfq (ents s e);
           Some (upd_q q (\<lambda>c. c\<lparr>sfq_last := Some e\<rparr>) s) })) (Some e) s = Some (r, s') \<and> only_cands s s' \<and> cand_inv M s'"
    by (rule w) (auto simp: each_def intro: upd)
  then show "\<exists>s'. set_last_candidate K e s = Some s' \<and> only_cands s s' \<and> cand_inv M s'"
    unfolding set_last_candidate_def using idle cand by fastforce
qed

section \<open>Becoming the running entity\<close>

definition act_frame :: "qid \<Rightarrow> eid \<Rightarrow> 'q sched \<Rightarrow> 'q sched \<Rightarrow> bool" where
  "act_frame q e s s' \<longleftrightarrow> same_static s s' \<and> same_cands s s' \<and> same_weights s s' \<and>
     (\<forall>r. curr (sfqs s' r) = (if r = q then Some e else curr (sfqs s r))) \<and>
     (\<forall>x. joined (ents s' x) = joined (ents s x) \<and> vruntime (ents s' x) = vruntime (ents s x)) \<and>
     (\<forall>x. x \<noteq> e \<longrightarrow> onsfq (ents s' x) = onsfq (ents s x) \<and> onrunq (ents s' x) = onrunq (ents s x)) \<and>
     \<not> onsfq (ents s' e) \<and> (entity_is_thread s e \<longrightarrow> \<not> onrunq (ents s' e)) \<and>
     timing_start (ents s' e) = clock_thread (rq s') \<and> clock_thread (rq s') = clock_thread (rq s) \<and>
     tun s' = tun s \<and> curthread s' = curthread s"

lemma activate_entity_ok:
  assumes inv: "queue_inv X s" and e: "e \<in> set (X q)" and cur: "curr (sfqs s q) = None"
  shows "\<exists>s'. activate_entity K q e s = Some s' \<and> queue_inv (X(q := remove1 e (X q))) s' \<and> act_frame q e s s' \<and>
    (\<forall>r. mem (X(q := remove1 e (X q))) s' r = (if r = q then remove1 e (X q) @ [e] else mem X s r))"
proof -
  note I = queue_invD [OF inv]
  let ?X = "X(q := remove1 e (X q))"
  have m: "joined (ents s e)" "se_sfq (ents s e) = Some q" "onsfq (ents s e)" "e \<in> set (mem X s q)"
    using I(3) e tl_inv_mem [OF I(1), of e q] by (auto simp: join_inv_def mem_def)
  obtain s1 where 1: "(if entity_is_thread s e then do { t \<leftarrow> se_to_td s e; Some (runq_dequeue K t e s) } else Some s) = Some s1"
    "same_core s s1" "\<forall>x. x \<noteq> e \<longrightarrow> onrunq (ents s1 x) = onrunq (ents s x)" "entity_is_thread s e \<longrightarrow> \<not> onrunq (ents s1 e)"
    "\<forall>x. vruntime (ents s1 x) = vruntime (ents s x)" "clock_thread (rq s1) = clock_thread (rq s)"
  proof (cases "entity_is_thread s e")
    case True
    then obtain t where "se_to_td s e = Some t" using thread_okD [OF hier_thread_ok [OF I(8) m(2)]] by blast
    then show ?thesis
      using that [of "runq_dequeue K t e s"] True runq_dequeue_frame [where s = s and t = t and e = e and K = K]
      by (simp add: runq_dequeue_def)
  qed (use that in simp)
  note D1 = same_coreD [OF 1(2)]
  have inv1: "queue_inv X s1" by (rule queue_inv_same_core [OF inv 1(2)])
  have m1: "e \<in> set (mem X s1 q)" "onsfq (ents s1 e)" using e m(3) by (simp_all add: mem_def D1)
  from leave_timeline_ok [OF inv1 m1(1)] m1(2) obtain h r lm where t:
    "dequeue_timeline q e s1 = Some (set_timeline q e False h r lm s1)" "tl_inv ?X (set_timeline q e False h r lm s1)"
    by auto
  define s4 where "s4 = upd_se e (\<lambda>se. se\<lparr>timing_start := clock_thread (rq s1), prev_sum_exec_time := sum_exec_time se\<rparr>)
    (upd_q q (\<lambda>c. c\<lparr>curr := Some e\<rparr>) (set_timeline q e False h r lm s1))"
  have run: "activate_entity K q e s = Some s4"
    using m(1) 1(1) t(1) cur by (simp add: activate_entity_def s4_def Let_def D1)
  have ent: "ents s4 x = (if x = e then (ents s1 e)\<lparr>onsfq := False, timing_start := clock_thread (rq s1),
      prev_sum_exec_time := sum_exec_time (ents s1 e)\<rparr> else ents s1 x)" for x
    by (simp add: s4_def)
  have c4: "curr (sfqs s4 x) = (if x = q then Some e else curr (sfqs s x))" for x by (simp add: s4_def D1)
  have ce: "curr (sfqs s x) \<noteq> Some e" for x using I(2) m(3) unfolding cur_inv_def by blast
  have mem4: "mem ?X s4 x = (if x = q then remove1 e (X q) @ [e] else mem X s x)" for x
    using m(1) ce [of x] by (simp add: mem_def cur_list_def c4 ent D1 split: option.splits)
  have mq: "mem X s q = X q" by (simp add: mem_def cur_list_def cur)
  have set4: "set (mem ?X s4 x) = set (mem X s x)" for x
    using e queue_mem(2) [OF inv, where q = q] by (auto simp: mem4 mq)
  have cands: "same_cands s s4" "same_weights s s4"
    using 1(2) by (simp_all add: same_core_split same_cands_def qcands_def same_weights_def s4_def)
  have stat: "same_static s s4" by (simp add: same_static_def ent D1) (simp add: s4_def D1)
  have "queue_inv ?X s4"
    unfolding queue_inv_def
  proof (intro conjI)
    have "tl_inv ?X s4 = tl_inv ?X (set_timeline q e False h r lm s1)"
      by (rule tl_inv_cong) (simp_all add: s4_def)
    then show "tl_inv ?X s4" using t(2) by simp
    show "cur_inv s4" using I(2) ce m(2) by (auto simp: cur_inv_def c4 ent D1)
    show "join_inv ?X s4" using I(3) set_remove1_subset [of e "X q"] by (auto simp: join_inv_def ent D1)
    have "wsum s4 es = wsum s es" for es by (rule wsum_cong) (simp add: ent D1)
    moreover have "length (remove1 e (X q)) + 1 = length (X q)"
      using e length_pos_if_in_set [OF e] by (simp add: length_remove1)
    then have "int (length (remove1 e (X q))) + 1 = int (length (X q))" by linarith
    moreover have "nr_running (sfqs s4 x) = nr_running (sfqs s x)" for x by (simp add: s4_def D1)
    ultimately show "acct (mem ?X s4) s4"
      using I(4) e cands(2) by (auto simp: acct_def mem4 same_weights_def mq wsum_remove1)
    show "load_inv s4" using I(5) cands(2) by (simp add: load_inv_def same_weights_def)
    show "cand_inv (mem ?X s4) s4" using I(6) by (simp add: cand_inv_def set4 same_candsD [OF cands(1)])
    show "group_inv (mem ?X s4) s4" using I(7) m(2,4) by (auto simp: group_inv_def set4 ent D1)
    show "hier_wf s4" using hier_wf_static(1) [OF stat] I(8) by simp
  qed
  moreover have "act_frame q e s s4"
    using cands stat 1(3-6) by (simp add: act_frame_def c4 ent D1) (simp add: s4_def D1)
  ultimately show ?thesis using run mem4 by blast
qed

section \<open>Going back to the timeline\<close>

definition put_frame :: "qid \<Rightarrow> eid \<Rightarrow> 'q sched \<Rightarrow> 'q sched \<Rightarrow> bool" where
  "put_frame q e s s' \<longleftrightarrow> same_static s s' \<and>
     (\<forall>r. curr (sfqs s' r) = (if r = q then None else curr (sfqs s r))) \<and>
     (\<forall>x. joined (ents s' x) = joined (ents s x)) \<and>
     (\<forall>x. x \<noteq> e \<longrightarrow> onsfq (ents s' x) = onsfq (ents s x) \<and> onrunq (ents s' x) = onrunq (ents s x)) \<and>
     (onsfq (ents s' e) = joined (ents s e)) \<and> same_keys s s' \<and> same_weights s s' \<and> tun s' = tun s \<and> curthread s' = curthread s"

lemma put_prev_prepare_ok:
  assumes inv: "queue_inv X s" and up: "up_inv (mem X s) s" and e: "e \<in> set (mem X s q)" "\<not> onsfq (ents s e)"
    and rq: "entity_is_thread s e \<Longrightarrow> \<not> onrunq (ents s e)"
  shows "\<exists>s1 s2 s3. (if entity_is_thread s e \<and> and flags (SW_TYPE_MASK K) = SWT_RELINQUISH K
         then set_skip_candidate e s else Some s) = Some s1 \<and>
      update_curr K q s1 = Some s2 \<and> set_runq_boost K e flags s2 = Some s3 \<and>
      queue_inv X s3 \<and> same_struct s s3 \<and> same_weights s s3 \<and> same_keys s s3 \<and>
      (\<forall>x. x \<noteq> e \<longrightarrow> onrunq (ents s3 x) = onrunq (ents s x))"
proof -
  note I = queue_invD [OF inv]
  have sfq: "x \<in> set (mem X s r) \<Longrightarrow> se_sfq (ents s x) = Some r" for x r
    using queue_mem(1) [OF inv, of x r] by simp
  obtain s1 where 1: "(if entity_is_thread s e \<and> and flags (SW_TYPE_MASK K) = SWT_RELINQUISH K
      then set_skip_candidate e s else Some s) = Some s1" "only_cands s s1" "cand_inv (mem X s) s1"
    using set_candidate_ok(1) [OF I(8) up I(6) e(1) sfq] I(6) only_cands_refl
    by (cases "entity_is_thread s e \<and> and flags (SW_TYPE_MASK K) = SWT_RELINQUISH K") auto
  note C = only_candsD [OF 1(2)]
  have inv1: "queue_inv X s1"
    using I 1(3) inv_same_struct [OF C(4)] acct_same [OF C(4,5)] by (simp add: queue_inv_def)
  obtain s2 where 2: "update_curr K q s1 = Some s2" "same_core s1 s2" "same_runq s1 s2" "same_keys s1 s2"
    using update_curr_inv [OF queue_invD(8,2) [OF inv1]] by blast
  have st2: "same_struct s s2" "same_weights s s2"
    using 2(2) C(4,5) same_struct_trans by (auto simp: same_core_split same_weights_def)
  have th: "thread_ok s2 e" "entity_is_thread s2 e = entity_is_thread s e"
    using hier_thread_ok [OF I(8) sfq [OF e(1)]] inv_same_struct(7,8) [OF st2(1)] by simp_all
  have r2: "onrunq (ents s2 x) = onrunq (ents s x)" for x using 2(3) C(1) by (simp add: same_runq_def)
  obtain s3 where 3: "set_runq_boost K e flags s2 = Some s3" "same_core s2 s3" "same_keys s2 s3"
    "\<forall>x. x \<noteq> e \<longrightarrow> onrunq (ents s3 x) = onrunq (ents s2 x)"
    using set_runq_boost_ok [OF th(1), where K = K and flags = flags] rq th(2) r2 by auto
  have k2: "same_keys s s2" using 2(4) C(1) by (simp add: same_keys_def)
  have st3: "same_struct s s3" "same_weights s s3"
    using st2 3(2) same_struct_trans by (auto simp: same_core_split same_weights_def)
  moreover have "same_keys s s3"
    using k2 3(3) same_structD(10) [OF st2(1)] by (simp add: same_keys_def)
  moreover have "queue_inv X s3"
    by (rule queue_inv_same_core [OF queue_inv_same_core [OF inv1 2(2)] 3(2)])
  ultimately show ?thesis using 1(1) 2(1) 3(1,4) r2 by (auto simp del: imp_conjL)
qed

lemma put_prev_entity_ok:
  assumes inv: "queue_inv X s" and up: "up_inv (mem X s) s" and cur: "curr (sfqs s q) = Some e"
    and rq: "entity_is_thread s e \<Longrightarrow> \<not> onrunq (ents s e)"
  shows "\<exists>s' ys zs. put_prev_entity K q e flags s = Some s' \<and> X q = ys @ zs \<and>
    queue_inv (X(q := ys @ (if joined (ents s e) then [e] else []) @ zs)) s' \<and> put_frame q e s s' \<and>
    (joined (ents s e) \<longrightarrow> (ys \<noteq> [] \<longrightarrow> \<not> vtime_cmp s' e (last ys) < 0) \<and> (zs \<noteq> [] \<longrightarrow> vtime_cmp s' e (hd zs) < 0)) \<and>
    (\<forall>r. set (mem (X(q := ys @ (if joined (ents s e) then [e] else []) @ zs)) s' r) = set (mem X s r))"
proof -
  note I = queue_invD [OF inv]
  have e: "se_sfq (ents s e) = Some q" "\<not> onsfq (ents s e)" using I(2) cur by (auto simp: cur_inv_def)
  show ?thesis
  proof (cases "joined (ents s e)")
    case False
    define s' where "s' = upd_q q (\<lambda>c. c\<lparr>curr := None\<rparr>) s"
    have c: "curr (sfqs s' r) = (if r = q then None else curr (sfqs s r))" for r by (simp add: s'_def)
    have en: "ents s' = ents s" by (simp add: s'_def)
    have m: "mem X s' = mem X s"
    proof
      show "mem X s' r = mem X s r" for r
        using cur False by (cases "r = q") (simp_all add: mem_def cur_list_def c en cong: option.case_cong)
    qed
    have t: "tl_inv X s' = tl_inv X s" by (rule tl_inv_cong) (simp_all add: s'_def)
    have stat: "same_static s s'" by (simp add: same_static_def s'_def)
    have "wsum s' es = wsum s es" for es by (simp add: s'_def wsum_def)
    then have "queue_inv X s'"
      using I c t hier_wf_static(1) [OF stat]
      by (simp add: queue_inv_def m) (auto simp: cur_inv_def join_inv_def acct_def load_inv_def cand_inv_def group_inv_def s'_def)
    moreover have "put_frame q e s s'"
      using e(2) False stat by (simp add: put_frame_def same_keys_def same_weights_def s'_def)
    moreover have "put_prev_entity K q e flags s = Some s'"
      using False by (simp add: put_prev_entity_def s'_def)
    ultimately show ?thesis using False m by (intro exI [of _ s'] exI [of _ "X q"] exI [of _ "[]"]) simp
  next
    case True
    have em: "e \<in> set (mem X s q)" using cur True by (simp add: mem_def cur_list_def)
    obtain s1 s2 s3 where p: "(if entity_is_thread s e \<and> and flags (SW_TYPE_MASK K) = SWT_RELINQUISH K
           then set_skip_candidate e s else Some s) = Some s1"
        "update_curr K q s1 = Some s2" "set_runq_boost K e flags s2 = Some s3"
        "queue_inv X s3" "same_struct s s3" "same_weights s s3" "same_keys s s3"
        "\<forall>x. x \<noteq> e \<longrightarrow> onrunq (ents s3 x) = onrunq (ents s x)"
      using put_prev_prepare_ok [OF inv up em e(2) rq] by blast
    note D3 = same_structD [OF p(5)] and I3 = queue_invD [OF p(4)]
    have e3: "\<not> onsfq (ents s3 e)" "se_sfq (ents s3 e) = Some q" using e by (simp_all add: D3)
    from enqueue_timeline_ok [OF I3(1) e3] obtain h r lm ys zs where t:
      "enqueue_timeline q e s3 = Some (set_timeline q e True h r lm s3)" "X q = ys @ zs"
      "tl_inv (X(q := ys @ e # zs)) (set_timeline q e True h r lm s3)"
      "ys \<noteq> [] \<longrightarrow> \<not> vtime_cmp s3 e (last ys) < 0" "zs \<noteq> [] \<longrightarrow> vtime_cmp s3 e (hd zs) < 0" by blast
    let ?X = "X(q := ys @ e # zs)"
    define s5 where "s5 = upd_q q (\<lambda>c. c\<lparr>curr := None\<rparr>) (set_timeline q e True h r lm s3)"
    have run: "put_prev_entity K q e flags s = Some s5"
      using True p(1-3) t(1) by (simp add: put_prev_entity_def s5_def)
    have ent: "ents s5 x = (if x = e then (ents s3 e)\<lparr>onsfq := True\<rparr> else ents s3 x)" for x by (simp add: s5_def)
    have c5: "curr (sfqs s5 x) = (if x = q then None else curr (sfqs s x))" for x by (simp add: s5_def D3)
    have mem5: "mem ?X s5 x = (if x = q then ys @ e # zs else mem X s3 x)" for x
      by (simp add: mem_def cur_list_def c5 ent D3 split: option.splits)
    have m3: "mem X s3 q = ys @ zs @ [e]" using cur True by (simp add: mem_def cur_list_def D3 t(2))
    have set5: "set (mem ?X s5 x) = set (mem X s3 x)" for x by (auto simp: mem5 m3)
    have stat: "same_static s s5" by (simp add: same_static_def ent D3) (simp add: s5_def D3)
    have cands: "same_cands s3 s5" by (simp add: same_cands_def s5_def qcands_def)
    have "queue_inv ?X s5"
      unfolding queue_inv_def
    proof (intro conjI)
      have "tl_inv ?X s5 = tl_inv ?X (set_timeline q e True h r lm s3)"
        by (rule tl_inv_cong) (simp_all add: s5_def)
      then show "tl_inv ?X s5" using t(3) by simp
      have ce: "curr (sfqs s r) = Some e \<Longrightarrow> r = q" for r using I(2) e(1) unfolding cur_inv_def by force
      show "cur_inv s5" using I(2) ce unfolding cur_inv_def by (auto simp: c5 ent D3)
      have "x \<in> set (X p) \<Longrightarrow> joined (ents s x)" for p x using I(3) by (simp add: join_inv_def)
      from this [of _ q] this show "join_inv ?X s5" using True unfolding t(2) by (auto simp: join_inv_def ent D3)
      have "wsum s5 es = wsum s3 es" for es by (rule wsum_cong) (simp add: ent)
      moreover have "nr_running (sfqs s5 x) = nr_running (sfqs s3 x)"
        "weight (sfq_load (sfqs s5 x)) = weight (sfq_load (sfqs s3 x))" for x by (simp_all add: s5_def)
      ultimately show "acct (mem ?X s5) s5" using I3(4) by (auto simp: acct_def mem5 m3)
      show "load_inv s5" using I3(5) by (simp add: load_inv_def s5_def)
      show "cand_inv (mem ?X s5) s5" using I3(6) by (simp add: cand_inv_def set5 same_candsD [OF cands])
      have "ZONE_SE n = e \<Longrightarrow> \<exists>p. se_sfq (ents s3 e) = Some p \<and> e \<in> set (mem X s3 p)" for n
        using e3 m3 by auto
      then show "group_inv (mem ?X s5) s5" using I3(7) by (auto simp: group_inv_def set5 ent)
      show "hier_wf s5" using hier_wf_static(1) [OF stat] I(8) by simp
    qed
    moreover have keys: "vruntime (ents s5 x) = vruntime (ents s3 x)" for x by (simp add: ent)
    have "put_frame q e s s5"
      using stat p(6-8) True keys c5
      by (simp add: put_frame_def ent D3 same_keys_def same_weights_def) (simp add: s5_def D3)
    moreover have "(ys \<noteq> [] \<longrightarrow> \<not> vtime_cmp s5 e (last ys) < 0) \<and> (zs \<noteq> [] \<longrightarrow> vtime_cmp s5 e (hd zs) < 0)"
      using t(4,5) by (simp add: vtime_cmp_def keys)
    moreover have "mem X s3 = mem X s" by (rule inv_same_struct(4) [OF p(5)])
    ultimately show ?thesis using run t(2) True set5
      by (intro exI [of _ s5] exI [of _ ys] exI [of _ zs]) simp
  qed
qed

section \<open>Choosing\<close>

text \<open>What one candidate test does: the choice stays among the members, or not too far behind.\<close>

definition near :: "'q sched \<Rightarrow> eid \<Rightarrow> eid \<Rightarrow> bool" where
  "near s f e \<longleftrightarrow> sint (vruntime (ents s e) - vruntime (ents s f)) \<le> 0 \<or>
     sint (vruntime (ents s e) - vruntime (ents s f)) \<le> sint (fst (scale_delta (wakeup_granularity (tun s)) f s))"

text \<open>Only cached inverses may change during a choice.\<close>

definition same_but_inv :: "'q sched \<Rightarrow> 'q sched \<Rightarrow> bool" where
  "same_but_inv s s' \<longleftrightarrow> same_core s s' \<and> same_runq s s' \<and> (\<forall>x. vruntime (ents s' x) = vruntime (ents s x)) \<and>
     (\<forall>x. fill_inv (se_load (ents s' x)) = fill_inv (se_load (ents s x))) \<and> threads s' = threads s"

lemma fill_inv_idem [simp]: "fill_inv (fill_inv lw) = fill_inv lw"
proof (cases "inv_weight (fill_inv lw) = 0")
  case True
  then have "inv_weight lw = 0" by (auto simp: fill_inv_def split: if_splits)
  then show ?thesis by (simp add: fill_inv_def)
next
  case False
  then show ?thesis by (simp add: fill_inv_def [of "fill_inv lw"])
qed

lemma scale_by_weight_fill: "fst (scale_by_weight d w (fill_inv lw)) = fst (scale_by_weight d w lw)"
  by (simp add: scale_by_weight_def Let_def)

lemma scale_by_weight_pair: "scale_by_weight d w lw = (g, lw') \<Longrightarrow> lw' = fill_inv lw"
  by (metis scale_by_weight_load snd_conv)

lemma scale_delta_fill:
  assumes "fill_inv (se_load (ents s' e)) = fill_inv (se_load (ents s e))"
  shows "fst (scale_delta d e s') = fst (scale_delta d e s)"
proof -
  have w: "weight (se_load (ents s' e)) = weight (se_load (ents s e))"
    using assms fill_inv_weight by metis
  have "fst (scale_by_weight d NICE_0_WEIGHT (se_load (ents s' e))) = fst (scale_by_weight d NICE_0_WEIGHT (se_load (ents s e)))"
    using assms scale_by_weight_fill by metis
  then show ?thesis by (simp add: scale_delta_def w split_beta)
qed

lemma wakeup_preempt_inv:
  assumes "wakeup_preempt_entity c f s = (r, s')"
  shows "same_but_inv s s'" "r < 1 \<longleftrightarrow> near s f c"
proof -
  obtain g s1 where g: "scale_delta (wakeup_granularity (tun s)) f s = (g, s1)" by fastforce
  have s': "s' = s \<or> s' = s1"
    using assms g by (auto simp: wakeup_preempt_entity_def wakeup_gran_def Let_def split: if_splits)
  have "fill_inv (se_load (ents s1 x)) = fill_inv (se_load (ents s x))" for x
    using g by (auto simp: scale_delta_def dest!: scale_by_weight_pair split: if_splits prod.splits)
  then show "same_but_inv s s'"
    using wakeup_preempt_frame [OF assms] s' by (auto simp: same_but_inv_def)
  show "r < 1 \<longleftrightarrow> near s f c"
    using assms g by (auto simp: wakeup_preempt_entity_def wakeup_gran_def near_def Let_def split: if_splits)
qed

lemma same_but_inv_trans: "same_but_inv s s' \<Longrightarrow> same_but_inv s' s'' \<Longrightarrow> same_but_inv s s''"
  unfolding same_but_inv_def using same_core_trans same_runq_trans by metis

lemma same_but_inv_cands: "same_but_inv s s' \<Longrightarrow> same_cands s s'"
  by (simp add: same_but_inv_def same_core_split)

lemma near_cong:
  assumes "\<And>x. vruntime (ents s' x) = vruntime (ents s x)" "tun s' = tun s"
    "\<And>x. fill_inv (se_load (ents s' x)) = fill_inv (se_load (ents s x))"
  shows "near s' f e = near s f e"
  using scale_delta_fill [OF assms(3)] by (simp add: near_def assms(1,2))

lemma near_same:
  assumes "same_but_inv s s'"
  shows "near s' f e = near s f e"
  using assms same_coreD(3) by (intro near_cong) (auto simp: same_but_inv_def)

text \<open>What a choice leaves as it is.\<close>

definition picked :: "'q sched \<Rightarrow> 'q sched \<Rightarrow> bool" where
  "picked s s' \<longleftrightarrow> same_struct s s' \<and> same_weights s s' \<and> less_cands s s' \<and> same_runq s s' \<and> threads s' = threads s \<and>
     (\<forall>x. vruntime (ents s' x) = vruntime (ents s x)) \<and>
     (\<forall>x. fill_inv (se_load (ents s' x)) = fill_inv (se_load (ents s x)))"

lemma picked_trans: "picked s s' \<Longrightarrow> picked s' s'' \<Longrightarrow> picked s s''"
  unfolding picked_def same_weights_def by (metis same_struct_trans less_cands_trans same_runq_trans)

lemma picked_near: "picked s s' \<Longrightarrow> near s' f e = near s f e"
  by (rule near_cong) (simp_all add: picked_def same_structD)

lemma try_candidate_ok:
  assumes "\<And>c. cand = Some c \<Longrightarrow> c \<in> A" "se = Some x" "x \<in> A" "x = f \<or> near s f x"
  shows "\<exists>e s'. try_candidate cand (Some f) se s = Some (Some e, s') \<and> e \<in> A \<and> (e = f \<or> near s f e) \<and> same_but_inv s s'"
proof (cases cand)
  case None
  have "same_but_inv s s" by (simp add: same_but_inv_def)
  with None assms show ?thesis by (simp add: try_candidate_def)
next
  case (Some c)
  obtain r s' where w: "wakeup_preempt_entity c f s = (r, s')" by fastforce
  show ?thesis
    using wakeup_preempt_inv [OF w] w assms Some by (simp add: try_candidate_def)
qed

theorem pick_next_entity_ok:
  assumes inv: "queue_inv X s" and xs: "X q = f # rest" and cur: "curr (sfqs s q) = None"
  shows "\<exists>e s'. pick_next_entity q s = Some (e, s') \<and> e \<in> set (X q) \<and> (e = f \<or> near s f e) \<and>
    queue_inv X s' \<and> picked s s'"
proof -
  note I = queue_invD [OF inv]
  have m: "mem X s q = X q" by (simp add: mem_def cur_list_def cur)
  have c: "tl.cached (tlinks s) (tl_root (sfqs s q)) (leftmost (sfqs s q)) (f # rest)"
    using I(1) xs unfolding tl_inv_def tlq_def by metis
  then have first: "leftmost (sfqs s q) = Some f" by (simp add: tl.cached_def)
  have "tl_next f (tlinks s) (tl_root (sfqs s q)) = Some (head_opt rest)"
    using tl.nxt_ok [of _ _ "[]" f rest] c by (simp add: tl.cached_def)
  then have after: "entity_after q (Some f) s = Some (head_opt rest)" by (simp add: entity_after_def)
  have cand: "skip (sfqs s q) = Some e \<or> sfq_next (sfqs s q) = Some e \<or> sfq_last (sfqs s q) = Some e \<Longrightarrow> e \<in> set (X q)" for e
    using I(6) m unfolding cand_inv_def by metis
  have hr: "head_opt rest = Some c \<Longrightarrow> c \<in> set (X q)" for c using xs by (cases rest) auto
  obtain e1 s1 where 1: "(if skip (sfqs s q) = Some f
      then do { second \<leftarrow> entity_after q (Some f) s; try_candidate second (Some f) (Some f) s }
      else Some (Some f, s)) = Some (Some e1, s1)" "e1 \<in> set (X q)" "e1 = f \<or> near s f e1" "same_but_inv s s1"
    using try_candidate_ok [of "head_opt rest" "set (X q)" "Some f" f f s, OF hr] xs
    by (cases "skip (sfqs s q) = Some f") (auto simp: after same_but_inv_def)
  have q1: "sfq_last (sfqs s1 q) = sfq_last (sfqs s q)" "sfq_next (sfqs s1 q) = sfq_next (sfqs s q)"
    by (rule same_candsD [OF same_but_inv_cands [OF 1(4)]])+
  obtain e2 s2 where 2: "try_candidate (sfq_last (sfqs s1 q)) (Some f) (Some e1) s1 = Some (Some e2, s2)"
    "e2 \<in> set (X q)" "e2 = f \<or> near s1 f e2" "same_but_inv s1 s2"
    using try_candidate_ok [of "sfq_last (sfqs s1 q)" "set (X q)" "Some e1" e1 f s1] 1 cand q1 near_same [OF 1(4)] by auto
  have q2: "sfq_next (sfqs s2 q) = sfq_next (sfqs s q)"
    using same_candsD(2) [OF same_but_inv_cands [OF 2(4)]] q1 by simp
  obtain e3 s3 where 3: "try_candidate (sfq_next (sfqs s2 q)) (Some f) (Some e2) s2 = Some (Some e3, s3)"
    "e3 \<in> set (X q)" "e3 = f \<or> near s2 f e3" "same_but_inv s2 s3"
    using try_candidate_ok [of "sfq_next (sfqs s2 q)" "set (X q)" "Some e2" e2 f s2] 2 cand q2 near_same [OF 2(4)] by auto
  have s3: "same_but_inv s s3" using 1(4) 2(4) 3(4) same_but_inv_trans by blast
  then have c3: "same_core s s3" by (simp add: same_but_inv_def)
  have inv3: "queue_inv X s3" by (rule queue_inv_same_core [OF inv c3])
  have "se_sfq (ents s3 e3) = Some q"
    using tl_inv_mem [OF queue_invD(1) [OF inv3], of e3 q] 3(2) by simp
  from clear_candidates_ok [OF queue_invD(8) [OF inv3] this] obtain s4 where 4:
    "clear_candidates q e3 s3 = Some s4" "cleared s3 s4" by blast
  note C = clearedD [OF 4(2)]
  have "pick_next_entity q s = Some (e3, s4)"
    using 1(1) 2(1) 3(1) 4(1) first by (simp add: pick_next_entity_def pick_first_entity_def cong: if_cong)
  moreover have "queue_inv X s4" by (rule queue_inv_less [OF inv3 C(4,5,7)])
  moreover have "same_struct s s4" "same_weights s s4" "less_cands s s4"
    using c3 C(4,5,7) same_struct_trans less_cands_trans same_cands_less unfolding same_core_split same_weights_def by (metis, simp, metis)
  moreover have "near s2 f e3 = near s f e3" using near_same 1(4) 2(4) by blast
  ultimately show ?thesis using 3(2,3) s3 C(1,2) by (auto simp: picked_def same_but_inv_def same_runq_def)
qed

end
