(* ===== verification/Pss_Hier.thy ===== *)
theory Pss_Hier
  imports Pss_Run
begin

text \<open>
  The operations of the proportional share class on a thread: walks over the chain of entities
  from the thread to the root, and the walk down of the choice. The invariant of all queues is
  joined by what ties the levels together: members have their parents as members, a group that is
  a member has members, and a thread on the real-time run queue is queued and not running.
\<close>

section \<open>Chains\<close>

lemma chain_unique: "chain par p es \<Longrightarrow> chain par p es' \<Longrightarrow> es = es'"
proof (induction es arbitrary: p es')
  case Nil
  then show ?case by (cases es') auto
next
  case (Cons e es)
  then obtain fs where "es' = e # fs" by (cases es') auto
  then show ?case using Cons.IH [of "par e" fs] Cons.prems by simp
qed

lemma chain_suffix: "chain par p (us @ x # vs) \<Longrightarrow> chain par (Some x) (x # vs)"
  by (induction us arbitrary: p) auto

lemma same_queue_parent:
  assumes "hier_wf s" "se_sfq (ents s e) = Some q" "se_sfq (ents s x) = Some q"
  shows "par_of s e = par_of s x"
proof -
  have "\<exists>g. sfq_group (sfqs s q) = Some g \<and> sg_se (groups s g) = par_of s y" if "se_sfq (ents s y) = Some q" for y
    using assms(1) that unfolding hier_wf_def by blast
  from this [OF assms(2)] this [OF assms(3)] show ?thesis by auto
qed

text \<open>The queues on a chain are different.\<close>

lemma chain_queues:
  assumes wf: "hier_wf s" and ch: "chain (par_of s) (Some e) (e # es)" and x: "x \<in> set es"
    and q: "se_sfq (ents s e) = Some q" "se_sfq (ents s x) = Some q"
  shows False
proof -
  obtain us vs where es: "es = us @ x # vs" using split_list [OF x] by blast
  have "chain (par_of s) (par_of s e) (us @ x # vs)" using ch es by simp
  moreover from chain_suffix [OF this] have "chain (par_of s) (par_of s e) vs"
    using same_queue_parent [OF wf q] by simp
  ultimately have "us @ x # vs = vs" by (rule chain_unique)
  then have "length (us @ x # vs) = length vs" by simp
  then show False by simp
qed

lemma chain_sfq:
  assumes "hier_wf s" "chain (par_of s) p es" "\<And>e. p = Some e \<Longrightarrow> se_sfq (ents s e) \<noteq> None"
  shows "\<forall>x\<in>set es. se_sfq (ents s x) \<noteq> None"
  using assms(2,3)
proof (induction es arbitrary: p)
  case (Cons e es)
  then have e: "chain (par_of s) (par_of s e) es" "se_sfq (ents s e) \<noteq> None" by simp_all
  have "\<forall>x\<in>set es. se_sfq (ents s x) \<noteq> None"
    by (rule Cons.IH [OF e(1)]) (rule hier_parent_sfq [OF assms(1) e(2)])
  then show ?case using e(2) by simp
qed simp

lemma walk_chain:
  assumes ch: "chain (par_of s) p al" and J: "J al start"
    and step: "\<And>e es st. chain (par_of s) (Some e) (e # es) \<Longrightarrow> J (e # es) st \<Longrightarrow>
      \<exists>b st'. body e st = Some (b, st') \<and> par st' e = par_of s e \<and> (if b then Q (Some e) st' else J es st')"
    and fin: "\<And>st. J [] st \<Longrightarrow> Q None st"
  shows "\<exists>r st. walkup par body p start = Some (r, st) \<and> Q r st"
proof -
  define I where "I = (\<lambda>es st. chain (par_of s) (head_opt es) es \<and> J es st)"
  have p: "p = head_opt al" by (rule chain_head [OF ch])
  have "\<exists>r st. walkup par body (head_opt al) start = Some (r, st) \<and> Q r st"
  proof (rule walkup_rule [where I = I])
    show "I al start" using ch J by (simp add: I_def p)
  next
    fix e es st
    assume i: "I (e # es) st"
    then have c: "chain (par_of s) (Some e) (e # es)" and j: "J (e # es) st" by (simp_all add: I_def)
    from step [OF this] obtain b st' where b: "body e st = Some (b, st')" "par st' e = par_of s e"
      "if b then Q (Some e) st' else J es st'" by blast
    have "chain (par_of s) (par_of s e) es" using c by simp
    moreover from chain_head [OF this] have "par_of s e = head_opt es" .
    ultimately show "\<exists>brk s'. body e st = Some (brk, s') \<and>
        (if brk then Q (Some e) s' else par s' e = head_opt es \<and> I es s')"
      using b by (auto simp: I_def)
  qed (use fin in \<open>simp add: I_def\<close>)
  then show ?thesis by (simp add: p)
qed

section \<open>The invariant of the class\<close>

definition full_inv :: "(qid \<Rightarrow> eid list) \<Rightarrow> 'q sched \<Rightarrow> bool" where
  "full_inv M s \<longleftrightarrow> (\<forall>q x r. x \<in> set (M q) \<longrightarrow> my_q (ents s x) = Some r \<longrightarrow> M r \<noteq> [])"

definition run_inv :: "'q sched \<Rightarrow> bool" where
  "run_inv s \<longleftrightarrow> (\<forall>t. onrunq (ents s (TD_SE t)) \<longrightarrow>
     joined (ents s (TD_SE t)) \<and> (\<forall>q. curr (sfqs s q) \<noteq> Some (TD_SE t)))"

text \<open>Statically, the queue a group owns is the queue of that group, and the hierarchy has a depth.\<close>

definition depth_le :: "'q sched \<Rightarrow> nat \<Rightarrow> bool" where
  "depth_le s d \<longleftrightarrow> (\<forall>e es. se_sfq (ents s e) \<noteq> None \<longrightarrow> chain (par_of s) (Some e) es \<longrightarrow> length es \<le> d)"

definition tree_wf :: "'q sched \<Rightarrow> bool" where
  "tree_wf s \<longleftrightarrow>
     (\<forall>e r. se_sfq (ents s e) \<noteq> None \<longrightarrow> my_q (ents s e) = Some r \<longrightarrow>
        (\<exists>g. sfq_group (sfqs s r) = Some g \<and> sg_se (groups s g) = Some e)) \<and>
     (\<exists>d. depth_le s d)"

lemma tree_wf_static: "same_static s s' \<Longrightarrow> tree_wf s' = tree_wf s" "same_static s s' \<Longrightarrow> depth_le s' d = depth_le s d"
  by (simp_all add: tree_wf_def depth_le_def same_static_def fun_eq_iff)

text \<open>Members weigh something, within the range of nice values and shares.\<close>

definition weight_ok :: "u64 \<Rightarrow> bool" where
  "weight_ok w \<longleftrightarrow> 0 < uint w \<and> uint w \<le> 262144"

definition wt_inv :: "(qid \<Rightarrow> eid list) \<Rightarrow> 'q sched \<Rightarrow> bool" where
  "wt_inv M s \<longleftrightarrow> (\<forall>q. \<forall>e\<in>set (M q). weight_ok (weight (se_load (ents s e)))) \<and>
     (\<forall>g. sg_se (groups s g) \<noteq> None \<longrightarrow> weight_ok (sg_shares (groups s g)))"

lemma wt_inv_owner:
  assumes "wt_inv M s" "hier_wf s" "se_sfq (ents s e) = Some q" "par_of s e = Some p" "sfq_group (sfqs s q) = Some g"
  shows "weight_ok (sg_shares (groups s g))"
proof -
  have "sg_se (groups s g) = Some p" using assms(2-5) unfolding hier_wf_def by fastforce
  then show ?thesis using assms(1) unfolding wt_inv_def by blast
qed

lemma wt_inv_sets:
  assumes "wt_inv M s" "\<And>q. set (M' q) = set (M q)" "groups s' = groups s"
    "\<And>e. weight (se_load (ents s' e)) = weight (se_load (ents s e))"
  shows "wt_inv M' s'"
  using assms by (simp add: wt_inv_def)

definition pss_inv :: "(qid \<Rightarrow> eid list) \<Rightarrow> 'q sched \<Rightarrow> bool" where
  "pss_inv X s \<longleftrightarrow> queue_inv X s \<and> up_inv (mem X s) s \<and> full_inv (mem X s) s \<and> run_inv s \<and> tree_wf s \<and>
     wt_inv (mem X s) s"

lemma pss_invD:
  assumes "pss_inv X s"
  shows "queue_inv X s" "up_inv (mem X s) s" "full_inv (mem X s) s" "run_inv s" "hier_wf s" "cur_inv s" "tree_wf s" "wt_inv (mem X s) s"
  using assms by (simp_all add: pss_inv_def queue_inv_def)

text \<open>The weights of threads, which no operation of the class changes.\<close>

definition same_tw :: "'q sched \<Rightarrow> 'q sched \<Rightarrow> bool" where
  "same_tw s s' \<longleftrightarrow> (\<forall>t. weight (se_load (ents s' (TD_SE t))) = weight (se_load (ents s (TD_SE t))))"

lemma same_tw_refl [simp, intro]: "same_tw s s"
  by (simp add: same_tw_def)

lemma same_tw_trans: "same_tw s s' \<Longrightarrow> same_tw s' s'' \<Longrightarrow> same_tw s s''"
  by (simp add: same_tw_def)

lemma same_weights_tw: "same_weights s s' \<Longrightarrow> same_tw s s'"
  by (simp add: same_weights_def same_tw_def)

text \<open>Which queues have a running entity: none, or those on the chain of one thread.\<close>

definition idle_queues :: "'q sched \<Rightarrow> bool" where
  "idle_queues s \<longleftrightarrow> (\<forall>q. curr (sfqs s q) = None)"

definition runs_chain :: "'q sched \<Rightarrow> eid list \<Rightarrow> bool" where
  "runs_chain s es \<longleftrightarrow> (\<forall>q c. curr (sfqs s q) = Some c \<longleftrightarrow> c \<in> set es \<and> se_sfq (ents s c) = Some q)"

definition runs :: "tid \<Rightarrow> 'q sched \<Rightarrow> bool" where
  "runs t s \<longleftrightarrow> (\<exists>es. chain (par_of s) (Some (TD_SE t)) es \<and> runs_chain s es)"

lemma idle_runs_chain: "idle_queues s = runs_chain s []"
  by (auto simp: idle_queues_def runs_chain_def)

definition cur_joined :: "'q sched \<Rightarrow> bool" where
  "cur_joined s \<longleftrightarrow> (\<forall>q c. curr (sfqs s q) = Some c \<longrightarrow> joined (ents s c))"

lemma idle_cur_joined: "idle_queues s \<Longrightarrow> cur_joined s"
  by (simp add: idle_queues_def cur_joined_def)

lemma same_static_par: "same_static s s' \<Longrightarrow> par_of s' = par_of s"
  by (simp add: same_static_def fun_eq_iff)

lemma same_static_sfq: "same_static s s' \<Longrightarrow> se_sfq (ents s' e) = se_sfq (ents s e)"
  by (simp add: same_static_def)

lemma up_inv_sets:
  assumes "up_inv M s" "\<And>q. set (M' q) = set (M q)" "same_static s s'"
  shows "up_inv M' s'"
  using assms by (simp add: up_inv_def same_static_def)

lemma full_inv_sets:
  assumes "full_inv M s" "\<And>q. set (M' q) = set (M q)" "same_static s s'"
  shows "full_inv M' s'"
proof -
  have "M' q = [] \<longleftrightarrow> M q = []" for q using assms(2) [of q] by (metis set_empty)
  then show ?thesis using assms by (simp add: full_inv_def same_static_def)
qed

lemma thread_entity: "hier_wf s \<Longrightarrow> entity_is_thread s e \<Longrightarrow> se_sfq (ents s e) \<noteq> None \<Longrightarrow> \<exists>t. e = TD_SE t"
  using hier_thread_ok unfolding thread_ok_def by blast

lemma hier_td: "hier_wf s \<Longrightarrow> my_q (ents s (TD_SE t)) = None"
  unfolding hier_wf_def by blast

lemma parent_group:
  assumes "hier_wf s" "se_sfq (ents s x) = Some q" "par_of s x = Some p"
  shows "my_q (ents s p) = Some q" "\<exists>n. p = ZONE_SE n" "se_sfq (ents s p) \<noteq> None"
proof -
  show q: "my_q (ents s p) = Some q" and "se_sfq (ents s p) \<noteq> None"
    using assms unfolding hier_wf_def by fastforce+
  show "\<exists>n. p = ZONE_SE n" using q hier_td [OF assms(1)] by (cases p) auto
qed

section \<open>Putting the running thread back\<close>

lemma put_prev_step:
  assumes inv: "pss_inv X s" and run: "runs_chain s (e # es)" and ch: "chain (par_of s) (Some e) (e # es)"
    and q: "se_sfq (ents s e) = Some q"
  shows "\<exists>s' X'. put_prev_entity K q e flags s = Some s' \<and> pss_inv X' s' \<and> runs_chain s' es \<and> same_static s s' \<and>
    (\<forall>r. set (mem X' s' r) = set (mem X s r)) \<and> (\<forall>x. joined (ents s' x) = joined (ents s x)) \<and> tun s' = tun s \<and>
    curthread s' = curthread s \<and> (\<forall>x. weight (se_load (ents s' x)) = weight (se_load (ents s x)))"
proof -
  note P = pss_invD [OF inv]
  have cur: "curr (sfqs s q) = Some e" using run q by (simp add: runs_chain_def)
  have rq: "entity_is_thread s e \<Longrightarrow> \<not> onrunq (ents s e)"
    using thread_entity [OF P(5)] q P(4) cur by (fastforce simp: run_inv_def)
  from put_prev_entity_ok [OF P(1,2) cur rq, where K = K and flags = flags] obtain s' X' where s':
    "put_prev_entity K q e flags s = Some s'" "queue_inv X' s'" "put_frame q e s s'"
    "\<forall>r. set (mem X' s' r) = set (mem X s r)" by blast
  have F: "same_static s s'" "\<And>r. curr (sfqs s' r) = (if r = q then None else curr (sfqs s r))"
    "\<And>x. joined (ents s' x) = joined (ents s x)" "\<And>x. x \<noteq> e \<Longrightarrow> onrunq (ents s' x) = onrunq (ents s x)"
    "tun s' = tun s" "curthread s' = curthread s" "same_weights s s'"
    using s'(3) by (simp_all add: put_frame_def)
  have off: "onrunq (ents s' e) = onrunq (ents s e)" if "\<not> joined (ents s e)"
    using s'(1) that by (auto simp: put_prev_entity_def)
  have ce: "curr (sfqs s r) = Some e \<Longrightarrow> r = q" for r using P(6) q unfolding cur_inv_def by force
  have "run_inv s'"
    unfolding run_inv_def
  proof (intro allI impI conjI)
    fix t assume t: "onrunq (ents s' (TD_SE t))"
    show "joined (ents s' (TD_SE t))"
      using t P(4) off F(3,4) by (cases "TD_SE t = e") (auto simp: run_inv_def)
    show "curr (sfqs s' r) \<noteq> Some (TD_SE t)" for r
      using t P(4) F(2,4) ce by (cases "TD_SE t = e") (auto simp: run_inv_def)
  qed
  moreover have "up_inv (mem X' s') s'" "full_inv (mem X' s') s'"
    using up_inv_sets [OF P(2) _ F(1)] full_inv_sets [OF P(3) _ F(1)] s'(4) by simp_all
  moreover have "runs_chain s' es"
  proof -
    have n: "x \<in> set es \<Longrightarrow> se_sfq (ents s x) \<noteq> Some q" for x
      using chain_queues [OF P(5) ch _ q] by blast
    have "x \<in> set es \<Longrightarrow> x \<noteq> e" for x using n q by blast
    then show ?thesis using run n q by (auto simp: runs_chain_def F(2) same_static_sfq [OF F(1)])
  qed
  moreover have "wt_inv (mem X' s') s'"
    by (rule wt_inv_sets [OF P(8)]) (use s'(4) F(1,7) in \<open>simp_all add: same_static_def same_weights_def\<close>)
  ultimately show ?thesis
    using s' F by (intro exI [of _ s'] exI [of _ X']) (simp add: pss_inv_def same_weights_def tree_wf_static(1) [OF F(1)] P(7))
qed

lemma put_prev_thread_ok:
  assumes inv: "pss_inv X s" and run: "runs t s" and q: "se_sfq (ents s (TD_SE t)) \<noteq> None"
  shows "\<exists>s' X'. pss_put_prev_thread K t flags s = Some s' \<and> pss_inv X' s' \<and> idle_queues s' \<and> same_static s s' \<and>
    (\<forall>r. set (mem X' s' r) = set (mem X s r)) \<and> (\<forall>x. joined (ents s' x) = joined (ents s x)) \<and> tun s' = tun s \<and>
    curthread s' = curthread s \<and> (\<forall>x. weight (se_load (ents s' x)) = weight (se_load (ents s x)))"
proof -
  obtain es where es: "chain (par_of s) (Some (TD_SE t)) es" "runs_chain s es" using run by (auto simp: runs_def)
  have sfq: "\<forall>x\<in>set es. se_sfq (ents s x) \<noteq> None"
    using chain_sfq [OF pss_invD(5) [OF inv] es(1)] q by simp
  define J where "J = (\<lambda>as st. \<exists>X'. pss_inv X' st \<and> runs_chain st as \<and> same_static s st \<and>
    (\<forall>r. set (mem X' st r) = set (mem X s r)) \<and> (\<forall>x. joined (ents st x) = joined (ents s x)) \<and> tun st = tun s \<and>
    curthread st = curthread s \<and> (\<forall>x. weight (se_load (ents st x)) = weight (se_load (ents s x))) \<and> set as \<subseteq> set es)"
  define body where "body = each (\<lambda>e s. do { q \<leftarrow> se_sfq (ents s e); put_prev_entity K q e flags s })"
  have "\<exists>r st. walkup par_of body (Some (TD_SE t)) s = Some (r, st) \<and> J [] st"
  proof (rule walk_chain [where s = s and J = J and p = "Some (TD_SE t)" and al = es and start = s])
    show "chain (par_of s) (Some (TD_SE t)) es" by (rule es(1))
    show "J es s" using inv es by (auto simp: J_def)
  next
    fix e as st
    assume ch: "chain (par_of s) (Some e) (e # as)" and "J (e # as) st"
    then obtain X1 where X1: "pss_inv X1 st" "runs_chain st (e # as)" "same_static s st"
      "\<forall>r. set (mem X1 st r) = set (mem X s r)" "\<forall>x. joined (ents st x) = joined (ents s x)" "tun st = tun s"
      "curthread st = curthread s" "\<forall>x. weight (se_load (ents st x)) = weight (se_load (ents s x))"
      "set (e # as) \<subseteq> set es" by (auto simp: J_def)
    obtain q where q: "se_sfq (ents st e) = Some q" using sfq X1(9) same_static_sfq [OF X1(3)] by fastforce
    have ch': "chain (par_of st) (Some e) (e # as)" using ch same_static_par [OF X1(3)] by metis
    from put_prev_step [OF X1(1,2) ch' q, where K = K and flags = flags] obtain st' X2 where st':
      "put_prev_entity K q e flags st = Some st'" "pss_inv X2 st'" "runs_chain st' as" "same_static st st'"
      "\<forall>r. set (mem X2 st' r) = set (mem X1 st r)" "\<forall>x. joined (ents st' x) = joined (ents st x)" "tun st' = tun st"
      "curthread st' = curthread st" "\<forall>x. weight (se_load (ents st' x)) = weight (se_load (ents st x))" by blast
    have stat: "same_static s st'" by (rule same_static_trans [OF X1(3) st'(4)])
    have "J as st'" unfolding J_def using st' X1 stat by (intro exI [of _ X2]) simp
    moreover have "par_of st' e = par_of s e" using stat by (simp add: same_static_def)
    moreover have "body e st = Some (False, st')" using q st'(1) by (simp add: body_def each_def)
    ultimately show "\<exists>b st'. body e st = Some (b, st') \<and> par_of st' e = par_of s e \<and> (if b then J [] st' else J as st')"
      by auto
  qed
  then obtain r st where "walkup par_of body (Some (TD_SE t)) s = Some (r, st)" "J [] st" by blast
  then show ?thesis
    unfolding J_def pss_put_prev_thread_def td_to_se_def body_def idle_runs_chain by auto
qed

section \<open>Making a thread the running one\<close>

lemma pss_inv_struct:
  assumes "pss_inv X s" "queue_inv X s'" "same_struct s s'" "same_runq s s'" "wt_inv (mem X s) s'"
  shows "pss_inv X s'" "runs t s' = runs t s" "idle_queues s' = idle_queues s" "cur_joined s' = cur_joined s"
    "mem X s' = mem X s"
proof -
  show m: "mem X s' = mem X s" by (rule inv_same_struct(4) [OF assms(3)])
  note D = same_structD [OF assms(3)] and stat = same_struct_static [OF assms(3)]
  have "run_inv s'" using pss_invD(4) [OF assms(1)] assms(4) by (simp add: run_inv_def D same_runq_def)
  moreover have "up_inv (mem X s) s'" "full_inv (mem X s) s'"
    using up_inv_sets [OF pss_invD(2) [OF assms(1)] _ stat] full_inv_sets [OF pss_invD(3) [OF assms(1)] _ stat] by simp_all
  ultimately show "pss_inv X s'"
    using pss_invD(7) [OF assms(1)] assms(2,5) by (simp add: pss_inv_def m tree_wf_static(1) [OF stat])
  have "par_of s' = par_of s" by (rule same_static_par [OF stat])
  then show "runs t s' = runs t s" unfolding runs_def runs_chain_def by (simp add: D)
  show "idle_queues s' = idle_queues s" "cur_joined s' = cur_joined s"
    by (simp_all add: idle_queues_def cur_joined_def D)
qed

lemma pss_inv_same:
  assumes "pss_inv X s" "same_core s s'" "same_runq s s'"
  shows "pss_inv X s'" "runs t s' = runs t s" "idle_queues s' = idle_queues s" "cur_joined s' = cur_joined s"
    "mem X s' = mem X s"
proof -
  have st: "same_struct s s'" and w: "same_weights s s'" using assms(2) by (simp_all add: same_core_split)
  have "wt_inv (mem X s) s'"
    by (rule wt_inv_sets [OF pss_invD(8) [OF assms(1)]]) (use st w in \<open>simp_all add: same_structD(2) same_weights_def\<close>)
  note I = pss_inv_struct [OF assms(1) queue_inv_same_core [OF pss_invD(1) [OF assms(1)] assms(2)] st assms(3) this]
  show "pss_inv X s'" "runs t s' = runs t s" "idle_queues s' = idle_queues s" "cur_joined s' = cur_joined s"
    "mem X s' = mem X s" using I by blast+
qed

lemma chain_members:
  assumes inv: "up_inv M s" and m: "p = None \<or> (\<exists>e q. p = Some e \<and> e \<in> set (M q))" and ch: "chain (par_of s) p es"
  shows "\<forall>x\<in>set es. \<exists>q. x \<in> set (M q)"
  using m ch
proof (induction es arbitrary: p)
  case (Cons e es)
  then obtain q where q: "e \<in> set (M q)" "chain (par_of s) (par_of s e) es" by auto
  then have "par_of s e = None \<or> (\<exists>x q. par_of s e = Some x \<and> x \<in> set (M q))"
    using inv unfolding up_inv_def by (cases "par_of s e") blast+
  then show ?case using Cons.IH q by auto
qed simp

lemma idle_mem: "idle_queues s \<Longrightarrow> mem X s = X"
  by (simp add: fun_eq_iff mem_def cur_list_def idle_queues_def)

lemma activate_step:
  assumes inv: "pss_inv X s" and run: "runs_chain s ds" and e: "e \<in> set (X q)" and cur: "curr (sfqs s q) = None"
  shows "\<exists>s' X'. activate_entity K q e s = Some s' \<and> pss_inv X' s' \<and> runs_chain s' (ds @ [e]) \<and> same_static s s' \<and>
    (\<forall>r. set (mem X' s' r) = set (mem X s r)) \<and> (\<forall>x. joined (ents s' x) = joined (ents s x)) \<and>
    (\<forall>x. x \<noteq> e \<longrightarrow> onsfq (ents s' x) = onsfq (ents s x)) \<and> (\<forall>x. vruntime (ents s' x) = vruntime (ents s x)) \<and>
    timing_start (ents s' e) = clock_thread (rq s) \<and> same_tw s s'"
proof -
  note P = pss_invD [OF inv]
  let ?X = "X(q := remove1 e (X q))"
  from activate_entity_ok [OF P(1) e cur, where K = K] obtain s' where s': "activate_entity K q e s = Some s'"
    "queue_inv ?X s'" "act_frame q e s s'"
    "\<forall>r. mem ?X s' r = (if r = q then remove1 e (X q) @ [e] else mem X s r)" by blast
  have F: "same_static s s'" "\<And>r. curr (sfqs s' r) = (if r = q then Some e else curr (sfqs s r))"
    "\<And>x. joined (ents s' x) = joined (ents s x)" "\<And>x. x \<noteq> e \<Longrightarrow> onsfq (ents s' x) = onsfq (ents s x)"
    "\<And>x. x \<noteq> e \<Longrightarrow> onrunq (ents s' x) = onrunq (ents s x)" "\<And>x. vruntime (ents s' x) = vruntime (ents s x)"
    "entity_is_thread s e \<Longrightarrow> \<not> onrunq (ents s' e)" "timing_start (ents s' e) = clock_thread (rq s)"
    using s'(3) by (simp_all add: act_frame_def)
  have tw: "same_tw s s'" using s'(3) by (simp add: act_frame_def same_weights_tw)
  have em: "se_sfq (ents s e) = Some q" "onsfq (ents s e)" using tl_inv_mem [OF queue_invD(1) [OF P(1)], of e q] e by simp_all
  have mq: "mem X s q = X q" by (simp add: mem_def cur_list_def cur)
  have dX: "distinct (X q)" using queue_mem(2) [OF P(1), of q] mq by simp
  have m: "set (mem ?X s' r) = set (mem X s r)" for r
    using s'(4) e dX by (auto simp: mq)
  have th: "TD_SE t = e \<Longrightarrow> entity_is_thread s e" for t
    using hier_td [OF P(5)] by (auto simp: entity_is_thread_def)
  have "run_inv s'"
    unfolding run_inv_def
  proof (intro allI impI conjI)
    fix t assume t: "onrunq (ents s' (TD_SE t))"
    then have ne: "TD_SE t \<noteq> e" using F(7) th by blast
    then have o: "onrunq (ents s (TD_SE t))" using t F(5) by simp
    show "joined (ents s' (TD_SE t))" using o P(4) F(3) by (simp add: run_inv_def)
    show "curr (sfqs s' r) \<noteq> Some (TD_SE t)" for r using o ne P(4) F(2) by (auto simp: run_inv_def)
  qed
  moreover have "up_inv (mem ?X s') s'" "full_inv (mem ?X s') s'"
    using up_inv_sets [OF P(2) m F(1)] full_inv_sets [OF P(3) m F(1)] by simp_all
  moreover have nd: "c \<in> set ds \<Longrightarrow> se_sfq (ents s c) \<noteq> Some q" for c
    using run cur unfolding runs_chain_def by (metis option.distinct(1))
  have "runs_chain s' (ds @ [e])"
    unfolding runs_chain_def same_static_sfq [OF F(1)] F(2)
    using run em nd by (auto simp: runs_chain_def)
  moreover have "wt_inv (mem ?X s') s'"
    by (rule wt_inv_sets [OF P(8) m]) (use F(1) s'(3) in \<open>simp_all add: same_static_def same_weights_def act_frame_def\<close>)
  ultimately show ?thesis
    using s'(1,2) F m P(7) tw by (intro exI [of _ s'] exI [of _ ?X]) (simp add: pss_inv_def tree_wf_static(1) [OF F(1)])
qed

lemma activate_thread_ok:
  assumes inv: "pss_inv X s" and idle: "idle_queues s" and t: "TD_SE t \<in> set (X q)"
  shows "\<exists>s' X'. pss_activate_thread K t s = Some s' \<and> pss_inv X' s' \<and> runs t s' \<and> same_static s s' \<and>
    (\<forall>r. set (mem X' s' r) = set (X r)) \<and> (\<forall>x. joined (ents s' x) = joined (ents s x)) \<and>
    (\<forall>x. vruntime (ents s' x) = vruntime (ents s x)) \<and> TD_IS_RUNNING s' t \<and> same_tw s s'"
proof -
  note P = pss_invD [OF inv]
  have mX: "mem X s = X" by (rule idle_mem [OF idle])
  obtain es where es: "chain (par_of s) (Some (TD_SE t)) es" using hier_chain [OF P(5)] by blast
  have mem: "\<forall>x\<in>set es. \<exists>r. x \<in> set (X r)"
    by (rule chain_members [OF P(2) [unfolded mX] _ es]) (use t in blast)
  have on: "\<forall>x\<in>set es. onsfq (ents s x)" using mem tl_inv_mem [OF queue_invD(1) [OF P(1)]] by blast
  define J where "J = (\<lambda>as st. \<exists>X' ds. es = ds @ as \<and> pss_inv X' st \<and> runs_chain st ds \<and> same_static s st \<and>
    (\<forall>r. set (mem X' st r) = set (X r)) \<and> (\<forall>x. joined (ents st x) = joined (ents s x)) \<and>
    (\<forall>x. vruntime (ents st x) = vruntime (ents s x)) \<and> (\<forall>x\<in>set as. onsfq (ents st x)) \<and> same_tw s st)"
  define body where "body = each (\<lambda>e s. do { q \<leftarrow> se_sfq (ents s e); activate_entity K q e s })"
  have "\<exists>r st. walkup par_of body (Some (TD_SE t)) s = Some (r, st) \<and> J [] st"
  proof (rule walk_chain [where s = s and J = J and p = "Some (TD_SE t)" and al = es and start = s])
    show "chain (par_of s) (Some (TD_SE t)) es" by (rule es)
    have "runs_chain s []" using idle by (simp add: idle_runs_chain)
    then show "J es s" unfolding J_def using inv on mX by (intro exI [of _ X] exI [of _ "[]"]) simp
  next
    fix e as st
    assume ch: "chain (par_of s) (Some e) (e # as)" and "J (e # as) st"
    then obtain X1 ds where X1: "es = ds @ e # as" "pss_inv X1 st" "runs_chain st ds" "same_static s st"
      "\<forall>r. set (mem X1 st r) = set (X r)" "\<forall>x. joined (ents st x) = joined (ents s x)"
      "\<forall>x. vruntime (ents st x) = vruntime (ents s x)" "\<forall>x\<in>set (e # as). onsfq (ents st x)" "same_tw s st" unfolding J_def by blast
    note P1 = pss_invD [OF X1(2)]
    have "\<exists>r. e \<in> set (mem X1 st r)" using mem X1(1,5) by simp
    then obtain r where r: "e \<in> set (mem X1 st r)" by blast
    then have q: "se_sfq (ents st e) = Some r" using queue_mem(1) [OF P1(1)] by blast
    then have e1: "e \<in> set (X1 r)" using tl_inv_mem [OF queue_invD(1) [OF P1(1)], of e r] X1(8) by simp
    have cur: "curr (sfqs st r) = None"
    proof (rule ccontr)
      assume "curr (sfqs st r) \<noteq> None"
      then obtain c where c: "c \<in> set ds" "se_sfq (ents st c) = Some r" using X1(3) unfolding runs_chain_def by blast
      then obtain us vs where ds: "ds = us @ c # vs" using split_list by metis
      have "chain (par_of s) (Some c) (c # vs @ e # as)"
        using es chain_suffix [of "par_of s" "Some (TD_SE t)" us c "vs @ e # as"] by (simp add: X1(1) ds)
      moreover have "se_sfq (ents s c) = Some r" "se_sfq (ents s e) = Some r"
        using c(2) q same_static_sfq [OF X1(4)] by simp_all
      ultimately show False using chain_queues [OF P(5), of c "vs @ e # as" e] by simp
    qed
    from activate_step [OF X1(2,3) e1 cur, where K = K] obtain st' X2 where st':
      "activate_entity K r e st = Some st'" "pss_inv X2 st'" "runs_chain st' (ds @ [e])" "same_static st st'"
      "\<forall>r. set (mem X2 st' r) = set (mem X1 st r)" "\<forall>x. joined (ents st' x) = joined (ents st x)"
      "\<forall>x. x \<noteq> e \<longrightarrow> onsfq (ents st' x) = onsfq (ents st x)" "\<forall>x. vruntime (ents st' x) = vruntime (ents st x)" "same_tw st st'" by blast
    have stat: "same_static s st'" by (rule same_static_trans [OF X1(4) st'(4)])
    have ne: "x \<in> set as \<Longrightarrow> x \<noteq> e" for x
      using chain_queues [OF P(5) ch, of x r] q same_static_sfq [OF X1(4), of e] by auto
    have "J as st'"
      unfolding J_def using st' X1 stat ne same_tw_trans [OF X1(9) st'(9)] by (intro exI [of _ X2] exI [of _ "ds @ [e]"]) simp
    moreover have "par_of st' e = par_of s e" using stat by (simp add: same_static_def)
    moreover have "body e st = Some (False, st')" using q st'(1) by (simp add: body_def each_def)
    ultimately show "\<exists>b st'. body e st = Some (b, st') \<and> par_of st' e = par_of s e \<and> (if b then J [] st' else J as st')"
      by auto
  qed
  then obtain r st where st: "walkup par_of body (Some (TD_SE t)) s = Some (r, st)" "J [] st" by blast
  then obtain X' where X': "pss_inv X' st" "runs_chain st es" "same_static s st"
    "\<forall>r. set (mem X' st r) = set (X r)" "\<forall>x. joined (ents st x) = joined (ents s x)"
    "\<forall>x. vruntime (ents st x) = vruntime (ents s x)" "same_tw s st" unfolding J_def by auto
  let ?s = "set_td_state TDS_RUNNING t st"
  have c: "same_core st ?s" "same_runq st ?s" by simp_all
  note I = pss_inv_same [OF X'(1) c]
  have "runs t st" using es X'(2) same_static_par [OF X'(3)] unfolding runs_def by metis
  then have "runs t ?s" using I(2) by simp
  moreover have "same_static s ?s" using X'(3) by (simp add: same_static_def)
  moreover have "mem X' ?s = mem X' st" by (rule inv_same_struct(4)) (use c(1) in \<open>simp add: same_core_split\<close>)
  moreover have "same_tw s ?s" using X'(7) by (simp add: same_tw_def)
  moreover have "TD_IS_RUNNING ?s t" by (simp add: TD_IS_RUNNING_def set_td_state_def)
  moreover have "pss_activate_thread K t s = Some ?s"
    using st(1) by (simp add: pss_activate_thread_def td_to_se_def body_def)
  ultimately show ?thesis using I(1) X' by (intro exI [of _ ?s] exI [of _ X']) simp
qed

section \<open>Choosing a thread\<close>

text \<open>
  The way down of a choice: at each level a queued entity, the first of its queue or one that is not
  too far behind the first; a group leads to the queue it owns, a thread ends the way.
\<close>

fun descent :: "(qid \<Rightarrow> eid list) \<Rightarrow> 'q sched \<Rightarrow> qid \<Rightarrow> eid list \<Rightarrow> bool" where
  "descent X s q [] \<longleftrightarrow> False"
| "descent X s q (e # es) \<longleftrightarrow> e \<in> set (X q) \<and> (e = hd (X q) \<or> near s (hd (X q)) e) \<and>
     (case my_q (ents s e) of None \<Rightarrow> es = [] | Some r \<Rightarrow> descent X s r es)"

lemma picked_inv:
  assumes "pss_inv X s" "idle_queues s" "queue_inv X s'" "picked s s'"
  shows "pss_inv X s'" "idle_queues s'"
proof -
  have st: "same_struct s s'" and rq: "same_runq s s'" and w: "same_weights s s'"
    using assms(4) by (simp_all add: picked_def)
  have "wt_inv (mem X s) s'"
    by (rule wt_inv_sets [OF pss_invD(8) [OF assms(1)]]) (use st w in \<open>simp_all add: same_structD(2) same_weights_def\<close>)
  note I = pss_inv_struct [OF assms(1,3) st rq this]
  show "pss_inv X s'" "idle_queues s'" using I(1,3) assms(2) by simp_all
qed

lemma descent_picked: "picked s s' \<Longrightarrow> descent X s' q es = descent X s q es"
proof (induction es arbitrary: q)
  case (Cons e es)
  have "my_q (ents s' e) = my_q (ents s e)" using Cons.prems by (simp add: picked_def same_structD)
  then show ?case using Cons picked_near [OF Cons.prems] by (simp split: option.splits)
qed simp

lemma owner_parent:
  assumes "hier_wf s" "tree_wf s" "se_sfq (ents s e) \<noteq> None" "my_q (ents s e) = Some r" "se_sfq (ents s x) = Some r"
  shows "par_of s x = Some e"
proof -
  obtain g where "sfq_group (sfqs s r) = Some g" "sg_se (groups s g) = Some e"
    using assms(2-4) unfolding tree_wf_def by blast
  moreover obtain g' where "sfq_group (sfqs s r) = Some g'" "sg_se (groups s g') = par_of s x"
    using assms(1,5) unfolding hier_wf_def by blast
  ultimately show ?thesis by simp
qed

lemma pick_down_ok:
  assumes "pss_inv X s" "idle_queues s" "X q = f # rest" "chain (par_of s) (Some f) es"
    and "depth_le s d"
  shows "\<exists>e s' as. pick_down q s = Some (e, s') \<and> pss_inv X s' \<and> picked s s' \<and> idle_queues s' \<and>
    descent X s q as \<and> last as = e \<and> my_q (ents s e) = None \<and> (\<exists>p. e \<in> set (X p))"
  using assms
proof (induction "d - length es" arbitrary: q s f rest es rule: less_induct)
  case less
  note P = pss_invD [OF less.prems(1)] and bound = less.prems(5)
  have mX: "mem X s = X" by (rule idle_mem [OF less.prems(2)])
  have cur: "curr (sfqs s q) = None" using less.prems(2) by (simp add: idle_queues_def)
  from pick_next_entity_ok [OF P(1) less.prems(3) cur] obtain e s1 where e: "pick_next_entity q s = Some (e, s1)"
    "e \<in> set (X q)" "e = f \<or> near s f e" "queue_inv X s1" "picked s s1" by blast
  note I1 = picked_inv [OF less.prems(1,2) e(4,5)]
  have st: "same_struct s s1" using e(5) by (simp add: picked_def)
  note D1 = same_structD [OF st]
  show ?case
  proof (cases "my_q (ents s e)")
    case None
    have "pick_down q s = Some (e, s1)" using e(1) None by (subst pick_down.simps) (simp add: D1)
    moreover have "descent X s q [e]" using e(2,3) less.prems(3) None by simp
    ultimately show ?thesis using I1 e(2,5) None by (intro exI [of _ e] exI [of _ s1] exI [of _ "[e]"]) auto
  next
    case (Some r)
    have fq: "se_sfq (ents s f) = Some q" "se_sfq (ents s e) = Some q"
      using e(2) less.prems(3) tl_inv_mem [OF queue_invD(1) [OF P(1)], of e q] tl_inv_mem [OF queue_invD(1) [OF P(1)], of f q]
      by simp_all
    have "X r \<noteq> []" using P(3) Some e(2) unfolding mX full_inv_def by blast
    then obtain x xs where x: "X r = x # xs" by (cases "X r") auto
    then have xr: "se_sfq (ents s x) = Some r" using tl_inv_mem [OF queue_invD(1) [OF P(1)], of x r] by simp
    have px: "par_of s x = Some e" using owner_parent [OF P(5,7) _ Some xr] fq(2) by simp
    have "par_of s e = par_of s f" by (rule same_queue_parent [OF P(5) fq(2,1)])
    moreover obtain es' where es': "es = f # es'" "chain (par_of s) (par_of s f) es'" using less.prems(4) by (cases es) auto
    ultimately have ch: "chain (par_of s) (Some x) (x # e # es')" using px by simp
    have "length (x # e # es') \<le> d" using bound ch xr unfolding depth_le_def by blast
    then have lt: "d - length (x # e # es') < d - length es" using es'(1) by simp
    have ch1: "chain (par_of s1) (Some x) (x # e # es')" using ch same_static_par [OF same_struct_static [OF st]] by metis
    have bound1: "depth_le s1 d" using bound tree_wf_static(2) [OF same_struct_static [OF st]] by simp
    from less.hyps [OF lt I1 x ch1 bound1] obtain z s' as where z: "pick_down r s1 = Some (z, s')" "pss_inv X s'"
      "picked s1 s'" "idle_queues s'" "descent X s1 r as" "last as = z" "my_q (ents s1 z) = None" "\<exists>p. z \<in> set (X p)" by blast
    have "pick_down q s = Some (z, s')" using e(1) Some z(1) by (subst pick_down.simps) (simp add: D1)
    moreover have "picked s s'" by (rule picked_trans [OF e(5) z(3)])
    moreover have "descent X s q (e # as)"
      using e(2,3) less.prems(3) Some z(5) descent_picked [OF e(5)] by simp
    moreover have "as \<noteq> []" using z(5) by (cases as) auto
    ultimately show ?thesis
      using z by (intro exI [of _ z] exI [of _ s'] exI [of _ "e # as"]) (simp add: D1)
  qed
qed

lemma pick_next_thread_ok:
  assumes inv: "pss_inv X s" and idle: "idle_queues s"
  shows "X RQ_SFQ = [] \<Longrightarrow> pss_pick_next_thread s = Some (None, s)"
    "X RQ_SFQ \<noteq> [] \<Longrightarrow> \<exists>t s' as p. pss_pick_next_thread s = Some (Some t, s') \<and> pss_inv X s' \<and> picked s s' \<and>
       idle_queues s' \<and> descent X s RQ_SFQ as \<and> last as = TD_SE t \<and> TD_SE t \<in> set (X p)"
proof -
  note P = pss_invD [OF inv]
  have nr: "nr_running (sfqs s RQ_SFQ) = int (length (X RQ_SFQ))"
    using queue_invD(4) [OF P(1)] by (simp add: acct_def idle_mem [OF idle])
  then show "X RQ_SFQ = [] \<Longrightarrow> pss_pick_next_thread s = Some (None, s)" by (simp add: pss_pick_next_thread_def)
  assume "X RQ_SFQ \<noteq> []"
  then obtain f rest where f: "X RQ_SFQ = f # rest" by (cases "X RQ_SFQ") auto
  obtain es where es: "chain (par_of s) (Some f) es" using hier_chain [OF P(5)] by blast
  obtain d where d: "depth_le s d" using P(7) unfolding tree_wf_def by blast
  have "\<exists>e s' as. pick_down RQ_SFQ s = Some (e, s') \<and> pss_inv X s' \<and> picked s s' \<and> idle_queues s' \<and>
      descent X s RQ_SFQ as \<and> last as = e \<and> my_q (ents s e) = None \<and> (\<exists>p. e \<in> set (X p))"
    by (rule pick_down_ok [OF inv idle f es d])
  then obtain e s' as p where e: "pick_down RQ_SFQ s = Some (e, s')" "pss_inv X s'"
    "picked s s'" "idle_queues s'" "descent X s RQ_SFQ as" "last as = e" "my_q (ents s e) = None" "e \<in> set (X p)" by blast
  have "se_sfq (ents s e) = Some p" using tl_inv_mem [OF queue_invD(1) [OF P(1)], of e p] e(8) by simp
  then obtain t where t: "e = TD_SE t"
    using thread_entity [OF P(5), of e] e(7) by (auto simp: entity_is_thread_def)
  have "my_q (ents s' e) = None" using e(3,7) same_structD(14) unfolding picked_def by metis
  then have "se_to_td s' e = Some t" by (simp add: se_to_td_def entity_is_thread_def t)
  then have "pss_pick_next_thread s = Some (Some t, s')" using e(1) nr f by (simp add: pss_pick_next_thread_def)
  then show "\<exists>t s' as p. pss_pick_next_thread s = Some (Some t, s') \<and> pss_inv X s' \<and> picked s s' \<and>
       idle_queues s' \<and> descent X s RQ_SFQ as \<and> last as = TD_SE t \<and> TD_SE t \<in> set (X p)"
    using e [unfolded t] by blast
qed

end
