(* ===== verification/Pss_Frame.thy ===== *)
theory Pss_Frame
  imports Pss_Run
begin

text \<open>
  What the operations of \<open>pss.c\<close> leave alone outside the queues: the counts of runnable threads and
  the classes of the threads, and that the run queue of the kernel, a parameter, holds exactly the
  threads flagged \<open>onrunq\<close>. Each operation is taken as it stands, whatever its result state.
\<close>

section \<open>What a walk leaves alone\<close>

lemma walkup_path:
  fixes body :: "eid \<Rightarrow> 's \<Rightarrow> (bool \<times> 's) option"
  assumes "walkup par body p s = Some (r, s')" "I s" "\<And>e. p = Some e \<Longrightarrow> Q e"
    and "\<And>e s b s'. body e s = Some (b, s') \<Longrightarrow> I s \<Longrightarrow> Q e \<Longrightarrow> I s'" "\<And>e s y. I s \<Longrightarrow> Q e \<Longrightarrow> par s e = Some y \<Longrightarrow> Q y"
  shows "I s'"
proof -
  define H where "H = (\<lambda>(par :: 's \<Rightarrow> eid \<Rightarrow> eid option) (body :: eid \<Rightarrow> 's \<Rightarrow> (bool \<times> 's) option).
    (\<forall>e s b s'. body e s = Some (b, s') \<longrightarrow> I s \<longrightarrow> Q e \<longrightarrow> I s') \<and> (\<forall>e s y. I s \<longrightarrow> Q e \<longrightarrow> par s e = Some y \<longrightarrow> Q y))"
  define P where "P = (\<lambda>(par :: 's \<Rightarrow> eid \<Rightarrow> eid option) (body :: eid \<Rightarrow> 's \<Rightarrow> (bool \<times> 's) option) (p :: eid option) (s :: 's) (y :: eid option \<times> 's).
    H par body \<longrightarrow> I s \<longrightarrow> (\<forall>e. p = Some e \<longrightarrow> Q e) \<longrightarrow> I (snd y))"
  have "P par body p s (r, s')"
  proof (rule walkup.raw_induct [where P = P, OF _ assms(1)])
    fix walkup :: "('s \<Rightarrow> eid \<Rightarrow> eid option) \<Rightarrow> (eid \<Rightarrow> 's \<Rightarrow> (bool \<times> 's) option) \<Rightarrow> eid option \<Rightarrow> 's \<Rightarrow> (eid option \<times> 's) option"
      and par body p s y
    assume ih: "\<And>par body p s y. walkup par body p s = Some y \<Longrightarrow> P par body p s y"
      and y: "(case p of None \<Rightarrow> Some (None, s)
        | Some e \<Rightarrow> do { (brk, s) \<leftarrow> body e s; if brk then Some (Some e, s) else walkup par body (par s e) s }) = Some y"
    show "P par body p s y"
      unfolding P_def
    proof (intro impI)
      assume inv: "H par body" and s: "I s" "\<forall>e. p = Some e \<longrightarrow> Q e"
      show "I (snd y)"
      proof (cases p)
        case (Some e)
        then obtain b s1 where b: "body e s = Some (b, s1)"
          "(if b then Some (Some e, s1) else walkup par body (par s1 e) s1) = Some y"
          using y by (auto split: bind_splits)
        have e: "Q e" using s(2) Some by simp
        have s1: "I s1" using inv b(1) s(1) e unfolding H_def by blast
        have q: "\<forall>x. par s1 e = Some x \<longrightarrow> Q x" using inv s1 e unfolding H_def by blast
        show ?thesis
        proof (cases b)
          case False
          then have "walkup par body (par s1 e) s1 = Some y" using b(2) by simp
          from ih [OF this] show ?thesis using inv s1 q unfolding P_def by blast
        qed (use b(2) s1 in auto)
      qed (use y s in auto)
    qed
  qed
  moreover have "H par body" unfolding H_def using assms(4,5) by blast
  ultimately show ?thesis using assms(2,3) by (simp add: P_def)
qed

lemma walkup_invariant:
  fixes body :: "eid \<Rightarrow> 's \<Rightarrow> (bool \<times> 's) option"
  assumes "walkup par body p s = Some (r, s')" "I s"
    and "\<And>e s b s'. body e s = Some (b, s') \<Longrightarrow> I s \<Longrightarrow> I s'"
  shows "I s'"
  by (rule walkup_path [where I = I and Q = "\<lambda>_. True", OF assms(1,2) TrueI assms(3) TrueI])

lemma walk_same:
  assumes "walkup par body p s = Some (r, s')" "\<And>e s b s'. body e s = Some (b, s') \<Longrightarrow> f s' = f s"
  shows "f s' = f s"
  by (rule walkup_invariant [where I = "\<lambda>st. f st = f s", OF assms(1)]) (use assms(2) in auto)

section \<open>Counts, classes and run-queue flags\<close>

lemma cpupri_upd [simp]:
  "root_cpupri (upd_q q k s) = root_cpupri s" "root_cpupri (upd_se e h s) = root_cpupri s"
  "root_cpupri (upd_td t g s) = root_cpupri s" "root_cpupri (upd_rq u s) = root_cpupri s"
  "root_cpupri (update_sfq_vtime q s) = root_cpupri s"
  by (simp_all add: upd_q_def upd_se_def upd_td_def upd_rq_def update_sfq_vtime_def Let_def split: option.splits)

type_synonym standing = "sched_class \<times> int \<times> int \<times> u8 \<times> gid option"

type_synonym ledger = "int \<times> int \<times> tid \<times> (tid \<Rightarrow> standing) \<times> cpupri \<times> (eid \<Rightarrow> eid option \<times> qid option \<times> qid option)"

definition ledger :: "'q sched \<Rightarrow> ledger" where
  "ledger s = (rq_nr_running (rq s), rq_nr_sysrunning (rq s), curthread s,
     (\<lambda>t. (td_class (threads s t), td_priority (threads s t), p_nice (threads s t), td_pri_class (threads s t),
        td_group (threads s t))), root_cpupri s,
     (\<lambda>e. (se_parent (ents s e), se_sfq (ents s e), my_q (ents s e))))"

lemma only_cands_ledger: "only_cands s s' \<Longrightarrow> ledger s' = ledger s"
  by (auto simp: only_cands_def ledger_def)

definition books :: "'q sched \<Rightarrow> ledger \<times> 'q \<times> (tid \<Rightarrow> bool) \<times> (tid \<Rightarrow> td_state)" where
  "books s = (ledger s, realtime (rq s), (\<lambda>t. onrunq (ents s (TD_SE t))), (\<lambda>t. td_state (threads s t)))"

definition agree :: "('q \<Rightarrow> tid set) \<Rightarrow> 'q sched \<Rightarrow> bool" where
  "agree C s \<longleftrightarrow> C (realtime (rq s)) = {t. onrunq (ents s (TD_SE t))}"

text \<open>What \<open>sys/runq.h\<close> promises: the threads on a run queue, and the choice of one of them.\<close>

definition runq_laws :: "'q kern \<Rightarrow> ('q \<Rightarrow> tid set) \<Rightarrow> bool" where
  "runq_laws K C \<longleftrightarrow> (\<forall>r t p front. C (runq_add K r t p front) = insert t (C r)) \<and>
     (\<forall>r t. C (runq_remove K r t) = C r - {t}) \<and> C (runq_init K) = {} \<and>
     (\<forall>r. runq_choose K r = None \<longleftrightarrow> C r = {}) \<and> (\<forall>r t. runq_choose K r = Some t \<longrightarrow> t \<in> C r)"

lemma books_ledger: "books s' = books s \<Longrightarrow> ledger s' = ledger s" "books s' = books s \<Longrightarrow> agree C s' = agree C s"
  "books s' = books s \<Longrightarrow> td_state (threads s' x) = td_state (threads s x)"
  "books s' = books s \<Longrightarrow> onrunq (ents s' (TD_SE x)) = onrunq (ents s (TD_SE x))"
  by (simp_all add: books_def agree_def fun_eq_iff)

lemma books_upd:
  "books (upd_q q k s) = books s" "books (s\<lparr>tlinks := l\<rparr>) = books s"
  "(\<And>x. onrunq (h x) = onrunq x \<and> se_parent (h x) = se_parent x \<and> se_sfq (h x) = se_sfq x \<and>
      my_q (h x) = my_q x) \<Longrightarrow> books (upd_se e h s) = books s"
  "(\<And>td. td_class (g td) = td_class td \<and> td_priority (g td) = td_priority td \<and> p_nice (g td) = p_nice td \<and>
      td_pri_class (g td) = td_pri_class td \<and> td_group (g td) = td_group td \<and> td_state (g td) = td_state td) \<Longrightarrow> books (upd_td t g s) = books s"
  "(\<And>r. rq_nr_running (u r) = rq_nr_running r \<and> rq_nr_sysrunning (u r) = rq_nr_sysrunning r \<and> realtime (u r) = realtime r)
     \<Longrightarrow> books (upd_rq u s) = books s"
  by (simp_all add: books_def ledger_def fun_eq_iff)

lemma books_simple [simp]:
  "books (update_sfq_vtime q s) = books s" "books (charge_curr q c s) = books s"
  "books (fix_user_pri K t s) = books s"
  "books (account_entity_enqueue q e s) = books s" "books (account_entity_dequeue q e s) = books s"
proof -
  show v: "books (update_sfq_vtime q s) = books s" for s :: "'a sched"
    by (simp add: books_def ledger_def)
  have d: "books s' = books s" if "scale_delta d c s = (w, s')" for d w and s s' :: "'a sched"
    using scale_delta_state [of d c s] that by (auto simp: books_upd)
  show "books (charge_curr q c s) = books s"
  proof (cases "clock_thread (rq s) - timing_start (ents s c) = 0")
    case False
    define s1 where "s1 = upd_se c (\<lambda>se. se\<lparr>sum_exec_time := sum_exec_time se + (clock_thread (rq s) - timing_start (ents s c))\<rparr>) s"
    obtain w s2 where s2: "scale_delta (clock_thread (rq s) - timing_start (ents s c)) c s1 = (w, s2)" by fastforce
    have "charge_curr q c s = update_sfq_vtime q
        (upd_se c (\<lambda>se. se\<lparr>vruntime := vruntime se + w, timing_start := clock_thread (rq s)\<rparr>) s2)"
      using s2 False by (simp add: charge_curr_def Let_def s1_def)
    moreover have "books s2 = books s" using d [OF s2] by (simp add: s1_def books_upd)
    ultimately show ?thesis by (simp add: v books_upd)
  qed (simp add: charge_curr_def)
  show "books (fix_user_pri K t s) = books s"
    by (simp add: fix_user_pri_def books_upd)
  show "books (account_entity_enqueue q e s) = books s" "books (account_entity_dequeue q e s) = books s"
    unfolding account_entity_enqueue_def account_entity_dequeue_def Let_def by (auto simp: books_upd)
qed

lemma books_update_curr: "update_curr K q s = Some s' \<Longrightarrow> books s' = books s"
  by (auto simp: update_curr_def split: option.splits if_splits bind_splits)

lemma books_update_sfq_shares: "update_sfq_shares K q s = Some s' \<Longrightarrow> books s' = books s"
  by (auto simp: update_sfq_shares_def update_entity_weight_def Let_def books_upd dest: books_update_curr
      split: option.splits if_splits bind_splits)

lemma books_candidates:
  "clear_skip_candidate e s = Some s' \<Longrightarrow> books s' = books s"
  "clear_next_candidate e s = Some s' \<Longrightarrow> books s' = books s"
  "clear_last_candidate e s = Some s' \<Longrightarrow> books s' = books s"
  "set_next_candidate K e s = Some s' \<Longrightarrow> books s' = books s"
  "set_skip_candidate e s = Some s' \<Longrightarrow> books s' = books s"
  unfolding clear_skip_candidate_def clear_next_candidate_def clear_last_candidate_def set_next_candidate_def
    set_skip_candidate_def each_def
  by (auto simp: books_upd split: bind_splits if_splits prod.splits elim!: walk_same [where f = books])

lemma books_clear_candidates: "clear_candidates q e s = Some s' \<Longrightarrow> books s' = books s"
  by (auto simp: clear_candidates_def dest!: books_candidates split: bind_splits if_splits)

lemma books_timeline:
  "enqueue_timeline q e s = Some s' \<Longrightarrow> books s' = books s"
  "dequeue_timeline q e s = Some s' \<Longrightarrow> books s' = books s"
  by (auto simp: enqueue_timeline_def dequeue_timeline_def Let_def books_upd split: bind_splits if_splits)

lemma books_place_wakeup: "place_entity q e False s = Some s' \<Longrightarrow> books s' = books s"
  by (auto simp: place_entity_wakeup books_upd)

lemma books_add_leaf: "add_leaf_sfq q s = Some s' \<Longrightarrow> books s' = books s"
  by (auto simp: add_leaf_sfq_def books_upd split: bind_splits if_splits option.splits)

section \<open>Operations on the run queue of the kernel\<close>

lemma se_to_tdD: "se_to_td s e = Some t \<Longrightarrow> e = TD_SE t"
  by (auto simp: se_to_td_def split: if_splits eid.splits)

lemma runq_dequeue_books:
  "ledger (runq_dequeue K t e s) = ledger s"
  "runq_laws K C \<Longrightarrow> agree C s \<Longrightarrow> e = TD_SE t \<Longrightarrow> agree C (runq_dequeue K t e s)"
  by (auto simp: runq_dequeue_def ledger_def agree_def runq_laws_def)

lemma set_runq_boost_books:
  assumes "set_runq_boost K e flags s = Some s'"
  shows "ledger s' = ledger s" "runq_laws K C \<Longrightarrow> agree C s \<Longrightarrow> agree C s'"
proof -
  show "ledger s' = ledger s"
    using assms by (auto simp: set_runq_boost_def runq_enqueue_def Let_def ledger_def set_td_state_def fun_eq_iff split: bind_splits if_splits)
  assume K: "runq_laws K C" "agree C s"
  then show "agree C s'"
    using assms by (auto simp: set_runq_boost_def runq_enqueue_def Let_def agree_def runq_laws_def set_td_state_def
        dest!: se_to_tdD split: bind_splits if_splits)
qed

text \<open>The two facts an operation has to give.\<close>

definition keeps :: "'q kern \<Rightarrow> 'q sched \<Rightarrow> 'q sched \<Rightarrow> bool" where
  "keeps K s s' \<longleftrightarrow> ledger s' = ledger s \<and> (\<forall>C. runq_laws K C \<longrightarrow> agree C s \<longrightarrow> agree C s')"

lemma keeps_refl [simp, intro]: "keeps K s s"
  by (simp add: keeps_def)

lemma keeps_trans [trans]: "keeps K s s' \<Longrightarrow> keeps K s' s'' \<Longrightarrow> keeps K s s''"
  by (simp add: keeps_def)

lemma keeps_books:
  assumes "books s' = books s"
  shows "keeps K s s'"
  unfolding keeps_def books_ledger(1) [OF assms] books_ledger(2) [OF assms] by blast

lemma keeps_runq: "keeps K s (runq_dequeue K t (TD_SE t) s)" "set_runq_boost K e flags s = Some s' \<Longrightarrow> keeps K s s'"
proof -
  show "keeps K s (runq_dequeue K t (TD_SE t) s)" by (simp add: keeps_def runq_dequeue_books)
  assume "set_runq_boost K e flags s = Some s'"
  note b = set_runq_boost_books [OF this]
  show "keeps K s s'" unfolding keeps_def using b by blast
qed

text \<open>An operation on one entity changes the state of no thread but that entity's, nor its place on the run queue.\<close>

definition moves :: "'q kern \<Rightarrow> eid \<Rightarrow> 'q sched \<Rightarrow> 'q sched \<Rightarrow> bool" where
  "moves K e s s' \<longleftrightarrow> keeps K s s' \<and> (\<forall>x. e \<noteq> TD_SE x \<longrightarrow> td_state (threads s' x) = td_state (threads s x) \<and>
     onrunq (ents s' (TD_SE x)) = onrunq (ents s (TD_SE x)))"

lemma moves_refl [simp, intro]: "moves K e s s"
  by (simp add: moves_def)

lemma moves_trans [trans]: "moves K e s s' \<Longrightarrow> moves K e s' s'' \<Longrightarrow> moves K e s s''"
  by (auto simp: moves_def intro: keeps_trans)

lemma moves_books: "books s' = books s \<Longrightarrow> moves K e s s'"
  using books_ledger(3,4) [of s' s] by (simp add: moves_def keeps_books)

lemma moves_keeps: "moves K e s s' \<Longrightarrow> keeps K s s'"
  by (simp add: moves_def)

lemma moves_runq: "moves K (TD_SE t) s (runq_dequeue K t (TD_SE t) s)" "set_runq_boost K e flags s = Some s' \<Longrightarrow> moves K e s s'"
proof -
  show "moves K (TD_SE t) s (runq_dequeue K t (TD_SE t) s)" using keeps_runq(1) [of K s t] by (simp add: moves_def runq_dequeue_def)
  assume b: "set_runq_boost K e flags s = Some s'"
  have "td_state (threads s' x) = td_state (threads s x) \<and> onrunq (ents s' (TD_SE x)) = onrunq (ents s (TD_SE x))"
    if "e \<noteq> TD_SE x" for x
    using b that by (auto simp: set_runq_boost_def runq_enqueue_def set_td_state_def Let_def dest!: se_to_tdD split: bind_splits if_splits)
  then show "moves K e s s'" using keeps_runq(2) [OF b] by (simp add: moves_def)
qed

text \<open>The entity of a thread has no queue of its own; put on its queue, the thread is in the state TDS_RUNQ.\<close>

lemma boost_state:
  assumes "set_runq_boost K (TD_SE t) flags s = Some s'" "my_q (ents s (TD_SE t)) = None"
  shows "td_state (threads s' t) = TDS_RUNQ"
  using assms by (auto simp: set_runq_boost_def runq_enqueue_def set_td_state_def entity_is_thread_def Let_def
      dest!: se_to_tdD split: bind_splits if_splits)

lemma books_my_q: "books s' = books s \<Longrightarrow> my_q (ents s' e) = my_q (ents s e)"
  by (auto simp: ledger_def dest!: books_ledger(1) fun_cong [where x = e])

lemma keeps_walk:
  assumes "walkup par body p s = Some (r, s')" "\<And>e s b s'. body e s = Some (b, s') \<Longrightarrow> keeps K (h s) (h s')"
  shows "keeps K (h s) (h s')"
proof (rule walkup_invariant [where I = "\<lambda>st. keeps K (h s) (h st)", OF assms(1)])
  fix e st b st' assume "body e st = Some (b, st')" "keeps K (h s) (h st)"
  then show "keeps K (h s) (h st')" using assms(2) keeps_trans by metis
qed simp

lemma keeps_each:
  assumes "do { (r, s) \<leftarrow> walkup par (each f) p s; Some s } = Some s'" "\<And>e s s'. f e s = Some s' \<Longrightarrow> keeps K s s'"
  shows "keeps K s s'"
proof -
  obtain r where r: "walkup par (each f) p s = Some (r, s')" using assms(1) by (auto split: bind_splits)
  show ?thesis
    by (rule keeps_walk [where h = "\<lambda>s. s", OF r]) (use assms(2) in \<open>auto simp: each_def\<close>)
qed

lemma enqueue_entity_moves:
  assumes "enqueue_entity K q e flags s = Some s'"
  shows "moves K e s s'" "e = TD_SE t \<Longrightarrow> my_q (ents s e) = None \<Longrightarrow> td_state (threads s' t) = TDS_RUNQ"
proof -
  let ?s1 = "if and flags ENQUEUE_WAKEUP = 0 then upd_se e (\<lambda>se. se\<lparr>vruntime := vruntime se + vtime (sfqs s q)\<rparr>) s else s"
  obtain s2 s3 s4 s5 s6 s7 where s: "update_curr K q ?s1 = Some s2"
    "(if and flags ENQUEUE_WAKEUP \<noteq> 0 then place_entity q e False s2 else Some s2) = Some s3"
    "set_runq_boost K e flags s3 = Some s4" "enqueue_timeline q e s4 = Some s5"
    "update_sfq_shares K q (account_entity_enqueue q e s5) = Some s6"
    "(if nr_running (sfqs s6 q) = 1 then add_leaf_sfq q s6 else Some s6) = Some s7"
    "s' = upd_se e (\<lambda>se. se\<lparr>joined := True\<rparr>) s7"
    using assms by (auto simp: enqueue_entity_def Let_def split: bind_splits cong: if_cong)
  have b3: "books s3 = books s"
    using s(2) books_update_curr [OF s(1)] books_place_wakeup [of q e s2] by (auto simp: books_upd split: if_splits)
  then have "moves K e s s3" by (rule moves_books)
  also have "moves K e s3 s4" by (rule moves_runq(2) [OF s(3)])
  also have b4: "books s' = books s4"
    using s(6,7) books_timeline(1) [OF s(4)] books_update_sfq_shares [OF s(5)] books_add_leaf [of q s6]
    by (auto simp: books_upd split: if_splits)
  then have "moves K e s4 s'" by (rule moves_books)
  finally show "moves K e s s'" .
  show "td_state (threads s' t) = TDS_RUNQ" if "e = TD_SE t" "my_q (ents s e) = None"
    using boost_state [OF s(3) [unfolded that(1)]] that books_my_q [OF b3, of e] books_ledger(3) [OF b4] by simp
qed

lemmas moves_enqueue_entity = enqueue_entity_moves(1)

lemmas keeps_enqueue_entity = moves_keeps [OF moves_enqueue_entity]

lemma dequeue_entity_moves:
  assumes "dequeue_entity K q e flags s = Some s'"
  shows "moves K e s s'" "td_state (threads s' x) = td_state (threads s x)"
proof -
  have "moves K e s s' \<and> td_state (threads s' x) = td_state (threads s x)"
  proof (cases "joined (ents s e)")
    case False
    then show ?thesis using assms by (auto simp: dequeue_entity_def split: bind_splits)
  next
    case True
    obtain s1 s2 s3 s4 where s: "update_curr K q s = Some s1"
      "(if entity_is_thread s1 e then do { t \<leftarrow> se_to_td s1 e; Some (runq_dequeue K t e s1) } else Some s1) = Some s2"
      "clear_candidates q e s2 = Some s3" "(if onsfq (ents s3 e) then dequeue_timeline q e s3 else Some s3) = Some s4"
      and r: "(let s = account_entity_dequeue q e s4;
               s = upd_se e (\<lambda>se. se\<lparr>joined := False\<rparr>) s;
               s = (if and flags DEQUEUE_SLEEP = 0
                   then upd_se e (\<lambda>se. se\<lparr>vruntime := vruntime se - vtime (sfqs s q)\<rparr>) s else s);
               s = update_sfq_vtime q s
           in update_sfq_shares K q s) = Some s'"
      using assms True unfolding dequeue_entity_def by (simp add: bind_eq_Some_conv) blast
    have "moves K e s s1" by (rule moves_books) (rule books_update_curr [OF s(1)])
    also have "moves K e s1 s2"
      using s(2) moves_runq(1) [of K _ s1] by (auto dest!: se_to_tdD split: if_splits bind_splits)
    also have b4: "books s4 = books s2"
      using s(4) books_clear_candidates [OF s(3)] books_timeline(2) [of q e s3] by (auto split: if_splits)
    then have "moves K e s2 s4" by (rule moves_books)
    also have b': "books s' = books s4"
      using books_update_sfq_shares [OF r [unfolded Let_def]] by (auto simp: books_upd split: if_splits)
    then have "moves K e s4 s'" by (rule moves_books)
    finally have "moves K e s s'" .
    moreover have "threads s2 = threads s1" using s(2) by (auto simp: runq_dequeue_def split: if_splits bind_splits)
    ultimately show ?thesis
      using books_ledger(3) [OF books_update_curr [OF s(1)]] books_ledger(3) [OF b4] books_ledger(3) [OF b'] by simp
  qed
  then show "moves K e s s'" "td_state (threads s' x) = td_state (threads s x)" by blast+
qed

lemmas moves_dequeue_entity = dequeue_entity_moves(1)

lemmas keeps_dequeue_entity = moves_keeps [OF moves_dequeue_entity]

lemma ledger_ops:
  "update_sfq_shares K q s = Some s' \<Longrightarrow> ledger s' = ledger s"
  "enqueue_entity K q e flags s = Some s' \<Longrightarrow> ledger s' = ledger s"
  "dequeue_entity K q e flags s = Some s' \<Longrightarrow> ledger s' = ledger s"
  by (simp_all add: books_ledger(1) [OF books_update_sfq_shares] keeps_def [THEN iffD1, OF keeps_enqueue_entity]
      keeps_def [THEN iffD1, OF keeps_dequeue_entity])

section \<open>The class operations\<close>

lemma put_prev_entity_moves:
  assumes "put_prev_entity K q e flags s = Some s'"
  shows "moves K e s s'" "e = TD_SE t \<Longrightarrow> my_q (ents s e) = None \<Longrightarrow>
      td_state (threads s' t) = (if joined (ents s e) then TDS_RUNQ else td_state (threads s t))"
proof -
  have "moves K e s s' \<and> (e = TD_SE t \<longrightarrow> my_q (ents s e) = None \<longrightarrow>
      td_state (threads s' t) = (if joined (ents s e) then TDS_RUNQ else td_state (threads s t)))"
  proof (cases "joined (ents s e)")
    case False
    then show ?thesis using assms by (auto simp: put_prev_entity_def books_upd intro!: moves_books)
  next
    case True
    obtain s1 s2 s3 s4 where s: "(if entity_is_thread s e \<and> and flags (SW_TYPE_MASK K) = SWT_RELINQUISH K
                    then set_skip_candidate e s else Some s) = Some s1" "update_curr K q s1 = Some s2"
      "set_runq_boost K e flags s2 = Some s3" "enqueue_timeline q e s3 = Some s4"
      "s' = upd_q q (\<lambda>c. c\<lparr>curr := None\<rparr>) s4"
      using assms True by (auto simp: put_prev_entity_def split: bind_splits)
    have b2: "books s2 = books s"
      using s(1) books_update_curr [OF s(2)] books_candidates(5) [of e s] by (auto split: if_splits)
    then have "moves K e s s2" by (rule moves_books)
    also have "moves K e s2 s3" by (rule moves_runq(2) [OF s(3)])
    also have b': "books s' = books s3" using s(5) books_timeline(1) [OF s(4)] by (simp add: books_upd)
    then have "moves K e s3 s'" by (rule moves_books)
    finally have "moves K e s s'" .
    moreover have "td_state (threads s' t) = TDS_RUNQ" if "e = TD_SE t" "my_q (ents s e) = None"
      using boost_state [OF s(3) [unfolded that(1)]] that books_my_q [OF b2, of e] books_ledger(3) [OF b'] by simp
    ultimately show ?thesis using True by auto
  qed
  then show "moves K e s s'" "e = TD_SE t \<Longrightarrow> my_q (ents s e) = None \<Longrightarrow>
      td_state (threads s' t) = (if joined (ents s e) then TDS_RUNQ else td_state (threads s t))" by blast+
qed

lemmas moves_put_prev_entity = put_prev_entity_moves(1)

lemmas keeps_put_prev_entity = moves_keeps [OF moves_put_prev_entity]

lemma moves_activate_entity:
  assumes "activate_entity K q e s = Some s'"
  shows "moves K e s s'"
proof -
  obtain s1 s2 where s: "(if entity_is_thread s e
          then do { t \<leftarrow> se_to_td s e; Some (runq_dequeue K t e s) } else Some s) = Some s1"
    "dequeue_timeline q e s1 = Some s2"
    and s': "s' = (let s = upd_q q (\<lambda>c. c\<lparr>curr := Some e\<rparr>) s2 in upd_se e (\<lambda>se. se\<lparr>timing_start := clock_thread (rq s),
                            prev_sum_exec_time := sum_exec_time se\<rparr>) s)"
    using assms by (auto simp: activate_entity_def Let_def split: bind_splits)
  have "moves K e s s1"
    using s(1) moves_runq(1) [of K _ s] by (auto dest!: se_to_tdD split: if_splits bind_splits)
  also have "books s' = books s1" using books_timeline(2) [OF s(2)] by (simp add: s' Let_def books_upd)
  then have "moves K e s1 s'" by (rule moves_books)
  finally show ?thesis .
qed

lemmas keeps_activate_entity = moves_keeps [OF moves_activate_entity]

lemma keeps_put_prev: "pss_put_prev_thread K t flags s = Some s' \<Longrightarrow> keeps K s s'"
  unfolding pss_put_prev_thread_def
  by (erule keeps_each) (auto dest: keeps_put_prev_entity split: bind_splits)

lemma keeps_shares_up: "update_shares_up K e s = Some s' \<Longrightarrow> keeps K s s'"
  unfolding update_shares_up_def
  by (erule keeps_each) (auto intro: keeps_books dest: books_update_sfq_shares split: bind_splits)

lemma keeps_activate:
  assumes "pss_activate_thread K t s = Some s'"
  shows "keeps K s s'"
proof -
  define f where "f = (\<lambda>e s. do { q \<leftarrow> se_sfq (ents s e); activate_entity K q e s })"
  obtain s1 where s1: "do { (r, s) \<leftarrow> walkup par_of (each f) (Some (td_to_se t)) s; Some s } = Some s1"
    "s' = set_td_state TDS_RUNNING t s1"
    using assms unfolding pss_activate_thread_def f_def by (auto split: bind_splits)
  have "keeps K s s1"
    by (rule keeps_each [OF s1(1)]) (auto simp: f_def dest: keeps_activate_entity split: bind_splits)
  also have "keeps K s1 s'" by (auto simp: keeps_def s1(2) set_td_state_def ledger_def agree_def fun_eq_iff)
  finally show ?thesis .
qed

text \<open>Enqueueing counts the thread, dequeueing takes it off the count.\<close>

lemma agree_rq_run: "agree C (rq_run_add t s) = agree C s" "rq_run_rem t s = Some s' \<Longrightarrow> agree C s' = agree C s"
  "(\<lambda>x. td_class (threads (rq_run_add t s) x)) = (\<lambda>x. td_class (threads s x))"
  "rq_run_rem t s = Some s' \<Longrightarrow> threads s' = threads s"
  by (auto simp: agree_def rq_run_add_def rq_run_rem_def Let_def frame_simps split: bind_splits if_splits)

lemma keeps_class: "keeps K s s' \<Longrightarrow> td_class (threads s' t) = td_class (threads s t)"
  by (auto simp: keeps_def ledger_def dest: fun_cong)

text \<open>What \<open>sched.c\<close> knows of a thread beside its class, and the level of the processor.\<close>

definition same_standing :: "'q sched \<Rightarrow> 'q sched \<Rightarrow> bool" where
  "same_standing s s' \<longleftrightarrow> root_cpupri s' = root_cpupri s \<and> (\<forall>x. td_priority (threads s' x) = td_priority (threads s x) \<and>
     p_nice (threads s' x) = p_nice (threads s x) \<and> td_pri_class (threads s' x) = td_pri_class (threads s x) \<and>
     td_group (threads s' x) = td_group (threads s x))"

lemma same_standing_refl [simp]: "same_standing s s"
  by (simp add: same_standing_def)

lemma same_standing_trans: "same_standing s s' \<Longrightarrow> same_standing s' s'' \<Longrightarrow> same_standing s s''"
  by (simp add: same_standing_def)

lemma same_standing_threads: "threads s' = threads s \<Longrightarrow> root_cpupri s' = root_cpupri s \<Longrightarrow> same_standing s s'"
  by (simp add: same_standing_def)

lemma keeps_standing: "keeps K s s' \<Longrightarrow> same_standing s s'"
  by (auto simp: keeps_def ledger_def same_standing_def dest: fun_cong)

lemma keeps_curthread: "keeps K s s' \<Longrightarrow> curthread s' = curthread s"
  by (simp add: keeps_def ledger_def)

lemma keeps_agree: "keeps K s s' \<Longrightarrow> runq_laws K C \<Longrightarrow> agree C s \<Longrightarrow> agree C s'"
  by (simp add: keeps_def)

lemma enqueue_thread_keeps:
  assumes "pss_enqueue_thread K t flags s = Some s'"
  shows "td_class (threads s' x) = td_class (threads s x)" "runq_laws K C \<Longrightarrow> agree C s \<Longrightarrow> agree C s'"
    "same_standing s s'"
proof -
  obtain e fl s1 s2 where w: "walkup (\<lambda>(flags, s). par_of s) (\<lambda>e (flags, s).
         if joined (ents s e) then Some (True, flags, s)
         else do { q \<leftarrow> se_sfq (ents s e); s \<leftarrow> enqueue_entity K q e flags s; Some (False, ENQUEUE_WAKEUP, s) })
       (Some (td_to_se t)) (flags, s) = Some (e, fl, s1)" "update_shares_up K e s1 = Some s2" "s' = rq_run_add t s2"
    using assms unfolding pss_enqueue_thread_def by (auto split: bind_splits)
  have "keeps K (snd (flags, s)) (snd (fl, s1))"
    by (rule keeps_walk [where h = snd, OF w(1)]) (auto dest: keeps_enqueue_entity split: bind_splits if_splits)
  then have k: "keeps K s s2" using keeps_shares_up [OF w(2)] keeps_trans by auto
  then show "td_class (threads s' x) = td_class (threads s x)" by (simp add: w(3) keeps_class frame_simps)
  show "runq_laws K C \<Longrightarrow> agree C s \<Longrightarrow> agree C s'" using keeps_agree [OF k] by (simp add: w(3) agree_rq_run(1))
  have "same_standing s2 s'" by (rule same_standing_threads) (simp_all add: w(3) frame_simps, simp add: rq_run_add_def Let_def)
  then show "same_standing s s'" by (rule same_standing_trans [OF keeps_standing [OF k]])
qed

lemma dequeue_thread_keeps:
  assumes "pss_dequeue_thread K t flags s = Some s'"
  shows "td_class (threads s' x) = td_class (threads s x)" "runq_laws K C \<Longrightarrow> agree C s \<Longrightarrow> agree C s'"
    "same_standing s s'"
proof -
  define body where "body = (\<lambda>e (fl, s). do {
         q \<leftarrow> se_sfq (ents s e);
         s \<leftarrow> dequeue_entity K q e fl s;
         if weight (sfq_load (sfqs s q)) \<noteq> 0 then do {
           s \<leftarrow> (case se_parent (ents s e) of
                   Some p \<Rightarrow> if and flags DEQUEUE_SLEEP \<noteq> 0 then set_next_candidate K p s else Some s
                 | None \<Rightarrow> Some s);
           Some (True, fl, s) }
         else Some (False, or fl DEQUEUE_SLEEP, s) })"
  obtain e fl s1 s2 where w: "walkup (\<lambda>(flags, s). par_of s) body (Some (td_to_se t)) (flags, s) = Some (e, fl, s1)"
    "update_shares_up K (case e of None \<Rightarrow> None | Some e \<Rightarrow> se_parent (ents s1 e)) s1 = Some s2" "rq_run_rem t s2 = Some s'"
    using assms unfolding pss_dequeue_thread_def body_def Let_def by (auto split: bind_splits)
  have step: "keeps K (snd st) (snd st')" if "body e st = Some (b, st')" for e st b st'
    using that
    by (auto simp: body_def dest!: keeps_dequeue_entity books_candidates(4) split: bind_splits if_splits prod.splits option.splits
        intro: keeps_trans [OF _ keeps_books])
  have "keeps K (snd (flags, s)) (snd (fl, s1))"
    by (rule keeps_walk [where h = snd, OF w(1)]) (rule step)
  then have k: "keeps K s s2" using keeps_shares_up [OF w(2)] keeps_trans by auto
  then show "td_class (threads s' x) = td_class (threads s x)" by (simp add: agree_rq_run(4) [OF w(3)] keeps_class)
  show "runq_laws K C \<Longrightarrow> agree C s \<Longrightarrow> agree C s'" using keeps_agree [OF k] by (simp add: agree_rq_run(2) [OF w(3)])
  have "same_standing s2 s'" by (rule same_standing_threads)
      (use w(3) in \<open>auto simp: rq_run_rem_def Let_def agree_rq_run(4) [OF w(3)] split: bind_splits if_splits\<close>)
  then show "same_standing s s'" by (rule same_standing_trans [OF keeps_standing [OF k]])
qed

text \<open>The choice changes candidates and cached inverse weights only.\<close>

lemma books_wakeup_preempt:
  assumes "wakeup_preempt_entity c e s = (r, s')"
  shows "books s' = books s"
proof -
  obtain g s1 where g: "scale_delta (wakeup_granularity (tun s)) e s = (g, s1)" by fastforce
  then have "books s1 = books s" using scale_delta_state [of "wakeup_granularity (tun s)" e s] by (auto simp: books_upd)
  moreover have "s' = s \<or> s' = s1"
    using assms g by (auto simp: wakeup_preempt_entity_def wakeup_gran_def Let_def split: if_splits)
  ultimately show ?thesis by auto
qed

lemma books_try_candidate: "try_candidate c f se s = Some (r, s') \<Longrightarrow> books s' = books s"
  by (auto simp: try_candidate_def split: option.splits bind_splits prod.splits dest: books_wakeup_preempt)

lemma books_pick_next_entity:
  assumes "pick_next_entity q s = Some (e, s')"
  shows "books s' = books s"
proof -
  obtain a s1 b s2 c s3 where s: "(if skip (sfqs s q) = pick_first_entity q s
      then do { second \<leftarrow> entity_after q (pick_first_entity q s) s; try_candidate second (pick_first_entity q s) (pick_first_entity q s) s }
      else Some (pick_first_entity q s, s)) = Some (a, s1)"
    "try_candidate (sfq_last (sfqs s1 q)) (pick_first_entity q s) a s1 = Some (b, s2)"
    "try_candidate (sfq_next (sfqs s2 q)) (pick_first_entity q s) b s2 = Some (c, s3)" "clear_candidates q e s3 = Some s'"
    using assms by (auto simp: pick_next_entity_def Let_def bind_eq_Some_conv)
  have "books s1 = books s" using s(1) by (auto dest: books_try_candidate split: if_splits bind_splits)
  then show ?thesis
    using books_try_candidate [OF s(2)] books_try_candidate [OF s(3)] books_clear_candidates [OF s(4)] by simp
qed

lemma books_pick_down:
  assumes "pick_down q s = Some (e, s')"
  shows "books s' = books s"
proof -
  define P where "P = (\<lambda>(q :: qid) (s :: 'a sched) (y :: eid \<times> 'a sched). books (snd y) = books s)"
  have "P q s (e, s')"
  proof (rule pick_down.raw_induct [where P = P, OF _ assms])
    fix pick :: "qid \<Rightarrow> 'a sched \<Rightarrow> (eid \<times> 'a sched) option" and q s y
    assume ih: "\<And>q s y. pick q s = Some y \<Longrightarrow> P q s y"
      and y: "do { (e, s) \<leftarrow> pick_next_entity q s;
        case my_q (ents s e) of None \<Rightarrow> Some (e, s) | Some q' \<Rightarrow> pick q' s } = Some y"
    then obtain e s1 where e: "pick_next_entity q s = Some (e, s1)"
      "(case my_q (ents s1 e) of None \<Rightarrow> Some (e, s1) | Some q' \<Rightarrow> pick q' s1) = Some y"
      by (auto simp: bind_eq_Some_conv)
    have "books s1 = books s" by (rule books_pick_next_entity [OF e(1)])
    moreover have "books (snd y) = books s1"
      using e(2) ih unfolding P_def by (auto split: option.splits)
    ultimately show "P q s y" by (simp add: P_def)
  qed
  then show ?thesis by (simp add: P_def)
qed

lemma books_pick: "pss_pick_next_thread s = Some (r, s') \<Longrightarrow> books s' = books s"
  by (auto simp: pss_pick_next_thread_def bind_eq_Some_conv dest: books_pick_down split: if_splits)

end
