(* ===== verification/Pss_Thread.thy ===== *)
theory Pss_Thread
  imports Pss_Hier Pss_Frame
begin

text \<open>
  Making a thread runnable and taking it off: the walks of \<open>pss_enqueue_thread\<close> and
  \<open>pss_dequeue_thread\<close> over the chain of the thread, with the second walk that refreshes the
  weights of the groups above. Both keep the invariant of the class; the set of runnable threads
  gains, or loses, exactly that thread.
\<close>

section \<open>The weights of the groups above\<close>

text \<open>What the second walk may change: weights of entities, and what charging changes.\<close>

definition reweighed :: "'q sched \<Rightarrow> 'q sched \<Rightarrow> bool" where
  "reweighed s s' \<longleftrightarrow> same_struct s s' \<and> same_cands s s' \<and> same_runq s s' \<and> same_keys s s' \<and> ledger s' = ledger s \<and> same_tw s s'"

lemma reweighed_refl [simp, intro]: "reweighed s s"
  by (simp add: reweighed_def same_cands_def)

lemma reweighed_trans: "reweighed s s' \<Longrightarrow> reweighed s' s'' \<Longrightarrow> reweighed s s''"
  unfolding reweighed_def same_keys_def
  by (metis same_struct_trans same_cands_trans same_runq_trans same_tw_trans same_structD(10))

lemma shares_step:
  assumes inv: "pss_inv X s" and x: "se_sfq (ents s x) = Some q"
  shows "\<exists>s'. update_sfq_shares K q s = Some s' \<and> reweighed s s' \<and> pss_inv X s'"
proof -
  note P = pss_invD [OF inv] and Q = queue_invD [OF pss_invD(1) [OF inv]]
  have M: "y \<in> set (mem X s r) \<Longrightarrow> se_sfq (ents s y) = Some r \<and> (joined (ents s y) \<or> y = x)" for y r
    using queue_mem(1) [OF P(1), of y r] by simp
  from update_sfq_shares_ok [OF Q(8,2,4,5,7) x M queue_mem(2) [OF P(1)], where K = K]
  obtain s' where s': "update_sfq_shares K q s = Some s'" "only_weights s s'" "acct (mem X s) s'" "load_inv s'"
    "\<forall>y. par_of s x \<noteq> Some y \<longrightarrow> weight (se_load (ents s' y)) = weight (se_load (ents s y))"
    "\<forall>p. par_of s x = Some p \<longrightarrow>
       (\<exists>g. sfq_group (sfqs s q) = Some g \<and> weight (se_load (ents s' p)) = sg_shares (groups s g))" by blast
  note W = only_weightsD [OF s'(2)]
  have "queue_inv X s'"
    using Q s'(3,4) cand_inv_less [OF Q(6) same_cands_less [OF W(2)]] inv_same_struct [OF W(1)] by (simp add: queue_inv_def)
  moreover have "wt_inv (mem X s) s'"
    unfolding wt_inv_def
  proof (intro conjI allI ballI impI)
    show "sg_se (groups s' g) \<noteq> None \<Longrightarrow> weight_ok (sg_shares (groups s' g))" for g
      using P(8) by (simp add: wt_inv_def same_structD(2) [OF W(1)])
    fix r y assume y: "y \<in> set (mem X s r)"
    show "weight_ok (weight (se_load (ents s' y)))"
    proof (cases "par_of s x = Some y")
      case True
      then show ?thesis using s'(6) wt_inv_owner [OF P(8,5) x] by auto
    next
      case False
      then show ?thesis using s'(5) P(8) y by (auto simp: wt_inv_def)
    qed
  qed
  ultimately have "pss_inv X s'" by (rule pss_inv_struct(1) [OF inv _ W(1,3)])
  moreover have "same_tw s s'"
    using s'(5) parent_group(2) [OF P(5) x] unfolding same_tw_def by blast
  then have "reweighed s s'" using W ledger_ops(1) [OF s'(1)] by (simp add: reweighed_def)
  ultimately show ?thesis using s'(1) by blast
qed

lemma shares_up_ok:
  assumes inv: "pss_inv X s" and p: "\<And>e. p = Some e \<Longrightarrow> se_sfq (ents s e) \<noteq> None"
  shows "\<exists>s'. update_shares_up K p s = Some s' \<and> reweighed s s' \<and> pss_inv X s'"
proof -
  have D: "se_sfq (ents st x) = se_sfq (ents s x)" "par_of st x = par_of s x" if "reweighed s st" for st x
    using that same_structD by (auto simp: reweighed_def)
  have "\<exists>r s'. walkup par_of (each (\<lambda>e s. do { q \<leftarrow> se_sfq (ents s e); update_sfq_shares K q s })) p s = Some (r, s') \<and>
      (reweighed s s' \<and> pss_inv X s') \<and> (\<forall>e. r = Some e \<longrightarrow> se_sfq (ents s e) \<noteq> None)"
  proof (rule walk_frame [OF pss_invD(5) [OF inv] p])
    show "reweighed s s \<and> pss_inv X s" using inv by simp
    show "\<And>st x. reweighed s st \<and> pss_inv X st \<Longrightarrow> par_of st x = par_of s x" using D by blast
    fix x st assume st: "reweighed s st \<and> pss_inv X st" "se_sfq (ents s x) \<noteq> None"
    then obtain q where q: "se_sfq (ents st x) = Some q" using D [of st] by auto
    from shares_step [OF conjunct2 [OF st(1)] this, where K = K] obtain s' where
      "update_sfq_shares K q st = Some s'" "reweighed st s'" "pss_inv X s'" by blast
    then show "\<exists>b st'. each (\<lambda>e s. do { q \<leftarrow> se_sfq (ents s e); update_sfq_shares K q s }) x st = Some (b, st') \<and>
        reweighed s st' \<and> pss_inv X st'"
      using st(1) q by (auto simp: each_def intro: reweighed_trans)
  qed
  then show ?thesis by (auto simp: update_shares_up_def)
qed

section \<open>Enqueueing a thread\<close>

text \<open>Halfway up the walk the entity \<open>h\<close> ahead may be missing although it has a queued child.\<close>

definition up_but :: "(qid \<Rightarrow> eid list) \<Rightarrow> 'q sched \<Rightarrow> eid option \<Rightarrow> bool" where
  "up_but M s h \<longleftrightarrow> (\<forall>q x p. x \<in> set (M q) \<longrightarrow> par_of s x = Some p \<longrightarrow> (\<exists>q'. p \<in> set (M q')) \<or> h = Some p)"

lemma up_but_None: "up_but M s None = up_inv M s"
  by (simp add: up_but_def up_inv_def)

definition enq_inv :: "(qid \<Rightarrow> eid list) \<Rightarrow> 'q sched \<Rightarrow> eid option \<Rightarrow> bool" where
  "enq_inv X s h \<longleftrightarrow> queue_inv X s \<and> up_but (mem X s) s h \<and> full_inv (mem X s) s \<and> run_inv s \<and> tree_wf s \<and>
     wt_inv (mem X s) s \<and> cur_joined s \<and>
     (\<forall>e. h = Some e \<longrightarrow> weight_ok (weight (se_load (ents s e))) \<and> se_sfq (ents s e) \<noteq> None \<and>
        (joined (ents s e) \<longrightarrow> (\<exists>q. e \<in> set (mem X s q))) \<and> (\<forall>r. my_q (ents s e) = Some r \<longrightarrow> mem X s r \<noteq> []))"

lemma mem_insert:
  assumes X: "X q = ys @ zs" and cur: "\<And>r. curr (sfqs s' r) = curr (sfqs s r)" "\<And>r. curr (sfqs s r) \<noteq> Some e"
    and j: "\<And>x. x \<noteq> e \<Longrightarrow> joined (ents s' x) = joined (ents s x)"
  shows "set (mem (X(q := ys @ e # zs)) s' r) = set (mem X s r) \<union> (if r = q then {e} else {})"
proof -
  have "cur_list s' r = cur_list s r"
  proof (cases "curr (sfqs s r)")
    case (Some c)
    then have "c \<noteq> e" using cur(2) by blast
    then show ?thesis using Some cur(1) j [of c] by (simp add: cur_list_def)
  qed (simp add: cur_list_def cur)
  then show ?thesis using X by (auto simp: mem_def)
qed

lemma cur_joined_not: "cur_joined s \<Longrightarrow> \<not> joined (ents s e) \<Longrightarrow> curr (sfqs s q) \<noteq> Some e"
  unfolding cur_joined_def by blast

lemma enqueue_step:
  assumes inv: "enq_inv X s (Some e)" and nj: "\<not> joined (ents s e)" and q: "se_sfq (ents s e) = Some q"
  shows "\<exists>s' X'. enqueue_entity K q e flags s = Some s' \<and> enq_inv X' s' (par_of s e) \<and> enq_frame e s s' \<and>
    joined (ents s' e) \<and> (\<forall>r. set (mem X' s' r) = set (mem X s r) \<union> (if r = q then {e} else {})) \<and> same_tw s s'"
proof -
  have I: "queue_inv X s" "up_but (mem X s) s (Some e)" "full_inv (mem X s) s" "run_inv s" "tree_wf s"
    "wt_inv (mem X s) s" "cur_joined s" "weight_ok (weight (se_load (ents s e)))"
    "\<And>r. my_q (ents s e) = Some r \<Longrightarrow> mem X s r \<noteq> []"
    using inv by (auto simp: enq_inv_def)
  note wf = queue_invD(8) [OF I(1)]
  note nc = cur_joined_not [OF I(7) nj]
  have rq: "entity_is_thread s e \<Longrightarrow> \<not> onrunq (ents s e)"
    using thread_entity [OF wf] q I(4) nj by (fastforce simp: run_inv_def)
  from enqueue_entity_ok [OF I(1) nj q nc rq, where K = K and flags = flags] obtain s' ys zs where s':
    "enqueue_entity K q e flags s = Some s'" "X q = ys @ zs" "queue_inv (X(q := ys @ e # zs)) s'" "enq_frame e s s'"
    "joined (ents s' e)"
    "\<forall>p. par_of s e \<noteq> Some p \<longrightarrow> weight (se_load (ents s' p)) = weight (se_load (ents s p))"
    "\<forall>p. par_of s e = Some p \<longrightarrow>
       (\<exists>g. sfq_group (sfqs s q) = Some g \<and> weight (se_load (ents s' p)) = sg_shares (groups s g))" by blast
  let ?X = "X(q := ys @ e # zs)"
  have F: "same_static s s'" "\<And>r. curr (sfqs s' r) = curr (sfqs s r)"
    "\<And>x. x \<noteq> e \<Longrightarrow> joined (ents s' x) = joined (ents s x)" "\<And>x. x \<noteq> e \<Longrightarrow> onrunq (ents s' x) = onrunq (ents s x)"
    using s'(4) by (simp_all add: enq_frame_def)
  have S: "par_of s' x = par_of s x" "se_sfq (ents s' x) = se_sfq (ents s x)" "my_q (ents s' x) = my_q (ents s x)"
    "groups s' = groups s" for x using F(1) by (simp_all add: same_static_def)
  have m: "set (mem ?X s' r) = set (mem X s r) \<union> (if r = q then {e} else {})" for r
    by (rule mem_insert [where s = s]) (use s'(2) F nc in auto)
  have sub: "mem X s r \<noteq> [] \<Longrightarrow> mem ?X s' r \<noteq> []" for r using m [of r] by auto
  have up: "up_but (mem ?X s') s' (par_of s e)"
    unfolding up_but_def S
  proof (intro allI impI)
    fix r x p assume x: "x \<in> set (mem ?X s' r)" "par_of s x = Some p"
    show "(\<exists>q'. p \<in> set (mem ?X s' q')) \<or> par_of s e = Some p"
    proof (cases "x \<in> set (mem X s r)")
      case True
      then consider "\<exists>q'. p \<in> set (mem X s q')" | "e = p" using I(2) x(2) unfolding up_but_def by blast
      moreover have "e \<in> set (mem ?X s' q)" "set (mem X s r) \<subseteq> set (mem ?X s' r)" for r using m by simp_all
      ultimately show ?thesis by cases blast+
    next
      case False
      then have "x = e" using x(1) m by (auto split: if_splits)
      then show ?thesis using x(2) by simp
    qed
  qed
  have full: "full_inv (mem ?X s') s'"
    unfolding full_inv_def S
  proof (intro allI impI)
    fix r x p assume x: "x \<in> set (mem ?X s' r)" "my_q (ents s x) = Some p"
    then have "mem X s p \<noteq> []" using I(3,9) m by (cases "x = e") (auto simp: full_inv_def split: if_splits)
    then show "mem ?X s' p \<noteq> []" by (rule sub)
  qed
  have run: "run_inv s'"
    unfolding run_inv_def F(2)
  proof (intro allI impI)
    fix t assume "onrunq (ents s' (TD_SE t))"
    then show "joined (ents s' (TD_SE t)) \<and> (\<forall>q. curr (sfqs s q) \<noteq> Some (TD_SE t))"
      using I(4) F(3,4) s'(5) nc by (cases "TD_SE t = e") (auto simp: run_inv_def)
  qed
  have ow: "weight_ok (weight (se_load (ents s' x)))" if "par_of s e = Some x" for x
    using s'(7) that wt_inv_owner [OF I(6) wf q] by auto
  have wt: "wt_inv (mem ?X s') s'"
    unfolding wt_inv_def S
  proof (intro conjI allI ballI impI)
    show "weight_ok (sg_shares (groups s g))" if "sg_se (groups s g) \<noteq> None" for g using that I(6) by (simp add: wt_inv_def)
    fix r x assume x: "x \<in> set (mem ?X s' r)"
    show "weight_ok (weight (se_load (ents s' x)))"
    proof (cases "par_of s e = Some x")
      case False
      then show ?thesis using s'(6) x m I(6,8) by (auto simp: wt_inv_def split: if_splits)
    qed (rule ow)
  qed
  have cj: "cur_joined s'" using I(7) F(2,3) s'(5) unfolding cur_joined_def by metis
  have hd: "weight_ok (weight (se_load (ents s' p))) \<and> se_sfq (ents s' p) \<noteq> None \<and>
        (joined (ents s' p) \<longrightarrow> (\<exists>q. p \<in> set (mem ?X s' q))) \<and> (\<forall>r. my_q (ents s' p) = Some r \<longrightarrow> mem ?X s' r \<noteq> [])"
    if p: "par_of s e = Some p" for p
  proof -
    note g = parent_group [OF wf q p]
    have "joined (ents s' p) \<Longrightarrow> \<exists>q. p \<in> set (mem ?X s' q)"
      using g(2) queue_invD(7) [OF s'(3)] unfolding group_inv_def by blast
    moreover have "mem ?X s' q \<noteq> []" using m [of q] by auto
    ultimately show ?thesis using ow [OF p] g by (simp add: S)
  qed
  have "enq_inv ?X s' (par_of s e)"
    unfolding enq_inv_def using s'(3) up full run tree_wf_static(1) [OF F(1)] I(5) wt cj hd by simp
  moreover have "same_tw s s'"
    using s'(6) parent_group(2) [OF wf q] unfolding same_tw_def by blast
  ultimately show ?thesis using s'(1,4,5) m by blast
qed

text \<open>The threads the class ledger as runnable.\<close>

definition runnable :: "'q sched \<Rightarrow> tid set" where
  "runnable s = {t. joined (ents s (TD_SE t)) \<and> (\<exists>q. se_sfq (ents s (TD_SE t)) = Some q \<and>
     (onsfq (ents s (TD_SE t)) \<or> curr (sfqs s q) = Some (TD_SE t)))}"

lemma runnable_mem: "queue_inv X s \<Longrightarrow> runnable s = {t. \<exists>q. TD_SE t \<in> set (mem X s q)}"
  by (auto simp: runnable_def queue_mem(1))

definition enq_thread_frame :: "tid \<Rightarrow> 'q sched \<Rightarrow> 'q sched \<Rightarrow> bool" where
  "enq_thread_frame t s s' \<longleftrightarrow> same_static s s' \<and> same_cands s s' \<and> same_keys s s' \<and>
     (\<forall>q. curr (sfqs s' q) = curr (sfqs s q)) \<and> (\<forall>x. joined (ents s x) \<longrightarrow> joined (ents s' x)) \<and>
     (\<forall>x. x \<noteq> t \<longrightarrow> joined (ents s' (TD_SE x)) = joined (ents s (TD_SE x))) \<and>
     (\<forall>x. onsfq (ents s x) \<longrightarrow> onsfq (ents s' x)) \<and>
     tun s' = tun s \<and> curthread s' = curthread s \<and> same_tw s s' \<and>
     (\<forall>x. x \<noteq> t \<longrightarrow> onrunq (ents s' (TD_SE x)) = onrunq (ents s (TD_SE x)))"

lemma enq_thread_frame_refl: "enq_thread_frame t s s"
  by (simp add: enq_thread_frame_def)

lemma enq_frame_thread:
  assumes "enq_thread_frame t s s1" "enq_frame e s1 s2" "joined (ents s2 e)" "e = TD_SE t \<or> (\<exists>n. e = ZONE_SE n)"
    "same_tw s1 s2"
  shows "enq_thread_frame t s s2"
proof -
  have A: "same_static s s1" "same_cands s s1" "same_keys s s1" "\<And>q. curr (sfqs s1 q) = curr (sfqs s q)"
    "\<And>x. joined (ents s x) \<Longrightarrow> joined (ents s1 x)" "\<And>x. onsfq (ents s x) \<Longrightarrow> onsfq (ents s1 x)"
    "\<And>x. x \<noteq> t \<Longrightarrow> joined (ents s1 (TD_SE x)) = joined (ents s (TD_SE x))" "tun s1 = tun s" "curthread s1 = curthread s" "same_tw s s1"
    "\<And>x. x \<noteq> t \<Longrightarrow> onrunq (ents s1 (TD_SE x)) = onrunq (ents s (TD_SE x))"
    using assms(1) by (simp_all add: enq_thread_frame_def)
  have B: "same_static s1 s2" "same_cands s1 s2" "same_keys s1 s2" "\<And>q. curr (sfqs s2 q) = curr (sfqs s1 q)"
    "\<And>x. x \<noteq> e \<Longrightarrow> joined (ents s2 x) = joined (ents s1 x) \<and> onsfq (ents s2 x) = onsfq (ents s1 x)"
    "onsfq (ents s2 e)" "tun s2 = tun s1" "curthread s2 = curthread s1"
    "\<And>x. x \<noteq> e \<Longrightarrow> onrunq (ents s2 x) = onrunq (ents s1 x)"
    using assms(2) by (simp_all add: enq_frame_def)
  have j: "joined (ents s1 x) \<Longrightarrow> joined (ents s2 x)" "onsfq (ents s1 x) \<Longrightarrow> onsfq (ents s2 x)" for x
    using B(5) [of x] B(6) assms(3) by (cases "x = e"; simp)+
  have t: "x \<noteq> t \<Longrightarrow> TD_SE x \<noteq> e" for x using assms(4) by auto
  have k: "same_keys s s2" using A(3,6) B(3) by (simp add: same_keys_def)
  show ?thesis
    unfolding enq_thread_frame_def
    using same_static_trans [OF A(1) B(1)] same_cands_trans [OF A(2) B(2)] same_tw_trans [OF A(10) assms(5)] k A B j t by simp
qed

lemma enqueue_thread_ok:
  assumes inv: "pss_inv X s" and cj: "cur_joined s" and nj: "\<not> joined (ents s (TD_SE t))"
    and q: "se_sfq (ents s (TD_SE t)) = Some q" and w: "weight_ok (weight (se_load (ents s (TD_SE t))))"
  shows "\<exists>s' X'. pss_enqueue_thread K t flags s = Some s' \<and> pss_inv X' s' \<and> cur_joined s' \<and>
    enq_thread_frame t s s' \<and> joined (ents s' (TD_SE t)) \<and> runnable s' = insert t (runnable s) \<and>
    rq_nr_running (rq s') = rq_nr_running (rq s) + 1"
proof -
  note P = pss_invD [OF inv]
  obtain es where es: "chain (par_of s) (Some (TD_SE t)) es" using hier_chain [OF P(5)] by blast
  define J where "J = (\<lambda>as (fl :: u32, st). \<exists>X'. enq_inv X' st (head_opt as) \<and> enq_thread_frame t s st \<and> ledger st = ledger s \<and>
    (head_opt as = Some (TD_SE t) \<and> runnable st = runnable s \<and> \<not> joined (ents st (TD_SE t)) \<or>
     (\<forall>e. head_opt as = Some e \<longrightarrow> (\<exists>n. e = ZONE_SE n)) \<and> runnable st = insert t (runnable s) \<and> joined (ents st (TD_SE t))))"
  define Q where "Q = (\<lambda>r (fl :: u32, st). \<exists>X'. pss_inv X' st \<and> cur_joined st \<and> enq_thread_frame t s st \<and> ledger st = ledger s \<and>
    runnable st = insert t (runnable s) \<and> joined (ents st (TD_SE t)) \<and> (\<forall>e. r = Some e \<longrightarrow> se_sfq (ents st e) \<noteq> None))"
  define body where "body = (\<lambda>e (fl, s). if joined (ents s e) then Some (True, fl, s)
         else do { q \<leftarrow> se_sfq (ents s e); s \<leftarrow> enqueue_entity K q e fl s; Some (False, ENQUEUE_WAKEUP, s) })"
  have "\<exists>r st. walkup (\<lambda>(flags, s). par_of s) body (Some (TD_SE t)) (flags, s) = Some (r, st) \<and> Q r st"
  proof (rule walk_chain [where s = s and J = J and p = "Some (TD_SE t)" and al = es])
    show "chain (par_of s) (Some (TD_SE t)) es" by (rule es)
    have h: "head_opt es = Some (TD_SE t)" using chain_head [OF es] by simp
    have "up_but (mem X s) s (Some (TD_SE t))" using P(2) by (auto simp: up_but_def up_inv_def)
    then have "enq_inv X s (Some (TD_SE t))"
      using P cj nj q w hier_td [OF P(5)] by (simp add: enq_inv_def)
    then show "J es (flags, s)" using h nj by (auto simp: J_def enq_thread_frame_refl)
  next
    fix e as st
    assume ch: "chain (par_of s) (Some e) (e # as)" and J: "J (e # as) st"
    obtain fl s1 where st: "st = (fl, s1)" by (cases st)
    from J obtain X1 where X1: "enq_inv X1 s1 (Some e)" "enq_thread_frame t s s1" "ledger s1 = ledger s"
      "e = TD_SE t \<and> runnable s1 = runnable s \<and> \<not> joined (ents s1 (TD_SE t)) \<or>
       (\<exists>n. e = ZONE_SE n) \<and> runnable s1 = insert t (runnable s) \<and> joined (ents s1 (TD_SE t))"
      unfolding J_def st by auto
    have stat: "same_static s s1" using X1(2) by (simp add: enq_thread_frame_def)
    show "\<exists>b st'. body e st = Some (b, st') \<and> (case st' of (fl, s) \<Rightarrow> par_of s) e = par_of s e \<and>
        (if b then Q (Some e) st' else J as st')"
    proof (cases "joined (ents s1 e)")
      case True
      then obtain r where "e \<in> set (mem X1 s1 r)" using X1(1) unfolding enq_inv_def by blast
      then have "up_inv (mem X1 s1) s1" using X1(1) unfolding enq_inv_def up_but_def up_inv_def by blast
      then have "pss_inv X1 s1" using X1(1) by (simp add: enq_inv_def pss_inv_def)
      moreover have "runnable s1 = insert t (runnable s)" "joined (ents s1 (TD_SE t))" using X1(4) True by auto
      ultimately have "Q (Some e) (fl, s1)" using X1(1-3) by (auto simp: Q_def enq_inv_def)
      moreover have "par_of s1 e = par_of s e" using stat by (simp add: same_static_def)
      ultimately show ?thesis using True by (auto simp: body_def st)
    next
      case False
      have "se_sfq (ents s1 e) \<noteq> None" using X1(1) unfolding enq_inv_def by blast
      then obtain r where r: "se_sfq (ents s1 e) = Some r" by blast
      from enqueue_step [OF X1(1) False r, where K = K and flags = fl] obtain s2 X2 where s2:
        "enqueue_entity K r e fl s1 = Some s2" "enq_inv X2 s2 (par_of s1 e)" "enq_frame e s1 s2" "joined (ents s2 e)"
        "\<forall>q. set (mem X2 s2 q) = set (mem X1 s1 q) \<union> (if q = r then {e} else {})" "same_tw s1 s2" by blast
      have fr: "enq_thread_frame t s s2" by (rule enq_frame_thread [OF X1(2) s2(3,4) _ s2(6)]) (use X1(4) in blast)
      have stat2: "same_static s s2" using fr by (simp add: enq_thread_frame_def)
      have hd: "par_of s1 e = head_opt as" using ch chain_head [of "par_of s" "par_of s e" as] stat by (simp add: same_static_def)
      have "runnable s2 = (case e of TD_SE x \<Rightarrow> insert x (runnable s1) | ZONE_SE n \<Rightarrow> runnable s1)"
        using s2(2,5) X1(1) by (auto simp: runnable_mem [of X2] runnable_mem [of X1] enq_inv_def split: eid.splits if_splits)
      then have "runnable s2 = insert t (runnable s)" using X1(4) by auto
      moreover have "joined (ents s2 (TD_SE t))" using X1(4) s2(3,4) by (auto simp: enq_frame_def)
      moreover have "\<exists>n. p = ZONE_SE n" if "head_opt as = Some p" for p
      proof (rule parent_group(2))
        show "hier_wf s1" using X1(1) by (simp add: enq_inv_def queue_inv_def)
      qed (use r hd that in simp_all)
      moreover have "ledger s2 = ledger s" using ledger_ops(2) [OF s2(1)] X1(3) by simp
      ultimately have "J as (ENQUEUE_WAKEUP, s2)" using s2(2) fr by (auto simp: J_def hd)
      moreover have "par_of s2 e = par_of s e" using stat2 by (simp add: same_static_def)
      ultimately show ?thesis using False r s2(1) by (auto simp: body_def st)
    qed
  next
    fix st assume "J [] st"
    then show "Q None st" by (auto simp: J_def Q_def enq_inv_def pss_inv_def up_but_None split: prod.splits)
  qed
  then obtain r fl st X1 where st: "walkup (\<lambda>(flags, s). par_of s) body (Some (TD_SE t)) (flags, s) = Some (r, fl, st)"
    "pss_inv X1 st" "cur_joined st" "enq_thread_frame t s st" "ledger st = ledger s" "runnable st = insert t (runnable s)"
    "joined (ents st (TD_SE t))" "\<And>e. r = Some e \<Longrightarrow> se_sfq (ents st e) \<noteq> None" unfolding Q_def by fastforce
  from shares_up_ok [OF st(2,8), where K = K] obtain s2 where s2:
    "update_shares_up K r st = Some s2" "reweighed st s2" "pss_inv X1 s2" by blast
  have R: "same_struct st s2" "same_cands st s2" "same_runq st s2" "same_keys st s2" "ledger s2 = ledger st" "same_tw st s2"
    using s2(2) by (simp_all add: reweighed_def)
  note D = same_structD [OF R(1)]
  let ?s = "rq_run_add t s2"
  have core: "same_core s2 ?s" "same_runq s2 ?s"
    by (auto simp: same_core_def same_runq_def frame_simps) (simp add: rq_run_add_def Let_def)
  note N = pss_inv_same [OF s2(3) core]
  have "cur_joined ?s" using st(3) by (simp add: cur_joined_def frame_simps D)
  moreover have "enq_thread_frame t s ?s"
  proof -
    have "same_static st ?s" using same_struct_static [OF R(1)] by (simp add: same_static_def frame_simps)
    moreover have "same_cands st ?s" using R(2) by (simp add: same_cands_def frame_simps)
    moreover have "\<forall>x. x \<noteq> t \<longrightarrow> onrunq (ents ?s (TD_SE x)) = onrunq (ents s (TD_SE x))"
      using st(4) R(3) by (simp add: enq_thread_frame_def same_runq_def frame_simps)
    moreover have "same_tw s ?s" using st(4) R(6) by (simp add: enq_thread_frame_def same_tw_def frame_simps)
    moreover have "same_keys s ?s" using st(4) R(4) by (simp add: enq_thread_frame_def same_keys_def frame_simps)
    ultimately show ?thesis
      using st(4) same_static_trans same_cands_trans
      by (auto simp: enq_thread_frame_def frame_simps D)
  qed
  moreover have "runnable ?s = insert t (runnable s)"
    using st(6) by (simp add: runnable_def frame_simps D)
  moreover have "rq_nr_running (rq ?s) = rq_nr_running (rq s) + 1"
    using R(5) st(5) by (simp add: rq_run_add_def ledger_def Let_def)
  moreover have "pss_enqueue_thread K t flags s = Some ?s"
    using st(1) s2(1) by (simp add: pss_enqueue_thread_def td_to_se_def body_def)
  ultimately show ?thesis using N(1) st(7) by (intro exI [of _ ?s] exI [of _ X1]) (simp add: frame_simps D)
qed

section \<open>Dequeueing a thread\<close>

text \<open>
  The walk stops where the load of the queue is not zero. Loads are 64-bit sums, which do not wrap
  while the members of a queue are fewer than \<open>2 ^ 45\<close>; then a zero load means an empty queue.
\<close>

definition short_lists :: "(qid \<Rightarrow> eid list) \<Rightarrow> bool" where
  "short_lists M \<longleftrightarrow> (\<forall>q. length (M q) < 2 ^ 45)"

lemma wsum_bounds:
  assumes "\<forall>e\<in>set es. weight_ok (weight (se_load (ents s e)))" "length es < 2 ^ 45"
  shows "length es \<le> unat (wsum s es) \<and> unat (wsum s es) \<le> 262144 * length es"
  using assms
proof (induction es)
  case (Cons e es)
  then have ih: "length es \<le> unat (wsum s es)" "unat (wsum s es) \<le> 262144 * length es" by simp_all
  have "0 < uint (weight (se_load (ents s e)))" "uint (weight (se_load (ents s e))) \<le> 262144"
    using Cons.prems(1) by (simp_all add: weight_ok_def)
  then have w: "1 \<le> unat (weight (se_load (ents s e)))" "unat (weight (se_load (ents s e))) \<le> 262144"
    unfolding unat_eq_nat_uint by linarith+
  have "unat (weight (se_load (ents s e))) + unat (wsum s es) < 2 ^ 64"
    using w ih Cons.prems(2) by simp
  then have "unat (weight (se_load (ents s e)) + wsum s es) = unat (weight (se_load (ents s e))) + unat (wsum s es)"
    by (subst unat_add_lem [symmetric]) simp
  then show ?case using w ih by simp
qed simp

lemma wsum_zero:
  assumes "\<forall>e\<in>set es. weight_ok (weight (se_load (ents s e)))" "length es < 2 ^ 45"
  shows "wsum s es = 0 \<longleftrightarrow> es = []"
proof
  assume "wsum s es = 0"
  then show "es = []" using wsum_bounds [OF assms] by simp
qed simp

text \<open>Halfway up the walk the group entity \<open>h\<close> ahead may be a member although its queue is empty.\<close>

definition full_but :: "(qid \<Rightarrow> eid list) \<Rightarrow> 'q sched \<Rightarrow> eid option \<Rightarrow> bool" where
  "full_but M s h \<longleftrightarrow> (\<forall>q x r. x \<in> set (M q) \<longrightarrow> my_q (ents s x) = Some r \<longrightarrow> M r \<noteq> [] \<or> h = Some x)"

definition deq_inv :: "(qid \<Rightarrow> eid list) \<Rightarrow> 'q sched \<Rightarrow> eid option \<Rightarrow> bool" where
  "deq_inv X s h \<longleftrightarrow> queue_inv X s \<and> up_inv (mem X s) s \<and> full_but (mem X s) s h \<and> run_inv s \<and> tree_wf s \<and>
     wt_inv (mem X s) s \<and> short_lists (mem X s) \<and>
     (\<forall>e. h = Some e \<longrightarrow> (\<exists>q. e \<in> set (mem X s q)) \<and> (\<forall>r. my_q (ents s e) = Some r \<longrightarrow> mem X s r = []))"

lemma deq_inv_pss: "deq_inv X s None \<Longrightarrow> pss_inv X s"
  by (simp add: deq_inv_def pss_inv_def full_but_def full_inv_def)

definition deq_thread_frame :: "tid \<Rightarrow> 'q sched \<Rightarrow> 'q sched \<Rightarrow> bool" where
  "deq_thread_frame t s s' \<longleftrightarrow> same_static s s' \<and>
     (\<forall>q. curr (sfqs s' q) = curr (sfqs s q)) \<and> (\<forall>x. joined (ents s' x) \<longrightarrow> joined (ents s x)) \<and>
     (\<forall>x. x \<noteq> t \<longrightarrow> joined (ents s' (TD_SE x)) = joined (ents s (TD_SE x))) \<and>
     (\<forall>x. onsfq (ents s' x) \<longrightarrow> onsfq (ents s x) \<and> vruntime (ents s' x) = vruntime (ents s x)) \<and>
     tun s' = tun s \<and> curthread s' = curthread s \<and> same_tw s s'"

lemma deq_frame_thread:
  assumes "deq_thread_frame t s s1" "deq_frame e s1 s2" "e = TD_SE t \<or> (\<exists>n. e = ZONE_SE n)" "same_tw s1 s2"
  shows "deq_thread_frame t s s2"
proof -
  have A: "same_static s s1" "\<And>q. curr (sfqs s1 q) = curr (sfqs s q)"
    "\<And>x. joined (ents s1 x) \<Longrightarrow> joined (ents s x)"
    "\<And>x. onsfq (ents s1 x) \<Longrightarrow> onsfq (ents s x) \<and> vruntime (ents s1 x) = vruntime (ents s x)"
    "\<And>x. x \<noteq> t \<Longrightarrow> joined (ents s1 (TD_SE x)) = joined (ents s (TD_SE x))" "tun s1 = tun s" "curthread s1 = curthread s" "same_tw s s1"
    using assms(1) by (simp_all add: deq_thread_frame_def)
  have B: "same_static s1 s2" "\<And>q. curr (sfqs s2 q) = curr (sfqs s1 q)"
    "\<And>x. x \<noteq> e \<Longrightarrow> joined (ents s2 x) = joined (ents s1 x) \<and> onsfq (ents s2 x) = onsfq (ents s1 x)"
    "\<And>x. x \<noteq> e \<Longrightarrow> onsfq (ents s1 x) \<Longrightarrow> vruntime (ents s2 x) = vruntime (ents s1 x)"
    "\<not> onsfq (ents s2 e)" "\<not> joined (ents s2 e)" "tun s2 = tun s1" "curthread s2 = curthread s1"
    using assms(2) by (simp_all add: deq_frame_def)
  have j: "joined (ents s2 x) \<Longrightarrow> joined (ents s x)"
    "onsfq (ents s2 x) \<Longrightarrow> onsfq (ents s x) \<and> vruntime (ents s2 x) = vruntime (ents s x)" for x
  proof -
    show "joined (ents s2 x) \<Longrightarrow> joined (ents s x)"
      using A(3) B(3) [of x] B(6) by (cases "x = e") simp_all
    assume x: "onsfq (ents s2 x)"
    then have ne: "x \<noteq> e" using B(5) by blast
    then have "onsfq (ents s1 x)" using x B(3) by blast
    then show "onsfq (ents s x) \<and> vruntime (ents s2 x) = vruntime (ents s x)"
      using A(4) [of x] B(4) [OF ne] by simp
  qed
  have t: "x \<noteq> t \<Longrightarrow> TD_SE x \<noteq> e" for x using assms(3) by auto
  show ?thesis
    unfolding deq_thread_frame_def
  proof (intro conjI allI impI)
    show "same_static s s2" by (rule same_static_trans [OF A(1) B(1)])
    show "same_tw s s2" by (rule same_tw_trans [OF A(8) assms(4)])
    show "joined (ents s2 (TD_SE x)) = joined (ents s (TD_SE x))" if "x \<noteq> t" for x
      using A(5) [OF that] B(3) [OF t [OF that]] by simp
  qed (use A(2,6,7) B(2,7,8) j in simp_all)
qed

lemma dequeue_step:
  assumes inv: "deq_inv X s (Some e)" and q: "e \<in> set (mem X s q)"
  shows "\<exists>s' X'. dequeue_entity K q e flags s = Some s' \<and> queue_inv X' s' \<and> deq_frame e s s' \<and>
    mem X' s' = (mem X s)(q := remove1 e (mem X s q)) \<and>
    (weight (sfq_load (sfqs s' q)) = 0 \<longleftrightarrow> mem X' s' q = []) \<and>
    (mem X' s' q \<noteq> [] \<longrightarrow> deq_inv X' s' None) \<and> (mem X' s' q = [] \<longrightarrow> deq_inv X' s' (par_of s e)) \<and>
    (\<forall>p. par_of s e = Some p \<longrightarrow> (\<exists>r. p \<in> set (mem X' s' r))) \<and> same_tw s s'"
proof -
  have I: "queue_inv X s" "up_inv (mem X s) s" "full_but (mem X s) s (Some e)" "run_inv s" "tree_wf s"
    "wt_inv (mem X s) s" "short_lists (mem X s)" "\<And>r. my_q (ents s e) = Some r \<Longrightarrow> mem X s r = []"
    using inv by (auto simp: deq_inv_def)
  note wf = queue_invD(8) [OF I(1)]
  have eq: "se_sfq (ents s e) = Some q" using queue_mem(1) [OF I(1), of e q] q by simp
  let ?X = "X(q := remove1 e (X q))"
  from dequeue_entity_ok [OF I(1) q, where K = K and flags = flags] obtain s' where s':
    "dequeue_entity K q e flags s = Some s'" "queue_inv ?X s'" "deq_frame e s s'"
    "mem ?X s' = (mem X s)(q := remove1 e (mem X s q))"
    "\<forall>p. par_of s e \<noteq> Some p \<longrightarrow> weight (se_load (ents s' p)) = weight (se_load (ents s p))"
    "\<forall>p. par_of s e = Some p \<longrightarrow>
       (\<exists>g. sfq_group (sfqs s q) = Some g \<and> weight (se_load (ents s' p)) = sg_shares (groups s g))" by blast
  have F: "same_static s s'" "\<And>r. curr (sfqs s' r) = curr (sfqs s r)"
    "\<And>x. x \<noteq> e \<Longrightarrow> joined (ents s' x) = joined (ents s x) \<and> onrunq (ents s' x) = onrunq (ents s x)"
    "entity_is_thread s e \<Longrightarrow> \<not> onrunq (ents s' e)" "\<not> joined (ents s' e)"
    using s'(3) by (simp_all add: deq_frame_def)
  have S: "par_of s' x = par_of s x" "my_q (ents s' x) = my_q (ents s x)" "groups s' = groups s"
    "se_sfq (ents s' x) = se_sfq (ents s x)" for x using F(1) by (simp_all add: same_static_def)
  have d: "distinct (mem X s q)" by (rule queue_mem(2) [OF I(1)])
  have m: "x \<in> set (mem ?X s' r) \<longleftrightarrow> x \<in> set (mem X s r) \<and> x \<noteq> e" for x r
    using d queue_mem(1) [OF I(1), of e r] eq by (auto simp: s'(4))
  have sfq: "x \<in> set (mem X s r) \<Longrightarrow> se_sfq (ents s x) = Some r" for x r
    using queue_mem(1) [OF I(1), of x r] by simp
  have up: "up_inv (mem ?X s') s'"
    unfolding up_inv_def S m
  proof (intro allI impI)
    fix r x p assume x: "x \<in> set (mem X s r) \<and> x \<noteq> e" "par_of s x = Some p"
    have "p \<noteq> e"
    proof
      assume "p = e"
      then have "my_q (ents s e) = Some r" using parent_group(1) [OF wf sfq x(2)] x(1) by blast
      then show False using I(8) x(1) by force
    qed
    then show "\<exists>q'. p \<in> set (mem X s q') \<and> p \<noteq> e" using I(2) x unfolding up_inv_def by blast
  qed
  have run: "run_inv s'"
    unfolding run_inv_def F(2)
  proof (intro allI impI)
    fix t assume t: "onrunq (ents s' (TD_SE t))"
    then have "TD_SE t \<noteq> e" using F(4) hier_td [OF wf] by (auto simp: entity_is_thread_def)
    then show "joined (ents s' (TD_SE t)) \<and> (\<forall>q. curr (sfqs s q) \<noteq> Some (TD_SE t))"
      using I(4) F(3) t by (simp add: run_inv_def)
  qed
  have wt: "wt_inv (mem ?X s') s'"
    unfolding wt_inv_def S
  proof (intro conjI allI ballI impI)
    show "weight_ok (sg_shares (groups s g))" if "sg_se (groups s g) \<noteq> None" for g using that I(6) by (simp add: wt_inv_def)
    fix r x assume x: "x \<in> set (mem ?X s' r)"
    show "weight_ok (weight (se_load (ents s' x)))"
    proof (cases "par_of s e = Some x")
      case True
      then show ?thesis using s'(6) wt_inv_owner [OF I(6) wf eq] by auto
    next
      case False
      then show ?thesis using s'(5) x m I(6) by (simp add: wt_inv_def) blast
    qed
  qed
  have len: "short_lists (mem ?X s')"
  proof -
    have "length (mem ?X s' r) \<le> length (mem X s r)" for r by (simp add: s'(4) length_remove1)
    then show ?thesis using I(7) unfolding short_lists_def using le_less_trans by blast
  qed
  have load: "weight (sfq_load (sfqs s' q)) = 0 \<longleftrightarrow> mem ?X s' q = []"
  proof -
    have "weight (sfq_load (sfqs s' q)) = wsum s' (mem ?X s' q)" using queue_invD(4) [OF s'(2)] by (simp add: acct_def)
    then show ?thesis using wsum_zero [of "mem ?X s' q" s'] wt len by (simp add: wt_inv_def short_lists_def)
  qed
  have other: "mem ?X s' r = mem X s r" if "r \<noteq> q" for r using that by (simp add: s'(4))
  have owner: "par_of s e = Some x" if "x \<in> set (mem X s r)" "my_q (ents s x) = Some q" for x r
    using owner_parent [OF wf I(5) _ that(2) eq] sfq [OF that(1)] by simp
  have base: "queue_inv ?X s' \<and> up_inv (mem ?X s') s' \<and> run_inv s' \<and> tree_wf s' \<and> wt_inv (mem ?X s') s' \<and>
      short_lists (mem ?X s')"
    using s'(2) up run wt len I(5) tree_wf_static(1) [OF F(1)] by simp
  have full: "mem ?X s' p \<noteq> []" if "x \<in> set (mem ?X s' r)" "my_q (ents s x) = Some p" "p \<noteq> q" for x r p
    using that m I(3) other unfolding full_but_def by force
  have par: "\<exists>r. p \<in> set (mem ?X s' r)" if p: "par_of s e = Some p" for p
  proof -
    have "p \<noteq> e" using no_self_parent [OF wf] p by metis
    then show ?thesis using I(2) q p m unfolding up_inv_def by blast
  qed
  have "deq_inv ?X s' None" if "mem ?X s' q \<noteq> []"
    using base full that unfolding deq_inv_def full_but_def S by blast
  moreover have "deq_inv ?X s' (par_of s e)" if e: "mem ?X s' q = []"
  proof -
    have "full_but (mem ?X s') s' (par_of s e)"
      unfolding full_but_def S
    proof (intro allI impI)
      fix r x p assume "x \<in> set (mem ?X s' r)" "my_q (ents s x) = Some p"
      then show "mem ?X s' p \<noteq> [] \<or> par_of s e = Some x" using full owner m by (cases "p = q") blast+
    qed
    moreover have "my_q (ents s p) = Some q" if "par_of s e = Some p" for p by (rule parent_group(1) [OF wf eq that])
    ultimately show ?thesis using base par e unfolding deq_inv_def S by (metis option.inject)
  qed
  moreover have "same_tw s s'"
    using s'(5) parent_group(2) [OF wf eq] unfolding same_tw_def by blast
  ultimately show ?thesis using s'(1-4) load par by blast
qed

lemma pss_inv_cands:
  assumes inv: "pss_inv X s" and c: "only_cands s s'" "cand_inv (mem X s) s'"
  shows "pss_inv X s'"
proof -
  note P = pss_invD [OF inv] and C = only_candsD [OF c(1)]
  note Q = queue_invD [OF P(1)]
  have "queue_inv X s'"
    using Q c(2) inv_same_struct [OF C(4)] acct_same [OF C(4,5)] by (simp add: queue_inv_def)
  moreover have "same_runq s s'" by (simp add: same_runq_def C(1))
  moreover have "wt_inv (mem X s) s'" using P(8) by (simp add: wt_inv_def C(1) same_structD(2) [OF C(4)])
  ultimately show ?thesis using pss_inv_struct(1) [OF inv _ C(4)] by blast
qed

lemma only_cands_deq:
  assumes "deq_thread_frame t s s1" "only_cands s1 s2"
  shows "deq_thread_frame t s s2"
proof -
  note C = only_candsD [OF assms(2)]
  show ?thesis
    using assms(1) same_static_trans [OF _ same_struct_static [OF C(4)], of s] same_structD [OF C(4)]
    by (simp add: deq_thread_frame_def C(1) same_tw_def)
qed

lemma runnable_cands: "only_cands s s' \<Longrightarrow> runnable s' = runnable s"
  by (simp add: runnable_def only_candsD(1) same_structD(7) [OF only_candsD(4)])

lemma dequeue_thread_ok:
  assumes inv: "pss_inv X s" and t: "t \<in> runnable s" and len: "short_lists (mem X s)" and nr: "rq_nr_running (rq s) \<noteq> 0"
  shows "\<exists>s' X'. pss_dequeue_thread K t flags s = Some s' \<and> pss_inv X' s' \<and>
    deq_thread_frame t s s' \<and> \<not> joined (ents s' (TD_SE t)) \<and> runnable s' = runnable s - {t} \<and>
    rq_nr_running (rq s') = rq_nr_running (rq s) - 1"
proof -
  note P = pss_invD [OF inv]
  obtain es where es: "chain (par_of s) (Some (TD_SE t)) es" using hier_chain [OF P(5)] by blast
  have tm: "\<exists>q. TD_SE t \<in> set (mem X s q)" using t runnable_mem [OF P(1)] by blast
  define gone where "gone = (\<lambda>st :: 'a sched. deq_thread_frame t s st \<and> ledger st = ledger s \<and>
    runnable st = runnable s - {t} \<and> \<not> joined (ents st (TD_SE t)))"
  define J where "J = (\<lambda>as (fl :: u32, st). \<exists>X'. deq_inv X' st (head_opt as) \<and> deq_thread_frame t s st \<and>
    (head_opt as = Some (TD_SE t) \<and> st = s \<or>
     (\<forall>e. head_opt as = Some e \<longrightarrow> (\<exists>n. e = ZONE_SE n)) \<and> gone st))"
  define Q where "Q = (\<lambda>r (fl :: u32, st). \<exists>X'. pss_inv X' st \<and> gone st \<and> (\<forall>e. r = Some e \<longrightarrow> se_sfq (ents st e) \<noteq> None))"
  define body where "body = (\<lambda>e (fl, s). do {
         q \<leftarrow> se_sfq (ents s e);
         s \<leftarrow> dequeue_entity K q e fl s;
         if weight (sfq_load (sfqs s q)) \<noteq> 0 then do {
           s \<leftarrow> (case se_parent (ents s e) of
                   Some p \<Rightarrow> if and flags DEQUEUE_SLEEP \<noteq> 0 then set_next_candidate K p s else Some s
                 | None \<Rightarrow> Some s);
           Some (True, fl, s) }
         else Some (False, or fl DEQUEUE_SLEEP, s) })"
  have "\<exists>r st. walkup (\<lambda>(flags, s). par_of s) body (Some (TD_SE t)) (flags, s) = Some (r, st) \<and> Q r st"
  proof (rule walk_chain [where s = s and J = J and p = "Some (TD_SE t)" and al = es])
    show "chain (par_of s) (Some (TD_SE t)) es" by (rule es)
    have h: "head_opt es = Some (TD_SE t)" using chain_head [OF es] by simp
    have "deq_inv X s (Some (TD_SE t))"
      using P tm len hier_td [OF P(5)] by (simp add: deq_inv_def full_but_def full_inv_def)
    moreover have "deq_thread_frame t s s" by (simp add: deq_thread_frame_def)
    ultimately show "J es (flags, s)" using h by (auto simp: J_def)
  next
    fix e as st
    assume ch: "chain (par_of s) (Some e) (e # as)" and J: "J (e # as) st"
    obtain fl s1 where st: "st = (fl, s1)" by (cases st)
    from J obtain X1 where X1: "deq_inv X1 s1 (Some e)" "deq_thread_frame t s s1"
      "e = TD_SE t \<and> s1 = s \<or> (\<exists>n. e = ZONE_SE n) \<and> gone s1"
      unfolding J_def st by auto
    have stat: "same_static s s1" using X1(2) by (simp add: deq_thread_frame_def)
    have qi: "queue_inv X1 s1" using X1(1) by (simp add: deq_inv_def)
    obtain r where r: "e \<in> set (mem X1 s1 r)" using X1(1) unfolding deq_inv_def by blast
    have er: "se_sfq (ents s1 e) = Some r" using queue_mem(1) [OF qi, of e r] r by simp
    from dequeue_step [OF X1(1) r, where K = K and flags = fl] obtain s2 X2 where s2:
      "dequeue_entity K r e fl s1 = Some s2" "queue_inv X2 s2" "deq_frame e s1 s2"
      "mem X2 s2 = (mem X1 s1)(r := remove1 e (mem X1 s1 r))"
      "weight (sfq_load (sfqs s2 r)) = 0 \<longleftrightarrow> mem X2 s2 r = []"
      "mem X2 s2 r \<noteq> [] \<longrightarrow> deq_inv X2 s2 None" "mem X2 s2 r = [] \<longrightarrow> deq_inv X2 s2 (par_of s1 e)"
      "\<forall>p. par_of s1 e = Some p \<longrightarrow> (\<exists>r. p \<in> set (mem X2 s2 r))" "same_tw s1 s2" by blast
    have m: "x \<in> set (mem X2 s2 q) \<longleftrightarrow> x \<in> set (mem X1 s1 q) \<and> x \<noteq> e" for x q
      using queue_mem [OF qi] er by (auto simp: s2(4))
    have fr: "deq_thread_frame t s s2" by (rule deq_frame_thread [OF X1(2) s2(3) _ s2(9)]) (use X1(3) in blast)
    have run: "runnable s2 = {x \<in> runnable s1. TD_SE x \<noteq> e}"
      using m by (auto simp: runnable_mem [OF qi] runnable_mem [OF s2(2)])
    have cnt: "ledger s2 = ledger s1" by (rule ledger_ops(3) [OF s2(1)])
    have dn: "gone s2"
      using X1(3)
    proof
      assume "e = TD_SE t \<and> s1 = s"
      then show ?thesis using run cnt s2(3) fr by (auto simp: gone_def deq_frame_def)
    next
      assume e: "(\<exists>n. e = ZONE_SE n) \<and> gone s1"
      then have "joined (ents s2 (TD_SE t)) = joined (ents s1 (TD_SE t))" using s2(3) by (auto simp: deq_frame_def)
      then show ?thesis using e run cnt fr by (auto simp: gone_def)
    qed
    have stat2: "same_static s s2" using fr by (simp add: deq_thread_frame_def)
    have par2: "par_of s2 x = par_of s x" "par_of s1 x = par_of s x" "se_sfq (ents s2 x) = se_sfq (ents s1 x)" for x
      using stat stat2 by (simp_all add: same_static_def)
    have hd: "par_of s e = head_opt as" using ch chain_head [of "par_of s" "par_of s e" as] by simp
    show "\<exists>b st'. body e st = Some (b, st') \<and> (case st' of (fl, s) \<Rightarrow> par_of s) e = par_of s e \<and>
        (if b then Q (Some e) st' else J as st')"
    proof (cases "mem X2 s2 r = []")
      case True
      have "\<exists>n. p = ZONE_SE n" if "head_opt as = Some p" for p
        by (rule parent_group(2) [OF queue_invD(8) [OF qi] er]) (use that hd par2 in simp)
      then have "J as (or fl DEQUEUE_SLEEP, s2)" using s2(7) True dn fr by (auto simp: J_def par2 hd)
      then show ?thesis using True s2(1,5) er by (auto simp: body_def st par2)
    next
      case False
      have inv2: "pss_inv X2 s2" by (rule deq_inv_pss) (use s2(6) False in blast)
      have "\<exists>s3. (case par_of s2 e of
                   Some p \<Rightarrow> if and flags DEQUEUE_SLEEP \<noteq> 0 then set_next_candidate K p s2 else Some s2
                 | None \<Rightarrow> Some s2) = Some s3 \<and> only_cands s2 s3 \<and> cand_inv (mem X2 s2) s3"
      proof (cases "par_of s2 e")
        case None
        then show ?thesis using queue_invD(6) [OF s2(2)] by simp
      next
        case (Some p)
        then obtain r' where "p \<in> set (mem X2 s2 r')" using s2(8) by (auto simp: par2)
        from set_candidate_ok(2) [OF queue_invD(8) [OF s2(2)] pss_invD(2) [OF inv2] queue_invD(6) [OF s2(2)] this]
        show ?thesis using Some queue_invD(6) [OF s2(2)] queue_mem(1) [OF s2(2)] by (cases "and flags DEQUEUE_SLEEP \<noteq> 0") auto
      qed
      then obtain s3 where s3: "(case par_of s2 e of
                   Some p \<Rightarrow> if and flags DEQUEUE_SLEEP \<noteq> 0 then set_next_candidate K p s2 else Some s2
                 | None \<Rightarrow> Some s2) = Some s3" "only_cands s2 s3" "cand_inv (mem X2 s2) s3" by blast
      note C = only_candsD [OF s3(2)]
      have "pss_inv X2 s3" by (rule pss_inv_cands [OF inv2 s3(2,3)])
      moreover have "gone s3"
        using dn only_cands_deq [OF _ s3(2)] runnable_cands [OF s3(2)] only_cands_ledger [OF s3(2)] by (simp add: gone_def C)
      moreover have "se_sfq (ents s3 e) \<noteq> None" using er by (simp add: C par2)
      ultimately have "Q (Some e) (fl, s3)" by (auto simp: Q_def)
      moreover have "body e st = Some (True, fl, s3)"
        using False s2(1,5) er s3(1) by (simp add: body_def st)
      ultimately show ?thesis by (auto simp: C par2)
    qed
  next
    fix st assume J: "J [] st"
    then obtain fl s1 X1 where "st = (fl, s1)" "deq_inv X1 s1 None" "gone s1" by (auto simp: J_def split: prod.splits)
    then show "Q None st" using deq_inv_pss by (auto simp: Q_def)
  qed
  then obtain r fl st X1 where st: "walkup (\<lambda>(flags, s). par_of s) body (Some (TD_SE t)) (flags, s) = Some (r, fl, st)"
    "pss_inv X1 st" "gone st" "\<And>e. r = Some e \<Longrightarrow> se_sfq (ents st e) \<noteq> None" unfolding Q_def by fastforce
  define p where "p = (case r of None \<Rightarrow> None | Some e \<Rightarrow> par_of st e)"
  have p: "se_sfq (ents st e) \<noteq> None" if "p = Some e" for e
    using that st(4) hier_parent_sfq [OF pss_invD(5) [OF st(2)]] unfolding p_def by (cases r) auto
  from shares_up_ok [OF st(2) p, where K = K] obtain s2 where s2:
    "update_shares_up K p st = Some s2" "reweighed st s2" "pss_inv X1 s2" by blast
  have R: "same_struct st s2" "same_cands st s2" "same_runq st s2" "same_keys st s2" "ledger s2 = ledger st" "same_tw st s2"
    using s2(2) by (simp_all add: reweighed_def)
  note D = same_structD [OF R(1)]
  have nr2: "rq_nr_running (rq s2) = rq_nr_running (rq s)" using R(5) st(3) by (simp add: gone_def ledger_def)
  then obtain s3 where s3: "rq_run_rem t s2 = Some s3" using nr by (simp add: rq_run_rem_def Let_def)
  have E: "ents s3 = ents s2" "sfqs s3 = sfqs s2" "tlinks s3 = tlinks s2" "groups s3 = groups s2" "tun s3 = tun s2"
    "curthread s3 = curthread s2" "rq_load (rq s3) = rq_load (rq s2)" "rq_nr_running (rq s3) = rq_nr_running (rq s2) - 1"
    using s3 nr nr2 by (auto simp: rq_run_rem_def Let_def)
  have core: "same_core s2 s3" "same_runq s2 s3" by (simp_all add: same_core_def same_runq_def E)
  note N = pss_inv_same [OF s2(3) core]
  have F: "same_static s st" "\<And>q. curr (sfqs st q) = curr (sfqs s q)" "\<And>x. joined (ents st x) \<Longrightarrow> joined (ents s x)"
    "\<And>x. x \<noteq> t \<Longrightarrow> joined (ents st (TD_SE x)) = joined (ents s (TD_SE x))"
    "\<And>x. onsfq (ents st x) \<Longrightarrow> onsfq (ents s x) \<and> vruntime (ents st x) = vruntime (ents s x)"
    "tun st = tun s" "curthread st = curthread s" "same_tw s st"
    using st(3) by (simp_all add: gone_def deq_thread_frame_def)
  have "same_static st s3" using same_struct_static [OF R(1)] by (simp add: same_static_def E)
  from same_static_trans [OF F(1) this] have "deq_thread_frame t s s3"
    using F(2-8) R(4,6) by (simp add: deq_thread_frame_def E D same_keys_def same_tw_def)
  moreover have "runnable s3 = runnable s - {t}" "\<not> joined (ents s3 (TD_SE t))"
    using st(3) by (simp_all add: runnable_def gone_def E D)
  moreover have "pss_dequeue_thread K t flags s = Some s3"
    using st(1) s2(1) s3 by (simp add: pss_dequeue_thread_def td_to_se_def body_def p_def Let_def)
  ultimately show ?thesis using N(1) nr2 E(8) by auto
qed

end
