(* ===== verification/Pss_Pool.thy ===== *)
theory Pss_Pool
  imports Pss_Thread
begin

text \<open>
  What the proportional share class promises to \<open>sched.c\<close>, as the locale \<open>run_pool\<close>: a set of
  runnable threads, one of them running or none, that grows by enqueueing, shrinks by dequeueing,
  and stays as it is while threads are put back, chosen and activated. The operations of \<open>pss.c\<close>
  implement it; the switches of \<open>sched.c\<close> rest on its lemmas.
\<close>

section \<open>The contract\<close>

locale run_pool =
  fixes good :: "'s \<Rightarrow> bool" and idle :: "'s \<Rightarrow> bool" and runs_on :: "tid \<Rightarrow> 's \<Rightarrow> bool" and avail :: "'s \<Rightarrow> tid set"
    and startable :: "tid \<Rightarrow> 's \<Rightarrow> bool" and few :: "'s \<Rightarrow> bool"
    and enq :: "tid \<Rightarrow> 's \<Rightarrow> 's option" and deq :: "tid \<Rightarrow> 's \<Rightarrow> 's option"
    and put_back :: "tid \<Rightarrow> 's \<Rightarrow> 's option" and pick :: "'s \<Rightarrow> (tid option \<times> 's) option"
    and activate :: "tid \<Rightarrow> 's \<Rightarrow> 's option"
  assumes enq_law: "\<lbrakk>good s; startable t s; idle s \<or> (\<exists>u\<in>avail s. runs_on u s)\<rbrakk> \<Longrightarrow>
      \<exists>s'. enq t s = Some s' \<and> good s' \<and> avail s' = insert t (avail s) \<and> (idle s \<longrightarrow> idle s') \<and>
        (\<forall>u. runs_on u s \<longrightarrow> runs_on u s')"
    and deq_law: "\<lbrakk>good s; few s; t \<in> avail s\<rbrakk> \<Longrightarrow>
      \<exists>s'. deq t s = Some s' \<and> good s' \<and> avail s' = avail s - {t} \<and> (idle s \<longrightarrow> idle s') \<and>
        (\<forall>u. runs_on u s \<longrightarrow> runs_on u s')"
    and put_law: "\<lbrakk>good s; runs_on t s\<rbrakk> \<Longrightarrow> \<exists>s'. put_back t s = Some s' \<and> good s' \<and> idle s' \<and> avail s' = avail s"
    and pick_law: "\<lbrakk>good s; idle s\<rbrakk> \<Longrightarrow> \<exists>r s'. pick s = Some (r, s') \<and> good s' \<and> idle s' \<and> avail s' = avail s \<and>
        (case r of None \<Rightarrow> avail s = {} | Some t \<Rightarrow> t \<in> avail s)"
    and act_law: "\<lbrakk>good s; idle s; t \<in> avail s\<rbrakk> \<Longrightarrow>
      \<exists>s'. activate t s = Some s' \<and> good s' \<and> runs_on t s' \<and> avail s' = avail s"
begin

text \<open>Choosing and activating: a thread is found exactly when there is one.\<close>

lemma choose_ok:
  assumes "good s" "idle s" "avail s \<noteq> {}"
  shows "\<exists>u s'. do { (r, s) \<leftarrow> pick s; u \<leftarrow> r; s \<leftarrow> activate u s; Some (u, s) } = Some (u, s') \<and>
    good s' \<and> runs_on u s' \<and> u \<in> avail s \<and> avail s' = avail s"
proof -
  obtain u s1 where 1: "pick s = Some (Some u, s1)" "good s1" "idle s1" "avail s1 = avail s" "u \<in> avail s"
    using pick_law [OF assms(1,2)] assms(3) by (auto split: option.splits)
  moreover obtain s2 where "activate u s1 = Some s2" "good s2" "runs_on u s2" "avail s2 = avail s1"
    using act_law [OF 1(2,3)] 1(4,5) by blast
  ultimately show ?thesis by auto
qed

text \<open>The running thread gives way and stays runnable; or it goes to sleep, and another one runs.\<close>

lemma yield_ok:
  assumes "good s" "runs_on t s" "t \<in> avail s"
  shows "\<exists>u s'. do { s \<leftarrow> put_back t s; (r, s) \<leftarrow> pick s; u \<leftarrow> r; s \<leftarrow> activate u s; Some (u, s) } = Some (u, s') \<and>
    good s' \<and> runs_on u s' \<and> u \<in> avail s' \<and> avail s' = avail s"
proof -
  obtain s1 where 1: "put_back t s = Some s1" "good s1" "idle s1" "avail s1 = avail s"
    using put_law [OF assms(1,2)] by blast
  then show ?thesis using choose_ok [OF 1(2,3)] assms(3) by auto
qed

lemma sleep_ok:
  assumes "good s" "few s" "runs_on t s" "t \<in> avail s" "avail s \<noteq> {t}"
  shows "\<exists>u s'. do { s \<leftarrow> deq t s; s \<leftarrow> put_back t s; (r, s) \<leftarrow> pick s; u \<leftarrow> r; s \<leftarrow> activate u s; Some (u, s) } = Some (u, s') \<and>
    good s' \<and> runs_on u s' \<and> u \<in> avail s' \<and> u \<noteq> t \<and> avail s' = avail s - {t}"
proof -
  obtain s1 where 1: "deq t s = Some s1" "good s1" "avail s1 = avail s - {t}" "runs_on t s1"
    using deq_law [OF assms(1,2,4)] assms(3) by blast
  obtain s2 where 2: "put_back t s1 = Some s2" "good s2" "idle s2" "avail s2 = avail s - {t}"
    using put_law [OF 1(2,4)] 1(3) by auto
  have "avail s2 \<noteq> {}" using 2(4) assms(4,5) by auto
  from choose_ok [OF 2(2,3) this] show ?thesis using 1(1) 2(1,4) by auto
qed

end

section \<open>The proportional share class implements it\<close>

text \<open>The threads flagged as joined, of whatever class.\<close>

definition joined_tds :: "'q sched \<Rightarrow> tid set" where
  "joined_tds s = {t. joined (ents s (TD_SE t))}"

lemma joined_tds_upd:
  assumes "\<And>x. x \<noteq> t \<Longrightarrow> joined (ents s' (TD_SE x)) = joined (ents s (TD_SE x))"
  shows "joined (ents s' (TD_SE t)) \<Longrightarrow> joined_tds s' = insert t (joined_tds s)"
    "\<not> joined (ents s' (TD_SE t)) \<Longrightarrow> joined_tds s' = joined_tds s - {t}"
proof -
  have m: "(x \<in> joined_tds s') = (if x = t then joined (ents s' (TD_SE t)) else x \<in> joined_tds s)" for x
    using assms [of x] by (simp add: joined_tds_def)
  show "joined (ents s' (TD_SE t)) \<Longrightarrow> joined_tds s' = insert t (joined_tds s)"
    "\<not> joined (ents s' (TD_SE t)) \<Longrightarrow> joined_tds s' = joined_tds s - {t}"
    unfolding set_eq_iff m by simp_all
qed

text \<open>\<open>rq_nr_running\<close> counts the threads that are queued or running.\<close>

definition pss_good :: "'q sched \<Rightarrow> bool" where
  "pss_good s \<longleftrightarrow> (\<exists>X. pss_inv X s) \<and> finite (joined_tds s) \<and>
     rq_nr_running (rq s) = int (card (joined_tds s)) \<and>
     (\<forall>t. se_sfq (ents s (TD_SE t)) \<noteq> None \<longrightarrow> weight_ok (weight (se_load (ents s (TD_SE t)))))"

definition can_start :: "tid \<Rightarrow> 'q sched \<Rightarrow> bool" where
  "can_start t s \<longleftrightarrow> \<not> joined (ents s (TD_SE t)) \<and> se_sfq (ents s (TD_SE t)) \<noteq> None"

text \<open>The count of entities on a queue is an \<open>int\<close> of 32 bits.\<close>

definition int_counts :: "'q sched \<Rightarrow> bool" where
  "int_counts s \<longleftrightarrow> (\<forall>q. nr_running (sfqs s q) < 2 ^ 31)"

lemma length_bound: "int n < 2 ^ 31 \<Longrightarrow> n < 2 ^ 45"
  by simp

lemma int_counts_short:
  assumes "pss_inv X s" "int_counts s"
  shows "short_lists (mem X s)"
proof -
  have "nr_running (sfqs s q) = int (length (mem X s q))" for q
    using queue_invD(4) [OF pss_invD(1) [OF assms(1)]] by (simp add: acct_def)
  then have "int (length (mem X s q)) < 2 ^ 31" for q using assms(2) unfolding int_counts_def by metis
  then have "length (mem X s q) < 2 ^ 45" for q by (rule length_bound)
  then show ?thesis by (simp add: short_lists_def)
qed

text \<open>A running thread that is still runnable has all its groups joined.\<close>

lemma runs_cur_joined:
  assumes inv: "pss_inv X s" and u: "u \<in> runnable s" "runs u s"
  shows "cur_joined s"
proof -
  note P = pss_invD [OF inv]
  obtain es where es: "chain (par_of s) (Some (TD_SE u)) es" "runs_chain s es" using u(2) by (auto simp: runs_def)
  have "\<exists>q. TD_SE u \<in> set (mem X s q)" using u(1) runnable_mem [OF P(1)] by blast
  then have "\<forall>x\<in>set es. \<exists>q. x \<in> set (mem X s q)"
    using chain_members [OF P(2) _ es(1)] by blast
  then have "\<forall>x\<in>set es. joined (ents s x)" using queue_mem(1) [OF P(1)] by blast
  then show ?thesis using es(2) unfolding cur_joined_def runs_chain_def by blast
qed

lemma runs_same:
  assumes "same_static s s'" "\<And>q. curr (sfqs s' q) = curr (sfqs s q)"
  shows "runs u s' = runs u s" "idle_queues s' = idle_queues s"
proof -
  have "par_of s' = par_of s" by (rule same_static_par [OF assms(1)])
  then show "runs u s' = runs u s" "idle_queues s' = idle_queues s"
    unfolding runs_def runs_chain_def idle_queues_def assms(2) by (simp_all add: same_static_sfq [OF assms(1)])
qed

text \<open>The thread on the processor: the running entities are those on its chain.\<close>

definition on_cpu :: "tid \<Rightarrow> 'q sched \<Rightarrow> bool" where
  "on_cpu t s \<longleftrightarrow> runs t s \<and> se_sfq (ents s (TD_SE t)) \<noteq> None"

lemma on_cpu_same:
  assumes "same_static s s'" "\<And>q. curr (sfqs s' q) = curr (sfqs s q)"
  shows "on_cpu u s' = on_cpu u s" "idle_queues s' = idle_queues s"
  using runs_same [OF assms] same_static_sfq [OF assms(1)] by (simp_all add: on_cpu_def)

lemma good_frame:
  assumes "pss_good s" "pss_inv X s'" "same_static s s'" "same_tw s s'" "joined_tds s' = R"
    "finite R" "rq_nr_running (rq s') = int (card R)"
  shows "pss_good s'"
  using assms unfolding pss_good_def same_static_def same_tw_def by auto

lemma runnable_sets:
  assumes "pss_inv X s" "pss_inv X' s'" "\<And>r. set (mem X' s' r) = set (mem X s r)"
  shows "runnable s' = runnable s"
  using assms by (simp add: runnable_mem [OF pss_invD(1) [OF assms(1)]] runnable_mem [OF pss_invD(1) [OF assms(2)]])

lemma keeps_nr: "keeps K s s' \<Longrightarrow> rq_nr_running (rq s') = rq_nr_running (rq s)"
  by (simp add: keeps_def ledger_def)

lemma enqueue_good:
  assumes good: "pss_good s" and st: "can_start t s" and c: "idle_queues s \<or> (\<exists>u\<in>runnable s. on_cpu u s)"
  shows "\<exists>s'. pss_enqueue_thread K t flags s = Some s' \<and> pss_good s' \<and> runnable s' = insert t (runnable s) \<and>
    (idle_queues s \<longrightarrow> idle_queues s') \<and> (\<forall>u. on_cpu u s \<longrightarrow> on_cpu u s') \<and>
    same_static s s' \<and> joined_tds s' = insert t (joined_tds s) \<and> curthread s' = curthread s \<and>
    (\<forall>x. x \<noteq> t \<longrightarrow> onrunq (ents s' (TD_SE x)) = onrunq (ents s (TD_SE x))) \<and> same_tw s s'"
proof -
  obtain X where X: "pss_inv X s" using good by (auto simp: pss_good_def)
  obtain q where q: "se_sfq (ents s (TD_SE t)) = Some q" "\<not> joined (ents s (TD_SE t))" using st by (auto simp: can_start_def)
  have w: "weight_ok (weight (se_load (ents s (TD_SE t))))" using good q(1) unfolding pss_good_def by blast
  have "cur_joined s" using c idle_cur_joined runs_cur_joined [OF X] unfolding on_cpu_def by blast
  from enqueue_thread_ok [OF X this q(2,1) w, where K = K and flags = flags] obtain s' X' where s':
    "pss_enqueue_thread K t flags s = Some s'" "pss_inv X' s'" "enq_thread_frame t s s'"
    "runnable s' = insert t (runnable s)" "rq_nr_running (rq s') = rq_nr_running (rq s) + 1"
    "joined (ents s' (TD_SE t))" by blast
  have F: "same_static s s'" "\<And>q. curr (sfqs s' q) = curr (sfqs s q)" "same_tw s s'" "curthread s' = curthread s"
    "\<And>x. x \<noteq> t \<Longrightarrow> joined (ents s' (TD_SE x)) = joined (ents s (TD_SE x))"
    "\<forall>x. x \<noteq> t \<longrightarrow> onrunq (ents s' (TD_SE x)) = onrunq (ents s (TD_SE x))"
    using s'(3) by (simp_all add: enq_thread_frame_def)
  have J: "joined_tds s' = insert t (joined_tds s)" by (rule joined_tds_upd, rule F(5)) (use s'(6) in simp_all)
  have "t \<notin> joined_tds s" using q(2) by (simp add: joined_tds_def)
  then have n: "finite (insert t (joined_tds s))" "rq_nr_running (rq s') = int (card (insert t (joined_tds s)))"
    using good s'(5) by (simp_all add: pss_good_def)
  have "pss_good s'" by (rule good_frame [OF good s'(2) F(1,3) J n])
  then show ?thesis using s'(1,4) F(1,3,4,6) J on_cpu_same [OF F(1,2)] by blast
qed

lemma dequeue_good:
  assumes good: "pss_good s" and few: "int_counts s" and t: "t \<in> runnable s"
  shows "\<exists>s'. pss_dequeue_thread K t flags s = Some s' \<and> pss_good s' \<and> runnable s' = runnable s - {t} \<and>
    (idle_queues s \<longrightarrow> idle_queues s') \<and> (\<forall>u. on_cpu u s \<longrightarrow> on_cpu u s') \<and>
    same_static s s' \<and> joined_tds s' = joined_tds s - {t} \<and> curthread s' = curthread s \<and> same_tw s s'"
proof -
  obtain X where X: "pss_inv X s" using good by (auto simp: pss_good_def)
  have fin: "finite (joined_tds s)" "rq_nr_running (rq s) = int (card (joined_tds s))" using good by (simp_all add: pss_good_def)
  have tj: "t \<in> joined_tds s" using t by (simp add: runnable_def joined_tds_def)
  then have "0 < card (joined_tds s)" using fin(1) card_gt_0_iff by blast
  then have nr: "rq_nr_running (rq s) \<noteq> 0" using fin(2) by linarith
  from dequeue_thread_ok [OF X t int_counts_short [OF X few] nr, where K = K and flags = flags] obtain s' X' where s':
    "pss_dequeue_thread K t flags s = Some s'" "pss_inv X' s'" "deq_thread_frame t s s'"
    "runnable s' = runnable s - {t}" "rq_nr_running (rq s') = rq_nr_running (rq s) - 1"
    "\<not> joined (ents s' (TD_SE t))" by blast
  have F: "same_static s s'" "\<And>q. curr (sfqs s' q) = curr (sfqs s q)" "same_tw s s'" "curthread s' = curthread s"
    "\<And>x. x \<noteq> t \<Longrightarrow> joined (ents s' (TD_SE x)) = joined (ents s (TD_SE x))"
    using s'(3) by (simp_all add: deq_thread_frame_def)
  have J: "joined_tds s' = joined_tds s - {t}" by (rule joined_tds_upd, rule F(5)) (use s'(6) in simp_all)
  have n: "finite (joined_tds s - {t})" "rq_nr_running (rq s') = int (card (joined_tds s - {t}))"
    using fin card.remove [OF fin(1) tj] s'(5) by simp_all
  have "pss_good s'" by (rule good_frame [OF good s'(2) F(1,3) J n])
  then show ?thesis using s'(1,4) F(1,3,4) J on_cpu_same [OF F(1,2)] by blast
qed

lemma chain_last: "chain par p es \<Longrightarrow> es \<noteq> [] \<Longrightarrow> par (last es) = None"
  by (induction es arbitrary: p) auto

lemma put_prev_good:
  assumes good: "pss_good s" and t: "on_cpu t s"
  shows "\<exists>s'. pss_put_prev_thread K t flags s = Some s' \<and> pss_good s' \<and> idle_queues s' \<and> runnable s' = runnable s \<and>
    same_static s s' \<and> joined_tds s' = joined_tds s \<and> curthread s' = curthread s \<and> same_tw s s'"
proof -
  obtain X where X: "pss_inv X s" using good by (auto simp: pss_good_def)
  from put_prev_thread_ok [OF X, of t K flags] t obtain s' X' where s': "pss_put_prev_thread K t flags s = Some s'"
    "pss_inv X' s'" "idle_queues s'" "same_static s s'" "\<forall>r. set (mem X' s' r) = set (mem X s r)"
    "\<forall>x. weight (se_load (ents s' x)) = weight (se_load (ents s x))" "\<forall>x. joined (ents s' x) = joined (ents s x)"
    "curthread s' = curthread s" unfolding on_cpu_def by blast
  have J: "joined_tds s' = joined_tds s" using s'(7) by (simp add: joined_tds_def)
  have R: "runnable s' = runnable s" by (rule runnable_sets [OF X s'(2)]) (use s'(5) in blast)
  have w: "same_tw s s'" using s'(6) by (simp add: same_tw_def)
  have "pss_good s'"
    by (rule good_frame [OF good s'(2,4) w J])
      (use good keeps_nr [OF keeps_put_prev [OF s'(1)]] in \<open>simp_all add: pss_good_def\<close>)
  then show ?thesis using s'(1,3,4,8) J R w by blast
qed

lemma runnable_empty:
  assumes inv: "pss_inv X s" and idle: "idle_queues s"
  shows "X RQ_SFQ = [] \<longleftrightarrow> runnable s = {}"
proof -
  note P = pss_invD [OF inv]
  have mX: "mem X s = X" by (rule idle_mem [OF idle])
  have "runnable s \<noteq> {}" if "X RQ_SFQ \<noteq> []"
    using pick_next_thread_ok(2) [OF inv idle that] runnable_mem [OF P(1)] by (auto simp: mX)
  moreover have "X RQ_SFQ \<noteq> []" if t: "t \<in> runnable s" for t
  proof -
    obtain q where q: "TD_SE t \<in> set (X q)" using t runnable_mem [OF P(1)] by (auto simp: mX)
    obtain es where es: "chain (par_of s) (Some (TD_SE t)) es" using hier_chain [OF P(5)] by blast
    have m: "\<forall>x\<in>set es. \<exists>q. x \<in> set (X q)" by (rule chain_members [OF P(2) [unfolded mX] _ es]) (use q in blast)
    have "es \<noteq> []" using es by (cases es) auto
    moreover from chain_last [OF es this] have "par_of s (last es) = None" .
    ultimately obtain r where r: "last es \<in> set (X r)" "par_of s (last es) = None" using m last_in_set by blast
    then have "se_sfq (ents s (last es)) = Some r" using queue_mem(1) [OF P(1), of "last es" r] by (simp add: mX)
    then have "r = RQ_SFQ" using hier_root [OF P(5)] r(2) by blast
    then show ?thesis using r(1) by auto
  qed
  ultimately show ?thesis by blast
qed

lemma pick_good:
  assumes good: "pss_good s" and idle: "idle_queues s"
  shows "\<exists>r s'. pss_pick_next_thread s = Some (r, s') \<and> pss_good s' \<and> idle_queues s' \<and> runnable s' = runnable s \<and>
    (case r of None \<Rightarrow> runnable s = {} | Some t \<Rightarrow> t \<in> runnable s) \<and>
    same_static s s' \<and> joined_tds s' = joined_tds s \<and> curthread s' = curthread s"
proof -
  obtain X where X: "pss_inv X s" using good by (auto simp: pss_good_def)
  note P = pss_invD [OF X]
  show ?thesis
  proof (cases "X RQ_SFQ = []")
    case True
    then show ?thesis using pick_next_thread_ok(1) [OF X idle] runnable_empty [OF X idle] good idle by auto
  next
    case False
    from pick_next_thread_ok(2) [OF X idle this] obtain t s' as p where t: "pss_pick_next_thread s = Some (Some t, s')"
      "pss_inv X s'" "picked s s'" "idle_queues s'" "TD_SE t \<in> set (X p)" by blast
    have st: "same_struct s s'" "same_weights s s'" using t(3) by (simp_all add: picked_def)
    have R: "runnable s' = runnable s" by (simp add: runnable_def same_structD [OF st(1)])
    have J: "joined_tds s' = joined_tds s" "curthread s' = curthread s"
      by (simp_all add: joined_tds_def same_structD [OF st(1)])
    have "pss_good s'"
      by (rule good_frame [OF good t(2) same_struct_static [OF st(1)] same_weights_tw [OF st(2)] J(1)])
        (use good keeps_nr [OF keeps_books [OF books_pick [OF t(1)]]] in \<open>simp_all add: pss_good_def\<close>)
    moreover have "t \<in> runnable s" using t(5) runnable_mem [OF P(1)] idle_mem [OF idle] by auto
    ultimately show ?thesis using t(1,4) R J same_struct_static [OF st(1)] by auto
  qed
qed

lemma activate_good:
  assumes good: "pss_good s" and idle: "idle_queues s" and t: "t \<in> runnable s"
  shows "\<exists>s'. pss_activate_thread K t s = Some s' \<and> pss_good s' \<and> on_cpu t s' \<and> runnable s' = runnable s \<and>
    same_static s s' \<and> joined_tds s' = joined_tds s \<and> same_tw s s'"
proof -
  obtain X where X: "pss_inv X s" using good by (auto simp: pss_good_def)
  note P = pss_invD [OF X] and mX = idle_mem [OF idle, of X]
  obtain q where q: "TD_SE t \<in> set (X q)" using t runnable_mem [OF P(1)] by (auto simp: mX)
  from activate_thread_ok [OF X idle q, where K = K] obtain s' X' where s': "pss_activate_thread K t s = Some s'"
    "pss_inv X' s'" "runs t s'" "same_static s s'" "\<forall>r. set (mem X' s' r) = set (X r)" "same_tw s s'"
    "\<forall>x. joined (ents s' x) = joined (ents s x)" by blast
  have J: "joined_tds s' = joined_tds s" using s'(7) by (simp add: joined_tds_def)
  have R: "runnable s' = runnable s" by (rule runnable_sets [OF X s'(2)]) (use s'(5) in \<open>simp add: mX\<close>)
  have "pss_good s'"
    by (rule good_frame [OF good s'(2,4,6) J])
      (use good keeps_nr [OF keeps_activate [OF s'(1)]] in \<open>simp_all add: pss_good_def\<close>)
  moreover have "se_sfq (ents s' (TD_SE t)) \<noteq> None" using t same_static_sfq [OF s'(4)] by (auto simp: runnable_def)
  ultimately show ?thesis using s'(1,3,4,6) R J by (auto simp: on_cpu_def)
qed

interpretation pool: run_pool pss_good idle_queues on_cpu runnable can_start int_counts
  "\<lambda>t. pss_enqueue_thread K t eflags" "\<lambda>t. pss_dequeue_thread K t dflags" "\<lambda>t. pss_put_prev_thread K t pflags"
  pss_pick_next_thread "pss_activate_thread K"
  for K eflags dflags pflags
proof (unfold_locales, goal_cases)
  case (1 s t)
  then show ?case using enqueue_good [of s t K eflags] by blast
next
  case (2 s t)
  then show ?case using dequeue_good [of s t K dflags] by blast
next
  case (3 s t)
  then show ?case using put_prev_good [of s t K pflags] by blast
next
  case (4 s)
  then show ?case using pick_good [of s] by blast
next
  case (5 s t)
  then show ?case using activate_good [of s t K] by blast
qed

end
