(* ===== verification/Rt_Run.thy ===== *)
theory Rt_Run
  imports Sched Pss_Pool
begin

text \<open>
  The invariant of the scheduler over all classes, and the operations of the real-time class, which
  keep it: they touch the run queue of the kernel and the flags of one thread that no queue of the
  proportional share class holds. \<open>C\<close> reads the threads on the kernel's run queue, which real-time
  threads and boosted threads of the proportional share class wait on.
\<close>

section \<open>The percentage window divides by no zero\<close>

lemma pctcpu_window_total:
  assumes "0 < h"
  shows "\<exists>td'. pctcpu_window h t td = Some td' \<and> td_class td' = td_class td \<and> td_state td' = td_state td"
proof -
  have "ts_ltick td - ts_ftick td \<noteq> 0"
    if "\<not> sint (t - ts_ltick td) \<ge> SCHED_TICK_TARG h" "sint (t - ts_ftick td) \<ge> SCHED_TICK_MAX h"
  proof
    assume "ts_ltick td - ts_ftick td = 0"
    then have "ts_ltick td = ts_ftick td" by simp
    then show False using that assms by simp
  qed
  then show ?thesis by (auto simp: pctcpu_window_def int_div_def)
qed

section \<open>The state of the scheduler\<close>

definition sched_good :: "'q kern \<Rightarrow> ('q \<Rightarrow> tid set) \<Rightarrow> 'q sched \<Rightarrow> bool" where
  "sched_good K C s \<longleftrightarrow> pss_good s \<and> agree C s \<and> (\<forall>t\<in>runnable s. td_class (threads s t) = pss_class) \<and>
     (\<forall>t\<in>joined_tds s. se_sfq (ents s (TD_SE t)) \<noteq> None \<and> (t \<in> runnable s \<or> td_class (threads s t) = realtime_class)) \<and>
     td_class (threads s (idlethread K)) = idle_class"

text \<open>Steps that touch no field the invariants read.\<close>

definition quiet :: "'q sched \<Rightarrow> 'q sched \<Rightarrow> bool" where
  "quiet s s' \<longleftrightarrow> ents s' = ents s \<and> sfqs s' = sfqs s \<and> tlinks s' = tlinks s \<and> groups s' = groups s \<and> tun s' = tun s \<and>
     weight (rq_load (rq s')) = weight (rq_load (rq s)) \<and> realtime (rq s') = realtime (rq s) \<and>
     rq_nr_running (rq s') = rq_nr_running (rq s) \<and> (\<forall>t. td_class (threads s' t) = td_class (threads s t))"

lemma quiet_refl [simp, intro]: "quiet s s"
  by (simp add: quiet_def)

lemma quiet_trans: "quiet s s' \<Longrightarrow> quiet s' s'' \<Longrightarrow> quiet s s''"
  by (simp add: quiet_def)

lemma pss_inv_curthread: "pss_inv X (s\<lparr>curthread := t\<rparr>) = pss_inv X s"
  by (simp add: pss_inv_def queue_inv_def tl_inv_def tlq_def cur_inv_def join_inv_def acct_def load_inv_def cand_inv_def
      group_inv_def hier_wf_def up_inv_def full_inv_def run_inv_def tree_wf_def wt_inv_def mem_def cur_list_def wsum_def
      thread_ok_def entity_is_thread_def depth_le_def cong: option.case_cong)

lemma quiet_good:
  assumes "quiet s s'"
  shows "pss_good s \<Longrightarrow> pss_good s'" "runnable s' = runnable s" "on_cpu t s' = on_cpu t s" "idle_queues s' = idle_queues s"
    "agree C s' = agree C s" "sched_good K C s \<Longrightarrow> sched_good K C s'" "int_counts s' = int_counts s"
proof -
  note q = assms [unfolded quiet_def]
  have "pss_inv X s'" if "pss_inv X s" for X
  proof -
    have "same_core (s\<lparr>curthread := curthread s'\<rparr>) s'" "same_runq (s\<lparr>curthread := curthread s'\<rparr>) s'"
      using q by (simp_all add: same_core_def same_runq_def)
    from pss_inv_same(1) [OF _ this] show ?thesis using that by (simp add: pss_inv_curthread)
  qed
  moreover show r: "runnable s' = runnable s" "on_cpu t s' = on_cpu t s" "idle_queues s' = idle_queues s" for t
    using q by (simp_all add: runnable_def on_cpu_def runs_def runs_chain_def idle_queues_def)
  moreover have j: "joined_tds s' = joined_tds s" using q by (simp add: joined_tds_def)
  ultimately show g: "pss_good s \<Longrightarrow> pss_good s'" using q by (auto simp: pss_good_def)
  show a: "agree C s' = agree C s" "int_counts s' = int_counts s" using q by (simp_all add: agree_def int_counts_def)
  show "sched_good K C s \<Longrightarrow> sched_good K C s'" using g a r(1) j q unfolding sched_good_def by simp
qed

lemma quiet_simps [simp]:
  "quiet s (update_rq_clock K s)" "quiet s (s\<lparr>curthread := t\<rparr>)" "quiet s (s\<lparr>root_cpupri := cp\<rparr>)"
  "quiet s (s\<lparr>times := tm\<rparr>)" "quiet s (resched_thread t s)" "quiet s (set_td_state st t s)"
  by (simp_all add: quiet_def update_rq_clock_def cpu_clock_def Let_def split_beta resched_thread_def set_td_state_def)

lemma quiet_td: "(\<And>td. td_class (f td) = td_class td) \<Longrightarrow> quiet s (upd_td t f s)"
  by (simp add: quiet_def)

lemma quiet_cpu_clock: "cpu_clock K s = (now, s') \<Longrightarrow> quiet s s'"
  by (auto simp: cpu_clock_def split_beta)

lemma quiet_pctcpu:
  assumes "0 < hz (clks K)"
  shows "\<exists>s'. sched_pctcpu_update K t run s = Some s' \<and> quiet s s' \<and> (\<forall>x. td_state (threads s' x) = td_state (threads s x)) \<and>
    curthread s' = curthread s"
proof -
  obtain td where "pctcpu_window (hz (clks K)) (ticks s) (threads s t) = Some td" "td_class td = td_class (threads s t)"
    "td_state td = td_state (threads s t)" using pctcpu_window_total [OF assms] by blast
  then show ?thesis by (auto simp: sched_pctcpu_update_def Let_def quiet_def)
qed

section \<open>Activating through the classes\<close>

lemma pss_inv_off:
  assumes inv: "pss_inv X s" and c: "same_core s s'" and r: "\<And>e. onrunq (ents s' e) \<Longrightarrow> onrunq (ents s e)"
  shows "pss_inv X s'"
proof -
  have st: "same_struct s s'" and w: "same_weights s s'" using c by (simp_all add: same_core_split)
  note D = same_structD [OF st] and stat = same_struct_static [OF st] and P = pss_invD [OF inv]
  have m: "mem X s' = mem X s" by (rule inv_same_struct(4) [OF st])
  have "wt_inv (mem X s) s'"
    by (rule wt_inv_sets [OF P(8)]) (use w in \<open>simp_all add: D same_weights_def\<close>)
  moreover have "run_inv s'" using P(4) r by (simp add: run_inv_def D)
  moreover have "up_inv (mem X s) s'" "full_inv (mem X s) s'"
    using up_inv_sets [OF P(2) _ stat] full_inv_sets [OF P(3) _ stat] by simp_all
  ultimately show ?thesis
    using queue_inv_same_core [OF P(1) c] P(7) by (simp add: pss_inv_def m tree_wf_static(1) [OF stat])
qed

lemma sched_goodD:
  assumes "sched_good K C s"
  shows "pss_good s" "agree C s" "t \<in> runnable s \<Longrightarrow> td_class (threads s t) = pss_class"
    "td_class (threads s (idlethread K)) = idle_class"
    "onrunq (ents s (TD_SE t)) \<Longrightarrow> t \<in> joined_tds s"
    "t \<in> joined_tds s \<Longrightarrow> t \<notin> runnable s \<Longrightarrow> td_class (threads s t) = realtime_class \<and> \<not> onsfq (ents s (TD_SE t))"
proof -
  show g: "pss_good s" and "agree C s" and "t \<in> runnable s \<Longrightarrow> td_class (threads s t) = pss_class"
    and "td_class (threads s (idlethread K)) = idle_class" using assms by (simp_all add: sched_good_def)
  from g obtain X where X: "pss_inv X s" by (auto simp: pss_good_def)
  show "onrunq (ents s (TD_SE t)) \<Longrightarrow> t \<in> joined_tds s"
    using pss_invD(4) [OF X] by (simp add: run_inv_def joined_tds_def)
  assume t: "t \<in> joined_tds s" "t \<notin> runnable s"
  then have "se_sfq (ents s (TD_SE t)) \<noteq> None" "td_class (threads s t) = realtime_class"
    using assms unfolding sched_good_def by blast+
  then show "td_class (threads s t) = realtime_class \<and> \<not> onsfq (ents s (TD_SE t))"
    using t by (auto simp: runnable_def joined_tds_def)
qed

text \<open>The thread no queue holds: its own flags may change.\<close>

definition flags_only :: "tid \<Rightarrow> 'q sched \<Rightarrow> 'q sched \<Rightarrow> bool" where
  "flags_only t s s' \<longleftrightarrow> sfqs s' = sfqs s \<and> tlinks s' = tlinks s \<and> groups s' = groups s \<and> tun s' = tun s \<and>
     curthread s' = curthread s \<and> weight (rq_load (rq s')) = weight (rq_load (rq s)) \<and>
     (\<forall>x. td_class (threads s' x) = td_class (threads s x)) \<and> (\<forall>e. e \<noteq> TD_SE t \<longrightarrow> ents s' e = ents s e) \<and>
     onsfq (ents s' (TD_SE t)) = onsfq (ents s (TD_SE t)) \<and> se_load (ents s' (TD_SE t)) = se_load (ents s (TD_SE t)) \<and>
     par_of s' (TD_SE t) = par_of s (TD_SE t) \<and> se_sfq (ents s' (TD_SE t)) = se_sfq (ents s (TD_SE t)) \<and>
     my_q (ents s' (TD_SE t)) = my_q (ents s (TD_SE t))"

definition outside :: "tid \<Rightarrow> 'q sched \<Rightarrow> bool" where
  "outside t s \<longleftrightarrow> \<not> onsfq (ents s (TD_SE t)) \<and> (\<forall>q. curr (sfqs s q) \<noteq> Some (TD_SE t))"

lemma flags_only_ents:
  assumes "flags_only t s s'"
  shows "onsfq (ents s' e) = onsfq (ents s e)" "se_load (ents s' e) = se_load (ents s e)"
    "par_of s' e = par_of s e" "se_sfq (ents s' e) = se_sfq (ents s e)" "my_q (ents s' e) = my_q (ents s e)"
    "e \<noteq> TD_SE t \<Longrightarrow> ents s' e = ents s e"
  using assms by (cases "e = TD_SE t"; simp add: flags_only_def)+

lemma flags_only_inv:
  assumes inv: "pss_inv X s" and f: "flags_only t s s'" and out: "outside t s"
    and r: "onrunq (ents s' (TD_SE t)) \<Longrightarrow> joined (ents s' (TD_SE t))"
  shows "pss_inv X s'"
proof -
  note P = pss_invD [OF inv] and Q = queue_invD [OF pss_invD(1) [OF inv]] and E = flags_only_ents [OF f]
  have S: "sfqs s' = sfqs s" "tlinks s' = tlinks s" "groups s' = groups s" "weight (rq_load (rq s')) = weight (rq_load (rq s))"
    using f by (simp_all add: flags_only_def)
  have stat: "same_static s s'" by (simp add: same_static_def S E)
  have cj: "joined (ents s' c) = joined (ents s c)" if "curr (sfqs s q) = Some c" for q c
  proof -
    have "c \<noteq> TD_SE t" using out that by (auto simp: outside_def)
    then show ?thesis by (simp add: E)
  qed
  have m: "mem X s' = mem X s"
    by (rule ext) (simp add: mem_def cur_list_def S cj split: option.splits)
  have nX: "TD_SE t \<notin> set (X q)" for q using tl_inv_mem [OF Q(1)] out by (simp add: outside_def)
  have "tl_inv X s'" using Q(1) by (simp add: tl_inv_def tlq_def S E)
  moreover have "cur_inv s'" using Q(2) by (simp add: cur_inv_def S E)
  moreover have "join_inv X s'"
  proof -
    have "joined (ents s' e)" if "e \<in> set (X q)" for e q
    proof -
      have "e \<noteq> TD_SE t" using nX that by blast
      then show ?thesis using that Q(3) by (simp add: E join_inv_def)
    qed
    then show ?thesis by (simp add: join_inv_def)
  qed
  moreover have "acct (mem X s') s'" "load_inv s'" using Q(4,5) by (simp_all add: acct_def load_inv_def wsum_def m S E)
  moreover have "cand_inv (mem X s') s'" using Q(6) by (simp add: cand_inv_def m S)
  moreover have "group_inv (mem X s') s'" using Q(7) by (simp add: group_inv_def m E)
  moreover have "hier_wf s'" using Q(8) hier_wf_static(1) [OF stat] by simp
  moreover have "up_inv (mem X s') s'" "full_inv (mem X s') s'"
    using up_inv_sets [OF P(2) _ stat] full_inv_sets [OF P(3) _ stat] m by simp_all
  moreover have "run_inv s'"
    unfolding run_inv_def S
  proof (intro allI impI)
    fix x assume x: "onrunq (ents s' (TD_SE x))"
    show "joined (ents s' (TD_SE x)) \<and> (\<forall>q. curr (sfqs s q) \<noteq> Some (TD_SE x))"
      using x P(4) r out E(6) [of "TD_SE x"] by (cases "x = t") (auto simp: run_inv_def outside_def)
  qed
  moreover have "tree_wf s'" using P(7) tree_wf_static(1) [OF stat] by simp
  moreover have "wt_inv (mem X s') s'" using P(8) by (simp add: wt_inv_def m S E)
  ultimately show ?thesis by (simp add: pss_inv_def queue_inv_def)
qed

lemma flags_only_same:
  assumes f: "flags_only t s s'" and out: "outside t s"
  shows "runnable s' = runnable s" "on_cpu u s' = on_cpu u s" "idle_queues s' = idle_queues s" "same_static s s'"
    "joined (ents s' (TD_SE t)) \<Longrightarrow> joined_tds s' = insert t (joined_tds s)"
    "\<not> joined (ents s' (TD_SE t)) \<Longrightarrow> joined_tds s' = joined_tds s - {t}" "curthread s' = curthread s" "int_counts s' = int_counts s"
proof -
  note E = flags_only_ents [OF f]
  have S: "sfqs s' = sfqs s" "groups s' = groups s" "curthread s' = curthread s" using f by (simp_all add: flags_only_def)
  show stat: "same_static s s'" by (simp add: same_static_def S E)
  have "x \<in> runnable s' \<longleftrightarrow> x \<in> runnable s" for x
    using out E(6) [of "TD_SE x"] by (cases "x = t") (auto simp: runnable_def S E outside_def)
  then show "runnable s' = runnable s" by blast
  show "on_cpu u s' = on_cpu u s" "idle_queues s' = idle_queues s" using on_cpu_same [OF stat] S by simp_all
  show "curthread s' = curthread s" "int_counts s' = int_counts s" using S by (simp_all add: int_counts_def)
  have j: "x \<noteq> t \<Longrightarrow> joined (ents s' (TD_SE x)) = joined (ents s (TD_SE x))" for x using E(6) [of "TD_SE x"] by simp
  show "joined (ents s' (TD_SE t)) \<Longrightarrow> joined_tds s' = insert t (joined_tds s)"
    "\<not> joined (ents s' (TD_SE t)) \<Longrightarrow> joined_tds s' = joined_tds s - {t}"
    using joined_tds_upd [OF j] by blast+
qed

text \<open>So a change of the flags of a real-time thread keeps the invariant of the scheduler.\<close>

lemma flags_only_good:
  assumes good: "sched_good K C s" and f: "flags_only t s s'" and out: "outside t s"
    and r: "onrunq (ents s' (TD_SE t)) \<Longrightarrow> joined (ents s' (TD_SE t))"
    and t: "td_class (threads s t) = realtime_class" "se_sfq (ents s (TD_SE t)) \<noteq> None"
    and a: "agree C s'" and nr: "rq_nr_running (rq s') = int (card (joined_tds s'))"
  shows "sched_good K C s'"
proof -
  note F = flags_only_same [OF f out] and E = flags_only_ents [OF f] and G = sched_goodD [OF good]
  have sub: "joined_tds s' \<subseteq> insert t (joined_tds s)" using F(5,6) by blast
  have fin: "finite (joined_tds s')"
    using finite_subset [OF sub] G(1) by (simp add: pss_good_def)
  obtain X where X: "pss_inv X s" using G(1) by (auto simp: pss_good_def)
  have "pss_inv X s'" by (rule flags_only_inv [OF X f out r])
  then have "pss_good s'" using G(1) fin nr by (auto simp: pss_good_def E)
  moreover have "td_class (threads s' x) = td_class (threads s x)" for x using f by (simp add: flags_only_def)
  moreover have "se_sfq (ents s' (TD_SE x)) \<noteq> None \<and> (x \<in> runnable s' \<or> td_class (threads s x) = realtime_class)"
    if "x \<in> joined_tds s'" for x
    using good that sub t unfolding sched_good_def F(1) E(4) by blast
  ultimately show ?thesis using G(3,4) a F(1) unfolding sched_good_def by simp
qed

section \<open>The real-time class\<close>

lemma outside_idle: "idle_queues s \<Longrightarrow> \<not> onsfq (ents s (TD_SE t)) \<Longrightarrow> outside t s"
  by (simp add: outside_def idle_queues_def)

lemma sched_good_nr: "sched_good K C s \<Longrightarrow> rq_nr_running (rq s) = int (card (joined_tds s)) \<and> finite (joined_tds s)"
  by (simp add: sched_good_def pss_good_def)

lemma sched_good_sfq: "sched_good K C s \<Longrightarrow> t \<in> joined_tds s \<Longrightarrow> se_sfq (ents s (TD_SE t)) \<noteq> None"
  by (simp add: sched_good_def)

lemma agree_one:
  assumes a: "agree C s" and f: "flags_only t s s'"
  shows "onrunq (ents s' (TD_SE t)) \<Longrightarrow> C (realtime (rq s')) = insert t (C (realtime (rq s))) \<Longrightarrow> agree C s'"
    "\<not> onrunq (ents s' (TD_SE t)) \<Longrightarrow> C (realtime (rq s')) = C (realtime (rq s)) - {t} \<Longrightarrow> agree C s'"
proof -
  have e: "onrunq (ents s' (TD_SE x)) = onrunq (ents s (TD_SE x))" if "x \<noteq> t" for x
    using flags_only_ents(6) [OF f, of "TD_SE x"] that by simp
  have s: "x \<in> C (realtime (rq s)) \<longleftrightarrow> onrunq (ents s (TD_SE x))" for x using a by (simp add: agree_def)
  show "agree C s'" if "onrunq (ents s' (TD_SE t))" "C (realtime (rq s')) = insert t (C (realtime (rq s)))"
    unfolding agree_def that(2)
  proof (rule set_eqI)
    fix x show "x \<in> insert t (C (realtime (rq s))) \<longleftrightarrow> x \<in> {x. onrunq (ents s' (TD_SE x))}"
      using that(1) e [of x] s [of x] by (cases "x = t") simp_all
  qed
  show "agree C s'" if "\<not> onrunq (ents s' (TD_SE t))" "C (realtime (rq s')) = C (realtime (rq s)) - {t}"
    unfolding agree_def that(2)
  proof (rule set_eqI)
    fix x show "x \<in> C (realtime (rq s)) - {t} \<longleftrightarrow> x \<in> {x. onrunq (ents s' (TD_SE x))}"
      using that(1) e [of x] s [of x] by (cases "x = t") simp_all
  qed
qed

lemma rt_activate_ok:
  assumes good: "sched_good K C s" and K: "runq_laws K C" and idle: "idle_queues s"
    and t: "t \<notin> runnable s" "onrunq (ents s (TD_SE t))"
  shows "\<exists>s'. rt_activate_thread K t s = Some s' \<and> sched_good K C s' \<and> idle_queues s' \<and> runnable s' = runnable s \<and>
    TD_IS_RUNNING s' t \<and> curthread s' = curthread s \<and> td_class (threads s' t) = realtime_class \<and> t \<in> joined_tds s' \<and>
    \<not> onrunq (ents s' (TD_SE t)) \<and> joined_tds s' = joined_tds s"
proof -
  have j: "t \<in> joined_tds s" using sched_goodD(5) [OF good t(2)] .
  note g = sched_goodD(6) [OF good j t(1)]
  have out: "outside t s" by (rule outside_idle [OF idle]) (use g in blast)
  obtain now s1 where clk: "cpu_clock K (upd_se (TD_SE t) (\<lambda>se. se\<lparr>onrunq := False\<rparr>)
      (upd_rq (\<lambda>r. r\<lparr>realtime := runq_remove K (realtime r) t\<rparr>) s)) = (now, s1)" by fastforce
  note q = quiet_cpu_clock [OF clk, unfolded quiet_def]
  have c1: "curthread s1 = curthread s" using clk by (auto simp: cpu_clock_def split_beta)
  define s2 where "s2 = set_td_state TDS_RUNNING t (upd_rq (\<lambda>r. r\<lparr>rt_curr := Some (TD_SE t)\<rparr>)
    (upd_se (TD_SE t) (\<lambda>se. se\<lparr>timing_start := now, prev_sum_exec_time := sum_exec_time se\<rparr>) s1))"
  have run: "rt_activate_thread K t s = Some s2"
    using t(2) j g clk q by (simp add: rt_activate_thread_def td_to_se_def s2_def Let_def joined_tds_def)
  have f: "flags_only t s s2" using q c1 by (simp add: flags_only_def s2_def set_td_state_def)
  have e: "joined (ents s2 (TD_SE t))" "\<not> onrunq (ents s2 (TD_SE t))" "realtime (rq s2) = runq_remove K (realtime (rq s)) t"
    "rq_nr_running (rq s2) = rq_nr_running (rq s)" "td_class (threads s2 t) = td_class (threads s t)"
    using q j by (simp_all add: s2_def set_td_state_def joined_tds_def)
  note F = flags_only_same [OF f out]
  have J: "joined_tds s2 = joined_tds s" using F(5) [OF e(1)] j by auto
  have "agree C s2"
    by (rule agree_one(2) [OF sched_goodD(2) [OF good] f e(2)]) (use K e(3) in \<open>simp add: runq_laws_def\<close>)
  from flags_only_good [OF good f out _ conjunct1 [OF g] sched_good_sfq [OF good j] this] e(2,4) J sched_good_nr [OF good]
  have "sched_good K C s2" by simp
  moreover have "TD_IS_RUNNING s2 t" by (simp add: TD_IS_RUNNING_def s2_def set_td_state_def)
  ultimately show ?thesis using run F(1,3,7) idle e g j J by auto
qed

lemma rt_put_prev_ok:
  assumes good: "sched_good K C s" and K: "runq_laws K C" and idle: "idle_queues s"
    and t: "td_class (threads s t) = realtime_class" "\<not> onrunq (ents s (TD_SE t))"
  shows "\<exists>s'. rt_put_prev_thread K t flags s = Some s' \<and> sched_good K C s' \<and> idle_queues s' \<and> runnable s' = runnable s \<and>
    joined_tds s' = joined_tds s \<and> curthread s' = curthread s"
proof (cases "t \<in> joined_tds s")
  case False
  have "quiet s (upd_rq (\<lambda>r. r\<lparr>rt_curr := None\<rparr>) s)" by (simp add: quiet_def)
  note q = quiet_good [OF this]
  have "rt_put_prev_thread K t flags s = Some (upd_rq (\<lambda>r. r\<lparr>rt_curr := None\<rparr>) s)"
    using False by (simp add: rt_put_prev_thread_def joined_tds_def td_to_se_def)
  moreover have "joined_tds (upd_rq (\<lambda>r. r\<lparr>rt_curr := None\<rparr>) s) = joined_tds s" by (simp add: joined_tds_def)
  ultimately show ?thesis using q(2,4,6) good idle by simp
next
  case j: True
  have "t \<notin> runnable s" using sched_goodD(3) [OF good, of t] t(1) by auto
  note g = sched_goodD(6) [OF good j this]
  have out: "outside t s" by (rule outside_idle [OF idle]) (use g in blast)
  define s2 where "s2 = upd_rq (\<lambda>r. r\<lparr>rt_curr := None\<rparr>) (upd_se (TD_SE t) (\<lambda>se. se\<lparr>onrunq := True\<rparr>)
    (upd_rq (\<lambda>r. r\<lparr>realtime := runq_add K (realtime r) t (td_priority (threads s t))
      (and flags (SW_TYPE_MASK K) = SWT_PREEMPT K)\<rparr>) (set_td_state TDS_RUNQ t s)))"
  have run: "rt_put_prev_thread K t flags s = Some s2"
    using j t(2) by (simp add: rt_put_prev_thread_def joined_tds_def td_to_se_def s2_def Let_def set_td_state_def)
  have f: "flags_only t s s2" by (simp add: flags_only_def s2_def set_td_state_def)
  have e: "joined (ents s2 (TD_SE t))" "onrunq (ents s2 (TD_SE t))" "rq_nr_running (rq s2) = rq_nr_running (rq s)"
    "\<exists>p b. realtime (rq s2) = runq_add K (realtime (rq s)) t p b"
    using j by (auto simp: s2_def set_td_state_def joined_tds_def)
  note F = flags_only_same [OF f out]
  have J: "joined_tds s2 = joined_tds s" using F(5) [OF e(1)] j by auto
  have "agree C s2"
    by (rule agree_one(1) [OF sched_goodD(2) [OF good] f e(2)]) (use K e(4) in \<open>auto simp: runq_laws_def\<close>)
  from flags_only_good [OF good f out _ conjunct1 [OF g] sched_good_sfq [OF good j] this] e(1,3) J sched_good_nr [OF good]
  have "sched_good K C s2" by simp
  then show ?thesis using run F(1,3,7) idle J by simp
qed

lemma rt_enqueue_ok:
  assumes good: "sched_good K C s" and K: "runq_laws K C" and out: "outside t s"
    and t: "td_class (threads s t) = realtime_class" "can_start t s"
  shows "\<exists>s'. rt_enqueue_thread K t flags s = Some s' \<and> sched_good K C s' \<and> runnable s' = runnable s \<and>
    joined_tds s' = insert t (joined_tds s) \<and> flags_only t s s'"
proof -
  have j: "t \<notin> joined_tds s" "se_sfq (ents s (TD_SE t)) \<noteq> None" using t(2) by (simp_all add: can_start_def joined_tds_def)
  have on: "\<not> onrunq (ents s (TD_SE t))" using sched_goodD(5) [OF good] j(1) by blast
  define s1 where "s1 = set_td_state TDS_RUNQ t (upd_se (TD_SE t) (\<lambda>se. se\<lparr>onrunq := True\<rparr>)
    (upd_rq (\<lambda>r. r\<lparr>realtime := runq_add K (realtime r) t (td_priority (threads s t)) (and flags ENQUEUE_HEAD \<noteq> 0)\<rparr>) s))"
  define s2 where "s2 = upd_se (TD_SE t) (\<lambda>se. se\<lparr>joined := True\<rparr>) (rq_run_add t s1)"
  have off: "\<not> onsfq (ents s (TD_SE t))" using out by (simp add: outside_def)
  have run: "rt_enqueue_thread K t flags s = Some s2"
    using j(1) on off
    by (simp add: rt_enqueue_thread_def joined_tds_def td_to_se_def s2_def s1_def Let_def set_td_state_def frame_simps)
  have f: "flags_only t s s2"
    by (simp add: flags_only_def s2_def s1_def set_td_state_def frame_simps) (simp add: rq_run_add_def Let_def)
  have e: "joined (ents s2 (TD_SE t))" "onrunq (ents s2 (TD_SE t))" "rq_nr_running (rq s2) = rq_nr_running (rq s) + 1"
    "\<exists>p b. realtime (rq s2) = runq_add K (realtime (rq s)) t p b"
    by (auto simp: s2_def s1_def set_td_state_def frame_simps) (auto simp: rq_run_add_def Let_def)
  note F = flags_only_same [OF f out]
  have J: "joined_tds s2 = insert t (joined_tds s)" by (rule F(5) [OF e(1)])
  have "agree C s2"
    by (rule agree_one(1) [OF sched_goodD(2) [OF good] f e(2)]) (use K e(4) in \<open>auto simp: runq_laws_def\<close>)
  from flags_only_good [OF good f out _ t(1) j(2) this] e(1,3) J sched_good_nr [OF good] j(1)
  have "sched_good K C s2" by simp
  then show ?thesis using run F(1) J f by simp
qed

lemma rt_dequeue_ok:
  assumes good: "sched_good K C s" and K: "runq_laws K C" and out: "outside t s"
    and t: "td_class (threads s t) = realtime_class" "t \<in> joined_tds s"
  shows "\<exists>s'. rt_dequeue_thread K t flags s = Some s' \<and> sched_good K C s' \<and> runnable s' = runnable s \<and>
    joined_tds s' = joined_tds s - {t} \<and> flags_only t s s' \<and> \<not> onrunq (ents s' (TD_SE t))"
proof -
  note N = sched_good_nr [OF good]
  have off: "\<not> onsfq (ents s (TD_SE t))" using out by (simp add: outside_def)
  have nr: "rq_nr_running (rq s) \<noteq> 0" using N t(2) by auto
  define s1 where "s1 = (if onrunq (ents s (TD_SE t))
    then upd_se (TD_SE t) (\<lambda>se. se\<lparr>onrunq := False\<rparr>) (upd_rq (\<lambda>r. r\<lparr>realtime := runq_remove K (realtime r) t\<rparr>) s) else s)"
  have nr1: "rq_nr_running (rq s1) = rq_nr_running (rq s)" by (simp add: s1_def)
  then obtain s2 where s2: "rq_run_rem t s1 = Some s2" using nr by (simp add: rq_run_rem_def Let_def)
  have E: "ents s2 = ents s1" "sfqs s2 = sfqs s1" "tlinks s2 = tlinks s1" "groups s2 = groups s1" "tun s2 = tun s1"
    "threads s2 = threads s1" "curthread s2 = curthread s1" "rq_load (rq s2) = rq_load (rq s1)"
    "rq_nr_running (rq s2) = rq_nr_running (rq s) - 1" "realtime (rq s2) = realtime (rq s1)"
    using s2 nr nr1 by (auto simp: rq_run_rem_def Let_def)
  define s3 where "s3 = upd_se (TD_SE t) (\<lambda>se. se\<lparr>joined := False\<rparr>) s2"
  have run: "rt_dequeue_thread K t flags s = Some s3"
    using t(2) off s2 E(1)
    by (simp add: rt_dequeue_thread_def td_to_se_def joined_tds_def Let_def s3_def s1_def [symmetric]) (simp add: s1_def)
  have f: "flags_only t s s3" by (simp add: flags_only_def s3_def E) (simp add: s1_def)
  have e: "\<not> joined (ents s3 (TD_SE t))" "\<not> onrunq (ents s3 (TD_SE t))" "rq_nr_running (rq s3) = rq_nr_running (rq s) - 1"
    by (simp_all add: s3_def E) (simp add: s1_def)
  note F = flags_only_same [OF f out]
  have J: "joined_tds s3 = joined_tds s - {t}" by (rule F(6) [OF e(1)])
  have "C (realtime (rq s3)) = C (realtime (rq s)) - {t}"
    using K sched_goodD(2) [OF good] by (auto simp: s3_def E s1_def runq_laws_def agree_def)
  then have "agree C s3" by (rule agree_one(2) [OF sched_goodD(2) [OF good] f e(2)])
  from flags_only_good [OF good f out _ t(1) sched_good_sfq [OF good t(2)] this] e(2,3) J N card.remove [OF _ t(2)]
  have "sched_good K C s3" by simp
  then show ?thesis using run F(1) J f e(2) by simp
qed

end
