(* ===== verification/Thread_Place.thy ===== *)
theory Thread_Place
  imports Rt_Run
begin

text \<open>
  The states of the threads: what each operation does to the state of the thread it is called for and
  to its flag SEF_ONRUNQ, and that it leaves those of all other threads alone. The states agree with the
  queues (\<open>lined_up\<close>) when a thread that the scheduler holds, and that is not running, is in the
  state TDS_RUNQ and on a queue, and every other thread is in neither of the two states.
\<close>

section \<open>The place of a thread\<close>

text \<open>The state of a thread and whether it is on the run queue of the kernel.\<close>

definition place :: "tid \<Rightarrow> 'q sched \<Rightarrow> td_state \<times> bool" where
  "place x s = (td_state (threads s x), onrunq (ents s (TD_SE x)))"

lemma keeps_par: "keeps K s s' \<Longrightarrow> par_of s' e = par_of s e"
  by (simp add: keeps_def ledger_def fun_eq_iff)

lemma books_place: "books s' = books s \<Longrightarrow> place x s' = place x s"
  using books_ledger(3,4) [of s' s x] by (simp add: place_def)

text \<open>A walk up from a thread passes the entities of groups only, so it moves no other thread.\<close>

lemma moves_from:
  assumes w: "walkup par body p st = Some (r, st')" and hier: "hier_wf s" and k: "keeps K s (h st)"
    and e: "\<And>e. p = Some e \<Longrightarrow> se_sfq (ents s e) \<noteq> None \<and> e \<noteq> TD_SE x"
    and par: "\<And>st e. par st e = par_of (h st) e"
    and body: "\<And>e st b st'. body e st = Some (b, st') \<Longrightarrow> moves K e (h st) (h st')"
  shows "place x (h st') = place x (h st) \<and> keeps K s (h st')"
proof (rule walkup_path [where Q = "\<lambda>e. se_sfq (ents s e) \<noteq> None \<and> e \<noteq> TD_SE x"
      and I = "\<lambda>u. place x (h u) = place x (h st) \<and> keeps K s (h u)", OF w])
  show "place x (h st) = place x (h st) \<and> keeps K s (h st)" using k by simp
  show "\<And>e'. p = Some e' \<Longrightarrow> se_sfq (ents s e') \<noteq> None \<and> e' \<noteq> TD_SE x" using e by simp
next
  fix e u b u'
  assume b: "body e u = Some (b, u')" and I: "place x (h u) = place x (h st) \<and> keeps K s (h u)"
    and Q: "se_sfq (ents s e) \<noteq> None \<and> e \<noteq> TD_SE x"
  have "keeps K (h u) (h u')" "place x (h u') = place x (h u)"
    using body [OF b] Q unfolding moves_def place_def by blast+
  then show "place x (h u') = place x (h st) \<and> keeps K s (h u')"
    using I keeps_trans by metis
next
  fix e u y
  assume I: "place x (h u) = place x (h st) \<and> keeps K s (h u)"
    and Q: "se_sfq (ents s e) \<noteq> None \<and> e \<noteq> TD_SE x" and y: "par u e = Some y"
  have "par_of s e = Some y" using y conjunct2 [OF I] by (simp add: par keeps_par)
  then show "se_sfq (ents s y) \<noteq> None \<and> y \<noteq> TD_SE x" using parent_group [OF hier] Q by fastforce
qed

lemma moves_walk:
  assumes w: "walkup par body (Some e) s = Some (r, s')" and hier: "hier_wf (h s)"
    and e: "se_sfq (ents (h s) e) \<noteq> None" "e \<noteq> TD_SE x"
    and par: "\<And>st e. par st e = par_of (h st) e"
    and body: "\<And>e st b st'. body e st = Some (b, st') \<Longrightarrow> moves K e (h st) (h st')"
  shows "place x (h s') = place x (h s) \<and> keeps K (h s) (h s')"
proof (rule moves_from [where h = h, OF w hier keeps_refl _ par body])
  show "\<And>e'. Some e = Some e' \<Longrightarrow> se_sfq (ents (h s) e') \<noteq> None \<and> e' \<noteq> TD_SE x" using e by simp
qed

text \<open>So the first step of a walk, at the entity of the thread, decides the state of the thread.\<close>

lemma walk_first:
  assumes w: "walkup par body (Some (TD_SE t)) st = Some (r, st')" and hier: "hier_wf (h st)"
    and t: "se_sfq (ents (h st) (TD_SE t)) \<noteq> None"
    and par: "\<And>st e. par st e = par_of (h st) e"
    and body: "\<And>e st b st'. body e st = Some (b, st') \<Longrightarrow> moves K e (h st) (h st')"
    and first: "\<And>b st1. body (TD_SE t) st = Some (b, st1) \<Longrightarrow> td_state (threads (h st1) t) = v"
  shows "td_state (threads (h st') t) = v"
proof -
  obtain b st1 where b: "body (TD_SE t) st = Some (b, st1)"
    "(if b then Some (Some (TD_SE t), st1) else walkup par body (par st1 (TD_SE t)) st1) = Some (r, st')"
    using w unfolding walkup.simps [of par body "Some (TD_SE t)" st] by (auto split: bind_splits)
  have k: "keeps K (h st) (h st1)" using body [OF b(1)] by (simp add: moves_def)
  show ?thesis
  proof (cases b)
    case True
    then show ?thesis using b first by simp
  next
    case False
    then have w1: "walkup par body (par st1 (TD_SE t)) st1 = Some (r, st')" using b(2) by simp
    have "place t (h st') = place t (h st1) \<and> keeps K (h st) (h st')"
    proof (rule moves_from [where h = h, OF w1 hier k _ par body])
      fix y assume "par st1 (TD_SE t) = Some y"
      then have y: "par_of (h st) (TD_SE t) = Some y" by (simp add: par keeps_par [OF k])
      obtain q where "se_sfq (ents (h st) (TD_SE t)) = Some q" using t by blast
      from parent_group(2,3) [OF hier this y] show "se_sfq (ents (h st) y) \<noteq> None \<and> y \<noteq> TD_SE t" by blast
    qed
    then show ?thesis using first [OF b(1)] by (simp add: place_def)
  qed
qed

section \<open>The proportional share class\<close>

lemma shares_up_state:
  assumes "update_shares_up K e s = Some s'"
  shows "place x s' = place x s"
proof -
  have "books s' = books s" using assms unfolding update_shares_up_def each_def
    by (auto dest: books_update_sfq_shares split: bind_splits elim!: walk_same [where f = books])
  then show ?thesis using books_ledger(3,4) [of s' s x] by (simp add: place_def)
qed

lemma pss_enqueue_states:
  assumes run: "pss_enqueue_thread K t flags s = Some s'" and hier: "hier_wf s" and t: "se_sfq (ents s (TD_SE t)) \<noteq> None" "x \<noteq> t"
  shows "place x s' = place x s"
proof -
  obtain e fl s1 s2 where w: "walkup (\<lambda>(flags, s). par_of s) (\<lambda>e (flags, s).
         if joined (ents s e) then Some (True, flags, s)
         else do { q \<leftarrow> se_sfq (ents s e); s \<leftarrow> enqueue_entity K q e flags s; Some (False, ENQUEUE_WAKEUP, s) })
       (Some (TD_SE t)) (flags, s) = Some (e, fl, s1)" "update_shares_up K e s1 = Some s2" "s' = rq_run_add t s2"
    using run unfolding pss_enqueue_thread_def td_to_se_def by (auto split: bind_splits)
  have "place x (snd (fl, s1)) = place x (snd (flags, s)) \<and> keeps K (snd (flags, s)) (snd (fl, s1))"
    by (rule moves_walk [where h = snd, OF w(1)])
      (use hier t in \<open>auto dest: moves_enqueue_entity split: bind_splits if_splits\<close>)
  then show ?thesis using shares_up_state [OF w(2), of x] by (simp add: w(3) frame_simps place_def)
qed

lemma rq_run_rem_ents: "rq_run_rem t s = Some s' \<Longrightarrow> ents s' = ents s"
  by (auto simp: rq_run_rem_def Let_def split: bind_splits if_splits)

lemma pss_dequeue_states:
  assumes run: "pss_dequeue_thread K t flags s = Some s'" and hier: "hier_wf s" and t: "se_sfq (ents s (TD_SE t)) \<noteq> None" "x \<noteq> t"
  shows "place x s' = place x s"
proof -
  define body where "body = (\<lambda>e (fl, s). do {
         q \<leftarrow> se_sfq (ents s e);
         s \<leftarrow> dequeue_entity K q e fl s;
         if weight (sfq_load (sfqs s q)) \<noteq> 0 then do {
           s \<leftarrow> (case se_parent (ents s e) of
                   Some p \<Rightarrow> if and flags DEQUEUE_SLEEP \<noteq> 0 then set_next_candidate K p s else Some s
                 | None \<Rightarrow> Some s);
           Some (True, fl, s) }
         else Some (False, or fl DEQUEUE_SLEEP, s) })"
  obtain e fl s1 s2 where w: "walkup (\<lambda>(flags, s). par_of s) body (Some (TD_SE t)) (flags, s) = Some (e, fl, s1)"
    "update_shares_up K (case e of None \<Rightarrow> None | Some e \<Rightarrow> se_parent (ents s1 e)) s1 = Some s2" "rq_run_rem t s2 = Some s'"
    using run unfolding pss_dequeue_thread_def body_def Let_def td_to_se_def by (auto split: bind_splits)
  have step: "moves K e (snd st) (snd st')" if "body e st = Some (b, st')" for e st b st'
    using that
    by (auto simp: body_def dest!: moves_dequeue_entity books_candidates(4) split: bind_splits if_splits prod.splits option.splits
        intro: moves_trans [OF _ moves_books])
  have "place x (snd (fl, s1)) = place x (snd (flags, s)) \<and> keeps K (snd (flags, s)) (snd (fl, s1))"
    by (rule moves_walk [where h = snd, OF w(1)]) (use hier t step in auto)
  then show ?thesis using shares_up_state [OF w(2), of x] rq_run_rem_ents [OF w(3)] by (simp add: agree_rq_run(4) [OF w(3)] place_def)
qed

lemma pss_each_states:
  assumes run: "do { (r, s) \<leftarrow> walkup par_of (each f) (Some (TD_SE t)) s; Some s } = Some s'"
    and f: "\<And>e st st'. f e st = Some st' \<Longrightarrow> moves K e st st'"
    and hier: "hier_wf s" and t: "se_sfq (ents s (TD_SE t)) \<noteq> None" "x \<noteq> t"
  shows "place x s' = place x s"
proof -
  obtain r where r: "walkup par_of (each f) (Some (TD_SE t)) s = Some (r, s')" using run by (auto split: bind_splits)
  show ?thesis using moves_walk [where h = "\<lambda>s. s", OF r hier t(1), of x K] f t(2) by (auto simp: each_def)
qed

lemma pss_put_prev_states:
  assumes run: "pss_put_prev_thread K t flags s = Some s'" and hier: "hier_wf s" and t: "se_sfq (ents s (TD_SE t)) \<noteq> None" "x \<noteq> t"
  shows "place x s' = place x s"
  by (rule pss_each_states [OF run [unfolded pss_put_prev_thread_def td_to_se_def] _ hier t])
    (auto dest: moves_put_prev_entity split: bind_splits)

lemma pss_activate_states:
  assumes run: "pss_activate_thread K t s = Some s'" and hier: "hier_wf s" and t: "se_sfq (ents s (TD_SE t)) \<noteq> None" "x \<noteq> t"
  shows "place x s' = place x s"
proof -
  define f where "f = (\<lambda>e s. do { q \<leftarrow> se_sfq (ents s e); activate_entity K q e s })"
  obtain s1 where s1: "do { (r, s) \<leftarrow> walkup par_of (each f) (Some (TD_SE t)) s; Some s } = Some s1"
    "s' = set_td_state TDS_RUNNING t s1"
    using run unfolding pss_activate_thread_def f_def td_to_se_def by (auto split: bind_splits)
  have "place x s1 = place x s"
    by (rule pss_each_states [OF s1(1) _ hier t]) (auto simp: f_def dest: moves_activate_entity split: bind_splits)
  then show ?thesis using s1(2) t(2) by (simp add: set_td_state_def place_def)
qed

lemma hier_my_q: "hier_wf s \<Longrightarrow> my_q (ents s (TD_SE t)) = None"
  by (simp add: hier_wf_def)

lemma pss_enqueue_state:
  assumes run: "pss_enqueue_thread K t flags s = Some s'" and hier: "hier_wf s" and t: "se_sfq (ents s (TD_SE t)) \<noteq> None"
    and j: "\<not> joined (ents s (TD_SE t))"
  shows "td_state (threads s' t) = TDS_RUNQ"
proof -
  define body where "body = (\<lambda>e (flags, s :: 'a sched).
         if joined (ents s e) then Some (True, flags, s)
         else do { q \<leftarrow> se_sfq (ents s e); s \<leftarrow> enqueue_entity K q e flags s; Some (False, ENQUEUE_WAKEUP, s) })"
  obtain e fl s1 s2 where w: "walkup (\<lambda>(flags, s). par_of s) body (Some (TD_SE t)) (flags, s) = Some (e, fl, s1)"
    "update_shares_up K e s1 = Some s2" "s' = rq_run_add t s2"
    using run unfolding pss_enqueue_thread_def td_to_se_def body_def by (auto split: bind_splits)
  have "td_state (threads (snd (fl, s1)) t) = TDS_RUNQ"
  proof (rule walk_first [where h = snd and K = K, OF w(1)])
    show "hier_wf (snd (flags, s))" "se_sfq (ents (snd (flags, s)) (TD_SE t)) \<noteq> None" using hier t by simp_all
    show "moves K e (snd st) (snd st')" if "body e st = Some (b, st')" for e st b st'
      using that by (auto simp: body_def dest: moves_enqueue_entity split: bind_splits if_splits prod.splits)
    show "td_state (threads (snd st1) t) = TDS_RUNQ" if "body (TD_SE t) (flags, s) = Some (b, st1)" for b st1
      using that j enqueue_entity_moves(2) [OF _ refl hier_my_q [OF hier]] by (auto simp: body_def split: bind_splits)
  qed auto
  then show ?thesis using shares_up_state [OF w(2), of t] by (simp add: w(3) frame_simps place_def)
qed

lemma pss_dequeue_state:
  assumes run: "pss_dequeue_thread K t flags s = Some s'"
  shows "td_state (threads s' x) = td_state (threads s x)"
proof -
  define body where "body = (\<lambda>e (fl, s :: 'a sched). do {
         q \<leftarrow> se_sfq (ents s e);
         s \<leftarrow> dequeue_entity K q e fl s;
         if weight (sfq_load (sfqs s q)) \<noteq> 0 then do {
           s \<leftarrow> (case se_parent (ents s e) of
                   Some p \<Rightarrow> if and flags DEQUEUE_SLEEP \<noteq> 0 then set_next_candidate K p s else Some s
                 | None \<Rightarrow> Some s);
           Some (True, fl, s) }
         else Some (False, or fl DEQUEUE_SLEEP, s) })"
  obtain e fl s1 s2 where w: "walkup (\<lambda>(flags, s). par_of s) body (Some (TD_SE t)) (flags, s) = Some (e, fl, s1)"
    "update_shares_up K (case e of None \<Rightarrow> None | Some e \<Rightarrow> se_parent (ents s1 e)) s1 = Some s2" "rq_run_rem t s2 = Some s'"
    using run unfolding pss_dequeue_thread_def body_def Let_def td_to_se_def by (auto split: bind_splits)
  have step: "td_state (threads (snd st') x) = td_state (threads (snd st) x)" if "body e st = Some (b, st')" for e st b st'
    using that
    by (auto simp: body_def dest!: dequeue_entity_moves(2) [where x = x] books_candidates(4) books_ledger(3) [where x = x]
        split: bind_splits if_splits prod.splits option.splits)
  have "td_state (threads (snd (fl, s1)) x) = td_state (threads (snd (flags, s)) x)"
    by (rule walk_same [where f = "\<lambda>st. td_state (threads (snd st) x)", OF w(1) step])
  then show ?thesis using shares_up_state [OF w(2), of x] by (simp add: agree_rq_run(4) [OF w(3)] place_def)
qed

lemma pss_put_prev_state:
  assumes run: "pss_put_prev_thread K t flags s = Some s'" and hier: "hier_wf s" and t: "se_sfq (ents s (TD_SE t)) \<noteq> None"
  shows "td_state (threads s' t) = (if joined (ents s (TD_SE t)) then TDS_RUNQ else td_state (threads s t))"
proof -
  define f where "f = (\<lambda>e s :: 'a sched. do { q \<leftarrow> se_sfq (ents s e); put_prev_entity K q e flags s })"
  obtain r where r: "walkup par_of (each f) (Some (TD_SE t)) s = Some (r, s')"
    using run unfolding pss_put_prev_thread_def td_to_se_def f_def by (auto split: bind_splits)
  show ?thesis
  proof (rule walk_first [where h = "\<lambda>s. s" and K = K, OF r hier t refl])
    show "moves K e st st'" if "each f e st = Some (b, st')" for e st b st'
      using that by (auto simp: each_def f_def dest: moves_put_prev_entity split: bind_splits)
    show "td_state (threads st1 t) = (if joined (ents s (TD_SE t)) then TDS_RUNQ else td_state (threads s t))"
      if "each f (TD_SE t) s = Some (b, st1)" for b st1
      using that put_prev_entity_moves(2) [OF _ refl hier_my_q [OF hier]] by (auto simp: each_def f_def split: bind_splits)
  qed
qed

lemma pss_activate_running: "pss_activate_thread K t s = Some s' \<Longrightarrow> TD_IS_RUNNING s' t"
  by (auto simp: pss_activate_thread_def TD_IS_RUNNING_def set_td_state_def bind_eq_Some_conv)

section \<open>The classes and the services\<close>

text \<open>The operation puts \<open>t\<close> into the state \<open>v\<close>, and no other thread changes its place.\<close>

definition sets_state :: "tid \<Rightarrow> td_state \<Rightarrow> 'q sched \<Rightarrow> 'q sched \<Rightarrow> bool" where
  "sets_state t v s s' \<longleftrightarrow> td_state (threads s' t) = v \<and> (\<forall>x. x \<noteq> t \<longrightarrow> place x s' = place x s)"

lemma clock_place: "place x (update_rq_clock K s) = place x s"
  by (simp add: place_def frame_simps)

lemma rt_states:
  "rt_enqueue_thread K t flags s = Some s' \<Longrightarrow> sets_state t TDS_RUNQ s s' \<and> onrunq (ents s' (TD_SE t))"
  "rt_dequeue_thread K t flags s = Some s' \<Longrightarrow> sets_state t (td_state (threads s t)) s s'"
  "rt_put_prev_thread K t flags s = Some s' \<Longrightarrow>
     sets_state t (if joined (ents s (TD_SE t)) then TDS_RUNQ else td_state (threads s t)) s s' \<and>
     (joined (ents s (TD_SE t)) \<longrightarrow> onrunq (ents s' (TD_SE t)))"
proof -
  assume "rt_enqueue_thread K t flags s = Some s'"
  then show "sets_state t TDS_RUNQ s s' \<and> onrunq (ents s' (TD_SE t))"
    by (auto simp: rt_enqueue_thread_def sets_state_def place_def Let_def td_to_se_def set_td_state_def frame_simps split: bind_splits)
next
  assume run: "rt_dequeue_thread K t flags s = Some s'"
  show "sets_state t (td_state (threads s t)) s s'"
  proof (cases "joined (ents s (TD_SE t))")
    case False
    then show ?thesis using run by (simp add: rt_dequeue_thread_def td_to_se_def sets_state_def)
  next
    case True
    define s1 where "s1 = (if onrunq (ents s (TD_SE t))
      then upd_se (TD_SE t) (\<lambda>se. se\<lparr>onrunq := False\<rparr>) (upd_rq (\<lambda>r. r\<lparr>realtime := runq_remove K (realtime r) t\<rparr>) s) else s)"
    obtain s2 where s2: "rq_run_rem t s1 = Some s2" "s' = upd_se (TD_SE t) (\<lambda>se. se\<lparr>joined := False\<rparr>) s2"
      using run True by (auto simp: rt_dequeue_thread_def td_to_se_def Let_def s1_def split: bind_splits)
    have "threads s2 = threads s1" "ents s2 = ents s1" using s2(1) agree_rq_run(4) [OF s2(1)] rq_run_rem_ents [OF s2(1)] by simp_all
    then show ?thesis by (simp add: sets_state_def place_def s2(2) s1_def)
  qed
next
  assume "rt_put_prev_thread K t flags s = Some s'"
  then show "sets_state t (if joined (ents s (TD_SE t)) then TDS_RUNQ else td_state (threads s t)) s s' \<and>
      (joined (ents s (TD_SE t)) \<longrightarrow> onrunq (ents s' (TD_SE t)))"
    by (auto simp: rt_put_prev_thread_def sets_state_def place_def Let_def td_to_se_def set_td_state_def split: bind_splits if_splits)
qed

lemma rt_activate_state:
  assumes "rt_activate_thread K t s = Some s'"
  shows "sets_state t TDS_RUNNING s s'"
  using assms
  by (auto simp: rt_activate_thread_def sets_state_def place_def Let_def td_to_se_def set_td_state_def cpu_clock_def split_beta
      split: bind_splits)

text \<open>The services read the clock first, and then call the class of the thread.\<close>

lemma hier_clock: "hier_wf (update_rq_clock K s) = hier_wf s"
  unfolding hier_wf_def thread_ok_def entity_is_thread_def update_rq_clock_frame by (rule refl)

lemma clock_sets_state: "sets_state t v (update_rq_clock K s) s' = sets_state t v s s'"
  by (simp add: sets_state_def clock_place)

lemma enqueue_thread_state:
  assumes run: "enqueue_thread K t flags s = Some s'" and hier: "hier_wf s" and t: "can_start t s"
    and c: "td_class (threads s t) \<noteq> idle_class"
  shows "sets_state t TDS_RUNQ s s'" "td_class (threads s t) = realtime_class \<Longrightarrow> onrunq (ents s' (TD_SE t))"
proof -
  let ?s = "update_rq_clock K s"
  have h: "hier_wf ?s" "se_sfq (ents ?s (TD_SE t)) \<noteq> None" "\<not> joined (ents ?s (TD_SE t))"
    using hier t by (simp_all add: hier_clock can_start_def frame_simps)
  have "sets_state t TDS_RUNQ ?s s' \<and> (td_class (threads s t) = realtime_class \<longrightarrow> onrunq (ents s' (TD_SE t)))"
  proof (cases "td_class (threads s t)")
    case realtime_class
    then show ?thesis using run rt_states(1) by (simp add: enqueue_thread_def thread_class_def frame_simps)
  next
    case pss_class
    then have r: "pss_enqueue_thread K t flags ?s = Some s'" using run by (simp add: enqueue_thread_def thread_class_def frame_simps)
    show ?thesis using pss_class pss_enqueue_state [OF r h] pss_enqueue_states [OF r h(1,2)] by (simp add: sets_state_def)
  qed (use c in simp)
  then show "sets_state t TDS_RUNQ s s'" "td_class (threads s t) = realtime_class \<Longrightarrow> onrunq (ents s' (TD_SE t))"
    by (simp_all add: clock_sets_state)
qed

lemma dequeue_thread_state:
  assumes run: "dequeue_thread K t flags s = Some s'" and hier: "hier_wf s"
    and t: "td_class (threads s t) = pss_class \<Longrightarrow> se_sfq (ents s (TD_SE t)) \<noteq> None"
  shows "sets_state t (td_state (threads s t)) s s'"
proof -
  let ?s = "update_rq_clock K s"
  have "sets_state t (td_state (threads ?s t)) ?s s'"
  proof (cases "td_class (threads s t)")
    case realtime_class
    then show ?thesis using run rt_states(2) [of K t flags ?s s'] by (simp add: dequeue_thread_def thread_class_def frame_simps)
  next
    case pss_class
    then have r: "pss_dequeue_thread K t flags ?s = Some s'" using run by (simp add: dequeue_thread_def thread_class_def frame_simps)
    have "hier_wf ?s" "se_sfq (ents ?s (TD_SE t)) \<noteq> None" using hier t [OF pss_class] by (simp_all add: hier_clock frame_simps)
    then show ?thesis using pss_dequeue_state [OF r] pss_dequeue_states [OF r] by (simp add: sets_state_def)
  next
    case idle_class
    then show ?thesis using run by (simp add: dequeue_thread_def thread_class_def frame_simps idle_dequeue_thread_def sets_state_def)
  qed
  then show ?thesis by (simp add: clock_sets_state frame_simps)
qed

lemma put_prev_thread_state:
  assumes run: "put_prev_thread K t flags s = Some s'" and hier: "hier_wf s"
    and t: "td_class (threads s t) = pss_class \<Longrightarrow> se_sfq (ents s (TD_SE t)) \<noteq> None"
  defines "v \<equiv> if td_class (threads s t) = idle_class then TDS_CAN_RUN
    else if t \<in> joined_tds s then TDS_RUNQ else td_state (threads s t)"
  shows "sets_state t v s s'"
    "td_class (threads s t) = realtime_class \<Longrightarrow> t \<in> joined_tds s \<Longrightarrow> onrunq (ents s' (TD_SE t))"
proof -
  define s1 where "s1 = (if joined (ents s (TD_SE t)) then update_rq_clock K s else s)"
  have f: "threads s1 = threads s" "ents s1 = ents s" "hier_wf s1" "sets_state t v s1 s' = sets_state t v s s'"
    using hier by (simp_all add: s1_def frame_simps hier_clock clock_sets_state)
  have r: "class_put_prev_thread K (td_class (threads s t)) t flags s1 = Some s'"
    using run by (simp add: put_prev_thread_def s1_def thread_class_def td_to_se_def Let_def frame_simps split: if_splits)
  have "sets_state t v s1 s' \<and> (td_class (threads s t) = realtime_class \<longrightarrow> t \<in> joined_tds s \<longrightarrow> onrunq (ents s' (TD_SE t)))"
  proof (cases "td_class (threads s t)")
    case realtime_class
    then show ?thesis using rt_states(3) [of K t flags s1 s'] r f(1,2) by (auto simp: v_def joined_tds_def split: if_splits)
  next
    case pss_class
    then have p: "pss_put_prev_thread K t flags s1 = Some s'" "se_sfq (ents s1 (TD_SE t)) \<noteq> None" using r t f by simp_all
    show ?thesis using pss_put_prev_state [OF p(1) f(3) p(2)] pss_put_prev_states [OF p(1) f(3) p(2)] pss_class
      by (simp add: sets_state_def v_def joined_tds_def f(1,2))
  next
    case idle_class
    then show ?thesis using r by (auto simp: idle_put_prev_thread_def sets_state_def place_def set_td_state_def v_def)
  qed
  then show "sets_state t v s s'"
    "td_class (threads s t) = realtime_class \<Longrightarrow> t \<in> joined_tds s \<Longrightarrow> onrunq (ents s' (TD_SE t))"
    using f(4) by blast+
qed

lemma class_activate_state:
  assumes run: "class_activate_thread K c t s = Some s'" and hier: "hier_wf s" and t: "c = pss_class \<Longrightarrow> se_sfq (ents s (TD_SE t)) \<noteq> None"
  shows "sets_state t TDS_RUNNING s s'"
proof (cases c)
  case realtime_class
  then show ?thesis using run rt_activate_state by simp
next
  case pss_class
  then have r: "pss_activate_thread K t s = Some s'" using run by simp
  show ?thesis using pss_activate_running [OF r] pss_activate_states [OF r hier t [OF pss_class]]
    by (simp add: sets_state_def TD_IS_RUNNING_def)
next
  case idle_class
  then show ?thesis using run by (auto simp: idle_activate_thread_def sets_state_def place_def set_td_state_def)
qed

section \<open>The states agree with the queues\<close>

text \<open>A thread that does not run: held by the scheduler it is queued and says so, else it is neither queued nor running.\<close>

definition in_line :: "tid \<Rightarrow> 'q sched \<Rightarrow> bool" where
  "in_line t s \<longleftrightarrow> (if t \<in> joined_tds s
     then td_state (threads s t) = TDS_RUNQ \<and> (t \<in> runnable s \<or> onrunq (ents s (TD_SE t)))
     else td_state (threads s t) \<noteq> TDS_RUNQ \<and> td_state (threads s t) \<noteq> TDS_RUNNING)"

text \<open>All threads but those of \<open>P\<close>.\<close>

definition lined_up :: "tid set \<Rightarrow> 'q sched \<Rightarrow> bool" where
  "lined_up P s \<longleftrightarrow> (\<forall>t. t \<notin> P \<longrightarrow> in_line t s)"

lemma in_line_same:
  assumes "place t s' = place t s" "t \<in> joined_tds s' \<longleftrightarrow> t \<in> joined_tds s" "t \<in> runnable s' \<longleftrightarrow> t \<in> runnable s"
  shows "in_line t s' = in_line t s"
  using assms by (simp add: in_line_def place_def)

lemma lined_up_same:
  assumes "\<And>x. place x s' = place x s" "joined_tds s' = joined_tds s" "runnable s' = runnable s"
  shows "lined_up P s' = lined_up P s"
  using in_line_same [OF assms(1)] assms(2,3) by (simp add: lined_up_def)

lemma lined_up_out:
  assumes "lined_up P s" "sets_state t v s s'" "joined_tds s' - {t} = joined_tds s - {t}" "runnable s' - {t} = runnable s - {t}"
  shows "lined_up (insert t P) s'"
  unfolding lined_up_def
proof (intro allI impI)
  fix x assume x: "x \<notin> insert t P"
  have "x \<in> joined_tds s' \<longleftrightarrow> x \<in> joined_tds s" "x \<in> runnable s' \<longleftrightarrow> x \<in> runnable s" using x assms(3,4) by blast+
  then show "in_line x s'" using in_line_same [of x s' s] x assms(1,2) by (simp add: lined_up_def sets_state_def)
qed

lemma lined_up_in: "lined_up (insert t P) s \<Longrightarrow> in_line t s \<Longrightarrow> lined_up P s"
  unfolding lined_up_def by (metis insertE)

lemma lined_up_mono: "lined_up P s \<Longrightarrow> P \<subseteq> Q \<Longrightarrow> lined_up Q s"
  unfolding lined_up_def by blast

lemma quiet_place: "quiet s s' \<Longrightarrow> \<forall>x. td_state (threads s' x) = td_state (threads s x) \<Longrightarrow> place x s' = place x s"
  by (simp add: quiet_def place_def)

lemma quiet_lined_up:
  assumes "quiet s s'" "\<forall>x. td_state (threads s' x) = td_state (threads s x)"
  shows "lined_up P s' = lined_up P s"
  by (rule lined_up_same) (use assms quiet_place [OF assms] quiet_good(2) [OF assms(1)] in \<open>simp_all add: joined_tds_def quiet_def\<close>)

end
