(* ===== verification/Sched_Run.thy ===== *)
theory Sched_Run
  imports Thread_Place
begin

text \<open>
  The services of \<open>sched.c\<close> over the classes: the choice of the next thread and the switch never
  trap, and what runs afterwards comes from the first class that has something to run.
\<close>

section \<open>Activating through the classes\<close>

text \<open>
  The thread that has the processor: one of the proportional share class has its groups running
  too; one of the real-time class is off the run queue; the idle thread is of no queue.
\<close>

definition on_processor :: "'q kern \<Rightarrow> tid \<Rightarrow> 'q sched \<Rightarrow> bool" where
  "on_processor K t s \<longleftrightarrow> (if t \<in> runnable s then on_cpu t s
     else idle_queues s \<and> (t = idlethread K \<or>
       td_class (threads s t) = realtime_class \<and> t \<in> joined_tds s \<and> \<not> onrunq (ents s (TD_SE t))))"

definition dispatched :: "'q kern \<Rightarrow> tid \<Rightarrow> 'q sched \<Rightarrow> bool" where
  "dispatched K t s \<longleftrightarrow> on_processor K t s \<and> TD_IS_RUNNING s t"

lemma quiet_on_processor: "quiet s s' \<Longrightarrow> on_processor K t s' = on_processor K t s"
  using quiet_good(2-4) [of s s'] by (simp add: on_processor_def joined_tds_def) (simp add: quiet_def)

lemma quiet_dispatched:
  "quiet s s' \<Longrightarrow> \<forall>x. td_state (threads s' x) = td_state (threads s x) \<Longrightarrow> dispatched K t s' = dispatched K t s"
  by (simp add: dispatched_def quiet_on_processor TD_IS_RUNNING_def)

text \<open>Each operation of the proportional share class keeps the scheduler's invariant.\<close>

lemma sched_good_pss:
  assumes good: "sched_good K C s" and K: "runq_laws K C" and g: "pss_good s'" and st: "same_static s s'"
    and cls: "\<And>t. td_class (threads s' t) = td_class (threads s t)" and a: "agree C s \<Longrightarrow> agree C s'"
    and R: "\<And>t. t \<in> runnable s' \<Longrightarrow> td_class (threads s t) = pss_class"
    and J: "\<And>t. t \<in> joined_tds s' \<Longrightarrow> t \<in> runnable s' \<or> t \<in> joined_tds s \<and> t \<notin> runnable s"
  shows "sched_good K C s'"
proof -
  have "t \<in> joined_tds s' \<Longrightarrow> se_sfq (ents s' (TD_SE t)) \<noteq> None \<and> (t \<in> runnable s' \<or> td_class (threads s' t) = realtime_class)" for t
  proof -
    assume t: "t \<in> joined_tds s'"
    show ?thesis
    proof (cases "t \<in> runnable s'")
      case True
      then show ?thesis by (auto simp: runnable_def)
    next
      case False
      then have j: "t \<in> joined_tds s" "t \<notin> runnable s" using J [OF t] by blast+
      then have "se_sfq (ents s (TD_SE t)) \<noteq> None" using good unfolding sched_good_def by blast
      then show ?thesis using sched_goodD(6) [OF good j] same_static_sfq [OF st] cls by simp
    qed
  qed
  then show ?thesis using good g cls a R unfolding sched_good_def by simp
qed

lemma good_hier: "pss_good s \<Longrightarrow> hier_wf s"
  by (auto simp: pss_good_def dest: pss_invD(5))

lemma class_activate_ok:
  assumes good: "sched_good K C s" and K: "runq_laws K C" and idle: "idle_queues s"
    and t: "t \<in> runnable s \<or> onrunq (ents s (TD_SE t)) \<or> t = idlethread K"
  shows "\<exists>s'. class_activate_thread K (thread_class s t) t s = Some s' \<and> sched_good K C s' \<and> dispatched K t s' \<and>
    runnable s' = runnable s \<and> curthread s' = curthread s \<and> joined_tds s' = joined_tds s \<and> sets_state t TDS_RUNNING s s'"
proof -
  note G = sched_goodD [OF good]
  have sq: "thread_class s t = pss_class \<Longrightarrow> se_sfq (ents s (TD_SE t)) \<noteq> None"
    using t G(4) G(5) [of t] G(6) [of t] by (auto simp: thread_class_def runnable_def)
  have state: "sets_state t TDS_RUNNING s s'" if "class_activate_thread K (thread_class s t) t s = Some s'" for s'
    by (rule class_activate_state [OF that good_hier [OF G(1)] sq])
  consider "t \<in> runnable s" | "t \<notin> runnable s" "onrunq (ents s (TD_SE t))" | "t \<notin> runnable s" "\<not> onrunq (ents s (TD_SE t))"
    by blast
  then show ?thesis
  proof cases
    case 1
    from activate_good [OF G(1) idle 1, where K = K] obtain s' where s': "pss_activate_thread K t s = Some s'"
      "pss_good s'" "on_cpu t s'" "runnable s' = runnable s" "same_static s s'" "joined_tds s' = joined_tds s" by blast
    note k = keeps_activate [OF s'(1)]
    have "sched_good K C s'"
      by (rule sched_good_pss [OF good K s'(2,5) keeps_class [OF k] keeps_agree [OF k K]])
        (use s'(4,6) G(3) in auto)
    then show ?thesis using 1 s' G(3) pss_activate_running [OF s'(1)] keeps_curthread [OF k] state [of s']
      by (simp add: dispatched_def on_processor_def thread_class_def)
  next
    case 2
    from rt_activate_ok [OF good K idle 2] obtain s' where s': "rt_activate_thread K t s = Some s'" "sched_good K C s'"
      "idle_queues s'" "runnable s' = runnable s" "TD_IS_RUNNING s' t" "td_class (threads s' t) = realtime_class"
      "t \<in> joined_tds s'" "\<not> onrunq (ents s' (TD_SE t))" "curthread s' = curthread s" "joined_tds s' = joined_tds s" by blast
    have "dispatched K t s'" using s' 2 by (simp add: dispatched_def on_processor_def)
    then show ?thesis using s' G(6) [OF G(5) [OF 2(2)] 2(1)] state [of s'] by (simp add: thread_class_def)
  next
    case 3
    then have "td_class (threads s t) = idle_class" using t G(4) by blast
    moreover have "quiet s (set_td_state TDS_RUNNING t s)" by simp
    note q = quiet_good [OF this]
    have "TD_IS_RUNNING (set_td_state TDS_RUNNING t s) t" by (simp add: TD_IS_RUNNING_def set_td_state_def)
    moreover have "joined_tds (set_td_state TDS_RUNNING t s) = joined_tds s" by (simp add: joined_tds_def)
    moreover note state [of "set_td_state TDS_RUNNING t s"]
    ultimately show ?thesis using 3 t q idle good
      by (simp add: thread_class_def idle_activate_thread_def dispatched_def on_processor_def) (simp add: set_td_state_def)
  qed
qed

section \<open>The choice\<close>

text \<open>The first thread of the kernel's run queue, else a fair one of the proportional share class, else the idle thread.\<close>

definition class_order :: "'q kern \<Rightarrow> 'q sched \<Rightarrow> tid \<Rightarrow> bool" where
  "class_order K s t \<longleftrightarrow> (case runq_choose K (realtime (rq s)) of
     Some r \<Rightarrow> t = r
   | None \<Rightarrow> if runnable s = {} then t = idlethread K else t \<in> runnable s)"

lemma sched_choose_ok:
  assumes good: "sched_good K C s" and K: "runq_laws K C" and idle: "idle_queues s"
  shows "\<exists>t s'. sched_choose K s = Some (t, s') \<and> sched_good K C s' \<and> dispatched K t s' \<and> runnable s' = runnable s \<and>
    curthread s' = curthread s \<and> class_order K s t \<and> joined_tds s' = joined_tds s \<and> sets_state t TDS_RUNNING s s'"
proof (cases "runq_choose K (realtime (rq s))")
  case (Some t)
  note G = sched_goodD [OF good]
  have "t \<in> C (realtime (rq s))" using K Some unfolding runq_laws_def by blast
  then have "onrunq (ents s (TD_SE t))" using G(2) by (simp add: agree_def)
  from class_activate_ok [OF good K idle, of t] this obtain s' where
    "class_activate_thread K (thread_class s t) t s = Some s'" "sched_good K C s'" "dispatched K t s'" "runnable s' = runnable s"
    "curthread s' = curthread s" "joined_tds s' = joined_tds s" "sets_state t TDS_RUNNING s s'" by blast
  then show ?thesis using Some
    by (simp add: class_order_def sched_choose_def rt_pick_next_thread_def choose_from.simps [where cls = "Some realtime_class"])
next
  case None
  note G = sched_goodD [OF good]
  from pick_good [OF G(1) idle] obtain r s1 where r: "pss_pick_next_thread s = Some (r, s1)" "pss_good s1" "idle_queues s1"
    "runnable s1 = runnable s" "case r of None \<Rightarrow> runnable s = {} | Some t \<Rightarrow> t \<in> runnable s"
    "same_static s s1" "joined_tds s1 = joined_tds s" by blast
  note k = keeps_books [OF books_pick [OF r(1)], where K = K]
  have g1: "sched_good K C s1"
    by (rule sched_good_pss [OF good K r(2,6) keeps_class [OF k] keeps_agree [OF k K]]) (use r(4,7) G(3) in auto)
  have c1: "sched_choose K s = (case r of
      Some t \<Rightarrow> do { s \<leftarrow> class_activate_thread K (thread_class s1 t) t s1; Some (t, s) }
    | None \<Rightarrow> do { s \<leftarrow> class_activate_thread K (thread_class s1 (idlethread K)) (idlethread K) s1; Some (idlethread K, s) })"
    using None r(1)
    by (simp add: sched_choose_def rt_pick_next_thread_def choose_from.simps [where cls = "Some realtime_class"]
        choose_from.simps [where cls = "Some pss_class"] choose_from.simps [where cls = "Some idle_class"]
        idle_pick_next_thread_def split: option.splits)
  define t where "t = (case r of Some t \<Rightarrow> t | None \<Rightarrow> idlethread K)"
  have "t \<in> runnable s1 \<or> onrunq (ents s1 (TD_SE t)) \<or> t = idlethread K"
    using r(4,5) by (auto simp: t_def split: option.splits)
  from class_activate_ok [OF g1 K r(3) this] obtain s' where s': "class_activate_thread K (thread_class s1 t) t s1 = Some s'"
    "sched_good K C s'" "dispatched K t s'" "runnable s' = runnable s1" "curthread s' = curthread s1" "joined_tds s' = joined_tds s1"
    "sets_state t TDS_RUNNING s1 s'" by blast
  have "sets_state t TDS_RUNNING s s'" using s'(7) books_place [OF books_pick [OF r(1)]] by (simp add: sets_state_def)
  moreover have "sched_choose K s = Some (t, s')" using c1 s'(1) by (simp add: t_def split: option.splits)
  moreover have "if runnable s = {} then t = idlethread K else t \<in> runnable s"
    using r(5) by (auto simp: t_def split: option.splits)
  ultimately show ?thesis using None s'(2-6) r(4,7) keeps_curthread [OF k] by (simp add: class_order_def)
qed

section \<open>The forwarding services\<close>

lemma thread_class_quiet: "quiet s s' \<Longrightarrow> thread_class s' t = thread_class s t"
  by (simp add: quiet_def thread_class_def)

lemma put_prev_thread_good:
  assumes good: "sched_good K C s" and K: "runq_laws K C"
    and t: "on_cpu t s \<and> td_class (threads s t) = pss_class \<or> t = idlethread K \<and> idle_queues s \<or>
      td_class (threads s t) = realtime_class \<and> \<not> onrunq (ents s (TD_SE t)) \<and> idle_queues s"
  shows "\<exists>s'. put_prev_thread K t flags s = Some s' \<and> sched_good K C s' \<and> idle_queues s' \<and> runnable s' = runnable s \<and>
    joined_tds s' = joined_tds s \<and> curthread s' = curthread s"
proof -
  define s1 where "s1 = (if joined (ents s (td_to_se t)) then update_rq_clock K s else s)"
  have q1: "quiet s s1" by (simp add: s1_def)
  note Q = quiet_good [OF q1]
  have g1: "sched_good K C s1" by (rule Q(6) [OF good])
  have j1: "joined_tds s1 = joined_tds s" using q1 by (simp add: joined_tds_def quiet_def)
  have ct: "curthread s1 = curthread s" by (simp add: s1_def frame_simps)
  have run: "put_prev_thread K t flags s = class_put_prev_thread K (thread_class s t) t flags s1"
    using thread_class_quiet [OF q1] by (simp add: put_prev_thread_def s1_def Let_def)
  from t consider "on_cpu t s \<and> td_class (threads s t) = pss_class" | "t = idlethread K \<and> idle_queues s"
    | "td_class (threads s t) = realtime_class \<and> \<not> onrunq (ents s (TD_SE t)) \<and> idle_queues s" by blast
  then show ?thesis
  proof cases
    assume c: "on_cpu t s \<and> td_class (threads s t) = pss_class"
    then have "on_cpu t s1" by (simp add: Q(3))
    from put_prev_good [OF sched_goodD(1) [OF g1] this, where K = K and flags = flags] obtain s' where s':
      "pss_put_prev_thread K t flags s1 = Some s'" "pss_good s'" "idle_queues s'" "runnable s' = runnable s1"
      "same_static s1 s'" "joined_tds s' = joined_tds s1" by blast
    note k = keeps_put_prev [OF s'(1)]
    have "sched_good K C s'"
      by (rule sched_good_pss [OF g1 K s'(2,5) keeps_class [OF k] keeps_agree [OF k K]])
        (use s'(4,6) sched_goodD(3) [OF g1] in auto)
    then show ?thesis using run c s' Q(2) j1 ct keeps_curthread [OF k] by (simp add: thread_class_def)
  next
    assume i: "t = idlethread K \<and> idle_queues s"
    have q2: "quiet s1 (set_td_state TDS_CAN_RUN t s1)" by simp
    note Q2 = quiet_good [OF q2]
    have "joined_tds (set_td_state TDS_CAN_RUN t s1) = joined_tds s1" by (simp add: joined_tds_def)
    then show ?thesis using run i Q2(2,4,6) g1 Q(2,4) j1 sched_goodD(4) [OF good] ct
      by (simp add: thread_class_def idle_put_prev_thread_def) (simp add: set_td_state_def)
  next
    assume r: "td_class (threads s t) = realtime_class \<and> \<not> onrunq (ents s (TD_SE t)) \<and> idle_queues s"
    have "td_class (threads s1 t) = realtime_class" "\<not> onrunq (ents s1 (TD_SE t))" using r q1 by (simp_all add: quiet_def)
    from rt_put_prev_ok [OF g1 K _ this, where flags = flags] r Q(2,4) j1 ct run show ?thesis
      by (simp add: thread_class_def)
  qed
qed

text \<open>The entities above a thread stand for groups, so at most one thread is running on a queue.\<close>

lemma chain_groups:
  assumes "hier_wf s" "chain (par_of s) (Some x) (x # es)" "se_sfq (ents s x) \<noteq> None"
  shows "\<forall>y\<in>set es. \<exists>n. y = ZONE_SE n"
  using assms(2,3)
proof (induction es arbitrary: x)
  case (Cons y es)
  then have y: "par_of s x = Some y" "chain (par_of s) (Some y) (y # es)" by simp_all
  obtain q where q: "se_sfq (ents s x) = Some q" using Cons.prems(2) by blast
  from parent_group [OF assms(1) q y(1)] Cons.IH [OF y(2)] show ?case by auto
qed simp

lemma runs_unique:
  assumes "pss_inv X s" "on_cpu u s" "curr (sfqs s q) = Some (TD_SE t)"
  shows "t = u"
proof -
  obtain es where es: "chain (par_of s) (Some (TD_SE u)) es" "runs_chain s es" "se_sfq (ents s (TD_SE u)) \<noteq> None"
    using assms(2) by (auto simp: on_cpu_def runs_def)
  then obtain es' where e: "es = TD_SE u # es'" by (cases es) auto
  have "TD_SE t \<in> set es" using es(2) assms(3) unfolding runs_chain_def by blast
  then show ?thesis using chain_groups [OF pss_invD(5) [OF assms(1)] es(1) [unfolded e] es(3)] e by auto
qed

lemma outside_ok:
  assumes good: "pss_good s" and t: "se_sfq (ents s (TD_SE t)) \<noteq> None" "t \<notin> runnable s"
    and c: "idle_queues s \<or> (\<exists>u\<in>runnable s. on_cpu u s)"
  shows "outside t s"
proof -
  obtain X where X: "pss_inv X s" using good by (auto simp: pss_good_def)
  note P = pss_invD [OF X]
  have "\<not> onsfq (ents s (TD_SE t))"
    using t not_joined_off [OF P(1), of "TD_SE t"] by (auto simp: runnable_def)
  moreover have "curr (sfqs s q) \<noteq> Some (TD_SE t)" for q
    using c t(2) runs_unique [OF X] unfolding idle_queues_def by fastforce
  ultimately show ?thesis by (simp add: outside_def)
qed

lemma enqueue_thread_good:
  assumes good: "sched_good K C s" and K: "runq_laws K C" and t: "can_start t s" "td_class (threads s t) \<noteq> idle_class"
    and c: "idle_queues s \<or> (\<exists>u\<in>runnable s. on_cpu u s)"
  shows "\<exists>s'. enqueue_thread K t flags s = Some s' \<and> sched_good K C s' \<and>
    runnable s' = (if td_class (threads s t) = pss_class then insert t (runnable s) else runnable s) \<and>
    joined_tds s' = insert t (joined_tds s) \<and>
    (idle_queues s \<longrightarrow> idle_queues s') \<and> (\<forall>u. on_cpu u s \<longrightarrow> on_cpu u s') \<and> same_static s s' \<and> curthread s' = curthread s \<and>
    (\<forall>x. td_class (threads s' x) = td_class (threads s x)) \<and>
    (\<forall>x. x \<noteq> t \<longrightarrow> onrunq (ents s' (TD_SE x)) = onrunq (ents s (TD_SE x)))"
proof -
  define s1 where "s1 = update_rq_clock K s"
  have q1: "quiet s s1" by (simp add: s1_def)
  note Q = quiet_good [OF q1]
  have g1: "sched_good K C s1" by (rule Q(6) [OF good])
  have o1: "ents s1 = ents s" using q1 by (simp add: quiet_def)
  have st1: "can_start t s1" "same_static s s1" "\<And>x. td_class (threads s1 x) = td_class (threads s x)" "curthread s1 = curthread s"
    "joined_tds s1 = joined_tds s"
    using t q1 by (simp_all add: can_start_def quiet_def same_static_def joined_tds_def) (simp add: s1_def frame_simps)
  have c1: "idle_queues s1 \<or> (\<exists>u\<in>runnable s1. on_cpu u s1)" using c by (simp add: Q)
  have run: "enqueue_thread K t flags s = class_enqueue_thread K (td_class (threads s t)) t flags s1"
    by (simp add: enqueue_thread_def s1_def [symmetric] thread_class_def st1(3))
  show ?thesis
  proof (cases "td_class (threads s t)")
    case pss_class
    from enqueue_good [OF sched_goodD(1) [OF g1] st1(1) c1, where K = K and flags = flags] obtain s' where s':
      "pss_enqueue_thread K t flags s1 = Some s'" "pss_good s'" "runnable s' = insert t (runnable s1)"
      "idle_queues s1 \<longrightarrow> idle_queues s'" "\<forall>u. on_cpu u s1 \<longrightarrow> on_cpu u s'" "same_static s1 s'"
      "joined_tds s' = insert t (joined_tds s1)" "curthread s' = curthread s1"
      "\<forall>x. x \<noteq> t \<longrightarrow> onrunq (ents s' (TD_SE x)) = onrunq (ents s1 (TD_SE x))" by blast
    note k = enqueue_thread_keeps [OF s'(1)]
    have "sched_good K C s'"
      by (rule sched_good_pss [OF g1 K s'(2,6) k(1) k(2) [OF K]])
        (use s'(3,7) sched_goodD(3) [OF g1] pss_class st1(3) in auto)
    then show ?thesis using run pss_class s' Q st1 k(1) o1 same_static_trans by auto
  next
    case realtime_class
    have nr: "t \<notin> runnable s1" "se_sfq (ents s1 (TD_SE t)) \<noteq> None" using st1(1) by (auto simp: can_start_def runnable_def)
    have out: "outside t s1" by (rule outside_ok [OF sched_goodD(1) [OF g1] nr(2,1) c1])
    have "td_class (threads s1 t) = realtime_class" using realtime_class st1(3) by simp
    from rt_enqueue_ok [OF g1 K out this st1(1), where flags = flags] obtain s' where s': "rt_enqueue_thread K t flags s1 = Some s'"
      "sched_good K C s'" "runnable s' = runnable s1" "joined_tds s' = insert t (joined_tds s1)" "flags_only t s1 s'" by blast
    note F = flags_only_same [OF s'(5) out]
    have "\<forall>x. x \<noteq> t \<longrightarrow> onrunq (ents s' (TD_SE x)) = onrunq (ents s (TD_SE x))"
      using flags_only_ents(6) [OF s'(5)] o1 by simp
    moreover have "td_class (threads s' x) = td_class (threads s x)" for x using s'(5) st1(3) by (simp add: flags_only_def)
    ultimately show ?thesis using run realtime_class s' F Q st1 same_static_trans [OF st1(2) F(4)] by simp
  qed (use t in simp)
qed

lemma dequeue_thread_good:
  assumes good: "sched_good K C s" and K: "runq_laws K C" and t: "t \<in> joined_tds s" and few: "int_counts s"
    and c: "idle_queues s \<or> (\<exists>u\<in>runnable s. on_cpu u s)"
  shows "\<exists>s'. dequeue_thread K t flags s = Some s' \<and> sched_good K C s' \<and> runnable s' = runnable s - {t} \<and>
    (idle_queues s \<longrightarrow> idle_queues s') \<and> (\<forall>u. on_cpu u s \<longrightarrow> on_cpu u s') \<and> same_static s s' \<and> curthread s' = curthread s \<and>
    (\<forall>x. td_class (threads s' x) = td_class (threads s x)) \<and> joined_tds s' = joined_tds s - {t} \<and>
    (t \<notin> runnable s \<longrightarrow> \<not> onrunq (ents s' (TD_SE t)))"
proof -
  define s1 where "s1 = update_rq_clock K s"
  have q1: "quiet s s1" by (simp add: s1_def)
  note Q = quiet_good [OF q1]
  have g1: "sched_good K C s1" by (rule Q(6) [OF good])
  have st1: "same_static s s1" "\<And>x. td_class (threads s1 x) = td_class (threads s x)" "curthread s1 = curthread s"
    "joined_tds s1 = joined_tds s"
    using q1 by (simp_all add: quiet_def same_static_def joined_tds_def) (simp add: s1_def frame_simps)
  have c1: "idle_queues s1 \<or> (\<exists>u\<in>runnable s1. on_cpu u s1)" using c by (simp add: Q)
  have run: "dequeue_thread K t flags s = class_dequeue_thread K (td_class (threads s t)) t flags s1"
    by (simp add: dequeue_thread_def s1_def [symmetric] thread_class_def st1(2))
  show ?thesis
  proof (cases "t \<in> runnable s")
    case True
    then have t1: "t \<in> runnable s1" "int_counts s1" using few by (simp_all add: Q)
    from dequeue_good [OF sched_goodD(1) [OF g1] t1(2,1), where K = K and flags = flags] obtain s' where s':
      "pss_dequeue_thread K t flags s1 = Some s'" "pss_good s'" "runnable s' = runnable s1 - {t}"
      "idle_queues s1 \<longrightarrow> idle_queues s'" "\<forall>u. on_cpu u s1 \<longrightarrow> on_cpu u s'" "same_static s1 s'"
      "joined_tds s' = joined_tds s1 - {t}" "curthread s' = curthread s1" by blast
    note k = dequeue_thread_keeps [OF s'(1)]
    have "sched_good K C s'"
      by (rule sched_good_pss [OF g1 K s'(2,6) k(1) k(2) [OF K]])
        (use s'(3,7) sched_goodD(3) [OF g1] in auto)
    moreover have "dequeue_thread K t flags s = Some s'" using s'(1) sched_goodD(3) [OF good True] run by simp
    ultimately show ?thesis using True s' Q st1 k(1) same_static_trans by auto
  next
    case False
    have rt: "td_class (threads s1 t) = realtime_class" using sched_goodD(6) [OF good t False] st1(2) by simp
    have t1: "t \<notin> runnable s1" "t \<in> joined_tds s1" using False t by (simp_all add: Q st1)
    have out: "outside t s1" by (rule outside_ok [OF sched_goodD(1) [OF g1] sched_good_sfq [OF g1 t1(2)] t1(1) c1])
    from rt_dequeue_ok [OF g1 K out rt t1(2), where flags = flags] obtain s' where s': "rt_dequeue_thread K t flags s1 = Some s'"
      "sched_good K C s'" "runnable s' = runnable s1" "joined_tds s' = joined_tds s1 - {t}" "flags_only t s1 s'"
      "\<not> onrunq (ents s' (TD_SE t))" by blast
    note F = flags_only_same [OF s'(5) out]
    have "td_class (threads s' x) = td_class (threads s x)" for x using s'(5) st1(2) by (simp add: flags_only_def)
    then show ?thesis using run False rt s' F Q st1 same_static_trans [OF st1(1) F(4)] by simp
  qed
qed

section \<open>The switch\<close>

text \<open>The idle thread is chosen only when no thread of the proportional share class can run.\<close>

lemma class_order_busy:
  assumes good: "sched_good K C s" and K: "runq_laws K C" and u: "class_order K s u" and r: "runnable s \<noteq> {}"
  shows "u \<noteq> idlethread K"
proof -
  have "u \<in> runnable s \<or> u \<in> joined_tds s"
  proof (cases "runq_choose K (realtime (rq s))")
    case (Some x)
    then have "x \<in> C (realtime (rq s))" using K unfolding runq_laws_def by blast
    then show ?thesis using u Some sched_goodD(2,5) [OF good] by (auto simp: class_order_def agree_def)
  next
    case None
    then show ?thesis using u r by (simp add: class_order_def)
  qed
  then show ?thesis using sched_goodD(3,4,6) [OF good] by (metis sched_class.distinct(3,5))
qed

text \<open>When every thread that waits is queued, the idle thread is chosen only when there is no other thread.\<close>

lemma class_order_idle:
  assumes good: "sched_good K C s" and K: "runq_laws K C" and u: "class_order K s u" and l: "lined_up {} s"
  shows "u = idlethread K \<longleftrightarrow> joined_tds s = {}"
proof
  assume j: "joined_tds s = {}"
  then have "C (realtime (rq s)) = {}" using sched_goodD(2,5) [OF good] by (auto simp: agree_def)
  then have "runq_choose K (realtime (rq s)) = None" using K by (simp add: runq_laws_def)
  moreover have "runnable s = {}" using j by (auto simp: runnable_def joined_tds_def)
  ultimately show "u = idlethread K" using u by (simp add: class_order_def)
next
  assume i: "u = idlethread K"
  have r: "runnable s = {}" using class_order_busy [OF good K u] i by blast
  have "runq_choose K (realtime (rq s)) = None"
  proof (cases "runq_choose K (realtime (rq s))")
    case (Some x)
    then have "x \<in> C (realtime (rq s))" using K unfolding runq_laws_def by blast
    then have "x \<in> joined_tds s" using sched_goodD(2,5) [OF good] by (auto simp: agree_def)
    then have "td_class (threads s x) = realtime_class" using sched_goodD(6) [OF good] r by blast
    moreover have "x = idlethread K" using u Some i by (simp add: class_order_def)
    ultimately show ?thesis using sched_goodD(4) [OF good] by simp
  qed simp
  then have "C (realtime (rq s)) = {}" using K by (simp add: runq_laws_def)
  then have n: "\<not> onrunq (ents s (TD_SE x))" for x using sched_goodD(2) [OF good] by (auto simp: agree_def)
  show "joined_tds s = {}"
  proof (rule ccontr)
    assume "joined_tds s \<noteq> {}"
    then obtain x where "x \<in> joined_tds s" by blast
    moreover from this have "x \<in> runnable s \<or> onrunq (ents s (TD_SE x))"
      using l unfolding lined_up_def in_line_def by (metis empty_iff)
    ultimately show False using r n by blast
  qed
qed

lemma quiet_switch_prepare:
  assumes "0 < hz (clks K)"
  shows "\<exists>s'. switch_prepare K t s = Some s' \<and> quiet s s' \<and> (\<forall>x. td_state (threads s' x) = td_state (threads s x)) \<and>
    curthread s' = curthread s"
proof -
  obtain s1 where s1: "sched_pctcpu_update K t True s = Some s1" "quiet s s1"
    "\<forall>x. td_state (threads s1 x) = td_state (threads s x)" "curthread s1 = curthread s" using quiet_pctcpu [OF assms] by blast
  then show ?thesis by (auto simp: switch_prepare_def Let_def quiet_def)
qed

lemma switch_end:
  assumes hz: "0 < hz (clks K)" and good: "sched_good K C s" and K: "runq_laws K C" and idle: "idle_queues s"
  shows "\<exists>u s'. do { (new, s) \<leftarrow> sched_choose K s;
      if new \<noteq> t then do { s \<leftarrow> sched_pctcpu_update K new False s; Some (new, s\<lparr>curthread := new\<rparr>) }
      else Some (new, upd_td t (\<lambda>td. td\<lparr>td_oncpu := True\<rparr>) s) } = Some (u, s') \<and>
    sched_good K C s' \<and> dispatched K u s' \<and> runnable s' = runnable s \<and> curthread s' = (if u = t then curthread s else u) \<and>
    class_order K s u \<and> joined_tds s' = joined_tds s \<and> (lined_up {} s \<longrightarrow> lined_up {u} s')"
proof -
  from sched_choose_ok [OF good K idle] obtain u s1 where u: "sched_choose K s = Some (u, s1)" "sched_good K C s1"
    "dispatched K u s1" "runnable s1 = runnable s" "class_order K s u" "curthread s1 = curthread s"
    "joined_tds s1 = joined_tds s" "sets_state u TDS_RUNNING s s1" by blast
  have l: "lined_up {} s \<Longrightarrow> lined_up {u} s1" using lined_up_out [OF _ u(8)] u(4,7) by simp
  have jq: "joined_tds s2 = joined_tds s" if "quiet s1 s2" for s2 using u(7) that by (simp add: quiet_def joined_tds_def)
  have d: "dispatched K u s2" if "quiet s1 s2" "\<forall>x. td_state (threads s2 x) = td_state (threads s1 x)" for s2
    using u(3) quiet_dispatched [OF that] by simp
  show ?thesis
  proof (cases "u = t")
    case True
    have q: "quiet s1 (upd_td t (\<lambda>td. td\<lparr>td_oncpu := True\<rparr>) s1)" by (rule quiet_td) simp
    have "dispatched K u (upd_td t (\<lambda>td. td\<lparr>td_oncpu := True\<rparr>) s1)" by (rule d [OF q]) simp
    moreover note quiet_good(6) [OF q u(2)]
    moreover have "runnable (upd_td t (\<lambda>td. td\<lparr>td_oncpu := True\<rparr>) s1) = runnable s" using u(4) quiet_good(2) [OF q] by simp
    moreover have "lined_up {} s \<Longrightarrow> lined_up {u} (upd_td t (\<lambda>td. td\<lparr>td_oncpu := True\<rparr>) s1)"
      using l quiet_lined_up [OF q, of "{u}"] by simp
    ultimately show ?thesis using True u(1,5,6) jq [OF q] by simp
  next
    case False
    obtain s2 where s2: "sched_pctcpu_update K u False s1 = Some s2" "quiet s1 s2"
      "\<forall>x. td_state (threads s2 x) = td_state (threads s1 x)" using quiet_pctcpu [OF hz] by blast
    have q: "quiet s1 (s2\<lparr>curthread := u\<rparr>)" by (rule quiet_trans [OF s2(2)]) simp
    have "dispatched K u (s2\<lparr>curthread := u\<rparr>)" by (rule d [OF q]) (use s2(3) in simp)
    moreover have "runnable (s2\<lparr>curthread := u\<rparr>) = runnable s" using u(4) quiet_good(2) [OF q] by simp
    moreover have "lined_up {} s \<Longrightarrow> lined_up {u} (s2\<lparr>curthread := u\<rparr>)" using l quiet_lined_up [OF q, of "{u}"] s2(3) by simp
    ultimately show ?thesis using False u(1,5) s2(1) quiet_good(6) [OF q u(2)] jq [OF q] by simp
  qed
qed

lemma put_prev_lined_up:
  assumes good: "sched_good K C s" and run: "put_prev_thread K t flags s = Some s'"
    and t: "td_class (threads s t) = pss_class \<Longrightarrow> se_sfq (ents s (TD_SE t)) \<noteq> None"
    and same: "runnable s' = runnable s" "joined_tds s' = joined_tds s"
    and off: "t \<in> joined_tds s \<or> td_class (threads s t) = idle_class \<or> td_state (threads s t) \<notin> {TDS_RUNQ, TDS_RUNNING}"
    and l: "lined_up {t} s"
  shows "lined_up {} s'"
proof -
  note st = put_prev_thread_state [OF run good_hier [OF sched_goodD(1) [OF good]] t]
  have o: "lined_up (insert t {}) s'" using lined_up_out [OF l st(1)] same by simp
  have c: "td_class (threads s t) = idle_class \<Longrightarrow> t \<notin> joined_tds s"
    using sched_goodD(3,6) [OF good, of t] by auto
  have "t \<in> joined_tds s \<Longrightarrow> td_class (threads s t) = realtime_class \<or> t \<in> runnable s"
    using sched_goodD(6) [OF good, of t] by blast
  then have "in_line t s'" using st off c unfolding in_line_def same sets_state_def by auto
  with o show ?thesis by (rule lined_up_in)
qed

lemma sched_switch_running:
  assumes hz: "0 < hz (clks K)" and good: "sched_good K C s" and K: "runq_laws K C"
    and t: "dispatched K t s"
  shows "\<exists>u s' s1 s2. sched_switch K (sched_choose K) t flags s = Some (u, s') \<and> sched_good K C s' \<and> dispatched K u s' \<and>
    runnable s' = runnable s \<and> curthread s' = (if u = t then curthread s else u) \<and> (runnable s \<noteq> {} \<longrightarrow> u \<noteq> idlethread K) \<and>
    switch_prepare K t s = Some s1 \<and> put_prev_thread K t flags s1 = Some s2 \<and> class_order K s2 u \<and>
    joined_tds s' = joined_tds s \<and> (lined_up {t} s \<longrightarrow> lined_up {u} s' \<and> (u = idlethread K \<longleftrightarrow> joined_tds s = {}))"
proof -
  obtain s1 where s1: "switch_prepare K t s = Some s1" "quiet s s1" "\<forall>x. td_state (threads s1 x) = td_state (threads s x)"
    "curthread s1 = curthread s"
    using quiet_switch_prepare [OF hz] by blast
  note Q = quiet_good [OF s1(2)]
  have g1: "sched_good K C s1" by (rule Q(6) [OF good])
  have t1: "dispatched K t s1" using t quiet_dispatched [OF s1(2,3)] by simp
  then have r1: "TD_IS_RUNNING s1 t" by (simp add: dispatched_def)
  have pre: "on_cpu t s1 \<and> td_class (threads s1 t) = pss_class \<or> t = idlethread K \<and> idle_queues s1 \<or>
      td_class (threads s1 t) = realtime_class \<and> \<not> onrunq (ents s1 (TD_SE t)) \<and> idle_queues s1"
    using t1 sched_goodD(3) [OF g1, of t] by (auto simp: dispatched_def on_processor_def split: if_splits)
  from put_prev_thread_good [OF g1 K this, of flags] obtain s2 where s2: "put_prev_thread K t flags s1 = Some s2"
    "sched_good K C s2" "idle_queues s2" "runnable s2 = runnable s1" "curthread s2 = curthread s1" "joined_tds s2 = joined_tds s1"
    by blast
  have j1: "joined_tds s1 = joined_tds s" using s1(2) by (simp add: joined_tds_def quiet_def)
  have off: "t \<in> joined_tds s1 \<or> td_class (threads s1 t) = idle_class"
    using t1 sched_goodD(4) [OF g1] by (auto simp: dispatched_def on_processor_def runnable_def joined_tds_def split: if_splits)
  have sq: "td_class (threads s1 t) = pss_class \<Longrightarrow> se_sfq (ents s1 (TD_SE t)) \<noteq> None"
    using pre sched_goodD(4) [OF g1] by (auto simp: on_cpu_def)
  have l2: "lined_up {} s2" if "lined_up {t} s"
    using put_prev_lined_up [OF g1 s2(1) sq s2(4,6)] off that quiet_lined_up [OF s1(2,3), of "{t}"] by blast
  from switch_end [OF hz s2(2) K s2(3), of t] obtain u s3 where s3:
    "do { (new, s) \<leftarrow> sched_choose K s2;
      if new \<noteq> t then do { s \<leftarrow> sched_pctcpu_update K new False s; Some (new, s\<lparr>curthread := new\<rparr>) }
      else Some (new, upd_td t (\<lambda>td. td\<lparr>td_oncpu := True\<rparr>) s) } = Some (u, s3)"
    "sched_good K C s3" "dispatched K u s3" "runnable s3 = runnable s2" "curthread s3 = (if u = t then curthread s2 else u)"
    "class_order K s2 u" "joined_tds s3 = joined_tds s2" "lined_up {} s2 \<longrightarrow> lined_up {u} s3" by blast
  note busy = class_order_busy [OF s2(2) K s3(6)] and idle = class_order_idle [OF s2(2) K s3(6)]
  have "sched_switch K (sched_choose K) t flags s = Some (u, s3)"
    using s1(1) r1 s2(1) s3(1) by (simp add: sched_switch_def)
  then show ?thesis using s3(2-8) s2(1,4-6) s1(1,4) Q(2) busy idle l2 j1 by auto
qed

text \<open>A thread that leaves the processor for good, and whom the choice can no longer take.\<close>

lemma leave_ok:
  assumes good: "sched_good K C s" and K: "runq_laws K C" and few: "int_counts s"
    and p: "on_processor K t s" "t \<noteq> idlethread K"
  shows "\<exists>s1 s2. dequeue_thread K t dfl s = Some s1 \<and> put_prev_thread K t pfl s1 = Some s2 \<and> sched_good K C s2 \<and>
    idle_queues s2 \<and> runnable s2 = runnable s - {t} \<and> joined_tds s2 = joined_tds s - {t} \<and> curthread s2 = curthread s \<and>
    (lined_up {t} s \<and> td_state (threads s t) \<notin> {TDS_RUNQ, TDS_RUNNING} \<longrightarrow> lined_up {} s2)"
proof -
  have t1: "t \<in> joined_tds s" "idle_queues s \<or> (\<exists>u\<in>runnable s. on_cpu u s)"
    using p by (auto simp: on_processor_def runnable_def joined_tds_def split: if_splits)
  from dequeue_thread_good [OF good K t1(1) few t1(2), of dfl] obtain s1 where s1:
    "dequeue_thread K t dfl s = Some s1" "sched_good K C s1" "runnable s1 = runnable s - {t}"
    "idle_queues s \<longrightarrow> idle_queues s1" "\<forall>u. on_cpu u s \<longrightarrow> on_cpu u s1"
    "\<forall>x. td_class (threads s1 x) = td_class (threads s x)" "joined_tds s1 = joined_tds s - {t}"
    "t \<notin> runnable s \<longrightarrow> \<not> onrunq (ents s1 (TD_SE t))" "curthread s1 = curthread s" "same_static s s1" by blast
  have "on_cpu t s1 \<and> td_class (threads s1 t) = pss_class \<or> t = idlethread K \<and> idle_queues s1 \<or>
      td_class (threads s1 t) = realtime_class \<and> \<not> onrunq (ents s1 (TD_SE t)) \<and> idle_queues s1"
    using p s1(4,5,6,8) sched_goodD(3) [OF good, of t] by (auto simp: on_processor_def split: if_splits)
  from put_prev_thread_good [OF s1(2) K this, of pfl] obtain s2 where s2: "put_prev_thread K t pfl s1 = Some s2" "sched_good K C s2"
    "idle_queues s2" "runnable s2 = runnable s1" "joined_tds s2 = joined_tds s1" "curthread s2 = curthread s1" by blast
  have sq: "se_sfq (ents s (TD_SE t)) \<noteq> None" "se_sfq (ents s1 (TD_SE t)) \<noteq> None"
    using sched_good_sfq [OF good t1(1)] same_static_sfq [OF s1(10)] by simp_all
  note st = dequeue_thread_state [OF s1(1) good_hier [OF sched_goodD(1) [OF good]] sq(1)]
  have "lined_up {} s2" if l: "lined_up {t} s" "td_state (threads s t) \<notin> {TDS_RUNQ, TDS_RUNNING}"
  proof -
    have "lined_up (insert t {t}) s1" by (rule lined_up_out [OF l(1) st]) (use s1(3,7) in auto)
    moreover have "td_state (threads s1 t) = td_state (threads s t)" using st by (simp add: sets_state_def)
    ultimately show ?thesis using put_prev_lined_up [OF s1(2) s2(1) sq(2) s2(4,5)] l(2) by simp
  qed
  then show ?thesis using s1(1,3,7,9) s2 by auto
qed

lemma class_order_gone:
  assumes good: "sched_good K C s" and K: "runq_laws K C" and t: "t \<notin> joined_tds s" "t \<noteq> idlethread K" and u: "class_order K s u"
  shows "u \<noteq> t"
proof (cases "runq_choose K (realtime (rq s))")
  case (Some r)
  then have "r \<in> C (realtime (rq s))" using K unfolding runq_laws_def by blast
  then have "r \<in> joined_tds s" using sched_goodD(2,5) [OF good] by (auto simp: agree_def)
  then show ?thesis using u Some t(1) by (auto simp: class_order_def)
next
  case None
  have "t \<notin> runnable s" using t(1) by (auto simp: runnable_def joined_tds_def)
  then show ?thesis using t(2) u None by (auto simp: class_order_def split: if_splits)
qed

lemma sched_switch_sleeping:
  assumes hz: "0 < hz (clks K)" and good: "sched_good K C s" and K: "runq_laws K C" and few: "int_counts s"
    and t: "\<not> TD_IS_RUNNING s t" "on_processor K t s" "t \<noteq> idlethread K"
  shows "\<exists>u s'. sched_switch K (sched_choose K) t flags s = Some (u, s') \<and> sched_good K C s' \<and> dispatched K u s' \<and>
    runnable s' = runnable s - {t} \<and> u \<noteq> t \<and> curthread s' = u \<and> (runnable s' \<noteq> {} \<longrightarrow> u \<noteq> idlethread K) \<and>
    joined_tds s' = joined_tds s - {t} \<and> (lined_up {t} s \<and> td_state (threads s t) \<noteq> TDS_RUNQ \<longrightarrow> lined_up {u} s')"
proof -
  obtain s1 where s1: "switch_prepare K t s = Some s1" "quiet s s1" "\<forall>x. td_state (threads s1 x) = td_state (threads s x)"
    "curthread s1 = curthread s"
    using quiet_switch_prepare [OF hz] by blast
  note Q = quiet_good [OF s1(2)]
  have g1: "sched_good K C s1" by (rule Q(6) [OF good])
  have r1: "\<not> TD_IS_RUNNING s1 t" using t(1) s1(3) by (simp add: TD_IS_RUNNING_def)
  have p1: "on_processor K t s1" "int_counts s1" using t(2) few quiet_on_processor [OF s1(2)] by (simp_all add: Q)
  from leave_ok [OF g1 K p1(2,1) t(3), of DEQUEUE_SLEEP flags] obtain s2 s3 where s3: "dequeue_thread K t DEQUEUE_SLEEP s1 = Some s2"
    "put_prev_thread K t flags s2 = Some s3" "sched_good K C s3" "idle_queues s3" "runnable s3 = runnable s1 - {t}"
    "joined_tds s3 = joined_tds s1 - {t}"
    "lined_up {t} s1 \<and> td_state (threads s1 t) \<notin> {TDS_RUNQ, TDS_RUNNING} \<longrightarrow> lined_up {} s3" by blast
  from switch_end [OF hz s3(3) K s3(4), of t] obtain u s4 where s4:
    "do { (new, s) \<leftarrow> sched_choose K s3;
      if new \<noteq> t then do { s \<leftarrow> sched_pctcpu_update K new False s; Some (new, s\<lparr>curthread := new\<rparr>) }
      else Some (new, upd_td t (\<lambda>td. td\<lparr>td_oncpu := True\<rparr>) s) } = Some (u, s4)"
    "sched_good K C s4" "dispatched K u s4" "runnable s4 = runnable s3" "curthread s4 = (if u = t then curthread s3 else u)"
    "class_order K s3 u" "joined_tds s4 = joined_tds s3" "lined_up {} s3 \<longrightarrow> lined_up {u} s4" by blast
  have l: "lined_up {u} s4" if "lined_up {t} s" "td_state (threads s t) \<noteq> TDS_RUNQ"
    using that s3(7) s4(8) quiet_lined_up [OF s1(2,3), of "{t}"] s1(3) t(1) by (simp add: TD_IS_RUNNING_def)
  have j: "joined_tds s4 = joined_tds s - {t}" using s4(7) s3(6) s1(2) by (simp add: joined_tds_def quiet_def)
  have "t \<notin> joined_tds s3" using s3(6) by simp
  from class_order_gone [OF s3(3) K this t(3) s4(6)] have "u \<noteq> t" .
  moreover have "sched_switch K (sched_choose K) t flags s = Some (u, s4)"
    using s1(1) r1 s3(1,2) s4(1) by (simp add: sched_switch_def)
  moreover note class_order_busy [OF s3(3) K s4(6)]
  ultimately show ?thesis using s4(2-5) s3(5) Q(2) l j by auto
qed

text \<open>The exit of the running thread.\<close>

lemma sched_throw_ok:
  assumes good: "sched_good K C s" and K: "runq_laws K C" and few: "int_counts s" and t: "on_processor K t s" "t \<noteq> idlethread K"
  shows "\<exists>u s'. sched_throw K (sched_choose K) (Some t) s = Some (u, s') \<and> sched_good K C s' \<and> dispatched K u s' \<and>
    runnable s' = runnable s - {t} \<and> u \<noteq> t \<and> curthread s' = u \<and> joined_tds s' = joined_tds s - {t} \<and>
    (lined_up {t} s \<and> td_state (threads s t) \<notin> {TDS_RUNQ, TDS_RUNNING} \<longrightarrow> lined_up {u} s')"
proof -
  from leave_ok [OF good K few t, of 0 0] obtain s1 s2 where s2: "dequeue_thread K t 0 s = Some s1" "put_prev_thread K t 0 s1 = Some s2"
    "sched_good K C s2" "idle_queues s2" "runnable s2 = runnable s - {t}" "joined_tds s2 = joined_tds s - {t}"
    "lined_up {t} s \<and> td_state (threads s t) \<notin> {TDS_RUNQ, TDS_RUNNING} \<longrightarrow> lined_up {} s2" by blast
  from sched_choose_ok [OF s2(3) K s2(4)] obtain u s3 where s3: "sched_choose K s2 = Some (u, s3)" "sched_good K C s3"
    "dispatched K u s3" "runnable s3 = runnable s2" "class_order K s2 u" "joined_tds s3 = joined_tds s2"
    "sets_state u TDS_RUNNING s2 s3" by blast
  have l: "lined_up {} s2 \<Longrightarrow> lined_up {u} (s3\<lparr>curthread := u\<rparr>)"
    using lined_up_out [OF _ s3(7)] s3(4,6) quiet_lined_up [of s3 "s3\<lparr>curthread := u\<rparr>" "{u}"] by simp
  have j: "joined_tds (s3\<lparr>curthread := u\<rparr>) = joined_tds s - {t}" using s3(6) s2(6) by (simp add: joined_tds_def)
  have "t \<notin> joined_tds s2" using s2(6) by simp
  from class_order_gone [OF s2(3) K this t(2) s3(5)] have "u \<noteq> t" .
  moreover have q: "quiet s3 (s3\<lparr>curthread := u\<rparr>)" by simp
  moreover have "dispatched K u (s3\<lparr>curthread := u\<rparr>)" using quiet_dispatched [OF q] s3(3) by simp
  moreover have "sched_throw K (sched_choose K) (Some t) s = Some (u, s3\<lparr>curthread := u\<rparr>)"
    using s2(1,2) s3(1) by (simp add: sched_throw_def)
  ultimately show ?thesis using quiet_good(2,6) [OF q] s3(2,4) s2(5,7) l j by auto
qed

end
