(* ===== verification/Sched_Wake.thy ===== *)
theory Sched_Wake
  imports Sched_Run
begin

text \<open>
  A thread that becomes runnable: the common ancestor of two entities is found, the check for a
  preemption of the current thread completes and only marks candidates, and \<open>sched_add\<close>, with
  \<open>sched_wakeup\<close>, adds exactly that thread to the runnable ones.
\<close>

section \<open>The common ancestor\<close>

lemma entity_depth_chain:
  assumes "chain (par_of s) p es"
  shows "entity_depth s p = Some (length es)"
proof -
  have "\<exists>r d. walkup (\<lambda>d e. par_of s e) (each (\<lambda>e d. Some (Suc d))) p 0 = Some (r, d) \<and> d = length es"
    by (rule walk_chain [where J = "\<lambda>as d. d + length as = length es", OF assms]) (auto simp: each_def)
  then show ?thesis by (auto simp: entity_depth_def)
qed

lemma go_up_chain: "chain (par_of s) p es \<Longrightarrow> n \<le> length es \<Longrightarrow>
  go_up n s p = Some (head_opt (drop n es)) \<and> chain (par_of s) (head_opt (drop n es)) (drop n es)"
proof (induction n arbitrary: p es)
  case 0
  then show ?case using chain_head by fastforce
next
  case (Suc n)
  then obtain e es' where es: "es = e # es'" by (cases es) auto
  then show ?case using Suc.IH [of "par_of s e" es'] Suc.prems by (simp add: parent_entity_def)
qed

text \<open>
  \<open>meets s as bs x y\<close>: the chains \<open>as\<close> and \<open>bs\<close> to the root have the entities \<open>x\<close> and \<open>y\<close> on the same level in the same queue,
  and no two below these on the same level.
\<close>

definition meets :: "'q sched \<Rightarrow> eid list \<Rightarrow> eid list \<Rightarrow> eid \<Rightarrow> eid \<Rightarrow> bool" where
  "meets s as bs x y \<longleftrightarrow> (\<exists>us xs vs ys. as = us @ x # xs \<and> bs = vs @ y # ys \<and> length xs = length ys \<and>
     se_sfq (ents s x) = se_sfq (ents s y) \<and> (\<forall>(u, v)\<in>set (zip (rev us) (rev vs)). se_sfq (ents s u) \<noteq> se_sfq (ents s v)))"

lemma meets_here: "length as = length bs \<Longrightarrow> se_sfq (ents s a) = se_sfq (ents s b) \<Longrightarrow> meets s (a # as) (b # bs) a b"
  unfolding meets_def by (rule exI [of _ "[]"]) auto

lemma meets_above:
  assumes "meets s as bs x y" "length as = length bs" "se_sfq (ents s a) \<noteq> se_sfq (ents s b)"
  shows "meets s (a # as) (b # bs) x y"
proof -
  obtain us xs vs ys where m: "as = us @ x # xs" "bs = vs @ y # ys" "length xs = length ys" "se_sfq (ents s x) = se_sfq (ents s y)"
    "\<forall>(u, v)\<in>set (zip (rev us) (rev vs)). se_sfq (ents s u) \<noteq> se_sfq (ents s v)" using assms(1) unfolding meets_def by blast
  have "length (rev us) = length (rev vs)" using m(1-3) assms(2) by simp
  then have z: "zip (rev (a # us)) (rev (b # vs)) = zip (rev us) (rev vs) @ [(a, b)]" by simp
  have "\<forall>(u, v)\<in>set (zip (rev (a # us)) (rev (b # vs))). se_sfq (ents s u) \<noteq> se_sfq (ents s v)"
    unfolding z using m(5) assms(3) by simp
  then show ?thesis unfolding meets_def using m(1-4) by (intro exI [of _ "a # us"] exI [of _ xs] exI [of _ "b # vs"] exI [of _ ys]) simp
qed

lemma meets_deeper:
  assumes "meets s as bs x y" "length as = length bs" "cs = [] \<or> ds = []"
  shows "meets s (cs @ as) (ds @ bs) x y"
proof -
  obtain us xs vs ys where m: "as = us @ x # xs" "bs = vs @ y # ys" "length xs = length ys" "se_sfq (ents s x) = se_sfq (ents s y)"
    "\<forall>(u, v)\<in>set (zip (rev us) (rev vs)). se_sfq (ents s u) \<noteq> se_sfq (ents s v)" using assms(1) unfolding meets_def by blast
  have "length (rev us) = length (rev vs)" using m(1-3) assms(2) by simp
  then have z: "zip (rev (cs @ us)) (rev (ds @ vs)) = zip (rev us) (rev vs)" using assms(3) by (auto simp: zip_append1 zip_append2)
  show ?thesis unfolding meets_def using m
    by (intro exI [of _ "cs @ us"] exI [of _ xs] exI [of _ "ds @ vs"] exI [of _ ys]) (simp only: z append_assoc simp_thms)
qed

lemma meetsD: "meets s as bs x y \<Longrightarrow> x \<in> set as \<and> y \<in> set bs \<and> se_sfq (ents s x) = se_sfq (ents s y)"
  by (auto simp: meets_def)

lemma to_same_group_ok:
  assumes wf: "hier_wf s"
  shows "chain (par_of s) (head_opt as) as \<Longrightarrow> chain (par_of s) (head_opt bs) bs \<Longrightarrow> length as = length bs \<Longrightarrow> as \<noteq> [] \<Longrightarrow>
    \<forall>x\<in>set as \<union> set bs. se_sfq (ents s x) \<noteq> None \<Longrightarrow>
    \<exists>x y. to_same_group s (head_opt as) (head_opt bs) = Some (Some x, Some y) \<and> meets s as bs x y"
proof (induction as arbitrary: bs)
  case (Cons a as)
  then obtain b bs' where bs: "bs = b # bs'" "length as = length bs'" by (cases bs) auto
  have ch: "chain (par_of s) (par_of s a) as" "chain (par_of s) (par_of s b) bs'" using Cons.prems(1,2) bs by simp_all
  show ?case
  proof (cases "se_sfq (ents s a) = se_sfq (ents s b)")
    case True
    then show ?thesis using bs meets_here [OF bs(2) True] by (subst to_same_group.simps) (simp add: is_same_group_def)
  next
    case False
    have "as \<noteq> []"
    proof
      assume "as = []"
      then have p: "par_of s a = None" "par_of s b = None" using ch bs(2) by simp_all
      obtain q r where "se_sfq (ents s a) = Some q" "se_sfq (ents s b) = Some r" using Cons.prems(5) bs by auto
      then show False using hier_root [OF wf] p False by metis
    qed
    note hd = chain_head [OF ch(1)] chain_head [OF ch(2)]
    obtain x y where "to_same_group s (head_opt as) (head_opt bs') = Some (Some x, Some y)" "meets s as bs' x y"
      using Cons.IH [OF ch [unfolded hd] bs(2) \<open>as \<noteq> []\<close>] Cons.prems(5) bs(1) by auto
    moreover have "to_same_group s (head_opt (a # as)) (head_opt bs) = to_same_group s (head_opt as) (head_opt bs')"
      using False bs hd by (subst to_same_group.simps) (simp add: is_same_group_def parent_entity_def)
    ultimately show ?thesis using meets_above [OF _ bs(2) False] bs(1) by auto
  qed
qed simp

lemma common_ancestor_meets:
  assumes wf: "hier_wf s" and a: "chain (par_of s) (Some a) as" "se_sfq (ents s a) \<noteq> None"
    and b: "chain (par_of s) (Some b) bs" "se_sfq (ents s b) \<noteq> None"
  shows "\<exists>x y. find_common_ancestor s (Some a) (Some b) = Some (Some x, Some y) \<and> meets s as bs x y"
proof -
  let ?n = "length as - length bs" and ?m = "length bs - length as"
  note A = go_up_chain [OF a(1), of ?n] and B = go_up_chain [OF b(1), of ?m]
  have ne: "as \<noteq> []" "bs \<noteq> []" using a(1) b(1) by auto
  have len: "length (drop ?n as) = length (drop ?m bs)" by auto
  have ne': "drop ?n as \<noteq> []" using ne by (simp add: Suc_le_eq flip: length_greater_0_conv)
  have "\<forall>x\<in>set as. se_sfq (ents s x) \<noteq> None" by (rule chain_sfq [OF wf a(1)]) (use a(2) in simp)
  moreover have "\<forall>x\<in>set bs. se_sfq (ents s x) \<noteq> None" by (rule chain_sfq [OF wf b(1)]) (use b(2) in simp)
  ultimately have sfq: "\<forall>x\<in>set (drop ?n as) \<union> set (drop ?m bs). se_sfq (ents s x) \<noteq> None"
    using in_set_dropD by fastforce
  obtain x y where t: "to_same_group s (head_opt (drop ?n as)) (head_opt (drop ?m bs)) = Some (Some x, Some y)"
    and m: "meets s (drop ?n as) (drop ?m bs) x y"
    using to_same_group_ok [OF wf _ _ len ne' sfq] A B by auto
  have "take ?n as = [] \<or> take ?m bs = []" by auto
  from meets_deeper [OF m len this] have "meets s as bs x y" by simp
  moreover have "find_common_ancestor s (Some a) (Some b) = Some (Some x, Some y)"
    using A B t by (simp add: find_common_ancestor_def entity_depth_chain [OF a(1)] entity_depth_chain [OF b(1)])
  ultimately show ?thesis by blast
qed

lemma common_ancestor_ok:
  assumes "hier_wf s" "chain (par_of s) (Some a) as" "se_sfq (ents s a) \<noteq> None"
    and "chain (par_of s) (Some b) bs" "se_sfq (ents s b) \<noteq> None"
  shows "\<exists>x y. find_common_ancestor s (Some a) (Some b) = Some (Some x, Some y) \<and> x \<in> set as \<and> y \<in> set bs \<and>
    se_sfq (ents s x) = se_sfq (ents s y)"
  using common_ancestor_meets [OF assms] meetsD by blast

section \<open>Steps that keep the structure\<close>

definition calm :: "'q sched \<Rightarrow> 'q sched \<Rightarrow> bool" where
  "calm s s' \<longleftrightarrow> same_struct s s' \<and> same_weights s s' \<and> same_runq s s' \<and> books s' = books s"

lemma calm_refl [simp, intro]: "calm s s"
  by (simp add: calm_def same_runq_def)

lemma calm_trans: "calm s s' \<Longrightarrow> calm s' s'' \<Longrightarrow> calm s s''"
  unfolding calm_def same_weights_def by (metis same_struct_trans same_runq_trans)

lemma calm_core: "same_core s s' \<Longrightarrow> same_runq s s' \<Longrightarrow> books s' = books s \<Longrightarrow> calm s s'"
  by (simp add: calm_def same_core_split)

lemma calm_cands: "only_cands s s' \<Longrightarrow> books s' = books s \<Longrightarrow> calm s s'"
  by (simp add: calm_def only_candsD same_runq_def)

lemma calm_sched_good:
  assumes good: "sched_good K C s" and inv: "\<exists>X. pss_inv X s'" and c: "calm s s'"
  shows "sched_good K C s'" "runnable s' = runnable s" "on_cpu u s' = on_cpu u s" "idle_queues s' = idle_queues s"
    "curthread s' = curthread s"
proof -
  have st: "same_struct s s'" "same_weights s s'" "same_runq s s'" "books s' = books s" using c by (simp_all add: calm_def)
  note D = same_structD [OF st(1)]
  show R: "runnable s' = runnable s" by (simp add: runnable_def D)
  have J: "joined_tds s' = joined_tds s" by (simp add: joined_tds_def D)
  show "on_cpu u s' = on_cpu u s" "idle_queues s' = idle_queues s" "curthread s' = curthread s"
    using on_cpu_same [OF same_struct_static [OF st(1)]] D by simp_all
  note b = books_ledger [OF st(4)]
  have g: "pss_good s'"
    using sched_goodD(1) [OF good] inv st(2) b(1) by (simp add: pss_good_def J D same_weights_def ledger_def)
  have "td_class (threads s' t) = td_class (threads s t)" for t using b(1) by (auto simp: ledger_def dest: fun_cong)
  then show "sched_good K C s'" using good g R J b(2) unfolding sched_good_def by (simp add: D)
qed

section \<open>The check for a preemption\<close>

text \<open>An entity of a runnable thread's chain can be made a candidate.\<close>

lemma set_candidate_calm:
  assumes inv: "pss_inv X s" and e: "e \<in> set (mem X s q)"
  shows "\<exists>s'. set_next_candidate K e s = Some s' \<and> calm s s' \<and> pss_inv X s' \<and> mem X s' = mem X s"
    "\<exists>s'. set_last_candidate K e s = Some s' \<and> calm s s' \<and> pss_inv X s' \<and> mem X s' = mem X s"
proof -
  note P = pss_invD [OF inv]
  have sfq: "x \<in> set (mem X s r) \<Longrightarrow> se_sfq (ents s x) = Some r" for x r using queue_mem(1) [OF P(1)] by blast
  note c = set_candidate_ok [OF P(5,2) queue_invD(6) [OF P(1)] e sfq]
  have fin: "calm s s' \<and> pss_inv X s' \<and> mem X s' = mem X s"
    if "only_cands s s'" "cand_inv (mem X s) s'" "books s' = books s" for s'
    using calm_cands [OF that(1,3)] pss_inv_cands [OF inv that(1,2)] inv_same_struct(4) [OF only_candsD(4) [OF that(1)]] by blast
  obtain s1 where s1: "set_next_candidate K e s = Some s1" "only_cands s s1" "cand_inv (mem X s) s1" using c(2) by blast
  show "\<exists>s'. set_next_candidate K e s = Some s' \<and> calm s s' \<and> pss_inv X s' \<and> mem X s' = mem X s"
    using s1(1) fin [OF s1(2,3) books_candidates(4) [OF s1(1)]] by blast
  obtain s2 where s2: "set_last_candidate K e s = Some s2" "only_cands s s2" "cand_inv (mem X s) s2" using c(3) by blast
  have "books s2 = books s"
    using s2(1) unfolding set_last_candidate_def each_def
    by (auto simp: books_upd split: bind_splits if_splits prod.splits elim!: walk_same [where f = books])
  then show "\<exists>s'. set_last_candidate K e s = Some s' \<and> calm s s' \<and> pss_inv X s' \<and> mem X s' = mem X s"
    using s2(1) fin [OF s2(2,3)] by blast
qed

lemma resched_calm:
  assumes "pss_inv X s"
  shows "calm s (resched_thread t s)" "pss_inv X (resched_thread t s)" "mem X (resched_thread t s) = mem X s"
proof -
  have "books (resched_thread t s) = books s" unfolding resched_thread_def by (intro books_upd) simp
  then show "calm s (resched_thread t s)" by (intro calm_core) simp_all
  show "pss_inv X (resched_thread t s)" "mem X (resched_thread t s) = mem X s"
    using pss_inv_same(1,5) [OF assms resched_frame(1,2)] by blast+
qed

lemma pss_preempt_calm:
  assumes inv: "pss_inv X s" and e: "e \<in> set (mem X s q)"
  shows "\<exists>s'. pss_preempt K ctd scale e s = Some s' \<and> calm s s' \<and> pss_inv X s'"
proof -
  note r = resched_calm [OF inv, of ctd]
  have "e \<in> set (mem X (resched_thread ctd s) q)" using e r(3) by simp
  from set_candidate_calm(2) [OF r(2) this, where K = K] obtain s' where
    "set_last_candidate K e (resched_thread ctd s) = Some s'" "calm (resched_thread ctd s) s'" "pss_inv X s'" by blast
  then show ?thesis using r calm_trans [OF r(1)] by (auto simp: pss_preempt_def Let_def)
qed

lemma check_preempt_curr_ok:
  assumes inv: "pss_inv X s" and t: "t \<in> runnable s" and c: "se_sfq (ents s (TD_SE (curthread s))) \<noteq> None"
  shows "\<exists>s'. pss_check_preempt_curr K t s = Some s' \<and> calm s s' \<and> pss_inv X s'"
proof (cases "thread_need_resched s (curthread s)")
  case True
  then show ?thesis using inv by (auto simp: pss_check_preempt_curr_def Let_def)
next
  case False
  note P = pss_invD [OF inv]
  let ?c = "TD_SE (curthread s)"
  obtain q0 where q0: "se_sfq (ents s ?c) = Some q0" using c by blast
  define scale where "scale = (nr_running (sfqs s q0) \<ge> uint (sched_nr_latency (tun s)))"
  obtain p where p: "TD_SE t \<in> set (mem X s p)" using t runnable_mem [OF P(1)] by blast
  have tq: "se_sfq (ents s (TD_SE t)) \<noteq> None" using queue_mem(1) [OF P(1)] p by blast
  obtain as bs where ch: "chain (par_of s) (Some ?c) as" "chain (par_of s) (Some (TD_SE t)) bs" using hier_chain [OF P(5)] by blast
  have mem: "\<forall>x\<in>set bs. \<exists>r. x \<in> set (mem X s r)" using chain_members [OF P(2) _ ch(2)] p by blast
  obtain x y where xy: "find_common_ancestor s (Some ?c) (Some (TD_SE t)) = Some (Some x, Some y)" "y \<in> set bs" "x \<in> set as"
    "se_sfq (ents s x) = se_sfq (ents s y)" using common_ancestor_ok [OF P(5) ch(1) c ch(2) tq] by blast
  obtain r where r: "y \<in> set (mem X s r)" using mem xy(2) by blast
  have xr: "se_sfq (ents s x) = Some r" using queue_mem(1) [OF P(1), of y r] r xy(4) by simp
  show ?thesis
  proof (cases "td_pri_class (threads s (curthread s)) = PRI_IDLE K \<and> td_pri_class (threads s t) \<noteq> PRI_IDLE K")
    case True
    from pss_preempt_calm [OF inv p, where K = K and ctd = "curthread s" and scale = scale] False True q0 show ?thesis
      by (simp add: pss_check_preempt_curr_def Let_def td_to_se_def scale_def)
  next
    case no: False
    obtain s1 where s1: "update_curr K r s = Some s1" "same_core s s1" "same_runq s s1"
      using update_curr_inv [OF P(5,6)] by blast
    obtain v s2 where s2: "wakeup_preempt_entity x y s1 = (v, s2)" by fastforce
    note W = wakeup_preempt_frame [OF s2]
    have c2: "same_core s s2" "same_runq s s2" "books s2 = books s"
      using same_core_trans [OF s1(2) W(1)] same_runq_trans [OF s1(3) W(2)] books_update_curr [OF s1(1)]
        books_wakeup_preempt [OF s2] by simp_all
    have inv2: "pss_inv X s2" "mem X s2 = mem X s" using pss_inv_same(1,5) [OF inv c2(1,2)] by blast+
    have calm2: "calm s s2" by (rule calm_core [OF c2])
    have run: "pss_check_preempt_curr K t s =
      (if v > 0 then do { s \<leftarrow> set_next_candidate K y s2; pss_preempt K (curthread s1) scale y s } else Some s2)"
      if "curthread s1 = curthread s"
      using False no q0 xy(1) xr s1(1) s2 that
      unfolding pss_check_preempt_curr_def Let_def td_to_se_def scale_def by (auto simp: Let_def)
    have ct: "curthread s1 = curthread s" using s1(2) by (simp add: same_coreD)
    have y2: "y \<in> set (mem X s2 r)" using r inv2(2) by simp
    from set_candidate_calm(1) [OF inv2(1) y2, where K = K] obtain s3 where s3: "set_next_candidate K y s2 = Some s3"
      "calm s2 s3" "pss_inv X s3" "mem X s3 = mem X s2" by blast
    have y3: "y \<in> set (mem X s3 r)" using y2 s3(4) by simp
    from pss_preempt_calm [OF s3(3) y3, where K = K and ctd = "curthread s1" and scale = scale] obtain s4 where s4:
      "pss_preempt K (curthread s1) scale y s3 = Some s4" "calm s3 s4" "pss_inv X s4" by blast
    show ?thesis
      using run [OF ct] s3(1) s4(1,3) inv2(1) calm2 calm_trans [OF calm_trans [OF calm2 s3(2)] s4(2)] by (cases "v > 0") simp_all
  qed
qed

section \<open>Waking a thread\<close>

lemma check_priority_preempt_ok:
  assumes "sched_good K C s"
  shows "quiet s (check_priority_preempt K' t s)" "curthread (check_priority_preempt K' t s) = curthread s"
    "thread_class (check_priority_preempt K' t s) u = thread_class s u"
    "td_state (threads (check_priority_preempt K' t s) x) = td_state (threads s x)"
proof -
  show q: "quiet s (check_priority_preempt K' t s)"
    by (auto simp: quiet_def check_priority_preempt_def Let_def resched_thread_def preempt_thread_def)
  show "curthread (check_priority_preempt K' t s) = curthread s"
    by (simp add: check_priority_preempt_def Let_def resched_thread_def preempt_thread_def)
  show "thread_class (check_priority_preempt K' t s) u = thread_class s u" by (rule thread_class_quiet [OF q])
  show "td_state (threads (check_priority_preempt K' t s) x) = td_state (threads s x)"
    by (simp add: check_priority_preempt_def Let_def resched_thread_def preempt_thread_def)
qed

lemma calm_on_processor:
  assumes good: "sched_good K C s" and inv: "\<exists>X. pss_inv X s'" and c: "calm s s'"
  shows "on_processor K u s' = on_processor K u s" "joined_tds s' = joined_tds s"
proof -
  note g = calm_sched_good [OF good inv c]
  have st: "same_struct s s'" "same_runq s s'" "books s' = books s" using c by (simp_all add: calm_def)
  show J: "joined_tds s' = joined_tds s" by (simp add: joined_tds_def same_structD [OF st(1)])
  have "td_class (threads s' t) = td_class (threads s t)" for t
    using books_ledger(1) [OF st(3)] by (auto simp: ledger_def dest: fun_cong)
  then show "on_processor K u s' = on_processor K u s"
    using st(2) by (simp add: on_processor_def g J same_runq_def)
qed

lemma check_preempt_curr_good:
  assumes good: "sched_good K C s" and t: "t \<in> runnable s \<or> td_class (threads s t) \<noteq> pss_class"
    and c: "on_processor K (curthread s) s"
  shows "\<exists>s'. check_preempt_curr K t s = Some s' \<and> sched_good K C s' \<and> runnable s' = runnable s \<and> curthread s' = curthread s \<and>
    on_processor K (curthread s) s' \<and> joined_tds s' = joined_tds s \<and> (\<forall>x. place x s' = place x s)"
proof -
  define s1 where "s1 = check_priority_preempt K t s"
  note q = check_priority_preempt_ok [OF good, of K t, folded s1_def]
  note Q = quiet_good [OF q(1)]
  have g1: "sched_good K C s1" by (rule Q(6) [OF good])
  have c1: "on_processor K (curthread s) s1" using c quiet_on_processor [OF q(1)] by simp
  have j1: "joined_tds s1 = joined_tds s" using q(1) by (simp add: quiet_def joined_tds_def)
  have tc: "td_class (threads s1 t) = td_class (threads s t)" using q(1) by (simp add: quiet_def)
  have pl1: "place x s1 = place x s" for x using q(1,4) quiet_place by blast
  show ?thesis
  proof (cases "td_class (threads s1 (curthread s1)) = pss_class \<and> td_class (threads s1 t) = pss_class")
    case False
    then have "check_preempt_curr K t s = Some s1"
      unfolding check_preempt_curr_def s1_def [symmetric] Let_def
      by (cases "td_class (threads s1 (curthread s1))") (auto simp: rt_check_preempt_curr_def idle_check_preempt_curr_def)
    then show ?thesis using g1 Q q(2) c1 j1 pl1 by simp
  next
    case True
    then have "curthread s1 \<noteq> idlethread K" using sched_goodD(4) [OF g1] by (metis sched_class.distinct(5))
    then have "curthread s1 \<in> runnable s1" using c1 True q(2) by (auto simp: on_processor_def split: if_splits)
    then have sfq: "se_sfq (ents s1 (TD_SE (curthread s1))) \<noteq> None" by (auto simp: runnable_def)
    obtain X where X: "pss_inv X s1" using sched_goodD(1) [OF g1] by (auto simp: pss_good_def)
    have "t \<in> runnable s1" using t True tc Q(2) by simp
    from check_preempt_curr_ok [OF X this sfq, where K = K] obtain s2 where s2: "pss_check_preempt_curr K t s1 = Some s2"
      "calm s1 s2" "pss_inv X s2" by blast
    have "check_preempt_curr K t s = Some s2"
      using s2(1) True by (simp add: check_preempt_curr_def s1_def [symmetric] Let_def)
    moreover have i2: "\<exists>X. pss_inv X s2" using s2(3) by blast
    note c2 = calm_sched_good [OF g1 i2 s2(2)] calm_on_processor [OF g1 i2 s2(2)]
    moreover have "\<forall>x. place x s2 = place x s" using s2(2) books_place [of s2 s1] pl1 by (simp add: calm_def)
    moreover have "sched_good K C s2" "runnable s2 = runnable s" "curthread s2 = curthread s" "on_processor K (curthread s) s2"
      "joined_tds s2 = joined_tds s" using c2 Q q(2) c1 j1 by simp_all
    ultimately show ?thesis by blast
  qed
qed

lemma sched_add_ok:
  assumes good: "sched_good K C s" and K: "runq_laws K C" and t: "can_start t s" "td_class (threads s t) \<noteq> idle_class"
    and c: "on_processor K (curthread s) s"
  shows "\<exists>s'. sched_add K t s = Some s' \<and> sched_good K C s' \<and> joined_tds s' = insert t (joined_tds s) \<and>
    runnable s' = (if td_class (threads s t) = pss_class then insert t (runnable s) else runnable s) \<and>
    curthread s' = curthread s \<and> on_processor K (curthread s) s' \<and> in_line t s' \<and>
    (td_class (threads s t) = realtime_class \<longrightarrow> t \<in> C (realtime (rq s'))) \<and>
    (\<forall>x. x \<noteq> t \<longrightarrow> place x s' = place x s)"
proof -
  define s1 where "s1 = upd_se (TD_SE t) (\<lambda>x. x\<lparr>se_initial := False\<rparr>) s"
  have core: "same_core s s1" "same_runq s s1" "books s1 = books s"
  proof -
    show "same_core s s1" unfolding s1_def by (intro same_core_upd) simp
    show "same_runq s s1" by (simp add: s1_def same_runq_def)
    show "books s1 = books s" unfolding s1_def by (intro books_upd) simp
  qed
  obtain X where X: "pss_inv X s" using sched_goodD(1) [OF good] by (auto simp: pss_good_def)
  then have i1: "\<exists>X. pss_inv X s1" using pss_inv_same(1) [OF _ core(1,2)] by blast
  note c1 = calm_sched_good [OF good i1 calm_core [OF core]] calm_on_processor [OF good i1 calm_core [OF core]]
  have st1: "can_start t s1" "td_class (threads s1 x) = td_class (threads s x)" for x using t by (simp_all add: s1_def can_start_def)
  have p1: "on_processor K (curthread s) s1" using c c1(6) by simp
  then have cpu: "idle_queues s1 \<or> (\<exists>u\<in>runnable s1. on_cpu u s1)" by (auto simp: on_processor_def split: if_splits)
  have nj: "t \<notin> joined_tds s1" using st1(1) by (simp add: can_start_def joined_tds_def)
  have ic: "td_class (threads s1 t) \<noteq> idle_class" using t(2) st1(2) by simp
  define fl where "fl = (if se_initial (ents s (TD_SE t)) then 0 else ENQUEUE_WAKEUP)"
  from enqueue_thread_good [OF c1(1) K st1(1) ic cpu, of fl] obtain s2 where s2: "enqueue_thread K t fl s1 = Some s2"
    "sched_good K C s2" "runnable s2 = (if td_class (threads s1 t) = pss_class then insert t (runnable s1) else runnable s1)"
    "joined_tds s2 = insert t (joined_tds s1)" "idle_queues s1 \<longrightarrow> idle_queues s2"
    "\<forall>u. on_cpu u s1 \<longrightarrow> on_cpu u s2" "curthread s2 = curthread s1" "\<forall>x. td_class (threads s2 x) = td_class (threads s1 x)"
    "\<forall>x. x \<noteq> t \<longrightarrow> onrunq (ents s2 (TD_SE x)) = onrunq (ents s1 (TD_SE x))" by blast
  have p2: "on_processor K (curthread s2) s2"
  proof (cases "curthread s \<in> runnable s1")
    case True
    then show ?thesis using p1 s2(3,6,7) c1(5) by (simp add: on_processor_def)
  next
    case False
    let ?c = "curthread s"
    have i: "idle_queues s2" "?c = idlethread K \<or> td_class (threads s1 ?c) = realtime_class \<and> ?c \<in> joined_tds s1 \<and> \<not> onrunq (ents s1 (TD_SE ?c))"
      using p1 False s2(5) by (simp_all add: on_processor_def)
    moreover have "?c \<notin> runnable s2"
      using sched_goodD(3,4) [OF s2(2)] i(2) s2(8) by fastforce
    moreover have "td_class (threads s1 ?c) = realtime_class \<and> ?c \<in> joined_tds s1 \<Longrightarrow> ?c \<noteq> t" using nj by blast
    ultimately show ?thesis using s2(4,7,8,9) c1(5) by (auto simp: on_processor_def)
  qed
  have t2: "t \<in> runnable s2 \<or> td_class (threads s2 t) \<noteq> pss_class" using s2(3,8) by simp
  from check_preempt_curr_good [OF s2(2) t2 p2] obtain s3 where s3: "check_preempt_curr K t s2 = Some s3" "sched_good K C s3"
    "runnable s3 = runnable s2" "curthread s3 = curthread s2" "on_processor K (curthread s2) s3" "joined_tds s3 = joined_tds s2"
    "\<forall>x. place x s3 = place x s2" by blast
  note e = enqueue_thread_state [OF s2(1) good_hier [OF sched_goodD(1) [OF c1(1)]] st1(1) ic]
  have others: "\<forall>x. x \<noteq> t \<longrightarrow> place x s3 = place x s"
    using e(1) s3(7) books_place [OF core(3)] by (simp add: sets_state_def)
  have on: "td_class (threads s t) = realtime_class \<Longrightarrow> onrunq (ents s3 (TD_SE t))"
    using e(2) s3(7) st1(2) by (simp add: place_def)
  have "t \<in> C (realtime (rq s3))" if "td_class (threads s t) = realtime_class"
    using on [OF that] sched_goodD(2) [OF s3(2)] by (simp add: agree_def)
  moreover have "in_line t s3"
  proof -
    have "td_state (threads s3 t) = TDS_RUNQ" using e(1) s3(7) by (simp add: sets_state_def place_def)
    moreover have "t \<in> joined_tds s3" "t \<in> runnable s3 \<or> td_class (threads s t) = realtime_class"
      using s3(3,6) s2(3,4) st1(2) t(2) by (simp, cases "td_class (threads s t)") auto
    ultimately show ?thesis using on by (auto simp: in_line_def)
  qed
  moreover have "sched_add K t s = Some s3"
    using s2(1) s3(1) by (simp add: sched_add_def td_to_se_def s1_def fl_def Let_def)
  ultimately show ?thesis using s3(2-6) s2(3,4,7) c1(2,5,7) st1(2) others by simp
qed

end
