(* ===== verification/Sched_Requeue.thy ===== *)
theory Sched_Requeue
  imports Sched_Run
begin

text \<open>
  What \<open>sched_nice\<close> and \<open>sched_group_move\<close> have in common: a thread that is queued or running is taken off,
  changed, and put back where it was. The locale \<open>requeue\<close> states what the change has to promise;
  its lemmas say that the scheduler stays sane around it.
\<close>

section \<open>The other threads\<close>

lemma clock_standing: "same_standing s (update_rq_clock K s)"
  by (rule same_standing_threads) (simp_all add: update_rq_clock_def cpu_clock_def Let_def split_beta)

section \<open>The services, with what they leave alone\<close>

text \<open>An operation on the thread \<open>t\<close> that leaves its weight and the other threads alone.\<close>

definition leaves :: "tid \<Rightarrow> 'q sched \<Rightarrow> 'q sched \<Rightarrow> bool" where
  "leaves t s s' \<longleftrightarrow> same_static s s' \<and> same_standing s s' \<and> same_tw s s' \<and> curthread s' = curthread s \<and>
     (\<forall>x. td_class (threads s' x) = td_class (threads s x)) \<and> (\<forall>x. x \<noteq> t \<longrightarrow> place x s' = place x s)"

lemma leaves_refl [simp]: "leaves t s s"
  by (simp add: leaves_def same_static_def same_tw_def)

lemma leaves_trans [trans]: "leaves t s s' \<Longrightarrow> leaves t s' s'' \<Longrightarrow> leaves t s s''"
  unfolding leaves_def by (auto intro: same_static_trans same_standing_trans simp: same_tw_def)

lemma clock_leaves: "leaves t s (update_rq_clock K s)"
  using clock_standing [of s K]
  by (simp add: leaves_def same_static_def same_tw_def place_def frame_simps)

lemma dequeue_leaves:
  assumes good: "sched_good K C s" and t: "t \<in> runnable s" and few: "int_counts s" and run: "dequeue_thread K t flags s = Some s'"
  shows "leaves t s s'"
proof -
  define s1 where "s1 = update_rq_clock K s"
  have q1: "quiet s s1" by (simp add: s1_def)
  note Q = quiet_good [OF q1]
  have g1: "pss_good s1" "t \<in> runnable s1" "int_counts s1" using Q(2,5) Q(1) [OF sched_goodD(1) [OF good]] t few by (simp_all add: Q)
  have c: "td_class (threads s1 t) = pss_class" using sched_goodD(3) [OF good t] q1 by (simp add: quiet_def)
  have r: "pss_dequeue_thread K t flags s1 = Some s'" using run c by (simp add: dequeue_thread_def s1_def thread_class_def)
  have sq: "se_sfq (ents s1 (TD_SE t)) \<noteq> None" using g1(2) by (auto simp: runnable_def)
  from dequeue_good [OF g1(1,3,2), where K = K and flags = flags] r
  have "same_static s1 s'" "curthread s' = curthread s1" "same_tw s1 s'" by auto
  moreover note dequeue_thread_keeps(1,3) [OF r] pss_dequeue_states [OF r good_hier [OF g1(1)] sq]
  ultimately have "leaves t s1 s'" by (simp add: leaves_def)
  then show ?thesis using leaves_trans [OF clock_leaves] by (simp add: s1_def)
qed

lemma enqueue_leaves:
  assumes good: "sched_good K C s" and t: "can_start t s" "td_class (threads s t) = pss_class"
    and c: "idle_queues s \<or> (\<exists>u\<in>runnable s. on_cpu u s)" and run: "enqueue_thread K t flags s = Some s'"
  shows "leaves t s s'"
proof -
  define s1 where "s1 = update_rq_clock K s"
  have q1: "quiet s s1" by (simp add: s1_def)
  note Q = quiet_good [OF q1]
  have g1: "pss_good s1" "can_start t s1" "idle_queues s1 \<or> (\<exists>u\<in>runnable s1. on_cpu u s1)"
    using Q(1) [OF sched_goodD(1) [OF good]] t(1) c q1 by (simp_all add: Q can_start_def) (simp add: quiet_def)
  have cl: "td_class (threads s1 t) = pss_class" using t(2) q1 by (simp add: quiet_def)
  have r: "pss_enqueue_thread K t flags s1 = Some s'" using run cl by (simp add: enqueue_thread_def s1_def thread_class_def)
  have sq: "se_sfq (ents s1 (TD_SE t)) \<noteq> None" using g1(2) by (simp add: can_start_def)
  from enqueue_good [OF g1(1,2,3), where K = K and flags = flags] r
  have "same_static s1 s'" "curthread s' = curthread s1" "same_tw s1 s'" by auto
  moreover note enqueue_thread_keeps(1,3) [OF r] pss_enqueue_states [OF r good_hier [OF g1(1)] sq]
  ultimately have "leaves t s1 s'" by (simp add: leaves_def)
  then show ?thesis using leaves_trans [OF clock_leaves] by (simp add: s1_def)
qed

lemma put_prev_leaves:
  assumes good: "sched_good K C s" and t: "on_cpu t s" "td_class (threads s t) = pss_class" and run: "put_prev_thread K t flags s = Some s'"
  shows "leaves t s s'"
proof -
  define s1 where "s1 = (if joined (ents s (td_to_se t)) then update_rq_clock K s else s)"
  have q1: "quiet s s1" by (simp add: s1_def)
  note Q = quiet_good [OF q1]
  have l1: "leaves t s s1" by (simp add: s1_def clock_leaves)
  have g1: "pss_good s1" "on_cpu t s1" using Q(1) [OF sched_goodD(1) [OF good]] t(1) by (simp_all add: Q)
  have cl: "td_class (threads s1 t) = pss_class" using t(2) q1 by (simp add: quiet_def)
  have r: "pss_put_prev_thread K t flags s1 = Some s'" using run cl by (simp add: put_prev_thread_def s1_def thread_class_def Let_def split: if_splits)
  have sq: "se_sfq (ents s1 (TD_SE t)) \<noteq> None" using g1(2) by (simp add: on_cpu_def)
  from put_prev_good [OF g1, where K = K and flags = flags] r
  have "same_static s1 s'" "curthread s' = curthread s1" "same_tw s1 s'" by auto
  moreover note keeps_class [OF keeps_put_prev [OF r]] keeps_standing [OF keeps_put_prev [OF r]]
    pss_put_prev_states [OF r good_hier [OF g1(1)] sq]
  ultimately have "leaves t s1 s'" by (simp add: leaves_def)
  then show ?thesis using leaves_trans [OF l1] by blast
qed

lemma activate_leaves:
  assumes good: "pss_good s" and idle: "idle_queues s" and t: "t \<in> runnable s" and r: "pss_activate_thread K t s = Some s'"
  shows "leaves t s s'"
proof -
  have sq: "se_sfq (ents s (TD_SE t)) \<noteq> None" using t by (auto simp: runnable_def)
  from activate_good [OF good idle t, where K = K] r
  have "same_static s s'" "same_tw s s'" by auto
  moreover note keeps_activate [OF r]
  then have "\<forall>x. td_class (threads s' x) = td_class (threads s x)" "same_standing s s'" "curthread s' = curthread s"
    using keeps_class keeps_standing keeps_curthread by blast+
  ultimately show ?thesis using pss_activate_states [OF r good_hier [OF good] sq] by (simp add: leaves_def)
qed

section \<open>The level of the processor, and the states of threads\<close>

text \<open>
  The levels that \<open>activate_thread\<close> writes to lie in the table: that of the priority of the running
  thread, and that at which the processor is.
\<close>

definition levels_ready :: "'q kern \<Rightarrow> 'q sched \<Rightarrow> bool" where
  "levels_ready K s \<longleftrightarrow>
     (let new = convert_pri (MAX_RT_PRI K) (IDLE_PRI K) (td_priority (threads s (curthread s)));
          old = cpu_to_pri (root_cpupri s) 0
      in new < CPUPRI_NR (MAX_RT_PRI K) \<and> (new = CPUPRI_INVALID \<or> level_ok (MAX_RT_PRI K) new) \<and>
         (old = CPUPRI_INVALID \<or> level_ok (MAX_RT_PRI K) old))"

text \<open>With the two levels in the table the entry succeeds, else it writes outside the table.\<close>

lemma cpupri_set_total:
  assumes "curthread s = t" "threads s t = threads s' t" "root_cpupri s = root_cpupri s'"
  shows "cpupri_set (MAX_RT_PRI K) (IDLE_PRI K) 0 (td_priority (threads s' t)) (root_cpupri s') \<noteq> None \<longleftrightarrow> levels_ready K s"
  using assms by (auto simp: levels_ready_def cpupri_set_def upd_level_def Let_def)

text \<open>The state of a thread of the proportional share class says where it is.\<close>

definition settled :: "tid \<Rightarrow> 'q sched \<Rightarrow> bool" where
  "settled t s \<longleftrightarrow> (td_class (threads s t) = pss_class \<longrightarrow>
     (if TD_IS_RUNNING s t then t = curthread s \<and> t \<in> runnable s
      else if TD_ON_RUNQ s t then t \<noteq> curthread s \<and> t \<in> runnable s
      else t \<noteq> curthread s \<and> can_start t s))"

lemma settled_other:
  assumes "same_static s s'" "runnable s' = runnable s" "joined_tds s' = joined_tds s" "curthread s' = curthread s"
    and "td_class (threads s' x) = td_class (threads s x)" "td_state (threads s' x) = td_state (threads s x)" "settled x s"
  shows "settled x s'"
proof -
  have "joined (ents s' (TD_SE x)) = joined (ents s (TD_SE x))" using assms(3) unfolding joined_tds_def set_eq_iff by simp
  then have "can_start x s' = can_start x s" by (simp add: can_start_def same_static_sfq [OF assms(1)])
  moreover have "TD_IS_RUNNING s' x = TD_IS_RUNNING s x" "TD_ON_RUNQ s' x = TD_ON_RUNQ s x"
    using assms(6) by (simp_all add: TD_IS_RUNNING_def TD_ON_RUNQ_def)
  ultimately show ?thesis using assms(7) unfolding settled_def assms(2,4,5) by simp
qed

section \<open>Off, changed, and back\<close>

lemma class_activate_leaves:
  assumes good: "sched_good K C s" and K: "runq_laws K C" and idle: "idle_queues s" and t: "t \<in> runnable s"
  shows "\<exists>s'. class_activate_thread K (thread_class s t) t s = Some s' \<and> sched_good K C s' \<and> dispatched K t s' \<and>
    runnable s' = runnable s \<and> joined_tds s' = joined_tds s \<and> leaves t s s'"
proof -
  note G = sched_goodD [OF good]
  from activate_good [OF G(1) idle t, where K = K] obtain s' where s': "pss_activate_thread K t s = Some s'"
    "joined_tds s' = joined_tds s" by blast
  have c: "class_activate_thread K (thread_class s t) t s = Some s'" using s'(1) G(3) [OF t] by (simp add: thread_class_def)
  have "t \<in> runnable s \<or> onrunq (ents s (TD_SE t)) \<or> t = idlethread K" using t by simp
  from class_activate_ok [OF good K idle this] c show ?thesis
    using s'(2) activate_leaves [OF G(1) idle t s'(1)] by auto
qed

text \<open>The change of a thread that is off its queue leaves the queues and the other threads alone.\<close>

definition swapped :: "tid \<Rightarrow> 'q sched \<Rightarrow> 'q sched \<Rightarrow> bool" where
  "swapped t s s' \<longleftrightarrow> runnable s' = runnable s \<and> joined_tds s' = joined_tds s \<and> curthread s' = curthread s \<and>
     root_cpupri s' = root_cpupri s \<and> idle_queues s' = idle_queues s \<and> (\<forall>u. u \<noteq> t \<longrightarrow> on_cpu u s \<longrightarrow> on_cpu u s') \<and>
     (\<forall>x. td_class (threads s' x) = td_class (threads s x) \<and> td_priority (threads s' x) = td_priority (threads s x) \<and>
       td_state (threads s' x) = td_state (threads s x)) \<and>
     (\<forall>x. x \<noteq> t \<longrightarrow> place x s' = place x s) \<and> se_sfq (ents s' (TD_SE t)) \<noteq> None"

text \<open>The whole: the thread is where it was, and only the change in the middle touched it.\<close>

definition requeued :: "('q sched \<Rightarrow> 'q sched option) \<Rightarrow> tid \<Rightarrow> 'q sched \<Rightarrow> 'q sched \<Rightarrow> bool" where
  "requeued f t s s' \<longleftrightarrow> runnable s' = runnable s \<and> joined_tds s' = joined_tds s \<and> root_cpupri s' = root_cpupri s \<and>
     (\<exists>s1 s2. leaves t s s1 \<and> f s1 = Some s2 \<and> swapped t s1 s2 \<and> leaves t s2 s')"

lemma requeued_same:
  assumes "requeued f t s s'"
  shows "curthread s' = curthread s" "td_class (threads s' x) = td_class (threads s x)"
    "td_priority (threads s' x) = td_priority (threads s x)" "x \<noteq> t \<Longrightarrow> place x s' = place x s"
  using assms by (auto simp: requeued_def leaves_def swapped_def same_standing_def)

lemma requeued_levels: "requeued f t s s' \<Longrightarrow> levels_ready K s' = levels_ready K s"
  using requeued_same(1,3) [of f t s s'] by (simp add: levels_ready_def requeued_def)

text \<open>A running thread also has its level and its state set; the state of the thread is as before.\<close>

definition put_back :: "('q sched \<Rightarrow> 'q sched option) \<Rightarrow> tid \<Rightarrow> 'q sched \<Rightarrow> 'q sched \<Rightarrow> bool" where
  "put_back f t s s' \<longleftrightarrow> (\<exists>s1. requeued f t s s1 \<and>
     (s' = s1 \<or> (\<exists>cp. s' = set_td_state TDS_RUNNING t (s1\<lparr>root_cpupri := cp\<rparr>)))) \<and>
     td_state (threads s' t) = td_state (threads s t)"

lemma put_back_same:
  assumes "put_back f t s s'"
  shows "runnable s' = runnable s" "joined_tds s' = joined_tds s" "curthread s' = curthread s"
    "td_class (threads s' x) = td_class (threads s x)" "td_priority (threads s' x) = td_priority (threads s x)"
    "td_state (threads s' x) = td_state (threads s x)" "x \<noteq> t \<Longrightarrow> place x s' = place x s"
proof -
  obtain s1 where s1: "requeued f t s s1" and s': "s' = s1 \<or> (\<exists>cp. s' = set_td_state TDS_RUNNING t (s1\<lparr>root_cpupri := cp\<rparr>))"
    using assms unfolding put_back_def by blast
  note R = requeued_same [OF s1]
  have run_set: "runnable (upd_td t g (s1\<lparr>root_cpupri := cp\<rparr>)) = runnable s1"
    "joined_tds (upd_td t g (s1\<lparr>root_cpupri := cp\<rparr>)) = joined_tds s1" for g cp by (simp_all add: runnable_def joined_tds_def)
  have "runnable s1 = runnable s" "joined_tds s1 = joined_tds s" using s1 by (simp_all add: requeued_def)
  then show "runnable s' = runnable s" "joined_tds s' = joined_tds s" "curthread s' = curthread s"
    "td_class (threads s' x) = td_class (threads s x)" "td_priority (threads s' x) = td_priority (threads s x)"
    using s' R(1-3) run_set by (auto simp: set_td_state_def)
  show p: "place x s' = place x s" if "x \<noteq> t" using s' R(4) [OF that] that by (auto simp: place_def set_td_state_def)
  show "td_state (threads s' x) = td_state (threads s x)"
    using assms p by (cases "x = t") (simp_all add: put_back_def place_def)
qed

text \<open>
  So every thread stays in line: a thread of the proportional share class is queued when it is on its
  queue, whether or not it is on the run queue of the kernel too.
\<close>

definition stays_in_line :: "'q sched \<Rightarrow> 'q sched \<Rightarrow> bool" where
  "stays_in_line s s' \<longleftrightarrow> runnable s' = runnable s \<and> joined_tds s' = joined_tds s \<and>
     (\<forall>x. td_class (threads s' x) = td_class (threads s x) \<and> td_state (threads s' x) = td_state (threads s x) \<and>
       (td_class (threads s x) \<noteq> pss_class \<longrightarrow> onrunq (ents s' (TD_SE x)) = onrunq (ents s (TD_SE x))))"

lemma stays_in_line_refl [simp]: "stays_in_line s s"
  by (simp add: stays_in_line_def)

lemma stays_in_line_trans: "stays_in_line s s' \<Longrightarrow> stays_in_line s' s'' \<Longrightarrow> stays_in_line s s''"
  by (simp add: stays_in_line_def)

lemma stays_lined_up:
  assumes good: "sched_good K C s" and st: "stays_in_line s s'" and l: "lined_up P s"
  shows "lined_up P s'"
  unfolding lined_up_def
proof (intro allI impI)
  fix x assume "x \<notin> P"
  then have i: "in_line x s" using l by (simp add: lined_up_def)
  have "x \<in> joined_tds s \<Longrightarrow> x \<in> runnable s \<or> td_class (threads s x) \<noteq> pss_class"
    using sched_goodD(6) [OF good, of x] by auto
  then show "in_line x s'" using i st by (auto simp: in_line_def stays_in_line_def)
qed

lemma put_back_in_line:
  assumes pb: "put_back f t s s'" and c: "td_class (threads s t) = pss_class"
  shows "stays_in_line s s'"
proof -
  note P = put_back_same [OF pb]
  have "onrunq (ents s' (TD_SE x)) = onrunq (ents s (TD_SE x))" if "td_class (threads s x) \<noteq> pss_class" for x
    using P(7) [of x] that c by (cases "x = t") (simp_all add: place_def)
  then show ?thesis using P(1,2,4,6) by (simp add: stays_in_line_def)
qed

text \<open>What the change did is seen at the end; before it, the thread was as at the start.\<close>

lemma put_backD:
  assumes "put_back f t s s'"
  shows "\<exists>s1 s2. leaves t s s1 \<and> f s1 = Some s2 \<and> swapped t s1 s2 \<and> same_static s2 s' \<and> same_tw s2 s' \<and>
    (\<forall>x. p_nice (threads s' x) = p_nice (threads s2 x) \<and> td_pri_class (threads s' x) = td_pri_class (threads s2 x) \<and>
      td_group (threads s' x) = td_group (threads s2 x))"
proof -
  obtain s0 s1 s2 where s: "leaves t s s1" "f s1 = Some s2" "swapped t s1 s2" "leaves t s2 s0"
    "s' = s0 \<or> (\<exists>cp. s' = set_td_state TDS_RUNNING t (s0\<lparr>root_cpupri := cp\<rparr>))"
    using assms unfolding put_back_def requeued_def by blast
  have "same_static s2 s'" "same_tw s2 s'" "\<forall>x. p_nice (threads s' x) = p_nice (threads s2 x) \<and>
      td_pri_class (threads s' x) = td_pri_class (threads s2 x) \<and> td_group (threads s' x) = td_group (threads s2 x)"
    using s(4,5) by (auto simp: leaves_def same_static_def same_tw_def same_standing_def set_td_state_def)
  then show ?thesis using s(1-3) by blast
qed

lemma levels_set:
  assumes "levels_ready K s" "curthread s = t"
  shows "\<exists>cp. cpupri_set (MAX_RT_PRI K) (IDLE_PRI K) 0 (td_priority (threads s t)) (root_cpupri s) = Some cp \<and>
    levels_ready K (set_td_state TDS_RUNNING t (s\<lparr>root_cpupri := cp\<rparr>))"
proof -
  obtain cp where cp: "cpupri_set (MAX_RT_PRI K) (IDLE_PRI K) 0 (td_priority (threads s t)) (root_cpupri s) = Some cp"
    using cpupri_set_total [OF assms(2) refl refl, of K] assms(1) by auto
  then have "cpu_to_pri cp 0 = convert_pri (MAX_RT_PRI K) (IDLE_PRI K) (td_priority (threads s t))"
    by (auto simp: cpupri_set_def upd_level_def Let_def split: bind_splits if_splits)
  then show ?thesis using cp assms by (simp add: levels_ready_def set_td_state_def Let_def)
qed

locale requeue =
  fixes change :: "'q kern \<Rightarrow> tid \<Rightarrow> bool \<Rightarrow> 'q sched \<Rightarrow> 'q sched option" and ok :: "'q kern \<Rightarrow> tid \<Rightarrow> 'q sched \<Rightarrow> bool"
  assumes change_law: "\<lbrakk>sched_good K C s; t \<notin> runnable s; outside t s; t \<notin> joined_tds s; se_sfq (ents s (TD_SE t)) \<noteq> None;
      td_class (threads s t) = pss_class; ok K t s\<rbrakk> \<Longrightarrow> \<exists>s'. change K t b s = Some s' \<and> sched_good K C s' \<and> swapped t s s'"
    and ok_law: "\<lbrakk>ok K t s; leaves t s s'\<rbrakk> \<Longrightarrow> ok K t s'"
begin

lemma running_ok:
  assumes good: "sched_good K C s" and K: "runq_laws K C" and p: "on_processor K t s" and t: "t = curthread s" "t \<in> runnable s"
    and few: "int_counts s" and ok: "ok K t s"
  shows "\<exists>s'. do { s \<leftarrow> dequeue_thread K t 0 s; s \<leftarrow> put_prev_thread K t 0 s; s \<leftarrow> change K t b s;
      s \<leftarrow> enqueue_thread K t 0 s; class_activate_thread K (thread_class s t) t s } = Some s' \<and>
    sched_good K C s' \<and> dispatched K t s' \<and> requeued (change K t b) t s s'"
proof -
  have c: "td_class (threads s t) = pss_class" by (rule sched_goodD(3) [OF good t(2)])
  have cpu: "on_cpu t s" using p t(2) by (simp add: on_processor_def)
  have tj: "t \<in> joined_tds s" using t(2) by (simp add: runnable_def joined_tds_def)
  have some: "idle_queues s \<or> (\<exists>u\<in>runnable s. on_cpu u s)" using cpu t(2) by blast
  from dequeue_thread_good [OF good K tj few some, of 0] cpu obtain s1 where s1: "dequeue_thread K t 0 s = Some s1" "sched_good K C s1"
    "runnable s1 = runnable s - {t}" "on_cpu t s1" "joined_tds s1 = joined_tds s - {t}" by blast
  note l1 = dequeue_leaves [OF good t(2) few s1(1)]
  have c1: "td_class (threads s1 t) = pss_class" using l1 c by (simp add: leaves_def)
  from put_prev_thread_good [OF s1(2) K disjI1 [OF conjI [OF s1(4) c1]], of 0] obtain s2 where s2:
    "put_prev_thread K t 0 s1 = Some s2" "sched_good K C s2" "idle_queues s2" "runnable s2 = runnable s - {t}"
    "joined_tds s2 = joined_tds s - {t}" using s1(3,5) by auto
  note l2 = leaves_trans [OF l1 put_prev_leaves [OF s1(2,4) c1 s2(1)]]
  have c2: "td_class (threads s2 t) = pss_class" "se_sfq (ents s2 (TD_SE t)) \<noteq> None"
    using l2 c cpu same_static_sfq [of s s2] by (simp_all add: leaves_def on_cpu_def)
  have off: "t \<notin> runnable s2" "t \<notin> joined_tds s2" using s2(4,5) by simp_all
  have out: "outside t s2" by (rule outside_ok [OF sched_goodD(1) [OF s2(2)] c2(2) off(1) disjI1 [OF s2(3)]])
  from change_law [OF s2(2) off(1) out off(2) c2(2,1) ok_law [OF ok l2]] obtain s3 where s3: "change K t b s2 = Some s3"
    "sched_good K C s3" "swapped t s2 s3" by blast
  have i3: "idle_queues s3" "td_class (threads s3 t) = pss_class" "can_start t s3"
    using s3(3) s2(3) c2(1) off(2) by (auto simp: swapped_def can_start_def joined_tds_def)
  have cl3: "td_class (threads s3 t) \<noteq> idle_class" using i3(2) by simp
  from enqueue_thread_good [OF s3(2) K i3(3) cl3 disjI1 [OF i3(1)], of 0, unfolded i3(2) simp_thms if_True] i3(1)
  obtain s4 where s4: "enqueue_thread K t 0 s3 = Some s4" "sched_good K C s4" "runnable s4 = insert t (runnable s3)"
    "joined_tds s4 = insert t (joined_tds s3)" "idle_queues s4" by blast
  note l4 = enqueue_leaves [OF s3(2) i3(3,2) disjI1 [OF i3(1)] s4(1)]
  have R4: "runnable s4 = runnable s" "joined_tds s4 = joined_tds s" "t \<in> runnable s4"
    using s4(3,4) s3(3) s2(4,5) t(2) tj by (auto simp: swapped_def)
  from class_activate_leaves [OF s4(2) K s4(5) R4(3)] obtain s5 where s5: "class_activate_thread K (thread_class s4 t) t s4 = Some s5"
    "sched_good K C s5" "dispatched K t s5" "runnable s5 = runnable s4" "joined_tds s5 = joined_tds s4" "leaves t s4 s5" by blast
  note l5 = leaves_trans [OF l4 s5(6)]
  have "root_cpupri s5 = root_cpupri s" using l2 s3(3) l5 by (simp add: leaves_def swapped_def same_standing_def)
  then have "requeued (change K t b) t s s5" using l2 s3(1,3) l5 s5(4,5) R4(1,2) unfolding requeued_def by auto
  then show ?thesis using s1(1) s2(1) s3(1) s4(1) s5(1-3) by simp
qed

lemma queued_ok:
  assumes good: "sched_good K C s" and K: "runq_laws K C" and p: "on_processor K (curthread s) s"
    and t: "t \<noteq> curthread s" "t \<in> runnable s" and few: "int_counts s" and ok: "ok K t s"
  shows "\<exists>s'. do { s \<leftarrow> dequeue_thread K t 0 s; s \<leftarrow> change K t b s; enqueue_thread K t 0 s } = Some s' \<and>
    sched_good K C s' \<and> on_processor K (curthread s) s' \<and> requeued (change K t b) t s s' \<and> td_state (threads s' t) = TDS_RUNQ"
proof -
  let ?c = "curthread s"
  have c: "td_class (threads s t) = pss_class" by (rule sched_goodD(3) [OF good t(2)])
  have tj: "t \<in> joined_tds s" "se_sfq (ents s (TD_SE t)) \<noteq> None" using t(2) by (auto simp: runnable_def joined_tds_def)
  have some: "idle_queues s \<or> (\<exists>u\<in>runnable s. on_cpu u s)" using p by (auto simp: on_processor_def split: if_splits)
  from dequeue_thread_good [OF good K tj(1) few some, of 0] obtain s1 where s1: "dequeue_thread K t 0 s = Some s1" "sched_good K C s1"
    "runnable s1 = runnable s - {t}" "idle_queues s \<longrightarrow> idle_queues s1" "\<forall>u. on_cpu u s \<longrightarrow> on_cpu u s1"
    "joined_tds s1 = joined_tds s - {t}" by blast
  note l1 = dequeue_leaves [OF good t(2) few s1(1)]
  have p1: "on_processor K ?c s1" using p s1(3-6) l1 t(1)
    by (auto simp: on_processor_def leaves_def place_def split: if_splits)
  have c1: "td_class (threads s1 t) = pss_class" "se_sfq (ents s1 (TD_SE t)) \<noteq> None"
    using l1 c tj(2) same_static_sfq [of s s1] by (simp_all add: leaves_def)
  have off: "t \<notin> runnable s1" "t \<notin> joined_tds s1" using s1(3,6) by simp_all
  have some1: "idle_queues s1 \<or> (\<exists>u\<in>runnable s1. on_cpu u s1)" using p1 by (auto simp: on_processor_def split: if_splits)
  have out: "outside t s1" by (rule outside_ok [OF sched_goodD(1) [OF s1(2)] c1(2) off(1) some1])
  from change_law [OF s1(2) off(1) out off(2) c1(2,1) ok_law [OF ok l1]] obtain s2 where s2: "change K t b s1 = Some s2"
    "sched_good K C s2" "swapped t s1 s2" by blast
  have c2: "td_class (threads s2 t) = pss_class" "can_start t s2"
    using s2(3) c1(1) off(2) by (auto simp: swapped_def can_start_def joined_tds_def)
  have p2: "on_processor K ?c s2" using p1 s2(3) t(1) by (auto simp: on_processor_def swapped_def place_def)
  have some2: "idle_queues s2 \<or> (\<exists>u\<in>runnable s2. on_cpu u s2)" using p2 by (auto simp: on_processor_def split: if_splits)
  have cl2: "td_class (threads s2 t) \<noteq> idle_class" using c2(1) by simp
  from enqueue_thread_good [OF s2(2) K c2(2) cl2 some2, of 0, unfolded c2(1) simp_thms if_True] obtain s3 where s3:
    "enqueue_thread K t 0 s2 = Some s3" "sched_good K C s3" "runnable s3 = insert t (runnable s2)"
    "joined_tds s3 = insert t (joined_tds s2)" "idle_queues s2 \<longrightarrow> idle_queues s3" "\<forall>u. on_cpu u s2 \<longrightarrow> on_cpu u s3" by blast
  note l3 = enqueue_leaves [OF s2(2) c2(2,1) some2 s3(1)]
  have "td_state (threads s3 t) = TDS_RUNQ"
    using enqueue_thread_state(1) [OF s3(1) good_hier [OF sched_goodD(1) [OF s2(2)]] c2(2) cl2] by (simp add: sets_state_def)
  moreover have R: "runnable s3 = runnable s" "joined_tds s3 = joined_tds s" using s3(3,4) s2(3) s1(3,6) t(2) tj by (auto simp: swapped_def)
  moreover have "on_processor K ?c s3" using p2 s3(3-6) l3 t(1)
    by (auto simp: on_processor_def leaves_def place_def split: if_splits)
  moreover have "root_cpupri s3 = root_cpupri s" using l1 s2(3) l3 by (simp add: leaves_def swapped_def same_standing_def)
  then have "requeued (change K t b) t s s3" using l1 s2(1,3) l3 R unfolding requeued_def by auto
  ultimately show ?thesis using s1(1) s2(1) s3(1,2) by simp
qed

text \<open>
  The frame around the change, whatever the state of the thread; \<open>b\<close> tells the change whether it was
  taken off. Only for the running thread the levels of the processor matter, and there they decide.
\<close>

lemma frame_running:
  assumes good: "sched_good K C s" and K: "runq_laws K C" and p: "on_processor K (curthread s) s" and few: "int_counts s"
    and r: "t = curthread s" "t \<in> runnable s" "TD_IS_RUNNING s t" and ok: "ok K t s"
  defines "run \<equiv> do { s \<leftarrow> dequeue_thread K t 0 s; s \<leftarrow> put_prev_thread K t 0 s; s \<leftarrow> change K t True s;
      s \<leftarrow> enqueue_thread K t 0 s; s \<leftarrow> activate_thread K t s; Some (set_td_state TDS_RUNNING t s) }"
  shows "\<not> levels_ready K s \<Longrightarrow> run = None"
    "levels_ready K s \<Longrightarrow> \<exists>s'. run = Some s' \<and> sched_good K C s' \<and> on_processor K (curthread s) s' \<and> levels_ready K s' \<and>
      put_back (change K t True) t s s'"
proof -
  have "on_processor K t s" using p r(1) by simp
  from running_ok [OF good K this r(1,2) few ok, of True] obtain s1 where s1: "do { s \<leftarrow> dequeue_thread K t 0 s;
      s \<leftarrow> put_prev_thread K t 0 s; s \<leftarrow> change K t True s;
      s \<leftarrow> enqueue_thread K t 0 s; class_activate_thread K (thread_class s t) t s } = Some s1"
    "sched_good K C s1" "dispatched K t s1" "requeued (change K t True) t s s1" by blast
  note R = requeued_same [OF s1(4)]
  have lev: "levels_ready K s1 = levels_ready K s" and ct: "curthread s1 = t"
    using requeued_levels [OF s1(4)] R(1) r(1) by simp_all
  have "run = do { s \<leftarrow> do { s \<leftarrow> dequeue_thread K t 0 s; s \<leftarrow> put_prev_thread K t 0 s; s \<leftarrow> change K t True s;
      s \<leftarrow> enqueue_thread K t 0 s; class_activate_thread K (thread_class s t) t s };
    cp \<leftarrow> cpupri_set (MAX_RT_PRI K) (IDLE_PRI K) 0 (td_priority (threads s t)) (root_cpupri s);
    Some (set_td_state TDS_RUNNING t (s\<lparr>root_cpupri := cp\<rparr>)) }"
    by (simp add: run_def activate_thread_def bind_assoc)
  then have run: "run = do { cp \<leftarrow> cpupri_set (MAX_RT_PRI K) (IDLE_PRI K) 0 (td_priority (threads s1 t)) (root_cpupri s1);
    Some (set_td_state TDS_RUNNING t (s1\<lparr>root_cpupri := cp\<rparr>)) }" unfolding s1(1) by simp
  show "run = None" if "\<not> levels_ready K s"
  proof -
    have "cpupri_set (MAX_RT_PRI K) (IDLE_PRI K) 0 (td_priority (threads s1 t)) (root_cpupri s1) = None"
      using cpupri_set_total [OF ct refl refl, of K] that lev by blast
    then show ?thesis by (simp add: run)
  qed
  show "\<exists>s'. run = Some s' \<and> sched_good K C s' \<and> on_processor K (curthread s) s' \<and> levels_ready K s' \<and>
      put_back (change K t True) t s s'" if l: "levels_ready K s"
  proof -
    obtain cp where cp: "cpupri_set (MAX_RT_PRI K) (IDLE_PRI K) 0 (td_priority (threads s1 t)) (root_cpupri s1) = Some cp"
      "levels_ready K (set_td_state TDS_RUNNING t (s1\<lparr>root_cpupri := cp\<rparr>))" using levels_set [OF _ ct] l lev by blast
    let ?s = "set_td_state TDS_RUNNING t (s1\<lparr>root_cpupri := cp\<rparr>)"
    have q: "quiet s1 ?s" by (simp add: quiet_def set_td_state_def)
    have "td_state (threads ?s t) = td_state (threads s t)" using r(3) by (simp add: set_td_state_def TD_IS_RUNNING_def)
    then have "put_back (change K t True) t s ?s" using s1(4) unfolding put_back_def by blast
    moreover have "on_processor K (curthread s) ?s" using s1(3) quiet_on_processor [OF q] r(1) by (simp add: dispatched_def)
    moreover note quiet_good(6) [OF q s1(2)]
    ultimately show ?thesis using cp by (simp add: run)
  qed
qed

lemma frame_ok:
  assumes good: "sched_good K C s" and K: "runq_laws K C" and p: "on_processor K (curthread s) s" and few: "int_counts s"
    and c: "td_class (threads s t) = pss_class" and t: "settled t s" and ok: "ok K t s"
  defines "on \<equiv> TD_ON_RUNQ s t \<or> TD_IS_RUNNING s t" and "run \<equiv> TD_IS_RUNNING s t"
  defines "all \<equiv> do { s \<leftarrow> (if on then dequeue_thread K t 0 s else Some s); s \<leftarrow> (if run then put_prev_thread K t 0 s else Some s);
      s \<leftarrow> change K t on s; s \<leftarrow> (if on then enqueue_thread K t 0 s else Some s);
      if run then do { s \<leftarrow> activate_thread K t s; Some (set_td_state TDS_RUNNING t s) } else Some s }"
  shows "run \<and> \<not> levels_ready K s \<Longrightarrow> all = None"
    "\<not> run \<or> levels_ready K s \<Longrightarrow> \<exists>s'. all = Some s' \<and> sched_good K C s' \<and> on_processor K (curthread s) s' \<and>
      levels_ready K s' = levels_ready K s \<and> put_back (change K t on) t s s'"
proof -
  have running: "t = curthread s" "t \<in> runnable s" if run using that t c by (auto simp: settled_def run_def)
  note R = frame_running [OF good K p few running _ ok]
  show "all = None" if "run \<and> \<not> levels_ready K s"
    using R(1) that by (simp add: all_def on_def run_def)
  assume lev: "\<not> run \<or> levels_ready K s"
  consider (running) "TD_IS_RUNNING s t" | (queued) "\<not> TD_IS_RUNNING s t" "TD_ON_RUNQ s t"
    | (away) "\<not> TD_IS_RUNNING s t" "\<not> TD_ON_RUNQ s t" by blast
  then show "\<exists>s'. all = Some s' \<and> sched_good K C s' \<and> on_processor K (curthread s) s' \<and>
      levels_ready K s' = levels_ready K s \<and> put_back (change K t on) t s s'"
  proof cases
    case running
    then show ?thesis using R(2) lev by (auto simp: all_def on_def run_def)
  next
    case queued
    then have q: "t \<noteq> curthread s" "t \<in> runnable s" using t c by (simp_all add: settled_def)
    from queued_ok [OF good K p q few ok, of True] obtain s1 where s1: "do { s \<leftarrow> dequeue_thread K t 0 s; s \<leftarrow> change K t True s;
        enqueue_thread K t 0 s } = Some s1" "sched_good K C s1" "on_processor K (curthread s) s1" "requeued (change K t True) t s s1"
      "td_state (threads s1 t) = TDS_RUNQ" by blast
    have "put_back (change K t True) t s s1" using s1(4,5) queued(2) unfolding put_back_def TD_ON_RUNQ_def by auto
    then show ?thesis using queued s1 requeued_levels [OF s1(4)] by (auto simp: all_def on_def run_def bind_eq_Some_conv)
  next
    case away
    then have a: "t \<noteq> curthread s" "t \<notin> joined_tds s" "se_sfq (ents s (TD_SE t)) \<noteq> None" "t \<notin> runnable s"
      using t c by (auto simp: settled_def can_start_def joined_tds_def runnable_def)
    have "idle_queues s \<or> (\<exists>u\<in>runnable s. on_cpu u s)" using p by (auto simp: on_processor_def split: if_splits)
    from outside_ok [OF sched_goodD(1) [OF good] a(3,4) this] have "outside t s" .
    from change_law [OF good a(4) this a(2,3) c ok, of False] obtain s1 where s1: "change K t False s = Some s1"
      "sched_good K C s1" "swapped t s s1" by blast
    have "requeued (change K t False) t s s1" using s1(1,3) unfolding requeued_def swapped_def by (auto intro: leaves_refl)
    moreover from this have "put_back (change K t False) t s s1" using s1(3) unfolding put_back_def swapped_def by blast
    moreover have "on_processor K (curthread s) s1" using p s1(3) a(1) by (auto simp: on_processor_def swapped_def place_def)
    ultimately show ?thesis using away s1(1,2) requeued_levels [of "change K t False" t s s1 K]
      by (simp add: all_def on_def run_def)
  qed
qed

end

end
