(* ===== verification/Sched_Nice.thy ===== *)
theory Sched_Nice
  imports Sched_Requeue
begin

text \<open>
  The nice value of a process: each of its threads gets the weight of the new value, off its queue if it is
  on one.
\<close>

section \<open>The weight of a thread off its queue\<close>

lemma off_mem: "pss_inv X s \<Longrightarrow> t \<notin> runnable s \<Longrightarrow> TD_SE t \<notin> set (mem X s q)"
  using runnable_mem [OF pss_invD(1)] by blast

lemma reload_inv:
  assumes inv: "pss_inv X s" and off: "\<And>q. e \<notin> set (mem X s q)"
  shows "pss_inv X (upd_se e (\<lambda>se. se\<lparr>se_load := l\<rparr>) s)"
proof -
  let ?s = "upd_se e (\<lambda>se. se\<lparr>se_load := l\<rparr>) s"
  note P = pss_invD [OF inv] and Q = queue_invD [OF pss_invD(1) [OF inv]]
  have stat: "same_static s ?s" by (simp add: same_static_def)
  have st: "onsfq (ents ?s x) = onsfq (ents s x)" "joined (ents ?s x) = joined (ents s x)" "my_q (ents ?s x) = my_q (ents s x)"
    "se_sfq (ents ?s x) = se_sfq (ents s x)" "onrunq (ents ?s x) = onrunq (ents s x)" for x by simp_all
  have m: "mem X ?s = mem X s" by (rule ext) (simp add: mem_def cur_list_def split: option.splits)
  have w: "x \<in> set (mem X s q) \<Longrightarrow> se_load (ents ?s x) = se_load (ents s x)" for x q
    using off by auto
  then have ws: "wsum ?s (mem X s q) = wsum s (mem X s q)" for q
    unfolding wsum_def by (intro arg_cong [where f = sum_list] map_cong) simp_all
  have "tl_inv X ?s" using Q(1) unfolding tl_inv_def tlq_def st by simp
  moreover have "cur_inv ?s" using Q(2) unfolding cur_inv_def st by simp
  moreover have "join_inv X ?s" using Q(3) unfolding join_inv_def st by simp
  moreover have "acct (mem X ?s) ?s" "load_inv ?s" using Q(4,5) unfolding acct_def load_inv_def m ws by simp_all
  moreover have "cand_inv (mem X ?s) ?s" using Q(6) unfolding cand_inv_def m by simp
  moreover have "group_inv (mem X ?s) ?s" using Q(7) unfolding group_inv_def m st by simp
  moreover have "hier_wf ?s" using Q(8) hier_wf_static(1) [OF stat] by simp
  moreover have "up_inv (mem X ?s) ?s" "full_inv (mem X ?s) ?s"
    using up_inv_sets [OF P(2) _ stat] full_inv_sets [OF P(3) _ stat] m by simp_all
  moreover have "run_inv ?s" using P(4) unfolding run_inv_def st by simp
  moreover have "tree_wf ?s" using P(7) tree_wf_static(1) [OF stat] by simp
  moreover have "wt_inv (mem X ?s) ?s" using P(8) w unfolding wt_inv_def m by auto
  ultimately show ?thesis by (simp add: pss_inv_def queue_inv_def)
qed

lemma reload_good:
  assumes good: "sched_good K C s" and off: "t \<notin> runnable s" and w: "weight_ok (weight l)"
  defines "s' \<equiv> upd_se (TD_SE t) (\<lambda>se. se\<lparr>se_load := l\<rparr>) s"
  shows "sched_good K C s'" "runnable s' = runnable s" "on_cpu u s' = on_cpu u s" "idle_queues s' = idle_queues s"
    "joined_tds s' = joined_tds s" "can_start t s' = can_start t s"
proof -
  obtain X where X: "pss_inv X s" using good by (auto simp: sched_good_def pss_good_def)
  have stat: "same_static s s'" by (simp add: same_static_def s'_def)
  show R: "runnable s' = runnable s" "joined_tds s' = joined_tds s" "can_start t s' = can_start t s"
    "idle_queues s' = idle_queues s"
    by (auto simp: s'_def runnable_def joined_tds_def can_start_def idle_queues_def)
  show "on_cpu u s' = on_cpu u s" for u using on_cpu_same [OF stat] by (simp add: s'_def)
  have "pss_inv X s'" unfolding s'_def by (rule reload_inv [OF X off_mem [OF X off]])
  then have "pss_good s'" using good R(2) w by (auto simp: sched_good_def pss_good_def s'_def)
  moreover have "agree C s'" using good by (simp add: sched_good_def agree_def s'_def) (auto split: if_splits)
  ultimately show "sched_good K C s'"
    using good R(1,2) same_static_sfq [OF stat] by (simp add: sched_good_def) (simp add: s'_def)
qed

text \<open>The weight of a nice value.\<close>

definition nice_load :: "'q kern \<Rightarrow> tid \<Rightarrow> 'q sched \<Rightarrow> load_weight" where
  "nice_load K t s = (if td_pri_class (threads s t) \<noteq> PRI_IDLE K
     then \<lparr>weight = prio_to_weight ! nat (p_nice (threads s t) - PRIO_MIN K), inv_weight = prio_to_wmult ! nat (p_nice (threads s t) - PRIO_MIN K)\<rparr>
     else \<lparr>weight = IDLEPRIO_WEIGHT, inv_weight = IDLEPRIO_WMULT\<rparr>)"

definition nice_ok :: "'q kern \<Rightarrow> tid \<Rightarrow> 'q sched \<Rightarrow> bool" where
  "nice_ok K t s \<longleftrightarrow> 0 \<le> p_nice (threads s t) - PRIO_MIN K \<and> p_nice (threads s t) - PRIO_MIN K \<le> 40"

lemma weights_ok: "\<forall>w\<in>set prio_to_weight. weight_ok w"
  by code_simp

lemma set_weight_ok:
  assumes "nice_ok K t s"
  shows "set_thread_weight K t s = Some (upd_se (TD_SE t) (\<lambda>se. se\<lparr>se_load := nice_load K t s\<rparr>) s)"
    "weight_ok (weight (nice_load K t s))"
proof -
  let ?i = "p_nice (threads s t) - PRIO_MIN K"
  have i: "0 \<le> ?i" "?i < 41" "nat ?i < length prio_to_weight" using assms prio_tables(1) by (auto simp: nice_ok_def)
  show "set_thread_weight K t s = Some (upd_se (TD_SE t) (\<lambda>se. se\<lparr>se_load := nice_load K t s\<rparr>) s)"
    using i prio_tables(1,2) by (simp add: set_thread_weight_def table_at_def nice_load_def td_to_se_def Let_def)
  have "prio_to_weight ! nat ?i \<in> set prio_to_weight" using i(3) by (rule nth_mem)
  then have "weight_ok (prio_to_weight ! nat ?i)" using weights_ok by blast
  then show "weight_ok (weight (nice_load K t s))" by (simp add: nice_load_def weight_ok_def)
qed

section \<open>The nice value of a thread\<close>

lemma reload_ok:
  assumes good: "sched_good K C s" and off: "t \<notin> runnable s" and nice: "nice_ok K t s"
  shows "\<exists>s'. set_thread_weight K t s = Some s' \<and> sched_good K C s' \<and> same_static s s' \<and> root_cpupri s' = root_cpupri s \<and>
    (\<forall>u. on_processor K u s' = on_processor K u s) \<and>
    runnable s' = runnable s \<and> joined_tds s' = joined_tds s \<and> (se_sfq (ents s (TD_SE t)) \<noteq> None \<longrightarrow> swapped t s s')"
proof -
  note W = set_weight_ok [OF nice]
  define s' where "s' = upd_se (TD_SE t) (\<lambda>se. se\<lparr>se_load := nice_load K t s\<rparr>) s"
  note R = reload_good [OF good off W(2), folded s'_def]
  have f: "threads s' = threads s" "curthread s' = curthread s" "root_cpupri s' = root_cpupri s"
    "\<And>x. onrunq (ents s' x) = onrunq (ents s x)" "\<And>x. se_sfq (ents s' x) = se_sfq (ents s x)" by (simp_all add: s'_def)
  have "on_processor K u s' = on_processor K u s" for u by (simp add: on_processor_def R f)
  moreover have "same_static s s'" by (simp add: same_static_def s'_def)
  ultimately show ?thesis using W(1) R f by (simp add: s'_def [symmetric] swapped_def place_def)
qed

interpretation nice: requeue "\<lambda>K t b. set_thread_weight K t" nice_ok
proof (unfold_locales, goal_cases)
  case (1 K C s t b)
  then show ?case using reload_ok [OF 1(1,2,7)] by blast
next
  case (2 K t s s')
  then show ?case by (simp add: leaves_def same_standing_def nice_ok_def)
qed

text \<open>Only the weight of the thread differs, which is that of its nice value.\<close>

definition reniced :: "'q kern \<Rightarrow> tid \<Rightarrow> 'q sched \<Rightarrow> 'q sched \<Rightarrow> bool" where
  "reniced K t s s' \<longleftrightarrow> runnable s' = runnable s \<and> joined_tds s' = joined_tds s \<and> curthread s' = curthread s \<and>
     weight (se_load (ents s' (TD_SE t))) = weight (nice_load K t s) \<and>
     (\<forall>x. x \<noteq> t \<longrightarrow> weight (se_load (ents s' (TD_SE x))) = weight (se_load (ents s (TD_SE x)))) \<and>
     stays_in_line s s' \<and>
     (\<forall>x. td_class (threads s' x) = td_class (threads s x) \<and> td_priority (threads s' x) = td_priority (threads s x) \<and>
       p_nice (threads s' x) = p_nice (threads s x) \<and> td_pri_class (threads s' x) = td_pri_class (threads s x))"

lemma reload_reniced:
  assumes "set_thread_weight K t s = Some s'" "nice_ok K t s"
  shows "weight (se_load (ents s' (TD_SE t))) = weight (nice_load K t s)"
    "x \<noteq> t \<Longrightarrow> weight (se_load (ents s' (TD_SE x))) = weight (se_load (ents s (TD_SE x)))"
    "threads s' = threads s" "curthread s' = curthread s" "onrunq (ents s' e) = onrunq (ents s e)"
  using assms set_weight_ok(1) [OF assms(2)] by (auto simp: joined_tds_def split: if_splits)

lemma put_back_reniced:
  assumes pb: "put_back (set_thread_weight K t) t s s'" and nice: "nice_ok K t s" and c: "td_class (threads s t) = pss_class"
  shows "reniced K t s s'" "same_static s s'"
proof -
  note P = put_back_same [OF pb]
  obtain s1 s2 where s: "leaves t s s1" "set_thread_weight K t s1 = Some s2" "swapped t s1 s2" "same_static s2 s'" "same_tw s2 s'"
    "\<forall>x. p_nice (threads s' x) = p_nice (threads s2 x) \<and> td_pri_class (threads s' x) = td_pri_class (threads s2 x) \<and>
      td_group (threads s' x) = td_group (threads s2 x)" using put_backD [OF pb] by blast
  have l: "same_static s s1" "same_tw s s1" "\<And>x. p_nice (threads s1 x) = p_nice (threads s x)"
    "\<And>x. td_pri_class (threads s1 x) = td_pri_class (threads s x)" using s(1) by (simp_all add: leaves_def same_standing_def)
  have n1: "nice_ok K t s1" "nice_load K t s1 = nice_load K t s" using nice by (simp_all add: nice_ok_def nice_load_def l)
  note w = reload_reniced [OF s(2) n1(1)]
  show "reniced K t s s'" using P w s(5,6) l(2-4) put_back_in_line [OF pb c] by (simp add: reniced_def same_tw_def n1(2))
  have "same_static s1 s2" using s(2) set_weight_ok(1) [OF n1(1)] by (auto simp: same_static_def)
  then show "same_static s s'" using same_static_trans [OF l(1) same_static_trans [OF _ s(4)]] by blast
qed

lemma resched_wrap:
  assumes "sched_good K C s" "on_processor K u s"
    and s': "s' = (if b then resched_thread (curthread s) s else s)"
  shows "sched_good K C s'" "on_processor K u s'" "levels_ready K s' = levels_ready K s" "same_static r s \<Longrightarrow> same_static r s'"
    "reniced K t r s \<Longrightarrow> reniced K t r s'"
proof -
  have q: "quiet s s'" by (simp add: s')
  show "sched_good K C s'" "on_processor K u s'" using quiet_good(6) [OF q assms(1)] quiet_on_processor [OF q] assms(2) by simp_all
  show "levels_ready K s' = levels_ready K s" "same_static r s \<Longrightarrow> same_static r s'"
    by (auto simp: s' levels_ready_def same_static_def resched_thread_def)
  show "reniced K t r s \<Longrightarrow> reniced K t r s'"
    unfolding reniced_def stays_in_line_def quiet_good(2) [OF q] by (simp add: s' resched_thread_def joined_tds_def)
qed

text \<open>Only the running thread needs the levels of the processor.\<close>

definition needs_level :: "tid \<Rightarrow> 'q sched \<Rightarrow> bool" where
  "needs_level t s \<longleftrightarrow> td_class (threads s t) = pss_class \<and> TD_IS_RUNNING s t"

lemma sched_nice_thread_ok:
  assumes good: "sched_good K C s" and K: "runq_laws K C" and p: "on_processor K (curthread s) s"
    and few: "int_counts s" and nice: "nice_ok K t s" and t: "settled t s"
  shows "needs_level t s \<and> \<not> levels_ready K s \<Longrightarrow> sched_nice_thread K delta t s = None"
    "\<not> needs_level t s \<or> levels_ready K s \<Longrightarrow> \<exists>s'. sched_nice_thread K delta t s = Some s' \<and> sched_good K C s' \<and>
      on_processor K (curthread s) s' \<and> reniced K t s s' \<and> levels_ready K s' = levels_ready K s \<and> same_static s s'"
proof -
  define all where "all = do { s' \<leftarrow> (if TD_ON_RUNQ s t \<or> TD_IS_RUNNING s t then dequeue_thread K t 0 s else Some s);
      s' \<leftarrow> (if TD_IS_RUNNING s t then put_prev_thread K t 0 s' else Some s'); s' \<leftarrow> set_thread_weight K t s';
      s' \<leftarrow> (if TD_ON_RUNQ s t \<or> TD_IS_RUNNING s t then enqueue_thread K t 0 s' else Some s');
      if TD_IS_RUNNING s t then do { s' \<leftarrow> activate_thread K t s'; Some (set_td_state TDS_RUNNING t s') } else Some s' }"
  have run: "sched_nice_thread K delta t s = Option.bind all
      (\<lambda>s'. Some (if delta < 0 \<or> delta > 0 \<and> TD_IS_RUNNING s t then resched_thread (curthread s') s' else s'))"
    if "td_class (threads s t) = pss_class"
    unfolding all_def using that by (simp add: sched_nice_thread_def thread_class_def Let_def bind_assoc)
  show "sched_nice_thread K delta t s = None" if "needs_level t s \<and> \<not> levels_ready K s"
    using nice.frame_ok(1) [OF good K p few _ t nice, folded all_def] that run by (simp add: needs_level_def)
  assume lev: "\<not> needs_level t s \<or> levels_ready K s"
  show "\<exists>s'. sched_nice_thread K delta t s = Some s' \<and> sched_good K C s' \<and>
      on_processor K (curthread s) s' \<and> reniced K t s s' \<and> levels_ready K s' = levels_ready K s \<and> same_static s s'"
  proof (cases "td_class (threads s t) = pss_class")
    case False
    then have off: "t \<notin> runnable s" using sched_goodD(3) [OF good] by blast
    from reload_ok [OF good off nice] p obtain s1 where s1: "set_thread_weight K t s = Some s1" "sched_good K C s1"
      "same_static s s1" "root_cpupri s1 = root_cpupri s" "on_processor K (curthread s) s1" "runnable s1 = runnable s"
      "joined_tds s1 = joined_tds s" by blast
    note w = reload_reniced [OF s1(1) nice]
    have "sched_nice_thread K delta t s = Some s1" using False s1(1) by (simp add: sched_nice_thread_def thread_class_def)
    moreover have "reniced K t s s1" using w s1(6,7) by (simp add: reniced_def stays_in_line_def)
    moreover have "levels_ready K s1 = levels_ready K s" using s1(4) w(3,4) by (simp add: levels_ready_def)
    ultimately show ?thesis using s1(2,3,5) by blast
  next
    case True
    then have "\<not> TD_IS_RUNNING s t \<or> levels_ready K s" using lev by (simp add: needs_level_def)
    from nice.frame_ok(2) [OF good K p few True t nice this, folded all_def] obtain s1 where s1: "all = Some s1"
      "sched_good K C s1" "on_processor K (curthread s) s1" "levels_ready K s1 = levels_ready K s"
      "put_back (set_thread_weight K t) t s s1" by blast
    note R = put_back_reniced [OF s1(5) nice True] and W = resched_wrap [OF s1(2,3)]
    have "sched_nice_thread K delta t s =
        Some (if delta < 0 \<or> delta > 0 \<and> TD_IS_RUNNING s t then resched_thread (curthread s1) s1 else s1)"
      using run [OF True] s1(1) by simp
    then show ?thesis using W [OF refl] R s1(4) by blast
  qed
qed

section \<open>The nice value of a process\<close>

text \<open>
  Fewer threads and groups than an \<open>int\<close> counts; as the groups and the threads that are queued or
  running stay, so does this.
\<close>

definition queue_room :: "'q sched \<Rightarrow> bool" where
  "queue_room s \<longleftrightarrow> (\<forall>q. finite {n. se_sfq (ents s (ZONE_SE n)) = Some q} \<and>
     card (joined_tds s) + card {n. se_sfq (ents s (ZONE_SE n)) = Some q} < 2 ^ 31)"

lemma queue_room_counts:
  assumes "pss_good s" "queue_room s"
  shows "int_counts s"
  unfolding int_counts_def
proof
  fix q
  let ?G = "{n. se_sfq (ents s (ZONE_SE n)) = Some q}"
  obtain X where X: "pss_inv X s" "finite (joined_tds s)" using assms(1) by (auto simp: pss_good_def)
  note Q = pss_invD(1) [OF X(1)]
  have room: "finite ?G" "card (joined_tds s) + card ?G < 2 ^ 31" using assms(2) unfolding queue_room_def by blast+
  have "set (mem X s q) \<subseteq> TD_SE ` joined_tds s \<union> ZONE_SE ` ?G"
  proof
    fix e assume "e \<in> set (mem X s q)"
    then have e: "joined (ents s e)" "se_sfq (ents s e) = Some q" using queue_mem(1) [OF Q] by blast+
    show "e \<in> TD_SE ` joined_tds s \<union> ZONE_SE ` ?G" using e by (cases e) (auto simp: joined_tds_def)
  qed
  moreover have "finite (TD_SE ` joined_tds s \<union> ZONE_SE ` ?G)" using X(2) room(1) by blast
  ultimately have "card (set (mem X s q)) \<le> card (TD_SE ` joined_tds s \<union> ZONE_SE ` ?G)" by (rule card_mono [rotated])
  also have "\<dots> \<le> card (TD_SE ` joined_tds s) + card (ZONE_SE ` ?G)" by (rule card_Un_le)
  also have "\<dots> \<le> card (joined_tds s) + card ?G" using card_image_le X(2) room(1) by (intro add_mono) blast+
  finally have "length (mem X s q) < 2 ^ 31" using room(2) distinct_card [OF queue_mem(2) [OF Q, of q]] by linarith
  moreover have "nr_running (sfqs s q) = int (length (mem X s q))" using queue_invD(4) [OF Q] by (simp add: acct_def)
  ultimately show "nr_running (sfqs s q) < 2 ^ 31" by simp
qed

lemma queue_room_same: "same_static s s1 \<Longrightarrow> joined_tds s1 = joined_tds s \<Longrightarrow> queue_room s1 = queue_room s"
  by (simp add: queue_room_def same_static_sfq)

text \<open>Whether a thread is settled, and whether it needs the levels, is not changed by what is done to another one.\<close>

lemma needs_level_same:
  assumes "stays_in_line s s'"
  shows "needs_level x s' = needs_level x s"
  using assms by (simp add: needs_level_def stays_in_line_def TD_IS_RUNNING_def)

lemma renice_threads:
  assumes "sched_good K C s" "runq_laws K C" "on_processor K (curthread s) s" "queue_room s" "distinct ts"
    and "\<forall>t\<in>set ts. nice_ok K t s \<and> settled t s"
  shows "if (\<exists>t\<in>set ts. needs_level t s) \<and> \<not> levels_ready K s then fold_opt (sched_nice_thread K delta) ts s = None
    else \<exists>s'. fold_opt (sched_nice_thread K delta) ts s = Some s' \<and> sched_good K C s' \<and> on_processor K (curthread s) s' \<and>
      stays_in_line s s' \<and> curthread s' = curthread s \<and>
      (\<forall>t. weight (se_load (ents s' (TD_SE t))) =
        (if t \<in> set ts then weight (nice_load K t s) else weight (se_load (ents s (TD_SE t)))))"
  using assms(1,3-)
proof (induction ts arbitrary: s)
  case (Cons t ts)
  have few: "int_counts s" using queue_room_counts [OF sched_goodD(1) [OF Cons.prems(1)] Cons.prems(3)] .
  have t: "nice_ok K t s" "settled t s" using Cons.prems(5) by simp_all
  note N = sched_nice_thread_ok [OF Cons.prems(1) assms(2) Cons.prems(2) few t, of delta]
  show ?case
  proof (cases "needs_level t s \<and> \<not> levels_ready K s")
    case True
    then show ?thesis using N(1) by auto
  next
    case False
    then have "\<not> needs_level t s \<or> levels_ready K s" by blast
    from N(2) [OF this] obtain s1 where s1: "sched_nice_thread K delta t s = Some s1" "sched_good K C s1"
      "on_processor K (curthread s) s1" "reniced K t s s1" "levels_ready K s1 = levels_ready K s" "same_static s s1" by blast
    have r: "runnable s1 = runnable s" "joined_tds s1 = joined_tds s" "curthread s1 = curthread s"
      "\<And>x. p_nice (threads s1 x) = p_nice (threads s x)" "\<And>x. td_pri_class (threads s1 x) = td_pri_class (threads s x)"
      "stays_in_line s s1" using s1(4) by (simp_all add: reniced_def)
    have load: "nice_load K x s1 = nice_load K x s" for x by (simp add: nice_load_def r(4,5))
    have p1: "on_processor K (curthread s1) s1" using s1(3) r(3) by simp
    have room: "queue_room s1" using Cons.prems(3) queue_room_same [OF s1(6) r(2)] by simp
    have dist: "distinct ts" "t \<notin> set ts" using Cons.prems(4) by simp_all
    have "\<forall>x\<in>set ts. nice_ok K x s1 \<and> settled x s1"
      using Cons.prems(5) settled_other [OF s1(6) r(1-3)] r(4,6) by (simp add: nice_ok_def stays_in_line_def)
    note IH = Cons.IH [OF s1(2) p1 room dist(1) this]
    have need: "(\<exists>x\<in>set (t # ts). needs_level x s) \<and> \<not> levels_ready K s \<longleftrightarrow> (\<exists>x\<in>set ts. needs_level x s1) \<and> \<not> levels_ready K s1"
      using False needs_level_same [OF r(6)] s1(5) by auto
    show ?thesis
    proof (cases "(\<exists>x\<in>set ts. needs_level x s1) \<and> \<not> levels_ready K s1")
      case True
      then show ?thesis using IH need s1(1) by simp
    next
      case no: False
      then obtain s' where s': "fold_opt (sched_nice_thread K delta) ts s1 = Some s'" "sched_good K C s'"
        "on_processor K (curthread s1) s'" "stays_in_line s1 s'" "curthread s' = curthread s1"
        "\<forall>x. weight (se_load (ents s' (TD_SE x))) =
          (if x \<in> set ts then weight (nice_load K x s1) else weight (se_load (ents s1 (TD_SE x))))" using IH by auto
      have "\<forall>x. weight (se_load (ents s' (TD_SE x))) =
          (if x \<in> set (t # ts) then weight (nice_load K x s) else weight (se_load (ents s (TD_SE x))))"
        using s'(6) s1(4) dist(2) by (auto simp: load reniced_def)
      moreover note stays_in_line_trans [OF r(6) s'(4)]
      moreover have "fold_opt (sched_nice_thread K delta) (t # ts) s = Some s'" using s1(1) s'(1) by simp
      ultimately show ?thesis using s'(2,3,5) r(3) need no by auto
    qed
  qed
qed simp

text \<open>The new value is stored first, then each thread is moved to its weight.\<close>

definition with_nice :: "tid list \<Rightarrow> int \<Rightarrow> 'q sched \<Rightarrow> 'q sched" where
  "with_nice ts nice s = s\<lparr>threads := (\<lambda>t. if t \<in> set ts then (threads s t)\<lparr>p_nice := nice\<rparr> else threads s t)\<rparr>"

lemma with_nice_same:
  "quiet s (with_nice ts nice s)" "settled t (with_nice ts nice s) = settled t s" "queue_room (with_nice ts nice s) = queue_room s"
  "levels_ready K (with_nice ts nice s) = levels_ready K s" "curthread (with_nice ts nice s) = curthread s"
  "runnable (with_nice ts nice s) = runnable s" "joined_tds (with_nice ts nice s) = joined_tds s" "ents (with_nice ts nice s) = ents s"
  "td_pri_class (threads (with_nice ts nice s) t) = td_pri_class (threads s t)"
  "t \<in> set ts \<Longrightarrow> p_nice (threads (with_nice ts nice s) t) = nice" "needs_level t (with_nice ts nice s) = needs_level t s"
  "stays_in_line s (with_nice ts nice s)"
  by (auto simp: with_nice_def quiet_def settled_def TD_IS_RUNNING_def TD_ON_RUNQ_def can_start_def queue_room_def joined_tds_def levels_ready_def
      runnable_def needs_level_def stays_in_line_def)

text \<open>Exactly when the levels are missing for the running thread, the call fails.\<close>

lemma sched_nice_exact:
  assumes good: "sched_good K C s" and K: "runq_laws K C" and p: "on_processor K (curthread s) s"
    and room: "queue_room s" and ts: "distinct ts" "\<forall>t\<in>set ts. settled t s"
    and nice: "0 \<le> nice - PRIO_MIN K" "nice - PRIO_MIN K \<le> 40"
  shows "if (\<exists>t\<in>set ts. needs_level t s) \<and> \<not> levels_ready K s then sched_nice K old ts nice s = None
    else \<exists>s'. sched_nice K old ts nice s = Some s' \<and> sched_good K C s' \<and> on_processor K (curthread s') s' \<and>
      stays_in_line s s' \<and> curthread s' = curthread s \<and>
      (\<forall>t. weight (se_load (ents s' (TD_SE t))) = (if t \<in> set ts then
         if td_pri_class (threads s t) = PRI_IDLE K then IDLEPRIO_WEIGHT else prio_to_weight ! nat (nice - PRIO_MIN K)
       else weight (se_load (ents s (TD_SE t)))))"
proof -
  let ?s = "with_nice ts nice s"
  note W = with_nice_same [where s = s and ts = ts and nice = nice]
  have run: "sched_nice K old ts nice s = fold_opt (sched_nice_thread K (old - nice)) ts ?s"
    by (simp add: sched_nice_def with_nice_def Let_def)
  have p1: "on_processor K (curthread ?s) ?s" using p quiet_on_processor [OF W(1)] W(5) by simp
  have pre: "\<forall>t\<in>set ts. nice_ok K t ?s \<and> settled t ?s" "queue_room ?s" using ts(2) nice room W(2,3,10) by (simp_all add: nice_ok_def)
  note R = renice_threads [OF quiet_good(6) [OF W(1) good] K p1 pre(2) ts(1) pre(1), of "old - nice", unfolded W(4,11)]
  show ?thesis
  proof (cases "(\<exists>t\<in>set ts. needs_level t s) \<and> \<not> levels_ready K s")
    case True
    then show ?thesis using R run by simp
  next
    case False
    then obtain s' where s': "fold_opt (sched_nice_thread K (old - nice)) ts ?s = Some s'" "sched_good K C s'"
      "on_processor K (curthread ?s) s'" "stays_in_line ?s s'" "curthread s' = curthread ?s"
      "\<forall>t. weight (se_load (ents s' (TD_SE t))) =
        (if t \<in> set ts then weight (nice_load K t ?s) else weight (se_load (ents ?s (TD_SE t))))"
      using R by auto
    have "stays_in_line s s'" by (rule stays_in_line_trans [OF W(12) s'(4)])
    moreover have "\<forall>t. weight (se_load (ents s' (TD_SE t))) = (if t \<in> set ts then
        if td_pri_class (threads s t) = PRI_IDLE K then IDLEPRIO_WEIGHT else prio_to_weight ! nat (nice - PRIO_MIN K)
      else weight (se_load (ents s (TD_SE t))))" using s'(6) W(8-10) by (simp add: nice_load_def)
    ultimately show ?thesis using False s'(1-3,5) W(5) run by auto
  qed
qed

lemma sched_nice_ok:
  assumes good: "sched_good K C s" and K: "runq_laws K C" and p: "on_processor K (curthread s) s"
    and room: "queue_room s" and lev: "levels_ready K s" and ts: "distinct ts" "\<forall>t\<in>set ts. settled t s"
    and nice: "0 \<le> nice - PRIO_MIN K" "nice - PRIO_MIN K \<le> 40"
  shows "\<exists>s'. sched_nice K old ts nice s = Some s' \<and> sched_good K C s' \<and> on_processor K (curthread s') s' \<and>
    stays_in_line s s' \<and> curthread s' = curthread s \<and>
    (\<forall>t. weight (se_load (ents s' (TD_SE t))) = (if t \<in> set ts then
       if td_pri_class (threads s t) = PRI_IDLE K then IDLEPRIO_WEIGHT else prio_to_weight ! nat (nice - PRIO_MIN K)
     else weight (se_load (ents s (TD_SE t)))))"
  using sched_nice_exact [OF good K p room ts nice, of old] lev by simp

end
