(* ===== verification/Sched_Group.thy ===== *)
theory Sched_Group
  imports Sched
begin

text \<open>
  Groups of threads (\<open>sched.c\<close>, from \<open>sched_group_find\<close> on): lookup, creation, destruction, the
  move of a thread between groups, and the sysctl handlers over them. The addresses and the
  identifier of a new group come from the zones and from \<open>alloc_unr\<close> and are arguments.
\<close>

section \<open>Lookup\<close>

definition sched_group_find :: "int \<Rightarrow> 'q sched \<Rightarrow> gid option" where
  "sched_group_find n s = find (\<lambda>g. sg_id (groups s g) = n) (all_sched_groups s)"

definition sched_group_find_by_name :: "gid \<Rightarrow> string \<Rightarrow> 'q sched \<Rightarrow> gid option" where
  "sched_group_find_by_name parent name s =
     find (\<lambda>g. sg_name (groups s g) = name) (sg_children (groups s parent))"

section \<open>Operations\<close>

definition free_sched_group :: "gid \<Rightarrow> 'q sched \<Rightarrow> 'q sched" where
  "free_sched_group g s = pss_free_sched_group g s"

definition sched_group_move :: "'q kern \<Rightarrow> tid \<Rightarrow> gid \<Rightarrow> 'q sched \<Rightarrow> 'q sched option" where
  "sched_group_move K t g s = do {
     let on_rq = TD_ON_RUNQ s t;
     let running = TD_IS_RUNNING s t;
     s \<leftarrow> (if on_rq \<or> running then dequeue_thread K t 0 s else Some s);
     s \<leftarrow> (if running then put_prev_thread K t 0 s else Some s);
     let s = upd_td t (\<lambda>td. td\<lparr>td_group := Some g\<rparr>) s;
     s \<leftarrow> class_sched_group_move (thread_class s t) t (on_rq \<or> running) s;
     s \<leftarrow> (if on_rq \<or> running then enqueue_thread K t 0 s else Some s);
     if running then do { s \<leftarrow> activate_thread K t s; Some (set_td_state TDS_RUNNING t s) } else Some s }"

text \<open>What the allocators return for one creation.\<close>

record group_alloc =
  al_group :: "nat option"
  al_sfq :: "nat option"
  al_se :: "nat option"
  al_id :: int

definition sched_group_create ::
    "group_alloc \<Rightarrow> gid \<Rightarrow> (string \<times> u32) option \<Rightarrow> 'q sched \<Rightarrow> gid option \<times> 'q sched" where
  "sched_group_create A parent param s =
     (case al_group A of
        None \<Rightarrow> (None, s)
      | Some n \<Rightarrow>
          (let g = ZONE_GROUP n;
               s = upd_g g (\<lambda>_. zero_group) s;
               s = (case param of None \<Rightarrow> s | Some (name, _) \<Rightarrow> upd_g g (\<lambda>r. r\<lparr>sg_name := name\<rparr>) s);
               shares = (case param of None \<Rightarrow> 0 | Some (_, sh) \<Rightarrow> sh);
               s = upd_g g (\<lambda>r. r\<lparr>sg_parent := Some parent, sg_children := [], sg_threads := []\<rparr>) s;
               (ok, s) = pss_alloc_sched_group (al_sfq A) (al_se A) g parent shares s
           in if \<not> ok then (None, free_sched_group g s)
              else (Some g,
                let s = upd_g g (\<lambda>r. r\<lparr>sg_id := al_id A, sg_parent := Some parent\<rparr>) s;
                    s = upd_g parent (\<lambda>r. r\<lparr>sg_children := sg_children r @ [g]\<rparr>) s
                in s\<lparr>all_sched_groups := all_sched_groups s @ [g]\<rparr>)))"

text \<open>The parent of the root group is NULL, and destroying it would follow that pointer.\<close>

definition sched_group_destroy :: "gid \<Rightarrow> 'q sched \<Rightarrow> (errno option \<times> 'q sched) option" where
  "sched_group_destroy g s =
     (if sg_children (groups s g) \<noteq> [] then Some (Some EBUSY, s)
      else if sg_threads (groups s g) \<noteq> [] then Some (Some EBUSY, s)
      else do {
        s \<leftarrow> pss_unregister_sched_group g s;
        let s = pss_free_sched_group g s;
        p \<leftarrow> sg_parent (groups s g);
        let s = upd_g p (\<lambda>r. r\<lparr>sg_children := remove1 g (sg_children r)\<rparr>) s;
        Some (None, s\<lparr>all_sched_groups := remove1 g (all_sched_groups s)\<rparr>) })"

section \<open>The sysctl handlers\<close>

text \<open>
  A request: the name vector (its first element, if it has one), the length of the old buffer and
  the new value, when the pointers are not NULL, the length given for the new value, and the
  errors of \<open>SYSCTL_IN\<close> and \<open>SYSCTL_OUT\<close>.
\<close>

record 'a sysreq =
  rq_name :: "int option"
  rq_oldlen :: "nat option"
  rq_new :: "'a option"
  rq_newlen :: nat
  in_error :: "errno option"
  out_error :: "nat \<Rightarrow> errno option"

abbreviation sizeof_int :: nat where "sizeof_int \<equiv> 4"

text \<open>The outcome is the error, 0 being None, the value written out, and the new state.\<close>

definition sysctl_sched_group_create ::
    "group_alloc \<Rightarrow> nat \<Rightarrow> (string \<times> u32) sysreq \<Rightarrow> 'q sched \<Rightarrow> errno option \<times> int option \<times> 'q sched" where
  "sysctl_sched_group_create A sizeof_param req s =
     (case rq_name req of
        None \<Rightarrow> (Some EINVAL, None, s)
      | Some name \<Rightarrow>
          if rq_oldlen req = None \<or> the (rq_oldlen req) < sizeof_int then (Some EINVAL, None, s)
          else if rq_new req \<noteq> None \<and> rq_newlen req < sizeof_param then (Some EINVAL, None, s)
          else if rq_new req \<noteq> None \<and> in_error req \<noteq> None then (in_error req, None, s)
          else (case sched_group_find name s of
                  None \<Rightarrow> (Some ESRCH, None, s)
                | Some parent \<Rightarrow>
                    if (case rq_new req of
                          Some (nm, _) \<Rightarrow> nm \<noteq> [] \<and> sched_group_find_by_name parent nm s \<noteq> None
                        | None \<Rightarrow> False)
                    then (Some EEXIST, None, s)
                    else (let (child, s) = sched_group_create A parent (rq_new req) s in
                          case child of
                            None \<Rightarrow> (None, None, s)
                          | Some g \<Rightarrow> (out_error req 0, Some (sg_id (groups s g)), s))))"

text \<open>\<open>procs\<close> is \<open>pfind\<close>: the threads of a process.\<close>

definition move_thread :: "'q kern \<Rightarrow> gid \<Rightarrow> tid \<Rightarrow> 'q sched \<Rightarrow> 'q sched option" where
  "move_thread K g t s = do {
     old \<leftarrow> td_group (threads s t);
     if old = g then Some s
     else do {
       let s = upd_g old (\<lambda>r. r\<lparr>sg_threads := remove1 t (sg_threads r)\<rparr>) s;
       let s = upd_g g (\<lambda>r. r\<lparr>sg_threads := sg_threads r @ [t]\<rparr>) s;
       sched_group_move K t g s } }"

definition sysctl_sched_group_move ::
    "'q kern \<Rightarrow> (int \<Rightarrow> tid list option) \<Rightarrow> int sysreq \<Rightarrow> 'q sched \<Rightarrow> (errno option \<times> 'q sched) option" where
  "sysctl_sched_group_move K procs req s =
     (case (rq_name req, rq_new req) of
        (Some pid, Some n) \<Rightarrow>
          if in_error req \<noteq> None then Some (in_error req, s)
          else (case procs pid of
                  None \<Rightarrow> Some (Some ESRCH, s)
                | Some ts \<Rightarrow>
                    (case sched_group_find n s of
                       None \<Rightarrow> Some (Some ESRCH, s)
                     | Some g \<Rightarrow> do {
                         s \<leftarrow> fold_opt (move_thread K g) ts s;
                         Some (None, s) }))
      | _ \<Rightarrow> Some (Some EINVAL, s))"

text \<open>The old value is written out, truncated to \<open>unsigned int\<close>; the result of the change is dropped.\<close>

definition sysctl_sched_group_set_shares ::
    "'q kern \<Rightarrow> u32 sysreq \<Rightarrow> 'q sched \<Rightarrow> (errno option \<times> u32 option \<times> 'q sched) option" where
  "sysctl_sched_group_set_shares K req s =
     (case rq_name req of
        None \<Rightarrow> Some (Some EINVAL, None, s)
      | Some name \<Rightarrow>
          if rq_new req \<noteq> None \<and> in_error req \<noteq> None then Some (in_error req, None, s)
          else (case sched_group_find name s of
                  None \<Rightarrow> Some (Some ESRCH, None, s)
                | Some g \<Rightarrow>
                    if rq_oldlen req \<noteq> None \<and> the (rq_oldlen req) < sizeof_int then Some (Some EINVAL, None, s)
                    else (let old = (case rq_oldlen req of None \<Rightarrow> None | Some _ \<Rightarrow> Some (ucast (sg_shares (groups s g))));
                              err = (case rq_oldlen req of None \<Rightarrow> None | Some _ \<Rightarrow> out_error req 0)
                          in if err \<noteq> None then Some (err, old, s)
                             else (case rq_new req of
                                     None \<Rightarrow> Some (None, old, s)
                                   | Some n \<Rightarrow> do {
                                       (e, s) \<leftarrow> pss_sched_group_set_shares K g (ucast n) s;
                                       Some (None, old, s) }))))"

record group_info =
  gi_parent_id :: int
  gi_id :: int
  gi_name :: string
  gi_shares :: u64

definition sysctl_sched_group_get_sub_groups ::
    "unit sysreq \<Rightarrow> 'q sched \<Rightarrow> errno option \<times> group_info list" where
  "sysctl_sched_group_get_sub_groups req s =
     (case rq_name req of
        None \<Rightarrow> (Some EINVAL, [])
      | Some name \<Rightarrow>
          (case sched_group_find name s of
             None \<Rightarrow> (Some ESRCH, [])
           | Some g \<Rightarrow>
               (let infos = map (\<lambda>c. \<lparr>gi_parent_id = name, gi_id = sg_id (groups s c), gi_name = sg_name (groups s c),
                                      gi_shares = sg_shares (groups s c)\<rparr>) (sg_children (groups s g))
                in (if infos = [] then None else out_error req (length infos - 1), infos))))"

definition sysctl_sched_group_destroy ::
    "unit sysreq \<Rightarrow> 'q sched \<Rightarrow> (errno option \<times> 'q sched) option" where
  "sysctl_sched_group_destroy req s =
     (case rq_name req of
        None \<Rightarrow> Some (Some EINVAL, s)
      | Some name \<Rightarrow>
          (case sched_group_find name s of
             None \<Rightarrow> Some (Some ESRCH, s)
           | Some g \<Rightarrow> sched_group_destroy g s))"

end
