(* ===== verification/Sched_Move.thy ===== *)
theory Sched_Move
  imports Sched_Nice Sched_Group
begin

text \<open>
  A thread that changes its queue: the move to another group, and the fork, which gives the new thread
  the place of its parent. A thread of no timeline can be given any queue that a group owns.
\<close>

section \<open>A new place for a thread\<close>

text \<open>The queue \<open>q\<close> and the parent \<open>p\<close> are those of a group.\<close>

definition home_ok :: "'q sched \<Rightarrow> qid \<Rightarrow> eid option \<Rightarrow> bool" where
  "home_ok s q p \<longleftrightarrow>
     (case p of None \<Rightarrow> q = RQ_SFQ
      | Some e \<Rightarrow> q \<noteq> RQ_SFQ \<and> my_q (ents s e) = Some q \<and> se_sfq (ents s e) \<noteq> None) \<and>
     (\<exists>g. sfq_group (sfqs s q) = Some g \<and> sg_se (groups s g) = p \<and>
        (\<forall>pg. sg_parent (groups s g) = Some pg \<longrightarrow> sg_sfq (groups s pg) \<noteq> None))"

lemma hier_home: "hier_wf s \<Longrightarrow> se_sfq (ents s e) = Some q \<Longrightarrow> home_ok s q (par_of s e)"
  unfolding hier_wf_def home_ok_def by blast

lemma home_ok_static: "same_static s s' \<Longrightarrow> home_ok s' q p = home_ok s q p"
  by (simp add: home_ok_def same_static_def split: option.splits)

text \<open>Only the record of the thread \<open>t\<close> differs, and there only its place, weight and virtual time.\<close>

definition placed :: "tid \<Rightarrow> qid \<Rightarrow> eid option \<Rightarrow> 'q sched \<Rightarrow> 'q sched \<Rightarrow> bool" where
  "placed t q p s s' \<longleftrightarrow> s' = s\<lparr>ents := (ents s)(TD_SE t := ents s' (TD_SE t))\<rparr> \<and>
     onsfq (ents s' (TD_SE t)) = onsfq (ents s (TD_SE t)) \<and> joined (ents s' (TD_SE t)) = joined (ents s (TD_SE t)) \<and>
     onrunq (ents s' (TD_SE t)) = onrunq (ents s (TD_SE t)) \<and> my_q (ents s' (TD_SE t)) = my_q (ents s (TD_SE t)) \<and>
     se_sfq (ents s' (TD_SE t)) = Some q \<and> se_parent (ents s' (TD_SE t)) = p"

lemma placedD:
  assumes "placed t q p s s'"
  shows "sfqs s' = sfqs s" "tlinks s' = tlinks s" "groups s' = groups s" "threads s' = threads s" "rq s' = rq s" "tun s' = tun s"
    "curthread s' = curthread s" "root_cpupri s' = root_cpupri s" "e \<noteq> TD_SE t \<Longrightarrow> ents s' e = ents s e"
    "onsfq (ents s' e) = onsfq (ents s e)" "joined (ents s' e) = joined (ents s e)" "onrunq (ents s' e) = onrunq (ents s e)"
    "my_q (ents s' e) = my_q (ents s e)" "se_sfq (ents s' (TD_SE t)) = Some q" "par_of s' (TD_SE t) = p"
proof -
  obtain x where x: "s' = s\<lparr>ents := (ents s)(TD_SE t := x)\<rparr>" and f: "onsfq x = onsfq (ents s (TD_SE t))"
    "joined x = joined (ents s (TD_SE t))" "onrunq x = onrunq (ents s (TD_SE t))" "my_q x = my_q (ents s (TD_SE t))"
    "se_sfq x = Some q" "se_parent x = p" using assms unfolding placed_def by blast
  show "sfqs s' = sfqs s" "tlinks s' = tlinks s" "groups s' = groups s" "threads s' = threads s" "rq s' = rq s" "tun s' = tun s"
    "curthread s' = curthread s" "root_cpupri s' = root_cpupri s" "e \<noteq> TD_SE t \<Longrightarrow> ents s' e = ents s e"
    "onsfq (ents s' e) = onsfq (ents s e)" "joined (ents s' e) = joined (ents s e)" "onrunq (ents s' e) = onrunq (ents s e)"
    "my_q (ents s' e) = my_q (ents s e)" "se_sfq (ents s' (TD_SE t)) = Some q" "par_of s' (TD_SE t) = p"
    by (simp_all add: x f)
qed

lemma chain_reroute:
  assumes "chain par p es" "chain par' (Some x) xs" "\<And>e. e \<noteq> x \<Longrightarrow> par' e = par e"
  shows "\<exists>es'. chain par' p es'"
  using assms(1)
proof (induction es arbitrary: p)
  case (Cons e es)
  then have p: "p = Some e" "chain par (par e) es" by simp_all
  show ?case
  proof (cases "e = x")
    case True
    then show ?thesis using p(1) assms(2) by blast
  next
    case False
    then have "chain par (par' e) es" using p(2) assms(3) by simp
    from Cons.IH [OF this] obtain es' where "chain par' (par' e) es'" by blast
    then have "chain par' p (e # es')" using p(1) by simp
    then show ?thesis by blast
  qed
next
  case Nil
  then have "chain par' p []" by simp
  then show ?case by blast
qed

text \<open>The chains from other entities do not pass through the thread.\<close>

lemma chain_placed:
  assumes hier: "hier_wf s" and pl: "placed t q p s s'" and e: "e \<noteq> TD_SE t" "se_sfq (ents s e) \<noteq> None"
  shows "chain (par_of s') (Some e) es = chain (par_of s) (Some e) es"
proof -
  obtain es0 where es0: "chain (par_of s) (Some e) es0" using hier_chain [OF hier] by blast
  then obtain es1 where es1: "es0 = e # es1" by (cases es0) auto
  have "\<forall>y\<in>set es1. \<exists>n. y = ZONE_SE n" using chain_groups [OF hier es0 [unfolded es1] e(2)] .
  then have no: "y \<in> set es0 \<Longrightarrow> par_of s' y = par_of s y" for y
    using e(1) placedD(9) [OF pl, of y] unfolding es1 by auto
  have c: "chain (par_of s') (Some e) es0" using es0 chain_cong [where par' = "par_of s'" and par = "par_of s" and es = es0, OF no] by blast
  show ?thesis using chain_unique [OF es0] chain_unique [OF c] es0 c by blast
qed

lemma parent_chain:
  assumes hier: "hier_wf s" and pl: "placed t q p s s'" and home: "home_ok s q p"
  shows "\<exists>es. chain (par_of s') p es \<and> (depth_le s d \<longrightarrow> length es \<le> d)"
proof (cases p)
  case None
  then have "chain (par_of s') p [] \<and> (depth_le s d \<longrightarrow> length ([]::eid list) \<le> d)" by simp
  then show ?thesis by blast
next
  case (Some e)
  then have e: "my_q (ents s e) = Some q" "se_sfq (ents s e) \<noteq> None" using home by (simp_all add: home_ok_def)
  have "e \<noteq> TD_SE t" using e(1) hier by (auto simp: hier_wf_def)
  note c = chain_placed [OF hier pl this e(2)]
  obtain es where es: "chain (par_of s) (Some e) es" using hier_chain [OF hier] by blast
  then have "depth_le s d \<longrightarrow> length es \<le> d" using e(2) unfolding depth_le_def by blast
  then show ?thesis using es c Some by blast
qed

lemma thread_chain:
  assumes hier: "hier_wf s" and pl: "placed t q p s s'" and home: "home_ok s q p"
  shows "\<exists>es. chain (par_of s') (Some (TD_SE t)) es \<and> (depth_le s d \<longrightarrow> length es \<le> Suc d)"
proof -
  obtain es where "chain (par_of s') p es" "depth_le s d \<longrightarrow> length es \<le> d" using parent_chain [OF assms, of d] by blast
  then have "chain (par_of s') (Some (TD_SE t)) (TD_SE t # es) \<and> (depth_le s d \<longrightarrow> length (TD_SE t # es) \<le> Suc d)"
    using placedD(15) [OF pl] by simp
  then show ?thesis by blast
qed

lemma placed_hier:
  assumes hier: "hier_wf s" and pl: "placed t q p s s'" and home: "home_ok s q p"
  shows "hier_wf s'"
proof -
  note D = placedD [OF pl]
  obtain xs where xs: "chain (par_of s') (Some (TD_SE t)) xs" using thread_chain [OF assms] by blast
  have chains: "\<exists>es. chain (par_of s') (Some e) es" for e
  proof -
    obtain es where "chain (par_of s) (Some e) es" using hier_chain [OF hier] by blast
    from chain_reroute [OF this xs] D(9) show ?thesis by simp
  qed
  have sfq: "se_sfq (ents s' x) \<noteq> None" if "se_sfq (ents s x) \<noteq> None" for x
    using that D(9) [of x] D(14) by (cases "x = TD_SE t") simp_all
  have home_ok': "home_ok s' r u" if "home_ok s r u" for r u
    using that sfq unfolding home_ok_def D(1,3,13) by (cases u) auto
  have clause: "thread_ok s' e \<and> home_ok s' r (par_of s' e)" if "se_sfq (ents s' e) = Some r" for e r
  proof (cases "e = TD_SE t")
    case True
    then show ?thesis using that D(14,15) home_ok' [OF home] by (simp add: thread_ok_def)
  next
    case False
    then have "se_sfq (ents s e) = Some r" "ents s' e = ents s e" using that D(9) by simp_all
    then show ?thesis using hier home_ok' [OF hier_home [OF hier]] by (simp add: hier_wf_def thread_ok_def entity_is_thread_def)
  qed
  show ?thesis
    unfolding hier_wf_def
    using chains clause hier D(13) unfolding home_ok_def by (simp add: hier_wf_def)
qed

lemma placed_tree:
  assumes hier: "hier_wf s" and tree: "tree_wf s" and pl: "placed t q p s s'" and home: "home_ok s q p"
  shows "tree_wf s'"
proof -
  note D = placedD [OF pl]
  obtain d where d: "depth_le s d" using tree by (auto simp: tree_wf_def)
  obtain xs where xs: "chain (par_of s') (Some (TD_SE t)) xs" "length xs \<le> Suc d" using thread_chain [OF hier pl home, of d] d by blast
  have "depth_le s' (Suc d)"
    unfolding depth_le_def
  proof (intro allI impI)
    fix e es assume e: "se_sfq (ents s' e) \<noteq> None" "chain (par_of s') (Some e) es"
    show "length es \<le> Suc d"
    proof (cases "e = TD_SE t")
      case True
      then show ?thesis using chain_unique [OF xs(1)] e(2) xs(2) by blast
    next
      case False
      then have "se_sfq (ents s e) \<noteq> None" using e(1) D(9) by simp
      then have "length es \<le> d" using chain_placed [OF hier pl False] e(2) d unfolding depth_le_def by blast
      then show ?thesis by simp
    qed
  qed
  moreover have "my_q (ents s (TD_SE t)) = None" using hier by (simp add: hier_wf_def)
  then have "se_sfq (ents s e) \<noteq> None \<and> my_q (ents s e) = Some r" if "se_sfq (ents s' e) \<noteq> None" "my_q (ents s' e) = Some r" for e r
    using that D(9) [of e] D(13) [of e] by (cases "e = TD_SE t") simp_all
  then have "\<exists>g. sfq_group (sfqs s' r) = Some g \<and> sg_se (groups s' g) = Some e"
    if "se_sfq (ents s' e) \<noteq> None" "my_q (ents s' e) = Some r" for e r
    using that tree unfolding tree_wf_def D(1,3) by blast
  ultimately show ?thesis unfolding tree_wf_def by blast
qed

lemma placed_inv:
  assumes inv: "pss_inv X s" and out: "outside t s" and pl: "placed t q p s s'" and home: "home_ok s q p"
  shows "pss_inv X s'"
proof -
  note P = pss_invD [OF inv] and D = placedD [OF pl]
  note Q = queue_invD [OF P(1)]
  have m: "mem X s' = mem X s" by (rule ext) (simp add: mem_def cur_list_def D(1,11) split: option.splits)
  have off: "TD_SE t \<notin> set (mem X s r)" for r using out queue_mem(1) [OF P(1)] by (auto simp: outside_def)
  have same: "ents s' x = ents s x" if "x \<in> set (mem X s r)" for x r using D(9) off that by metis
  have ws: "wsum s' (mem X s r) = wsum s (mem X s r)" for r
    unfolding wsum_def by (intro arg_cong [where f = sum_list] map_cong) (simp_all add: same)
  have on: "onsfq (ents s' e) \<and> se_sfq (ents s' e) = Some r \<longleftrightarrow> onsfq (ents s e) \<and> se_sfq (ents s e) = Some r" for e r
    using out D(9) [of e] D(10) [of e] by (cases "e = TD_SE t") (simp_all add: outside_def)
  have "tl_inv X s'" using Q(1) unfolding tl_inv_def tlq_def D(1,2) on by simp
  moreover have "cur_inv s'"
    unfolding cur_inv_def D(1)
  proof (intro allI impI)
    fix r c assume c: "curr (sfqs s r) = Some c"
    then have "c \<noteq> TD_SE t" using out by (auto simp: outside_def)
    then show "\<not> onsfq (ents s' c) \<and> se_sfq (ents s' c) = Some r" using Q(2) c D(9) by (simp add: cur_inv_def)
  qed
  moreover have "join_inv X s'" using Q(3) unfolding join_inv_def D(11) by simp
  moreover have "acct (mem X s') s'" "load_inv s'" using Q(4,5) unfolding acct_def load_inv_def m ws D(1,5) by simp_all
  moreover have "cand_inv (mem X s') s'" using Q(6) unfolding cand_inv_def m D(1) by simp
  moreover have "group_inv (mem X s') s'" using Q(7) D(9) unfolding group_inv_def m D(11) by simp
  moreover have "hier_wf s'" by (rule placed_hier [OF P(5) pl home])
  moreover have "up_inv (mem X s') s'" using P(2) same unfolding up_inv_def m by metis
  moreover have "full_inv (mem X s') s'" using P(3) unfolding full_inv_def m D(13) by simp
  moreover have "run_inv s'" using P(4) unfolding run_inv_def D(1,11,12) by simp
  moreover have "tree_wf s'" by (rule placed_tree [OF P(5,7) pl home])
  moreover have "wt_inv (mem X s') s'" using P(8) same unfolding wt_inv_def m D(3) by simp
  ultimately show ?thesis by (simp add: pss_inv_def queue_inv_def)
qed

lemma placed_good:
  assumes good: "sched_good K C s" and out: "outside t s" "t \<notin> runnable s" and pl: "placed t q p s s'" and home: "home_ok s q p"
    and w: "weight_ok (weight (se_load (ents s' (TD_SE t))))"
  shows "sched_good K C s'" "runnable s' = runnable s" "joined_tds s' = joined_tds s" "idle_queues s' = idle_queues s"
    "u \<noteq> t \<Longrightarrow> on_cpu u s \<Longrightarrow> on_cpu u s'"
proof -
  note D = placedD [OF pl]
  obtain X where X: "pss_inv X s" using good by (auto simp: sched_good_def pss_good_def)
  show j: "joined_tds s' = joined_tds s" by (simp add: joined_tds_def D)
  show "idle_queues s' = idle_queues s" by (simp add: idle_queues_def D)
  have "x \<in> runnable s' \<longleftrightarrow> x \<in> runnable s" for x
    using out D(9) [of "TD_SE x"] D(10,11) by (cases "x = t") (simp_all add: runnable_def outside_def D(1))
  then show r: "runnable s' = runnable s" by blast
  have sfq: "se_sfq (ents s' (TD_SE x)) \<noteq> None" if "se_sfq (ents s (TD_SE x)) \<noteq> None" for x
    using that D(9) [of "TD_SE x"] D(14) by (cases "x = t") simp_all
  have "weight_ok (weight (se_load (ents s' (TD_SE x))))" if "se_sfq (ents s' (TD_SE x)) \<noteq> None" for x
    using that w D(9) [of "TD_SE x"] good by (cases "x = t") (simp_all add: sched_good_def pss_good_def)
  then have "pss_good s'"
    using placed_inv [OF X out(1) pl home] good unfolding pss_good_def sched_good_def j D(5) by blast
  moreover have "agree C s'" using good by (simp add: sched_good_def agree_def D(5,12))
  ultimately show "sched_good K C s'" using good sfq by (simp add: sched_good_def r j D(4))
  assume u: "u \<noteq> t" "on_cpu u s"
  then have e: "TD_SE u \<noteq> TD_SE t" "se_sfq (ents s (TD_SE u)) \<noteq> None" by (simp_all add: on_cpu_def)
  obtain es where es: "chain (par_of s) (Some (TD_SE u)) es" "runs_chain s es" using u(2) by (auto simp: on_cpu_def runs_def)
  have "chain (par_of s') (Some (TD_SE u)) es" using chain_placed [OF pss_invD(5) [OF X] pl e] es(1) by simp
  moreover have "runs_chain s' es"
    unfolding runs_chain_def D(1)
  proof (intro allI)
    fix r c
    have "c \<noteq> TD_SE t" if "c \<in> set es"
    proof -
      obtain es1 where es1: "es = TD_SE u # es1" using es(1) by (cases es) auto
      show ?thesis using chain_groups [OF pss_invD(5) [OF X] es(1) [unfolded es1] e(2)] that e(1) es1 by auto
    qed
    then show "curr (sfqs s r) = Some c \<longleftrightarrow> c \<in> set es \<and> se_sfq (ents s' c) = Some r"
      using es(2) D(9) [of c] unfolding runs_chain_def by metis
  qed
  ultimately show "on_cpu u s'" using sfq e(2) by (auto simp: on_cpu_def runs_def)
qed

section \<open>The move to another group\<close>

text \<open>A group whose queue a thread can be put on.\<close>

definition joinable :: "gid \<Rightarrow> 'q sched \<Rightarrow> bool" where
  "joinable g s \<longleftrightarrow> (\<exists>q. sg_sfq (groups s g) = Some q \<and> home_ok s q (sg_se (groups s g)))"

definition to_group :: "gid \<Rightarrow> tid \<Rightarrow> bool \<Rightarrow> 'q sched \<Rightarrow> 'q sched option" where
  "to_group g t b s = class_sched_group_move (thread_class s t) t b (upd_td t (\<lambda>td. td\<lparr>td_group := Some g\<rparr>) s)"

lemma pss_move_placed:
  assumes "td_group (threads s t) = Some g" "sg_sfq (groups s g) = Some q" "se_sfq (ents s (TD_SE t)) \<noteq> None"
  shows "\<exists>s'. pss_sched_group_move t b s = Some s' \<and> placed t q (sg_se (groups s g)) s s' \<and>
    se_load (ents s' (TD_SE t)) = se_load (ents s (TD_SE t))"
  using assms
  by (cases "\<not> se_initial (ents s (TD_SE t)) \<and> \<not> b")
    (auto simp: pss_sched_group_move_def set_thread_rq_def td_to_se_def Let_def placed_def upd_se_def)

text \<open>As a function: the thread's group, queue and parent change, and nothing else that matters here.\<close>

lemma to_group_facts:
  assumes sq: "se_sfq (ents s (TD_SE t)) \<noteq> None" and c: "td_class (threads s t) = pss_class" and q: "sg_sfq (groups s g) = Some q"
  shows "\<exists>s'. to_group g t b s = Some s' \<and> placed t q (sg_se (groups s g)) (upd_td t (\<lambda>td. td\<lparr>td_group := Some g\<rparr>) s) s' \<and>
    same_tw s s'"
proof -
  let ?s = "upd_td t (\<lambda>td. td\<lparr>td_group := Some g\<rparr>) s"
  from pss_move_placed [of ?s t g q b] q sq obtain s' where s': "pss_sched_group_move t b ?s = Some s'"
    "placed t q (sg_se (groups s g)) ?s s'" "se_load (ents s' (TD_SE t)) = se_load (ents s (TD_SE t))" by auto
  have "se_load (ents s' (TD_SE x)) = se_load (ents s (TD_SE x))" for x
    using s'(3) placedD(9) [OF s'(2), of "TD_SE x"] by (cases "x = t") simp_all
  then have "same_tw s s'" by (simp add: same_tw_def)
  then show ?thesis using s' c by (simp add: to_group_def thread_class_def)
qed

lemma to_group_ok:
  assumes good: "sched_good K C s" and out: "outside t s" "t \<notin> runnable s" and sq: "se_sfq (ents s (TD_SE t)) \<noteq> None"
    and c: "td_class (threads s t) = pss_class" and g: "joinable g s"
  shows "\<exists>s'. to_group g t b s = Some s' \<and> sched_good K C s' \<and> swapped t s s'"
proof -
  let ?s = "upd_td t (\<lambda>td. td\<lparr>td_group := Some g\<rparr>) s" and ?p = "sg_se (groups s g)"
  obtain q where q: "sg_sfq (groups s g) = Some q" "home_ok s q ?p" using g by (auto simp: joinable_def)
  have qt: "quiet s ?s" by (rule quiet_td) simp
  note Q = quiet_good [OF qt]
  have same: "home_ok ?s q ?p = home_ok s q ?p" by (simp add: home_ok_def split: option.split)
  have g1: "sched_good K C ?s" "outside t ?s" "t \<notin> runnable ?s" "home_ok ?s q ?p"
    using Q(2) Q(6) [OF good] out q(2) same by (simp_all add: outside_def)
  from to_group_facts [OF sq c q(1), of b] obtain s' where s': "to_group g t b s = Some s'" "placed t q ?p ?s s'" "same_tw s s'" by blast
  note D = placedD [OF s'(2)]
  have "weight_ok (weight (se_load (ents s' (TD_SE t))))" using good sq s'(3) by (simp add: sched_good_def pss_good_def same_tw_def)
  note G = placed_good [OF g1(1-3) s'(2) g1(4) this]
  have "place x s' = place x s" if "x \<noteq> t" for x using that D(4) D(9) [of "TD_SE x"] by (simp add: place_def)
  moreover have "td_class (threads s' x) = td_class (threads s x) \<and> td_priority (threads s' x) = td_priority (threads s x) \<and>
      td_state (threads s' x) = td_state (threads s x)" for x using D(4) by simp
  ultimately have "swapped t s s'" using G(2-5) Q(2-4) D(4,7,8,14) by (simp add: swapped_def joined_tds_def)
  then show ?thesis using s'(1) G(1) by blast
qed

interpretation move: requeue "\<lambda>K t b. to_group g t b" "\<lambda>K t. joinable g" for g
proof (unfold_locales, goal_cases)
  case (1 K C s t b)
  then show ?case using to_group_ok [OF 1(1,3,2,5,6,7), of b] by blast
next
  case (2 K t s s')
  then have "same_static s s'" by (simp add: leaves_def)
  then show ?case using 2(1) home_ok_static [of s s'] by (simp add: joinable_def same_static_def)
qed

text \<open>Afterwards the thread has the queue and the parent of the group, and all else is as before.\<close>

definition regrouped :: "gid \<Rightarrow> tid \<Rightarrow> 'q sched \<Rightarrow> 'q sched \<Rightarrow> bool" where
  "regrouped g t s s' \<longleftrightarrow> runnable s' = runnable s \<and> joined_tds s' = joined_tds s \<and> curthread s' = curthread s \<and>
     td_group (threads s' t) = Some g \<and> se_sfq (ents s' (TD_SE t)) = sg_sfq (groups s g) \<and> par_of s' (TD_SE t) = sg_se (groups s g) \<and>
     (\<forall>e. e \<noteq> TD_SE t \<longrightarrow> se_sfq (ents s' e) = se_sfq (ents s e) \<and> par_of s' e = par_of s e) \<and>
     (\<forall>e. my_q (ents s' e) = my_q (ents s e)) \<and> (\<forall>q. sfq_group (sfqs s' q) = sfq_group (sfqs s q)) \<and> groups s' = groups s \<and>
     same_tw s s' \<and> (\<forall>x. td_class (threads s' x) = td_class (threads s x)) \<and>
     stays_in_line s s' \<and> (\<forall>x. x \<noteq> t \<longrightarrow> td_group (threads s' x) = td_group (threads s x))"

lemma sched_group_move_ok:
  assumes good: "sched_good K C s" and K: "runq_laws K C" and p: "on_processor K (curthread s) s" and few: "int_counts s"
    and c: "td_class (threads s t) = pss_class" and t: "settled t s" and g: "joinable g s"
  shows "needs_level t s \<and> \<not> levels_ready K s \<Longrightarrow> sched_group_move K t g s = None"
    "\<not> needs_level t s \<or> levels_ready K s \<Longrightarrow> \<exists>s'. sched_group_move K t g s = Some s' \<and> sched_good K C s' \<and>
      on_processor K (curthread s) s' \<and> levels_ready K s' = levels_ready K s \<and> regrouped g t s s'"
proof -
  let ?on = "TD_ON_RUNQ s t \<or> TD_IS_RUNNING s t"
  have run: "sched_group_move K t g s = do { s' \<leftarrow> (if ?on then dequeue_thread K t 0 s else Some s);
      s' \<leftarrow> (if TD_IS_RUNNING s t then put_prev_thread K t 0 s' else Some s'); s' \<leftarrow> to_group g t ?on s';
      s' \<leftarrow> (if ?on then enqueue_thread K t 0 s' else Some s');
      if TD_IS_RUNNING s t then do { s' \<leftarrow> activate_thread K t s'; Some (set_td_state TDS_RUNNING t s') } else Some s' }"
    by (simp add: sched_group_move_def to_group_def thread_class_def Let_def)
  note F = move.frame_ok [OF good K p few c t g, folded run]
  show "sched_group_move K t g s = None" if "needs_level t s \<and> \<not> levels_ready K s"
    using F(1) that c by (simp add: needs_level_def)
  assume "\<not> needs_level t s \<or> levels_ready K s"
  then have "\<not> TD_IS_RUNNING s t \<or> levels_ready K s" using c by (simp add: needs_level_def)
  from F(2) [OF this] obtain s' where s': "sched_group_move K t g s = Some s'"
    "sched_good K C s'" "on_processor K (curthread s) s'" "levels_ready K s' = levels_ready K s" "put_back (to_group g t ?on) t s s'"
    by blast
  note P = put_back_same [OF s'(5)] and st = put_back_in_line [OF s'(5) c]
  obtain s1 s2 where s: "leaves t s s1" "to_group g t ?on s1 = Some s2" "swapped t s1 s2" "same_static s2 s'" "same_tw s2 s'"
    "\<forall>x. p_nice (threads s' x) = p_nice (threads s2 x) \<and> td_pri_class (threads s' x) = td_pri_class (threads s2 x) \<and>
      td_group (threads s' x) = td_group (threads s2 x)" using put_backD [OF s'(5)] by blast
  have l: "same_static s s1" "same_tw s s1" "\<And>x. td_group (threads s1 x) = td_group (threads s x)"
    "td_class (threads s1 t) = pss_class" using s(1) c by (simp_all add: leaves_def same_standing_def)
  obtain q where q: "sg_sfq (groups s1 g) = Some q" "groups s1 = groups s" using g l(1) by (auto simp: joinable_def same_static_def)
  have "se_sfq (ents s1 (TD_SE t)) \<noteq> None"
    using t c same_static_sfq [OF l(1), of "TD_SE t"] by (auto simp: settled_def can_start_def runnable_def split: if_splits)
  from to_group_facts [OF this l(4) q(1), of ?on] s(2) have pl: "placed t q (sg_se (groups s g)) (upd_td t (\<lambda>td. td\<lparr>td_group := Some g\<rparr>) s1) s2"
    and tw: "same_tw s1 s2" by (simp_all add: q(2))
  note D = placedD [OF pl]
  have e: "se_sfq (ents s' e) = se_sfq (ents s2 e)" "par_of s' e = par_of s2 e" "my_q (ents s' e) = my_q (ents s2 e)"
    "groups s' = groups s2" "sfq_group (sfqs s' r) = sfq_group (sfqs s2 r)" for e r using s(4) by (simp_all add: same_static_def)
  have e1: "se_sfq (ents s1 e) = se_sfq (ents s e)" "par_of s1 e = par_of s e" "my_q (ents s1 e) = my_q (ents s e)"
    "sfq_group (sfqs s1 r) = sfq_group (sfqs s r)" for e r using l(1) by (simp_all add: same_static_def)
  have "td_group (threads s' x) = (if x = t then Some g else td_group (threads s x))" for x using s(6) D(4) l(3) by simp
  moreover have "same_tw s s'" using l(2) tw s(5) by (simp add: same_tw_def)
  ultimately have "regrouped g t s s'"
    using P st D(1,3,9,13,14,15) q by (simp add: regrouped_def e e1)
  then show "\<exists>s'. sched_group_move K t g s = Some s' \<and> sched_good K C s' \<and>
      on_processor K (curthread s) s' \<and> levels_ready K s' = levels_ready K s \<and> regrouped g t s s'" using s'(1-4) by blast
qed

section \<open>The threads of a process\<close>

text \<open>The lists of threads of the groups are read by none of the invariants.\<close>

definition other_lists :: "'q sched \<Rightarrow> 'q sched \<Rightarrow> bool" where
  "other_lists s s' \<longleftrightarrow> ents s' = ents s \<and> sfqs s' = sfqs s \<and> tlinks s' = tlinks s \<and> threads s' = threads s \<and> rq s' = rq s \<and>
     curthread s' = curthread s \<and> root_cpupri s' = root_cpupri s \<and> (\<forall>g. sg_se (groups s' g) = sg_se (groups s g) \<and>
       sg_sfq (groups s' g) = sg_sfq (groups s g) \<and> sg_parent (groups s' g) = sg_parent (groups s g) \<and>
       sg_shares (groups s' g) = sg_shares (groups s g))"

lemma other_lists_upd: "other_lists s (upd_g g (\<lambda>r. r\<lparr>sg_threads := f r\<rparr>) s)"
  by (simp add: other_lists_def upd_g_def)

lemma other_lists_trans: "other_lists s s' \<Longrightarrow> other_lists s' s'' \<Longrightarrow> other_lists s s''"
  by (simp add: other_lists_def)

lemma other_lists_ok:
  assumes ol: "other_lists s s'"
  shows "runnable s' = runnable s" "joined_tds s' = joined_tds s" "on_cpu u s' = on_cpu u s" "idle_queues s' = idle_queues s"
    "on_processor K u s' = on_processor K u s" "levels_ready K s' = levels_ready K s" "settled x s' = settled x s"
    "queue_room s' = queue_room s" "home_ok s' q p = home_ok s q p" "joinable g s' = joinable g s"
    "sched_good K C s \<Longrightarrow> sched_good K C s'"
proof -
  have D: "ents s' = ents s" "sfqs s' = sfqs s" "tlinks s' = tlinks s" "threads s' = threads s" "rq s' = rq s"
    "curthread s' = curthread s" "root_cpupri s' = root_cpupri s" "sg_se (groups s' g) = sg_se (groups s g)"
    "sg_sfq (groups s' g) = sg_sfq (groups s g)" "sg_parent (groups s' g) = sg_parent (groups s g)"
    "sg_shares (groups s' g) = sg_shares (groups s g)" for g using ol by (simp_all add: other_lists_def)
  show r: "runnable s' = runnable s" "joined_tds s' = joined_tds s" "idle_queues s' = idle_queues s"
    by (simp_all add: runnable_def joined_tds_def idle_queues_def D)
  show c: "on_cpu u s' = on_cpu u s" for u by (simp add: on_cpu_def runs_def runs_chain_def D)
  show "on_processor K u s' = on_processor K u s" by (simp add: on_processor_def r c D)
  show "levels_ready K s' = levels_ready K s" "queue_room s' = queue_room s" by (simp_all add: levels_ready_def queue_room_def r D)
  show "settled x s' = settled x s"
    unfolding settled_def TD_IS_RUNNING_def TD_ON_RUNQ_def can_start_def r D by (rule refl)
  show h: "home_ok s' q p = home_ok s q p" for q p unfolding home_ok_def D by (rule refl)
  show "joinable g s' = joinable g s" by (simp add: joinable_def h D)
  have m: "mem X s' = mem X s" for X by (rule ext) (unfold mem_def cur_list_def D, rule refl)
  have hier: "hier_wf s' = hier_wf s" unfolding hier_wf_def thread_ok_def entity_is_thread_def D by (rule refl)
  have "pss_inv X s' = pss_inv X s" for X
    by (simp add: pss_inv_def queue_inv_def tl_inv_def tlq_def cur_inv_def join_inv_def acct_def wsum_def load_inv_def
        cand_inv_def group_inv_def up_inv_def full_inv_def run_inv_def tree_wf_def depth_le_def wt_inv_def m hier D)
  then have "pss_good s' = pss_good s" by (simp add: pss_good_def r D)
  then show "sched_good K C s'" if "sched_good K C s"
    using that by (simp add: sched_good_def agree_def r D)
qed

text \<open>A thread that is where its group is.\<close>

definition in_group :: "gid \<Rightarrow> tid \<Rightarrow> 'q sched \<Rightarrow> bool" where
  "in_group g t s \<longleftrightarrow> td_group (threads s t) = Some g \<and> se_sfq (ents s (TD_SE t)) = sg_sfq (groups s g) \<and>
     par_of s (TD_SE t) = sg_se (groups s g)"

text \<open>The threads of \<open>T\<close> are in the group \<open>g\<close>, and neither their weights nor anything of the others has changed.\<close>

definition gathered :: "gid \<Rightarrow> tid set \<Rightarrow> 'q sched \<Rightarrow> 'q sched \<Rightarrow> bool" where
  "gathered g T s s' \<longleftrightarrow> runnable s' = runnable s \<and> joined_tds s' = joined_tds s \<and> curthread s' = curthread s \<and>
     (\<forall>t\<in>T. in_group g t s') \<and> same_tw s s' \<and>
     (\<forall>e. e \<notin> TD_SE ` T \<longrightarrow> se_sfq (ents s' e) = se_sfq (ents s e) \<and> par_of s' e = par_of s e) \<and>
     (\<forall>e. my_q (ents s' e) = my_q (ents s e)) \<and> (\<forall>q. sfq_group (sfqs s' q) = sfq_group (sfqs s q)) \<and>
     (\<forall>h. sg_se (groups s' h) = sg_se (groups s h) \<and> sg_sfq (groups s' h) = sg_sfq (groups s h) \<and>
       sg_parent (groups s' h) = sg_parent (groups s h)) \<and>
     (\<forall>x. td_class (threads s' x) = td_class (threads s x)) \<and>
     stays_in_line s s' \<and> (\<forall>x. x \<notin> T \<longrightarrow> td_group (threads s' x) = td_group (threads s x))"

lemma gathered_trans:
  assumes a: "gathered g T s s1" and b: "gathered g U s1 s'"
  shows "gathered g (T \<union> U) s s'"
proof -
  note A = a [unfolded gathered_def] and B = b [unfolded gathered_def]
  have "in_group g t s'" if "t \<in> T \<union> U" for t
  proof (cases "t \<in> U")
    case False
    then have "in_group g t s1" using A that by blast
    moreover have "TD_SE t \<notin> TD_SE ` U" using False by blast
    ultimately show ?thesis using B False by (simp add: in_group_def)
  qed (use B in blast)
  moreover have "same_tw s s'" using A B by (simp add: same_tw_def)
  moreover have "se_sfq (ents s' e) = se_sfq (ents s e) \<and> par_of s' e = par_of s e" if "e \<notin> TD_SE ` (T \<union> U)" for e
  proof -
    have "e \<notin> TD_SE ` T" "e \<notin> TD_SE ` U" using that by blast+
    then show ?thesis using A B by metis
  qed
  moreover have "stays_in_line s s1" "stays_in_line s1 s'" using A B by simp_all
  then have "stays_in_line s s'" by (rule stays_in_line_trans)
  ultimately show ?thesis using A B unfolding gathered_def by simp
qed

lemma gathered_keeps:
  assumes a: "gathered g T s s'" and g: "joinable g s"
  shows "joinable g s'" "queue_room s' = queue_room s" "x \<notin> T \<Longrightarrow> settled x s' = settled x s" "x \<notin> T \<Longrightarrow> in_group h x s \<Longrightarrow> in_group h x s'"
proof -
  note A = a [unfolded gathered_def]
  have e: "se_sfq (ents s' e) \<noteq> None" if "se_sfq (ents s e) \<noteq> None" for e
  proof (cases "e \<in> TD_SE ` T")
    case True
    then show ?thesis using A g by (auto simp: in_group_def joinable_def)
  qed (use A that in auto)
  obtain q where q: "sg_sfq (groups s g) = Some q" "home_ok s q (sg_se (groups s g))" using g by (auto simp: joinable_def)
  have "home_ok s' q (sg_se (groups s g))" using q(2) A e by (cases "sg_se (groups s g)") (auto simp: home_ok_def)
  then show "joinable g s'" using q(1) A by (simp add: joinable_def)
  have z: "se_sfq (ents s' (ZONE_SE n)) = se_sfq (ents s (ZONE_SE n))" for n using A by auto
  then show "queue_room s' = queue_room s" using A by (simp add: queue_room_def)
  assume x: "x \<notin> T"
  then have "TD_SE x \<notin> TD_SE ` T" by blast
  then have s: "se_sfq (ents s' (TD_SE x)) = se_sfq (ents s (TD_SE x))" "par_of s' (TD_SE x) = par_of s (TD_SE x)"
    "td_state (threads s' x) = td_state (threads s x)" "td_group (threads s' x) = td_group (threads s x)"
    "td_class (threads s' x) = td_class (threads s x)" "runnable s' = runnable s" "curthread s' = curthread s"
    "joined_tds s' = joined_tds s" using A x by (auto simp: stays_in_line_def)
  have j: "joined (ents s' (TD_SE x)) = joined (ents s (TD_SE x))" using s(8) unfolding joined_tds_def set_eq_iff by simp
  show "settled x s' = settled x s" unfolding settled_def TD_IS_RUNNING_def TD_ON_RUNQ_def can_start_def s j by (rule refl)
  show "in_group h x s \<Longrightarrow> in_group h x s'" using s A by (simp add: in_group_def)
qed

text \<open>A thread that is in the group already is passed over.\<close>

definition must_move :: "gid \<Rightarrow> tid \<Rightarrow> 'q sched \<Rightarrow> bool" where
  "must_move g t s \<longleftrightarrow> td_group (threads s t) \<noteq> Some g \<and> needs_level t s"

lemma move_thread_ok:
  assumes good: "sched_good K C s" and K: "runq_laws K C" and p: "on_processor K (curthread s) s" and few: "int_counts s"
    and c: "td_class (threads s t) = pss_class" and t: "settled t s" "in_group old t s" and g: "joinable g s"
  shows "must_move g t s \<and> \<not> levels_ready K s \<Longrightarrow> move_thread K g t s = None"
    "\<not> must_move g t s \<or> levels_ready K s \<Longrightarrow> \<exists>s'. move_thread K g t s = Some s' \<and> sched_good K C s' \<and>
      on_processor K (curthread s) s' \<and> levels_ready K s' = levels_ready K s \<and> gathered g {t} s s'"
proof -
  let ?s1 = "upd_g old (\<lambda>r. r\<lparr>sg_threads := remove1 t (sg_threads r)\<rparr>) s"
  let ?s = "upd_g g (\<lambda>r. r\<lparr>sg_threads := sg_threads r @ [t]\<rparr>) ?s1"
  have ol: "other_lists s ?s" by (rule other_lists_trans [OF other_lists_upd other_lists_upd])
  note O = other_lists_ok [OF ol]
  have f: "threads ?s = threads s" "ents ?s = ents s" "sfqs ?s = sfqs s" "curthread ?s = curthread s" "\<And>h. sg_se (groups ?s h) = sg_se (groups s h)"
    "\<And>h. sg_sfq (groups ?s h) = sg_sfq (groups s h)" "\<And>h. sg_parent (groups ?s h) = sg_parent (groups s h)"
    using ol by (simp_all add: other_lists_def)
  have n: "needs_level t ?s = needs_level t s" by (simp add: needs_level_def TD_IS_RUNNING_def f)
  have few1: "int_counts ?s" using few by (simp add: int_counts_def f)
  have pre: "on_processor K (curthread ?s) ?s" "td_class (threads ?s t) = pss_class" "settled t ?s" "joinable g ?s"
    using p c t(1) g by (simp_all add: O f)
  have run: "move_thread K g t s = (if old = g then Some s else sched_group_move K t g ?s)"
    using t(2) by (auto simp: move_thread_def in_group_def Let_def)
  have old: "old \<noteq> g" if "must_move g t s" using that t(2) by (auto simp: must_move_def in_group_def)
  note M = sched_group_move_ok [OF O(11) [OF good] K pre(1) few1 pre(2-4), unfolded n O(6) f(4)]
  show "move_thread K g t s = None" if "must_move g t s \<and> \<not> levels_ready K s"
    using M(1) that run old by (auto simp: must_move_def)
  assume lev: "\<not> must_move g t s \<or> levels_ready K s"
  show "\<exists>s'. move_thread K g t s = Some s' \<and> sched_good K C s' \<and>
      on_processor K (curthread s) s' \<and> levels_ready K s' = levels_ready K s \<and> gathered g {t} s s'"
  proof (cases "old = g")
    case True
    then have "gathered g {t} s s" using t(2) by (simp add: gathered_def same_tw_def)
    then show ?thesis using good p run True by auto
  next
    case False
    then have "\<not> needs_level t s \<or> levels_ready K s" using lev t(2) by (auto simp: must_move_def in_group_def)
    from M(2) [OF this] obtain s' where s': "sched_group_move K t g ?s = Some s'"
      "sched_good K C s'" "on_processor K (curthread s) s'" "levels_ready K s' = levels_ready K s" "regrouped g t ?s s'" by blast
    have "gathered g {t} s s'"
      using s'(5) unfolding regrouped_def gathered_def in_group_def same_tw_def stays_in_line_def f O(1,2) by (auto simp: f)
    moreover have "move_thread K g t s = Some s'" using False s'(1) run by simp
    ultimately show ?thesis using s'(2-4) by blast
  qed
qed

lemma move_threads_exact:
  assumes "sched_good K C s" "runq_laws K C" "on_processor K (curthread s) s" "queue_room s" "joinable g s" "distinct ts"
    and "\<forall>t\<in>set ts. td_class (threads s t) = pss_class \<and> settled t s \<and> (\<exists>h. in_group h t s)"
  shows "if (\<exists>t\<in>set ts. must_move g t s) \<and> \<not> levels_ready K s then fold_opt (move_thread K g) ts s = None
    else \<exists>s'. fold_opt (move_thread K g) ts s = Some s' \<and> sched_good K C s' \<and> on_processor K (curthread s') s' \<and>
      gathered g (set ts) s s'"
  using assms(1,3-)
proof (induction ts arbitrary: s)
  case Nil
  have "gathered g {} s s" by (simp add: gathered_def same_tw_def)
  then show ?case using Nil by simp
next
  case (Cons t ts)
  have few: "int_counts s" using queue_room_counts [OF sched_goodD(1) [OF Cons.prems(1)] Cons.prems(3)] .
  obtain h where t: "td_class (threads s t) = pss_class" "settled t s" "in_group h t s" using Cons.prems(6) by auto
  note M = move_thread_ok [OF Cons.prems(1) assms(2) Cons.prems(2) few t Cons.prems(4)]
  show ?case
  proof (cases "must_move g t s \<and> \<not> levels_ready K s")
    case True
    then show ?thesis using M(1) by auto
  next
    case False
    then have "\<not> must_move g t s \<or> levels_ready K s" by blast
    from M(2) [OF this] obtain s1 where s1: "move_thread K g t s = Some s1" "sched_good K C s1" "on_processor K (curthread s) s1"
      "levels_ready K s1 = levels_ready K s" "gathered g {t} s s1" by blast
    note G = gathered_keeps [OF s1(5) Cons.prems(4)]
    have c: "curthread s1 = curthread s" "\<And>x. td_class (threads s1 x) = td_class (threads s x)" "stays_in_line s s1"
      "\<And>x. x \<noteq> t \<Longrightarrow> td_group (threads s1 x) = td_group (threads s x)" using s1(5) by (simp_all add: gathered_def)
    have p1: "on_processor K (curthread s1) s1" using s1(3) c(1) by simp
    have room: "queue_room s1" using G(2) Cons.prems(3) by simp
    have dist: "distinct ts" "t \<notin> set ts" using Cons.prems(5) by simp_all
    have "td_class (threads s1 x) = pss_class \<and> settled x s1 \<and> (\<exists>h. in_group h x s1)" if x: "x \<in> set ts" for x
    proof -
      have "x \<notin> {t}" using x dist(2) by blast
      moreover obtain h where "td_class (threads s x) = pss_class" "settled x s" "in_group h x s" using Cons.prems(6) x by auto
      ultimately show ?thesis using G(3) [of x] G(4) [of x h] c(2) by auto
    qed
    then have pre: "\<forall>x\<in>set ts. td_class (threads s1 x) = pss_class \<and> settled x s1 \<and> (\<exists>h. in_group h x s1)" by blast
    note IH = Cons.IH [OF s1(2) p1 room G(1) dist(1) pre]
    have "must_move g x s1 = must_move g x s" if "x \<in> set ts" for x
    proof -
      have "x \<noteq> t" using that dist(2) by blast
      then show ?thesis using c(4) needs_level_same [OF c(3), of x] by (simp add: must_move_def)
    qed
    then have need: "(\<exists>x\<in>set (t # ts). must_move g x s) \<and> \<not> levels_ready K s \<longleftrightarrow> (\<exists>x\<in>set ts. must_move g x s1) \<and> \<not> levels_ready K s1"
      using False s1(4) by auto
    show ?thesis
    proof (cases "(\<exists>x\<in>set ts. must_move g x s1) \<and> \<not> levels_ready K s1")
      case True
      then show ?thesis using IH need s1(1) by simp
    next
      case no: False
      then obtain s' where s': "fold_opt (move_thread K g) ts s1 = Some s'" "sched_good K C s'"
        "on_processor K (curthread s') s'" "gathered g (set ts) s1 s'" using IH by auto
      have "gathered g (set (t # ts)) s s'" using gathered_trans [OF s1(5) s'(4)] by simp
      moreover have "fold_opt (move_thread K g) (t # ts) s = Some s'" using s1(1) s'(1) by simp
      ultimately show ?thesis using s'(2,3) need no by auto
    qed
  qed
qed

lemma sysctl_move_ok:
  assumes "sched_good K C s" "runq_laws K C" "on_processor K (curthread s) s" "queue_room s" "levels_ready K s" "joinable g s" "distinct ts"
    and "\<forall>t\<in>set ts. td_class (threads s t) = pss_class \<and> settled t s \<and> (\<exists>h. in_group h t s)"
    and "rq_name req = Some pid" "rq_new req = Some n" "in_error req = None" "procs pid = Some ts" "sched_group_find n s = Some g"
  shows "\<exists>s'. sysctl_sched_group_move K procs req s = Some (None, s') \<and> sched_good K C s' \<and> on_processor K (curthread s') s' \<and>
    gathered g (set ts) s s'"
  using move_threads_exact [OF assms(1-4,6-8)] assms(5,9-) by (auto simp: sysctl_sched_group_move_def)

end
