(* ===== verification/Sched_Fork.thy ===== *)
theory Sched_Fork
  imports Sched_Wake Sched_Move
begin

text \<open>
  The fork: the new thread is put where its parent is, with its weight and, for the proportional share
  class, a virtual time of its own, and it can then be woken.
\<close>

section \<open>The virtual time of the new thread\<close>

lemma sched_slice_calm:
  assumes inv: "pss_inv X s" and e: "se_sfq (ents s e) \<noteq> None"
  shows "\<exists>v s'. sched_slice q e s = Some (v, s') \<and> same_core s s' \<and> same_runq s s' \<and> books s' = books s"
proof -
  note P = pss_invD [OF inv]
  define R where "R = (\<lambda>(v :: u64, st). same_core s st \<and> same_runq s st \<and> books st = books s)"
  have "\<exists>r st. walkup (\<lambda>(v, s) e. par_of s e) (each slice_step) (Some e)
       (sched_period (tun s) (word_of_int (nr_running (sfqs s q))), s) = Some (r, st) \<and> R st \<and>
       (\<forall>x. r = Some x \<longrightarrow> se_sfq (ents s x) \<noteq> None)"
  proof (rule walk_frame [OF P(5)])
    show "\<And>x. Some e = Some x \<Longrightarrow> se_sfq (ents s x) \<noteq> None" using e by simp
    show "R (sched_period (tun s) (word_of_int (nr_running (sfqs s q))), s)" by (simp add: R_def)
    show "\<And>st x. R st \<Longrightarrow> (case st of (v, s) \<Rightarrow> \<lambda>e. par_of s e) x = par_of s x"
      by (auto simp: R_def same_coreD)
    fix x st assume st: "R st" "se_sfq (ents s x) \<noteq> None"
    obtain v s1 where s1: "st = (v, s1)" by (cases st)
    have c: "same_core s s1" "same_runq s s1" "books s1 = books s" using st(1) by (simp_all add: R_def s1)
    obtain p where p: "se_sfq (ents s1 x) = Some p" using st(2) same_coreD(19) [OF c(1), of x] by auto
    obtain v' lw where sc: "scale_by_weight v (weight (se_load (ents s1 x))) (sfq_load (sfqs s1 p)) = (v', lw)" by fastforce
    then have w: "weight lw = weight (sfq_load (sfqs s1 p))"
      using scale_by_weight_load [of v "weight (se_load (ents s1 x))" "sfq_load (sfqs s1 p)"] by simp
    let ?s = "upd_q p (\<lambda>c. c\<lparr>sfq_load := lw\<rparr>) s1"
    have "same_core s1 ?s" by (rule same_core_upd) (simp add: core_load(1) w)
    then have "R (v', ?s)"
      using c same_core_trans by (auto simp: R_def same_runq_def books_upd)
    then show "\<exists>b st'. each slice_step x st = Some (b, st') \<and> R st'"
      using p sc st(1) by (cases "joined (ents s1 x)") (auto simp: each_def slice_step_def s1 R_def Let_def)
  qed
  then show ?thesis by (auto simp: sched_slice_def R_def)
qed

lemma vruntime_calm:
  assumes inv: "pss_inv X s" and h: "\<And>x. \<exists>v. h x = x\<lparr>vruntime := v\<rparr>"
  shows "calm s (upd_se e h s)" "pss_inv X (upd_se e h s)"
proof -
  have x: "ecore (h x) = ecore x \<and> onrunq (h x) = onrunq x \<and> se_parent (h x) = se_parent x \<and> se_sfq (h x) = se_sfq x \<and>
      my_q (h x) = my_q x" for x
    using h [of x] by (auto simp: ecore_def)
  have "same_core s (upd_se e h s)" by (rule same_core_upd) (simp add: x)
  moreover have "same_runq s (upd_se e h s)" by (simp add: same_runq_def x)
  moreover have "books (upd_se e h s) = books s" by (rule books_upd) (use x in blast)
  ultimately show "calm s (upd_se e h s)" "pss_inv X (upd_se e h s)"
    using calm_core pss_inv_same(1) [OF inv] by blast+
qed

lemma vslice_calm:
  assumes inv: "pss_inv X s" and e: "se_sfq (ents s e) \<noteq> None"
  shows "\<exists>d s'. sched_vslice q e s = Some (d, s') \<and> calm s s' \<and> pss_inv X s'"
proof -
  obtain v s1 where s1: "sched_slice q e s = Some (v, s1)" "same_core s s1" "same_runq s s1" "books s1 = books s"
    using sched_slice_calm [OF assms] by blast
  have inv1: "pss_inv X s1" by (rule pss_inv_same(1) [OF inv s1(2,3)])
  obtain d lw where d: "scale_delta v e s1 = (d, upd_se e (\<lambda>se. se\<lparr>se_load := lw\<rparr>) s1)" "weight lw = weight (se_load (ents s1 e))"
    using scale_delta_state by blast
  let ?s = "upd_se e (\<lambda>se. se\<lparr>se_load := lw\<rparr>) s1"
  have c: "same_core s1 ?s" by (rule same_core_upd) (simp add: core_load(2) d(2))
  have r: "same_runq s1 ?s" by (simp add: same_runq_def)
  have b: "books ?s = books s1" by (rule books_upd) simp
  have "calm s ?s" by (rule calm_trans [OF calm_core [OF s1(2-4)] calm_core [OF c r b]])
  then show ?thesis using s1(1) d(1) pss_inv_same(1) [OF inv1 c r] by (simp add: sched_vslice_def)
qed

lemma place_initial_calm:
  assumes inv: "pss_inv X s" and e: "se_sfq (ents s e) \<noteq> None"
  shows "\<exists>s'. place_entity q e True s = Some s' \<and> calm s s' \<and> pss_inv X s'"
proof -
  obtain d s1 where s1: "sched_vslice q e s = Some (d, s1)" "calm s s1" "pss_inv X s1" using vslice_calm [OF assms] by blast
  have v: "calm st (upd_se e (\<lambda>se. se\<lparr>vruntime := max_vruntime (vruntime se) v\<rparr>) st) \<and>
      pss_inv X (upd_se e (\<lambda>se. se\<lparr>vruntime := max_vruntime (vruntime se) v\<rparr>) st)" if "pss_inv X st" for v st
    using vruntime_calm [OF that, of "\<lambda>se. se\<lparr>vruntime := max_vruntime (vruntime se) v\<rparr>"] by blast
  show ?thesis using s1 v [OF inv] v [OF s1(3)] calm_trans [OF s1(2)] by (auto simp: place_entity_def Let_def)
qed

lemma pss_fork_calm:
  assumes inv: "pss_inv X s" and t: "se_sfq (ents s (TD_SE t)) = Some q" and child: "se_sfq (ents s (TD_SE child)) \<noteq> None"
  shows "\<exists>s' s1. pss_fork_thread K t child s = Some s' \<and> quiet s s1 \<and> curthread s1 = curthread s \<and> threads s1 = threads s \<and>
    same_static s s1 \<and> same_tw s s1 \<and> root_cpupri s1 = root_cpupri s \<and> calm s1 s' \<and> pss_inv X s'"
proof -
  let ?e = "TD_SE t" and ?e2 = "TD_SE child"
  define s1 where "s1 = update_rq_clock K s"
  have q1: "quiet s s1" by (simp add: s1_def)
  have f1: "ents s1 = ents s" "curthread s1 = curthread s" "threads s1 = threads s" "same_static s s1" "same_tw s s1"
    "root_cpupri s1 = root_cpupri s"
    by (simp_all add: s1_def frame_simps same_static_def same_tw_def update_rq_clock_def cpu_clock_def Let_def split_beta)
  have inv1: "pss_inv X s1"
  proof -
    have "same_core s s1" "same_runq s s1"
      by (simp_all add: s1_def same_core_def same_runq_def frame_simps)
    then show ?thesis by (rule pss_inv_same(1) [OF inv])
  qed
  note P = pss_invD [OF inv1]
  obtain s2 where s2: "update_curr K q s1 = Some s2" "same_core s1 s2" "same_runq s1 s2" using update_curr_inv [OF P(5,6)] by blast
  have inv2: "pss_inv X s2" and calm2: "calm s1 s2"
    using pss_inv_same(1) [OF inv1 s2(2,3)] calm_core [OF s2(2,3) books_update_curr [OF s2(1)]] by blast+
  define s3 where "s3 = upd_se ?e2 (\<lambda>se. se\<lparr>vruntime := vruntime (ents s2 ?e)\<rparr>) s2"
  have inv3: "pss_inv X s3" and calm3: "calm s1 s3"
    unfolding s3_def using vruntime_calm [OF inv2, of "\<lambda>se. se\<lparr>vruntime := vruntime (ents s2 ?e)\<rparr>"] calm_trans [OF calm2] by blast+
  have "se_sfq (ents s3 ?e2) \<noteq> None" using child calm3 f1(1) same_structD(13) [of s1 s3 ?e2] by (simp add: calm_def)
  from place_initial_calm [OF inv3 this, of q] obtain s4 where s4: "place_entity q ?e2 True s3 = Some s4" "calm s3 s4" "pss_inv X s4" by blast
  define s5 where "s5 = (if child_runs_first (tun s4) \<and> entity_before s4 ?e ?e2
      then resched_thread t (upd_se ?e2 (\<lambda>se. se\<lparr>vruntime := vruntime (ents s4 ?e)\<rparr>)
        (upd_se ?e (\<lambda>se. se\<lparr>vruntime := vruntime (ents s4 ?e2)\<rparr>) s4)) else s4)"
  have 5: "calm s4 s5 \<and> pss_inv X s5"
  proof -
    note a = vruntime_calm [OF s4(3), of "\<lambda>se. se\<lparr>vruntime := vruntime (ents s4 ?e2)\<rparr>" ?e]
    have "pss_inv X (upd_se ?e (\<lambda>se. se\<lparr>vruntime := vruntime (ents s4 ?e2)\<rparr>) s4)" using a(2) by blast
    note b = vruntime_calm [OF this, of "\<lambda>se. se\<lparr>vruntime := vruntime (ents s4 ?e)\<rparr>" ?e2]
    have "pss_inv X (upd_se ?e2 (\<lambda>se. se\<lparr>vruntime := vruntime (ents s4 ?e)\<rparr>)
        (upd_se ?e (\<lambda>se. se\<lparr>vruntime := vruntime (ents s4 ?e2)\<rparr>) s4))" using b(2) by blast
    note c = resched_calm [OF this, of t]
    show ?thesis using s4(3) c calm_trans [OF calm_trans [OF a(1) b(1)] c(1)] by (auto simp: s5_def)
  qed
  define s6 where "s6 = upd_se ?e2 (\<lambda>se. se\<lparr>vruntime := vruntime se - vtime (sfqs s5 q)\<rparr>) s5"
  have 6: "calm s5 s6 \<and> pss_inv X s6"
    unfolding s6_def using vruntime_calm [OF conjunct2 [OF 5], of "\<lambda>se. se\<lparr>vruntime := vruntime se - vtime (sfqs s5 q)\<rparr>" ?e2] by blast
  have "pss_fork_thread K t child s = Some s6"
    using t s2(1) s4(1) by (simp add: pss_fork_thread_def td_to_se_def Let_def s1_def [symmetric] s3_def [symmetric] s5_def s6_def)
  moreover have "calm s1 s6" using calm_trans [OF calm_trans [OF calm3 s4(2)] calm_trans [OF conjunct1 [OF 5] conjunct1 [OF 6]]] .
  ultimately show ?thesis using q1 f1 6 by blast
qed

section \<open>The new thread\<close>

text \<open>The record of a thread that is on no queue and not on the processor can be anything.\<close>

lemma thread_change_good:
  assumes good: "sched_good K C s" and x: "x \<notin> joined_tds s" "x \<noteq> idlethread K"
    and s': "s' = upd_td x f s"
  shows "sched_good K C s'" "runnable s' = runnable s" "joined_tds s' = joined_tds s" "u \<noteq> x \<Longrightarrow> on_processor K u s' = on_processor K u s"
    "idle_queues s' = idle_queues s"
proof -
  have c: "same_core s s'" "same_runq s s'" unfolding s' by (rule same_core_upd) (simp add: same_runq_def)
  have inv: "pss_inv X s'" if "pss_inv X s" for X by (rule pss_inv_same(1) [OF that c])
  show r: "runnable s' = runnable s" "joined_tds s' = joined_tds s" and i: "idle_queues s' = idle_queues s"
    by (simp_all add: s' runnable_def joined_tds_def idle_queues_def)
  have st: "same_static s s'" by (simp add: s' same_static_def)
  have nr: "x \<notin> runnable s" using x(1) by (auto simp: runnable_def joined_tds_def)
  have "pss_good s'" using inv good unfolding pss_good_def sched_good_def r by (auto simp: s')
  moreover have "agree C s'" using good by (simp add: sched_good_def agree_def s')
  moreover have "td_class (threads s' y) = td_class (threads s y)" if "y \<noteq> x" for y using that by (simp add: s')
  moreover have "ents s' = ents s" by (simp add: s')
  ultimately show "sched_good K C s'" using good x nr unfolding sched_good_def r by metis
  assume "u \<noteq> x"
  then show "on_processor K u s' = on_processor K u s"
    using on_cpu_same(1) [OF st] by (simp add: on_processor_def r i) (simp add: s')
qed

text \<open>A thread whose entity is unused.\<close>

definition unused :: "'q kern \<Rightarrow> tid \<Rightarrow> 'q sched \<Rightarrow> bool" where
  "unused K t s \<longleftrightarrow> t \<notin> joined_tds s \<and> outside t s \<and> t \<noteq> idlethread K \<and> t \<noteq> curthread s"

text \<open>Before the class has its say: the new thread has the class, group, queue and weight of its parent.\<close>

lemma fork_place:
  assumes good: "sched_good K C s" and p: "on_processor K (curthread s) s" and t: "t = curthread s" and g: "in_group g t s"
    and sq: "se_sfq (ents s (TD_SE t)) = Some q" and u: "unused K child s"
  shows "\<exists>s'. sched_fork_thread K t child s = class_fork_thread K (thread_class s t) t child s' \<and> sched_good K C s' \<and>
    on_processor K (curthread s) s' \<and> runnable s' = runnable s \<and> joined_tds s' = joined_tds s \<and> curthread s' = curthread s \<and>
    in_group g child s' \<and> se_sfq (ents s' (TD_SE child)) = Some q \<and> td_class (threads s' child) = thread_class s t \<and>
    (\<forall>x. weight (se_load (ents s' (TD_SE x))) = weight (se_load (ents s (TD_SE (if x = child then t else x))))) \<and>
    (\<forall>x. x \<noteq> child \<longrightarrow> threads s' x = threads s x \<and> ents s' (TD_SE x) = ents s (TD_SE x)) \<and> root_cpupri s' = root_cpupri s \<and>
    (\<forall>x. place x s' = place x s)"
proof -
  let ?e2 = "TD_SE child"
  define F :: "thread \<Rightarrow> thread" where "F = (\<lambda>td. td\<lparr>ts_bound := False, td_class := thread_class s t, ts_cpu := ts_cpu (threads s t),
    td_group := Some g, td_priority := td_base_pri td, ts_ticks := 0, ts_ltick := ticks s, ts_ftick := ticks s\<rparr>)"
  define H :: "sched_entity \<Rightarrow> sched_entity" where "H = (\<lambda>x. x\<lparr>onsfq := False, onrunq := False, joined := False, se_initial := True,
    se_load := se_load (ents s (TD_SE t)), se_sfq := Some q, se_parent := par_of s (TD_SE t)\<rparr>)"
  define s1 where "s1 = upd_td child F s"
  define s2 where "s2 = upd_g g (\<lambda>r. r\<lparr>sg_threads := sg_threads r @ [child]\<rparr>) s1"
  define s3 where "s3 = upd_se ?e2 H s2"
  have c: "child \<notin> joined_tds s" "outside child s" "child \<noteq> idlethread K" "child \<noteq> t" using u t by (auto simp: unused_def)
  note 1 = thread_change_good [OF good c(1,3) s1_def]
  have ol: "other_lists s1 s2" unfolding s2_def by (rule other_lists_upd)
  note 2 = other_lists_ok [OF ol]
  have f: "threads s2 = threads s1" "ents s2 = ents s" "sfqs s2 = sfqs s" "curthread s2 = curthread s" "root_cpupri s2 = root_cpupri s"
    "\<And>h. sg_se (groups s2 h) = sg_se (groups s h)" "\<And>h. sg_sfq (groups s2 h) = sg_sfq (groups s h)"
    using ol by (simp_all add: other_lists_def s1_def)
  have run: "sched_fork_thread K t child s = class_fork_thread K (thread_class s t) t child s3"
  proof -
    have g': "td_group (threads s t) = Some g" "sg_sfq (groups s g) = Some q" "sg_se (groups s g) = par_of s (TD_SE t)"
      using g sq by (simp_all add: in_group_def)
    define a1 where "a1 = upd_td child (\<lambda>td. td\<lparr>ts_bound := False, td_class := thread_class s t, ts_cpu := ts_cpu (threads s t)\<rparr>) s"
    define a2 where "a2 = upd_se ?e2 (\<lambda>x. x\<lparr>onsfq := False, onrunq := False, joined := False, se_initial := True,
      se_load := se_load (ents a1 (TD_SE t))\<rparr>) a1"
    define a3 where "a3 = upd_td child (\<lambda>td. td\<lparr>td_group := Some g\<rparr>) a2"
    define a4 where "a4 = upd_g g (\<lambda>r. r\<lparr>sg_threads := sg_threads r @ [child]\<rparr>) a3"
    define a5 where "a5 = upd_se ?e2 (\<lambda>se. se\<lparr>se_sfq := sg_sfq (groups a1 g), se_parent := sg_se (groups a1 g)\<rparr>) a4"
    define a6 where "a6 = upd_td child (\<lambda>td. td\<lparr>td_priority := td_base_pri td, ts_ticks := 0, ts_ltick := ticks a5, ts_ftick := ticks a5\<rparr>) a5"
    have 1: "threads a1 t = threads s t" "ents a1 = ents s" "thread_class a1 t = thread_class s t" using c(4) by (simp_all add: a1_def thread_class_def)
    have 3: "td_group (threads a1 t) = Some g" "td_group (threads a3 child) = Some g" "td_group (threads a4 child) = Some g" using 1 c(4) g' by (simp_all add: a2_def a3_def a4_def)
    have 6: "thread_class a6 child = thread_class s t"
      by (simp add: a6_def a5_def a4_def a3_def a2_def a1_def thread_class_def)
    have "sched_fork_thread K t child s = class_fork_thread K (thread_class a6 child) t child a6"
      using 3 by (simp add: sched_fork_thread_def sched_group_register_thread_def set_thread_rq_def td_to_se_def Let_def
          a1_def [symmetric] a2_def [symmetric] a3_def [symmetric] a4_def [symmetric] a5_def [symmetric] a6_def [symmetric])
    moreover have "a6 = s3"
      using c(4) g' by (intro sched.equality)
        (simp_all add: a6_def a5_def a4_def a3_def a2_def a1_def s3_def s2_def s1_def F_def H_def upd_td_def upd_se_def upd_g_def fun_eq_iff)
    ultimately show ?thesis using 6 by simp
  qed
  have nf: "\<not> onsfq (ents s ?e2)" "\<not> joined (ents s ?e2)" using c(1,2) by (simp_all add: outside_def joined_tds_def)
  have nq: "\<not> onrunq (ents s ?e2)" using sched_goodD(5) [OF good, of child] c(1) by blast
  have pl: "placed child q (par_of s (TD_SE t)) s2 s3"
    using nf nq by (simp add: placed_def s3_def H_def f upd_se_def)
  obtain X where X: "pss_inv X s" using good by (auto simp: sched_good_def pss_good_def)
  have "home_ok s q (par_of s (TD_SE t))" by (rule hier_home [OF pss_invD(5) [OF X] sq])
  moreover have "home_ok s1 q (par_of s (TD_SE t)) = home_ok s q (par_of s (TD_SE t))" by (simp add: s1_def home_ok_def split: option.split)
  ultimately have home: "home_ok s2 q (par_of s (TD_SE t))" by (simp add: 2(9))
  have w: "weight_ok (weight (se_load (ents s3 ?e2)))" using good sq by (simp add: s3_def H_def f sched_good_def pss_good_def)
  have out: "outside child s2" "child \<notin> runnable s2" using c(1,2) 2(1) 1(2) by (auto simp: outside_def f runnable_def joined_tds_def)
  note D = placedD [OF pl] and 3 = placed_good [OF 2(11) [OF 1(1)] out pl home w]
  have e: "ents s3 (TD_SE x) = ents s (TD_SE x)" "threads s3 x = threads s x" if "x \<noteq> child" for x
    using that D(4) D(9) [of "TD_SE x"] by (simp_all add: f s1_def)
  have proc: "on_processor K (curthread s) s3"
  proof -
    have ct: "curthread s \<noteq> child" using c(4) t by simp
    have "on_processor K (curthread s) s2" using p 1(4) [OF ct] 2(5) by simp
    then show ?thesis using 3(2-5) ct D(4,11,12) by (auto simp: on_processor_def split: if_splits)
  qed
  have "in_group g child s3" using g D(3,4,14,15) sq by (simp add: in_group_def f s1_def F_def)
  moreover have "td_class (threads s3 child) = thread_class s t" using D(4) by (simp add: f s1_def F_def)
  moreover have "weight (se_load (ents s3 (TD_SE x))) = weight (se_load (ents s (TD_SE (if x = child then t else x))))" for x
    using e(1) [of x] by (simp add: s3_def H_def)
  moreover have "runnable s3 = runnable s" "joined_tds s3 = joined_tds s" using 3(2,3) 2(1,2) 1(2,3) by simp_all
  moreover have "place x s3 = place x s" for x
    using e [of x] nq D(4) by (cases "x = child") (simp_all add: place_def s3_def H_def f s1_def F_def)
  ultimately show ?thesis using run 3(1) proc D(7,8,14) e f(4,5) by auto
qed

text \<open>A fork by the running thread, of any class.\<close>

lemma sched_fork_ok:
  assumes hz: "0 < hz (clks K)" and good: "sched_good K C s" and p: "on_processor K (curthread s) s" and t: "t = curthread s"
    and g: "in_group g t s" and sq: "se_sfq (ents s (TD_SE t)) \<noteq> None" and u: "unused K child s"
  shows "\<exists>s'. sched_fork K t child s = Some s' \<and> sched_good K C s' \<and> on_processor K (curthread s') s' \<and> curthread s' = curthread s \<and>
    runnable s' = runnable s \<and> joined_tds s' = joined_tds s \<and> can_start child s' \<and> in_group g child s' \<and>
    td_class (threads s' child) = td_class (threads s t) \<and>
    (\<forall>x. weight (se_load (ents s' (TD_SE x))) = weight (se_load (ents s (TD_SE (if x = child then t else x))))) \<and>
    (\<forall>x. place x s' = place x s)"
proof -
  obtain s1 where s1: "sched_pctcpu_update K t True s = Some s1" "quiet s s1" "curthread s1 = curthread s"
    "\<forall>x. td_state (threads s1 x) = td_state (threads s x)" using quiet_pctcpu [OF hz] by blast
  have pl1: "place x s1 = place x s" for x using quiet_place [OF s1(2,4)] by blast
  note Q = quiet_good [OF s1(2)]
  have gr: "td_group (threads s1 x) = td_group (threads s x)" for x
    using s1(1) by (auto simp: sched_pctcpu_update_def pctcpu_window_def Let_def split: bind_splits if_splits)
  have e1: "ents s1 = ents s" "groups s1 = groups s" "\<And>x. td_class (threads s1 x) = td_class (threads s x)"
    using s1(2) by (simp_all add: quiet_def)
  obtain q where q: "se_sfq (ents s1 (TD_SE t)) = Some q" using sq e1(1) by auto
  have u1: "unused K child s1" using u s1(2,3) by (simp add: unused_def joined_tds_def outside_def quiet_def)
  have p1: "on_processor K (curthread s1) s1" "t = curthread s1" "in_group g t s1"
    using p t g quiet_on_processor [OF s1(2)] s1(3) gr e1 by (simp_all add: in_group_def)
  from fork_place [OF Q(6) [OF good] p1 q u1] obtain s2 where s2:
    "sched_fork_thread K t child s1 = class_fork_thread K (thread_class s1 t) t child s2" "sched_good K C s2"
    "on_processor K (curthread s1) s2" "runnable s2 = runnable s1" "joined_tds s2 = joined_tds s1" "curthread s2 = curthread s1"
    "in_group g child s2" "se_sfq (ents s2 (TD_SE child)) = Some q" "td_class (threads s2 child) = thread_class s1 t"
    "\<forall>x. weight (se_load (ents s2 (TD_SE x))) = weight (se_load (ents s1 (TD_SE (if x = child then t else x))))"
    "\<forall>x. x \<noteq> child \<longrightarrow> threads s2 x = threads s1 x \<and> ents s2 (TD_SE x) = ents s1 (TD_SE x)"
    "\<forall>x. place x s2 = place x s1" by blast
  have run: "sched_fork K t child s = class_fork_thread K (thread_class s t) t child s2"
    using t s1(1) s2(1) e1(3) by (simp add: sched_fork_def kassert_def thread_class_def)
  have fin: "?thesis" if "sched_fork K t child s = Some s'" "sched_good K C s'" "on_processor K (curthread s1) s'"
    "runnable s' = runnable s2" "joined_tds s' = joined_tds s2" "curthread s' = curthread s2" "same_static s2 s'" "same_tw s2 s'"
    "\<And>x. td_class (threads s' x) = td_class (threads s2 x)" "\<And>x. td_group (threads s' x) = td_group (threads s2 x)"
    "\<And>x. place x s' = place x s2" for s'
  proof -
    have "child \<notin> joined_tds s" using u by (simp add: unused_def)
    then have nj: "\<not> joined (ents s' (TD_SE child))" using that(5) s2(5) s1(2) by (auto simp: joined_tds_def quiet_def)
    have "can_start child s'" using nj same_static_sfq [OF that(7)] s2(8) by (simp add: can_start_def)
    moreover have "in_group g child s'" using s2(7) that(7,10) by (simp add: in_group_def same_static_def)
    moreover have "joined_tds s' = joined_tds s" using that(5) s2(5) e1(1) by (simp add: joined_tds_def)
    ultimately show ?thesis using that s2 Q(2) s1(3) e1 pl1 by (simp add: same_tw_def thread_class_def)
  qed
  show ?thesis
  proof (cases "thread_class s t")
    case pss_class
    obtain X where X: "pss_inv X s2" using s2(2) by (auto simp: sched_good_def pss_good_def)
    have "child \<noteq> t" using u t by (auto simp: unused_def)
    then have "se_sfq (ents s2 (TD_SE t)) = Some q" using s2(11) q by simp
    moreover have "se_sfq (ents s2 (TD_SE child)) \<noteq> None" using s2(8) by simp
    ultimately obtain s' s3 where s': "pss_fork_thread K t child s2 = Some s'" "quiet s2 s3" "curthread s3 = curthread s2" "threads s3 = threads s2"
      "same_static s2 s3" "same_tw s2 s3" "calm s3 s'" "pss_inv X s'" using pss_fork_calm [OF X, of t q child K] by blast
    have inv: "\<exists>X. pss_inv X s'" using s'(8) by blast
    note Q3 = quiet_good [OF s'(2)]
    have g3: "sched_good K C s3" by (rule Q3(6) [OF s2(2)])
    note c = calm_sched_good [OF g3 inv s'(7)] calm_on_processor [OF g3 inv s'(7)]
    have st: "same_struct s3 s'" "same_weights s3 s'" and b: "ledger s' = ledger s3" using s'(7) books_ledger(1) by (auto simp: calm_def)
    have "same_standing s3 s'" using b by (auto simp: ledger_def same_standing_def dest: fun_cong)
    then have gg: "td_group (threads s' x) = td_group (threads s2 x)" for x using s'(4) by (simp add: same_standing_def)
    have "td_class (threads s' x) = td_class (threads s2 x)" for x
      using b s'(4) by (auto simp: ledger_def dest: fun_cong)
    moreover have "joined_tds s' = joined_tds s2" using c(7) s'(2) by (simp add: joined_tds_def quiet_def)
    moreover have "same_static s2 s'" using same_static_trans [OF s'(5) same_struct_static [OF st(1)]] .
    moreover have "same_tw s2 s'" using s'(6) same_weights_tw [OF st(2)] by (simp add: same_tw_def)
    moreover have "on_processor K (curthread s1) s'" using s2(3) c(6) quiet_on_processor [OF s'(2)] by simp
    moreover have "place x s3 = place x s2" for x using s'(2,4) quiet_place by metis
    then have "place x s' = place x s2" for x using s'(7) books_place [of s' s3] by (simp add: calm_def)
    ultimately show ?thesis
      using fin [of s'] run pss_class s'(1) c(1,2,5) Q3(2) s'(3) gg s2(6) s1(3) by simp
  next
    case realtime_class
    then show ?thesis using fin [of s2] run s2 by (simp add: rt_fork_thread_def same_tw_def)
  next
    case idle_class
    then show ?thesis using fin [of s2] run s2 by (simp add: idle_fork_thread_def same_tw_def)
  qed
qed

end
