(* ===== verification/Load_Track.thy ===== *)
theory Load_Track
  imports Sched_Pct
begin

text \<open>
  The decaying loads and the usage percentage: the decay is total for the five loads of a processor,
  an update moves each load strictly towards the current one and never past it, and the percentage
  is a fraction of \<open>FSCALE\<close>.
\<close>

section \<open>The decay\<close>

lemma unat_drop: "unat (drop_bit n w) = unat w div 2 ^ n"
  using unat_drop_bit_eq [of n w] unfolding drop_bit_eq_div [of n "unat w"] .

lemma decay_loop_total:
  "unat missed < 2 ^ length fs \<Longrightarrow> \<exists>l. decay_loop fs load missed = Some l"
proof (induction fs arbitrary: load missed)
  case Nil
  then have "missed = 0" by (simp add: unat_eq_zero)
  then show ?case by (simp add: decay_loop.simps)
next
  case (Cons f fs)
  have "unat (drop_bit 1 missed) = unat missed div 2" using unat_drop [of 1 missed] by (simp only: power_one_right)
  moreover have "unat missed < 2 * 2 ^ length fs" using Cons.prems by simp
  ultimately have "unat (drop_bit 1 missed) < 2 ^ length fs" by linarith
  then show ?case using Cons.IH by (subst decay_loop.simps) simp
qed

lemma decay_factors:
  assumes "i \<in> {1, 2, 3, 4}"
  shows "length (power_of_2_decay_factors ! i) = 8" "decay_to_zero_ticks ! i \<le> 128"
    "\<forall>f\<in>set (power_of_2_decay_factors ! i). unat f \<le> 128"
  using assms by (auto simp: power_of_2_decay_factors_def decay_to_zero_ticks_def)

lemma decay_missed_total:
  assumes "i \<in> {1, 2, 3, 4}"
  shows "\<exists>l. decay_cpu_load_missed load missed i = Some l"
proof (cases "missed \<ge> of_nat (decay_to_zero_ticks ! i)")
  case False
  then have "unat missed < decay_to_zero_ticks ! i"
    using assms by (auto simp: decay_to_zero_ticks_def not_le word_less_nat_alt)
  then have "unat missed < 2 ^ length (power_of_2_decay_factors ! i)"
    using decay_factors [OF assms] by simp
  then show ?thesis using decay_loop_total by (auto simp: decay_cpu_load_missed_def)
qed (simp add: decay_cpu_load_missed_def)

text \<open>A decayed load is not larger, while the products fit the word.\<close>

lemma decay_loop_le:
  assumes "\<forall>f\<in>set fs. unat f \<le> 128" "unat load < 2 ^ 57" "decay_loop fs load missed = Some l"
  shows "unat l \<le> unat load"
  using assms
proof (induction fs arbitrary: load missed)
  case Nil
  then show ?case by (cases "missed = 0") (auto simp: decay_loop.simps)
next
  case (Cons f fs)
  show ?case
  proof (cases "missed = 0")
    case True
    then show ?thesis using Cons.prems(3) by (simp add: decay_loop.simps)
  next
    case False
    define x where "x = (if bit missed 0 then drop_bit 7 (load * f) else load)"
    have "unat load * unat f \<le> unat load * 128" using Cons.prems(1) by simp
    moreover have "unat load * 128 < 2 ^ 64" using Cons.prems(2) by simp
    ultimately have "unat load * unat f < 2 ^ 64" by (rule le_less_trans)
    then have "unat load * unat f < 2 ^ LENGTH(64)" by simp
    then have "unat (load * f) = unat load * unat f" by (rule unat_mult_lem [THEN iffD1])
    then have "unat (drop_bit 7 (load * f)) \<le> unat load"
      using div_le_mono [OF \<open>unat load * unat f \<le> unat load * 128\<close>, of 128] by (simp only: unat_drop) simp
    then have x: "unat x \<le> unat load" by (simp add: x_def)
    moreover have "decay_loop fs x (drop_bit 1 missed) = Some l"
      using Cons.prems(3) False by (simp add: decay_loop.simps x_def)
    ultimately show ?thesis using Cons.IH [of x] Cons.prems(1,2) by fastforce
  qed
qed

section \<open>One update\<close>

lemma load_step_total: "i \<in> {1, 2, 3, 4} \<Longrightarrow> \<exists>l. load_step cur pending i old = Some l"
  using decay_missed_total [of i old "pending - 1"] by (auto simp: load_step_def Let_def)

lemma load_steps_total:
  "0 < i \<Longrightarrow> i + length ls \<le> 5 \<Longrightarrow> \<exists>ls'. load_steps cur pending i ls = Some ls' \<and> length ls' = length ls"
proof (induction ls arbitrary: i)
  case (Cons old ls)
  obtain l where "load_step cur pending i old = Some l" using load_step_total [of i] Cons.prems by fastforce
  moreover obtain ls' where "load_steps cur pending (Suc i) ls = Some ls'" "length ls' = length ls"
    using Cons.IH [of "Suc i"] Cons.prems by auto
  ultimately show ?case by simp
qed simp

lemma update_loads_total:
  assumes "length ls = 5"
  shows "\<exists>ls'. update_loads ls cur pending = Some ls' \<and> length ls' = 5 \<and> hd ls' = cur"
  using load_steps_total [of 1 "tl ls" cur pending] assms by (auto simp: update_loads_def)

text \<open>Without missed ticks: a weighted mean, rounded towards the current load.\<close>

lemma load_step_mean:
  fixes cur old :: u64
  assumes i: "i \<in> {1, 2, 3, 4}" and b: "unat cur < 2 ^ 59" "unat old < 2 ^ 59" and l: "load_step cur 1 i old = Some l"
  shows "unat l = (unat old * (2 ^ i - 1) + unat cur + (if cur > old then 2 ^ i - 1 else 0)) div 2 ^ i"
proof -
  define k where "k = (2 ^ i :: nat)"
  have k: "k \<in> {2, 4, 8, 16}" using i by (auto simp: k_def)
  have s: "unat (push_bit i 1 :: u64) = k" using i by (auto simp: k_def)
  have s1: "unat (push_bit i 1 - 1 :: u64) = k - 1" using i by (auto simp: k_def)
  define new where "new = (if cur > old then cur + (push_bit i 1 - 1) else cur)"
  have n: "unat new = unat cur + (if cur > old then k - 1 else 0)"
  proof (cases "cur > old")
    case True
    have "unat cur + unat (push_bit i 1 - 1 :: u64) < 2 ^ LENGTH(64)" using b k s1 by auto
    from unat_add_lem [THEN iffD1, OF this] show ?thesis using True s1 by (simp add: new_def)
  qed (simp add: new_def)
  have m: "unat old * (k - 1) \<le> unat old * 15" by (rule mult_le_mono2) (use k in auto)
  moreover have "unat old * 15 < 2 ^ LENGTH(64)" using b(2) by simp
  ultimately have "unat old * unat (push_bit i 1 - 1 :: u64) < 2 ^ LENGTH(64)" unfolding s1 by (rule le_less_trans)
  from unat_mult_lem [THEN iffD1, OF this] have p: "unat (old * (push_bit i 1 - 1)) = unat old * (k - 1)" using s1 by simp
  have "unat new \<le> unat cur + 15" using n k by auto
  then have "unat (old * (push_bit i 1 - 1)) + unat new \<le> unat old * 15 + (unat cur + 15)"
    unfolding p using m by (intro add_mono)
  moreover have "unat old * 15 + (unat cur + 15) < 2 ^ LENGTH(64)" using b by simp
  ultimately have "unat (old * (push_bit i 1 - 1)) + unat new < 2 ^ LENGTH(64)" by (rule le_less_trans)
  from unat_add_lem [THEN iffD1, OF this] have a: "unat (old * (push_bit i 1 - 1) + new) = unat old * (k - 1) + unat new"
    using p by simp
  have "l = drop_bit i (old * (push_bit i 1 - 1) + new)"
    using l unfolding load_step_def decay_cpu_load_missed_def Let_def new_def by auto
  then have "unat l = unat (old * (push_bit i 1 - 1) + new) div 2 ^ i" by (simp only: unat_drop)
  then show ?thesis unfolding a n k_def by (simp only: add.assoc)
qed

lemma load_step_moves:
  fixes cur old :: u64
  assumes i: "i \<in> {1, 2, 3, 4}" and b: "unat cur < 2 ^ 59" "unat old < 2 ^ 59" and l: "load_step cur 1 i old = Some l"
  shows "old < cur \<Longrightarrow> old < l \<and> l \<le> cur" "cur < old \<Longrightarrow> cur \<le> l \<and> l < old" "cur = old \<Longrightarrow> l = cur"
proof -
  note m = load_step_mean [OF assms]
  have k: "(2 :: nat) ^ i \<in> {2, 4, 8, 16}" using i by auto
  show "old < l \<and> l \<le> cur" if "old < cur"
    using m k that by (auto simp: word_less_nat_alt word_le_nat_alt)
  show "cur \<le> l \<and> l < old" if "cur < old"
    using m k that by (auto simp: word_less_nat_alt word_le_nat_alt)
  show "l = cur" if "cur = old"
    using m k that by (auto simp: word_unat_eq_iff)
qed

section \<open>A sequence of updates\<close>

text \<open>The loads after updates with the current loads \<open>cs\<close>, one tick each.\<close>

fun loads_after :: "u64 list \<Rightarrow> u64 list \<Rightarrow> u64 list option" where
  "loads_after [] ls = Some ls"
| "loads_after (c # cs) ls = do { ls \<leftarrow> update_loads ls c 1; loads_after cs ls }"

lemma loads_after_append:
  "loads_after (cs @ ds) ls = do { ls \<leftarrow> loads_after cs ls; loads_after ds ls }"
proof (induction cs arbitrary: ls)
  case (Cons c cs)
  have "loads_after (cs @ ds) = (\<lambda>ls. do { ls \<leftarrow> loads_after cs ls; loads_after ds ls })" by (rule ext) (rule Cons.IH)
  then show ?case by (simp add: bind_assoc)
qed simp

text \<open>Each load stays between bounds that hold for it and the current one, and comes nearer to the current one.\<close>

definition apart :: "u64 \<Rightarrow> u64 \<Rightarrow> nat" where
  "apart a b = (if a \<le> b then unat b - unat a else unat a - unat b)"

lemma load_step_near:
  fixes cur old :: u64
  assumes i: "i \<in> {1, 2, 3, 4}" and b: "lo \<le> cur" "cur \<le> hi" "lo \<le> old" "old \<le> hi" "unat hi < 2 ^ 59"
  shows "\<exists>l. load_step cur 1 i old = Some l \<and> lo \<le> l \<and> l \<le> hi \<and> apart l cur \<le> apart old cur - 1"
proof -
  obtain l where l: "load_step cur 1 i old = Some l" using load_step_total [OF i] by blast
  have s: "unat cur < 2 ^ 59" "unat old < 2 ^ 59" using b by (simp_all add: word_le_nat_alt)
  note M = load_step_moves [OF i s l]
  consider "old < cur" | "cur < old" | "cur = old" by fastforce
  then have "lo \<le> l \<and> l \<le> hi \<and> apart l cur \<le> apart old cur - 1"
  proof cases
    case 1
    with M(1) b show ?thesis by (auto simp: apart_def word_le_nat_alt word_less_nat_alt)
  next
    case 2
    with M(2) b show ?thesis by (auto simp: apart_def word_le_nat_alt word_less_nat_alt)
  next
    case 3
    with M(3) b show ?thesis by (simp add: apart_def)
  qed
  with l show ?thesis by blast
qed

lemma load_steps_near:
  fixes cur :: u64
  assumes "0 < i" "i + length ls \<le> 5" "lo \<le> cur" "cur \<le> hi" "unat hi < 2 ^ 59" "\<forall>l\<in>set ls. lo \<le> l \<and> l \<le> hi \<and> apart l cur \<le> n"
  shows "\<exists>ls'. load_steps cur 1 i ls = Some ls' \<and> length ls' = length ls \<and>
    (\<forall>l\<in>set ls'. lo \<le> l \<and> l \<le> hi \<and> apart l cur \<le> n - 1)"
  using assms(1,2,6)
proof (induction ls arbitrary: i)
  case (Cons old ls)
  have i: "i \<in> {1, 2, 3, 4}" using Cons.prems(1,2) by auto
  have o: "lo \<le> old" "old \<le> hi" "apart old cur \<le> n" using Cons.prems(3) by simp_all
  from load_step_near [OF i assms(3,4) o(1,2) assms(5)] obtain l where l: "load_step cur 1 i old = Some l" "lo \<le> l" "l \<le> hi"
    "apart l cur \<le> apart old cur - 1" by blast
  obtain ls' where ls': "load_steps cur 1 (Suc i) ls = Some ls'" "length ls' = length ls"
    "\<forall>l\<in>set ls'. lo \<le> l \<and> l \<le> hi \<and> apart l cur \<le> n - 1"
    using Cons.IH [of "Suc i"] Cons.prems by auto
  have "apart l cur \<le> n - 1" using l(4) o(3) by linarith
  then show ?case using l(1-3) ls' by simp
qed simp

lemma update_loads_near:
  fixes cur :: u64
  assumes "length ls = 5" "lo \<le> cur" "cur \<le> hi" "unat hi < 2 ^ 59" "\<forall>l\<in>set ls. lo \<le> l \<and> l \<le> hi \<and> apart l cur \<le> n"
  shows "\<exists>ls'. update_loads ls cur 1 = Some ls' \<and> length ls' = 5 \<and> (\<forall>l\<in>set ls'. lo \<le> l \<and> l \<le> hi \<and> apart l cur \<le> n - 1)"
proof -
  have t: "length (tl ls) = 4" "\<forall>l\<in>set (tl ls). lo \<le> l \<and> l \<le> hi \<and> apart l cur \<le> n"
    using assms(1,5) by (cases ls; simp)+
  have "1 + length (tl ls) \<le> 5" using t(1) by simp
  from load_steps_near [OF _ this assms(2-4) t(2)] obtain ls' where "load_steps cur 1 1 (tl ls) = Some ls'" "length ls' = 4"
    "\<forall>l\<in>set ls'. lo \<le> l \<and> l \<le> hi \<and> apart l cur \<le> n - 1" using t(1) by auto
  moreover have "apart cur cur = 0" by (simp add: apart_def)
  ultimately show ?thesis using assms(2,3) by (simp add: update_loads_def)
qed

lemma apart_le: "lo \<le> a \<Longrightarrow> a \<le> hi \<Longrightarrow> lo \<le> b \<Longrightarrow> b \<le> hi \<Longrightarrow> apart a b \<le> unat hi - unat lo"
  by (auto simp: apart_def word_le_nat_alt)

lemma loads_after_within:
  assumes "length ls = 5" "unat hi < 2 ^ 59" "\<forall>l\<in>set ls. lo \<le> l \<and> l \<le> hi" "\<forall>c\<in>set cs. lo \<le> c \<and> c \<le> hi"
  shows "\<exists>ls'. loads_after cs ls = Some ls' \<and> length ls' = 5 \<and> (\<forall>l\<in>set ls'. lo \<le> l \<and> l \<le> hi)"
  using assms(1,3,4)
proof (induction cs arbitrary: ls)
  case (Cons c cs)
  have c: "lo \<le> c" "c \<le> hi" using Cons.prems(3) by simp_all
  have "\<forall>l\<in>set ls. lo \<le> l \<and> l \<le> hi \<and> apart l c \<le> unat hi - unat lo" using Cons.prems(2) c apart_le by blast
  from update_loads_near [OF Cons.prems(1) c assms(2) this] obtain ls1 where "update_loads ls c 1 = Some ls1" "length ls1 = 5"
    "\<forall>l\<in>set ls1. lo \<le> l \<and> l \<le> hi" by blast
  then show ?case using Cons.IH [of ls1] Cons.prems(3) by simp
qed simp

lemma loads_converge:
  fixes cur :: u64
  assumes "lo \<le> cur" "cur \<le> hi" "unat hi < 2 ^ 59"
  shows "\<lbrakk>length ls = 5; \<forall>l\<in>set ls. lo \<le> l \<and> l \<le> hi \<and> apart l cur \<le> n\<rbrakk> \<Longrightarrow>
    loads_after (replicate n cur) ls = Some (replicate 5 cur)"
proof (induction n arbitrary: ls)
  case 0
  have "\<forall>l\<in>set ls. l = cur" using 0(2) by (auto simp: apart_def word_le_nat_alt word_unat_eq_iff split: if_splits)
  then have "ls = replicate 5 cur" using 0(1) by (intro replicate_eqI) auto
  then show ?case by simp
next
  case (Suc n)
  from update_loads_near [OF Suc.prems(1) assms Suc.prems(2)] obtain ls1 where "update_loads ls cur 1 = Some ls1" "length ls1 = 5"
    "\<forall>l\<in>set ls1. lo \<le> l \<and> l \<le> hi \<and> apart l cur \<le> n" by auto
  then show ?case using Suc.IH by simp
qed

section \<open>The percentage\<close>

lemma pctcpu_of_bounds:
  assumes "0 < hz (clks K)" "hz (clks K) < 2 ^ 32"
  shows "0 \<le> pctcpu_of K tk \<and> pctcpu_of K tk \<le> 2 ^ FSHIFT K"
proof (cases "tk = 0")
  case False
  define r where "r = uint (min (word_of_int (signed_divide (sint tk div 1024) 10)) (word_of_int (hz (clks K)) :: u32))"
  have "uint (word_of_int (hz (clks K)) :: u32) = hz (clks K)" using assms by (simp add: uint_word_of_int)
  then have "r \<le> hz (clks K)" "0 \<le> r" unfolding r_def by (simp_all add: min_def word_le_def)
  then have "2 ^ FSHIFT K * r \<le> 2 ^ FSHIFT K * hz (clks K)" by simp
  then have "(2 ^ FSHIFT K * r) div hz (clks K) \<le> 2 ^ FSHIFT K"
    using zdiv_mono1 [of "2 ^ FSHIFT K * r" "2 ^ FSHIFT K * hz (clks K)" "hz (clks K)"] assms(1) by simp
  moreover have "0 \<le> (2 ^ FSHIFT K * r) div hz (clks K)" using \<open>0 \<le> r\<close> assms(1) by (simp add: pos_imp_zdiv_nonneg_iff)
  ultimately show ?thesis using False by (simp add: pctcpu_of_def Let_def r_def [symmetric])
qed (simp add: pctcpu_of_def)

end
