(* ===== verification/Sched_System.thy ===== *)
theory Sched_System
  imports Sched_Fork Load_Track
begin

text \<open>
  The clock tick, and the scheduler as a transition system: a thread wakes, the running thread gives
  way, blocks, is ticked, forks or exits, and the nice value or the group of a process changes. Every reachable state satisfies the invariant of the scheduler, and in
  every such state each operation returns.
\<close>

section \<open>The tick\<close>

lemma clear_calm:
  assumes inv: "pss_inv X s" and e: "se_sfq (ents s e) = Some q"
  shows "\<exists>s'. clear_candidates q e s = Some s' \<and> calm s s' \<and> pss_inv X s'"
proof -
  note P = pss_invD [OF inv]
  obtain s' where s': "clear_candidates q e s = Some s'" "cleared s s'" using clear_candidates_ok [OF P(5) e] by blast
  have c: "only_cands s s'" "less_cands s s'" using s'(2) by (simp_all add: cleared_def)
  have "pss_inv X s'" by (rule pss_inv_cands [OF inv c(1) cand_inv_less [OF queue_invD(6) [OF P(1)] c(2)]])
  then show ?thesis using s'(1) calm_cands [OF c(1) books_clear_candidates [OF s'(1)]] by blast
qed

lemma entity_tick_calm:
  assumes inv: "pss_inv X s" and e: "se_sfq (ents s e) = Some q"
  shows "\<exists>s'. entity_tick K q e s = Some s' \<and> calm s s' \<and> pss_inv X s'"
proof -
  note P = pss_invD [OF inv]
  obtain s1 where s1: "update_curr K q s = Some s1" "same_core s s1" "same_runq s s1" using update_curr_inv [OF P(5,6)] by blast
  have inv1: "pss_inv X s1" and calm1: "calm s s1"
    using pss_inv_same(1) [OF inv s1(2,3)] calm_core [OF s1(2,3) books_update_curr [OF s1(1)]] by blast+
  have e1: "se_sfq (ents s1 e) = Some q" using e s1(2) by (simp add: same_coreD)
  then have e1': "se_sfq (ents s1 e) \<noteq> None" by simp
  from sched_slice_calm [OF inv1 this, of q] obtain v s2 where s2: "sched_slice q e s1 = Some (v, s2)" "same_core s1 s2"
    "same_runq s1 s2" "books s2 = books s1" by blast
  have inv2: "pss_inv X s2" and calm2: "calm s s2"
    using pss_inv_same(1) [OF inv1 s2(2,3)] calm_trans [OF calm1 calm_core [OF s2(2-4)]] by blast+
  have e2: "se_sfq (ents s2 e) = Some q" using e1 s2(2) by (simp add: same_coreD)
  obtain s3 where s3: "clear_candidates q e s2 = Some s3" "calm s2 s3" "pss_inv X s3" using clear_calm [OF inv2 e2] by blast
  note r3 = resched_calm [OF s3(3), of "curthread s1"] and r2 = resched_calm [OF inv2, of "curthread s1"]
  have a: "calm s (resched_thread (curthread s1) s3)" "calm s (resched_thread (curthread s1) s2)"
    using calm_trans [OF calm_trans [OF calm2 s3(2)] r3(1)] calm_trans [OF calm2 r2(1)] by blast+
  have "\<exists>s'. check_preempt_tick q e s1 = Some s' \<and> calm s s' \<and> pss_inv X s'"
    using s2(1) s3(1) a r2(2) r3(2) calm2 inv2 unfolding check_preempt_tick_def Let_def
    by (cases "pick_first_entity q s2") auto
  then show ?thesis using s1(1) inv1 calm1 by (simp add: entity_tick_def)
qed

lemma pss_tick_calm:
  assumes inv: "pss_inv X s" and t: "se_sfq (ents s (TD_SE t)) \<noteq> None"
  shows "\<exists>s'. pss_tick_thread K t s = Some s' \<and> calm s s' \<and> pss_inv X s'"
proof -
  note P = pss_invD [OF inv]
  define f where "f = (\<lambda>e s. do { q \<leftarrow> se_sfq (ents s e); entity_tick K q e s })"
  have "\<exists>r st. walkup par_of (each f) (Some (TD_SE t)) s = Some (r, st) \<and> (calm s st \<and> pss_inv X st) \<and>
       (\<forall>x. r = Some x \<longrightarrow> se_sfq (ents s x) \<noteq> None)"
  proof (rule walk_frame [OF P(5)])
    show "\<And>x. Some (TD_SE t) = Some x \<Longrightarrow> se_sfq (ents s x) \<noteq> None" using t by simp
    show "calm s s \<and> pss_inv X s" using inv by simp
    show "\<And>st x. calm s st \<and> pss_inv X st \<Longrightarrow> par_of st x = par_of s x" by (simp add: calm_def same_structD)
    fix x st assume st: "calm s st \<and> pss_inv X st" "se_sfq (ents s x) \<noteq> None"
    then obtain q where q: "se_sfq (ents st x) = Some q" by (auto simp: calm_def same_structD)
    from entity_tick_calm [OF conjunct2 [OF st(1)] q, of K] obtain s' where "entity_tick K q x st = Some s'" "calm st s'"
      "pss_inv X s'" by blast
    then show "\<exists>b st'. each f x st = Some (b, st') \<and> calm s st' \<and> pss_inv X st'"
      using st(1) q calm_trans by (auto simp: each_def f_def)
  qed
  then show ?thesis by (auto simp: pss_tick_thread_def td_to_se_def f_def)
qed

lemma rt_tick_quiet: "quiet s (rt_tick K S t s)"
proof -
  obtain now s1 where c: "cpu_clock K s = (now, s1)" by fastforce
  have "quiet s s1" by (rule quiet_cpu_clock [OF c])
  moreover have "quiet s1 (resched_thread t s1)" by simp
  ultimately have "quiet s (resched_thread t s1)" by (rule quiet_trans)
  then show ?thesis using \<open>quiet s s1\<close> c by (auto simp: rt_tick_def Let_def)
qed

lemma sched_tick_ok:
  assumes good: "sched_good K C s" and c: "on_processor K (curthread s) s" and l: "length (cpu_load (rq s)) = 5"
  shows "\<exists>s'. sched_tick K S cnt s = Some s' \<and> sched_good K C s' \<and> on_processor K (curthread s) s' \<and>
    curthread s' = curthread s \<and> runnable s' = runnable s \<and> joined_tds s' = joined_tds s \<and> (\<forall>x. place x s' = place x s)"
proof -
  define s1 where "s1 = s\<lparr>times := sched_time_tick (clks K) (times s)\<rparr>"
  obtain ls where ls: "update_loads (cpu_load (rq s1)) (weight (rq_load (rq s1))) (scast cnt) = Some ls"
    using update_loads_total [of "cpu_load (rq s1)"] l by (auto simp: s1_def)
  define s2 where "s2 = update_rq_clock K (upd_rq (\<lambda>r. r\<lparr>last_cpu_load_tick := scast (ticks s1), cpu_load := ls\<rparr>) s1)"
  have q1: "quiet s s1" by (simp add: s1_def)
  have q2: "quiet s1 (upd_rq (\<lambda>r. r\<lparr>last_cpu_load_tick := scast (ticks s1), cpu_load := ls\<rparr>) s1)" by (simp add: quiet_def)
  have q: "quiet s s2" unfolding s2_def by (rule quiet_trans [OF quiet_trans [OF q1 q2]]) simp
  note Q = quiet_good [OF q]
  have g: "sched_good K C s2" by (rule Q(6) [OF good])
  have ct: "curthread s2 = curthread s" by (simp add: s2_def s1_def frame_simps)
  have j: "joined_tds s2 = joined_tds s" using q by (simp add: joined_tds_def quiet_def)
  have pl: "place x s2 = place x s" for x by (simp add: s2_def s1_def place_def frame_simps)
  let ?t = "curthread s"
  have p: "on_processor K ?t s2" using c quiet_on_processor [OF q] by simp
  have run: "sched_tick K S cnt s = class_sched_tick K S (td_class (threads s2 ?t)) ?t s2"
    using ls by (simp add: sched_tick_def update_cpu_load_def Let_def s1_def [symmetric] s2_def [symmetric] thread_class_def)
  show ?thesis
  proof (cases "td_class (threads s2 ?t)")
    case realtime_class
    have r: "quiet s2 (rt_tick K S ?t s2)" by (rule rt_tick_quiet)
    have "curthread (rt_tick K S ?t s2) = curthread s2"
      by (auto simp: rt_tick_def Let_def cpu_clock_def split_beta resched_thread_def)
    moreover have "joined_tds (rt_tick K S ?t s2) = joined_tds s2" using r by (simp add: joined_tds_def quiet_def)
    moreover have "place x (rt_tick K S ?t s2) = place x s2" for x
      by (auto simp: rt_tick_def Let_def cpu_clock_def split_beta resched_thread_def place_def)
    ultimately show ?thesis using run realtime_class quiet_good [OF r] g p quiet_on_processor [OF r] ct j Q(2) pl by simp
  next
    case pss_class
    have "?t \<noteq> idlethread K" using pss_class sched_goodD(4) [OF g] by (metis sched_class.distinct(5))
    then have "?t \<in> runnable s2" using p pss_class by (auto simp: on_processor_def split: if_splits)
    then have sfq: "se_sfq (ents s2 (TD_SE ?t)) \<noteq> None" by (auto simp: runnable_def)
    obtain X where X: "pss_inv X s2" using sched_goodD(1) [OF g] by (auto simp: pss_good_def)
    obtain s3 where s3: "pss_tick_thread K ?t s2 = Some s3" "calm s2 s3" "pss_inv X s3" using pss_tick_calm [OF X sfq] by blast
    have i3: "\<exists>X. pss_inv X s3" using s3(3) by blast
    note c3 = calm_sched_good [OF g i3 s3(2)] calm_on_processor [OF g i3 s3(2)]
    have "\<forall>x. place x s3 = place x s" using s3(2) books_place [of s3 s2] pl by (simp add: calm_def)
    moreover have "sched_tick K S cnt s = Some s3" "sched_good K C s3" "on_processor K ?t s3" "curthread s3 = ?t"
      "runnable s3 = runnable s" "joined_tds s3 = joined_tds s" using run pss_class s3(1) c3 p ct j Q(2) by simp_all
    ultimately show ?thesis by blast
  next
    case idle_class
    then show ?thesis using run g p ct j Q(2) pl by (simp add: idle_tick_def)
  qed
qed

section \<open>A sane state\<close>

text \<open>
  The state of the scheduler is sane: the queues are, the current thread has the processor and is in the
  state TDS_RUNNING, and every other thread is where its state says: a thread the scheduler holds is in
  the state TDS_RUNQ and on its queue, or on the run queue of the kernel, and a thread it does not hold
  is neither queued nor running.
\<close>

definition sys_inv :: "'q kern \<Rightarrow> ('q \<Rightarrow> tid set) \<Rightarrow> 'q sched \<Rightarrow> bool" where
  "sys_inv K C s \<longleftrightarrow> sched_good K C s \<and> on_processor K (curthread s) s \<and> TD_IS_RUNNING s (curthread s) \<and>
     lined_up {curthread s} s"

lemma sys_invD:
  assumes "sys_inv K C s"
  shows "sched_good K C s" "on_processor K (curthread s) s" "dispatched K (curthread s) s" "lined_up {curthread s} s"
    "TD_IS_RUNNING s (curthread s)"
  using assms by (simp_all add: sys_inv_def dispatched_def)

lemma sys_invI: "sched_good K C s \<Longrightarrow> dispatched K u s \<Longrightarrow> lined_up {u} s \<Longrightarrow> curthread s = u \<Longrightarrow> sys_inv K C s"
  by (auto simp: sys_inv_def dispatched_def)

text \<open>A step that leaves all places alone.\<close>

lemma sys_inv_places:
  assumes inv: "sys_inv K C s" and g: "sched_good K C s'" "on_processor K (curthread s) s'" and pl: "\<forall>x. place x s' = place x s"
    and same: "curthread s' = curthread s" "runnable s' = runnable s" "joined_tds s' = joined_tds s"
  shows "sys_inv K C s'"
proof -
  have "TD_IS_RUNNING s' (curthread s)" using sys_invD(5) [OF inv] pl by (simp add: TD_IS_RUNNING_def place_def)
  moreover have "lined_up {curthread s} s'" using sys_invD(4) [OF inv] lined_up_same [of s' s] pl same by simp
  ultimately show ?thesis using g same(1) by (simp add: sys_inv_def)
qed

text \<open>One in which only threads of the proportional share class may change whether they are boosted.\<close>

lemma sys_inv_stays:
  assumes inv: "sys_inv K C s" and g: "sched_good K C s'" "on_processor K (curthread s') s'" and st: "stays_in_line s s'"
    and c: "curthread s' = curthread s"
  shows "sys_inv K C s'"
  using stays_lined_up [OF sys_invD(1) [OF inv] st sys_invD(4) [OF inv]] sys_invD(5) [OF inv] g st c
  by (simp add: sys_inv_def stays_in_line_def TD_IS_RUNNING_def)

text \<open>In a sane state the state of a thread with a queue says where it is, and only the current one runs.\<close>

lemma settled_ok:
  assumes inv: "sys_inv K C s" and t: "se_sfq (ents s (TD_SE t)) \<noteq> None"
  shows "settled t s"
proof (cases "t = curthread s")
  case True
  have "td_class (threads s t) = pss_class \<Longrightarrow> t \<in> runnable s"
    using sys_invD(2) [OF inv] True sched_goodD(4) [OF sys_invD(1) [OF inv]] by (auto simp: on_processor_def split: if_splits)
  then show ?thesis using sys_invD(5) [OF inv] True by (simp add: settled_def)
next
  case False
  then have "in_line t s" using sys_invD(4) [OF inv] by (simp add: lined_up_def)
  moreover have "t \<in> joined_tds s \<Longrightarrow> td_class (threads s t) = pss_class \<Longrightarrow> t \<in> runnable s"
    using sched_goodD(6) [OF sys_invD(1) [OF inv], of t] by auto
  ultimately show ?thesis using False t
    by (cases "t \<in> joined_tds s")
      (auto simp: settled_def in_line_def TD_IS_RUNNING_def TD_ON_RUNQ_def can_start_def joined_tds_def)
qed

lemma needs_level_cur:
  assumes inv: "sys_inv K C s"
  shows "needs_level t s \<longleftrightarrow> t = curthread s \<and> td_class (threads s t) = pss_class"
proof (cases "t = curthread s")
  case True
  then show ?thesis using sys_invD(5) [OF inv] by (simp add: needs_level_def)
next
  case False
  then have "in_line t s" using sys_invD(4) [OF inv] by (simp add: lined_up_def)
  then show ?thesis using False by (auto simp: needs_level_def TD_IS_RUNNING_def in_line_def split: if_splits)
qed

section \<open>The scheduler as a transition system\<close>

text \<open>
  A waking thread is not queued; a thread that blocks or exits has left the running state, which the
  sleep queues and \<open>thread_exit\<close> of the kernel see to before they switch; a thread whose nice value or
  group changes has a queue, and the nice value is one of the 41; a group that threads are moved to has a
  queue, and a forked thread is not in use; \<open>cpu_load\<close> is an array of five. The counts of queued entities
  fit an \<open>int\<close>.
\<close>

inductive sched_step :: "'q kern \<Rightarrow> slices \<Rightarrow> 'q sched \<Rightarrow> 'q sched \<Rightarrow> bool" for K S where
  Wake: "\<lbrakk>can_start t s; td_class (threads s t) \<noteq> idle_class; sched_wakeup K t s = Some s'\<rbrakk> \<Longrightarrow> sched_step K S s s'"
| Yield: "sched_switch K (sched_choose K) (curthread s) flags s = Some (u, s') \<Longrightarrow> sched_step K S s s'"
| Block: "\<lbrakk>curthread s \<noteq> idlethread K; int_counts s;
    sched_switch K (sched_choose K) (curthread s) flags (set_td_state TDS_INHIBITED (curthread s) s) = Some (u, s')\<rbrakk>
    \<Longrightarrow> sched_step K S s s'"
| Exit: "\<lbrakk>curthread s \<noteq> idlethread K; int_counts s;
    sched_throw K (sched_choose K) (Some (curthread s)) (set_td_state TDS_INACTIVE (curthread s) s) = Some (u, s')\<rbrakk>
    \<Longrightarrow> sched_step K S s s'"
| Nice: "\<lbrakk>distinct ts; \<forall>t\<in>set ts. se_sfq (ents s (TD_SE t)) \<noteq> None; 0 \<le> nice - PRIO_MIN K; nice - PRIO_MIN K \<le> 40;
    queue_room s; sched_nice K old ts nice s = Some s'\<rbrakk> \<Longrightarrow> sched_step K S s s'"
| Fork: "\<lbrakk>in_group g (curthread s) s; se_sfq (ents s (TD_SE (curthread s))) \<noteq> None; unused K child s;
    sched_fork K (curthread s) child s = Some s'\<rbrakk> \<Longrightarrow> sched_step K S s s'"
| Move: "\<lbrakk>distinct ts; \<forall>t\<in>set ts. td_class (threads s t) = pss_class \<and> se_sfq (ents s (TD_SE t)) \<noteq> None \<and> (\<exists>h. in_group h t s);
    joinable g s; queue_room s; fold_opt (move_thread K g) ts s = Some s'\<rbrakk> \<Longrightarrow> sched_step K S s s'"
| Tick: "\<lbrakk>length (cpu_load (rq s)) = 5; sched_tick K S cnt s = Some s'\<rbrakk> \<Longrightarrow> sched_step K S s s'"

inductive sched_reach :: "'q kern \<Rightarrow> slices \<Rightarrow> 'q sched \<Rightarrow> 'q sched \<Rightarrow> bool" for K S s0 where
  Start: "sched_reach K S s0 s0"
| Step: "\<lbrakk>sched_reach K S s0 s; sched_step K S s s'\<rbrakk> \<Longrightarrow> sched_reach K S s0 s'"

lemma wakeup_sys:
  assumes inv: "sys_inv K C s" and K: "runq_laws K C" and t: "can_start t s" "td_class (threads s t) \<noteq> idle_class"
  shows "\<exists>s'. sched_wakeup K t s = Some s' \<and> sys_inv K C s' \<and> joined_tds s' = insert t (joined_tds s) \<and>
    runnable s' = (if td_class (threads s t) = pss_class then insert t (runnable s) else runnable s) \<and> curthread s' = curthread s \<and>
    td_state (threads s' t) = TDS_RUNQ \<and> (td_class (threads s t) = realtime_class \<longrightarrow> t \<in> C (realtime (rq s'))) \<and>
    (\<forall>x. x \<noteq> t \<longrightarrow> place x s' = place x s)"
proof -
  let ?s = "upd_td t (\<lambda>td. td\<lparr>td_canswap := False\<rparr>) s"
  have q: "quiet s ?s" by (rule quiet_td) simp
  have j: "joined_tds ?s = joined_tds s" by (simp add: joined_tds_def)
  have pl: "place x ?s = place x s" for x by (simp add: place_def)
  have f: "runnable ?s = runnable s" "td_class (threads ?s t) = td_class (threads s t)" "curthread ?s = curthread s"
    using quiet_good(2) [OF q] by simp_all
  have g: "sched_good K C ?s" "on_processor K (curthread ?s) ?s" "can_start t ?s" "td_class (threads ?s t) \<noteq> idle_class"
    using sys_invD(1,2) [OF inv] t quiet_good(6) [OF q] quiet_on_processor [OF q] by (simp_all add: can_start_def)
  from sched_add_ok [OF g(1) K g(3,4,2), unfolded j f pl] obtain s' where s': "sched_add K t ?s = Some s'" "sched_good K C s'"
    "joined_tds s' = insert t (joined_tds s)"
    "runnable s' = (if td_class (threads s t) = pss_class then insert t (runnable s) else runnable s)"
    "curthread s' = curthread s" "on_processor K (curthread s) s'" "in_line t s'"
    "td_class (threads s t) = realtime_class \<longrightarrow> t \<in> C (realtime (rq s'))" "\<forall>x. x \<noteq> t \<longrightarrow> place x s' = place x s" by blast
  have nj: "t \<notin> joined_tds s" using t(1) by (simp add: can_start_def joined_tds_def)
  have ct: "t \<noteq> curthread s"
    using sys_invD(2) [OF inv] nj t(2) sched_goodD(4) [OF sys_invD(1) [OF inv]]
    by (auto simp: on_processor_def runnable_def joined_tds_def split: if_splits)
  have st: "td_state (threads s' t) = TDS_RUNQ" using s'(3,7) by (simp add: in_line_def)
  have "lined_up (insert t {curthread s}) s'"
    by (rule lined_up_out [OF sys_invD(4) [OF inv], of t TDS_RUNQ]) (use s'(3,4,9) st in \<open>auto simp: sets_state_def split: if_splits\<close>)
  then have "lined_up {curthread s} s'" using s'(7) by (rule lined_up_in)
  moreover have "TD_IS_RUNNING s' (curthread s)" using sys_invD(5) [OF inv] s'(9) ct by (auto simp: TD_IS_RUNNING_def place_def)
  ultimately have "sys_inv K C s'" using s'(2,5,6) by (simp add: sys_inv_def)
  then show ?thesis using s' st by (auto simp: sched_wakeup_def)
qed

lemma yield_sys:
  assumes inv: "sys_inv K C s" and K: "runq_laws K C" and hz: "0 < hz (clks K)"
  shows "\<exists>u s'. sched_switch K (sched_choose K) (curthread s) flags s = Some (u, s') \<and> sys_inv K C s' \<and> curthread s' = u \<and>
    runnable s' = runnable s \<and> joined_tds s' = joined_tds s"
proof -
  note I = sys_invD [OF inv]
  from sched_switch_running [OF hz I(1) K I(3), of flags] obtain u s' where s':
    "sched_switch K (sched_choose K) (curthread s) flags s = Some (u, s')" "sched_good K C s'" "dispatched K u s'"
    "runnable s' = runnable s" "curthread s' = (if u = curthread s then curthread s else u)" "joined_tds s' = joined_tds s"
    "lined_up {curthread s} s \<longrightarrow> lined_up {u} s'" by blast
  then have u: "curthread s' = u" by (simp split: if_splits)
  have "lined_up {u} s'" using s'(7) I(4) by blast
  from sys_invI [OF s'(2,3) this u] show ?thesis using s'(1,4,6) u by blast
qed

text \<open>The current thread has left the running state.\<close>

lemma leaving:
  assumes inv: "sys_inv K C s" and v: "v \<notin> {TDS_RUNQ, TDS_RUNNING}"
  defines "s1 \<equiv> set_td_state v (curthread s) s"
  shows "sched_good K C s1" "on_processor K (curthread s) s1" "int_counts s1 = int_counts s" "\<not> TD_IS_RUNNING s1 (curthread s)"
    "lined_up {curthread s} s1" "td_state (threads s1 (curthread s)) = v" "runnable s1 = runnable s" "joined_tds s1 = joined_tds s"
    "curthread s1 = curthread s"
proof -
  have q: "quiet s s1" by (simp add: s1_def)
  note Q = quiet_good [OF q] and I = sys_invD [OF inv]
  show "sched_good K C s1" "on_processor K (curthread s) s1" "int_counts s1 = int_counts s" "runnable s1 = runnable s"
    using I Q quiet_on_processor [OF q] by simp_all
  show st: "td_state (threads s1 (curthread s)) = v" "joined_tds s1 = joined_tds s" "curthread s1 = curthread s"
    by (simp_all add: s1_def set_td_state_def joined_tds_def)
  show "\<not> TD_IS_RUNNING s1 (curthread s)" using st(1) v by (simp add: TD_IS_RUNNING_def)
  have "sets_state (curthread s) v s s1" by (simp add: sets_state_def s1_def set_td_state_def place_def)
  from lined_up_out [OF I(4) this] show "lined_up {curthread s} s1" using Q(2) st(2) by simp
qed

lemma block_sys:
  assumes inv: "sys_inv K C s" and K: "runq_laws K C" and hz: "0 < hz (clks K)" and few: "int_counts s"
    and t: "curthread s \<noteq> idlethread K"
  shows "\<exists>u s'. sched_switch K (sched_choose K) (curthread s) flags (set_td_state TDS_INHIBITED (curthread s) s) = Some (u, s') \<and>
    sys_inv K C s' \<and> curthread s' = u \<and> u \<noteq> curthread s \<and> runnable s' = runnable s - {curthread s}"
proof -
  let ?t = "curthread s" and ?s = "set_td_state TDS_INHIBITED (curthread s) s"
  have "TDS_INHIBITED \<notin> {TDS_RUNQ, TDS_RUNNING}" by simp
  note L = leaving [OF inv this]
  have "int_counts ?s" using few L(3) by simp
  from sched_switch_sleeping [OF hz L(1) K this L(4,2) t, of flags] obtain u s' where s':
    "sched_switch K (sched_choose K) ?t flags ?s = Some (u, s')" "sched_good K C s'" "dispatched K u s'"
    "runnable s' = runnable ?s - {?t}" "u \<noteq> ?t" "curthread s' = u"
    "lined_up {?t} ?s \<and> td_state (threads ?s ?t) \<noteq> TDS_RUNQ \<longrightarrow> lined_up {u} s'" by blast
  have "lined_up {u} s'" using s'(7) L(5,6) by simp
  from sys_invI [OF s'(2,3) this s'(6)] show ?thesis using s'(1,4-6) L(7) by auto
qed

lemma exit_sys:
  assumes inv: "sys_inv K C s" and K: "runq_laws K C" and few: "int_counts s" and t: "curthread s \<noteq> idlethread K"
  shows "\<exists>u s'. sched_throw K (sched_choose K) (Some (curthread s)) (set_td_state TDS_INACTIVE (curthread s) s) = Some (u, s') \<and>
    sys_inv K C s' \<and> curthread s' = u \<and> u \<noteq> curthread s \<and> runnable s' = runnable s - {curthread s}"
proof -
  let ?t = "curthread s" and ?s = "set_td_state TDS_INACTIVE (curthread s) s"
  have "TDS_INACTIVE \<notin> {TDS_RUNQ, TDS_RUNNING}" by simp
  note L = leaving [OF inv this]
  have "int_counts ?s" using few L(3) by simp
  from sched_throw_ok [OF L(1) K this L(2) t] obtain u s' where s': "sched_throw K (sched_choose K) (Some ?t) ?s = Some (u, s')"
    "sched_good K C s'" "dispatched K u s'" "runnable s' = runnable ?s - {?t}" "u \<noteq> ?t" "curthread s' = u"
    "lined_up {?t} ?s \<and> td_state (threads ?s ?t) \<notin> {TDS_RUNQ, TDS_RUNNING} \<longrightarrow> lined_up {u} s'" by blast
  have "lined_up {u} s'" using s'(7) L(5,6) by simp
  from sys_invI [OF s'(2,3) this s'(6)] show ?thesis using s'(1,4-6) L(7) by auto
qed

text \<open>
  A change of the nice value, or of the group, of the running thread enters the level of its priority
  into the table of the processors; with a level outside the table the call fails, and it does not
  fail otherwise.
\<close>

lemma nice_sys:
  assumes inv: "sys_inv K C s" and K: "runq_laws K C" and ts: "distinct ts" "\<forall>t\<in>set ts. se_sfq (ents s (TD_SE t)) \<noteq> None"
    and nice: "0 \<le> nice - PRIO_MIN K" "nice - PRIO_MIN K \<le> 40" and room: "queue_room s"
  defines "ok \<equiv> curthread s \<in> set ts \<and> td_class (threads s (curthread s)) = pss_class \<longrightarrow> levels_ready K s"
  shows "sched_nice K old ts nice s \<noteq> None \<longleftrightarrow> ok" "sched_nice K old ts nice s = Some s' \<Longrightarrow> sys_inv K C s'"
proof -
  note I = sys_invD [OF inv]
  have "\<forall>t\<in>set ts. settled t s" using settled_ok [OF inv] ts(2) by blast
  note N = sched_nice_exact [OF I(1) K I(2) room ts(1) this nice, of old]
  have need: "(\<exists>t\<in>set ts. needs_level t s) \<and> \<not> levels_ready K s \<longleftrightarrow> \<not> ok"
    using needs_level_cur [OF inv] by (auto simp: ok_def)
  show "sched_nice K old ts nice s \<noteq> None \<longleftrightarrow> ok" using N need by (cases ok) auto
  assume "sched_nice K old ts nice s = Some s'"
  then show "sys_inv K C s'" using N sys_inv_stays [OF inv] by (auto split: if_splits)
qed

lemma fork_sys:
  assumes inv: "sys_inv K C s" and hz: "0 < hz (clks K)" and g: "in_group g (curthread s) s"
    and "se_sfq (ents s (TD_SE (curthread s))) \<noteq> None" "unused K child s"
  shows "\<exists>s'. sched_fork K (curthread s) child s = Some s' \<and> sys_inv K C s' \<and> can_start child s' \<and> in_group g child s' \<and>
    runnable s' = runnable s \<and> curthread s' = curthread s \<and> td_class (threads s' child) = td_class (threads s (curthread s)) \<and>
    (\<forall>x. weight (se_load (ents s' (TD_SE x))) = weight (se_load (ents s (TD_SE (if x = child then curthread s else x)))))"
proof -
  note I = sys_invD [OF inv]
  from sched_fork_ok [OF hz I(1,2) refl g assms(4,5)] obtain s' where s': "sched_fork K (curthread s) child s = Some s'"
    "sched_good K C s'" "on_processor K (curthread s') s'" "curthread s' = curthread s" "runnable s' = runnable s"
    "joined_tds s' = joined_tds s" "can_start child s'" "in_group g child s'"
    "td_class (threads s' child) = td_class (threads s (curthread s))"
    "\<forall>x. weight (se_load (ents s' (TD_SE x))) = weight (se_load (ents s (TD_SE (if x = child then curthread s else x))))"
    "\<forall>x. place x s' = place x s" by blast
  have "sys_inv K C s'" by (rule sys_inv_places [OF inv s'(2) _ s'(11,4,5,6)]) (use s'(3,4) in simp)
  then show ?thesis using s' by blast
qed

lemma move_sys:
  assumes inv: "sys_inv K C s" and K: "runq_laws K C" and ts: "distinct ts" and g: "joinable g s" and room: "queue_room s"
    and t: "\<forall>t\<in>set ts. td_class (threads s t) = pss_class \<and> se_sfq (ents s (TD_SE t)) \<noteq> None \<and> (\<exists>h. in_group h t s)"
  defines "ok \<equiv> curthread s \<in> set ts \<and> td_group (threads s (curthread s)) \<noteq> Some g \<longrightarrow> levels_ready K s"
  shows "fold_opt (move_thread K g) ts s \<noteq> None \<longleftrightarrow> ok" "fold_opt (move_thread K g) ts s = Some s' \<Longrightarrow> sys_inv K C s'"
proof -
  note I = sys_invD [OF inv]
  have "\<forall>t\<in>set ts. td_class (threads s t) = pss_class \<and> settled t s \<and> (\<exists>h. in_group h t s)"
    using settled_ok [OF inv] t by blast
  note M = move_threads_exact [OF I(1) K I(2) room g ts this]
  have need: "(\<exists>t\<in>set ts. must_move g t s) \<and> \<not> levels_ready K s \<longleftrightarrow> \<not> ok"
    using needs_level_cur [OF inv] t by (auto simp: ok_def must_move_def)
  show "fold_opt (move_thread K g) ts s \<noteq> None \<longleftrightarrow> ok" using M need by (cases ok) auto
  assume "fold_opt (move_thread K g) ts s = Some s'"
  then show "sys_inv K C s'" using M sys_inv_stays [OF inv] by (auto simp: gathered_def split: if_splits)
qed

lemma tick_sys:
  assumes inv: "sys_inv K C s" and l: "length (cpu_load (rq s)) = 5"
  shows "\<exists>s'. sched_tick K S cnt s = Some s' \<and> sys_inv K C s' \<and> curthread s' = curthread s"
proof -
  note I = sys_invD [OF inv]
  from sched_tick_ok [OF I(1,2) l, of S cnt] obtain s' where s': "sched_tick K S cnt s = Some s'" "sched_good K C s'"
    "on_processor K (curthread s) s'" "curthread s' = curthread s" "runnable s' = runnable s" "joined_tds s' = joined_tds s"
    "\<forall>x. place x s' = place x s" by blast
  show ?thesis using s'(1,4) sys_inv_places [OF inv s'(2,3,7,4-6)] by blast
qed

lemma step_sys:
  assumes "sched_step K S s s'" and inv: "sys_inv K C s" and K: "runq_laws K C" and hz: "0 < hz (clks K)"
  shows "sys_inv K C s'"
  using assms(1)
proof (cases rule: sched_step.cases)
  case (Wake t)
  then show ?thesis using wakeup_sys [OF inv K Wake(1,2)] by auto
next
  case (Yield flags u)
  then show ?thesis using yield_sys [OF inv K hz, of flags] by auto
next
  case (Block flags u)
  then show ?thesis using block_sys [OF inv K hz Block(2,1), of flags] by auto
next
  case (Exit u)
  then show ?thesis using exit_sys [OF inv K Exit(2,1)] by auto
next
  case (Nice ts nice old)
  then show ?thesis using nice_sys(2) [OF inv K Nice(1-5)] by blast
next
  case (Fork g child)
  then show ?thesis using fork_sys [OF inv hz Fork(1-3)] by auto
next
  case (Move ts g)
  then show ?thesis using move_sys(2) [OF inv K Move(1,3,4,2)] by blast
next
  case (Tick cnt)
  then show ?thesis using tick_sys [OF inv Tick(1), of S cnt] by auto
qed

lemma reach_sys:
  assumes "sched_reach K S s0 s" "sys_inv K C s0" "runq_laws K C" "0 < hz (clks K)"
  shows "sys_inv K C s"
  using assms by (induction rule: sched_reach.induct) (auto intro: step_sys)

end
