(* ===== verification/Prio_List.thy ===== *)
theory Prio_List
  imports Prelude
begin

text \<open>
  \<open>prio_list.c\<close>: a list of threads by priority. The list links one thread for each priority, and
  that thread's \<open>qhead\<close> queues all threads of the priority, itself first. \<open>pl_head\<close> is the list
  linked by \<open>llink\<close>, \<open>qheads t\<close> the queue of \<open>t\<close> linked by \<open>qlink\<close>, and \<open>pl_prio t\<close> the saved priority.
\<close>

record plist =
  pl_head :: "nat list"
  qheads :: "nat \<Rightarrow> nat list"
  pl_prio :: "nat \<Rightarrow> int"

definition prio_list_init :: "plist \<Rightarrow> plist" where
  "prio_list_init P = P\<lparr>pl_head := []\<rparr>"

definition prio_list_first :: "plist \<Rightarrow> nat option" where
  "prio_list_first P = (case pl_head P of [] \<Rightarrow> None | t # _ \<Rightarrow> Some t)"

definition prio_list_empty :: "plist \<Rightarrow> bool" where
  "prio_list_empty P \<longleftrightarrow> pl_head P = []"

text \<open>The loop stops at the first thread of the same priority (True) or of a greater one (False).\<close>

fun pl_scan :: "(nat \<Rightarrow> int) \<Rightarrow> int \<Rightarrow> nat list \<Rightarrow> (nat \<times> bool) option" where
  "pl_scan pr p [] = None"
| "pl_scan pr p (h # hs) =
     (if pr h = p then Some (h, True) else if pr h > p then Some (h, False) else pl_scan pr p hs)"

definition prio_list_add :: "nat \<Rightarrow> int \<Rightarrow> plist \<Rightarrow> plist" where
  "prio_list_add t td_priority P =
     (let P = P\<lparr>pl_prio := (pl_prio P)(t := td_priority), qheads := (qheads P)(t := [])\<rparr>
      in case pl_scan (pl_prio P) (pl_prio P t) (pl_head P) of
           Some (h, True) \<Rightarrow> P\<lparr>qheads := (qheads P)(h := qheads P h @ [t])\<rparr>
         | Some (h, False) \<Rightarrow> P\<lparr>pl_head := insert_before h t (pl_head P), qheads := (qheads P)(t := t # qheads P t)\<rparr>
         | None \<Rightarrow> P\<lparr>pl_head := pl_head P @ [t], qheads := (qheads P)(t := t # qheads P t)\<rparr>)"

text \<open>
  The walk over \<open>TAILQ_PREV\<close> ends at the first thread of the queue that links \<open>t\<close>; a thread on no
  queue has no such link, and neither has one when KASSERT fails.
\<close>

definition queue_front :: "nat \<Rightarrow> plist \<Rightarrow> nat option" where
  "queue_front t P =
     (case find (\<lambda>h. t \<in> set (qheads P h)) (pl_head P) of None \<Rightarrow> None | Some h \<Rightarrow> Some (hd (qheads P h)))"

definition prio_list_del :: "nat \<Rightarrow> plist \<Rightarrow> plist option" where
  "prio_list_del t P = do {
     h \<leftarrow> queue_front t P;
     let P = P\<lparr>qheads := (qheads P)(h := remove1 t (qheads P h))\<rparr>;
     case qheads P h of
       [] \<Rightarrow> if h = t then Some (P\<lparr>pl_head := remove1 h (pl_head P)\<rparr>) else None
     | nxt # _ \<Rightarrow>
         Some (if t = h
               then let P = P\<lparr>qheads := (qheads P)(h := qheads P nxt, nxt := qheads P h)\<rparr>
                    in P\<lparr>pl_head := remove1 h (insert_before h nxt (pl_head P))\<rparr>
               else P) }"

section \<open>The list it stands for\<close>

definition pl_flat :: "plist \<Rightarrow> nat list" where
  "pl_flat P = concat (map (qheads P) (pl_head P))"

definition pl_inv :: "plist \<Rightarrow> bool" where
  "pl_inv P \<longleftrightarrow> sorted_wrt (\<lambda>a b. pl_prio P a < pl_prio P b) (pl_head P) \<and> distinct (pl_flat P) \<and>
     (\<forall>h\<in>set (pl_head P). (\<exists>q. qheads P h = h # q) \<and> (\<forall>x\<in>set (qheads P h). pl_prio P x = pl_prio P h))"

text \<open>The specification: a list sorted by priority, first come first served among equals.\<close>

definition stable_insert :: "(nat \<Rightarrow> int) \<Rightarrow> nat \<Rightarrow> nat list \<Rightarrow> nat list" where
  "stable_insert pr t xs = takeWhile (\<lambda>x. pr x \<le> pr t) xs @ t # dropWhile (\<lambda>x. pr x \<le> pr t) xs"

lemma stable_insert_split:
  assumes "\<And>x. x \<in> set as \<Longrightarrow> pr x \<le> pr t" "bs \<noteq> [] \<Longrightarrow> pr t < pr (hd bs)"
  shows "stable_insert pr t (as @ bs) = as @ t # bs"
  using assms by (cases bs) (auto simp: stable_insert_def)

lemma pl_scan_split:
  "pl_scan pr p hs = Some (h, b) \<Longrightarrow>
     \<exists>us vs. hs = us @ h # vs \<and> (\<forall>x\<in>set us. pr x < p) \<and> (if b then pr h = p else p < pr h)"
  "pl_scan pr p hs = None \<Longrightarrow> \<forall>x\<in>set hs. pr x < p"
proof (induction hs)
  case (Cons a hs)
  {
    case 1
    consider "pr a = p" | "pr a > p" | "pr a < p" by linarith
    then show ?case
    proof cases
      case 3
      then obtain us vs where "hs = us @ h # vs" "\<forall>x\<in>set us. pr x < p" "if b then pr h = p else p < pr h"
        using 1 Cons.IH(1) by auto
      then show ?thesis using 3 by (intro exI [of _ "a # us"] exI [of _ vs]) simp
    qed (use 1 in \<open>auto intro: exI [of _ "[]"]\<close>)
  next
    case 2
    then show ?case using Cons.IH(2) by (auto split: if_splits)
  }
qed simp_all

text \<open>Only the keys of listed threads matter.\<close>

lemma flat_prio:
  assumes "pl_inv P" "h \<in> set (pl_head P)" "x \<in> set (qheads P h)"
  shows "pl_prio P x = pl_prio P h"
  using assms by (auto simp: pl_inv_def)

lemma pl_invD:
  assumes "pl_inv P" "h \<in> set (pl_head P)"
  shows "qheads P h = h # tl (qheads P h)" "h \<in> set (qheads P h)" "h \<in> set (pl_flat P)"
proof -
  show "qheads P h = h # tl (qheads P h)" "h \<in> set (qheads P h)" using assms by (auto simp: pl_inv_def)
  then show "h \<in> set (pl_flat P)" using assms(2) by (auto simp: pl_flat_def)
qed

lemma sorted_wrt_distinct: "sorted_wrt (\<lambda>a b. f a < (f b :: int)) xs \<Longrightarrow> distinct xs"
  by (induction xs) auto

lemma pl_heads_distinct: "pl_inv P \<Longrightarrow> distinct (pl_head P)"
  by (auto simp: pl_inv_def intro: sorted_wrt_distinct)

text \<open>Adding.\<close>

lemma prio_list_add_ok:
  assumes inv: "pl_inv P" and t: "t \<notin> set (pl_flat P)"
  shows "pl_inv (prio_list_add t p P)"
    "pl_flat (prio_list_add t p P) = stable_insert ((pl_prio P)(t := p)) t (pl_flat P)"
    "pl_prio (prio_list_add t p P) = (pl_prio P)(t := p)"
proof -
  let ?pr = "(pl_prio P)(t := p)" and ?hs = "pl_head P" and ?Q = "(qheads P)(t := [])"
  have th: "t \<notin> set ?hs" using pl_invD(3) [OF inv] t by blast
  have tq: "h \<in> set ?hs \<Longrightarrow> t \<notin> set (qheads P h)" for h using t by (auto simp: pl_flat_def)
  have srt: "sorted_wrt (\<lambda>a b. ?pr a < ?pr b) ?hs"
    using inv th by (auto simp: pl_inv_def intro: sorted_wrt_mono_rel [rotated])
  have key: "?pr x \<le> ?pr t"
    if low: "\<forall>x\<in>set us. ?pr x < p" and us: "set us \<subseteq> set ?hs" and x: "x \<in> set (concat (map (qheads P) us))" for us x
  proof -
    obtain u where u: "u \<in> set us" "x \<in> set (qheads P u)" using x by auto
    then have "u \<in> set ?hs" using us by blast
    then have "x \<noteq> t" "u \<noteq> t" "pl_prio P x = pl_prio P u" using u(2) th tq flat_prio [OF inv] by blast+
    then show ?thesis using low u(1) by force
  qed
  have heads: "h \<in> set ?hs \<Longrightarrow> (\<exists>q. qheads P h = h # q) \<and> (\<forall>x\<in>set (qheads P h). ?pr x = ?pr h)" for h
  proof -
    assume h: "h \<in> set ?hs"
    then have "?pr x = ?pr h" if "x \<in> set (qheads P h)" for x
      using flat_prio [OF inv h that] th tq [OF h] that by auto
    moreover have "\<exists>q. qheads P h = h # q" using pl_invD(1) [OF inv h] by blast
    ultimately show ?thesis by blast
  qed
  have dist: "distinct (pl_flat P)" using inv by (simp add: pl_inv_def)
  have "pl_inv (prio_list_add t p P) \<and>
    pl_flat (prio_list_add t p P) = stable_insert ?pr t (pl_flat P) \<and> pl_prio (prio_list_add t p P) = ?pr"
  proof (cases "pl_scan ?pr p ?hs")
    case None
    have lt: "\<forall>x\<in>set ?hs. ?pr x < p" using pl_scan_split(2) [OF None] .
    define P' where "P' = P\<lparr>pl_prio := ?pr, qheads := ?Q(t := [t]), pl_head := ?hs @ [t]\<rparr>"
    have P': "prio_list_add t p P = P'" using None by (simp add: prio_list_add_def P'_def)
    have f: "pl_flat P' = pl_flat P @ [t]" using th by (simp add: P'_def pl_flat_def)
    have "stable_insert ?pr t (pl_flat P @ []) = pl_flat P @ [t]"
      using key [OF lt subset_refl] by (intro stable_insert_split) (unfold pl_flat_def, blast+)
    moreover have "pl_inv P'"
      using srt lt dist t heads th f unfolding pl_inv_def by (auto simp: P'_def sorted_wrt_append)
    ultimately show ?thesis by (simp add: P' f) (simp add: P'_def)
  next
    case (Some hb)
    obtain h b where hb: "hb = (h, b)" by fastforce
    from pl_scan_split(1) [OF Some [unfolded hb]] obtain us vs where s: "?hs = us @ h # vs"
      "\<forall>x\<in>set us. ?pr x < p" "if b then ?pr h = p else p < ?pr h" by blast
    have sub: "set us \<subseteq> set ?hs" "set vs \<subseteq> set ?hs" "h \<in> set ?hs" by (auto simp: s(1))
    have nh: "h \<notin> set us" "h \<notin> set vs" "t \<noteq> h" using pl_heads_distinct [OF inv] th by (auto simp: s(1))
    have vs: "\<forall>x\<in>set vs. ?pr h < ?pr x" using srt by (simp add: s(1) sorted_wrt_append)
    have hdv: "concat (map (qheads P) vs) \<noteq> [] \<Longrightarrow> ?pr h < ?pr (hd (concat (map (qheads P) vs)))"
    proof (cases vs)
      case (Cons v vs')
      then have "qheads P v = v # tl (qheads P v)" using pl_invD(1) [OF inv] sub by auto
      then have "hd (concat (map (qheads P) vs)) = v" using Cons by (metis concat.simps(2) hd_append2 list.distinct(1) list.sel(1) list.simps(9))
      then show ?thesis using vs Cons by simp
    qed simp
    show ?thesis
    proof (cases b)
      case True
      define P' where "P' = P\<lparr>pl_prio := ?pr, qheads := ?Q(h := qheads P h @ [t])\<rparr>"
      have P': "prio_list_add t p P = P'" using Some True hb nh by (simp add: prio_list_add_def P'_def)
      have f: "pl_flat P' = (concat (map (qheads P) us) @ qheads P h) @ t # concat (map (qheads P) vs)"
        using th sub nh by (simp add: P'_def pl_flat_def s(1))
      have f0: "pl_flat P = (concat (map (qheads P) us) @ qheads P h) @ concat (map (qheads P) vs)"
        by (simp add: pl_flat_def s(1))
      have "stable_insert ?pr t (pl_flat P) = pl_flat P'"
        unfolding f f0
      proof (rule stable_insert_split)
        fix x assume "x \<in> set (concat (map (qheads P) us) @ qheads P h)"
        then consider "x \<in> set (concat (map (qheads P) us))" | "x \<in> set (qheads P h)" by auto
        then show "?pr x \<le> ?pr t"
        proof cases
          case 1
          then show ?thesis by (rule key [OF s(2) sub(1)])
        next
          case 2
          then have "?pr x = ?pr h" using heads [OF sub(3)] by blast
          then show ?thesis using s(3) True by simp
        qed
      next
        assume "concat (map (qheads P) vs) \<noteq> []"
        then show "?pr t < ?pr (hd (concat (map (qheads P) vs)))" using hdv s(3) True by simp
      qed
      moreover have "distinct (pl_flat P')" using dist t unfolding f f0 by auto
      moreover have "\<exists>q. qheads P' k = k # q" "\<forall>x\<in>set (qheads P' k). ?pr x = ?pr k" if k: "k \<in> set ?hs" for k
      proof -
        have q: "qheads P' k = (if k = h then qheads P h @ [t] else qheads P k)" using k th by (auto simp: P'_def)
        show "\<exists>q. qheads P' k = k # q" using heads [OF k] by (auto simp: q)
        have "?pr t = ?pr h" using s(3) True by simp
        then show "\<forall>x\<in>set (qheads P' k). ?pr x = ?pr k" using heads [OF k] unfolding q by auto
      qed
      moreover have "pl_head P' = ?hs" "pl_prio P' = ?pr" by (simp_all add: P'_def)
      ultimately have "pl_inv P'" "stable_insert ?pr t (pl_flat P) = pl_flat P'" using srt unfolding pl_inv_def by simp_all
      then show ?thesis by (simp add: P') (simp add: P'_def)
    next
      case False
      define P' where "P' = P\<lparr>pl_prio := ?pr, pl_head := us @ t # h # vs, qheads := ?Q(t := [t])\<rparr>"
      have P': "prio_list_add t p P = P'"
        using Some False hb nh by (simp add: prio_list_add_def P'_def s(1) insert_before_split)
      have f: "pl_flat P' = concat (map (qheads P) us) @ t # (qheads P h @ concat (map (qheads P) vs))"
        using th sub nh by (simp add: P'_def pl_flat_def s(1))
      have f0: "pl_flat P = concat (map (qheads P) us) @ (qheads P h @ concat (map (qheads P) vs))"
        by (simp add: pl_flat_def s(1))
      have "hd (qheads P h @ concat (map (qheads P) vs)) = h"
        using pl_invD(1) [OF inv sub(3)] by (metis append_Cons list.sel(1))
      then have "stable_insert ?pr t (pl_flat P) = pl_flat P'"
        unfolding f f0 using key [OF s(2) sub(1)] s(3) False by (intro stable_insert_split) simp_all
      moreover have "distinct (pl_flat P')" using dist t unfolding f f0 by auto
      moreover have "\<exists>q. qheads P' k = k # q" "\<forall>x\<in>set (qheads P' k). ?pr x = ?pr k" if k: "k \<in> set (pl_head P')" for k
      proof -
        have q: "qheads P' k = (if k = t then [t] else qheads P k)" by (simp add: P'_def)
        have "k = t \<or> k \<in> set ?hs" using k by (auto simp: P'_def s(1))
        then have "(\<exists>q. qheads P' k = k # q) \<and> (\<forall>x\<in>set (qheads P' k). ?pr x = ?pr k)"
        proof (cases "k = t")
          case False
          then show ?thesis using \<open>k = t \<or> k \<in> set ?hs\<close> heads [of k] unfolding q if_not_P [OF False] by blast
        qed (simp add: P'_def)
        then show "\<exists>q. qheads P' k = k # q" "\<forall>x\<in>set (qheads P' k). ?pr x = ?pr k" by blast+
      qed
      moreover have "sorted_wrt (\<lambda>a b. ?pr a < ?pr b) (pl_head P')"
      proof -
        have "pl_head P' = us @ t # h # vs" by (simp add: P'_def)
        moreover have "sorted_wrt (\<lambda>a b. ?pr a < ?pr b) us" "sorted_wrt (\<lambda>a b. ?pr a < ?pr b) vs"
          "\<forall>x\<in>set us. \<forall>y\<in>set vs. ?pr x < ?pr y" "\<forall>x\<in>set us. ?pr x < ?pr h"
          using srt by (simp_all add: s(1) sorted_wrt_append)
        moreover have "?pr t < ?pr h" "?pr t = p" using s(3) False by simp_all
        ultimately show ?thesis using s(2) vs by (fastforce simp: sorted_wrt_append)
      qed
      moreover have "pl_prio P' = ?pr" by (simp add: P'_def)
      ultimately have "pl_inv P'" "stable_insert ?pr t (pl_flat P) = pl_flat P'" unfolding pl_inv_def by simp_all
      then show ?thesis by (simp add: P') (simp add: P'_def)
    qed
  qed
  then show "pl_inv (prio_list_add t p P)"
    "pl_flat (prio_list_add t p P) = stable_insert ?pr t (pl_flat P)"
    "pl_prio (prio_list_add t p P) = ?pr" by blast+
qed

lemma prio_list_first_ok:
  assumes "pl_inv P"
  shows "prio_list_first P = (case pl_flat P of [] \<Rightarrow> None | t # _ \<Rightarrow> Some t)"
    "prio_list_empty P \<longleftrightarrow> pl_flat P = []"
proof -
  have "pl_head P = [] \<or> (\<exists>h hs. pl_head P = h # hs \<and> qheads P h = h # tl (qheads P h))"
    using pl_invD(1) [OF assms] by (cases "pl_head P") auto
  then show "prio_list_first P = (case pl_flat P of [] \<Rightarrow> None | t # _ \<Rightarrow> Some t)"
    "prio_list_empty P \<longleftrightarrow> pl_flat P = []"
    by (auto simp: prio_list_first_def prio_list_empty_def pl_flat_def split: list.splits)
      (metis append_Cons list.inject)
qed

text \<open>Removing.\<close>

lemma queue_front_ok:
  assumes inv: "pl_inv P" and t: "t \<in> set (pl_flat P)"
  shows "\<exists>h. queue_front t P = Some h \<and> h \<in> set (pl_head P) \<and> t \<in> set (qheads P h)"
proof -
  obtain h where "h \<in> set (pl_head P)" "t \<in> set (qheads P h)" using t by (auto simp: pl_flat_def)
  then obtain k where k: "find (\<lambda>h. t \<in> set (qheads P h)) (pl_head P) = Some k"
    by (cases "find (\<lambda>h. t \<in> set (qheads P h)) (pl_head P)") (auto simp: find_None_iff)
  then have "k \<in> set (pl_head P)" "t \<in> set (qheads P k)" by (auto simp: find_Some_iff)
  moreover have "hd (qheads P k) = k" using pl_invD(1) [OF inv \<open>k \<in> set (pl_head P)\<close>] by (metis list.sel(1))
  ultimately show ?thesis using k by (simp add: queue_front_def)
qed

lemma prio_list_del_ok:
  assumes inv: "pl_inv P" and t: "t \<in> set (pl_flat P)"
  shows "\<exists>P'. prio_list_del t P = Some P' \<and> pl_inv P' \<and> pl_flat P' = remove1 t (pl_flat P) \<and> pl_prio P' = pl_prio P"
proof -
  let ?Q = "qheads P"
  obtain h where h: "queue_front t P = Some h" "h \<in> set (pl_head P)" "t \<in> set (?Q h)"
    using queue_front_ok [OF inv t] by blast
  obtain us vs where s: "pl_head P = us @ h # vs" using split_list [OF h(2)] by blast
  have dist: "distinct (pl_flat P)" and dh: "distinct (pl_head P)" using inv pl_heads_distinct by (auto simp: pl_inv_def)
  have nh: "h \<notin> set us" "h \<notin> set vs" using dh by (auto simp: s)
  have flat: "pl_flat P = concat (map ?Q us) @ ?Q h @ concat (map ?Q vs)" by (simp add: pl_flat_def s)
  have tn: "t \<notin> set (concat (map ?Q us))" using dist h(3) unfolding flat by auto
  have rem: "remove1 t (pl_flat P) = concat (map ?Q us) @ remove1 t (?Q h) @ concat (map ?Q vs)"
    unfolding flat using tn h(3) by (simp add: remove1_append)
  have hq: "?Q h = h # tl (?Q h)" by (rule pl_invD(1) [OF inv h(2)])
  have heads: "k \<in> set (pl_head P) \<Longrightarrow> (\<exists>q. ?Q k = k # q) \<and> (\<forall>x\<in>set (?Q k). pl_prio P x = pl_prio P k)" for k
    using inv by (simp add: pl_inv_def)
  have srt: "sorted_wrt (\<lambda>a b. pl_prio P a < pl_prio P b) (us @ h # vs)" using inv by (simp add: pl_inv_def s)
  have drem: "distinct (remove1 t (pl_flat P))" using dist by simp
  consider "t \<noteq> h" | "t = h" "tl (?Q h) = []" | n q where "t = h" "tl (?Q h) = n # q" by (cases "tl (?Q h)") auto
  then show ?thesis
  proof cases
    case 1
    define P' where "P' = P\<lparr>qheads := ?Q(h := remove1 t (?Q h))\<rparr>"
    have r: "remove1 t (?Q h) = h # remove1 t (tl (?Q h))" using 1 by (subst hq) simp
    have "prio_list_del t P = Some P'" using h(1) 1 by (simp add: prio_list_del_def P'_def r)
    moreover have f: "pl_flat P' = remove1 t (pl_flat P)"
      using nh unfolding rem by (simp add: P'_def pl_flat_def s)
    moreover have "(\<exists>q. qheads P' k = k # q) \<and> (\<forall>x\<in>set (qheads P' k). pl_prio P x = pl_prio P k)"
      if "k \<in> set (pl_head P)" for k
    proof (cases "k = h")
      case True
      have e: "qheads P' k = remove1 t (?Q h)" using True by (simp add: P'_def)
      have "\<exists>q. qheads P' k = k # q"
        by (rule exI [of _ "remove1 t (tl (?Q h))"], unfold e r, unfold True, rule refl)
      moreover have "\<forall>x\<in>set (remove1 t (?Q h)). pl_prio P x = pl_prio P k"
        using heads [OF h(2)] True by (auto dest: set_remove1_subset [THEN subsetD])
      ultimately show ?thesis unfolding e by blast
    next
      case False
      then show ?thesis using heads [OF that] by (simp add: P'_def)
    qed
    then have "pl_inv P'" using srt drem f unfolding pl_inv_def by (simp add: P'_def s)
    ultimately show ?thesis by (intro exI [of _ P']) (simp add: P'_def)
  next
    case 2
    have r: "remove1 h (?Q h) = []" using hq 2 by (metis remove1.simps(2))
    define P' where "P' = P\<lparr>qheads := ?Q(h := []), pl_head := us @ vs\<rparr>"
    have "prio_list_del t P = Some P'" using h(1) 2 nh by (simp add: prio_list_del_def P'_def r s remove1_append)
    moreover have f: "pl_flat P' = remove1 t (pl_flat P)"
      using nh 2 r unfolding rem by (simp add: P'_def pl_flat_def)
    moreover have "(\<exists>q. qheads P' k = k # q) \<and> (\<forall>x\<in>set (qheads P' k). pl_prio P x = pl_prio P k)"
      if "k \<in> set (us @ vs)" for k
          proof -
      have "k \<noteq> h" "k \<in> set (pl_head P)" using that nh by (auto simp: s)
      then show ?thesis using heads [of k] by (simp add: P'_def)
    qed
    then have "pl_inv P'" using srt drem f unfolding pl_inv_def by (simp add: P'_def sorted_wrt_append)
    ultimately show ?thesis by (intro exI [of _ P']) (simp add: P'_def)
  next
    case 3
    have r: "remove1 h (?Q h) = n # q" using hq 3 by (metis remove1.simps(2))
    have nq: "n \<in> set (?Q h)" "n \<noteq> h" using hq 3 dist unfolding flat by (metis list.set_intros(1,2), metis distinct.simps(2) distinct_append list.set_intros(1))
    have nn: "n \<notin> set us" "n \<notin> set vs"
    proof -
      have "set us \<union> set vs \<subseteq> set (concat (map ?Q us) @ concat (map ?Q vs))"
        using pl_invD(2) [OF inv] by (auto simp: s)
      moreover have "n \<notin> set (concat (map ?Q us) @ concat (map ?Q vs))" using dist nq(1) unfolding flat by auto
      ultimately show "n \<notin> set us" "n \<notin> set vs" by blast+
    qed
    define P' where "P' = P\<lparr>qheads := ?Q(h := ?Q n, n := n # q), pl_head := us @ n # vs\<rparr>"
    have "remove1 h (insert_before h n (us @ h # vs)) = us @ n # vs"
      using nh nq by (simp add: insert_before_split remove1_append)
    then have "prio_list_del t P = Some P'"
      using h(1) 3 nq by (simp add: prio_list_del_def P'_def r s fun_upd_def Let_def) (auto simp: fun_eq_iff)
    moreover have f: "pl_flat P' = remove1 t (pl_flat P)"
      using nh nn 3 r unfolding rem by (simp add: P'_def pl_flat_def)
    moreover have pn: "pl_prio P n = pl_prio P h" using heads [OF h(2)] nq by blast
    have "(\<exists>q. qheads P' k = k # q) \<and> (\<forall>x\<in>set (qheads P' k). pl_prio P x = pl_prio P k)"
      if k: "k \<in> set (us @ n # vs)" for k
    proof (cases "k = n")
      case True
      have "set (n # q) \<subseteq> set (?Q h)" using r set_remove1_subset by metis
      then show ?thesis using True heads [OF h(2)] pn by (auto simp: P'_def)
    next
      case False
      then have "k \<in> set (pl_head P)" "k \<noteq> h" using k nh by (auto simp: s)
      then show ?thesis using heads [of k] False by (simp add: P'_def)
    qed
    then have "pl_inv P'" using srt drem f pn unfolding pl_inv_def by (simp add: P'_def sorted_wrt_append)
    ultimately show ?thesis by (intro exI [of _ P']) (simp add: P'_def)
  qed
qed

end
