(* ===== verification/Group_Tree.thy ===== *)
theory Group_Tree
  imports Sched_Group
begin

text \<open>
  The tree of groups: identifiers are unique, the lists of children and the parent pointers agree,
  and siblings with a name have different ones. Creation and destruction keep it, and the lookup by
  identifier is that of a finite map to which they add and from which they delete.
\<close>

section \<open>The invariant\<close>

definition group_tree :: "'q sched \<Rightarrow> bool" where
  "group_tree s \<longleftrightarrow>
     distinct (all_sched_groups s) \<and> ROOT_GROUP \<in> set (all_sched_groups s) \<and> sg_parent (groups s ROOT_GROUP) = None \<and>
     inj_on (\<lambda>g. sg_id (groups s g)) (set (all_sched_groups s)) \<and>
     (\<forall>g\<in>set (all_sched_groups s). distinct (sg_children (groups s g)) \<and>
        (\<forall>c. c \<in> set (sg_children (groups s g)) \<longleftrightarrow> c \<in> set (all_sched_groups s) \<and> sg_parent (groups s c) = Some g) \<and>
        (\<forall>c d. c \<in> set (sg_children (groups s g)) \<longrightarrow> d \<in> set (sg_children (groups s g)) \<longrightarrow>
           sg_name (groups s c) = sg_name (groups s d) \<longrightarrow> sg_name (groups s c) \<noteq> [] \<longrightarrow> c = d)) \<and>
     (\<forall>g\<in>set (all_sched_groups s). g \<noteq> ROOT_GROUP \<longrightarrow> (\<exists>p\<in>set (all_sched_groups s). sg_parent (groups s g) = Some p))"

lemma group_treeD:
  assumes "group_tree s"
  shows "distinct (all_sched_groups s)" "ROOT_GROUP \<in> set (all_sched_groups s)" "sg_parent (groups s ROOT_GROUP) = None"
    "inj_on (\<lambda>g. sg_id (groups s g)) (set (all_sched_groups s))"
    "g \<in> set (all_sched_groups s) \<Longrightarrow> distinct (sg_children (groups s g))"
    "g \<in> set (all_sched_groups s) \<Longrightarrow>
       c \<in> set (sg_children (groups s g)) \<longleftrightarrow> c \<in> set (all_sched_groups s) \<and> sg_parent (groups s c) = Some g"
    "\<lbrakk>g \<in> set (all_sched_groups s); c \<in> set (sg_children (groups s g)); d \<in> set (sg_children (groups s g));
      sg_name (groups s c) = sg_name (groups s d); sg_name (groups s c) \<noteq> []\<rbrakk> \<Longrightarrow> c = d"
    "\<lbrakk>g \<in> set (all_sched_groups s); g \<noteq> ROOT_GROUP\<rbrakk> \<Longrightarrow> \<exists>p\<in>set (all_sched_groups s). sg_parent (groups s g) = Some p"
  using assms unfolding group_tree_def by blast+

lemma group_treeI:
  assumes "distinct (all_sched_groups s)" "set (all_sched_groups s) = G" "ROOT_GROUP \<in> G" "sg_parent (groups s ROOT_GROUP) = None"
    "inj_on (\<lambda>g. sg_id (groups s g)) G"
    "\<And>g. g \<in> G \<Longrightarrow> distinct (sg_children (groups s g)) \<and>
       (\<forall>c. c \<in> set (sg_children (groups s g)) \<longleftrightarrow> c \<in> G \<and> sg_parent (groups s c) = Some g)"
    "\<And>g c d. \<lbrakk>g \<in> G; c \<in> set (sg_children (groups s g)); d \<in> set (sg_children (groups s g));
      sg_name (groups s c) = sg_name (groups s d); sg_name (groups s c) \<noteq> []\<rbrakk> \<Longrightarrow> c = d"
    "\<And>g. \<lbrakk>g \<in> G; g \<noteq> ROOT_GROUP\<rbrakk> \<Longrightarrow> \<exists>p\<in>G. sg_parent (groups s g) = Some p"
  shows "group_tree s"
  using assms(1,3-) unfolding group_tree_def assms(2) by blast

lemma group_find: "group_tree s \<Longrightarrow> sched_group_find n s = Some g \<longleftrightarrow> g \<in> set (all_sched_groups s) \<and> sg_id (groups s g) = n"
  unfolding sched_group_find_def by (rule find_distinct) (simp add: group_treeD distinct_map)

lemma group_find_None: "sched_group_find n s = None \<longleftrightarrow> (\<forall>g\<in>set (all_sched_groups s). sg_id (groups s g) \<noteq> n)"
  by (auto simp: sched_group_find_def find_None_iff)

text \<open>What the tree depends on.\<close>

definition tree_fields :: "sched_group \<Rightarrow> int \<times> string \<times> gid option \<times> gid list" where
  "tree_fields r = (sg_id r, sg_name r, sg_parent r, sg_children r)"

lemma group_tree_cong:
  assumes "all_sched_groups s' = all_sched_groups s"
    and eq: "\<And>g. g \<in> set (all_sched_groups s) \<Longrightarrow> tree_fields (groups s' g) = tree_fields (groups s g)"
  shows "group_tree s' = group_tree s" "sched_group_find n s' = sched_group_find n s"
proof -
  let ?G = "set (all_sched_groups s)"
  have f: "sg_id (groups s' g) = sg_id (groups s g)" "sg_name (groups s' g) = sg_name (groups s g)"
    "sg_parent (groups s' g) = sg_parent (groups s g)" "sg_children (groups s' g) = sg_children (groups s g)" if "g \<in> ?G" for g
    using eq [OF that] by (simp_all add: tree_fields_def)
  have i: "inj_on (\<lambda>g. sg_id (groups s' g)) ?G = inj_on (\<lambda>g. sg_id (groups s g)) ?G" using f(1) by (simp cong: inj_on_cong)
  show "group_tree s' = group_tree s"
  proof (cases "ROOT_GROUP \<in> ?G")
    case True
    have c: "(\<forall>c. c \<in> set (sg_children (groups s g)) \<longleftrightarrow> c \<in> ?G \<and> sg_parent (groups s' c) = Some g) \<longleftrightarrow>
        (\<forall>c. c \<in> set (sg_children (groups s g)) \<longleftrightarrow> c \<in> ?G \<and> sg_parent (groups s c) = Some g)" for g
      using f(3) by metis
    show ?thesis
      unfolding group_tree_def assms(1) i
      using True f c by (smt (verit, ccfv_threshold))
  qed (simp add: group_tree_def assms(1))
  show "sched_group_find n s' = sched_group_find n s"
    unfolding sched_group_find_def assms(1) by (rule find_cong) (simp_all add: f)
qed

section \<open>Creation\<close>

text \<open>The allocators return memory that is not in use and an identifier that is not.\<close>

definition fresh_alloc :: "group_alloc \<Rightarrow> 'q sched \<Rightarrow> bool" where
  "fresh_alloc A s \<longleftrightarrow> (\<forall>n. al_group A = Some n \<longrightarrow> ZONE_GROUP n \<notin> set (all_sched_groups s)) \<and>
     (\<forall>g\<in>set (all_sched_groups s). sg_id (groups s g) \<noteq> al_id A)"

lemma upd_all:
  "all_sched_groups (upd_g g f s) = all_sched_groups s" "all_sched_groups (upd_q q k s) = all_sched_groups s"
  "all_sched_groups (upd_se e h s) = all_sched_groups s" "all_sched_groups (upd_rq u s) = all_sched_groups s"
  by (simp_all add: upd_g_def upd_q_def upd_se_def upd_rq_def)

lemma alloc_groups:
  assumes "pss_alloc_sched_group a b g p sh s = (ok, s')"
  shows "all_sched_groups s' = all_sched_groups s" "x \<noteq> g \<Longrightarrow> groups s' x = groups s x"
    "tree_fields (groups s' g) = tree_fields (groups s g)" "ok \<longleftrightarrow> a \<noteq> None \<and> b \<noteq> None"
  using assms by (auto simp: pss_alloc_sched_group_def Let_def sfq_init_def pss_init_group_def tree_fields_def upd_all
      split: option.splits)

definition param_name :: "(string \<times> u32) option \<Rightarrow> string" where
  "param_name param = (case param of None \<Rightarrow> [] | Some (nm, _) \<Rightarrow> nm)"

lemma create_fields:
  assumes "sched_group_create A parent param s = (r, s')" "al_group A = Some n" "parent \<noteq> ZONE_GROUP n"
  shows "r = None \<Longrightarrow> all_sched_groups s' = all_sched_groups s \<and> (\<forall>x. x \<noteq> ZONE_GROUP n \<longrightarrow> groups s' x = groups s x)"
    "r \<noteq> None \<Longrightarrow> r = Some (ZONE_GROUP n) \<and> all_sched_groups s' = all_sched_groups s @ [ZONE_GROUP n] \<and>
       tree_fields (groups s' (ZONE_GROUP n)) = (al_id A, param_name param, Some parent, []) \<and>
       (\<forall>x. x \<noteq> ZONE_GROUP n \<longrightarrow> x \<noteq> parent \<longrightarrow> groups s' x = groups s x) \<and>
       tree_fields (groups s' parent) = (sg_id (groups s parent), sg_name (groups s parent), sg_parent (groups s parent),
          sg_children (groups s parent) @ [ZONE_GROUP n])"
    "r \<noteq> None \<longleftrightarrow> al_sfq A \<noteq> None \<and> al_se A \<noteq> None"
proof -
  define s1 where "s1 = upd_g (ZONE_GROUP n) (\<lambda>r. r\<lparr>sg_parent := Some parent, sg_children := [], sg_threads := []\<rparr>)
     (case param of None \<Rightarrow> upd_g (ZONE_GROUP n) (\<lambda>_. zero_group) s
      | Some (name, _) \<Rightarrow> upd_g (ZONE_GROUP n) (\<lambda>r. r\<lparr>sg_name := name\<rparr>) (upd_g (ZONE_GROUP n) (\<lambda>_. zero_group) s))"
  define sh where "sh = (case param of None \<Rightarrow> 0 | Some (_, sh) \<Rightarrow> sh)"
  obtain ok s2 where s2: "pss_alloc_sched_group (al_sfq A) (al_se A) (ZONE_GROUP n) parent sh s1 = (ok, s2)" by fastforce
  note L = alloc_groups [OF s2]
  have s1: "all_sched_groups s1 = all_sched_groups s" "x \<noteq> ZONE_GROUP n \<Longrightarrow> groups s1 x = groups s x"
    "tree_fields (groups s1 (ZONE_GROUP n)) = (0, param_name param, Some parent, [])" for x
    by (auto simp: s1_def upd_all tree_fields_def zero_group_def param_name_def split: option.splits)
  define s3 where "s3 = upd_g (ZONE_GROUP n) (\<lambda>r. r\<lparr>sg_id := al_id A, sg_parent := Some parent\<rparr>) s2"
  have run: "sched_group_create A parent param s = (if \<not> ok then (None, s2) else (Some (ZONE_GROUP n),
       upd_g parent (\<lambda>r. r\<lparr>sg_children := sg_children r @ [ZONE_GROUP n]\<rparr>) s3
         \<lparr>all_sched_groups := all_sched_groups s3 @ [ZONE_GROUP n]\<rparr>))"
    using s2 assms(2) unfolding s1_def sh_def s3_def
    by (cases param) (auto simp: sched_group_create_def Let_def free_sched_group_def pss_free_sched_group_def upd_all)
  show "r = None \<Longrightarrow> all_sched_groups s' = all_sched_groups s \<and> (\<forall>x. x \<noteq> ZONE_GROUP n \<longrightarrow> groups s' x = groups s x)"
    using run assms(1) L s1 by (auto split: if_splits)
  show "r \<noteq> None \<longleftrightarrow> al_sfq A \<noteq> None \<and> al_se A \<noteq> None"
    using run assms(1) L(4) by (auto split: if_splits)
  assume "r \<noteq> None"
  then have r: "ok" "r = Some (ZONE_GROUP n)"
    "s' = upd_g parent (\<lambda>r. r\<lparr>sg_children := sg_children r @ [ZONE_GROUP n]\<rparr>) s3\<lparr>all_sched_groups := all_sched_groups s3 @ [ZONE_GROUP n]\<rparr>"
    using run assms(1) by (auto split: if_splits)
  have "tree_fields (groups s3 (ZONE_GROUP n)) = (al_id A, param_name param, Some parent, [])"
    using L(3) s1(3) by (simp add: s3_def tree_fields_def)
  moreover have "all_sched_groups s3 = all_sched_groups s" "x \<noteq> ZONE_GROUP n \<Longrightarrow> groups s3 x = groups s x" for x
    using L(1,2) s1 by (simp_all add: s3_def upd_all)
  ultimately show "r = Some (ZONE_GROUP n) \<and> all_sched_groups s' = all_sched_groups s @ [ZONE_GROUP n] \<and>
       tree_fields (groups s' (ZONE_GROUP n)) = (al_id A, param_name param, Some parent, []) \<and>
       (\<forall>x. x \<noteq> ZONE_GROUP n \<longrightarrow> x \<noteq> parent \<longrightarrow> groups s' x = groups s x) \<and>
       tree_fields (groups s' parent) = (sg_id (groups s parent), sg_name (groups s parent), sg_parent (groups s parent),
          sg_children (groups s parent) @ [ZONE_GROUP n])"
    using assms(3) by (simp add: r tree_fields_def upd_all)
qed

lemma tree_fieldsD:
  assumes "tree_fields r = (i, nm, p, cs)"
  shows "sg_id r = i" "sg_name r = nm" "sg_parent r = p" "sg_children r = cs"
  using assms by (simp_all add: tree_fields_def)

lemma create_tree:
  assumes tree: "group_tree s" and p: "parent \<in> set (all_sched_groups s)" and n: "al_group A = Some n"
    and fresh: "fresh_alloc A s"
    and nm: "param_name param = [] \<or> sched_group_find_by_name parent (param_name param) s = None"
    and run: "sched_group_create A parent param s = (Some g, s')"
  shows "group_tree s'" "g = ZONE_GROUP n" "set (all_sched_groups s') = insert g (set (all_sched_groups s))"
    "(\<lambda>k. sched_group_find k s') = (\<lambda>k. sched_group_find k s)(al_id A \<mapsto> g)"
proof -
  let ?g = "ZONE_GROUP n" and ?G = "set (all_sched_groups s)"
  have gn: "?g \<notin> ?G" using fresh n by (simp add: fresh_alloc_def)
  then have pg: "parent \<noteq> ?g" using p by blast
  note F = create_fields(2) [OF run n pg, simplified]
  show g: "g = ?g" and all: "set (all_sched_groups s') = insert g ?G" using F by auto
  have new: "tree_fields (groups s' ?g) = (al_id A, param_name param, Some parent, [])" using F by blast
  note N = tree_fieldsD [OF new]
  have par: "tree_fields (groups s' parent) = (sg_id (groups s parent), sg_name (groups s parent), sg_parent (groups s parent),
      sg_children (groups s parent) @ [?g])" using F by blast
  note P = tree_fieldsD [OF par]
  have old: "groups s' x = groups s x" if "x \<noteq> ?g" "x \<noteq> parent" for x using F that by blast
  have O: "sg_id (groups s' x) = sg_id (groups s x)" "sg_name (groups s' x) = sg_name (groups s x)"
    "sg_parent (groups s' x) = sg_parent (groups s x)"
    "sg_children (groups s' x) = (if x = parent then sg_children (groups s x) @ [?g] else sg_children (groups s x))"
    if "x \<noteq> ?g" for x
    using old [OF that] P by (cases "x = parent"; simp)+
  have all': "all_sched_groups s' = all_sched_groups s @ [?g]" using F by blast
  note T = group_treeD [OF tree]
  have ne: "x \<noteq> ?g" if "x \<in> ?G" for x using that gn by blast
  have kid: "?g \<notin> set (sg_children (groups s x))" if "x \<in> ?G" for x using T(6) [OF that] gn by blast
  have nparent: "sg_parent (groups s c) \<noteq> Some ?g" if "c \<in> ?G" for c
    using T(3) T(8) [OF that] gn by (cases "c = ROOT_GROUP") auto
  have id: "sg_id (groups s x) \<noteq> al_id A" if "x \<in> ?G" for x using fresh that by (simp add: fresh_alloc_def)
  have inj: "inj_on (\<lambda>g. sg_id (groups s' g)) (insert ?g ?G)"
  proof -
    have "inj_on (\<lambda>g. sg_id (groups s' g)) ?G = inj_on (\<lambda>g. sg_id (groups s g)) ?G"
      by (rule inj_on_cong) (simp add: O(1) ne)
    moreover have "sg_id (groups s' ?g) \<notin> (\<lambda>g. sg_id (groups s' g)) ` ?G"
      using id O(1) ne N(1) by (metis (no_types, lifting) imageE)
    ultimately show ?thesis using T(4) gn by simp
  qed
  have root: "sg_parent (groups s' ROOT_GROUP) = None" using T(2,3) O(3) [OF ne] by metis
  have kids: "distinct (sg_children (groups s' x)) \<and>
      (\<forall>c. c \<in> set (sg_children (groups s' x)) \<longleftrightarrow> c \<in> insert ?g ?G \<and> sg_parent (groups s' c) = Some x)" if x: "x \<in> insert ?g ?G" for x
  proof (cases "x = ?g")
    case True
    have "sg_parent (groups s' c) \<noteq> Some ?g" if "c \<in> insert ?g ?G" for c
      using that N(3) pg nparent O(3) ne by (cases "c = ?g") auto
    then show ?thesis using True N(4) by auto
  next
    case False
    then have xG: "x \<in> ?G" using x by blast
    have d: "distinct (sg_children (groups s' x))" using O(4) [OF False] T(5) [OF xG] kid [OF xG] by (cases "x = parent") simp_all
    have "c \<in> set (sg_children (groups s' x)) \<longleftrightarrow> c \<in> insert ?g ?G \<and> sg_parent (groups s' c) = Some x" for c
    proof (cases "c = ?g")
      case True
      then show ?thesis using O(4) [OF False] kid [OF xG] N(3) by auto
    next
      case c: False
      then show ?thesis using O(4) [OF False] T(6) [OF xG, of c] O(3) [OF c] c by (cases "x = parent") simp_all
    qed
    then show ?thesis using d by blast
  qed
  have uniq: "c = d" if x: "x \<in> insert ?g ?G" and cd: "c \<in> set (sg_children (groups s' x))" "d \<in> set (sg_children (groups s' x))"
    and e: "sg_name (groups s' c) = sg_name (groups s' d)" "sg_name (groups s' c) \<noteq> []" for x c d
  proof -
    have x': "x \<noteq> ?g" using cd(1) N(4) by auto
    then have xG: "x \<in> ?G" using x by blast
    have other: False if a: "a \<in> set (sg_children (groups s' x))" "a \<noteq> ?g" and g: "?g \<in> set (sg_children (groups s' x))"
      and eq: "sg_name (groups s' a) = sg_name (groups s' ?g)" "sg_name (groups s' a) \<noteq> []" for a
    proof -
      have "?g \<in> insert ?g ?G \<and> sg_parent (groups s' ?g) = Some x"
        by (rule iffD1 [OF spec [OF conjunct2 [OF kids [OF x]]] g])
      then have "x = parent" using N(3) by simp
      then have "a \<in> set (sg_children (groups s parent))" using a O(4) [OF x'] by simp
      moreover have "sg_name (groups s a) = param_name param" using eq(1) N(2) O(2) [OF a(2)] by simp
      ultimately show False using nm eq(2) O(2) [OF a(2)] by (auto simp: sched_group_find_by_name_def find_None_iff)
    qed
    consider "c = ?g" "d = ?g" | "c = ?g" "d \<noteq> ?g" | "c \<noteq> ?g" "d = ?g" | "c \<noteq> ?g" "d \<noteq> ?g" by blast
    then show ?thesis
    proof cases
      case 4
      then have "c \<in> set (sg_children (groups s x))" "d \<in> set (sg_children (groups s x))"
        using cd O(4) [OF x'] by (auto split: if_splits)
      then show ?thesis using T(7) [OF xG] e O(2) 4 by metis
    qed (use other cd e in metis)+
  qed
  have up: "\<exists>p\<in>insert ?g ?G. sg_parent (groups s' x) = Some p" if "x \<in> insert ?g ?G" "x \<noteq> ROOT_GROUP" for x
    using that T(8) N(3) p O(3) by (cases "x = ?g") auto
  show tree': "group_tree s'"
  proof (rule group_treeI [where G = "insert ?g ?G"])
    show "distinct (all_sched_groups s')" "set (all_sched_groups s') = insert ?g ?G" "ROOT_GROUP \<in> insert ?g ?G"
      using all' T(1,2) gn by auto
  qed (fact root inj kids uniq up)+
  show "(\<lambda>k. sched_group_find k s') = (\<lambda>k. sched_group_find k s)(al_id A \<mapsto> g)"
  proof (intro ext option_eqI)
    fix k x
    have "sched_group_find k s' = Some x \<longleftrightarrow> x \<in> insert ?g ?G \<and> sg_id (groups s' x) = k"
      using group_find [OF tree'] all' by auto
    also have "\<dots> \<longleftrightarrow> (if al_id A = k then x = ?g else sched_group_find k s = Some x)"
      using group_find [OF tree] id N(1) O(1) ne by auto
    also have "\<dots> \<longleftrightarrow> ((\<lambda>k. sched_group_find k s)(al_id A \<mapsto> g)) k = Some x" by (auto simp: g)
    finally show "sched_group_find k s' = Some x \<longleftrightarrow> ((\<lambda>k. sched_group_find k s)(al_id A \<mapsto> g)) k = Some x" .
  qed
qed

lemma create_failed:
  assumes tree: "group_tree s" and fresh: "fresh_alloc A s" and p: "parent \<in> set (all_sched_groups s)"
    and run: "sched_group_create A parent param s = (None, s')"
  shows "group_tree s'" "all_sched_groups s' = all_sched_groups s" "sched_group_find k s' = sched_group_find k s"
proof -
  have "all_sched_groups s' = all_sched_groups s \<and>
      (\<forall>g\<in>set (all_sched_groups s). tree_fields (groups s' g) = tree_fields (groups s g))"
  proof (cases "al_group A")
    case None
    then show ?thesis using run by (simp add: sched_group_create_def)
  next
    case (Some n)
    then have gn: "ZONE_GROUP n \<notin> set (all_sched_groups s)" using fresh by (simp add: fresh_alloc_def)
    then have "parent \<noteq> ZONE_GROUP n" using p by blast
    from create_fields(1) [OF run Some this, simplified] gn show ?thesis by metis
  qed
  then show "group_tree s'" "all_sched_groups s' = all_sched_groups s" "sched_group_find k s' = sched_group_find k s"
    using group_tree_cong [of s' s] tree by simp_all
qed

section \<open>Destruction\<close>

lemma destroy_busy:
  "sg_children (groups s g) \<noteq> [] \<or> sg_threads (groups s g) \<noteq> [] \<Longrightarrow> sched_group_destroy g s = Some (Some EBUSY, s)"
  by (auto simp: sched_group_destroy_def)

lemma destroy_root:
  "\<lbrakk>group_tree s; sg_children (groups s ROOT_GROUP) = []; sg_threads (groups s ROOT_GROUP) = []\<rbrakk> \<Longrightarrow>
    sched_group_destroy ROOT_GROUP s = None"
  using group_treeD(3) [of s]
  by (auto simp: sched_group_destroy_def pss_unregister_sched_group_def pss_free_sched_group_def del_leaf_sfq_def
      split: Option.bind_splits)

lemma destroy_tree:
  assumes tree: "group_tree s" and g: "g \<in> set (all_sched_groups s)" "g \<noteq> ROOT_GROUP"
    and e: "sg_children (groups s g) = []" "sg_threads (groups s g) = []" and q: "sg_sfq (groups s g) \<noteq> None"
  shows "\<exists>s'. sched_group_destroy g s = Some (None, s') \<and> group_tree s' \<and>
    set (all_sched_groups s') = set (all_sched_groups s) - {g} \<and>
    (\<lambda>k. sched_group_find k s') = (\<lambda>k. sched_group_find k s)(sg_id (groups s g) := None)"
proof -
  note T = group_treeD [OF tree]
  obtain p where p: "sg_parent (groups s g) = Some p" "p \<in> set (all_sched_groups s)" using T(8) [OF g] by blast
  obtain r where r: "sg_sfq (groups s g) = Some r" using q by blast
  let ?G = "set (all_sched_groups s)"
  define s' where "s' = upd_g p (\<lambda>r. r\<lparr>sg_children := remove1 g (sg_children r)\<rparr>) (del_leaf_sfq r s)
    \<lparr>all_sched_groups := remove1 g (all_sched_groups s)\<rparr>"
  have gr: "groups (del_leaf_sfq r s) = groups s" "all_sched_groups (del_leaf_sfq r s) = all_sched_groups s"
    by (simp_all add: del_leaf_sfq_def upd_all)
  have run: "sched_group_destroy g s = Some (None, s')"
    using e p r by (simp add: sched_group_destroy_def pss_unregister_sched_group_def pss_free_sched_group_def gr s'_def Let_def upd_all)
  have all': "set (all_sched_groups s') = ?G - {g}" "distinct (all_sched_groups s')"
    using T(1) by (simp_all add: s'_def)
  have O: "sg_id (groups s' x) = sg_id (groups s x)" "sg_name (groups s' x) = sg_name (groups s x)"
    "sg_parent (groups s' x) = sg_parent (groups s x)" for x by (simp_all add: s'_def gr)
  have C: "set (sg_children (groups s' x)) = set (sg_children (groups s x)) - {g} \<and> distinct (sg_children (groups s' x))"
    if x: "x \<in> ?G" for x
  proof (cases "x = p")
    case True
    then show ?thesis using T(5) [OF x] by (simp add: s'_def gr)
  next
    case False
    then have "g \<notin> set (sg_children (groups s x))" using T(6) [OF x, of g] p(1) by simp
    then show ?thesis using False T(5) [OF x] by (simp add: s'_def gr)
  qed
  have tree': "group_tree s'"
  proof -
    have i: "inj_on (\<lambda>g. sg_id (groups s' g)) (?G - {g})" using T(4) by (simp add: O inj_on_diff)
    have up: "\<exists>p\<in>?G - {g}. sg_parent (groups s' x) = Some p" if x: "x \<in> ?G - {g}" "x \<noteq> ROOT_GROUP" for x
    proof -
      obtain px where px: "sg_parent (groups s x) = Some px" "px \<in> ?G" using T(8) x by blast
      have "px \<noteq> g" using T(6) [OF g(1), of x] e(1) px x by auto
      then show ?thesis using px O by auto
    qed
    have c: "distinct (sg_children (groups s' x)) \<and>
        (\<forall>c. c \<in> set (sg_children (groups s' x)) \<longleftrightarrow> c \<in> ?G - {g} \<and> sg_parent (groups s' c) = Some x)" if x: "x \<in> ?G - {g}" for x
      using C T(6) x O(3) by auto
    have u: "c = d" if "x \<in> ?G - {g}" "c \<in> set (sg_children (groups s' x))" "d \<in> set (sg_children (groups s' x))"
      "sg_name (groups s' c) = sg_name (groups s' d)" "sg_name (groups s' c) \<noteq> []" for x c d
      using T(7) [of x c d] that C by (simp add: O(2))
    show ?thesis
    proof (rule group_treeI [OF all'(2,1)])
      show "ROOT_GROUP \<in> ?G - {g}" "sg_parent (groups s' ROOT_GROUP) = None" using T(2,3) g(2) O(3) by auto
    qed (fact i c u up)+
  qed
  have "sched_group_find k s' = Some x \<longleftrightarrow> ((\<lambda>k. sched_group_find k s)(sg_id (groups s g) := None)) k = Some x" for k x
  proof -
    have "sched_group_find k s' = Some x \<longleftrightarrow> x \<in> ?G \<and> x \<noteq> g \<and> sg_id (groups s x) = k"
      using group_find [OF tree', of k x] all'(1) O(1) by auto
    also have "\<dots> \<longleftrightarrow> k \<noteq> sg_id (groups s g) \<and> sched_group_find k s = Some x"
      using group_find [OF tree, of k x] inj_onD [OF T(4), of x g] g(1) by auto
    finally show ?thesis by simp
  qed
  then have "(\<lambda>k. sched_group_find k s') = (\<lambda>k. sched_group_find k s)(sg_id (groups s g) := None)"
    by (intro ext option_eqI) blast
  then show ?thesis using run tree' all'(1) by blast
qed

section \<open>The handlers\<close>

lemma sysctl_create_ok:
  assumes tree: "group_tree s" and fresh: "fresh_alloc A s"
    and run: "sysctl_sched_group_create A sz req s = (err, out, s')"
  shows "group_tree s'"
    "sched_group_find k s \<noteq> None \<Longrightarrow> sched_group_find k s' = sched_group_find k s"
    "out = Some n \<Longrightarrow> sched_group_find n s = None \<and> sched_group_find n s' \<noteq> None \<and> n = al_id A"
proof -
  have "s' = s \<and> out = None \<or> (\<exists>parent child. sched_group_create A parent (rq_new req) s = (child, s') \<and>
      parent \<in> set (all_sched_groups s) \<and>
      (param_name (rq_new req) = [] \<or> sched_group_find_by_name parent (param_name (rq_new req)) s = None) \<and>
      out = map_option (\<lambda>g. sg_id (groups s' g)) child)"
  proof (cases "rq_name req")
    case (Some name)
    show ?thesis
    proof (cases "sched_group_find name s")
      case None
      then show ?thesis using run Some by (auto simp: sysctl_sched_group_create_def split: if_splits)
    next
      case (Some parent)
      have pG: "parent \<in> set (all_sched_groups s)" using Some group_find [OF tree] by blast
      obtain child s1 where c: "sched_group_create A parent (rq_new req) s = (child, s1)" by fastforce
      have "s' = s \<and> out = None \<or> s' = s1 \<and> out = map_option (\<lambda>g. sg_id (groups s' g)) child \<and>
          (param_name (rq_new req) = [] \<or> sched_group_find_by_name parent (param_name (rq_new req)) s = None)"
        using run Some \<open>rq_name req = Some name\<close> c
        by (cases "rq_new req"; cases child) (auto simp: sysctl_sched_group_create_def param_name_def split: if_splits)
      then show ?thesis using c pG by blast
    qed
  qed (use run in \<open>simp add: sysctl_sched_group_create_def\<close>)
  then consider "s' = s" "out = None"
    | parent child where "sched_group_create A parent (rq_new req) s = (child, s')" "parent \<in> set (all_sched_groups s)"
        "param_name (rq_new req) = [] \<or> sched_group_find_by_name parent (param_name (rq_new req)) s = None"
        "out = map_option (\<lambda>g. sg_id (groups s' g)) child"
    by blast
  then have "group_tree s' \<and> (sched_group_find k s \<noteq> None \<longrightarrow> sched_group_find k s' = sched_group_find k s) \<and>
    (out = Some n \<longrightarrow> sched_group_find n s = None \<and> sched_group_find n s' \<noteq> None \<and> n = al_id A)"
  proof cases
    case 1
    then show ?thesis using tree by simp
  next
    case (2 parent child)
    show ?thesis
    proof (cases child)
      case None
      then show ?thesis using 2 create_failed [OF tree fresh 2(2)] by simp
    next
      case (Some g)
      obtain m where m: "al_group A = Some m" using 2(1) Some by (cases "al_group A") (auto simp: sched_group_create_def)
      note c = create_tree [OF tree 2(2) m fresh 2(3) 2(1) [unfolded Some]]
      have new: "sched_group_find (al_id A) s = None" using fresh by (auto simp: fresh_alloc_def group_find_None)
      have f: "sched_group_find k s' = (if k = al_id A then Some g else sched_group_find k s)" for k
        using fun_cong [OF c(4), of k] by simp
      then have "sg_id (groups s' g) = al_id A" using group_find [OF c(1), of "al_id A" g] by simp
      then show ?thesis using c(1) f new 2(4) Some by auto
    qed
  qed
  then show "group_tree s'" "sched_group_find k s \<noteq> None \<Longrightarrow> sched_group_find k s' = sched_group_find k s"
    "out = Some n \<Longrightarrow> sched_group_find n s = None \<and> sched_group_find n s' \<noteq> None \<and> n = al_id A" by blast+
qed

end
