(* ===== verification/Example.thy ===== *)
theory Example
  imports Sched_System Prio_List Group_Tree
begin

text \<open>
  A concrete kernel and a concrete state, on which the properties with hypotheses are shown to
  apply: the root group and one group of it (\<open>ZONE_GROUP 0\<close>, entity \<open>ZONE_SE 0\<close>, queue
  \<open>ZONE_SFQ 0\<close>). Threads 0 to 3 belong to the root group, all others to the second one. Nothing is
  queued. The external run queue is a list of threads; the counter ticks at one gigahertz, a
  thousand ticks per reading.
\<close>

definition K0 :: "tid list kern" where
  "K0 = \<lparr>PUSER = 120, PRI_MAX = 255, PRI_MIN_KERN = 80, PRI_MIN_TIMESHARE = 120, PRI_MAX_TIMESHARE = 223,
     PZERO = 100, PSOCK = 104, prio_boost = 100, FSHIFT = 11, PRI_ITHD = 1, PRI_REALTIME = 2, PRI_TIMESHARE = 3, PRI_IDLE = 4, PRI_FIFO_BIT = 8,
     PRIO_MIN = - 20, SW_TYPE_MASK = 255, SWT_RELINQUISH = 3, SWT_PREEMPT = 64,
     runq_add = (\<lambda>r t p front. if front then t # r else r @ [t]), runq_remove = (\<lambda>r t. removeAll t r),
     runq_choose = head_opt, runq_init = [], idlethread = 2, cold_boot = False,
     clks = \<lparr>cpu_ticks = (\<lambda>n. 1000 * of_nat n), nanouptime = (\<lambda>n. \<lparr>tv_sec = 0, tv_nsec = 1000 * int n\<rparr>),
             cpu_tickrate = 1000000000, hz = 1000\<rparr>\<rparr>"

definition load0 :: load_weight where
  "load0 = \<lparr>weight = 0, inv_weight = 0\<rparr>"

definition nice0 :: load_weight where
  "nice0 = \<lparr>weight = 1024, inv_weight = 0\<rparr>"

fun home :: "eid \<Rightarrow> (qid \<times> eid option) option" where
  "home (TD_SE t) = Some (if t < 4 then (RQ_SFQ, None) else (ZONE_SFQ 0, Some (ZONE_SE 0)))"
| "home (ZONE_SE n) = (if n = 0 then Some (RQ_SFQ, None) else None)"

definition ent0 :: "eid \<Rightarrow> sched_entity" where
  "ent0 e = \<lparr>onsfq = False, onrunq = False, vruntime = 0, timing_start = 0, sum_exec_time = 0,
     prev_sum_exec_time = 0, se_initial = False, joined = False, se_load = nice0,
     se_parent = (case home e of Some (q, p) \<Rightarrow> p | None \<Rightarrow> None), se_sfq = map_option fst (home e),
     my_q = (if e = ZONE_SE 0 then Some (ZONE_SFQ 0) else None)\<rparr>"

definition sfq0 :: "qid \<Rightarrow> sfq" where
  "sfq0 q = \<lparr>tl_root = None, leftmost = None, curr = None, skip = None, sfq_next = None, sfq_last = None,
     vtime = 0, nr_running = 0, sfq_load = load0,
     sfq_group = (if q = RQ_SFQ then Some ROOT_GROUP else if q = ZONE_SFQ 0 then Some (ZONE_GROUP 0) else None),
     on_leaf_list = False\<rparr>"

definition group0 :: "gid \<Rightarrow> sched_group" where
  "group0 g = \<lparr>sg_id = (if g = ROOT_GROUP then 0 else 1), sg_name = (if g = ROOT_GROUP then ''0'' else ''1''),
     sg_se = (if g = ZONE_GROUP 0 then Some (ZONE_SE 0) else None),
     sg_sfq = (if g = ROOT_GROUP then Some RQ_SFQ else if g = ZONE_GROUP 0 then Some (ZONE_SFQ 0) else None),
     sg_shares = 1024, sg_parent = (if g = ZONE_GROUP 0 then Some ROOT_GROUP else None),
     sg_children = (if g = ROOT_GROUP then [ZONE_GROUP 0] else []), sg_threads = []\<rparr>"

definition thread0 :: "tid \<Rightarrow> thread" where
  "thread0 t = \<lparr>td_priority = (if t = 2 then 255 else if t = 3 then 90 else 160), td_base_pri = 160, td_user_pri = 160, td_base_user_pri = 160,
     td_lend_user_pri = 255, td_pri_class = (if t = 2 then 4 else if t = 3 then 2 else 3), td_state = (if t = 2 then TDS_RUNNING else TDS_CAN_RUN), td_needresched = False,
     td_sliceend = False, td_borrowing = False, td_noload = False, td_idletd = (t = 2), td_canswap = False,
     td_suspended = False, td_on_lock = False, td_owepreempt = False, td_oncpu = False, td_slptick = 0,
     p_nice = 0, td_class = (if t = 2 then idle_class else if t = 3 then realtime_class else pss_class), td_group = Some (if t < 4 then ROOT_GROUP else ZONE_GROUP 0),
     ts_bound = False, td_pinned = 0, ts_ticks = 0, ts_ltick = 0, ts_ftick = 0, ts_cpu = 0\<rparr>"

definition s0 :: "tid list sched" where
  "s0 = \<lparr>threads = thread0, ents = ent0, tlinks = (\<lambda>e. \<lparr>rbe_left = None, rbe_right = None, rbe_parent = None, rbe_color = RB_BLACK\<rparr>),
     sfqs = sfq0, groups = group0,
     rq = \<lparr>rq_nr_running = 0, rq_nr_sysrunning = 0, realtime = [], rt_curr = None, rq_load = load0,
           rq_clock = 0, clock_thread = 0, switchcnt = 0, leaf_sfq_list = [],
           cpu_load = [0, 0, 0, 0, 0], last_cpu_load_tick = 0\<rparr>,
     curthread = 2, tun = default_tunables,
     times = \<lparr>cpu_time_stable = True, st_tick_ns = 1000000, sched_time_running = True, cputick2nsec_scale = 1024,
              timedata = (\<lambda>c. \<lparr>tick_cpu_time = 0, tick_sys_time = 0, st_time = 0\<rparr>), st_cpuid = 0, st_reads = 0\<rparr>,
     ticks = 0, all_sched_groups = [ROOT_GROUP, ZONE_GROUP 0],
     root_cpupri = cpupri_init [0]\<rparr>"

definition plist0 :: plist where
  "plist0 = \<lparr>pl_head = [1, 3], qheads = (\<lambda>h. if h = 1 then [1, 2] else [h]),
     pl_prio = (\<lambda>t. if t \<le> 2 then 5 else 7)\<rparr>"

abbreviation X0 :: "qid \<Rightarrow> eid list" where
  "X0 \<equiv> (\<lambda>q. [])"

lemma s0_simps [simp]:
  "ents s0 = ent0" "sfqs s0 = sfq0" "groups s0 = group0" "threads s0 = thread0" "tun s0 = default_tunables"
  "curthread s0 = 2" "rq_nr_running (rq s0) = 0"
  by (simp_all add: s0_def)

lemma ent0_simps [simp]:
  "onsfq (ent0 e) = False" "onrunq (ent0 e) = False" "joined (ent0 e) = False" "vruntime (ent0 e) = 0"
  "se_load (ent0 e) = nice0" "weight nice0 = 1024"
  "se_parent (ent0 (TD_SE t)) = (if t < 4 then None else Some (ZONE_SE 0))" "se_parent (ent0 (ZONE_SE n)) = None"
  "se_sfq (ent0 (TD_SE t)) = Some (if t < 4 then RQ_SFQ else ZONE_SFQ 0)"
  "se_sfq (ent0 (ZONE_SE n)) = (if n = 0 then Some RQ_SFQ else None)"
  "my_q (ent0 (TD_SE t)) = None" "my_q (ent0 (ZONE_SE n)) = (if n = 0 then Some (ZONE_SFQ 0) else None)"
  by (simp_all add: ent0_def nice0_def)

lemma sfq0_simps [simp]:
  "tl_root (sfq0 q) = None" "leftmost (sfq0 q) = None" "curr (sfq0 q) = None" "skip (sfq0 q) = None"
  "sfq_next (sfq0 q) = None" "sfq_last (sfq0 q) = None" "vtime (sfq0 q) = 0" "nr_running (sfq0 q) = 0"
  "sfq_load (sfq0 q) = load0" "weight load0 = 0"
  "sfq_group (sfq0 RQ_SFQ) = Some ROOT_GROUP" "sfq_group (sfq0 (ZONE_SFQ 0)) = Some (ZONE_GROUP 0)"
  by (simp_all add: sfq0_def load0_def)

lemma group0_simps [simp]:
  "sg_se (group0 ROOT_GROUP) = None" "sg_se (group0 (ZONE_GROUP n)) = (if n = 0 then Some (ZONE_SE 0) else None)"
  "sg_sfq (group0 ROOT_GROUP) = Some RQ_SFQ" "sg_shares (group0 g) = 1024"
  "sg_parent (group0 g) = (if g = ZONE_GROUP 0 then Some ROOT_GROUP else None)"
  by (simp_all add: group0_def)

lemma chain0: "\<exists>es. chain (par_of s0) (Some e) es"
proof (cases e)
  case (TD_SE t)
  then show ?thesis
    by (intro exI [of _ "if t < 4 then [e] else [e, ZONE_SE 0]"]) simp
next
  case (ZONE_SE n)
  then show ?thesis by (intro exI [of _ "[e]"]) simp
qed

lemma hier0: "hier_wf s0"
proof -
  have "thread_ok s0 e \<and>
        (case se_parent (ents s0 e) of
           None \<Rightarrow> q = RQ_SFQ
         | Some p \<Rightarrow> q \<noteq> RQ_SFQ \<and> my_q (ents s0 p) = Some q \<and> se_sfq (ents s0 p) \<noteq> None) \<and>
        (\<exists>g. sfq_group (sfqs s0 q) = Some g \<and> sg_se (groups s0 g) = se_parent (ents s0 e) \<and>
           (\<forall>pg. sg_parent (groups s0 g) = Some pg \<longrightarrow> sg_sfq (groups s0 pg) \<noteq> None))" if "se_sfq (ents s0 e) = Some q" for e q
  proof (cases e)
    case (TD_SE t)
    with that show ?thesis by (cases "t < 4") (auto simp: thread_ok_def)
  next
    case (ZONE_SE n)
    with that show ?thesis by (cases "n = 0") (auto simp: thread_ok_def entity_is_thread_def)
  qed
  then show ?thesis using chain0 unfolding hier_wf_def by simp
qed

lemma mem0 [simp]: "mem X0 s0 = X0"
  by (simp add: fun_eq_iff mem_def cur_list_def)

lemma queue_inv0: "queue_inv X0 s0"
proof -
  have "tl_rep h None []" for h :: "eid \<Rightarrow> eid rb_entry" using tl.rep_emp .
  then have "tl_inv X0 s0" by (simp add: tl_inv_def tlq_def tl.cached_def)
  then show ?thesis
    by (simp add: queue_inv_def hier0 cur_inv_def join_inv_def acct_def wsum_def cand_inv_def group_inv_def)
      (simp add: load_inv_def s0_def)
qed

section \<open>The scheduler at rest\<close>

lemma runq0: "runq_laws K0 set"
proof -
  have "(head_opt r = None) = (r = [])" "head_opt r = Some t \<longrightarrow> t \<in> set r" for r :: "tid list" and t
    by (cases r; simp)+
  then show ?thesis by (auto simp: runq_laws_def K0_def)
qed

lemma clock0 [simp]: "0 < hz (clks K0)" "hz (clks K0) < 2 ^ 32" "idlethread K0 = 2"
  by (simp_all add: K0_def)

lemma depth0: "depth_le s0 2"
  unfolding depth_le_def
proof (intro allI impI)
  fix e es
  assume c: "chain (par_of s0) (Some e) es"
  have "chain (par_of s0) (Some e) (case e of TD_SE t \<Rightarrow> if t < 4 then [e] else [e, ZONE_SE 0] | ZONE_SE n \<Rightarrow> [e])"
    by (simp split: eid.split)
  then have "es = (case e of TD_SE t \<Rightarrow> if t < 4 then [e] else [e, ZONE_SE 0] | ZONE_SE n \<Rightarrow> [e])"
    by (rule chain_unique [OF c])
  then show "length es \<le> 2" by (simp split: eid.split)
qed

lemma tree0: "tree_wf s0"
proof -
  have "\<exists>g. sfq_group (sfq0 r) = Some g \<and> sg_se (group0 g) = Some e" if "my_q (ent0 e) = Some r" for e r
    using that by (cases e) (auto split: if_splits)
  then show ?thesis using depth0 unfolding tree_wf_def by auto
qed

lemma pss_inv0: "pss_inv X0 s0"
proof -
  have "weight_ok (sg_shares (group0 g))" for g by (simp add: weight_ok_def)
  then show ?thesis
    using tree0 queue_inv0 by (simp add: pss_inv_def up_inv_def full_inv_def run_inv_def wt_inv_def)
qed

lemma idle0: "idle_queues s0" "joined_tds s0 = {}" "runnable s0 = {}"
  by (simp_all add: idle_queues_def joined_tds_def runnable_def)

lemma pss_good0: "pss_good s0"
  using pss_inv0 idle0 by (auto simp: pss_good_def weight_ok_def)

lemma sched_good0: "sched_good K0 set s0"
proof -
  have "realtime (rq s0) = []" by (simp add: s0_def)
  then have "agree set s0" by (simp add: agree_def)
  then show ?thesis using pss_good0 idle0 by (simp add: sched_good_def thread0_def)
qed

lemma sys0: "sys_inv K0 set s0"
proof -
  have "lined_up {2} s0" using idle0(2) by (simp add: lined_up_def in_line_def thread0_def)
  then show ?thesis using sched_good0 idle0 by (simp add: sys_inv_def on_processor_def TD_IS_RUNNING_def thread0_def)
qed

section \<open>A few steps\<close>

text \<open>
  Thread 0 wakes (\<open>s1\<close>), then thread 5 of the other group (\<open>s2\<close>); or the idle thread gives way
  to thread 0 (\<open>s3\<close>), and thread 5 wakes while it runs (\<open>s4\<close>).
\<close>

definition s1 :: "tid list sched" where "s1 = the (sched_wakeup K0 0 s0)"
definition s2 :: "tid list sched" where "s2 = the (sched_wakeup K0 5 s1)"
definition s3 :: "tid list sched" where "s3 = snd (the (sched_switch K0 (sched_choose K0) 2 0 s1))"
definition s4 :: "tid list sched" where "s4 = the (sched_wakeup K0 5 s3)"

lemma wakeup_the:
  assumes "sys_inv K0 set s" "can_start t s" "td_class (threads s t) \<noteq> idle_class"
  shows "sched_wakeup K0 t s = Some (the (sched_wakeup K0 t s))" "sys_inv K0 set (the (sched_wakeup K0 t s))"
    "joined_tds (the (sched_wakeup K0 t s)) = insert t (joined_tds s)"
proof -
  obtain s' where "sched_wakeup K0 t s = Some s'" "sys_inv K0 set s'" "joined_tds s' = insert t (joined_tds s)"
    using wakeup_sys [OF assms(1) runq0 assms(2,3)] by blast
  then show "sched_wakeup K0 t s = Some (the (sched_wakeup K0 t s))" "sys_inv K0 set (the (sched_wakeup K0 t s))"
    "joined_tds (the (sched_wakeup K0 t s)) = insert t (joined_tds s)" by simp_all
qed

lemma sys1: "sched_wakeup K0 0 s0 = Some s1" "sys_inv K0 set s1" "joined_tds s1 = {0}"
proof -
  have "can_start 0 s0" by (simp add: can_start_def)
  from wakeup_the [OF sys0 this] idle0 show "sched_wakeup K0 0 s0 = Some s1" "sys_inv K0 set s1" "joined_tds s1 = {0}"
    by (simp_all add: s1_def thread0_def)
qed

lemma facts1: "can_start 5 s1" "td_class (threads s1 5) = pss_class" "td_class (threads s1 0) = pss_class"
  "curthread s1 = 2" "TD_IS_RUNNING s1 2" "map_option fst (sched_switch K0 (sched_choose K0) 2 0 s1) = Some 0"
  unfolding can_start_def by code_simp+

lemma runnable_only:
  assumes "sys_inv K0 set s" "joined_tds s = A" "\<And>t. t \<in> A \<Longrightarrow> td_class (threads s t) = pss_class"
  shows "runnable s = A"
proof -
  have "runnable s \<subseteq> joined_tds s" by (auto simp: runnable_def joined_tds_def)
  moreover have "t \<in> runnable s" if "t \<in> A" for t
    using assms that sched_goodD(6) [of K0 set s t] by (auto simp: sys_inv_def)
  ultimately show ?thesis using assms(2) by blast
qed

lemma run1: "runnable s1 = {0}" "idle_queues s1"
proof -
  show r: "runnable s1 = {0}" by (rule runnable_only [OF sys1(2,3)]) (use facts1(3) in simp)
  then show "idle_queues s1" using sys1(2) facts1(4) by (simp add: sys_inv_def on_processor_def)
qed

lemma sys2: "sys_inv K0 set s2" "joined_tds s2 = {0, 5}" "runnable s2 = {0, 5}" "idle_queues s2"
proof -
  have c: "td_class (threads s1 5) \<noteq> idle_class" using facts1(2) by simp
  note w = wakeup_the [OF sys1(2) facts1(1) c, folded s2_def]
  show i: "sys_inv K0 set s2" and j: "joined_tds s2 = {0, 5}" using w sys1(3) by auto
  have "td_class (threads s2 0) = pss_class" "td_class (threads s2 5) = pss_class" "curthread s2 = 2" by code_simp+
  then show r: "runnable s2 = {0, 5}" using runnable_only [OF i j] by blast
  then show "idle_queues s2" using i \<open>curthread s2 = 2\<close> by (simp add: sys_inv_def on_processor_def)
qed

lemma sys3: "sched_switch K0 (sched_choose K0) 2 0 s1 = Some (0, s3)" "sys_inv K0 set s3" "curthread s3 = 0" "runnable s3 = {0}"
  "on_cpu 0 s3" "TD_IS_RUNNING s3 0"
proof -
  from yield_sys [OF sys1(2) runq0 clock0(1), of 0] obtain u s' where s':
    "sched_switch K0 (sched_choose K0) 2 0 s1 = Some (u, s')" "sys_inv K0 set s'" "curthread s' = u" "runnable s' = {0}"
    using facts1(4) run1 by auto
  moreover have "u = 0" "s3 = s'" using s'(1) facts1(6) by (simp_all add: s3_def)
  ultimately show s3: "sched_switch K0 (sched_choose K0) 2 0 s1 = Some (0, s3)" "sys_inv K0 set s3" "curthread s3 = 0"
    "runnable s3 = {0}" by simp_all
  show "on_cpu 0 s3" using s3(2-4) by (simp add: sys_inv_def on_processor_def)
  show "TD_IS_RUNNING s3 0" by code_simp
qed

lemma facts3: "can_start 5 s3" "td_class (threads s3 5) = pss_class" "joined (ents s3 (TD_SE 5)) = False"
  unfolding can_start_def by code_simp+

lemma rt3: "can_start 3 s3" "td_class (threads s3 3) = realtime_class"
  unfolding can_start_def by code_simp+

section \<open>What the steps reach\<close>

definition S0 :: slices where "S0 = sched_initticks (clks K0)"

lemma reach3: "sched_reach K0 S0 s0 s3"
proof -
  have c: "can_start 0 s0" "td_class (threads s0 0) \<noteq> idle_class" by (simp_all add: can_start_def thread0_def)
  have "sched_reach K0 S0 s0 s1"
    by (rule sched_reach.Step [OF sched_reach.Start sched_step.Wake [OF c sys1(1)]])
  moreover have "sched_step K0 S0 s1 s3" using sys3(1) facts1(4) by (intro sched_step.Yield [of K0 s1 0 0]) simp
  ultimately show ?thesis by (rule sched_reach.Step)
qed

lemma few1: "int_counts s1"
proof -
  have "nr_running (sfqs s1 (ZONE_SFQ n)) < 2 ^ 31" "nr_running (sfqs s1 RQ_SFQ) < 2 ^ 31" for n by code_simp+
  then have "nr_running (sfqs s1 q) < 2 ^ 31" for q by (cases q) blast+
  then show ?thesis by (simp add: int_counts_def)
qed

lemma few3: "int_counts s3"
proof -
  have "nr_running (sfqs s3 (ZONE_SFQ n)) < 2 ^ 31" "nr_running (sfqs s3 RQ_SFQ) < 2 ^ 31" for n by code_simp+
  then have "nr_running (sfqs s3 q) < 2 ^ 31" for q by (cases q) blast+
  then show ?thesis by (simp add: int_counts_def)
qed

lemma good1: "sched_good K0 set s1" "pss_good s1" "rq_nr_running (rq s1) = 1"
proof -
  show g: "sched_good K0 set s1" using sys1(2) by (simp add: sys_inv_def)
  then show "pss_good s1" by (rule sched_goodD)
  show "rq_nr_running (rq s1) = 1" using sched_good_nr [OF g] sys1(3) by simp
qed

lemma good3: "sched_good K0 set s3" "pss_good s3" "dispatched K0 0 s3"
proof -
  show g: "sched_good K0 set s3" using sys3(2) by (simp add: sys_inv_def)
  then show "pss_good s3" by (rule sched_goodD)
  show "dispatched K0 0 s3" using sys3(2,3,6) by (simp add: sys_inv_def dispatched_def)
qed

text \<open>Thread 0 is in the root group and runs, thread 5 is in the other group and on no queue.\<close>

lemma threads3: "td_state (threads s3 5) = TDS_CAN_RUN" "td_priority (threads s3 0) = 160" "cpu_to_pri (root_cpupri s3) 0 = - 1"
  "rq_nr_running (rq s3) = 1" "td_class (threads s3 0) = pss_class" "td_group (threads s3 0) = Some ROOT_GROUP"
  "td_group (threads s3 5) = Some (ZONE_GROUP 0)" "td_pri_class (threads s3 0) = 3" "td_pri_class (threads s3 5) = 3"
  "weight (se_load (ents s3 (TD_SE 0))) = 1024"
  by code_simp+

lemma places3: "se_sfq (ents s3 (TD_SE 0)) = Some RQ_SFQ" "par_of s3 (TD_SE 0) = None"
  "se_sfq (ents s3 (TD_SE 5)) = Some (ZONE_SFQ 0)" "par_of s3 (TD_SE 5) = Some (ZONE_SE 0)"
  "my_q (ents s3 (ZONE_SE 0)) = Some (ZONE_SFQ 0)" "se_sfq (ents s3 (ZONE_SE 0)) = Some RQ_SFQ" "se_sfq (ents s3 (ZONE_SE (Suc n))) = None"
  "onsfq (ents s3 (TD_SE 5)) = False" "curr (sfqs s3 RQ_SFQ) = Some (TD_SE 0)" "curr (sfqs s3 (ZONE_SFQ n)) = None"
  by code_simp+

lemma groups3: "sg_sfq (groups s3 ROOT_GROUP) = Some RQ_SFQ" "sg_se (groups s3 ROOT_GROUP) = None"
  "sg_sfq (groups s3 (ZONE_GROUP 0)) = Some (ZONE_SFQ 0)" "sg_se (groups s3 (ZONE_GROUP 0)) = Some (ZONE_SE 0)"
  "sg_parent (groups s3 (ZONE_GROUP 0)) = Some ROOT_GROUP" "sfq_group (sfqs s3 (ZONE_SFQ 0)) = Some (ZONE_GROUP 0)"
  "sched_group_find 1 s3 = Some (ZONE_GROUP 0)"
  by code_simp+

lemma ready3: "queue_room s3" "levels_ready K0 s3" "settled 0 s3" "settled 5 s3" "joinable (ZONE_GROUP 0) s3"
  "in_group ROOT_GROUP 0 s3" "in_group (ZONE_GROUP 0) 5 s3" "unused K0 5 s3" "joined_tds s3 = {0}"
proof -
  have "card (joined_tds s3) = 1" using sched_good_nr [OF good3(1)] threads3(4) by simp
  then obtain x where x: "joined_tds s3 = {x}" by (auto simp: card_1_singleton_iff)
  moreover have "0 \<in> joined_tds s3" using sys3(4) by (auto simp: runnable_def joined_tds_def)
  ultimately show j: "joined_tds s3 = {0}" by simp
  have sub: "{n. se_sfq (ents s3 (ZONE_SE n)) = Some q} \<subseteq> {0}" for q
  proof
    fix n assume "n \<in> {n. se_sfq (ents s3 (ZONE_SE n)) = Some q}"
    then show "n \<in> {0}" using places3(7) by (cases n) auto
  qed
  have "card {n. se_sfq (ents s3 (ZONE_SE n)) = Some q} < 2147483647" for q
    using card_mono [OF _ sub, of q] by simp
  moreover have "finite {n. se_sfq (ents s3 (ZONE_SE n)) = Some q}" for q using finite_subset [OF sub] by simp
  ultimately show "queue_room s3" unfolding queue_room_def using j by simp
  show "levels_ready K0 s3" using threads3(2,3) sys3(3)
    by (simp add: levels_ready_def Let_def level_ok_def convert_pri_def CPUPRI_NR_def MAX_RT_PRI_def IDLE_PRI_def K0_def)
  show "settled 0 s3" using sys3(3,4,6) by (simp add: settled_def)
  show "settled 5 s3" using facts3(1) sys3(3) threads3(1) by (simp add: settled_def TD_IS_RUNNING_def TD_ON_RUNQ_def)
  show "joinable (ZONE_GROUP 0) s3" using groups3 places3 by (simp add: joinable_def home_ok_def)
  show "in_group ROOT_GROUP 0 s3" "in_group (ZONE_GROUP 0) 5 s3" using threads3 places3 groups3 by (simp_all add: in_group_def)
  have "curr (sfqs s3 q) \<noteq> Some (TD_SE 5)" for q using places3(9,10) by (cases q) simp_all
  then show "unused K0 5 s3" using j sys3(3) places3(8) by (simp add: unused_def outside_def)
qed

text \<open>As \<open>s3\<close>, but thread 0 runs with the kernel priority 100, whose level is not in the table.\<close>

definition s5 :: "tid list sched" where "s5 = upd_td 0 (\<lambda>td. td\<lparr>td_priority := 100\<rparr>) s3"

lemma sys5: "sys_inv K0 set s5" "\<not> levels_ready K0 s5" "queue_room s5" "curthread s5 = 0"
  "se_sfq (ents s5 (TD_SE 0)) \<noteq> None" "td_class (threads s5 0) = pss_class"
proof -
  have q: "quiet s3 s5" unfolding s5_def by (rule quiet_td) simp
  have f: "\<forall>x. td_state (threads s5 x) = td_state (threads s3 x)" "curthread s5 = 0" "ents s5 = ents s3" "root_cpupri s5 = root_cpupri s3"
    "joined_tds s5 = joined_tds s3" "td_class (threads s5 0) = td_class (threads s3 0)"
    using sys3(3) by (simp_all add: s5_def joined_tds_def)
  have "\<forall>x. place x s5 = place x s3" using quiet_place [OF q f(1)] by blast
  then show "sys_inv K0 set s5"
    using sys_inv_places [OF sys3(2) quiet_good(6) [OF q sys_invD(1) [OF sys3(2)]]] sys_invD(2) [OF sys3(2)] quiet_on_processor [OF q]
      quiet_good(2) [OF q] sys3(3) f(2,5) by simp
  show "\<not> levels_ready K0 s5" using f(2)
    by (simp add: levels_ready_def Let_def level_ok_def convert_pri_def CPUPRI_NR_def MAX_RT_PRI_def IDLE_PRI_def K0_def s5_def)
  show "queue_room s5" using ready3(1) by (simp add: queue_room_def f(3,5))
  show "curthread s5 = 0" "se_sfq (ents s5 (TD_SE 0)) \<noteq> None" "td_class (threads s5 0) = pss_class"
    using f places3(1) threads3(5) by simp_all
qed

text \<open>The timelines of a state at rest hold its threads.\<close>

lemma idle_timelines:
  assumes "pss_good s" "idle_queues s" "t \<in> runnable s"
  shows "\<exists>X q. pss_inv X s \<and> TD_SE t \<in> set (X q) \<and> X RQ_SFQ \<noteq> []"
proof -
  obtain X where X: "pss_inv X s" using assms(1) by (auto simp: pss_good_def)
  have m: "mem X s = X" by (rule idle_mem [OF assms(2)])
  have "X RQ_SFQ \<noteq> []" using runnable_empty [OF X assms(2)] assms(3) by blast
  moreover obtain q where "TD_SE t \<in> set (X q)" using assms(3) runnable_mem [OF pss_invD(1) [OF X]] m by auto
  ultimately show ?thesis using X by blast
qed

section \<open>A small tree\<close>

text \<open>The numbers 2, 4 and 6, inserted in this order into an empty tree.\<close>

definition links0 :: "nat \<Rightarrow> nat rb_entry" where
  "links0 = (\<lambda>_. \<lparr>rbe_left = None, rbe_right = None, rbe_parent = None, rbe_color = RB_BLACK\<rparr>)"

lemma tree0_rep: "tl_rep links0 None []"
  by (rule tl.rep_emp)

lemma tree_append:
  assumes "tl_rep h r xs" "x \<notin> set xs" "\<forall>y\<in>set xs. y < (x::nat)"
  shows "\<exists>h' r'. tl_ins (<) x h r = Some (xs = [], h', r') \<and> tl_rep h' r' (xs @ [x])"
proof -
  obtain h' r' ys zs where i: "tl_ins (<) x h r = Some (ys = [], h', r')" "xs = ys @ zs" "tl_rep h' r' (ys @ x # zs)"
    "zs \<noteq> [] \<longrightarrow> x < hd zs" using tl.ins_ok [OF assms(1,2)] by blast
  have "zs = []" using i(2,4) assms(3) by (cases zs) auto
  then show ?thesis using i by auto
qed

lemma tree246: "\<exists>h r. tl_rep h r [2, 4, 6::nat]"
proof -
  obtain h r where 1: "tl_rep h r [2::nat]" using tree_append [OF tree0_rep, of 2] by auto
  obtain h r where 2: "tl_rep h r [2, 4::nat]" using tree_append [OF 1, of 4] by auto
  show ?thesis using tree_append [OF 2, of 6] by auto
qed

section \<open>Clocks\<close>

text \<open>Two processors whose counter is not stable, 10 nanoseconds apart.\<close>

definition times0 :: time_state where
  "times0 = \<lparr>cpu_time_stable = False, st_tick_ns = 1000000, sched_time_running = True, cputick2nsec_scale = 1024,
     timedata = (\<lambda>c. \<lparr>tick_cpu_time = 0, tick_sys_time = 50, st_time = if c = 0 then 60 else 70\<rparr>), st_cpuid = 0, st_reads = 0\<rparr>"

section \<open>Groups\<close>

text \<open>What the allocators return for a third group, and the group's parameters.\<close>

definition alloc0 :: group_alloc where
  "alloc0 = \<lparr>al_group = Some 1, al_sfq = Some 1, al_se = Some 1, al_id = 2\<rparr>"

lemma group_tree0: "group_tree s0"
  by (auto simp: group_tree_def s0_def group0_def)

lemma fresh0: "fresh_alloc alloc0 s0"
  by (auto simp: fresh_alloc_def alloc0_def s0_def group0_def)

lemma create0: "\<exists>s. sched_group_create alloc0 ROOT_GROUP (Some (''new'', 2048)) s0 = (Some (ZONE_GROUP 1), s)"
  by (simp add: sched_group_create_def alloc0_def pss_alloc_sched_group_def Let_def)

end
