(* ===== verification/Sched_Prio.thy ===== *)
theory Sched_Prio
  imports Sched
begin

text \<open>
  Priorities: setting, lending and giving back (\<open>sched_prio\<close>, \<open>sched_lend_prio\<close>,
  \<open>sched_unlend_prio\<close>, \<open>sched_lend_user_prio\<close>, \<open>sched_userret\<close>). The classes move a queued thread
  whose priority rises; here only the priorities are followed.
\<close>

section \<open>The change of a priority\<close>

text \<open>What a change of the priority of \<open>t\<close> leaves alone, and when the assertions of the classes hold.\<close>

definition other_pris :: "thread \<Rightarrow> int \<times> int \<times> int \<times> int \<times> bool \<times> td_state \<times> sched_class \<times> bool" where
  "other_pris td = (td_base_pri td, td_user_pri td, td_base_user_pri td, td_lend_user_pri td, td_borrowing td,
     td_state td, td_class td, td_on_lock td)"

definition only_priority :: "tid \<Rightarrow> 'q sched \<Rightarrow> 'q sched \<Rightarrow> bool" where
  "only_priority t s s' \<longleftrightarrow> sfqs s' = sfqs s \<and> tlinks s' = tlinks s \<and> groups s' = groups s \<and>
     (\<forall>e. e \<noteq> TD_SE t \<longrightarrow> ents s' e = ents s e) \<and> vruntime (ents s' (TD_SE t)) = vruntime (ents s (TD_SE t)) \<and>
     (\<forall>x. other_pris (threads s' x) = other_pris (threads s x)) \<and>
     (\<forall>x. x \<noteq> t \<longrightarrow> td_priority (threads s' x) = td_priority (threads s x))"

definition flag_ok :: "tid \<Rightarrow> 'q sched \<Rightarrow> bool" where
  "flag_ok t s \<longleftrightarrow> td_class (threads s t) \<noteq> idle_class \<and>
     (td_class (threads s t) = realtime_class \<and> TD_ON_RUNQ s t \<longrightarrow> onrunq (ents s (TD_SE t)))"

lemma preempt_pris:
  "td_priority (threads (check_priority_preempt K t s) x) = td_priority (threads s x)"
  "other_pris (threads (check_priority_preempt K t s) x) = other_pris (threads s x)"
  by (auto simp: check_priority_preempt_def Let_def resched_thread_def preempt_thread_def other_pris_def)

lemmas preempt_fields = preempt_pris(1) preempt_pris(2) [unfolded other_pris_def prod.inject]

lemma change_priority_ok:
  assumes "flag_ok t s"
  shows "\<exists>s'. class_change_priority K (thread_class s t) t prio s = Some s' \<and> only_priority t s s' \<and>
    td_priority (threads s' t) = prio \<and> flag_ok t s'"
proof (cases "td_class (threads s t)")
  case realtime_class
  then show ?thesis using assms
    by (auto simp: TD_ON_RUNQ_def thread_class_def rt_change_priority_def flag_ok_def only_priority_def preempt_fields other_pris_def
        td_to_se_def frame_simps Let_def)
next
  case pss_class
  then show ?thesis
    by (auto simp: flag_ok_def thread_class_def pss_change_priority_def only_priority_def preempt_fields other_pris_def td_to_se_def
        runq_enqueue_def runq_dequeue_def frame_simps Let_def)
next
  case idle_class
  then show ?thesis using assms by (simp add: flag_ok_def)
qed

lemma only_priority_refl [simp, intro]: "only_priority t s s"
  by (simp add: only_priority_def)

lemma thread_priority_ok:
  assumes "flag_ok t s"
  shows "\<exists>s'. sched_thread_priority K t prio s = Some s' \<and> only_priority t s s' \<and> td_priority (threads s' t) = prio \<and> flag_ok t s'"
  using change_priority_ok [OF assms, of K prio] assms by (auto simp: sched_thread_priority_def)

lemma only_priorityD:
  assumes "only_priority t s s'"
  shows "td_base_pri (threads s' x) = td_base_pri (threads s x)" "td_user_pri (threads s' x) = td_user_pri (threads s x)"
    "td_base_user_pri (threads s' x) = td_base_user_pri (threads s x)" "td_borrowing (threads s' x) = td_borrowing (threads s x)"
    "td_lend_user_pri (threads s' x) = td_lend_user_pri (threads s x)" "td_on_lock (threads s' x) = td_on_lock (threads s x)"
    "td_class (threads s' x) = td_class (threads s x)" "td_state (threads s' x) = td_state (threads s x)"
  using assms by (simp_all add: only_priority_def other_pris_def)

section \<open>Lending\<close>

text \<open>The priority a thread has of its own.\<close>

definition own_pri :: "'q kern \<Rightarrow> thread \<Rightarrow> int" where
  "own_pri K td = (if PRI_MIN_TIMESHARE K \<le> td_base_pri td \<and> td_base_pri td \<le> PRI_MAX_TIMESHARE K
     then td_user_pri td else td_base_pri td)"

lemma flag_ok_td:
  assumes "\<And>td. td_class (f td) = td_class td \<and> td_state (f td) = td_state td"
  shows "flag_ok t (upd_td x f s) = flag_ok t s"
  using assms by (simp add: flag_ok_def TD_ON_RUNQ_def)

lemma lend_prio_ok:
  assumes "flag_ok t s"
  shows "\<exists>s'. sched_lend_prio K t prio s = Some s' \<and> td_priority (threads s' t) = prio \<and> td_borrowing (threads s' t) \<and>
    own_pri K (threads s' t) = own_pri K (threads s t) \<and> td_state (threads s' t) = td_state (threads s t) \<and>
    td_class (threads s' t) = td_class (threads s t) \<and> flag_ok t s'"
proof -
  let ?s = "upd_td t (\<lambda>td. td\<lparr>td_borrowing := True\<rparr>) s"
  have "flag_ok t ?s" using assms by (simp add: flag_ok_td)
  from thread_priority_ok [OF this, of K prio] obtain s' where "sched_thread_priority K t prio ?s = Some s'"
    "only_priority t ?s s'" "td_priority (threads s' t) = prio" "flag_ok t s'" by blast
  then show ?thesis by (simp add: sched_lend_prio_def own_pri_def only_priorityD [of t ?s s'])
qed

lemma unlend_prio_ok:
  assumes "flag_ok t s"
  shows "\<exists>s'. sched_unlend_prio K t prio s = Some s' \<and>
    td_priority (threads s' t) = min prio (own_pri K (threads s t)) \<and>
    (td_borrowing (threads s' t) \<longleftrightarrow> prio < own_pri K (threads s t)) \<and>
    own_pri K (threads s' t) = own_pri K (threads s t)"
proof (cases "own_pri K (threads s t) \<le> prio")
  case True
  let ?s = "upd_td t (\<lambda>td. td\<lparr>td_borrowing := False\<rparr>) s" and ?p = "own_pri K (threads s t)"
  have "flag_ok t ?s" using assms by (simp add: flag_ok_td)
  from thread_priority_ok [OF this, of K ?p] obtain s' where "sched_thread_priority K t ?p ?s = Some s'"
    "only_priority t ?s s'" "td_priority (threads s' t) = ?p" by blast
  then show ?thesis using True
    by (simp add: sched_unlend_prio_def own_pri_def [symmetric] Let_def) (simp add: own_pri_def only_priorityD [of t ?s s'])
next
  case False
  then show ?thesis using lend_prio_ok [OF assms, of K prio]
    by (auto simp: sched_unlend_prio_def own_pri_def [symmetric] Let_def)
qed

text \<open>Setting the priority: a borrowed, more important priority stays.\<close>

definition adjust_ok :: "tid \<Rightarrow> (tid \<Rightarrow> int \<Rightarrow> 'q sched \<Rightarrow> 'q sched) \<Rightarrow> bool" where
  "adjust_ok t adjust \<longleftrightarrow> (\<forall>p s. td_priority (threads (adjust t p s) t) = td_priority (threads s t) \<and>
     other_pris (threads (adjust t p s) t) = other_pris (threads s t))"

lemma sched_prio_ok:
  assumes "flag_ok t s" and a: "adjust_ok t adjust"
  shows "\<exists>s'. sched_prio K adjust t prio s = Some s' \<and> td_base_pri (threads s' t) = prio \<and>
    td_priority (threads s' t) = (if td_borrowing (threads s t) then min (td_priority (threads s t)) prio else prio) \<and>
    td_borrowing (threads s' t) = td_borrowing (threads s t) \<and> td_user_pri (threads s' t) = td_user_pri (threads s t)"
proof -
  let ?s = "upd_td t (\<lambda>td. td\<lparr>td_base_pri := prio\<rparr>) s"
  have "flag_ok t ?s" using assms(1) by (simp add: flag_ok_td)
  from thread_priority_ok [OF this, of K prio] obtain s' where s': "sched_thread_priority K t prio ?s = Some s'"
    "only_priority t ?s s'" "td_priority (threads s' t) = prio" by blast
  note D = only_priorityD [OF s'(2)]
  have a': "td_priority (threads (adjust t p s') t) = prio" "td_base_pri (threads (adjust t p s') t) = prio"
    "td_borrowing (threads (adjust t p s') t) = td_borrowing (threads s t)"
    "td_user_pri (threads (adjust t p s') t) = td_user_pri (threads s t)" for p
    using a s'(3) D by (simp_all add: adjust_ok_def other_pris_def)
  show ?thesis
    using s' D a' by (auto simp: sched_prio_def Let_def min_def)
qed

lemma lend_user_prio_ok:
  assumes "flag_ok t s" and a: "adjust_ok t adjust"
  shows "\<exists>s'. sched_lend_user_prio K adjust t prio s = Some s' \<and>
    td_user_pri (threads s' t) = min prio (td_base_user_pri (threads s t)) \<and>
    td_priority (threads s' t) = min (td_priority (threads s t)) (td_user_pri (threads s' t)) \<and>
    (td_priority (threads s t) < td_user_pri (threads s' t) \<longrightarrow> td_needresched (threads s' t))"
proof -
  let ?u = "min prio (td_base_user_pri (threads s t))"
  let ?s = "upd_td t (\<lambda>td. td\<lparr>td_user_pri := min prio (td_base_user_pri td)\<rparr>) (upd_td t (\<lambda>td. td\<lparr>td_lend_user_pri := prio\<rparr>) s)"
  have "flag_ok t ?s" using assms(1) by (simp add: flag_ok_td)
  from sched_prio_ok [OF this a, of K ?u] obtain s' where "sched_prio K adjust t ?u ?s = Some s'"
    "td_priority (threads s' t) = (if td_borrowing (threads ?s t) then min (td_priority (threads ?s t)) ?u else ?u)"
    "td_user_pri (threads s' t) = ?u" by auto
  then show ?thesis by (auto simp: sched_lend_user_prio_def Let_def resched_thread_def)
qed

lemma userret_ok:
  "td_borrowing (threads s t) \<Longrightarrow> sched_userret t s = None"
  "\<not> td_borrowing (threads s t) \<Longrightarrow> \<exists>s'. sched_userret t s = Some s' \<and>
     td_priority (threads s' t) = td_user_pri (threads s t) \<and> (\<forall>x. x \<noteq> t \<longrightarrow> threads s' x = threads s x) \<and>
     ents s' = ents s \<and> rq s' = rq s"
  by (auto simp: sched_userret_def)

end
