(* ===== verification/Id_Index.thy ===== *)
theory Id_Index
  imports Prelude
begin

text \<open>
  The contract of an index of objects by an identifier they carry: a finite map that grows by adding
  an object under a new identifier and shrinks by removing one that is there. The facts below follow
  from the laws; the hash of \<open>group.c\<close> implements it.
\<close>

locale id_index =
  fixes inv :: "'s \<Rightarrow> bool" and look :: "'s \<Rightarrow> 'k \<Rightarrow> 'g option" and key :: "'g \<Rightarrow> 'k"
    and add :: "'g \<Rightarrow> 's \<Rightarrow> 's" and rem :: "'g \<Rightarrow> 's \<Rightarrow> 's"
  assumes look_key: "\<lbrakk>inv s; look s k = Some g\<rbrakk> \<Longrightarrow> key g = k"
    and add_law: "\<lbrakk>inv s; look s (key g) = None\<rbrakk> \<Longrightarrow> inv (add g s) \<and> look (add g s) = (look s)(key g \<mapsto> g)"
    and rem_law: "\<lbrakk>inv s; look s (key g) = Some g\<rbrakk> \<Longrightarrow> inv (rem g s) \<and> look (rem g s) = (look s)(key g := None)"
begin

lemma add_rem:
  assumes "inv s" "look s (key g) = None"
  shows "inv (rem g (add g s)) \<and> look (rem g (add g s)) = look s"
proof -
  note a = add_law [OF assms]
  then have "look (add g s) (key g) = Some g" by simp
  then have r: "inv (rem g (add g s)) \<and> look (rem g (add g s)) = (look (add g s))(key g := None)" using a rem_law by blast
  have "(look (add g s))(key g := None) = look s" using a assms(2) by (auto simp: fun_eq_iff)
  then show ?thesis using r by simp
qed

lemma look_inj: "\<lbrakk>inv s; look s k = Some g; look s k' = Some g\<rbrakk> \<Longrightarrow> k = k'"
  using look_key by metis

text \<open>Adding a list of objects with distinct new identifiers.\<close>

lemma add_all:
  assumes "inv s" "distinct (map key gs)" "\<forall>g\<in>set gs. look s (key g) = None"
  shows "inv (fold add gs s) \<and> look (fold add gs s) = look s ++ map_of (map (\<lambda>g. (key g, g)) gs)"
  using assms
proof (induction gs arbitrary: s)
  case (Cons g gs)
  note a = add_law [OF Cons.prems(1), of g]
  have g: "inv (add g s)" "look (add g s) = (look s)(key g \<mapsto> g)" using a Cons.prems(3) by simp_all
  have "\<forall>x\<in>set gs. look (add g s) (key x) = None" using Cons.prems(2,3) g(2) by (auto simp: image_iff)
  from Cons.IH [OF g(1) _ this] Cons.prems(2)
  have i: "inv (fold add gs (add g s))" "look (fold add gs (add g s)) = look (add g s) ++ map_of (map (\<lambda>g. (key g, g)) gs)"
    by simp_all
  have "map_of (map (\<lambda>g. (key g, g)) gs) (key g) = None" using Cons.prems(2) by (simp add: map_of_eq_None_iff image_image)
  then have "look (add g s) ++ map_of (map (\<lambda>g. (key g, g)) gs) = look s ++ map_of (map (\<lambda>g. (key g, g)) (g # gs))"
    by (auto simp: g(2) fun_eq_iff map_add_def split: option.splits)
  then show ?case unfolding fold_simps i(2) by (rule conjI [OF i(1)])
qed simp

lemma add_all_find:
  assumes "inv s" "distinct (map key gs)" "\<forall>g\<in>set gs. look s (key g) = None" "g \<in> set gs"
  shows "look (fold add gs s) (key g) = Some g"
proof -
  have "distinct (map fst (map (\<lambda>g. (key g, g)) gs))" using assms(2) by (simp add: comp_def)
  moreover have "(key g, g) \<in> set (map (\<lambda>g. (key g, g)) gs)" using assms(4) by simp
  ultimately have "map_of (map (\<lambda>g. (key g, g)) gs) (key g) = Some g" by (rule map_of_is_SomeI)
  then show ?thesis using add_all [OF assms(1-3)] by simp
qed

end

end
