(* ===== verification/Group_Hash.thy ===== *)
theory Group_Hash
  imports Id_Index
begin

text \<open>
  \<open>group.c\<close>: the hash of groups by identifier. \<open>hashinit\<close> returns a table of a power of two of
  lists and its mask in \<open>sghashsize\<close>; a bucket is the list of groups it links, the newest first.
  \<open>gid_of\<close> reads \<open>sg->id\<close>, an \<open>int\<close> that the macro converts to the type of the mask.
\<close>

record 'g sghash =
  sghashsize :: u64
  sghashtbl :: "u64 \<Rightarrow> 'g list"

definition sched_group_hash_init :: "u64 \<Rightarrow> 'g sghash" where
  "sched_group_hash_init size_mask = \<lparr>sghashsize = size_mask, sghashtbl = (\<lambda>_. [])\<rparr>"

definition SGHASH :: "u32 \<Rightarrow> 'g sghash \<Rightarrow> u64" where
  "SGHASH n H = and (scast n) (sghashsize H)"

definition hash_find :: "('g \<Rightarrow> u32) \<Rightarrow> u32 \<Rightarrow> 'g sghash \<Rightarrow> 'g option" where
  "hash_find gid_of n H = find (\<lambda>g. gid_of g = n) (sghashtbl H (SGHASH n H))"

definition sched_group_hash_add :: "('g \<Rightarrow> u32) \<Rightarrow> 'g \<Rightarrow> 'g sghash \<Rightarrow> 'g sghash" where
  "sched_group_hash_add gid_of g H =
     (let b = SGHASH (gid_of g) H in H\<lparr>sghashtbl := (sghashtbl H)(b := g # sghashtbl H b)\<rparr>)"

text \<open>\<open>LIST_REMOVE\<close> unlinks the group from the list it is on.\<close>

definition sched_group_hash_remove :: "('g \<Rightarrow> u32) \<Rightarrow> 'g \<Rightarrow> 'g sghash \<Rightarrow> 'g sghash" where
  "sched_group_hash_remove gid_of g H =
     (let b = SGHASH (gid_of g) H in H\<lparr>sghashtbl := (sghashtbl H)(b := remove1 g (sghashtbl H b))\<rparr>)"

section \<open>The hash as a finite map\<close>

text \<open>Each group is in the bucket of its identifier, and identifiers are distinct.\<close>

definition sghash_inv :: "('g \<Rightarrow> u32) \<Rightarrow> 'g sghash \<Rightarrow> bool" where
  "sghash_inv gid_of H \<longleftrightarrow>
     (\<forall>b. distinct (map gid_of (sghashtbl H b)) \<and> (\<forall>g\<in>set (sghashtbl H b). SGHASH (gid_of g) H = b))"

definition sghash_map :: "('g \<Rightarrow> u32) \<Rightarrow> 'g sghash \<Rightarrow> u32 \<Rightarrow> 'g option" where
  "sghash_map gid_of H n = hash_find gid_of n H"

lemma sghash_init_inv: "sghash_inv gid_of (sched_group_hash_init size_mask)" "sghash_map gid_of (sched_group_hash_init size_mask) n = None"
  by (simp_all add: sghash_inv_def sched_group_hash_init_def sghash_map_def hash_find_def)

lemma sghash_add_ok:
  assumes "sghash_inv gid_of H" "sghash_map gid_of H (gid_of g) = None"
  shows "sghash_inv gid_of (sched_group_hash_add gid_of g H)"
    "sghash_map gid_of (sched_group_hash_add gid_of g H) = (sghash_map gid_of H)(gid_of g \<mapsto> g)"
proof -
  have b: "SGHASH n (sched_group_hash_add gid_of g H) = SGHASH n H" for n
    by (simp add: SGHASH_def sched_group_hash_add_def Let_def)
  have new: "gid_of g \<notin> gid_of ` set (sghashtbl H (SGHASH (gid_of g) H))"
    using assms(2) by (auto simp: sghash_map_def hash_find_def find_None_iff)
  show "sghash_inv gid_of (sched_group_hash_add gid_of g H)"
    using assms(1) new unfolding sghash_inv_def b by (auto simp: sched_group_hash_add_def Let_def)
  show "sghash_map gid_of (sched_group_hash_add gid_of g H) = (sghash_map gid_of H)(gid_of g \<mapsto> g)"
    by (auto simp: fun_eq_iff sghash_map_def hash_find_def b) (auto simp: sched_group_hash_add_def Let_def)
qed

lemma sghash_remove_ok:
  assumes "sghash_inv gid_of H" "sghash_map gid_of H (gid_of g) = Some g"
  shows "sghash_inv gid_of (sched_group_hash_remove gid_of g H)"
    "sghash_map gid_of (sched_group_hash_remove gid_of g H) = (sghash_map gid_of H)(gid_of g := None)"
proof -
  let ?b = "SGHASH (gid_of g) H" and ?H = "sched_group_hash_remove gid_of g H"
  have b: "SGHASH n ?H = SGHASH n H" for n
    by (simp add: SGHASH_def sched_group_hash_remove_def Let_def)
  have d: "distinct (map gid_of (sghashtbl H c))" for c using assms(1) by (simp add: sghash_inv_def)
  have g: "g \<in> set (sghashtbl H ?b)"
    using assms(2) find_distinct [OF d] by (simp add: sghash_map_def hash_find_def)
  have dr: "distinct (map gid_of (remove1 g xs))" if "distinct (map gid_of xs)" for xs
    using that by (induction xs) (auto dest: set_remove1_subset [THEN subsetD])
  have tbl: "sghashtbl ?H c = (if c = ?b then remove1 g (sghashtbl H ?b) else sghashtbl H c)" for c
    by (simp add: sched_group_hash_remove_def Let_def)
  have bucket: "x \<in> set (sghashtbl H c) \<Longrightarrow> SGHASH (gid_of x) H = c" for x c
    using assms(1) by (simp add: sghash_inv_def)
  have "x \<in> set (sghashtbl ?H c) \<Longrightarrow> SGHASH (gid_of x) ?H = c" for x c
    unfolding b tbl by (auto split: if_splits dest: bucket set_remove1_subset [THEN subsetD])
  then show "sghash_inv gid_of ?H"
    using d dr unfolding sghash_inv_def by (simp add: tbl)
  have inj: "x = g" if "x \<in> set (sghashtbl H ?b)" "gid_of x = gid_of g" for x
    using d [of ?b] that g by (auto simp: distinct_map inj_on_def)
  have "sghash_map gid_of ?H n = Some x \<longleftrightarrow> ((sghash_map gid_of H)(gid_of g := None)) n = Some x" for n x
  proof -
    have "distinct (sghashtbl H ?b)" using d [of ?b] by (simp add: distinct_map)
    then show ?thesis
      using find_distinct [OF d] find_distinct [OF dr [OF d]] inj
      by (auto simp: sghash_map_def hash_find_def b tbl)
  qed
  then show "sghash_map gid_of ?H = (sghash_map gid_of H)(gid_of g := None)"
    by (intro ext option_eqI)
qed

section \<open>The hash implements the index\<close>

lemma sghash_find: "sghash_inv gid_of H \<Longrightarrow> sghash_map gid_of H n = Some g \<longleftrightarrow> g \<in> set (sghashtbl H (SGHASH n H)) \<and> gid_of g = n"
  unfolding sghash_map_def hash_find_def by (rule find_distinct) (simp add: sghash_inv_def)

interpretation gh: id_index "sghash_inv gid_of" "sghash_map gid_of" gid_of "sched_group_hash_add gid_of"
  "sched_group_hash_remove gid_of" for gid_of
proof unfold_locales
  show "gid_of g = k" if "sghash_inv gid_of H" "sghash_map gid_of H k = Some g" for H k g
    using that sghash_find by metis
qed (simp_all add: sghash_add_ok sghash_remove_ok)

end
