(* ===== verification/Hrtimer.thy ===== *)
theory Hrtimer
  imports Sched_Time
begin

text \<open>
  The high resolution timer (\<open>hrtimer.c\<close>, \<open>hrtimer.h\<close>) and the real-time bandwidth that uses it
  (\<open>rt.c\<close>, \<open>start_bandwidth_timer\<close> of \<open>sched.c\<close>). The callout of the kernel is the field
  \<open>armed\<close>: the time it is set for, None when inactive. \<open>timespecadd\<close>, \<open>timespecsub\<close> and
  \<open>timespeccmp\<close> are the macros of \<open>sys/time.h\<close>; the time now is an argument.
\<close>

section \<open>Arithmetic on time specifications\<close>

definition timespecadd :: "timespec \<Rightarrow> timespec \<Rightarrow> timespec" where
  "timespecadd a b =
     (let s = tv_sec a + tv_sec b; n = tv_nsec a + tv_nsec b
      in if n \<ge> 1000000000 then \<lparr>tv_sec = s + 1, tv_nsec = n - 1000000000\<rparr> else \<lparr>tv_sec = s, tv_nsec = n\<rparr>)"

definition timespecsub :: "timespec \<Rightarrow> timespec \<Rightarrow> timespec" where
  "timespecsub a b =
     (let s = tv_sec a - tv_sec b; n = tv_nsec a - tv_nsec b
      in if n < 0 then \<lparr>tv_sec = s - 1, tv_nsec = n + 1000000000\<rparr> else \<lparr>tv_sec = s, tv_nsec = n\<rparr>)"

definition timespec_ge :: "timespec \<Rightarrow> timespec \<Rightarrow> bool" where
  "timespec_ge a b \<longleftrightarrow> (if tv_sec a = tv_sec b then tv_nsec a \<ge> tv_nsec b else tv_sec a \<ge> tv_sec b)"

definition timespec_add_ns :: "timespec \<Rightarrow> u64 \<Rightarrow> timespec" where
  "timespec_add_ns ts ns = timespecadd ts (ns_to_timespec ns)"

text \<open>None is the division by zero.\<close>

definition timespec_div_ns :: "timespec \<Rightarrow> u64 \<Rightarrow> u64 option" where
  "timespec_div_ns ts ns = (if ns = 0 then None else Some (timespec_to_ns ts div ns))"

section \<open>The timer\<close>

datatype hrtimer_mode = HRTIMER_MODE_REL | HRTIMER_MODE_ABS
datatype hrtimer_restart = HRTIMER_NORESTART | HRTIMER_RESTART

record hrtimer =
  expiry :: timespec
  armed :: "timespec option"

definition hrtimer_init :: hrtimer where
  "hrtimer_init = \<lparr>expiry = \<lparr>tv_sec = 0, tv_nsec = 0\<rparr>, armed = None\<rparr>"

definition hrtimer_active :: "hrtimer \<Rightarrow> bool" where
  "hrtimer_active T \<longleftrightarrow> armed T \<noteq> None"

definition hrtimer_cancel :: "hrtimer \<Rightarrow> hrtimer" where
  "hrtimer_cancel T = T\<lparr>armed := None\<rparr>"

text \<open>As written: the time of the caller goes into the timer.\<close>

definition hrtimer_get_expiry :: "hrtimer \<Rightarrow> timespec \<Rightarrow> hrtimer" where
  "hrtimer_get_expiry T ts = T\<lparr>expiry := ts\<rparr>"

definition hrtimer_start :: "timespec \<Rightarrow> timespec \<Rightarrow> hrtimer_mode \<Rightarrow> hrtimer \<Rightarrow> hrtimer" where
  "hrtimer_start uptime ts mode T =
     (let e = (if mode = HRTIMER_MODE_ABS then ts else timespecadd uptime ts)
      in T\<lparr>expiry := e, armed := Some e\<rparr>)"

text \<open>\<open>fn\<close> is the function of the timer, which may change the timer.\<close>

definition timeout_handler :: "(hrtimer \<Rightarrow> (hrtimer_restart \<times> hrtimer) option) \<Rightarrow> hrtimer \<Rightarrow> hrtimer option" where
  "timeout_handler fn T = do {
     (res, T) \<leftarrow> fn (T\<lparr>armed := None\<rparr>);
     Some (if res = HRTIMER_NORESTART then T
           else if armed T \<noteq> None then T
           else T\<lparr>armed := Some (expiry T)\<rparr>) }"

text \<open>The overrun is returned as an \<open>int\<close>.\<close>

definition hrtimer_forward :: "timespec \<Rightarrow> timespec \<Rightarrow> hrtimer \<Rightarrow> (u32 \<times> hrtimer) option" where
  "hrtimer_forward now interval T =
     (let delta = timespecsub now (expiry T) in
      if tv_sec delta < 0 then Some (0, T)
      else do {
        (overrun, T) \<leftarrow>
          (if timespec_ge delta interval then do {
             let incr = timespec_to_ns interval;
             d \<leftarrow> timespec_div_ns delta incr;
             let overrun = 1 + d;
             Some (overrun, T\<lparr>expiry := timespec_add_ns (expiry T) (overrun * incr)\<rparr>) }
           else Some (1, T));
        Some (ucast overrun, T\<lparr>expiry := timespecadd (expiry T) interval\<rparr>) })"

text \<open>\<open>junk\<close> is the uninitialised local variable \<open>expiry\<close>.\<close>

definition start_bandwidth_timer :: "timespec \<Rightarrow> timespec \<Rightarrow> timespec \<Rightarrow> hrtimer \<Rightarrow> hrtimer option" where
  "start_bandwidth_timer now junk period T =
     (if hrtimer_active T then Some T
      else do {
        (n, T) \<leftarrow> hrtimer_forward now period T;
        let T = hrtimer_get_expiry T junk;
        Some (hrtimer_start now junk HRTIMER_MODE_ABS T) })"

section \<open>Real-time bandwidth\<close>

record rt_bandwidth =
  rt_period :: timespec
  rt_runtime :: u64
  rt_period_timer :: hrtimer

abbreviation RUNTIME_INF :: u64 where "RUNTIME_INF \<equiv> - 1"

definition init_rt_bandwidth :: "u64 \<Rightarrow> u64 \<Rightarrow> rt_bandwidth" where
  "init_rt_bandwidth period runtime =
     \<lparr>rt_period = ns_to_timespec period, rt_runtime = runtime, rt_period_timer = hrtimer_init\<rparr>"

definition rt_bandwidth_enabled :: "int \<Rightarrow> bool" where
  "rt_bandwidth_enabled sysctl_sched_rt_runtime \<longleftrightarrow> sysctl_sched_rt_runtime \<ge> 0"

definition start_rt_bandwidth :: "int \<Rightarrow> timespec \<Rightarrow> timespec \<Rightarrow> rt_bandwidth \<Rightarrow> rt_bandwidth option" where
  "start_rt_bandwidth sysctl_sched_rt_runtime now junk B =
     (if \<not> rt_bandwidth_enabled sysctl_sched_rt_runtime \<or> rt_runtime B = RUNTIME_INF then Some B
      else if hrtimer_active (rt_period_timer B) then Some B
      else do {
        T \<leftarrow> start_bandwidth_timer now junk (rt_period B) (rt_period_timer B);
        Some (B\<lparr>rt_period_timer := T\<rparr>) })"

definition do_sched_rt_period_timer :: "u32 \<Rightarrow> bool" where
  "do_sched_rt_period_timer overrun = False"

text \<open>The loop of the period timer: \<open>uptime n\<close> is the time at its n-th round, \<open>idle\<close> the variable.\<close>

partial_function (option) period_rounds ::
    "(nat \<Rightarrow> timespec) \<Rightarrow> timespec \<Rightarrow> nat \<Rightarrow> bool \<Rightarrow> hrtimer \<Rightarrow> (bool \<times> hrtimer) option" where
  "period_rounds uptime period n idle T = do {
     (overrun, T) \<leftarrow> hrtimer_forward (uptime n) period T;
     if overrun = 0 then Some (idle, T)
     else period_rounds uptime period (Suc n) (do_sched_rt_period_timer overrun) T }"

declare period_rounds.simps [code]

definition sched_rt_period_timer ::
    "(nat \<Rightarrow> timespec) \<Rightarrow> timespec \<Rightarrow> hrtimer \<Rightarrow> (hrtimer_restart \<times> hrtimer) option" where
  "sched_rt_period_timer uptime period T = do {
     (idle, T) \<leftarrow> period_rounds uptime period 0 False T;
     Some (if idle then HRTIMER_NORESTART else HRTIMER_RESTART, T) }"

section \<open>The timer moves into the future\<close>

text \<open>Exact nanoseconds; normalised and short of the range of \<open>uint64_t\<close>.\<close>

definition ts_ns :: "timespec \<Rightarrow> int" where
  "ts_ns t = tv_sec t * 1000000000 + tv_nsec t"

definition ts_ok :: "timespec \<Rightarrow> bool" where
  "ts_ok t \<longleftrightarrow> 0 \<le> tv_nsec t \<and> tv_nsec t < 1000000000"

lemma ts_arith:
  assumes "ts_ok a" "ts_ok b"
  shows "ts_ok (timespecadd a b)" "ts_ns (timespecadd a b) = ts_ns a + ts_ns b"
    "ts_ok (timespecsub a b)" "ts_ns (timespecsub a b) = ts_ns a - ts_ns b"
    "timespec_ge a b \<longleftrightarrow> ts_ns b \<le> ts_ns a" "tv_sec a < 0 \<longleftrightarrow> ts_ns a < 0"
  using assms by (auto simp: ts_ok_def ts_ns_def timespecadd_def timespecsub_def timespec_ge_def Let_def)

lemma ns_to_timespec_exact: "ts_ok (ns_to_timespec n)" "ts_ns (ns_to_timespec n) = uint n"
  using ns_to_timespec_range [of n]
  by (simp_all add: ts_ok_def ts_ns_def ns_to_timespec_def uint_div_distrib uint_mod_distrib)

lemma timespec_to_ns_exact:
  assumes "0 \<le> ts_ns t" "ts_ns t < 18446744073709551616"
  shows "uint (timespec_to_ns t) = ts_ns t"
proof -
  have "timespec_to_ns t = word_of_int (ts_ns t)" by (simp add: timespec_to_ns_def ts_ns_def)
  then show ?thesis using assms by (simp add: uint_word_of_int take_bit_eq_mod)
qed

lemma euclid:
  fixes n d :: int
  assumes "0 < d"
  shows "n div d * d \<le> n" "n < (n div d + 1) * d"
proof -
  have "n div d * d = n - n mod d" by (simp add: minus_mod_eq_div_mult)
  then show "n div d * d \<le> n" "n < (n div d + 1) * d"
    using pos_mod_bound [OF assms, of n] pos_mod_sign [OF assms, of n] by (simp_all add: distrib_right)
qed

text \<open>
  A forwarded timer: without an overrun nothing happens; with one the expiry is in the future, on
  the grid of the period. Whenever the timer is a whole period late, one more period than the
  count that is returned is added, and the expiry is more than a period away.
\<close>

definition forwarded :: "int \<Rightarrow> int \<Rightarrow> int \<Rightarrow> int \<times> int" where
  "forwarded now period e =
     (if now < e then (0, e)
      else if now - e < period then (1, e + period)
      else (1 + (now - e) div period, e + (2 + (now - e) div period) * period))"

lemma hrtimer_forward_ok:
  assumes ok: "ts_ok now" "ts_ok interval" "ts_ok (expiry T)" and p: "0 < ts_ns interval"
    and small: "ts_ns now - ts_ns (expiry T) < 4611686018427387904" "ts_ns interval < 4611686018427387904"
  shows "\<exists>n T'. hrtimer_forward now interval T = Some (n, T') \<and> armed T' = armed T \<and> ts_ok (expiry T') \<and>
    (n, ts_ns (expiry T')) =
      (word_of_int (fst (forwarded (ts_ns now) (ts_ns interval) (ts_ns (expiry T)))),
       snd (forwarded (ts_ns now) (ts_ns interval) (ts_ns (expiry T))))"
proof -
  let ?d = "timespecsub now (expiry T)" and ?I = "ts_ns interval"
  have d: "ts_ok ?d" "ts_ns ?d = ts_ns now - ts_ns (expiry T)" using ts_arith ok by auto
  have neg: "tv_sec ?d < 0 \<longleftrightarrow> ts_ns ?d < 0" by (rule ts_arith(6) [OF d(1) d(1)])
  consider "ts_ns ?d < 0" | "0 \<le> ts_ns ?d" "ts_ns ?d < ?I" | "0 \<le> ts_ns ?d" "?I \<le> ts_ns ?d" by linarith
  then show ?thesis
  proof cases
    case 1
    then show ?thesis using neg d(2) ok by (simp add: hrtimer_forward_def forwarded_def)
  next
    case 2
    then show ?thesis
      using neg d ok ts_arith(5) [OF d(1) ok(2)] ts_arith(1,2) [OF ok(3,2)]
      by (simp add: hrtimer_forward_def forwarded_def)
  next
    case 3
    let ?i = "timespec_to_ns interval" and ?q = "ts_ns ?d div ?I"
    have i: "uint ?i = ?I" using p small by (intro timespec_to_ns_exact) simp_all
    then have i0: "?i \<noteq> 0" using p by auto
    have dn: "uint (timespec_to_ns ?d) = ts_ns ?d" using 3 small d(2) by (intro timespec_to_ns_exact) simp_all
    have q: "uint (timespec_to_ns ?d div ?i) = ?q" by (simp add: uint_div_distrib i dn)
    have small': "ts_ns ?d < 4611686018427387904" using small d(2) by simp
    have qI: "?q * ?I \<le> ts_ns ?d" using euclid [OF p, of "ts_ns ?d"] by simp
    have q0: "0 \<le> ?q" using 3 p by (simp add: pos_imp_zdiv_nonneg_iff)
    have "?q * 1 \<le> ?q * ?I" using q0 p by (intro mult_left_mono) simp_all
    then have qs: "?q < 4611686018427387904" using qI small d(2) by linarith
    have n: "uint (1 + timespec_to_ns ?d div ?i) = 1 + ?q"
      using q0 qs by (simp add: uint_word_ariths q mod_pos_pos_trivial)
    have m: "(1 + ?q) * ?I < 9223372036854775808" using qI small' small(2) unfolding distrib_right by linarith
    have mul: "uint ((1 + timespec_to_ns ?d div ?i) * ?i) = (1 + ?q) * ?I"
      using q0 m p by (simp add: uint_word_ariths(3) n i mod_pos_pos_trivial)
    let ?e = "timespec_add_ns (expiry T) ((1 + timespec_to_ns ?d div ?i) * ?i)"
    have e: "ts_ok ?e" "ts_ns ?e = ts_ns (expiry T) + (1 + ?q) * ?I"
      using ts_arith(1,2) [OF ok(3) ns_to_timespec_exact(1)] mul
      by (simp_all add: timespec_add_ns_def ns_to_timespec_exact(2))
    have c: "(ucast (1 + timespec_to_ns ?d div ?i) :: u32) = word_of_int (1 + ?q)"
      by (metis n ucast_eq)
    have "hrtimer_forward now interval T =
        Some (word_of_int (1 + ?q), T\<lparr>expiry := timespecadd ?e interval\<rparr>)"
      using 3 neg i0 c ts_arith(5) [OF d(1) ok(2)] by (simp add: hrtimer_forward_def timespec_div_ns_def Let_def)
    then show ?thesis
      using 3 ts_arith(1,2) [OF e(1) ok(2)] e(2) d(2)
      by (simp add: forwarded_def algebra_simps)
  qed
qed

lemma forwarded_future:
  assumes "0 < period"
  shows "now < snd (forwarded now period e)"
    "e \<le> now \<Longrightarrow> snd (forwarded now period e) \<le> now + 2 * period"
    "period \<le> now - e \<Longrightarrow> now + period < snd (forwarded now period e)"
proof -
  have "(now - e) div period * period \<le> now - e" "now - e < ((now - e) div period + 1) * period"
    by (rule euclid [OF assms])+
  then show "now < snd (forwarded now period e)"
    "e \<le> now \<Longrightarrow> snd (forwarded now period e) \<le> now + 2 * period"
    "period \<le> now - e \<Longrightarrow> now + period < snd (forwarded now period e)"
    using assms by (auto simp: forwarded_def algebra_simps)
qed

section \<open>The period timer\<close>

text \<open>
  The handler of the period forwards the timer until that returns no overrun. A clock that passes the
  expiry in every round keeps it busy; but three successive readings less than a period apart end it:
  the first of them puts the expiry past itself, the second, if it is past that again, adds a period.
\<close>

lemma forwarded_grows:
  assumes "0 < period"
  shows "e \<le> snd (forwarded now period e)" "now < e \<Longrightarrow> forwarded now period e = (0, e)"
    "e \<le> now \<Longrightarrow> e + period \<le> snd (forwarded now period e)"
proof -
  have "0 \<le> (now - e) div period * period" if "e \<le> now"
    using that assms by (intro mult_nonneg_nonneg) (simp_all add: pos_imp_zdiv_nonneg_iff)
  then show "e \<le> snd (forwarded now period e)" "now < e \<Longrightarrow> forwarded now period e = (0, e)"
    "e \<le> now \<Longrightarrow> e + period \<le> snd (forwarded now period e)"
    using assms by (auto simp: forwarded_def algebra_simps)
qed

text \<open>One round, with the n-th reading: it ends the loop, or goes on with the forwarded timer.\<close>

lemma period_round:
  assumes ok: "ts_ok (uptime n)" "ts_ok period" "ts_ok (expiry T)" and p: "0 < ts_ns period"
    and small: "ts_ns (uptime n) - ts_ns (expiry T) < 4611686018427387904" "ts_ns period < 4611686018427387904"
  shows "\<exists>T1. ts_ok (expiry T1) \<and>
    ts_ns (expiry T1) = snd (forwarded (ts_ns (uptime n)) (ts_ns period) (ts_ns (expiry T))) \<and>
    ((\<forall>v. v n = uptime n \<longrightarrow> period_rounds v period n False T = Some (False, T1)) \<or>
     ts_ns (expiry T) \<le> ts_ns (uptime n) \<and>
     (\<forall>v. v n = uptime n \<longrightarrow> period_rounds v period n False T = period_rounds v period (Suc n) False T1))"
proof -
  let ?f = "forwarded (ts_ns (uptime n)) (ts_ns period) (ts_ns (expiry T))"
  obtain k T1 where f: "hrtimer_forward (uptime n) period T = Some (k, T1)" "ts_ok (expiry T1)"
    "k = word_of_int (fst ?f)" "ts_ns (expiry T1) = snd ?f"
    using hrtimer_forward_ok [OF ok p small] by auto
  have r: "period_rounds v period n False T =
      (if k = 0 then Some (False, T1) else period_rounds v period (Suc n) False T1)" if "v n = uptime n" for v
    using f(1) that by (subst period_rounds.simps) (simp add: do_sched_rt_period_timer_def)
  have "ts_ns (expiry T) \<le> ts_ns (uptime n)" if "k \<noteq> 0"
    using that f(3) forwarded_grows(2) [OF p, of "ts_ns (uptime n)" "ts_ns (expiry T)"] by (cases "ts_ns (uptime n) < ts_ns (expiry T)") auto
  then show ?thesis using f(2,4) r by (intro exI [of _ T1]) auto
qed

lemma period_rounds_end:
  assumes ok: "\<forall>n\<le>Suc (Suc k). ts_ok (uptime n)" "ts_ok period" and p: "0 < ts_ns period" "ts_ns period < 4611686018427387904"
    and quick: "ts_ns (uptime (Suc (Suc k))) < ts_ns (uptime k) + ts_ns period"
  shows "\<lbrakk>n + d = k; ts_ok (expiry T); \<forall>m\<le>Suc (Suc k). ts_ns (uptime m) - ts_ns (expiry T) < 4611686018427387904\<rbrakk> \<Longrightarrow>
    \<exists>T' m. (\<forall>v. (\<forall>i. n \<le> i \<and> i \<le> m \<longrightarrow> v i = uptime i) \<longrightarrow> period_rounds v period n False T = Some (False, T')) \<and>
      n \<le> m \<and> m \<le> Suc (Suc k) \<and>
      ts_ns (expiry T) \<le> ts_ns (expiry T') \<and> (\<forall>i. n \<le> i \<and> i \<le> m \<longrightarrow> ts_ns (uptime i) < ts_ns (expiry T'))"
proof (induction d arbitrary: n T)
  case 0
  let ?u = "\<lambda>n. ts_ns (uptime n)" and ?P = "ts_ns period"
  have n: "n = k" using 0(1) by simp
  have "ts_ok (uptime k)" "?u k - ts_ns (expiry T) < 4611686018427387904" using ok(1) 0(3) by simp_all
  from period_round [where uptime = uptime and n = k, OF this(1) ok(2) 0(2) p(1) this(2) p(2)] obtain T1 where T1: "ts_ok (expiry T1)"
    "ts_ns (expiry T1) = snd (forwarded (?u k) ?P (ts_ns (expiry T)))"
    "(\<forall>v. v k = uptime k \<longrightarrow> period_rounds v period k False T = Some (False, T1)) \<or>
     (\<forall>v. v k = uptime k \<longrightarrow> period_rounds v period k False T = period_rounds v period (Suc k) False T1)" by blast
  have e1: "?u k < ts_ns (expiry T1)" "ts_ns (expiry T) \<le> ts_ns (expiry T1)"
    using T1(2) forwarded_future(1) [OF p(1)] forwarded_grows(1) [OF p(1)] by simp_all
  have "ts_ok (uptime (Suc k))" "?u (Suc k) - ts_ns (expiry T1) < 4611686018427387904"
    using ok(1) 0(3) [rule_format, of "Suc k"] e1(2) by simp_all
  from period_round [where uptime = uptime and n = "Suc k", OF this(1) ok(2) T1(1) p(1) this(2) p(2)] obtain T2 where T2: "ts_ok (expiry T2)"
    "ts_ns (expiry T2) = snd (forwarded (?u (Suc k)) ?P (ts_ns (expiry T1)))"
    "(\<forall>v. v (Suc k) = uptime (Suc k) \<longrightarrow> period_rounds v period (Suc k) False T1 = Some (False, T2)) \<or>
     ts_ns (expiry T1) \<le> ?u (Suc k) \<and> (\<forall>v. v (Suc k) = uptime (Suc k) \<longrightarrow>
       period_rounds v period (Suc k) False T1 = period_rounds v period (Suc (Suc k)) False T2)" by blast
  have e2: "?u (Suc k) < ts_ns (expiry T2)" "ts_ns (expiry T1) \<le> ts_ns (expiry T2)"
    using T2(2) forwarded_future(1) [OF p(1)] forwarded_grows(1) [OF p(1)] by simp_all
  consider "\<forall>v. v k = uptime k \<longrightarrow> period_rounds v period k False T = Some (False, T1)"
    | "\<forall>v. v k = uptime k \<and> v (Suc k) = uptime (Suc k) \<longrightarrow> period_rounds v period k False T = Some (False, T2)"
    | "\<forall>v. v k = uptime k \<and> v (Suc k) = uptime (Suc k) \<longrightarrow>
        period_rounds v period k False T = period_rounds v period (Suc (Suc k)) False T2" "ts_ns (expiry T1) \<le> ?u (Suc k)"
    using T1(3) T2(3) by auto
  then show ?case
  proof cases
    case 1
    then show ?thesis using n e1 by (intro exI [of _ T1] exI [of _ k]) auto
  next
    case 2
    have "?u i < ts_ns (expiry T2)" if "k \<le> i" "i \<le> Suc k" for i
      using that e1(1) e2 by (cases "i = k") (auto simp: le_Suc_eq)
    then show ?thesis using n 2 e1(2) e2(2) by (intro exI [of _ T2] exI [of _ "Suc k"]) auto
  next
    case 3
    have "ts_ns (expiry T1) + ?P \<le> ts_ns (expiry T2)" using T2(2) forwarded_grows(3) [OF p(1) 3(2)] by simp
    then have l: "?u (Suc (Suc k)) < ts_ns (expiry T2)" using quick e1(1) by linarith
    have "ts_ok (uptime (Suc (Suc k)))" "?u (Suc (Suc k)) - ts_ns (expiry T2) < 4611686018427387904" using ok(1) l by simp_all
    from period_round [where uptime = uptime and n = "Suc (Suc k)", OF this(1) ok(2) T2(1) p(1) this(2) p(2)] obtain T3 where T3:
      "ts_ns (expiry T3) = snd (forwarded (?u (Suc (Suc k))) ?P (ts_ns (expiry T2)))"
      "\<forall>v. v (Suc (Suc k)) = uptime (Suc (Suc k)) \<longrightarrow> period_rounds v period (Suc (Suc k)) False T2 = Some (False, T3)"
      using l by fastforce
    have e3: "ts_ns (expiry T3) = ts_ns (expiry T2)" using T3(1) forwarded_grows(2) [OF p(1) l] by simp
    have "?u i < ts_ns (expiry T3)" if "k \<le> i" "i \<le> Suc (Suc k)" for i
      using that e1(1) e2 e3 l by (auto simp: le_Suc_eq)
    then show ?thesis using n 3(1) T3(2) e1(2) e2(2) e3 by (intro exI [of _ T3] exI [of _ "Suc (Suc k)"]) auto
  qed
next
  case (Suc d)
  let ?u = "\<lambda>n. ts_ns (uptime n)"
  have n: "n < k" using Suc.prems(1) by simp
  have "ts_ok (uptime n)" "?u n - ts_ns (expiry T) < 4611686018427387904" using ok(1) Suc.prems(3) n by simp_all
  from period_round [where uptime = uptime and n = n, OF this(1) ok(2) Suc.prems(2) p(1) this(2) p(2)] obtain T1 where T1: "ts_ok (expiry T1)"
    "ts_ns (expiry T1) = snd (forwarded (?u n) (ts_ns period) (ts_ns (expiry T)))"
    "(\<forall>v. v n = uptime n \<longrightarrow> period_rounds v period n False T = Some (False, T1)) \<or>
     (\<forall>v. v n = uptime n \<longrightarrow> period_rounds v period n False T = period_rounds v period (Suc n) False T1)" by blast
  have e1: "?u n < ts_ns (expiry T1)" "ts_ns (expiry T) \<le> ts_ns (expiry T1)"
    using T1(2) forwarded_future(1) [OF p(1)] forwarded_grows(1) [OF p(1)] by simp_all
  from T1(3) show ?case
  proof
    assume "\<forall>v. v n = uptime n \<longrightarrow> period_rounds v period n False T = Some (False, T1)"
    then show ?thesis using n e1 by (intro exI [of _ T1] exI [of _ n]) auto
  next
    assume r: "\<forall>v. v n = uptime n \<longrightarrow> period_rounds v period n False T = period_rounds v period (Suc n) False T1"
    have "Suc n + d = k" "\<forall>m\<le>Suc (Suc k). ?u m - ts_ns (expiry T1) < 4611686018427387904"
      using Suc.prems(1,3) e1(2) by fastforce+
    from Suc.IH [OF this(1) T1(1) this(2)] obtain T' m where T': "\<forall>v. (\<forall>i. Suc n \<le> i \<and> i \<le> m \<longrightarrow> v i = uptime i) \<longrightarrow>
        period_rounds v period (Suc n) False T1 = Some (False, T')" "Suc n \<le> m" "m \<le> Suc (Suc k)" "ts_ns (expiry T1) \<le> ts_ns (expiry T')"
      "\<forall>i. Suc n \<le> i \<and> i \<le> m \<longrightarrow> ?u i < ts_ns (expiry T')" by blast
    have "?u i < ts_ns (expiry T')" if "n \<le> i" "i \<le> m" for i
      using that T'(4,5) e1(1) by (cases "i = n") auto
    then show ?thesis using r T'(1-4) e1(2) by (intro exI [of _ T'] exI [of _ m]) auto
  qed
qed

lemma period_timer_returns:
  assumes "\<forall>n\<le>Suc (Suc k). ts_ok (uptime n)" "ts_ok period" "ts_ok (expiry T)" "0 < ts_ns period" "ts_ns period < 4611686018427387904"
    and "\<forall>n\<le>Suc (Suc k). ts_ns (uptime n) - ts_ns (expiry T) < 4611686018427387904"
    and "ts_ns (uptime (Suc (Suc k))) < ts_ns (uptime k) + ts_ns period"
  shows "\<exists>T' m. sched_rt_period_timer uptime period T = Some (HRTIMER_RESTART, T') \<and> m \<le> Suc (Suc k) \<and>
    (\<forall>i\<le>m. ts_ns (uptime i) < ts_ns (expiry T')) \<and>
    (\<forall>v. (\<forall>i\<le>m. v i = uptime i) \<longrightarrow> sched_rt_period_timer v period T = sched_rt_period_timer uptime period T)"
proof -
  obtain T' m where T': "\<forall>v. (\<forall>i. 0 \<le> i \<and> i \<le> m \<longrightarrow> v i = uptime i) \<longrightarrow> period_rounds v period 0 False T = Some (False, T')"
    "m \<le> Suc (Suc k)" "\<forall>i. 0 \<le> i \<and> i \<le> m \<longrightarrow> ts_ns (uptime i) < ts_ns (expiry T')"
    using period_rounds_end [OF assms(1,2,4,5,7), of 0 k T] assms(3,6) by auto
  then show ?thesis by (auto simp: sched_rt_period_timer_def)
qed

end
