(* ===== verification/Vtime.thy ===== *)
theory Vtime
  imports Pss_Queue
begin

text \<open>
  Virtual time. The 64-bit keys wrap around; as long as they lie within half of the range above some
  base \<open>b\<close> (\<open>in_window\<close>), they are ordered by their distance from it. The timeline stays sorted, the
  time of a queue only moves forward and overtakes nobody, a waking entity is placed no further back
  than its bonus, and the running entity is charged by its weight.
\<close>

section \<open>Keys in a window\<close>

definition key :: "u64 \<Rightarrow> 'q sched \<Rightarrow> eid \<Rightarrow> int" where
  "key b s e = win_dist b (vruntime (ents s e))"

definition keys_near :: "u64 \<Rightarrow> 'q sched \<Rightarrow> eid set \<Rightarrow> bool" where
  "keys_near b s A \<longleftrightarrow> (\<forall>e\<in>A. in_window b (vruntime (ents s e)))"

lemma vtime_cmp_key:
  assumes "keys_near b s A" "x \<in> A" "y \<in> A"
  shows "vtime_cmp s x y < 0 \<longleftrightarrow> key b s x < key b s y"
  using assms wrap_less_window [of b "vruntime (ents s x)" "vruntime (ents s y)"]
  by (simp add: vtime_cmp_def keys_near_def key_def)

lemma max_vruntime_window:
  assumes "in_window b v" "in_window b x"
  shows "win_dist b (max_vruntime v x) = max (win_dist b v) (win_dist b x)" "in_window b (max_vruntime v x)"
  using assms by (simp_all add: max_vruntime_def wrap_greater_window)

lemma min_vruntime_window:
  assumes "in_window b v" "in_window b x"
  shows "win_dist b (min_vruntime v x) = min (win_dist b v) (win_dist b x)" "in_window b (min_vruntime v x)"
  using assms by (simp_all add: min_vruntime_def wrap_less_window)

section \<open>The order of the timeline\<close>

lemma enqueue_timeline_sorted:
  assumes inv: "tl_inv X s" and e: "\<not> onsfq (ents s e)" "se_sfq (ents s e) = Some q"
    and w: "keys_near b s (insert e (set (X q)))" and srt: "key_sorted (key b s) (X q)"
  shows "\<exists>s' ys zs. enqueue_timeline q e s = Some s' \<and> X q = ys @ zs \<and> tl_inv (X(q := ys @ e # zs)) s' \<and>
    key b s' = key b s \<and> key_sorted (key b s') (ys @ e # zs) \<and> (\<forall>z\<in>set zs. key b s' e < key b s' z)"
proof -
  obtain h r lm ys zs where x: "enqueue_timeline q e s = Some (set_timeline q e True h r lm s)" "X q = ys @ zs"
    "tl_inv (X(q := ys @ e # zs)) (set_timeline q e True h r lm s)" "ys \<noteq> [] \<longrightarrow> \<not> vtime_cmp s e (last ys) < 0"
    "zs \<noteq> [] \<longrightarrow> vtime_cmp s e (hd zs) < 0" using enqueue_timeline_ok [OF inv e] by blast
  let ?s = "set_timeline q e True h r lm s"
  have k: "key b ?s = key b s" by (simp add: key_def fun_eq_iff set_timeline_simps)
  have c: "vtime_cmp s e y < 0 \<longleftrightarrow> key b s e < key b s y" if "y \<in> set (X q)" for y
    using vtime_cmp_key [OF w] that by blast
  have yz: "ys \<noteq> [] \<longrightarrow> key b s (last ys) \<le> key b s e" "zs \<noteq> [] \<longrightarrow> key b s e < key b s (hd zs)"
    using x(2,4,5) c by (auto simp: not_less)
  have s': "key_sorted (key b s) (ys @ e # zs)" using srt yz by (intro key_sorted_insert) (simp_all add: x(2))
  have "\<forall>z\<in>set zs. key b s e < key b s z"
    using s' yz(2) by (cases zs) (auto simp: key_sorted_def sorted_append)
  then show ?thesis using x(1-3) s' k by metis
qed

text \<open>The cached first entity has the least virtual time.\<close>

lemma first_least:
  assumes inv: "tl_inv X s" and srt: "key_sorted (key b s) (X q)" and f: "pick_first_entity q s = Some f"
  shows "f \<in> set (X q)" "\<forall>y\<in>set (X q). key b s f \<le> key b s y"
proof -
  have "leftmost (sfqs s q) = head_opt (X q)" using inv by (simp add: tl_inv_def tlq_def tl.cached_def)
  then obtain xs where "X q = f # xs" using f by (cases "X q") (auto simp: pick_first_entity_def)
  then show "f \<in> set (X q)" "\<forall>y\<in>set (X q). key b s f \<le> key b s y"
    using key_sorted_head [of "key b s" f xs] srt by auto
qed

lemma dequeue_timeline_sorted:
  assumes inv: "tl_inv X s" and xs: "X q = ys @ e # zs" and srt: "key_sorted (key b s) (X q)"
  shows "\<exists>s'. dequeue_timeline q e s = Some s' \<and> tl_inv (X(q := ys @ zs)) s' \<and> key b s' = key b s \<and>
    key_sorted (key b s') (ys @ zs)"
proof -
  obtain h r lm where "dequeue_timeline q e s = Some (set_timeline q e False h r lm s)"
    "tl_inv (X(q := ys @ zs)) (set_timeline q e False h r lm s)" using dequeue_timeline_ok [OF inv xs] by blast
  moreover have "key b (set_timeline q e False h r lm s) = key b s" by (simp add: key_def fun_eq_iff set_timeline_simps)
  ultimately show ?thesis using key_sorted_delete [of "key b s" ys e zs] srt xs by auto
qed

section \<open>The time of a queue\<close>

lemma update_sfq_vtime_window:
  assumes inv: "tl_inv X s" and srt: "key_sorted (key b s) (X q)"
    and w: "keys_near b s (set (mem X s q))" "in_window b (vtime (sfqs s q))"
  shows "win_dist b (vtime (sfqs s q)) \<le> win_dist b (vtime (sfqs (update_sfq_vtime q s) q))"
    "\<forall>y\<in>set (mem X s q). win_dist b (vtime (sfqs (update_sfq_vtime q s) q)) \<le> max (win_dist b (vtime (sfqs s q))) (key b s y)"
    "in_window b (vtime (sfqs (update_sfq_vtime q s) q))"
proof -
  have lm: "leftmost (sfqs s q) = head_opt (X q)" using inv by (simp add: tl_inv_def tlq_def tl.cached_def)
  have step: "win_dist b (vtime (sfqs s q)) \<le> win_dist b (vtime (sfqs (update_sfq_vtime q s) q)) \<and>
    (\<forall>y\<in>set (mem X s q). win_dist b (vtime (sfqs (update_sfq_vtime q s) q)) \<le> max (win_dist b (vtime (sfqs s q))) (key b s y)) \<and>
    in_window b (vtime (sfqs (update_sfq_vtime q s) q))"
    if "vtime (sfqs (update_sfq_vtime q s) q) = max_vruntime (vtime (sfqs s q)) v" "in_window b v"
      "\<And>y. y \<in> set (mem X s q) \<Longrightarrow> win_dist b v \<le> key b s y" for v
    using that max_vruntime_window [OF w(2) that(2)] by (auto intro: max.coboundedI2)
  have h: "key b s l \<le> key b s y" if "X q = l # xs" "y \<in> set (X q)" for l xs y
    using key_sorted_head [of "key b s" l xs y] srt that by simp
  have near: "in_window b (vruntime (ents s y))" if "y \<in> set (mem X s q)" for y using w(1) that by (simp add: keys_near_def)
  consider c where "cur_list s q = [c]" "curr (sfqs s q) = Some c" "joined (ents s c)"
    | "cur_list s q = []" "(case curr (sfqs s q) of Some c \<Rightarrow> if \<not> joined (ents s c) then None else Some c | None \<Rightarrow> None) = None"
    by (cases "curr (sfqs s q)"; cases "joined (ents s (the (curr (sfqs s q))))") (auto simp: cur_list_def)
  then have "win_dist b (vtime (sfqs s q)) \<le> win_dist b (vtime (sfqs (update_sfq_vtime q s) q)) \<and>
    (\<forall>y\<in>set (mem X s q). win_dist b (vtime (sfqs (update_sfq_vtime q s) q)) \<le> max (win_dist b (vtime (sfqs s q))) (key b s y)) \<and>
    in_window b (vtime (sfqs (update_sfq_vtime q s) q))"
  proof cases
    case 1
    have c: "in_window b (vruntime (ents s c))" using near [of c] 1 by (simp add: mem_def)
    show ?thesis
    proof (cases "X q")
      case Nil
      then show ?thesis using 1 lm by (intro step [OF _ c]) (auto simp: update_sfq_vtime_def mem_def key_def)
    next
      case (Cons l xs)
      have l: "in_window b (vruntime (ents s l))" using near [of l] Cons by (simp add: mem_def)
      note m = min_vruntime_window [OF c l]
      show ?thesis
      proof (rule step [OF _ m(2)])
        show "win_dist b (min_vruntime (vruntime (ents s c)) (vruntime (ents s l))) \<le> key b s y" if "y \<in> set (mem X s q)" for y
          using that 1(1) h [OF Cons, of y] m(1) by (auto simp: mem_def key_def)
      qed (use 1 lm Cons in \<open>simp add: update_sfq_vtime_def\<close>)
    qed
  next
    case 2
    show ?thesis
    proof (cases "X q")
      case Nil
      then show ?thesis using 2 lm w(2) by (simp add: update_sfq_vtime_def mem_def)
    next
      case (Cons l xs)
      have l: "in_window b (vruntime (ents s l))" using near [of l] Cons by (simp add: mem_def)
      show ?thesis
      proof (rule step [OF _ l])
        show "win_dist b (vruntime (ents s l)) \<le> key b s y" if "y \<in> set (mem X s q)" for y
          using that 2(1) h [OF Cons, of y] by (simp add: mem_def key_def)
      qed (use 2 lm Cons in \<open>simp add: update_sfq_vtime_def\<close>)
    qed
  qed
  then show "win_dist b (vtime (sfqs s q)) \<le> win_dist b (vtime (sfqs (update_sfq_vtime q s) q))"
    "\<forall>y\<in>set (mem X s q). win_dist b (vtime (sfqs (update_sfq_vtime q s) q)) \<le> max (win_dist b (vtime (sfqs s q))) (key b s y)"
    "in_window b (vtime (sfqs (update_sfq_vtime q s) q))" by blast+
qed

section \<open>Waking and running\<close>

definition wake_bonus :: "tunables \<Rightarrow> u64" where
  "wake_bonus T = (if gentle_sleeper T then drop_bit 1 (sched_min_granularity T) else sched_min_granularity T)"

text \<open>A waking entity keeps its own time unless that is further back than the bonus allows.\<close>

lemma place_entity_window:
  assumes "in_window b (vruntime (ents s e))" "in_window b (vtime (sfqs s q) - wake_bonus (tun s))"
  shows "\<exists>s'. place_entity q e False s = Some s' \<and>
    key b s' e = max (key b s e) (win_dist b (vtime (sfqs s q) - wake_bonus (tun s))) \<and>
    (\<forall>x. x \<noteq> e \<longrightarrow> ents s' x = ents s x) \<and> sfqs s' = sfqs s"
  using max_vruntime_window(1) [OF assms]
  by (simp add: place_entity_def key_def wake_bonus_def Let_def)

text \<open>
  What the running entity is charged: its own time and the start of the period exactly, the virtual
  time by its weight, to within one unit of the exact quotient.
\<close>

lemma charge_curr_ok:
  fixes s :: "'q sched" and c :: eid and q :: qid
  assumes "clock_thread (rq s) \<noteq> timing_start (ents s c)"
  defines "d \<equiv> clock_thread (rq s) - timing_start (ents s c)" and "s' \<equiv> charge_curr q c s"
  shows "sum_exec_time (ents s' c) = sum_exec_time (ents s c) + d" "timing_start (ents s' c) = clock_thread (rq s)"
    "vruntime (ents s' c) = vruntime (ents s c) + fst (scale_delta d c s)"
proof -
  have d: "d \<noteq> 0" using assms(1) by (simp add: d_def)
  obtain w s1 where w: "scale_delta d c (upd_se c (\<lambda>se. se\<lparr>sum_exec_time := sum_exec_time se + d\<rparr>) s) = (w, s1)" by fastforce
  have "fst (scale_delta d c s) = w" using w by (auto simp: scale_delta_def split: if_splits prod.splits)
  moreover note scale_delta_frame [OF w]
  ultimately show "sum_exec_time (ents s' c) = sum_exec_time (ents s c) + d" "timing_start (ents s' c) = clock_thread (rq s)"
    "vruntime (ents s' c) = vruntime (ents s c) + fst (scale_delta d c s)"
    using d w assms(1) by (simp_all add: s'_def charge_curr_def d_def [symmetric] Let_def update_sfq_vtime_frame)
qed

lemma scale_delta_accurate:
  assumes "uint d * 1024 \<le> 4294967296" "inv_ok (se_load (ents s c))" "1 < weight (se_load (ents s c))"
    "weight (se_load (ents s c)) < WMULT_CONST"
  defines "r \<equiv> uint (fst (scale_delta d c s))" and "n \<equiv> uint d * 1024 div uint (weight (se_load (ents s c)))"
  shows "r \<le> n + 1" "n \<le> r + 1"
proof -
  have "r \<le> n + 1 \<and> n \<le> r + 1"
  proof (cases "weight (se_load (ents s c)) = NICE_0_WEIGHT")
    case True
    then show ?thesis by (simp add: r_def n_def scale_delta_def)
  next
    case False
    have "uint d * uint NICE_0_WEIGHT \<le> 4294967296" using assms(1) by simp
    from scale_by_weight_accurate [OF this assms(2-4)] False show ?thesis
      by (simp add: r_def n_def scale_delta_def split_beta)
  qed
  then show "r \<le> n + 1" "n \<le> r + 1" by blast+
qed

end
