(* ===== verification/Clock.thy ===== *)
theory Clock
  imports Sched_Time
begin

text \<open>
  Reading the clock of a processor: on its own processor it never goes back and never passes the end
  of the tick; read from another one, both processors agree on the later of the two times.
\<close>

definition clock_sane :: "u64 \<Rightarrow> clocks \<Rightarrow> nat \<Rightarrow> time_state \<Rightarrow> bool" where
  "clock_sane b C cpu s \<longleftrightarrow>
     clock_window b (st_tick_ns s) (cputick2nsec (cpu_ticks C (st_reads s)) s) (timedata s cpu)"

lemma sched_time_local_ok:
  assumes "clock_sane b C cpu s" and r: "sched_time_local C cpu s = (t, s')"
  shows "st_time (timedata s' cpu) = t" "win_dist b (st_time (timedata s cpu)) \<le> win_dist b t"
    "win_dist b t \<le> max (win_dist b (st_time (timedata s cpu))) (win_dist b (tick_sys_time (timedata s cpu) + st_tick_ns s))"
    "in_window b t" "c \<noteq> cpu \<Longrightarrow> timedata s' c = timedata s c" "st_cpuid s' = st_cpuid s"
proof -
  note w = assms(1) [unfolded clock_sane_def]
  have s': "t = local_value (st_tick_ns s) (cputick2nsec (cpu_ticks C (st_reads s)) s) (timedata s cpu)"
    "s' = set_timedata cpu ((timedata s cpu)\<lparr>st_time := t\<rparr>) (s\<lparr>st_reads := Suc (st_reads s)\<rparr>)"
    using r by (auto simp: sched_time_local_eq Let_def)
  note m = local_value_mono [OF w] local_value_window(2) [OF w]
  show "win_dist b (st_time (timedata s cpu)) \<le> win_dist b t" "in_window b t"
    "win_dist b t \<le> max (win_dist b (st_time (timedata s cpu))) (win_dist b (tick_sys_time (timedata s cpu) + st_tick_ns s))"
    using m by (simp_all only: s'(1))
  show "st_time (timedata s' cpu) = t" "c \<noteq> cpu \<Longrightarrow> timedata s' c = timedata s c" "st_cpuid s' = st_cpuid s"
    by (simp_all add: s'(2))
qed

lemma sched_time_remote_ok:
  assumes "clock_sane b C (st_cpuid s) s" "in_window b (st_time (timedata s cpu))" "cpu \<noteq> st_cpuid s"
  shows "\<exists>v s'. sched_time_remote C cpu s = (v, s') \<and>
    st_time (timedata s' cpu) = v \<and> st_time (timedata s' (st_cpuid s)) = v \<and>
    win_dist b (st_time (timedata s cpu)) \<le> win_dist b v \<and> win_dist b (st_time (timedata s (st_cpuid s))) \<le> win_dist b v"
proof -
  let ?l = "st_cpuid s"
  obtain t s1 where r: "sched_time_local C ?l s = (t, s1)" by fastforce
  note L = sched_time_local_ok [OF assms(1) r]
  have rem: "timedata s1 cpu = timedata s cpu" by (rule L(5) [OF assms(3)])
  have c: "sint (st_time (timedata s cpu) - t) < 0 \<longleftrightarrow> win_dist b (st_time (timedata s cpu)) < win_dist b t"
    by (rule wrap_less_window [OF assms(2) L(4)])
  show ?thesis
  proof (cases "sint (st_time (timedata s cpu) - t) < 0")
    case True
    then show ?thesis using r L(1,2) rem c assms(3) by (simp add: sched_time_remote_def Let_def)
  next
    case False
    then have "win_dist b t \<le> win_dist b (st_time (timedata s cpu))" using c by simp
    then show ?thesis using False r L(1,2) rem assms(3) by (simp add: sched_time_remote_def Let_def)
  qed
qed

lemma sched_time_cpu_ok:
  assumes "\<not> cpu_time_stable s" "sched_time_running s" "clock_sane b C (st_cpuid s) s" "in_window b (st_time (timedata s cpu))"
  shows "\<exists>t s'. sched_time_cpu C cpu s = (t, s') \<and> st_time (timedata s' cpu) = t \<and>
    win_dist b (st_time (timedata s cpu)) \<le> win_dist b t"
proof (cases "cpu = st_cpuid s")
  case True
  obtain t s1 where r: "sched_time_local C (st_cpuid s) s = (t, s1)" by fastforce
  then show ?thesis using True assms(1,2) sched_time_local_ok(1,2) [OF assms(3) r] by (simp add: sched_time_cpu_def)
next
  case False
  then show ?thesis using assms(1,2) sched_time_remote_ok [OF assms(3,4)] by (auto simp: sched_time_cpu_def)
qed

end
