(* ===== verification/Sgfs.thy ===== *)
theory Sgfs
  imports Sched_Time
begin

text \<open>
  The file system of scheduling groups (\<open>sgfs.c\<close>): nodes in a store of addresses (None is a freed
  node), their vnodes, the lock and the file numbers. There is one instance, \<open>sgfs_data\<close>, so the
  pointer \<open>fsinfo\<close> of a node says only whether it is set. \<open>struct sgfs_vdata\<close> has the address of its
  vnode. Addresses, timestamps and errors that the zones, the clock and the kernel's vnode functions
  return are arguments; a lock taken twice, released when free or asserted when free, a freed node,
  a NULL pointer and a failed KASSERT are None.
\<close>

section \<open>State\<close>

type_synonym nid = nat
type_synonym vid = nat

datatype sgfs_type = sgfstype_none | sgfstype_root | sgfstype_dir | sgfstype_this | sgfstype_parent
  | sgfstype_file | sgfstype_symlink

record cred =
  cr_uid :: int
  cr_gid :: int

record sgfs_node =
  nd_name :: string
  nd_fsinfo :: bool
  nd_parent :: "nid option"
  nd_children :: "nid list"
  nd_vnodes :: "vid list"
  refcount :: int
  nd_type :: sgfs_type
  nd_deleted :: bool
  fileno :: nat
  nd_birth :: timespec
  nd_ctime :: timespec
  nd_atime :: timespec
  nd_mtime :: timespec
  nd_uid :: int
  nd_gid :: int
  nd_mode :: int

datatype vtype = VNON | VDIR | VREG | VLNK

record vnode =
  v_mount :: nat
  v_data :: "nid option"
  v_type :: vtype
  vv_root :: bool

record sgfs_info =
  sg_nodes :: "nid \<Rightarrow> sgfs_node option"
  sg_vnodes :: "vid \<Rightarrow> vnode option"
  fs_root :: "nid option"
  fs_locked :: bool
  unrs :: "nat list"

datatype accmode = VEXEC | VWRITE | VREAD | VADMIN

text \<open>
  Kernel services: \<open>alloc_unr\<close> picks a number that is not in use, \<open>vaccess\<close>, \<open>groupmember\<close> and
  \<open>priv_check\<close> decide on permissions.
\<close>

record sgenv =
  alloc_unr :: "nat list \<Rightarrow> nat"
  vaccess :: "vtype \<Rightarrow> int \<Rightarrow> int \<Rightarrow> int \<Rightarrow> accmode \<Rightarrow> cred \<Rightarrow> errno option"
  groupmember :: "int \<Rightarrow> cred \<Rightarrow> bool"
  priv_check :: "errno option"
  sizeof_dirent :: int
  PAGE_SIZE :: int

definition SGFS_NAMELEN :: nat where
  "SGFS_NAMELEN = 255"

definition upd_node :: "nid \<Rightarrow> (sgfs_node \<Rightarrow> sgfs_node) \<Rightarrow> sgfs_info \<Rightarrow> sgfs_info" where
  "upd_node n f s = s\<lparr>sg_nodes := (sg_nodes s)(n := map_option f (sg_nodes s n))\<rparr>"

definition sx_xlock :: "sgfs_info \<Rightarrow> sgfs_info option" where
  "sx_xlock s = (if fs_locked s then None else Some (s\<lparr>fs_locked := True\<rparr>))"

definition sx_xunlock :: "sgfs_info \<Rightarrow> sgfs_info option" where
  "sx_xunlock s = (if fs_locked s then Some (s\<lparr>fs_locked := False\<rparr>) else None)"

section \<open>File numbers\<close>

partial_function (option) sgfs_fileno_alloc :: "sgenv \<Rightarrow> nid \<Rightarrow> sgfs_info \<Rightarrow> sgfs_info option" where
  "sgfs_fileno_alloc E n s = do {
     nd \<leftarrow> sg_nodes s n;
     s \<leftarrow> (case nd_parent nd of
             None \<Rightarrow> Some s
           | Some p \<Rightarrow> do { pd \<leftarrow> sg_nodes s p; if fileno pd = 0 then sgfs_fileno_alloc E p s else Some s });
     (case nd_type nd of
        sgfstype_this \<Rightarrow> do {
          p \<leftarrow> nd_parent nd;
          pd \<leftarrow> sg_nodes s p;
          Some (upd_node n (\<lambda>d. d\<lparr>fileno := fileno pd\<rparr>) s) }
      | sgfstype_parent \<Rightarrow> do {
          p \<leftarrow> nd_parent nd;
          pd \<leftarrow> sg_nodes s p;
          if Some p = fs_root s then Some (upd_node n (\<lambda>d. d\<lparr>fileno := fileno pd\<rparr>) s)
          else do {
            g \<leftarrow> nd_parent pd;
            gd \<leftarrow> sg_nodes s g;
            Some (upd_node n (\<lambda>d. d\<lparr>fileno := fileno gd\<rparr>) s) } }
      | sgfstype_none \<Rightarrow> None
      | _ \<Rightarrow>
          let u = alloc_unr E (unrs s)
          in Some (upd_node n (\<lambda>d. d\<lparr>fileno := u\<rparr>) (s\<lparr>unrs := u # unrs s\<rparr>))) }"

declare sgfs_fileno_alloc.simps [code]

text \<open>\<open>free_unr\<close> panics on a number that is not in use.\<close>

definition sgfs_fileno_free :: "nid \<Rightarrow> sgfs_info \<Rightarrow> sgfs_info option" where
  "sgfs_fileno_free n s = do {
     nd \<leftarrow> sg_nodes s n;
     (case nd_type nd of
        sgfstype_this \<Rightarrow> Some s
      | sgfstype_parent \<Rightarrow> Some s
      | sgfstype_none \<Rightarrow> None
      | _ \<Rightarrow> if fileno nd \<in> set (unrs s) then Some (s\<lparr>unrs := remove1 (fileno nd) (unrs s)\<rparr>) else None) }"

section \<open>References and destruction\<close>

definition sgnode_free :: "nid \<Rightarrow> sgfs_info \<Rightarrow> sgfs_info" where
  "sgnode_free n s = s\<lparr>sg_nodes := (sg_nodes s)(n := None)\<rparr>"

definition sgnode_addref :: "nid \<Rightarrow> sgfs_info \<Rightarrow> sgfs_info option" where
  "sgnode_addref n s = do {
     nd \<leftarrow> sg_nodes s n;
     Some (upd_node n (\<lambda>d. d\<lparr>refcount := refcount d + 1\<rparr>) s) }"

definition is_dir :: "sgfs_node \<Rightarrow> bool" where
  "is_dir nd \<longleftrightarrow> nd_type nd = sgfstype_dir \<or> nd_type nd = sgfstype_root"

text \<open>One round of the loop over the children is a call for the first child; then the loop goes on.\<close>

partial_function (option) sgfs_destroy :: "nid \<Rightarrow> sgfs_info \<Rightarrow> sgfs_info option" where
  "sgfs_destroy n s = do {
     nd \<leftarrow> sg_nodes s n;
     kassert (nd_fsinfo nd);
     if is_dir nd \<and> nd_children nd \<noteq> [] then do {
       s \<leftarrow> sgfs_destroy (hd (nd_children nd)) s;
       sgfs_destroy n s }
     else do {
       s \<leftarrow> (case nd_parent nd of
               None \<Rightarrow> Some s
             | Some p \<Rightarrow> do {
                 pd \<leftarrow> sg_nodes s p;
                 kassert (nd_fsinfo pd = nd_fsinfo nd);
                 Some (upd_node p (\<lambda>d. d\<lparr>nd_children := remove1 n (nd_children d)\<rparr>) s) });
       s \<leftarrow> (if fileno nd \<noteq> 0 then sgfs_fileno_free n s else Some s);
       Some (sgnode_free n s) } }"

declare sgfs_destroy.simps [code]

definition sgnode_release :: "nid \<Rightarrow> sgfs_info \<Rightarrow> sgfs_info option" where
  "sgnode_release n s = do {
     nd \<leftarrow> sg_nodes s n;
     let old = refcount nd;
     let s = upd_node n (\<lambda>d. d\<lparr>refcount := refcount d - 1\<rparr>) s;
     let ex = (if is_dir nd then 3 else 1);
     if old = ex then do {
       let locked = fs_locked s;
       s \<leftarrow> (if \<not> locked then sx_xlock s else Some s);
       s \<leftarrow> sgfs_destroy n s;
       if \<not> locked then sx_xunlock s else Some s }
     else Some s }"

section \<open>Creation\<close>

text \<open>The functions that can report failure return 0 or an error first, as in the source.\<close>

definition sgfs_add_node :: "nid \<Rightarrow> nid \<Rightarrow> sgfs_info \<Rightarrow> (int \<times> sgfs_info) option" where
  "sgfs_add_node parent n s = do {
     pd \<leftarrow> sg_nodes s parent;
     kassert (nd_fsinfo pd);
     kassert (is_dir pd);
     let s = upd_node n (\<lambda>d. d\<lparr>nd_fsinfo := nd_fsinfo pd, nd_parent := Some parent, nd_children := [], nd_vnodes := []\<rparr>) s;
     let s = upd_node parent (\<lambda>d. d\<lparr>nd_children := n # nd_children d\<rparr>) s;
     s \<leftarrow> sgnode_addref parent s;
     Some (0, s) }"

text \<open>What the zone and the clock return for one new node.\<close>

record node_alloc =
  na_addr :: nid
  na_time :: timespec

text \<open>\<open>strncpy\<close> stops at a NUL; the buffer of \<open>SGFS_NAMELEN + 1\<close> characters is zeroed.\<close>

definition sgfs_create_node :: "string \<Rightarrow> cred \<Rightarrow> int \<Rightarrow> sgfs_type \<Rightarrow> node_alloc \<Rightarrow> sgfs_info \<Rightarrow> (nid \<times> sgfs_info) option" where
  "sgfs_create_node name c mode nodetype a s = do {
     kassert (length name \<le> SGFS_NAMELEN + 1);
     let nd = \<lparr>nd_name = takeWhile (\<lambda>ch. ch \<noteq> CHR 0x00) name, nd_fsinfo = False, nd_parent = None, nd_children = [],
               nd_vnodes = [], refcount = 1, nd_type = nodetype, nd_deleted = False, fileno = 0,
               nd_birth = na_time a, nd_ctime = na_time a, nd_atime = na_time a, nd_mtime = na_time a,
               nd_uid = cr_uid c, nd_gid = cr_gid c, nd_mode = mode\<rparr>;
     Some (na_addr a, s\<lparr>sg_nodes := (sg_nodes s)(na_addr a \<mapsto> nd)\<rparr>) }"

definition sgfs_fixup_dir :: "nid \<Rightarrow> cred \<Rightarrow> node_alloc \<Rightarrow> node_alloc \<Rightarrow> sgfs_info \<Rightarrow> (int \<times> sgfs_info) option" where
  "sgfs_fixup_dir parent c a1 a2 s = do {
     (dir, s) \<leftarrow> sgfs_create_node ''.'' c 493 sgfstype_this a1 s;
     (e, s) \<leftarrow> sgfs_add_node parent dir s;
     if e \<noteq> 0 then Some (- 1, sgnode_free dir s)
     else do {
       (dir, s) \<leftarrow> sgfs_create_node ''..'' c 493 sgfstype_parent a2 s;
       (e, s) \<leftarrow> sgfs_add_node parent dir s;
       if e \<noteq> 0 then Some (- 1, sgnode_free dir s) else Some (0, s) } }"

definition sgfs_create_dir ::
    "nid \<Rightarrow> string \<Rightarrow> cred \<Rightarrow> int \<Rightarrow> node_alloc \<times> node_alloc \<times> node_alloc \<Rightarrow> sgfs_info \<Rightarrow> (nid option \<times> sgfs_info) option" where
  "sgfs_create_dir parent name c mode A s = (case A of (a, a1, a2) \<Rightarrow> do {
     (n, s) \<leftarrow> sgfs_create_node name c mode sgfstype_dir a s;
     (e, s) \<leftarrow> sgfs_add_node parent n s;
     if e \<noteq> 0 then Some (None, sgnode_free n s)
     else do {
       (e, s) \<leftarrow> sgfs_fixup_dir n c a1 a2 s;
       if e \<noteq> 0 then do { s \<leftarrow> sgfs_destroy n s; Some (None, s) } else Some (Some n, s) } })"

end
