(* ===== verification/Sgfs_Ops.thy ===== *)
theory Sgfs_Ops
  imports Sgfs
begin

text \<open>
  The operations of the file system (\<open>sgfs.c\<close>, from \<open>sgfs_mount\<close> on) on the store of nodes and
  vnodes. The outcome is the error, 0 being None, what the call hands out, and the new state. Vnode
  locks, vnode use counts and the name cache belong to the kernel and have no state here.
\<close>

section \<open>Vnodes\<close>

text \<open>
  What the kernel's vnode functions return for one \<open>sgfs_allocv\<close>: the new vnode, the errors of
  \<open>getnewvnode\<close>, \<open>insmntque\<close> and \<open>vget\<close>, and what other threads do to the file system while
  \<open>getnewvnode\<close> sleeps.
\<close>

record vn_alloc =
  va_addr :: vid
  va_getnew :: "errno option"
  va_insmntque :: "errno option"
  va_vget :: "errno option"
  va_blocked :: "sgfs_info \<Rightarrow> sgfs_info option"

fun find_vnode :: "nat \<Rightarrow> vid list \<Rightarrow> sgfs_info \<Rightarrow> vid option option" where
  "find_vnode mp [] s = Some None"
| "find_vnode mp (v # vs) s = do {
     vn \<leftarrow> sg_vnodes s v;
     if v_mount vn = mp then Some (Some v) else find_vnode mp vs s }"

definition vnode_kind :: "sgfs_type \<Rightarrow> vtype option" where
  "vnode_kind t = (case t of
       sgfstype_root \<Rightarrow> Some VDIR | sgfstype_dir \<Rightarrow> Some VDIR | sgfstype_this \<Rightarrow> Some VDIR | sgfstype_parent \<Rightarrow> Some VDIR
     | sgfstype_file \<Rightarrow> Some VREG | sgfstype_symlink \<Rightarrow> Some VLNK | sgfstype_none \<Rightarrow> None)"

definition VTON :: "vid \<Rightarrow> sgfs_info \<Rightarrow> nid option" where
  "VTON v s = do { vn \<leftarrow> sg_vnodes s v; v_data vn }"

text \<open>The vnode goes away with its data.\<close>

definition sgfs_reclaim :: "vid \<Rightarrow> sgfs_info \<Rightarrow> sgfs_info option" where
  "sgfs_reclaim v s = do {
     pn \<leftarrow> VTON v s;
     nd \<leftarrow> sg_nodes s pn;
     s \<leftarrow> sx_xlock s;
     let s = s\<lparr>sg_vnodes := (sg_vnodes s)(v := None)\<rparr>;
     let s = upd_node pn (\<lambda>d. d\<lparr>nd_vnodes := remove1 v (nd_vnodes d)\<rparr>) s;
     s \<leftarrow> sgnode_release pn s;
     sx_xunlock s }"

text \<open>
  A vnode made by \<open>getnewvnode\<close> has no data yet (\<open>v_data\<close> is NULL, the type VNON). When another thread
  has made a vnode for the node meanwhile, \<open>vgone\<close> gives this one up: it calls \<open>VOP_RECLAIM\<close>, the
  \<open>sgfs_reclaim\<close> above; \<open>vput\<close> then only drops the kernel's use of it. The code goes on at \<open>found\<close>,
  which unlocks once more.
\<close>

definition vgone_new :: "nat \<Rightarrow> vid \<Rightarrow> sgfs_info \<Rightarrow> sgfs_info option" where
  "vgone_new mp v s =
     sgfs_reclaim v (s\<lparr>sg_vnodes := (sg_vnodes s)(v \<mapsto> \<lparr>v_mount = mp, v_data = None, v_type = VNON, vv_root = False\<rparr>)\<rparr>)"

definition sgfs_allocv ::
    "nat \<Rightarrow> vn_alloc \<Rightarrow> nid \<Rightarrow> sgfs_info \<Rightarrow> (errno option \<times> vid option \<times> sgfs_info) option" where
  "sgfs_allocv mp A n s = do {
     s \<leftarrow> sx_xlock s;
     nd \<leftarrow> sg_nodes s n;
     vd \<leftarrow> find_vnode mp (nd_vnodes nd) s;
     (case vd of
        Some v \<Rightarrow> do { s \<leftarrow> sx_xunlock s; Some (va_vget A, Some v, s) }
      | None \<Rightarrow> do {
          s \<leftarrow> sx_xunlock s;
          if va_getnew A \<noteq> None then Some (va_getnew A, None, s)
          else do {
            s \<leftarrow> va_blocked A s;
            if va_insmntque A \<noteq> None then Some (va_insmntque A, None, s)
            else do {
              s \<leftarrow> sx_xlock s;
              nd \<leftarrow> sg_nodes s n;
              vd \<leftarrow> find_vnode mp (nd_vnodes nd) s;
              (case vd of
                 Some v \<Rightarrow> do {
                   s \<leftarrow> sx_xunlock s;
                   s \<leftarrow> vgone_new mp (va_addr A) s;
                   s \<leftarrow> sx_xunlock s;
                   Some (va_vget A, Some v, s) }
               | None \<Rightarrow> do {
                   let s = upd_node n (\<lambda>d. d\<lparr>nd_vnodes := va_addr A # nd_vnodes d\<rparr>) s;
                   s \<leftarrow> sgnode_addref n s;
                   ty \<leftarrow> vnode_kind (nd_type nd);
                   let vn = \<lparr>v_mount = mp, v_data = Some n, v_type = ty, vv_root = (nd_type nd = sgfstype_root)\<rparr>;
                   let s = s\<lparr>sg_vnodes := (sg_vnodes s)(va_addr A \<mapsto> vn)\<rparr>;
                   s \<leftarrow> sx_xunlock s;
                   Some (None, Some (va_addr A), s) }) } } }) }"

definition sgfs_root :: "nat \<Rightarrow> vn_alloc \<Rightarrow> sgfs_info \<Rightarrow> (errno option \<times> vid option \<times> sgfs_info) option" where
  "sgfs_root mp A s = do { r \<leftarrow> fs_root s; sgfs_allocv mp A r s }"

text \<open>\<open>recycled\<close> is whether \<open>vrecycle\<close> finds the vnode unused and reclaims it.\<close>

definition sgfs_inactive :: "bool \<Rightarrow> vid \<Rightarrow> sgfs_info \<Rightarrow> sgfs_info option" where
  "sgfs_inactive recycled v s = do {
     n \<leftarrow> VTON v s;
     nd \<leftarrow> sg_nodes s n;
     if nd_deleted nd \<and> recycled then sgfs_reclaim v s else Some s }"

section \<open>Attributes and permissions\<close>

record vattr =
  va_type :: vtype
  va_mode :: int
  va_nlink :: int
  va_uid :: int
  va_gid :: int
  va_fsid :: int
  va_fileid :: int
  va_size :: int
  va_blocksize :: int
  va_bytes :: int
  va_atime :: timespec
  va_mtime :: timespec
  va_ctime :: timespec
  va_birthtime :: timespec
  va_gen :: int
  va_flags :: int
  va_rdev :: int
  va_filerev :: int
  va_utimes_null :: bool

text \<open>\<open>VNOVAL\<close>, cast to the type of the field, and \<open>NODEV\<close> are all ones; the identifier of the file system is its mount.\<close>

definition VNOVAL :: int where "VNOVAL = - 1"

definition sgfs_getattr :: "sgenv \<Rightarrow> vid \<Rightarrow> vattr \<Rightarrow> sgfs_info \<Rightarrow> vattr option" where
  "sgfs_getattr E v vap s = do {
     vn \<leftarrow> sg_vnodes s v;
     n \<leftarrow> v_data vn;
     pn \<leftarrow> sg_nodes s n;
     Some (vap\<lparr>va_type := v_type vn, va_mode := nd_mode pn, va_nlink := 1, va_uid := nd_uid pn, va_gid := nd_gid pn,
       va_fsid := int (v_mount vn), va_fileid := int (fileno pn), va_size := 0, va_blocksize := PAGE_SIZE E, va_bytes := 0,
       va_atime := nd_atime pn, va_mtime := nd_mtime pn, va_ctime := nd_ctime pn, va_birthtime := nd_birth pn,
       va_gen := 0, va_flags := 0, va_rdev := - 1, va_filerev := 0\<rparr>) }"

definition zero_vattr :: vattr where
  "zero_vattr = (let z = \<lparr>tv_sec = 0, tv_nsec = 0\<rparr> in
     \<lparr>va_type = VNON, va_mode = 0, va_nlink = 0, va_uid = 0, va_gid = 0, va_fsid = 0, va_fileid = 0, va_size = 0,
      va_blocksize = 0, va_bytes = 0, va_atime = z, va_mtime = z, va_ctime = z, va_birthtime = z, va_gen = 0, va_flags = 0,
      va_rdev = 0, va_filerev = 0, va_utimes_null = False\<rparr>)"

text \<open>\<open>VOP_ACCESS\<close> too.\<close>

definition sgfs_access :: "sgenv \<Rightarrow> vid \<Rightarrow> accmode \<Rightarrow> cred \<Rightarrow> sgfs_info \<Rightarrow> errno option option" where
  "sgfs_access E v acc c s = do {
     vn \<leftarrow> sg_vnodes s v;
     va \<leftarrow> sgfs_getattr E v zero_vattr s;
     Some (vaccess E (v_type vn) (va_mode va) (va_uid va) (va_gid va) acc c) }"

text \<open>
  The three parts of \<open>sgfs_setattr\<close>: an error, or whether something changed. They change the node one
  after the other, and an error of a later part does not undo an earlier one.
\<close>

definition setattr_owner ::
    "sgenv \<Rightarrow> vid \<Rightarrow> nid \<Rightarrow> vattr \<Rightarrow> cred \<Rightarrow> sgfs_info \<Rightarrow> (errno option \<times> bool \<times> sgfs_info) option" where
  "setattr_owner E v n vap c s = do {
     pn \<leftarrow> sg_nodes s n;
     let uid = (if va_uid vap = VNOVAL then nd_uid pn else va_uid vap);
     let gid = (if va_gid vap = VNOVAL then nd_gid pn else va_gid vap);
     if uid \<noteq> nd_uid pn \<or> gid \<noteq> nd_gid pn then do {
       e \<leftarrow> sgfs_access E v VADMIN c s;
       if e \<noteq> None then Some (e, False, s)
       else if (cr_uid c \<noteq> nd_uid pn \<or> uid \<noteq> nd_uid pn \<or> gid \<noteq> nd_gid pn \<and> \<not> groupmember E gid c) \<and> priv_check E \<noteq> None
       then Some (priv_check E, False, s)
       else Some (None, True, upd_node n (\<lambda>d. d\<lparr>nd_uid := uid, nd_gid := gid\<rparr>) s) }
     else Some (None, False, s) }"

definition setattr_mode ::
    "sgenv \<Rightarrow> nid \<Rightarrow> vattr \<Rightarrow> cred \<Rightarrow> sgfs_info \<Rightarrow> (errno option \<times> bool \<times> sgfs_info) option" where
  "setattr_mode E n vap c s = do {
     pn \<leftarrow> sg_nodes s n;
     if va_mode vap \<noteq> VNOVAL then
       if cr_uid c \<noteq> nd_uid pn \<and> priv_check E \<noteq> None then Some (priv_check E, False, s)
       else Some (None, True, upd_node n (\<lambda>d. d\<lparr>nd_mode := va_mode vap\<rparr>) s)
     else Some (None, False, s) }"

definition setattr_times ::
    "sgenv \<Rightarrow> vid \<Rightarrow> nid \<Rightarrow> vattr \<Rightarrow> cred \<Rightarrow> sgfs_info \<Rightarrow> (errno option \<times> bool \<times> sgfs_info) option" where
  "setattr_times E v n vap c s =
     (if tv_sec (va_atime vap) \<noteq> VNOVAL \<or> tv_sec (va_mtime vap) \<noteq> VNOVAL then do {
        e \<leftarrow> sgfs_access E v VADMIN c s;
        e \<leftarrow> (if e \<noteq> None \<and> va_utimes_null vap then sgfs_access E v VWRITE c s else Some e);
        if e \<noteq> None then Some (e, False, s)
        else do {
          let s = (if tv_sec (va_atime vap) \<noteq> VNOVAL then upd_node n (\<lambda>d. d\<lparr>nd_atime := va_atime vap\<rparr>) s else s);
          let s = (if tv_sec (va_mtime vap) \<noteq> VNOVAL then upd_node n (\<lambda>d. d\<lparr>nd_mtime := va_mtime vap\<rparr>) s else s);
          Some (None, True, s) } }
      else Some (None, False, s))"

definition sgfs_setattr ::
    "sgenv \<Rightarrow> timespec \<Rightarrow> vid \<Rightarrow> vattr \<Rightarrow> cred \<Rightarrow> sgfs_info \<Rightarrow> (errno option \<times> sgfs_info) option" where
  "sgfs_setattr E now v vap c s =
     (if va_type vap \<noteq> VNON \<or> va_nlink vap \<noteq> VNOVAL \<or> va_fsid vap \<noteq> VNOVAL \<or> va_fileid vap \<noteq> VNOVAL \<or>
         va_blocksize vap \<noteq> VNOVAL \<or> va_flags vap \<noteq> VNOVAL \<and> va_flags vap \<noteq> 0 \<or> va_rdev vap \<noteq> VNOVAL \<or>
         va_bytes vap \<noteq> VNOVAL \<or> va_gen vap \<noteq> VNOVAL
      then Some (Some EINVAL, s)
      else do {
        n \<leftarrow> VTON v s;
        (e, c1, s) \<leftarrow> setattr_owner E v n vap c s;
        if e \<noteq> None then Some (e, s)
        else do {
          (e, c2, s) \<leftarrow> setattr_mode E n vap c s;
          if e \<noteq> None then Some (e, s)
          else do {
            (e, c3, s) \<leftarrow> setattr_times E v n vap c s;
            if e \<noteq> None then Some (e, s)
            else Some (None, if c1 \<or> c2 \<or> c3 then upd_node n (\<lambda>d. d\<lparr>nd_ctime := now\<rparr>) s else s) } } })"

end
