(* ===== verification/Sgfs_Dir.thy ===== *)
theory Sgfs_Dir
  imports Sgfs_Ops
begin

text \<open>
  The operations of the file system on directories and on the instance as a whole (\<open>sgfs.c\<close>): search and
  lookup, reading, making and removing directories, mounting, setting up and tearing down.
\<close>

section \<open>Search and lookup\<close>

definition char_at :: "string \<Rightarrow> nat \<Rightarrow> char" where
  "char_at xs i = (if i < length xs then xs ! i else CHR 0x00)"

text \<open>Whether \<open>strncmp\<close> returns 0.\<close>

fun strncmp_eq :: "string \<Rightarrow> string \<Rightarrow> nat \<Rightarrow> bool" where
  "strncmp_eq xs ys 0 = True"
| "strncmp_eq xs ys (Suc k) =
     (char_at xs 0 = char_at ys 0 \<and> (char_at xs 0 = CHR 0x00 \<or> strncmp_eq (tl xs) (tl ys) k))"

definition name_matches :: "string \<Rightarrow> string \<Rightarrow> bool" where
  "name_matches nm name \<longleftrightarrow> strncmp_eq nm name (length name) \<and> char_at nm (length name) = CHR 0x00"

fun scan_nodes :: "string \<Rightarrow> nid list \<Rightarrow> sgfs_info \<Rightarrow> nid option option" where
  "scan_nodes name [] s = Some None"
| "scan_nodes name (c # cs) s = do {
     nd \<leftarrow> sg_nodes s c;
     if name_matches (nd_name nd) name then Some (Some c) else scan_nodes name cs s }"

definition sgfs_search :: "nid \<Rightarrow> string \<Rightarrow> sgfs_info \<Rightarrow> nid option option" where
  "sgfs_search parent name s = do {
     pd \<leftarrow> sg_nodes s parent;
     kassert (fs_locked s);
     scan_nodes name (nd_children pd) s }"

datatype nameiop = LOOKUP | CREATE | DELETE | RENAME

text \<open>A component of a path: the name is the \<open>cn_namelen\<close> characters at \<open>cn_nameptr\<close>.\<close>

record componentname =
  cn_name :: string
  cn_nameiop :: nameiop
  cn_islast :: bool
  cn_isdotdot :: bool
  cn_lockparent :: bool
  cn_hasbuf :: bool
  cn_cred :: cred

text \<open>
  The shortcut after the permission check of DELETE compares \<open>*vpp\<close>, which is NULLVP there, with the
  vnode of the directory: it is never taken.
\<close>

definition sgfs_lookupx ::
    "sgenv \<Rightarrow> vid \<Rightarrow> componentname \<Rightarrow> vn_alloc \<Rightarrow> sgfs_info \<Rightarrow> (errno option \<times> vid option \<times> sgfs_info) option" where
  "sgfs_lookupx E dvp cn A s = do {
     vn \<leftarrow> sg_vnodes s dvp;
     pd \<leftarrow> v_data vn;
     pdn \<leftarrow> sg_nodes s pd;
     if v_type vn \<noteq> VDIR then Some (Some ENOTDIR, None, s)
     else do {
       e \<leftarrow> sgfs_access E dvp VEXEC (cn_cred cn) s;
       if e \<noteq> None then Some (e, None, s)
       else if length (cn_name cn) \<ge> SGFS_NAMELEN then Some (Some ENOENT, None, s)
       else if cn_name cn = ''.'' then
         if cn_islast cn \<and> cn_nameiop cn \<noteq> LOOKUP then Some (Some EINVAL, None, s) else Some (None, Some dvp, s)
       else if cn_isdotdot cn then
         if vv_root vn then Some (Some EIO, None, s)
         else if cn_islast cn \<and> cn_nameiop cn \<noteq> LOOKUP then Some (Some EINVAL, None, s)
         else do {
           pn \<leftarrow> nd_parent pdn;
           sgfs_allocv (v_mount vn) A pn s }
       else do {
         s \<leftarrow> sx_xlock s;
         r \<leftarrow> sgfs_search pd (cn_name cn) s;
         s \<leftarrow> (case r of Some pn \<Rightarrow> sgnode_addref pn s | None \<Rightarrow> Some s);
         s \<leftarrow> sx_xunlock s;
         (case r of
            Some pn \<Rightarrow> do {
              e \<leftarrow> (if cn_nameiop cn = DELETE \<and> cn_islast cn then sgfs_access E dvp VWRITE (cn_cred cn) s else Some None);
              if e \<noteq> None then do { s \<leftarrow> sgnode_release pn s; Some (e, None, s) }
              else do {
                (e, v, s) \<leftarrow> sgfs_allocv (v_mount vn) A pn s;
                s \<leftarrow> sgnode_release pn s;
                Some (e, v, s) } }
          | None \<Rightarrow>
              if (cn_nameiop cn = CREATE \<or> cn_nameiop cn = RENAME) \<and> cn_lockparent cn \<and> cn_islast cn then do {
                e \<leftarrow> sgfs_access E dvp VWRITE (cn_cred cn) s;
                Some (if e \<noteq> None then e else Some EJUSTRETURN, None, s) }
              else Some (Some ENOENT, None, s)) } } }"

definition sgfs_lookup ::
    "sgenv \<Rightarrow> vid \<Rightarrow> componentname \<Rightarrow> vn_alloc \<Rightarrow> sgfs_info \<Rightarrow> (errno option \<times> vid option \<times> sgfs_info) option" where
  "sgfs_lookup E dvp cn A s = sgfs_lookupx E dvp cn A s"

section \<open>Reading\<close>

text \<open>\<open>uiomove_frombuf\<close> copies the part of the buffer the request asks for, or fails.\<close>

definition sgfs_read :: "(string \<Rightarrow> errno + string) \<Rightarrow> vid \<Rightarrow> sgfs_info \<Rightarrow> (errno + string) option" where
  "sgfs_read uiomove_frombuf v s = do {
     vn \<leftarrow> sg_vnodes s v;
     if v_type vn \<noteq> VREG then Some (Inl EINVAL)
     else do {
       n \<leftarrow> v_data vn;
       Some (uiomove_frombuf (''hello world'' @ [CHR 0x0A])) } }"

datatype dtype = DT_DIR | DT_REG | DT_LNK

record dirent =
  d_fileno :: nat
  d_name :: string
  d_type :: dtype

definition dirent_kind :: "sgfs_type \<Rightarrow> dtype option" where
  "dirent_kind t = (case t of
       sgfstype_root \<Rightarrow> Some DT_DIR | sgfstype_dir \<Rightarrow> Some DT_DIR | sgfstype_this \<Rightarrow> Some DT_DIR
     | sgfstype_parent \<Rightarrow> Some DT_DIR | sgfstype_file \<Rightarrow> Some DT_REG | sgfstype_symlink \<Rightarrow> Some DT_LNK
     | sgfstype_none \<Rightarrow> None)"

text \<open>
  The loop over the children: \<open>start\<close> is the offset asked for, \<open>offset\<close> and \<open>resid\<close> the running
  offset and the room left, \<open>out\<close> the entries written. \<open>rd_error\<close> is what \<open>vfs_read_dirent\<close> returns
  for the entry at an offset; without an error it writes the entry.
\<close>

fun readdir_loop ::
    "sgenv \<Rightarrow> (int \<Rightarrow> errno option) \<Rightarrow> int \<Rightarrow> nid list \<Rightarrow> int \<Rightarrow> int \<Rightarrow> dirent list \<Rightarrow> sgfs_info \<Rightarrow>
       (errno option \<times> int \<times> dirent list \<times> sgfs_info) option" where
  "readdir_loop E rd_error start [] offset resid out s = Some (None, offset, out, s)"
| "readdir_loop E rd_error start (c # cs) offset resid out s = do {
     nd \<leftarrow> sg_nodes s c;
     s \<leftarrow> (if fileno nd = 0 then sgfs_fileno_alloc E c s else Some s);
     nd \<leftarrow> sg_nodes s c;
     ty \<leftarrow> dirent_kind (nd_type nd);
     let entry = \<lparr>d_fileno = fileno nd, d_name = take (SGFS_NAMELEN - 1) (nd_name nd), d_type = ty\<rparr>;
     if sizeof_dirent E > resid then Some (None, offset, out, s)
     else if offset \<ge> start then
       if rd_error offset \<noteq> None then Some (rd_error offset, offset, out, s)
       else readdir_loop E rd_error start cs (offset + sizeof_dirent E) (resid - sizeof_dirent E) (out @ [entry]) s
     else readdir_loop E rd_error start cs (offset + sizeof_dirent E) resid out s }"

text \<open>Also the new offset of the request.\<close>

definition sgfs_readdir ::
    "sgenv \<Rightarrow> (int \<Rightarrow> errno option) \<Rightarrow> vid \<Rightarrow> int \<Rightarrow> int \<Rightarrow> sgfs_info \<Rightarrow>
       (errno option \<times> int \<times> dirent list \<times> sgfs_info) option" where
  "sgfs_readdir E rd_error v start resid s = do {
     vn \<leftarrow> sg_vnodes s v;
     pd \<leftarrow> v_data vn;
     if v_type vn \<noteq> VDIR then Some (Some ENOTDIR, start, [], s)
     else if start < 0 then Some (Some EINVAL, start, [], s)
     else do {
       s \<leftarrow> sx_xlock s;
       pdn \<leftarrow> sg_nodes s pd;
       (e, offset, out, s) \<leftarrow> readdir_loop E rd_error start (nd_children pdn) 0 resid [] s;
       s \<leftarrow> sx_xunlock s;
       Some (e, offset, out, s) } }"

section \<open>Making and removing directories\<close>

definition sgfs_mkdir ::
    "vid \<Rightarrow> componentname \<Rightarrow> int \<Rightarrow> node_alloc \<times> node_alloc \<times> node_alloc \<Rightarrow> vn_alloc \<Rightarrow> sgfs_info \<Rightarrow>
       (errno option \<times> vid option \<times> sgfs_info) option" where
  "sgfs_mkdir dvp cn mode N A s = do {
     vn \<leftarrow> sg_vnodes s dvp;
     pd \<leftarrow> v_data vn;
     pdn \<leftarrow> sg_nodes s pd;
     if nd_type pdn \<noteq> sgfstype_root \<and> nd_type pdn \<noteq> sgfstype_dir then Some (Some ENOTDIR, None, s)
     else do {
       s \<leftarrow> sx_xlock s;
       kassert (cn_hasbuf cn);
       (r, s) \<leftarrow> sgfs_create_dir pd (cn_name cn) (cn_cred cn) mode N s;
       s \<leftarrow> (case r of Some pn \<Rightarrow> sgnode_addref pn s | None \<Rightarrow> Some s);
       s \<leftarrow> sx_xunlock s;
       (case r of
          None \<Rightarrow> Some (Some ENOSPC, None, s)
        | Some pn \<Rightarrow> do {
            (e, v, s) \<leftarrow> sgfs_allocv (v_mount vn) A pn s;
            s \<leftarrow> sgnode_release pn s;
            Some (e, v, s) }) } }"

definition sgfs_rmdir :: "vid \<Rightarrow> sgfs_info \<Rightarrow> (errno option \<times> sgfs_info) option" where
  "sgfs_rmdir v s = do {
     pn \<leftarrow> VTON v s;
     nd \<leftarrow> sg_nodes s pn;
     if nd_type nd \<noteq> sgfstype_dir then Some (Some ENOTDIR, s)
     else do {
       s \<leftarrow> sx_xlock s;
       if nd_deleted nd then do { s \<leftarrow> sx_xunlock s; Some (Some ENOENT, s) }
       else (case nd_children nd of
               c1 # c2 # rest \<Rightarrow>
                 if rest \<noteq> [] then do { s \<leftarrow> sx_xunlock s; Some (Some ENOTEMPTY, s) }
                 else do {
                   pt \<leftarrow> nd_parent nd;
                   let s = upd_node pn (\<lambda>d. d\<lparr>nd_parent := None, nd_deleted := True\<rparr>) s;
                   let s = upd_node pt (\<lambda>d. d\<lparr>nd_children := remove1 pn (nd_children d)\<rparr>) s;
                   s \<leftarrow> sgnode_release pn s;
                   s \<leftarrow> sgnode_release pt s;
                   s \<leftarrow> sx_xunlock s;
                   Some (None, s) }
             | _ \<Rightarrow> None) } }"

section \<open>The instance\<close>

record mount =
  mnt_update :: bool
  mnt_local :: bool
  mnt_data :: bool
  f_from :: string
  f_bsize :: int
  f_iosize :: int
  f_blocks :: int
  f_bfree :: int
  f_bavail :: int
  f_files :: int
  f_ffree :: int

definition sgfs_mount :: "sgenv \<Rightarrow> mount \<Rightarrow> errno option \<times> mount" where
  "sgfs_mount E mp =
     (if mnt_update mp then (Some EOPNOTSUPP, mp)
      else (None, mp\<lparr>mnt_data := True, mnt_local := True, f_from := ''sgfs'', f_bsize := PAGE_SIZE E, f_iosize := PAGE_SIZE E,
              f_blocks := 1, f_bfree := 0, f_bavail := 0, f_files := 1, f_ffree := 0\<rparr>))"

text \<open>Unmounting is the kernel's \<open>vflush\<close>, which calls \<open>sgfs_reclaim\<close> on the vnodes it gives up.\<close>

definition sgfs_unmount ::
    "(bool \<Rightarrow> sgfs_info \<Rightarrow> (errno option \<times> sgfs_info) option) \<Rightarrow> bool \<Rightarrow> sgfs_info \<Rightarrow> (errno option \<times> sgfs_info) option" where
  "sgfs_unmount vflush mnt_force s = vflush mnt_force s"

definition sgfs_init :: "sgenv \<Rightarrow> cred \<Rightarrow> node_alloc \<times> node_alloc \<times> node_alloc \<Rightarrow> sgfs_info option" where
  "sgfs_init E c A = (case A of (a, a1, a2) \<Rightarrow> do {
     let s = \<lparr>sg_nodes = (\<lambda>_. None), sg_vnodes = (\<lambda>_. None), fs_root = None, fs_locked = False, unrs = []\<rparr>;
     (root, s) \<leftarrow> sgfs_create_node ''/'' c 1023 sgfstype_root a s;
     let s = upd_node root (\<lambda>d. d\<lparr>nd_fsinfo := True, nd_children := [], nd_vnodes := []\<rparr>) s;
     let s = s\<lparr>fs_root := Some root\<rparr>;
     s \<leftarrow> sgfs_fileno_alloc E root s;
     (e, s) \<leftarrow> sgfs_fixup_dir root c a1 a2 s;
     Some s })"

text \<open>
  \<open>sgfs_uninit\<close> tests the constant \<open>unloadable\<close>, which the source defines as 0: as compiled, the
  file system refuses to be unloaded. The rest of the function is modelled too, for the constant set
  the other way. \<open>delete_unrhdr\<close> wants no number in use, and \<open>sx_destroy\<close> a free lock.
\<close>

definition unloadable :: bool where "unloadable = False"

definition sgfs_uninit :: "bool \<Rightarrow> sgfs_info \<Rightarrow> (errno option \<times> sgfs_info) option" where
  "sgfs_uninit unl s =
     (if \<not> unl then Some (Some EOPNOTSUPP, s)
      else do {
        r \<leftarrow> fs_root s;
        s \<leftarrow> sgfs_destroy r s;
        kassert (unrs s = []);
        kassert (\<not> fs_locked s);
        Some (None, s\<lparr>fs_root := None\<rparr>) })"

end
