(* ===== verification/Sgfs_View.thy ===== *)
theory Sgfs_View
  imports Sgfs_Dir
begin

text \<open>
  The abstract view of the file system: a record of total functions on addresses, with defaults for freed
  nodes. Each primitive change of the store is one update of the view, and the invariant of the
  following theories is stated on the view.
\<close>

record fsview =
  kind :: "nid \<Rightarrow> sgfs_type option"
  par :: "nid \<Rightarrow> nid option"
  kids :: "nid \<Rightarrow> nid list"
  vns :: "nid \<Rightarrow> vid list"
  gone :: "nid \<Rightarrow> bool"
  fno :: "nid \<Rightarrow> nat"
  nam :: "nid \<Rightarrow> string"
  cnt :: "nid \<Rightarrow> int"
  info :: "nid \<Rightarrow> bool"
  vnod :: "vid \<Rightarrow> vnode option"
  vroot :: "nid option"
  unos :: "nat list"

definition of_node :: "'a \<Rightarrow> (sgfs_node \<Rightarrow> 'a) \<Rightarrow> sgfs_info \<Rightarrow> nid \<Rightarrow> 'a" where
  "of_node d f s n = (case sg_nodes s n of None \<Rightarrow> d | Some nd \<Rightarrow> f nd)"

definition view :: "sgfs_info \<Rightarrow> fsview" where
  "view s = \<lparr>kind = of_node None (Some \<circ> nd_type) s, par = of_node None nd_parent s, kids = of_node [] nd_children s,
     vns = of_node [] nd_vnodes s, gone = of_node False nd_deleted s, fno = of_node 0 fileno s, nam = of_node [] nd_name s,
     cnt = of_node 0 refcount s, info = of_node False nd_fsinfo s, vnod = sg_vnodes s, vroot = fs_root s, unos = unrs s\<rparr>"

section \<open>Reading a node through the view\<close>

lemma of_node_Some: "sg_nodes s n = Some nd \<Longrightarrow> of_node d f s n = f nd"
  by (simp add: of_node_def)

lemma node_view:
  assumes "sg_nodes s n = Some nd"
  shows "kind (view s) n = Some (nd_type nd)" "par (view s) n = nd_parent nd" "kids (view s) n = nd_children nd"
    "vns (view s) n = nd_vnodes nd" "gone (view s) n = nd_deleted nd" "fno (view s) n = fileno nd"
    "nam (view s) n = nd_name nd" "cnt (view s) n = refcount nd" "info (view s) n = nd_fsinfo nd"
  using assms by (simp_all add: view_def of_node_def)

lemma live_view: "kind (view s) n \<noteq> None \<longleftrightarrow> (\<exists>nd. sg_nodes s n = Some nd)"
  by (auto simp: view_def of_node_def split: option.splits)

lemma kind_obtain:
  assumes "kind (view s) n = Some k" obtains nd where "sg_nodes s n = Some nd" "nd_type nd = k"
proof -
  have "kind (view s) n \<noteq> None" using assms by simp
  then obtain nd where "sg_nodes s n = Some nd" using live_view by blast
  moreover from this have "nd_type nd = k" using assms by (simp add: node_view)
  ultimately show ?thesis using that by blast
qed

lemma vnod_view [simp]: "vnod (view s) = sg_vnodes s" "vroot (view s) = fs_root s" "unos (view s) = unrs s"
  by (simp_all add: view_def)

section \<open>Changing a node through the view\<close>

lemma of_node_upd:
  "of_node d f (upd_node n g s) = (of_node d f s)(n := (case sg_nodes s n of None \<Rightarrow> d | Some nd \<Rightarrow> f (g nd)))"
  by (auto simp: of_node_def upd_node_def fun_eq_iff split: option.splits)

lemma of_node_same: "sg_nodes s n = Some nd \<Longrightarrow> (of_node d f s)(n := f nd) = of_node d f s"
  by (auto simp: of_node_def)

lemma upd_node_rest [simp]:
  "sg_vnodes (upd_node n g s) = sg_vnodes s" "fs_root (upd_node n g s) = fs_root s" "unrs (upd_node n g s) = unrs s"
  "fs_locked (upd_node n g s) = fs_locked s"
  by (simp_all add: upd_node_def)

lemma upd_node_at: "sg_nodes (upd_node n g s) m = (if m = n then map_option g (sg_nodes s n) else sg_nodes s m)"
  by (simp add: upd_node_def)

lemma view_upd:
  assumes "sg_nodes s n = Some nd"
  shows "view (upd_node n g s) = (view s)\<lparr>kind := (kind (view s))(n \<mapsto> nd_type (g nd)),
    par := (par (view s))(n := nd_parent (g nd)), kids := (kids (view s))(n := nd_children (g nd)),
    vns := (vns (view s))(n := nd_vnodes (g nd)), gone := (gone (view s))(n := nd_deleted (g nd)),
    fno := (fno (view s))(n := fileno (g nd)), nam := (nam (view s))(n := nd_name (g nd)),
    cnt := (cnt (view s))(n := refcount (g nd)), info := (info (view s))(n := nd_fsinfo (g nd))\<rparr>"
  using assms by (simp add: view_def of_node_upd)

lemma view_same:
  assumes "sg_nodes s n = Some nd"
  shows "(kind (view s))(n \<mapsto> nd_type nd) = kind (view s)" "(par (view s))(n := nd_parent nd) = par (view s)"
    "(kids (view s))(n := nd_children nd) = kids (view s)" "(vns (view s))(n := nd_vnodes nd) = vns (view s)"
    "(gone (view s))(n := nd_deleted nd) = gone (view s)" "(fno (view s))(n := fileno nd) = fno (view s)"
    "(nam (view s))(n := nd_name nd) = nam (view s)" "(cnt (view s))(n := refcount nd) = cnt (view s)"
    "(info (view s))(n := nd_fsinfo nd) = info (view s)"
  using node_view [OF assms] by (simp_all add: fun_upd_idem)

lemma view_rest:
  "view (s\<lparr>fs_locked := b\<rparr>) = view s" "view (s\<lparr>unrs := us\<rparr>) = (view s)\<lparr>unos := us\<rparr>"
  "view (s\<lparr>sg_vnodes := V\<rparr>) = (view s)\<lparr>vnod := V\<rparr>" "view (s\<lparr>fs_root := r\<rparr>) = (view s)\<lparr>vroot := r\<rparr>"
  by (simp_all add: view_def of_node_def fun_eq_iff)

text \<open>The changes the code makes.\<close>

lemma view_changes:
  assumes "sg_nodes s n = Some nd"
  shows "view (upd_node n (\<lambda>d. d\<lparr>refcount := k d\<rparr>) s) = (view s)\<lparr>cnt := (cnt (view s))(n := k nd)\<rparr>"
    "view (upd_node n (\<lambda>d. d\<lparr>nd_children := cs d\<rparr>) s) = (view s)\<lparr>kids := (kids (view s))(n := cs nd)\<rparr>"
    "view (upd_node n (\<lambda>d. d\<lparr>nd_vnodes := vs d\<rparr>) s) = (view s)\<lparr>vns := (vns (view s))(n := vs nd)\<rparr>"
    "view (upd_node n (\<lambda>d. d\<lparr>fileno := u\<rparr>) s) = (view s)\<lparr>fno := (fno (view s))(n := u)\<rparr>"
    "view (upd_node n (\<lambda>d. d\<lparr>nd_parent := None, nd_deleted := True\<rparr>) s) =
       (view s)\<lparr>par := (par (view s))(n := None), gone := (gone (view s))(n := True)\<rparr>"
    "view (upd_node n (\<lambda>d. d\<lparr>nd_uid := i, nd_gid := j\<rparr>) s) = view s"
    "view (upd_node n (\<lambda>d. d\<lparr>nd_mode := i\<rparr>) s) = view s" "view (upd_node n (\<lambda>d. d\<lparr>nd_atime := t\<rparr>) s) = view s"
    "view (upd_node n (\<lambda>d. d\<lparr>nd_mtime := t\<rparr>) s) = view s" "view (upd_node n (\<lambda>d. d\<lparr>nd_ctime := t\<rparr>) s) = view s"
  by (simp_all add: view_upd [OF assms] view_same [OF assms])

text \<open>A freed node, and the view without it.\<close>

definition drop_node :: "nid \<Rightarrow> fsview \<Rightarrow> fsview" where
  "drop_node n V = V\<lparr>kind := (kind V)(n := None), par := (par V)(n := None), kids := (kids V)(n := []), vns := (vns V)(n := []),
     gone := (gone V)(n := False), fno := (fno V)(n := 0), nam := (nam V)(n := []), cnt := (cnt V)(n := 0),
     info := (info V)(n := False)\<rparr>"

lemma view_free: "view (sgnode_free n s) = drop_node n (view s)"
  by (simp add: view_def drop_node_def sgnode_free_def of_node_def fun_eq_iff)

text \<open>A new node, and the view with it.\<close>

definition new_node :: "nid \<Rightarrow> string \<Rightarrow> sgfs_type \<Rightarrow> nid \<Rightarrow> fsview \<Rightarrow> fsview" where
  "new_node n name ty p V = V\<lparr>kind := (kind V)(n \<mapsto> ty), par := (par V)(n \<mapsto> p), kids := (kids V)(n := [], p := n # kids V p),
     vns := (vns V)(n := []), gone := (gone V)(n := False), fno := (fno V)(n := 0), nam := (nam V)(n := name),
     cnt := (cnt V)(n := 1, p := cnt V p + 1), info := (info V)(n := True)\<rparr>"

lemma lock_ops [simp]:
  "\<not> fs_locked s \<Longrightarrow> sx_xlock s = Some (s\<lparr>fs_locked := True\<rparr>)" "fs_locked s \<Longrightarrow> sx_xunlock s = Some (s\<lparr>fs_locked := False\<rparr>)"
  by (simp_all add: sx_xlock_def sx_xunlock_def)

end
