(* ===== verification/Sgfs_Inv.thy ===== *)
theory Sgfs_Inv
  imports Sgfs_View
begin

text \<open>
  The invariant of the file system, on its view, and its preservation by the primitive changes. \<open>H n\<close> is
  the number of temporary references on node \<open>n\<close>, a directory, that the running operation holds.
\<close>

section \<open>The invariant\<close>

text \<open>Parents and children agree, and a freed node is nowhere.\<close>

definition links_inv :: "fsview \<Rightarrow> bool" where
  "links_inv V \<longleftrightarrow> (\<forall>n c. c \<in> set (kids V n) \<longleftrightarrow> par V c = Some n) \<and> (\<forall>n. distinct (kids V n)) \<and>
     (\<forall>n. kind V n = None \<longrightarrow> kids V n = [] \<and> par V n = None \<and> vns V n = [] \<and> \<not> gone V n) \<and>
     finite {n. kind V n \<noteq> None} \<and> (\<exists>rk :: nid \<Rightarrow> nat. \<forall>c p. par V c = Some p \<longrightarrow> rk p < rk c)"

text \<open>A directory ends with its two dot entries; all before them are directories.\<close>

definition dots :: "fsview \<Rightarrow> nid \<Rightarrow> nid \<Rightarrow> nid \<Rightarrow> bool" where
  "dots V n b a \<longleftrightarrow> (\<exists>xs. kids V n = xs @ [b, a] \<and> (\<forall>x\<in>set xs. kind V x = Some sgfstype_dir)) \<and>
     kind V b = Some sgfstype_parent \<and> kind V a = Some sgfstype_this \<and> nam V b = ''..'' \<and> nam V a = ''.''"

definition dir_kind :: "sgfs_type option \<Rightarrow> bool" where
  "dir_kind k \<longleftrightarrow> k = Some sgfstype_root \<or> k = Some sgfstype_dir"

definition dot_kind :: "sgfs_type option \<Rightarrow> bool" where
  "dot_kind k \<longleftrightarrow> k = Some sgfstype_this \<or> k = Some sgfstype_parent"

text \<open>A directory without a parent is the root or one that was removed.\<close>

definition shape_inv :: "fsview \<Rightarrow> bool" where
  "shape_inv V \<longleftrightarrow> vroot V \<noteq> None \<and>
     (\<forall>n. kind V n \<noteq> None \<longrightarrow> info V n \<and> (dir_kind (kind V n) \<or> dot_kind (kind V n))) \<and>
     (\<forall>n. vroot V = Some n \<longleftrightarrow> kind V n = Some sgfstype_root) \<and>
     (\<forall>n. vroot V = Some n \<longrightarrow> par V n = None \<and> \<not> gone V n) \<and>
     (\<forall>n. kind V n = Some sgfstype_dir \<longrightarrow> (par V n = None \<longleftrightarrow> gone V n)) \<and>
     (\<forall>n. dir_kind (kind V n) \<longrightarrow> (\<exists>b a. dots V n b a)) \<and>
     (\<forall>n. dot_kind (kind V n) \<longrightarrow> par V n \<noteq> None \<and> kids V n = [] \<and> vns V n = [] \<and> \<not> gone V n)"

text \<open>Vnodes stand for directories, one for each mount.\<close>

definition vnode_inv :: "fsview \<Rightarrow> bool" where
  "vnode_inv V \<longleftrightarrow> (\<forall>n. distinct (vns V n)) \<and>
     (\<forall>n v. v \<in> set (vns V n) \<longleftrightarrow> (\<exists>vn. vnod V v = Some vn \<and> v_data vn = Some n)) \<and>
     (\<forall>v vn. vnod V v = Some vn \<longrightarrow> v_type vn = VDIR \<and>
        (\<exists>n. v_data vn = Some n \<and> dir_kind (kind V n) \<and> (vv_root vn \<longleftrightarrow> kind V n = Some sgfstype_root))) \<and>
     (\<forall>v w vn wn. vnod V v = Some vn \<and> vnod V w = Some wn \<and> v_data vn = v_data wn \<and> v_mount vn = v_mount wn \<longrightarrow> v = w)"

text \<open>
  The reference count is one for the link from the parent, one for each child and each vnode, and the
  temporary ones; a removed directory has not yet lost its last one besides those of its dot entries.
\<close>

definition refs_inv :: "(nid \<Rightarrow> int) \<Rightarrow> fsview \<Rightarrow> bool" where
  "refs_inv H V \<longleftrightarrow> (\<forall>n. 0 \<le> H n \<and> (\<not> dir_kind (kind V n) \<longrightarrow> H n = 0) \<and> (kind V n \<noteq> None \<longrightarrow>
     cnt V n = H n + (if gone V n then 0 else 1) + int (length (kids V n)) + int (length (vns V n)) \<and>
     (gone V n \<longrightarrow> 2 < cnt V n)))"

definition name_inv :: "fsview \<Rightarrow> bool" where
  "name_inv V \<longleftrightarrow> (\<forall>n c d. c \<in> set (kids V n) \<and> d \<in> set (kids V n) \<and> nam V c = nam V d \<longrightarrow> c = d) \<and>
     (\<forall>n. CHR 0x00 \<notin> set (nam V n))"

text \<open>
  The file numbers in use are those of the directories that have one, each of one directory; a node with
  a number has a parent with one; the dot entries have the numbers of the directory and of its parent.
\<close>

definition num_inv :: "fsview \<Rightarrow> bool" where
  "num_inv V \<longleftrightarrow> distinct (unos V) \<and>
     (\<forall>u. u \<in> set (unos V) \<longleftrightarrow> u \<noteq> 0 \<and> (\<exists>n. dir_kind (kind V n) \<and> fno V n = u)) \<and>
     (\<forall>m n. dir_kind (kind V m) \<and> dir_kind (kind V n) \<and> fno V m = fno V n \<and> fno V n \<noteq> 0 \<longrightarrow> m = n) \<and>
     (\<forall>n p. par V n = Some p \<and> fno V n \<noteq> 0 \<longrightarrow> fno V p \<noteq> 0) \<and>
     (\<forall>r. vroot V = Some r \<longrightarrow> fno V r \<noteq> 0) \<and>
     (\<forall>n p. kind V n = Some sgfstype_this \<and> par V n = Some p \<and> fno V n \<noteq> 0 \<longrightarrow> fno V n = fno V p) \<and>
     (\<forall>n p. kind V n = Some sgfstype_parent \<and> par V n = Some p \<and> fno V n \<noteq> 0 \<and> \<not> gone V p \<longrightarrow>
        fno V n = (if vroot V = Some p then fno V p else fno V (the (par V p))))"

definition fs_inv :: "(nid \<Rightarrow> int) \<Rightarrow> fsview \<Rightarrow> bool" where
  "fs_inv H V \<longleftrightarrow> links_inv V \<and> shape_inv V \<and> vnode_inv V \<and> refs_inv H V \<and> name_inv V \<and> num_inv V"

text \<open>Between operations: nothing is held and the lock is free.\<close>

definition fs_ok :: "sgfs_info \<Rightarrow> bool" where
  "fs_ok s \<longleftrightarrow> \<not> fs_locked s \<and> fs_inv (\<lambda>_. 0) (view s)"

lemma fs_invD:
  "fs_inv H V \<Longrightarrow> links_inv V" "fs_inv H V \<Longrightarrow> shape_inv V" "fs_inv H V \<Longrightarrow> vnode_inv V"
  "fs_inv H V \<Longrightarrow> refs_inv H V" "fs_inv H V \<Longrightarrow> name_inv V" "fs_inv H V \<Longrightarrow> num_inv V"
  by (simp_all add: fs_inv_def)

section \<open>Consequences\<close>

lemma linksD:
  assumes "links_inv V"
  shows "c \<in> set (kids V n) \<longleftrightarrow> par V c = Some n" "distinct (kids V n)"
    "kind V n = None \<Longrightarrow> kids V n = []" "kind V n = None \<Longrightarrow> par V n = None" "kind V n = None \<Longrightarrow> vns V n = []"
    "kind V n = None \<Longrightarrow> \<not> gone V n" "par V c = Some n \<Longrightarrow> kind V c \<noteq> None" "par V c = Some n \<Longrightarrow> kind V n \<noteq> None"
    "par V n \<noteq> Some n" "finite {n. kind V n \<noteq> None}"
proof -
  show c: "c \<in> set (kids V n) \<longleftrightarrow> par V c = Some n" for c n using assms by (simp add: links_inv_def)
  show "distinct (kids V n)" "finite {n. kind V n \<noteq> None}" using assms by (simp_all add: links_inv_def)
  show k: "kind V n = None \<Longrightarrow> kids V n = []" "kind V n = None \<Longrightarrow> par V n = None" "kind V n = None \<Longrightarrow> vns V n = []"
    "kind V n = None \<Longrightarrow> \<not> gone V n" for n using assms by (simp_all add: links_inv_def)
  show "par V c = Some n \<Longrightarrow> kind V c \<noteq> None" using k(2) [of c] by auto
  show "par V c = Some n \<Longrightarrow> kind V n \<noteq> None" using k(1) [of n] c [of c n] by (cases "kind V n") auto
  obtain rk :: "nid \<Rightarrow> nat" where "\<And>c p. par V c = Some p \<Longrightarrow> rk p < rk c" using assms unfolding links_inv_def by blast
  then show "par V n \<noteq> Some n" by blast
qed

lemma dir_kindE [elim?]:
  assumes "dir_kind k" obtains "k = Some sgfstype_root" | "k = Some sgfstype_dir"
  using assms unfolding dir_kind_def by blast

lemma shapeD:
  assumes "shape_inv V"
  shows "kind V n \<noteq> None \<Longrightarrow> info V n" "kind V n \<noteq> None \<Longrightarrow> dir_kind (kind V n) \<or> dot_kind (kind V n)"
    "dir_kind (kind V n) \<Longrightarrow> \<exists>b a. dots V n b a"
    "kind V n = Some sgfstype_dir \<Longrightarrow> par V n = None \<longleftrightarrow> gone V n"
    "vroot V = Some n \<longleftrightarrow> kind V n = Some sgfstype_root" "vroot V = Some n \<Longrightarrow> par V n = None \<and> \<not> gone V n"
    "dot_kind (kind V n) \<Longrightarrow> par V n \<noteq> None \<and> kids V n = [] \<and> vns V n = [] \<and> \<not> gone V n"
    "vroot V \<noteq> None"
  using assms unfolding shape_inv_def by blast+

lemma shapeI:
  assumes "vroot V \<noteq> None"
    "\<And>n. kind V n \<noteq> None \<Longrightarrow> info V n \<and> (dir_kind (kind V n) \<or> dot_kind (kind V n))"
    "\<And>n. vroot V = Some n \<longleftrightarrow> kind V n = Some sgfstype_root" "\<And>n. vroot V = Some n \<Longrightarrow> par V n = None \<and> \<not> gone V n"
    "\<And>n. kind V n = Some sgfstype_dir \<Longrightarrow> par V n = None \<longleftrightarrow> gone V n"
    "\<And>n. dir_kind (kind V n) \<Longrightarrow> \<exists>b a. dots V n b a"
    "\<And>n. dot_kind (kind V n) \<Longrightarrow> par V n \<noteq> None \<and> kids V n = [] \<and> vns V n = [] \<and> \<not> gone V n"
  shows "shape_inv V"
  using assms by (simp add: shape_inv_def)

lemma kind_cases: "dir_kind k \<Longrightarrow> \<not> dot_kind k" "dir_kind k \<Longrightarrow> k \<noteq> None" "dot_kind k \<Longrightarrow> k \<noteq> None"
  by (auto simp: dir_kind_def dot_kind_def)

lemma kids_dir:
  assumes "links_inv V" "shape_inv V" "c \<in> set (kids V n)" shows "dir_kind (kind V n)"
proof -
  have "kind V n \<noteq> None" using linksD(3) [OF assms(1)] assms(3) by (cases "kind V n") auto
  moreover have "\<not> dot_kind (kind V n)" using shapeD(7) [OF assms(2)] assms(3) by auto
  ultimately show ?thesis using shapeD(2) [OF assms(2)] by blast
qed

lemma dots_cong: "\<lbrakk>kids V' = kids V; kind V' = kind V; nam V' = nam V\<rbrakk> \<Longrightarrow> dots V' n b a = dots V n b a"
  by (simp add: dots_def)

text \<open>What holds of a directory with just its dot entries.\<close>

lemma dots_kids: "dots V n b a \<Longrightarrow> 2 \<le> length (kids V n)" "dots V n b a \<Longrightarrow> length (kids V n) = 2 \<longleftrightarrow> kids V n = [b, a]"
  by (auto simp: dots_def)

lemma dots_mem: "dots V n b a \<Longrightarrow> b \<in> set (kids V n) \<and> a \<in> set (kids V n)"
  by (auto simp: dots_def)

lemma dots_parts:
  assumes "dots V n b a" "c \<in> set (kids V n)" shows "c = b \<or> c = a \<or> kind V c = Some sgfstype_dir"
  using assms by (auto simp: dots_def)

lemma vnodeD:
  assumes "vnode_inv V"
  shows "distinct (vns V n)" "v \<in> set (vns V n) \<longleftrightarrow> (\<exists>vn. vnod V v = Some vn \<and> v_data vn = Some n)"
    "vnod V v = Some vn \<Longrightarrow> v_type vn = VDIR"
    "vnod V v = Some vn \<Longrightarrow> \<exists>n. v_data vn = Some n \<and> dir_kind (kind V n) \<and> (vv_root vn \<longleftrightarrow> kind V n = Some sgfstype_root)"
    "\<lbrakk>vnod V v = Some vn; vnod V w = Some wn; v_data vn = v_data wn; v_mount vn = v_mount wn\<rbrakk> \<Longrightarrow> v = w"
proof -
  show "distinct (vns V n)" "v \<in> set (vns V n) \<longleftrightarrow> (\<exists>vn. vnod V v = Some vn \<and> v_data vn = Some n)"
    using assms unfolding vnode_inv_def by blast+
  show "vnod V v = Some vn \<Longrightarrow> v_type vn = VDIR"
    "vnod V v = Some vn \<Longrightarrow> \<exists>n. v_data vn = Some n \<and> dir_kind (kind V n) \<and> (vv_root vn \<longleftrightarrow> kind V n = Some sgfstype_root)"
    using assms unfolding vnode_inv_def by blast+
  show "\<lbrakk>vnod V v = Some vn; vnod V w = Some wn; v_data vn = v_data wn; v_mount vn = v_mount wn\<rbrakk> \<Longrightarrow> v = w"
    using assms unfolding vnode_inv_def by metis
qed

lemma refsD:
  assumes "refs_inv H V"
  shows "0 \<le> H n" "\<not> dir_kind (kind V n) \<Longrightarrow> H n = 0"
    "kind V n \<noteq> None \<Longrightarrow> cnt V n = H n + (if gone V n then 0 else 1) + int (length (kids V n)) + int (length (vns V n))"
    "kind V n \<noteq> None \<Longrightarrow> gone V n \<Longrightarrow> 2 < cnt V n"
  using assms unfolding refs_inv_def by blast+

lemma refsI:
  assumes "\<And>n. 0 \<le> H n" "\<And>n. \<not> dir_kind (kind V n) \<Longrightarrow> H n = 0"
    "\<And>n. kind V n \<noteq> None \<Longrightarrow> cnt V n = H n + (if gone V n then 0 else 1) + int (length (kids V n)) + int (length (vns V n))"
    "\<And>n. kind V n \<noteq> None \<Longrightarrow> gone V n \<Longrightarrow> 2 < cnt V n"
  shows "refs_inv H V"
  using assms unfolding refs_inv_def by blast

lemma numD:
  assumes "num_inv V"
  shows "distinct (unos V)" "u \<in> set (unos V) \<longleftrightarrow> u \<noteq> 0 \<and> (\<exists>n. dir_kind (kind V n) \<and> fno V n = u)"
    "\<lbrakk>dir_kind (kind V m); dir_kind (kind V n); fno V m = fno V n; fno V n \<noteq> 0\<rbrakk> \<Longrightarrow> m = n"
    "\<lbrakk>par V n = Some p; fno V n \<noteq> 0\<rbrakk> \<Longrightarrow> fno V p \<noteq> 0" "vroot V = Some r \<Longrightarrow> fno V r \<noteq> 0"
    "\<lbrakk>kind V n = Some sgfstype_this; par V n = Some p; fno V n \<noteq> 0\<rbrakk> \<Longrightarrow> fno V n = fno V p"
    "\<lbrakk>kind V n = Some sgfstype_parent; par V n = Some p; fno V n \<noteq> 0; \<not> gone V p\<rbrakk> \<Longrightarrow>
       fno V n = (if vroot V = Some p then fno V p else fno V (the (par V p)))"
proof -
  note A = assms [unfolded num_inv_def]
  note B = A [THEN conjunct2] and C = A [THEN conjunct2, THEN conjunct2, THEN conjunct2]
  note D = C [THEN conjunct2, THEN conjunct2]
  show "distinct (unos V)" by (rule A [THEN conjunct1])
  show "u \<in> set (unos V) \<longleftrightarrow> u \<noteq> 0 \<and> (\<exists>n. dir_kind (kind V n) \<and> fno V n = u)" by (rule B [THEN conjunct1, THEN spec])
  show "\<lbrakk>dir_kind (kind V m); dir_kind (kind V n); fno V m = fno V n; fno V n \<noteq> 0\<rbrakk> \<Longrightarrow> m = n"
    using B [THEN conjunct2, THEN conjunct1] by blast
  show "\<lbrakk>par V n = Some p; fno V n \<noteq> 0\<rbrakk> \<Longrightarrow> fno V p \<noteq> 0" using C [THEN conjunct1] by blast
  show "vroot V = Some r \<Longrightarrow> fno V r \<noteq> 0" using C [THEN conjunct2, THEN conjunct1] by blast
  show "\<lbrakk>kind V n = Some sgfstype_this; par V n = Some p; fno V n \<noteq> 0\<rbrakk> \<Longrightarrow> fno V n = fno V p"
    using D [THEN conjunct1] by blast
  show "\<lbrakk>kind V n = Some sgfstype_parent; par V n = Some p; fno V n \<noteq> 0; \<not> gone V p\<rbrakk> \<Longrightarrow>
       fno V n = (if vroot V = Some p then fno V p else fno V (the (par V p)))"
    using D [THEN conjunct2, THEN spec, THEN spec] by (rule mp) blast
qed

lemma numI:
  assumes "distinct (unos V)" "\<And>u. u \<in> set (unos V) \<longleftrightarrow> u \<noteq> 0 \<and> (\<exists>n. dir_kind (kind V n) \<and> fno V n = u)"
    "\<And>m n. \<lbrakk>dir_kind (kind V m); dir_kind (kind V n); fno V m = fno V n; fno V n \<noteq> 0\<rbrakk> \<Longrightarrow> m = n"
    "\<And>n p. \<lbrakk>par V n = Some p; fno V n \<noteq> 0\<rbrakk> \<Longrightarrow> fno V p \<noteq> 0" "\<And>r. vroot V = Some r \<Longrightarrow> fno V r \<noteq> 0"
    "\<And>n p. \<lbrakk>kind V n = Some sgfstype_this; par V n = Some p; fno V n \<noteq> 0\<rbrakk> \<Longrightarrow> fno V n = fno V p"
    "\<And>n p. \<lbrakk>kind V n = Some sgfstype_parent; par V n = Some p; fno V n \<noteq> 0; \<not> gone V p\<rbrakk> \<Longrightarrow>
       fno V n = (if vroot V = Some p then fno V p else fno V (the (par V p)))"
  shows "num_inv V"
  unfolding num_inv_def by (intro conjI allI impI; (elim conjE)?) (fact | erule assms; assumption)+

end
