(* ===== verification/Sgfs_Prim.thy ===== *)
theory Sgfs_Prim
  imports Sgfs_Inv
begin

text \<open>The primitive changes of the view keep the invariant of the file system.\<close>

section \<open>References\<close>

lemma cnt_irrelevant:
  "links_inv (V\<lparr>cnt := c\<rparr>) = links_inv V" "shape_inv (V\<lparr>cnt := c\<rparr>) = shape_inv V"
  "vnode_inv (V\<lparr>cnt := c\<rparr>) = vnode_inv V" "name_inv (V\<lparr>cnt := c\<rparr>) = name_inv V" "num_inv (V\<lparr>cnt := c\<rparr>) = num_inv V"
  by (simp_all add: links_inv_def shape_inv_def vnode_inv_def name_inv_def num_inv_def dots_def)

lemma dir_kind_props:
  assumes "shape_inv V" "dir_kind (kind V n)" shows "shape_inv (V\<lparr>vns := (vns V)(n := vs)\<rparr>)"
proof -
  have "\<not> dot_kind (kind V n)" using assms(2) kind_cases(1) by blast
  then show ?thesis using assms(1) unfolding shape_inv_def dots_def by auto
qed

lemma vnod_irrelevant:
  "shape_inv (V\<lparr>vnod := x\<rparr>) = shape_inv V" "name_inv (V\<lparr>vnod := x\<rparr>) = name_inv V" "num_inv (V\<lparr>vnod := x\<rparr>) = num_inv V"
  "name_inv (V\<lparr>vns := y\<rparr>) = name_inv V" "num_inv (V\<lparr>vns := y\<rparr>) = num_inv V"
  by (simp_all add: shape_inv_def name_inv_def num_inv_def dots_def)

lemma inv_hold:
  assumes "fs_inv H V" "dir_kind (kind V n)"
  shows "fs_inv (H(n := H n + 1)) (V\<lparr>cnt := (cnt V)(n := cnt V n + 1)\<rparr>)"
proof -
  have "refs_inv (H(n := H n + 1)) (V\<lparr>cnt := (cnt V)(n := cnt V n + 1)\<rparr>)"
    using fs_invD(4) [OF assms(1)] assms(2) kind_cases(2) [OF assms(2)] unfolding refs_inv_def by (auto simp: add_nonneg_nonneg)
  then show ?thesis using assms(1) by (simp add: fs_inv_def cnt_irrelevant)
qed

lemma inv_unhold:
  assumes "fs_inv H V" "0 < H n" "gone V n \<longrightarrow> 3 < cnt V n"
  shows "fs_inv (H(n := H n - 1)) (V\<lparr>cnt := (cnt V)(n := cnt V n - 1)\<rparr>)"
proof -
  have "refs_inv (H(n := H n - 1)) (V\<lparr>cnt := (cnt V)(n := cnt V n - 1)\<rparr>)"
    using fs_invD(4) [OF assms(1)] assms(2,3) unfolding refs_inv_def by auto
  then show ?thesis using assms(1) by (simp add: fs_inv_def cnt_irrelevant)
qed

section \<open>Vnodes\<close>

lemma inv_add_vnode:
  assumes inv: "fs_inv H V" and n: "dir_kind (kind V n)" and v: "vnod V v = None"
    and vn: "v_type vn = VDIR" "v_data vn = Some n" "vv_root vn \<longleftrightarrow> kind V n = Some sgfstype_root"
    and new: "\<And>w wn. w \<in> set (vns V n) \<Longrightarrow> vnod V w = Some wn \<Longrightarrow> v_mount wn \<noteq> v_mount vn"
  shows "fs_inv H (V\<lparr>vns := (vns V)(n := v # vns V n), cnt := (cnt V)(n := cnt V n + 1), vnod := (vnod V)(v \<mapsto> vn)\<rparr>)"
    (is "fs_inv H ?V")
proof -
  note L = fs_invD(1) [OF inv] and S = fs_invD(2) [OF inv] and N = fs_invD(3) [OF inv] and R = fs_invD(4) [OF inv]
  note VN = vnodeD [OF N]
  have k: "kind V n \<noteq> None" using n by (auto simp: dir_kind_def)
  have vf: "v \<notin> set (vns V m)" for m using VN(2) [of v m] v by simp
  have "links_inv ?V" using L k unfolding links_inv_def by simp
  moreover have "shape_inv ?V" using dir_kind_props [OF S n] by (simp add: cnt_irrelevant vnod_irrelevant)
  moreover have "vnode_inv ?V" unfolding vnode_inv_def
  proof (intro conjI allI impI)
    show "distinct (vns ?V m)" for m using VN(1) vf by simp
    show "w \<in> set (vns ?V m) \<longleftrightarrow> (\<exists>wn. vnod ?V w = Some wn \<and> v_data wn = Some m)" for m w
      using VN(2) [of w m] vf [of m] v vn(2) by auto
    show "v_type wn = VDIR" "\<exists>m. v_data wn = Some m \<and> dir_kind (kind ?V m) \<and> (vv_root wn \<longleftrightarrow> kind ?V m = Some sgfstype_root)"
      if "vnod ?V w = Some wn" for w wn using that VN(3,4) [of w wn] vn n by (auto split: if_splits)
    show "w = x" if "vnod ?V w = Some wn \<and> vnod ?V x = Some xn \<and> v_data wn = v_data xn \<and> v_mount wn = v_mount xn" for w x wn xn
      using that VN(5) [of w wn x xn] new [of w wn] new [of x xn] VN(2) vn(2) by (auto split: if_splits)
  qed
  moreover have "refs_inv H ?V" using R k unfolding refs_inv_def by auto
  moreover have "name_inv ?V" "num_inv ?V" using fs_invD(5,6) [OF inv] by (simp_all add: vnod_irrelevant cnt_irrelevant)
  ultimately show ?thesis by (simp add: fs_inv_def)
qed

lemma inv_drop_vnode:
  assumes inv: "fs_inv H V" and v: "vnod V v = Some vn" "v_data vn = Some n"
  shows "fs_inv (H(n := H n + 1)) (V\<lparr>vns := (vns V)(n := remove1 v (vns V n)), vnod := (vnod V)(v := None)\<rparr>)"
    (is "fs_inv ?H ?V")
proof -
  note L = fs_invD(1) [OF inv] and S = fs_invD(2) [OF inv] and N = fs_invD(3) [OF inv] and R = fs_invD(4) [OF inv]
  note VN = vnodeD [OF N]
  have vm: "v \<in> set (vns V n)" using VN(2) v by blast
  have k: "kind V n \<noteq> None" using VN(4) [OF v(1)] v(2) by (auto simp: dir_kind_def)
  have vf: "v \<in> set (vns V m) \<Longrightarrow> m = n" for m using VN(2) [of v m] v by simp
  have "links_inv ?V" using L k unfolding links_inv_def by simp
  moreover have "dir_kind (kind V n)" using VN(4) [OF v(1)] v(2) by auto
  then have "shape_inv ?V" using dir_kind_props [OF S] by (simp add: vnod_irrelevant)
  moreover have "vnode_inv ?V" unfolding vnode_inv_def
  proof (intro conjI allI impI)
    show "distinct (vns ?V m)" for m using VN(1) by simp
    show "w \<in> set (vns ?V m) \<longleftrightarrow> (\<exists>wn. vnod ?V w = Some wn \<and> v_data wn = Some m)" for m w
      using VN(1) [of n] VN(2) [of w m] vf [of m] v by auto
    show "v_type wn = VDIR" "\<exists>m. v_data wn = Some m \<and> dir_kind (kind ?V m) \<and> (vv_root wn \<longleftrightarrow> kind ?V m = Some sgfstype_root)"
      if "vnod ?V w = Some wn" for w wn using that VN(3,4) [of w wn] by (auto split: if_splits)
    show "w = x" if "vnod ?V w = Some wn \<and> vnod ?V x = Some xn \<and> v_data wn = v_data xn \<and> v_mount wn = v_mount xn" for w x wn xn
      using that VN(5) [of w wn x xn] by (auto split: if_splits)
  qed
  moreover have "refs_inv ?H ?V"
  proof -
    have "int (length (remove1 v (vns V n))) = int (length (vns V n)) - 1"
      using vm by (simp add: length_remove1) (metis One_nat_def Suc_leI length_pos_if_in_set of_nat_1 of_nat_diff)
    then show ?thesis using R k \<open>dir_kind (kind V n)\<close> unfolding refs_inv_def by (auto simp: add_nonneg_nonneg)
  qed
  moreover have "name_inv ?V" "num_inv ?V" using fs_invD(5,6) [OF inv] by (simp_all add: vnod_irrelevant cnt_irrelevant)
  ultimately show ?thesis by (simp add: fs_inv_def)
qed

section \<open>Removing a directory\<close>

text \<open>The links between an empty directory and its parent are cut; both references are still held.\<close>

lemma inv_unlink:
  assumes inv: "fs_inv H V" and n: "kind V n = Some sgfstype_dir" "\<not> gone V n" "par V n = Some p"
  shows "fs_inv (H(n := H n + 1, p := H p + 1))
    (V\<lparr>par := (par V)(n := None), gone := (gone V)(n := True), kids := (kids V)(p := remove1 n (kids V p))\<rparr>)"
    (is "fs_inv ?H ?V")
proof -
  note L = linksD [OF fs_invD(1) [OF inv]] and S = fs_invD(2) [OF inv] and R = fs_invD(4) [OF inv]
  note SD = shapeD [OF S] and Rf = refsD [OF R]
  have np: "p \<noteq> n" using L(9) n(3) by blast
  have nk: "n \<in> set (kids V p)" using L(1) n(3) by blast
  have pk: "kind V p \<noteq> None" using L(8) n(3) by blast
  have pd: "dir_kind (kind V p)" by (rule kids_dir [OF fs_invD(1) [OF inv] S nk])
  have kids': "set (kids ?V m) = set (kids V m) - (if m = p then {n} else {})" for m using L(2) by simp
  have dots': "dots ?V m b a" if "dots V m b a" for m b a
  proof (cases "m = p")
    case True
    obtain xs where xs: "kids V p = xs @ [b, a]" "\<forall>x\<in>set xs. kind V x = Some sgfstype_dir"
      "kind V b = Some sgfstype_parent" "kind V a = Some sgfstype_this" using \<open>dots V m b a\<close> True by (auto simp: dots_def)
    have "n \<noteq> b" "n \<noteq> a" using n(1) xs(3,4) by auto
    then have "n \<in> set xs" using nk xs(1) by auto
    then have "remove1 n (kids V p) = remove1 n xs @ [b, a]" using xs(1) by (simp add: remove1_append)
    moreover have "\<forall>x\<in>set (remove1 n xs). kind V x = Some sgfstype_dir" using xs(2) set_remove1_subset [of n xs] by blast
    ultimately show ?thesis using that True unfolding dots_def by auto
  qed (use that in \<open>simp add: dots_def\<close>)
  have "links_inv ?V"
    unfolding links_inv_def
  proof (intro conjI allI impI)
    show "c \<in> set (kids ?V m) \<longleftrightarrow> par ?V c = Some m" for m c using kids' [of m] L(1) [of c m] n(3) by auto
    show "distinct (kids ?V m)" for m using L(2) by simp
    show "kids ?V m = []" "par ?V m = None" "vns ?V m = []" "\<not> gone ?V m" if "kind ?V m = None" for m
      using that L(3,4,5,6) [of m] n(1) pk by auto
    show "finite {m. kind ?V m \<noteq> None}" using L(10) by simp
    obtain rk :: "nid \<Rightarrow> nat" where "\<forall>c p. par V c = Some p \<longrightarrow> rk p < rk c"
      using fs_invD(1) [OF inv] unfolding links_inv_def by blast
    then show "\<exists>rk :: nid \<Rightarrow> nat. \<forall>c q. par ?V c = Some q \<longrightarrow> rk q < rk c" by (intro exI [of _ rk]) simp
  qed
  moreover have "shape_inv ?V"
  proof (rule shapeI)
    show "vroot ?V \<noteq> None" using SD(8) by simp
    fix m
    show "kind ?V m \<noteq> None \<Longrightarrow> info ?V m \<and> (dir_kind (kind ?V m) \<or> dot_kind (kind ?V m))" using SD(1,2) [of m] by simp
    show "vroot ?V = Some m \<longleftrightarrow> kind ?V m = Some sgfstype_root" using SD(5) [of m] by simp
    show "vroot ?V = Some m \<Longrightarrow> par ?V m = None \<and> \<not> gone ?V m" using SD(5,6) [of m] n(1) by auto
    show "kind ?V m = Some sgfstype_dir \<Longrightarrow> par ?V m = None \<longleftrightarrow> gone ?V m" using SD(4) [of m] by simp
    show "dir_kind (kind ?V m) \<Longrightarrow> \<exists>b a. dots ?V m b a" using SD(3) [of m] dots' by (simp, blast)
    show "dot_kind (kind ?V m) \<Longrightarrow> par ?V m \<noteq> None \<and> kids ?V m = [] \<and> vns ?V m = [] \<and> \<not> gone ?V m"
      using SD(7) [of m] n(1) pd by (auto simp: dot_kind_def dir_kind_def)
  qed
  moreover have "vnode_inv ?V" using fs_invD(3) [OF inv] by (simp add: vnode_inv_def)
  moreover have "refs_inv ?H ?V"
  proof -
    have len: "int (length (remove1 n (kids V p))) = int (length (kids V p)) - 1"
      using nk by (simp add: length_remove1) (metis One_nat_def Suc_leI length_pos_if_in_set of_nat_1 of_nat_diff)
    obtain b a where "dots V n b a" using SD(3) [of n] n(1) by (auto simp: dir_kind_def)
    then have "2 \<le> length (kids V n)" by (rule dots_kids)
    moreover have "0 \<le> H n" "cnt V n = H n + 1 + int (length (kids V n)) + int (length (vns V n))"
      using Rf(1) [of n] Rf(3) [of n] n by simp_all
    ultimately have big: "2 < cnt V n" by simp
    show ?thesis
    proof (rule refsI)
      fix m
      show "0 \<le> ?H m" "\<not> dir_kind (kind ?V m) \<Longrightarrow> ?H m = 0"
        using Rf(1,2) [of m] Rf(1) [of n] Rf(1) [of p] n(1) pd by (auto simp: dir_kind_def)
      show "kind ?V m \<noteq> None \<Longrightarrow> cnt ?V m = ?H m + (if gone ?V m then 0 else 1) + int (length (kids ?V m)) + int (length (vns ?V m))"
        using Rf(3) [of m] n np len by (cases "m = n"; cases "m = p") simp_all
      show "kind ?V m \<noteq> None \<Longrightarrow> gone ?V m \<Longrightarrow> 2 < cnt ?V m" using Rf(4) [of m] big by (cases "m = n") simp_all
    qed
  qed
  moreover have "name_inv ?V"
    using fs_invD(5) [OF inv] kids' unfolding name_inv_def by auto
  moreover have "num_inv ?V"
  proof (rule numI)
    note U = numD [OF fs_invD(6) [OF inv]]
    show "distinct (unos ?V)" "\<And>u. u \<in> set (unos ?V) \<longleftrightarrow> u \<noteq> 0 \<and> (\<exists>n. dir_kind (kind ?V n) \<and> fno ?V n = u)"
      using U(1,2) by simp_all
    show "\<lbrakk>dir_kind (kind ?V i); dir_kind (kind ?V j); fno ?V i = fno ?V j; fno ?V j \<noteq> 0\<rbrakk> \<Longrightarrow> i = j" for i j
      using U(3) [of i j] by simp
    show "\<And>r. vroot ?V = Some r \<Longrightarrow> fno ?V r \<noteq> 0" using U(5) by simp
    fix i q
    show "\<lbrakk>par ?V i = Some q; fno ?V i \<noteq> 0\<rbrakk> \<Longrightarrow> fno ?V q \<noteq> 0" using U(4) [of i q] by (simp split: if_splits)
    show "\<lbrakk>kind ?V i = Some sgfstype_this; par ?V i = Some q; fno ?V i \<noteq> 0\<rbrakk> \<Longrightarrow> fno ?V i = fno ?V q"
      using U(6) [of i q] by (simp split: if_splits)
    assume "kind ?V i = Some sgfstype_parent" "par ?V i = Some q" "fno ?V i \<noteq> 0" "\<not> gone ?V q"
    then show "fno ?V i = (if vroot ?V = Some q then fno ?V q else fno ?V (the (par ?V q)))"
      using U(7) [of i q] by (cases "i = n"; cases "q = n") simp_all
  qed
  ultimately show ?thesis by (simp add: fs_inv_def)
qed

end
