(* ===== verification/Sgfs_Tree.thy ===== *)
theory Sgfs_Tree
  imports Sgfs_Prim
begin

text \<open>
  Destroying a removed directory and making a new one: the two changes of the view that take nodes out of
  the store and put nodes in.
\<close>

section \<open>Nodes that go away\<close>

definition drop_set :: "nid set \<Rightarrow> nat list \<Rightarrow> fsview \<Rightarrow> fsview" where
  "drop_set D us V = V\<lparr>kind := (\<lambda>m. if m \<in> D then None else kind V m), par := (\<lambda>m. if m \<in> D then None else par V m),
     kids := (\<lambda>m. if m \<in> D then [] else kids V m), vns := (\<lambda>m. if m \<in> D then [] else vns V m),
     gone := (\<lambda>m. m \<notin> D \<and> gone V m), fno := (\<lambda>m. if m \<in> D then 0 else fno V m),
     nam := (\<lambda>m. if m \<in> D then [] else nam V m), cnt := (\<lambda>m. if m \<in> D then 0 else cnt V m),
     info := (\<lambda>m. m \<notin> D \<and> info V m), unos := us\<rparr>"

lemma drop_set_sel [simp]:
  "kind (drop_set D us V) m = (if m \<in> D then None else kind V m)" "par (drop_set D us V) m = (if m \<in> D then None else par V m)"
  "kids (drop_set D us V) m = (if m \<in> D then [] else kids V m)" "vns (drop_set D us V) m = (if m \<in> D then [] else vns V m)"
  "gone (drop_set D us V) m \<longleftrightarrow> m \<notin> D \<and> gone V m" "fno (drop_set D us V) m = (if m \<in> D then 0 else fno V m)"
  "nam (drop_set D us V) m = (if m \<in> D then [] else nam V m)" "cnt (drop_set D us V) m = (if m \<in> D then 0 else cnt V m)"
  "info (drop_set D us V) m \<longleftrightarrow> m \<notin> D \<and> info V m" "unos (drop_set D us V) = us" "vnod (drop_set D us V) = vnod V"
  "vroot (drop_set D us V) = vroot V"
  by (simp_all add: drop_set_def)

text \<open>A set of nodes no other node is linked with, without vnodes, can go.\<close>

lemma inv_drop_set:
  assumes inv: "fs_inv H V"
    and up: "\<And>c p. par V c = Some p \<Longrightarrow> c \<in> D \<longleftrightarrow> p \<in> D"
    and vn: "\<And>n. n \<in> D \<Longrightarrow> vns V n = []" and root: "\<And>r. vroot V = Some r \<Longrightarrow> r \<notin> D"
    and us: "distinct us" "set us = set (unos V) - fno V ` {n \<in> D. dir_kind (kind V n)}"
  shows "fs_inv (\<lambda>m. if m \<in> D then 0 else H m) (drop_set D us V)" (is "fs_inv ?H ?V")
proof -
  note L = linksD [OF fs_invD(1) [OF inv]] and SD = shapeD [OF fs_invD(2) [OF inv]]
  note VN = vnodeD [OF fs_invD(3) [OF inv]] and Rf = refsD [OF fs_invD(4) [OF inv]] and U = numD [OF fs_invD(6) [OF inv]]
  have kid: "c \<in> set (kids V n) \<Longrightarrow> c \<in> D \<longleftrightarrow> n \<in> D" for c n using up L(1) by blast
  have dots': "dots ?V n b a" if "dots V n b a" "n \<notin> D" for n b a
    using that kid [of _ n] dots_mem [OF that(1)] unfolding dots_def by auto
  have dead: "v_data vn \<noteq> Some n" if "n \<in> D" "vnod V v = Some vn" for v vn n
    using VN(2) [of v n] vn [OF that(1)] that(2) by auto
  have "links_inv ?V" unfolding links_inv_def
  proof (intro conjI allI impI)
    show "c \<in> set (kids ?V m) \<longleftrightarrow> par ?V c = Some m" for m c using L(1) [of c m] up [of c m] by auto
    show "distinct (kids ?V m)" for m using L(2) by simp
    show "kids ?V m = []" "par ?V m = None" "vns ?V m = []" "\<not> gone ?V m" if "kind ?V m = None" for m
      using that L(3-6) [of m] by (auto split: if_splits)
    show "finite {m. kind ?V m \<noteq> None}" by (rule finite_subset [OF _ L(10)]) (auto split: if_splits)
    obtain rk :: "nid \<Rightarrow> nat" where "\<forall>c p. par V c = Some p \<longrightarrow> rk p < rk c"
      using fs_invD(1) [OF inv] unfolding links_inv_def by blast
    then show "\<exists>rk :: nid \<Rightarrow> nat. \<forall>c q. par ?V c = Some q \<longrightarrow> rk q < rk c" by (intro exI [of _ rk]) simp
  qed
  moreover have "shape_inv ?V"
  proof (rule shapeI)
    show "vroot ?V \<noteq> None" using SD(8) by simp
    fix m
    show "kind ?V m \<noteq> None \<Longrightarrow> info ?V m \<and> (dir_kind (kind ?V m) \<or> dot_kind (kind ?V m))" using SD(1,2) [of m] by (simp split: if_splits)
    show "vroot ?V = Some m \<longleftrightarrow> kind ?V m = Some sgfstype_root" using SD(5) [of m] root [of m] by auto
    show "vroot ?V = Some m \<Longrightarrow> par ?V m = None \<and> \<not> gone ?V m" using SD(6) [of m] by simp
    show "kind ?V m = Some sgfstype_dir \<Longrightarrow> par ?V m = None \<longleftrightarrow> gone ?V m" using SD(4) [of m] by (simp split: if_splits)
    show "dir_kind (kind ?V m) \<Longrightarrow> \<exists>b a. dots ?V m b a"
      using SD(3) [of m] dots' [of m] by (cases "m \<in> D") (simp add: dir_kind_def, auto)
    show "dot_kind (kind ?V m) \<Longrightarrow> par ?V m \<noteq> None \<and> kids ?V m = [] \<and> vns ?V m = [] \<and> \<not> gone ?V m"
      using SD(7) [of m] by (cases "m \<in> D") (simp_all add: dot_kind_def)
  qed
  moreover have "vnode_inv ?V" unfolding vnode_inv_def
  proof (intro conjI allI impI)
    show "distinct (vns ?V m)" for m using VN(1) by simp
    show "w \<in> set (vns ?V m) \<longleftrightarrow> (\<exists>wn. vnod ?V w = Some wn \<and> v_data wn = Some m)" for m w
      using VN(2) [of w m] dead [of m w] by auto
    show "v_type wn = VDIR" "\<exists>m. v_data wn = Some m \<and> dir_kind (kind ?V m) \<and> (vv_root wn \<longleftrightarrow> kind ?V m = Some sgfstype_root)"
      if "vnod ?V w = Some wn" for w wn using that VN(3,4) [of w wn] dead [of _ w wn] by auto
    show "w = x" if "vnod ?V w = Some wn \<and> vnod ?V x = Some xn \<and> v_data wn = v_data xn \<and> v_mount wn = v_mount xn" for w x wn xn
      using that VN(5) [of w wn x xn] by simp
  qed
  moreover have "refs_inv ?H ?V" using Rf by (intro refsI) (auto split: if_splits)
  moreover have "name_inv ?V" using fs_invD(5) [OF inv] kid unfolding name_inv_def by auto
  moreover have "num_inv ?V"
  proof (rule numI)
    show "distinct (unos ?V)" using us by simp
    show "u \<in> set (unos ?V) \<longleftrightarrow> u \<noteq> 0 \<and> (\<exists>n. dir_kind (kind ?V n) \<and> fno ?V n = u)" for u
    proof
      assume "u \<in> set (unos ?V)"
      then have u: "u \<in> set (unos V)" "u \<notin> fno V ` {n \<in> D. dir_kind (kind V n)}" using us by simp_all
      then obtain n where "u \<noteq> 0" "dir_kind (kind V n)" "fno V n = u" using U(2) [of u] by blast
      moreover from this have "n \<notin> D" using u(2) by blast
      ultimately show "u \<noteq> 0 \<and> (\<exists>n. dir_kind (kind ?V n) \<and> fno ?V n = u)" by (auto intro: exI [of _ n])
    next
      assume "u \<noteq> 0 \<and> (\<exists>n. dir_kind (kind ?V n) \<and> fno ?V n = u)"
      then obtain n where n: "u \<noteq> 0" "n \<notin> D" "dir_kind (kind V n)" "fno V n = u" by (auto split: if_splits)
      then have "u \<in> set (unos V)" using U(2) [of u] by blast
      moreover have "m \<notin> D" if "dir_kind (kind V m)" "fno V m = u" for m using U(3) [of m n] n that by metis
      then have "u \<notin> fno V ` {n \<in> D. dir_kind (kind V n)}" by blast
      ultimately show "u \<in> set (unos ?V)" using us by simp
    qed
    show "\<lbrakk>dir_kind (kind ?V i); dir_kind (kind ?V j); fno ?V i = fno ?V j; fno ?V j \<noteq> 0\<rbrakk> \<Longrightarrow> i = j" for i j
      using U(3) [of i j] by (simp split: if_splits)
    show "\<And>r. vroot ?V = Some r \<Longrightarrow> fno ?V r \<noteq> 0" using U(5) root by simp
    fix i q
    show "\<lbrakk>par ?V i = Some q; fno ?V i \<noteq> 0\<rbrakk> \<Longrightarrow> fno ?V q \<noteq> 0" using U(4) [of i q] up [of i q] by (simp split: if_splits)
    show "\<lbrakk>kind ?V i = Some sgfstype_this; par ?V i = Some q; fno ?V i \<noteq> 0\<rbrakk> \<Longrightarrow> fno ?V i = fno ?V q"
      using U(6) [of i q] up [of i q] by (simp split: if_splits)
    assume i: "kind ?V i = Some sgfstype_parent" "par ?V i = Some q" "fno ?V i \<noteq> 0" "\<not> gone ?V q"
    then have i': "i \<notin> D" "q \<notin> D" using up [of i q] by (auto split: if_splits)
    show "fno ?V i = (if vroot ?V = Some q then fno ?V q else fno ?V (the (par ?V q)))"
    proof (cases "vroot V = Some q")
      case False
      have "dir_kind (kind V q)" using kids_dir [OF fs_invD(1,2) [OF inv], of i q] L(1) [of i q] i i' by simp
      then have "kind V q = Some sgfstype_dir" using False SD(5) by (auto simp: dir_kind_def)
      then have "par V q \<noteq> None" using SD(4) [of q] i i' by simp
      then show ?thesis using U(7) [of i q] i i' up [of q] False by auto
    qed (use U(7) [of i q] i i' in simp)
  qed
  ultimately show ?thesis by (simp add: fs_inv_def)
qed

section \<open>A new directory\<close>

definition add_dir :: "nid \<Rightarrow> nid \<Rightarrow> nid \<Rightarrow> string \<Rightarrow> nid \<Rightarrow> fsview \<Rightarrow> fsview" where
  "add_dir n b a name p V = V\<lparr>kind := (kind V)(n \<mapsto> sgfstype_dir, b \<mapsto> sgfstype_parent, a \<mapsto> sgfstype_this),
     par := (par V)(n \<mapsto> p, b \<mapsto> n, a \<mapsto> n), kids := (kids V)(p := n # kids V p, n := [b, a], b := [], a := []),
     vns := (vns V)(n := [], b := [], a := []), gone := (gone V)(n := False, b := False, a := False),
     fno := (fno V)(n := 0, b := 0, a := 0), nam := (nam V)(n := name, b := ''..'', a := ''.''),
     cnt := (cnt V)(p := cnt V p + 1, n := 3, b := 1, a := 1), info := (info V)(n := True, b := True, a := True)\<rparr>"

lemma inv_add_dir:
  assumes inv: "fs_inv H V" and p: "dir_kind (kind V p)"
    and fresh: "kind V n = None" "kind V b = None" "kind V a = None" "n \<noteq> b" "n \<noteq> a" "b \<noteq> a"
    and name: "CHR 0x00 \<notin> set name" "\<And>c. c \<in> set (kids V p) \<Longrightarrow> nam V c \<noteq> name"
  shows "fs_inv H (add_dir n b a name p V)" (is "fs_inv H ?V")
proof -
  note L = linksD [OF fs_invD(1) [OF inv]] and SD = shapeD [OF fs_invD(2) [OF inv]]
  note VN = vnodeD [OF fs_invD(3) [OF inv]] and Rf = refsD [OF fs_invD(4) [OF inv]] and U = numD [OF fs_invD(6) [OF inv]]
  have pn: "p \<noteq> n" "p \<noteq> b" "p \<noteq> a" "kind V p \<noteq> None" using p fresh by (auto simp: dir_kind_def)
  have old: "m \<noteq> n \<and> m \<noteq> b \<and> m \<noteq> a" if "kind V m \<noteq> None" for m using that fresh by auto
  have par_old: "c \<noteq> n \<and> c \<noteq> b \<and> c \<noteq> a \<and> q \<noteq> n \<and> q \<noteq> b \<and> q \<noteq> a" if "par V c = Some q" for c q
    using old [OF L(7) [OF that]] old [OF L(8) [OF that]] by blast
  have kid_old: "c \<noteq> n \<and> c \<noteq> b \<and> c \<noteq> a" if "c \<in> set (kids V m)" for c m using L(1) [of c m] par_old [of c m] that by blast
  have emp: "kids V m = []" "vns V m = []" "par V m = None" "H m = 0" if "m = n \<or> m = b \<or> m = a" for m
    using that fresh L(3-5) [of m] Rf(2) [of m] by (auto simp: dir_kind_def)
  have dots': "dots ?V m y x" if D: "dots V m y x" "m \<noteq> n" "m \<noteq> b" "m \<noteq> a" for m y x
  proof -
    obtain xs where xs: "kids V m = xs @ [y, x]" "\<forall>c\<in>set xs. kind V c = Some sgfstype_dir" using D(1) by (auto simp: dots_def)
    have new: "c \<noteq> n \<and> c \<noteq> b \<and> c \<noteq> a" if "c \<in> set (xs @ [y, x])" for c using kid_old [of c m] that xs(1) by simp
    have "kids ?V m = (if m = p then n # xs else xs) @ [y, x]" using xs(1) D(2-) pn by (cases "m = p") (auto simp: add_dir_def)
    moreover have "\<forall>c\<in>set (if m = p then n # xs else xs). kind ?V c = Some sgfstype_dir"
      using xs(2) new fresh by (auto simp: add_dir_def)
    moreover have "kind ?V y = kind V y" "kind ?V x = kind V x" "nam ?V y = nam V y" "nam ?V x = nam V x"
      using new [of x] new [of y] by (simp_all add: add_dir_def)
    ultimately show ?thesis using D(1) unfolding dots_def by metis
  qed
  have dn: "dots ?V n b a" using fresh by (auto simp: dots_def add_dir_def)
  have "links_inv ?V" unfolding links_inv_def
  proof (intro conjI allI impI)
    show "c \<in> set (kids ?V m) \<longleftrightarrow> par ?V c = Some m" for m c
      using L(1) [of c m] kid_old [of c m] par_old [of c m] fresh pn emp(1) [of m] by (auto simp: add_dir_def)
    show "distinct (kids ?V m)" for m using L(2) [of m] kid_old [of n p] L(2) [of p] fresh pn by (auto simp: add_dir_def)
    show "kids ?V m = []" "par ?V m = None" "vns ?V m = []" "\<not> gone ?V m" if "kind ?V m = None" for m
      using that L(3-6) [of m] pn by (auto simp: add_dir_def split: if_splits)
    have "{m. kind ?V m \<noteq> None} \<subseteq> insert n (insert b (insert a {m. kind V m \<noteq> None}))" by (auto simp: add_dir_def split: if_splits)
    then show "finite {m. kind ?V m \<noteq> None}" using L(10) by (meson finite_insert finite_subset)
    obtain rk :: "nid \<Rightarrow> nat" where rk: "\<And>c p. par V c = Some p \<Longrightarrow> rk p < rk c"
      using fs_invD(1) [OF inv] unfolding links_inv_def by blast
    show "\<exists>rk :: nid \<Rightarrow> nat. \<forall>c q. par ?V c = Some q \<longrightarrow> rk q < rk c"
    proof (intro exI [of _ "rk(n := Suc (rk p), b := Suc (Suc (rk p)), a := Suc (Suc (rk p)))"] allI impI)
      fix c q assume "par ?V c = Some q"
      then show "(rk(n := Suc (rk p), b := Suc (Suc (rk p)), a := Suc (Suc (rk p)))) q <
          (rk(n := Suc (rk p), b := Suc (Suc (rk p)), a := Suc (Suc (rk p)))) c"
        using rk [of c q] par_old [of c q] fresh pn by (auto simp: add_dir_def split: if_splits)
    qed
  qed
  moreover have "shape_inv ?V"
  proof (rule shapeI)
    have r: "vroot ?V = vroot V" by (simp add: add_dir_def)
    show "vroot ?V \<noteq> None" using SD(8) r by simp
    fix m
    have rm: "vroot V = Some m \<Longrightarrow> m \<noteq> n \<and> m \<noteq> b \<and> m \<noteq> a" using SD(5) [of m] old [of m] by simp
    show "kind ?V m \<noteq> None \<Longrightarrow> info ?V m \<and> (dir_kind (kind ?V m) \<or> dot_kind (kind ?V m))"
      using SD(1,2) [of m] by (auto simp: add_dir_def dir_kind_def dot_kind_def)
    show "vroot ?V = Some m \<longleftrightarrow> kind ?V m = Some sgfstype_root" using SD(5) [of m] rm by (auto simp: add_dir_def)
    show "vroot ?V = Some m \<Longrightarrow> par ?V m = None \<and> \<not> gone ?V m" using SD(6) [of m] rm by (simp add: add_dir_def)
    show "kind ?V m = Some sgfstype_dir \<Longrightarrow> par ?V m = None \<longleftrightarrow> gone ?V m" using SD(4) [of m] by (auto simp: add_dir_def split: if_splits)
    show "dir_kind (kind ?V m) \<Longrightarrow> \<exists>y x. dots ?V m y x"
      using dn SD(3) [of m] dots' [of m] by (cases "m = n"; cases "m = b"; cases "m = a") (auto simp: add_dir_def dir_kind_def)
    show "dot_kind (kind ?V m) \<Longrightarrow> par ?V m \<noteq> None \<and> kids ?V m = [] \<and> vns ?V m = [] \<and> \<not> gone ?V m"
      using SD(7) [of m] fresh p pn by (auto simp: add_dir_def dot_kind_def dir_kind_def split: if_splits)
  qed
  moreover have "vnode_inv ?V" unfolding vnode_inv_def
  proof (intro conjI allI impI)
    have v: "vnod ?V = vnod V" "vns ?V = vns V" using emp(2) by (auto simp: add_dir_def fun_eq_iff)
    show "distinct (vns ?V m)" for m using VN(1) v by simp
    show "w \<in> set (vns ?V m) \<longleftrightarrow> (\<exists>wn. vnod ?V w = Some wn \<and> v_data wn = Some m)" for m w using VN(2) v by simp
    show "v_type wn = VDIR" if "vnod ?V w = Some wn" for w wn using that VN(3) [of w wn] v by simp
    show "\<exists>m. v_data wn = Some m \<and> dir_kind (kind ?V m) \<and> (vv_root wn \<longleftrightarrow> kind ?V m = Some sgfstype_root)" if W: "vnod ?V w = Some wn" for w wn
    proof -
      obtain m where m: "v_data wn = Some m" "dir_kind (kind V m)" "vv_root wn \<longleftrightarrow> kind V m = Some sgfstype_root"
        using VN(4) [of w wn] W v by auto
      then have "kind ?V m = kind V m" using old [of m] kind_cases(2) by (auto simp: add_dir_def)
      then show ?thesis using m by auto
    qed
    show "w = x" if "vnod ?V w = Some wn \<and> vnod ?V x = Some xn \<and> v_data wn = v_data xn \<and> v_mount wn = v_mount xn" for w x wn xn
      using that VN(5) [of w wn x xn] v by simp
  qed
  moreover have "refs_inv H ?V"
  proof (rule refsI)
    fix m
    show "0 \<le> H m" by (rule Rf(1))
    show "\<not> dir_kind (kind ?V m) \<Longrightarrow> H m = 0" using Rf(2) [of m] emp(4) [of m] by (auto simp: add_dir_def split: if_splits)
    show "kind ?V m \<noteq> None \<Longrightarrow> cnt ?V m = H m + (if gone ?V m then 0 else 1) + int (length (kids ?V m)) + int (length (vns ?V m))"
      using Rf(3) [of m] emp(4) [of m] fresh pn by (cases "m = n"; cases "m = b"; cases "m = a"; cases "m = p") (simp_all add: add_dir_def)
    show "kind ?V m \<noteq> None \<Longrightarrow> gone ?V m \<Longrightarrow> 2 < cnt ?V m" using Rf(4) [of m] pn by (auto simp: add_dir_def split: if_splits)
  qed
  moreover have "name_inv ?V"
    unfolding name_inv_def
  proof (intro conjI allI impI)
    have N: "\<And>n c d. \<lbrakk>c \<in> set (kids V n); d \<in> set (kids V n); nam V c = nam V d\<rbrakk> \<Longrightarrow> c = d" "\<And>n. CHR 0x00 \<notin> set (nam V n)"
      using fs_invD(5) [OF inv] unfolding name_inv_def by blast+
    show "CHR 0x00 \<notin> set (nam ?V m)" for m using N(2) name(1) by (simp add: add_dir_def)
    fix m c d assume A: "c \<in> set (kids ?V m) \<and> d \<in> set (kids ?V m) \<and> nam ?V c = nam ?V d"
    have nm: "nam ?V c = nam V c" if "c \<in> set (kids V m)" for c m using kid_old [OF that] by (simp add: add_dir_def)
    consider "m = n" | "m = p" | "m \<noteq> n" "m \<noteq> p" by blast
    then show "c = d"
    proof cases
      case 1 then show ?thesis using A fresh by (auto simp: add_dir_def)
    next
      case 2
      have "set (kids ?V p) = insert n (set (kids V p))" "nam ?V n = name" using pn fresh by (simp_all add: add_dir_def)
      then have M: "x = n \<or> x \<in> set (kids V p)" "nam ?V n = name" if "x \<in> set (kids ?V p)" for x using that by simp_all
      have c: "c \<in> set (kids ?V p)" "d \<in> set (kids ?V p)" "nam ?V c = nam ?V d" using A 2 by simp_all
      show ?thesis using M(1) [OF c(1)] M(1) [OF c(2)] M(2) [OF c(1)] c(3) nm [of c p] nm [of d p] name(2) [of c] name(2) [of d] N(1) [of c p d]
        by (elim disjE) simp_all
    next
      case 3
      then have "c \<in> set (kids V m)" "d \<in> set (kids V m)" using A by (simp_all add: add_dir_def split: if_splits)
      then show ?thesis using N(1) [of c m d] nm [of c m] nm [of d m] A by simp
    qed
  qed
  moreover have "num_inv ?V"
  proof (rule numI)
    have same: "kind ?V m = kind V m" "fno ?V m = fno V m" "par ?V m = par V m" "gone ?V m = gone V m" if "m \<noteq> n" "m \<noteq> b" "m \<noteq> a" for m
      using that by (simp_all add: add_dir_def)
    have zero: "fno ?V m = 0" if "m = n \<or> m = b \<or> m = a" for m using that by (auto simp: add_dir_def)
    have g: "unos ?V = unos V" "vroot ?V = vroot V" by (simp_all add: add_dir_def)
    have live: "m \<noteq> n" "m \<noteq> b" "m \<noteq> a" if "fno ?V m \<noteq> 0" for m using zero [of m] that by auto
    show "distinct (unos ?V)" using U(1) g by simp
    show "u \<in> set (unos ?V) \<longleftrightarrow> u \<noteq> 0 \<and> (\<exists>n. dir_kind (kind ?V n) \<and> fno ?V n = u)" for u
    proof -
      have "dir_kind (kind ?V m) \<and> fno ?V m = u \<longleftrightarrow> dir_kind (kind V m) \<and> fno V m = u" if u: "u \<noteq> 0" for m
      proof (cases "m = n \<or> m = b \<or> m = a")
        case True
        then have "kind V m = None" using fresh by blast
        then show ?thesis using zero [OF True] u by (simp add: dir_kind_def)
      qed (simp add: same)
      then show ?thesis using U(2) [of u] g by auto
    qed
    show "\<lbrakk>dir_kind (kind ?V i); dir_kind (kind ?V j); fno ?V i = fno ?V j; fno ?V j \<noteq> 0\<rbrakk> \<Longrightarrow> i = j" for i j
      using U(3) [of i j] same(1,2) [OF live, of i] same(1,2) [OF live, of j] by simp
    show "fno ?V r \<noteq> 0" if "vroot ?V = Some r" for r
      using that U(5) [of r] g same [of r] old [of r] SD(5) [of r] by auto
    fix i q
    show "fno ?V q \<noteq> 0" if A: "par ?V i = Some q" "fno ?V i \<noteq> 0"
    proof -
      have "par V i = Some q" using A same(3) [OF live [OF A(2)]] by simp
      then show ?thesis using U(4) [of i q] same(2) [OF live [OF A(2)]] same(2) [of q] par_old [of i q] A by simp
    qed
    show "fno ?V i = fno ?V q" if A: "kind ?V i = Some sgfstype_this" "par ?V i = Some q" "fno ?V i \<noteq> 0"
    proof -
      have "par V i = Some q" using A same(3) [OF live [OF A(3)]] by simp
      then show ?thesis using U(6) [of i q] same(1,2) [OF live [OF A(3)]] same(2) [of q] par_old [of i q] A by simp
    qed
    assume A: "kind ?V i = Some sgfstype_parent" "par ?V i = Some q" "fno ?V i \<noteq> 0" "\<not> gone ?V q"
    have i: "par V i = Some q" "kind V i = Some sgfstype_parent" "fno ?V i = fno V i" using A same [OF live [OF A(3)]] by simp_all
    note q = par_old [OF i(1)]
    show "fno ?V i = (if vroot ?V = Some q then fno ?V q else fno ?V (the (par ?V q)))"
    proof (cases "vroot V = Some q")
      case True
      then show ?thesis using U(7) [of i q] i A q g same [of q] by simp
    next
      case False
      have "dir_kind (kind V q)" using kids_dir [OF fs_invD(1,2) [OF inv], of i q] L(1) [of i q] i by simp
      then have "kind V q = Some sgfstype_dir" using False SD(5) by (auto simp: dir_kind_def)
      then obtain r where r: "par V q = Some r" using SD(4) [of q] A q same(4) [of q] by auto
      then show ?thesis using U(7) [of i q] i A q g same [of q] False par_old [OF r] same(2) [of r] by simp
    qed
  qed
  ultimately show ?thesis by (simp add: fs_inv_def)
qed

end
