(* ===== verification/Sgfs_Refs.thy ===== *)
theory Sgfs_Refs
  imports Sgfs_Tree
begin

text \<open>References of the file system: taking and giving back, and the destruction that the last one causes.\<close>

section \<open>Destroying a removed directory\<close>

lemma destroy_dot:
  assumes "sg_nodes s b = Some bd" "\<not> is_dir bd" "nd_fsinfo bd" "dot_kind (Some (nd_type bd))" "nd_parent bd = Some p"
    and "sg_nodes s p = Some pd" "nd_fsinfo pd" "p \<noteq> b"
  shows "sgfs_destroy b s = Some (sgnode_free b (upd_node p (\<lambda>d. d\<lparr>nd_children := remove1 b (nd_children d)\<rparr>) s))"
  using assms by (subst sgfs_destroy.simps) (auto simp: sgfs_fileno_free_def dot_kind_def upd_node_at)

lemma destroy_alone:
  assumes "sg_nodes s n = Some nd" "is_dir nd" "nd_fsinfo nd" "nd_children nd = []" "nd_parent nd = None"
    and "fileno nd \<noteq> 0 \<longrightarrow> fileno nd \<in> set (unrs s)"
  shows "sgfs_destroy n s = Some (sgnode_free n (s\<lparr>unrs := if fileno nd = 0 then unrs s else remove1 (fileno nd) (unrs s)\<rparr>))"
  using assms by (subst sgfs_destroy.simps) (auto simp: sgfs_fileno_free_def is_dir_def)

lemma sgnode_free_at: "sg_nodes (sgnode_free n s) m = (if m = n then None else sg_nodes s m)"
  by (simp add: sgnode_free_def)

lemma sgnode_free_rest [simp]: "unrs (sgnode_free n s) = unrs s" "fs_locked (sgnode_free n s) = fs_locked s"
  by (simp_all add: sgnode_free_def)

text \<open>A removed directory with only its dot entries goes with them.\<close>

lemma destroy_removed:
  assumes n: "sg_nodes s n = Some nd" "nd_type nd = sgfstype_dir" "nd_fsinfo nd" "nd_children nd = [b, a]" "nd_parent nd = None"
    and b: "sg_nodes s b = Some bd" "nd_type bd = sgfstype_parent" "nd_fsinfo bd" "nd_parent bd = Some n"
    and a: "sg_nodes s a = Some ad" "nd_type ad = sgfstype_this" "nd_fsinfo ad" "nd_parent ad = Some n"
    and u: "fileno nd \<noteq> 0 \<longrightarrow> fileno nd \<in> set (unrs s)" and vns: "nd_vnodes nd = []" "nd_vnodes bd = []" "nd_vnodes ad = []"
  shows "\<exists>s'. sgfs_destroy n s = Some s' \<and> fs_locked s' = fs_locked s \<and>
    view s' = drop_set {n, b, a} (if fileno nd = 0 then unrs s else remove1 (fileno nd) (unrs s)) (view s)"
proof -
  have ne: "n \<noteq> b" "n \<noteq> a" "b \<noteq> a" using assms by auto
  define s1 where "s1 = sgnode_free b (upd_node n (\<lambda>d. d\<lparr>nd_children := remove1 b (nd_children d)\<rparr>) s)"
  define s2 where "s2 = sgnode_free a (upd_node n (\<lambda>d. d\<lparr>nd_children := remove1 a (nd_children d)\<rparr>) s1)"
  define s3 where "s3 = sgnode_free n (s2\<lparr>unrs := if fileno nd = 0 then unrs s else remove1 (fileno nd) (unrs s)\<rparr>)"
  have d: "is_dir nd" "\<not> is_dir bd" "\<not> is_dir ad" "dot_kind (Some (nd_type bd))" "dot_kind (Some (nd_type ad))"
    using n b a by (simp_all add: is_dir_def dot_kind_def)
  have 1: "sgfs_destroy b s = Some s1"
    unfolding s1_def by (rule destroy_dot [OF b(1) d(2) b(3) d(4) b(4) n(1,3) ne(1)])
  have n1: "sg_nodes s1 n = Some (nd\<lparr>nd_children := [a]\<rparr>)" "sg_nodes s1 a = Some ad" "unrs s1 = unrs s"
    using n a ne by (simp_all add: s1_def sgnode_free_at upd_node_at)
  have 2: "sgfs_destroy a s1 = Some s2"
    unfolding s2_def by (rule destroy_dot [OF n1(2) d(3) a(3) d(5) a(4) n1(1) _ ne(2)]) (simp add: n(3))
  have n2: "sg_nodes s2 n = Some (nd\<lparr>nd_children := []\<rparr>)" "unrs s2 = unrs s"
    using n1 ne by (simp_all add: s2_def sgnode_free_at upd_node_at)
  have 3: "sgfs_destroy n s2 = Some s3"
    using destroy_alone [OF n2(1)] d n u n2(2) by (simp add: s3_def is_dir_def)
  have m1: "sgfs_destroy n s1 = Some s3"
    using n1(1) n d(1) 2 3 by (subst sgfs_destroy.simps) (simp add: is_dir_def)
  have run: "sgfs_destroy n s = Some s3"
    using n d(1) 1 m1 by (subst sgfs_destroy.simps) simp
  have nodes: "sg_nodes s3 m = (if m \<in> {n, b, a} then None else sg_nodes s m)" for m
    by (auto simp: s3_def s2_def s1_def sgnode_free_at upd_node_at)
  have rest: "sg_vnodes s3 = sg_vnodes s" "fs_root s3 = fs_root s" "fs_locked s3 = fs_locked s"
    "unrs s3 = (if fileno nd = 0 then unrs s else remove1 (fileno nd) (unrs s))"
    by (simp_all add: s3_def s2_def s1_def sgnode_free_def)
  have "view s3 = drop_set {n, b, a} (if fileno nd = 0 then unrs s else remove1 (fileno nd) (unrs s)) (view s)"
    unfolding view_def drop_set_def using rest nodes by (auto simp: of_node_def fun_eq_iff)
  then show ?thesis using run rest by blast
qed

section \<open>Taking and giving back references\<close>

lemma addref_ok:
  assumes "fs_inv H (view s)" "dir_kind (kind (view s) n)"
  shows "\<exists>s'. sgnode_addref n s = Some s' \<and> fs_locked s' = fs_locked s \<and> fs_inv (H(n := H n + 1)) (view s') \<and>
    view s' = (view s)\<lparr>cnt := (cnt (view s))(n := cnt (view s) n + 1)\<rparr>"
proof -
  obtain nd where nd: "sg_nodes s n = Some nd" using kind_cases(2) [OF assms(2)] live_view by blast
  let ?s = "upd_node n (\<lambda>d. d\<lparr>refcount := refcount d + 1\<rparr>) s"
  have v: "view ?s = (view s)\<lparr>cnt := (cnt (view s))(n := cnt (view s) n + 1)\<rparr>"
    using view_changes(1) [OF nd, of "\<lambda>d. refcount d + 1"] node_view(8) [OF nd] by simp
  show ?thesis using inv_hold [OF assms] nd v by (intro exI [of _ ?s]) (simp add: sgnode_addref_def)
qed

text \<open>
  Giving back a held reference: either only the count changes, or the node is a removed directory nothing
  else refers to, and it goes with its dot entries.
\<close>

definition last_ref :: "fsview \<Rightarrow> nid \<Rightarrow> bool" where
  "last_ref V n \<longleftrightarrow> gone V n \<and> cnt V n = 3"

lemma last_refD:
  assumes inv: "fs_inv H V" and h: "0 < H n" and l: "last_ref V n"
  shows "kind V n = Some sgfstype_dir" "par V n = None" "vns V n = []" "H n = 1" "\<exists>b a. dots V n b a \<and> kids V n = [b, a]"
proof -
  note L = linksD [OF fs_invD(1) [OF inv]] and SD = shapeD [OF fs_invD(2) [OF inv]] and Rf = refsD [OF fs_invD(4) [OF inv]]
  have k: "kind V n \<noteq> None" using Rf(2) [of n] h kind_cases(2) by force
  have g: "gone V n" "cnt V n = 3" using l by (simp_all add: last_ref_def)
  have "\<not> dot_kind (kind V n)" using SD(7) [of n] g by blast
  then have dk: "dir_kind (kind V n)" using SD(2) [OF k] by blast
  moreover have "vroot V \<noteq> Some n" using SD(6) [of n] g by blast
  ultimately show kd: "kind V n = Some sgfstype_dir" using SD(5) [of n] by (auto simp: dir_kind_def)
  show "par V n = None" using SD(4) [OF kd] g by blast
  obtain b a where d: "dots V n b a" using SD(3) [OF dk] by blast
  have c: "3 = H n + int (length (kids V n)) + int (length (vns V n))" using Rf(3) [OF k] g by simp
  have 2: "2 \<le> length (kids V n)" by (rule dots_kids(1) [OF d])
  have "length (vns V n) = 0" using c 2 h by linarith
  then show "vns V n = []" by simp
  show h1: "H n = 1" using c 2 h by linarith
  have "length (kids V n) = 2" using c 2 h by linarith
  then show "\<exists>b a. dots V n b a \<and> kids V n = [b, a]" using d dots_kids(2) [OF d] by blast
qed

lemma release_ok:
  assumes inv: "fs_inv H (view s)" and h: "0 < H n"
  shows "\<exists>s'. sgnode_release n s = Some s' \<and> fs_locked s' = fs_locked s \<and> fs_inv (H(n := H n - 1)) (view s') \<and>
    (if last_ref (view s) n then \<exists>b a us. kids (view s) n = [b, a] \<and> dots (view s) n b a \<and> view s' = drop_set {n, b, a} us (view s)
     else view s' = (view s)\<lparr>cnt := (cnt (view s))(n := cnt (view s) n - 1)\<rparr>)"
proof -
  let ?V = "view s"
  note L = linksD [OF fs_invD(1) [OF inv]] and SD = shapeD [OF fs_invD(2) [OF inv]] and Rf = refsD [OF fs_invD(4) [OF inv]]
  note U = numD [OF fs_invD(6) [OF inv]]
  have k: "kind ?V n \<noteq> None" using Rf(2) [of n] h kind_cases(2) by force
  obtain nd where nd: "sg_nodes s n = Some nd" using k live_view by blast
  note nv = node_view [OF nd]
  let ?s = "upd_node n (\<lambda>d. d\<lparr>refcount := refcount d - 1\<rparr>) s"
  have v: "view ?s = ?V\<lparr>cnt := (cnt ?V)(n := cnt ?V n - 1)\<rparr>"
    using view_changes(1) [OF nd, of "\<lambda>d. refcount d - 1"] nv by simp
  show ?thesis
  proof (cases "last_ref ?V n")
    case False
    have "refcount nd \<noteq> (if is_dir nd then 3 else 1)"
    proof (cases "is_dir nd")
      case True
      then have dk: "dir_kind (kind ?V n)" using nv(1) by (auto simp: is_dir_def dir_kind_def)
      obtain b a where d: "dots ?V n b a" using SD(3) [OF dk] by blast
      have "cnt ?V n \<noteq> 3" using Rf(3) [OF k] dots_kids(1) [OF d] False h by (auto simp: last_ref_def split: if_splits)
      then show ?thesis using True nv by simp
    next
      case False
      then have "dot_kind (kind ?V n)" using SD(2) [OF k] nv(1) by (auto simp: is_dir_def dir_kind_def)
      then have "\<not> gone ?V n" using SD(7) [of n] by blast
      then show ?thesis using Rf(3) [OF k] False h nv by simp
    qed
    moreover have "gone ?V n \<longrightarrow> 3 < cnt ?V n" using Rf(4) [OF k] False by (auto simp: last_ref_def)
    ultimately show ?thesis using inv_unhold [OF inv h] v nd False by (simp add: sgnode_release_def Let_def)
  next
    case True
    obtain b a where d: "dots ?V n b a" "kids ?V n = [b, a]" using last_refD(5) [OF inv h True] by blast
    note lr = last_refD(1-4) [OF inv h True]
    have c3: "cnt ?V n = 3" using True by (simp add: last_ref_def)
    have ks: "kind ?V b = Some sgfstype_parent" "kind ?V a = Some sgfstype_this" using d by (auto simp: dots_def)
    obtain bd where bd: "sg_nodes s b = Some bd" "nd_type bd = sgfstype_parent" using ks(1) by (rule kind_obtain)
    obtain ad where ad: "sg_nodes s a = Some ad" "nd_type ad = sgfstype_this" using ks(2) by (rule kind_obtain)
    have ps: "par ?V b = Some n" "par ?V a = Some n" using L(1) [of b n] L(1) [of a n] d by simp_all
    have ne: "n \<noteq> b" "n \<noteq> a" using lr(1) ks by auto
    have dk: "dir_kind (kind ?V n)" using lr(1) by (simp add: dir_kind_def)
    have fu: "fileno nd \<noteq> 0 \<longrightarrow> fileno nd \<in> set (unrs s)" using U(2) [of "fileno nd"] dk nv by auto
    have dv: "vns ?V b = []" "vns ?V a = []" "info ?V b" "info ?V a" "info ?V n"
      using SD(7) [of b] SD(7) [of a] SD(1) ks lr by (simp_all add: dot_kind_def)
    define s1 where "s1 = (if fs_locked s then ?s else ?s\<lparr>fs_locked := True\<rparr>)"
    define us where "us = (if fileno nd = 0 then unrs s else remove1 (fileno nd) (unrs s))"
    have s1: "sg_nodes s1 = sg_nodes ?s" "unrs s1 = unrs s" "fs_locked s1" by (simp_all add: s1_def)
    have "\<exists>s2. sgfs_destroy n s1 = Some s2 \<and> fs_locked s2 = fs_locked s1 \<and> view s2 = drop_set {n, b, a}
        (if fileno (nd\<lparr>refcount := refcount nd - 1\<rparr>) = 0 then unrs s1 else remove1 (fileno (nd\<lparr>refcount := refcount nd - 1\<rparr>)) (unrs s1)) (view s1)"
    proof (rule destroy_removed)
      show "sg_nodes s1 n = Some (nd\<lparr>refcount := refcount nd - 1\<rparr>)" "sg_nodes s1 b = Some bd" "sg_nodes s1 a = Some ad"
        using s1 nd bd ad ne by (simp_all add: upd_node_at)
    qed (use nd nv lr d bd ad ps dv fu s1 node_view [OF bd(1)] node_view [OF ad(1)] in simp_all)
    then obtain s2 where s2: "sgfs_destroy n s1 = Some s2" "fs_locked s2" "view s2 = drop_set {n, b, a} us (view s1)"
      using s1 by (auto simp: us_def)
    have "view s1 = view ?s" by (simp add: s1_def view_rest)
    then have v2: "view s2 = drop_set {n, b, a} us ?V" using s2(3) v by (simp add: drop_set_def fun_eq_iff)
    define s3 where "s3 = (if fs_locked s then s2 else s2\<lparr>fs_locked := False\<rparr>)"
    have v3: "view s3 = drop_set {n, b, a} us ?V" "fs_locked s3 = fs_locked s" using v2 s2(2) by (simp_all add: s3_def view_rest)
    have run: "sgnode_release n s = Some s3"
      using nd s2 c3 nv lr(1) unfolding sgnode_release_def s3_def
      by (cases "fs_locked s") (simp_all add: s1_def is_dir_def Let_def)
    have cl: "par ?V c = Some p \<Longrightarrow> c \<in> {n, b, a} \<longleftrightarrow> p \<in> {n, b, a}" for c p
      using L(1) [of c p] d lr(2) ps SD(7) [of b] SD(7) [of a] ks by (auto simp: dot_kind_def)
    have "fs_inv (\<lambda>m. if m \<in> {n, b, a} then 0 else H m) (drop_set {n, b, a} us ?V)"
    proof (rule inv_drop_set [OF inv cl])
      show "vns ?V m = []" if "m \<in> {n, b, a}" for m using that lr(3) dv by auto
      show "r \<notin> {n, b, a}" if "vroot ?V = Some r" for r using that SD(5) [of r] lr(1) ks by auto
      show "distinct us" using U(1) by (simp add: us_def)
      have "{m \<in> {n, b, a}. dir_kind (kind ?V m)} = {n}" using dk ks by (auto simp: dir_kind_def)
      then show "set us = set (unos ?V) - fno ?V ` {m \<in> {n, b, a}. dir_kind (kind ?V m)}"
        using U(1) U(2) [of 0] nv(6) by (auto simp: us_def)
    qed
    moreover have "(\<lambda>m. if m \<in> {n, b, a} then 0 else H m) = H(n := H n - 1)"
    proof -
      have "H b = 0" "H a = 0" using Rf(2) [of b] Rf(2) [of a] ks by (simp_all add: dir_kind_def)
      then show ?thesis using lr(4) ne by (auto simp: fun_eq_iff)
    qed
    ultimately show ?thesis using run v3 d True by auto
  qed
qed

lemma release_to:
  assumes "fs_inv (H(n := H n + 1)) (view s)" "0 \<le> H n"
  shows "\<exists>s'. sgnode_release n s = Some s' \<and> fs_locked s' = fs_locked s \<and> fs_inv H (view s') \<and>
    (if last_ref (view s) n then \<exists>b a us. kids (view s) n = [b, a] \<and> dots (view s) n b a \<and> view s' = drop_set {n, b, a} us (view s)
     else view s' = (view s)\<lparr>cnt := (cnt (view s))(n := cnt (view s) n - 1)\<rparr>)"
  using release_ok [OF assms(1), of n] assms(2) by simp

lemma release_only:
  assumes "fs_inv ((\<lambda>_. 0)(n := 1)) (view s)" "\<not> gone (view s) n"
  shows "\<exists>s'. sgnode_release n s = Some s' \<and> fs_locked s' = fs_locked s \<and> fs_inv (\<lambda>_. 0) (view s') \<and>
    view s' = (view s)\<lparr>cnt := (cnt (view s))(n := cnt (view s) n - 1)\<rparr>"
  using release_to [of "\<lambda>_. 0" n s] assms by (simp add: last_ref_def)

end
