(* ===== verification/Sgfs_Make.thy ===== *)
theory Sgfs_Make
  imports Sgfs_Refs
begin

text \<open>Names and search, the creation of directories, and the allocation of vnodes.\<close>

section \<open>Names\<close>

lemma strncmp_take:
  assumes "CHR 0x00 \<notin> set xs" "CHR 0x00 \<notin> set ys"
  shows "strncmp_eq xs ys k \<longleftrightarrow> take k xs = take k ys"
  using assms
proof (induction k arbitrary: xs ys)
  case (Suc k)
  show ?case
  proof (cases xs; cases ys)
    fix x xs' y ys' assume e: "xs = x # xs'" "ys = y # ys'"
    then show ?thesis using Suc.IH [of xs' ys'] Suc.prems by (auto simp: char_at_def)
  qed (use Suc.prems in \<open>auto simp: char_at_def\<close>)
qed simp

lemma name_matches_eq:
  assumes "CHR 0x00 \<notin> set nm" "CHR 0x00 \<notin> set name"
  shows "name_matches nm name \<longleftrightarrow> nm = name"
proof
  assume "name_matches nm name"
  then have t: "take (length name) nm = name" and c: "char_at nm (length name) = CHR 0x00"
    using strncmp_take [OF assms] by (simp_all add: name_matches_def)
  have "length nm \<le> length name"
  proof (rule ccontr)
    assume "\<not> length nm \<le> length name"
    then have l: "length name < length nm" by simp
    then have "nm ! length name = CHR 0x00" using c by (simp add: char_at_def)
    then show False using assms(1) nth_mem [OF l] by simp
  qed
  then show "nm = name" using t by simp
next
  assume "nm = name"
  then show "name_matches nm name" using strncmp_take [OF assms] by (simp add: name_matches_def char_at_def)
qed

text \<open>The entry of a directory under a name.\<close>

definition entry :: "fsview \<Rightarrow> nid \<Rightarrow> string \<Rightarrow> nid option" where
  "entry V n name = find (\<lambda>c. nam V c = name) (kids V n)"

lemma scan_nodes_eq:
  assumes "CHR 0x00 \<notin> set name" "name_inv (view s)" "\<forall>c\<in>set cs. kind (view s) c \<noteq> None"
  shows "scan_nodes name cs s = Some (find (\<lambda>c. nam (view s) c = name) cs)"
  using assms(3)
proof (induction cs)
  case (Cons c cs)
  obtain nd where nd: "sg_nodes s c = Some nd" using Cons.prems live_view [of s c] by auto
  have "CHR 0x00 \<notin> set (nd_name nd)" using assms(2) node_view(7) [OF nd] unfolding name_inv_def by metis
  then show ?case using Cons nd name_matches_eq assms(1) node_view(7) [OF nd] by simp
qed simp

lemma search_eq:
  assumes "fs_inv H (view s)" "kind (view s) p \<noteq> None" "fs_locked s" "CHR 0x00 \<notin> set name"
  shows "sgfs_search p name s = Some (entry (view s) p name)"
proof -
  obtain pd where pd: "sg_nodes s p = Some pd" using assms(2) live_view by blast
  have "kind (view s) c \<noteq> None" if "c \<in> set (kids (view s) p)" for c
    using linksD(1,7) [OF fs_invD(1) [OF assms(1)]] that by blast
  then show ?thesis
    using scan_nodes_eq [OF assms(4) fs_invD(5) [OF assms(1)]] pd node_view(3) [OF pd] assms(3)
    by (simp add: sgfs_search_def entry_def)
qed

lemma entry_iff:
  assumes "fs_inv H V"
  shows "entry V p name = Some c \<longleftrightarrow> par V c = Some p \<and> nam V c = name"
proof -
  have N: "\<And>c d. \<lbrakk>c \<in> set (kids V p); d \<in> set (kids V p); nam V c = nam V d\<rbrakk> \<Longrightarrow> c = d"
    using fs_invD(5) [OF assms] unfolding name_inv_def by blast
  have "distinct (map (nam V) (kids V p))"
    using linksD(2) [OF fs_invD(1) [OF assms]] N by (simp add: distinct_map inj_on_def)
  then have "entry V p name = Some c \<longleftrightarrow> c \<in> set (kids V p) \<and> nam V c = name" unfolding entry_def by (rule find_distinct)
  then show ?thesis using linksD(1) [OF fs_invD(1) [OF assms]] by blast
qed

lemma entry_dots:
  assumes "fs_inv H V" "dots V p b a"
  shows "entry V p ''..'' = Some b" "entry V p ''.'' = Some a"
  using assms entry_iff [OF assms(1)] linksD(1) [OF fs_invD(1) [OF assms(1)]] dots_mem [OF assms(2)]
  by (auto simp: dots_def)

section \<open>Making a directory\<close>

text \<open>Addresses the zone returns are not in use.\<close>

definition fresh_nodes :: "node_alloc \<times> node_alloc \<times> node_alloc \<Rightarrow> sgfs_info \<Rightarrow> bool" where
  "fresh_nodes N s \<longleftrightarrow> (case N of (x, x1, x2) \<Rightarrow>
     sg_nodes s (na_addr x) = None \<and> sg_nodes s (na_addr x1) = None \<and> sg_nodes s (na_addr x2) = None \<and>
     na_addr x \<noteq> na_addr x1 \<and> na_addr x \<noteq> na_addr x2 \<and> na_addr x1 \<noteq> na_addr x2)"

lemma add_node_ok:
  assumes "sg_nodes s p = Some pd" "nd_fsinfo pd" "is_dir pd" "sg_nodes s n = Some nd" "n \<noteq> p"
  shows "\<exists>s'. sgfs_add_node p n s = Some (0, s') \<and> fs_locked s' = fs_locked s \<and> sg_vnodes s' = sg_vnodes s \<and>
    fs_root s' = fs_root s \<and> unrs s' = unrs s \<and> sg_nodes s' = (sg_nodes s)
      (n \<mapsto> nd\<lparr>nd_fsinfo := True, nd_parent := Some p, nd_children := [], nd_vnodes := []\<rparr>,
       p \<mapsto> pd\<lparr>nd_children := n # nd_children pd, refcount := refcount pd + 1\<rparr>)"
  using assms by (auto simp: sgfs_add_node_def sgnode_addref_def upd_node_at upd_node_def fun_eq_iff Let_def)

lemma create_dir_ok:
  assumes p: "sg_nodes s p = Some pd" "nd_fsinfo pd" "is_dir pd" and fresh: "fresh_nodes N s"
    and name: "length name \<le> SGFS_NAMELEN + 1" "CHR 0x00 \<notin> set name" and N: "N = (x, x1, x2)"
  shows "\<exists>s'. sgfs_create_dir p name c mode N s = Some (Some (na_addr x), s') \<and> fs_locked s' = fs_locked s \<and>
    view s' = add_dir (na_addr x) (na_addr x2) (na_addr x1) name p (view s)"
proof -
  let ?n = "na_addr x" and ?a = "na_addr x1" and ?b = "na_addr x2"
  have fr: "sg_nodes s ?n = None" "sg_nodes s ?a = None" "sg_nodes s ?b = None" "?n \<noteq> ?a" "?n \<noteq> ?b" "?a \<noteq> ?b"
    using fresh N by (simp_all add: fresh_nodes_def)
  have pn: "p \<noteq> ?n" "p \<noteq> ?a" "p \<noteq> ?b" using p fr by auto
  have tw: "takeWhile (\<lambda>ch. ch \<noteq> CHR 0x00) name = name" using name(2) by (simp add: takeWhile_eq_all_conv, metis)
  obtain s1 nd where 1: "sgfs_create_node name c mode sgfstype_dir x s = Some (?n, s1)"
    and n1: "s1 = s\<lparr>sg_nodes := (sg_nodes s)(?n \<mapsto> nd)\<rparr>" "nd_name nd = name" "nd_type nd = sgfstype_dir" "refcount nd = 1" "\<not> nd_deleted nd" "fileno nd = 0"
    using name(1) tw by (simp add: sgfs_create_node_def)
  obtain s2 where 2: "sgfs_add_node p ?n s1 = Some (0, s2)" "fs_locked s2 = fs_locked s" "sg_vnodes s2 = sg_vnodes s" "fs_root s2 = fs_root s" "unrs s2 = unrs s"
    and n2: "sg_nodes s2 = (sg_nodes s)(?n \<mapsto> nd\<lparr>nd_fsinfo := True, nd_parent := Some p, nd_children := [], nd_vnodes := []\<rparr>,
      p \<mapsto> pd\<lparr>nd_children := ?n # nd_children pd, refcount := refcount pd + 1\<rparr>)"
    using add_node_ok [of s1 p pd ?n nd] p pn n1(1) by auto
  obtain s3 ad where 3: "sgfs_create_node ''.'' c 493 sgfstype_this x1 s2 = Some (?a, s3)"
    and n3: "s3 = s2\<lparr>sg_nodes := (sg_nodes s2)(?a \<mapsto> ad)\<rparr>" "nd_name ad = ''.''" "nd_type ad = sgfstype_this" "refcount ad = 1" "\<not> nd_deleted ad" "fileno ad = 0"
    by (simp add: sgfs_create_node_def SGFS_NAMELEN_def)
  define nd2 where "nd2 = nd\<lparr>nd_fsinfo := True, nd_parent := Some p, nd_children := [], nd_vnodes := []\<rparr>"
  have x3: "sg_nodes s3 ?n = Some nd2" "sg_nodes s3 ?a = Some ad" using n3(1) n2 fr pn by (simp_all add: nd2_def)
  have d2: "nd_fsinfo nd2" "is_dir nd2" using n1 by (simp_all add: nd2_def is_dir_def)
  obtain s4 where 4: "sgfs_add_node ?n ?a s3 = Some (0, s4)" "fs_locked s4 = fs_locked s" "sg_vnodes s4 = sg_vnodes s" "fs_root s4 = fs_root s" "unrs s4 = unrs s"
    and n4: "sg_nodes s4 = (sg_nodes s3)(?a \<mapsto> ad\<lparr>nd_fsinfo := True, nd_parent := Some ?n, nd_children := [], nd_vnodes := []\<rparr>,
      ?n \<mapsto> nd2\<lparr>nd_children := ?a # nd_children nd2, refcount := refcount nd2 + 1\<rparr>)"
    using add_node_ok [OF x3(1) d2 x3(2)] fr n3(1) 2 by auto
  obtain s5 bd where 5: "sgfs_create_node ''..'' c 493 sgfstype_parent x2 s4 = Some (?b, s5)"
    and n5: "s5 = s4\<lparr>sg_nodes := (sg_nodes s4)(?b \<mapsto> bd)\<rparr>" "nd_name bd = ''..''" "nd_type bd = sgfstype_parent" "refcount bd = 1" "\<not> nd_deleted bd" "fileno bd = 0"
    by (simp add: sgfs_create_node_def SGFS_NAMELEN_def)
  define nd4 where "nd4 = nd2\<lparr>nd_children := ?a # nd_children nd2, refcount := refcount nd2 + 1\<rparr>"
  have x5: "sg_nodes s5 ?n = Some nd4" "sg_nodes s5 ?b = Some bd" using n5(1) n4 fr pn by (simp_all add: nd4_def)
  have d4: "nd_fsinfo nd4" "is_dir nd4" using d2 by (simp_all add: nd4_def is_dir_def)
  obtain s6 where 6: "sgfs_add_node ?n ?b s5 = Some (0, s6)" "fs_locked s6 = fs_locked s" "sg_vnodes s6 = sg_vnodes s" "fs_root s6 = fs_root s" "unrs s6 = unrs s"
    and n6: "sg_nodes s6 = (sg_nodes s5)(?b \<mapsto> bd\<lparr>nd_fsinfo := True, nd_parent := Some ?n, nd_children := [], nd_vnodes := []\<rparr>,
      ?n \<mapsto> nd4\<lparr>nd_children := ?b # nd_children nd4, refcount := refcount nd4 + 1\<rparr>)"
    using add_node_ok [OF x5(1) d4 x5(2)] fr n5(1) 4 by auto
  have run: "sgfs_create_dir p name c mode N s = Some (Some ?n, s6)"
    by (simp add: sgfs_create_dir_def N sgfs_fixup_dir_def 1 2 3 4 5 6)
  have nodes: "sg_nodes s6 m = (if m = ?n then Some (nd4\<lparr>nd_children := [?b, ?a], refcount := 3\<rparr>)
      else if m = ?b then Some (bd\<lparr>nd_fsinfo := True, nd_parent := Some ?n, nd_children := [], nd_vnodes := []\<rparr>)
      else if m = ?a then Some (ad\<lparr>nd_fsinfo := True, nd_parent := Some ?n, nd_children := [], nd_vnodes := []\<rparr>)
      else if m = p then Some (pd\<lparr>nd_children := ?n # nd_children pd, refcount := refcount pd + 1\<rparr>) else sg_nodes s m)" for m
    using n6 n5(1) n4 n3(1) n2 n1 pn fr by (simp add: nd4_def nd2_def)
  have "view s6 = add_dir ?n ?b ?a name p (view s)"
    unfolding view_def add_dir_def using 6(3-5) nodes p pn fr n1 n3 n5
    by (simp add: of_node_def fun_eq_iff nd4_def nd2_def)
  then show ?thesis using run 6(2) by blast
qed

end
