(* ===== verification/Sgfs_Run.thy ===== *)
theory Sgfs_Run
  imports Sgfs_Make
begin

text \<open>The operations of the file system on directories and vnodes: their outcomes and the invariant.\<close>

section \<open>Allocating a vnode\<close>

definition on_mount :: "nat \<Rightarrow> sgfs_info \<Rightarrow> vid \<Rightarrow> bool" where
  "on_mount mp s v \<longleftrightarrow> (case sg_vnodes s v of None \<Rightarrow> False | Some vn \<Rightarrow> v_mount vn = mp)"

lemma find_vnode_eq: "\<forall>v\<in>set vs. sg_vnodes s v \<noteq> None \<Longrightarrow> find_vnode mp vs s = Some (find (on_mount mp s) vs)"
  by (induction vs) (auto simp: on_mount_def)

lemma find_vnode_ok:
  assumes "fs_inv H (view s)" "sg_nodes s n = Some nd"
  shows "find_vnode mp (nd_vnodes nd) s = Some (find (on_mount mp s) (vns (view s) n))"
proof -
  have "\<forall>v\<in>set (nd_vnodes nd). sg_vnodes s v \<noteq> None"
  proof
    fix v assume "v \<in> set (nd_vnodes nd)"
    then have "v \<in> set (vns (view s) n)" using node_view(4) [OF assms(2)] by simp
    then show "sg_vnodes s v \<noteq> None" using vnodeD(2) [OF fs_invD(3) [OF assms(1)], of v n] by auto
  qed
  then show ?thesis using find_vnode_eq node_view(4) [OF assms(2)] by simp
qed

text \<open>What vnodes do not change.\<close>

definition same_tree :: "fsview \<Rightarrow> fsview \<Rightarrow> bool" where
  "same_tree V W \<longleftrightarrow> kind W = kind V \<and> par W = par V \<and> kids W = kids V \<and> gone W = gone V \<and> nam W = nam V \<and> fno W = fno V \<and>
     vroot W = vroot V"

lemma same_tree_refl [simp]: "same_tree V V"
  by (simp add: same_tree_def)

lemma same_tree_trans: "same_tree U V \<Longrightarrow> same_tree V W \<Longrightarrow> same_tree U W"
  by (simp add: same_tree_def)

lemma same_tree_cnt [simp]: "same_tree V (V\<lparr>cnt := c\<rparr>)"
  by (simp add: same_tree_def)

definition stands_for :: "nat \<Rightarrow> nid \<Rightarrow> sgfs_info \<Rightarrow> vid \<Rightarrow> bool" where
  "stands_for mp n s w \<longleftrightarrow> (\<exists>wn. sg_vnodes s w = Some wn \<and> v_data wn = Some n \<and> v_mount wn = mp)"

definition vnodes_kept :: "sgfs_info \<Rightarrow> sgfs_info \<Rightarrow> bool" where
  "vnodes_kept s s' \<longleftrightarrow> (\<forall>w wn. sg_vnodes s w = Some wn \<longrightarrow> sg_vnodes s' w = Some wn)"

text \<open>Nobody else changes the file system while the new vnode is made, and its address is new.\<close>

definition undisturbed :: "vn_alloc \<Rightarrow> sgfs_info \<Rightarrow> bool" where
  "undisturbed A s \<longleftrightarrow> va_blocked A = Some \<and> sg_vnodes s (va_addr A) = None"

lemma allocv_ok:
  assumes inv: "fs_inv H (view s)" and l: "\<not> fs_locked s" and n: "dir_kind (kind (view s) n)" and A: "undisturbed A s"
  shows "\<exists>e v s'. sgfs_allocv mp A n s = Some (e, v, s') \<and> \<not> fs_locked s' \<and> fs_inv H (view s') \<and> same_tree (view s) (view s') \<and>
    vnodes_kept s s' \<and> (\<forall>w. v = Some w \<longrightarrow> stands_for mp n s' w) \<and> (v = None \<longrightarrow> e \<noteq> None) \<and>
    (va_getnew A = None \<and> va_insmntque A = None \<and> va_vget A = None \<longrightarrow> e = None)"
proof -
  let ?V = "view s"
  obtain nd where nd: "sg_nodes s n = Some nd" using kind_cases(2) [OF n] live_view by blast
  let ?s = "s\<lparr>fs_locked := True\<rparr>"
  have vl: "view ?s = ?V" by (rule view_rest)
  have nl: "sg_nodes ?s n = Some nd" using nd by simp
  have fv: "find_vnode mp (nd_vnodes nd) ?s = Some (find (on_mount mp s) (vns ?V n))"
    using find_vnode_ok [of H ?s n nd mp] inv vl nl by (simp add: on_mount_def [abs_def])
  note VN = vnodeD [OF fs_invD(3) [OF inv]]
  show ?thesis
  proof (cases "find (on_mount mp s) (vns ?V n)")
    case (Some v)
    then have "v \<in> set (vns ?V n)" "on_mount mp s v" by (auto simp: find_Some_iff)
    then have "stands_for mp n s v" using VN(2) [of v n] by (auto simp: stands_for_def on_mount_def)
    moreover have "sgfs_allocv mp A n s = Some (va_vget A, Some v, s)"
      using l nl fv Some by (simp add: sgfs_allocv_def)
    ultimately show ?thesis using l inv by (auto simp: vnodes_kept_def)
  next
    case None
    note none = this
    have nom: "v_mount wn \<noteq> mp" if "w \<in> set (vns ?V n)" "vnod ?V w = Some wn" for w wn
      using none that by (auto simp: find_None_iff on_mount_def)
    have blk: "va_blocked A = Some" "sg_vnodes s (va_addr A) = None" using A by (simp_all add: undisturbed_def)
    consider e where "va_getnew A = Some e" | e where "va_getnew A = None" "va_insmntque A = Some e"
      | "va_getnew A = None" "va_insmntque A = None" by (cases "va_getnew A"; cases "va_insmntque A") auto
    then show ?thesis
    proof cases
      case (1 e)
      then have "sgfs_allocv mp A n s = Some (Some e, None, s)" using l nl fv none by (simp add: sgfs_allocv_def)
      then show ?thesis using 1 l inv by (auto simp: vnodes_kept_def)
    next
      case (2 e)
      then have "sgfs_allocv mp A n s = Some (Some e, None, s)" using l nl fv none blk by (simp add: sgfs_allocv_def)
      then show ?thesis using 2 l inv by (auto simp: vnodes_kept_def)
    next
      case 3
      obtain ty where ty: "vnode_kind (nd_type nd) = Some ty" "ty = VDIR"
        using n node_view(1) [OF nd] by (auto simp: dir_kind_def vnode_kind_def)
      define vn where "vn = \<lparr>v_mount = mp, v_data = Some n, v_type = VDIR, vv_root = (nd_type nd = sgfstype_root)\<rparr>"
      define t1 where "t1 = upd_node n (\<lambda>d. d\<lparr>nd_vnodes := va_addr A # nd_vnodes d\<rparr>) ?s"
      define nd1 where "nd1 = nd\<lparr>nd_vnodes := va_addr A # nd_vnodes nd\<rparr>"
      have n1: "sg_nodes t1 n = Some nd1" using nl by (simp add: t1_def upd_node_at nd1_def)
      define t2 where "t2 = upd_node n (\<lambda>d. d\<lparr>refcount := refcount d + 1\<rparr>) t1"
      define s' where "s' = t2\<lparr>sg_vnodes := (sg_vnodes s)(va_addr A \<mapsto> vn), fs_locked := False\<rparr>"
      have lk: "fs_locked t2" "sg_vnodes t2 = sg_vnodes s" by (simp_all add: t2_def t1_def)
      have run: "sgfs_allocv mp A n s = Some (None, Some (va_addr A), s')"
        using l nl fv none blk 3 ty n1 lk unfolding sgfs_allocv_def
        by (simp add: sgnode_addref_def t1_def [symmetric] t2_def [symmetric] s'_def vn_def Let_def)
      have v1: "view t1 = ?V\<lparr>vns := (vns ?V)(n := va_addr A # vns ?V n)\<rparr>"
        using view_changes(3) [OF nl, of "\<lambda>d. va_addr A # nd_vnodes d"] vl node_view(4) [OF nd] by (simp add: t1_def)
      have v2: "view t2 = (view t1)\<lparr>cnt := (cnt (view t1))(n := refcount nd1 + 1)\<rparr>"
        using view_changes(1) [OF n1, of "\<lambda>d. refcount d + 1"] by (simp add: t2_def)
      have v3: "view s' = ?V\<lparr>vns := (vns ?V)(n := va_addr A # vns ?V n), cnt := (cnt ?V)(n := cnt ?V n + 1), vnod := (vnod ?V)(va_addr A \<mapsto> vn)\<rparr>"
        using v1 v2 node_view(8) [OF nd] by (simp add: s'_def view_rest nd1_def)
      have "fs_inv H (view s')" unfolding v3
      proof (rule inv_add_vnode [OF inv n])
        show "vnod ?V (va_addr A) = None" using blk by simp
        show "v_type vn = VDIR" "v_data vn = Some n" "vv_root vn \<longleftrightarrow> kind ?V n = Some sgfstype_root"
          using node_view(1) [OF nd] by (simp_all add: vn_def)
        show "v_mount wn \<noteq> v_mount vn" if "w \<in> set (vns ?V n)" "vnod ?V w = Some wn" for w wn using nom that by (simp add: vn_def)
      qed
      moreover have "same_tree ?V (view s')" using v3 by (simp add: same_tree_def)
      moreover have "stands_for mp n s' (va_addr A)" by (simp add: stands_for_def s'_def vn_def)
      moreover have "vnodes_kept s s'" using blk by (auto simp: vnodes_kept_def s'_def)
      moreover have "\<not> fs_locked s'" by (simp add: s'_def)
      ultimately show ?thesis using run by blast
    qed
  qed
qed

text \<open>
  A vnode that \<open>getnewvnode\<close> has just made cannot be given up: \<open>sgfs_reclaim\<close> follows its NULL data.
  So \<open>sgfs_allocv\<close> fails when, while the new vnode is made, another thread makes one for the same node
  and mount, before it gets to release the lock a second time.
\<close>

lemma vgone_new_fails: "vgone_new mp v s = None"
  by (simp add: vgone_new_def sgfs_reclaim_def VTON_def)

section \<open>Using a node and giving it back\<close>

text \<open>A reference is taken, the vnode is allocated, and the reference is given back.\<close>

lemma hold_alloc_release:
  assumes ok: "fs_inv (\<lambda>_. 0) (view s)" "\<not> fs_locked s" and n: "dir_kind (kind (view s) n)" "\<not> gone (view s) n"
    and s1: "view s1 = (view s)\<lparr>cnt := (cnt (view s))(n := cnt (view s) n + 1)\<rparr>" "\<not> fs_locked s1" and A: "undisturbed A s1"
  shows "\<exists>e v s2 s3. sgfs_allocv mp A n s1 = Some (e, v, s2) \<and> sgnode_release n s2 = Some s3 \<and> fs_ok s3 \<and>
    same_tree (view s) (view s3) \<and> vnodes_kept s1 s3 \<and> (\<forall>w. v = Some w \<longrightarrow> stands_for mp n s3 w) \<and> (v = None \<longrightarrow> e \<noteq> None) \<and>
    (va_getnew A = None \<and> va_insmntque A = None \<and> va_vget A = None \<longrightarrow> e = None)"
proof -
  let ?H = "(\<lambda>_. 0 :: int)(n := 1)"
  have i1: "fs_inv ?H (view s1)" using inv_hold [OF ok(1) n(1)] s1(1) by simp
  have d1: "dir_kind (kind (view s1) n)" using n(1) s1(1) by simp
  obtain e v s2 where a: "sgfs_allocv mp A n s1 = Some (e, v, s2)" "\<not> fs_locked s2" "fs_inv ?H (view s2)" "same_tree (view s1) (view s2)"
    "vnodes_kept s1 s2" "\<forall>w. v = Some w \<longrightarrow> stands_for mp n s2 w" "v = None \<longrightarrow> e \<noteq> None"
    "va_getnew A = None \<and> va_insmntque A = None \<and> va_vget A = None \<longrightarrow> e = None"
    using allocv_ok [OF i1 s1(2) d1 A] by blast
  have "\<not> gone (view s2) n" using a(4) s1(1) n(2) by (simp add: same_tree_def)
  from release_only [OF a(3) this] obtain s3 where r: "sgnode_release n s2 = Some s3" "\<not> fs_locked s3" "fs_inv (\<lambda>_. 0) (view s3)"
    "view s3 = (view s2)\<lparr>cnt := (cnt (view s2))(n := cnt (view s2) n - 1)\<rparr>"
    using a(2) by auto
  have vv: "sg_vnodes s3 = sg_vnodes s2" using r(4) vnod_view(1) [of s3] vnod_view(1) [of s2] by simp
  have "fs_ok s3" using r by (simp add: fs_ok_def)
  moreover have "same_tree (view s) (view s3)" using a(4) r(4) s1(1) by (simp add: same_tree_def)
  moreover have "vnodes_kept s1 s3" "\<forall>w. v = Some w \<longrightarrow> stands_for mp n s3 w"
    using a(5,6) vv by (simp_all add: vnodes_kept_def stands_for_def)
  ultimately show ?thesis using a(1,7,8) r(1) by blast
qed

end
