(* ===== verification/Sgfs_Lookup.thy ===== *)
theory Sgfs_Lookup
  imports Sgfs_Run
begin

text \<open>Every outcome of a lookup on a sane file system.\<close>

section \<open>Lookup\<close>

text \<open>A component as the kernel passes it: no NUL in the name, and \<open>ISDOTDOT\<close> just for \<open>..\<close>.\<close>

definition cn_ok :: "componentname \<Rightarrow> bool" where
  "cn_ok cn \<longleftrightarrow> CHR 0x00 \<notin> set (cn_name cn) \<and> (cn_isdotdot cn \<longleftrightarrow> cn_name cn = ''..'')"

text \<open>What a component names in a directory.\<close>

definition resolve :: "fsview \<Rightarrow> nid \<Rightarrow> string \<Rightarrow> nid option" where
  "resolve V d name = (if name = ''.'' then Some d else if name = ''..'' then par V d else entry V d name)"

lemma vnode_node:
  assumes "fs_inv H (view s)" "sg_vnodes s v = Some vn" "v_data vn = Some d"
  shows "\<exists>nd. sg_nodes s d = Some nd" "dir_kind (kind (view s) d)" "v_type vn = VDIR"
    "vv_root vn \<longleftrightarrow> kind (view s) d = Some sgfstype_root" "VTON v s = Some d" "v \<in> set (vns (view s) d)"
proof -
  note VN = vnodeD [OF fs_invD(3) [OF assms(1)]]
  show d: "dir_kind (kind (view s) d)" "vv_root vn \<longleftrightarrow> kind (view s) d = Some sgfstype_root"
    using VN(4) [of v vn] assms(2,3) by auto
  show "\<exists>nd. sg_nodes s d = Some nd" using kind_cases(2) [OF d(1)] live_view by blast
  show "v_type vn = VDIR" using VN(3) assms(2) by simp
  show "VTON v s = Some d" using assms(2,3) by (simp add: VTON_def)
  show "v \<in> set (vns (view s) d)" using VN(2) [of v d] assms(2,3) by auto
qed

lemma access_total:
  assumes "fs_inv H (view s)" "sg_vnodes s v = Some vn"
  shows "\<exists>e. sgfs_access E v acc c s = Some e"
proof -
  obtain d where d: "v_data vn = Some d" using vnodeD(4) [OF fs_invD(3) [OF assms(1)], of v vn] assms(2) by auto
  then obtain nd where "sg_nodes s d = Some nd" using vnode_node(1) [OF assms d] by blast
  then show ?thesis using assms(2) d by (simp add: sgfs_access_def sgfs_getattr_def)
qed

lemma access_lock [simp]: "sgfs_access E v acc c (s\<lparr>fs_locked := l\<rparr>) = sgfs_access E v acc c s"
  by (simp add: sgfs_access_def sgfs_getattr_def)

text \<open>An entry that is not a dot entry is a directory that was not removed.\<close>

lemma entry_dir:
  assumes inv: "fs_inv H V" and e: "entry V d name = Some c" "name \<noteq> ''.''" "name \<noteq> ''..''"
  shows "kind V c = Some sgfstype_dir" "\<not> gone V c" "par V c = Some d" "nam V c = name"
proof -
  note L = linksD [OF fs_invD(1) [OF inv]] and SD = shapeD [OF fs_invD(2) [OF inv]]
  show p: "par V c = Some d" "nam V c = name" using entry_iff [OF inv, of d name c] e(1) by simp_all
  then have c: "c \<in> set (kids V d)" using L(1) by blast
  obtain b a where d: "dots V d b a" using SD(3) [of d] kids_dir [OF fs_invD(1,2) [OF inv] c] by blast
  have "c \<noteq> b" "c \<noteq> a" using d p(2) e(2,3) by (auto simp: dots_def)
  then show k: "kind V c = Some sgfstype_dir" using dots_parts [OF d c] by blast
  show "\<not> gone V c" using SD(4) [OF k] p(1) by simp
qed

text \<open>An operation only hands out vnodes, and gives errors.\<close>

definition lookup_result ::
    "sgfs_info \<Rightarrow> nat \<Rightarrow> nid option \<Rightarrow> errno option \<Rightarrow> vid option \<Rightarrow> sgfs_info \<Rightarrow> bool" where
  "lookup_result s mp target e v s' \<longleftrightarrow> fs_ok s' \<and> same_tree (view s) (view s') \<and> vnodes_kept s s' \<and>
     (\<forall>w. v = Some w \<longrightarrow> (\<exists>n. target = Some n \<and> stands_for mp n s' w)) \<and> (v = None \<longrightarrow> e \<noteq> None)"

lemma lookup_stays: "fs_ok s \<Longrightarrow> lookup_result s mp t (Some e) None s"
  by (simp add: lookup_result_def vnodes_kept_def)

text \<open>A directory vnode the caller may search, and a name of a possible length.\<close>

definition searchable :: "sgenv \<Rightarrow> vid \<Rightarrow> componentname \<Rightarrow> sgfs_info \<Rightarrow> vnode \<Rightarrow> nid \<Rightarrow> bool" where
  "searchable E dvp cn s vn d \<longleftrightarrow> fs_ok s \<and> sg_vnodes s dvp = Some vn \<and> v_data vn = Some d \<and>
     sgfs_access E dvp VEXEC (cn_cred cn) s = Some None \<and> length (cn_name cn) < SGFS_NAMELEN"

lemma searchableD:
  assumes "searchable E dvp cn s vn d"
  shows "fs_inv (\<lambda>_. 0) (view s)" "\<not> fs_locked s" "v_type vn = VDIR" "dir_kind (kind (view s) d)"
    "vv_root vn \<longleftrightarrow> kind (view s) d = Some sgfstype_root" "\<exists>nd. sg_nodes s d = Some nd"
    "sg_vnodes s dvp = Some vn" "v_data vn = Some d" "sgfs_access E dvp VEXEC (cn_cred cn) s = Some None"
    "\<not> SGFS_NAMELEN \<le> length (cn_name cn)" "fs_ok s"
  using assms vnode_node [of "\<lambda>_. 0" s dvp vn d] by (auto simp: searchable_def fs_ok_def)

lemma access_free: "sgfs_access E v acc c s = Some e \<Longrightarrow> vaccess E = (\<lambda>_ _ _ _ _ _. None) \<Longrightarrow> e = None"
  by (auto simp: sgfs_access_def split: Option.bind_splits)

lemma lookup_dot:
  assumes S: "searchable E dvp cn s vn d" and dot: "cn_name cn = ''.''"
  shows "sgfs_lookup E dvp cn A s = Some (if cn_islast cn \<and> cn_nameiop cn \<noteq> LOOKUP then (Some EINVAL, None, s) else (None, Some dvp, s))"
    "lookup_result s (v_mount vn) (Some d) None (Some dvp) s"
proof -
  note D = searchableD [OF S]
  obtain nd where "sg_nodes s d = Some nd" using D(6) by blast
  then show "sgfs_lookup E dvp cn A s = Some (if cn_islast cn \<and> cn_nameiop cn \<noteq> LOOKUP then (Some EINVAL, None, s) else (None, Some dvp, s))"
    using D dot by (simp add: sgfs_lookup_def sgfs_lookupx_def)
  show "lookup_result s (v_mount vn) (Some d) None (Some dvp) s"
    using D(7,8,11) by (simp add: lookup_result_def vnodes_kept_def stands_for_def)
qed

lemma lookup_dotdot_error:
  assumes S: "searchable E dvp cn s vn d" and dd: "cn_name cn = ''..''" "cn_isdotdot cn"
    and e: "vv_root vn \<or> cn_islast cn \<and> cn_nameiop cn \<noteq> LOOKUP"
  shows "sgfs_lookup E dvp cn A s = Some (Some (if vv_root vn then EIO else EINVAL), None, s)"
proof -
  note D = searchableD [OF S]
  obtain nd where "sg_nodes s d = Some nd" using D(6) by blast
  then show ?thesis using D(2,3,7-10) dd e by (cases "vv_root vn") (auto simp: sgfs_lookup_def sgfs_lookupx_def)
qed

lemma lookup_dotdot:
  assumes S: "searchable E dvp cn s vn d" and dd: "cn_name cn = ''..''" "cn_isdotdot cn" and g: "\<not> gone (view s) d"
    and e: "\<not> vv_root vn" "\<not> (cn_islast cn \<and> cn_nameiop cn \<noteq> LOOKUP)" and A: "undisturbed A s"
  shows "\<exists>p e w s'. par (view s) d = Some p \<and> sgfs_lookup E dvp cn A s = Some (e, w, s') \<and>
    lookup_result s (v_mount vn) (Some p) e w s' \<and> (va_getnew A = None \<and> va_insmntque A = None \<and> va_vget A = None \<longrightarrow> e = None)"
proof -
  note D = searchableD [OF S]
  obtain nd where nd: "sg_nodes s d = Some nd" using D(6) by blast
  have "kind (view s) d = Some sgfstype_dir" using D(4,5) e(1) by (auto simp: dir_kind_def)
  then obtain p where p: "par (view s) d = Some p" using shapeD(4) [OF fs_invD(2) [OF D(1)], of d] g by auto
  have "d \<in> set (kids (view s) p)" using linksD(1) [OF fs_invD(1) [OF D(1)]] p by blast
  then have pk: "dir_kind (kind (view s) p)" by (rule kids_dir [OF fs_invD(1,2) [OF D(1)]])
  obtain e w s' where a: "sgfs_allocv (v_mount vn) A p s = Some (e, w, s')" "\<not> fs_locked s'" "fs_inv (\<lambda>_. 0) (view s')"
    "same_tree (view s) (view s')" "vnodes_kept s s'" "\<forall>x. w = Some x \<longrightarrow> stands_for (v_mount vn) p s' x" "w = None \<longrightarrow> e \<noteq> None"
    "va_getnew A = None \<and> va_insmntque A = None \<and> va_vget A = None \<longrightarrow> e = None"
    using allocv_ok [OF D(1,2) pk A] by blast
  have "sgfs_lookup E dvp cn A s = Some (e, w, s')"
    using D nd dd assms(5,6) a(1) p node_view(2) [OF nd] by (auto simp: sgfs_lookup_def sgfs_lookupx_def)
  then show ?thesis using p a(2-) by (auto simp: lookup_result_def fs_ok_def)
qed

text \<open>Names other than the dot entries.\<close>

lemma search_named:
  assumes S: "searchable E dvp cn s vn d" and cn: "cn_ok cn"
  shows "sgfs_search d (cn_name cn) (s\<lparr>fs_locked := True\<rparr>) = Some (entry (view s) d (cn_name cn))"
  using search_eq [of "\<lambda>_. 0" "s\<lparr>fs_locked := True\<rparr>" d "cn_name cn"] searchableD(1,4) [OF S] kind_cases(2) cn
  by (simp add: view_rest cn_ok_def)

lemma lookup_missing:
  assumes S: "searchable E dvp cn s vn d" and cn: "cn_ok cn" "cn_name cn \<noteq> ''.''" "cn_name cn \<noteq> ''..''"
    and e: "entry (view s) d (cn_name cn) = None"
  shows "\<exists>e. sgfs_lookup E dvp cn A s = Some (Some e, None, s) \<and> (cn_nameiop cn = LOOKUP \<longrightarrow> e = ENOENT)"
proof -
  note D = searchableD [OF S]
  obtain nd where nd: "sg_nodes s d = Some nd" using D(6) by blast
  obtain e2 where e2: "sgfs_access E dvp VWRITE (cn_cred cn) s = Some e2" using access_total [OF D(1,7)] by blast
  define e where "e = (if (cn_nameiop cn = CREATE \<or> cn_nameiop cn = RENAME) \<and> cn_lockparent cn \<and> cn_islast cn
    then if e2 \<noteq> None then the e2 else EJUSTRETURN else ENOENT)"
  have "sgfs_lookup E dvp cn A s = Some (Some e, None, s)"
    using D nd cn search_named [OF S cn(1)] assms(5) e2 by (auto simp: sgfs_lookup_def sgfs_lookupx_def cn_ok_def e_def)
  then show ?thesis by (auto simp: e_def)
qed

lemma lookup_found:
  assumes S: "searchable E dvp cn s vn d" and cn: "cn_ok cn" "cn_name cn \<noteq> ''.''" "cn_name cn \<noteq> ''..''"
    and c: "entry (view s) d (cn_name cn) = Some c" and A: "undisturbed A s"
  shows "\<exists>e w s'. sgfs_lookup E dvp cn A s = Some (e, w, s') \<and> lookup_result s (v_mount vn) (Some c) e w s' \<and>
    (cn_nameiop cn = LOOKUP \<and> va_getnew A = None \<and> va_insmntque A = None \<and> va_vget A = None \<longrightarrow> e = None)"
proof -
  let ?V = "view s"
  note D = searchableD [OF S]
  obtain nd where nd: "sg_nodes s d = Some nd" using D(6) by blast
  note cd = entry_dir [OF D(1) c cn(2,3)]
  have cdk: "dir_kind (kind ?V c)" using cd(1) by (simp add: dir_kind_def)
  obtain s1 where s1: "sgnode_addref c (s\<lparr>fs_locked := True\<rparr>) = Some s1" "fs_locked s1"
    "view s1 = ?V\<lparr>cnt := (cnt ?V)(c := cnt ?V c + 1)\<rparr>" "fs_inv ((\<lambda>_. 0)(c := 1)) (view s1)"
    using addref_ok [of "\<lambda>_. 0" "s\<lparr>fs_locked := True\<rparr>" c] D(1) cdk by (auto simp: view_rest)
  define s2 where "s2 = s1\<lparr>fs_locked := False\<rparr>"
  have s2: "sx_xunlock s1 = Some s2" "\<not> fs_locked s2" "view s2 = view s1" using s1(2) by (simp_all add: s2_def view_rest)
  have sv: "sg_vnodes s2 = sg_vnodes s" using s1(3) s2(3) vnod_view(1) [of s2] by simp
  have A2: "undisturbed A s2" and v2: "sg_vnodes s2 dvp = Some vn" using A sv D(7) by (simp_all add: undisturbed_def)
  obtain e2 where e2: "sgfs_access E dvp VWRITE (cn_cred cn) s2 = Some e2" using access_total [OF _ v2] s1(4) s2(3) by metis
  note run = D nd cn search_named [OF S cn(1)] c s1(1,2) s2(1) e2
  show ?thesis
  proof (cases "cn_nameiop cn = DELETE \<and> cn_islast cn \<and> e2 \<noteq> None")
    case True
    obtain s3 where s3: "sgnode_release c s2 = Some s3" "fs_locked s3 = fs_locked s2" "fs_inv (\<lambda>_. 0) (view s3)"
      "view s3 = (view s2)\<lparr>cnt := (cnt (view s2))(c := cnt (view s2) c - 1)\<rparr>"
      using release_only [of c s2] s1(3,4) s2(3) cd(2) by auto
    have "same_tree ?V (view s3)" using s3(4) s2(3) s1(3) by (simp add: same_tree_def)
    moreover have "sg_vnodes s3 = sg_vnodes s" using s3(4) vnod_view(1) [of s3] vnod_view(1) [of s2] sv by simp
    ultimately have "lookup_result s (v_mount vn) (Some c) e2 None s3"
      using s3 s2(2) True by (simp add: lookup_result_def vnodes_kept_def fs_ok_def)
    moreover have "sgfs_lookup E dvp cn A s = Some (e2, None, s3)"
      using run True s3(1) by (auto simp: sgfs_lookup_def sgfs_lookupx_def cn_ok_def)
    ultimately show ?thesis using True by fastforce
  next
    case False
    then have e3: "(if cn_nameiop cn = DELETE \<and> cn_islast cn then sgfs_access E dvp VWRITE (cn_cred cn) s2 else Some None) = Some None"
      using e2 by auto
    obtain e w t s3 where a: "sgfs_allocv (v_mount vn) A c s2 = Some (e, w, t)" "sgnode_release c t = Some s3" "fs_ok s3"
      "same_tree ?V (view s3)" "vnodes_kept s2 s3" "\<forall>x. w = Some x \<longrightarrow> stands_for (v_mount vn) c s3 x" "w = None \<longrightarrow> e \<noteq> None"
      "va_getnew A = None \<and> va_insmntque A = None \<and> va_vget A = None \<longrightarrow> e = None"
      using hold_alloc_release [OF D(1,2) cdk cd(2) s1(3) [folded s2(3)] s2(2) A2, of "v_mount vn"] by blast
    have "sgfs_lookup E dvp cn A s = Some (e, w, s3)"
      using run(1-20) e3 a(1,2) by (simp add: sgfs_lookup_def sgfs_lookupx_def cn_ok_def)
    moreover have "vnodes_kept s s3" using a(5) sv by (simp add: vnodes_kept_def)
    ultimately show ?thesis using a(3,4,6,7,8) by (auto simp: lookup_result_def)
  qed
qed

text \<open>A removed directory apart, a lookup returns; it hands out a vnode for the node the name stands for, or an error.\<close>

lemma lookup_ok:
  assumes ok: "fs_ok s" and v: "sg_vnodes s dvp = Some vn" "v_data vn = Some d" and cn: "cn_ok cn"
    and A: "undisturbed A s" and dd: "cn_name cn = ''..'' \<longrightarrow> \<not> gone (view s) d"
  shows "\<exists>e v s'. sgfs_lookup E dvp cn A s = Some (e, v, s') \<and> lookup_result s (v_mount vn) (resolve (view s) d (cn_name cn)) e v s'"
proof -
  have inv: "fs_inv (\<lambda>_. 0) (view s)" using ok by (simp add: fs_ok_def)
  note vd = vnode_node [OF inv v]
  obtain nd where nd: "sg_nodes s d = Some nd" using vd(1) by blast
  obtain e1 where e1: "sgfs_access E dvp VEXEC (cn_cred cn) s = Some e1" using access_total [OF inv v(1)] by blast
  have dd': "cn_isdotdot cn \<longleftrightarrow> cn_name cn = ''..''" using cn by (simp add: cn_ok_def)
  show ?thesis
  proof (cases "searchable E dvp cn s vn d")
    case False
    then have "\<exists>e. sgfs_lookup E dvp cn A s = Some (Some e, None, s)"
      using ok v nd vd(3) e1 by (cases e1) (auto simp: sgfs_lookup_def sgfs_lookupx_def searchable_def)
    then show ?thesis using lookup_stays [OF ok] by blast
  next
    case True
    note stays = lookup_stays [OF ok]
    consider "cn_name cn = ''.''" | "cn_name cn = ''..''" "vv_root vn \<or> cn_islast cn \<and> cn_nameiop cn \<noteq> LOOKUP"
      | "cn_name cn = ''..''" "\<not> vv_root vn" "\<not> (cn_islast cn \<and> cn_nameiop cn \<noteq> LOOKUP)"
      | "cn_name cn \<noteq> ''.''" "cn_name cn \<noteq> ''..''" "entry (view s) d (cn_name cn) = None"
      | c where "cn_name cn \<noteq> ''.''" "cn_name cn \<noteq> ''..''" "entry (view s) d (cn_name cn) = Some c" by blast
    then show ?thesis
    proof cases
      case 1
      then show ?thesis using lookup_dot [OF True 1] stays by (auto simp: resolve_def)
    next
      case 2
      then show ?thesis using lookup_dotdot_error [OF True] dd' stays by blast
    next
      case 3
      then show ?thesis using lookup_dotdot [OF True] dd dd' A by (fastforce simp: resolve_def)
    next
      case 4
      then show ?thesis using lookup_missing [OF True cn] stays by blast
    next
      case (5 c)
      then show ?thesis using lookup_found [OF True cn _ _ _ A] by (fastforce simp: resolve_def)
    qed
  qed
qed

text \<open>The parent of a removed directory is NULL, and a lookup of \<open>..\<close> there fails its assertion.\<close>

lemma lookup_removed:
  assumes ok: "fs_ok s" and v: "sg_vnodes s dvp = Some vn" "v_data vn = Some d" and g: "gone (view s) d"
    and cn: "cn_name cn = ''..''" "cn_isdotdot cn" "\<not> (cn_islast cn \<and> cn_nameiop cn \<noteq> LOOKUP)"
    and acc: "sgfs_access E dvp VEXEC (cn_cred cn) s = Some None"
  shows "sgfs_lookup E dvp cn A s = None"
proof -
  have inv: "fs_inv (\<lambda>_. 0) (view s)" using ok by (simp add: fs_ok_def)
  note SD = shapeD [OF fs_invD(2) [OF inv]]
  note vd = vnode_node [OF inv v]
  obtain nd where nd: "sg_nodes s d = Some nd" using vd(1) by blast
  have r: "vroot (view s) \<noteq> Some d" using SD(6) [of d] g by blast
  then have k: "kind (view s) d = Some sgfstype_dir" using vd(2) SD(5) [of d] by (auto simp: dir_kind_def)
  then have "nd_parent nd = None" using SD(4) [of d] g node_view(2) [OF nd] by simp
  moreover have "\<not> vv_root vn" using vd(4) k by simp
  ultimately show ?thesis using v nd vd(3) acc cn by (simp add: sgfs_lookup_def sgfs_lookupx_def SGFS_NAMELEN_def)
qed

text \<open>Every outcome of a lookup.\<close>

lemma lookup_outcome:
  assumes ok: "fs_ok s" and v: "sg_vnodes s dvp = Some vn" "v_data vn = Some d" and cn: "cn_ok cn" and A: "undisturbed A s"
  shows "if cn_name cn = ''..'' \<and> gone (view s) d \<and> \<not> (cn_islast cn \<and> cn_nameiop cn \<noteq> LOOKUP) \<and>
      sgfs_access E dvp VEXEC (cn_cred cn) s = Some None
    then sgfs_lookup E dvp cn A s = None
    else \<exists>e w s'. sgfs_lookup E dvp cn A s = Some (e, w, s') \<and>
      lookup_result s (v_mount vn) (resolve (view s) d (cn_name cn)) e w s'"
proof (cases "cn_name cn = ''..'' \<and> gone (view s) d")
  case True
  then have dd: "cn_name cn = ''..''" "gone (view s) d" "cn_isdotdot cn" using cn by (simp_all add: cn_ok_def)
  have inv: "fs_inv (\<lambda>_. 0) (view s)" using ok by (simp add: fs_ok_def)
  obtain e1 where e1: "sgfs_access E dvp VEXEC (cn_cred cn) s = Some e1" using access_total [OF inv v(1)] by blast
  note V = vnode_node [OF inv v]
  obtain nd where nd: "sg_nodes s d = Some nd" using V(1) by blast
  show ?thesis
  proof (cases "e1 = None \<and> \<not> (cn_islast cn \<and> cn_nameiop cn \<noteq> LOOKUP)")
    case True
    then show ?thesis using lookup_removed [OF ok v dd(2,1,3)] e1 dd by simp
  next
    case False
    then have "\<exists>e. sgfs_lookup E dvp cn A s = Some (Some e, None, s)"
      using v nd V(3) e1 dd by (cases e1; cases "vv_root vn") (auto simp: sgfs_lookup_def sgfs_lookupx_def SGFS_NAMELEN_def)
    then have "\<exists>e w s'. sgfs_lookup E dvp cn A s = Some (e, w, s') \<and>
      lookup_result s (v_mount vn) (resolve (view s) d (cn_name cn)) e w s'" using lookup_stays [OF ok] by blast
    moreover have "\<not> (\<not> (cn_islast cn \<and> cn_nameiop cn \<noteq> LOOKUP) \<and> sgfs_access E dvp VEXEC (cn_cred cn) s = Some None)"
      using False e1 by auto
    ultimately show ?thesis by argo
  qed
next
  case False
  then show ?thesis using lookup_ok [OF ok v cn A, of E] by auto
qed

end
