(* ===== verification/Sgfs_Rmdir.thy ===== *)
theory Sgfs_Rmdir
  imports Sgfs_Lookup
begin

text \<open>Making and removing directories, and giving up vnodes, on a sane file system.\<close>

section \<open>Entries after a change\<close>

lemma entry_same: "same_tree V W \<Longrightarrow> entry W = entry V"
  by (simp add: entry_def same_tree_def fun_eq_iff)

lemma entry_add_dir:
  assumes inv: "fs_inv H V" "fs_inv H' (add_dir n b a name p V)" and p: "kind V p \<noteq> None"
    and f: "kind V n = None" "kind V b = None" "kind V a = None" "n \<noteq> b" "n \<noteq> a" "b \<noteq> a" and e: "entry V p name = None"
    and q: "q \<noteq> n"
  shows "entry (add_dir n b a name p V) q = (if q = p then (entry V p)(name \<mapsto> n) else entry V q)"
proof (rule ext, rule option_eqI)
  fix k c
  let ?W = "add_dir n b a name p V"
  note L = linksD [OF fs_invD(1) [OF inv(1)]]
  have no: "par V m = None" if "m = n \<or> m = b \<or> m = a" for m using that f L(4) [of m] by auto
  have 1: "entry ?W q k = Some c \<longleftrightarrow> (if c = n then q = p \<and> k = name else c \<noteq> b \<and> c \<noteq> a \<and> par V c = Some q \<and> nam V c = k)"
    using entry_iff [OF inv(2), of q k c] q f by (auto simp: add_dir_def)
  have 2: "entry V q k = Some c \<longleftrightarrow> par V c = Some q \<and> nam V c = k" by (rule entry_iff [OF inv(1)])
  have 3: "\<not> (par V c = Some p \<and> nam V c = name)" using entry_iff [OF inv(1), of p name c] e by simp
  show "entry ?W q k = Some c \<longleftrightarrow> (if q = p then (entry V p)(name \<mapsto> n) else entry V q) k = Some c"
    using 1 2 3 no [of c] e by (cases "c = n \<or> c = b \<or> c = a") auto
qed

lemma entry_new_dir:
  assumes "fs_inv H (add_dir n b a name p V)" "n \<noteq> b" "n \<noteq> a" "b \<noteq> a"
  shows "entry (add_dir n b a name p V) n = [''..'' \<mapsto> b, ''.'' \<mapsto> a]"
proof -
  have k: "kids (add_dir n b a name p V) n = [b, a]" "nam (add_dir n b a name p V) b = ''..''" "nam (add_dir n b a name p V) a = ''.''"
    using assms by (simp_all add: add_dir_def)
  then show ?thesis by (auto simp: entry_def fun_eq_iff)
qed

section \<open>Making a directory\<close>

lemma mkdir_ok:
  assumes ok: "fs_ok s" and v: "sg_vnodes s dvp = Some vn" "v_data vn = Some d"
    and cn: "cn_hasbuf cn" "CHR 0x00 \<notin> set (cn_name cn)" "length (cn_name cn) \<le> SGFS_NAMELEN + 1"
    and new: "entry (view s) d (cn_name cn) = None" and N: "fresh_nodes N s" "N = (x, x1, x2)" and A: "undisturbed A s"
  shows "\<exists>e w s'. sgfs_mkdir dvp cn mode N A s = Some (e, w, s') \<and> fs_ok s' \<and> vnodes_kept s s' \<and>
    same_tree (add_dir (na_addr x) (na_addr x2) (na_addr x1) (cn_name cn) d (view s)) (view s') \<and>
    (\<forall>y. w = Some y \<longrightarrow> stands_for (v_mount vn) (na_addr x) s' y) \<and> (w = None \<longrightarrow> e \<noteq> None) \<and>
    (va_getnew A = None \<and> va_insmntque A = None \<and> va_vget A = None \<longrightarrow> e = None)"
proof -
  let ?V = "view s" and ?n = "na_addr x"
  let ?W = "add_dir ?n (na_addr x2) (na_addr x1) (cn_name cn) d ?V"
  have inv: "fs_inv (\<lambda>_. 0) ?V" and l: "\<not> fs_locked s" using ok by (simp_all add: fs_ok_def)
  note vd = vnode_node [OF inv v]
  obtain nd where nd: "sg_nodes s d = Some nd" using vd(1) by blast
  let ?s = "s\<lparr>fs_locked := True\<rparr>"
  have dir: "nd_fsinfo nd" "is_dir nd" using shapeD(1) [OF fs_invD(2) [OF inv], of d] vd(2) node_view [OF nd]
    by (auto simp: is_dir_def dir_kind_def)
  have fr: "sg_nodes s ?n = None" "sg_nodes s (na_addr x1) = None" "sg_nodes s (na_addr x2) = None"
    "?n \<noteq> na_addr x1" "?n \<noteq> na_addr x2" "na_addr x1 \<noteq> na_addr x2" using N by (simp_all add: fresh_nodes_def)
  have fk: "kind ?V ?n = None" "kind ?V (na_addr x2) = None" "kind ?V (na_addr x1) = None"
    using fr by (simp_all add: view_def of_node_def)
  obtain s1 where s1: "sgfs_create_dir d (cn_name cn) (cn_cred cn) mode N ?s = Some (Some ?n, s1)" "fs_locked s1" "view s1 = ?W"
    using create_dir_ok [of ?s d nd N "cn_name cn" x x1 x2 "cn_cred cn" mode] nd dir N cn(2,3) by (auto simp: fresh_nodes_def view_rest)
  have i1: "fs_inv (\<lambda>_. 0) ?W"
  proof (rule inv_add_dir [OF inv vd(2) fk])
    show "nam ?V c \<noteq> cn_name cn" if "c \<in> set (kids ?V d)" for c
      using entry_iff [OF inv, of d "cn_name cn" c] linksD(1) [OF fs_invD(1) [OF inv]] that new by auto
  qed (use fr cn in auto)
  have nk: "dir_kind (kind ?W ?n)" "\<not> gone ?W ?n" using fr by (simp_all add: add_dir_def dir_kind_def)
  obtain s2 where s2: "sgnode_addref ?n s1 = Some s2" "fs_locked s2" "view s2 = ?W\<lparr>cnt := (cnt ?W)(?n := cnt ?W ?n + 1)\<rparr>"
    using addref_ok [of "\<lambda>_. 0" s1 ?n] i1 s1(2,3) nk(1) by auto
  define s3 where "s3 = s2\<lparr>fs_locked := False\<rparr>"
  define s1' where "s1' = s1\<lparr>fs_locked := False\<rparr>"
  have s3: "sx_xunlock s2 = Some s3" "\<not> fs_locked s3" "view s3 = view s2" and s1': "view s1' = ?W" "\<not> fs_locked s1'"
    using s2(2) s1(3) by (simp_all add: s3_def s1'_def view_rest)
  have sv: "sg_vnodes s3 = sg_vnodes s" using s3(3) s2(3) vnod_view(1) [of s3] by (simp add: add_dir_def)
  then have A3: "undisturbed A s3" using A by (simp add: undisturbed_def)
  obtain e w t s4 where a: "sgfs_allocv (v_mount vn) A ?n s3 = Some (e, w, t)" "sgnode_release ?n t = Some s4" "fs_ok s4"
    "same_tree ?W (view s4)" "vnodes_kept s3 s4" "\<forall>y. w = Some y \<longrightarrow> stands_for (v_mount vn) ?n s4 y" "w = None \<longrightarrow> e \<noteq> None"
    "va_getnew A = None \<and> va_insmntque A = None \<and> va_vget A = None \<longrightarrow> e = None"
    using hold_alloc_release [of s1' ?n s3 A "v_mount vn", unfolded s1'(1), OF i1 s1'(2) nk s2(3) [folded s3(3)] s3(2) A3] by blast
  have "nd_type nd = sgfstype_root \<or> nd_type nd = sgfstype_dir" using dir(2) by (auto simp: is_dir_def)
  then have "sgfs_mkdir dvp cn mode N A s = Some (e, w, s4)"
    using v nd l cn(1) s1(1) s2(1) s3(1) a(1,2) by (auto simp: sgfs_mkdir_def)
  moreover have "vnodes_kept s s4" using a(5) sv by (simp add: vnodes_kept_def)
  ultimately show ?thesis using a(3,4,6,7,8) by blast
qed

section \<open>Removing a directory\<close>

lemma rmdir_refused:
  assumes ok: "fs_ok s" and v: "sg_vnodes s v = Some vn" "v_data vn = Some n"
    and e: "kind (view s) n \<noteq> Some sgfstype_dir \<or> gone (view s) n \<or> length (kids (view s) n) \<noteq> 2"
  shows "sgfs_rmdir v s = Some (Some (if kind (view s) n \<noteq> Some sgfstype_dir then ENOTDIR
    else if gone (view s) n then ENOENT else ENOTEMPTY), s)"
proof -
  let ?V = "view s"
  have inv: "fs_inv (\<lambda>_. 0) ?V" and l: "\<not> fs_locked s" using ok by (simp_all add: fs_ok_def)
  note vd = vnode_node [OF inv v]
  obtain nd where nd: "sg_nodes s n = Some nd" using vd(1) by blast
  note nv = node_view [OF nd]
  obtain b a where d: "dots ?V n b a" using shapeD(3) [OF fs_invD(2) [OF inv] vd(2)] by blast
  have "2 \<le> length (kids ?V n)" by (rule dots_kids(1) [OF d])
  then obtain c1 c2 cs where cs: "nd_children nd = c1 # c2 # cs" using nv(3) by (cases "nd_children nd"; cases "tl (nd_children nd)") auto
  show ?thesis
  proof (cases "kind ?V n \<noteq> Some sgfstype_dir \<or> gone ?V n")
    case False
    then have "cs \<noteq> []" using e cs nv(3) by auto
    then show ?thesis using False nd nv vd(5) l cs by (simp add: sgfs_rmdir_def)
  qed (use nd nv vd(5) l in \<open>auto simp: sgfs_rmdir_def\<close>)
qed

lemma entry_unlinked:
  assumes inv: "fs_inv H V" "fs_inv H' W" and par: "par W = (par V)(n := None)" "nam W = nam V" and n: "par V n = Some p"
  shows "entry W = (entry V)(p := (entry V p)(nam V n := None))"
proof (rule ext, rule ext, rule option_eqI)
  fix q k c
  have 1: "entry W q k = Some c \<longleftrightarrow> c \<noteq> n \<and> par V c = Some q \<and> nam V c = k" using entry_iff [OF inv(2), of q k c] par by auto
  have 2: "entry V q k = Some c \<longleftrightarrow> par V c = Some q \<and> nam V c = k" by (rule entry_iff [OF inv(1)])
  have 3: "entry V p (nam V n) = Some n" using entry_iff [OF inv(1), of p "nam V n" n] n by simp
  show "entry W q k = Some c \<longleftrightarrow> ((entry V)(p := (entry V p)(nam V n := None))) q k = Some c"
    using 1 2 3 n by (cases "q = p"; cases "k = nam V n") auto
qed

lemma rmdir_ok:
  assumes ok: "fs_ok s" and v: "sg_vnodes s v = Some vn" "v_data vn = Some n"
    and n: "kind (view s) n = Some sgfstype_dir" "\<not> gone (view s) n" "length (kids (view s) n) = 2" "par (view s) n = Some p"
  shows "\<exists>s'. sgfs_rmdir v s = Some (None, s') \<and> fs_ok s' \<and> sg_vnodes s' = sg_vnodes s \<and> gone (view s') n \<and>
    kind (view s') n = Some sgfstype_dir \<and> (\<not> gone (view s) p \<longrightarrow> entry (view s') = (entry (view s))(p := (entry (view s) p)(nam (view s) n := None)))"
proof -
  let ?V = "view s"
  have inv: "fs_inv (\<lambda>_. 0) ?V" and l: "\<not> fs_locked s" using ok by (simp_all add: fs_ok_def)
  note L = linksD [OF fs_invD(1) [OF inv]]
  note vd = vnode_node [OF inv v]
  have np: "n \<noteq> p" using L(9) n(4) by metis
  obtain nd where nd: "sg_nodes s n = Some nd" using vd(1) by blast
  obtain pd where pd: "sg_nodes s p = Some pd" using L(8) [OF n(4)] live_view by blast
  note nv = node_view [OF nd] and pv = node_view [OF pd]
  obtain c1 c2 where cs: "nd_children nd = [c1, c2]"
    using n(3) nv(3) by (cases "nd_children nd"; cases "tl (nd_children nd)"; cases "tl (tl (nd_children nd))") auto
  define t1 where "t1 = upd_node n (\<lambda>d. d\<lparr>nd_parent := None, nd_deleted := True\<rparr>) (s\<lparr>fs_locked := True\<rparr>)"
  define t2 where "t2 = upd_node p (\<lambda>d. d\<lparr>nd_children := remove1 n (nd_children d)\<rparr>) t1"
  have p1: "sg_nodes t1 p = Some pd" using pd np by (simp add: t1_def upd_node_at)
  let ?W = "?V\<lparr>par := (par ?V)(n := None), gone := (gone ?V)(n := True), kids := (kids ?V)(p := remove1 n (kids ?V p))\<rparr>"
  have "view t1 = ?V\<lparr>par := (par ?V)(n := None), gone := (gone ?V)(n := True)\<rparr>"
    unfolding t1_def using view_changes(5) [of "s\<lparr>fs_locked := True\<rparr>" n nd] nd by (simp add: view_rest)
  then have v2: "view t2 = ?W"
    unfolding t2_def using view_changes(2) [OF p1, of "\<lambda>d. remove1 n (nd_children d)"] pv(3) by simp
  let ?H = "(\<lambda>_. 0 :: int)(p := 1)"
  have i2: "fs_inv (?H(n := ?H n + 1)) (view t2)"
    using inv_unlink [OF inv n(1,2,4)] np unfolding v2 by (simp add: fun_upd_twist)
  have lt: "fs_locked t2" by (simp add: t2_def t1_def)
  have nl: "\<not> last_ref (view t2) n"
  proof
    assume "last_ref (view t2) n"
    then have "vns (view t2) n = []" using last_refD(3) [OF i2, of n] by simp
    then show False using vd(6) v2 by simp
  qed
  obtain t3 where t3: "sgnode_release n t2 = Some t3" "fs_locked t3" "fs_inv ?H (view t3)"
    "view t3 = (view t2)\<lparr>cnt := (cnt (view t2))(n := cnt (view t2) n - 1)\<rparr>"
    using release_to [OF i2] nl lt np by auto
  have i3: "fs_inv ((\<lambda>_. 0)(p := (\<lambda>_. 0) p + 1)) (view t3)" using t3(3) by simp
  obtain t4 where t4: "sgnode_release p t3 = Some t4" "fs_locked t4 = fs_locked t3" "fs_inv (\<lambda>_. 0) (view t4)"
    "if last_ref (view t3) p then \<exists>b a us. kids (view t3) p = [b, a] \<and> dots (view t3) p b a \<and> view t4 = drop_set {p, b, a} us (view t3)
     else view t4 = (view t3)\<lparr>cnt := (cnt (view t3))(p := cnt (view t3) p - 1)\<rparr>"
    using release_to [OF i3] by auto
  define s' where "s' = t4\<lparr>fs_locked := False\<rparr>"
  have i4: "fs_inv (\<lambda>_. 0) (view s')" using t4(3) by (simp add: s'_def view_rest)
  have "nd_type nd = sgfstype_dir" "\<not> nd_deleted nd" "nd_parent nd = Some p" using n nv by simp_all
  then have run: "sgfs_rmdir v s = Some (None, s')"
    using nd l vd(5) cs t3(1,2) t4(1,2) unfolding sgfs_rmdir_def
    by (simp add: t1_def [symmetric] t2_def [symmetric] s'_def Let_def)
  have dot: "n \<noteq> b \<and> n \<noteq> a" if "dots (view t3) p b a" for b a
    using that n(1) t3(4) v2 by (auto simp: dots_def)
  have "gone (view s') n \<and> kind (view s') n = Some sgfstype_dir \<and> sg_vnodes s' = sg_vnodes s"
  proof -
    have "vnod (view t4) = vnod (view t3)" using t4(4) by (auto simp del: vnod_view split: if_splits)
    then have "sg_vnodes t4 = sg_vnodes s" using t3(4) v2 by simp
    moreover have "gone (view t4) n = gone (view t3) n" "kind (view t4) n = kind (view t3) n"
      using t4(4) dot np by (auto split: if_splits)
    ultimately show ?thesis using t3(4) v2 n(1) by (simp add: s'_def view_rest)
  qed
  moreover have "entry (view s') = (entry ?V)(p := (entry ?V p)(nam ?V n := None))" if "\<not> gone ?V p"
  proof (rule entry_unlinked [OF inv i4 _ _ n(4)])
    have "\<not> last_ref (view t3) p" using that t3(4) v2 np by (simp add: last_ref_def)
    then show "par (view s') = (par ?V)(n := None)" "nam (view s') = nam ?V" using t4(4) t3(4) v2 by (simp_all add: s'_def view_rest)
  qed
  ultimately show ?thesis using run i4 by (auto simp: fs_ok_def s'_def)
qed

section \<open>Giving up a vnode\<close>

lemma reclaim_last:
  assumes inv: "fs_inv (\<lambda>_. 0) V" and v: "vnod V v = Some vn" "v_data vn = Some n"
    and W: "W = V\<lparr>vns := (vns V)(n := remove1 v (vns V n)), vnod := (vnod V)(v := None)\<rparr>"
  shows "last_ref W n \<longleftrightarrow> gone V n \<and> vns V n = [v] \<and> length (kids V n) = 2"
proof -
  have vm: "v \<in> set (vns V n)" using vnodeD(2) [OF fs_invD(3) [OF inv], of v n] v by blast
  have dk: "dir_kind (kind V n)" using vnodeD(4) [OF fs_invD(3) [OF inv] v(1)] v(2) by auto
  obtain b a where "dots V n b a" using shapeD(3) [OF fs_invD(2) [OF inv] dk] by blast
  then have 2: "2 \<le> length (kids V n)" by (rule dots_kids(1))
  have c: "cnt V n = (if gone V n then 0 else 1) + int (length (kids V n)) + int (length (vns V n))"
    using refsD(3) [OF fs_invD(4) [OF inv], of n] kind_cases(2) [OF dk] by simp
  have one: "length (vns V n) = 1 \<longleftrightarrow> vns V n = [v]" using vm by (auto simp: length_Suc_conv)
  have 1: "1 \<le> length (vns V n)" using vm by (cases "vns V n") auto
  have "gone V n \<Longrightarrow> cnt V n = int (length (kids V n)) + int (length (vns V n))" using c by simp
  then have "gone V n \<Longrightarrow> cnt V n = 3 \<longleftrightarrow> length (kids V n) = 2 \<and> length (vns V n) = 1" using 1 2 by presburger
  then show ?thesis using W one by (auto simp: last_ref_def)
qed

lemma numbers_left:
  assumes inv: "fs_inv H V" "fs_inv H' W" and n: "dir_kind (kind V n)"
    and k: "\<And>m. kind W m = (if m \<in> {n, b, a} then None else kind V m)" "\<And>m. fno W m = (if m \<in> {n, b, a} then 0 else fno V m)"
    and dd: "\<not> dir_kind (kind V b)" "\<not> dir_kind (kind V a)"
  shows "set (unos W) = set (unos V) - {fno V n}"
proof (rule set_eqI)
  fix u
  note U = numD [OF fs_invD(6) [OF inv(1)]] and U' = numD [OF fs_invD(6) [OF inv(2)]]
  have 1: "dir_kind (kind W m) \<longleftrightarrow> dir_kind (kind V m) \<and> m \<noteq> n" for m using k(1) [of m] dd by (auto simp: dir_kind_def)
  have 2: "dir_kind (kind W m) \<Longrightarrow> fno W m = fno V m" for m using k(2) [of m] 1 [of m] dd by auto
  have 3: "fno V m \<noteq> 0 \<Longrightarrow> dir_kind (kind V m) \<Longrightarrow> m \<noteq> n \<longleftrightarrow> fno V m \<noteq> fno V n" for m using U(3) [of m n] n by auto
  have "u \<in> set (unos W) \<longleftrightarrow> u \<noteq> 0 \<and> (\<exists>m. dir_kind (kind V m) \<and> m \<noteq> n \<and> fno V m = u)"
    using U'(2) [of u] 1 2 by metis
  also have "\<dots> \<longleftrightarrow> u \<noteq> fno V n \<and> u \<noteq> 0 \<and> (\<exists>m. dir_kind (kind V m) \<and> fno V m = u)" using 3 by metis
  finally show "u \<in> set (unos W) \<longleftrightarrow> u \<in> set (unos V) - {fno V n}" using U(2) [of u] by blast
qed

lemma reclaim_ok:
  assumes ok: "fs_ok s" and v: "sg_vnodes s v = Some vn" "v_data vn = Some n"
  shows "\<exists>s'. sgfs_reclaim v s = Some s' \<and> fs_ok s' \<and> sg_vnodes s' = (sg_vnodes s)(v := None) \<and>
    (if gone (view s) n \<and> vns (view s) n = [v] \<and> length (kids (view s) n) = 2
     then \<exists>b a. kids (view s) n = [b, a] \<and> (\<forall>m. kind (view s') m = (if m \<in> {n, b, a} then None else kind (view s) m)) \<and>
       set (unrs s') = set (unrs s) - {fno (view s) n}
     else same_tree (view s) (view s'))"
proof -
  let ?V = "view s"
  have inv: "fs_inv (\<lambda>_. 0) ?V" and l: "\<not> fs_locked s" using ok by (simp_all add: fs_ok_def)
  note vd = vnode_node [OF inv v]
  obtain nd where nd: "sg_nodes s n = Some nd" using vd(1) by blast
  let ?s = "s\<lparr>fs_locked := True, sg_vnodes := (sg_vnodes s)(v := None)\<rparr>"
  define t where "t = upd_node n (\<lambda>d. d\<lparr>nd_vnodes := remove1 v (nd_vnodes d)\<rparr>) ?s"
  have vt: "view t = ?V\<lparr>vns := (vns ?V)(n := remove1 v (vns ?V n)), vnod := (vnod ?V)(v := None)\<rparr>"
    using view_changes(3) [of ?s n nd "\<lambda>d. remove1 v (nd_vnodes d)"] nd node_view(4) [OF nd] by (simp add: t_def view_rest)
  have it: "fs_inv ((\<lambda>_. 0)(n := 1)) (view t)" using inv_drop_vnode [OF inv, of v vn n] v vt by simp
  then have it': "fs_inv ((\<lambda>_. 0)(n := (\<lambda>_. 0) n + 1)) (view t)" by simp
  have lt: "fs_locked t" by (simp add: t_def)
  obtain t2 where t2: "sgnode_release n t = Some t2" "fs_locked t2" "fs_inv (\<lambda>_. 0) (view t2)"
    "if last_ref (view t) n then \<exists>b a us. kids (view t) n = [b, a] \<and> dots (view t) n b a \<and> view t2 = drop_set {n, b, a} us (view t)
     else view t2 = (view t)\<lparr>cnt := (cnt (view t))(n := cnt (view t) n - 1)\<rparr>"
    using release_to [OF it'] lt by auto
  define s' where "s' = t2\<lparr>fs_locked := False\<rparr>"
  have v': "view s' = view t2" and i': "fs_inv (\<lambda>_. 0) (view s')" using t2(3) by (simp_all add: s'_def view_rest)
  have "VTON v s = Some n" by (rule vd(5))
  then have run: "sgfs_reclaim v s = Some s'" using nd l t2(1,2) unfolding sgfs_reclaim_def
    by (simp add: t_def [symmetric] s'_def Let_def)
  have vv: "sg_vnodes s' = (sg_vnodes s)(v := None)"
  proof -
    have "vnod (view t2) = vnod (view t)" using t2(4) by (auto simp del: vnod_view split: if_splits)
    then show ?thesis using vt v' vnod_view(1) [of s'] by simp
  qed
  have last: "last_ref (view t) n \<longleftrightarrow> gone ?V n \<and> vns ?V n = [v] \<and> length (kids ?V n) = 2"
    by (rule reclaim_last [OF inv _ v(2) vt]) (simp add: v)
  show ?thesis
  proof (cases "last_ref (view t) n")
    case False
    then have "same_tree ?V (view s')" using t2(4) vt v' by (simp add: same_tree_def)
    then show ?thesis using run i' vv False last by (auto simp: fs_ok_def s'_def)
  next
    case True
    then obtain b a us where d: "kids (view t) n = [b, a]" "dots (view t) n b a" "view t2 = drop_set {n, b, a} us (view t)"
      using t2(4) unfolding if_P [OF True] by blast
    have k: "kids ?V n = [b, a]" "kind (view s') m = (if m \<in> {n, b, a} then None else kind ?V m)" for m using d(1,3) vt v' by simp_all
    have "set (unos (view s')) = set (unos ?V) - {fno ?V n}"
    proof (rule numbers_left [OF inv i' vd(2)])
      show "kind (view s') m = (if m \<in> {n, b, a} then None else kind ?V m)" for m by (rule k(2))
      show "fno (view s') m = (if m \<in> {n, b, a} then 0 else fno ?V m)" for m using d(3) vt v' by simp
      show "\<not> dir_kind (kind ?V b)" "\<not> dir_kind (kind ?V a)" using d(2) vt by (auto simp: dots_def dir_kind_def)
    qed
    moreover have "\<exists>y x. kids ?V n = [y, x] \<and> (\<forall>m. kind (view s') m = (if m \<in> {n, y, x} then None else kind ?V m))" using k by blast
    moreover have "gone ?V n \<and> vns ?V n = [v] \<and> length (kids ?V n) = 2" using True last by blast
    ultimately show ?thesis using run i' vv by (auto simp: fs_ok_def s'_def)
  qed
qed

section \<open>A made directory is found\<close>

lemma one_vnode:
  assumes "fs_ok s" "stands_for mp n s v" "stands_for mp n s w" shows "v = w"
proof -
  obtain vn wn where "sg_vnodes s v = Some vn" "sg_vnodes s w = Some wn" "v_data vn = v_data wn" "v_mount vn = v_mount wn"
    using assms(2,3) by (auto simp: stands_for_def)
  then show ?thesis using vnodeD(5) [OF fs_invD(3), of "\<lambda>_. 0" "view s" v vn w wn] assms(1) by (simp add: fs_ok_def)
qed

lemma mkdir_entries:
  assumes ok: "fs_ok s" and v: "sg_vnodes s dvp = Some vn" "v_data vn = Some d"
    and cn: "cn_hasbuf cn" "CHR 0x00 \<notin> set (cn_name cn)" "length (cn_name cn) < SGFS_NAMELEN"
    and new: "entry (view s) d (cn_name cn) = None" and N: "fresh_nodes (x, x1, x2) s" and A: "undisturbed A s"
  shows "\<exists>e w s'. sgfs_mkdir dvp cn mode (x, x1, x2) A s = Some (e, w, s') \<and> fs_ok s' \<and> vnodes_kept s s' \<and>
    entry (view s') = (entry (view s))(d := (entry (view s) d)(cn_name cn \<mapsto> na_addr x),
      na_addr x := [''..'' \<mapsto> na_addr x2, ''.'' \<mapsto> na_addr x1]) \<and>
    (\<forall>y. w = Some y \<longrightarrow> stands_for (v_mount vn) (na_addr x) s' y) \<and> (w = None \<longrightarrow> e \<noteq> None) \<and>
    (va_getnew A = None \<and> va_insmntque A = None \<and> va_vget A = None \<longrightarrow> e = None)"
proof -
  let ?V = "view s" and ?n = "na_addr x" and ?b = "na_addr x2" and ?a = "na_addr x1"
  let ?W = "add_dir ?n ?b ?a (cn_name cn) d ?V"
  have inv: "fs_inv (\<lambda>_. 0) ?V" using ok by (simp add: fs_ok_def)
  have dk: "dir_kind (kind ?V d)" using vnode_node(2) [OF inv v] .
  have f: "kind ?V ?n = None" "kind ?V ?b = None" "kind ?V ?a = None" "?n \<noteq> ?b" "?n \<noteq> ?a" "?b \<noteq> ?a"
    using N by (auto simp: fresh_nodes_def view_def of_node_def)
  have ne: "nam ?V c \<noteq> cn_name cn" if "c \<in> set (kids ?V d)" for c
    using new that entry_iff [OF inv, of d "cn_name cn" c] linksD(1) [OF fs_invD(1) [OF inv]] by auto
  have invW: "fs_inv (\<lambda>_. 0) ?W" by (rule inv_add_dir [OF inv dk f cn(2) ne])
  have "entry ?W q = ((entry ?V)(d := (entry ?V d)(cn_name cn \<mapsto> ?n), ?n := [''..'' \<mapsto> ?b, ''.'' \<mapsto> ?a])) q" for q
    using entry_add_dir [OF inv invW kind_cases(2) [OF dk] f new, of q] entry_new_dir [OF invW f(4-6)] by (cases "q = ?n") auto
  then have eW: "entry ?W = (entry ?V)(d := (entry ?V d)(cn_name cn \<mapsto> ?n), ?n := [''..'' \<mapsto> ?b, ''.'' \<mapsto> ?a])" by blast
  have len: "length (cn_name cn) \<le> SGFS_NAMELEN + 1" using cn(3) by simp
  obtain e w s' where "sgfs_mkdir dvp cn mode (x, x1, x2) A s = Some (e, w, s')" "fs_ok s'" "vnodes_kept s s'"
    "same_tree ?W (view s')" "\<forall>y. w = Some y \<longrightarrow> stands_for (v_mount vn) ?n s' y" "w = None \<longrightarrow> e \<noteq> None"
    "va_getnew A = None \<and> va_insmntque A = None \<and> va_vget A = None \<longrightarrow> e = None"
    using mkdir_ok [OF ok v cn(1,2) len new N refl A, of mode] by blast
  then show ?thesis using entry_same [of ?W "view s'"] eW by simp
qed

end
