(* ===== verification/Sgfs_Number.thy ===== *)
theory Sgfs_Number
  imports Sgfs_Rmdir
begin

text \<open>File numbers and reading a directory, on a sane file system.\<close>

section \<open>Giving a node its number\<close>

text \<open>The kernel's allocator of unit numbers returns one from 1 on that is not in use.\<close>

definition unr_laws :: "sgenv \<Rightarrow> bool" where
  "unr_laws E \<longleftrightarrow> (\<forall>us. alloc_unr E us \<notin> set us \<and> alloc_unr E us \<noteq> 0)"

text \<open>Numbers are added and none that was given changes.\<close>

definition more_numbers :: "fsview \<Rightarrow> fsview \<Rightarrow> bool" where
  "more_numbers V W \<longleftrightarrow> (\<exists>f us. W = V\<lparr>fno := f, unos := us\<rparr>) \<and> (\<forall>m. fno V m \<noteq> 0 \<longrightarrow> fno W m = fno V m)"

lemma more_refl [simp]: "more_numbers V V"
proof -
  have "V = V\<lparr>fno := fno V, unos := unos V\<rparr>" by simp
  then show ?thesis unfolding more_numbers_def by blast
qed

lemma more_trans: "more_numbers U V \<Longrightarrow> more_numbers V W \<Longrightarrow> more_numbers U W"
  by (fastforce simp: more_numbers_def)

lemma more_same:
  assumes "more_numbers V W"
  shows "kind W = kind V" "par W = par V" "kids W = kids V" "gone W = gone V" "nam W = nam V" "vroot W = vroot V" "vns W = vns V"
    "cnt W = cnt V" "info W = info V" "vnod W = vnod V" "fno V m \<noteq> 0 \<Longrightarrow> fno W m = fno V m"
  using assms by (auto simp: more_numbers_def)

lemma fno_irrelevant:
  "links_inv (V\<lparr>fno := f, unos := us\<rparr>) = links_inv V" "shape_inv (V\<lparr>fno := f, unos := us\<rparr>) = shape_inv V"
  "vnode_inv (V\<lparr>fno := f, unos := us\<rparr>) = vnode_inv V" "name_inv (V\<lparr>fno := f, unos := us\<rparr>) = name_inv V"
  "refs_inv H (V\<lparr>fno := f, unos := us\<rparr>) = refs_inv H V"
  by (simp_all add: links_inv_def shape_inv_def vnode_inv_def name_inv_def refs_inv_def dots_def)

text \<open>A node without a number, whose parent has one: nothing below it has a number.\<close>

lemma inv_number:
  assumes inv: "fs_inv H V" and n: "kind V n \<noteq> None" "fno V n = 0" and p: "\<And>p. par V n = Some p \<Longrightarrow> fno V p \<noteq> 0" and u: "u \<noteq> 0"
    and us: "if dir_kind (kind V n) then u \<notin> set (unos V) \<and> us = u # unos V else us = unos V"
    and th: "\<And>p. kind V n = Some sgfstype_this \<Longrightarrow> par V n = Some p \<Longrightarrow> u = fno V p"
    and pa: "\<And>p. kind V n = Some sgfstype_parent \<Longrightarrow> par V n = Some p \<Longrightarrow> u = (if vroot V = Some p then fno V p else fno V (the (par V p)))"
  shows "fs_inv H (V\<lparr>fno := (fno V)(n := u), unos := us\<rparr>)" "more_numbers V (V\<lparr>fno := (fno V)(n := u), unos := us\<rparr>)"
proof -
  let ?W = "V\<lparr>fno := (fno V)(n := u), unos := us\<rparr>"
  note L = linksD [OF fs_invD(1) [OF inv]] and SD = shapeD [OF fs_invD(2) [OF inv]] and U = numD [OF fs_invD(6) [OF inv]]
  have below: "q \<noteq> n" if "par V i = Some q" "fno V i \<noteq> 0" for i q using U(4) [OF that] n(2) by auto
  have "num_inv ?W"
  proof (rule numI)
    show "distinct (unos ?W)" using U(1) us by (cases "dir_kind (kind V n)") simp_all
    show "x \<in> set (unos ?W) \<longleftrightarrow> x \<noteq> 0 \<and> (\<exists>m. dir_kind (kind ?W m) \<and> fno ?W m = x)" for x
    proof (cases "dir_kind (kind V n)")
      case True
      have "(\<exists>m. dir_kind (kind ?W m) \<and> fno ?W m = x) \<longleftrightarrow> x = u \<or> (\<exists>m. m \<noteq> n \<and> dir_kind (kind V m) \<and> fno V m = x)" using True by auto
      moreover have "x \<noteq> 0 \<Longrightarrow> (\<exists>m. m \<noteq> n \<and> dir_kind (kind V m) \<and> fno V m = x) \<longleftrightarrow> (\<exists>m. dir_kind (kind V m) \<and> fno V m = x)" using n(2) by metis
      ultimately show ?thesis using U(2) [of x] us True u by auto
    next
      case False
      then have "(\<exists>m. dir_kind (kind ?W m) \<and> fno ?W m = x) \<longleftrightarrow> (\<exists>m. dir_kind (kind V m) \<and> fno V m = x)" by (auto split: if_splits)
      then show ?thesis using U(2) [of x] us False by simp
    qed
    show "i = j" if A: "dir_kind (kind ?W i)" "dir_kind (kind ?W j)" "fno ?W i = fno ?W j" "fno ?W j \<noteq> 0" for i j
    proof (rule ccontr)
      assume ij: "i \<noteq> j"
      have "fno V m \<noteq> u" if "dir_kind (kind V n)" "dir_kind (kind V m)" for m using that us U(2) [of u] u by auto
      then show False using A ij U(3) [of i j] by (auto split: if_splits)
    qed
    show "fno ?W r \<noteq> 0" if "vroot ?W = Some r" for r using that U(5) [of r] u by simp
    fix i q
    show "fno ?W q \<noteq> 0" if "par ?W i = Some q" "fno ?W i \<noteq> 0" using that U(4) [of i q] p [of q] u by (auto split: if_splits)
    show "fno ?W i = fno ?W q" if A: "kind ?W i = Some sgfstype_this" "par ?W i = Some q" "fno ?W i \<noteq> 0"
      using A U(6) [of i q] th [of q] below [of i q] L(9) [of n] by (cases "i = n") auto
    assume A: "kind ?W i = Some sgfstype_parent" "par ?W i = Some q" "fno ?W i \<noteq> 0" "\<not> gone ?W q"
    have q: "vroot V \<noteq> Some q \<Longrightarrow> \<exists>g. par V q = Some g \<and> g \<noteq> n"
    proof -
      assume r: "vroot V \<noteq> Some q"
      have "dir_kind (kind V q)" using kids_dir [OF fs_invD(1,2) [OF inv], of i q] L(1) [of i q] A by simp
      then have "kind V q = Some sgfstype_dir" using r SD(5) [of q] by (auto simp: dir_kind_def)
      then obtain g where g: "par V q = Some g" using SD(4) [of q] A by auto
      have "fno V q \<noteq> 0" using A U(4) [of i q] p [of q] by (auto split: if_splits)
      then show ?thesis using below [OF g] g by blast
    qed
    show "fno ?W i = (if vroot ?W = Some q then fno ?W q else fno ?W (the (par ?W q)))"
    proof (cases "i = n")
      case True
      have "q \<noteq> n" using L(9) [of n] A True by auto
      then show ?thesis using pa [of q] A True q by auto
    next
      case False
      then have "q \<noteq> n" using below [of i q] A by simp
      then show ?thesis using U(7) [of i q] A False q by auto
    qed
  qed
  then show "fs_inv H ?W" using inv by (simp add: fs_inv_def fno_irrelevant)
  show "more_numbers V ?W" unfolding more_numbers_def using n(2) by auto
qed

text \<open>What the code does for the node itself, once its parent has a number.\<close>

definition number_step :: "sgenv \<Rightarrow> nid \<Rightarrow> sgfs_node \<Rightarrow> sgfs_info \<Rightarrow> sgfs_info option" where
  "number_step E n nd s = (case nd_type nd of
        sgfstype_this \<Rightarrow> do {
          p \<leftarrow> nd_parent nd;
          pd \<leftarrow> sg_nodes s p;
          Some (upd_node n (\<lambda>d. d\<lparr>fileno := fileno pd\<rparr>) s) }
      | sgfstype_parent \<Rightarrow> do {
          p \<leftarrow> nd_parent nd;
          pd \<leftarrow> sg_nodes s p;
          if Some p = fs_root s then Some (upd_node n (\<lambda>d. d\<lparr>fileno := fileno pd\<rparr>) s)
          else do {
            g \<leftarrow> nd_parent pd;
            gd \<leftarrow> sg_nodes s g;
            Some (upd_node n (\<lambda>d. d\<lparr>fileno := fileno gd\<rparr>) s) } }
      | sgfstype_none \<Rightarrow> None
      | _ \<Rightarrow>
          let u = alloc_unr E (unrs s)
          in Some (upd_node n (\<lambda>d. d\<lparr>fileno := u\<rparr>) (s\<lparr>unrs := u # unrs s\<rparr>)))"

lemma fileno_alloc_step:
  "sgfs_fileno_alloc E n s = do {
     nd \<leftarrow> sg_nodes s n;
     s \<leftarrow> (case nd_parent nd of
             None \<Rightarrow> Some s
           | Some p \<Rightarrow> do { pd \<leftarrow> sg_nodes s p; if fileno pd = 0 then sgfs_fileno_alloc E p s else Some s });
     number_step E n nd s }"
  unfolding number_step_def by (rule sgfs_fileno_alloc.simps)

lemma view_number:
  assumes "sg_nodes s n = Some nd"
  shows "view (upd_node n (\<lambda>d. d\<lparr>fileno := u\<rparr>) (s\<lparr>unrs := us\<rparr>)) = (view s)\<lparr>fno := (fno (view s))(n := u), unos := us\<rparr>"
  using view_changes(4) [of "s\<lparr>unrs := us\<rparr>" n nd u] assms by (simp add: view_rest)

lemma view_number_keep:
  assumes "sg_nodes s n = Some nd"
  shows "view (upd_node n (\<lambda>d. d\<lparr>fileno := u\<rparr>) s) = (view s)\<lparr>fno := (fno (view s))(n := u), unos := unos (view s)\<rparr>"
  using view_changes(4) [OF assms, of u] by simp

lemma number_step_ok:
  assumes inv: "fs_inv H (view s)" and E: "unr_laws E" and n: "sg_nodes s n = Some nd" "fno (view s) n = 0"
    and p: "\<And>p. par (view s) n = Some p \<Longrightarrow> fno (view s) p \<noteq> 0"
    and g: "\<And>p. kind (view s) n = Some sgfstype_parent \<Longrightarrow> par (view s) n = Some p \<Longrightarrow> \<not> gone (view s) p"
    and nd': "nd_type nd' = nd_type nd" "nd_parent nd' = nd_parent nd"
  shows "\<exists>s'. number_step E n nd' s = Some s' \<and> fs_locked s' = fs_locked s \<and> fs_inv H (view s') \<and> more_numbers (view s) (view s') \<and>
    fno (view s') n \<noteq> 0 \<and> (\<forall>m. m \<noteq> n \<longrightarrow> fno (view s') m = fno (view s) m)"
proof -
  let ?V = "view s"
  note L = linksD [OF fs_invD(1) [OF inv]] and SD = shapeD [OF fs_invD(2) [OF inv]] and U = numD [OF fs_invD(6) [OF inv]]
  note nv = node_view [OF n(1)]
  have k: "kind ?V n \<noteq> None" using nv(1) by simp
  have dot: "\<exists>p pd. par ?V n = Some p \<and> sg_nodes s p = Some pd \<and> fileno pd \<noteq> 0 \<and> fileno pd = fno ?V p" if D: "dot_kind (kind ?V n)"
  proof -
    obtain q where q: "par ?V n = Some q" using SD(7) [OF D] by auto
    obtain qd where qd: "sg_nodes s q = Some qd" using L(8) [OF q] live_view by blast
    then show ?thesis using q p [OF q] node_view(6) [OF qd] by auto
  qed
  have finish: "\<exists>s'. number_step E n nd' s = Some s' \<and> fs_locked s' = fs_locked s \<and> fs_inv H (view s') \<and> more_numbers ?V (view s') \<and>
      fno (view s') n \<noteq> 0 \<and> (\<forall>m. m \<noteq> n \<longrightarrow> fno (view s') m = fno (view s) m)"
    if step: "number_step E n nd' s = Some (upd_node n (\<lambda>d. d\<lparr>fileno := u\<rparr>) s)" and u: "u \<noteq> 0" "dot_kind (kind ?V n)"
      and th: "\<And>p. kind ?V n = Some sgfstype_this \<Longrightarrow> par ?V n = Some p \<Longrightarrow> u = fno ?V p"
      and pa: "\<And>p. kind ?V n = Some sgfstype_parent \<Longrightarrow> par ?V n = Some p \<Longrightarrow> u = (if vroot ?V = Some p then fno ?V p else fno ?V (the (par ?V p)))" for u
  proof -
    have us: "if dir_kind (kind ?V n) then u \<notin> set (unos ?V) \<and> unos ?V = u # unos ?V else unos ?V = unos ?V"
      using u(2) kind_cases(1) by auto
    note iv = inv_number [OF inv k n(2) p u(1) us th pa]
    have "fno (view (upd_node n (\<lambda>d. d\<lparr>fileno := u\<rparr>) s)) = (fno ?V)(n := u)" by (simp add: view_number_keep [OF n(1)])
    moreover have "fs_inv H (view (upd_node n (\<lambda>d. d\<lparr>fileno := u\<rparr>) s))" "more_numbers ?V (view (upd_node n (\<lambda>d. d\<lparr>fileno := u\<rparr>) s))"
      using iv unfolding view_number_keep [OF n(1)] by blast+
    ultimately show ?thesis using step u(1) by (intro exI [of _ "upd_node n (\<lambda>d. d\<lparr>fileno := u\<rparr>) s"]) simp
  qed
  consider "dir_kind (kind ?V n)" | "kind ?V n = Some sgfstype_this" | "kind ?V n = Some sgfstype_parent"
    using SD(2) [OF k] by (auto simp: dot_kind_def)
  then show ?thesis
  proof cases
    case 1
    define u where "u = alloc_unr E (unrs s)"
    have u: "u \<noteq> 0" "u \<notin> set (unos ?V)" using E by (simp_all add: unr_laws_def u_def)
    have us: "if dir_kind (kind ?V n) then u \<notin> set (unos ?V) \<and> u # unos ?V = u # unos ?V else u # unos ?V = unos ?V" using 1 u by simp
    have nt: "kind ?V n \<noteq> Some sgfstype_this" "kind ?V n \<noteq> Some sgfstype_parent" using 1 by (auto simp: dir_kind_def)
    have "fs_inv H (?V\<lparr>fno := (fno ?V)(n := u), unos := u # unos ?V\<rparr>)" "more_numbers ?V (?V\<lparr>fno := (fno ?V)(n := u), unos := u # unos ?V\<rparr>)"
      using inv_number [OF inv k n(2) p u(1) us] nt by blast+
    then have iv: "fs_inv H (view (upd_node n (\<lambda>d. d\<lparr>fileno := u\<rparr>) (s\<lparr>unrs := u # unrs s\<rparr>)))"
      "more_numbers ?V (view (upd_node n (\<lambda>d. d\<lparr>fileno := u\<rparr>) (s\<lparr>unrs := u # unrs s\<rparr>)))" by (simp_all add: view_number [OF n(1)])
    moreover have "number_step E n nd' s = Some (upd_node n (\<lambda>d. d\<lparr>fileno := u\<rparr>) (s\<lparr>unrs := u # unrs s\<rparr>))"
      using 1 nv(1) nd' by (auto simp: number_step_def u_def dir_kind_def Let_def)
    moreover have "fno (view (upd_node n (\<lambda>d. d\<lparr>fileno := u\<rparr>) (s\<lparr>unrs := u # unrs s\<rparr>))) = (fno ?V)(n := u)" by (simp add: view_number [OF n(1)])
    ultimately show ?thesis using u(1) by auto
  next
    case 2
    then obtain q qd where q: "par ?V n = Some q" "sg_nodes s q = Some qd" "fileno qd \<noteq> 0" "fileno qd = fno ?V q" using dot by (auto simp: dot_kind_def)
    have "nd_parent nd' = Some q" "nd_type nd' = sgfstype_this" using 2 nv(1,2) nd' q(1) by simp_all
    then have "number_step E n nd' s = Some (upd_node n (\<lambda>d. d\<lparr>fileno := fileno qd\<rparr>) s)" using q by (simp add: number_step_def)
    from finish [OF this q(3)] 2 q show ?thesis by (simp add: dot_kind_def)
  next
    case 3
    then obtain q qd where q: "par ?V n = Some q" "sg_nodes s q = Some qd" "fileno qd \<noteq> 0" "fileno qd = fno ?V q" using dot by (auto simp: dot_kind_def)
    have np: "nd_parent nd' = Some q" "nd_type nd' = sgfstype_parent" using 3 nv(1,2) nd' q(1) by simp_all
    show ?thesis
    proof (cases "vroot ?V = Some q")
      case True
      then have "number_step E n nd' s = Some (upd_node n (\<lambda>d. d\<lparr>fileno := fileno qd\<rparr>) s)" using np q by (simp add: number_step_def)
      from finish [OF this q(3)] 3 q True show ?thesis by (simp add: dot_kind_def)
    next
      case False
      have "dir_kind (kind ?V q)" using kids_dir [OF fs_invD(1,2) [OF inv], of n q] L(1) [of n q] q by simp
      then have "kind ?V q = Some sgfstype_dir" using False SD(5) [of q] by (auto simp: dir_kind_def)
      then obtain r where r: "par ?V q = Some r" using SD(4) [of q] g [OF 3 q(1)] by auto
      obtain rd where rd: "sg_nodes s r = Some rd" using L(8) [OF r] live_view by blast
      have rf: "fileno rd \<noteq> 0" "fileno rd = fno ?V r" using U(4) [OF r] q node_view(6) [OF rd] by simp_all
      have "number_step E n nd' s = Some (upd_node n (\<lambda>d. d\<lparr>fileno := fileno rd\<rparr>) s)"
        using False np q r rd node_view(2) [OF q(2)] by (auto simp: number_step_def)
      from finish [OF this rf(1)] 3 q r rf False show ?thesis by (simp add: dot_kind_def)
    qed
  qed
qed

lemma fileno_alloc_rank:
  assumes "fs_inv H (view s)" "unr_laws E" "kind (view s) n \<noteq> None" "fno (view s) n = 0"
    and "\<And>p. kind (view s) n = Some sgfstype_parent \<Longrightarrow> par (view s) n = Some p \<Longrightarrow> \<not> gone (view s) p"
    and rk: "\<And>c p. par (view s) c = Some p \<Longrightarrow> (rk :: nid \<Rightarrow> nat) p < rk c"
  shows "\<exists>s'. sgfs_fileno_alloc E n s = Some s' \<and> fs_locked s' = fs_locked s \<and> fs_inv H (view s') \<and> more_numbers (view s) (view s') \<and>
    fno (view s') n \<noteq> 0 \<and> (\<forall>m. rk n < rk m \<longrightarrow> fno (view s') m = fno (view s) m)"
  using assms
proof (induction "rk n" arbitrary: n rule: less_induct)
  case less
  let ?V = "view s"
  let ?up = "case par ?V n of None \<Rightarrow> Some s
    | Some p \<Rightarrow> do { pd \<leftarrow> sg_nodes s p; if fileno pd = 0 then sgfs_fileno_alloc E p s else Some s }"
  note inv = less.prems(1)
  note L = linksD [OF fs_invD(1) [OF inv]]
  obtain nd where nd: "sg_nodes s n = Some nd" using less.prems(3) live_view by blast
  note nv = node_view [OF nd]
  have "\<exists>s1. ?up = Some s1 \<and> fs_locked s1 = fs_locked s \<and> fs_inv H (view s1) \<and> more_numbers ?V (view s1) \<and>
      (\<forall>p. par ?V n = Some p \<longrightarrow> fno (view s1) p \<noteq> 0) \<and> (\<forall>m. rk n \<le> rk m \<longrightarrow> fno (view s1) m = fno ?V m)"
  proof (cases "par ?V n")
    case (Some p)
    obtain pd where pd: "sg_nodes s p = Some pd" using L(8) [OF Some] live_view by blast
    note pv = node_view [OF pd]
    have r: "rk p < rk n" by (rule less.prems(6) [OF Some])
    show ?thesis
    proof (cases "fileno pd = 0")
      case True
      have "dir_kind (kind ?V p)" using kids_dir [OF fs_invD(1,2) [OF inv], of n p] L(1) Some by blast
      then have k: "kind ?V p \<noteq> Some sgfstype_parent" "kind ?V p \<noteq> None" by (auto simp: dir_kind_def)
      have z: "fno ?V p = 0" using pv True by simp
      obtain s1 where s1: "sgfs_fileno_alloc E p s = Some s1" "fs_locked s1 = fs_locked s" "fs_inv H (view s1)" "more_numbers ?V (view s1)"
        "fno (view s1) p \<noteq> 0" "\<forall>m. rk p < rk m \<longrightarrow> fno (view s1) m = fno ?V m"
        using less.hyps [OF r inv less.prems(2) k(2) z _ less.prems(6)] k(1) by blast
      then have "\<forall>m. rk n \<le> rk m \<longrightarrow> fno (view s1) m = fno ?V m" using r by auto
      then show ?thesis using s1 Some pd True by simp
    qed (use Some pd pv inv in simp)
  qed (use inv in simp)
  then obtain s1 where s1: "?up = Some s1" "fs_locked s1 = fs_locked s" "fs_inv H (view s1)" "more_numbers ?V (view s1)"
    "\<And>p. par ?V n = Some p \<Longrightarrow> fno (view s1) p \<noteq> 0" "\<And>m. rk n \<le> rk m \<Longrightarrow> fno (view s1) m = fno ?V m" by blast
  note m = more_same [OF s1(4)]
  have "kind (view s1) n \<noteq> None" using m(1) less.prems(3) by simp
  then obtain nd1 where nd1: "sg_nodes s1 n = Some nd1" using live_view by blast
  have same: "nd_type nd = nd_type nd1" "nd_parent nd = nd_parent nd1" using nv(1,2) node_view(1,2) [OF nd1] m(1,2) by simp_all
  have z: "fno (view s1) n = 0" using s1(6) [of n] less.prems(4) by simp
  have p1: "\<And>p. par (view s1) n = Some p \<Longrightarrow> fno (view s1) p \<noteq> 0" using s1(5) m(2) by simp
  have g1: "\<And>p. kind (view s1) n = Some sgfstype_parent \<Longrightarrow> par (view s1) n = Some p \<Longrightarrow> \<not> gone (view s1) p"
    using less.prems(5) m(1,2,4) by simp
  obtain s2 where s2: "number_step E n nd s1 = Some s2" "fs_locked s2 = fs_locked s1" "fs_inv H (view s2)" "more_numbers (view s1) (view s2)"
    "fno (view s2) n \<noteq> 0" "\<forall>m. m \<noteq> n \<longrightarrow> fno (view s2) m = fno (view s1) m"
    using number_step_ok [OF s1(3) less.prems(2) nd1 z p1 g1 same] by blast
  have "sgfs_fileno_alloc E n s = Some s2"
    using s1(1) s2(1) nd nv(2) by (subst fileno_alloc_step) (simp split: option.splits)
  moreover have "fno (view s2) m = fno ?V m" if "rk n < rk m" for m using s2(6) s1(6) [of m] that by (cases "m = n") simp_all
  ultimately show ?case using s1(2) s2 more_trans [OF s1(4)] by auto
qed

lemma fileno_alloc_ok:
  assumes "fs_inv H (view s)" "unr_laws E" "kind (view s) n \<noteq> None" "fno (view s) n = 0"
    and "\<And>p. kind (view s) n = Some sgfstype_parent \<Longrightarrow> par (view s) n = Some p \<Longrightarrow> \<not> gone (view s) p"
  shows "\<exists>s'. sgfs_fileno_alloc E n s = Some s' \<and> fs_locked s' = fs_locked s \<and> fs_inv H (view s') \<and> more_numbers (view s) (view s') \<and>
    fno (view s') n \<noteq> 0"
proof -
  obtain rk :: "nid \<Rightarrow> nat" where "\<And>c p. par (view s) c = Some p \<Longrightarrow> rk p < rk c"
    using fs_invD(1) [OF assms(1)] unfolding links_inv_def by blast
  from fileno_alloc_rank [where rk = rk, OF assms(1-4) assms(5) this] show ?thesis by blast
qed

text \<open>The \<open>..\<close> entry of a removed directory has no grandparent to take a number from.\<close>

lemma fileno_alloc_removed:
  assumes inv: "fs_inv H (view s)" and E: "unr_laws E" and c: "kind (view s) c = Some sgfstype_parent" "par (view s) c = Some p" "gone (view s) p"
  shows "sgfs_fileno_alloc E c s = None"
proof -
  let ?V = "view s"
  note L = linksD [OF fs_invD(1) [OF inv]] and SD = shapeD [OF fs_invD(2) [OF inv]]
  have r: "vroot ?V \<noteq> Some p" using SD(6) [of p] c(3) by blast
  have "dir_kind (kind ?V p)" using kids_dir [OF fs_invD(1,2) [OF inv], of c p] L(1) [of c p] c by simp
  then have kp: "kind ?V p = Some sgfstype_dir" using r SD(5) [of p] by (auto simp: dir_kind_def)
  then have pp: "par ?V p = None" using SD(4) [of p] c(3) by simp
  obtain nd where nd: "sg_nodes s c = Some nd" "nd_type nd = sgfstype_parent" using c(1) by (rule kind_obtain)
  obtain pd where pd: "sg_nodes s p = Some pd" using L(8) [OF c(2)] live_view by blast
  have np: "nd_parent nd = Some p" using node_view(2) [OF nd(1)] c(2) by simp
  have none: "number_step E c nd s1 = None" if "par (view s1) p = None" "vroot (view s1) \<noteq> Some p" for s1
  proof (cases "sg_nodes s1 p")
    case (Some pd1)
    then have "nd_parent pd1 = None" "fs_root s1 \<noteq> Some p" using that node_view(2) [OF Some] by simp_all
    then show ?thesis using nd(2) np Some by (auto simp: number_step_def)
  qed (use nd(2) np in \<open>simp add: number_step_def\<close>)
  show ?thesis
  proof (cases "fileno pd = 0")
    case True
    then have z: "fno ?V p = 0" using node_view(6) [OF pd] by simp
    have "kind ?V p \<noteq> None" "kind ?V p \<noteq> Some sgfstype_parent" using kp by simp_all
    then obtain s1 where s1: "sgfs_fileno_alloc E p s = Some s1" "more_numbers ?V (view s1)"
      using fileno_alloc_ok [OF inv E _ z] by blast
    then have "par (view s1) p = None" "vroot (view s1) \<noteq> Some p" using more_same(2,6) [OF s1(2)] pp r by simp_all
    then show ?thesis using none s1(1) nd(1) np pd True by (subst fileno_alloc_step) simp
  next
    case False
    then show ?thesis using none [of s] pp r nd(1) np pd by (subst fileno_alloc_step) simp
  qed
qed

section \<open>Reading a directory\<close>

definition listing :: "fsview \<Rightarrow> nid list \<Rightarrow> dirent list" where
  "listing V cs = map (\<lambda>c. \<lparr>d_fileno = fno V c, d_name = take (SGFS_NAMELEN - 1) (nam V c), d_type = DT_DIR\<rparr>) cs"

text \<open>The entries written are those from some point on, up to where the loop stopped; all have numbers.\<close>

lemma readdir_loop_ok:
  assumes "fs_inv H (view s)" "unr_laws E" "\<forall>c\<in>set cs. par (view s) c = Some d" "\<not> gone (view s) d"
  shows "\<exists>e off out' s'. readdir_loop E rd start cs offset resid out s = Some (e, off, out', s') \<and> fs_locked s' = fs_locked s \<and>
    fs_inv H (view s') \<and> more_numbers (view s) (view s') \<and>
    (start \<le> offset \<and> 0 \<le> sizeof_dirent E \<and> rd = (\<lambda>_. None) \<and> int (length cs) * sizeof_dirent E \<le> resid \<longrightarrow>
      e = None \<and> off = offset + int (length cs) * sizeof_dirent E \<and> out' = out @ listing (view s') cs \<and> (\<forall>c\<in>set cs. fno (view s') c \<noteq> 0))"
  using assms
proof (induction cs arbitrary: s offset resid out)
  case Nil
  then show ?case by (simp add: listing_def)
next
  case (Cons c cs)
  let ?V = "view s" and ?z = "sizeof_dirent E"
  note inv = Cons.prems(1)
  note L = linksD [OF fs_invD(1) [OF inv]]
  have pc: "par ?V c = Some d" using Cons.prems(3) by simp
  then have k: "kind ?V c \<noteq> None" by (rule L(7))
  obtain nd where nd: "sg_nodes s c = Some nd" using k live_view by blast
  have "\<exists>s1. (if fileno nd = 0 then sgfs_fileno_alloc E c s else Some s) = Some s1 \<and> fs_locked s1 = fs_locked s \<and> fs_inv H (view s1) \<and>
      more_numbers ?V (view s1) \<and> fno (view s1) c \<noteq> 0"
  proof (cases "fileno nd = 0")
    case True
    then have z: "fno ?V c = 0" using node_view(6) [OF nd] by simp
    have g: "\<And>p. kind ?V c = Some sgfstype_parent \<Longrightarrow> par ?V c = Some p \<Longrightarrow> \<not> gone ?V p" using pc Cons.prems(4) by simp
    show ?thesis using fileno_alloc_ok [OF inv Cons.prems(2) k z g] True by simp
  qed (use inv node_view(6) [OF nd] in simp)
  then obtain s1 where s1: "(if fileno nd = 0 then sgfs_fileno_alloc E c s else Some s) = Some s1" "fs_locked s1 = fs_locked s"
    "fs_inv H (view s1)" "more_numbers ?V (view s1)" "fno (view s1) c \<noteq> 0" by blast
  note m = more_same [OF s1(4)]
  have "kind (view s1) c \<noteq> None" using m(1) k by simp
  then obtain n1 where n1: "sg_nodes s1 c = Some n1" using live_view by blast
  have ty: "dirent_kind (nd_type n1) = Some DT_DIR"
    using shapeD(2) [OF fs_invD(2) [OF s1(3)], of c] node_view(1) [OF n1] by (auto simp: dir_kind_def dot_kind_def dirent_kind_def)
  have P: "\<forall>c\<in>set cs. par (view s1) c = Some d" "\<not> gone (view s1) d" using Cons.prems(3,4) m by simp_all
  let ?e = "\<lparr>d_fileno = fileno n1, d_name = take (SGFS_NAMELEN - 1) (nd_name n1), d_type = DT_DIR\<rparr>"
  have run: "readdir_loop E rd start (c # cs) offset resid out s =
     (if ?z > resid then Some (None, offset, out, s1)
      else if offset \<ge> start then
        if rd offset \<noteq> None then Some (rd offset, offset, out, s1)
        else readdir_loop E rd start cs (offset + ?z) (resid - ?z) (out @ [?e]) s1
      else readdir_loop E rd start cs (offset + ?z) resid out s1)"
    using nd s1(1) n1 ty by (simp add: Let_def)
  have ent: "?e = \<lparr>d_fileno = fno (view s1) c, d_name = take (SGFS_NAMELEN - 1) (nam (view s1) c), d_type = DT_DIR\<rparr>"
    using node_view(6,7) [OF n1] by simp
  have len: "0 \<le> ?z \<Longrightarrow> int (length (c # cs)) * ?z \<le> resid \<Longrightarrow> ?z \<le> resid \<and> int (length cs) * ?z \<le> resid - ?z"
  proof -
    assume A: "0 \<le> ?z" "int (length (c # cs)) * ?z \<le> resid"
    have "int (length (c # cs)) * ?z = ?z + int (length cs) * ?z" by (simp add: distrib_right)
    moreover have "0 \<le> int (length cs) * ?z" using A(1) by simp
    ultimately show ?thesis using A(2) by linarith
  qed
  show ?case
  proof (cases "?z > resid \<or> (offset \<ge> start \<and> rd offset \<noteq> None)")
    case True
    then have "\<exists>e. readdir_loop E rd start (c # cs) offset resid out s = Some (e, offset, out, s1)" using run by auto
    then show ?thesis using s1(2-4) True len by fastforce
  next
    case False
    let ?r = "if offset \<ge> start then resid - ?z else resid" and ?o = "if offset \<ge> start then out @ [?e] else out"
    obtain e off out' s' where r: "readdir_loop E rd start cs (offset + ?z) ?r ?o s1 = Some (e, off, out', s')" "fs_locked s' = fs_locked s1"
      "fs_inv H (view s')" "more_numbers (view s1) (view s')"
      "start \<le> offset + ?z \<and> 0 \<le> ?z \<and> rd = (\<lambda>_. None) \<and> int (length cs) * ?z \<le> ?r \<longrightarrow>
        e = None \<and> off = offset + ?z + int (length cs) * ?z \<and> out' = ?o @ listing (view s') cs \<and> (\<forall>c\<in>set cs. fno (view s') c \<noteq> 0)"
      using Cons.IH [OF s1(3) Cons.prems(2) P] by blast
    have eq: "readdir_loop E rd start (c # cs) offset resid out s = Some (e, off, out', s')" using run False r(1) by (auto split: if_splits)
    note m' = more_same [OF r(4)]
    have "?e = \<lparr>d_fileno = fno (view s') c, d_name = take (SGFS_NAMELEN - 1) (nam (view s') c), d_type = DT_DIR\<rparr>"
      using ent s1(5) m'(5,11) by simp
    then have "listing (view s') (c # cs) = ?e # listing (view s') cs" by (simp add: listing_def)
    moreover have "fno (view s') c \<noteq> 0" using m'(11) [of c] s1(5) by simp
    ultimately have "start \<le> offset \<and> 0 \<le> ?z \<and> rd = (\<lambda>_. None) \<and> int (length (c # cs)) * ?z \<le> resid \<longrightarrow>
        e = None \<and> off = offset + int (length (c # cs)) * ?z \<and> out' = out @ listing (view s') (c # cs) \<and> (\<forall>c\<in>set (c # cs). fno (view s') c \<noteq> 0)"
      using r(5) len by (auto simp: algebra_simps)
    then show ?thesis using eq r(2-4) s1(2) more_trans [OF s1(4)] by blast
  qed
qed

lemma readdir_ok:
  assumes ok: "fs_ok s" and v: "sg_vnodes s v = Some vn" "v_data vn = Some d" and g: "\<not> gone (view s) d" and E: "unr_laws E"
  shows "\<exists>e off out s'. sgfs_readdir E rd v start resid s = Some (e, off, out, s') \<and> fs_ok s' \<and> more_numbers (view s) (view s') \<and>
    (start = 0 \<and> 0 \<le> sizeof_dirent E \<and> rd = (\<lambda>_. None) \<and> int (length (kids (view s) d)) * sizeof_dirent E \<le> resid \<longrightarrow>
      e = None \<and> out = listing (view s') (kids (view s) d) \<and> (\<forall>c\<in>set (kids (view s) d). fno (view s') c \<noteq> 0))"
proof -
  have inv: "fs_inv (\<lambda>_. 0) (view s)" and l: "\<not> fs_locked s" using ok by (simp_all add: fs_ok_def)
  note vd = vnode_node [OF inv v]
  obtain nd where nd: "sg_nodes s d = Some nd" using vd(1) by blast
  show ?thesis
  proof (cases "start < 0")
    case True
    then show ?thesis using v vd(3) ok by (simp add: sgfs_readdir_def)
  next
    case False
    let ?s = "s\<lparr>fs_locked := True\<rparr>"
    have i: "fs_inv (\<lambda>_. 0) (view ?s)" using inv by (simp add: view_rest)
    have p: "\<forall>c\<in>set (kids (view s) d). par (view ?s) c = Some d" using linksD(1) [OF fs_invD(1) [OF inv]] by (simp add: view_rest)
    have g': "\<not> gone (view ?s) d" using g by (simp add: view_rest)
    obtain e off out s1 where r: "readdir_loop E rd start (kids (view s) d) 0 resid [] ?s = Some (e, off, out, s1)" "fs_locked s1"
      "fs_inv (\<lambda>_. 0) (view s1)" "more_numbers (view s) (view s1)"
      "start \<le> 0 \<and> 0 \<le> sizeof_dirent E \<and> rd = (\<lambda>_. None) \<and> int (length (kids (view s) d)) * sizeof_dirent E \<le> resid \<longrightarrow>
        e = None \<and> out = listing (view s1) (kids (view s) d) \<and> (\<forall>c\<in>set (kids (view s) d). fno (view s1) c \<noteq> 0)"
      using readdir_loop_ok [OF i E p g', of rd start 0 resid "[]"] by (auto simp: view_rest)
    have "sgfs_readdir E rd v start resid s = Some (e, off, out, s1\<lparr>fs_locked := False\<rparr>)"
      using v vd(3) False l nd r(1,2) node_view(3) [OF nd] by (simp add: sgfs_readdir_def)
    moreover have "view (s1\<lparr>fs_locked := False\<rparr>) = view s1" by (rule view_rest)
    ultimately show ?thesis using r(3-5) by (intro exI [of _ e] exI [of _ off] exI [of _ out] exI [of _ "s1\<lparr>fs_locked := False\<rparr>"]) (simp add: fs_ok_def)
  qed
qed

text \<open>Whatever the directory, a reading that returns leaves the file system sane.\<close>

lemma readdir_loop_keeps:
  assumes "readdir_loop E rd start cs offset resid out s = Some (e, off, out', s')"
    and "fs_inv H (view s)" "unr_laws E" "\<forall>c\<in>set cs. kind (view s) c \<noteq> None"
  shows "fs_inv H (view s') \<and> fs_locked s' = fs_locked s"
  using assms
proof (induction cs arbitrary: s offset resid out)
  case (Cons c cs)
  let ?V = "view s"
  note inv = Cons.prems(2)
  have k: "kind ?V c \<noteq> None" using Cons.prems(4) by simp
  then obtain nd where nd: "sg_nodes s c = Some nd" using live_view by blast
  obtain s1 where up: "(if fileno nd = 0 then sgfs_fileno_alloc E c s else Some s) = Some s1"
    using Cons.prems(1) nd by (auto split: Option.bind_splits)
  have s1: "fs_locked s1 = fs_locked s \<and> fs_inv H (view s1) \<and> more_numbers ?V (view s1)"
  proof (cases "fileno nd = 0")
    case True
    then have z: "fno ?V c = 0" using node_view(6) [OF nd] by simp
    have g: "\<not> gone ?V p" if "kind ?V c = Some sgfstype_parent" "par ?V c = Some p" for p
      using fileno_alloc_removed [OF inv Cons.prems(3) that] up True by auto
    show ?thesis using fileno_alloc_ok [OF inv Cons.prems(3) k z g] up True by auto
  qed (use up inv in simp)
  note m = more_same [OF s1 [THEN conjunct2, THEN conjunct2]]
  obtain n1 where n1: "sg_nodes s1 c = Some n1" using m(1) k live_view [of s1 c] by auto
  obtain ty where ty: "dirent_kind (nd_type n1) = Some ty" using Cons.prems(1) nd up n1 by (auto split: Option.bind_splits)
  have live: "\<forall>c\<in>set cs. kind (view s1) c \<noteq> None" using Cons.prems(4) m(1) by simp
  consider "s' = s1" | offset' resid' out1 where "readdir_loop E rd start cs offset' resid' out1 s1 = Some (e, off, out', s')"
    using Cons.prems(1) nd up n1 ty by (auto simp: Let_def split: if_splits)
  then show ?case
  proof cases
    case 1
    then show ?thesis using s1 by simp
  next
    case 2
    then show ?thesis using Cons.IH [OF 2 _ Cons.prems(3) live] s1 by simp
  qed
qed simp

lemma readdir_keeps:
  assumes ok: "fs_ok s" and v: "sg_vnodes s v = Some vn" and E: "unr_laws E"
    and run: "sgfs_readdir E rd v start resid s = Some (e, off, out, s')"
  shows "fs_ok s'"
proof -
  have inv: "fs_inv (\<lambda>_. 0) (view s)" and l: "\<not> fs_locked s" using ok by (simp_all add: fs_ok_def)
  obtain d where d: "v_data vn = Some d" using vnodeD(4) [OF fs_invD(3) [OF inv], of v vn] v by auto
  note vd = vnode_node [OF inv v d]
  obtain nd where nd: "sg_nodes s d = Some nd" using vd(1) by blast
  show ?thesis
  proof (cases "start < 0")
    case True
    then show ?thesis using run v d vd(3) ok by (simp add: sgfs_readdir_def)
  next
    case False
    let ?s = "s\<lparr>fs_locked := True\<rparr>"
    obtain s1 where r: "readdir_loop E rd start (nd_children nd) 0 resid [] ?s = Some (e, off, out, s1)" "sx_xunlock s1 = Some s'"
      using run v d vd(3) False l nd by (auto simp: sgfs_readdir_def split: Option.bind_splits)
    have "\<forall>c\<in>set (nd_children nd). kind (view ?s) c \<noteq> None"
      using linksD(1,7) [OF fs_invD(1) [OF inv]] node_view(3) [OF nd] by (metis view_rest(1))
    from readdir_loop_keeps [OF r(1) _ E this] have "fs_inv (\<lambda>_. 0) (view s1)" "fs_locked s1" using inv by (simp_all add: view_rest)
    then show ?thesis using r(2) by (auto simp: fs_ok_def view_rest)
  qed
qed

end
