(* ===== verification/Sgfs_System.thy ===== *)
theory Sgfs_System
  imports Sgfs_Number
begin

text \<open>
  The file system as a whole: it starts sane, and every sequence of its operations, called as the kernel
  calls them, keeps it sane.
\<close>

section \<open>The start\<close>

definition fs_start :: "cred \<Rightarrow> nat \<Rightarrow> node_alloc \<Rightarrow> node_alloc \<Rightarrow> node_alloc \<Rightarrow> sgfs_info" where
  "fs_start c u x x1 x2 =
     (let nd = (\<lambda>name ty y p cs k f mode. \<lparr>nd_name = name, nd_fsinfo = True, nd_parent = p, nd_children = cs, nd_vnodes = [],
          refcount = k, nd_type = ty, nd_deleted = False, fileno = f, nd_birth = na_time y, nd_ctime = na_time y,
          nd_atime = na_time y, nd_mtime = na_time y, nd_uid = cr_uid c, nd_gid = cr_gid c, nd_mode = mode\<rparr>);
          r = na_addr x
      in \<lparr>sg_nodes = [na_addr x1 \<mapsto> nd ''.'' sgfstype_this x1 (Some r) [] 1 0 493,
           na_addr x2 \<mapsto> nd ''..'' sgfstype_parent x2 (Some r) [] 1 0 493,
           r \<mapsto> nd ''/'' sgfstype_root x None [na_addr x2, na_addr x1] 3 u 1023],
         sg_vnodes = (\<lambda>_. None), fs_root = Some r, fs_locked = False, unrs = [u]\<rparr>)"

lemma init_run:
  assumes "na_addr x \<noteq> na_addr x1" "na_addr x \<noteq> na_addr x2" "na_addr x1 \<noteq> na_addr x2"
  shows "sgfs_init E c (x, x1, x2) = Some (fs_start c (alloc_unr E []) x x1 x2)"
  using assms
  by (simp add: sgfs_init_def sgfs_create_node_def SGFS_NAMELEN_def sgfs_fixup_dir_def sgfs_add_node_def sgnode_addref_def
      upd_node_def is_dir_def Let_def sgfs_fileno_alloc.simps fs_start_def)

lemma start_ok:
  assumes ne: "na_addr x \<noteq> na_addr x1" "na_addr x \<noteq> na_addr x2" "na_addr x1 \<noteq> na_addr x2" and u: "u \<noteq> 0"
  shows "fs_ok (fs_start c u x x1 x2)"
proof -
  let ?r = "na_addr x" and ?a = "na_addr x1" and ?b = "na_addr x2"
  define W where "W = view (fs_start c u x x1 x2)"
  have V: "kind W = [?a \<mapsto> sgfstype_this, ?b \<mapsto> sgfstype_parent, ?r \<mapsto> sgfstype_root]" "par W = [?a \<mapsto> ?r, ?b \<mapsto> ?r]"
    "kids W = (\<lambda>_. [])(?r := [?b, ?a])" "vns W = (\<lambda>_. [])" "gone W = (\<lambda>_. False)" "fno W = (\<lambda>_. 0)(?r := u)"
    "nam W = (\<lambda>_. [])(?a := ''.'', ?b := ''..'', ?r := ''/'')" "cnt W = (\<lambda>_. 0)(?a := 1, ?b := 1, ?r := 3)"
    "info W = (\<lambda>_. False)(?a := True, ?b := True, ?r := True)" "vnod W = (\<lambda>_. None)" "vroot W = Some ?r" "unos W = [u]"
    using ne by (simp_all add: W_def view_def fs_start_def of_node_def fun_eq_iff Let_def)
  have "links_inv W" unfolding links_inv_def
  proof (intro conjI allI impI)
    show "c \<in> set (kids W n) \<longleftrightarrow> par W c = Some n" for n c using ne by (auto simp: V)
    show "distinct (kids W n)" for n using ne by (simp add: V)
    show "kids W n = []" "par W n = None" "vns W n = []" "\<not> gone W n" if "kind W n = None" for n
      using that by (auto simp: V split: if_splits)
    show "finite {n. kind W n \<noteq> None}" by (rule finite_subset [of _ "{?r, ?a, ?b}"]) (auto simp: V split: if_splits)
    show "\<exists>rk :: nid \<Rightarrow> nat. \<forall>c p. par W c = Some p \<longrightarrow> rk p < rk c"
      using ne by (intro exI [of _ "(\<lambda>_. 1)(?r := 0)"]) (auto simp: V split: if_splits)
  qed
  moreover have d: "dots W ?r ?b ?a" using ne by (simp add: dots_def V)
  then have "shape_inv W" using ne by (intro shapeI) (auto simp: V dir_kind_def dot_kind_def split: if_splits)
  moreover have "vnode_inv W" by (simp add: vnode_inv_def V)
  moreover have "refs_inv (\<lambda>_. 0) W" using ne by (intro refsI) (auto simp: V split: if_splits)
  moreover have "name_inv W" using ne by (auto simp: name_inv_def V)
  moreover have "num_inv W" using ne u by (intro numI) (auto simp: V dir_kind_def split: if_splits)
  ultimately have "fs_inv (\<lambda>_. 0) W" by (simp add: fs_inv_def)
  moreover have "\<not> fs_locked (fs_start c u x x1 x2)" by (simp add: fs_start_def Let_def)
  ultimately show ?thesis by (simp add: fs_ok_def W_def)
qed

section \<open>Attributes\<close>

lemma owner_view:
  assumes "setattr_owner E v n vap c s = Some (e, b, s')" shows "view s' = view s" "fs_locked s' = fs_locked s"
proof -
  obtain nd where nd: "sg_nodes s n = Some nd" using assms by (cases "sg_nodes s n") (simp_all add: setattr_owner_def)
  show "view s' = view s" "fs_locked s' = fs_locked s"
    using assms nd view_changes(6) [OF nd] by (auto simp: setattr_owner_def Let_def split: Option.bind_splits if_splits)
qed

lemma mode_view:
  assumes "setattr_mode E n vap c s = Some (e, b, s')" shows "view s' = view s" "fs_locked s' = fs_locked s"
proof -
  obtain nd where nd: "sg_nodes s n = Some nd" using assms by (cases "sg_nodes s n") (simp_all add: setattr_mode_def)
  show "view s' = view s" "fs_locked s' = fs_locked s"
    using assms nd view_changes(7) [OF nd] by (auto simp: setattr_mode_def split: if_splits)
qed

lemma times_view:
  assumes "setattr_times E v n vap c s = Some (e, b, s')" "sg_nodes s n = Some nd" shows "view s' = view s" "fs_locked s' = fs_locked s"
proof -
  let ?s1 = "upd_node n (\<lambda>d. d\<lparr>nd_atime := va_atime vap\<rparr>) s"
  have n1: "sg_nodes ?s1 n = Some (nd\<lparr>nd_atime := va_atime vap\<rparr>)" using assms(2) by (simp add: upd_node_at)
  show "view s' = view s" "fs_locked s' = fs_locked s"
    using assms(1) view_changes(8,9) [OF assms(2)] view_changes(9) [OF n1]
    by (auto simp: setattr_times_def Let_def split: Option.bind_splits if_splits)
qed

lemma setattr_view:
  assumes "sgfs_setattr E now v vap c s = Some (e, s')" shows "view s' = view s" "fs_locked s' = fs_locked s"
proof -
  have "view s' = view s \<and> fs_locked s' = fs_locked s"
  proof (cases "s' = s")
    case False
    then obtain n e1 c1 s1 where n: "setattr_owner E v n vap c s = Some (e1, c1, s1)"
      and r1: "if e1 \<noteq> None then s' = s1 else (\<exists>e2 c2 s2. setattr_mode E n vap c s1 = Some (e2, c2, s2) \<and> (if e2 \<noteq> None then s' = s2 else
        (\<exists>e3 c3 s3. setattr_times E v n vap c s2 = Some (e3, c3, s3) \<and> (s' = s3 \<or> s' = upd_node n (\<lambda>d. d\<lparr>nd_ctime := now\<rparr>) s3))))"
      using assms by (fastforce simp: sgfs_setattr_def split: Option.bind_splits if_splits)
    note o1 = owner_view [OF n]
    obtain nd where nd: "sg_nodes s n = Some nd" using n by (cases "sg_nodes s n") (simp_all add: setattr_owner_def)
    have live: "\<exists>nd. sg_nodes t n = Some nd" if "view t = view s" for t
      using live_view [of t n] live_view [of s n] nd that by auto
    show ?thesis
    proof (cases "e1 = None")
      case True
      then obtain e2 c2 s2 where m: "setattr_mode E n vap c s1 = Some (e2, c2, s2)" and r2: "if e2 \<noteq> None then s' = s2 else
        (\<exists>e3 c3 s3. setattr_times E v n vap c s2 = Some (e3, c3, s3) \<and> (s' = s3 \<or> s' = upd_node n (\<lambda>d. d\<lparr>nd_ctime := now\<rparr>) s3))"
        using r1 by auto
      note o2 = mode_view [OF m]
      show ?thesis
      proof (cases "e2 = None")
        case True
        then obtain e3 c3 s3 where t: "setattr_times E v n vap c s2 = Some (e3, c3, s3)"
          and r3: "s' = s3 \<or> s' = upd_node n (\<lambda>d. d\<lparr>nd_ctime := now\<rparr>) s3" using r2 by auto
        obtain nd2 where "sg_nodes s2 n = Some nd2" using live [of s2] o1 o2 by auto
        note o3 = times_view [OF t this]
        obtain nd3 where "sg_nodes s3 n = Some nd3" using live [of s3] o1 o2 o3 by auto
        from view_changes(10) [OF this] show ?thesis using r3 o1 o2 o3 by auto
      qed (use r2 o1 o2 in auto)
    qed (use r1 o1 in auto)
  qed simp
  then show "view s' = view s" "fs_locked s' = fs_locked s" by simp_all
qed

section \<open>Sequences of operations\<close>

text \<open>
  The operations as the kernel calls them: on live vnodes, a directory made only under a name its lookup
  did not find, a vnode reclaimed at any time, and no interference while a vnode is made.
\<close>

inductive fs_step :: "sgenv \<Rightarrow> sgfs_info \<Rightarrow> sgfs_info \<Rightarrow> bool" for E where
  step_root: "\<lbrakk>undisturbed A s; sgfs_root mp A s = Some (e, w, s')\<rbrakk> \<Longrightarrow> fs_step E s s'"
| step_lookup: "\<lbrakk>sg_vnodes s v \<noteq> None; cn_ok cn; undisturbed A s; sgfs_lookup E v cn A s = Some (e, w, s')\<rbrakk> \<Longrightarrow> fs_step E s s'"
| step_mkdir: "\<lbrakk>VTON v s = Some d; cn_ok cn; cn_hasbuf cn; length (cn_name cn) < SGFS_NAMELEN; entry (view s) d (cn_name cn) = None;
     fresh_nodes N s; undisturbed A s; sgfs_mkdir v cn mode N A s = Some (e, w, s')\<rbrakk> \<Longrightarrow> fs_step E s s'"
| step_rmdir: "\<lbrakk>sg_vnodes s v \<noteq> None; sgfs_rmdir v s = Some (e, s')\<rbrakk> \<Longrightarrow> fs_step E s s'"
| step_reclaim: "\<lbrakk>sg_vnodes s v \<noteq> None; sgfs_reclaim v s = Some s'\<rbrakk> \<Longrightarrow> fs_step E s s'"
| step_inactive: "\<lbrakk>sg_vnodes s v \<noteq> None; sgfs_inactive recycled v s = Some s'\<rbrakk> \<Longrightarrow> fs_step E s s'"
| step_readdir: "\<lbrakk>sg_vnodes s v \<noteq> None; sgfs_readdir E rd v start resid s = Some (e, off, out, s')\<rbrakk> \<Longrightarrow> fs_step E s s'"
| step_setattr: "\<lbrakk>sg_vnodes s v \<noteq> None; sgfs_setattr E now v vap c s = Some (e, s')\<rbrakk> \<Longrightarrow> fs_step E s s'"

inductive fs_reach :: "sgenv \<Rightarrow> sgfs_info \<Rightarrow> sgfs_info \<Rightarrow> bool" for E where
  reach_refl: "fs_reach E s s"
| reach_step: "fs_reach E s s1 \<Longrightarrow> fs_step E s1 s2 \<Longrightarrow> fs_reach E s s2"

lemma live_vnode:
  assumes "fs_ok s" "sg_vnodes s v \<noteq> None"
  obtains vn d where "sg_vnodes s v = Some vn" "v_data vn = Some d"
proof -
  obtain vn where vn: "sg_vnodes s v = Some vn" using assms(2) by blast
  then have "\<exists>d. v_data vn = Some d" using vnodeD(4) [OF fs_invD(3), of "\<lambda>_. 0" "view s" v vn] assms(1) by (auto simp: fs_ok_def)
  then show ?thesis using vn that by blast
qed

lemma lookup_keeps:
  assumes ok: "fs_ok s" and v: "sg_vnodes s v \<noteq> None" and cn: "cn_ok cn" and A: "undisturbed A s"
    and run: "sgfs_lookup E v cn A s = Some (e, w, s')"
  shows "fs_ok s'"
proof -
  obtain vn d where vd: "sg_vnodes s v = Some vn" "v_data vn = Some d" using live_vnode [OF ok v] by blast
  show ?thesis using lookup_outcome [OF ok vd cn A, of E] run by (auto simp: lookup_result_def split: if_splits)
qed

lemma step_keeps:
  assumes "fs_step E s s'" "fs_ok s" "unr_laws E"
  shows "fs_ok s'"
  using assms
proof (induction rule: fs_step.induct)
  case (step_root A s mp e w s')
  then obtain r where r: "fs_root s = Some r" "sgfs_allocv mp A r s = Some (e, w, s')" by (auto simp: sgfs_root_def split: Option.bind_splits)
  have inv: "fs_inv (\<lambda>_. 0) (view s)" "\<not> fs_locked s" using step_root by (simp_all add: fs_ok_def)
  have "dir_kind (kind (view s) r)" using shapeD(5) [OF fs_invD(2) [OF inv(1)], of r] r(1) by (simp add: dir_kind_def)
  from allocv_ok [OF inv this step_root(1), of mp] show ?case using r(2) by (auto simp: fs_ok_def)
next
  case (step_lookup s v cn A e w s')
  then show ?case using lookup_keeps by blast
next
  case (step_mkdir v s d cn N A mode e w s')
  obtain vn where vn: "sg_vnodes s v = Some vn" "v_data vn = Some d" using step_mkdir(1) by (auto simp: VTON_def split: Option.bind_splits)
  obtain x x1 x2 where N: "N = (x, x1, x2)" by (cases N)
  show ?case using mkdir_ok [OF step_mkdir(9) vn step_mkdir(3) _ _ step_mkdir(5,6) N step_mkdir(7), of mode] step_mkdir(2,4,8)
    by (auto simp: cn_ok_def)
next
  case (step_rmdir s v e s')
  obtain vn n where vn: "sg_vnodes s v = Some vn" "v_data vn = Some n" using live_vnode [OF step_rmdir(3,1)] by blast
  have inv: "fs_inv (\<lambda>_. 0) (view s)" using step_rmdir by (simp add: fs_ok_def)
  show ?case
  proof (cases "kind (view s) n \<noteq> Some sgfstype_dir \<or> gone (view s) n \<or> length (kids (view s) n) \<noteq> 2")
    case True
    then show ?thesis using rmdir_refused [OF step_rmdir(3) vn True] step_rmdir by simp
  next
    case False
    then have "par (view s) n \<noteq> None" using shapeD(4) [OF fs_invD(2) [OF inv], of n] by simp
    then obtain p where "par (view s) n = Some p" by blast
    then show ?thesis using rmdir_ok [OF step_rmdir(3) vn, of p] False step_rmdir(2) by auto
  qed
next
  case (step_reclaim s v s')
  obtain vn n where "sg_vnodes s v = Some vn" "v_data vn = Some n" using live_vnode [OF step_reclaim(3,1)] by blast
  from reclaim_ok [OF step_reclaim(3) this] show ?case using step_reclaim(2) by auto
next
  case (step_inactive s v recycled s')
  obtain vn n where vn: "sg_vnodes s v = Some vn" "v_data vn = Some n" using live_vnode [OF step_inactive(3,1)] by blast
  have "s' = s \<or> sgfs_reclaim v s = Some s'"
    using step_inactive(2) by (auto simp: sgfs_inactive_def split: Option.bind_splits if_splits)
  then show ?case using reclaim_ok [OF step_inactive(3) vn] step_inactive(3) by auto
next
  case (step_readdir s v rd start resid e off out s')
  then show ?case using readdir_keeps by blast
next
  case (step_setattr s v now vap c e s')
  then show ?case using setattr_view [OF step_setattr(2)] by (simp add: fs_ok_def)
qed

lemma reach_keeps:
  assumes "fs_reach E s s'" "fs_ok s" "unr_laws E" shows "fs_ok s'"
  using assms by (induction rule: fs_reach.induct) (auto intro: step_keeps)

end
