(* ===== verification/Sgfs_Teardown.thy ===== *)
theory Sgfs_Teardown
  imports Sgfs_System
begin

text \<open>
  Tearing down: \<open>sgfs_destroy\<close> ends and frees a node with all nodes below it. Reference counts play no
  part in it, so the loop is followed with a weaker invariant than that of a running file system.
\<close>

definition tree_inv :: "fsview \<Rightarrow> bool" where
  "tree_inv V \<longleftrightarrow> links_inv V \<and> distinct (unos V) \<and>
     (\<forall>n. kind V n \<noteq> None \<longrightarrow> info V n \<and> (dir_kind (kind V n) \<or> dot_kind (kind V n) \<and> kids V n = [])) \<and>
     (\<forall>n. dir_kind (kind V n) \<and> fno V n \<noteq> 0 \<longrightarrow> fno V n \<in> set (unos V)) \<and>
     (\<forall>m n. dir_kind (kind V m) \<and> dir_kind (kind V n) \<and> fno V m = fno V n \<and> fno V n \<noteq> 0 \<longrightarrow> m = n) \<and>
     (\<forall>u\<in>set (unos V). u \<noteq> 0 \<and> (\<exists>n. dir_kind (kind V n) \<and> fno V n = u))"

lemma tree_invD:
  assumes "tree_inv V"
  shows "links_inv V" "distinct (unos V)" "kind V n \<noteq> None \<Longrightarrow> info V n"
    "kind V n \<noteq> None \<Longrightarrow> dir_kind (kind V n) \<or> dot_kind (kind V n) \<and> kids V n = []"
    "dir_kind (kind V n) \<Longrightarrow> fno V n \<noteq> 0 \<Longrightarrow> fno V n \<in> set (unos V)"
    "\<lbrakk>dir_kind (kind V m); dir_kind (kind V n); fno V m = fno V n; fno V n \<noteq> 0\<rbrakk> \<Longrightarrow> m = n"
    "u \<in> set (unos V) \<Longrightarrow> \<exists>n. dir_kind (kind V n) \<and> fno V n = u" "u \<in> set (unos V) \<Longrightarrow> u \<noteq> 0"
  using assms unfolding tree_inv_def by blast+

lemma fs_tree:
  assumes "fs_inv H V" shows "tree_inv V"
proof -
  note SD = shapeD [OF fs_invD(2) [OF assms]] and U = numD [OF fs_invD(6) [OF assms]]
  show ?thesis unfolding tree_inv_def
  proof (intro conjI allI impI ballI)
    show "links_inv V" "distinct (unos V)" using fs_invD(1) [OF assms] U(1) by simp_all
    show "info V n" "dir_kind (kind V n) \<or> dot_kind (kind V n) \<and> kids V n = []" if "kind V n \<noteq> None" for n
      using SD(1,2,7) [of n] that by blast+
    show "fno V n \<in> set (unos V)" if "dir_kind (kind V n) \<and> fno V n \<noteq> 0" for n using U(2) [of "fno V n"] that by blast
    show "m = n" if "dir_kind (kind V m) \<and> dir_kind (kind V n) \<and> fno V m = fno V n \<and> fno V n \<noteq> 0" for m n using U(3) [of m n] that by blast
    show "u \<noteq> 0" "\<exists>n. dir_kind (kind V n) \<and> fno V n = u" if "u \<in> set (unos V)" for u using U(2) [of u] that by blast+
  qed
qed

section \<open>A node without children\<close>

definition without :: "nid \<Rightarrow> fsview \<Rightarrow> fsview" where
  "without n V = drop_node n ((case par V n of None \<Rightarrow> V | Some p \<Rightarrow> V\<lparr>kids := (kids V)(p := remove1 n (kids V p))\<rparr>)
     \<lparr>unos := if dir_kind (kind V n) \<and> fno V n \<noteq> 0 then remove1 (fno V n) (unos V) else unos V\<rparr>)"

lemma without_sel:
  "kind (without n V) m = (if m = n then None else kind V m)" "par (without n V) m = (if m = n then None else par V m)"
  "kids (without n V) m = (if m = n then [] else if par V n = Some m then remove1 n (kids V m) else kids V m)"
  "vns (without n V) m = (if m = n then [] else vns V m)" "gone (without n V) m \<longleftrightarrow> m \<noteq> n \<and> gone V m"
  "fno (without n V) m = (if m = n then 0 else fno V m)" "info (without n V) m \<longleftrightarrow> m \<noteq> n \<and> info V m"
  "unos (without n V) = (if dir_kind (kind V n) \<and> fno V n \<noteq> 0 then remove1 (fno V n) (unos V) else unos V)"
  "vroot (without n V) = vroot V"
  by (auto simp: without_def drop_node_def split: option.splits)

lemma tree_without:
  assumes inv: "tree_inv V" and e: "kids V n = []"
  shows "tree_inv (without n V)"
proof -
  note T = tree_invD [OF inv] and L = linksD [OF tree_invD(1) [OF inv]]
  let ?W = "without n V"
  have no: "par V c \<noteq> Some n" for c using L(1) [of c n] e by simp
  have k: "set (kids ?W m) = (if m = n then {} else set (kids V m) - {n})" for m
    using L(1) [of n m] L(2) [of m] by (auto simp: without_sel)
  show ?thesis unfolding tree_inv_def
  proof (intro conjI allI impI ballI)
    show "links_inv ?W" unfolding links_inv_def
    proof (intro conjI allI impI)
      show "c \<in> set (kids ?W m) \<longleftrightarrow> par ?W c = Some m" for m c using k [of m] L(1) [of c m] no [of c] by (auto simp: without_sel(2))
      show "distinct (kids ?W m)" for m using L(2) [of m] by (simp add: without_sel)
      show "kids ?W m = []" "par ?W m = None" "vns ?W m = []" "\<not> gone ?W m" if "kind ?W m = None" for m
        using that L(3-6) [of m] by (auto simp: without_sel split: if_splits)
      show "finite {m. kind ?W m \<noteq> None}" by (rule finite_subset [OF _ L(10)]) (auto simp: without_sel split: if_splits)
      obtain rk :: "nid \<Rightarrow> nat" where "\<forall>c p. par V c = Some p \<longrightarrow> rk p < rk c" using T(1) unfolding links_inv_def by blast
      then show "\<exists>rk :: nid \<Rightarrow> nat. \<forall>c q. par ?W c = Some q \<longrightarrow> rk q < rk c" by (intro exI [of _ rk]) (simp add: without_sel)
    qed
    show "distinct (unos ?W)" using T(2) by (simp add: without_sel)
    fix m
    show "info ?W m" if "kind ?W m \<noteq> None" using T(3) [of m] that by (simp add: without_sel split: if_splits)
    show "dir_kind (kind ?W m) \<or> dot_kind (kind ?W m) \<and> kids ?W m = []" if "kind ?W m \<noteq> None"
      using T(4) [of m] that by (auto simp: without_sel split: if_splits)
    show "fno ?W m \<in> set (unos ?W)" if "dir_kind (kind ?W m) \<and> fno ?W m \<noteq> 0"
      using T(2) T(5) [of m] T(6) [of m n] that by (auto simp: without_sel dir_kind_def split: if_splits)
    show "m = i" if "dir_kind (kind ?W m) \<and> dir_kind (kind ?W i) \<and> fno ?W m = fno ?W i \<and> fno ?W i \<noteq> 0" for i
      using T(6) [of m i] that by (simp add: without_sel split: if_splits)
  next
    fix u assume u: "u \<in> set (unos ?W)"
    have uV: "u \<in> set (unos V)"
      using u set_remove1_subset [of "fno V n" "unos V"] by (auto simp: without_sel split: if_splits)
    show nz: "u \<noteq> 0" by (rule T(8) [OF uV])
    obtain i where i: "dir_kind (kind V i)" "fno V i = u" using T(7) [OF uV] by blast
    moreover have "i \<noteq> n"
    proof
      assume "i = n"
      then have "unos ?W = remove1 u (unos V)" using i nz by (simp add: without_sel)
      then show False using u T(2) by simp
    qed
    ultimately show "\<exists>i. dir_kind (kind ?W i) \<and> fno ?W i = u" by (intro exI [of _ i]) (simp add: without_sel)
  qed
qed

lemma destroy_leaf:
  assumes inv: "tree_inv (view s)" and n: "kind (view s) n \<noteq> None" "kids (view s) n = []"
  shows "\<exists>s'. sgfs_destroy n s = Some s' \<and> fs_locked s' = fs_locked s \<and> view s' = without n (view s)"
proof -
  let ?V = "view s"
  note T = tree_invD [OF inv] and L = linksD [OF tree_invD(1) [OF inv]]
  obtain nd where nd: "sg_nodes s n = Some nd" using n(1) live_view by blast
  note nv = node_view [OF nd]
  define s1 where "s1 = (case nd_parent nd of None \<Rightarrow> s | Some p \<Rightarrow> upd_node p (\<lambda>d. d\<lparr>nd_children := remove1 n (nd_children d)\<rparr>) s)"
  define V1 where "V1 = (case par ?V n of None \<Rightarrow> ?V | Some p \<Rightarrow> ?V\<lparr>kids := (kids ?V)(p := remove1 n (kids ?V p))\<rparr>)"
  have up: "(case nd_parent nd of None \<Rightarrow> Some s | Some p \<Rightarrow> do { pd \<leftarrow> sg_nodes s p; kassert (nd_fsinfo pd = nd_fsinfo nd);
        Some (upd_node p (\<lambda>d. d\<lparr>nd_children := remove1 n (nd_children d)\<rparr>) s) }) = Some s1 \<and> view s1 = V1"
  proof (cases "nd_parent nd")
    case (Some p)
    then have p: "par ?V n = Some p" using nv(2) by simp
    obtain pd where pd: "sg_nodes s p = Some pd" using L(8) [OF p] live_view by blast
    have "nd_fsinfo pd" "nd_fsinfo nd" using T(3) [of p] T(3) [of n] L(8) [OF p] n(1) node_view(9) [OF pd] nv(9) by simp_all
    then show ?thesis using Some p pd view_changes(2) [OF pd, of "\<lambda>d. remove1 n (nd_children d)"] node_view(3) [OF pd]
      by (simp add: s1_def V1_def)
  qed (use nv(2) in \<open>simp add: s1_def V1_def\<close>)
  have np: "nd_parent nd \<noteq> Some n" using L(9) [of n] nv(2) by simp
  then have n1: "sg_nodes s1 n = Some nd" using nd by (auto simp: s1_def upd_node_at split: option.splits)
  have r1: "unrs s1 = unrs s" "fs_locked s1 = fs_locked s" by (simp_all add: s1_def split: option.splits)
  define us where "us = (if dir_kind (kind ?V n) \<and> fno ?V n \<noteq> 0 then remove1 (fno ?V n) (unos ?V) else unos ?V)"
  have fr: "(if fileno nd \<noteq> 0 then sgfs_fileno_free n s1 else Some s1) = Some (s1\<lparr>unrs := us\<rparr>)"
  proof (cases "dir_kind (kind ?V n)")
    case True
    then have "fileno nd \<noteq> 0 \<Longrightarrow> fileno nd \<in> set (unrs s)" using T(5) [OF True] nv(6) by simp
    then show ?thesis using True n1 r1(1) nv(1,6) by (auto simp: sgfs_fileno_free_def us_def dir_kind_def)
  next
    case False
    then have "dot_kind (kind ?V n)" using T(4) [OF n(1)] by blast
    then show ?thesis using False n1 r1(1) nv(1) by (auto simp: sgfs_fileno_free_def us_def dot_kind_def)
  qed
  have info: "nd_fsinfo nd" "nd_children nd = []" using T(3) [OF n(1)] nv(3,9) n(2) by simp_all
  have "sgfs_destroy n s = Some (sgnode_free n (s1\<lparr>unrs := us\<rparr>))"
    using nd info up fr by (subst sgfs_destroy.simps) simp
  moreover have "view (sgnode_free n (s1\<lparr>unrs := us\<rparr>)) = without n ?V"
    using up by (simp add: view_free view_rest without_def V1_def us_def)
  ultimately show ?thesis using r1(2) by simp
qed

section \<open>A node with all below it\<close>

text \<open>What is left has not changed, the node itself is gone.\<close>

definition cut_off :: "nid \<Rightarrow> fsview \<Rightarrow> fsview \<Rightarrow> bool" where
  "cut_off n V W \<longleftrightarrow> tree_inv W \<and> kind W n = None \<and> vroot W = vroot V \<and>
     (\<forall>m. kind W m \<noteq> None \<longrightarrow> kind W m = kind V m \<and> par W m = par V m)"

lemma cut_without: "tree_inv V \<Longrightarrow> kids V n = [] \<Longrightarrow> cut_off n V (without n V)"
  by (simp add: cut_off_def tree_without without_sel)

lemma cut_trans: "cut_off c V W \<Longrightarrow> cut_off n W X \<Longrightarrow> cut_off n V X"
  by (simp add: cut_off_def)

lemma cut_card:
  assumes "cut_off c V W" "kind V c \<noteq> None" "finite {m. kind V m \<noteq> None}"
  shows "card {m. kind W m \<noteq> None} < card {m. kind V m \<noteq> None}"
proof -
  have "{m. kind W m \<noteq> None} \<subset> {m. kind V m \<noteq> None}"
  proof
    show "{m. kind W m \<noteq> None} \<subseteq> {m. kind V m \<noteq> None}" using assms(1) by (force simp: cut_off_def)
    show "{m. kind W m \<noteq> None} \<noteq> {m. kind V m \<noteq> None}" using assms(1,2) unfolding cut_off_def by blast
  qed
  then show ?thesis using assms(3) by (rule psubset_card_mono [rotated])
qed

lemma destroy_bounded:
  fixes rk :: "nid \<Rightarrow> nat"
  assumes "tree_inv (view s)" "kind (view s) n \<noteq> None" "\<And>c p. par (view s) c = Some p \<Longrightarrow> rk p < rk c"
    and "\<And>m. kind (view s) m \<noteq> None \<Longrightarrow> rk m \<le> B"
  shows "\<exists>s'. sgfs_destroy n s = Some s' \<and> fs_locked s' = fs_locked s \<and> cut_off n (view s) (view s') \<and>
    (\<forall>m. kind (view s) m \<noteq> None \<and> rk m \<le> rk n \<and> m \<noteq> n \<longrightarrow> kind (view s') m \<noteq> None)"
  using assms
proof (induction "card {m. kind (view s) m \<noteq> None} * Suc B + (B - rk n)" arbitrary: s n rule: less_induct)
  case less
  let ?V = "view s"
  note T = tree_invD [OF less.prems(1)] and L = linksD [OF tree_invD(1) [OF less.prems(1)]]
  show ?case
  proof (cases "kids ?V n")
    case Nil
    then show ?thesis using destroy_leaf [OF less.prems(1,2) Nil] cut_without [OF less.prems(1) Nil] by (auto simp: without_sel)
  next
    case (Cons c cs)
    then have pc: "par ?V c = Some n" using L(1) [of c n] by simp
    have kc: "kind ?V c \<noteq> None" by (rule L(7) [OF pc])
    have "rk n < rk c" "rk c \<le> B" using less.prems(3) [OF pc] less.prems(4) [OF kc] by simp_all
    then have lt: "card {m. kind ?V m \<noteq> None} * Suc B + (B - rk c) < card {m. kind ?V m \<noteq> None} * Suc B + (B - rk n)" by simp
    obtain s1 where s1: "sgfs_destroy c s = Some s1" "fs_locked s1 = fs_locked s" "cut_off c ?V (view s1)"
      "\<And>m. kind ?V m \<noteq> None \<Longrightarrow> rk m \<le> rk c \<Longrightarrow> m \<noteq> c \<Longrightarrow> kind (view s1) m \<noteq> None"
      using less.hyps [OF lt less.prems(1) kc less.prems(3) less.prems(4)] by blast
    note C = s1(3) [unfolded cut_off_def]
    have nc: "rk n < rk c" using less.prems(3) [OF pc] .
    have alive: "kind (view s1) n \<noteq> None" using s1(4) [of n] less.prems(2) nc by auto
    show ?thesis
    proof -
      have "card {m. kind (view s1) m \<noteq> None} < card {m. kind ?V m \<noteq> None}" by (rule cut_card [OF s1(3) kc L(10)])
      then have "card {m. kind (view s1) m \<noteq> None} * Suc B + (B - rk n) < card {m. kind ?V m \<noteq> None} * Suc B + (B - rk n)"
        by (intro add_strict_right_mono mult_less_mono1) simp_all
      moreover have "rk p < rk d" if "par (view s1) d = Some p" for d p
        using C that less.prems(3) [of d p] linksD(7) [OF tree_invD(1) [of "view s1"], of d p] by auto
      moreover have "rk m \<le> B" if "kind (view s1) m \<noteq> None" for m using C that less.prems(4) [of m] by auto
      ultimately obtain s2 where s2: "sgfs_destroy n s1 = Some s2" "fs_locked s2 = fs_locked s1" "cut_off n (view s1) (view s2)"
        "\<And>m. kind (view s1) m \<noteq> None \<Longrightarrow> rk m \<le> rk n \<Longrightarrow> m \<noteq> n \<Longrightarrow> kind (view s2) m \<noteq> None"
        using less.hyps [of s1 n] C alive by blast
      obtain nd where nd: "sg_nodes s n = Some nd" using less.prems(2) live_view by blast
      have "dir_kind (kind ?V n)" using T(4) [OF less.prems(2)] Cons by auto
      then have "is_dir nd" "nd_fsinfo nd" "nd_children nd = c # cs"
        using node_view(1,3,9) [OF nd] Cons T(3) [OF less.prems(2)] by (auto simp: is_dir_def dir_kind_def)
      then have "sgfs_destroy n s = Some s2" using nd s1(1) s2(1) by (subst sgfs_destroy.simps) simp
      moreover have "kind (view s2) m \<noteq> None" if "kind ?V m \<noteq> None" "rk m \<le> rk n" "m \<noteq> n" for m
      proof -
        have "m \<noteq> c" using that(2) nc by auto
        then show ?thesis using s1(4) [of m] s2(4) [of m] that nc by simp
      qed
      ultimately show ?thesis using s1(2) s2(2) cut_trans [OF s1(3) s2(3)] by auto
    qed
  qed
qed

lemma destroy_ok:
  assumes "tree_inv (view s)" "kind (view s) n \<noteq> None"
  shows "\<exists>s'. sgfs_destroy n s = Some s' \<and> fs_locked s' = fs_locked s \<and> cut_off n (view s) (view s')"
proof -
  note L = linksD [OF tree_invD(1) [OF assms(1)]]
  obtain rk :: "nid \<Rightarrow> nat" where rk: "\<And>c p. par (view s) c = Some p \<Longrightarrow> rk p < rk c"
    using tree_invD(1) [OF assms(1)] unfolding links_inv_def by blast
  have "rk m \<le> Max (rk ` {m. kind (view s) m \<noteq> None})" if "kind (view s) m \<noteq> None" for m
    using L(10) that by (intro Max_ge) auto
  from destroy_bounded [where rk = rk, OF assms rk this] show ?thesis by blast
qed

text \<open>Every node hangs below one without a parent.\<close>

lemma chain_up:
  fixes rk :: "nid \<Rightarrow> nat"
  assumes "links_inv V" "\<And>c p. par V c = Some p \<Longrightarrow> rk p < rk c" "kind V m \<noteq> None"
  shows "\<exists>t. kind V t \<noteq> None \<and> par V t = None"
  using assms(3)
proof (induction "rk m" arbitrary: m rule: less_induct)
  case less
  then show ?case using assms(2) [of m] linksD(8) [OF assms(1), of m] by (cases "par V m") blast+
qed

lemma uninit_ok:
  assumes ok: "fs_ok s" and g: "\<And>n. \<not> gone (view s) n"
  shows "\<exists>s'. sgfs_uninit True s = Some (None, s') \<and> (\<forall>n. sg_nodes s' n = None) \<and> unrs s' = [] \<and> fs_root s' = None"
proof -
  let ?V = "view s"
  have inv: "fs_inv (\<lambda>_. 0) ?V" and l: "\<not> fs_locked s" using ok by (simp_all add: fs_ok_def)
  note SD = shapeD [OF fs_invD(2) [OF inv]]
  obtain r where r: "vroot ?V = Some r" using SD(8) by blast
  have rk: "kind ?V r \<noteq> None" using SD(5) [of r] r by simp
  obtain s1 where s1: "sgfs_destroy r s = Some s1" "fs_locked s1 = fs_locked s" "cut_off r ?V (view s1)"
    using destroy_ok [OF fs_tree [OF inv] rk] by blast
  note C = s1(3) [unfolded cut_off_def]
  have ti: "tree_inv (view s1)" using C by blast
  have none: "kind (view s1) m = None" for m
  proof (rule ccontr)
    assume m: "kind (view s1) m \<noteq> None"
    obtain k :: "nid \<Rightarrow> nat" where "\<And>c p. par (view s1) c = Some p \<Longrightarrow> k p < k c"
      using tree_invD(1) [OF ti] unfolding links_inv_def by blast
    from chain_up [where rk = k, OF tree_invD(1) [OF ti] this m] obtain t where t: "kind (view s1) t \<noteq> None" "par (view s1) t = None" by blast
    then have t': "kind ?V t = kind (view s1) t" "par ?V t = None" using C by auto
    have "dir_kind (kind ?V t)" using SD(2,7) [of t] t t' by auto
    then have "vroot ?V = Some t" using SD(4) [of t] SD(5) [of t] t'(2) g [of t] by (auto simp: dir_kind_def)
    then show False using r C t(1) by auto
  qed
  have "unos (view s1) = []" using tree_invD(7) [OF ti] none by (cases "unos (view s1)") (auto simp: dir_kind_def)
  then have "sgfs_uninit True s = Some (None, s1\<lparr>fs_root := None\<rparr>)"
    using r s1(1,2) l by (simp add: sgfs_uninit_def)
  moreover have "sg_nodes s1 n = None" for n using none [of n] live_view [of s1 n] by auto
  ultimately show ?thesis using \<open>unos (view s1) = []\<close> by simp
qed

end
