(* ===== verification/Sgfs_Example.thy ===== *)
theory Sgfs_Example
  imports Sgfs_Teardown
begin

text \<open>
  A concrete file system, on which the properties with hypotheses are shown to apply: it is set up, its
  root gets a vnode, a directory \<open>a\<close> is made in it and removed again.
\<close>

definition env0 :: sgenv where
  "env0 = \<lparr>alloc_unr = (\<lambda>us. Suc (sum_list us)), vaccess = (\<lambda>_ _ _ _ _ _. None), groupmember = (\<lambda>_ _. True), priv_check = None,
     sizeof_dirent = 264, PAGE_SIZE = 4096\<rparr>"

lemma unr0: "unr_laws env0"
proof -
  have "Suc (sum_list us) \<notin> set us" for us using member_le_sum_list [of "Suc (sum_list us)" us] by auto
  then show ?thesis by (simp add: unr_laws_def env0_def)
qed

definition root_cred :: cred where
  "root_cred = \<lparr>cr_uid = 0, cr_gid = 0\<rparr>"

definition node_at :: "nid \<Rightarrow> node_alloc" where
  "node_at n = \<lparr>na_addr = n, na_time = \<lparr>tv_sec = int n, tv_nsec = 0\<rparr>\<rparr>"

definition vnode_at :: "vid \<Rightarrow> vn_alloc" where
  "vnode_at v = \<lparr>va_addr = v, va_getnew = None, va_insmntque = None, va_vget = None, va_blocked = Some\<rparr>"

definition name_cn :: "string \<Rightarrow> nameiop \<Rightarrow> componentname" where
  "name_cn name op = \<lparr>cn_name = name, cn_nameiop = op, cn_islast = True, cn_isdotdot = (name = ''..''), cn_lockparent = True,
     cn_hasbuf = True, cn_cred = root_cred\<rparr>"

definition fs0 :: sgfs_info where
  "fs0 = fs_start root_cred 1 (node_at 0) (node_at 1) (node_at 2)"

definition fs1 :: sgfs_info where
  "fs1 = snd (snd (the (sgfs_root 7 (vnode_at 10) fs0)))"

definition fs2 :: sgfs_info where
  "fs2 = snd (snd (the (sgfs_mkdir 10 (name_cn ''a'' CREATE) 493 (node_at 3, node_at 4, node_at 5) (vnode_at 11) fs1)))"

definition fs3 :: sgfs_info where
  "fs3 = snd (the (sgfs_rmdir 11 fs2))"

lemma cn0: "cn_ok (name_cn ''a'' op)" "cn_ok (name_cn ''..'' op)"
  by (simp_all add: cn_ok_def name_cn_def)

lemma init0: "sgfs_init env0 root_cred (node_at 0, node_at 1, node_at 2) = Some fs0"
  using init_run [of "node_at 0" "node_at 1" "node_at 2" env0 root_cred] by (simp add: node_at_def fs0_def env0_def)

lemma fs0_ok: "fs_ok fs0"
  unfolding fs0_def by (rule start_ok) (simp_all add: node_at_def)

lemma result3: "map_option (\<lambda>(e, w, s). (e, w)) r = Some (e, w) \<Longrightarrow> r = Some (e, w, snd (snd (the r)))"
  by (cases r) auto

lemma fs_run1: "sgfs_root 7 (vnode_at 10) fs0 = Some (None, Some 10, fs1)"
  unfolding fs1_def by (rule result3) code_simp

lemma fs_run2: "sgfs_mkdir 10 (name_cn ''a'' CREATE) 493 (node_at 3, node_at 4, node_at 5) (vnode_at 11) fs1 = Some (None, Some 11, fs2)"
  unfolding fs2_def by (rule result3) code_simp

lemma fs_run3: "sgfs_rmdir 11 fs2 = Some (None, fs3)"
proof -
  have "map_option fst (sgfs_rmdir 11 fs2) = Some None" by code_simp
  then show ?thesis unfolding fs3_def by (cases "sgfs_rmdir 11 fs2") auto
qed

lemma vnodes1: "VTON 10 fs1 = Some 0" "sg_vnodes fs1 10 \<noteq> None" "sg_vnodes fs0 10 = None" "sg_vnodes fs1 11 = None" "fs_locked fs1 = False"
  by code_simp+

lemma fresh1: "fresh_nodes (node_at 3, node_at 4, node_at 5) fs1"
  by code_simp

lemma vnodes2: "VTON 11 fs2 = Some 3" "VTON 10 fs2 = Some 0" "sg_vnodes fs2 11 \<noteq> None" "sg_vnodes fs2 12 = None"
  by code_simp+

lemma vnodes3: "VTON 11 fs3 = Some 3" "sg_vnodes fs3 11 \<noteq> None"
  by code_simp+

lemma views: "entry (view fs1) 0 ''a'' = None" "entry (view fs2) 0 ''a'' = Some 3" "gone (view fs3) 3" "kids (view fs3) 3 = [5, 4]"
  "vns (view fs3) 3 = [11]" "kind (view fs2) 3 = Some sgfstype_dir" "gone (view fs2) 3 = False" "kids (view fs2) 3 = [5, 4]"
  "par (view fs2) 3 = Some 0" "gone (view fs2) 0 = False" "kids (view fs2) 0 = [3, 2, 1]" "gone (view fs1) 0 = False"
  by code_simp+

lemma mount2: "\<exists>wn. sg_vnodes fs2 10 = Some wn \<and> v_data wn = Some 0 \<and> v_mount wn = 7"
proof -
  have "map_option (\<lambda>wn. (v_data wn, v_mount wn)) (sg_vnodes fs2 10) = Some (Some 0, 7)" by code_simp
  then show ?thesis by (cases "sg_vnodes fs2 10") auto
qed

lemma undisturbed2: "undisturbed (vnode_at 12) fs2" "undisturbed (vnode_at 10) fs0" "undisturbed (vnode_at 11) fs1"
  by (simp_all add: undisturbed_def vnode_at_def vnodes1 vnodes2)

lemma fs_step1: "fs_step env0 fs0 fs1"
  by (rule step_root [OF undisturbed2(2) fs_run1])

lemma fs_step2: "fs_step env0 fs1 fs2"
  by (rule step_mkdir [OF vnodes1(1) cn0(1) _ _ _ fresh1 undisturbed2(3) fs_run2]) (simp_all add: name_cn_def SGFS_NAMELEN_def views)

lemma fs_step3: "fs_step env0 fs2 fs3"
  by (rule step_rmdir [OF vnodes2(3) fs_run3])

lemma fs1_ok: "fs_ok fs1" and fs2_ok: "fs_ok fs2" and fs3_ok: "fs_ok fs3"
  using step_keeps [OF fs_step1 fs0_ok unr0] step_keeps [OF fs_step2 _ unr0] step_keeps [OF fs_step3 _ unr0] by blast+

lemma undisturbed3: "undisturbed (vnode_at 12) fs3"
proof -
  have "sg_vnodes fs3 12 = None" by code_simp
  then show ?thesis by (simp add: undisturbed_def vnode_at_def)
qed

end
