(* ===== verification/Spec2Isabelle.thy ===== *)
theory Spec2Isabelle
  imports Rbtree_Each Splay_Run Rt_Queue Sched_Idle Example Sched_Prio Group_Tree Group_Hash Prio_List Hrtimer Vtime Clock Sgfs_Example
begin

text \<open>
  A verification development for \<open>sfq\<close>, a proportional share scheduler for the FreeBSD kernel.

  The program. Threads belong to scheduling groups, groups form a tree, and each group has on each
  processor an entity and a queue of its own. \<open>pss.c\<close> is the proportional share class: a queue keeps
  its entities in a red-black tree (\<open>tree.h\<close>) ordered by virtual time, picks the one that is furthest
  behind, charges the running one in inverse proportion to its weight, and walks the tree of groups when
  a thread is put in, taken out or picked. \<open>rt.c\<close> and \<open>idle.c\<close> are the two other classes. \<open>sched.c\<close>
  implements the scheduler interface of the kernel over the classes, through the function pointers of
  \<open>struct sched_class\<close>: switch, wakeup, priorities and lending, fork and exit, the tick, the load
  averages, and the system calls on groups. \<open>sched_time.c\<close> is its clock, \<open>hrtimer.c\<close> a timer
  with the real-time bandwidth of \<open>rt.c\<close> on it, \<open>cpupri.c\<close> the priorities of the processors, \<open>prio_list.c\<close>
  a list of threads by priority, \<open>group.c\<close> a hash of groups, and \<open>sgfs.c\<close> a file system with the
  groups as its directories.

  The build that is modelled: an LP64 kernel with one processor (\<open>!SMP\<close>), \<open>SFQ_GROUP_SCHED\<close> on and
  \<open>RT_GROUP_SCHED\<close> off. \<open>unsigned long\<close> and \<open>uint64_t\<close> are 64-bit words, tick counters and
  identifiers 32-bit words, and the arithmetic on them wraps; signed counters and priorities are
  integers. A pointer is an address in a store of records: \<open>ents\<close>, \<open>sfqs\<close>, \<open>threads\<close> and \<open>groups\<close> of
  the record \<open>sched\<close>, and the tree links of entities; NULL is None. Every function that
  can fail a \<open>KASSERT\<close> or \<open>MPASS\<close>, panic, follow NULL, leave an array, divide by zero or not end
  returns an option, and None is that failure, so a theorem that gives Some says none of it happens. Error
  numbers the source returns are values of \<open>errno\<close>. What the kernel provides (its run queues, the tick
  counter, zones, the functions on vnodes, permissions, file numbers) is an argument of the definitions,
  and what the proofs need of it is a named hypothesis: \<open>runq_laws\<close>, \<open>unr_laws\<close>, \<open>fresh_alloc\<close>, \<open>fresh_nodes\<close>
  and \<open>undisturbed\<close>. Locks are not modelled in the scheduler, where the lock of the one run queue
  is held throughout; the lock of the file system is.
\<close>

text \<open>
  Theories and source.

  \<^item> \<open>Prelude\<close>: word types, the wrap-around comparisons, lemmas on options and lists, \<open>errno\<close>, \<open>kassert\<close>.
  \<^item> \<open>Rbtree\<close> (\<open>tree.h\<close>): the macros step by step on a store of links, the loops as partial functions.
    \<open>Rbtree_Rep\<close> says which tree a store represents, with a focus and a path to it; \<open>Rbtree_Insert\<close>,
    \<open>Rbtree_Remove\<close>, \<open>Rbtree_Search\<close> and \<open>Rbtree_Each\<close> show that insertion, removal, the searches and the loops
    over the tree end and do to that tree what they should.
  \<^item> \<open>Splay\<close> (\<open>tree.h\<close>): the splay tree macros, which the scheduler does not use, on a store of their own. \<open>Splay_Run\<close> states the
    contract of a round of the loop as the locale \<open>splaying\<close>, interprets it on the loops of \<open>SPLAY\<close> and \<open>SPLAY_MINMAX\<close>, and
    shows each operation to act on the ordered list of the elements.
  \<^item> \<open>Timeline\<close> (\<open>__enqueue_entity\<close> to \<open>__pick_next_entity\<close>): the tree as an ordered list, stated as the
    locale \<open>timeline\<close>, which the queues use; the macros are its interpretation.
  \<^item> \<open>Weight\<close>, \<open>Sched_Time\<close>, \<open>Clock\<close>, \<open>Cpupri\<close>, \<open>Prio_List\<close>, \<open>Id_Index\<close>, \<open>Group_Hash\<close>, \<open>Hrtimer\<close>: the components
    that stand alone. \<open>Id_Index\<close> is the contract of an index by identifier, and the hash interprets it.
  \<^item> \<open>Sched_State\<close> (\<open>sched.h\<close>) is the state, \<open>Sched_Base\<close> the services that the classes call back.
  \<^item> \<open>Pss\<close> and \<open>Pss_Group\<close> (\<open>pss.c\<close>), \<open>Rt\<close> (\<open>rt.c\<close>, \<open>idle.c\<close>), \<open>Sched_Class\<close> (the class objects),
    \<open>Sched_Pct\<close>, \<open>Sched\<close> and \<open>Sched_Group\<close> (\<open>sched.c\<close>): the operations, function by function.
  \<^item> \<open>Pss_Core\<close>, \<open>Pss_Queue\<close>, \<open>Pss_Entity\<close>, \<open>Pss_Dequeue\<close>, \<open>Pss_Run\<close>: the invariant of queues, and that every
    operation on one entity of one queue ends and keeps it. \<open>Pss_Hier\<close> adds what ties the levels
    together, \<open>Pss_Thread\<close> treats the walks from a thread to the root, \<open>Pss_Frame\<close> what they leave alone.
    \<open>Pss_Pool\<close> states what the class promises to \<open>sched.c\<close> as the locale \<open>run_pool\<close>, a set of runnable
    threads, one of them perhaps on the processor, and interprets it on the operations of \<open>pss.c\<close>.
  \<^item> \<open>Rt_Queue\<close> (\<open>init_rt_rq\<close>) and \<open>Sched_Idle\<close> (\<open>sched_idletd\<close>, \<open>sched_relinquish\<close>): two parts that nothing else uses.
  \<^item> \<open>Rt_Run\<close>, \<open>Thread_Place\<close>, \<open>Sched_Run\<close>, \<open>Sched_Wake\<close>: the invariant over all classes, what each operation does to the states of
    threads and to the flag of the kernel's run queue, the choice, the switch and the exit, and the wakeup. \<open>Sched_Requeue\<close> treats what takes threads off their queues, changes them and puts them back, as the locale
    \<open>requeue\<close> over the change; \<open>Sched_Nice\<close> interprets it on the setting of weights for \<open>sched_nice\<close>, \<open>Sched_Move\<close> on the
    change of the queue for moves between groups. \<open>Sched_Fork\<close> treats the fork, and \<open>Sched_System\<close> the tick and
    the scheduler as a transition system.
  \<^item> \<open>Vtime\<close>, \<open>Load_Track\<close>, \<open>Sched_Prio\<close>, \<open>Group_Tree\<close>: virtual time and placement, load averages and usage,
    priorities, and the tree of groups under creation and destruction.
  \<^item> \<open>Sgfs\<close>, \<open>Sgfs_Ops\<close>, \<open>Sgfs_Dir\<close> (\<open>sgfs.c\<close>): nodes, vnodes, lock and file numbers, and the operations.
    \<open>Sgfs_View\<close> abstracts the store to total functions on addresses, \<open>Sgfs_Inv\<close> states the invariant on them,
    \<open>Sgfs_Prim\<close>, \<open>Sgfs_Tree\<close>, \<open>Sgfs_Refs\<close> and \<open>Sgfs_Make\<close> treat the changes the operations are made of,
    \<open>Sgfs_Run\<close>, \<open>Sgfs_Lookup\<close>, \<open>Sgfs_Rmdir\<close>, \<open>Sgfs_Number\<close> and \<open>Sgfs_Teardown\<close> the operations,
    \<open>Sgfs_System\<close> every sequence of them.
  \<^item> \<open>Example\<close>, \<open>Sgfs_Example\<close>: concrete states on which the properties are shown to apply.
\<close>

text \<open>
  The invariants, from the inside out. In \<open>queue_inv X\<close>, \<open>X q\<close> is the timeline of queue \<open>q\<close> as a list: its links
  form a red-black tree of exactly the entities flagged \<open>onsfq\<close>, with the leftmost cached, and with the
  running entity they make up the members \<open>mem X s q\<close>, which the load and the counters of the queue
  sum up. \<open>pss_inv X\<close> ties the levels together: the entity of a group is a member of its parent's queue
  while the group's own queue has members, weights are in range, and the tree of groups has a depth. \<open>pss_good\<close> adds
  the run queue's count of threads. \<open>sched_good K C\<close> holds over all classes, with \<open>C\<close> reading the
  threads on the kernel's run queue; \<open>sys_inv\<close> adds that the current thread is the one on the processor and in the state TDS_RUNNING,
  and that all others are lined up: a thread the scheduler holds is in the state TDS_RUNQ and on a timeline or on the kernel's run queue,
  and one it does not hold is neither TDS_RUNQ nor TDS_RUNNING. A step of the transition system that exits has its thread in TDS_INACTIVE, one that
  blocks in TDS_INHIBITED, as the kernel leaves them before it switches. \<open>levels_ready\<close> says when \<open>activate_thread\<close>, which the requeueing of the
  running thread calls, can enter its level into the table of \<open>cpupri.c\<close>; the properties say where it decides, and it does not hold of every
  priority a thread may run at, so it is no part of the invariant.
  \<open>fs_inv H\<close> is the invariant of the file system while an operation holds \<open>H n\<close> references on node \<open>n\<close>,
  and \<open>fs_ok\<close> the one between operations: nothing held, the lock free. \<open>group_tree\<close> is that of the groups.

  Bounds. The counts of entities are \<open>int\<close>s and stay below \<open>2 ^ 31\<close> by the hypothesis \<open>int_counts\<close>;
  the weight of a member lies between 1 and \<open>2 ^ 18\<close>, the range of nice values and clamped shares, so no sum of weights wraps. Virtual times
  are compared by their signed difference, so the order of a timeline is stated for keys within half of the
  64-bit range from some base (\<open>in_window\<close>). The charge of the running entity is exact to one unit
  for periods below \<open>2 ^ 22\<close> nanoseconds, the range in which the cached inverse does not overflow.
  A load average counts below \<open>2 ^ 59\<close>, and a constant load is reached after at most as many ticks as the loads are apart. The handler of the
  bandwidth period is shown to return once three readings of the clock in a row fall within one period. \<open>unr_laws\<close> takes the file numbers of \<open>alloc_unr\<close> not to run out:
  its answer -1, with \<open>INT_MAX\<close> nodes alive, is not modelled.
  There is no fuel: loops are structural recursions or partial functions, with proofs that they end on sane states
  by the height of the tree of groups, the red-black tree, the number of live nodes, or the time to catch up.

  Not modelled. The \<open>SMP\<close> and \<open>RT_GROUP_SCHED\<close> parts that this build leaves out; \<open>mi_switch\<close> and \<open>cpu_idle\<close>, which
  \<open>sched_idletd\<close> and \<open>sched_relinquish\<close> take as arguments; the endless loop of \<open>sched_idletd\<close>, of which one round
  is a definition; \<open>sched_affinity\<close>, which is empty, and the getters of sizes and names;
  \<open>halflife.c\<close>, a program that prints constants in floating point; sysctl and module declarations; tracing. In the
  file system, whose \<open>unloadable\<close> is 0 in the source while the model has both branches of the test of it, vnode locks and use counts, the name cache, and \<open>sgfs_open\<close>, \<open>sgfs_close\<close> and \<open>sgfs_statfs\<close>,
  which return 0. The \<open>VNOVAL\<close> of attributes is one integer for all their types.

  The properties below are numbered in the order of their importance.
\<close>

section \<open>The scheduler as a whole\<close>

text \<open>C1: from a sane start, whatever threads wake, give way, block, fork or exit, whatever
  nice values change, whatever processes move to other groups, and however the clock ticks, every state that is
  reached is sane again: the timelines, accounts, hierarchy and run queue agree, the current thread is the one
  the queues have on the processor and is in the state TDS_RUNNING, every other thread the scheduler holds is
  in the state TDS_RUNQ and on a timeline or on the run queue of the kernel, and no thread it does not hold
  is in either of these states.\<close>

theorem reachable_states_sane:
  assumes "sys_inv K C s" "runq_laws K C" "0 < hz (clks K)" "sched_reach K S s s'"
  shows "sys_inv K C s'"
  by (rule reach_sys [OF assms(4,1,2,3)])

theorem reachable_states_sane_witness: "sched_reach K0 S0 s0 s3 \<and> sys_inv K0 set s3"
  using reachable_states_sane [OF sys0 runq0 clock0(1) reach3] reach3 by blast

text \<open>C2: in every reachable state, which calls fail an assertion, follow NULL, leave an array or do not
  end. A thread that is not queued can wake, the running thread can give way, block, exit and fork, and the
  clock can tick. The change of the nice value of a process fails exactly when it has the running thread, of
  the proportional share class, and the level of that thread's priority is not in the table of \<open>cpupri.c\<close>, which
  \<open>convert_pri\<close> does not prevent; the move of a process to a group, exactly when it has the running thread, which
  is not yet in the group, and the same holds. The conditions on threads, groups and counts of entities
  are those of the steps.\<close>

theorem reachable_states_not_stuck:
  assumes "sys_inv K C s" "runq_laws K C" "0 < hz (clks K)" "sched_reach K S s s'"
  shows "(can_start t s' \<and> td_class (threads s' t) \<noteq> idle_class \<longrightarrow> sched_wakeup K t s' \<noteq> None) \<and>
    sched_switch K (sched_choose K) (curthread s') flags s' \<noteq> None \<and>
    (int_counts s' \<and> curthread s' \<noteq> idlethread K \<longrightarrow>
      sched_switch K (sched_choose K) (curthread s') flags (set_td_state TDS_INHIBITED (curthread s') s') \<noteq> None \<and>
      sched_throw K (sched_choose K) (Some (curthread s')) (set_td_state TDS_INACTIVE (curthread s') s') \<noteq> None) \<and>
    (in_group g (curthread s') s' \<and> se_sfq (ents s' (TD_SE (curthread s'))) \<noteq> None \<and> unused K child s' \<longrightarrow>
      sched_fork K (curthread s') child s' \<noteq> None) \<and>
    (length (cpu_load (rq s')) = 5 \<longrightarrow> sched_tick K S tk s' \<noteq> None) \<and>
    (distinct ts \<and> (\<forall>t\<in>set ts. se_sfq (ents s' (TD_SE t)) \<noteq> None) \<and> 0 \<le> nice - PRIO_MIN K \<and> nice - PRIO_MIN K \<le> 40 \<and>
      queue_room s' \<longrightarrow>
      (sched_nice K old ts nice s' \<noteq> None \<longleftrightarrow>
        (curthread s' \<in> set ts \<and> td_class (threads s' (curthread s')) = pss_class \<longrightarrow> levels_ready K s'))) \<and>
    (distinct ts \<and> joinable g s' \<and> queue_room s' \<and>
      (\<forall>t\<in>set ts. td_class (threads s' t) = pss_class \<and> se_sfq (ents s' (TD_SE t)) \<noteq> None \<and> (\<exists>h. in_group h t s')) \<longrightarrow>
      (fold_opt (move_thread K g) ts s' \<noteq> None \<longleftrightarrow>
        (curthread s' \<in> set ts \<and> td_group (threads s' (curthread s')) \<noteq> Some g \<longrightarrow> levels_ready K s')))"
proof (intro conjI impI)
  have inv: "sys_inv K C s'" by (rule reach_sys [OF assms(4,1,2,3)])
  show "sched_wakeup K t s' \<noteq> None" if "can_start t s' \<and> td_class (threads s' t) \<noteq> idle_class"
    using wakeup_sys [OF inv assms(2), of t] that by auto
  show "sched_switch K (sched_choose K) (curthread s') flags s' \<noteq> None" using yield_sys [OF inv assms(2,3), of flags] by auto
  show "sched_switch K (sched_choose K) (curthread s') flags (set_td_state TDS_INHIBITED (curthread s') s') \<noteq> None"
    "sched_throw K (sched_choose K) (Some (curthread s')) (set_td_state TDS_INACTIVE (curthread s') s') \<noteq> None"
    if "int_counts s' \<and> curthread s' \<noteq> idlethread K"
    using block_sys [OF inv assms(2,3), of flags] exit_sys [OF inv assms(2)] that by auto
  show "sched_fork K (curthread s') child s' \<noteq> None"
    if "in_group g (curthread s') s' \<and> se_sfq (ents s' (TD_SE (curthread s'))) \<noteq> None \<and> unused K child s'"
    using fork_sys [OF inv assms(3), of g child] that by auto
  show "sched_tick K S tk s' \<noteq> None" if "length (cpu_load (rq s')) = 5" using tick_sys [OF inv that, of S tk] by auto
  show "sched_nice K old ts nice s' \<noteq> None \<longleftrightarrow>
        (curthread s' \<in> set ts \<and> td_class (threads s' (curthread s')) = pss_class \<longrightarrow> levels_ready K s')"
    if "distinct ts \<and> (\<forall>t\<in>set ts. se_sfq (ents s' (TD_SE t)) \<noteq> None) \<and> 0 \<le> nice - PRIO_MIN K \<and> nice - PRIO_MIN K \<le> 40 \<and>
      queue_room s'"
    using nice_sys(1) [OF inv assms(2), of ts nice old] that by blast
  show "fold_opt (move_thread K g) ts s' \<noteq> None \<longleftrightarrow>
        (curthread s' \<in> set ts \<and> td_group (threads s' (curthread s')) \<noteq> Some g \<longrightarrow> levels_ready K s')"
    if "distinct ts \<and> joinable g s' \<and> queue_room s' \<and>
      (\<forall>t\<in>set ts. td_class (threads s' t) = pss_class \<and> se_sfq (ents s' (TD_SE t)) \<noteq> None \<and> (\<exists>h. in_group h t s'))"
    using move_sys(1) [OF inv assms(2), of ts g] that by blast
qed

theorem reachable_states_not_stuck_witness:
  "can_start 5 s3 \<and> sched_wakeup K0 5 s3 \<noteq> None \<and> sched_switch K0 (sched_choose K0) 0 0 s3 \<noteq> None \<and>
   sched_switch K0 (sched_choose K0) 0 0 (set_td_state TDS_INHIBITED 0 s3) \<noteq> None \<and>
   sched_throw K0 (sched_choose K0) (Some 0) (set_td_state TDS_INACTIVE 0 s3) \<noteq> None \<and>
   sched_fork K0 0 5 s3 \<noteq> None \<and> sched_nice K0 0 [0] 5 s3 \<noteq> None \<and>
   fold_opt (move_thread K0 (ZONE_GROUP 0)) [0] s3 \<noteq> None \<and> sched_nice K0 0 [0] 5 s5 = None"
proof -
  have n: "0 \<le> 5 - PRIO_MIN K0" "5 - PRIO_MIN K0 \<le> 40" by (simp_all add: K0_def)
  have f: "se_sfq (ents s3 (TD_SE 0)) \<noteq> None" "td_class (threads s3 5) \<noteq> idle_class" "(0 :: tid) \<noteq> idlethread K0"
    using places3(1) facts3(2) by simp_all
  note r3 = reachable_states_not_stuck [OF sys0 runq0 clock0(1) reach3, unfolded sys3(3)]
    and r5 = reachable_states_not_stuck [OF sys5(1) runq0 clock0(1) sched_reach.Start, unfolded sys5(4)]
  have "sched_wakeup K0 5 s3 \<noteq> None" "sched_switch K0 (sched_choose K0) 0 0 s3 \<noteq> None"
    "sched_switch K0 (sched_choose K0) 0 0 (set_td_state TDS_INHIBITED 0 s3) \<noteq> None"
    "sched_throw K0 (sched_choose K0) (Some 0) (set_td_state TDS_INACTIVE 0 s3) \<noteq> None"
    using r3 [of 5 0] facts3(1) few3 f by blast+
  moreover have "sched_fork K0 0 5 s3 \<noteq> None" using r3 [where g = ROOT_GROUP and child = 5] ready3(6,8) f(1) by blast
  moreover have "sched_nice K0 0 [0] 5 s3 \<noteq> None"
    using r3 [where ts = "[0]" and nice = 5 and old = 0] ready3(1,2) f(1) n by auto
  moreover have "fold_opt (move_thread K0 (ZONE_GROUP 0)) [0] s3 \<noteq> None"
  proof -
    have "distinct [0 :: tid] \<and> joinable (ZONE_GROUP 0) s3 \<and> queue_room s3 \<and>
      (\<forall>t\<in>set [0]. td_class (threads s3 t) = pss_class \<and> se_sfq (ents s3 (TD_SE t)) \<noteq> None \<and> (\<exists>h. in_group h t s3))"
      using ready3(1,5,6) f(1) threads3(5) by auto
    then show ?thesis using r3 [where ts = "[0]" and g = "ZONE_GROUP 0"] ready3(2) by blast
  qed
  moreover have "sched_nice K0 0 [0] 5 s5 = None"
    using r5 [where ts = "[0]" and nice = 5 and old = 0] sys5(2,3,5,6) n by auto
  ultimately show ?thesis using facts3(1) by blast
qed

text \<open>C3: a running thread that gives way stays with the scheduler, back on a timeline or on the kernel's run
  queue and in the state TDS_RUNQ unless it is chosen again, and so does every other thread. The next thread is the
  one the order of the classes gives once the thread is back, it is dispatched, and it is the idle thread only when
  the scheduler holds no thread of any class.\<close>

theorem switch_keeps_running_thread:
  assumes "0 < hz (clks K)" "sched_good K C s" "runq_laws K C" "dispatched K t s" "lined_up {t} s"
  shows "\<exists>u s' s1 s2. sched_switch K (sched_choose K) t flags s = Some (u, s') \<and> sched_good K C s' \<and> dispatched K u s' \<and>
    lined_up {u} s' \<and> runnable s' = runnable s \<and> joined_tds s' = joined_tds s \<and>
    curthread s' = (if u = t then curthread s else u) \<and> (u = idlethread K \<longleftrightarrow> joined_tds s = {}) \<and>
    switch_prepare K t s = Some s1 \<and> put_prev_thread K t flags s1 = Some s2 \<and>
    (case runq_choose K (realtime (rq s2)) of
       Some r \<Rightarrow> u = r
     | None \<Rightarrow> if runnable s2 = {} then u = idlethread K else u \<in> runnable s2)"
  using sched_switch_running [OF assms(1-4), of flags] assms(5) unfolding class_order_def by blast

theorem switch_keeps_running_thread_witness:
  "\<exists>u s'. sched_switch K0 (sched_choose K0) 0 0 s3 = Some (u, s') \<and> sched_good K0 set s' \<and> dispatched K0 u s' \<and>
    lined_up {u} s' \<and> runnable s' = {0} \<and> joined_tds s' = {0} \<and> curthread s' = u \<and> u \<noteq> 2"
proof -
  have "lined_up {0} s3" using sys_invD(4) [OF sys3(2)] sys3(3) by simp
  from switch_keeps_running_thread [OF clock0(1) good3(1) runq0 good3(3) this, of 0] obtain u s' where
    "sched_switch K0 (sched_choose K0) 0 0 s3 = Some (u, s')" "sched_good K0 set s'" "dispatched K0 u s'" "lined_up {u} s'"
    "runnable s' = runnable s3" "joined_tds s' = joined_tds s3" "curthread s' = (if u = 0 then curthread s3 else u)"
    "u = idlethread K0 \<longleftrightarrow> joined_tds s3 = {}" by blast
  then show ?thesis using sys3(3,4) ready3(9) clock0(3) by (intro exI [of _ u] exI [of _ s']) (auto split: if_splits)
qed

text \<open>C4: a thread that blocks leaves the runnable threads, and another thread is dispatched, which is
  not the idle thread while some thread of the proportional share class can run.\<close>

theorem switch_removes_sleeping_thread:
  assumes "0 < hz (clks K)" "sched_good K C s" "runq_laws K C" "int_counts s"
    and "\<not> TD_IS_RUNNING s t" "on_processor K t s" "t \<noteq> idlethread K"
  shows "\<exists>u s'. sched_switch K (sched_choose K) t flags s = Some (u, s') \<and> sched_good K C s' \<and> dispatched K u s' \<and>
    runnable s' = runnable s - {t} \<and> u \<noteq> t \<and> curthread s' = u \<and> (runnable s' \<noteq> {} \<longrightarrow> u \<noteq> idlethread K)"
  using sched_switch_sleeping [OF assms, of flags] by blast

theorem switch_removes_sleeping_thread_witness:
  "\<exists>u s'. sched_switch K0 (sched_choose K0) 0 0 (set_td_state TDS_INHIBITED 0 s3) = Some (u, s') \<and> runnable s' = {} \<and> u \<noteq> 0"
proof -
  let ?s = "set_td_state TDS_INHIBITED 0 s3"
  have q: "quiet s3 ?s" by simp
  note Q = quiet_good [OF q]
  have "sched_good K0 set ?s" "int_counts ?s" "on_processor K0 0 ?s" "\<not> TD_IS_RUNNING ?s 0" "runnable ?s = {0}"
    using good3 few3 Q quiet_on_processor [OF q] sys3(4)
    by (simp_all add: dispatched_def) (simp add: TD_IS_RUNNING_def set_td_state_def)
  with switch_removes_sleeping_thread [OF clock0(1) _ runq0, where s = ?s and t = 0 and flags = 0] show ?thesis by auto
qed

text \<open>C5: the order of the classes. The first thread of the kernel's run queue is chosen, without one
  a thread of the proportional share class, and the idle thread when that has none.\<close>

theorem choose_follows_class_order:
  assumes "sched_good K C s" "runq_laws K C" "idle_queues s"
  shows "\<exists>t s'. sched_choose K s = Some (t, s') \<and> sched_good K C s' \<and> dispatched K t s' \<and> runnable s' = runnable s \<and>
    (case runq_choose K (realtime (rq s)) of
       Some r \<Rightarrow> t = r
     | None \<Rightarrow> if runnable s = {} then t = idlethread K else t \<in> runnable s)"
  using sched_choose_ok [OF assms] unfolding class_order_def by blast

theorem choose_follows_class_order_witness:
  "\<exists>t s'. sched_choose K0 s2 = Some (t, s') \<and> sched_good K0 set s' \<and> dispatched K0 t s' \<and> runnable s' = {0, 5} \<and>
    (case runq_choose K0 (realtime (rq s2)) of
       Some r \<Rightarrow> t = r
     | None \<Rightarrow> if runnable s2 = {} then t = idlethread K0 else t \<in> runnable s2)"
proof -
  have "sched_good K0 set s2" using sys2(1) by (simp add: sys_inv_def)
  from choose_follows_class_order [OF this runq0 sys2(4)] show ?thesis by (simp only: sys2(3))
qed

text \<open>C6: waking a thread adds exactly that thread to those the scheduler holds, in the state TDS_RUNQ: to the
  runnable ones if it is of the proportional share class, to the kernel's run queue if it is of the real-time class.
  The current thread keeps the processor, and all other threads their states and places.\<close>

theorem wakeup_adds_thread:
  assumes "sys_inv K C s" "runq_laws K C" "can_start t s" "td_class (threads s t) \<noteq> idle_class"
  shows "\<exists>s'. sched_wakeup K t s = Some s' \<and> sys_inv K C s' \<and> joined_tds s' = insert t (joined_tds s) \<and>
    runnable s' = (if td_class (threads s t) = pss_class then insert t (runnable s) else runnable s) \<and>
    curthread s' = curthread s \<and> td_state (threads s' t) = TDS_RUNQ \<and>
    (td_class (threads s t) = realtime_class \<longrightarrow> t \<in> C (realtime (rq s'))) \<and>
    (\<forall>x. x \<noteq> t \<longrightarrow> td_state (threads s' x) = td_state (threads s x) \<and>
      onrunq (ents s' (TD_SE x)) = onrunq (ents s (TD_SE x)))"
proof -
  obtain s' where "sched_wakeup K t s = Some s'" "sys_inv K C s'" "joined_tds s' = insert t (joined_tds s)"
    "runnable s' = (if td_class (threads s t) = pss_class then insert t (runnable s) else runnable s)" "curthread s' = curthread s"
    "td_state (threads s' t) = TDS_RUNQ" "td_class (threads s t) = realtime_class \<longrightarrow> t \<in> C (realtime (rq s'))"
    and pl: "\<forall>x. x \<noteq> t \<longrightarrow> place x s' = place x s" using wakeup_sys [OF assms] by blast
  moreover have "\<forall>x. x \<noteq> t \<longrightarrow> td_state (threads s' x) = td_state (threads s x) \<and>
      onrunq (ents s' (TD_SE x)) = onrunq (ents s (TD_SE x))" using pl by (simp add: place_def)
  ultimately show ?thesis by blast
qed

theorem wakeup_adds_thread_witness:
  "\<exists>s' s''. sched_wakeup K0 5 s3 = Some s' \<and> sys_inv K0 set s' \<and> runnable s' = {0, 5} \<and> curthread s' = 0 \<and>
    td_state (threads s' 5) = TDS_RUNQ \<and> sched_wakeup K0 3 s3 = Some s'' \<and> 3 \<in> set (realtime (rq s''))"
proof -
  have c: "td_class (threads s3 5) \<noteq> idle_class" "td_class (threads s3 3) \<noteq> idle_class" "td_class (threads s3 3) = realtime_class"
    "can_start 3 s3" using facts3(2) rt3 by simp_all
  show ?thesis
    using wakeup_adds_thread [OF sys3(2) runq0 facts3(1) c(1)] wakeup_adds_thread [OF sys3(2) runq0 c(4,2)] c(3) facts3(2) sys3(3,4)
    by (auto simp: insert_commute)
qed

text \<open>C7: changing the nice value of a process gives each of its threads the weight of the new value, takes
  a queued or running one off its queue and back for that, and leaves who is runnable, who runs, and the weights of
  all other threads as they were.\<close>

theorem nice_value_sets_weights:
  assumes "sys_inv K C s" "runq_laws K C" "queue_room s" "levels_ready K s" "distinct ts" "\<forall>t\<in>set ts. settled t s"
    and "0 \<le> nice - PRIO_MIN K" "nice - PRIO_MIN K \<le> 40"
  shows "\<exists>s'. sched_nice K old ts nice s = Some s' \<and> sys_inv K C s' \<and>
    runnable s' = runnable s \<and> joined_tds s' = joined_tds s \<and> curthread s' = curthread s \<and>
    (\<forall>t. weight (se_load (ents s' (TD_SE t))) = (if t \<in> set ts then
       if td_pri_class (threads s t) = PRI_IDLE K then IDLEPRIO_WEIGHT else prio_to_weight ! nat (nice - PRIO_MIN K)
     else weight (se_load (ents s (TD_SE t)))))"
proof -
  note I = sys_invD [OF assms(1)]
  from sched_nice_ok [OF I(1) assms(2) I(2) assms(3-8), of old] obtain s' where s': "sched_nice K old ts nice s = Some s'"
    "sched_good K C s'" "on_processor K (curthread s') s'" "stays_in_line s s'" "curthread s' = curthread s"
    and w: "\<forall>t. weight (se_load (ents s' (TD_SE t))) = (if t \<in> set ts then
       if td_pri_class (threads s t) = PRI_IDLE K then IDLEPRIO_WEIGHT else prio_to_weight ! nat (nice - PRIO_MIN K)
     else weight (se_load (ents s (TD_SE t))))" by blast
  have "sys_inv K C s'" by (rule sys_inv_stays [OF assms(1) s'(2-5)])
  then show ?thesis using s' w by (auto simp: stays_in_line_def)
qed

theorem nice_value_sets_weights_witness:
  "\<exists>s'. sched_nice K0 0 [0, 5] 5 s3 = Some s' \<and> sys_inv K0 set s' \<and> runnable s' = {0} \<and> curthread s' = 0 \<and>
    weight (se_load (ents s' (TD_SE 0))) = 336 \<and> weight (se_load (ents s' (TD_SE 5))) = 336"
proof -
  have n: "PRIO_MIN K0 = - 20" "PRI_IDLE K0 = 4" "prio_to_weight ! 25 = 336" by (code_simp | simp add: K0_def)+
  have h: "distinct [0, 5 :: nat]" "\<forall>t\<in>set [0, 5]. settled t s3" "0 \<le> 5 - PRIO_MIN K0" "5 - PRIO_MIN K0 \<le> 40"
    using ready3(3,4) n(1) by simp_all
  from nice_value_sets_weights [OF sys3(2) runq0 ready3(1,2) h, of 0] obtain s' where
    s: "sched_nice K0 0 [0, 5] 5 s3 = Some s'" "sys_inv K0 set s'" "runnable s' = runnable s3" "curthread s' = curthread s3"
    and w: "\<forall>t. weight (se_load (ents s' (TD_SE t))) = (if t \<in> set [0, 5] then
      if td_pri_class (threads s3 t) = PRI_IDLE K0 then IDLEPRIO_WEIGHT else prio_to_weight ! nat (5 - PRIO_MIN K0)
      else weight (se_load (ents s3 (TD_SE t))))" by blast
  have "weight (se_load (ents s' (TD_SE 0))) = 336" "weight (se_load (ents s' (TD_SE 5))) = 336"
    using w [rule_format, of 0] w [rule_format, of 5] threads3(8,9) n by simp_all
  then show ?thesis using s sys3(3,4) by simp
qed

text \<open>C8: the request to move a process to a group puts each of its threads on the group's queue, below
  the group's entity, whether it runs, waits or sleeps, and leaves who is runnable, who runs, the weights, and the
  places of all other threads as they were.\<close>

theorem moved_process_joins_group:
  assumes "sys_inv K C s" "runq_laws K C" "queue_room s" "levels_ready K s" "joinable g s" "distinct ts"
    and "\<forall>t\<in>set ts. td_class (threads s t) = pss_class \<and> settled t s \<and> (\<exists>h. in_group h t s)"
    and "rq_name req = Some pid" "rq_new req = Some n" "in_error req = None" "procs pid = Some ts" "sched_group_find n s = Some g"
  shows "\<exists>s'. sysctl_sched_group_move K procs req s = Some (None, s') \<and> sys_inv K C s' \<and>
    (\<forall>t\<in>set ts. in_group g t s') \<and> runnable s' = runnable s \<and> joined_tds s' = joined_tds s \<and> curthread s' = curthread s \<and>
    same_tw s s' \<and> (\<forall>x. x \<notin> set ts \<longrightarrow> se_sfq (ents s' (TD_SE x)) = se_sfq (ents s (TD_SE x)) \<and>
      td_group (threads s' x) = td_group (threads s x))"
proof -
  note I = sys_invD [OF assms(1)]
  obtain s' where s': "sysctl_sched_group_move K procs req s = Some (None, s')" "sched_good K C s'" "on_processor K (curthread s') s'"
    "gathered g (set ts) s s'"
    using sysctl_move_ok [where procs = procs and req = req, OF I(1) assms(2) I(2) assms(3-12)] by blast
  have "stays_in_line s s'" "curthread s' = curthread s" using s'(4) by (simp_all add: gathered_def)
  from sys_inv_stays [OF assms(1) s'(2,3) this] show ?thesis using s'(1,4) unfolding gathered_def by auto
qed

theorem moved_process_joins_group_witness:
  "\<exists>s'. sysctl_sched_group_move K0 (\<lambda>p. if p = 7 then Some [0, 5] else None)
      \<lparr>rq_name = Some 7, rq_oldlen = None, rq_new = Some 1, rq_newlen = 4, in_error = None, out_error = \<lambda>_. None\<rparr> s3 = Some (None, s') \<and>
    sys_inv K0 set s' \<and> in_group (ZONE_GROUP 0) 0 s' \<and> in_group (ZONE_GROUP 0) 5 s' \<and> runnable s' = {0} \<and> curthread s' = 0"
proof -
  have "\<forall>t\<in>set [0, 5]. td_class (threads s3 t) = pss_class \<and> settled t s3 \<and> (\<exists>h. in_group h t s3)"
    using ready3 facts3(2) threads3(5) by auto
  from moved_process_joins_group [OF sys3(2) runq0 ready3(1,2,5) _ this,
      of "\<lparr>rq_name = Some 7, rq_oldlen = None, rq_new = Some 1, rq_newlen = 4, in_error = None, out_error = \<lambda>_. None\<rparr>"
        7 1 "\<lambda>p. if p = 7 then Some [0, 5] else None"]
  show ?thesis using groups3(7) sys3(3,4) by auto
qed

text \<open>C9: a fork gives the new thread the class, the group, the queue and the weight of its parent; it is
  not queued and can be woken, the parent keeps running, and no other thread changes its weight or its state of being queued.\<close>

theorem fork_takes_parents_place:
  assumes "sys_inv K C s" "0 < hz (clks K)" "in_group g (curthread s) s" "se_sfq (ents s (TD_SE (curthread s))) \<noteq> None"
    and "unused K child s"
  shows "\<exists>s'. sched_fork K (curthread s) child s = Some s' \<and> sys_inv K C s' \<and> can_start child s' \<and> in_group g child s' \<and>
    runnable s' = runnable s \<and> curthread s' = curthread s \<and> td_class (threads s' child) = td_class (threads s (curthread s)) \<and>
    (\<forall>x. weight (se_load (ents s' (TD_SE x))) = weight (se_load (ents s (TD_SE (if x = child then curthread s else x)))))"
  by (rule fork_sys [OF assms])

theorem fork_takes_parents_place_witness:
  "\<exists>s'. sched_fork K0 0 5 s3 = Some s' \<and> sys_inv K0 set s' \<and> can_start 5 s' \<and> in_group ROOT_GROUP 5 s' \<and> runnable s' = {0} \<and>
    weight (se_load (ents s' (TD_SE 5))) = 1024"
  using fork_takes_parents_place [OF sys3(2) clock0(1), of ROOT_GROUP 5] ready3(6,8) places3(1) sys3(3,4) threads3(10) by auto
section \<open>The proportional share class\<close>

text \<open>C10: the choice of the next thread. Without queued entities there is none. Otherwise the choice
  descends from the root queue to a thread; on each level it takes the first entity of the timeline,
  or one whose virtual time is within the wakeup granularity of the first.\<close>

theorem pick_is_fair_on_every_level:
  assumes "pss_inv X s" "idle_queues s"
  shows "(X RQ_SFQ = [] \<longrightarrow> pss_pick_next_thread s = Some (None, s)) \<and>
    (X RQ_SFQ \<noteq> [] \<longrightarrow> (\<exists>t s' as p. pss_pick_next_thread s = Some (Some t, s') \<and> pss_inv X s' \<and> idle_queues s' \<and>
       descent X s RQ_SFQ as \<and> last as = TD_SE t \<and> TD_SE t \<in> set (X p)))"
proof (intro conjI)
  show "X RQ_SFQ = [] \<longrightarrow> pss_pick_next_thread s = Some (None, s)" using pick_next_thread_ok(1) [OF assms] by blast
  show "X RQ_SFQ \<noteq> [] \<longrightarrow> (\<exists>t s' as p. pss_pick_next_thread s = Some (Some t, s') \<and> pss_inv X s' \<and> idle_queues s' \<and>
       descent X s RQ_SFQ as \<and> last as = TD_SE t \<and> TD_SE t \<in> set (X p))"
    using pick_next_thread_ok(2) [OF assms] by blast
qed

theorem pick_is_fair_on_every_level_witness:
  "pss_pick_next_thread s0 = Some (None, s0) \<and>
   (\<exists>X t s' as. pss_pick_next_thread s2 = Some (Some t, s') \<and> pss_inv X s' \<and> descent X s2 RQ_SFQ as \<and> last as = TD_SE t)"
proof -
  have "pss_good s2" "0 \<in> runnable s2" using sys2 sched_goodD(1) by (auto simp: sys_inv_def)
  then obtain X q where X: "pss_inv X s2" "X RQ_SFQ \<noteq> []" using idle_timelines [OF _ sys2(4)] by blast
  show ?thesis
    using pick_is_fair_on_every_level [OF pss_inv0 idle0(1)] pick_is_fair_on_every_level [OF X(1) sys2(4)] X(2) by blast
qed

text \<open>C11: enqueueing a thread, with all groups above it that were empty, keeps the timelines sorted
  out, the accounts exact and the hierarchy linked; it adds that thread and nothing else.\<close>

theorem enqueue_thread_keeps_queues:
  assumes "pss_inv X s" "cur_joined s" "\<not> joined (ents s (TD_SE t))" "se_sfq (ents s (TD_SE t)) = Some q"
    and "weight_ok (weight (se_load (ents s (TD_SE t))))"
  shows "\<exists>s' X'. pss_enqueue_thread K t flags s = Some s' \<and> pss_inv X' s' \<and> cur_joined s' \<and>
    joined (ents s' (TD_SE t)) \<and> runnable s' = insert t (runnable s) \<and> rq_nr_running (rq s') = rq_nr_running (rq s) + 1 \<and>
    (\<forall>r. curr (sfqs s' r) = curr (sfqs s r)) \<and> same_static s s'"
proof -
  obtain s' X' where "pss_enqueue_thread K t flags s = Some s'" "pss_inv X' s'" "cur_joined s'" "enq_thread_frame t s s'"
    "joined (ents s' (TD_SE t))" "runnable s' = insert t (runnable s)" "rq_nr_running (rq s') = rq_nr_running (rq s) + 1"
    using enqueue_thread_ok [OF assms] by blast
  then show ?thesis unfolding enq_thread_frame_def by blast
qed

theorem enqueue_thread_keeps_queues_witness:
  "\<exists>s' X'. pss_enqueue_thread K0 5 0 s0 = Some s' \<and> pss_inv X' s' \<and> runnable s' = {5} \<and> rq_nr_running (rq s') = 1"
proof -
  have "cur_joined s0" by (rule idle_cur_joined [OF idle0(1)])
  moreover have "weight_ok (weight (se_load (ents s0 (TD_SE 5))))" by (simp add: weight_ok_def)
  ultimately show ?thesis
    using enqueue_thread_keeps_queues [OF pss_inv0, of 5 "ZONE_SFQ 0" K0 0] idle0(3) by auto
qed

text \<open>C12: dequeueing a runnable thread, with all groups above it that become empty, keeps the
  invariant and removes that thread and nothing else, queued or running.\<close>

theorem dequeue_thread_keeps_queues:
  assumes "pss_inv X s" "t \<in> runnable s" "int_counts s" "rq_nr_running (rq s) \<noteq> 0"
  shows "\<exists>s' X'. pss_dequeue_thread K t flags s = Some s' \<and> pss_inv X' s' \<and> \<not> joined (ents s' (TD_SE t)) \<and>
    runnable s' = runnable s - {t} \<and> rq_nr_running (rq s') = rq_nr_running (rq s) - 1 \<and>
    (\<forall>r. curr (sfqs s' r) = curr (sfqs s r)) \<and>
    (\<forall>x. onsfq (ents s' x) \<longrightarrow> onsfq (ents s x) \<and> vruntime (ents s' x) = vruntime (ents s x))"
proof -
  obtain s' X' where "pss_dequeue_thread K t flags s = Some s'" "pss_inv X' s'" "deq_thread_frame t s s'"
    "\<not> joined (ents s' (TD_SE t))" "runnable s' = runnable s - {t}" "rq_nr_running (rq s') = rq_nr_running (rq s) - 1"
    using dequeue_thread_ok [OF assms(1,2) int_counts_short [OF assms(1,3)] assms(4)] by blast
  then show ?thesis unfolding deq_thread_frame_def by blast
qed

theorem dequeue_thread_keeps_queues_witness:
  "\<exists>s' X'. pss_dequeue_thread K0 0 DEQUEUE_SLEEP s1 = Some s' \<and> pss_inv X' s' \<and> runnable s' = {} \<and> rq_nr_running (rq s') = 0"
proof -
  have r: "0 \<in> runnable s1" using run1(1) by simp
  obtain X where X: "pss_inv X s1" using good1(2) by (auto simp: pss_good_def)
  from dequeue_thread_keeps_queues [OF X r few1, of K0 DEQUEUE_SLEEP] show ?thesis using good1(3) run1(1) by auto
qed

text \<open>C13: the class refines a pool of threads: put back the running one, pick one, activate it, and
  the pool is the same with some thread of it running.\<close>

theorem class_refines_pool:
  assumes "pss_good s" "on_cpu t s" "t \<in> runnable s"
  shows "\<exists>u s'. do { s \<leftarrow> pss_put_prev_thread K t flags s; (r, s) \<leftarrow> pss_pick_next_thread s; u \<leftarrow> r;
      s \<leftarrow> pss_activate_thread K u s; Some (u, s) } = Some (u, s') \<and>
    pss_good s' \<and> on_cpu u s' \<and> u \<in> runnable s' \<and> runnable s' = runnable s"
  by (rule pool.yield_ok [OF assms])

theorem class_refines_pool_witness:
  "\<exists>u s'. do { s \<leftarrow> pss_put_prev_thread K0 0 0 s3; (r, s) \<leftarrow> pss_pick_next_thread s; u \<leftarrow> r;
      s \<leftarrow> pss_activate_thread K0 u s; Some (u, s) } = Some (u, s') \<and> on_cpu u s' \<and> runnable s' = {0}"
  using class_refines_pool [OF good3(2) sys3(5), of K0 0] sys3(4) by auto

text \<open>C14: enqueueing an entity puts it in its place of the timeline and keeps the invariant of all
  queues: not before the entity to its left, before the one to its right.\<close>

theorem enqueue_entity_correct:
  assumes "queue_inv X s" "\<not> joined (ents s e)" "se_sfq (ents s e) = Some q" "curr (sfqs s q) \<noteq> Some e"
    "entity_is_thread s e \<Longrightarrow> \<not> onrunq (ents s e)"
  shows "\<exists>s' ys zs. enqueue_entity K q e flags s = Some s' \<and> X q = ys @ zs \<and>
    queue_inv (X(q := ys @ e # zs)) s' \<and> joined (ents s' e) \<and>
    (ys \<noteq> [] \<longrightarrow> \<not> vtime_cmp s' e (last ys) < 0) \<and> (zs \<noteq> [] \<longrightarrow> vtime_cmp s' e (hd zs) < 0)"
  using enqueue_entity_ok [OF assms] by blast

theorem enqueue_entity_correct_witness:
  "\<exists>s' ys zs. enqueue_entity K0 RQ_SFQ (TD_SE 0) 0 s0 = Some s' \<and> X0 RQ_SFQ = ys @ zs \<and>
    queue_inv (X0(RQ_SFQ := ys @ TD_SE 0 # zs)) s' \<and> joined (ents s' (TD_SE 0)) \<and>
    (ys \<noteq> [] \<longrightarrow> \<not> vtime_cmp s' (TD_SE 0) (last ys) < 0) \<and> (zs \<noteq> [] \<longrightarrow> vtime_cmp s' (TD_SE 0) (hd zs) < 0)"
  by (rule enqueue_entity_correct [OF queue_inv0]) simp_all



text \<open>C40: the search for common ancestors, by which a wakeup compares the thread that wakes with the running
  one. It ends, without following NULL, at the two ancestors, themselves included, that are on the same level and in the
  same queue, and of which no two below them on the same level are in one queue.\<close>

theorem common_ancestors_share_queue:
  assumes "hier_wf s" "chain (par_of s) (Some a) as" "se_sfq (ents s a) \<noteq> None"
    and "chain (par_of s) (Some b) bs" "se_sfq (ents s b) \<noteq> None"
  shows "\<exists>x y us xs vs ys. find_common_ancestor s (Some a) (Some b) = Some (Some x, Some y) \<and>
    as = us @ x # xs \<and> bs = vs @ y # ys \<and> length xs = length ys \<and> se_sfq (ents s x) = se_sfq (ents s y) \<and>
    (\<forall>(u, v)\<in>set (zip (rev us) (rev vs)). se_sfq (ents s u) \<noteq> se_sfq (ents s v))"
  using common_ancestor_meets [OF assms] unfolding meets_def by blast

theorem common_ancestors_share_queue_witness:
  "find_common_ancestor s0 (Some (TD_SE 0)) (Some (TD_SE 5)) = Some (Some (TD_SE 0), Some (ZONE_SE 0))"
proof -
  have "chain (par_of s0) (Some (TD_SE 0)) [TD_SE 0]" "chain (par_of s0) (Some (TD_SE 5)) [TD_SE 5, ZONE_SE 0]" by simp_all
  from common_ancestors_share_queue [OF hier0 this(1) _ this(2)] show ?thesis
    by (auto simp: Cons_eq_append_conv)
qed

section \<open>The timeline and virtual time\<close>

text \<open>C16: inserting an entity keeps a timeline sorted by virtual time, as long as the times lie within
  half of their range, and afterwards the first entity of the queue has the least.\<close>

theorem timeline_stays_sorted:
  assumes "tl_inv X s" "\<not> onsfq (ents s e)" "se_sfq (ents s e) = Some q"
    and "keys_near b s (insert e (set (X q)))" "key_sorted (key b s) (X q)"
  shows "\<exists>s' ys zs f. enqueue_timeline q e s = Some s' \<and> X q = ys @ zs \<and> tl_inv (X(q := ys @ e # zs)) s' \<and>
    key_sorted (key b s') (ys @ e # zs) \<and> (\<forall>z\<in>set zs. key b s' e < key b s' z) \<and>
    pick_first_entity q s' = Some f \<and> (\<forall>y\<in>insert e (set (X q)). key b s' f \<le> key b s' y)"
proof -
  obtain s' ys zs where s': "enqueue_timeline q e s = Some s'" "X q = ys @ zs" "tl_inv (X(q := ys @ e # zs)) s'"
    "key b s' = key b s" "key_sorted (key b s') (ys @ e # zs)" "\<forall>z\<in>set zs. key b s' e < key b s' z"
    using enqueue_timeline_sorted [OF assms] by blast
  have "leftmost (sfqs s' q) = head_opt (ys @ e # zs)" using s'(3) by (auto simp: tl_inv_def tlq_def tl.cached_def)
  then obtain f where f: "pick_first_entity q s' = Some f" by (cases ys) (simp_all add: pick_first_entity_def)
  have "\<forall>y\<in>set (ys @ e # zs). key b s' f \<le> key b s' y" using first_least(2) [OF s'(3) _ f] s'(5) by simp
  then show ?thesis using s' f by (intro exI [of _ s'] exI [of _ ys] exI [of _ zs] exI [of _ f]) auto
qed

theorem timeline_stays_sorted_witness:
  "\<exists>s' ys zs f. enqueue_timeline RQ_SFQ (TD_SE 0) s0 = Some s' \<and> [] = ys @ zs \<and>
    key_sorted (key 0 s') (ys @ TD_SE 0 # zs) \<and> pick_first_entity RQ_SFQ s' = Some f"
proof -
  have "tl_inv X0 s0" by (rule queue_invD [OF queue_inv0])
  moreover have "keys_near 0 s0 (insert (TD_SE 0) (set (X0 RQ_SFQ)))" by (simp add: keys_near_def)
  moreover have "key_sorted (key 0 s0) (X0 RQ_SFQ)" by (simp add: key_sorted_def)
  ultimately show ?thesis using timeline_stays_sorted [of X0 s0 "TD_SE 0" RQ_SFQ 0] by auto
qed

text \<open>C17: insertion into the red-black tree: the element goes where the comparisons lead, links and
  colours form a red-black tree again, the leftmost flag is right, other trees are not touched.\<close>

theorem tree_insertion:
  assumes "tl_rep h r xs" "x \<notin> set xs"
  shows "\<exists>h' r' ys zs. tl_ins before x h r = Some (ys = [], h', r') \<and> xs = ys @ zs \<and> tl_rep h' r' (ys @ x # zs) \<and>
    tl_frame (insert x (set xs)) h h' \<and> (ys \<noteq> [] \<longrightarrow> \<not> before x (last ys)) \<and> (zs \<noteq> [] \<longrightarrow> before x (hd zs))"
  by (rule tl.ins_ok [OF assms])

theorem tree_insertion_witness:
  "\<exists>h r h' r'. tl_rep h r [2, 4, 6::nat] \<and> tl_ins (\<lambda>x y. x < y) 5 h r = Some (False, h', r') \<and> tl_rep h' r' [2, 4, 5, 6]"
proof -
  obtain h r where h: "tl_rep h r [2, 4, 6::nat]" using tree246 by blast
  obtain h' r' ys zs where i: "tl_ins (\<lambda>x y. x < y) 5 h r = Some (ys = [], h', r')" "[2, 4, 6] = ys @ zs" "tl_rep h' r' (ys @ 5 # zs)"
    "ys \<noteq> [] \<longrightarrow> \<not> 5 < last ys" "zs \<noteq> [] \<longrightarrow> 5 < hd zs"
  proof -
    have "5 \<notin> set [2, 4, 6::nat]" by simp
    from tree_insertion [OF h this, of "\<lambda>x y. x < y"] that show thesis by blast
  qed
  from i(2,4,5) have yz: "ys = [2, 4] \<and> zs = [6]" by (auto simp: Cons_eq_append_conv)
  show ?thesis using h i(1,3) unfolding conjunct1 [OF yz] conjunct2 [OF yz] by auto
qed

text \<open>C18: removal from the red-black tree: the element leaves the order, links and colours form a
  red-black tree again, and other trees are not touched.\<close>

theorem tree_removal:
  assumes "tl_rep h r (ys @ x # zs)"
  shows "\<exists>h' r'. tl_rem x h r = Some (h', r') \<and> tl_rep h' r' (ys @ zs) \<and> tl_frame (insert x (set (ys @ zs))) h h'"
  by (rule tl.rem_ok [OF assms])

theorem tree_removal_witness:
  "\<exists>h r h' r'. tl_rep h r [2, 4, 6::nat] \<and> tl_rem 4 h r = Some (h', r') \<and> tl_rep h' r' [2, 6]"
proof -
  obtain h r where h: "tl_rep h r [2, 4, 6::nat]" using tree246 by blast
  then have "tl_rep h r ([2] @ 4 # [6])" by simp
  from tree_removal [OF this] h show ?thesis by auto
qed

text \<open>C19: the searches of the tree against the list of its elements. Finding a key, the first element not below
  it, the least and the largest element, the neighbours of an element on both sides, and insertion by a
  comparison, which leaves the tree alone when an equal element is there, end and agree with the list. The loops over the
  tree fold their body over the list, up or down, and the safe one can take out every element.\<close>

theorem tree_searches_match_list:
  assumes "tl_rep (rb_links s) (rbh_root s) xs" "cmp_mono (cmp x) xs"
  shows "RB_FIND cmp x s = Some (find (\<lambda>y. cmp x y = 0) xs) \<and> RB_NFIND cmp x s = Some (find (\<lambda>y. cmp x y \<le> 0) xs) \<and>
    RB_MINMAX v s = Some (if xs = [] then None else Some (if v < 0 then hd xs else last xs)) \<and>
    (\<forall>ys a zs. xs = ys @ a # zs \<longrightarrow> RB_NEXT a s = Some (head_opt zs) \<and> RB_PREV a s = Some (head_opt (rev ys))) \<and>
    (case find (\<lambda>y. cmp x y = 0) xs of
       Some y \<Rightarrow> RB_INSERT cmp x s = Some (Some y, s)
     | None \<Rightarrow> x \<notin> set xs \<longrightarrow> (\<exists>s'. RB_INSERT cmp x s = Some (None, s') \<and>
         tl_rep (rb_links s') (rbh_root s') (takeWhile (\<lambda>y. 0 < cmp x y) xs @ x # dropWhile (\<lambda>y. 0 < cmp x y) xs))) \<and>
    (\<forall>body f b. (\<forall>a b. body a (b, s) = Some (f a b, s)) \<longrightarrow>
      RB_FOREACH body (b, s) = Some (fold f xs b, s) \<and> RB_FOREACH_REVERSE body (b, s) = Some (fold f (rev xs) b, s)) \<and>
    (\<exists>s'. RB_FOREACH_SAFE take_out ([], s) = Some (xs, s') \<and> tl_rep (rb_links s') (rbh_root s') [])"
  using searches_ok [where cmp = cmp and x = x, OF assms] RB_INSERT_ok [where cmp = cmp and x = x, OF assms]
    foreach_folds [OF assms(1)] RB_FOREACH_SAFE_empties [OF assms(1)] by (intro conjI; (assumption | blast))

theorem tree_searches_match_list_witness:
  "\<exists>s s'. tl_rep (rb_links s) (rbh_root s) [2, 4, 6::nat] \<and> RB_FIND (\<lambda>x y. int x - int y) 4 s = Some (Some 4) \<and>
    RB_NFIND (\<lambda>x y. int x - int y) 5 s = Some (Some 6) \<and> RB_MINMAX 1 s = Some (Some 6) \<and> RB_PREV 4 s = Some (Some 2) \<and>
    RB_INSERT (\<lambda>x y. int x - int y) 5 s = Some (None, s') \<and> tl_rep (rb_links s') (rbh_root s') [2, 4, 5, 6] \<and>
    RB_FOREACH_REVERSE (\<lambda>a (b, s). Some (b + a, s)) (0, s) = Some (12, s)"
proof -
  obtain h r where h: "tl_rep h r [2, 4, 6::nat]" using tree246 by blast
  define s where "s = \<lparr>rb_links = h, rbh_root = r\<rparr>"
  have rep: "tl_rep (rb_links s) (rbh_root s) [2, 4, 6]" using h by (simp add: s_def)
  have mono: "cmp_mono (\<lambda>y. int x - int y) [2, 4, 6]" for x by (simp add: cmp_mono_def)
  have split: "[2, 4, 6] = [2] @ 4 # [6::nat]" by simp
  note at = tree_searches_match_list [where cmp = "\<lambda>x y. int x - int y", OF rep mono]
  have "RB_FIND (\<lambda>x y. int x - int y) 4 s = Some (Some 4)" using conjunct1 [OF at [of 4]] by simp
  moreover have "RB_PREV 4 s = Some (Some 2)"
    using conjunct2 [OF mp [OF spec [OF spec [OF spec [OF conjunct1 [OF conjunct2 [OF conjunct2 [OF conjunct2 [OF at [of 4]]]]]]]] split]]
    by simp
  moreover have "RB_MINMAX 1 s = Some (Some 6)" using conjunct1 [OF conjunct2 [OF conjunct2 [OF at [of 4 1]]]] by simp
  moreover have "RB_NFIND (\<lambda>x y. int x - int y) 5 s = Some (Some 6)" using conjunct1 [OF conjunct2 [OF at [of 5]]] by simp
  moreover have "\<exists>s'. RB_INSERT (\<lambda>x y. int x - int y) 5 s = Some (None, s') \<and> tl_rep (rb_links s') (rbh_root s') [2, 4, 5, 6]"
    using conjunct1 [OF conjunct2 [OF conjunct2 [OF conjunct2 [OF conjunct2 [OF at [of 5]]]]]] by simp
  moreover have "RB_FOREACH_REVERSE (\<lambda>a (b, s). Some (b + a, s)) (0, s) = Some (12, s)"
    using mp [OF spec [OF spec [OF spec [OF conjunct1 [OF conjunct2 [OF conjunct2 [OF conjunct2 [OF conjunct2 [OF conjunct2 [OF at [of 5]]]]]]],
      of "\<lambda>a (b, s). Some (b + a, s)"], of "\<lambda>a b. b + a"], of 0]] by simp
  ultimately show ?thesis using rep by blast
qed

text \<open>C20: the operations of the splay tree against the list of its elements. Each of them splays, moving
  elements about, and ends with a tree of the same elements in the same order, but for the one inserted or removed; what it returns is what the
  list says. Removal returns the key it is given, not the element of the tree that is equal to it.\<close>

theorem splay_tree_refines_list:
  assumes "splay_holds s xs" "cmp_mono (cmp e) xs"
  shows "(\<exists>s'. SPLAY_FIND cmp e s = Some (find (\<lambda>y. cmp e y = 0) xs, s') \<and> splay_holds s' xs) \<and>
    (\<exists>s'. SPLAY_MIN s = Some (head_opt xs, s') \<and> splay_holds s' xs) \<and>
    (\<exists>s'. SPLAY_MAX s = Some (head_opt (rev xs), s') \<and> splay_holds s' xs) \<and>
    (\<forall>ys zs. xs = ys @ e # zs \<and> cmp e e = 0 \<longrightarrow> (\<exists>s'. SPLAY_NEXT cmp e s = Some (head_opt zs, s') \<and> splay_holds s' xs)) \<and>
    (case find (\<lambda>y. cmp e y = 0) xs of
       Some y \<Rightarrow> (\<exists>s'. SPLAY_INSERT cmp e s = Some (Some y, s') \<and> splay_holds s' xs) \<and>
         (\<exists>s'. SPLAY_REMOVE cmp e s = Some (Some e, s') \<and> splay_holds s' (remove1 y xs))
     | None \<Rightarrow> (e \<notin> set xs \<longrightarrow> (\<exists>s'. SPLAY_INSERT cmp e s = Some (None, s') \<and>
         splay_holds s' (takeWhile (\<lambda>y. 0 < cmp e y) xs @ e # dropWhile (\<lambda>y. 0 < cmp e y) xs))) \<and>
         (\<exists>s'. SPLAY_REMOVE cmp e s = Some (None, s') \<and> splay_holds s' xs)) \<and>
    ((\<forall>a\<in>set xs. cmp_mono (cmp a) xs \<and> cmp a a = 0) \<longrightarrow> (\<exists>s'. SPLAY_FOREACH cmp s = Some (xs, s') \<and> splay_holds s' xs))"
proof (intro conjI)
  show "\<exists>s'. SPLAY_FIND cmp e s = Some (find (\<lambda>y. cmp e y = 0) xs, s') \<and> splay_holds s' xs"
    using SPLAY_FIND_ok [where cmp = cmp and e = e, OF assms] .
  show "\<exists>s'. SPLAY_MIN s = Some (head_opt xs, s') \<and> splay_holds s' xs"
    using SPLAY_MIN_MAX_ok(1) [OF assms(1)] .
  show "\<exists>s'. SPLAY_MAX s = Some (head_opt (rev xs), s') \<and> splay_holds s' xs"
    using SPLAY_MIN_MAX_ok(2) [OF assms(1)] .
  show "\<forall>ys zs. xs = ys @ e # zs \<and> cmp e e = 0 \<longrightarrow> (\<exists>s'. SPLAY_NEXT cmp e s = Some (head_opt zs, s') \<and> splay_holds s' xs)"
    using SPLAY_NEXT_ok [where cmp = cmp and e = e and s = s] assms by blast
  show "case find (\<lambda>y. cmp e y = 0) xs of
       Some y \<Rightarrow> (\<exists>s'. SPLAY_INSERT cmp e s = Some (Some y, s') \<and> splay_holds s' xs) \<and>
         (\<exists>s'. SPLAY_REMOVE cmp e s = Some (Some e, s') \<and> splay_holds s' (remove1 y xs))
     | None \<Rightarrow> (e \<notin> set xs \<longrightarrow> (\<exists>s'. SPLAY_INSERT cmp e s = Some (None, s') \<and>
         splay_holds s' (takeWhile (\<lambda>y. 0 < cmp e y) xs @ e # dropWhile (\<lambda>y. 0 < cmp e y) xs))) \<and>
         (\<exists>s'. SPLAY_REMOVE cmp e s = Some (None, s') \<and> splay_holds s' xs)"
    using SPLAY_INSERT_ok [where cmp = cmp and e = e, OF assms] SPLAY_REMOVE_ok [where cmp = cmp and e = e, OF assms]
    by (simp split: option.splits)
  show "(\<forall>a\<in>set xs. cmp_mono (cmp a) xs \<and> cmp a a = 0) \<longrightarrow> (\<exists>s'. SPLAY_FOREACH cmp s = Some (xs, s') \<and> splay_holds s' xs)"
    using SPLAY_FOREACH_ok [where cmp = cmp, OF assms(1)] by blast
qed

theorem splay_tree_refines_list_witness:
  "\<exists>s2 s3 s4. SPLAY_INSERT (\<lambda>x y. int x - int y) 5 splay46 = Some (None, s2) \<and> splay_holds s2 [4, 5, 6] \<and>
    SPLAY_REMOVE (\<lambda>x y. int x - int y) 4 splay46 = Some (Some 4, s3) \<and> splay_holds s3 [6] \<and>
    SPLAY_FOREACH (\<lambda>x y. int x - int y) splay46 = Some ([4, 6], s4)"
proof -
  have mono: "cmp_mono (\<lambda>y. int x - int y) [4, 6]" for x by (simp add: cmp_mono_def)
  note at = splay_tree_refines_list [where cmp = "\<lambda>x y. int x - int y", OF splay46 mono]
  show ?thesis using at [of 5] at [of 4] mono by (simp split: option.splits) blast
qed

text \<open>C28: the virtual time of a queue never goes back, and it overtakes neither the running entity
  nor a queued one unless it was ahead already. An entity that wakes on the queue keeps its virtual time, or gets the time of the
  queue less its bonus (the minimal granularity, half of it for gentle sleepers), whichever is later.\<close>

theorem vtime_moves_forward:
  assumes "tl_inv X s" "key_sorted (key b s) (X q)" "keys_near b s (set (mem X s q))" "in_window b (vtime (sfqs s q))"
  shows "win_dist b (vtime (sfqs s q)) \<le> win_dist b (vtime (sfqs (update_sfq_vtime q s) q)) \<and>
    (\<forall>y\<in>set (mem X s q). win_dist b (vtime (sfqs (update_sfq_vtime q s) q)) \<le> max (win_dist b (vtime (sfqs s q))) (key b s y)) \<and>
    (in_window b (vruntime (ents s e)) \<and> in_window b (vtime (sfqs s q) - wake_bonus (tun s)) \<longrightarrow>
      (\<exists>s'. place_entity q e False s = Some s' \<and>
        key b s' e = max (key b s e) (win_dist b (vtime (sfqs s q) - wake_bonus (tun s))) \<and>
        (\<forall>x. x \<noteq> e \<longrightarrow> ents s' x = ents s x) \<and> sfqs s' = sfqs s))"
  using update_sfq_vtime_window(1,2) [OF assms] place_entity_window [of b s e q] by blast

theorem vtime_moves_forward_witness:
  "win_dist (- 750000) (vtime (sfqs s0 RQ_SFQ)) \<le> win_dist (- 750000) (vtime (sfqs (update_sfq_vtime RQ_SFQ s0) RQ_SFQ)) \<and>
   (\<exists>s'. place_entity RQ_SFQ (TD_SE 0) False s0 = Some s' \<and> key (- 750000) s' (TD_SE 0) = 750000)"
proof -
  have "tl_inv X0 s0" by (rule queue_invD [OF queue_inv0])
  moreover have "key_sorted (key (- 750000) s0) (X0 RQ_SFQ)" "keys_near (- 750000) s0 (set (mem X0 s0 RQ_SFQ))"
    "in_window (- 750000) (vtime (sfqs s0 RQ_SFQ))" "in_window (- 750000) (vruntime (ents s0 (TD_SE 0)))"
    "in_window (- 750000) (vtime (sfqs s0 RQ_SFQ) - wake_bonus (tun s0))"
    by (simp_all add: key_sorted_def keys_near_def in_window_def win_dist_def wake_bonus_def default_tunables_def)
  ultimately show ?thesis using vtime_moves_forward [of X0 s0 "- 750000" RQ_SFQ "TD_SE 0"]
    by (auto simp: key_def win_dist_def wake_bonus_def default_tunables_def)
qed

text \<open>C29: the running entity is charged for the time since it was last: its execution time exactly, and
  its virtual time in inverse proportion to its weight, to within one unit of the exact quotient, as
  long as the period is below \<open>2 ^ 22\<close> nanoseconds.\<close>

theorem running_entity_charged:
  fixes s :: "'q sched" and c :: eid and q :: qid
  assumes d: "d = clock_thread (rq s) - timing_start (ents s c)" and w: "w = weight (se_load (ents s c))"
    and asm: "d \<noteq> 0" "uint d * 1024 \<le> 4294967296" "inv_ok (se_load (ents s c))" "1 < w" "w < 4294967296"
  shows "sum_exec_time (ents (charge_curr q c s) c) = sum_exec_time (ents s c) + d \<and>
    (\<exists>v. vruntime (ents (charge_curr q c s) c) = vruntime (ents s c) + v \<and>
      uint v \<le> uint d * 1024 div uint w + 1 \<and> uint d * 1024 div uint w \<le> uint v + 1)"
proof (intro conjI)
  have ne: "clock_thread (rq s) \<noteq> timing_start (ents s c)" using asm(1) by (simp add: d)
  show "sum_exec_time (ents (charge_curr q c s) c) = sum_exec_time (ents s c) + d"
    using charge_curr_ok(1) [OF ne] by (simp add: d)
  show "\<exists>v. vruntime (ents (charge_curr q c s) c) = vruntime (ents s c) + v \<and>
      uint v \<le> uint d * 1024 div uint w + 1 \<and> uint d * 1024 div uint w \<le> uint v + 1"
    using charge_curr_ok(3) [OF ne, folded d, of q] scale_delta_accurate [OF asm(2,3,4,5) [unfolded w]]
    unfolding w by blast
qed

theorem running_entity_charged_witness:
  "\<exists>s :: tid list sched. clock_thread (rq s) = 3000 \<and> timing_start (ents s (TD_SE 0)) = 0 \<and> weight (se_load (ents s (TD_SE 0))) = 3072 \<and>
    sum_exec_time (ents (charge_curr RQ_SFQ (TD_SE 0) s) (TD_SE 0)) = 3000 \<and>
    (\<exists>v. vruntime (ents (charge_curr RQ_SFQ (TD_SE 0) s) (TD_SE 0)) = v \<and> 999 \<le> uint v \<and> uint v \<le> 1001)"
proof -
  define s where "s = upd_se (TD_SE 0) (\<lambda>se. se\<lparr>se_load := \<lparr>weight = 3072, inv_weight = 0\<rparr>\<rparr>) (upd_rq (\<lambda>r. r\<lparr>clock_thread := 3000\<rparr>) s0)"
  have s: "clock_thread (rq s) = 3000" "timing_start (ents s (TD_SE 0)) = 0" "se_load (ents s (TD_SE 0)) = \<lparr>weight = 3072, inv_weight = 0\<rparr>"
    "sum_exec_time (ents s (TD_SE 0)) = 0" "vruntime (ents s (TD_SE 0)) = 0"
    by (simp_all add: s_def) (simp_all add: ent0_def)
  have i: "inv_ok (se_load (ents s (TD_SE 0)))" by (simp add: inv_ok_def s)
  note P = running_entity_charged [where s = s and c = "TD_SE 0" and q = RQ_SFQ, OF refl refl, unfolded s(1,2,4,5), simplified s]
  have "\<exists>v. vruntime (ents (charge_curr RQ_SFQ (TD_SE 0) s) (TD_SE 0)) = v \<and> 999 \<le> uint v \<and> uint v \<le> 1001"
    using P i by (auto simp: s)
  moreover have "sum_exec_time (ents (charge_curr RQ_SFQ (TD_SE 0) s) (TD_SE 0)) = 3000" using P i by (simp add: s)
  ultimately show ?thesis using s by (intro exI [of _ s]) simp
qed

section \<open>Loads, usage, clocks and timers\<close>

text \<open>C30: the five load averages, updated at every tick. They stay between the least and the greatest of the loads
  they started from and the loads seen, and when the load is constant for as many ticks as these bounds are apart,
  all five have reached it.\<close>

theorem load_average_converges:
  fixes cur :: u64
  assumes "length ls = 5" "unat hi < 2 ^ 59" "\<forall>l\<in>set ls. lo \<le> l \<and> l \<le> hi" "\<forall>c\<in>set cs. lo \<le> c \<and> c \<le> hi"
    and "lo \<le> cur" "cur \<le> hi" "unat hi - unat lo \<le> n"
  shows "\<exists>ls1. loads_after cs ls = Some ls1 \<and> length ls1 = 5 \<and> (\<forall>l\<in>set ls1. lo \<le> l \<and> l \<le> hi) \<and>
    loads_after (cs @ replicate n cur) ls = Some (replicate 5 cur)"
proof -
  obtain ls1 where l: "loads_after cs ls = Some ls1" "length ls1 = 5" "\<forall>l\<in>set ls1. lo \<le> l \<and> l \<le> hi"
    using loads_after_within [OF assms(1-4)] by blast
  have "\<forall>l\<in>set ls1. lo \<le> l \<and> l \<le> hi \<and> apart l cur \<le> n"
    using l(3) assms(5-7) apart_le [of lo _ hi cur] le_trans by blast
  from loads_converge [OF assms(5,6,2) l(2) this] show ?thesis using l by (simp add: loads_after_append)
qed

theorem load_average_converges_witness:
  "\<exists>ls1. loads_after [7, 3] [0, 5, 2, 9, 1] = Some ls1 \<and> (\<forall>l\<in>set ls1. l \<le> 9) \<and>
    loads_after ([7, 3] @ replicate 9 4) [0, 5, 2, 9, 1] = Some (replicate 5 4)"
  using load_average_converges [of "[0, 5, 2, 9, 1]" 9 0 "[7, 3]" 4 9] by auto

text \<open>C31: the clock of a processor whose counter is not stable never goes back, read on that processor
  or from another one.\<close>

theorem clock_never_goes_back:
  assumes "\<not> cpu_time_stable s" "sched_time_running s" "clock_sane b C (st_cpuid s) s" "in_window b (st_time (timedata s cpu))"
  shows "\<exists>t s'. sched_time_cpu C cpu s = (t, s') \<and> st_time (timedata s' cpu) = t \<and>
    win_dist b (st_time (timedata s cpu)) \<le> win_dist b t"
  by (rule sched_time_cpu_ok [OF assms])

theorem clock_never_goes_back_witness:
  "\<exists>t s'. sched_time_cpu (clks K0) 1 times0 = (t, s') \<and> win_dist 0 70 \<le> win_dist 0 t"
proof -
  have "clock_sane 0 (clks K0) (st_cpuid times0) times0" "in_window 0 (st_time (timedata times0 1))"
    by (simp_all add: clock_sane_def clock_window_def in_window_def win_dist_def times0_def K0_def cputick2nsec_def)
  from clock_never_goes_back [OF _ _ this] show ?thesis by (auto simp: times0_def)
qed

text \<open>C32: forwarding a timer. One that is not due is left alone, and 0 is returned. One that is less than an interval late
  moves on by one interval, and 1 is returned. One that is later moves on by one interval more than the count
  that is returned, which is one more than the whole intervals it is late. In every case the expiry is then in the future,
  at most two intervals away if the timer was due.\<close>

theorem timer_forwarded_past_now:
  assumes "ts_ok now" "ts_ok interval" "ts_ok (expiry T)" "0 < ts_ns interval"
    and "ts_ns now - ts_ns (expiry T) < 4611686018427387904" "ts_ns interval < 4611686018427387904"
  shows "\<exists>n T'. hrtimer_forward now interval T = Some (n, T') \<and> armed T' = armed T \<and> ts_ok (expiry T') \<and>
    (let late = ts_ns now - ts_ns (expiry T); whole = late div ts_ns interval; moved = ts_ns (expiry T') - ts_ns (expiry T) in
      (late < 0 \<longrightarrow> n = 0 \<and> moved = 0) \<and>
      (0 \<le> late \<and> late < ts_ns interval \<longrightarrow> n = 1 \<and> moved = ts_ns interval) \<and>
      (ts_ns interval \<le> late \<longrightarrow> n = word_of_int (whole + 1) \<and> moved = (whole + 2) * ts_ns interval) \<and>
      ts_ns now < ts_ns (expiry T') \<and> (0 \<le> late \<longrightarrow> ts_ns (expiry T') \<le> ts_ns now + 2 * ts_ns interval))"
proof -
  let ?f = "forwarded (ts_ns now) (ts_ns interval) (ts_ns (expiry T))"
  obtain n T' where f: "hrtimer_forward now interval T = Some (n, T')" "armed T' = armed T" "ts_ok (expiry T')"
    "n = word_of_int (fst ?f)" "ts_ns (expiry T') = snd ?f"
    using hrtimer_forward_ok [OF assms(1-6)] by auto
  note F = forwarded_future [OF assms(4), where e = "ts_ns (expiry T)" and now = "ts_ns now"]
  show ?thesis using f F(1,2) assms(4) by (auto simp: Let_def forwarded_def add.commute)
qed

theorem timer_forwarded_past_now_witness:
  "\<exists>n T'. hrtimer_forward \<lparr>tv_sec = 3, tv_nsec = 0\<rparr> \<lparr>tv_sec = 1, tv_nsec = 0\<rparr> \<lparr>expiry = \<lparr>tv_sec = 1, tv_nsec = 0\<rparr>, armed = None\<rparr> =
      Some (n, T') \<and> n = 3 \<and> ts_ns (expiry T') = 5000000000"
proof -
  let ?now = "\<lparr>tv_sec = 3, tv_nsec = 0\<rparr>" and ?i = "\<lparr>tv_sec = 1, tv_nsec = 0\<rparr>" and ?T = "\<lparr>expiry = \<lparr>tv_sec = 1, tv_nsec = 0\<rparr>, armed = None\<rparr>"
  have v: "ts_ns ?now = 3000000000" "ts_ns ?i = 1000000000" "ts_ns (expiry ?T) = 1000000000" by (simp_all add: ts_ns_def)
  have "ts_ok ?now" "ts_ok ?i" "ts_ok (expiry ?T)" by (simp_all add: ts_ok_def)
  from timer_forwarded_past_now [OF this, unfolded v] show ?thesis by (fastforce simp: Let_def)
qed

text \<open>C33: the handler of the real-time period goes round until a reading of the uptime is before the expiry it has set. As soon as
  three readings in a row, the \<open>k\<close>-th and the next two, fall within one period, it returns: it takes no reading after
  these, so that what the clock does later has no influence, it asks to be restarted, and the expiry is later than
  all the readings it took.\<close>

theorem period_timer_ends:
  assumes "\<forall>n\<le>Suc (Suc k). ts_ok (uptime n)" "ts_ok period" "ts_ok (expiry T)" "0 < ts_ns period" "ts_ns period < 4611686018427387904"
    and "\<forall>n\<le>Suc (Suc k). ts_ns (uptime n) - ts_ns (expiry T) < 4611686018427387904"
    and "ts_ns (uptime (Suc (Suc k))) < ts_ns (uptime k) + ts_ns period"
  shows "\<exists>T' m. sched_rt_period_timer uptime period T = Some (HRTIMER_RESTART, T') \<and> m \<le> Suc (Suc k) \<and>
    (\<forall>i\<le>m. ts_ns (uptime i) < ts_ns (expiry T')) \<and>
    (\<forall>v. (\<forall>i\<le>m. v i = uptime i) \<longrightarrow> sched_rt_period_timer v period T = sched_rt_period_timer uptime period T)"
  by (rule period_timer_returns [OF assms])

theorem period_timer_ends_witness:
  "\<exists>T'. sched_rt_period_timer (\<lambda>n. \<lparr>tv_sec = 5, tv_nsec = int n\<rparr>) \<lparr>tv_sec = 1, tv_nsec = 0\<rparr> hrtimer_init =
      Some (HRTIMER_RESTART, T') \<and> 5000000000 < ts_ns (expiry T')"
proof -
  define up where "up = (\<lambda>n. \<lparr>tv_sec = 5, tv_nsec = int n\<rparr>)"
  define per where "per = \<lparr>tv_sec = 1, tv_nsec = 0\<rparr>"
  have ns: "ts_ns (up n) = 5000000000 + int n" "ts_ns per = 1000000000" "ts_ns (expiry hrtimer_init) = 0" for n
    by (simp_all add: up_def per_def ts_ns_def hrtimer_init_def)
  have ok: "\<forall>n\<le>Suc (Suc 0). ts_ok (up n)" "ts_ok per" "ts_ok (expiry hrtimer_init)"
    by (simp_all add: up_def per_def ts_ok_def hrtimer_init_def)
  obtain T' m where T': "sched_rt_period_timer up per hrtimer_init = Some (HRTIMER_RESTART, T')"
    "\<forall>i\<le>m. ts_ns (up i) < ts_ns (expiry T')"
    using period_timer_ends [of 0 up per hrtimer_init, OF ok] by (auto simp: ns)
  have "5000000000 < ts_ns (expiry T')" using T'(2) [rule_format, of 0] ns(1) [of 0] by simp
  then show ?thesis using T'(1) unfolding up_def per_def by blast
qed

section \<open>Processor priorities, priority lists and the group hash\<close>

text \<open>C34: moving a processor to another level keeps masks, counters and levels consistent; afterwards a search for
  a thread's level succeeds exactly when a processor the thread may use has a lower one. The levels are those of
  \<open>convert_pri\<close>, which does not follow the priorities: it numbers a more urgent one lower.\<close>

theorem cpupri_set_consistent:
  assumes "cpupri_inv mx cpus cp" "cpu \<in> set cpus" "level_ok mx (convert_pri mx idle prio)"
    and "convert_pri mx idle prio \<noteq> cpu_to_pri cp cpu"
  shows "\<exists>cp'. cpupri_set mx idle cpu prio cp = Some cp' \<and> cpupri_inv mx cpus cp' \<and>
    cpu_to_pri cp' = (cpu_to_pri cp)(cpu := convert_pri mx idle prio) \<and>
    (\<forall>p. convert_pri mx idle p < CPUPRI_NR mx \<longrightarrow> (\<exists>b r. cpupri_find mx idle cp' p allowed result = Some (b, r) \<and>
      (b \<longleftrightarrow> (\<exists>c\<in>set cpus. c \<in> allowed \<and> cpu_to_pri cp' c \<noteq> CPUPRI_INVALID \<and> cpu_to_pri cp' c < convert_pri mx idle p))))"
proof -
  obtain cp' where c: "cpupri_set mx idle cpu prio cp = Some cp'" "cpupri_inv mx cpus cp'"
    "cpu_to_pri cp' = (cpu_to_pri cp)(cpu := convert_pri mx idle prio)"
    using cpupri_set_ok [OF assms] by blast
  show ?thesis by (rule exI [of _ cp']) (use c cpupri_find_ok [OF c(2), of idle _ allowed result] in blast)
qed

theorem cpupri_set_consistent_witness:
  "\<exists>cp'. cpupri_set 120 256 0 160 (cpupri_init [0, 1]) = Some cp' \<and> cpupri_inv 120 [0, 1] cp' \<and> cpu_to_pri cp' 0 = 1 \<and>
    (\<exists>r. cpupri_find 120 256 cp' 120 {0} None = Some (True, r))"
proof -
  have "cpupri_inv 120 [0, 1] (cpupri_init [0, 1])" by (rule cpupri_init_inv) simp
  moreover have "level_ok 120 (convert_pri 120 256 160)" "convert_pri 120 256 160 = 1"
    by (simp_all add: level_ok_def convert_pri_def CPUPRI_NR_def)
  moreover have "cpu_to_pri (cpupri_init [0, 1]) 0 = - 1" by (simp add: cpupri_init_def)
  ultimately obtain cp' where "cpupri_set 120 256 0 160 (cpupri_init [0, 1]) = Some cp'" "cpupri_inv 120 [0, 1] cp'"
    "cpu_to_pri cp' 0 = 1" and f: "\<And>p. convert_pri 120 256 p < CPUPRI_NR 120 \<Longrightarrow> \<exists>b r. cpupri_find 120 256 cp' p {0} None = Some (b, r) \<and>
      (b \<longleftrightarrow> (\<exists>c\<in>{0, 1}. c \<in> {0} \<and> cpu_to_pri cp' c \<noteq> CPUPRI_INVALID \<and> cpu_to_pri cp' c < convert_pri 120 256 p))"
    using cpupri_set_consistent [of 120 "[0, 1]" "cpupri_init [0, 1]" 0 256 160 "{0}" None] by auto
  moreover have "convert_pri 120 256 120 < CPUPRI_NR 120" "1 < convert_pri 120 256 120" by (simp_all add: convert_pri_def CPUPRI_NR_def)
  ultimately show ?thesis using f [of 120] by auto
qed

text \<open>C35: a priority list refines a list sorted by priority, first come first served among equals: adding a
  thread inserts it behind those at least as urgent; removing one takes just that thread out, whether it heads its level
  or not; and the first thread of the list is the first of the order.\<close>

theorem prio_list_refines_order:
  assumes "pl_inv P"
  shows "(t \<notin> set (pl_flat P) \<longrightarrow> pl_inv (prio_list_add t p P) \<and>
      pl_flat (prio_list_add t p P) = stable_insert ((pl_prio P)(t := p)) t (pl_flat P)) \<and>
    (t \<in> set (pl_flat P) \<longrightarrow> (\<exists>P'. prio_list_del t P = Some P' \<and> pl_inv P' \<and> pl_flat P' = remove1 t (pl_flat P))) \<and>
    prio_list_first P = (case pl_flat P of [] \<Rightarrow> None | x # _ \<Rightarrow> Some x)"
  using prio_list_add_ok [OF assms, of t p] prio_list_del_ok [OF assms, of t] prio_list_first_ok(1) [OF assms] by auto

theorem prio_list_refines_order_witness:
  "pl_inv (prio_list_add 4 5 plist0) \<and> pl_flat (prio_list_add 4 5 plist0) = [1, 2, 4, 3] \<and>
   (\<exists>P'. prio_list_del 1 plist0 = Some P' \<and> pl_inv P' \<and> pl_flat P' = [2, 3]) \<and> prio_list_first plist0 = Some 1"
proof -
  have "pl_inv plist0" and l: "pl_flat plist0 = [1, 2, 3]" by (auto simp: pl_inv_def pl_flat_def plist0_def)
  from prio_list_refines_order [OF this(1), of 4 5] prio_list_refines_order [OF this(1), of 1 5] show ?thesis
    by (auto simp: l) (simp_all add: stable_insert_def plist0_def)
qed

text \<open>C36: the hash of groups refines a finite map: groups added to an empty table under distinct
  identifiers are the ones found, and removing one makes it the one that is not.\<close>

theorem group_hash_refines_map:
  assumes "distinct (map gid_of gs)" "g \<in> set gs"
    and H: "H = fold (sched_group_hash_add gid_of) gs (sched_group_hash_init m)"
  shows "hash_find gid_of (gid_of g) H = Some g \<and>
    hash_find gid_of n (sched_group_hash_remove gid_of g H) = (if n = gid_of g then None else hash_find gid_of n H)"
proof -
  have i: "sghash_inv gid_of (sched_group_hash_init m)"
    "\<forall>g\<in>set gs. sghash_map gid_of (sched_group_hash_init m) (gid_of g) = None" by (simp_all add: sghash_init_inv)
  have f: "hash_find gid_of (gid_of g) H = Some g"
    using gh.add_all_find [OF i(1) assms(1) i(2) assms(2)] by (simp add: H sghash_map_def)
  have "sghash_inv gid_of H" using gh.add_all [OF i(1) assms(1) i(2)] by (simp add: H)
  then have "sghash_map gid_of (sched_group_hash_remove gid_of g H) = (sghash_map gid_of H)(gid_of g := None)"
    using gh.rem_law [of gid_of H g] f by (simp add: sghash_map_def)
  then have "hash_find gid_of n (sched_group_hash_remove gid_of g H) = (if n = gid_of g then None else hash_find gid_of n H)"
    by (auto simp: sghash_map_def fun_eq_iff)
  with f show ?thesis by blast
qed

theorem group_hash_refines_map_witness:
  "\<exists>H. hash_find id 17 H = Some 17 \<and> hash_find id 17 (sched_group_hash_remove id 17 H) = None \<and>
    hash_find id 33 (sched_group_hash_remove id 17 H) = hash_find id 33 H"
  using group_hash_refines_map [of id "[1, 17, 33]" 17 "fold (sched_group_hash_add id) [1, 17, 33] (sched_group_hash_init 15)" 15 17]
    group_hash_refines_map [of id "[1, 17, 33]" 17 "fold (sched_group_hash_add id) [1, 17, 33] (sched_group_hash_init 15)" 15 33]
  by (intro exI [of _ "fold (sched_group_hash_add id) [1, 17, 33] (sched_group_hash_init 15)"]) simp

section \<open>Priorities, groups and tunables\<close>

text \<open>C37: lending and giving back. A lent priority becomes the thread's, which counts as borrowing. When it is given
  back, the thread keeps the more urgent of what others still lend it and its own priority, counts as borrowing only in
  the first case, and its own priority has not changed.\<close>

theorem lent_priority_given_back:
  assumes "flag_ok t s"
  shows "\<exists>s1 s2. sched_lend_prio K t lent s = Some s1 \<and> td_priority (threads s1 t) = lent \<and> td_borrowing (threads s1 t) \<and>
    sched_unlend_prio K t still s1 = Some s2 \<and> td_priority (threads s2 t) = min still (own_pri K (threads s t)) \<and>
    (td_borrowing (threads s2 t) \<longleftrightarrow> still < own_pri K (threads s t)) \<and> own_pri K (threads s2 t) = own_pri K (threads s t)"
proof -
  obtain s1 where s1: "sched_lend_prio K t lent s = Some s1" "td_priority (threads s1 t) = lent" "td_borrowing (threads s1 t)"
    "own_pri K (threads s1 t) = own_pri K (threads s t)" "flag_ok t s1" using lend_prio_ok [OF assms] by blast
  from unlend_prio_ok [OF s1(5), of K still] s1 show ?thesis by auto
qed

theorem lent_priority_given_back_witness:
  "\<exists>s1 s2. sched_lend_prio K0 0 100 s0 = Some s1 \<and> td_priority (threads s1 0) = 100 \<and>
    sched_unlend_prio K0 0 255 s1 = Some s2 \<and> td_priority (threads s2 0) = 160 \<and> \<not> td_borrowing (threads s2 0)"
proof -
  have "flag_ok 0 s0" by (simp add: flag_ok_def thread0_def)
  moreover have "own_pri K0 (threads s0 0) = 160" by (simp add: own_pri_def thread0_def K0_def)
  ultimately show ?thesis using lent_priority_given_back [of 0 s0 K0 100 255] by fastforce
qed


text \<open>C38: creating a group. In a sane tree of groups, with fresh memory and a fresh identifier, it adds
  one child of the parent under its name, keeps the tree sane, and extends the table of identifiers
  by just that entry.\<close>

theorem created_group_is_found:
  assumes "group_tree s" "parent \<in> set (all_sched_groups s)" "al_group A = Some n" "fresh_alloc A s"
    and "param_name param = [] \<or> sched_group_find_by_name parent (param_name param) s = None"
    and "sched_group_create A parent param s = (Some g, s')"
  shows "group_tree s' \<and> set (all_sched_groups s') = insert g (set (all_sched_groups s)) \<and>
    (\<lambda>k. sched_group_find k s') = (\<lambda>k. sched_group_find k s)(al_id A \<mapsto> g)"
  using create_tree(1,3,4) [OF assms] by blast

theorem created_group_is_found_witness:
  "\<exists>s'. sched_group_create alloc0 ROOT_GROUP (Some (''new'', 2048)) s0 = (Some (ZONE_GROUP 1), s') \<and>
    group_tree s' \<and> sched_group_find 2 s' = Some (ZONE_GROUP 1)"
proof -
  obtain s' where run: "sched_group_create alloc0 ROOT_GROUP (Some (''new'', 2048)) s0 = (Some (ZONE_GROUP 1), s')"
    using create0 by blast
  have nm: "sched_group_find_by_name ROOT_GROUP (param_name (Some (''new'', 2048 :: u32))) s0 = None"
    by (simp add: sched_group_find_by_name_def param_name_def group0_def)
  have "ROOT_GROUP \<in> set (all_sched_groups s0)" by (simp add: s0_def)
  from created_group_is_found [OF group_tree0 this _ fresh0 _ run, of 1] nm
  have "group_tree s'" "(\<lambda>k. sched_group_find k s') = (\<lambda>k. sched_group_find k s0)(2 \<mapsto> ZONE_GROUP 1)"
    by (simp_all add: alloc0_def)
  then show ?thesis using run by (simp add: fun_eq_iff)
qed

text \<open>C39: destroying a group. One with children or threads is busy and nothing changes; an empty one
  other than the root is taken out of its parent's children and of the table, and the tree stays sane.\<close>

theorem destroyed_group_is_gone:
  assumes "group_tree s" "g \<in> set (all_sched_groups s)" "g \<noteq> ROOT_GROUP" "sg_sfq (groups s g) \<noteq> None"
  shows "if sg_children (groups s g) \<noteq> [] \<or> sg_threads (groups s g) \<noteq> []
    then sched_group_destroy g s = Some (Some EBUSY, s)
    else \<exists>s'. sched_group_destroy g s = Some (None, s') \<and> group_tree s' \<and>
      set (all_sched_groups s') = set (all_sched_groups s) - {g} \<and>
      (\<lambda>k. sched_group_find k s') = (\<lambda>k. sched_group_find k s)(sg_id (groups s g) := None)"
  using destroy_busy [of s g] destroy_tree [OF assms(1-3) _ _ assms(4)] by (cases "sg_children (groups s g)") auto

theorem destroyed_group_is_gone_witness:
  "(\<exists>s'. sched_group_destroy (ZONE_GROUP 0) s0 = Some (None, s') \<and> group_tree s' \<and> sched_group_find 1 s' = None) \<and>
   sched_group_destroy (ZONE_GROUP 0) (upd_g (ZONE_GROUP 0) (\<lambda>g. g\<lparr>sg_threads := [5]\<rparr>) s0) =
     Some (Some EBUSY, upd_g (ZONE_GROUP 0) (\<lambda>g. g\<lparr>sg_threads := [5]\<rparr>) s0)"
proof
  have g: "ZONE_GROUP 0 \<in> set (all_sched_groups s0)" "sg_sfq (groups s0 (ZONE_GROUP 0)) \<noteq> None" "ZONE_GROUP 0 \<noteq> ROOT_GROUP"
    "sg_children (groups s0 (ZONE_GROUP 0)) = []" "sg_threads (groups s0 (ZONE_GROUP 0)) = []" "sg_id (groups s0 (ZONE_GROUP 0)) = 1"
    by (simp_all add: s0_def group0_def)
  show "\<exists>s'. sched_group_destroy (ZONE_GROUP 0) s0 = Some (None, s') \<and> group_tree s' \<and> sched_group_find 1 s' = None"
    using destroyed_group_is_gone [OF group_tree0 g(1,3,2)] g(4-) by (auto simp: fun_eq_iff)
  let ?s = "upd_g (ZONE_GROUP 0) (\<lambda>g. g\<lparr>sg_threads := [5]\<rparr>) s0"
  have "group_tree ?s = group_tree s0" by (rule group_tree_cong) (simp_all add: upd_g_def tree_fields_def)
  moreover have "ZONE_GROUP 0 \<in> set (all_sched_groups ?s)" "sg_sfq (groups ?s (ZONE_GROUP 0)) \<noteq> None"
    using g by (simp_all add: upd_g_def)
  ultimately show "sched_group_destroy (ZONE_GROUP 0) ?s = Some (Some EBUSY, ?s)"
    using destroyed_group_is_gone [of ?s "ZONE_GROUP 0"] group_tree0 by (simp add: upd_g_def)
qed

section \<open>The file system of groups\<close>

text \<open>C21: the file system stays sane. After it is set up, whatever sequence of lookups, directories made and
  removed, vnodes reclaimed, listings and attribute changes follows: the tree of nodes agrees with the
  children, every directory has its dot entries, every reference count is the number of references,
  vnodes and nodes agree, names are unique, and no two directories share a file number.\<close>

theorem files_stay_sane:
  assumes "unr_laws E" "sgfs_init E c (x, x1, x2) = Some s"
    and "na_addr x \<noteq> na_addr x1" "na_addr x \<noteq> na_addr x2" "na_addr x1 \<noteq> na_addr x2" and "fs_reach E s s'"
  shows "fs_ok s'"
proof -
  have "s = fs_start c (alloc_unr E []) x x1 x2" using assms(2) init_run [OF assms(3-5)] by simp
  then have "fs_ok s" using start_ok [OF assms(3-5)] assms(1) by (simp add: unr_laws_def)
  then show ?thesis using reach_keeps assms(1,6) by blast
qed

theorem files_stay_sane_witness: "fs_reach env0 fs0 fs3 \<and> fs_ok fs3"
proof -
  have "fs_reach env0 fs0 fs3" using fs_step1 fs_step2 fs_step3 reach_refl reach_step by metis
  with files_stay_sane [OF unr0 init0 _ _ _ this] show ?thesis by (simp add: node_at_def)
qed

text \<open>C22: lookup, on every path. It returns an error, or a vnode of the caller's mount that stands for the node
  the name has in the directory: itself for one dot, its parent for two, else the entry. The tree and
  all vnodes stay as they were, and no reference is left behind. The one exception is a defect of the
  code: in a directory that was removed while a process sits in it, two dots fail the assertion on the parent.\<close>

theorem lookup_gives_the_entry:
  assumes "fs_ok s" "sg_vnodes s dvp = Some vn" "v_data vn = Some d" "cn_ok cn" "undisturbed A s"
  shows "if cn_name cn = ''..'' \<and> gone (view s) d \<and> \<not> (cn_islast cn \<and> cn_nameiop cn \<noteq> LOOKUP) \<and>
      sgfs_access E dvp VEXEC (cn_cred cn) s = Some None
    then sgfs_lookup E dvp cn A s = None
    else \<exists>e w s'. sgfs_lookup E dvp cn A s = Some (e, w, s') \<and>
      lookup_result s (v_mount vn) (resolve (view s) d (cn_name cn)) e w s'"
  using lookup_outcome [OF assms] .

theorem lookup_gives_the_entry_witness:
  "sgfs_lookup env0 11 (name_cn ''..'' LOOKUP) (vnode_at 12) fs3 = None \<and>
   (\<exists>e w s'. sgfs_lookup env0 10 (name_cn ''a'' LOOKUP) (vnode_at 12) fs2 = Some (e, w, s') \<and> lookup_result fs2 7 (Some 3) e w s')"
proof
  obtain vn where vn: "sg_vnodes fs3 11 = Some vn" "v_data vn = Some 3" using vnodes3 by (auto simp: VTON_def split: Option.bind_splits)
  have a: "sgfs_access env0 11 VEXEC (cn_cred (name_cn ''..'' LOOKUP)) fs3 = Some None" by code_simp
  show "sgfs_lookup env0 11 (name_cn ''..'' LOOKUP) (vnode_at 12) fs3 = None"
    using lookup_gives_the_entry [OF fs3_ok vn cn0(2), of "vnode_at 12" LOOKUP env0] a views(3) undisturbed3
    by (simp add: name_cn_def)
  obtain wn where wn: "sg_vnodes fs2 10 = Some wn" "v_data wn = Some 0" "v_mount wn = 7" using mount2 by auto
  then show "\<exists>e w s'. sgfs_lookup env0 10 (name_cn ''a'' LOOKUP) (vnode_at 12) fs2 = Some (e, w, s') \<and>
      lookup_result fs2 7 (Some 3) e w s'"
    using lookup_gives_the_entry [OF fs2_ok wn(1,2) cn0(1), of "vnode_at 12" LOOKUP env0] undisturbed2 views(2)
    by (simp add: name_cn_def resolve_def)
qed

text \<open>C23: making a directory and looking it up. With memory at hand, it succeeds; the one new entry of the
  directory is the new node, which has just its dot entries; and every later lookup of the name by a caller
  who may search the directory finds it, under the vnode that was handed out.\<close>

theorem made_directory_is_found:
  assumes ok: "fs_ok s" and v: "sg_vnodes s dvp = Some vn" "v_data vn = Some d"
    and cn: "cn_ok cn" "cn_hasbuf cn" "length (cn_name cn) < SGFS_NAMELEN" "cn_name cn \<noteq> ''.''" "cn_name cn \<noteq> ''..''"
    and new: "entry (view s) d (cn_name cn) = None" and N: "fresh_nodes (x, x1, x2) s"
    and A: "undisturbed A s" "va_getnew A = None" "va_insmntque A = None" "va_vget A = None"
  shows "\<exists>y s'. sgfs_mkdir dvp cn mode (x, x1, x2) A s = Some (None, Some y, s') \<and> fs_ok s' \<and>
    entry (view s') = (entry (view s))(d := (entry (view s) d)(cn_name cn \<mapsto> na_addr x),
      na_addr x := [''..'' \<mapsto> na_addr x2, ''.'' \<mapsto> na_addr x1]) \<and>
    (\<forall>E cn2 A2. cn_ok cn2 \<and> cn_name cn2 = cn_name cn \<and> cn_nameiop cn2 = LOOKUP \<and>
        sgfs_access E dvp VEXEC (cn_cred cn2) s' = Some None \<and> undisturbed A2 s' \<and> va_getnew A2 = None \<and> va_insmntque A2 = None \<and>
        va_vget A2 = None \<longrightarrow>
      (\<exists>s''. sgfs_lookup E dvp cn2 A2 s' = Some (None, Some y, s'') \<and> fs_ok s'' \<and> stands_for (v_mount vn) (na_addr x) s'' y))"
proof -
  have nn: "CHR 0x00 \<notin> set (cn_name cn)" using cn(1) by (simp add: cn_ok_def)
  obtain y s' where r: "sgfs_mkdir dvp cn mode (x, x1, x2) A s = Some (None, y, s')" "fs_ok s'" "vnodes_kept s s'"
    "entry (view s') = (entry (view s))(d := (entry (view s) d)(cn_name cn \<mapsto> na_addr x),
      na_addr x := [''..'' \<mapsto> na_addr x2, ''.'' \<mapsto> na_addr x1])"
    "\<forall>w. y = Some w \<longrightarrow> stands_for (v_mount vn) (na_addr x) s' w" "y \<noteq> None"
    using mkdir_entries [OF ok v cn(2) nn cn(3) new N A(1), of mode] A(2-4) by auto
  obtain w where w: "y = Some w" "stands_for (v_mount vn) (na_addr x) s' w" using r(5,6) by blast
  have v': "sg_vnodes s' dvp = Some vn" using r(3) v(1) by (simp add: vnodes_kept_def)
  have "\<exists>s''. sgfs_lookup E dvp cn2 A2 s' = Some (None, Some w, s'') \<and> fs_ok s'' \<and> stands_for (v_mount vn) (na_addr x) s'' w"
    if c: "cn_ok cn2" "cn_name cn2 = cn_name cn" "cn_nameiop cn2 = LOOKUP" "sgfs_access E dvp VEXEC (cn_cred cn2) s' = Some None"
      "undisturbed A2 s'" "va_getnew A2 = None" "va_insmntque A2 = None" "va_vget A2 = None" for E cn2 A2
  proof -
    have S: "searchable E dvp cn2 s' vn d" using r(2) v' v(2) c cn(3) by (simp add: searchable_def)
    have "d \<noteq> na_addr x" using N vnode_node(1) [of "\<lambda>_. 0" s dvp vn d] ok v by (auto simp: fresh_nodes_def fs_ok_def)
    then have "entry (view s') d (cn_name cn2) = Some (na_addr x)" using r(4) c(2) by simp
    then obtain e u s'' where L: "sgfs_lookup E dvp cn2 A2 s' = Some (e, u, s'')"
      "lookup_result s' (v_mount vn) (Some (na_addr x)) e u s''" "e = None"
      using lookup_found [OF S c(1) _ _ _ c(5)] c cn(4,5) by fastforce
    then obtain z where z: "u = Some z" "fs_ok s''" "stands_for (v_mount vn) (na_addr x) s'' z" "vnodes_kept s' s''"
      by (auto simp: lookup_result_def)
    have "stands_for (v_mount vn) (na_addr x) s'' w" using w(2) z(4) unfolding stands_for_def vnodes_kept_def by blast
    then show ?thesis using one_vnode [OF z(2)] z L by blast
  qed
  then show ?thesis using r(1,2,4) w(1) by blast
qed

theorem made_directory_is_found_witness:
  "\<exists>y s' s''. sgfs_mkdir 10 (name_cn ''a'' CREATE) 493 (node_at 3, node_at 4, node_at 5) (vnode_at 11) fs1 = Some (None, Some y, s') \<and>
    sgfs_lookup env0 10 (name_cn ''a'' LOOKUP) (vnode_at 12) s' = Some (None, Some y, s'') \<and> stands_for 7 3 s'' y"
proof -
  have "map_option (\<lambda>wn. (v_data wn, v_mount wn)) (sg_vnodes fs1 10) = Some (Some 0, 7)" by code_simp
  then obtain vn where vn: "sg_vnodes fs1 10 = Some vn" "v_data vn = Some 0" "v_mount vn = 7" by auto
  have a: "sgfs_access env0 10 VEXEC (cn_cred (name_cn ''a'' LOOKUP)) fs2 = Some None" by code_simp
  obtain y s' where r: "sgfs_mkdir 10 (name_cn ''a'' CREATE) 493 (node_at 3, node_at 4, node_at 5) (vnode_at 11) fs1 = Some (None, Some y, s')"
    "\<And>E cn2 A2. \<lbrakk>cn_ok cn2; cn_name cn2 = ''a''; cn_nameiop cn2 = LOOKUP; sgfs_access E 10 VEXEC (cn_cred cn2) s' = Some None;
      undisturbed A2 s'; va_getnew A2 = None; va_insmntque A2 = None; va_vget A2 = None\<rbrakk> \<Longrightarrow>
      \<exists>s''. sgfs_lookup E 10 cn2 A2 s' = Some (None, Some y, s'') \<and> fs_ok s'' \<and> stands_for 7 3 s'' y"
    using made_directory_is_found [OF fs1_ok vn(1,2) cn0(1), of CREATE "node_at 3" "node_at 4" "node_at 5" "vnode_at 11" 493]
      vn(3) fresh1 undisturbed2(3) views(1)
    by (auto simp: name_cn_def vnode_at_def node_at_def SGFS_NAMELEN_def)
  have s: "s' = fs2" using r(1) fs_run2 by simp
  show ?thesis using r(1) r(2) [OF cn0(1), of LOOKUP env0 "vnode_at 12"] a undisturbed2(1) s by (auto simp: name_cn_def vnode_at_def)
qed

text \<open>C24: removing a directory. What is not a directory, is removed already, or has entries besides its dot
  entries, is refused with the error for it and nothing changes. Otherwise the directory's one entry
  disappears and the node is marked as removed, but stays with its vnode, which is still held.\<close>

theorem rmdir_outcomes:
  assumes "fs_ok s" "sg_vnodes s v = Some vn" "v_data vn = Some n"
  shows "if kind (view s) n \<noteq> Some sgfstype_dir then sgfs_rmdir v s = Some (Some ENOTDIR, s)
    else if gone (view s) n then sgfs_rmdir v s = Some (Some ENOENT, s)
    else if length (kids (view s) n) \<noteq> 2 then sgfs_rmdir v s = Some (Some ENOTEMPTY, s)
    else \<exists>p s'. par (view s) n = Some p \<and> sgfs_rmdir v s = Some (None, s') \<and> fs_ok s' \<and> sg_vnodes s' = sg_vnodes s \<and>
      kind (view s') n = Some sgfstype_dir \<and> gone (view s') n \<and>
      (\<not> gone (view s) p \<longrightarrow> entry (view s') = (entry (view s))(p := (entry (view s) p)(nam (view s) n := None)))"
proof (cases "kind (view s) n \<noteq> Some sgfstype_dir \<or> gone (view s) n \<or> length (kids (view s) n) \<noteq> 2")
  case True
  then show ?thesis using rmdir_refused [OF assms True] by auto
next
  case False
  then have "par (view s) n \<noteq> None" using shapeD(4) [OF fs_invD(2), of "\<lambda>_. 0" "view s" n] assms(1) by (simp add: fs_ok_def)
  then show ?thesis using rmdir_ok [OF assms] False by fastforce
qed

theorem rmdir_outcomes_witness:
  "(\<exists>s'. sgfs_rmdir 11 fs2 = Some (None, s') \<and> fs_ok s' \<and> entry (view s') 0 ''a'' = None) \<and>
   sgfs_rmdir 11 fs3 = Some (Some ENOENT, fs3) \<and> sgfs_rmdir 10 fs2 = Some (Some ENOTDIR, fs2)"
proof (intro conjI)
  obtain vn where vn: "sg_vnodes fs2 11 = Some vn" "v_data vn = Some 3" using vnodes2(1) by (auto simp: VTON_def split: Option.bind_splits)
  have "nam (view fs2) 3 = ''a''" by code_simp
  then show "\<exists>s'. sgfs_rmdir 11 fs2 = Some (None, s') \<and> fs_ok s' \<and> entry (view s') 0 ''a'' = None"
    using rmdir_outcomes [OF fs2_ok vn] views(6-10) by auto
  obtain wn where wn: "sg_vnodes fs3 11 = Some wn" "v_data wn = Some 3" using vnodes3(1) by (auto simp: VTON_def split: Option.bind_splits)
  have "kind (view fs3) 3 = Some sgfstype_dir" by code_simp
  then show "sgfs_rmdir 11 fs3 = Some (Some ENOENT, fs3)" using rmdir_outcomes [OF fs3_ok wn] views(3) by simp
  obtain un where un: "sg_vnodes fs2 10 = Some un" "v_data un = Some 0" using vnodes2(2) by (auto simp: VTON_def split: Option.bind_splits)
  have "kind (view fs2) 0 = Some sgfstype_root" by code_simp
  then show "sgfs_rmdir 10 fs2 = Some (Some ENOTDIR, fs2)" using rmdir_outcomes [OF fs2_ok un] by simp
qed

text \<open>C25: giving up a vnode. It always succeeds. When the vnode was the last one of a removed directory, just
  that directory and its two dot entries are freed, and its file number with them; in every other case
  the whole tree stays. So no node leaks and none is freed while it is in use.\<close>

theorem reclaim_frees_removed_directory:
  assumes "fs_ok s" "sg_vnodes s v = Some vn" "v_data vn = Some n"
  shows "\<exists>s'. sgfs_reclaim v s = Some s' \<and> fs_ok s' \<and> sg_vnodes s' = (sg_vnodes s)(v := None) \<and>
    (if gone (view s) n \<and> vns (view s) n = [v] \<and> length (kids (view s) n) = 2
     then \<exists>b a. kids (view s) n = [b, a] \<and> (\<forall>m. kind (view s') m = (if m \<in> {n, b, a} then None else kind (view s) m)) \<and>
       set (unrs s') = set (unrs s) - {fno (view s) n}
     else same_tree (view s) (view s'))"
  using reclaim_ok [OF assms] .

theorem reclaim_frees_removed_directory_witness:
  "\<exists>s'. sgfs_reclaim 11 fs3 = Some s' \<and> fs_ok s' \<and> kind (view s') 3 = None \<and> kind (view s') 4 = None \<and> kind (view s') 5 = None"
proof -
  obtain wn where wn: "sg_vnodes fs3 11 = Some wn" "v_data wn = Some 3" using vnodes3(1) by (auto simp: VTON_def split: Option.bind_splits)
  show ?thesis using reclaim_frees_removed_directory [OF fs3_ok wn] views(3-5) by auto
qed

text \<open>C26: listing a directory that was not removed. The listing ends without a failed assertion; with room and
  no error of the copy it has every entry once, in order, each with a file number; numbers are given to
  nodes that had none, and no number that was given changes.\<close>

theorem listing_complete:
  assumes "fs_ok s" "sg_vnodes s v = Some vn" "v_data vn = Some d" "\<not> gone (view s) d" "unr_laws E"
  shows "\<exists>e off out s'. sgfs_readdir E rd v start resid s = Some (e, off, out, s') \<and> fs_ok s' \<and> more_numbers (view s) (view s') \<and>
    (start = 0 \<and> 0 \<le> sizeof_dirent E \<and> rd = (\<lambda>_. None) \<and> int (length (kids (view s) d)) * sizeof_dirent E \<le> resid \<longrightarrow>
      e = None \<and> out = listing (view s') (kids (view s) d) \<and> (\<forall>c\<in>set (kids (view s) d). fno (view s') c \<noteq> 0))"
  using readdir_ok [OF assms] .

theorem listing_complete_witness:
  "\<exists>off out s'. sgfs_readdir env0 (\<lambda>_. None) 10 0 4096 fs2 = Some (None, off, out, s') \<and> fs_ok s' \<and>
    map d_name out = [''a'', ''..'', ''.''] \<and> (\<forall>n\<in>{1, 2, 3}. fno (view s') n \<noteq> 0)"
proof -
  obtain vn where vn: "sg_vnodes fs2 10 = Some vn" "v_data vn = Some 0" using vnodes2(2) by (auto simp: VTON_def split: Option.bind_splits)
  have nm: "nam (view fs2) 3 = ''a''" "nam (view fs2) 2 = ''..''" "nam (view fs2) 1 = ''.''" by code_simp+
  obtain e off out s' where r: "sgfs_readdir env0 (\<lambda>_. None) 10 0 4096 fs2 = Some (e, off, out, s')" "fs_ok s'"
    "more_numbers (view fs2) (view s')" "e = None" "out = listing (view s') [3, 2, 1]" "\<forall>c\<in>{3, 2, 1}. fno (view s') c \<noteq> 0"
    using listing_complete [OF fs2_ok vn _ unr0, of "\<lambda>_. None" 0 4096] by (auto simp: env0_def views)
  then show ?thesis using nm by (auto simp: listing_def more_same(5) SGFS_NAMELEN_def)
qed

text \<open>C27: unloading the file system. As compiled, with \<open>unloadable\<close> 0, it is refused with EOPNOTSUPP and changes nothing. With the
  constant set, and no removed directory still held, the destruction of the tree ends and frees every node and
  every file number.\<close>

theorem teardown_frees_everything:
  assumes "fs_ok s" "\<And>n. \<not> gone (view s) n"
  shows "sgfs_uninit unloadable s = Some (Some EOPNOTSUPP, s) \<and>
    (\<exists>s'. sgfs_uninit True s = Some (None, s') \<and> (\<forall>n. sg_nodes s' n = None) \<and> unrs s' = [] \<and> fs_root s' = None)"
proof -
  have "sgfs_uninit unloadable s = Some (Some EOPNOTSUPP, s)" by (simp add: sgfs_uninit_def unloadable_def)
  with uninit_ok [OF assms] show ?thesis by blast
qed

theorem teardown_frees_everything_witness:
  "\<exists>s'. sgfs_uninit True fs0 = Some (None, s') \<and> (\<forall>n. sg_nodes s' n = None) \<and> unrs s' = []"
proof -
  have "\<not> gone (view fs0) n" for n by (simp add: view_def of_node_def fs0_def fs_start_def Let_def)
  from teardown_frees_everything [OF fs0_ok this] show ?thesis by blast
qed

end
